(* ===== verification/Prelude.thy ===== *)
theory Prelude
  imports Main "HOL-Library.Word" "HOL-Library.Monad_Syntax"
begin

text \<open>
  Shared vocabulary of the development.

  Bytes are 8-bit words and a C memory area is the list of its bytes.  A C function that
  touches memory outside the object it was given has no defined result, so the functions
  that touch memory return an \<open>option\<close>: \<open>None\<close> is the undefined behaviour of an access
  out of bounds (or through a dangling pointer) and \<open>Some\<close> a defined outcome.  The
  C return codes (0, -1, 1, -2) stay integers, so the error paths of the source are
  ordinary values.

  \<open>size_t\<close> and \<open>uint64_t\<close> quantities are naturals below \<open>2 ^ 64\<close>; the additions and
  subtractions of the source that can leave that range are \<open>sz_add\<close> and \<open>sz_sub\<close>, which
  wrap as the unsigned arithmetic of C does.
\<close>

unbundle bit_operations_syntax

named_theorems mem_simps \<open>facts about memory areas\<close>
named_theorems sz_simps \<open>facts about wrapping unsigned arithmetic\<close>
named_theorems codec \<open>facts about the byte codecs\<close>

type_synonym byte = "8 word"
type_synonym u16 = "16 word"
type_synonym u32 = "32 word"
type_synonym u64 = "64 word"
type_synonym bytes = "byte list"

section \<open>Characters and constants\<close>

definition ch :: "char \<Rightarrow> byte" where
  "ch c = word_of_nat (of_char c)"

definition str :: "string \<Rightarrow> bytes" where
  "str s = map ch s"

lemma length_str [simp]: "length (str s) = length s"
  by (simp add: str_def)

lemma str_Nil [simp]: "str [] = []"
  by (simp add: str_def)

lemma str_eq_Nil [simp]: "str s = [] \<longleftrightarrow> s = []" "[] = str s \<longleftrightarrow> s = []"
  by (auto simp: str_def)

section \<open>Wrapping unsigned arithmetic\<close>

abbreviation SIZE_MOD :: nat where
  "SIZE_MOD \<equiv> 18446744073709551616"

definition sz_add :: "nat \<Rightarrow> nat \<Rightarrow> nat" where
  "sz_add a b = (a + b) mod SIZE_MOD"

definition sz_sub :: "nat \<Rightarrow> nat \<Rightarrow> nat" where
  "sz_sub a b = (a + (SIZE_MOD - b)) mod SIZE_MOD"

lemma sz_add_exact [sz_simps]: "a + b < SIZE_MOD \<Longrightarrow> sz_add a b = a + b"
  by (simp add: sz_add_def)

lemma sz_sub_exact [sz_simps]: "b \<le> a \<Longrightarrow> a < SIZE_MOD \<Longrightarrow> sz_sub a b = a - b"
proof -
  assume "b \<le> a" "a < SIZE_MOD"
  then have "a + (SIZE_MOD - b) = (a - b) + SIZE_MOD" by simp
  with \<open>a < SIZE_MOD\<close> show ?thesis
    unfolding sz_sub_def by (metis less_imp_diff_less mod_add_self2 mod_less)
qed

lemma sz_sub_wraps: "a < b \<Longrightarrow> b \<le> SIZE_MOD \<Longrightarrow> sz_sub a b = SIZE_MOD - (b - a)"
  by (simp add: sz_sub_def)

lemma sz_add_bound [simp]: "sz_add a b < SIZE_MOD"
  by (simp add: sz_add_def)

lemma sz_sub_bound [simp]: "sz_sub a b < SIZE_MOD"
  by (simp add: sz_sub_def)

section \<open>Memory areas\<close>

definition mem_read :: "'a list \<Rightarrow> nat \<Rightarrow> nat \<Rightarrow> 'a list option" where
  "mem_read m p n = (if p + n \<le> length m then Some (take n (drop p m)) else None)"

definition mem_write :: "'a list \<Rightarrow> nat \<Rightarrow> 'a list \<Rightarrow> 'a list option" where
  "mem_write m p s =
     (if p + length s \<le> length m
      then Some (take p m @ s @ drop (p + length s) m) else None)"

definition mem_move :: "'a list \<Rightarrow> nat \<Rightarrow> nat \<Rightarrow> nat \<Rightarrow> 'a list option" where
  "mem_move m dst src n = do { s \<leftarrow> mem_read m src n; mem_write m dst s }"

definition mem_get :: "'a list \<Rightarrow> nat \<Rightarrow> 'a option" where
  "mem_get m p = (if p < length m then Some (m ! p) else None)"

lemma mem_read_Some_iff:
  "mem_read m p n = Some s \<longleftrightarrow> p + n \<le> length m \<and> s = take n (drop p m)"
  by (auto simp: mem_read_def)

lemma mem_write_Some_iff:
  "mem_write m p s = Some m' \<longleftrightarrow>
     p + length s \<le> length m \<and> m' = take p m @ s @ drop (p + length s) m"
  by (auto simp: mem_write_def)

lemma mem_write_length [mem_simps]: "mem_write m p s = Some m' \<Longrightarrow> length m' = length m"
  by (auto simp: mem_write_Some_iff)

lemma mem_write_take [mem_simps]: "mem_write m p s = Some m' \<Longrightarrow> take p m' = take p m"
  by (auto simp: mem_write_Some_iff)

lemma mem_write_upto [mem_simps]:
  "mem_write m p s = Some m' \<Longrightarrow> take (p + length s) m' = take p m @ s"
  by (auto simp: mem_write_Some_iff)

lemma mem_read_write_same:
  "mem_write m p s = Some m' \<Longrightarrow> mem_read m' p (length s) = Some s"
  by (auto simp: mem_write_Some_iff mem_read_def)

lemma mem_read_write_below:
  assumes "mem_write m p s = Some m'" "q + n \<le> p"
  shows "mem_read m' q n = mem_read m q n"
proof -
  from assms have m': "m' = take p m @ s @ drop (p + length s) m" and le: "p + length s \<le> length m"
    by (auto simp: mem_write_Some_iff)
  have "take n (drop q m') = take n (drop q (take p m))"
    using m' le assms(2) by simp
  also have "\<dots> = take n (drop q m)"
    using assms(2) by (simp add: drop_take min_def)
  finally show ?thesis
    using m' le by (simp add: mem_read_def)
qed

lemma mem_read_write_above:
  assumes "mem_write m p s = Some m'" "p + length s \<le> q"
  shows "mem_read m' q n = mem_read m q n"
  using assms by (auto simp: mem_write_Some_iff mem_read_def)

lemma mem_write_nth:
  assumes "mem_write m p s = Some m'" "q < length m"
  shows "m' ! q = (if p \<le> q \<and> q < p + length s then s ! (q - p) else m ! q)"
proof -
  from assms have m': "m' = take p m @ s @ drop (p + length s) m" and le: "p + length s \<le> length m"
    by (auto simp: mem_write_Some_iff)
  consider "q < p" | "p \<le> q" "q < p + length s" | "p + length s \<le> q" by linarith
  then show ?thesis
  proof cases
    case 3
    then have "\<not> q - p < length s" by linarith
    with 3 le assms(2) show ?thesis by (simp add: m' nth_append)
  qed (use m' le in \<open>auto simp: nth_append\<close>)
qed

lemma mem_read_length: "mem_read m p n = Some s \<Longrightarrow> length s = n"
  by (auto simp: mem_read_Some_iff)

lemma take_drop_append: "take n (drop m xs) @ drop (m + n) xs = drop m xs"
  by (metis add.commute append_take_drop_id drop_drop)

section \<open>Byte codecs\<close>

text \<open>The C idiom \<open>buf[i] = (uint8_t) ((num >> 8 * k) & 0xff)\<close>: byte \<open>k\<close> of a number.\<close>

definition byte_of :: "'a::len word \<Rightarrow> nat \<Rightarrow> byte" where
  "byte_of w k = ucast ((drop_bit (8 * k) w) AND 0xff)"

definition le_bytes :: "nat \<Rightarrow> 'a::len word \<Rightarrow> bytes" where
  "le_bytes n w = map (byte_of w) [0..<n]"

definition be_bytes :: "nat \<Rightarrow> 'a::len word \<Rightarrow> bytes" where
  "be_bytes n w = rev (le_bytes n w)"

fun le_nat :: "bytes \<Rightarrow> nat" where
  "le_nat [] = 0"
| "le_nat (b # bs) = unat b + 256 * le_nat bs"

definition be_nat :: "bytes \<Rightarrow> nat" where
  "be_nat bs = le_nat (rev bs)"

lemma length_le_bytes [simp]: "length (le_bytes n w) = n"
  by (simp add: le_bytes_def)

lemma length_be_bytes [simp]: "length (be_bytes n w) = n"
  by (simp add: be_bytes_def)

lemma unat_byte_of [codec]: "unat (byte_of w k) = unat w div 256 ^ k mod 256"
proof -
  have "unat (byte_of w k) = unat (drop_bit (8 * k) w AND 0xff) mod 256"
    by (simp add: byte_of_def unsigned_ucast_eq take_bit_eq_mod)
  also have "\<dots> = unat (take_bit 8 (drop_bit (8 * k) w)) mod 256"
    by (simp add: take_bit_eq_mask mask_eq_exp_minus_1)
  also have "\<dots> = take_bit 8 (drop_bit (8 * k) (unat w)) mod 256"
    by (simp only: unsigned_take_bit_eq unat_drop_bit_eq)
  also have "\<dots> = unat w div 2 ^ (8 * k) mod 256"
    by (simp add: drop_bit_eq_div take_bit_eq_mod)
  finally show ?thesis by (simp add: power_mult)
qed

lemma le_nat_bound: "le_nat bs < 256 ^ length bs"
proof (induction bs)
  case Nil
  then show ?case by simp
next
  case (Cons b bs)
  have "unat b < 256" using unsigned_less [of b] by simp
  with Cons show ?case by simp
qed

lemma le_nat_map_div:
  "le_nat (map (byte_of w) [k..<k + n]) = unat w div 256 ^ k mod 256 ^ n"
proof (induction n arbitrary: k)
  case 0
  then show ?case by simp
next
  case (Suc n)
  have "[k..<k + Suc n] = k # [Suc k..<Suc k + n]"
    by (simp add: upt_conv_Cons)
  then have "le_nat (map (byte_of w) [k..<k + Suc n]) =
      unat w div 256 ^ k mod 256 + 256 * (unat w div 256 ^ Suc k mod 256 ^ n)"
    using Suc [of "Suc k"] by (simp add: unat_byte_of del: power_Suc)
  also have "unat w div 256 ^ Suc k = unat w div 256 ^ k div 256"
    by (metis div_mult2_eq mult.commute power_Suc)
  finally show ?case
    by (simp add: mod_mult2_eq)
qed

lemma le_nat_le_bytes [codec]: "le_nat (le_bytes n w) = unat w mod 256 ^ n"
  using le_nat_map_div [of w 0 n] by (simp add: le_bytes_def)

lemma be_nat_be_bytes [codec]: "be_nat (be_bytes n w) = unat w mod 256 ^ n"
  by (simp add: be_nat_def be_bytes_def codec)

lemma be_nat_bound: "be_nat bs < 256 ^ length bs"
  using le_nat_bound [of "rev bs"] by (simp add: be_nat_def)

section \<open>Integers in memory\<close>

text \<open>A naturally aligned integer of \<open>n\<close> bytes at offset \<open>p\<close>, on a little endian machine.\<close>

definition rd_le :: "nat \<Rightarrow> bytes \<Rightarrow> nat \<Rightarrow> nat option" where
  "rd_le n m p = map_option le_nat (mem_read m p n)"

definition wr_le :: "nat \<Rightarrow> bytes \<Rightarrow> nat \<Rightarrow> nat \<Rightarrow> bytes option" where
  "wr_le n m p v = mem_write m p (le_bytes n (word_of_nat v :: u64))"

lemma wr_le_total: "p + n \<le> length m \<Longrightarrow> \<exists>m'. wr_le n m p v = Some m'"
  by (auto simp: wr_le_def mem_write_def)

lemma wr_le_length [mem_simps]: "wr_le n m p v = Some m' \<Longrightarrow> length m' = length m"
  by (auto simp: wr_le_def dest: mem_write_length)

lemma rd_wr_le_same:
  assumes "wr_le n m p v = Some m'" "n \<le> 8"
  shows "rd_le n m' p = Some (v mod 256 ^ n)"
proof -
  have "mem_read m' p n = Some (le_bytes n (word_of_nat v :: u64))"
    using mem_read_write_same [of m p "le_bytes n (word_of_nat v :: u64)" m'] assms(1)
    by (simp add: wr_le_def)
  moreover have "v mod 2 ^ 64 mod 256 ^ n = v mod 256 ^ n"
  proof -
    have "(256 :: nat) ^ n = 2 ^ (8 * n)" by (simp add: power_mult)
    moreover have "(2 :: nat) ^ (8 * n) dvd 2 ^ 64" using assms(2) by (intro le_imp_power_dvd) simp
    ultimately show ?thesis by (simp only: mod_mod_cancel)
  qed
  ultimately show ?thesis
    by (simp add: rd_le_def le_nat_le_bytes unat_of_nat)
qed

lemma mem_read_wr_le_other:
  "wr_le n m p v = Some m' \<Longrightarrow> q + k \<le> p \<or> p + n \<le> q \<Longrightarrow> mem_read m' q k = mem_read m q k"
  by (auto simp: wr_le_def dest: mem_read_write_below mem_read_write_above)

lemma rd_wr_le_other:
  "wr_le n m p v = Some m' \<Longrightarrow> q + k \<le> p \<or> p + n \<le> q \<Longrightarrow> rd_le k m' q = rd_le k m q"
  using mem_read_wr_le_other by (simp add: rd_le_def)

lemma mem_read_write_other:
  "mem_write m p s = Some m' \<Longrightarrow> q + k \<le> p \<or> p + length s \<le> q \<Longrightarrow>
     mem_read m' q k = mem_read m q k"
  by (auto dest: mem_read_write_below mem_read_write_above)

text \<open>The signed reading of \<open>k\<close> bytes.\<close>

definition to_signed :: "nat \<Rightarrow> nat \<Rightarrow> int" where
  "to_signed k v = (if v < 2 ^ (8 * k - 1) then int v else int v - 2 ^ (8 * k))"

lemma to_signed_mod: "v < 2 ^ (8 * k) \<Longrightarrow> to_signed k v mod 2 ^ (8 * k) = int v"
proof -
  assume "v < 2 ^ (8 * k)"
  then have "int v < 2 ^ (8 * k)" by (metis of_nat_less_numeral_power_cancel_iff)
  then have "int v mod 2 ^ (8 * k) = int v" by (intro mod_pos_pos_trivial) auto
  then show ?thesis by (simp only: to_signed_def minus_mod_self2 if_distrib [of "\<lambda>x. x mod 2 ^ (8 * k)"] if_cancel)
qed

lemma rd_le_bound: "rd_le k m p = Some v \<Longrightarrow> v < 2 ^ (8 * k)"
proof -
  assume "rd_le k m p = Some v"
  then obtain bs where "mem_read m p k = Some bs" "v = le_nat bs" by (auto simp: rd_le_def)
  then show ?thesis
    using le_nat_bound [of bs] mem_read_length [of m p k bs] by (simp add: power_mult)
qed

end
