(* ===== verification/Strings.thy ===== *)
theory Strings
  imports Prelude
begin

text \<open>
  The sized-string helpers of \<^verbatim>\<open>core/strings.c\<close> and \<^verbatim>\<open>core/utils.c\<close> and the two header
  lookups built on the same splitting loop, \<^verbatim>\<open>core/querystring.c\<close> and \<^verbatim>\<open>core/cookie.c\<close>.

  A string with its length is a byte list.  A pointer into an argument is an offset, so a
  function that returns a pointer and a length returns a pair of naturals; the null pointer
  is \<open>None\<close>.  The reference meaning of the splitting loops is \<open>fields\<close>, the list of the
  stretches between separators.
\<close>

section \<open>Comparison, search, concatenation\<close>

definition memchr :: "byte \<Rightarrow> bytes \<Rightarrow> nat option" where
  "memchr b s = (let n = length (takeWhile (\<lambda>c. c \<noteq> b) s) in if n < length s then Some n else None)"

text \<open>The comparisons return 0 for equality, as in C; only that is used of their value.\<close>

definition uwsgi_strncmp :: "bytes \<Rightarrow> bytes \<Rightarrow> bool" where
  "uwsgi_strncmp src dst \<longleftrightarrow> (if length src \<noteq> length dst then False else src = dst)"

definition uwsgi_starts_with :: "bytes \<Rightarrow> bytes \<Rightarrow> bool" where
  "uwsgi_starts_with src dst \<longleftrightarrow>
     (if length src < length dst then False else take (length dst) src = dst)"

fun uwsgi_str_occurence :: "bytes \<Rightarrow> byte \<Rightarrow> nat" where
  "uwsgi_str_occurence [] w = 0"
| "uwsgi_str_occurence (b # bs) w =
     (if b = w then Suc (uwsgi_str_occurence bs w) else uwsgi_str_occurence bs w)"

fun uwsgi_str_contains :: "bytes \<Rightarrow> byte \<Rightarrow> nat \<Rightarrow> nat option" where
  "uwsgi_str_contains [] w i = None"
| "uwsgi_str_contains (b # bs) w i = (if b = w then Some i else uwsgi_str_contains bs w (Suc i))"

text \<open>
  \<^verbatim>\<open>uwsgi_contains_n\<close>: on a mismatch the scan of the needle restarts at its first byte and
  the mismatching byte is not looked at again.
\<close>

fun contains_loop :: "bytes \<Rightarrow> bytes \<Rightarrow> bytes \<Rightarrow> bool option" where
  "contains_loop [] ptr s2 = Some False"
| "contains_loop (b # bs) [] s2 = None"
| "contains_loop (b # bs) (p # ps) s2 =
     (if b = p then if ps = [] then Some True else contains_loop bs ps s2
      else contains_loop bs s2 s2)"

text \<open>\<open>None\<close> is the read past an empty needle.\<close>

definition uwsgi_contains_n :: "bytes \<Rightarrow> bytes \<Rightarrow> bool option" where
  "uwsgi_contains_n s1 s2 = contains_loop s1 s2 s2"

definition uwsgi_concat2n :: "bytes \<Rightarrow> nat \<Rightarrow> bytes \<Rightarrow> nat \<Rightarrow> bytes" where
  "uwsgi_concat2n one s1 two s2 = take s1 one @ take s2 two @ [0]"

definition uwsgi_concat3n :: "bytes \<Rightarrow> nat \<Rightarrow> bytes \<Rightarrow> nat \<Rightarrow> bytes \<Rightarrow> nat \<Rightarrow> bytes" where
  "uwsgi_concat3n one s1 two s2 three s3 = take s1 one @ take s2 two @ take s3 three @ [0]"

definition uwsgi_concat4n ::
  "bytes \<Rightarrow> nat \<Rightarrow> bytes \<Rightarrow> nat \<Rightarrow> bytes \<Rightarrow> nat \<Rightarrow> bytes \<Rightarrow> nat \<Rightarrow> bytes" where
  "uwsgi_concat4n one s1 two s2 three s3 four s4 =
     take s1 one @ take s2 two @ take s3 three @ take s4 four @ [0]"

text \<open>\<^verbatim>\<open>uwsgi_cheap_string\<close>: move \<^verbatim>\<open>len\<close> bytes one place back and put a zero after them.\<close>

definition uwsgi_cheap_string :: "bytes \<Rightarrow> nat \<Rightarrow> nat \<Rightarrow> bytes option" where
  "uwsgi_cheap_string mem p n =
     (if p = 0 then None
      else do { m \<leftarrow> mem_move mem (p - 1) p n; mem_write m (p + n - 1) [0] })"

section \<open>Numbers\<close>

text \<open>
  \<^verbatim>\<open>uwsgi_str_num\<close>: \<^verbatim>\<open>delta\<close> starts as \<^verbatim>\<open>pow(10, len)\<close>, exact up to nineteen digits; from twenty
  digits on the conversion of the double to \<^verbatim>\<open>uint64_t\<close> is out of range and undefined.
  The digits are not checked: \<^verbatim>\<open>str[i] - 48\<close> is a possibly negative \<^verbatim>\<open>int\<close> of a signed \<^verbatim>\<open>char\<close>.
\<close>

definition signed_char :: "byte \<Rightarrow> int" where
  "signed_char b = sint b"

fun str_num_loop :: "bytes \<Rightarrow> u64 \<Rightarrow> u64 \<Rightarrow> u64" where
  "str_num_loop [] delta num = num"
| "str_num_loop (b # bs) delta num =
     (let delta' = delta div 10
      in str_num_loop bs delta' (num + delta' * word_of_int (signed_char b - 48)))"

definition uwsgi_str_num :: "bytes \<Rightarrow> u64 option" where
  "uwsgi_str_num s =
     (if length s \<ge> 20 then None else Some (str_num_loop s (10 ^ length s) 0))"

text \<open>\<^verbatim>\<open>get_content_length\<close> of \<^verbatim>\<open>core/protocol.c\<close>: stops at the first byte that is no digit.\<close>

definition is_digit :: "byte \<Rightarrow> bool" where
  "is_digit b \<longleftrightarrow> 48 \<le> b \<and> b \<le> 57"

fun content_length_loop :: "bytes \<Rightarrow> u64 \<Rightarrow> u64" where
  "content_length_loop [] val = val"
| "content_length_loop (b # bs) val =
     (if is_digit b then content_length_loop bs (val * 10 + (ucast b - 48)) else val)"

definition get_content_length :: "bytes \<Rightarrow> u64" where
  "get_content_length s = content_length_loop s 0"

text \<open>\<^verbatim>\<open>check_hex\<close>, with the conjunctions of the source.\<close>

fun check_hex :: "bytes \<Rightarrow> bool" where
  "check_hex [] = True"
| "check_hex (b # bs) =
     (if (b < 48 \<and> b > 57) \<and> (b < 97 \<and> b > 102) \<and> (b < 65 \<and> b > 70)
      then False else check_hex bs)"

definition hex_val :: "byte \<Rightarrow> nat option" where
  "hex_val b =
     (if 48 \<le> b \<and> b \<le> 57 then Some (unat (b AND 0x0F))
      else if 65 \<le> b \<and> b \<le> 70 then Some (unat (b AND 0x0F) + 9)
      else if 97 \<le> b \<and> b \<le> 102 then Some (unat (b AND 0x0F) + 9)
      else None)"

definition hex2num :: "byte \<Rightarrow> byte \<Rightarrow> byte" where
  "hex2num a b =
     (case hex_val a of None \<Rightarrow> 0
      | Some h \<Rightarrow> (case hex_val b of None \<Rightarrow> 0 | Some l \<Rightarrow> word_of_nat (16 * h + l)))"

definition uwsgi_str2_num :: "byte \<Rightarrow> byte \<Rightarrow> int" where
  "uwsgi_str2_num a b = 10 * (signed_char a - 48) + (signed_char b - 48)"

definition uwsgi_str3_num :: "byte \<Rightarrow> byte \<Rightarrow> byte \<Rightarrow> int" where
  "uwsgi_str3_num a b c =
     100 * (signed_char a - 48) + 10 * (signed_char b - 48) + (signed_char c - 48)"

section \<open>Splitting\<close>

fun fields :: "byte \<Rightarrow> bytes \<Rightarrow> bytes list" where
  "fields w [] = [[]]"
| "fields w (b # bs) =
     (if b = w then [] # fields w bs
      else (b # hd (fields w bs)) # tl (fields w bs))"

lemma fields_not_Nil [simp]: "fields w s \<noteq> []"
  by (cases s) auto

text \<open>\<^verbatim>\<open>uwsgi_str_split_nget\<close>: the loop keeps the field's start (if set) and its length.\<close>

fun split_nget_loop ::
  "bytes \<Rightarrow> nat \<Rightarrow> nat \<Rightarrow> nat option \<Rightarrow> nat \<Rightarrow> byte \<Rightarrow> nat \<Rightarrow> (nat \<times> nat) option" where
  "split_nget_loop [] i cur cho clen w pos =
     (if cur = pos then
        if clen = 0 then None else (case cho of None \<Rightarrow> None | Some c \<Rightarrow> Some (c, clen))
      else None)"
| "split_nget_loop (b # bs) i cur cho clen w pos =
     (let cho' = (case cho of None \<Rightarrow> Some i | Some c \<Rightarrow> Some c) in
      if b = w then
        if cur = pos then
          if clen = 0 then None else (case cho' of None \<Rightarrow> None | Some c \<Rightarrow> Some (c, clen))
        else split_nget_loop bs (Suc i) (Suc cur) None 0 w pos
      else split_nget_loop bs (Suc i) cur cho' (Suc clen) w pos)"

definition uwsgi_str_split_nget :: "bytes \<Rightarrow> byte \<Rightarrow> nat \<Rightarrow> (nat \<times> nat) option" where
  "uwsgi_str_split_nget s w pos = split_nget_loop s 0 0 (Some 0) 0 w pos"

text \<open>\<^verbatim>\<open>uwsgi_split_quoted\<close>: a six-state machine over quotes and backslashes.\<close>

datatype qstatus = Plain | SQuote | DQuote | BackPlain | BackSQuote | BackDQuote

fun split_quoted_loop :: "bytes \<Rightarrow> qstatus \<Rightarrow> bytes option \<Rightarrow> bytes list \<Rightarrow> bytes \<Rightarrow> bytes list" where
  "split_quoted_loop [] st item acc sep =
     (case item of None \<Rightarrow> acc | Some it \<Rightarrow> acc @ [it])"
| "split_quoted_loop (b # bs) st item acc sep =
     (let it = (case item of None \<Rightarrow> [] | Some x \<Rightarrow> x) in
      case st of
        Plain \<Rightarrow>
          if b = 92 then split_quoted_loop bs BackPlain (Some it) acc sep
          else if b = 34 then split_quoted_loop bs DQuote (Some it) acc sep
          else if b = 39 then split_quoted_loop bs SQuote (Some it) acc sep
          else if b = 0 \<or> b \<in> set sep then split_quoted_loop bs Plain None (acc @ [it]) sep
          else split_quoted_loop bs Plain (Some (it @ [b])) acc sep
      | BackPlain \<Rightarrow> split_quoted_loop bs Plain (Some (it @ [b])) acc sep
      | SQuote \<Rightarrow>
          if b = 92 then split_quoted_loop bs BackSQuote (Some it) acc sep
          else if b = 39 then split_quoted_loop bs Plain (Some it) acc sep
          else split_quoted_loop bs SQuote (Some (it @ [b])) acc sep
      | DQuote \<Rightarrow>
          if b = 92 then split_quoted_loop bs BackDQuote (Some it) acc sep
          else if b = 34 then split_quoted_loop bs Plain (Some it) acc sep
          else split_quoted_loop bs DQuote (Some (it @ [b])) acc sep
      | BackSQuote \<Rightarrow> split_quoted_loop bs SQuote (Some (it @ [b])) acc sep
      | BackDQuote \<Rightarrow> split_quoted_loop bs DQuote (Some (it @ [b])) acc sep)"

definition uwsgi_split_quoted :: "bytes \<Rightarrow> bytes \<Rightarrow> bytes list" where
  "uwsgi_split_quoted what sep = split_quoted_loop what Plain None [] sep"

text \<open>
  \<^verbatim>\<open>uwsgi_netstring\<close>: the scan stops at the first colon; the result is the offset and the
  length of the payload.  The test \<^verbatim>\<open>ptr + *netstring_len + 2 > watermark\<close> compares addresses,
  so the model has the address \<open>base\<close> of the buffer and wraps the sum.
\<close>

definition uwsgi_netstring :: "nat \<Rightarrow> bytes \<Rightarrow> (nat \<times> nat) option option" where
  "uwsgi_netstring base s =
     (case memchr 58 s of
        None \<Rightarrow> Some None
      | Some i \<Rightarrow>
          (case uwsgi_str_num (take i s) of
             None \<Rightarrow> None
           | Some n \<Rightarrow>
               if sz_add (base + i) (unat n + 2) > base + length s then Some None
               else Some (Some (i + 1, unat n))))"

section \<open>The query string\<close>

definition check_qs :: "bytes \<Rightarrow> bytes \<Rightarrow> (nat \<times> nat) option" where
  "check_qs qs key =
     (case memchr 61 qs of
        None \<Rightarrow> None
      | Some eq \<Rightarrow>
          if \<not> uwsgi_strncmp key (take eq qs) then None
          else if length qs - (eq + 1) = 0 then None
          else Some (eq + 1, length qs - (eq + 1)))"

text \<open>
  \<^verbatim>\<open>uwsgi_get_qs\<close>: the state is the start of the current stretch (if set) and its length;
  the result is the offset and length of the value.
\<close>

fun get_qs_loop :: "bytes \<Rightarrow> bytes \<Rightarrow> nat \<Rightarrow> nat option \<Rightarrow> nat \<Rightarrow> bytes \<Rightarrow> (nat \<times> nat) option" where
  "get_qs_loop mem [] i qs qlen key =
     (if qlen > 0 then
        (case qs of None \<Rightarrow> None
         | Some q \<Rightarrow> map_option (\<lambda>(p, n). (q + p, n)) (check_qs (take qlen (drop q mem)) key))
      else None)"
| "get_qs_loop mem (b # bs) i qs qlen key =
     (let q = (case qs of None \<Rightarrow> i | Some q \<Rightarrow> q) in
      if b = 38 then
        (case check_qs (take qlen (drop q mem)) key of
           Some (p, n) \<Rightarrow> Some (q + p, n)
         | None \<Rightarrow> get_qs_loop mem bs (Suc i) None 0 key)
      else get_qs_loop mem bs (Suc i) (Some q) (Suc qlen) key)"

definition uwsgi_get_qs :: "bytes \<Rightarrow> bytes \<Rightarrow> (nat \<times> nat) option" where
  "uwsgi_get_qs query key = get_qs_loop query query 0 (Some 0) 0 key"

section \<open>The cookie header\<close>

definition isspace :: "byte \<Rightarrow> bool" where
  "isspace b \<longleftrightarrow> b = 32 \<or> (9 \<le> b \<and> b \<le> 13)"

definition u16_sub :: "nat \<Rightarrow> nat \<Rightarrow> nat" where
  "u16_sub a b = (a + (65536 - b)) mod 65536"

text \<open>
  \<^verbatim>\<open>check_cookie\<close> reads memory from the start of the stretch on; \<open>mem\<close> is that memory up to the
  end of the request buffer.  The left strip compares its counter with the length it is
  shrinking; the right strip starts at \<open>cookie_len - 1\<close> of the original length, in
  \<^verbatim>\<open>uint16_t\<close> arithmetic.
\<close>

fun lstrip_loop :: "nat \<Rightarrow> bytes \<Rightarrow> nat \<Rightarrow> nat \<Rightarrow> (nat \<times> nat) option" where
  "lstrip_loop 0 mem i clen = Some (i, clen)"
| "lstrip_loop (Suc fuel) mem i clen =
     (if i < clen then
        (case mem_get mem i of
           None \<Rightarrow> None
         | Some b \<Rightarrow> if isspace b then lstrip_loop fuel mem (Suc i) (clen - 1) else Some (i, clen))
      else Some (i, clen))"

fun rstrip_loop :: "bytes \<Rightarrow> nat \<Rightarrow> nat \<Rightarrow> nat option" where
  "rstrip_loop mem 0 clen = Some clen"
| "rstrip_loop mem (Suc i) clen =
     (case mem_get mem (Suc i) of
        None \<Rightarrow> None
      | Some b \<Rightarrow> if isspace b then rstrip_loop mem i (u16_sub clen 1) else Some clen)"

definition check_cookie :: "bytes \<Rightarrow> nat \<Rightarrow> bytes \<Rightarrow> (nat \<times> nat) option option" where
  "check_cookie mem clen key = do {
     (start, l1) \<leftarrow> lstrip_loop clen mem 0 clen;
     l2 \<leftarrow> rstrip_loop mem (u16_sub clen 1) l1;
     (case memchr 61 (take l2 (drop start mem)) of
        None \<Rightarrow> if start + l2 \<le> length mem then Some None else None
      | Some eq \<Rightarrow>
          if \<not> uwsgi_strncmp key (take eq (drop start mem)) then Some None
          else if l2 - (eq + 1) = 0 then Some None
          else Some (Some (start + eq + 1, l2 - (eq + 1))))
   }"

fun get_cookie_loop ::
  "bytes \<Rightarrow> bytes \<Rightarrow> nat \<Rightarrow> nat option \<Rightarrow> nat \<Rightarrow> bytes \<Rightarrow> (nat \<times> nat) option option" where
  "get_cookie_loop mem [] i ck clen key =
     (if clen > 0 then
        (case ck of None \<Rightarrow> Some None
         | Some c \<Rightarrow> map_option (map_option (\<lambda>(p, n). (c + p, n))) (check_cookie (drop c mem) clen key))
      else Some None)"
| "get_cookie_loop mem (b # bs) i ck clen key =
     (let c = (case ck of None \<Rightarrow> i | Some c \<Rightarrow> c) in
      if b = 59 then
        (case check_cookie (drop c mem) clen key of
           None \<Rightarrow> None
         | Some (Some (p, n)) \<Rightarrow> Some (Some (c + p, n))
         | Some None \<Rightarrow> get_cookie_loop mem bs (Suc i) None 0 key)
      else get_cookie_loop mem bs (Suc i) (Some c) (Suc clen) key)"

text \<open>\<open>mem\<close> is the request buffer from the cookie value on, \<open>n\<close> the length of the value.\<close>

definition uwsgi_get_cookie :: "bytes \<Rightarrow> nat \<Rightarrow> bytes \<Rightarrow> (nat \<times> nat) option option" where
  "uwsgi_get_cookie mem n key = get_cookie_loop mem (take n mem) 0 (Some 0) 0 key"

section \<open>Stretches and fields\<close>

text \<open>
  \<open>spans w c n bs\<close> lists offset and length of the stretches of \<open>bs\<close> between separators, when
  the first one started at \<open>c\<close> and \<open>n\<close> of its bytes are read: what every splitting loop of
  this component walks over.
\<close>

fun spans :: "byte \<Rightarrow> nat \<Rightarrow> nat \<Rightarrow> bytes \<Rightarrow> (nat \<times> nat) list" where
  "spans w c n [] = [(c, n)]"
| "spans w c n (b # bs) = (if b = w then (c, n) # spans w (c + n + 1) 0 bs else spans w c (n + 1) bs)"

fun first_some :: "('a \<Rightarrow> 'b option) \<Rightarrow> 'a list \<Rightarrow> 'b option" where
  "first_some f [] = None"
| "first_some f (x # xs) = (case f x of Some y \<Rightarrow> Some y | None \<Rightarrow> first_some f xs)"

lemma first_some_map: "first_some f (map g xs) = first_some (\<lambda>x. f (g x)) xs"
  by (induction xs) (auto split: option.splits)

lemma first_some_cong:
  "(\<And>x. x \<in> set xs \<Longrightarrow> f x = g x) \<Longrightarrow> first_some f xs = first_some g xs"
  by (induction xs) (auto split: option.splits)

lemma map_option_first_some: "map_option h (first_some f xs) = first_some (\<lambda>x. map_option h (f x)) xs"
  by (induction xs) (auto split: option.splits)

lemma memchr_SomeD:
  assumes "memchr b s = Some i"
  shows "i < length s" "s ! i = b" "takeWhile (\<lambda>c. c \<noteq> b) s = take i s"
proof -
  from assms have i: "length (takeWhile (\<lambda>c. c \<noteq> b) s) = i" "i < length s"
    by (auto simp: memchr_def Let_def split: if_splits)
  then show "i < length s" by simp
  from i nth_length_takeWhile [of "\<lambda>c. c \<noteq> b" s] show "s ! i = b" by metis
  from i(1) show "takeWhile (\<lambda>c. c \<noteq> b) s = take i s"
    using takeWhile_eq_take [of "\<lambda>c. c \<noteq> b" s] by metis
qed

lemma memchr_eq:
  "b \<in> set s \<Longrightarrow> memchr b s = Some (length (takeWhile (\<lambda>c. c \<noteq> b) s))"
  by (induction s) (auto simp: memchr_def Let_def split: if_splits)

lemma memchr_None: "memchr b s = None \<longleftrightarrow> b \<notin> set s"
proof -
  have "length (takeWhile (\<lambda>c. c \<noteq> b) s) < length s \<longleftrightarrow> b \<in> set s"
    by (induction s) auto
  then show ?thesis by (auto simp: memchr_def Let_def)
qed

text \<open>A span lies inside the string it was cut from and reads back as its field.\<close>

lemma spans_fields_aux:
  "w \<notin> set f \<Longrightarrow>
     map (\<lambda>(p, n). take n (drop p (pre @ f @ bs))) (spans w (length pre) (length f) bs) =
       (f @ hd (fields w bs)) # tl (fields w bs)"
proof (induction bs arbitrary: pre f)
  case Nil
  then show ?case by simp
next
  case (Cons b bs)
  show ?case
  proof (cases "b = w")
    case True
    have "map (\<lambda>(p, n). take n (drop p ((pre @ f @ [b]) @ [] @ bs)))
            (spans w (length (pre @ f @ [b])) (length ([] :: bytes)) bs) = fields w bs"
      using Cons.IH [of "[]" "pre @ f @ [b]"] by simp
    with True show ?thesis by simp
  next
    case False
    with Cons.IH [of "f @ [b]" pre] Cons.prems show ?thesis by simp
  qed
qed

lemma spans_fields: "map (\<lambda>(p, n). take n (drop p s)) (spans w 0 0 s) = fields w s"
  using spans_fields_aux [of w "[]" "[]" s] by simp

lemma spans_bound: "(p, n) \<in> set (spans w c k bs) \<Longrightarrow> c \<le> p \<and> p + n \<le> c + k + length bs"
  by (induction bs arbitrary: c k) (fastforce split: if_splits)+

lemma spans_in_string: "(p, n) \<in> set (spans w 0 0 s) \<Longrightarrow> p + n \<le> length s"
  using spans_bound by fastforce

lemma length_spans: "length (spans w 0 0 s) = length (fields w s)"
  by (metis length_map spans_fields)

lemma spans_nth:
  assumes "k < length (spans w 0 0 s)" "spans w 0 0 s ! k = (p, n)"
  shows "take n (drop p s) = fields w s ! k" and "length (fields w s ! k) = n"
proof -
  show eq: "take n (drop p s) = fields w s ! k"
    using assms nth_map [of k "spans w 0 0 s" "\<lambda>(p, n). take n (drop p s)"]
    by (simp add: spans_fields)
  from assms have "(p, n) \<in> set (spans w 0 0 s)" by (metis nth_mem)
  from spans_in_string [OF this] show "length (fields w s ! k) = n"
    by (simp flip: eq)
qed

section \<open>The loops over spans\<close>

lemma split_nget_loop_spans:
  "cho = Some c \<or> cho = None \<and> n = 0 \<and> c = i \<Longrightarrow> i = c + n \<Longrightarrow> cur \<le> pos \<Longrightarrow>
     split_nget_loop bs i cur cho n w pos =
       (if pos - cur < length (spans w c n bs) \<and> snd (spans w c n bs ! (pos - cur)) \<noteq> 0
        then Some (spans w c n bs ! (pos - cur)) else None)"
proof (induction bs arbitrary: i cur cho n c)
  case Nil
  then show ?case by auto
next
  case (Cons b bs)
  show ?case
  proof (cases "b = w \<and> cur \<noteq> pos")
    case True
    with Cons.prems have "split_nget_loop (b # bs) i cur cho n w pos =
        split_nget_loop bs (Suc i) (Suc cur) None 0 w pos" by (simp add: Let_def)
    also have "split_nget_loop bs (Suc i) (Suc cur) None 0 w pos =
        (if pos - Suc cur < length (spans w (c + n + 1) 0 bs) \<and>
          snd (spans w (c + n + 1) 0 bs ! (pos - Suc cur)) \<noteq> 0
        then Some (spans w (c + n + 1) 0 bs ! (pos - Suc cur)) else None)"
      using Cons.prems True by (intro Cons.IH) auto
    moreover obtain d where "pos = Suc (cur + d)"
      using True Cons.prems(3) by (metis le_neq_implies_less less_iff_Suc_add)
    ultimately show ?thesis using True by simp
  next
    case False
    show ?thesis
    proof (cases "b = w")
      case True
      with False Cons.prems show ?thesis by (auto simp: Let_def split: option.splits)
    next
      case False
      with Cons.prems have "split_nget_loop (b # bs) i cur cho n w pos =
          split_nget_loop bs (Suc i) cur (Some c) (Suc n) w pos" by (auto simp: Let_def)
      then show ?thesis
        using False Cons.prems Cons.IH [of "Some c" c "Suc n" "Suc i" cur] by simp
    qed
  qed
qed

lemma check_qs_Nil [simp]: "check_qs [] key = None"
  by (simp add: check_qs_def memchr_def)

lemma get_qs_loop_spans:
  "qs = Some c \<or> qs = None \<and> n = 0 \<and> c = i \<Longrightarrow> i = c + n \<Longrightarrow>
     get_qs_loop mem bs i qs n key =
       first_some (\<lambda>(p, l). map_option (\<lambda>(p', l'). (p + p', l')) (check_qs (take l (drop p mem)) key))
         (spans 38 c n bs)"
proof (induction bs arbitrary: i qs n c)
  case Nil
  then show ?case by (auto split: option.splits)
next
  case (Cons b bs)
  show ?case
  proof (cases "b = 38")
    case True
    with Cons.prems Cons.IH [of None "c + n + 1" 0 "Suc i"] show ?thesis
      by (auto simp: Let_def split: option.splits)
  next
    case False
    with Cons.prems Cons.IH [of "Some c" c "Suc n" "Suc i"] show ?thesis
      by (auto simp: Let_def)
  qed
qed

section \<open>Decimal numbers\<close>

fun dec_nat :: "bytes \<Rightarrow> nat" where
  "dec_nat [] = 0"
| "dec_nat (b # bs) = (unat b - 48) * 10 ^ length bs + dec_nat bs"

lemma digit_cases: "is_digit b \<Longrightarrow> 48 \<le> unat b \<and> unat b \<le> 57"
  by (simp add: is_digit_def word_le_nat_alt)

lemma digit_sint: "is_digit b \<Longrightarrow> signed_char b = int (unat b)"
proof -
  assume "is_digit b"
  from digit_cases [OF this] have "int (unat b) < 128" by linarith
  then have "uint b < 128" by (simp only: uint_nat)
  moreover have "- 128 \<le> uint b" using uint_ge_0 [of b] by linarith
  ultimately have "signed_take_bit 7 (uint b) = uint b"
    by (intro signed_take_bit_int_eq_self) auto
  then have "sint b = uint b" by (simp add: sint_uint)
  then show ?thesis by (simp only: signed_char_def uint_nat)
qed

lemma word_ten_power_div:
  assumes "n < 19"
  shows "(10 :: u64) ^ Suc n div 10 = 10 ^ n"
proof -
  have pow: "unat ((10 :: u64) ^ k) = 10 ^ k" if "k \<le> 19" for k
  proof -
    have "(10 :: nat) ^ k \<le> 10 ^ 19" using that by (rule power_increasing) simp
    then have "(10 :: nat) ^ k < 2 ^ 64" by simp
    then have "unat (word_of_nat (10 ^ k) :: u64) = 10 ^ k" by (simp only: unat_of_nat) simp
    then show ?thesis by simp
  qed
  have "unat ((10 :: u64) ^ Suc n div 10) = unat ((10 :: u64) ^ Suc n) div unat (10 :: u64)"
    by (rule unat_div_distrib)
  also have "\<dots> = 10 ^ Suc n div 10"
    using pow [of "Suc n"] assms by simp
  finally have "unat ((10 :: u64) ^ Suc n div 10) = 10 ^ n" by simp
  then show ?thesis using pow [of n] assms by (simp add: word_unat_eq_iff)
qed

lemma str_num_loop_digits:
  "\<forall>b\<in>set s. is_digit b \<Longrightarrow> length s < 20 \<Longrightarrow>
     str_num_loop s (10 ^ length s) num = num + word_of_nat (dec_nat s)"
proof (induction s arbitrary: num)
  case Nil
  then show ?case by simp
next
  case (Cons b s)
  then have d: "is_digit b" by simp
  have "(10 :: u64) ^ length (b # s) div 10 = 10 ^ length s"
    using word_ten_power_div [of "length s"] Cons.prems(2) by simp
  moreover have "(word_of_int (signed_char b - 48) :: u64) = word_of_nat (unat b - 48)"
    using digit_sint [OF d] digit_cases [OF d] by (simp add: of_nat_diff)
  ultimately have "str_num_loop (b # s) (10 ^ length (b # s)) num =
      str_num_loop s (10 ^ length s) (num + 10 ^ length s * word_of_nat (unat b - 48))"
    by (simp only: str_num_loop.simps Let_def)
  also have "\<dots> = num + 10 ^ length s * word_of_nat (unat b - 48) + word_of_nat (dec_nat s)"
    using Cons by simp
  also have "\<dots> = num + word_of_nat (dec_nat (b # s))"
    by (simp add: mult.commute [of "10 ^ length s"])
  finally show ?case .
qed

lemma content_length_loop_digits:
  "content_length_loop s val =
     val * 10 ^ length (takeWhile is_digit s) + word_of_nat (dec_nat (takeWhile is_digit s))"
proof (induction s arbitrary: val)
  case Nil
  then show ?case by simp
next
  case (Cons b s)
  have "(ucast b - 48 :: u64) = word_of_nat (unat b - 48)" if "is_digit b"
  proof -
    have "(ucast b :: u64) = word_of_nat (unat b)" by simp
    moreover have "(word_of_nat (unat b - 48) :: u64) = word_of_nat (unat b) - word_of_nat 48"
      using digit_cases [OF that] by (intro of_nat_diff) simp
    ultimately show ?thesis by simp
  qed
  with Cons show ?case by (simp add: distrib_right mult.assoc mult.left_commute)
qed

section \<open>Substring search\<close>

lemma contains_loop_sound:
  "contains_loop bs ptr s2 = Some True \<Longrightarrow> s2 = seen @ ptr \<Longrightarrow>
     \<exists>p q. seen @ bs = p @ s2 @ q"
proof (induction bs ptr s2 arbitrary: seen rule: contains_loop.induct)
  case (3 b bs p ps s2)
  show ?case
  proof (cases "b = p")
    case True
    show ?thesis
    proof (cases "ps = []")
      case True
      with \<open>b = p\<close> 3 show ?thesis by (intro exI [of _ "[]"] exI [of _ bs]) simp
    next
      case False
      with True 3(1) [of "seen @ [p]"] 3(3,4) show ?thesis by simp
    qed
  next
    case False
    with 3 obtain u v where "[] @ bs = u @ s2 @ v" by (metis append_Nil contains_loop.simps(3))
    then show ?thesis by (intro exI [of _ "seen @ b # u"] exI [of _ v]) simp
  qed
qed auto

section \<open>Cookie stretches\<close>

text \<open>
  A stretch is regular when its content (from the first to the last byte that is no white
  space) is not empty and at least as long as the white space before it.
\<close>

definition strip :: "bytes \<Rightarrow> bytes" where
  "strip f = rev (dropWhile isspace (rev (dropWhile isspace f)))"

definition regular :: "bytes \<Rightarrow> bool" where
  "regular f \<longleftrightarrow> strip f \<noteq> [] \<and> length (takeWhile isspace f) \<le> length (strip f)"

lemma lstrip_loop_run:
  assumes "\<forall>b\<in>set ls. isspace b" "core \<noteq> []" "\<not> isspace (hd core)"
    and "mem = ls @ core @ rest" "length ls + length core \<le> n" "length ls \<le> length core"
    and "i \<le> length ls" "length ls - i < fuel"
  shows "lstrip_loop fuel mem i (n - i) = Some (length ls, n - length ls)"
  using assms(7,8)
proof (induction "length ls - i" arbitrary: i fuel)
  case 0
  then have i: "i = length ls" by simp
  from 0 obtain f where "fuel = Suc f" by (cases fuel) auto
  with i assms show ?case
    by (cases core) (auto simp: mem_get_def nth_append)
next
  case (Suc d)
  then obtain f where f: "fuel = Suc f" by (cases fuel) auto
  from Suc have lt: "i < length ls" by simp
  then have "mem ! i = ls ! i" using assms(4) by (simp add: nth_append)
  moreover have "isspace (ls ! i)" using assms(1) lt by simp
  moreover have "i < n - i" using lt assms(5,6) by simp
  moreover have "i < length mem" using lt assms(4) by simp
  moreover have "lstrip_loop f mem (Suc i) (n - Suc i) = Some (length ls, n - length ls)"
    using Suc f by (intro Suc.hyps(1)) auto
  ultimately show ?case using f by (simp add: mem_get_def)
qed

lemma u16_sub_exact: "b \<le> a \<Longrightarrow> a < 65536 \<Longrightarrow> u16_sub a b = a - b"
proof -
  assume "b \<le> a" "a < 65536"
  then have "a + (65536 - b) = (a - b) + 65536" by simp
  then have "u16_sub a b = (a - b) mod 65536" unfolding u16_sub_def by (simp only: mod_add_self2)
  with \<open>a < 65536\<close> show ?thesis by simp
qed

lemma rstrip_loop_run:
  assumes "core \<noteq> []" "\<not> isspace (last core)"
    and "mem = ls @ core @ rs @ rest" "\<forall>b\<in>set rs. isspace b"
    and "length ls + length core + length rs < 65536"
  shows "k \<le> length rs \<Longrightarrow>
     rstrip_loop mem (length ls + length core + k - 1) (length core + k) = Some (length core)"
proof (induction k)
  case 0
  show ?case
  proof (cases "length ls + length core - 1")
    case 0
    then have "length core = 1" using assms(1) by (cases core) auto
    with 0 show ?thesis by simp
  next
    case (Suc j)
    have "mem ! (length ls + length core - 1) = last core"
      using assms(1,3) by (cases core rule: rev_cases) (auto simp: nth_append)
    moreover have "length ls + length core - 1 < length mem"
      using assms(1,3) by (cases core) auto
    ultimately show ?thesis using Suc assms(2) by (simp add: mem_get_def)
  qed
next
  case (Suc k)
  let ?i = "length ls + length core + k"
  have "mem ! ?i = rs ! k" "?i < length mem"
    using Suc.prems assms(3) by (auto simp: nth_append)
  moreover have "isspace (rs ! k)" using assms(4) Suc.prems by simp
  moreover obtain j where j: "?i = Suc j" using assms(1) by (cases core) auto
  moreover have "u16_sub (length core + Suc k) 1 = length core + k"
    using assms(5) Suc.prems by (simp add: u16_sub_exact)
  ultimately show ?case using Suc by (simp add: mem_get_def)
qed

lemma strip_decomp:
  assumes "strip f \<noteq> []"
  obtains ls rs where "f = ls @ strip f @ rs" "\<forall>b\<in>set ls. isspace b" "\<forall>b\<in>set rs. isspace b"
    "\<not> isspace (hd (strip f))" "\<not> isspace (last (strip f))" "ls = takeWhile isspace f"
proof -
  let ?d = "dropWhile isspace f"
  let ?rs = "rev (takeWhile isspace (rev ?d))"
  have d: "?d = strip f @ ?rs"
    unfolding strip_def by (metis rev_append rev_rev_ident takeWhile_dropWhile_id)
  moreover have "f = takeWhile isspace f @ ?d" by simp
  moreover have "\<not> isspace (last (strip f))"
    using assms hd_dropWhile [of isspace "rev ?d"] by (simp add: strip_def last_rev)
  moreover have "\<not> isspace (hd (strip f))"
  proof -
    have "?d \<noteq> []"
    proof
      assume "?d = []"
      then have "strip f = []" unfolding strip_def by (simp only:) simp
      with assms show False by simp
    qed
    then have "\<not> isspace (hd ?d)" by (rule hd_dropWhile)
    then show ?thesis using d assms by (metis hd_append2)
  qed
  ultimately show ?thesis
    by (intro that [of "takeWhile isspace f" ?rs]) (auto dest: set_takeWhileD)
qed

lemma check_cookie_regular:
  assumes "regular f" "length f < 65536"
  shows "check_cookie (f @ rest) (length f) key =
     Some (map_option (\<lambda>(p, n). (length (takeWhile isspace f) + p, n)) (check_qs (strip f) key))"
proof -
  from assms(1) have ne: "strip f \<noteq> []" and le: "length (takeWhile isspace f) \<le> length (strip f)"
    by (auto simp: regular_def)
  from strip_decomp [OF ne] obtain ls rs where f: "f = ls @ strip f @ rs"
    "\<forall>b\<in>set ls. isspace b" "\<forall>b\<in>set rs. isspace b"
    "\<not> isspace (hd (strip f))" "\<not> isspace (last (strip f))" "ls = takeWhile isspace f" .
  let ?c = "strip f"
  obtain mem where mem_def: "mem = f @ rest" by simp
  have len: "length f = length ls + length ?c + length rs"
    using arg_cong [OF f(1), of length] by simp
  have mem: "mem = ls @ ?c @ rs @ rest" using arg_cong [OF f(1), of "\<lambda>x. x @ rest"] mem_def by simp
  have cpos: "0 < length ?c" using ne by simp
  have "length ls - 0 < length f" using len cpos by simp
  then have l: "lstrip_loop (length f) mem 0 (length f) = Some (length ls, length f - length ls)"
    using lstrip_loop_run [of ls ?c mem "rs @ rest" "length f" 0 "length f"] f(2,4) f(6) le ne mem len
    by (metis add_le_mono le_add1 diff_zero length_greater_0_conv zero_le)
  have u16: "u16_sub (length f) 1 = length ls + length ?c + length rs - 1"
    using cpos assms(2) len by (subst u16_sub_exact) linarith+
  have r: "rstrip_loop mem (u16_sub (length f) 1) (length f - length ls) = Some (length ?c)"
  proof -
    have "length f - length ls = length ?c + length rs" using len by linarith
    moreover have "rstrip_loop mem (length ls + length ?c + length rs - 1) (length ?c + length rs) =
        Some (length ?c)"
      using assms(2) len by (intro rstrip_loop_run [OF ne f(5) mem f(3)]) linarith+
    ultimately show ?thesis using u16 by (simp only:)
  qed
  have "take (length ?c) (drop (length ls) mem) = ?c" by (simp only: mem) simp
  moreover have "take eq (drop (length ls) mem) = take eq ?c" if "eq < length ?c" for eq
    using that by (simp only: mem) simp
  moreover have "length ls + length ?c \<le> length mem" by (simp only: mem) simp
  ultimately have "check_cookie mem (length f) key =
      Some (map_option (\<lambda>(p, n). (length ls + p, n)) (check_qs ?c key))"
    unfolding check_cookie_def using l r
    by (auto simp: check_qs_def dest: memchr_SomeD(1) split: option.splits)
  then show ?thesis using f(6) mem_def by simp
qed

lemma get_cookie_loop_spans:
  assumes "\<forall>(p, l)\<in>set (spans 59 c n bs). regular (take l (drop p mem)) \<and> p + l \<le> length mem \<and> l < 65536"
    and "ck = Some c \<or> ck = None \<and> n = 0 \<and> c = i" "i = c + n"
  shows "get_cookie_loop mem bs i ck n key =
     Some (first_some (\<lambda>(p, l). map_option (\<lambda>(p', l').
              (p + length (takeWhile isspace (take l (drop p mem))) + p', l'))
            (check_qs (strip (take l (drop p mem))) key))
         (spans 59 c n bs))"
  using assms
proof (induction bs arbitrary: i ck n c)
  case Nil
  let ?f = "take n (drop c mem)"
  from Nil have reg: "regular ?f" "c + n \<le> length mem" "n < 65536" by auto
  then have "n > 0" by (cases n) (auto simp: regular_def strip_def)
  moreover have "length ?f = n" "?f @ drop n (drop c mem) = drop c mem" using reg by (simp_all only: append_take_drop_id) auto
  ultimately show ?case
    using Nil(2) check_cookie_regular [of ?f "drop n (drop c mem)" key] reg
    by (auto simp: option.map_comp comp_def case_prod_beta add.assoc split: option.splits)
next
  case (Cons b bs)
  show ?case
  proof (cases "b = 59")
    case True
    let ?f = "take n (drop c mem)"
    from Cons.prems True have reg: "regular ?f" "c + n \<le> length mem" "n < 65536" by auto
    moreover have "length ?f = n" "?f @ drop n (drop c mem) = drop c mem" using reg by (simp_all only: append_take_drop_id) auto
    ultimately have cc: "check_cookie (drop c mem) n key =
        Some (map_option (\<lambda>(p, n). (length (takeWhile isspace ?f) + p, n)) (check_qs (strip ?f) key))"
      using check_cookie_regular [of ?f "drop n (drop c mem)" key] by simp
    have ih: "get_cookie_loop mem bs (Suc i) None 0 key =
       Some (first_some (\<lambda>(p, l). map_option (\<lambda>(p', l').
              (p + length (takeWhile isspace (take l (drop p mem))) + p', l'))
            (check_qs (strip (take l (drop p mem))) key)) (spans 59 (c + n + 1) 0 bs))"
      using Cons.prems True by (intro Cons.IH) auto
    show ?thesis
      using Cons.prems(2,3) True cc ih by (auto simp: Let_def add.assoc split: option.splits)
  next
    case False
    with Cons.prems Cons.IH [of c "Suc n" "Some c" "Suc i"] show ?thesis
      by (auto simp: Let_def)
  qed
qed

section \<open>Properties\<close>

text \<open>
  \<open>uwsgi_str_split_nget\<close> returns a pointer and a length that read back as field number
  \<open>pos\<close> of the string, exactly when there is such a field and it is not empty.
\<close>

theorem uwsgi_str_split_nget_correct:
  "map_option (\<lambda>(p, n). take n (drop p s)) (uwsgi_str_split_nget s w pos) =
     (if pos < length (fields w s) \<and> fields w s ! pos \<noteq> [] then Some (fields w s ! pos) else None) \<and>
   (case uwsgi_str_split_nget s w pos of Some (p, n) \<Rightarrow> p + n \<le> length s | None \<Rightarrow> True)"
proof (cases "pos < length (spans w 0 0 s)")
  case True
  obtain p n where pn: "spans w 0 0 s ! pos = (p, n)" by fastforce
  from spans_nth [OF True pn] have "take n (drop p s) = fields w s ! pos" "length (fields w s ! pos) = n" .
  moreover have "p + n \<le> length s" using True pn spans_in_string by (metis nth_mem)
  ultimately show ?thesis
    using True pn split_nget_loop_spans [of "Some 0" 0 0 0 0 pos s w]
    by (auto simp: uwsgi_str_split_nget_def length_spans)
next
  case False
  then show ?thesis
    using split_nget_loop_spans [of "Some 0" 0 0 0 0 pos s w]
    by (auto simp: uwsgi_str_split_nget_def length_spans)
qed

definition qs_value :: "bytes \<Rightarrow> bytes \<Rightarrow> bytes option" where
  "qs_value key f =
     (if 61 \<in> set f \<and> takeWhile (\<lambda>b. b \<noteq> 61) f = key \<and> tl (dropWhile (\<lambda>b. b \<noteq> 61) f) \<noteq> []
      then Some (tl (dropWhile (\<lambda>b. b \<noteq> 61) f)) else None)"

lemma check_qs_value:
  "map_option (\<lambda>(p, n). take n (drop p f)) (check_qs f key) = qs_value key f"
  "check_qs f key = Some (p, n) \<Longrightarrow> p + n = length f"
proof -
  let ?t = "takeWhile (\<lambda>b. b \<noteq> 61) f"
  show "map_option (\<lambda>(p, n). take n (drop p f)) (check_qs f key) = qs_value key f"
  proof (cases "61 \<in> set f")
    case True
    have t: "take (length ?t) f = ?t" by (metis takeWhile_eq_take)
    have d: "tl (dropWhile (\<lambda>b. b \<noteq> 61) f) = drop (Suc (length ?t)) f"
      by (metis dropWhile_eq_drop drop_Suc tl_drop)
    show ?thesis
      using True by (auto simp: check_qs_def qs_value_def memchr_eq [OF True] d t uwsgi_strncmp_def)
  next
    case False
    then show ?thesis using memchr_None [of 61 f] by (simp add: check_qs_def qs_value_def)
  qed
  show "check_qs f key = Some (p, n) \<Longrightarrow> p + n = length f"
    by (auto simp: check_qs_def dest: memchr_SomeD(1) split: option.splits if_splits)
qed

lemma take_drop_sub: "a + b \<le> l \<Longrightarrow> take b (drop a (take l (drop p m))) = take b (drop (p + a) m)"
  by (simp add: drop_take add.commute min_def)

lemma first_some_Some: "first_some f xs = Some y \<Longrightarrow> \<exists>x\<in>set xs. f x = Some y"
  by (induction xs) (auto split: option.splits)

lemma check_qs_inside: "check_qs f key = Some (p, n) \<Longrightarrow> 0 < n \<and> p + n = length f"
  by (auto simp: check_qs_def split: option.splits if_splits)

text \<open>
  C36: \<open>uwsgi_get_qs\<close> returns the first non-empty value among the \<open>&\<close>-separated fields of the
  query string whose key, the bytes before the first \<open>=\<close>, is the one asked for; the answer
  is a non-empty region that lies inside the query string.
\<close>

theorem uwsgi_get_qs_correct:
  "case uwsgi_get_qs query key of
     None \<Rightarrow> first_some (qs_value key) (fields 38 query) = None
   | Some (p, n) \<Rightarrow> 0 < n \<and> p + n \<le> length query \<and>
       first_some (qs_value key) (fields 38 query) = Some (take n (drop p query))"
proof -
  let ?v = "\<lambda>(p, l). map_option (\<lambda>(p', l'). (p + p', l')) (check_qs (take l (drop p query)) key)"
  have "map_option (\<lambda>(p, n). take n (drop p query)) (?v (p, l)) =
        qs_value key (take l (drop p query))" if "(p, l) \<in> set (spans 38 0 0 query)" for p l
    using spans_in_string [OF that] check_qs_value [of "take l (drop p query)" key]
    by (cases "check_qs (take l (drop p query)) key") (auto simp: take_drop_sub)
  then have "first_some (\<lambda>x. map_option (\<lambda>(p, n). take n (drop p query)) (?v x)) (spans 38 0 0 query) =
      first_some (\<lambda>x. qs_value key (case x of (p, l) \<Rightarrow> take l (drop p query))) (spans 38 0 0 query)"
    by (intro first_some_cong) auto
  moreover have run: "uwsgi_get_qs query key = first_some ?v (spans 38 0 0 query)"
    unfolding uwsgi_get_qs_def by (rule get_qs_loop_spans) simp_all
  ultimately have eq: "map_option (\<lambda>(p, n). take n (drop p query)) (uwsgi_get_qs query key) =
      first_some (qs_value key) (fields 38 query)"
    by (simp only: map_option_first_some flip: spans_fields first_some_map)
  show ?thesis
  proof (cases "uwsgi_get_qs query key")
    case None
    with eq show ?thesis by simp
  next
    case (Some r)
    obtain p n where r: "r = (p, n)" by (cases r)
    have "first_some ?v (spans 38 0 0 query) = Some (p, n)" by (simp only: r Some flip: run)
    from first_some_Some [OF this] obtain x where x: "x \<in> set (spans 38 0 0 query)" "?v x = Some (p, n)" by blast
    obtain q l where ql: "x = (q, l)" by (cases x)
    note q = x [unfolded ql]
    obtain p' where "check_qs (take l (drop q query)) key = Some (p', n)" "p = q + p'" using q(2) by auto
    with check_qs_inside [OF this(1)] spans_in_string [OF q(1)] have "0 < n \<and> p + n \<le> length query" by auto
    with eq Some r show ?thesis by simp
  qed
qed

lemma dec_nat_bound: "\<forall>b\<in>set s. is_digit b \<Longrightarrow> dec_nat s < 10 ^ length s"
proof (induction s)
  case (Cons b s)
  have "unat b - 48 \<le> 9" using digit_cases [of b] Cons.prems by (simp, linarith)
  then have "(unat b - 48) * 10 ^ length s \<le> 9 * 10 ^ length s" by (rule mult_right_mono) simp
  moreover have "dec_nat s < 10 ^ length s" using Cons by simp
  ultimately have "dec_nat (b # s) < 9 * 10 ^ length s + 10 ^ length s"
    unfolding dec_nat.simps by linarith
  then show ?case by simp
qed simp

lemma uwsgi_str_num_decimal:
  assumes "\<forall>b\<in>set s. is_digit b" "length s < 20"
  shows "map_option unat (uwsgi_str_num s) = Some (dec_nat s)"
proof -
  have "(10 :: nat) ^ length s \<le> 10 ^ 19" using assms(2) by (intro power_increasing) auto
  with dec_nat_bound [OF assms(1)] have "dec_nat s < 2 ^ 64" by simp
  then show ?thesis
    using str_num_loop_digits [OF assms, of 0] assms(2) by (simp add: uwsgi_str_num_def unat_of_nat)
qed

text \<open>
  \<open>get_content_length\<close> is the decimal value of the leading digits of the header, reduced
  modulo \<open>2 ^ 64\<close>: it is exact as long as the value fits in 64 bits, and a longer header wraps
  silently to a small number.
\<close>

theorem get_content_length_mod:
  "unat (get_content_length s) = dec_nat (takeWhile is_digit s) mod 2 ^ 64"
  by (simp add: get_content_length_def content_length_loop_digits unat_of_nat)

text \<open>\<^verbatim>\<open>check_hex\<close> accepts every string: no byte is at once below and above a range.\<close>

lemma check_hex_accepts: "check_hex s"
proof (induction s)
  case (Cons b s)
  have "\<not> (b < 48 \<and> b > 57)" by (simp add: word_less_nat_alt)
  then have "check_hex (b # s) = check_hex s" by (simp only: check_hex.simps) simp
  with Cons show ?case by simp
qed simp

lemma uwsgi_contains_n_sound:
  "uwsgi_contains_n s1 s2 = Some True \<Longrightarrow> \<exists>p q. s1 = p @ s2 @ q"
  using contains_loop_sound [of s1 s2 s2 "[]"] by (simp add: uwsgi_contains_n_def)

lemma uwsgi_contains_n_misses: "uwsgi_contains_n (str ''aab'') (str ''ab'') = Some False"
  by code_simp

text \<open>
  C37: on a cookie header all of whose \<open>;\<close>-separated fields are regular, \<open>uwsgi_get_cookie\<close>
  returns the value of the first field that, stripped of white space, has the key asked for,
  as a region of the request buffer.
\<close>

theorem uwsgi_get_cookie_correct:
  assumes "\<forall>f\<in>set (fields 59 hdr). regular f" "length hdr < 65536"
  shows "map_option (map_option (\<lambda>(p, n). take n (drop p (hdr @ rest))))
           (uwsgi_get_cookie (hdr @ rest) (length hdr) key) =
         Some (first_some (\<lambda>f. qs_value key (strip f)) (fields 59 hdr))"
proof -
  let ?mem = "hdr @ rest"
  let ?v = "\<lambda>(p, l). map_option (\<lambda>(p', l').
              (p + length (takeWhile isspace (take l (drop p ?mem))) + p', l'))
            (check_qs (strip (take l (drop p ?mem))) key)"
  have fld: "take l (drop p ?mem) \<in> set (fields 59 hdr)" "take l (drop p ?mem) = take l (drop p hdr)"
    "p + l \<le> length ?mem" "l < 65536" if "(p, l) \<in> set (spans 59 0 0 hdr)" for p l
  proof -
    from spans_in_string [OF that] have le: "p + l \<le> length hdr" .
    then show eq: "take l (drop p ?mem) = take l (drop p hdr)" by simp
    show "take l (drop p ?mem) \<in> set (fields 59 hdr)"
      unfolding eq using that by (force simp flip: spans_fields)
    from le assms(2) show "p + l \<le> length ?mem" "l < 65536" by simp_all
  qed
  have run: "uwsgi_get_cookie ?mem (length hdr) key = Some (first_some ?v (spans 59 0 0 hdr))"
  proof -
    have "\<forall>(p, l)\<in>set (spans 59 0 0 hdr).
        regular (take l (drop p ?mem)) \<and> p + l \<le> length ?mem \<and> l < 65536"
      using fld assms(1) by blast
    from get_cookie_loop_spans [OF this, of "Some 0" 0 key] show ?thesis
      by (simp add: uwsgi_get_cookie_def)
  qed
  have "map_option (\<lambda>(p, n). take n (drop p ?mem)) (?v (p, l)) =
        qs_value key (strip (take l (drop p hdr)))" if sp: "(p, l) \<in> set (spans 59 0 0 hdr)" for p l
  proof -
    let ?f = "take l (drop p hdr)"
    have "regular ?f" using fld [OF sp] assms(1) by metis
    then obtain rs where f: "?f = takeWhile isspace ?f @ strip ?f @ rs"
      unfolding regular_def by (metis strip_decomp)
    have le: "p + l \<le> length hdr" using spans_in_string [OF sp] .
    have "take n (drop (p + length (takeWhile isspace ?f) + q) ?mem) = take n (drop q (strip ?f))"
      if "q + n = length (strip ?f)" for q n
    proof -
      have "length ?f = l" using le by simp
      then have "length (takeWhile isspace ?f) + q + n \<le> l"
        using that arg_cong [OF f, of length] by simp
      then have "take n (drop (length (takeWhile isspace ?f) + q) (take l (drop p ?mem))) =
          take n (drop (p + (length (takeWhile isspace ?f) + q)) ?mem)"
        by (rule take_drop_sub)
      moreover have "take n (drop (length (takeWhile isspace ?f) + q) ?f) = take n (drop q (strip ?f))"
        using that arg_cong [OF f, of "\<lambda>x. take n (drop (length (takeWhile isspace ?f) + q) x)"] by simp
      ultimately show ?thesis using fld(2) [OF sp] by (simp only: add.assoc)
    qed
    then show ?thesis
      using check_qs_value [of "strip ?f" key] fld(2) [OF sp]
      by (cases "check_qs (strip ?f) key") auto
  qed
  then have "first_some (\<lambda>x. map_option (\<lambda>(p, n). take n (drop p ?mem)) (?v x)) (spans 59 0 0 hdr) =
      first_some (\<lambda>x. qs_value key (strip (case x of (p, l) \<Rightarrow> take l (drop p hdr)))) (spans 59 0 0 hdr)"
    by (intro first_some_cong) auto
  then show ?thesis
    by (simp only: run option.map map_option_first_some first_some_map flip: spans_fields)
qed

theorem uwsgi_get_cookie_correct_witness:
  "map_option (map_option (\<lambda>(p, n). take n (drop p (str ''a=1; bc=xyz'' @ [7]))))
     (uwsgi_get_cookie (str ''a=1; bc=xyz'' @ [7]) 11 (str ''bc'')) = Some (Some (str ''xyz''))"
proof -
  have reg: "\<forall>f\<in>set (fields 59 (str ''a=1; bc=xyz'')). regular f" by code_simp
  have len: "length (str ''a=1; bc=xyz'') = 11" by simp
  have "first_some (\<lambda>f. qs_value (str ''bc'') (strip f)) (fields 59 (str ''a=1; bc=xyz'')) =
      Some (str ''xyz'')" by code_simp
  with uwsgi_get_cookie_correct [OF reg, unfolded len, of "[7]" "str ''bc''"] show ?thesis
    by (simp only:)
qed

lemma rstrip_out_of_bounds: "length mem \<le> i \<Longrightarrow> 0 < i \<Longrightarrow> rstrip_loop mem i n = None"
  by (cases i) (auto simp: mem_get_def)

text \<open>
  A cookie header that begins with a separator makes \<open>check_cookie\<close> strip an empty stretch
  from its last byte on: \<open>cookie_len - 1\<close> is 65535 in \<open>uint16_t\<close>, and the read is out of bounds
  whenever fewer than 65536 bytes follow in the request buffer.
\<close>

theorem uwsgi_get_cookie_reads_out_of_bounds:
  assumes "length mem < 65536" "0 < n" "n \<le> length mem" "hd mem = 59"
  shows "uwsgi_get_cookie mem n key = None"
proof -
  from assms obtain m where "mem = 59 # m" by (cases mem) auto
  moreover from assms obtain k where "n = Suc k" by (cases n) auto
  moreover have "check_cookie (drop 0 mem) 0 key = None"
  proof -
    have "rstrip_loop mem 65535 0 = None" using assms(1) by (intro rstrip_out_of_bounds) auto
    then show ?thesis by (simp add: check_cookie_def u16_sub_def)
  qed
  ultimately show ?thesis by (simp add: uwsgi_get_cookie_def)
qed

theorem uwsgi_get_cookie_reads_out_of_bounds_witness:
  "uwsgi_get_cookie (str '';a=1'') 4 (str ''a'') = None"
  using uwsgi_get_cookie_reads_out_of_bounds [of "str '';a=1''" 4 "str ''a''"]
  by (simp add: str_def ch_def)

end
