(* ===== verification/Hash.thy ===== *)
theory Hash
  imports Strings
begin

text \<open>
  \<^verbatim>\<open>core/hash.c\<close>: the hash functions and the registry they are looked up in.  A C \<^verbatim>\<open>char\<close> is
  signed on the platforms uWSGI supports, so a byte read through \<^verbatim>\<open>char *\<close> and promoted to \<^verbatim>\<open>int\<close>
  is sign extended; a byte read through \<^verbatim>\<open>uint8_t *\<close> is not.  \<^verbatim>\<open>rand()\<close> is a parameter.
\<close>

section \<open>The functions\<close>

definition schar32 :: "byte \<Rightarrow> u32" where
  "schar32 b = word_of_int (signed_char b)"

fun djb33x_loop :: "bytes \<Rightarrow> u32 \<Rightarrow> u32" where
  "djb33x_loop [] hash = hash"
| "djb33x_loop (b # bs) hash = djb33x_loop bs ((push_bit 5 hash + hash) XOR schar32 b)"

definition djb33x_hash :: "bytes \<Rightarrow> u32" where
  "djb33x_hash key = djb33x_loop key 5381"

abbreviation MURMUR_M :: u32 where
  "MURMUR_M \<equiv> 0x5bd1e995"

definition murmur2_mix :: "u32 \<Rightarrow> u32" where
  "murmur2_mix k = (let k = k * MURMUR_M; k = k XOR drop_bit 24 k in k * MURMUR_M)"

definition murmur2_final :: "u32 \<Rightarrow> u32" where
  "murmur2_final h =
     (let h = h XOR drop_bit 13 h; h = h * MURMUR_M in h XOR drop_bit 15 h)"

text \<open>
  Whole words are read through \<^verbatim>\<open>uint8_t *\<close>, but the tail indexes \<^verbatim>\<open>key\<close>, not \<^verbatim>\<open>ukey\<close>: it is
  the first three bytes of the \<^emph>\<open>key\<close> (\<open>k0\<close>), sign extended, whatever was consumed before.
\<close>

fun murmur2_loop :: "bytes \<Rightarrow> bytes \<Rightarrow> u32 \<Rightarrow> u32" where
  "murmur2_loop (b0 # b1 # b2 # b3 # bs) k0 h =
     (let k = ucast b0 OR push_bit 8 (ucast b1) OR push_bit 16 (ucast b2) OR push_bit 24 (ucast b3)
      in murmur2_loop bs k0 ((h * MURMUR_M) XOR murmur2_mix k))"
| "murmur2_loop [b0, b1, b2] k0 h =
     (let h = h XOR push_bit 16 (schar32 (k0 ! 2)); h = h XOR push_bit 8 (schar32 (k0 ! 1));
          h = h XOR schar32 (k0 ! 0) in h * MURMUR_M)"
| "murmur2_loop [b0, b1] k0 h =
     (let h = h XOR push_bit 8 (schar32 (k0 ! 1)); h = h XOR schar32 (k0 ! 0) in h * MURMUR_M)"
| "murmur2_loop [b0] k0 h = (let h = h XOR schar32 (k0 ! 0) in h * MURMUR_M)"
| "murmur2_loop [] k0 h = h"

definition murmur2_hash :: "bytes \<Rightarrow> u32" where
  "murmur2_hash key = murmur2_final (murmur2_loop key key (word_of_nat (length key)))"

text \<open>\<^verbatim>\<open>rr_hash\<close>: the static counter is the argument and second result.\<close>

definition rr_hash :: "u32 \<Rightarrow> bytes \<Rightarrow> (u32 \<times> u32) option" where
  "rr_hash rr key =
     (case uwsgi_str_num key of
        None \<Rightarrow> None
      | Some v \<Rightarrow>
          let max_value = (ucast v :: u32); ret = rr; rr = rr + 1
          in Some (ret, if rr > max_value then 0 else rr))"

section \<open>The registry\<close>

datatype hash_fun = Djb33x | Murmur2 | RandomHash | RrHash

type_synonym hash_algos = "(string \<times> hash_fun) list"

fun uwsgi_hash_algo_get :: "hash_algos \<Rightarrow> string \<Rightarrow> hash_fun option" where
  "uwsgi_hash_algo_get [] name = None"
| "uwsgi_hash_algo_get ((n, f) # r) name = (if name = n then Some f else uwsgi_hash_algo_get r name)"

fun uwsgi_hash_algo_register :: "hash_algos \<Rightarrow> string \<Rightarrow> hash_fun \<Rightarrow> hash_algos" where
  "uwsgi_hash_algo_register [] name f = [(name, f)]"
| "uwsgi_hash_algo_register ((n, g) # r) name f =
     (if n = name then (n, g) # r else (n, g) # uwsgi_hash_algo_register r name f)"

definition uwsgi_hash_algo_register_all :: "hash_algos \<Rightarrow> hash_algos" where
  "uwsgi_hash_algo_register_all r =
     (let r = uwsgi_hash_algo_register r ''djb33x'' Djb33x;
          r = uwsgi_hash_algo_register r ''murmur2'' Murmur2;
          r = uwsgi_hash_algo_register r ''random'' RandomHash;
          r = uwsgi_hash_algo_register r ''rand'' RandomHash
      in uwsgi_hash_algo_register r ''rr'' RrHash)"

text \<open>A call through the function pointer; \<open>rnd\<close> is what \<^verbatim>\<open>rand()\<close> returns.\<close>

fun hash_call :: "hash_fun \<Rightarrow> u32 \<Rightarrow> u32 \<Rightarrow> bytes \<Rightarrow> (u32 \<times> u32) option" where
  "hash_call Djb33x rnd rr key = Some (djb33x_hash key, rr)"
| "hash_call Murmur2 rnd rr key = Some (murmur2_hash key, rr)"
| "hash_call RandomHash rnd rr key = Some (rnd, rr)"
| "hash_call RrHash rnd rr key = rr_hash rr key"

section \<open>The registry is a map whose first binding stays\<close>

lemma hash_algo_get_register:
  "uwsgi_hash_algo_get (uwsgi_hash_algo_register r n f) m =
     (if m = n \<and> uwsgi_hash_algo_get r n = None then Some f else uwsgi_hash_algo_get r m)"
  by (induction r) (auto split: if_splits)

lemma hash_algo_register_distinct:
  "distinct (map fst r) \<Longrightarrow> distinct (map fst (uwsgi_hash_algo_register r n f))"
proof (induction r)
  case (Cons x r)
  have "fst ` set (uwsgi_hash_algo_register r n f) \<subseteq> insert n (fst ` set r)"
    by (induction r) (force split: if_splits)+
  with Cons show ?case by (cases x) auto
qed simp

section \<open>Tail of murmur2\<close>

lemma murmur2_loop_blocks:
  "length p = 4 * k \<Longrightarrow> \<exists>h'. \<forall>t. murmur2_loop (p @ t) k0 h = murmur2_loop t k0 h'"
proof (induction k arbitrary: p h)
  case 0
  then show ?case by auto
next
  case (Suc k)
  then obtain b0 b1 b2 b3 q where p: "p = b0 # b1 # b2 # b3 # q" "length q = 4 * k"
    by (auto simp: length_Suc_conv eval_nat_numeral)
  let ?k = "ucast b0 OR push_bit 8 (ucast b1) OR push_bit 16 (ucast b2) OR push_bit 24 (ucast b3) :: u32"
  from Suc.IH [OF p(2), of "(h * MURMUR_M) XOR murmur2_mix ?k"] show ?case
    by (simp add: p(1) Let_def)
qed

lemma murmur2_loop_head:
  "take 3 k0 = take 3 k0' \<Longrightarrow> 3 \<le> length k0 \<Longrightarrow> 3 \<le> length k0' \<Longrightarrow>
     murmur2_loop s k0 h = murmur2_loop s k0' h"
proof -
  assume t: "take 3 k0 = take 3 k0'" and "3 \<le> length k0" "3 \<le> length k0'"
  then have "k0 ! i = k0' ! i" if "i < 3" for i using that by (metis nth_take)
  then have "k0 ! 0 = k0' ! 0" "k0 ! 1 = k0' ! 1" "k0 ! 2 = k0' ! 2" by auto
  then show ?thesis by (induction s k0 h rule: murmur2_loop.induct) (auto simp: Let_def)
qed

lemma murmur2_loop_tail:
  "length t = length t' \<Longrightarrow> length t < 4 \<Longrightarrow> murmur2_loop t k0 h = murmur2_loop t' k0 h"
  by (cases t; cases t'; cases "tl t"; cases "tl t'"; cases "tl (tl t)"; cases "tl (tl t')")
    (auto simp: length_Suc_conv)

text \<open>
  \<open>murmur2_hash\<close> does not depend on the bytes after the last whole word of its key: the
  tail of the computation reads the first bytes of the key again (\<^verbatim>\<open>key\<close> is not advanced with
  \<^verbatim>\<open>ukey\<close>), so any two keys that differ only there collide.
\<close>

theorem murmur2_hash_ignores_tail:
  assumes "length p = 4 * Suc k" "length t = length t'" "length t < 4"
  shows "murmur2_hash (p @ t) = murmur2_hash (p @ t')"
proof -
  have "murmur2_loop (p @ t) (p @ t) h = murmur2_loop (p @ t') (p @ t') h" for h
  proof -
    obtain h' where h': "\<And>t. murmur2_loop (p @ t) (p @ t') h = murmur2_loop t (p @ t') h'"
      using murmur2_loop_blocks [OF assms(1)] by metis
    have "murmur2_loop (p @ t) (p @ t) h = murmur2_loop (p @ t) (p @ t') h"
      using assms(1) by (intro murmur2_loop_head) auto
    then show ?thesis using h' murmur2_loop_tail [OF assms(2,3)] by metis
  qed
  then show ?thesis using assms(2) by (simp add: murmur2_hash_def)
qed

theorem murmur2_hash_ignores_tail_witness:
  "murmur2_hash (str ''useralice1'') = murmur2_hash (str ''useraliceX'')"
  using murmur2_hash_ignores_tail [of "str ''useralic''" 1 "str ''e1''" "str ''eX''"]
  by (simp add: str_def)

section \<open>Round robin\<close>

fun rr_calls :: "nat \<Rightarrow> u32 \<Rightarrow> bytes \<Rightarrow> u32 list option" where
  "rr_calls 0 rr key = Some []"
| "rr_calls (Suc n) rr key =
     (case rr_hash rr key of
        None \<Rightarrow> None
      | Some (v, rr') \<Rightarrow> map_option ((#) v) (rr_calls n rr' key))"

lemma rr_hash_step:
  assumes "\<forall>b\<in>set key. is_digit b" "length key < 20" "dec_nat key = m" "m + 1 < 2 ^ 32" "r \<le> m"
  shows "rr_hash (word_of_nat r) key = Some (word_of_nat r, word_of_nat (Suc r mod (m + 1)))"
proof -
  obtain v where v: "uwsgi_str_num key = Some v" "unat v = m"
    using uwsgi_str_num_decimal [OF assms(1,2)] assms(3) by auto
  have max: "unat (ucast v :: u32) = m"
    using v(2) assms(4) by (simp add: unsigned_ucast_eq take_bit_nat_eq_self)
  have "unat (word_of_nat (Suc r) :: u32) = Suc r"
    using assms(4,5) by (simp only: unat_of_nat) simp
  then have "word_of_nat (Suc r) > (ucast v :: u32) \<longleftrightarrow> Suc r > m"
    using max by (simp only: word_less_nat_alt)
  moreover have "Suc r > m \<longleftrightarrow> Suc r = m + 1" using assms(5) by auto
  ultimately show ?thesis
    using v(1) assms(5) by (auto simp: rr_hash_def Let_def add.commute)
qed

lemma rr_calls_cycle:
  assumes "\<forall>b\<in>set key. is_digit b" "length key < 20" "dec_nat key = m" "m + 1 < 2 ^ 32"
  shows "r \<le> m \<Longrightarrow> rr_calls n (word_of_nat r) key =
     Some (map (\<lambda>k. word_of_nat ((r + k) mod (m + 1))) [0..<n])"
proof (induction n arbitrary: r)
  case 0
  then show ?case by simp
next
  case (Suc n)
  have "rr_calls n (word_of_nat (Suc r mod (m + 1))) key =
      Some (map (\<lambda>k. word_of_nat ((Suc r mod (m + 1) + k) mod (m + 1))) [0..<n])"
    by (rule Suc.IH) (simp add: less_Suc_eq_le [symmetric])
  moreover have "(Suc r mod (m + 1) + k) mod (m + 1) = (r + Suc k) mod (m + 1)" for k
    by (simp add: mod_add_left_eq)
  moreover have "[0..<Suc n] = 0 # map Suc [0..<n]" by (simp add: map_Suc_upt upt_conv_Cons)
  ultimately show ?case
    using Suc.prems rr_hash_step [OF assms Suc.prems] by (simp add: comp_def del: upt_Suc)
qed

text \<open>
  Called again and again with a decimal key \<open>m\<close>, \<open>rr_hash\<close> returns \<open>0, 1, ..., m, 0, 1, ...\<close>:
  a cycle of \<open>m + 1\<close> values, both ends included.
\<close>

theorem rr_hash_cycles:
  assumes "\<forall>b\<in>set key. is_digit b" "length key < 20" "dec_nat key + 1 < 2 ^ 32"
  shows "rr_calls n 0 key = Some (map (\<lambda>k. word_of_nat (k mod (dec_nat key + 1))) [0..<n])"
  using rr_calls_cycle [OF assms(1,2) refl assms(3), of 0 n] by simp

theorem rr_hash_cycles_witness:
  "rr_calls 5 0 (str ''2'') = Some [0, 1, 2, 0, 1]"
proof -
  have "\<forall>b\<in>set (str ''2''). is_digit b" "dec_nat (str ''2'') = 2" by code_simp+
  with rr_hash_cycles [of "str ''2''" 5] show ?thesis by (simp add: upt_conv_Cons)
qed

end
