(* ===== verification/Queue.thy ===== *)
theory Queue
  imports Prelude
begin

text \<open>
  \<^verbatim>\<open>core/queue.c\<close>: the shared queue, a ring of fixed-size blocks in one shared memory area.
  Each block starts with a \<^verbatim>\<open>struct uwsgi_queue_item\<close>, the size (8 bytes) and a time stamp
  (8 bytes), and holds the message after it; \<^verbatim>\<open>pos\<close> is where the next push goes and
  \<^verbatim>\<open>pull_pos\<close> where the next pull reads.  The functions return a pointer into the area, an
  offset here.
\<close>

section \<open>State and operations\<close>

record queue =
  qarea :: bytes        \<comment> \<open>\<^verbatim>\<open>uwsgi.queue\<close>, after the 16 bytes of the header\<close>
  qbs :: nat            \<comment> \<open>\<^verbatim>\<open>queue_blocksize\<close>\<close>
  qsize :: nat          \<comment> \<open>\<^verbatim>\<open>queue_size\<close>\<close>
  qpos :: nat
  qpull :: nat

abbreviation ITEM :: nat where
  "ITEM \<equiv> 16"

definition sz_mul :: "nat \<Rightarrow> nat \<Rightarrow> nat" where
  "sz_mul a b = (a * b) mod SIZE_MOD"

text \<open>
  \<^verbatim>\<open>uwsgi_init_queue\<close>.  \<open>store\<close> is what the backing store gives: no store, a new file, or an
  existing regular file of some size with its bytes (header first).  The kernel's \<^verbatim>\<open>mmap\<close> is
  the parameter \<open>mmap_ok\<close>.  The result \<open>Exit\<close> is \<^verbatim>\<open>exit(1)\<close>.  A failed \<^verbatim>\<open>mmap\<close> is only looked at
  after 16 was added to the address and, without a store, after the header was written
  through it, so it is undefined behaviour (\<open>None\<close>) in one case and not seen in the other.
\<close>

datatype qstore = NoStore | NewStore | OldStore nat bool bytes

datatype qinit = Exit | Mapped queue

definition map_queue :: "nat \<Rightarrow> nat \<Rightarrow> bytes \<Rightarrow> queue" where
  "map_queue bs n file =
     \<lparr>qarea = drop 16 file, qbs = bs, qsize = n,
      qpos = le_nat (take 8 file), qpull = le_nat (take 8 (drop 8 file))\<rparr>"

definition uwsgi_init_queue ::
  "nat \<Rightarrow> nat \<Rightarrow> nat \<Rightarrow> qstore \<Rightarrow> bool \<Rightarrow> qinit option" where
  "uwsgi_init_queue page_size blocksize n store mmap_ok =
     (let bs = (if blocksize = 0 then 8192 else blocksize);
          filesize = sz_add (sz_mul bs n) 16 in
      if sz_mul bs n mod page_size \<noteq> 0 then Some Exit
      else
        (case store of
           NoStore \<Rightarrow>
             if mmap_ok then Some (Mapped (map_queue bs n (replicate filesize 0))) else None
         | NewStore \<Rightarrow>
             if mmap_ok then Some (Mapped (map_queue bs n (replicate filesize 0))) else None
         | OldStore st_size is_reg file \<Rightarrow>
             if st_size \<noteq> filesize \<or> \<not> is_reg then Some Exit
             else if mmap_ok then Some (Mapped (map_queue bs n file)) else None))"

definition slot_off :: "queue \<Rightarrow> nat \<Rightarrow> nat" where
  "slot_off q i = sz_mul (qbs q) i"

definition uwsgi_queue_get :: "queue \<Rightarrow> nat \<Rightarrow> (nat \<times> nat) option option" where
  "uwsgi_queue_get q index =
     (if index \<ge> qsize q then Some None
      else do {
        size \<leftarrow> rd_le 8 (qarea q) (slot_off q index);
        Some (Some (slot_off q index + ITEM, size)) })"

definition uwsgi_queue_pop :: "queue \<Rightarrow> ((nat \<times> nat) option \<times> queue) option" where
  "uwsgi_queue_pop q =
     (let pos = (if qpos q = 0 then sz_sub (qsize q) 1 else qpos q - 1);
          q = q\<lparr>qpos := pos\<rparr>; ptr = slot_off q pos in
      do {
        size \<leftarrow> rd_le 8 (qarea q) ptr;
        (if size = 0 then Some (None, q)
         else do {
           area \<leftarrow> wr_le 8 (qarea q) ptr 0;
           Some (Some (ptr + ITEM, size), q\<lparr>qarea := area\<rparr>) }) })"

definition uwsgi_queue_pull :: "queue \<Rightarrow> ((nat \<times> nat) option \<times> queue) option" where
  "uwsgi_queue_pull q =
     (let ptr = slot_off q (qpull q) in
      do {
        size \<leftarrow> rd_le 8 (qarea q) ptr;
        (if size = 0 then Some (None, q)
         else
           let pull = sz_add (qpull q) 1; pull = (if pull \<ge> qsize q then 0 else pull) in
           do {
             area \<leftarrow> wr_le 8 (qarea q) ptr 0;
             Some (Some (ptr + ITEM, size), q\<lparr>qarea := area, qpull := pull\<rparr>) }) })"

definition put_item :: "queue \<Rightarrow> nat \<Rightarrow> bytes \<Rightarrow> nat \<Rightarrow> bytes option" where
  "put_item q pos message now =
     (let ptr = slot_off q pos in
      do {
        a \<leftarrow> wr_le 8 (qarea q) ptr (length message);
        a \<leftarrow> wr_le 8 a (ptr + 8) now;
        mem_write a (ptr + ITEM) message })"

definition uwsgi_queue_push :: "queue \<Rightarrow> bytes \<Rightarrow> nat \<Rightarrow> (int \<times> queue) option" where
  "uwsgi_queue_push q message now =
     (if length message > sz_sub (qbs q) ITEM then Some (0, q)
      else if length message = 0 then Some (0, q)
      else do {
        area \<leftarrow> put_item q (qpos q) message now;
        let pos = sz_add (qpos q) 1 in
        Some (1, q\<lparr>qarea := area, qpos := (if pos \<ge> qsize q then 0 else pos)\<rparr>) })"

text \<open>\<^verbatim>\<open>uwsgi_queue_set\<close>: the size test \<^emph>\<open>adds\<close> the size of the item header.\<close>

definition uwsgi_queue_set :: "queue \<Rightarrow> nat \<Rightarrow> bytes \<Rightarrow> nat \<Rightarrow> (int \<times> queue) option" where
  "uwsgi_queue_set q pos message now =
     (if length message > sz_add (qbs q) ITEM then Some (0, q)
      else if length message = 0 then Some (0, q)
      else if pos \<ge> qsize q then Some (0, q)
      else do {
        area \<leftarrow> put_item q pos message now;
        Some (1, q\<lparr>qarea := area\<rparr>) })"

section \<open>The blocks\<close>

text \<open>
  The invariant of a mapped queue: the area holds exactly the blocks, the positions lie in
  the ring, and no block announces more bytes than it holds.
\<close>

definition slot_size :: "queue \<Rightarrow> nat \<Rightarrow> nat" where
  "slot_size q i = le_nat (take 8 (drop (slot_off q i) (qarea q)))"

definition slot_msg :: "queue \<Rightarrow> nat \<Rightarrow> bytes" where
  "slot_msg q i = take (slot_size q i) (drop (slot_off q i + ITEM) (qarea q))"

definition q_wf :: "queue \<Rightarrow> bool" where
  "q_wf q \<longleftrightarrow> ITEM \<le> qbs q \<and> 0 < qsize q \<and> length (qarea q) = qbs q * qsize q \<and>
     length (qarea q) < 2 ^ 63 \<and> qpos q < qsize q \<and> qpull q < qsize q \<and>
     (\<forall>i<qsize q. slot_size q i \<le> qbs q - ITEM)"

lemma q_wf_bounds:
  assumes "q_wf q"
  shows "qsize q < SIZE_MOD" "qbs q < SIZE_MOD" "qpull q + 1 < SIZE_MOD"
    "sz_sub (qbs q) ITEM = qbs q - ITEM"
proof -
  have "qsize q \<le> qbs q * qsize q" "qbs q \<le> qbs q * qsize q"
    using assms by (simp_all add: q_wf_def)
  moreover have "qbs q * qsize q < 9223372036854775808" "qpull q < qsize q" "ITEM \<le> qbs q"
    using assms by (auto simp: q_wf_def)
  ultimately show "qsize q < SIZE_MOD" "qbs q < SIZE_MOD" "qpull q + 1 < SIZE_MOD"
    "sz_sub (qbs q) ITEM = qbs q - ITEM" by (linarith | intro sz_sub_exact)+
qed

lemma block_inside:
  assumes "q_wf q" "i < qsize q"
  shows "slot_off q i = qbs q * i" "qbs q * i + qbs q \<le> length (qarea q)"
proof -
  have "qbs q * Suc i \<le> qbs q * qsize q" using assms(2) by (intro mult_left_mono) auto
  then show "qbs q * i + qbs q \<le> length (qarea q)" using assms(1) by (simp add: q_wf_def)
  then have "qbs q * i < SIZE_MOD" using assms(1) by (simp add: q_wf_def)
  then show "slot_off q i = qbs q * i" by (simp add: slot_off_def sz_mul_def)
qed

lemma blocks_disjoint: "i < j \<Longrightarrow> (bs :: nat) * i + bs \<le> bs * j"
  by (metis Suc_leI mult_Suc_right mult_le_mono2 add.commute)

lemma rd_slot_size:
  assumes "q_wf q" "i < qsize q"
  shows "rd_le 8 (qarea q) (slot_off q i) = Some (slot_size q i)"
proof -
  have "slot_off q i + 8 \<le> length (qarea q)"
    using block_inside [OF assms] assms(1) by (simp add: q_wf_def)
  then show ?thesis by (simp add: rd_le_def mem_read_def slot_size_def)
qed

lemma slot_frame:
  assumes "q_wf q" "i < qsize q" "qbs q' = qbs q" "length (qarea q') = length (qarea q)"
    and "\<And>p k. qbs q * i \<le> p \<Longrightarrow> p + k \<le> qbs q * i + qbs q \<Longrightarrow>
           mem_read (qarea q') p k = mem_read (qarea q) p k"
  shows "slot_size q' i = slot_size q i" "slot_msg q' i = slot_msg q i"
proof -
  note b = block_inside [OF assms(1,2)]
  have off: "slot_off q' i = qbs q * i" "slot_off q i = qbs q * i"
    using b assms(3) by (auto simp: slot_off_def)
  have bs: "ITEM \<le> qbs q" "slot_size q i \<le> qbs q - ITEM" using assms(1,2) by (auto simp: q_wf_def)
  have "mem_read (qarea q') (qbs q * i) 8 = mem_read (qarea q) (qbs q * i) 8"
    using bs by (intro assms(5)) auto
  then show sz: "slot_size q' i = slot_size q i"
    using b bs assms(4) by (simp add: slot_size_def off mem_read_def)
  have "mem_read (qarea q') (qbs q * i + ITEM) (slot_size q i) =
      mem_read (qarea q) (qbs q * i + ITEM) (slot_size q i)"
    using bs by (intro assms(5)) auto
  moreover have "qbs q * i + ITEM + slot_size q i \<le> length (qarea q)" using b(2) bs by linarith
  ultimately show "slot_msg q' i = slot_msg q i"
    using b bs assms(4) by (simp add: slot_msg_def off sz mem_read_def)
qed

text \<open>Writing an item fills its block and leaves the others alone.\<close>

lemma put_item_ok:
  assumes "q_wf q" "i < qsize q" "length m \<le> qbs q - ITEM"
  obtains a where "put_item q i m now = Some a" "length a = length (qarea q)"
    "slot_size (q\<lparr>qarea := a\<rparr>) i = length m" "slot_msg (q\<lparr>qarea := a\<rparr>) i = m"
    "\<And>j. j < qsize q \<Longrightarrow> j \<noteq> i \<Longrightarrow> slot_size (q\<lparr>qarea := a\<rparr>) j = slot_size q j"
    "\<And>j. j < qsize q \<Longrightarrow> j \<noteq> i \<Longrightarrow> slot_msg (q\<lparr>qarea := a\<rparr>) j = slot_msg q j"
proof -
  note b = block_inside [OF assms(1,2)]
  let ?o = "qbs q * i"
  have bs: "ITEM \<le> qbs q" "length (qarea q) < SIZE_MOD" using assms(1) by (auto simp: q_wf_def)
  obtain a1 where a1: "wr_le 8 (qarea q) ?o (length m) = Some a1"
    using wr_le_total [of ?o 8 "qarea q" "length m"] b bs by auto
  obtain a2 where a2: "wr_le 8 a1 (?o + 8) now = Some a2"
    using wr_le_total [of "?o + 8" 8 a1 now] b bs wr_le_length [OF a1] by auto
  have l2: "length a2 = length (qarea q)" using a1 a2 by (simp add: mem_simps)
  moreover have "?o + ITEM + length m \<le> length (qarea q)" using b(2) bs assms(3) by linarith
  ultimately obtain a where a: "mem_write a2 (?o + ITEM) m = Some a"
    by (auto simp: mem_write_def)
  have la: "length a = length (qarea q)" using a l2 by (simp add: mem_simps)
  have frame: "mem_read a p k = mem_read (qarea q) p k" if "p + k \<le> ?o \<or> ?o + qbs q \<le> p" for p k
  proof -
    have "mem_read a p k = mem_read a2 p k"
      using a that assms(3) bs by (intro mem_read_write_other) auto
    also have "\<dots> = mem_read a1 p k" by (intro mem_read_wr_le_other [OF a2]) (use that bs in auto)
    also have "\<dots> = mem_read (qarea q) p k" by (intro mem_read_wr_le_other [OF a1]) (use that bs in auto)
    finally show ?thesis .
  qed
  have oth: "slot_size (q\<lparr>qarea := a\<rparr>) j = slot_size q j" "slot_msg (q\<lparr>qarea := a\<rparr>) j = slot_msg q j"
    if "j < qsize q" "j \<noteq> i" for j
  proof -
    have "qbs q * j + qbs q \<le> ?o \<or> ?o + qbs q \<le> qbs q * j"
      using that(2) by (metis blocks_disjoint nat_neq_iff)
    then have fr: "mem_read a p k = mem_read (qarea q) p k"
      if "qbs q * j \<le> p" "p + k \<le> qbs q * j + qbs q" for p k
      using that by (intro frame) linarith
    show "slot_size (q\<lparr>qarea := a\<rparr>) j = slot_size q j" "slot_msg (q\<lparr>qarea := a\<rparr>) j = slot_msg q j"
      using slot_frame [OF assms(1) that(1), of "q\<lparr>qarea := a\<rparr>"] fr la by auto
  qed
  have off: "slot_off (q\<lparr>qarea := a\<rparr>) i = ?o" using b(1) by (simp add: slot_off_def)
  have "rd_le 8 a ?o = rd_le 8 a2 ?o"
    using a mem_read_write_other [OF a, of ?o 8] by (simp add: rd_le_def)
  also have "\<dots> = rd_le 8 a1 ?o" using a2 by (intro rd_wr_le_other) auto
  also have "\<dots> = Some (length m mod 256 ^ 8)" using a1 by (intro rd_wr_le_same) auto
  also have "length m mod 256 ^ 8 = length m" using assms(3) b(2) bs by simp
  finally have sz: "slot_size (q\<lparr>qarea := a\<rparr>) i = length m"
    using off by (auto simp: slot_size_def rd_le_def mem_read_Some_iff)
  moreover have "slot_msg (q\<lparr>qarea := a\<rparr>) i = m"
    using mem_read_write_same [OF a] off sz by (simp add: slot_msg_def mem_read_Some_iff)
  moreover have "put_item q i m now = Some a"
    using a1 a2 a b(1) by (simp add: put_item_def Let_def add.commute)
  ultimately show ?thesis using that la oth by blast
qed

section \<open>The ring\<close>

text \<open>
  \<open>ring q k\<close>: the occupied blocks are the \<open>k\<close> blocks from \<open>pull_pos\<close> on and \<open>pos\<close> is the block
  after them; \<open>contents q\<close> is what they hold, oldest first.
\<close>

definition ring_ix :: "queue \<Rightarrow> nat \<Rightarrow> nat" where
  "ring_ix q j = (qpull q + j) mod qsize q"

definition ring :: "queue \<Rightarrow> nat \<Rightarrow> bool" where
  "ring q k \<longleftrightarrow> q_wf q \<and> k \<le> qsize q \<and> qpos q = ring_ix q k \<and>
     (\<forall>j<qsize q. slot_size q (ring_ix q j) \<noteq> 0 \<longleftrightarrow> j < k)"

definition contents :: "queue \<Rightarrow> bytes list" where
  "contents q = map (\<lambda>j. slot_msg q (ring_ix q j))
     (takeWhile (\<lambda>j. slot_size q (ring_ix q j) \<noteq> 0) [0..<qsize q])"

lemma takeWhile_upt: "k \<le> n \<Longrightarrow> (\<And>j. j < n \<Longrightarrow> P j \<longleftrightarrow> j < k) \<Longrightarrow> takeWhile P [0..<n] = [0..<k]"
proof -
  assume kn: "k \<le> n" and P: "\<And>j. j < n \<Longrightarrow> P j \<longleftrightarrow> j < k"
  have "[0..<n] = [0..<k] @ [k..<n]" using kn by (metis le_add_diff_inverse upt_add_eq_append zero_le)
  moreover have "takeWhile P [k..<n] = []" using P kn by (cases "k < n") (auto simp: upt_conv_Cons)
  ultimately show ?thesis using P kn by (simp add: takeWhile_append)
qed

lemma ring_contents: "ring q k \<Longrightarrow> contents q = map (\<lambda>j. slot_msg q (ring_ix q j)) [0..<k]"
  unfolding contents_def ring_def
  using takeWhile_upt [of k "qsize q" "\<lambda>j. slot_size q (ring_ix q j) \<noteq> 0"] by simp

lemma ring_ix_less: "0 < qsize q \<Longrightarrow> ring_ix q j < qsize q"
  by (simp add: ring_ix_def)

lemma ring_ix_unroll:
  "qpull q < qsize q \<Longrightarrow> j \<le> qsize q \<Longrightarrow>
     ring_ix q j = (if qpull q + j < qsize q then qpull q + j else qpull q + j - qsize q)"
  by (auto simp: ring_ix_def mod_if)

lemma ring_ix_inj:
  "qpull q < qsize q \<Longrightarrow> j < qsize q \<Longrightarrow> k < qsize q \<Longrightarrow> ring_ix q j = ring_ix q k \<Longrightarrow> j = k"
  by (auto simp: ring_ix_unroll split: if_splits)

lemma ring_ix_Suc:
  "qpull q < qsize q \<Longrightarrow> j < qsize q \<Longrightarrow>
     ring_ix q (Suc j) = (if Suc (ring_ix q j) \<ge> qsize q then 0 else Suc (ring_ix q j))"
  by (auto simp: ring_ix_unroll)

lemma push_ring:
  assumes "ring q k" "k < qsize q" "0 < length m" "length m \<le> qbs q - ITEM"
  obtains q' where "uwsgi_queue_push q m now = Some (1, q')" "ring q' (Suc k)"
    "contents q' = contents q @ [m]" "qsize q' = qsize q" "qbs q' = qbs q"
proof -
  from assms(1) have wf: "q_wf q" and pos: "qpos q = ring_ix q k"
    and occ: "\<And>j. j < qsize q \<Longrightarrow> slot_size q (ring_ix q j) \<noteq> 0 \<longleftrightarrow> j < k"
    by (auto simp: ring_def)
  from wf have n: "0 < qsize q" "qpull q < qsize q" "qsize q < SIZE_MOD"
    using q_wf_bounds by (auto simp: q_wf_def)
  obtain a where a: "put_item q (qpos q) m now = Some a" "length a = length (qarea q)"
    "slot_size (q\<lparr>qarea := a\<rparr>) (qpos q) = length m" "slot_msg (q\<lparr>qarea := a\<rparr>) (qpos q) = m"
    "\<And>j. j < qsize q \<Longrightarrow> j \<noteq> qpos q \<Longrightarrow> slot_size (q\<lparr>qarea := a\<rparr>) j = slot_size q j"
    "\<And>j. j < qsize q \<Longrightarrow> j \<noteq> qpos q \<Longrightarrow> slot_msg (q\<lparr>qarea := a\<rparr>) j = slot_msg q j"
    using put_item_ok [OF wf _ assms(4)] wf by (metis q_wf_def)
  let ?q = "q\<lparr>qarea := a, qpos := ring_ix q (Suc k)\<rparr>"
  have push: "uwsgi_queue_push q m now = Some (1, ?q)"
    using assms(2-4) a(1) wf n pos ring_ix_Suc [OF n(2) assms(2)] ring_ix_less [OF n(1), of k] q_wf_bounds(4) [OF wf]
    by (auto simp: uwsgi_queue_push_def q_wf_def Let_def sz_simps)
  have sl: "slot_size ?q i = slot_size (q\<lparr>qarea := a\<rparr>) i" "slot_msg ?q i = slot_msg (q\<lparr>qarea := a\<rparr>) i"
    "ring_ix ?q i = ring_ix q i" for i
    by (simp_all add: slot_size_def slot_msg_def slot_off_def ring_ix_def)
  have pn: "qpos q < qsize q" using wf by (simp add: q_wf_def)
  have sz: "slot_size ?q i \<le> qbs q - ITEM" if "i < qsize q" for i
    using a(3) a(5) [OF that] wf that assms(4) sl by (cases "i = qpos q") (auto simp: q_wf_def)
  have "q_wf ?q"
    using wf sz a(2) ring_ix_less [OF n(1)] by (auto simp: q_wf_def)
  moreover have "slot_size ?q (ring_ix q j) \<noteq> 0 \<longleftrightarrow> j < Suc k" if "j < qsize q" for j
  proof (cases "j = k")
    case True
    then show ?thesis using a(3) pos sl assms(3) by simp
  next
    case False
    then have "ring_ix q j \<noteq> qpos q" using ring_ix_inj [OF n(2) that assms(2)] pos by auto
    then show ?thesis using a(5) ring_ix_less [OF n(1)] sl occ [OF that] False by auto
  qed
  ultimately have r: "ring ?q (Suc k)" using assms(2) sl by (auto simp: ring_def)
  have "slot_msg ?q (ring_ix q j) = slot_msg q (ring_ix q j)" if "j < k" for j
  proof -
    have "ring_ix q j \<noteq> qpos q" using ring_ix_inj [OF n(2) _ assms(2), of j] that pos assms(2) by auto
    then show ?thesis using a(6) ring_ix_less [OF n(1)] sl by simp
  qed
  then have "contents ?q = contents q @ [m]"
    using ring_contents [OF r] ring_contents [OF assms(1)] a(4) pos sl by simp
  with push r show ?thesis using that [of ?q] by simp
qed

text \<open>Emptying a block keeps the others, and the message stays where the returned pointer says.\<close>

lemma clear_block:
  assumes "q_wf q" "i < qsize q"
  obtains a where "wr_le 8 (qarea q) (slot_off q i) 0 = Some a" "length a = length (qarea q)"
    "slot_size (q\<lparr>qarea := a\<rparr>) i = 0"
    "mem_read a (slot_off q i + ITEM) (slot_size q i) = Some (slot_msg q i)"
    "\<And>j. j < qsize q \<Longrightarrow> j \<noteq> i \<Longrightarrow> slot_size (q\<lparr>qarea := a\<rparr>) j = slot_size q j"
    "\<And>j. j < qsize q \<Longrightarrow> j \<noteq> i \<Longrightarrow> slot_msg (q\<lparr>qarea := a\<rparr>) j = slot_msg q j"
proof -
  note b = block_inside [OF assms]
  let ?o = "qbs q * i"
  have bs: "ITEM \<le> qbs q" "slot_size q i \<le> qbs q - ITEM" using assms by (auto simp: q_wf_def)
  obtain a where a: "wr_le 8 (qarea q) ?o 0 = Some a"
    using wr_le_total [of ?o 8 "qarea q" 0] b bs by auto
  have la: "length a = length (qarea q)" using a by (rule wr_le_length)
  have "rd_le 8 a ?o = Some 0" using rd_wr_le_same [OF a] by simp
  then have "slot_size (q\<lparr>qarea := a\<rparr>) i = 0"
    using b(1) by (auto simp: slot_size_def slot_off_def rd_le_def mem_read_Some_iff)
  moreover have "mem_read a (?o + ITEM) (slot_size q i) = Some (slot_msg q i)"
  proof -
    have "mem_read a (?o + ITEM) (slot_size q i) = mem_read (qarea q) (?o + ITEM) (slot_size q i)"
      using a by (intro mem_read_wr_le_other) auto
    moreover have "?o + ITEM + slot_size q i \<le> length (qarea q)" using b(2) bs by linarith
    ultimately show ?thesis using b(1) by (simp add: mem_read_def slot_msg_def)
  qed
  moreover have "slot_size (q\<lparr>qarea := a\<rparr>) j = slot_size q j" "slot_msg (q\<lparr>qarea := a\<rparr>) j = slot_msg q j"
    if "j < qsize q" "j \<noteq> i" for j
  proof -
    have "qbs q * j + qbs q \<le> ?o \<or> ?o + qbs q \<le> qbs q * j"
      using that(2) by (metis blocks_disjoint nat_neq_iff)
    then have fr: "mem_read a p k = mem_read (qarea q) p k"
      if "qbs q * j \<le> p" "p + k \<le> qbs q * j + qbs q" for p k
      using that a bs by (intro mem_read_wr_le_other) auto
    show "slot_size (q\<lparr>qarea := a\<rparr>) j = slot_size q j" "slot_msg (q\<lparr>qarea := a\<rparr>) j = slot_msg q j"
      using slot_frame [OF assms(1) that(1), of "q\<lparr>qarea := a\<rparr>"] fr la by auto
  qed
  ultimately show ?thesis using that a la b(1) by simp
qed

lemma take_ring:
  assumes "ring q (Suc k)" "i = ring_ix q 0 \<and> p = ring_ix q 1 \<and> c = tl (contents q) \<and> qp = qpos q \<or>
      i = ring_ix q k \<and> p = qpull q \<and> c = butlast (contents q) \<and> qp = i"
    and "wr_le 8 (qarea q) (slot_off q i) 0 = Some a"
  shows "ring (q\<lparr>qarea := a, qpos := qp, qpull := p\<rparr>) k \<and>
    contents (q\<lparr>qarea := a, qpos := qp, qpull := p\<rparr>) = c"
proof -
  let ?q = "q\<lparr>qarea := a, qpos := qp, qpull := p\<rparr>"
  from assms(1) have wf: "q_wf q" and kn: "k < qsize q" and pos: "qpos q = ring_ix q (Suc k)"
    and occ: "\<And>j. j < qsize q \<Longrightarrow> slot_size q (ring_ix q j) \<noteq> 0 \<longleftrightarrow> j < Suc k"
    by (auto simp: ring_def)
  then have n: "qpull q < qsize q" "0 < qsize q" by (auto simp: q_wf_def)
  have i: "i < qsize q" using assms(2) ring_ix_less [OF n(2)] by auto
  obtain a' where a': "wr_le 8 (qarea q) (slot_off q i) 0 = Some a'" "length a' = length (qarea q)"
    "slot_size (q\<lparr>qarea := a'\<rparr>) i = 0"
    "\<And>j. j < qsize q \<Longrightarrow> j \<noteq> i \<Longrightarrow> slot_size (q\<lparr>qarea := a'\<rparr>) j = slot_size q j"
    "\<And>j. j < qsize q \<Longrightarrow> j \<noteq> i \<Longrightarrow> slot_msg (q\<lparr>qarea := a'\<rparr>) j = slot_msg q j"
    using clear_block [OF wf i] by metis
  have aa: "a' = a" using a'(1) assms(3) by simp
  have sl: "slot_size ?q j = slot_size (q\<lparr>qarea := a\<rparr>) j" "slot_msg ?q j = slot_msg (q\<lparr>qarea := a\<rparr>) j"
    for j by (simp_all add: slot_size_def slot_msg_def slot_off_def)
  have pq: "p < qsize q" "qp < qsize q"
    using assms(2) ring_ix_less [OF n(2)] n pos by auto
  have "slot_size ?q j \<le> qbs q - ITEM" if "j < qsize q" for j
    using a'(3) a'(4) [OF that] wf that sl aa by (cases "j = i") (auto simp: q_wf_def)
  then have wf': "q_wf ?q" using wf a'(2) aa pq by (auto simp: q_wf_def)
  have rot: "ring_ix ?q j = ring_ix q (Suc j)" if "p = ring_ix q 1" for j
    using that by (simp add: ring_ix_def mod_add_left_eq mod_Suc_eq flip: add_Suc)
  have r0: "ring_ix q (qsize q) = ring_ix q 0" by (simp add: ring_ix_def)
  show ?thesis
    using assms(2)
  proof
    assume c: "i = ring_ix q 0 \<and> p = ring_ix q 1 \<and> c = tl (contents q) \<and> qp = qpos q"
    have neq: "ring_ix q (Suc j) \<noteq> i" if "Suc j < qsize q" for j
      using ring_ix_inj [OF n(1) that n(2)] c by auto
    have "slot_size ?q (ring_ix ?q j) \<noteq> 0 \<longleftrightarrow> j < k" if "j < qsize q" for j
    proof (cases "Suc j < qsize q")
      case True
      then show ?thesis
        using occ [OF True] neq [OF True] a'(4) aa sl rot c ring_ix_less [OF n(2)] by simp
    next
      case False
      with that have "Suc j = qsize q" by simp
      with kn c show ?thesis using rot r0 sl a'(3) aa by auto
    qed
    then have r: "ring ?q k" using wf' kn c pos rot by (auto simp: ring_def)
    have "slot_msg ?q (ring_ix ?q j) = slot_msg q (ring_ix q (Suc j))" if "j < k" for j
      using neq [of j] a'(5) aa sl rot c that kn ring_ix_less [OF n(2)] by simp
    then have "contents ?q = map (\<lambda>j. slot_msg q (ring_ix q (Suc j))) [0..<k]"
      using ring_contents [OF r] by simp
    also have "\<dots> = tl (contents q)"
      using ring_contents [OF assms(1)] by (simp add: map_tl [symmetric] map_Suc_upt [symmetric] comp_def del: upt_Suc)
    finally show ?thesis using r c by simp
  next
    assume c: "i = ring_ix q k \<and> p = qpull q \<and> c = butlast (contents q) \<and> qp = i"
    have ix: "ring_ix ?q j = ring_ix q j" for j using c by (simp add: ring_ix_def)
    have neq: "ring_ix q j \<noteq> i" if "j < qsize q" "j \<noteq> k" for j
      using ring_ix_inj [OF n(1) that(1) kn] that c by auto
    have "slot_size ?q (ring_ix ?q j) \<noteq> 0 \<longleftrightarrow> j < k" if "j < qsize q" for j
      using occ [OF that] neq [OF that] a'(3,4) aa sl ix c ring_ix_less [OF n(2)]
      by (cases "j = k") auto
    then have r: "ring ?q k" using wf' kn c ix by (auto simp: ring_def)
    have "slot_msg ?q (ring_ix ?q j) = slot_msg q (ring_ix q j)" if "j < k" for j
      using neq [of j] a'(5) aa sl ix that kn ring_ix_less [OF n(2)] by simp
    then have "contents ?q = butlast (contents q)"
      using ring_contents [OF r] ring_contents [OF assms(1)] by (simp add: butlast_append)
    then show ?thesis using r c by simp
  qed
qed

lemma pull_ring:
  assumes "ring q (Suc k)"
  obtains off size q' where "uwsgi_queue_pull q = Some (Some (off, size), q')"
    "mem_read (qarea q') off size = Some (hd (contents q))" "ring q' k" "contents q' = tl (contents q)"
    "qsize q' = qsize q" "qbs q' = qbs q"
proof -
  from assms have wf: "q_wf q" and "0 < qsize q" by (auto simp: ring_def q_wf_def)
  then have n: "qpull q < qsize q" "ring_ix q 0 = qpull q" by (auto simp: q_wf_def ring_ix_def)
  obtain a where a: "wr_le 8 (qarea q) (slot_off q (qpull q)) 0 = Some a"
    "mem_read a (slot_off q (qpull q) + ITEM) (slot_size q (qpull q)) = Some (slot_msg q (qpull q))"
    using clear_block [OF wf n(1)] by metis
  let ?q = "q\<lparr>qarea := a, qpos := qpos q, qpull := ring_ix q 1\<rparr>"
  have "slot_size q (qpull q) \<noteq> 0" using assms n(2) \<open>0 < qsize q\<close> unfolding ring_def by (metis zero_less_Suc)
  moreover have "sz_add (qpull q) 1 = Suc (qpull q)"
    using q_wf_bounds(3) [OF wf] by (simp add: sz_simps)
  moreover have "ring_ix q 1 = (if Suc (qpull q) \<ge> qsize q then 0 else Suc (qpull q))"
    using ring_ix_Suc [of q 0] n by (simp add: \<open>0 < qsize q\<close>)
  ultimately have "uwsgi_queue_pull q = Some (Some (slot_off q (qpull q) + ITEM, slot_size q (qpull q)), ?q)"
    using rd_slot_size [OF wf n(1)] a(1) by (simp add: uwsgi_queue_pull_def Let_def)
  moreover have "ring ?q k \<and> contents ?q = tl (contents q)"
    using take_ring [OF assms _ a(1) [folded n(2)], of "ring_ix q 1" "tl (contents q)" "qpos q"] by simp
  moreover have "hd (contents q) = slot_msg q (qpull q)"
    using ring_contents [OF assms] n by (simp add: upt_conv_Cons del: upt_Suc)
  ultimately show ?thesis using that a(2) by simp
qed

lemma pop_ring:
  assumes "ring q (Suc k)"
  obtains off size q' where "uwsgi_queue_pop q = Some (Some (off, size), q')"
    "mem_read (qarea q') off size = Some (last (contents q))" "ring q' k"
    "contents q' = butlast (contents q)"
proof -
  from assms have wf: "q_wf q" and kn: "k < qsize q" and pos: "qpos q = ring_ix q (Suc k)"
    by (auto simp: ring_def)
  then have n: "qpull q < qsize q" "ring_ix q k < qsize q" by (auto simp: q_wf_def ring_ix_less)
  let ?i = "ring_ix q k"
  have "qsize q < SIZE_MOD" using q_wf_bounds(1) [OF wf] .
  then have dec: "(if qpos q = 0 then sz_sub (qsize q) 1 else qpos q - 1) = ?i"
    using ring_ix_Suc [OF n(1) kn] n(2) pos by (auto simp: sz_simps)
  obtain a where a: "wr_le 8 (qarea q) (slot_off q ?i) 0 = Some a"
    "mem_read a (slot_off q ?i + ITEM) (slot_size q ?i) = Some (slot_msg q ?i)"
    using clear_block [OF wf n(2)] by metis
  let ?q = "q\<lparr>qarea := a, qpos := ?i, qpull := qpull q\<rparr>"
  have off: "slot_off (q\<lparr>qpos := ?i\<rparr>) ?i = slot_off q ?i" by (simp add: slot_off_def)
  have "slot_size q ?i \<noteq> 0" using assms kn by (auto simp: ring_def)
  then have "uwsgi_queue_pop q = Some (Some (slot_off q ?i + ITEM, slot_size q ?i), ?q)"
    using rd_slot_size [OF wf n(2)] a(1) by (simp add: uwsgi_queue_pop_def dec off Let_def)
  moreover have "ring ?q k \<and> contents ?q = butlast (contents q)"
    using take_ring [OF assms _ a(1), of "qpull q" "butlast (contents q)" ?i] by simp
  moreover have "last (contents q) = slot_msg q ?i"
    using ring_contents [OF assms] by simp
  ultimately show ?thesis using that a(2) by simp
qed

section \<open>First in, first out\<close>

text \<open>
  What a client of a bounded message queue relies on: as long as there is room, a push puts
  a message behind the others, and a pull hands out the first one.
\<close>

fun push_all :: "('q \<Rightarrow> 'm \<Rightarrow> 'q option) \<Rightarrow> 'q \<Rightarrow> 'm list \<Rightarrow> 'q option" where
  "push_all push q [] = Some q"
| "push_all push q (m # ms) = do { q \<leftarrow> push q m; push_all push q ms }"

fun pull_all :: "('q \<Rightarrow> ('m \<times> 'q) option) \<Rightarrow> 'q \<Rightarrow> nat \<Rightarrow> ('m list \<times> 'q) option" where
  "pull_all pull q 0 = Some ([], q)"
| "pull_all pull q (Suc n) =
     do { (m, q) \<leftarrow> pull q; (ms, q) \<leftarrow> pull_all pull q n; Some (m # ms, q) }"

locale message_queue =
  fixes push :: "'q \<Rightarrow> 'm \<Rightarrow> 'q option"
    and pull :: "'q \<Rightarrow> ('m \<times> 'q) option"
    and abs :: "'q \<Rightarrow> 'm list"
    and inv :: "'q \<Rightarrow> bool"
    and room :: "'q \<Rightarrow> nat"
    and fits :: "'q \<Rightarrow> 'm \<Rightarrow> bool"
  assumes push_law: "inv q \<Longrightarrow> fits q m \<Longrightarrow> length (abs q) < room q \<Longrightarrow>
      \<exists>q'. push q m = Some q' \<and> inv q' \<and> abs q' = abs q @ [m] \<and> room q' = room q \<and> fits q' = fits q"
    and pull_law: "inv q \<Longrightarrow> abs q = m # ms \<Longrightarrow>
      \<exists>q'. pull q = Some (m, q') \<and> inv q' \<and> abs q' = ms"
begin

lemma push_all_total:
  "inv q \<Longrightarrow> \<forall>m\<in>set ms. fits q m \<Longrightarrow> length (abs q) + length ms \<le> room q \<Longrightarrow>
     \<exists>q'. push_all push q ms = Some q' \<and> inv q' \<and> abs q' = abs q @ ms"
proof (induction ms arbitrary: q)
  case (Cons m ms)
  then obtain q1 where "push q m = Some q1" "inv q1" "abs q1 = abs q @ [m]" "room q1 = room q"
    "fits q1 = fits q" using push_law [of q m] by auto
  with Cons.IH [of q1] Cons.prems show ?case by auto
qed simp

lemma pull_all_total:
  "inv q \<Longrightarrow> abs q = ms @ rest \<Longrightarrow>
     \<exists>q'. pull_all pull q (length ms) = Some (ms, q') \<and> inv q' \<and> abs q' = rest"
proof (induction ms arbitrary: q)
  case (Cons m ms)
  then obtain q1 where "pull q = Some (m, q1)" "inv q1" "abs q1 = ms @ rest"
    using pull_law [of q m "ms @ rest"] by auto
  with Cons.IH [of q1] show ?case by auto
qed simp

lemma fifo:
  assumes "inv q" "\<forall>m\<in>set ms. fits q m" "length (abs q) + length ms \<le> room q"
  shows "\<exists>q1 q2. push_all push q ms = Some q1 \<and>
     pull_all pull q1 (length (abs q) + length ms) = Some (abs q @ ms, q2) \<and> abs q2 = []"
proof -
  from push_all_total [OF assms] obtain q1 where
    "push_all push q ms = Some q1" "inv q1" "abs q1 = abs q @ ms" by auto
  with pull_all_total [of q1 "abs q @ ms" "[]"] show ?thesis by auto
qed

end

text \<open>The message read through the pointer that a pull or a pop returns.\<close>

definition push_msg :: "nat \<Rightarrow> queue \<Rightarrow> bytes \<Rightarrow> queue option" where
  "push_msg now q m =
     (case uwsgi_queue_push q m now of Some (r, q') \<Rightarrow> if r = 1 then Some q' else None | None \<Rightarrow> None)"

definition taken :: "((nat \<times> nat) option \<times> queue) option \<Rightarrow> (bytes \<times> queue) option" where
  "taken r =
     (case r of
        Some (Some (off, len), q) \<Rightarrow> map_option (\<lambda>m. (m, q)) (mem_read (qarea q) off len)
      | _ \<Rightarrow> None)"

definition q_inv :: "queue \<Rightarrow> bool" where
  "q_inv q \<longleftrightarrow> (\<exists>k. ring q k)"

definition q_fits :: "queue \<Rightarrow> bytes \<Rightarrow> bool" where
  "q_fits q m \<longleftrightarrow> 0 < length m \<and> length m \<le> qbs q - ITEM"

lemma ring_length: "ring q k \<Longrightarrow> length (contents q) = k"
  by (simp add: ring_contents)

interpretation rq: message_queue "push_msg now" "\<lambda>q. taken (uwsgi_queue_pull q)"
  contents q_inv qsize q_fits for now
proof unfold_locales
  fix q m assume "q_inv q" "q_fits q m" "length (contents q) < qsize q"
  then obtain k where k: "ring q k" "k < qsize q" by (auto simp: q_inv_def ring_length)
  from push_ring [OF this, of m now] \<open>q_fits q m\<close> obtain q' where
    "uwsgi_queue_push q m now = Some (1, q')" "ring q' (Suc k)"
    "contents q' = contents q @ [m]" "qsize q' = qsize q" "qbs q' = qbs q"
    by (auto simp: q_fits_def)
  then show "\<exists>q'. push_msg now q m = Some q' \<and> q_inv q' \<and> contents q' = contents q @ [m] \<and>
      qsize q' = qsize q \<and> q_fits q' = q_fits q"
    by (intro exI [of _ q']) (auto simp: push_msg_def q_inv_def q_fits_def fun_eq_iff)
next
  fix q m ms assume "q_inv q" and c: "contents q = m # ms"
  then obtain k where "ring q (Suc k)"
    unfolding q_inv_def by (metis list.size(3) neq_Nil_conv not0_implies_Suc ring_length list.discI length_0_conv)
  from pull_ring [OF this] obtain off size q' where
    "uwsgi_queue_pull q = Some (Some (off, size), q')"
    "mem_read (qarea q') off size = Some (hd (contents q))" "ring q' k" "contents q' = tl (contents q)"
    by metis
  with c show "\<exists>q'. taken (uwsgi_queue_pull q) = Some (m, q') \<and> q_inv q' \<and> contents q' = ms"
    by (auto simp: taken_def q_inv_def)
qed

text \<open>A queue mapped over fresh memory is empty and in order.\<close>

lemma take_drop_replicate [simp]: "take n (drop m (replicate k x)) = replicate (min n (k - m)) x"
  by (simp add: min_def)

lemma le_nat_replicate_0 [simp]: "le_nat (replicate n 0) = 0"
  by (induction n) auto

lemma fresh_ring:
  assumes "ITEM \<le> bs" "0 < n" "bs * n < 2 ^ 63 - 16"
  shows "ring (map_queue bs n (replicate (bs * n + 16) 0)) 0"
    and "contents (map_queue bs n (replicate (bs * n + 16) 0)) = []"
proof -
  let ?q = "map_queue bs n (replicate (bs * n + 16) 0)"
  have z: "slot_size ?q i = 0" for i by (simp add: slot_size_def map_queue_def)
  have hd: "qpos ?q = 0" "qpull ?q = 0" "qsize ?q = n" "qbs ?q = bs" "length (qarea ?q) = bs * n"
    by (simp_all add: map_queue_def)
  have "q_wf ?q" using assms z by (simp add: q_wf_def hd)
  then show r: "ring ?q 0" using z hd assms by (simp add: ring_def ring_ix_def)
  show "contents ?q = []" using ring_contents [OF r] by simp
qed

lemma init_fresh:
  assumes "0 < bs" "bs * n < 2 ^ 63 - 16" "bs * n mod page = 0"
  shows "uwsgi_init_queue page bs n NoStore True =
      Some (Mapped (map_queue bs n (replicate (bs * n + 16) 0)))"
  using assms by (simp add: uwsgi_init_queue_def sz_mul_def sz_simps Let_def)

text \<open>
  C28: the shared queue is first in, first out: from an ordered state and as long as the ring
  has room, the messages pushed come back from as many pulls, in order, after those that were
  already queued, byte for byte.
\<close>

theorem uwsgi_queue_fifo:
  assumes "ring q k" "\<forall>m\<in>set ms. 0 < length m \<and> length m \<le> qbs q - 16" "k + length ms \<le> qsize q"
  shows "\<exists>q1 q2. push_all (push_msg now) q ms = Some q1 \<and>
     pull_all (\<lambda>q. taken (uwsgi_queue_pull q)) q1 (k + length ms) = Some (contents q @ ms, q2) \<and>
     contents q2 = []"
  using rq.fifo [of q ms now] assms ring_length [OF assms(1)] by (auto simp: q_inv_def q_fits_def)

theorem uwsgi_queue_fifo_witness:
  "\<exists>q q1 q2. uwsgi_init_queue 32 32 3 NoStore True = Some (Mapped q) \<and>
     push_all (push_msg 7) q [str ''job1'', str ''job2''] = Some q1 \<and>
     pull_all (\<lambda>q. taken (uwsgi_queue_pull q)) q1 2 = Some ([str ''job1'', str ''job2''], q2)"
proof -
  let ?q = "map_queue 32 3 (replicate (32 * 3 + 16) 0)"
  have init: "uwsgi_init_queue 32 32 3 NoStore True = Some (Mapped ?q)" by (rule init_fresh) simp_all
  have r: "ring ?q 0" "contents ?q = []" by (rule fresh_ring; simp)+
  have p: "qbs ?q = 32" "qsize ?q = 3" by (simp_all add: map_queue_def)
  have two: "0 + length [str ''job1'', str ''job2''] = 2" by simp
  from uwsgi_queue_fifo [OF r(1), of "[str ''job1'', str ''job2'']" 7, unfolded two p r(2)]
  show ?thesis using init by auto
qed

text \<open>
  A pop takes back the newest message: right after a push it returns the pushed bytes and
  leaves the contents of before.
\<close>

theorem uwsgi_queue_push_pop:
  assumes "ring q k" "k < qsize q" "0 < length m" "length m \<le> qbs q - 16"
  shows "\<exists>q1 q2. uwsgi_queue_push q m now = Some (1, q1) \<and>
     taken (uwsgi_queue_pop q1) = Some (m, q2) \<and> ring q2 k \<and> contents q2 = contents q"
proof -
  from push_ring [OF assms] obtain q1 where q1: "uwsgi_queue_push q m now = Some (1, q1)"
    "ring q1 (Suc k)" "contents q1 = contents q @ [m]" by metis
  from pop_ring [OF q1(2)] obtain off size q2 where
    "uwsgi_queue_pop q1 = Some (Some (off, size), q2)"
    "mem_read (qarea q2) off size = Some (last (contents q1))" "ring q2 k"
    "contents q2 = butlast (contents q1)" by metis
  with q1 show ?thesis by (auto simp: taken_def)
qed

theorem uwsgi_queue_push_pop_witness:
  "\<exists>q1 q2. uwsgi_queue_push (map_queue 32 3 (replicate 112 0)) (str ''job'') 9 = Some (1, q1) \<and>
     taken (uwsgi_queue_pop q1) = Some (str ''job'', q2)"
proof -
  let ?q = "map_queue 32 3 (replicate (32 * 3 + 16) 0)"
  have "ring ?q 0" by (rule fresh_ring) simp_all
  moreover have "qbs ?q = 32" "qsize ?q = 3" by (simp_all add: map_queue_def)
  moreover have "32 * 3 + 16 = (112 :: nat)" by simp
  ultimately show ?thesis
    using uwsgi_queue_push_pop [of ?q 0 "str ''job''" 9] by (simp only: length_str) auto
qed

text \<open>
  \<open>uwsgi_queue_set\<close> accepts up to 32 bytes more than a block has room for (the size test adds
  the item header instead of subtracting it): set in the last block, such a message is
  written past the end of the shared area.
\<close>

theorem uwsgi_queue_set_overflows:
  assumes "q_wf q" "qbs q - 16 < length m" "length m \<le> qbs q + 16"
  shows "uwsgi_queue_set q (qsize q - 1) m now = None"
proof -
  let ?i = "qsize q - 1"
  have n: "?i < qsize q" "0 < qsize q" using assms(1) by (auto simp: q_wf_def)
  have off: "slot_off q ?i = qbs q * ?i" using block_inside(1) [OF assms(1) n(1)] .
  have "qbs q * ?i + qbs q = qbs q * qsize q"
    using n(2) by (metis Suc_diff_1 add.commute mult_Suc_right)
  then have end_: "length (qarea q) = qbs q * ?i + qbs q" "16 \<le> qbs q" using assms(1) by (auto simp: q_wf_def)
  have "put_item q ?i m now = None"
    using assms(2) end_
    by (auto simp: put_item_def off [simplified] Let_def mem_write_def wr_le_def split: bind_splits if_splits)
  moreover have "qbs q < 9223372036854775808"
  proof -
    have "qbs q \<le> qbs q * qsize q" using n(2) by simp
    moreover have "qbs q * qsize q < 9223372036854775808" using assms(1) by (simp add: q_wf_def)
    ultimately show ?thesis by linarith
  qed
  ultimately show ?thesis
    using assms(2,3) n by (auto simp: uwsgi_queue_set_def sz_simps)
qed

theorem uwsgi_queue_set_overflows_witness:
  "uwsgi_queue_set (map_queue 32 3 (replicate 112 0)) 2 (replicate 48 65) 9 = None"
proof -
  let ?q = "map_queue 32 3 (replicate (32 * 3 + 16) 0)"
  have "ring ?q 0" by (rule fresh_ring) simp_all
  then have "q_wf ?q" by (simp add: ring_def)
  moreover have "qbs ?q = 32" "qsize ?q = 3" by (simp_all add: map_queue_def)
  ultimately show ?thesis
    using uwsgi_queue_set_overflows [of ?q "replicate 48 65" 9] by simp
qed

end
