(* ===== verification/Sharedarea.thy ===== *)
theory Sharedarea
  imports Prelude
begin

text \<open>
  \<^verbatim>\<open>core/sharedarea.c\<close>: memory areas shared by all workers and addressed by number.

  An operation returns \<open>None\<close> when it touches memory outside an area (or the table, for a
  negative number) and when it runs into a signed overflow, which C leaves undefined at 32
  and 64 bits (narrower sums are converted back and wrap).  \<open>held\<close> counts how often the
  caller holds the lock of the area.  Numbers in an area are little endian.
\<close>

section \<open>State\<close>

record sarea =
  sa_pages :: int
  sa_fd :: int
  sa_area :: bytes
  sa_max_pos :: nat
  sa_updates :: nat
  sa_hits :: nat
  sa_honour_used :: bool
  sa_used :: nat
  sa_held :: int

type_synonym sareas = "sarea list"

text \<open>The inner \<open>None\<close> is the null pointer.\<close>

definition uwsgi_sharedarea_get_by_id :: "sareas \<Rightarrow> int \<Rightarrow> nat \<Rightarrow> sarea option option" where
  "uwsgi_sharedarea_get_by_id t i pos =
     (if i > int (length t) - 1 then Some None
      else if i < 0 then None
      else let sa = t ! nat i in if pos > sa_max_pos sa then Some None else Some (Some sa))"

definition sa_lock :: "sarea \<Rightarrow> sarea" where
  "sa_lock sa = sa\<lparr>sa_held := sa_held sa + 1\<rparr>"

definition sa_unlock :: "sarea \<Rightarrow> sarea" where
  "sa_unlock sa = sa\<lparr>sa_held := sa_held sa - 1\<rparr>"

text \<open>
  The shape of every operation: \<open>-1\<close> when there is no such area, else the step \<open>f\<close> on the
  area, whose result is stored back.
\<close>

definition with_area ::
  "sareas \<Rightarrow> int \<Rightarrow> nat \<Rightarrow> (sarea \<Rightarrow> ('r \<times> sarea) option) \<Rightarrow> 'r \<Rightarrow> ('r \<times> sareas) option" where
  "with_area t i pos f fail =
     (case uwsgi_sharedarea_get_by_id t i pos of
        None \<Rightarrow> None
      | Some None \<Rightarrow> Some (fail, t)
      | Some (Some sa) \<Rightarrow> map_option (\<lambda>(r, sa'). (r, t[nat i := sa'])) (f sa))"

definition uwsgi_sharedarea_update :: "sareas \<Rightarrow> int \<Rightarrow> (int \<times> sareas) option" where
  "uwsgi_sharedarea_update t i =
     with_area t i 0 (\<lambda>sa. Some (0, sa\<lparr>sa_updates := sz_add (sa_updates sa) 1\<rparr>)) (-1)"

definition uwsgi_sharedarea_rlock :: "sareas \<Rightarrow> int \<Rightarrow> (int \<times> sareas) option" where
  "uwsgi_sharedarea_rlock t i = with_area t i 0 (\<lambda>sa. Some (0, sa_lock sa)) (-1)"

definition uwsgi_sharedarea_wlock :: "sareas \<Rightarrow> int \<Rightarrow> (int \<times> sareas) option" where
  "uwsgi_sharedarea_wlock t i = with_area t i 0 (\<lambda>sa. Some (0, sa_lock sa)) (-1)"

definition uwsgi_sharedarea_unlock :: "sareas \<Rightarrow> int \<Rightarrow> (int \<times> sareas) option" where
  "uwsgi_sharedarea_unlock t i = with_area t i 0 (\<lambda>sa. Some (0, sa_unlock sa)) (-1)"

section \<open>Reading and writing\<close>

text \<open>A read returns the \<^verbatim>\<open>int64_t\<close> result and what it copied to the caller's buffer.\<close>

definition read_area :: "nat \<Rightarrow> nat \<Rightarrow> sarea \<Rightarrow> ((int \<times> bytes) \<times> sarea) option" where
  "read_area pos len sa =
     (if sz_add pos len > sz_add (sa_max_pos sa) 1 then Some ((-1, []), sa)
      else
        let len = (if len = 0 then sz_sub (sz_add (sa_max_pos sa) 1) pos else len);
            len = (if sa_honour_used sa \<and> sz_sub (sa_used sa) pos < len
                   then sz_sub (sa_used sa) pos else len);
            sa = sa_lock sa in
        do {
          blob \<leftarrow> mem_read (sa_area sa) pos len;
          Some ((int len, blob), sa_unlock (sa\<lparr>sa_hits := sz_add (sa_hits sa) 1\<rparr>)) })"

definition uwsgi_sharedarea_read ::
  "sareas \<Rightarrow> int \<Rightarrow> nat \<Rightarrow> nat \<Rightarrow> ((int \<times> bytes) \<times> sareas) option" where
  "uwsgi_sharedarea_read t i pos len = with_area t i pos (read_area pos len) (-1, [])"

definition write_area :: "nat \<Rightarrow> bytes \<Rightarrow> sarea \<Rightarrow> (int \<times> sarea) option" where
  "write_area pos blob sa =
     (if sz_add pos (length blob) > sz_add (sa_max_pos sa) 1 then Some (-1, sa)
      else let sa = sa_lock sa in
        do {
          a \<leftarrow> mem_write (sa_area sa) pos blob;
          Some (0, sa_unlock (sa\<lparr>sa_area := a, sa_updates := sz_add (sa_updates sa) 1\<rparr>)) })"

definition uwsgi_sharedarea_write ::
  "sareas \<Rightarrow> int \<Rightarrow> nat \<Rightarrow> bytes \<Rightarrow> (int \<times> sareas) option" where
  "uwsgi_sharedarea_write t i pos blob = with_area t i pos (write_area pos blob) (-1)"

text \<open>
  The fixed-width reads and writes: \<open>k\<close> bytes of an integer.  The read returns 0 and the value,
  or \<open>-1\<close> when fewer bytes came back.
\<close>

definition sarea_read_int :: "nat \<Rightarrow> sareas \<Rightarrow> int \<Rightarrow> nat \<Rightarrow> ((int \<times> nat) \<times> sareas) option" where
  "sarea_read_int k t i pos = do {
     ((rlen, blob), t') \<leftarrow> uwsgi_sharedarea_read t i pos k;
     Some ((if rlen = int k then 0 else -1, le_nat blob), t') }"

definition uwsgi_sharedarea_read64 where "uwsgi_sharedarea_read64 = sarea_read_int 8"
definition uwsgi_sharedarea_read8 where "uwsgi_sharedarea_read8 = sarea_read_int 1"
definition uwsgi_sharedarea_read16 where "uwsgi_sharedarea_read16 = sarea_read_int 2"
definition uwsgi_sharedarea_read32 where "uwsgi_sharedarea_read32 = sarea_read_int 4"

definition uwsgi_sharedarea_write64 :: "sareas \<Rightarrow> int \<Rightarrow> nat \<Rightarrow> u64 \<Rightarrow> (int \<times> sareas) option" where
  "uwsgi_sharedarea_write64 t i pos v = uwsgi_sharedarea_write t i pos (le_bytes 8 v)"

definition uwsgi_sharedarea_write8 :: "sareas \<Rightarrow> int \<Rightarrow> nat \<Rightarrow> byte \<Rightarrow> (int \<times> sareas) option" where
  "uwsgi_sharedarea_write8 t i pos v = uwsgi_sharedarea_write t i pos (le_bytes 1 v)"

definition uwsgi_sharedarea_write16 :: "sareas \<Rightarrow> int \<Rightarrow> nat \<Rightarrow> u16 \<Rightarrow> (int \<times> sareas) option" where
  "uwsgi_sharedarea_write16 t i pos v = uwsgi_sharedarea_write t i pos (le_bytes 2 v)"

definition uwsgi_sharedarea_write32 :: "sareas \<Rightarrow> int \<Rightarrow> nat \<Rightarrow> u32 \<Rightarrow> (int \<times> sareas) option" where
  "uwsgi_sharedarea_write32 t i pos v = uwsgi_sharedarea_write t i pos (le_bytes 4 v)"

section \<open>Counters\<close>

text \<open>
  \<open>*n_ptr += amount\<close> on an integer of \<open>k\<close> bytes, after the bound check with the constant \<open>c\<close>
  of the source.
\<close>

definition add_area :: "nat \<Rightarrow> nat \<Rightarrow> int \<Rightarrow> nat \<Rightarrow> sarea \<Rightarrow> (int \<times> sarea) option" where
  "add_area k c amount pos sa =
     (if sz_add pos c > sz_add (sa_max_pos sa) 1 then Some (-1, sa)
      else let sa = sa_lock sa in
        do {
          v \<leftarrow> rd_le k (sa_area sa) pos;
          let sum = to_signed k v + amount in
          (if k \<ge> 4 \<and> (sum < - (2 ^ (8 * k - 1)) \<or> sum \<ge> 2 ^ (8 * k - 1)) then None
           else do {
             a \<leftarrow> wr_le k (sa_area sa) pos (nat (sum mod 2 ^ (8 * k)));
             Some (0, sa_unlock (sa\<lparr>sa_area := a, sa_updates := sz_add (sa_updates sa) 1\<rparr>)) }) })"

definition uwsgi_sharedarea_inc8 :: "sareas \<Rightarrow> int \<Rightarrow> nat \<Rightarrow> int \<Rightarrow> (int \<times> sareas) option" where
  "uwsgi_sharedarea_inc8 t i pos amount = with_area t i pos (add_area 1 1 amount pos) (-1)"

definition uwsgi_sharedarea_inc16 :: "sareas \<Rightarrow> int \<Rightarrow> nat \<Rightarrow> int \<Rightarrow> (int \<times> sareas) option" where
  "uwsgi_sharedarea_inc16 t i pos amount = with_area t i pos (add_area 2 2 amount pos) (-1)"

definition uwsgi_sharedarea_inc32 :: "sareas \<Rightarrow> int \<Rightarrow> nat \<Rightarrow> int \<Rightarrow> (int \<times> sareas) option" where
  "uwsgi_sharedarea_inc32 t i pos amount = with_area t i pos (add_area 4 4 amount pos) (-1)"

definition uwsgi_sharedarea_inc64 :: "sareas \<Rightarrow> int \<Rightarrow> nat \<Rightarrow> int \<Rightarrow> (int \<times> sareas) option" where
  "uwsgi_sharedarea_inc64 t i pos amount = with_area t i pos (add_area 8 4 amount pos) (-1)"

definition uwsgi_sharedarea_dec8 :: "sareas \<Rightarrow> int \<Rightarrow> nat \<Rightarrow> int \<Rightarrow> (int \<times> sareas) option" where
  "uwsgi_sharedarea_dec8 t i pos amount = with_area t i pos (add_area 1 1 (- amount) pos) (-1)"

definition uwsgi_sharedarea_dec16 :: "sareas \<Rightarrow> int \<Rightarrow> nat \<Rightarrow> int \<Rightarrow> (int \<times> sareas) option" where
  "uwsgi_sharedarea_dec16 t i pos amount = with_area t i pos (add_area 2 2 (- amount) pos) (-1)"

definition uwsgi_sharedarea_dec32 :: "sareas \<Rightarrow> int \<Rightarrow> nat \<Rightarrow> int \<Rightarrow> (int \<times> sareas) option" where
  "uwsgi_sharedarea_dec32 t i pos amount = with_area t i pos (add_area 4 4 (- amount) pos) (-1)"

definition uwsgi_sharedarea_dec64 :: "sareas \<Rightarrow> int \<Rightarrow> nat \<Rightarrow> int \<Rightarrow> (int \<times> sareas) option" where
  "uwsgi_sharedarea_dec64 t i pos amount = with_area t i pos (add_area 8 4 (- amount) pos) (-1)"

section \<open>Waiting for an update\<close>

text \<open>
  \<^verbatim>\<open>uwsgi_sharedarea_wait\<close>.  \<open>hook n\<close> says whether the \<open>n\<close>-th call of the wait hook fails and
  \<open>seen n\<close> is the update counter found after it: other workers write in the meantime.  \<open>WMore\<close>
  is a loop still running when the fuel is spent.  The overflow of \<^verbatim>\<open>waiting\<close> is undefined.
  The second component is how often the caller holds the lock at the end.
\<close>

datatype wait_result = WRet int int | WUndef | WMore

fun wait_loop ::
  "nat \<Rightarrow> nat \<Rightarrow> (nat \<Rightarrow> bool) \<Rightarrow> (nat \<Rightarrow> nat) \<Rightarrow> int \<Rightarrow> int \<Rightarrow> int \<Rightarrow> nat \<Rightarrow> int \<Rightarrow> wait_result" where
  "wait_loop 0 n hook seen freq timeout waiting updates held = WMore"
| "wait_loop (Suc fuel) n hook seen freq timeout waiting updates held =
     (if timeout = 0 \<or> waiting = 0 \<or> (timeout > 0 \<and> waiting > 0 \<and> waiting div 1000 < timeout) then
        if hook n then WRet (-1) (held - 1)
        else if waiting + freq \<ge> 2 ^ 31 \<or> waiting + freq < - (2 ^ 31) then WUndef
        else if seen n \<noteq> updates then WRet 0 held
        else wait_loop fuel (Suc n) hook seen freq timeout (waiting + freq) updates held
      else WRet (-2) held)"

definition uwsgi_sharedarea_wait ::
  "nat \<Rightarrow> sareas \<Rightarrow> int \<Rightarrow> int \<Rightarrow> int \<Rightarrow> (nat \<Rightarrow> bool) \<Rightarrow> (nat \<Rightarrow> nat) \<Rightarrow> wait_result" where
  "uwsgi_sharedarea_wait fuel t i freq timeout hook seen =
     (case uwsgi_sharedarea_get_by_id t i 0 of
        None \<Rightarrow> WUndef
      | Some None \<Rightarrow> WRet (-1) 0
      | Some (Some sa) \<Rightarrow>
          wait_loop fuel 0 hook seen (if freq = 0 then 100 else freq) timeout 0 (sa_updates sa) (sa_held sa))"

section \<open>Creation\<close>

text \<open>
  The new area goes to the end of the table; its number is the old length.  \<open>mem\<close> is the
  memory the kernel or the caller gave (\<open>None\<close> a failed allocation, after which the process
  exits).
\<close>

definition pages_of :: "nat \<Rightarrow> nat \<Rightarrow> int" where
  "pages_of page_size len =
     (let p = int (len div page_size) in if len mod page_size \<noteq> 0 then p + 1 else p)"

definition new_sarea :: "int \<Rightarrow> int \<Rightarrow> bytes \<Rightarrow> nat \<Rightarrow> sarea" where
  "new_sarea pages fd mem len =
     \<lparr>sa_pages = pages, sa_fd = fd, sa_area = mem, sa_max_pos = sz_sub len 1, sa_updates = 0,
      sa_hits = 0, sa_honour_used = False, sa_used = 0, sa_held = 0\<rparr>"

definition uwsgi_sharedarea_init_fd ::
  "nat \<Rightarrow> sareas \<Rightarrow> int \<Rightarrow> nat \<Rightarrow> bytes option \<Rightarrow> sareas option" where
  "uwsgi_sharedarea_init_fd page_size t fd len mem =
     (case mem of None \<Rightarrow> None
      | Some m \<Rightarrow> Some (t @ [new_sarea (pages_of page_size len) fd m len]))"

definition uwsgi_sharedarea_init :: "nat \<Rightarrow> sareas \<Rightarrow> nat \<Rightarrow> bool \<Rightarrow> sareas option" where
  "uwsgi_sharedarea_init page_size t pages alloc_ok =
     (if alloc_ok
      then Some (t @ [new_sarea (int pages) (-1) (replicate (page_size * pages) 0)
                        ((page_size * pages) mod SIZE_MOD)])
      else None)"

definition uwsgi_sharedarea_init_ptr :: "nat \<Rightarrow> sareas \<Rightarrow> bytes \<Rightarrow> nat \<Rightarrow> sareas" where
  "uwsgi_sharedarea_init_ptr page_size t area len =
     t @ [new_sarea (pages_of page_size len) (-1) area len]"

section \<open>Well-formed areas\<close>

definition sa_wf :: "sarea \<Rightarrow> bool" where
  "sa_wf sa \<longleftrightarrow> length (sa_area sa) = sa_max_pos sa + 1 \<and> length (sa_area sa) < 2 ^ 63 \<and>
     \<not> sa_honour_used sa"

lemma new_sarea_wf: "0 < length m \<Longrightarrow> length m < 2 ^ 63 \<Longrightarrow> sa_wf (new_sarea p fd m (length m))"
  using sz_sub_exact [of 1 "length m"] by (cases m) (simp_all add: sa_wf_def new_sarea_def)

lemma read_area_ok:
  assumes "sa_wf sa" "0 < n" "pos + n \<le> length (sa_area sa)"
  shows "read_area pos n sa =
     Some ((int n, take n (drop pos (sa_area sa))), sa\<lparr>sa_hits := sz_add (sa_hits sa) 1\<rparr>)"
  using assms
  by (simp add: read_area_def sa_wf_def sz_simps mem_read_def sa_lock_def sa_unlock_def Let_def)

lemma write_area_ok:
  assumes "sa_wf sa" "pos + length blob \<le> length (sa_area sa)"
  shows "write_area pos blob sa = map_option (\<lambda>a. (0,
     sa\<lparr>sa_area := a, sa_updates := sz_add (sa_updates sa) 1\<rparr>)) (mem_write (sa_area sa) pos blob)"
    and "\<exists>a. mem_write (sa_area sa) pos blob = Some a \<and> length a = length (sa_area sa)"
  using assms
  by (auto simp: write_area_def sa_wf_def sz_simps mem_write_def sa_lock_def sa_unlock_def Let_def)

lemma area_reject:
  assumes "sa_wf sa" "length (sa_area sa) < pos + n" "pos + n < 2 ^ 64"
  shows "read_area pos n sa = Some ((-1, []), sa)"
    "length blob = n \<Longrightarrow> write_area pos blob sa = Some (-1, sa)"
  using assms by (auto simp: read_area_def write_area_def sa_wf_def sz_simps)

section \<open>A store of bytes\<close>

text \<open>
  What a client of an area relies on: a write within the capacity succeeds, it is what a read
  of the same region returns, and regions that do not overlap it read as before.
\<close>

fun write_all :: "('s \<Rightarrow> nat \<Rightarrow> bytes \<Rightarrow> 's option) \<Rightarrow> 's \<Rightarrow> (nat \<times> bytes) list \<Rightarrow> 's option" where
  "write_all wr s [] = Some s"
| "write_all wr s ((p, b) # ws) = do { s \<leftarrow> wr s p b; write_all wr s ws }"

definition disjoint_from :: "nat \<Rightarrow> nat \<Rightarrow> (nat \<times> bytes) \<Rightarrow> bool" where
  "disjoint_from q n w \<longleftrightarrow> q + n \<le> fst w \<or> fst w + length (snd w) \<le> q"

locale byte_store =
  fixes rd :: "'s \<Rightarrow> nat \<Rightarrow> nat \<Rightarrow> bytes option"
    and wr :: "'s \<Rightarrow> nat \<Rightarrow> bytes \<Rightarrow> 's option"
    and cap :: "'s \<Rightarrow> nat"
    and inv :: "'s \<Rightarrow> bool"
  assumes wr_total: "inv s \<Longrightarrow> b \<noteq> [] \<Longrightarrow> p + length b \<le> cap s \<Longrightarrow>
      \<exists>s'. wr s p b = Some s' \<and> inv s' \<and> cap s' = cap s"
    and rd_same: "inv s \<Longrightarrow> b \<noteq> [] \<Longrightarrow> p + length b \<le> cap s \<Longrightarrow> wr s p b = Some s' \<Longrightarrow>
      rd s' p (length b) = Some b"
    and rd_other: "inv s \<Longrightarrow> b \<noteq> [] \<Longrightarrow> p + length b \<le> cap s \<Longrightarrow> wr s p b = Some s' \<Longrightarrow> 0 < n \<Longrightarrow>
      q + n \<le> cap s \<Longrightarrow> disjoint_from q n (p, b) \<Longrightarrow> rd s' q n = rd s q n"
begin

lemma write_all_total:
  "inv s \<Longrightarrow> \<forall>(p, b)\<in>set ws. b \<noteq> [] \<and> p + length b \<le> cap s \<Longrightarrow>
     \<exists>s'. write_all wr s ws = Some s' \<and> inv s' \<and> cap s' = cap s"
proof (induction ws arbitrary: s)
  case (Cons w ws)
  obtain p b where w: "w = (p, b)" by fastforce
  with Cons.prems obtain s1 where "wr s p b = Some s1" "inv s1" "cap s1 = cap s"
    using wr_total [of s b p] by auto
  with Cons.IH [of s1] Cons.prems w show ?case by auto
qed simp

lemma write_all_other:
  "inv s \<Longrightarrow> \<forall>(p, b)\<in>set ws. b \<noteq> [] \<and> p + length b \<le> cap s \<Longrightarrow> 0 < n \<Longrightarrow> q + n \<le> cap s \<Longrightarrow>
     \<forall>w\<in>set ws. disjoint_from q n w \<Longrightarrow> write_all wr s ws = Some s' \<Longrightarrow> rd s' q n = rd s q n"
proof (induction ws arbitrary: s)
  case (Cons w ws)
  obtain p b where w: "w = (p, b)" by fastforce
  with Cons.prems obtain s1 where s1: "wr s p b = Some s1" "inv s1" "cap s1 = cap s"
    using wr_total [of s b p] by auto
  with Cons.IH [of s1] Cons.prems w have "rd s' q n = rd s1 q n" by auto
  also have "\<dots> = rd s q n" using rd_other [OF Cons.prems(1) _ _ s1(1)] Cons.prems w by auto
  finally show ?case .
qed simp

lemma write_all_append:
  "write_all wr s (ws @ ws') = do { s \<leftarrow> write_all wr s ws; write_all wr s ws' }"
  by (induction ws arbitrary: s) auto

lemma last_write:
  assumes "inv s" "\<forall>(p, b)\<in>set (ws @ (q, c) # ws'). b \<noteq> [] \<and> p + length b \<le> cap s"
    and "\<forall>w\<in>set ws'. disjoint_from q (length c) w"
  shows "\<exists>s'. write_all wr s (ws @ (q, c) # ws') = Some s' \<and> rd s' q (length c) = Some c"
proof -
  obtain s1 where s1: "write_all wr s ws = Some s1" "inv s1" "cap s1 = cap s"
    using write_all_total [OF assms(1), of ws] assms(2) by auto
  obtain s2 where s2: "wr s1 q c = Some s2" "inv s2" "cap s2 = cap s"
    using wr_total [OF s1(2), of c q] assms(2) s1(3) by auto
  obtain s3 where s3: "write_all wr s2 ws' = Some s3"
    using write_all_total [OF s2(2), of ws'] assms(2) s2(3) by auto
  have "rd s3 q (length c) = rd s2 q (length c)"
    using write_all_other [OF s2(2) _ _ _ assms(3) s3] assms(2) s2(3) by auto
  also have "\<dots> = Some c" using rd_same [OF s1(2) _ _ s2(1)] assms(2) s1(3) by auto
  finally show ?thesis using s1 s2 s3 by (auto simp: write_all_append)
qed

end

text \<open>Area number \<open>i\<close> of the table, read and written through the API.\<close>

definition sarea_rd :: "int \<Rightarrow> sareas \<Rightarrow> nat \<Rightarrow> nat \<Rightarrow> bytes option" where
  "sarea_rd i t pos n =
     (case uwsgi_sharedarea_read t i pos n of
        Some ((r, blob), t') \<Rightarrow> if r = int n then Some blob else None | None \<Rightarrow> None)"

definition sarea_wr :: "int \<Rightarrow> sareas \<Rightarrow> nat \<Rightarrow> bytes \<Rightarrow> sareas option" where
  "sarea_wr i t pos blob =
     (case uwsgi_sharedarea_write t i pos blob of
        Some (r, t') \<Rightarrow> if r = 0 then Some t' else None | None \<Rightarrow> None)"

definition sarea_inv :: "int \<Rightarrow> sareas \<Rightarrow> bool" where
  "sarea_inv i t \<longleftrightarrow> 0 \<le> i \<and> i < int (length t) \<and> sa_wf (t ! nat i)"

definition sarea_cap :: "int \<Rightarrow> sareas \<Rightarrow> nat" where
  "sarea_cap i t = length (sa_area (t ! nat i))"

lemma get_by_id_ok:
  "sarea_inv i t \<Longrightarrow> pos < sarea_cap i t \<Longrightarrow> uwsgi_sharedarea_get_by_id t i pos = Some (Some (t ! nat i))"
  by (auto simp: uwsgi_sharedarea_get_by_id_def sarea_inv_def sarea_cap_def sa_wf_def Let_def)

lemma sarea_rd_ok:
  assumes "sarea_inv i t" "0 < n" "q + n \<le> sarea_cap i t"
  shows "sarea_rd i t q n = mem_read (sa_area (t ! nat i)) q n"
  using assms get_by_id_ok [OF assms(1), of q] read_area_ok [of "t ! nat i" n q]
  by (simp add: sarea_rd_def uwsgi_sharedarea_read_def with_area_def sarea_inv_def sarea_cap_def mem_read_def)

lemma get_by_id_end:
  "sarea_inv i t \<Longrightarrow> uwsgi_sharedarea_get_by_id t i pos =
     Some (if pos < sarea_cap i t then Some (t ! nat i) else None)"
  by (auto simp: uwsgi_sharedarea_get_by_id_def sarea_inv_def sarea_cap_def sa_wf_def Let_def)

lemma sarea_wr_ok:
  assumes "sarea_inv i t" "b \<noteq> []" "p + length b \<le> sarea_cap i t"
  obtains a t' where "mem_write (sa_area (t ! nat i)) p b = Some a" "sarea_wr i t p b = Some t'"
    "sa_area (t' ! nat i) = a" "sarea_inv i t'" "sarea_cap i t' = sarea_cap i t"
proof -
  let ?sa = "t ! nat i"
  have wf: "sa_wf ?sa" using assms(1) by (simp add: sarea_inv_def)
  have p: "p < sarea_cap i t" using assms(2,3) by (cases b) auto
  from write_area_ok(2) [OF wf, of p b] assms(3) obtain a where
    a: "mem_write (sa_area ?sa) p b = Some a" "length a = length (sa_area ?sa)"
    by (auto simp: sarea_cap_def)
  let ?sa' = "?sa\<lparr>sa_area := a, sa_updates := sz_add (sa_updates ?sa) 1\<rparr>"
  have "uwsgi_sharedarea_write t i p b = Some (0, t[nat i := ?sa'])"
    using assms p get_by_id_ok [OF assms(1), of p] write_area_ok(1) [OF wf, of p b] a
    by (simp add: uwsgi_sharedarea_write_def with_area_def sarea_cap_def)
  then have "sarea_wr i t p b = Some (t[nat i := ?sa'])" by (simp add: sarea_wr_def)
  moreover have "nat i < length t" using assms(1) by (auto simp: sarea_inv_def)
  ultimately show ?thesis
    using that [OF a(1)] assms(1) a(2) by (auto simp: sarea_inv_def sarea_cap_def sa_wf_def)
qed

interpretation sa: byte_store "sarea_rd i" "sarea_wr i" "sarea_cap i" "sarea_inv i" for i
proof unfold_locales
  fix t p and b :: bytes assume inv: "sarea_inv i t" and b: "b \<noteq> []" "p + length b \<le> sarea_cap i t"
  from sarea_wr_ok [OF inv b] show
    "\<exists>t'. sarea_wr i t p b = Some t' \<and> sarea_inv i t' \<and> sarea_cap i t' = sarea_cap i t"
    by metis
  fix t' assume w: "sarea_wr i t p b = Some t'"
  from sarea_wr_ok [OF inv b] w obtain a where a: "mem_write (sa_area (t ! nat i)) p b = Some a"
    "sa_area (t' ! nat i) = a" "sarea_inv i t'" "sarea_cap i t' = sarea_cap i t"
    by (metis option.inject)
  show "sarea_rd i t' p (length b) = Some b"
    using sarea_rd_ok [OF a(3), of "length b" p] mem_read_write_same [OF a(1)] a(2,4) b by simp
  fix q n :: nat assume "0 < n" "q + n \<le> sarea_cap i t" "disjoint_from q n (p, b)"
  then show "sarea_rd i t' q n = sarea_rd i t q n"
    using sarea_rd_ok [OF a(3), of n q] sarea_rd_ok [OF inv, of n q] a(2,4)
      mem_read_write_other [OF a(1), of q n] by (simp add: disjoint_from_def)
qed

section \<open>Properties\<close>

definition area_small :: sareas where
  "area_small = [new_sarea 1 (-1) (replicate 16 0) 16]"

lemma area_small_inv [simp]: "sarea_inv 0 area_small" "sarea_cap 0 area_small = 16"
  using new_sarea_wf [of "replicate 16 0" 1 "-1"]
  by (auto simp: sarea_inv_def sarea_cap_def area_small_def new_sarea_def)

text \<open>
  C34: after any sequence of writes inside area \<open>i\<close>, a read of a region that was written as a
  whole and not touched since returns exactly the bytes written there.
\<close>

theorem uwsgi_sharedarea_last_write:
  assumes "sarea_inv i t" "\<forall>(p, b)\<in>set (ws @ (q, c) # ws'). b \<noteq> [] \<and> p + length b \<le> sarea_cap i t"
    and "\<forall>w\<in>set ws'. disjoint_from q (length c) w"
  shows "\<exists>t'. write_all (sarea_wr i) t (ws @ (q, c) # ws') = Some t' \<and>
     sarea_rd i t' q (length c) = Some c"
  by (rule sa.last_write [OF assms])

theorem uwsgi_sharedarea_last_write_witness:
  "\<exists>t. write_all (sarea_wr 0) area_small [(2, [1, 1, 1]), (3, [7, 8]), (5, [9])] = Some t \<and>
     sarea_rd 0 t 3 2 = Some [7, 8]"
  using uwsgi_sharedarea_last_write [of 0 area_small "[(2, [1, 1, 1])]" 3 "[7, 8]" "[(5, [9])]"]
  by (simp add: disjoint_from_def numeral_2_eq_2)

text \<open>
  C35: an access to a well-formed area whose end is not past \<open>2 ^ 64\<close> is always defined: inside the
  area it succeeds, anywhere else it returns -1 and changes nothing.
\<close>

theorem uwsgi_sharedarea_bounds:
  assumes "sarea_inv i t" "pos + length blob < 2 ^ 64" "blob \<noteq> []"
  shows "(if pos + length blob \<le> sarea_cap i t
          then (\<exists>t'. uwsgi_sharedarea_write t i pos blob = Some (0, t') \<and>
                 uwsgi_sharedarea_read t i pos (length blob) = Some ((int (length blob),
                   take (length blob) (drop pos (sa_area (t ! nat i)))),
                   t[nat i := (t ! nat i)\<lparr>sa_hits := sz_add (sa_hits (t ! nat i)) 1\<rparr>]))
          else uwsgi_sharedarea_write t i pos blob = Some (-1, t) \<and>
               uwsgi_sharedarea_read t i pos (length blob) = Some ((-1, []), t))"
proof -
  let ?sa = "t ! nat i"
  have wf: "sa_wf ?sa" "nat i < length t" using assms(1) by (auto simp: sarea_inv_def)
  have l: "0 < length blob" using assms(3) by simp
  show ?thesis
  proof (cases "pos + length blob \<le> sarea_cap i t")
    case True
    then have "pos < sarea_cap i t" using l by linarith
    moreover from write_area_ok [OF wf(1), of pos blob] True
    have "\<exists>sa'. write_area pos blob ?sa = Some (0, sa')" by (auto simp: sarea_cap_def)
    ultimately show ?thesis
      using True get_by_id_ok [OF assms(1), of pos] read_area_ok [OF wf(1) l, of pos]
      by (auto simp: uwsgi_sharedarea_write_def uwsgi_sharedarea_read_def with_area_def sarea_cap_def)
  next
    case False
    then have "length (sa_area ?sa) < pos + length blob" by (simp add: sarea_cap_def)
    from area_reject [OF wf(1) this assms(2)] show ?thesis
      using False get_by_id_end [OF assms(1), of pos] wf(2)
      by (auto simp: uwsgi_sharedarea_write_def uwsgi_sharedarea_read_def with_area_def)
  qed
qed

theorem uwsgi_sharedarea_bounds_witness:
  "uwsgi_sharedarea_write area_small 0 14 [1, 2, 3] = Some (-1, area_small)"
  using uwsgi_sharedarea_bounds [of 0 area_small 14 "[1, 2, 3]"] by simp

text \<open>
  \<open>uwsgi_sharedarea_inc64\<close> checks the bound for four bytes and updates eight: within eight but
  not four bytes of the end of an area it writes past the area.
\<close>

theorem uwsgi_sharedarea_inc64_overflows:
  assumes "sarea_inv i t" "pos + 4 \<le> sarea_cap i t" "sarea_cap i t < pos + 8"
  shows "uwsgi_sharedarea_inc64 t i pos amount = None \<and> uwsgi_sharedarea_dec64 t i pos amount = None"
proof -
  have wf: "sa_wf (t ! nat i)" using assms(1) by (simp add: sarea_inv_def)
  have "add_area 8 4 a pos (t ! nat i) = None" for a
    using wf assms(2,3)
    by (auto simp: add_area_def sa_wf_def sarea_cap_def sz_simps rd_le_def mem_read_def sa_lock_def Let_def)
  then show ?thesis
    using get_by_id_ok [OF assms(1), of pos] assms(2)
    by (auto simp: uwsgi_sharedarea_inc64_def uwsgi_sharedarea_dec64_def with_area_def)
qed

theorem uwsgi_sharedarea_inc64_overflows_witness:
  "uwsgi_sharedarea_inc64 area_small 0 12 1 = None"
  using uwsgi_sharedarea_inc64_overflows [of 0 area_small 12 1] by simp

lemma add_area_ok:
  assumes "sa_wf sa" "k \<in> {1, 2}" "pos + k \<le> length (sa_area sa)"
  obtains v a where "rd_le k (sa_area sa) pos = Some v" "v < 2 ^ (8 * k)"
    "wr_le k (sa_area sa) pos (nat ((int v + amount) mod 2 ^ (8 * k))) = Some a"
    "add_area k k amount pos sa =
       Some (0, sa\<lparr>sa_area := a, sa_updates := sz_add (sa_updates sa) 1\<rparr>)"
proof -
  obtain v where v: "rd_le k (sa_area sa) pos = Some v"
    using assms(3) by (auto simp: rd_le_def mem_read_def)
  have b: "v < 2 ^ (8 * k)" using v by (rule rd_le_bound)
  have m: "(to_signed k v + amount) mod 2 ^ (8 * k) = (int v + amount) mod 2 ^ (8 * k)"
    using to_signed_mod [OF b] by (metis mod_add_left_eq)
  obtain a where a: "wr_le k (sa_area sa) pos (nat ((int v + amount) mod 2 ^ (8 * k))) = Some a"
    using wr_le_total [OF assms(3)] by blast
  have "add_area k k amount pos sa = Some (0, sa\<lparr>sa_area := a, sa_updates := sz_add (sa_updates sa) 1\<rparr>)"
  proof -
    have "\<not> sz_add pos k > sz_add (sa_max_pos sa) 1" "\<not> 4 \<le> k"
      using assms by (auto simp: sa_wf_def sz_simps)
    then show ?thesis
      using v a by (simp add: add_area_def sa_lock_def sa_unlock_def Let_def m del: One_nat_def)
  qed
  with v b a show ?thesis using that by blast
qed

lemma with_area_step:
  assumes "sarea_inv i t" "pos < sarea_cap i t" "f (t ! nat i) = Some (r, sa')"
  shows "with_area t i pos f fail = Some (r, t[nat i := sa'])"
    and "length (sa_area sa') = sarea_cap i t \<Longrightarrow> sa_max_pos sa' = sa_max_pos (t ! nat i) \<Longrightarrow>
      \<not> sa_honour_used sa' \<Longrightarrow> sarea_inv i (t[nat i := sa']) \<and> sarea_cap i (t[nat i := sa']) = sarea_cap i t"
    and "t[nat i := sa'] ! nat i = sa'"
  using assms get_by_id_ok [OF assms(1,2)]
  by (auto simp: with_area_def sarea_inv_def sarea_cap_def sa_wf_def)

lemma sarea_read_int_rd:
  assumes "sarea_inv i t" "0 < k" "pos + k \<le> sarea_cap i t"
  shows "map_option fst (sarea_read_int k t i pos) =
    map_option (Pair 0) (rd_le k (sa_area (t ! nat i)) pos)"
proof -
  have "sa_wf (t ! nat i)" using assms(1) by (simp add: sarea_inv_def)
  from read_area_ok [OF this assms(2)] show ?thesis
    using assms get_by_id_ok [OF assms(1), of pos]
    by (simp add: sarea_read_int_def uwsgi_sharedarea_read_def with_area_def sarea_cap_def
        rd_le_def mem_read_def)
qed

lemma add_area_table:
  assumes "sarea_inv i t" "k \<in> {1, 2}" "pos + k \<le> sarea_cap i t"
  obtains v t' where "rd_le k (sa_area (t ! nat i)) pos = Some v" "v < 2 ^ (8 * k)"
    "with_area t i pos (add_area k k amount pos) (-1) = Some (0, t')"
    "sarea_inv i t'" "sarea_cap i t' = sarea_cap i t"
    "rd_le k (sa_area (t' ! nat i)) pos = Some (nat ((int v + amount) mod 2 ^ (8 * k)))"
proof -
  have wf: "sa_wf (t ! nat i)" using assms(1) by (simp add: sarea_inv_def)
  have le: "pos + k \<le> length (sa_area (t ! nat i))" using assms(3) by (simp add: sarea_cap_def)
  from add_area_ok [OF wf assms(2) le] obtain v a where va:
    "rd_le k (sa_area (t ! nat i)) pos = Some v" "v < 2 ^ (8 * k)"
    "wr_le k (sa_area (t ! nat i)) pos (nat ((int v + amount) mod 2 ^ (8 * k))) = Some a"
    "add_area k k amount pos (t ! nat i) = Some (0, (t ! nat i)
       \<lparr>sa_area := a, sa_updates := sz_add (sa_updates (t ! nat i)) 1\<rparr>)" by metis
  let ?sa = "(t ! nat i)\<lparr>sa_area := a, sa_updates := sz_add (sa_updates (t ! nat i)) 1\<rparr>"
  let ?n = "nat ((int v + amount) mod 2 ^ (8 * k))"
  have pos: "pos < sarea_cap i t" using assms(2,3) by auto
  note st = with_area_step [where f = "add_area k k amount pos", OF assms(1) pos va(4)]
  have "sarea_inv i (t[nat i := ?sa]) \<and> sarea_cap i (t[nat i := ?sa]) = sarea_cap i t"
    using wf wr_le_length [OF va(3)] by (intro st(2)) (auto simp: sarea_cap_def sa_wf_def)
  moreover have "rd_le k a pos = Some ?n"
  proof -
    have "rd_le k a pos = Some (?n mod 256 ^ k)"
      using assms(2) by (intro rd_wr_le_same [OF va(3)]) auto
    moreover have "?n < 2 ^ (8 * k)"
    proof -
      have "(int v + amount) mod 2 ^ (8 * k) < 2 ^ (8 * k)" by (intro pos_mod_bound) simp
      then show ?thesis by (simp add: nat_less_iff)
    qed
    ultimately show ?thesis by (simp add: power_mult)
  qed
  ultimately show ?thesis using that [OF va(1,2) st(1)] st(3) by simp
qed

text \<open>
  A decrement takes back an increment of a 16-bit counter, also when the increment wraps:
  the counter reads as before.
\<close>

theorem uwsgi_sharedarea_dec16_inc16:
  assumes "sarea_inv i t" "pos + 2 \<le> sarea_cap i t"
  shows "\<exists>t1 t2. uwsgi_sharedarea_inc16 t i pos amount = Some (0, t1) \<and>
     uwsgi_sharedarea_dec16 t1 i pos amount = Some (0, t2) \<and>
     map_option fst (uwsgi_sharedarea_read16 t2 i pos) = map_option fst (uwsgi_sharedarea_read16 t i pos)"
proof -
  have k: "(2 :: nat) \<in> {1, 2}" by simp
  obtain v t1 where t1:
    "rd_le 2 (sa_area (t ! nat i)) pos = Some v" "v < 2 ^ (8 * 2)"
    "with_area t i pos (add_area 2 2 amount pos) (-1) = Some (0, t1)"
    "sarea_inv i t1" "sarea_cap i t1 = sarea_cap i t"
    "rd_le 2 (sa_area (t1 ! nat i)) pos = Some (nat ((int v + amount) mod 2 ^ (8 * 2)))"
    by (rule add_area_table [OF assms(1) k assms(2), of amount])
  have le: "pos + 2 \<le> sarea_cap i t1" using assms(2) t1(5) by simp
  obtain w t2 where t2:
    "rd_le 2 (sa_area (t1 ! nat i)) pos = Some w" "w < 2 ^ (8 * 2)"
    "with_area t1 i pos (add_area 2 2 (- amount) pos) (-1) = Some (0, t2)"
    "sarea_inv i t2" "sarea_cap i t2 = sarea_cap i t1"
    "rd_le 2 (sa_area (t2 ! nat i)) pos = Some (nat ((int w + - amount) mod 2 ^ (8 * 2)))"
    by (rule add_area_table [OF t1(4) k le, of "- amount"])
  have "int w = (int v + amount) mod 2 ^ 16" using t1(6) t2(1) by simp
  then have "(int w + - amount) mod 2 ^ 16 = int v mod 2 ^ 16" by (simp add: mod_diff_left_eq)
  moreover have "int v mod 2 ^ 16 = int v" using t1(2) by simp
  ultimately have "rd_le 2 (sa_area (t2 ! nat i)) pos = rd_le 2 (sa_area (t ! nat i)) pos"
    using t1(1) t2(6) by simp
  then show ?thesis
    using t1 t2 assms sarea_read_int_rd [OF assms(1), of 2 pos] sarea_read_int_rd [OF t2(4), of 2 pos]
    by (auto simp: uwsgi_sharedarea_read16_def uwsgi_sharedarea_inc16_def uwsgi_sharedarea_dec16_def)
qed

theorem uwsgi_sharedarea_dec16_inc16_witness:
  "\<exists>t1 t2. uwsgi_sharedarea_inc16 area_small 0 14 40000 = Some (0, t1) \<and>
     uwsgi_sharedarea_dec16 t1 0 14 40000 = Some (0, t2)"
  using uwsgi_sharedarea_dec16_inc16 [of 0 area_small 14 40000] by auto

lemma wait_loop_ends:
  assumes "0 < freq" "0 < timeout" "1000 * timeout + freq < 2 ^ 31"
  shows "0 \<le> waiting \<Longrightarrow> waiting < 1000 * timeout + freq \<Longrightarrow> nat (1000 * timeout + 2 - waiting) \<le> fuel \<Longrightarrow> 0 < fuel \<Longrightarrow>
     \<exists>r h. wait_loop fuel n hook seen freq timeout waiting updates held = WRet r h \<and>
       (r = -1 \<and> h = held - 1 \<and> (\<exists>m\<ge>n. hook m) \<or>
        r = 0 \<and> h = held \<and> (\<exists>m\<ge>n. seen m \<noteq> updates) \<or>
        r = -2 \<and> h = held)"
proof (induction fuel arbitrary: n waiting)
  case (Suc fuel)
  have ov: "\<not> (waiting + freq \<ge> 2 ^ 31 \<or> waiting + freq < - (2 ^ 31))"
    if "waiting < 1000 * timeout" using that Suc.prems assms by auto
  have go: "(timeout = 0 \<or> waiting = 0 \<or> (timeout > 0 \<and> waiting > 0 \<and> waiting div 1000 < timeout)) \<longleftrightarrow>
      waiting < 1000 * timeout"
    using assms(2) Suc.prems(1) by auto
  show ?case
  proof (cases "waiting < 1000 * timeout \<and> \<not> hook n \<and> seen n = updates")
    case True
    then have step: "wait_loop (Suc fuel) n hook seen freq timeout waiting updates held =
        wait_loop fuel (Suc n) hook seen freq timeout (waiting + freq) updates held"
      using go ov by simp
    have "nat (1000 * timeout + 2 - (waiting + freq)) \<le> fuel" "0 < fuel"
      using Suc.prems(3) assms(1) True by linarith+
    from Suc.IH [OF _ _ this, of "Suc n"] Suc.prems(1) True assms(1) show ?thesis
      unfolding step by (auto simp: algebra_simps) (metis Suc_leD)+
  next
    case False
    then show ?thesis using go ov assms Suc.prems by (auto simp: not_less)
  qed
qed simp

text \<open>
  \<open>uwsgi_sharedarea_wait\<close> with a timeout (in seconds) ends, after at most one pass per
  millisecond, with -1 only when the hook failed, 0 only when an update was seen, and -2
  otherwise.  When the hook fails it releases a lock it does not hold.
\<close>

theorem uwsgi_sharedarea_wait_ends:
  assumes "sarea_inv i t" "0 < timeout" "0 \<le> freq" "1000 * timeout + max freq 100 < 2 ^ 31"
    and "nat (1000 * timeout + 2) \<le> fuel"
  shows "\<exists>r h. uwsgi_sharedarea_wait fuel t i freq timeout hook seen = WRet r h \<and>
     (r = -1 \<and> (\<exists>m. hook m) \<and> h = sa_held (t ! nat i) - 1 \<or>
      r = 0 \<and> (\<exists>m. seen m \<noteq> sa_updates (t ! nat i)) \<and> h = sa_held (t ! nat i) \<or>
      r = -2 \<and> h = sa_held (t ! nat i))"
proof -
  let ?f = "if freq = 0 then 100 else freq"
  have "0 < sarea_cap i t" using assms(1) by (simp add: sarea_inv_def sarea_cap_def sa_wf_def)
  then have get: "uwsgi_sharedarea_get_by_id t i 0 = Some (Some (t ! nat i))"
    by (rule get_by_id_ok [OF assms(1)])
  have "\<exists>r h. wait_loop fuel 0 hook seen ?f timeout 0 (sa_updates (t ! nat i)) (sa_held (t ! nat i)) = WRet r h \<and>
       (r = -1 \<and> h = sa_held (t ! nat i) - 1 \<and> (\<exists>m\<ge>0. hook m) \<or>
        r = 0 \<and> h = sa_held (t ! nat i) \<and> (\<exists>m\<ge>0. seen m \<noteq> sa_updates (t ! nat i)) \<or>
        r = -2 \<and> h = sa_held (t ! nat i))"
    using assms(2-5) by (intro wait_loop_ends) auto
  then show ?thesis using get by (auto simp: uwsgi_sharedarea_wait_def)
qed

theorem uwsgi_sharedarea_wait_ends_witness:
  "\<exists>r h. uwsgi_sharedarea_wait 1002 area_small 0 0 1 (\<lambda>_. False) (\<lambda>n. if n < 3 then 0 else 1) = WRet r h"
  using uwsgi_sharedarea_wait_ends [of 0 area_small 1 0 1002 "\<lambda>_. False" "\<lambda>n. if n < 3 then 0 else 1"] by auto

end
