(* ===== verification/Cachebitmap.thy ===== *)
theory Cachebitmap
  imports Prelude
begin

text \<open>
  The block bitmap of \<^verbatim>\<open>core/cache.c\<close>: one bit per data block, the most significant bit of a
  byte first; a set bit is a block in use.  \<open>used bm b\<close> reads the bit of block \<open>b\<close> and is the
  abstraction the operations are specified with.
\<close>

section \<open>Operations\<close>

definition blocks_needed :: "nat \<Rightarrow> nat \<Rightarrow> nat" where
  "blocks_needed blocksize len = len div blocksize + (if len mod blocksize > 0 then 1 else 0)"

text \<open>
  The scan of one byte: \<open>ps\<close> are the bit positions left, \<open>base\<close> the byte and bit where the
  current free stretch began (\<open>None\<close> for the all-ones marker) and \<open>found\<close> its length.
\<close>

fun scan_bits ::
  "byte \<Rightarrow> nat \<Rightarrow> nat \<Rightarrow> nat list \<Rightarrow> (nat \<times> nat) option \<Rightarrow> nat \<Rightarrow> nat + ((nat \<times> nat) option \<times> nat)" where
  "scan_bits num j need [] base found = Inr (base, found)"
| "scan_bits num j need (p # ps) base found =
     (if bit num (7 - p) then scan_bits num j need ps None 0
      else
        let b = (case base of None \<Rightarrow> (j, p) | Some b \<Rightarrow> b) in
        if found + 1 = need then Inl (fst b * 8 + snd b)
        else scan_bits num j need ps (Some b) (found + 1))"

fun scan_bytes ::
  "bytes \<Rightarrow> nat \<Rightarrow> nat \<Rightarrow> nat \<Rightarrow> nat \<Rightarrow> nat \<Rightarrow> (nat \<times> nat) option \<Rightarrow> nat \<Rightarrow> nat option" where
  "scan_bytes bm need 0 j start_byte start_bit base found = None"
| "scan_bytes bm need (Suc to_scan) j start_byte start_bit base found =
     (case scan_bits (bm ! j) j need [(if j = start_byte then start_bit else 0)..<8] base found of
        Inl r \<Rightarrow> Some r
      | Inr (base, found) \<Rightarrow>
          if Suc j \<ge> length bm then scan_bytes bm need to_scan 0 start_byte 0 None 0
          else scan_bytes bm need to_scan (Suc j) start_byte start_bit base found)"

text \<open>\<open>None\<close> is the all-ones result \<^verbatim>\<open>no more free blocks\<close>.\<close>

definition uwsgi_cache_find_free_blocks :: "bytes \<Rightarrow> nat \<Rightarrow> nat \<Rightarrow> nat \<Rightarrow> nat option" where
  "uwsgi_cache_find_free_blocks bm pos blocksize need =
     (let n = blocks_needed blocksize need;
          start_byte = pos div 8; start_bit = pos mod 8;
          to_scan = (if start_bit > 0 then length bm + 1 else length bm)
      in scan_bytes bm n to_scan start_byte start_byte start_bit None 0)"

definition map_byte :: "(byte \<Rightarrow> byte) \<Rightarrow> bytes \<Rightarrow> nat \<Rightarrow> bytes option" where
  "map_byte f bm i = map_option (\<lambda>b. bm[i := f b]) (mem_get bm i)"

text \<open>
  \<^verbatim>\<open>cache_mark_blocks\<close> and \<^verbatim>\<open>cache_unmark_blocks\<close> on \<open>n\<close> blocks from \<open>index\<close> on; the first
  also returns \<open>n\<close>.
\<close>

definition first_mask :: "nat \<Rightarrow> nat \<Rightarrow> nat \<Rightarrow> byte" where
  "first_mask first_bit last_bit needed_bytes =
     (let mask = drop_bit first_bit 0xff in
      if needed_bytes = 1 then push_bit (7 - last_bit) (drop_bit (7 - last_bit) mask) else mask)"

definition last_mask :: "nat \<Rightarrow> byte" where
  "last_mask last_bit = push_bit (7 - last_bit) 0xff"

definition cache_mark_blocks :: "nat \<Rightarrow> bytes \<Rightarrow> nat \<Rightarrow> nat \<Rightarrow> (nat \<times> bytes) option" where
  "cache_mark_blocks blocksize bm index len =
     (let n = blocks_needed blocksize len;
          first_byte = index div 8; first_bit = index mod 8;
          last_byte = (index + n - 1) div 8; last_bit = (index + n - 1) mod 8;
          needed_bytes = last_byte - first_byte + 1;
          m1 = first_mask first_bit last_bit needed_bytes in
      do {
        bm \<leftarrow> map_byte (\<lambda>b. b OR m1) bm first_byte;
        bm \<leftarrow> (if needed_bytes > 1 then map_byte (\<lambda>b. b OR last_mask last_bit) bm last_byte else Some bm);
        bm \<leftarrow> (if needed_bytes > 2
               then mem_write bm (first_byte + 1) (replicate (needed_bytes - 2) 0xff) else Some bm);
        Some (n, bm) })"

definition cache_unmark_blocks :: "nat \<Rightarrow> bytes \<Rightarrow> nat \<Rightarrow> nat \<Rightarrow> bytes option" where
  "cache_unmark_blocks blocksize bm index len =
     (let n = blocks_needed blocksize len;
          first_byte = index div 8; first_bit = index mod 8;
          last_byte = (index + n - 1) div 8; last_bit = (index + n - 1) mod 8;
          needed_bytes = last_byte - first_byte + 1;
          m1 = first_mask first_bit last_bit needed_bytes in
      do {
        bm \<leftarrow> map_byte (\<lambda>b. b AND NOT m1) bm first_byte;
        bm \<leftarrow> (if needed_bytes > 1 then map_byte (\<lambda>b. b AND NOT (last_mask last_bit)) bm last_byte
               else Some bm);
        (if needed_bytes > 2
         then mem_write bm (first_byte + 1) (replicate (needed_bytes - 2) 0) else Some bm) })"

text \<open>The initial bitmap: the bits of the last byte that stand for no block are set for good.\<close>

definition init_bitmap :: "nat \<Rightarrow> bytes" where
  "init_bitmap blocks =
     (let m = blocks mod 8; n = (if m > 0 then blocks div 8 + 1 else blocks div 8);
          bm = replicate n 0
      in if m > 0 then bm[n - 1 := drop_bit m 0xff] else bm)"

section \<open>Reading the bitmap\<close>

definition used :: "bytes \<Rightarrow> nat \<Rightarrow> bool" where
  "used bm b \<longleftrightarrow> bit (bm ! (b div 8)) (7 - b mod 8)"

definition free_run :: "bytes \<Rightarrow> nat \<Rightarrow> nat \<Rightarrow> bool" where
  "free_run bm s n \<longleftrightarrow> (\<forall>b. s \<le> b \<and> b < s + n \<longrightarrow> \<not> used bm b)"

text \<open>The scan as a walk over block numbers.\<close>

fun scan_blocks :: "bytes \<Rightarrow> nat \<Rightarrow> nat list \<Rightarrow> nat option \<Rightarrow> nat \<Rightarrow> nat + (nat option \<times> nat)" where
  "scan_blocks bm need [] base found = Inr (base, found)"
| "scan_blocks bm need (b # bs) base found =
     (if used bm b then scan_blocks bm need bs None 0
      else
        let s = (case base of None \<Rightarrow> b | Some s \<Rightarrow> s) in
        if found + 1 = need then Inl s else scan_blocks bm need bs (Some s) (found + 1))"

definition abs_base :: "(nat \<times> nat) option \<Rightarrow> nat option" where
  "abs_base = map_option (\<lambda>(j, p). j * 8 + p)"

lemma scan_bits_blocks:
  "\<forall>p\<in>set ps. p < 8 \<Longrightarrow>
     map_sum id (map_prod abs_base id) (scan_bits (bm ! j) j need ps base found) =
       scan_blocks bm need (map (\<lambda>p. j * 8 + p) ps) (abs_base base) found"
proof (induction ps arbitrary: base found)
  case (Cons p ps)
  then have "used bm (j * 8 + p) \<longleftrightarrow> bit (bm ! j) (7 - p)" by (simp add: used_def)
  with Cons show ?case by (cases base) (auto simp: Let_def abs_base_def)
qed (simp add: abs_base_def)

lemma scan_blocks_append:
  "scan_blocks bm need (bs @ cs) base found =
     (case scan_blocks bm need bs base found of
        Inl s \<Rightarrow> Inl s | Inr (base, found) \<Rightarrow> scan_blocks bm need cs base found)"
  by (induction bs arbitrary: base found) (auto simp: Let_def)

text \<open>
  What a walk over consecutive blocks \<open>[a..<e]\<close> tells, when it starts in the middle of a free
  stretch of \<open>found\<close> blocks.
\<close>

definition run_state :: "bytes \<Rightarrow> nat \<Rightarrow> nat option \<Rightarrow> nat \<Rightarrow> nat \<Rightarrow> bool" where
  "run_state bm lo base found a \<longleftrightarrow>
     (case base of
        None \<Rightarrow> found = 0 \<and> (lo < a \<longrightarrow> used bm (a - 1)) \<and> lo \<le> a
      | Some s \<Rightarrow> lo \<le> s \<and> s + found = a \<and> 0 < found \<and> free_run bm s found \<and> (lo < s \<longrightarrow> used bm (s - 1)))"

lemma upt_Cons: "a < e \<Longrightarrow> [a..<e] = a # [Suc a..<e]"
  by (rule upt_conv_Cons)

lemma scan_blocks_spec:
  assumes "run_state bm lo base found a" "found < need" "a \<le> e"
    and "\<forall>s\<ge>lo. s + need \<le> a \<longrightarrow> \<not> free_run bm s need"
  shows "case scan_blocks bm need [a..<e] base found of
      Inl s \<Rightarrow> lo \<le> s \<and> s + need \<le> e \<and> free_run bm s need
    | Inr (base', found') \<Rightarrow> run_state bm lo base' found' e \<and> found' < need \<and>
        (\<forall>s\<ge>lo. s + need \<le> e \<longrightarrow> \<not> free_run bm s need)"
  using assms
proof (induction "e - a" arbitrary: a base found)
  case 0
  then show ?case by simp
next
  case (Suc d)
  then have ae: "a < e" "d = e - Suc a" by auto
  show ?case
  proof (cases "used bm a")
    case True
    have no: "\<not> free_run bm s need" if "s \<ge> lo" "s + need \<le> Suc a" for s
    proof (cases "s + need \<le> a")
      case False
      with that Suc.prems(2) have "s \<le> a" "a < s + need" by auto
      with True show ?thesis by (auto simp: free_run_def)
    qed (use Suc.prems(4) that in auto)
    have "lo \<le> a" using Suc.prems(1) by (auto simp: run_state_def split: option.splits)
    with True have "run_state bm lo None 0 (Suc a)" by (simp add: run_state_def)
    with Suc.hyps(1) [OF ae(2), of None 0] no ae Suc.prems(2) show ?thesis
      using True by (simp add: upt_Cons del: upt_Suc)
  next
    case False
    let ?s = "case base of None \<Rightarrow> a | Some s \<Rightarrow> s"
    have st: "run_state bm lo (Some ?s) (found + 1) (Suc a)"
      using Suc.prems(1) False
      by (cases base) (auto simp: run_state_def free_run_def less_Suc_eq)
    show ?thesis
    proof (cases "found + 1 = need")
      case True
      then show ?thesis
        using st False ae by (auto simp: upt_Cons run_state_def simp del: upt_Suc)
    next
      case neq: False
      have no: "\<not> free_run bm s need" if "s \<ge> lo" "s + need \<le> Suc a" for s
      proof (cases "s + need \<le> a")
        case False
        with that have eq: "s + need = Suc a" by simp
        show ?thesis
        proof
          assume fr: "free_run bm s need"
          have "?s + (found + 1) = Suc a" using st by (simp add: run_state_def)
          with eq neq Suc.prems(2) have "s < ?s" by linarith
          moreover from this that have "used bm (?s - 1)" using st by (simp add: run_state_def)
          moreover have "?s - 1 < s + need" using eq st by (auto simp: run_state_def)
          ultimately show False using fr by (auto simp: free_run_def)
        qed
      qed (use Suc.prems(4) that in auto)
      with Suc.hyps(1) [OF ae(2) st] neq ae Suc.prems(2) show ?thesis
        using False by (simp add: upt_Cons Let_def del: upt_Suc)
    qed
  qed
qed

section \<open>Finding free blocks\<close>

lemma map_byte_upt: "map (\<lambda>p. j * 8 + p) [a..<8] = [j * 8 + a..<Suc j * 8]"
proof -
  have "map (\<lambda>p. j * 8 + p) [a..<b] = [j * 8 + a..<j * 8 + b]" for b
    by (induction b) auto
  from this [of 8] show ?thesis by (simp add: add.commute)
qed

lemma scan_byte_step:
  assumes "st \<le> 8"
  shows "(case scan_bits (bm ! j) j need [st..<8] base found of
      Inl r \<Rightarrow> scan_blocks bm need [j * 8 + st..<Suc j * 8] (abs_base base) found = Inl r
    | Inr (base', found') \<Rightarrow>
        scan_blocks bm need [j * 8 + st..<Suc j * 8] (abs_base base) found = Inr (abs_base base', found'))"
  using scan_bits_blocks [of "[st..<8]" bm j need base found]
  by (auto simp: map_byte_upt split: sum.splits)

lemma upt_split: "(a :: nat) \<le> b \<Longrightarrow> b \<le> c \<Longrightarrow> [a..<c] = [a..<b] @ [b..<c]"
  by (metis le_Suc_ex upt_add_eq_append)

lemma scan_bytes_rest:
  "j + n \<le> length bm \<Longrightarrow>
     scan_bytes bm need n j sb 0 base found =
       (case scan_blocks bm need [j * 8..<(j + n) * 8] (abs_base base) found of
          Inl s \<Rightarrow> Some s | Inr _ \<Rightarrow> None)"
proof (induction n arbitrary: j base found)
  case (Suc n)
  have sp: "[j * 8..<(j + Suc n) * 8] = [j * 8..<Suc j * 8] @ [Suc j * 8..<(Suc j + n) * 8]"
    by (subst upt_split [of _ "Suc j * 8"]) auto
  show ?case
  proof (cases "scan_bits (bm ! j) j need [0..<8] base found")
    case (Inl r)
    then show ?thesis using scan_byte_step [where st = 0 and bm = bm and j = j and need = need and base = base and found = found] sp
      by (simp add: scan_blocks_append del: upt_Suc mult_Suc)
  next
    case (Inr bf)
    obtain base' found' where bf: "bf = (base', found')" by fastforce
    have st: "scan_blocks bm need [j * 8..<Suc j * 8] (abs_base base) found = Inr (abs_base base', found')"
      using scan_byte_step [where st = 0 and bm = bm and j = j and need = need and base = base and found = found] Inr bf by simp
    show ?thesis
    proof (cases "Suc j \<ge> length bm")
      case True
      with Suc.prems have "n = 0" by simp
      then show ?thesis using Inr bf sp st by (simp add: scan_blocks_append del: upt_Suc mult_Suc)
    next
      case False
      have "scan_bytes bm need (Suc n) j sb 0 base found = scan_bytes bm need n (Suc j) sb 0 base' found'"
        using Inr bf False by simp
      also have "\<dots> = (case scan_blocks bm need [Suc j * 8..<(Suc j + n) * 8] (abs_base base') found' of
          Inl s \<Rightarrow> Some s | Inr _ \<Rightarrow> None)"
        using Suc.prems by (intro Suc.IH) simp
      finally show ?thesis using sp st by (simp add: scan_blocks_append del: upt_Suc mult_Suc)
    qed
  qed
qed simp

lemma scan_bytes_first:
  "j < length bm \<Longrightarrow> sb \<le> j \<Longrightarrow> bt < 8 \<Longrightarrow> length bm - j \<le> n \<Longrightarrow>
     scan_bytes bm need n j sb bt base found =
       (case scan_blocks bm need [j * 8 + (if j = sb then bt else 0)..<length bm * 8] (abs_base base) found of
          Inl s \<Rightarrow> Some s
        | Inr _ \<Rightarrow> scan_bytes bm need (n - (length bm - j)) 0 sb 0 None 0)"
proof (induction "length bm - j" arbitrary: j n base found)
  case (Suc d)
  then obtain m where n: "n = Suc m" by (cases n) auto
  let ?st = "if j = sb then bt else 0"
  have st8: "?st \<le> 8" using Suc.prems(3) by simp
  have "Suc j * 8 \<le> length bm * 8" using Suc.prems(1) by (intro mult_right_mono) auto
  then have sp: "[j * 8 + ?st..<length bm * 8] = [j * 8 + ?st..<Suc j * 8] @ [Suc j * 8..<length bm * 8]"
    using st8 by (intro upt_split) auto
  show ?case
  proof (cases "scan_bits (bm ! j) j need [?st..<8] base found")
    case (Inl r)
    then show ?thesis using scan_byte_step [OF st8, where bm = bm and j = j and need = need and base = base and found = found] n
      by (simp add: sp scan_blocks_append del: upt_Suc mult_Suc)
  next
    case (Inr bf)
    obtain base' found' where bf: "bf = (base', found')" by fastforce
    have st: "scan_blocks bm need [j * 8 + ?st..<Suc j * 8] (abs_base base) found = Inr (abs_base base', found')"
      using scan_byte_step [OF st8, where bm = bm and j = j and need = need and base = base and found = found] Inr bf by simp
    show ?thesis
    proof (cases "Suc j \<ge> length bm")
      case True
      with Suc.prems have lb: "length bm = Suc j" by simp
      then show ?thesis using Inr bf st n by (simp add: del: upt_Suc mult_Suc)
    next
      case False
      have "scan_bytes bm need n j sb bt base found = scan_bytes bm need m (Suc j) sb bt base' found'"
        using Inr bf False n by simp
      also have "\<dots> = (case scan_blocks bm need
            [Suc j * 8 + (if Suc j = sb then bt else 0)..<length bm * 8] (abs_base base') found' of
          Inl s \<Rightarrow> Some s
        | Inr _ \<Rightarrow> scan_bytes bm need (m - (length bm - Suc j)) 0 sb 0 None 0)"
        using Suc.prems Suc.hyps(2) False n by (intro Suc.hyps(1)) auto
      also have "m - (length bm - Suc j) = n - (length bm - j)" using n False by simp
      finally show ?thesis
        using st Suc.prems(2) by (simp only: sp scan_blocks_append) simp
    qed
  qed
qed simp

text \<open>
  The blocks the scan covers: from \<open>pos\<close> to the end, then the bytes from the start up to and
  including the byte it began in, if it began inside one.
\<close>

definition wrap_end :: "nat \<Rightarrow> nat" where
  "wrap_end pos = (pos div 8 + (if pos mod 8 > 0 then 1 else 0)) * 8"

lemma find_free_blocks_scan:
  assumes "pos < 8 * length bm"
  shows "uwsgi_cache_find_free_blocks bm pos bs len =
     (case scan_blocks bm (blocks_needed bs len) [pos..<length bm * 8] None 0 of
        Inl s \<Rightarrow> Some s
      | Inr _ \<Rightarrow> (case scan_blocks bm (blocks_needed bs len) [0..<wrap_end pos] None 0 of
                     Inl s \<Rightarrow> Some s | Inr _ \<Rightarrow> None))"
proof -
  let ?n = "if pos mod 8 > 0 then length bm + 1 else length bm"
  let ?w = "pos div 8 + (if pos mod 8 > 0 then 1 else 0)"
  have lt: "pos div 8 < length bm" using assms by auto
  have rounds: "?n - (length bm - pos div 8) = ?w" using lt by auto
  have "?w \<le> length bm" using lt by auto
  then have r: "scan_bytes bm (blocks_needed bs len) ?w 0 (pos div 8) 0 None 0 =
      (case scan_blocks bm (blocks_needed bs len) [0..<wrap_end pos] None 0 of
         Inl s \<Rightarrow> Some s | Inr _ \<Rightarrow> None)"
    using scan_bytes_rest [of 0 ?w bm "blocks_needed bs len" "pos div 8" None 0]
    by (simp add: wrap_end_def abs_base_def del: upt_Suc)
  have "uwsgi_cache_find_free_blocks bm pos bs len =
      (case scan_blocks bm (blocks_needed bs len) [pos..<length bm * 8] None 0 of
        Inl s \<Rightarrow> Some s
      | Inr _ \<Rightarrow> scan_bytes bm (blocks_needed bs len) (?n - (length bm - pos div 8)) 0 (pos div 8) 0 None 0)"
    unfolding uwsgi_cache_find_free_blocks_def Let_def
    using lt by (subst scan_bytes_first) (auto simp: abs_base_def)
  then show ?thesis unfolding rounds r .
qed

lemma blocks_needed_pos: "0 < bs \<Longrightarrow> 0 < len \<Longrightarrow> 0 < blocks_needed bs len"
  by (auto simp: blocks_needed_def div_greater_zero_iff)

lemma blocks_needed_bound: "0 < bs \<Longrightarrow> len \<le> blocks_needed bs len * bs"
proof -
  assume "0 < bs"
  have "len = len div bs * bs + len mod bs" by simp
  moreover have "len mod bs \<le> (if len mod bs > 0 then 1 else 0) * bs"
    using \<open>0 < bs\<close> by (auto simp: less_imp_le)
  ultimately show ?thesis unfolding blocks_needed_def by (metis add_le_cancel_left add_mult_distrib)
qed

lemma find_free_blocks_spec:
  assumes "pos < 8 * length bm" "0 < bs" "0 < len"
  shows "case uwsgi_cache_find_free_blocks bm pos bs len of
      Some s \<Rightarrow> s + blocks_needed bs len \<le> 8 * length bm \<and> free_run bm s (blocks_needed bs len)
    | None \<Rightarrow> (\<forall>s. (pos \<le> s \<and> s + blocks_needed bs len \<le> 8 * length bm \<or>
                 s + blocks_needed bs len \<le> wrap_end pos) \<longrightarrow> \<not> free_run bm s (blocks_needed bs len))"
proof -
  let ?n = "blocks_needed bs len"
  have n: "0 < ?n" using assms by (simp add: blocks_needed_pos)
  have "pos div 8 < length bm" using assms(1) by auto
  then have "(pos div 8 + (if pos mod 8 > 0 then 1 else 0)) * 8 \<le> length bm * 8"
    by (intro mult_right_mono) auto
  with assms(1) have le: "pos \<le> length bm * 8" "wrap_end pos \<le> length bm * 8"
    by (auto simp: wrap_end_def)
  have a: "case scan_blocks bm ?n [pos..<length bm * 8] None 0 of
      Inl s \<Rightarrow> pos \<le> s \<and> s + ?n \<le> length bm * 8 \<and> free_run bm s ?n
    | Inr (base', found') \<Rightarrow> run_state bm pos base' found' (length bm * 8) \<and> found' < ?n \<and>
        (\<forall>s\<ge>pos. s + ?n \<le> length bm * 8 \<longrightarrow> \<not> free_run bm s ?n)"
    using n le by (intro scan_blocks_spec) (auto simp: run_state_def)
  have b: "case scan_blocks bm ?n [0..<wrap_end pos] None 0 of
      Inl s \<Rightarrow> 0 \<le> s \<and> s + ?n \<le> wrap_end pos \<and> free_run bm s ?n
    | Inr (base', found') \<Rightarrow> run_state bm 0 base' found' (wrap_end pos) \<and> found' < ?n \<and>
        (\<forall>s\<ge>0. s + ?n \<le> wrap_end pos \<longrightarrow> \<not> free_run bm s ?n)"
    using n le by (intro scan_blocks_spec) (auto simp: run_state_def)
  show ?thesis
    unfolding find_free_blocks_scan [OF assms(1)]
    using a b le(2) by (auto simp: mult.commute split: sum.splits prod.splits)
qed

section \<open>Marking and unmarking\<close>

lemma ff_mask: "(0xff :: byte) = mask 8"
  by (simp add: mask_eq_exp_minus_1)

lemma first_mask_bit:
  "p < 8 \<Longrightarrow> fb < 8 \<Longrightarrow> lb < 8 \<Longrightarrow>
     bit (first_mask fb lb nb) (7 - p) \<longleftrightarrow> fb \<le> p \<and> (nb = 1 \<longrightarrow> p \<le> lb)"
  unfolding first_mask_def ff_mask Let_def
  by (auto simp: bit_push_bit_iff bit_drop_bit_eq bit_mask_iff)

lemma last_mask_bit: "p < 8 \<Longrightarrow> lb < 8 \<Longrightarrow> bit (last_mask lb) (7 - p) \<longleftrightarrow> p \<le> lb"
  unfolding last_mask_def ff_mask by (auto simp: bit_push_bit_iff bit_mask_iff)

lemma ff_bit: "k < 8 \<Longrightarrow> bit (0xff :: byte) k"
  unfolding ff_mask by (simp add: bit_mask_iff)

text \<open>The three writes of both operations, byte by byte.\<close>

lemma paint_bytes:
  assumes "F \<le> L" "L < length bm"
  obtains bm' where "do {
        a \<leftarrow> map_byte f bm F;
        b \<leftarrow> (if L - F + 1 > 1 then map_byte g a L else Some a);
        (if L - F + 1 > 2 then mem_write b (F + 1) (replicate (L - F + 1 - 2) c) else Some b) } = Some bm'"
    "length bm' = length bm"
    "\<And>q. q < length bm \<Longrightarrow> bm' ! q =
       (if q = F then f (bm ! F) else if q = L then g (bm ! L) else if F < q \<and> q < L then c else bm ! q)"
proof -
  have a: "map_byte f bm F = Some (bm[F := f (bm ! F)])"
    using assms by (simp add: map_byte_def mem_get_def)
  let ?a = "bm[F := f (bm ! F)]"
  let ?b = "if L - F + 1 > 1 then ?a[L := g (?a ! L)] else ?a"
  have b: "(if L - F + 1 > 1 then map_byte g ?a L else Some ?a) = Some ?b"
    using assms by (simp add: map_byte_def mem_get_def)
  have bq: "?b ! q = (if q = F then f (bm ! F) else if q = L then g (bm ! L) else bm ! q)"
    if "q < length bm" for q
    using assms that by (auto simp: nth_list_update)
  show ?thesis
  proof (cases "L - F + 1 > 2")
    case False
    show ?thesis
    proof (rule that [of ?b])
      show "do { a \<leftarrow> map_byte f bm F;
          b \<leftarrow> (if L - F + 1 > 1 then map_byte g a L else Some a);
          (if L - F + 1 > 2 then mem_write b (F + 1) (replicate (L - F + 1 - 2) c) else Some b) } = Some ?b"
        by (simp only: a b bind.bind_lunit False if_False)
      show "?b ! q = (if q = F then f (bm ! F) else if q = L then g (bm ! L)
          else if F < q \<and> q < L then c else bm ! q)" if "q < length bm" for q
        using bq [OF that] False by auto
    qed simp
  next
    case True
    let ?c = "take (F + 1) ?b @ replicate (L - F + 1 - 2) c @ drop (F + 1 + (L - F + 1 - 2)) ?b"
    have w: "mem_write ?b (F + 1) (replicate (L - F + 1 - 2) c) = Some ?c"
      using assms True by (simp add: mem_write_def)
    have cq: "?c ! q = (if F < q \<and> q < L then c else ?b ! q)" if "q < length bm" for q
      using mem_write_nth [OF w, of q] that True by auto
    have "length ?c = length bm" using mem_write_length [OF w] by simp
    moreover have "?c ! q = (if q = F then f (bm ! F) else if q = L then g (bm ! L)
        else if F < q \<and> q < L then c else bm ! q)" if "q < length bm" for q
      using cq [OF that] bq [OF that] by auto
    moreover have "do { a \<leftarrow> map_byte f bm F;
          b \<leftarrow> (if L - F + 1 > 1 then map_byte g a L else Some a);
          (if L - F + 1 > 2 then mem_write b (F + 1) (replicate (L - F + 1 - 2) c) else Some b) } = Some ?c"
      by (simp only: a b bind.bind_lunit True if_True w)
    ultimately show ?thesis using that [of ?c] by blast
  qed
qed

lemma block_order:
  fixes i n b :: nat
  assumes "F = i div 8" "L = (i + n - 1) div 8" "0 < n"
  shows "b div 8 < F \<Longrightarrow> b < i" "L < b div 8 \<Longrightarrow> i + n \<le> b"
    "F < b div 8 \<Longrightarrow> b div 8 < L \<Longrightarrow> i \<le> b \<and> b < i + n"
    "b div 8 = F \<Longrightarrow> i \<le> b \<longleftrightarrow> i mod 8 \<le> b mod 8"
    "b div 8 = L \<Longrightarrow> b < i + n \<longleftrightarrow> b mod 8 \<le> (i + n - 1) mod 8"
    "F < b div 8 \<Longrightarrow> i \<le> b" "b div 8 < L \<Longrightarrow> b < i + n"
proof -
  have e: "i = 8 * F + i mod 8" "b = 8 * (b div 8) + b mod 8" "i + n = 8 * L + (i + n - 1) mod 8 + 1"
    "i mod 8 < 8" "b mod 8 < 8" "(i + n - 1) mod 8 < 8"
    using assms by auto
  show "b div 8 < F \<Longrightarrow> b < i" "L < b div 8 \<Longrightarrow> i + n \<le> b"
    "F < b div 8 \<Longrightarrow> b div 8 < L \<Longrightarrow> i \<le> b \<and> b < i + n"
    "F < b div 8 \<Longrightarrow> i \<le> b" "b div 8 < L \<Longrightarrow> b < i + n"
    using e by linarith+
  show "b div 8 = F \<Longrightarrow> i \<le> b \<longleftrightarrow> i mod 8 \<le> b mod 8"
    "b div 8 = L \<Longrightarrow> b < i + n \<longleftrightarrow> b mod 8 \<le> (i + n - 1) mod 8"
    using e by linarith+
qed

lemma cache_mark_blocks_spec:
  assumes "0 < bs" "0 < len" "i + blocks_needed bs len \<le> 8 * length bm"
  obtains bm' where "cache_mark_blocks bs bm i len = Some (blocks_needed bs len, bm')"
    "length bm' = length bm"
    "\<And>b. b < 8 * length bm \<Longrightarrow> used bm' b \<longleftrightarrow> used bm b \<or> i \<le> b \<and> b < i + blocks_needed bs len"
proof -
  let ?n = "blocks_needed bs len"
  let ?F = "i div 8" and ?L = "(i + ?n - 1) div 8"
  let ?m1 = "first_mask (i mod 8) ((i + ?n - 1) mod 8) (?L - ?F + 1)"
  let ?m2 = "last_mask ((i + ?n - 1) mod 8)"
  have n: "0 < ?n" using assms by (simp add: blocks_needed_pos)
  have FL: "?F \<le> ?L" "?L < length bm" using n assms(3) by (auto intro!: div_le_mono)
  obtain bm' where bm': "do {
        a \<leftarrow> map_byte (\<lambda>b. b OR ?m1) bm ?F;
        b \<leftarrow> (if ?L - ?F + 1 > 1 then map_byte (\<lambda>b. b OR ?m2) a ?L else Some a);
        (if ?L - ?F + 1 > 2 then mem_write b (?F + 1) (replicate (?L - ?F + 1 - 2) 0xff) else Some b) } = Some bm'"
    "length bm' = length bm"
    "\<And>q. q < length bm \<Longrightarrow> bm' ! q = (if q = ?F then bm ! ?F OR ?m1 else if q = ?L then bm ! ?L OR ?m2
       else if ?F < q \<and> q < ?L then 0xff else bm ! q)"
    using paint_bytes [OF FL, of "\<lambda>b. b OR ?m1" "\<lambda>b. b OR ?m2" "0xff"] by blast
  have "cache_mark_blocks bs bm i len = Some (?n, bm')"
    using bm'(1) by (auto simp: cache_mark_blocks_def Let_def split: bind_splits if_splits)
  moreover have "used bm' b \<longleftrightarrow> used bm b \<or> i \<le> b \<and> b < i + ?n" if b: "b < 8 * length bm" for b
  proof -
    note o = block_order [where i = i and b = b, OF refl refl n]
    have q: "b div 8 < length bm" using b by auto
    consider "b div 8 = ?F" | "b div 8 = ?L" "b div 8 \<noteq> ?F" | "?F < b div 8" "b div 8 < ?L"
      | "b div 8 < ?F \<or> ?L < b div 8" by linarith
    then show ?thesis
    proof cases
      case 1
      then have "used bm' b \<longleftrightarrow> used bm b \<or> bit ?m1 (7 - b mod 8)"
        using bm'(3) [OF q] by (simp add: used_def bit_simps)
      moreover have "bit ?m1 (7 - b mod 8) \<longleftrightarrow> i \<le> b \<and> b < i + ?n"
        using 1 o(4) o(5,7) FL(1) by (cases "?F = ?L") (simp_all add: first_mask_bit)
      ultimately show ?thesis by simp
    next
      case 2
      then have "used bm' b \<longleftrightarrow> used bm b \<or> bit ?m2 (7 - b mod 8)"
        using bm'(3) [OF q] by (simp add: used_def bit_simps)
      moreover have "bit ?m2 (7 - b mod 8) \<longleftrightarrow> i \<le> b \<and> b < i + ?n"
        using 2(1) o(5,6) le_neq_trans [OF FL(1)] 2(2) by (subst last_mask_bit) auto
      ultimately show ?thesis by simp
    next
      case 3
      then show ?thesis using bm'(3) [OF q] o(3) [OF 3] ff_bit [of "7 - b mod 8"] by (simp add: used_def)
    next
      case 4
      then show ?thesis using bm'(3) [OF q] o(1,2) FL(1) by (auto simp: used_def)
    qed
  qed
  ultimately show ?thesis using that bm'(2) by blast
qed

lemma cache_unmark_blocks_spec:
  assumes "0 < bs" "0 < len" "i + blocks_needed bs len \<le> 8 * length bm"
  obtains bm' where "cache_unmark_blocks bs bm i len = Some bm'"
    "length bm' = length bm"
    "\<And>b. b < 8 * length bm \<Longrightarrow> used bm' b \<longleftrightarrow> used bm b \<and> \<not> (i \<le> b \<and> b < i + blocks_needed bs len)"
proof -
  let ?n = "blocks_needed bs len"
  let ?F = "i div 8" and ?L = "(i + ?n - 1) div 8"
  let ?m1 = "first_mask (i mod 8) ((i + ?n - 1) mod 8) (?L - ?F + 1)"
  let ?m2 = "last_mask ((i + ?n - 1) mod 8)"
  have n: "0 < ?n" using assms by (simp add: blocks_needed_pos)
  have FL: "?F \<le> ?L" "?L < length bm" using n assms(3) by (auto intro!: div_le_mono)
  obtain bm' where bm': "do {
        a \<leftarrow> map_byte (\<lambda>b. b AND NOT ?m1) bm ?F;
        b \<leftarrow> (if ?L - ?F + 1 > 1 then map_byte (\<lambda>b. b AND NOT ?m2) a ?L else Some a);
        (if ?L - ?F + 1 > 2 then mem_write b (?F + 1) (replicate (?L - ?F + 1 - 2) 0) else Some b) } = Some bm'"
    "length bm' = length bm"
    "\<And>q. q < length bm \<Longrightarrow> bm' ! q = (if q = ?F then bm ! ?F AND NOT ?m1 else if q = ?L then bm ! ?L AND NOT ?m2
       else if ?F < q \<and> q < ?L then 0 else bm ! q)"
    using paint_bytes [OF FL, of "\<lambda>b. b AND NOT ?m1" "\<lambda>b. b AND NOT ?m2" 0] by blast
  have "cache_unmark_blocks bs bm i len = Some bm'"
    unfolding cache_unmark_blocks_def Let_def by (rule bm'(1))
  moreover have "used bm' b \<longleftrightarrow> used bm b \<and> \<not> (i \<le> b \<and> b < i + ?n)" if b: "b < 8 * length bm" for b
  proof -
    note o = block_order [where i = i and b = b, OF refl refl n]
    have q: "b div 8 < length bm" using b by auto
    have k: "7 - b mod 8 < 8" by simp
    consider "b div 8 = ?F" | "b div 8 = ?L" "b div 8 \<noteq> ?F" | "?F < b div 8" "b div 8 < ?L"
      | "b div 8 < ?F \<or> ?L < b div 8" by linarith
    then show ?thesis
    proof cases
      case 1
      then have "used bm' b \<longleftrightarrow> used bm b \<and> \<not> bit ?m1 (7 - b mod 8)"
        using bm'(3) [OF q] k by (simp add: used_def bit_simps)
      moreover have "bit ?m1 (7 - b mod 8) \<longleftrightarrow> i \<le> b \<and> b < i + ?n"
        using 1 o(4) o(5,7) FL(1) by (cases "?F = ?L") (simp_all add: first_mask_bit)
      ultimately show ?thesis by simp
    next
      case 2
      then have "used bm' b \<longleftrightarrow> used bm b \<and> \<not> bit ?m2 (7 - b mod 8)"
        using bm'(3) [OF q] k by (simp add: used_def bit_simps)
      moreover have "bit ?m2 (7 - b mod 8) \<longleftrightarrow> i \<le> b \<and> b < i + ?n"
        using 2(1) o(5,6) le_neq_trans [OF FL(1)] 2(2) by (subst last_mask_bit) auto
      ultimately show ?thesis by simp
    next
      case 3
      then show ?thesis using bm'(3) [OF q] o(3) [OF 3] ff_bit [of "7 - b mod 8"] by (simp add: used_def)
    next
      case 4
      then show ?thesis using bm'(3) [OF q] o(1,2) FL(1) by (auto simp: used_def)
    qed
  qed
  ultimately show ?thesis using that bm'(2) by blast
qed

section \<open>Properties\<close>

text \<open>
  C27: an allocation is sound: the blocks found are inside the bitmap and were all free, marking
  them sets exactly their bits, and unmarking them afterwards gives back the bitmap of before.
\<close>

theorem cache_blocks_allocation:
  assumes "pos < 8 * length bm" "0 < blocksize" "0 < len"
    and "uwsgi_cache_find_free_blocks bm pos blocksize len = Some s"
  shows "\<exists>bm1 bm2. cache_mark_blocks blocksize bm s len = Some (blocks_needed blocksize len, bm1) \<and>
     cache_unmark_blocks blocksize bm1 s len = Some bm2 \<and>
     s + blocks_needed blocksize len \<le> 8 * length bm \<and>
     (\<forall>b<8 * length bm.
        (s \<le> b \<and> b < s + blocks_needed blocksize len \<longrightarrow> \<not> used bm b) \<and>
        (used bm1 b \<longleftrightarrow> used bm b \<or> s \<le> b \<and> b < s + blocks_needed blocksize len) \<and>
        (used bm2 b \<longleftrightarrow> used bm b))"
proof -
  have found: "s + blocks_needed blocksize len \<le> 8 * length bm" "free_run bm s (blocks_needed blocksize len)"
    using find_free_blocks_spec [OF assms(1-3)] assms(4) by auto
  obtain bm1 where m: "cache_mark_blocks blocksize bm s len = Some (blocks_needed blocksize len, bm1)"
    "length bm1 = length bm"
    "\<And>b. b < 8 * length bm \<Longrightarrow> used bm1 b \<longleftrightarrow> used bm b \<or> s \<le> b \<and> b < s + blocks_needed blocksize len"
    using cache_mark_blocks_spec [OF assms(2,3) found(1)] by blast
  have "s + blocks_needed blocksize len \<le> 8 * length bm1" using found(1) m(2) by simp
  from cache_unmark_blocks_spec [OF assms(2,3) this] obtain bm2 where
    u: "cache_unmark_blocks blocksize bm1 s len = Some bm2"
    "\<And>b. b < 8 * length bm1 \<Longrightarrow> used bm2 b \<longleftrightarrow> used bm1 b \<and> \<not> (s \<le> b \<and> b < s + blocks_needed blocksize len)"
    by blast
  show ?thesis
    using m u found by (intro exI [of _ bm1] exI [of _ bm2]) (auto simp: free_run_def)
qed

theorem cache_blocks_allocation_witness:
  "\<exists>bm1 bm2. cache_mark_blocks 64 [0xf0, 0] 4 600 = Some (10, bm1) \<and>
     cache_unmark_blocks 64 bm1 4 600 = Some bm2 \<and> (\<forall>b<16. used bm2 b \<longleftrightarrow> used [0xf0, 0] b)"
proof -
  have "uwsgi_cache_find_free_blocks [0xf0, 0] 0 64 600 = Some 4" by code_simp
  with cache_blocks_allocation [of 0 "[0xf0, 0]" 64 600 4] show ?thesis
    by (simp add: blocks_needed_def) blast
qed

text \<open>
  A search that starts on a byte boundary misses a free stretch that reaches over the
  starting position: on an entirely free bitmap an item larger than either side of that
  position is refused, although all its blocks are free.
\<close>

theorem find_free_blocks_misses:
  assumes "pos < 8 * length bm" "pos mod 8 = 0" "0 < blocksize"
    and "8 * length bm - pos < blocks_needed blocksize len" "pos < blocks_needed blocksize len"
  shows "uwsgi_cache_find_free_blocks bm pos blocksize len = None"
proof -
  have len: "0 < len" using assms(4) by (cases len) (auto simp: blocks_needed_def)
  have w: "wrap_end pos = pos" using assms(2) by (auto simp: wrap_end_def)
  show ?thesis
  proof (cases "uwsgi_cache_find_free_blocks bm pos blocksize len")
    case (Some s)
    have "pos \<le> length bm * 8" using assms(1) by simp
    have a: "case scan_blocks bm (blocks_needed blocksize len) [pos..<length bm * 8] None 0 of
        Inl s \<Rightarrow> pos \<le> s \<and> s + blocks_needed blocksize len \<le> length bm * 8 \<and>
          free_run bm s (blocks_needed blocksize len)
      | Inr (base', found') \<Rightarrow> run_state bm pos base' found' (length bm * 8) \<and>
          found' < blocks_needed blocksize len \<and>
          (\<forall>s\<ge>pos. s + blocks_needed blocksize len \<le> length bm * 8 \<longrightarrow>
             \<not> free_run bm s (blocks_needed blocksize len))"
      using assms(1,4) by (intro scan_blocks_spec) (auto simp: run_state_def)
    have b: "case scan_blocks bm (blocks_needed blocksize len) [0..<pos] None 0 of
        Inl s \<Rightarrow> 0 \<le> s \<and> s + blocks_needed blocksize len \<le> pos \<and>
          free_run bm s (blocks_needed blocksize len)
      | Inr (base', found') \<Rightarrow> run_state bm 0 base' found' pos \<and>
          found' < blocks_needed blocksize len \<and>
          (\<forall>s\<ge>0. s + blocks_needed blocksize len \<le> pos \<longrightarrow>
             \<not> free_run bm s (blocks_needed blocksize len))"
      using assms(4) by (intro scan_blocks_spec) (auto simp: run_state_def)
    show ?thesis
      using a b assms(4,5) Some unfolding find_free_blocks_scan [OF assms(1)] w
      by (auto split: sum.splits)
  qed
qed

theorem find_free_blocks_misses_witness:
  "uwsgi_cache_find_free_blocks [0, 0, 0] 8 64 1280 = None \<and> \<not> used [0, 0, 0] 7 \<and> \<not> used [0, 0, 0] 8"
proof (intro conjI)
  show "uwsgi_cache_find_free_blocks [0, 0, 0] 8 64 1280 = None"
    by (rule find_free_blocks_misses) (simp_all add: blocks_needed_def)
qed (simp_all add: used_def)

end
