(* ===== verification/Cache.thy ===== *)
theory Cache
  imports Hash Cachebitmap
begin

text \<open>
  The caching subsystem, \<^verbatim>\<open>core/cache.c\<close>: a hash table with chained items, a stack of unused
  items, an optional least-recently-used list and an optional block bitmap, all in shared
  memory and addressed by item number (0 is the null item).

  Every access to the item array, the hash table, the stack and the data area is checked
  against its size: \<open>None\<close> is an access outside of it.  \<open>now\<close> is what \<^verbatim>\<open>uwsgi_now()\<close> returns
  during the call.  The commands sent to the UDP nodes are collected in \<open>c_sent\<close>.
\<close>

section \<open>State\<close>

record citem =
  ci_flags :: nat
  ci_keysize :: nat
  ci_hash :: nat
  ci_valsize :: nat
  ci_first_block :: nat
  ci_expires :: nat
  ci_hits :: nat
  ci_prev :: nat
  ci_next :: nat
  ci_lru_prev :: nat
  ci_lru_next :: nat
  ci_key :: bytes

record cache =
  c_keysize :: nat
  c_blocks :: nat
  c_blocksize :: nat
  c_hash :: "bytes \<Rightarrow> u32"
  c_hashtable :: "nat list"
  c_stack :: "nat list"            \<comment> \<open>\<^verbatim>\<open>unused_blocks_stack\<close>\<close>
  c_sp :: nat                      \<comment> \<open>\<^verbatim>\<open>unused_blocks_stack_ptr\<close>\<close>
  c_bitmap :: "bytes option"
  c_bitmap_pos :: nat
  c_max_items :: nat
  c_max_item_size :: nat
  c_n_items :: nat
  c_items :: "citem list"
  c_use_last_modified :: bool
  c_last_modified_at :: nat
  c_data :: bytes
  c_no_expire :: bool
  c_full :: nat
  c_hits :: nat
  c_miss :: nat
  c_math_initial :: int
  c_nodes :: nat
  c_sent :: "bytes list"
  c_next_scan :: nat
  c_purge_lru :: bool
  c_lru_head :: nat
  c_lru_tail :: nat
  c_lazy_expire :: bool
  c_sweep_on_full :: nat
  c_clear_on_full :: bool

abbreviation c_hashsize :: "cache \<Rightarrow> nat" where
  "c_hashsize c \<equiv> length (c_hashtable c)"

definition get_item :: "cache \<Rightarrow> nat \<Rightarrow> citem option" where
  "get_item c i = mem_get (c_items c) i"

definition upd :: "cache \<Rightarrow> nat \<Rightarrow> (citem \<Rightarrow> citem) \<Rightarrow> cache" where
  "upd c i f = c\<lparr>c_items := (c_items c)[i := f (c_items c ! i)]\<rparr>"

definition upd_item :: "cache \<Rightarrow> nat \<Rightarrow> (citem \<Rightarrow> citem) \<Rightarrow> cache option" where
  "upd_item c i f = (if i < length (c_items c) then Some (upd c i f) else None)"

definition set_bucket :: "cache \<Rightarrow> nat \<Rightarrow> nat \<Rightarrow> cache option" where
  "set_bucket c h i =
     (if h < c_hashsize c then Some (c\<lparr>c_hashtable := (c_hashtable c)[h := i]\<rparr>) else None)"

abbreviation FLAG_UNGETTABLE :: "nat \<Rightarrow> bool" where "FLAG_UNGETTABLE fl \<equiv> bit fl 0"
abbreviation FLAG_UPDATE :: "nat \<Rightarrow> bool" where "FLAG_UPDATE fl \<equiv> bit fl 1"
abbreviation FLAG_LOCAL :: "nat \<Rightarrow> bool" where "FLAG_LOCAL fl \<equiv> bit fl 2"
abbreviation FLAG_ABSEXPIRE :: "nat \<Rightarrow> bool" where "FLAG_ABSEXPIRE fl \<equiv> bit fl 3"
abbreviation FLAG_MATH :: "nat \<Rightarrow> bool" where "FLAG_MATH fl \<equiv> bit fl 4"
abbreviation FLAG_INC :: "nat \<Rightarrow> bool" where "FLAG_INC fl \<equiv> bit fl 5"
abbreviation FLAG_DEC :: "nat \<Rightarrow> bool" where "FLAG_DEC fl \<equiv> bit fl 6"
abbreviation FLAG_MUL :: "nat \<Rightarrow> bool" where "FLAG_MUL fl \<equiv> bit fl 7"
abbreviation FLAG_DIV :: "nat \<Rightarrow> bool" where "FLAG_DIV fl \<equiv> bit fl 8"
abbreviation FLAG_FIXEXPIRE :: "nat \<Rightarrow> bool" where "FLAG_FIXEXPIRE fl \<equiv> bit fl 9"

section \<open>Commands to the nodes\<close>

text \<open>
  The datagram of \<^verbatim>\<open>cache_send_udp_command\<close>; the value length and the packet size are 16 bits
  wide.  \<open>dec\<close> is the decimal representation of the expire time.
\<close>

fun dec_digits :: "nat \<Rightarrow> nat \<Rightarrow> bytes" where
  "dec_digits 0 n = []"
| "dec_digits (Suc fuel) n =
     (if n < 10 then [word_of_nat (48 + n)]
      else dec_digits fuel (n div 10) @ [word_of_nat (48 + n mod 10)])"

definition le16n :: "nat \<Rightarrow> bytes" where
  "le16n n = le_bytes 2 (word_of_nat n :: u16)"

definition cache_udp_packet :: "bytes \<Rightarrow> bytes \<Rightarrow> nat \<Rightarrow> nat \<Rightarrow> bytes" where
  "cache_udp_packet key val expires cmd =
     (let vallen16 = length val mod 65536; es = dec_digits 20 expires;
          pktsize = (if cmd = 10 then 2 + length key + 2 + vallen16 + 2 + length es
                     else 2 + length key)
      in [111] @ le16n pktsize @ [word_of_nat cmd] @ le16n (length key) @ key @
         (if cmd = 10 then le16n vallen16 @ take vallen16 val @ le16n (length es) @ es else []))"

definition cache_send_udp_command :: "cache \<Rightarrow> bytes \<Rightarrow> bytes \<Rightarrow> nat \<Rightarrow> nat \<Rightarrow> cache" where
  "cache_send_udp_command c key val expires cmd =
     c\<lparr>c_sent := c_sent c @ replicate (c_nodes c) (cache_udp_packet key val expires cmd)\<rparr>"

section \<open>The least-recently-used list\<close>

definition lru_remove_item :: "cache \<Rightarrow> nat \<Rightarrow> cache option" where
  "lru_remove_item c index = do {
     curr \<leftarrow> get_item c index;
     c \<leftarrow> (if ci_lru_next curr \<noteq> 0
           then upd_item c (ci_lru_next curr) (\<lambda>u. u\<lparr>ci_lru_prev := ci_lru_prev curr\<rparr>)
           else Some (c\<lparr>c_lru_tail := ci_lru_prev curr\<rparr>));
     (if ci_lru_prev curr \<noteq> 0
      then upd_item c (ci_lru_prev curr) (\<lambda>u. u\<lparr>ci_lru_next := ci_lru_next curr\<rparr>)
      else Some (c\<lparr>c_lru_head := ci_lru_next curr\<rparr>)) }"

definition lru_add_item :: "cache \<Rightarrow> nat \<Rightarrow> cache option" where
  "lru_add_item c index = do {
     c \<leftarrow> (if c_lru_tail c \<noteq> 0
           then upd_item c (c_lru_tail c) (\<lambda>u. u\<lparr>ci_lru_next := index\<rparr>)
           else Some (c\<lparr>c_lru_head := index\<rparr>));
     c \<leftarrow> upd_item c index (\<lambda>u. u\<lparr>ci_lru_next := 0, ci_lru_prev := c_lru_tail c\<rparr>);
     Some (c\<lparr>c_lru_tail := index\<rparr>) }"

section \<open>Deleting an item\<close>

definition unmark_item :: "cache \<Rightarrow> citem \<Rightarrow> cache option" where
  "unmark_item c uci =
     (case c_bitmap c of
        None \<Rightarrow> Some c
      | Some bm \<Rightarrow> do {
          bm \<leftarrow> cache_unmark_blocks (c_blocksize c) bm (ci_first_block uci) (ci_valsize uci);
          Some (c\<lparr>c_bitmap := Some bm\<rparr>) })"

definition push_unused :: "cache \<Rightarrow> nat \<Rightarrow> cache option" where
  "push_unused c index =
     (let sp = c_sp c + 1 in
      if sp < length (c_stack c)
      then Some (c\<lparr>c_sp := sp, c_stack := (c_stack c)[sp := index]\<rparr>) else None)"

definition unlink_item :: "cache \<Rightarrow> citem \<Rightarrow> cache option" where
  "unlink_item c uci = do {
     c \<leftarrow> (if ci_prev uci \<noteq> 0 then upd_item c (ci_prev uci) (\<lambda>u. u\<lparr>ci_next := ci_next uci\<rparr>)
           else set_bucket c (ci_hash uci mod c_hashsize c) (ci_next uci));
     c \<leftarrow> (if ci_next uci \<noteq> 0 then upd_item c (ci_next uci) (\<lambda>u. u\<lparr>ci_prev := ci_prev uci\<rparr>)
           else Some c);
     (if ci_prev uci = 0 \<and> ci_next uci = 0
      then set_bucket c (ci_hash uci mod c_hashsize c) 0 else Some c) }"

text \<open>The part of \<^verbatim>\<open>uwsgi_cache_del2\<close> that works on a known item.\<close>

definition del_item :: "cache \<Rightarrow> nat \<Rightarrow> nat \<Rightarrow> cache option" where
  "del_item c index now = do {
     uci \<leftarrow> get_item c index;
     c \<leftarrow> (if ci_keysize uci > 0 then do {
             c \<leftarrow> unmark_item c uci;
             c \<leftarrow> push_unused c index;
             c \<leftarrow> unlink_item c uci;
             c \<leftarrow> (if c_purge_lru c then lru_remove_item c index else Some c);
             Some (c\<lparr>c_n_items := sz_sub (c_n_items c) 1\<rparr>) }
           else Some c);
     c \<leftarrow> upd_item c index (\<lambda>u. u\<lparr>ci_keysize := 0, ci_valsize := 0, ci_hash := 0, ci_prev := 0,
             ci_next := 0, ci_expires := 0\<rparr>);
     Some (if c_use_last_modified c then c\<lparr>c_last_modified_at := now\<rparr> else c) }"

section \<open>Looking up a key\<close>

text \<open>0 is the answer for no item.  An item found expired under lazy expiration is deleted.\<close>

definition check_lazy :: "cache \<Rightarrow> nat \<Rightarrow> nat \<Rightarrow> (nat \<times> cache) option" where
  "check_lazy c slot now = do {
     uci \<leftarrow> get_item c slot;
     (if ci_expires uci = 0 \<or> \<not> c_lazy_expire c then Some (slot, c)
      else if ci_expires uci \<le> now then do { c \<leftarrow> del_item c slot now; Some (0, c) }
      else Some (slot, c)) }"

definition item_matches :: "citem \<Rightarrow> nat \<Rightarrow> bytes \<Rightarrow> bool" where
  "item_matches uci hash key \<longleftrightarrow>
     ci_hash uci = hash \<and> ci_keysize uci = length key \<and> take (length key) (ci_key uci) = key"

text \<open>
  The walk along a chain; \<open>rounds\<close> are the steps left until the loop alarm, which kills the
  process and is \<open>None\<close> here.
\<close>

fun chain_loop :: "nat \<Rightarrow> cache \<Rightarrow> nat \<Rightarrow> bytes \<Rightarrow> nat \<Rightarrow> nat \<Rightarrow> (nat \<times> cache) option" where
  "chain_loop rounds c hash key slot now =
     (if slot = 0 then Some (0, c)
      else (case rounds of
         0 \<Rightarrow> None
       | Suc rounds \<Rightarrow> do {
           uci \<leftarrow> get_item c slot;
           (if item_matches uci hash key then check_lazy c slot now
            else chain_loop rounds c hash key (ci_next uci) now) }))"

declare chain_loop.simps [simp del]

definition uwsgi_cache_get_index :: "cache \<Rightarrow> bytes \<Rightarrow> nat \<Rightarrow> (nat \<times> cache) option" where
  "uwsgi_cache_get_index c key now =
     (let hash = unat (c_hash c key) in
      if c_hashsize c = 0 then None
      else let hash_key = hash mod c_hashsize c; slot = c_hashtable c ! hash_key in
        if slot = 0 then Some (0, c)
        else do {
          uci \<leftarrow> get_item c slot;
          (if ci_hash uci mod c_hashsize c \<noteq> hash_key then Some (0, c)
           else if item_matches uci hash key then check_lazy c slot now
           else chain_loop (c_max_items c) c hash key (ci_next uci) now) })"

text \<open>\<^verbatim>\<open>uwsgi_cache_exists2\<close> returns the item number cut to 32 bits.\<close>

definition uwsgi_cache_exists2 :: "cache \<Rightarrow> bytes \<Rightarrow> nat \<Rightarrow> (nat \<times> cache) option" where
  "uwsgi_cache_exists2 c key now =
     map_option (\<lambda>(i, c). (i mod 2 ^ 32, c)) (uwsgi_cache_get_index c key now)"

definition uwsgi_cache_del2 ::
  "cache \<Rightarrow> bytes \<Rightarrow> nat \<Rightarrow> nat \<Rightarrow> nat \<Rightarrow> (int \<times> cache) option" where
  "uwsgi_cache_del2 c key index flags now = do {
     (index, c) \<leftarrow> (if index = 0 then uwsgi_cache_get_index c key now else Some (index, c));
     (if index = 0 then Some (-1, c)
      else do {
        c \<leftarrow> del_item c index now;
        Some (0, if c_nodes c \<noteq> 0 \<and> \<not> FLAG_LOCAL flags
                 then cache_send_udp_command c key [] 0 11 else c) }) }"

section \<open>Reading a value\<close>

text \<open>The result of a read is the pointer into the data area and the size of the value.\<close>

definition touch_item :: "cache \<Rightarrow> nat \<Rightarrow> cache option" where
  "touch_item c index = do {
     c \<leftarrow> upd_item c index (\<lambda>u. u\<lparr>ci_hits := sz_add (ci_hits u) 1\<rparr>);
     Some (c\<lparr>c_hits := sz_add (c_hits c) 1\<rparr>) }"

definition lru_refresh :: "cache \<Rightarrow> nat \<Rightarrow> cache option" where
  "lru_refresh c index =
     (if c_purge_lru c then do { c \<leftarrow> lru_remove_item c index; lru_add_item c index } else Some c)"

definition uwsgi_cache_get3 ::
  "cache \<Rightarrow> bytes \<Rightarrow> nat \<Rightarrow> ((nat \<times> nat \<times> nat) option \<times> cache) option" where
  "uwsgi_cache_get3 c key now = do {
     (index, c) \<leftarrow> uwsgi_cache_get_index c key now;
     (if index = 0 then Some (None, c\<lparr>c_miss := sz_add (c_miss c) 1\<rparr>)
      else do {
        uci \<leftarrow> get_item c index;
        (if FLAG_UNGETTABLE (ci_flags uci) then Some (None, c)
         else do {
           c \<leftarrow> lru_refresh c index;
           c \<leftarrow> touch_item c index;
           Some (Some (ci_first_block uci * c_blocksize c, ci_valsize uci, ci_expires uci), c) }) }) }"

definition uwsgi_cache_get2 ::
  "cache \<Rightarrow> bytes \<Rightarrow> nat \<Rightarrow> ((nat \<times> nat) option \<times> cache) option" where
  "uwsgi_cache_get2 c key now = do {
     (index, c) \<leftarrow> uwsgi_cache_get_index c key now;
     (if index = 0 then Some (None, c\<lparr>c_miss := sz_add (c_miss c) 1\<rparr>)
      else do {
        uci \<leftarrow> get_item c index;
        (if FLAG_UNGETTABLE (ci_flags uci) then Some (None, c)
         else do {
           c \<leftarrow> lru_refresh c index;
           c \<leftarrow> touch_item c index;
           Some (Some (ci_first_block uci * c_blocksize c, ci_valsize uci), c) }) }) }"

text \<open>\<^verbatim>\<open>uwsgi_cache_get4\<close> does not refresh the least-recently-used list.\<close>

definition uwsgi_cache_get4 ::
  "cache \<Rightarrow> bytes \<Rightarrow> nat \<Rightarrow> ((nat \<times> nat \<times> nat) option \<times> cache) option" where
  "uwsgi_cache_get4 c key now = do {
     (index, c) \<leftarrow> uwsgi_cache_get_index c key now;
     (if index = 0 then Some (None, c\<lparr>c_miss := sz_add (c_miss c) 1\<rparr>)
      else do {
        uci \<leftarrow> get_item c index;
        (if FLAG_UNGETTABLE (ci_flags uci) then Some (None, c)
         else do {
           c \<leftarrow> touch_item c index;
           Some (Some (ci_first_block uci * c_blocksize c, ci_valsize uci, ci_hits uci), c) }) }) }"

definition uwsgi_cache_num2 :: "cache \<Rightarrow> bytes \<Rightarrow> nat \<Rightarrow> (int \<times> cache) option" where
  "uwsgi_cache_num2 c key now = do {
     (index, c) \<leftarrow> uwsgi_cache_get_index c key now;
     (if index = 0 then Some (0, c\<lparr>c_miss := sz_add (c_miss c) 1\<rparr>)
      else do {
        uci \<leftarrow> get_item c index;
        (if FLAG_UNGETTABLE (ci_flags uci) then Some (0, c)
         else do {
           c \<leftarrow> touch_item c index;
           v \<leftarrow> rd_le 8 (c_data c) (ci_first_block uci * c_blocksize c);
           Some (to_signed 8 v, c) }) }) }"

section \<open>Making room\<close>

text \<open>The two loops over the items; the first counts what it removed.\<close>

fun sweep_expired :: "cache \<Rightarrow> nat list \<Rightarrow> nat \<Rightarrow> nat \<Rightarrow> (nat \<times> cache) option" where
  "sweep_expired c [] removed now = Some (removed, c)"
| "sweep_expired c (i # is) removed now = do {
     uci \<leftarrow> get_item c i;
     (if ci_expires uci > 0 \<and> ci_expires uci \<le> now then do {
        (r, c) \<leftarrow> uwsgi_cache_del2 c [] i 0 now;
        sweep_expired c is (if r = 0 then removed + 1 else removed) now }
      else sweep_expired c is removed now) }"

fun clear_items :: "cache \<Rightarrow> nat list \<Rightarrow> nat \<Rightarrow> cache option" where
  "clear_items c [] now = Some c"
| "clear_items c (i # is) now = do {
     (r, c) \<leftarrow> uwsgi_cache_del2 c [] i 0 now;
     clear_items c is now }"

definition cache_full :: "cache \<Rightarrow> nat \<Rightarrow> cache option" where
  "cache_full c now = do {
     let c = c\<lparr>c_full := sz_add (c_full c) 1\<rparr>;
     c \<leftarrow> (if c_purge_lru c \<and> c_lru_head c \<noteq> 0
           then map_option snd (uwsgi_cache_del2 c [] (c_lru_head c) 4 now) else Some c);
     (removed, c) \<leftarrow>
       (if c_sweep_on_full c \<noteq> 0 \<and> c_next_scan c \<le> now
        then sweep_expired (c\<lparr>c_next_scan := sz_add now (c_sweep_on_full c)\<rparr>) [1..<c_max_items c] 0 now
        else Some (0, c));
     (if c_clear_on_full c \<and> removed = 0 then clear_items c [1..<c_max_items c] now else Some c) }"

section \<open>Storing an item\<close>

text \<open>
  Finding and marking blocks in bitmap mode, and moving the scan position behind them.  The
  result says whether there were blocks.
\<close>

definition take_blocks :: "cache \<Rightarrow> bytes \<Rightarrow> nat \<Rightarrow> (nat option \<times> cache) option" where
  "take_blocks c bm vallen =
     (case uwsgi_cache_find_free_blocks bm (c_bitmap_pos c) (c_blocksize c) vallen of
        None \<Rightarrow> Some (None, c)
      | Some fb \<Rightarrow> do {
          (n, bm) \<leftarrow> cache_mark_blocks (c_blocksize c) bm fb vallen;
          Some (Some fb, c\<lparr>c_bitmap := Some bm,
                  c_bitmap_pos := (if fb + n \<ge> c_blocks c then 0 else fb + n)\<rparr>) })"

text \<open>The operations on 64-bit signed values; overflow is undefined, division truncates.\<close>

definition int64_check :: "int \<Rightarrow> int option" where
  "int64_check r = (if - (2 ^ 63) \<le> r \<and> r < 2 ^ 63 then Some r else None)"

definition cdiv :: "int \<Rightarrow> int \<Rightarrow> int" where
  "cdiv a b = sgn a * sgn b * (\<bar>a\<bar> div \<bar>b\<bar>)"

definition math_op :: "nat \<Rightarrow> int \<Rightarrow> int \<Rightarrow> int option" where
  "math_op fl num delta =
     (if FLAG_INC fl then int64_check (num + delta)
      else if FLAG_DEC fl then int64_check (num - delta)
      else if FLAG_MUL fl then int64_check (num * delta)
      else if FLAG_DIV fl then (if delta = 0 then Some 0 else int64_check (cdiv num delta))
      else Some num)"

text \<open>
  The value put into the blocks: the bytes, or the result of the operation on the number
  \<open>old\<close> says to start from (the initial value for a new item, else what the blocks hold).
\<close>

definition put_value :: "cache \<Rightarrow> nat \<Rightarrow> bytes \<Rightarrow> nat \<Rightarrow> int option \<Rightarrow> cache option" where
  "put_value c fb val flags old =
     (let off = fb * c_blocksize c in
      if \<not> FLAG_MATH flags then do {
        d \<leftarrow> mem_write (c_data c) off val;
        Some (c\<lparr>c_data := d\<rparr>) }
      else do {
        num \<leftarrow> (case old of Some n \<Rightarrow> Some n | None \<Rightarrow> map_option (to_signed 8) (rd_le 8 (c_data c) off));
        r \<leftarrow> math_op flags num (to_signed 8 (le_nat val));
        d \<leftarrow> wr_le 8 (c_data c) off (nat (r mod 2 ^ 64));
        Some (c\<lparr>c_data := d\<rparr>) })"

text \<open>Putting the item behind the last one of its chain.\<close>

fun chain_last :: "nat \<Rightarrow> cache \<Rightarrow> nat \<Rightarrow> nat option" where
  "chain_last 0 c i = None"
| "chain_last (Suc fuel) c i = do {
     u \<leftarrow> get_item c i;
     (if ci_next u = 0 then Some i else chain_last fuel c (ci_next u)) }"

definition link_item :: "cache \<Rightarrow> nat \<Rightarrow> cache option" where
  "link_item c index = do {
     c \<leftarrow> upd_item c index (\<lambda>u. u\<lparr>ci_prev := 0, ci_next := 0\<rparr>);
     uci \<leftarrow> get_item c index;
     let slot = ci_hash uci mod c_hashsize c;
     last_index \<leftarrow> mem_get (c_hashtable c) slot;
     (if last_index = 0 then set_bucket c slot index
      else do {
        l \<leftarrow> chain_last (c_max_items c) c last_index;
        c \<leftarrow> upd_item c l (\<lambda>u. u\<lparr>ci_next := index\<rparr>);
        upd_item c index (\<lambda>u. u\<lparr>ci_prev := l\<rparr>) }) }"

text \<open>The tail of \<^verbatim>\<open>uwsgi_cache_set2\<close> after either branch.\<close>

definition set_done :: "cache \<Rightarrow> int \<Rightarrow> bytes \<Rightarrow> bytes \<Rightarrow> nat \<Rightarrow> nat \<Rightarrow> nat \<Rightarrow> int \<times> cache" where
  "set_done c ret key val expires flags now =
     (let c = (if c_use_last_modified c then c\<lparr>c_last_modified_at := now\<rparr> else c);
          c = (if c_nodes c \<noteq> 0 \<and> ret = 0 \<and> \<not> FLAG_LOCAL flags
               then cache_send_udp_command c key val expires 10 else c)
      in (ret, c))"

definition scan_before :: "cache \<Rightarrow> nat \<Rightarrow> cache" where
  "scan_before c expires =
     (if c_next_scan c = 0 \<or> c_next_scan c > expires then c\<lparr>c_next_scan := expires\<rparr> else c)"

text \<open>A new item in the block position already set.\<close>

definition store_new ::
  "cache \<Rightarrow> nat \<Rightarrow> nat \<Rightarrow> bytes \<Rightarrow> bytes \<Rightarrow> nat \<Rightarrow> nat \<Rightarrow> nat \<Rightarrow> (int \<times> cache) option" where
  "store_new c index fb key val expires flags now = do {
     let rel = (\<not> c_purge_lru c \<and> expires \<noteq> 0 \<and> \<not> FLAG_ABSEXPIRE flags);
     let expires = (if rel then sz_add expires now else expires);
     c \<leftarrow> (if c_purge_lru c then lru_add_item c index
           else if rel then Some (scan_before c expires) else Some c);
     u \<leftarrow> get_item c index;
     k \<leftarrow> mem_write (ci_key u) 0 key;
     c \<leftarrow> upd_item c index (\<lambda>u. u\<lparr>ci_expires := expires, ci_hash := unat (c_hash c key),
             ci_hits := 0, ci_flags := flags, ci_key := k\<rparr>);
     c \<leftarrow> put_value c fb val flags (Some (c_math_initial c));
     c \<leftarrow> upd_item c index (\<lambda>u. u\<lparr>ci_valsize := length val, ci_keysize := length key\<rparr>);
     c \<leftarrow> link_item c index;
     Some (set_done (c\<lparr>c_n_items := sz_add (c_n_items c) 1\<rparr>) 0 key val expires flags now) }"

definition set_new ::
  "cache \<Rightarrow> bytes \<Rightarrow> bytes \<Rightarrow> nat \<Rightarrow> nat \<Rightarrow> nat \<Rightarrow> (int \<times> cache) option" where
  "set_new c key val expires flags now = do {
     index \<leftarrow> mem_get (c_stack c) (c_sp c);
     let c = c\<lparr>c_sp := c_sp c - 1\<rparr>;
     (case c_bitmap c of
        None \<Rightarrow> do {
          c \<leftarrow> upd_item c index (\<lambda>u. u\<lparr>ci_first_block := index\<rparr>);
          store_new c index index key val expires flags now }
      | Some bm \<Rightarrow> do {
          (fb, c) \<leftarrow> take_blocks c bm (length val);
          (case fb of
             None \<Rightarrow> do {
               c \<leftarrow> upd_item c index (\<lambda>u. u\<lparr>ci_first_block := 2 ^ 64 - 1\<rparr>);
               c \<leftarrow> cache_full (c\<lparr>c_sp := c_sp c + 1\<rparr>) now;
               Some (-1, c) }
           | Some fb \<Rightarrow> do {
               c \<leftarrow> upd_item c index (\<lambda>u. u\<lparr>ci_first_block := fb\<rparr>);
               store_new c index fb key val expires flags now }) }) }"

text \<open>
  The update of an item: its expiration, its place in the LRU list, in bitmap mode new blocks,
  and the value.
\<close>

definition set_update ::
  "cache \<Rightarrow> nat \<Rightarrow> bytes \<Rightarrow> bytes \<Rightarrow> nat \<Rightarrow> nat \<Rightarrow> nat \<Rightarrow> (int \<times> cache) option" where
  "set_update c index key val expires flags now = do {
     let rel = (\<not> FLAG_FIXEXPIRE flags \<and> \<not> c_purge_lru c \<and> expires \<noteq> 0 \<and> \<not> FLAG_ABSEXPIRE flags);
     let expires = (if rel then sz_add expires now else expires);
     c \<leftarrow> (if FLAG_FIXEXPIRE flags then Some c
           else do {
             c \<leftarrow> (if c_purge_lru c then lru_refresh c index
                   else if rel then Some (scan_before c expires) else Some c);
             upd_item c index (\<lambda>u. u\<lparr>ci_expires := expires\<rparr>) });
     uci \<leftarrow> get_item c index;
     (case c_bitmap c of
        None \<Rightarrow> do {
          c \<leftarrow> put_value c (ci_first_block uci) val flags None;
          c \<leftarrow> upd_item c index (\<lambda>u. u\<lparr>ci_valsize := length val\<rparr>);
          Some (set_done c 0 key val expires flags now) }
      | Some bm \<Rightarrow> do {
          (fb, c) \<leftarrow> take_blocks c bm (length val);
          (case fb of
             None \<Rightarrow> do { c \<leftarrow> cache_full c now; Some (-1, c) }
           | Some fb \<Rightarrow> do {
               c \<leftarrow> upd_item c index (\<lambda>u. u\<lparr>ci_first_block := fb\<rparr>);
               c \<leftarrow> unmark_item c uci;
               c \<leftarrow> put_value c fb val flags None;
               c \<leftarrow> upd_item c index (\<lambda>u. u\<lparr>ci_valsize := length val\<rparr>);
               Some (set_done c 0 key val expires flags now) }) }) }"

definition uwsgi_cache_set2 ::
  "cache \<Rightarrow> bytes \<Rightarrow> bytes \<Rightarrow> nat \<Rightarrow> nat \<Rightarrow> nat \<Rightarrow> (int \<times> cache) option" where
  "uwsgi_cache_set2 c key val expires flags now =
     (if length key = 0 \<or> length val = 0 then Some (-1, c)
      else if length key > c_keysize c then Some (-1, c)
      else if length val > c_max_item_size c then Some (-1, c)
      else if FLAG_MATH flags \<and> length val \<noteq> 8 then Some (-1, c)
      else do {
        (index, c) \<leftarrow> uwsgi_cache_get_index c key now;
        (if index = 0 then
           (if c_sp c = 0 then do {
              c \<leftarrow> cache_full c now;
              (if c_sp c = 0 then Some (-1, c) else set_new c key val expires flags now) }
            else set_new c key val expires flags now)
         else if FLAG_UPDATE flags then set_update c index key val expires flags now
         else Some (set_done c (-1) key val expires flags now)) })"

section \<open>The sweeper and the recovery from a store\<close>

fun sweep_items :: "cache \<Rightarrow> nat list \<Rightarrow> nat \<Rightarrow> nat \<Rightarrow> (nat \<times> cache) option" where
  "sweep_items c [] freed now = Some (freed, c)"
| "sweep_items c (i # is) freed now = do {
     uci \<leftarrow> get_item c i;
     let c = (if i = 1 then c\<lparr>c_next_scan := 0\<rparr> else c);
     (if ci_expires uci \<noteq> 0 then
        (if ci_expires uci \<le> now then do {
           (r, c) \<leftarrow> uwsgi_cache_del2 c [] i 4 now;
           sweep_items c is (freed + 1) now }
         else sweep_items (scan_before c (ci_expires uci)) is freed now)
      else sweep_items c is freed now) }"

definition cache_sweeper_free_items :: "cache \<Rightarrow> nat \<Rightarrow> (nat \<times> cache) option" where
  "cache_sweeper_free_items c now =
     (if c_no_expire c \<or> c_purge_lru c \<or> c_lazy_expire c then Some (0, c)
      else if c_next_scan c = 0 \<or> c_next_scan c > now then Some (0, c)
      else sweep_items c [1..<c_max_items c] 0 now)"

fun fix_items :: "cache \<Rightarrow> nat list \<Rightarrow> nat \<Rightarrow> nat \<Rightarrow> cache option" where
  "fix_items c [] restored next_scan = Some (c\<lparr>c_next_scan := next_scan, c_n_items := restored\<rparr>)"
| "fix_items c (i # is) restored next_scan = do {
     uci \<leftarrow> get_item c i;
     (if ci_keysize uci \<noteq> 0 then do {
        c \<leftarrow> (if ci_prev uci = 0 then set_bucket c (ci_hash uci mod c_hashsize c) i else Some c);
        fix_items c is (restored + 1)
          (if ci_expires uci \<noteq> 0 \<and> (next_scan = 0 \<or> next_scan > ci_expires uci)
           then ci_expires uci else next_scan) }
      else do {
        c \<leftarrow> push_unused c i;
        fix_items c is restored next_scan }) }"

definition uwsgi_cache_fix :: "cache \<Rightarrow> cache option" where
  "uwsgi_cache_fix c = fix_items (c\<lparr>c_sp := 0\<rparr>) [1..<c_max_items c] 0 0"

text \<open>
  The data structures of \<^verbatim>\<open>uwsgi_cache_init\<close> for a cache without a store: an empty table, all
  items on the stack (item 1 at the bottom), zeroed item headers.
\<close>

definition blank_item :: "nat \<Rightarrow> citem" where
  "blank_item keysize =
     \<lparr>ci_flags = 0, ci_keysize = 0, ci_hash = 0, ci_valsize = 0, ci_first_block = 0, ci_expires = 0,
      ci_hits = 0, ci_prev = 0, ci_next = 0, ci_lru_prev = 0, ci_lru_next = 0,
      ci_key = replicate keysize 0\<rparr>"

definition uwsgi_cache_init :: "cache \<Rightarrow> nat \<Rightarrow> bool \<Rightarrow> cache" where
  "uwsgi_cache_init c hashsize use_blocks_bitmap =
     c\<lparr>c_hashtable := replicate hashsize 0, c_stack := [0..<c_max_items c],
       c_sp := c_max_items c - 1,
       c_bitmap := (if use_blocks_bitmap then Some (init_bitmap (c_blocks c)) else None),
       c_items := replicate (c_max_items c) (blank_item (c_keysize c)),
       c_data := replicate (c_blocksize c * c_blocks c) 0\<rparr>"

section \<open>The UDP server\<close>

text \<open>
  One datagram of \<^verbatim>\<open>cache_udp_server_loop\<close>, read into a buffer of 65535 bytes whose content
  beyond the datagram is what earlier ones left: \<open>buf\<close> is the whole buffer, \<open>len\<close> the length
  read.
\<close>

definition udp_u16 :: "bytes \<Rightarrow> nat \<Rightarrow> nat option" where
  "udp_u16 buf p = rd_le 2 buf p"

definition cache_udp_server_packet :: "cache \<Rightarrow> bytes \<Rightarrow> nat \<Rightarrow> nat \<Rightarrow> (int \<times> cache) option" where
  "cache_udp_server_packet c buf len now = do {
     b0 \<leftarrow> mem_get buf 0;
     pktsize \<leftarrow> udp_u16 buf 1;
     b3 \<leftarrow> mem_get buf 3;
     keylen \<leftarrow> udp_u16 buf 4;
     (if b0 \<noteq> 111 \<or> int pktsize \<noteq> int len - 4 then Some (1, c)
      else if 4 + keylen > pktsize then Some (1, c)
      else if b3 = 10 then
        (if keylen + 2 + 2 > pktsize then Some (1, c)
         else do {
           vallen \<leftarrow> udp_u16 buf (6 + keylen);
           (if 4 + keylen + vallen > pktsize then Some (1, c)
            else do {
              key \<leftarrow> mem_read buf 6 keylen;
              val \<leftarrow> mem_read buf (8 + keylen) vallen;
              expires \<leftarrow>
                (if 2 + keylen + 2 + vallen + 2 < pktsize then do {
                   es \<leftarrow> udp_u16 buf (8 + keylen + vallen);
                   (if 6 + keylen + vallen + es > pktsize then Some None
                    else do {
                      e \<leftarrow> mem_read buf (10 + keylen + vallen) es;
                      n \<leftarrow> uwsgi_str_num e;
                      Some (Some (unat n)) }) }
                 else Some (Some 0));
              (case expires of
                 None \<Rightarrow> Some (1, c)
               | Some e \<Rightarrow> uwsgi_cache_set2 c key val e (2 + 4 + 8) now) }) })
      else if b3 = 11 then do {
        key \<leftarrow> mem_read buf 6 keylen;
        uwsgi_cache_del2 c key 0 4 now }
      else Some (1, c)) }"

end
