(* ===== verification/Links.thy ===== *)
theory Links
  imports Prelude
begin

text \<open>
  Doubly linked lists through item numbers, as the cache keeps them: \<open>pv\<close> and \<open>nx\<close> read the
  links of an item, 0 ends a list.  \<open>seg pv nx p xs n\<close>: the items \<open>xs\<close> are linked in this order,
  the first one pointing back to \<open>p\<close>, the last one forward to \<open>n\<close>.
\<close>

definition hd0 :: "nat \<Rightarrow> nat list \<Rightarrow> nat" where
  "hd0 n xs = (case xs of [] \<Rightarrow> n | x # _ \<Rightarrow> x)"

definition last0 :: "nat \<Rightarrow> nat list \<Rightarrow> nat" where
  "last0 p xs = (if xs = [] then p else last xs)"

fun seg :: "(nat \<Rightarrow> nat) \<Rightarrow> (nat \<Rightarrow> nat) \<Rightarrow> nat \<Rightarrow> nat list \<Rightarrow> nat \<Rightarrow> bool" where
  "seg pv nx p [] n = True"
| "seg pv nx p (x # xs) n = (x \<noteq> 0 \<and> pv x = p \<and> nx x = hd0 n xs \<and> seg pv nx x xs n)"

lemma hd0_simps [simp]: "hd0 n [] = n" "hd0 n (x # xs) = x" "hd0 n (xs @ ys) = hd0 (hd0 n ys) xs"
  by (auto simp: hd0_def split: list.splits)

lemma last0_simps [simp]: "last0 p [] = p" "last0 p (x # xs) = last0 x xs" "last0 p (xs @ ys) = last0 (last0 p xs) ys"
  by (auto simp: last0_def)

lemma seg_append:
  "seg pv nx p (xs @ ys) n \<longleftrightarrow> seg pv nx p xs (hd0 n ys) \<and> seg pv nx (last0 p xs) ys n"
  by (induction xs arbitrary: p) auto

lemma seg_cong:
  "(\<And>x. x \<in> set xs \<Longrightarrow> pv x = pv' x \<and> nx x = nx' x) \<Longrightarrow> seg pv nx p xs n = seg pv' nx' p xs n"
  by (induction xs arbitrary: p) auto

lemma seg_nonzero: "seg pv nx p xs n \<Longrightarrow> x \<in> set xs \<Longrightarrow> x \<noteq> 0"
  by (induction xs arbitrary: p) auto

lemma hd0_in: "xs \<noteq> [] \<Longrightarrow> hd0 n xs \<in> set xs"
  by (cases xs) auto

lemma last0_in: "xs \<noteq> [] \<Longrightarrow> last0 p xs \<in> set xs"
  by (simp add: last0_def)

lemma hd0_zero: "seg pv nx p xs n \<Longrightarrow> hd0 0 xs = 0 \<longleftrightarrow> xs = []"
  by (cases xs) auto

lemma last0_zero: "seg pv nx p xs n \<Longrightarrow> last0 0 xs = 0 \<longleftrightarrow> xs = []"
  by (metis last0_def last0_in seg_nonzero)

lemma seg_at:
  "seg pv nx p (xs @ x # ys) n \<Longrightarrow> x \<noteq> 0 \<and> pv x = last0 p xs \<and> nx x = hd0 n ys"
  by (simp add: seg_append)

lemma seg_prev: "seg pv nx p (y # ys) n \<Longrightarrow> y \<notin> set ys \<Longrightarrow> seg (pv(y := q)) nx q (y # ys) n"
proof -
  assume s: "seg pv nx p (y # ys) n" and y: "y \<notin> set ys"
  have "seg pv nx y ys n = seg (pv(y := q)) nx y ys n" using y by (intro seg_cong) auto
  with s show ?thesis by simp
qed

lemma seg_next:
  assumes "seg pv nx p xs n" "distinct xs" "xs \<noteq> []"
  shows "seg pv (nx(last xs := m)) p xs m"
proof -
  obtain ys y where xs: "xs = ys @ [y]" using assms(3) by (metis append_butlast_last_id)
  then have "seg pv nx p ys y" "y \<noteq> 0" "pv y = last0 p ys" using assms(1) by (auto simp: seg_append)
  moreover have "seg pv nx p ys y = seg pv (nx(y := m)) p ys y"
    using assms(2) xs by (intro seg_cong) auto
  ultimately show ?thesis using xs by (simp add: seg_append)
qed

text \<open>Taking an item out, as the code does: its neighbours get each other's number.\<close>

definition unlink_pv :: "(nat \<Rightarrow> nat) \<Rightarrow> (nat \<Rightarrow> nat) \<Rightarrow> nat \<Rightarrow> nat \<Rightarrow> nat" where
  "unlink_pv pv nx x = (if nx x = 0 then pv else pv(nx x := pv x))"

definition unlink_nx :: "(nat \<Rightarrow> nat) \<Rightarrow> (nat \<Rightarrow> nat) \<Rightarrow> nat \<Rightarrow> nat \<Rightarrow> nat" where
  "unlink_nx pv nx x = (if pv x = 0 then nx else nx(pv x := nx x))"

lemma seg_unlink:
  assumes "seg pv nx 0 (xs @ x # ys) 0" "distinct (xs @ x # ys)"
  shows "seg (unlink_pv pv nx x) (unlink_nx pv nx x) 0 (xs @ ys) 0"
proof -
  let ?pv = "unlink_pv pv nx x" and ?nx = "unlink_nx pv nx x"
  from assms(1) have s: "seg pv nx 0 xs x" "seg pv nx x ys 0" and x: "x \<noteq> 0" "pv x = last0 0 xs" "nx x = hd0 0 ys"
    by (auto simp: seg_append)
  have xs: "seg ?pv ?nx 0 xs (hd0 0 ys)"
  proof (cases "xs = []")
    case False
    have "seg pv (nx(last xs := hd0 0 ys)) 0 xs (hd0 0 ys)" using s(1) assms(2) False by (intro seg_next) auto
    moreover have nz: "pv x \<noteq> 0" using s(1) x(2) False by (simp add: last0_zero)
    moreover have "pv z = ?pv z \<and> (nx(last xs := hd0 0 ys)) z = ?nx z" if "z \<in> set xs" for z
    proof -
      have "nx x \<noteq> 0 \<Longrightarrow> z \<noteq> nx x" using that x(3) assms(2) hd0_in [of ys 0] by (cases ys) auto
      then show ?thesis using nz x False by (auto simp: unlink_pv_def unlink_nx_def last0_def)
    qed
    ultimately show ?thesis
      using seg_cong [of xs pv ?pv "nx(last xs := hd0 0 ys)" ?nx 0 "hd0 0 ys"] by blast
  qed simp
  moreover have "seg ?pv ?nx (last0 0 xs) ys 0"
  proof (cases ys)
    case (Cons y zs)
    have "seg (pv(y := last0 0 xs)) nx (last0 0 xs) ys 0"
      using seg_prev [of pv nx x y zs 0] s(2) assms(2) Cons by simp
    moreover have "(pv(y := last0 0 xs)) z = ?pv z \<and> nx z = ?nx z" if "z \<in> set ys" for z
    proof -
      have "pv x \<noteq> 0 \<Longrightarrow> z \<noteq> pv x" using that x(2) assms(2) last0_in [of xs 0] by (cases "xs = []") auto
      then show ?thesis
        using x Cons s(2) by (auto simp: unlink_pv_def unlink_nx_def)
    qed
    ultimately show ?thesis
      using seg_cong [of ys "pv(y := last0 0 xs)" ?pv nx ?nx "last0 0 xs" 0] by blast
  qed simp
  ultimately show ?thesis by (simp add: seg_append)
qed

text \<open>Putting an item at the end.\<close>

definition append_nx :: "(nat \<Rightarrow> nat) \<Rightarrow> nat list \<Rightarrow> nat \<Rightarrow> nat \<Rightarrow> nat" where
  "append_nx nx xs x = (if xs = [] then nx else nx(last xs := x))(x := 0)"

lemma seg_append_item:
  assumes "seg pv nx 0 xs 0" "distinct xs" "x \<notin> set xs" "x \<noteq> 0"
  shows "seg (pv(x := last0 0 xs)) (append_nx nx xs x) 0 (xs @ [x]) 0"
proof (cases "xs = []")
  case True
  then show ?thesis using assms(4) by (simp add: append_nx_def)
next
  case False
  have "seg pv (nx(last xs := x)) 0 xs x" using assms False by (intro seg_next) auto
  moreover have "seg pv (nx(last xs := x)) 0 xs x =
      seg (pv(x := last0 0 xs)) (append_nx nx xs x) 0 xs x"
    using assms(3) False by (intro seg_cong) (auto simp: append_nx_def)
  ultimately show ?thesis using assms(4) by (simp add: seg_append append_nx_def)
qed

text \<open>The links determine the list.\<close>

lemma seg_unique:
  "hd0 0 xs = hd0 0 ys \<Longrightarrow> seg pv nx p xs 0 \<Longrightarrow> seg pv nx p ys 0 \<Longrightarrow> xs = ys"
proof (induction xs arbitrary: p ys)
  case Nil
  then show ?case using hd0_zero [of pv nx p ys 0] by simp
next
  case (Cons x xs)
  then obtain zs where "ys = x # zs" by (cases ys) auto
  with Cons.IH [of zs x] Cons.prems show ?case by simp
qed

end
