(* ===== verification/Cacheinv.thy ===== *)
theory Cacheinv
  imports Cache Links
begin

text \<open>
  The invariant of the cache and its refinement of a finite map: which items are live, the
  hash chains, the stack of unused items, the least-recently-used list and the blocks.
\<close>

section \<open>Views of the items\<close>

definition prevf :: "cache \<Rightarrow> nat \<Rightarrow> nat" where "prevf c i = ci_prev (c_items c ! i)"
definition nextf :: "cache \<Rightarrow> nat \<Rightarrow> nat" where "nextf c i = ci_next (c_items c ! i)"
definition lprevf :: "cache \<Rightarrow> nat \<Rightarrow> nat" where "lprevf c i = ci_lru_prev (c_items c ! i)"
definition lnextf :: "cache \<Rightarrow> nat \<Rightarrow> nat" where "lnextf c i = ci_lru_next (c_items c ! i)"

text \<open>An item without its links.\<close>

definition core :: "cache \<Rightarrow> nat \<Rightarrow> citem" where
  "core c i = (c_items c ! i)\<lparr>ci_prev := 0, ci_next := 0, ci_lru_prev := 0, ci_lru_next := 0\<rparr>"

lemma core_fields:
  "ci_flags (c_items c ! i) = ci_flags (core c i)"
  "ci_keysize (c_items c ! i) = ci_keysize (core c i)"
  "ci_hash (c_items c ! i) = ci_hash (core c i)"
  "ci_valsize (c_items c ! i) = ci_valsize (core c i)"
  "ci_first_block (c_items c ! i) = ci_first_block (core c i)"
  "ci_expires (c_items c ! i) = ci_expires (core c i)"
  "ci_hits (c_items c ! i) = ci_hits (core c i)"
  "ci_key (c_items c ! i) = ci_key (core c i)"
  by (simp_all add: core_def)

lemma upd_config [simp]:
  "c_keysize (upd c i f) = c_keysize c" "c_blocks (upd c i f) = c_blocks c"
  "c_blocksize (upd c i f) = c_blocksize c" "c_hash (upd c i f) = c_hash c"
  "c_hashtable (upd c i f) = c_hashtable c" "c_stack (upd c i f) = c_stack c"
  "c_sp (upd c i f) = c_sp c" "c_bitmap (upd c i f) = c_bitmap c"
  "c_bitmap_pos (upd c i f) = c_bitmap_pos c" "c_max_items (upd c i f) = c_max_items c"
  "c_n_items (upd c i f) = c_n_items c" "c_data (upd c i f) = c_data c"
  "c_purge_lru (upd c i f) = c_purge_lru c" "c_lru_head (upd c i f) = c_lru_head c"
  "c_lru_tail (upd c i f) = c_lru_tail c" "c_lazy_expire (upd c i f) = c_lazy_expire c"
  "c_use_last_modified (upd c i f) = c_use_last_modified c"
  "c_max_item_size (upd c i f) = c_max_item_size c" "c_nodes (upd c i f) = c_nodes c"
  "length (c_items (upd c i f)) = length (c_items c)"
  by (simp_all add: upd_def)

lemma upd_item_ok: "i < length (c_items c) \<Longrightarrow> upd_item c i f = Some (upd c i f)"
  by (simp add: upd_item_def)

lemma get_item_ok: "i < length (c_items c) \<Longrightarrow> get_item c i = Some (c_items c ! i)"
  by (simp add: get_item_def mem_get_def)

lemma views_upd:
  assumes "i < length (c_items c)"
  shows "prevf (upd c i f) = (prevf c)(i := ci_prev (f (c_items c ! i)))"
    "nextf (upd c i f) = (nextf c)(i := ci_next (f (c_items c ! i)))"
    "lprevf (upd c i f) = (lprevf c)(i := ci_lru_prev (f (c_items c ! i)))"
    "lnextf (upd c i f) = (lnextf c)(i := ci_lru_next (f (c_items c ! i)))"
    "core (upd c i f) = (core c)(i := (f (c_items c ! i))
       \<lparr>ci_prev := 0, ci_next := 0, ci_lru_prev := 0, ci_lru_next := 0\<rparr>)"
  using assms by (auto simp: fun_eq_iff upd_def prevf_def nextf_def lprevf_def lnextf_def core_def)

lemma views_triv:
  "(prevf c)(i := ci_prev (c_items c ! i)) = prevf c"
  "(nextf c)(i := ci_next (c_items c ! i)) = nextf c"
  "(lprevf c)(i := ci_lru_prev (c_items c ! i)) = lprevf c"
  "(lnextf c)(i := ci_lru_next (c_items c ! i)) = lnextf c"
  "(core c)(i := (c_items c ! i)\<lparr>ci_prev := 0, ci_next := 0, ci_lru_prev := 0, ci_lru_next := 0\<rparr>) = core c"
  by (auto simp: fun_eq_iff prevf_def nextf_def lprevf_def lnextf_def core_def)

lemma upd_prev:
  assumes "i < length (c_items c)"
  shows "prevf (upd c i (ci_prev_update (\<lambda>_. v))) = (prevf c)(i := v)"
    "nextf (upd c i (ci_prev_update (\<lambda>_. v))) = nextf c"
    "lprevf (upd c i (ci_prev_update (\<lambda>_. v))) = lprevf c"
    "lnextf (upd c i (ci_prev_update (\<lambda>_. v))) = lnextf c"
    "core (upd c i (ci_prev_update (\<lambda>_. v))) = core c"
  using views_upd [OF assms, of "ci_prev_update (\<lambda>_. v)"] by (simp_all add: views_triv)

lemma upd_next:
  assumes "i < length (c_items c)"
  shows "prevf (upd c i (ci_next_update (\<lambda>_. v))) = prevf c"
    "nextf (upd c i (ci_next_update (\<lambda>_. v))) = (nextf c)(i := v)"
    "lprevf (upd c i (ci_next_update (\<lambda>_. v))) = lprevf c"
    "lnextf (upd c i (ci_next_update (\<lambda>_. v))) = lnextf c"
    "core (upd c i (ci_next_update (\<lambda>_. v))) = core c"
  using views_upd [OF assms, of "ci_next_update (\<lambda>_. v)"] by (simp_all add: views_triv)

lemma upd_lru_prev:
  assumes "i < length (c_items c)"
  shows "prevf (upd c i (ci_lru_prev_update (\<lambda>_. v))) = prevf c"
    "nextf (upd c i (ci_lru_prev_update (\<lambda>_. v))) = nextf c"
    "lprevf (upd c i (ci_lru_prev_update (\<lambda>_. v))) = (lprevf c)(i := v)"
    "lnextf (upd c i (ci_lru_prev_update (\<lambda>_. v))) = lnextf c"
    "core (upd c i (ci_lru_prev_update (\<lambda>_. v))) = core c"
  using views_upd [OF assms, of "ci_lru_prev_update (\<lambda>_. v)"] by (simp_all add: views_triv)

lemma upd_lru_next:
  assumes "i < length (c_items c)"
  shows "prevf (upd c i (ci_lru_next_update (\<lambda>_. v))) = prevf c"
    "nextf (upd c i (ci_lru_next_update (\<lambda>_. v))) = nextf c"
    "lprevf (upd c i (ci_lru_next_update (\<lambda>_. v))) = lprevf c"
    "lnextf (upd c i (ci_lru_next_update (\<lambda>_. v))) = (lnextf c)(i := v)"
    "core (upd c i (ci_lru_next_update (\<lambda>_. v))) = core c"
  using views_upd [OF assms, of "ci_lru_next_update (\<lambda>_. v)"] by (simp_all add: views_triv)

lemmas upd_views = upd_prev upd_next upd_lru_prev upd_lru_next

text \<open>Views depend on the items alone.\<close>

lemma views_items:
  "c_items c' = c_items c \<Longrightarrow> prevf c' = prevf c \<and> nextf c' = nextf c \<and> lprevf c' = lprevf c \<and>
     lnextf c' = lnextf c \<and> core c' = core c"
  by (auto simp: fun_eq_iff prevf_def nextf_def lprevf_def lnextf_def core_def)

section \<open>The invariant\<close>

definition live :: "cache \<Rightarrow> nat \<Rightarrow> bool" where
  "live c i \<longleftrightarrow> 0 < i \<and> i < c_max_items c \<and> 0 < ci_keysize (core c i)"

definition ikey :: "cache \<Rightarrow> nat \<Rightarrow> bytes" where
  "ikey c i = take (ci_keysize (core c i)) (ci_key (core c i))"

definition ivalue :: "cache \<Rightarrow> nat \<Rightarrow> bytes" where
  "ivalue c i = take (ci_valsize (core c i)) (drop (ci_first_block (core c i) * c_blocksize c) (c_data c))"

definition iblocks :: "cache \<Rightarrow> nat \<Rightarrow> nat set" where
  "iblocks c i = {ci_first_block (core c i)..<
     ci_first_block (core c i) + blocks_needed (c_blocksize c) (ci_valsize (core c i))}"

definition shape_ok :: "cache \<Rightarrow> bool" where
  "shape_ok c \<longleftrightarrow> 0 < c_max_items c \<and> c_max_items c < 2 ^ 63 \<and> length (c_items c) = c_max_items c \<and>
     length (c_stack c) = c_max_items c \<and> 0 < c_hashsize c \<and> 0 < c_blocksize c \<and>
     length (c_data c) = c_blocksize c * c_blocks c \<and>
     (\<forall>i<c_max_items c. length (ci_key (core c i)) = c_keysize c)"

definition bucket_ok :: "cache \<Rightarrow> nat \<Rightarrow> nat list \<Rightarrow> bool" where
  "bucket_ok c h xs \<longleftrightarrow> seg (prevf c) (nextf c) 0 xs 0 \<and> distinct xs \<and> c_hashtable c ! h = hd0 0 xs \<and>
     set xs = {i. live c i \<and> ci_hash (core c i) mod c_hashsize c = h}"

definition hash_ok :: "cache \<Rightarrow> bool" where
  "hash_ok c \<longleftrightarrow> (\<forall>h<c_hashsize c. \<exists>xs. bucket_ok c h xs)"

definition keys_ok :: "cache \<Rightarrow> bool" where
  "keys_ok c \<longleftrightarrow>
     (\<forall>i. live c i \<longrightarrow> ci_hash (core c i) = unat (c_hash c (ikey c i)) \<and> ci_keysize (core c i) \<le> c_keysize c) \<and>
     (\<forall>i j. live c i \<and> live c j \<and> ikey c i = ikey c j \<longrightarrow> i = j)"

definition stack_ok :: "cache \<Rightarrow> bool" where
  "stack_ok c \<longleftrightarrow> c_sp c < c_max_items c \<and> distinct (take (c_sp c) (drop 1 (c_stack c))) \<and>
     set (take (c_sp c) (drop 1 (c_stack c))) = {i. 0 < i \<and> i < c_max_items c \<and> \<not> live c i} \<and>
     c_n_items c = card {i. live c i}"

definition lru_links :: "cache \<Rightarrow> nat list \<Rightarrow> bool" where
  "lru_links c xs \<longleftrightarrow> seg (lprevf c) (lnextf c) 0 xs 0 \<and> distinct xs \<and> c_lru_head c = hd0 0 xs \<and>
     c_lru_tail c = last0 0 xs"

definition lru_list :: "cache \<Rightarrow> nat list \<Rightarrow> bool" where
  "lru_list c xs \<longleftrightarrow> lru_links c xs \<and> set xs = {i. live c i}"

definition lru_ok :: "cache \<Rightarrow> bool" where
  "lru_ok c \<longleftrightarrow> (c_purge_lru c \<longrightarrow> (\<exists>xs. lru_list c xs))"

definition blocks_ok :: "cache \<Rightarrow> bool" where
  "blocks_ok c \<longleftrightarrow>
     (\<forall>i. live c i \<longrightarrow> 0 < ci_valsize (core c i) \<and> iblocks c i \<subseteq> {..<c_blocks c}) \<and>
     (\<forall>i j. live c i \<and> live c j \<and> i \<noteq> j \<longrightarrow> iblocks c i \<inter> iblocks c j = {}) \<and>
     (case c_bitmap c of
        None \<Rightarrow> c_max_items c \<le> c_blocks c \<and> c_max_item_size c \<le> c_blocksize c \<and>
          (\<forall>i. live c i \<longrightarrow> iblocks c i = {i} \<and> ci_first_block (core c i) = i)
      | Some bm \<Rightarrow> c_blocks c \<le> 8 * length bm \<and> c_bitmap_pos c < c_blocks c \<and>
          (\<forall>b<8 * length bm. used bm b \<longleftrightarrow> c_blocks c \<le> b \<or> (\<exists>i. live c i \<and> b \<in> iblocks c i)))"

definition cache_inv :: "cache \<Rightarrow> bool" where
  "cache_inv c \<longleftrightarrow> shape_ok c \<and> hash_ok c \<and> keys_ok c \<and> stack_ok c \<and> lru_ok c \<and> blocks_ok c"

text \<open>The map the cache stands for: the value, expiration and flags of a key.\<close>

definition entry :: "cache \<Rightarrow> nat \<Rightarrow> bytes \<times> nat \<times> nat" where
  "entry c i = (ivalue c i, ci_expires (core c i), ci_flags (core c i))"

definition index_of :: "cache \<Rightarrow> bytes \<Rightarrow> nat option" where
  "index_of c k = find (\<lambda>i. live c i \<and> ikey c i = k) [1..<c_max_items c]"

definition cmap :: "cache \<Rightarrow> bytes \<Rightarrow> (bytes \<times> nat \<times> nat) option" where
  "cmap c k = map_option (entry c) (index_of c k)"

lemma index_of_Some:
  assumes "keys_ok c"
  shows "index_of c k = Some i \<longleftrightarrow> live c i \<and> ikey c i = k"
proof
  assume "index_of c k = Some i"
  then show "live c i \<and> ikey c i = k"
    unfolding index_of_def by (auto simp: find_Some_iff)
next
  assume l: "live c i \<and> ikey c i = k"
  then have "\<exists>x. index_of c k = Some x"
    by (auto simp: index_of_def find_None_iff live_def dest!: spec [of _ i] simp flip: not_None_eq)
  then obtain j where j: "index_of c k = Some j" by auto
  then have "live c j \<and> ikey c j = k" unfolding index_of_def by (auto simp: find_Some_iff)
  with l assms have "j = i" by (auto simp: keys_ok_def)
  with j show "index_of c k = Some i" by simp
qed

lemma index_of_None: "keys_ok c \<Longrightarrow> index_of c k = None \<longleftrightarrow> (\<forall>i. live c i \<longrightarrow> ikey c i \<noteq> k)"
  using index_of_Some by (metis not_Some_eq option.distinct(1))

lemma live_lt: "shape_ok c \<Longrightarrow> live c i \<Longrightarrow> i < length (c_items c)"
  by (simp add: shape_ok_def live_def)

lemma finite_live [simp]: "finite {i. live c i}"
  by (rule finite_subset [of _ "{..<c_max_items c}"]) (auto simp: live_def)

text \<open>The links of a live item stay inside the item array.\<close>

lemma chain_of:
  assumes "hash_ok c" "0 < c_hashsize c" "live c i"
  obtains xs ys where "bucket_ok c (ci_hash (core c i) mod c_hashsize c) (xs @ i # ys)"
proof -
  let ?h = "ci_hash (core c i) mod c_hashsize c"
  have "?h < c_hashsize c" using assms(2) by (rule mod_less_divisor)
  then obtain xs where xs: "bucket_ok c ?h xs" using assms(1) unfolding hash_ok_def by blast
  then have "i \<in> set xs" using assms(3) by (simp add: bucket_ok_def)
  then show ?thesis using that xs by (metis split_list)
qed

lemma bucket_member: "bucket_ok c h xs \<Longrightarrow> x \<in> set xs \<Longrightarrow> live c x"
  by (simp add: bucket_ok_def)

lemma links_in_range:
  assumes "shape_ok c" "hash_ok c" "live c i"
  shows "prevf c i < length (c_items c)" "nextf c i < length (c_items c)"
    "prevf c i \<noteq> i" "nextf c i \<noteq> i"
proof -
  have hs: "0 < c_hashsize c" and mx: "0 < length (c_items c)" using assms(1) by (auto simp: shape_ok_def)
  from chain_of [OF assms(2) hs assms(3)] obtain xs ys where
    b: "bucket_ok c (ci_hash (core c i) mod c_hashsize c) (xs @ i # ys)" .
  then have l: "prevf c i = last0 0 xs" "nextf c i = hd0 0 ys" and d: "distinct (xs @ i # ys)"
    using seg_at [of "prevf c" "nextf c" 0 xs i ys 0] by (auto simp: bucket_ok_def)
  have m: "x \<in> set xs \<union> set ys \<Longrightarrow> x < length (c_items c)" for x
    using bucket_member [OF b] live_lt [OF assms(1)] by auto
  show "prevf c i < length (c_items c)" "prevf c i \<noteq> i"
    using l(1) mx m last0_in [of xs 0] d seg_nonzero b assms(3)
    by (cases "xs = []"; fastforce simp: live_def)+
  show "nextf c i < length (c_items c)" "nextf c i \<noteq> i"
    using l(2) mx m hd0_in [of ys 0] d assms(3)
    by (cases "ys = []"; fastforce simp: live_def)+
qed

section \<open>What deleting an item does\<close>

lemma views_config [simp]:
  "live (c\<lparr>c_sp := a\<rparr>) = live c" "core (c\<lparr>c_sp := a\<rparr>) = core c"
  by (auto simp: fun_eq_iff live_def core_def)

text \<open>The two unlinking steps, on the views.\<close>

definition same_but_hash_links :: "cache \<Rightarrow> cache \<Rightarrow> bool" where
  "same_but_hash_links c c' \<longleftrightarrow>
     c' = c\<lparr>c_items := c_items c', c_hashtable := c_hashtable c'\<rparr> \<and>
     length (c_items c') = length (c_items c) \<and> c_hashsize c' = c_hashsize c \<and>
     core c' = core c \<and> lprevf c' = lprevf c \<and> lnextf c' = lnextf c"

lemma unlink_item_effect:
  assumes "i < length (c_items c)" "prevf c i < length (c_items c)" "nextf c i < length (c_items c)"
    and "0 < c_hashsize c"
  obtains c' where "unlink_item c (c_items c ! i) = Some c'" "same_but_hash_links c c'"
    "prevf c' = unlink_pv (prevf c) (nextf c) i" "nextf c' = unlink_nx (prevf c) (nextf c) i"
    "c_hashtable c' = (if prevf c i = 0
       then (c_hashtable c)[ci_hash (core c i) mod c_hashsize c := nextf c i] else c_hashtable c)"
proof -
  let ?u = "c_items c ! i" and ?h = "ci_hash (core c i) mod c_hashsize c"
  have u: "ci_prev ?u = prevf c i" "ci_next ?u = nextf c i" "ci_hash ?u = ci_hash (core c i)"
    by (simp_all add: prevf_def nextf_def core_def)
  have h: "?h < c_hashsize c" using assms(4) by (rule mod_less_divisor)
  let ?c1 = "if prevf c i \<noteq> 0 then upd c (prevf c i) (\<lambda>v. v\<lparr>ci_next := nextf c i\<rparr>)
    else c\<lparr>c_hashtable := (c_hashtable c)[?h := nextf c i]\<rparr>"
  have c1: "(if ci_prev ?u \<noteq> 0 then upd_item c (ci_prev ?u) (\<lambda>v. v\<lparr>ci_next := ci_next ?u\<rparr>)
           else set_bucket c (ci_hash ?u mod c_hashsize c) (ci_next ?u)) = Some ?c1"
    using assms(2) h by (simp add: u upd_item_ok set_bucket_def)
  have v1: "prevf ?c1 = prevf c" "nextf ?c1 = unlink_nx (prevf c) (nextf c) i" "core ?c1 = core c"
    "lprevf ?c1 = lprevf c" "lnextf ?c1 = lnextf c" "length (c_items ?c1) = length (c_items c)"
    "c_hashsize ?c1 = c_hashsize c"
    using assms(2) views_items [of "c\<lparr>c_hashtable := (c_hashtable c)[?h := nextf c i]\<rparr>" c]
    by (auto simp: upd_views unlink_nx_def)
  let ?c2 = "if nextf c i \<noteq> 0 then upd ?c1 (nextf c i) (\<lambda>v. v\<lparr>ci_prev := prevf c i\<rparr>) else ?c1"
  have c2: "(if ci_next ?u \<noteq> 0 then upd_item ?c1 (ci_next ?u) (\<lambda>v. v\<lparr>ci_prev := ci_prev ?u\<rparr>)
           else Some ?c1) = Some ?c2"
    using assms(3) v1(6) by (simp add: u upd_item_ok)
  have v2: "prevf ?c2 = unlink_pv (prevf c) (nextf c) i" "nextf ?c2 = unlink_nx (prevf c) (nextf c) i"
    "core ?c2 = core c" "lprevf ?c2 = lprevf c" "lnextf ?c2 = lnextf c"
    "length (c_items ?c2) = length (c_items c)" "c_hashsize ?c2 = c_hashsize c"
    using assms(3) v1 by (auto simp: upd_views unlink_pv_def)
  have ht: "c_hashtable ?c2 = (if prevf c i = 0 then (c_hashtable c)[?h := nextf c i] else c_hashtable c)"
    by simp
  have c3: "(if ci_prev ?u = 0 \<and> ci_next ?u = 0 then set_bucket ?c2 (ci_hash ?u mod c_hashsize ?c2) 0
     else Some ?c2) = Some ?c2"
    using h by (auto simp: u set_bucket_def)
  have "unlink_item c ?u = Some ?c2"
    unfolding unlink_item_def c1 bind.bind_lunit c2 c3 ..
  moreover have "same_but_hash_links c ?c2"
    using v2 by (auto simp: same_but_hash_links_def upd_def)
  ultimately show ?thesis using that v2(1,2) ht by blast
qed

definition same_but_lru_links :: "cache \<Rightarrow> cache \<Rightarrow> bool" where
  "same_but_lru_links c c' \<longleftrightarrow>
     c' = c\<lparr>c_items := c_items c', c_lru_head := c_lru_head c', c_lru_tail := c_lru_tail c'\<rparr> \<and>
     length (c_items c') = length (c_items c) \<and>
     core c' = core c \<and> prevf c' = prevf c \<and> nextf c' = nextf c"

lemma lru_remove_effect:
  assumes "i < length (c_items c)" "lprevf c i < length (c_items c)" "lnextf c i < length (c_items c)"
  obtains c' where "lru_remove_item c i = Some c'" "same_but_lru_links c c'"
    "lprevf c' = unlink_pv (lprevf c) (lnextf c) i" "lnextf c' = unlink_nx (lprevf c) (lnextf c) i"
    "c_lru_head c' = (if lprevf c i = 0 then lnextf c i else c_lru_head c)"
    "c_lru_tail c' = (if lnextf c i = 0 then lprevf c i else c_lru_tail c)"
proof -
  let ?u = "c_items c ! i"
  have u: "ci_lru_prev ?u = lprevf c i" "ci_lru_next ?u = lnextf c i"
    by (simp_all add: lprevf_def lnextf_def)
  let ?c1 = "if lnextf c i \<noteq> 0 then upd c (lnextf c i) (\<lambda>v. v\<lparr>ci_lru_prev := lprevf c i\<rparr>)
    else c\<lparr>c_lru_tail := lprevf c i\<rparr>"
  have c1: "(if ci_lru_next ?u \<noteq> 0 then upd_item c (ci_lru_next ?u) (\<lambda>v. v\<lparr>ci_lru_prev := ci_lru_prev ?u\<rparr>)
           else Some (c\<lparr>c_lru_tail := ci_lru_prev ?u\<rparr>)) = Some ?c1"
    using assms(3) by (simp add: u upd_item_ok)
  have v1: "lprevf ?c1 = unlink_pv (lprevf c) (lnextf c) i" "lnextf ?c1 = lnextf c" "core ?c1 = core c"
    "prevf ?c1 = prevf c" "nextf ?c1 = nextf c" "length (c_items ?c1) = length (c_items c)"
    "c_lru_head ?c1 = c_lru_head c"
    "c_lru_tail ?c1 = (if lnextf c i = 0 then lprevf c i else c_lru_tail c)"
    using assms(3) views_items [of "c\<lparr>c_lru_tail := lprevf c i\<rparr>" c]
    by (auto simp: upd_views unlink_pv_def)
  let ?c2 = "if lprevf c i \<noteq> 0 then upd ?c1 (lprevf c i) (\<lambda>v. v\<lparr>ci_lru_next := lnextf c i\<rparr>)
    else ?c1\<lparr>c_lru_head := lnextf c i\<rparr>"
  have c2: "(if ci_lru_prev ?u \<noteq> 0 then upd_item ?c1 (ci_lru_prev ?u) (\<lambda>v. v\<lparr>ci_lru_next := ci_lru_next ?u\<rparr>)
           else Some (?c1\<lparr>c_lru_head := ci_lru_next ?u\<rparr>)) = Some ?c2"
    using assms(2) v1(6) by (simp add: u upd_item_ok)
  have "lprevf ?c2 = unlink_pv (lprevf c) (lnextf c) i \<and> lnextf ?c2 = unlink_nx (lprevf c) (lnextf c) i \<and>
    core ?c2 = core c \<and> prevf ?c2 = prevf c \<and> nextf ?c2 = nextf c \<and>
    length (c_items ?c2) = length (c_items c)"
  proof (cases "lprevf c i = 0")
    case True
    then show ?thesis using v1 views_items [of "?c1\<lparr>c_lru_head := lnextf c i\<rparr>" ?c1]
      by (simp add: unlink_nx_def)
  next
    case False
    have lt: "lprevf c i < length (c_items ?c1)" using assms(2) v1(6) by simp
    show ?thesis using False v1 upd_lru_next [OF lt] by (simp add: unlink_nx_def)
  qed
  moreover have "c_lru_head ?c2 = (if lprevf c i = 0 then lnextf c i else c_lru_head c)"
    "c_lru_tail ?c2 = (if lnextf c i = 0 then lprevf c i else c_lru_tail c)"
    by simp_all
  moreover have "lru_remove_item c i = Some ?c2"
    unfolding lru_remove_item_def get_item_ok [OF assms(1)] bind.bind_lunit c1 c2 ..
  moreover have "?c2 = c\<lparr>c_items := c_items ?c2, c_lru_head := c_lru_head ?c2, c_lru_tail := c_lru_tail ?c2\<rparr>"
    by (simp add: upd_def)
  ultimately show ?thesis using that [of ?c2] unfolding same_but_lru_links_def by blast
qed

text \<open>The fields no deletion and no store changes.\<close>

definition same_config :: "cache \<Rightarrow> cache \<Rightarrow> bool" where
  "same_config c c' \<longleftrightarrow>
     c_keysize c' = c_keysize c \<and> c_blocks c' = c_blocks c \<and> c_blocksize c' = c_blocksize c \<and>
     c_hash c' = c_hash c \<and> c_hashsize c' = c_hashsize c \<and> c_max_items c' = c_max_items c \<and>
     c_max_item_size c' = c_max_item_size c \<and> c_purge_lru c' = c_purge_lru c \<and>
     c_lazy_expire c' = c_lazy_expire c \<and> c_nodes c' = c_nodes c \<and>
     length (c_items c') = length (c_items c) \<and> length (c_stack c') = length (c_stack c) \<and>
     length (c_data c') = length (c_data c)"

lemma same_config_refl [simp]: "same_config c c"
  by (simp add: same_config_def)

lemma same_config_trans: "same_config a b \<Longrightarrow> same_config b c \<Longrightarrow> same_config a c"
  by (simp add: same_config_def)

definition wiped :: "citem \<Rightarrow> citem" where
  "wiped u = u\<lparr>ci_keysize := 0, ci_valsize := 0, ci_hash := 0, ci_prev := 0, ci_next := 0, ci_expires := 0\<rparr>"

lemma wiped_links:
  "(wiped u)\<lparr>ci_prev := 0, ci_next := 0, ci_lru_prev := 0, ci_lru_next := 0\<rparr> =
     wiped (u\<lparr>ci_prev := 0, ci_next := 0, ci_lru_prev := 0, ci_lru_next := 0\<rparr>)"
  by (rule citem.equality) (simp_all add: wiped_def)

lemma wiped_fields [simp]:
  "ci_prev (wiped u) = 0" "ci_next (wiped u) = 0" "ci_lru_prev (wiped u) = ci_lru_prev u"
  "ci_lru_next (wiped u) = ci_lru_next u" "ci_keysize (wiped u) = 0" "ci_valsize (wiped u) = 0"
  "ci_hash (wiped u) = 0" "ci_expires (wiped u) = 0" "ci_key (wiped u) = ci_key u"
  by (simp_all add: wiped_def)

lemma upd_wiped:
  assumes "i < length (c_items c)"
  shows "prevf (upd c i wiped) = (prevf c)(i := 0)" "nextf (upd c i wiped) = (nextf c)(i := 0)"
    "lprevf (upd c i wiped) = lprevf c" "lnextf (upd c i wiped) = lnextf c"
    "core (upd c i wiped) = (core c)(i := wiped (core c i))"
  using views_upd [OF assms, of wiped] unfolding wiped_links by (simp_all add: views_triv core_def)

lemma lru_in_range:
  assumes "shape_ok c" "lru_list c xs" "live c i"
  obtains ys zs where "xs = ys @ i # zs" "lprevf c i = last0 0 ys" "lnextf c i = hd0 0 zs"
    "lprevf c i < length (c_items c)" "lnextf c i < length (c_items c)"
proof -
  have mx: "0 < length (c_items c)" using assms(1) by (simp add: shape_ok_def)
  from assms(2,3) have "i \<in> set xs" by (simp add: lru_list_def lru_links_def)
  then obtain ys zs where x: "xs = ys @ i # zs" by (metis split_list)
  then have l: "lprevf c i = last0 0 ys" "lnextf c i = hd0 0 zs"
    using assms(2) seg_at [of "lprevf c" "lnextf c" 0 ys i zs 0] by (auto simp: lru_list_def lru_links_def)
  have m: "y < length (c_items c)" if "y \<in> set ys \<union> set zs" for y
    using assms(2) x that live_lt [OF assms(1), of y] by (auto simp: lru_list_def lru_links_def)
  have "lprevf c i < length (c_items c)"
    using l(1) mx m [of "last0 0 ys"] last0_in [of ys 0] by (cases "ys = []") auto
  moreover have "lnextf c i < length (c_items c)"
    using l(2) mx m [of "hd0 0 zs"] hd0_in [of zs 0] by (cases "zs = []") auto
  ultimately show ?thesis using that x l by blast
qed

lemma iblocks_bound:
  assumes "0 < c_blocksize c" "0 < ci_valsize (core c i)" "iblocks c i \<subseteq> {..<n}"
  shows "ci_first_block (core c i) + blocks_needed (c_blocksize c) (ci_valsize (core c i)) \<le> n"
proof -
  let ?k = "blocks_needed (c_blocksize c) (ci_valsize (core c i))"
  have "0 < ?k" using assms(1,2) by (rule blocks_needed_pos)
  then have "ci_first_block (core c i) + ?k - 1 \<in> iblocks c i" by (auto simp: iblocks_def)
  then have "ci_first_block (core c i) + ?k - 1 < n" using assms(3) by auto
  then show ?thesis by linarith
qed

lemma unmark_item_ok:
  assumes "blocks_ok c" "shape_ok c" "live c i"
  obtains bm where "unmark_item c (c_items c ! i) = Some (c\<lparr>c_bitmap := bm\<rparr>)"
    "(c_bitmap c = None) = (bm = None)"
    "\<And>b1 b2. c_bitmap c = Some b1 \<Longrightarrow> bm = Some b2 \<Longrightarrow> length b2 = length b1 \<and>
       (\<forall>b<8 * length b1. used b2 b \<longleftrightarrow> used b1 b \<and> b \<notin> iblocks c i)"
proof (cases "c_bitmap c")
  case None
  then have "unmark_item c (c_items c ! i) = Some (c\<lparr>c_bitmap := None\<rparr>)"
    by (simp add: unmark_item_def)
  then show ?thesis using that [of None] None by simp
next
  case (Some b1)
  have v: "0 < ci_valsize (core c i)" "iblocks c i \<subseteq> {..<c_blocks c}" "c_blocks c \<le> 8 * length b1"
    and bs: "0 < c_blocksize c"
    using assms Some by (auto simp: blocks_ok_def shape_ok_def)
  have "ci_first_block (core c i) + blocks_needed (c_blocksize c) (ci_valsize (core c i)) \<le> 8 * length b1"
    using iblocks_bound [OF bs v(1,2)] v(3) by linarith
  from cache_unmark_blocks_spec [OF bs v(1) this] obtain b2 where
    b2: "cache_unmark_blocks (c_blocksize c) b1 (ci_first_block (core c i)) (ci_valsize (core c i)) = Some b2"
    "length b2 = length b1" "\<And>b. b < 8 * length b1 \<Longrightarrow> used b2 b \<longleftrightarrow> used b1 b \<and> b \<notin> iblocks c i"
    by (auto simp: iblocks_def)
  then have "unmark_item c (c_items c ! i) = Some (c\<lparr>c_bitmap := Some b2\<rparr>)"
    using Some by (simp add: unmark_item_def core_def)
  then show ?thesis by (rule that) (use Some b2 in auto)
qed

lemma stack_room:
  assumes "shape_ok c" "stack_ok c" "live c i"
  shows "c_sp c + 1 < length (c_stack c)"
proof -
  let ?A = "{j. 0 < j \<and> j < c_max_items c \<and> \<not> live c j}"
  have "insert i ?A \<subseteq> {1..<c_max_items c}" using assms(3) by (auto simp: live_def)
  then have "card (insert i ?A) \<le> c_max_items c - 1" using card_mono [of "{1..<c_max_items c}"] by fastforce
  moreover have "finite ?A" by (rule finite_subset [of _ "{..<c_max_items c}"]) auto
  ultimately have "Suc (card ?A) \<le> c_max_items c - 1" using assms(3) by simp
  moreover have "card ?A = c_sp c"
  proof -
    have "length (take (c_sp c) (drop 1 (c_stack c))) = c_sp c"
      using assms(1,2) by (auto simp: stack_ok_def shape_ok_def)
    then show ?thesis using assms(2) distinct_card unfolding stack_ok_def by metis
  qed
  ultimately show ?thesis using assms(1) unfolding shape_ok_def by linarith
qed

lemma del_item_effect:
  assumes inv: "cache_inv c" and l: "live c i"
  obtains c' where "del_item c i now = Some c'" "same_config c c'"
    "prevf c' = (unlink_pv (prevf c) (nextf c) i)(i := 0)"
    "nextf c' = (unlink_nx (prevf c) (nextf c) i)(i := 0)"
    "core c' = (core c)(i := wiped (core c i))"
    "c_hashtable c' = (if prevf c i = 0
       then (c_hashtable c)[ci_hash (core c i) mod c_hashsize c := nextf c i] else c_hashtable c)"
    "c_sp c' = c_sp c + 1" "c_stack c' = (c_stack c)[c_sp c + 1 := i]"
    "c_n_items c' = c_n_items c - 1" "c_data c' = c_data c" "c_bitmap_pos c' = c_bitmap_pos c"
    "(c_bitmap c = None) = (c_bitmap c' = None)"
    "\<forall>b1 b2. c_bitmap c = Some b1 \<and> c_bitmap c' = Some b2 \<longrightarrow> length b2 = length b1 \<and>
       (\<forall>b<8 * length b1. used b2 b \<longleftrightarrow> used b1 b \<and> b \<notin> iblocks c i)"
    "c_purge_lru c \<longrightarrow> lprevf c' = unlink_pv (lprevf c) (lnextf c) i \<and> lnextf c' = unlink_nx (lprevf c) (lnextf c) i \<and>
       c_lru_head c' = (if lprevf c i = 0 then lnextf c i else c_lru_head c) \<and>
       c_lru_tail c' = (if lnextf c i = 0 then lprevf c i else c_lru_tail c)"
proof -
  have sh: "shape_ok c" and ha: "hash_ok c" and st: "stack_ok c" and lr: "lru_ok c" and bl: "blocks_ok c"
    using inv by (auto simp: cache_inv_def)
  have il: "i < length (c_items c)" using live_lt [OF sh l] .
  have hs: "0 < c_hashsize c" using sh unfolding shape_ok_def by blast
  obtain bm where bm: "unmark_item c (c_items c ! i) = Some (c\<lparr>c_bitmap := bm\<rparr>)"
    "(c_bitmap c = None) = (bm = None)"
    "\<And>b1 b2. c_bitmap c = Some b1 \<Longrightarrow> bm = Some b2 \<Longrightarrow> length b2 = length b1 \<and>
       (\<forall>b<8 * length b1. used b2 b \<longleftrightarrow> used b1 b \<and> b \<notin> iblocks c i)"
    using unmark_item_ok [OF bl sh l] by blast
  have sp: "c_sp c + 1 < length (c_stack c)"
    using stack_room [OF sh st l] .
  let ?c2 = "c\<lparr>c_bitmap := bm, c_sp := c_sp c + 1, c_stack := (c_stack c)[c_sp c + 1 := i]\<rparr>"
  have p: "push_unused (c\<lparr>c_bitmap := bm\<rparr>) i = Some ?c2" using sp by (simp add: push_unused_def Let_def)
  have v2: "prevf ?c2 = prevf c" "nextf ?c2 = nextf c" "lprevf ?c2 = lprevf c" "lnextf ?c2 = lnextf c"
    "core ?c2 = core c" using views_items [of ?c2 c] by auto
  have r: "prevf c i < length (c_items c)" "nextf c i < length (c_items c)"
    using links_in_range [OF sh ha l] by auto
  have len2: "c_items ?c2 = c_items c" "c_hashtable ?c2 = c_hashtable c" by simp_all
  have "i < length (c_items ?c2)" "prevf ?c2 i < length (c_items ?c2)"
    "nextf ?c2 i < length (c_items ?c2)" "0 < c_hashsize ?c2"
    unfolding v2 len2 by (fact il r hs)+
  from unlink_item_effect [OF this, unfolded v2 len2] obtain c3 where
    c3: "unlink_item ?c2 (c_items c ! i) = Some c3" "same_but_hash_links ?c2 c3"
    "prevf c3 = unlink_pv (prevf c) (nextf c) i" "nextf c3 = unlink_nx (prevf c) (nextf c) i"
    "c_hashtable c3 = (if prevf c i = 0
       then (c_hashtable c)[ci_hash (core c i) mod c_hashsize c := nextf c i] else c_hashtable c)"
    by blast
  have f3: "c_purge_lru c3 = c_purge_lru c" "c_sp c3 = c_sp c + 1" "c_stack c3 = (c_stack c)[c_sp c + 1 := i]"
    "c_bitmap c3 = bm" "c_n_items c3 = c_n_items c" "length (c_items c3) = length (c_items c)"
    "c_lru_head c3 = c_lru_head c" "c_lru_tail c3 = c_lru_tail c" "lprevf c3 = lprevf c" "lnextf c3 = lnextf c"
    "core c3 = core c" "c_data c3 = c_data c" "c_bitmap_pos c3 = c_bitmap_pos c" "same_config c c3"
    "c_use_last_modified c3 = c_use_last_modified c"
  proof -
    have e: "c3 = ?c2\<lparr>c_items := c_items c3, c_hashtable := c_hashtable c3\<rparr>"
      using c3(2) by (simp add: same_but_hash_links_def)
    show "c_purge_lru c3 = c_purge_lru c" "c_sp c3 = c_sp c + 1" "c_stack c3 = (c_stack c)[c_sp c + 1 := i]"
      "c_bitmap c3 = bm" "c_n_items c3 = c_n_items c"
      "c_lru_head c3 = c_lru_head c" "c_lru_tail c3 = c_lru_tail c"
      "c_data c3 = c_data c" "c_bitmap_pos c3 = c_bitmap_pos c"
      "c_use_last_modified c3 = c_use_last_modified c"
      by (subst e, simp)+
    show "length (c_items c3) = length (c_items c)" "lprevf c3 = lprevf c" "lnextf c3 = lnextf c"
      "core c3 = core c" using c3(2) v2 by (simp_all add: same_but_hash_links_def)
    have "c_hashsize c3 = c_hashsize c" "length (c_items c3) = length (c_items c)"
      using c3(2) by (simp_all add: same_but_hash_links_def)
    then show "same_config c c3" by (subst e) (simp add: same_config_def)
  qed
  obtain c4 where c4: "(if c_purge_lru c3 then lru_remove_item c3 i else Some c3) = Some c4"
    "same_but_lru_links c3 c4"
    "c_purge_lru c \<Longrightarrow> lprevf c4 = unlink_pv (lprevf c) (lnextf c) i \<and> lnextf c4 = unlink_nx (lprevf c) (lnextf c) i \<and>
       c_lru_head c4 = (if lprevf c i = 0 then lnextf c i else c_lru_head c) \<and>
       c_lru_tail c4 = (if lnextf c i = 0 then lprevf c i else c_lru_tail c)"
  proof (cases "c_purge_lru c")
    case True
    then obtain xs where xs: "lru_list c xs" using lr by (auto simp: lru_ok_def)
    obtain ys zs where "lprevf c i < length (c_items c)" "lnextf c i < length (c_items c)"
      by (rule lru_in_range [OF sh xs l])
    then obtain c4 where "lru_remove_item c3 i = Some c4" "same_but_lru_links c3 c4"
      "lprevf c4 = unlink_pv (lprevf c3) (lnextf c3) i" "lnextf c4 = unlink_nx (lprevf c3) (lnextf c3) i"
      "c_lru_head c4 = (if lprevf c3 i = 0 then lnextf c3 i else c_lru_head c3)"
      "c_lru_tail c4 = (if lnextf c3 i = 0 then lprevf c3 i else c_lru_tail c3)"
      using lru_remove_effect [of i c3] il f3 by auto
    then show ?thesis using that [of c4] True f3 by simp
  next
    case False
    then show ?thesis using that [of c3] f3 by (simp add: same_but_lru_links_def)
  qed
  have e4: "c4 = c3\<lparr>c_items := c_items c4, c_lru_head := c_lru_head c4, c_lru_tail := c_lru_tail c4\<rparr>"
    and l4: "length (c_items c4) = length (c_items c3)" "core c4 = core c3" "prevf c4 = prevf c3" "nextf c4 = nextf c3"
    using c4(2) by (auto simp: same_but_lru_links_def)
  have f4: "c_n_items c4 = c_n_items c" "c_sp c4 = c_sp c + 1" "c_stack c4 = (c_stack c)[c_sp c + 1 := i]"
    "c_bitmap c4 = bm" "c_hashtable c4 = c_hashtable c3" "c_data c4 = c_data c" "c_bitmap_pos c4 = c_bitmap_pos c"
    "same_config c c4" "c_use_last_modified c4 = c_use_last_modified c"
  proof -
    have k: "c_n_items c4 = c_n_items c3" "c_sp c4 = c_sp c3" "c_stack c4 = c_stack c3"
      "c_bitmap c4 = c_bitmap c3" "c_hashtable c4 = c_hashtable c3" "c_data c4 = c_data c3"
      "c_bitmap_pos c4 = c_bitmap_pos c3" "c_use_last_modified c4 = c_use_last_modified c3"
      by (subst e4, simp)+
    show "c_n_items c4 = c_n_items c" "c_sp c4 = c_sp c + 1" "c_stack c4 = (c_stack c)[c_sp c + 1 := i]"
      "c_bitmap c4 = bm" "c_hashtable c4 = c_hashtable c3" "c_data c4 = c_data c"
      "c_bitmap_pos c4 = c_bitmap_pos c" "c_use_last_modified c4 = c_use_last_modified c"
      unfolding k f3 by (rule refl)+
    have "same_config c3 c4" using l4(1) by (subst e4) (simp add: same_config_def)
    with f3(14) show "same_config c c4" by (rule same_config_trans)
  qed
  have n: "0 < c_n_items c" "c_n_items c < SIZE_MOD"
  proof -
    have "card {j. live c j} > 0" using l by (auto simp: card_gt_0_iff)
    then show "0 < c_n_items c" using st by (simp add: stack_ok_def)
    have "card {j. live c j} \<le> card {..<c_max_items c}" by (intro card_mono) (auto simp: live_def)
    then show "c_n_items c < SIZE_MOD" using st sh by (simp add: stack_ok_def shape_ok_def)
  qed
  let ?c5 = "c4\<lparr>c_n_items := c_n_items c - 1\<rparr>"
  let ?c6 = "upd ?c5 i wiped"
  let ?c7 = "if c_use_last_modified ?c6 then ?c6\<lparr>c_last_modified_at := now\<rparr> else ?c6"
  have il5: "i < length (c_items ?c5)" using il l4 f3 by simp
  have u6: "upd_item ?c5 i wiped = Some ?c6" using il5 by (rule upd_item_ok)
  have k: "ci_keysize (c_items c ! i) > 0" using l by (simp add: live_def core_def)
  have w: "wiped = (\<lambda>u. u\<lparr>ci_keysize := 0, ci_valsize := 0, ci_hash := 0, ci_prev := 0, ci_next := 0, ci_expires := 0\<rparr>)"
    by (simp add: fun_eq_iff wiped_def)
  have "del_item c i now = Some ?c7"
    unfolding del_item_def get_item_ok [OF il] bind.bind_lunit
    using k bm(1) p c3(1) c4(1) f4(1) n u6 by (simp add: sz_simps flip: w)
  moreover have v7: "prevf ?c7 = prevf ?c6" "nextf ?c7 = nextf ?c6" "lprevf ?c7 = lprevf ?c6"
    "lnextf ?c7 = lnextf ?c6" "core ?c7 = core ?c6" "c_lru_head ?c7 = c_lru_head c4" "c_lru_tail ?c7 = c_lru_tail c4"
    using views_items [of ?c7 ?c6] by (auto split: if_splits)
  moreover have v5: "prevf ?c5 = prevf c3" "nextf ?c5 = nextf c3" "lprevf ?c5 = lprevf c4" "lnextf ?c5 = lnextf c4"
    "core ?c5 = core c" using views_items [of ?c5 c4] l4 f3 by auto
  moreover note upd_wiped [OF il5]
  moreover have "same_config c ?c7" "c_hashtable ?c7 = c_hashtable c3" "c_sp ?c7 = c_sp c + 1"
    "c_stack ?c7 = (c_stack c)[c_sp c + 1 := i]" "c_n_items ?c7 = c_n_items c - 1" "c_data ?c7 = c_data c"
    "c_bitmap_pos ?c7 = c_bitmap_pos c" "c_bitmap ?c7 = bm"
    using f4 by (auto simp: same_config_def)
  ultimately show ?thesis using that [of ?c7] c3 c4(3) bm by simp
qed

text \<open>Moving from one state to another: what keeps the parts of the invariant.\<close>

lemma bucket_ok_cong:
  assumes "bucket_ok c h xs" "seg (prevf c') (nextf c') 0 xs 0" "c_hashtable c' ! h = c_hashtable c ! h"
    and "{i. live c' i \<and> ci_hash (core c' i) mod c_hashsize c' = h} =
         {i. live c i \<and> ci_hash (core c i) mod c_hashsize c = h}"
  shows "bucket_ok c' h xs"
  using assms by (simp add: bucket_ok_def)

lemma chains_disjoint:
  "bucket_ok c h xs \<Longrightarrow> bucket_ok c h' ys \<Longrightarrow> h \<noteq> h' \<Longrightarrow> x \<in> set xs \<Longrightarrow> x \<notin> set ys"
  by (auto simp: bucket_ok_def)

lemma seg_unlink_other:
  assumes "seg pv nx 0 zs 0" "nx i \<notin> set zs" "pv i \<notin> set zs" "i \<notin> set zs"
  shows "seg ((unlink_pv pv nx i)(i := a)) ((unlink_nx pv nx i)(i := b)) 0 zs 0"
proof -
  have "seg pv nx 0 zs 0 = seg ((unlink_pv pv nx i)(i := a)) ((unlink_nx pv nx i)(i := b)) 0 zs 0"
    using assms by (intro seg_cong) (auto simp: unlink_pv_def unlink_nx_def)
  with assms(1) show ?thesis by simp
qed

lemma seg_unlink_set:
  assumes "seg pv nx 0 (xs @ i # ys) 0" "distinct (xs @ i # ys)"
  shows "seg ((unlink_pv pv nx i)(i := a)) ((unlink_nx pv nx i)(i := b)) 0 (xs @ ys) 0"
proof -
  have "seg (unlink_pv pv nx i) (unlink_nx pv nx i) 0 (xs @ ys) 0" by (rule seg_unlink [OF assms])
  moreover have "seg (unlink_pv pv nx i) (unlink_nx pv nx i) 0 (xs @ ys) 0 =
      seg ((unlink_pv pv nx i)(i := a)) ((unlink_nx pv nx i)(i := b)) 0 (xs @ ys) 0"
    using assms(2) by (intro seg_cong) auto
  ultimately show ?thesis by simp
qed

lemma hash_ok_unlink:
  assumes ha: "hash_ok c" and hs: "0 < c_hashsize c" and l: "live c i"
    and sz: "c_hashsize c' = c_hashsize c"
    and pv: "prevf c' = (unlink_pv (prevf c) (nextf c) i)(i := 0)"
    and nx: "nextf c' = (unlink_nx (prevf c) (nextf c) i)(i := 0)"
    and ht: "c_hashtable c' = (if prevf c i = 0
       then (c_hashtable c)[ci_hash (core c i) mod c_hashsize c := nextf c i] else c_hashtable c)"
    and lv: "\<And>j. live c' j \<longleftrightarrow> live c j \<and> j \<noteq> i"
    and co: "\<And>j. j \<noteq> i \<Longrightarrow> ci_hash (core c' j) = ci_hash (core c j)"
  shows "hash_ok c'"
  unfolding hash_ok_def sz
proof (intro allI impI)
  fix h assume h: "h < c_hashsize c"
  let ?hi = "ci_hash (core c i) mod c_hashsize c"
  obtain xs ys where b: "bucket_ok c ?hi (xs @ i # ys)" using chain_of [OF ha hs l] .
  then have sg: "seg (prevf c) (nextf c) 0 (xs @ i # ys) 0" "distinct (xs @ i # ys)"
    and hd: "c_hashtable c ! ?hi = hd0 0 (xs @ i # ys)"
    and st: "set (xs @ i # ys) = {j. live c j \<and> ci_hash (core c j) mod c_hashsize c = ?hi}"
    by (auto simp: bucket_ok_def)
  have at: "i \<noteq> 0" "prevf c i = last0 0 xs" "nextf c i = hd0 0 ys" using seg_at [OF sg(1)] by auto
  have live': "{j. live c' j \<and> ci_hash (core c' j) mod c_hashsize c' = h} =
      {j. live c j \<and> ci_hash (core c j) mod c_hashsize c = h} - {i}"
    using lv co sz by auto
  show "\<exists>zs. bucket_ok c' h zs"
  proof (cases "h = ?hi")
    case True
    have sxs: "seg (prevf c) (nextf c) 0 xs i" using sg(1) by (simp add: seg_append)
    have "c_hashtable c' ! h = hd0 0 (xs @ ys)"
      using True ht hd at h last0_zero [OF sxs] by (cases xs) auto
    then have "bucket_ok c' h (xs @ ys)"
      unfolding bucket_ok_def live' pv nx
      using seg_unlink_set [OF sg, of 0 0] sg(2) st True by auto
    then show ?thesis by blast
  next
    case False
    from ha h obtain zs where z: "bucket_ok c h zs" by (auto simp: hash_ok_def)
    have no: "x \<notin> set zs" if "x \<in> set (xs @ i # ys)" for x
      using chains_disjoint [OF b z] False that by blast
    have nz: "0 \<notin> set zs" using z bucket_member [OF z, of 0] by (auto simp: live_def)
    have "nextf c i \<notin> set zs" using no hd0_in [of ys 0] at(3) nz by (cases "ys = []") auto
    moreover have "prevf c i \<notin> set zs" using no last0_in [of xs 0] at(2) nz by (cases "xs = []") auto
    moreover have "i \<notin> set zs" using no by simp
    moreover have "seg (prevf c) (nextf c) 0 zs 0" using z by (simp add: bucket_ok_def)
    ultimately have sz': "seg (prevf c') (nextf c') 0 zs 0" unfolding pv nx by (intro seg_unlink_other)
    have set': "{j. live c' j \<and> ci_hash (core c' j) mod c_hashsize c' = h} =
        {j. live c j \<and> ci_hash (core c j) mod c_hashsize c = h}"
      using live' False by auto
    have "c_hashtable c' ! h = c_hashtable c ! h" using ht False by simp
    from bucket_ok_cong [OF z sz' this set'] show ?thesis by blast
  qed
qed

lemma lru_unlink:
  assumes "lru_links c (ys @ i # zs)" "lprevf c' = unlink_pv (lprevf c) (lnextf c) i"
    "lnextf c' = unlink_nx (lprevf c) (lnextf c) i"
    "c_lru_head c' = (if lprevf c i = 0 then lnextf c i else c_lru_head c)"
    "c_lru_tail c' = (if lnextf c i = 0 then lprevf c i else c_lru_tail c)"
  shows "lru_links c' (ys @ zs)"
proof -
  from assms(1) have sg: "seg (lprevf c) (lnextf c) 0 (ys @ i # zs) 0" "distinct (ys @ i # zs)"
    and hd: "c_lru_head c = hd0 0 (ys @ i # zs)" "c_lru_tail c = last0 0 (ys @ i # zs)"
    by (auto simp: lru_links_def)
  have at: "i \<noteq> 0" "lprevf c i = last0 0 ys" "lnextf c i = hd0 0 zs" using seg_at [OF sg(1)] by auto
  have s1: "seg (lprevf c) (lnextf c) 0 ys i" and s2: "seg (lprevf c) (lnextf c) i zs 0"
    using sg(1) by (auto simp: seg_append)
  have "c_lru_head c' = hd0 0 (ys @ zs)"
    using assms(4) hd at last0_zero [OF s1] by (cases ys) auto
  moreover have "c_lru_tail c' = last0 0 (ys @ zs)"
    using assms(5) hd at hd0_zero [OF s2] by (cases zs rule: rev_cases) auto
  ultimately show ?thesis
    using seg_unlink [OF sg] sg(2) assms(2,3) by (simp add: lru_links_def)
qed

lemma lru_add_effect:
  assumes "lru_links c xs" "\<forall>x\<in>set xs. x < length (c_items c)" "i < length (c_items c)" "0 < i" "i \<notin> set xs"
  obtains c' where "lru_add_item c i = Some c'" "same_but_lru_links c c'" "lru_links c' (xs @ [i])"
proof -
  have sg: "seg (lprevf c) (lnextf c) 0 xs 0" and hd: "c_lru_head c = hd0 0 xs" "c_lru_tail c = last0 0 xs"
    and d: "distinct xs" using assms(1) by (auto simp: lru_links_def)
  have nz: "last0 0 xs = 0 \<longleftrightarrow> xs = []" using last0_zero [OF sg] .
  let ?c1 = "if xs \<noteq> [] then upd c (last0 0 xs) (\<lambda>u. u\<lparr>ci_lru_next := i\<rparr>) else c\<lparr>c_lru_head := i\<rparr>"
  have l1: "last0 0 xs < length (c_items c)" if "xs \<noteq> []" using assms(2) that last0_in by blast
  have c1: "(if c_lru_tail c \<noteq> 0 then upd_item c (c_lru_tail c) (\<lambda>u. u\<lparr>ci_lru_next := i\<rparr>)
      else Some (c\<lparr>c_lru_head := i\<rparr>)) = Some ?c1"
    using nz hd l1 by (simp add: upd_item_ok)
  have v1: "lprevf ?c1 = lprevf c" "lnextf ?c1 = (if xs = [] then lnextf c else (lnextf c)(last xs := i))"
    "core ?c1 = core c" "prevf ?c1 = prevf c" "nextf ?c1 = nextf c"
    "length (c_items ?c1) = length (c_items c)" "c_lru_tail ?c1 = last0 0 xs"
    "c_lru_head ?c1 = hd0 i xs"
    using l1 hd views_items [of "c\<lparr>c_lru_head := i\<rparr>" c] by (auto simp: upd_views last0_def hd0_def split: list.splits)
  let ?f = "\<lambda>u. u\<lparr>ci_lru_next := 0, ci_lru_prev := c_lru_tail ?c1\<rparr>"
  have i1: "i < length (c_items ?c1)" using assms(3) v1(6) by simp
  let ?c2 = "upd ?c1 i ?f"
  have v2: "lprevf ?c2 = (lprevf c)(i := last0 0 xs)" "lnextf ?c2 = append_nx (lnextf c) xs i"
    "core ?c2 = core c" "prevf ?c2 = prevf c" "nextf ?c2 = nextf c"
    using views_upd [OF i1, of ?f] views_triv [of ?c1 i] v1 by (auto simp: append_nx_def)
  let ?c3 = "?c2\<lparr>c_lru_tail := i\<rparr>"
  have v3: "lprevf ?c3 = lprevf ?c2" "lnextf ?c3 = lnextf ?c2" "core ?c3 = core ?c2"
    "prevf ?c3 = prevf ?c2" "nextf ?c3 = nextf ?c2"
    using views_items [of ?c3 ?c2] by auto
  have "lru_add_item c i = Some ?c3"
    unfolding lru_add_item_def c1 bind.bind_lunit upd_item_ok [OF i1] ..
  moreover have "same_but_lru_links c ?c3"
    using v3 v2 v1(6) by (simp add: same_but_lru_links_def upd_def)
  moreover have "c_lru_head ?c3 = hd0 0 (xs @ [i])" using v1(8) by (simp add: upd_def)
  then have "lru_links ?c3 (xs @ [i])"
    unfolding lru_links_def v3 v2
    using seg_append_item [OF sg d assms(5)] assms(4,5) d by simp
  ultimately show ?thesis using that by blast
qed

lemma del_item_inv:
  assumes inv: "cache_inv c" and l: "live c i"
  obtains c' where "del_item c i now = Some c'" "cache_inv c'" "same_config c c'"
    "\<forall>j. live c' j \<longleftrightarrow> live c j \<and> j \<noteq> i" "\<forall>j. j \<noteq> i \<longrightarrow> core c' j = core c j" "c_data c' = c_data c"
    "c_sp c' = c_sp c + 1"
    "\<forall>ys zs. c_purge_lru c \<and> lru_list c (ys @ i # zs) \<longrightarrow> lru_list c' (ys @ zs)"
proof -
  obtain c' where d: "del_item c i now = Some c'" and cf: "same_config c c'"
    and pv: "prevf c' = (unlink_pv (prevf c) (nextf c) i)(i := 0)"
    and nx: "nextf c' = (unlink_nx (prevf c) (nextf c) i)(i := 0)"
    and co: "core c' = (core c)(i := wiped (core c i))"
    and ht: "c_hashtable c' = (if prevf c i = 0
       then (c_hashtable c)[ci_hash (core c i) mod c_hashsize c := nextf c i] else c_hashtable c)"
    and sp: "c_sp c' = c_sp c + 1" and stk: "c_stack c' = (c_stack c)[c_sp c + 1 := i]"
    and ni: "c_n_items c' = c_n_items c - 1" and dt: "c_data c' = c_data c"
    and bp: "c_bitmap_pos c' = c_bitmap_pos c"
    and bn: "(c_bitmap c = None) = (c_bitmap c' = None)"
    and bs: "\<forall>b1 b2. c_bitmap c = Some b1 \<and> c_bitmap c' = Some b2 \<longrightarrow> length b2 = length b1 \<and>
       (\<forall>b<8 * length b1. used b2 b \<longleftrightarrow> used b1 b \<and> b \<notin> iblocks c i)"
    and lr: "c_purge_lru c \<longrightarrow> lprevf c' = unlink_pv (lprevf c) (lnextf c) i \<and> lnextf c' = unlink_nx (lprevf c) (lnextf c) i \<and>
       c_lru_head c' = (if lprevf c i = 0 then lnextf c i else c_lru_head c) \<and>
       c_lru_tail c' = (if lnextf c i = 0 then lprevf c i else c_lru_tail c)"
    by (rule del_item_effect [OF inv l, of now])
  have sh: "shape_ok c" and ha: "hash_ok c" and st: "stack_ok c" and lru: "lru_ok c" and bl: "blocks_ok c"
    and ke: "keys_ok c" using inv by (auto simp: cache_inv_def)
  have cfg: "c_max_items c' = c_max_items c" "c_hashsize c' = c_hashsize c" "c_blocksize c' = c_blocksize c"
    "c_blocks c' = c_blocks c" "c_purge_lru c' = c_purge_lru c" "c_hash c' = c_hash c"
    "c_keysize c' = c_keysize c" "c_max_item_size c' = c_max_item_size c"
    using cf by (auto simp: same_config_def)
  have lv: "live c' j \<longleftrightarrow> live c j \<and> j \<noteq> i" for j
    using cfg co by (auto simp: live_def)
  have co': "core c' j = core c j" if "j \<noteq> i" for j using co that by simp
  have ky: "ikey c' j = ikey c j" "iblocks c' j = iblocks c j" if "j \<noteq> i" for j
    using co' [OF that] cfg by (auto simp: ikey_def iblocks_def)
  have "shape_ok c'" using sh cf co by (auto simp: shape_ok_def same_config_def)
  moreover have "hash_ok c'"
    using sh co' unfolding shape_ok_def by (intro hash_ok_unlink [OF ha _ l cfg(2) pv nx ht lv]) auto
  moreover have "keys_ok c'" using ke lv ky co' cfg by (auto simp: keys_ok_def)
  moreover have "stack_ok c'"
  proof -
    have room: "c_sp c + 1 < length (c_stack c)" using stack_room [OF sh st l] .
    have "take (c_sp c + 1) (drop 1 (c_stack c')) = take (c_sp c) (drop 1 (c_stack c)) @ [i]"
      using room stk by (simp add: take_Suc_conv_app_nth drop_update_swap)
    moreover have "i \<notin> set (take (c_sp c) (drop 1 (c_stack c)))"
      using st l by (simp add: stack_ok_def)
    moreover have "{j. live c' j} = {j. live c j} - {i}" using lv by auto
    moreover have "i < c_max_items c" "0 < i" using l by (auto simp: live_def)
    ultimately show ?thesis
      using st room sp ni lv cfg l sh by (auto simp: stack_ok_def shape_ok_def)
  qed
  moreover have lrl: "lru_list c' (ys @ zs)" if "c_purge_lru c" "lru_list c (ys @ i # zs)" for ys zs
  proof -
    have l1: "lru_links c (ys @ i # zs)" and s1: "set (ys @ i # zs) = {j. live c j}" "distinct (ys @ i # zs)"
      using that(2) by (auto simp: lru_list_def lru_links_def)
    have "lru_links c' (ys @ zs)" using lr that(1) by (intro lru_unlink [OF l1]) auto
    moreover have "set (ys @ zs) = set (ys @ i # zs) - {i}" using s1(2) by auto
    ultimately show ?thesis using s1 lv by (auto simp: lru_list_def)
  qed
  moreover have "lru_ok c'"
  proof -
    have "\<exists>xs. lru_list c' xs" if p: "c_purge_lru c"
    proof -
      obtain xs where xs: "lru_list c xs" using lru p by (auto simp: lru_ok_def)
      obtain ys zs where "xs = ys @ i # zs" by (rule lru_in_range [OF sh xs l])
      with xs p lrl show ?thesis by blast
    qed
    then show ?thesis using cfg by (simp add: lru_ok_def)
  qed
  moreover have "blocks_ok c'"
  proof -
    have ib: "iblocks c i \<inter> iblocks c j = {}" if "live c j" "j \<noteq> i" for j
      using bl l that by (auto simp: blocks_ok_def)
    show ?thesis
    proof (cases "c_bitmap c")
      case None
      then have "c_bitmap c' = None" using bn by simp
      then show ?thesis using None bl lv ky co' cfg by (auto simp: blocks_ok_def)
    next
      case (Some b1)
      then obtain b2 where b2: "c_bitmap c' = Some b2" using bn by auto
      from bs Some b2 have u: "length b2 = length b1"
        "\<And>b. b < 8 * length b1 \<Longrightarrow> used b2 b \<longleftrightarrow> used b1 b \<and> b \<notin> iblocks c i" by auto
      have inb: "iblocks c i \<subseteq> {..<c_blocks c}" using bl l by (auto simp: blocks_ok_def)
      have "used b2 b \<longleftrightarrow> c_blocks c \<le> b \<or> (\<exists>j. live c' j \<and> b \<in> iblocks c' j)" if "b < 8 * length b1" for b
      proof -
        have "used b1 b \<longleftrightarrow> c_blocks c \<le> b \<or> (\<exists>j. live c j \<and> b \<in> iblocks c j)"
          using bl Some that by (simp add: blocks_ok_def)
        moreover have "b \<in> iblocks c i \<Longrightarrow> b < c_blocks c" using inb by auto
        ultimately show ?thesis using u(2) [OF that] lv ky ib by (metis IntI emptyE not_le)
      qed
      then show ?thesis using Some b2 u bl lv ky co' cfg bp by (auto simp: blocks_ok_def)
    qed
  qed
  ultimately show ?thesis using that d cf lv co' dt sp unfolding cache_inv_def by blast
qed

section \<open>Looking up\<close>

lemma ikey_length:
  assumes "shape_ok c" "keys_ok c" "live c i"
  shows "length (ikey c i) = ci_keysize (core c i)"
  using assms by (auto simp: ikey_def shape_ok_def keys_ok_def live_def)

lemma item_matches_live:
  assumes "shape_ok c" "keys_ok c" "live c i"
  shows "item_matches (c_items c ! i) (unat (c_hash c key)) key \<longleftrightarrow> ikey c i = key"
proof -
  have "ci_hash (core c i) = unat (c_hash c (ikey c i))" using assms by (simp add: keys_ok_def)
  then show ?thesis
    using ikey_length [OF assms] by (auto simp: item_matches_def core_fields ikey_def)
qed

lemma chain_loop_find:
  assumes "shape_ok c" "keys_ok c"
  shows "seg (prevf c) (nextf c) p xs 0 \<Longrightarrow> \<forall>x\<in>set xs. live c x \<Longrightarrow> length xs \<le> rounds \<Longrightarrow>
     chain_loop rounds c (unat (c_hash c key)) key (hd0 0 xs) now =
       (case find (\<lambda>x. ikey c x = key) xs of None \<Rightarrow> Some (0, c) | Some i \<Rightarrow> check_lazy c i now)"
proof (induction xs arbitrary: p rounds)
  case (Cons x xs)
  then obtain r where r: "rounds = Suc r" by (cases rounds) auto
  have x: "x \<noteq> 0" "x < length (c_items c)" "ci_next (c_items c ! x) = hd0 0 xs"
    using Cons.prems live_lt [OF assms(1)] by (auto simp: nextf_def)
  have "chain_loop r c (unat (c_hash c key)) key (hd0 0 xs) now =
      (case find (\<lambda>x. ikey c x = key) xs of None \<Rightarrow> Some (0, c) | Some i \<Rightarrow> check_lazy c i now)"
    using Cons.prems r by (intro Cons.IH [of x]) auto
  then show ?case
    using x r item_matches_live [OF assms, of x key] Cons.prems(2)
    by (subst chain_loop.simps) (simp add: get_item_ok)
qed (subst chain_loop.simps, simp)

lemma bucket_find:
  assumes "keys_ok c" "bucket_ok c (unat (c_hash c key) mod c_hashsize c) xs"
  shows "find (\<lambda>x. ikey c x = key) xs = index_of c key"
proof (cases "index_of c key")
  case None
  then have "\<forall>i. live c i \<longrightarrow> ikey c i \<noteq> key" using index_of_None [OF assms(1)] by simp
  then have "\<forall>x\<in>set xs. ikey c x \<noteq> key" using bucket_member [OF assms(2)] by blast
  then show ?thesis using None by (simp add: find_None_iff)
next
  case (Some i)
  then have i: "live c i" "ikey c i = key" using index_of_Some [OF assms(1)] by auto
  then have "i \<in> set xs" using assms by (auto simp: bucket_ok_def keys_ok_def)
  then have "find (\<lambda>x. ikey c x = key) xs \<noteq> None" using i(2) by (auto simp: find_None_iff)
  then obtain j where j: "find (\<lambda>x. ikey c x = key) xs = Some j" by blast
  then have "live c j" "ikey c j = key"
    using bucket_member [OF assms(2)] by (auto simp: find_Some_iff)
  then have "j = i" using i assms(1) unfolding keys_ok_def by metis
  with j Some show ?thesis by simp
qed

lemma get_index_spec:
  assumes inv: "cache_inv c"
  shows "uwsgi_cache_get_index c key now =
    (case index_of c key of None \<Rightarrow> Some (0, c) | Some i \<Rightarrow> check_lazy c i now)"
proof -
  have sh: "shape_ok c" and ha: "hash_ok c" and ke: "keys_ok c" using inv by (auto simp: cache_inv_def)
  let ?hash = "unat (c_hash c key)"
  let ?h = "?hash mod c_hashsize c"
  have hs: "0 < c_hashsize c" using sh unfolding shape_ok_def by blast
  then have "?h < c_hashsize c" by (rule mod_less_divisor)
  then obtain xs where b: "bucket_ok c ?h xs" using ha unfolding hash_ok_def by blast
  have fd: "find (\<lambda>x. ikey c x = key) xs = index_of c key" by (rule bucket_find [OF ke b])
  have sg: "seg (prevf c) (nextf c) 0 xs 0" and hd: "c_hashtable c ! ?h = hd0 0 xs"
    and lv: "\<forall>x\<in>set xs. live c x" and d: "distinct xs"
    and hm: "\<forall>x\<in>set xs. ci_hash (core c x) mod c_hashsize c = ?h"
    using b by (auto simp: bucket_ok_def)
  have "set xs \<subseteq> {1..<c_max_items c}" using lv by (auto simp: live_def Suc_le_eq)
  then have "card (set xs) \<le> c_max_items c - 1" using card_mono [of "{1..<c_max_items c}"] by fastforce
  then have len: "length xs \<le> c_max_items c - 1" using d by (simp add: distinct_card)
  show ?thesis
  proof (cases xs)
    case Nil
    then show ?thesis using hs hd fd by (simp add: uwsgi_cache_get_index_def Let_def)
  next
    case (Cons x ys)
    have x: "x \<noteq> 0" "x < length (c_items c)" "ci_next (c_items c ! x) = hd0 0 ys" "live c x"
      "ci_hash (c_items c ! x) mod c_hashsize c = ?h"
      using Cons sg lv hm live_lt [OF sh] by (auto simp: nextf_def core_fields)
    have "chain_loop (c_max_items c) c ?hash key (hd0 0 ys) now =
        (case find (\<lambda>x. ikey c x = key) ys of None \<Rightarrow> Some (0, c) | Some i \<Rightarrow> check_lazy c i now)"
      using sg lv len Cons by (intro chain_loop_find [OF sh ke, of x]) auto
    moreover have ix: "index_of c key = (if ikey c x = key then Some x else find (\<lambda>x. ikey c x = key) ys)"
      using fd Cons by simp
    ultimately show ?thesis
      unfolding ix using hs hd Cons x item_matches_live [OF sh ke x(4), of key]
      by (simp add: uwsgi_cache_get_index_def Let_def get_item_ok)
  qed
qed

text \<open>An item is stale when lazy expiration is on and its time has come.\<close>

definition stale :: "cache \<Rightarrow> nat \<Rightarrow> nat \<Rightarrow> bool" where
  "stale c now i \<longleftrightarrow> c_lazy_expire c \<and> ci_expires (core c i) \<noteq> 0 \<and> ci_expires (core c i) \<le> now"

lemma check_lazy_spec:
  assumes "shape_ok c" "live c i"
  shows "check_lazy c i now = (if stale c now i then map_option (Pair 0) (del_item c i now) else Some (i, c))"
  using live_lt [OF assms]
  by (auto simp: check_lazy_def get_item_ok stale_def core_fields map_option_case split: option.splits bind_splits)

section \<open>The map of the cache\<close>

lemma cmap_delete:
  assumes "cache_inv c" "cache_inv c'" "same_config c c'" "live c i" "c_data c' = c_data c"
    and lv: "\<And>j. live c' j \<longleftrightarrow> live c j \<and> j \<noteq> i" and co: "\<And>j. j \<noteq> i \<Longrightarrow> core c' j = core c j"
  shows "cmap c' = (cmap c)(ikey c i := None)"
proof
  fix k
  have ke: "keys_ok c" "keys_ok c'" using assms(1,2) by (auto simp: cache_inv_def)
  have same: "ikey c' j = ikey c j" "entry c' j = entry c j" if "j \<noteq> i" for j
    using co [OF that] assms(3,5) by (auto simp: ikey_def entry_def ivalue_def same_config_def)
  show "cmap c' k = ((cmap c)(ikey c i := None)) k"
  proof (cases "k = ikey c i")
    case True
    have "index_of c' k = None"
      using index_of_None [OF ke(2)] lv same True ke(1) assms(4) unfolding keys_ok_def by metis
    then show ?thesis using True by (simp add: cmap_def)
  next
    case False
    have "index_of c' k = index_of c k"
    proof (cases "index_of c k")
      case None
      then show ?thesis using index_of_None ke lv same by metis
    next
      case (Some j)
      then have "live c j" "ikey c j = k" using index_of_Some [OF ke(1)] by auto
      then have "live c' j" "ikey c' j = k" using lv same False by auto
      then show ?thesis using Some index_of_Some [OF ke(2)] by simp
    qed
    moreover have "entry c' j = entry c j" if "index_of c k = Some j" for j
    proof -
      have "ikey c j = k" using that index_of_Some [OF ke(1)] by simp
      with False have "j \<noteq> i" by auto
      then show ?thesis by (rule same(2))
    qed
    ultimately have "map_option (entry c') (index_of c' k) = map_option (entry c) (index_of c k)"
      by (cases "index_of c k") simp_all
    then show ?thesis using False by (simp add: cmap_def)
  qed
qed

section \<open>Changes the invariant does not see\<close>

text \<open>Equal but for hit counters, expirations, flags and the least-recently-used list.\<close>

definition same_layout :: "cache \<Rightarrow> cache \<Rightarrow> bool" where
  "same_layout c c' \<longleftrightarrow> same_config c c' \<and> c_hashtable c' = c_hashtable c \<and> c_stack c' = c_stack c \<and>
     c_sp c' = c_sp c \<and> c_bitmap c' = c_bitmap c \<and> c_bitmap_pos c' = c_bitmap_pos c \<and>
     c_n_items c' = c_n_items c \<and> c_data c' = c_data c \<and> prevf c' = prevf c \<and> nextf c' = nextf c \<and>
     (\<forall>i. (core c' i)\<lparr>ci_hits := 0, ci_expires := 0, ci_flags := 0\<rparr> =
          (core c i)\<lparr>ci_hits := 0, ci_expires := 0, ci_flags := 0\<rparr>)"

lemma same_layout_core:
  assumes "same_layout c c'"
  shows "ci_keysize (core c' i) = ci_keysize (core c i)" "ci_hash (core c' i) = ci_hash (core c i)"
    "ci_valsize (core c' i) = ci_valsize (core c i)" "ci_first_block (core c' i) = ci_first_block (core c i)"
    "ci_key (core c' i) = ci_key (core c i)"
proof -
  have e: "(core c' i)\<lparr>ci_hits := 0, ci_expires := 0, ci_flags := 0\<rparr> =
      (core c i)\<lparr>ci_hits := 0, ci_expires := 0, ci_flags := 0\<rparr>"
    using assms by (simp add: same_layout_def)
  show "ci_keysize (core c' i) = ci_keysize (core c i)" using arg_cong [OF e, of ci_keysize] by simp
  show "ci_hash (core c' i) = ci_hash (core c i)" using arg_cong [OF e, of ci_hash] by simp
  show "ci_valsize (core c' i) = ci_valsize (core c i)" using arg_cong [OF e, of ci_valsize] by simp
  show "ci_first_block (core c' i) = ci_first_block (core c i)" using arg_cong [OF e, of ci_first_block] by simp
  show "ci_key (core c' i) = ci_key (core c i)" using arg_cong [OF e, of ci_key] by simp
qed

lemma same_layout_views:
  assumes "same_layout c c'"
  shows "live c' = live c" "ikey c' = ikey c" "iblocks c' = iblocks c" "ivalue c' = ivalue c"
    "index_of c' = index_of c"
proof -
  have cf: "c_max_items c' = c_max_items c" "c_blocksize c' = c_blocksize c" "c_data c' = c_data c"
    using assms by (auto simp: same_layout_def same_config_def)
  show l: "live c' = live c" by (simp add: fun_eq_iff live_def same_layout_core [OF assms] cf)
  show k: "ikey c' = ikey c" by (simp add: fun_eq_iff ikey_def same_layout_core [OF assms])
  show "iblocks c' = iblocks c" by (simp add: fun_eq_iff iblocks_def same_layout_core [OF assms] cf)
  show "ivalue c' = ivalue c" by (simp add: fun_eq_iff ivalue_def same_layout_core [OF assms] cf)
  show "index_of c' = index_of c" by (simp add: fun_eq_iff index_of_def l k cf)
qed

lemma same_layout_inv:
  assumes "same_layout c c'" "cache_inv c" "lru_ok c'"
  shows "cache_inv c'"
proof -
  note v = same_layout_views [OF assms(1)] same_layout_core [OF assms(1)]
  have f: "same_config c c'" "c_hashtable c' = c_hashtable c" "c_stack c' = c_stack c" "c_sp c' = c_sp c"
    "c_bitmap c' = c_bitmap c" "c_bitmap_pos c' = c_bitmap_pos c" "c_n_items c' = c_n_items c"
    "c_data c' = c_data c" "prevf c' = prevf c" "nextf c' = nextf c"
    using assms(1) by (simp_all add: same_layout_def)
  have cf: "c_keysize c' = c_keysize c" "c_blocks c' = c_blocks c" "c_blocksize c' = c_blocksize c"
    "c_hash c' = c_hash c" "c_max_items c' = c_max_items c" "c_max_item_size c' = c_max_item_size c"
    "length (c_items c') = length (c_items c)"
    using f(1) by (simp_all add: same_config_def)
  have i: "shape_ok c" "hash_ok c" "keys_ok c" "stack_ok c" "blocks_ok c"
    using assms(2) by (auto simp: cache_inv_def)
  have "shape_ok c'" using i(1) unfolding shape_ok_def f cf v .
  moreover have "hash_ok c'" using i(2) unfolding hash_ok_def bucket_ok_def f v .
  moreover have "keys_ok c'" using i(3) unfolding keys_ok_def f cf v .
  moreover have "stack_ok c'" using i(4) unfolding stack_ok_def f cf v .
  moreover have "blocks_ok c'" using i(5) unfolding blocks_ok_def f cf v .
  ultimately show ?thesis using assms(3) by (simp add: cache_inv_def)
qed

lemma same_layout_refl [simp]: "same_layout c c"
  by (simp add: same_layout_def)

lemma same_layout_trans: "same_layout a b \<Longrightarrow> same_layout b c \<Longrightarrow> same_layout a c"
  by (simp add: same_layout_def same_config_def)

lemma same_but_lru_fields:
  assumes "same_but_lru_links c c'"
  shows "same_layout c c'" "core c' = core c" "c_hits c' = c_hits c" "c_miss c' = c_miss c"
    "c_math_initial c' = c_math_initial c" "c_use_last_modified c' = c_use_last_modified c"
    "c_next_scan c' = c_next_scan c"
proof -
  have e: "c' = c\<lparr>c_items := c_items c', c_lru_head := c_lru_head c', c_lru_tail := c_lru_tail c'\<rparr>"
    and l: "length (c_items c') = length (c_items c)" "core c' = core c" "prevf c' = prevf c" "nextf c' = nextf c"
    using assms by (auto simp: same_but_lru_links_def)
  show "core c' = core c" by (rule l)
  show "c_hits c' = c_hits c" "c_miss c' = c_miss c" "c_math_initial c' = c_math_initial c"
    "c_use_last_modified c' = c_use_last_modified c" "c_next_scan c' = c_next_scan c"
    by (subst e, simp)+
  have "same_config c c'" using l(1) by (subst e) (simp add: same_config_def)
  moreover have "c_hashtable c' = c_hashtable c" "c_stack c' = c_stack c" "c_sp c' = c_sp c"
    "c_bitmap c' = c_bitmap c" "c_bitmap_pos c' = c_bitmap_pos c" "c_n_items c' = c_n_items c"
    "c_data c' = c_data c"
    by (subst e, simp)+
  ultimately show "same_layout c c'" using l by (simp add: same_layout_def)
qed

text \<open>Refreshing moves the item to the end of the list.\<close>

lemma lru_refresh_ok:
  assumes inv: "cache_inv c" and l: "live c i"
  obtains c' where "lru_refresh c i = Some c'" "cache_inv c'" "same_layout c c'" "core c' = core c"
    "\<forall>ys zs. c_purge_lru c \<and> lru_list c (ys @ i # zs) \<longrightarrow> lru_list c' (ys @ zs @ [i])"
    "c_hits c' = c_hits c"
proof (cases "c_purge_lru c")
  case False
  then show ?thesis using that [of c] inv by (simp add: lru_refresh_def)
next
  case True
  have sh: "shape_ok c" using inv by (simp add: cache_inv_def)
  have il: "i < length (c_items c)" using live_lt [OF sh l] .
  obtain xs where xs: "lru_list c xs" using inv True by (auto simp: cache_inv_def lru_ok_def)
  obtain ys zs where s: "xs = ys @ i # zs" "lprevf c i < length (c_items c)" "lnextf c i < length (c_items c)"
    by (rule lru_in_range [OF sh xs l])
  obtain c1 where c1: "lru_remove_item c i = Some c1" "same_but_lru_links c c1"
    "lprevf c1 = unlink_pv (lprevf c) (lnextf c) i" "lnextf c1 = unlink_nx (lprevf c) (lnextf c) i"
    "c_lru_head c1 = (if lprevf c i = 0 then lnextf c i else c_lru_head c)"
    "c_lru_tail c1 = (if lnextf c i = 0 then lprevf c i else c_lru_tail c)"
    by (rule lru_remove_effect [OF il s(2,3)])
  have lk: "lru_links c (ys @ i # zs)" "set (ys @ i # zs) = {j. live c j}" "distinct (ys @ i # zs)"
    using xs s(1) by (auto simp: lru_list_def lru_links_def)
  have l1: "lru_links c1 (ys @ zs)" by (rule lru_unlink [OF lk(1) c1(3-6)])
  have len: "length (c_items c1) = length (c_items c)" using c1(2) by (simp add: same_but_lru_links_def)
  have m: "\<forall>x\<in>set (ys @ zs). x < length (c_items c1)"
    using lk(2) live_lt [OF sh] len by auto
  have i1: "i < length (c_items c1)" "0 < i" "i \<notin> set (ys @ zs)" using il len l lk(3) by (auto simp: live_def)
  obtain c2 where c2: "lru_add_item c1 i = Some c2" "same_but_lru_links c1 c2" "lru_links c2 ((ys @ zs) @ [i])"
    by (rule lru_add_effect [OF l1 m i1])
  note b1 = same_but_lru_fields [OF c1(2)] and b2 = same_but_lru_fields [OF c2(2)]
  have sl: "same_layout c c2" using b1(1) b2(1) by (rule same_layout_trans)
  have "set (ys @ zs @ [i]) = {j. live c2 j}" using lk(2) same_layout_views(1) [OF sl] by auto
  then have ll: "lru_list c2 (ys @ zs @ [i])" using c2(3) by (simp add: lru_list_def)
  then have "lru_ok c2" by (auto simp: lru_ok_def)
  then have "cache_inv c2" using same_layout_inv [OF sl inv] by blast
  moreover have "lru_list c2 (ys' @ zs' @ [i])" if "lru_list c (ys' @ i # zs')" for ys' zs'
  proof -
    have "hd0 0 (ys' @ i # zs') = hd0 0 (ys @ i # zs)"
      using that lk(1) by (simp add: lru_list_def lru_links_def)
    moreover have "seg (lprevf c) (lnextf c) 0 (ys' @ i # zs') 0" "seg (lprevf c) (lnextf c) 0 (ys @ i # zs) 0"
      using that lk(1) by (auto simp: lru_list_def lru_links_def)
    ultimately have "ys' @ i # zs' = ys @ i # zs" by (rule seg_unique)
    moreover have "distinct (ys' @ i # zs')" using that by (auto simp: lru_list_def lru_links_def)
    ultimately have "ys' = ys" "zs' = zs" using lk(3) by (auto simp: append_eq_append_conv2 append_eq_Cons_conv Cons_eq_append_conv)
    then show ?thesis using ll by simp
  qed
  ultimately show ?thesis
    using that [of c2] c1(1) c2(1) True sl b1(2) b2(2) b1(3) b2(3) by (simp add: lru_refresh_def)
qed

lemma same_layout_cmap:
  assumes "same_layout c c'" "\<forall>i. ci_expires (core c' i) = ci_expires (core c i) \<and> ci_flags (core c' i) = ci_flags (core c i)"
  shows "cmap c' = cmap c"
proof -
  have e: "entry c' = entry c"
    using same_layout_views(4) [OF assms(1)] assms(2) by (simp add: fun_eq_iff entry_def)
  show ?thesis by (rule ext) (simp only: cmap_def e same_layout_views(5) [OF assms(1)])
qed

lemma miss_ok:
  assumes "cache_inv c"
  shows "cache_inv (c\<lparr>c_miss := m\<rparr>)" "cmap (c\<lparr>c_miss := m\<rparr>) = cmap c"
proof -
  let ?c = "c\<lparr>c_miss := m\<rparr>"
  have v: "prevf ?c = prevf c" "nextf ?c = nextf c" "core ?c = core c" "lprevf ?c = lprevf c" "lnextf ?c = lnextf c"
    using views_items [of ?c c] by auto
  have sl: "same_layout c ?c" using v by (simp add: same_layout_def same_config_def)
  have "lru_ok ?c"
    using assms same_layout_views(1) [OF sl] v by (simp add: cache_inv_def lru_ok_def lru_list_def lru_links_def)
  then show "cache_inv ?c" using same_layout_inv [OF sl assms] by blast
  show "cmap ?c = cmap c" using v(3) by (intro same_layout_cmap [OF sl]) simp
qed

lemma sent_ok:
  assumes "cache_inv c"
  shows "cache_inv (c\<lparr>c_sent := m\<rparr>)" "cmap (c\<lparr>c_sent := m\<rparr>) = cmap c"
proof -
  let ?c = "c\<lparr>c_sent := m\<rparr>"
  have v: "prevf ?c = prevf c" "nextf ?c = nextf c" "core ?c = core c" "lprevf ?c = lprevf c" "lnextf ?c = lnextf c"
    using views_items [of ?c c] by auto
  have sl: "same_layout c ?c" using v by (simp add: same_layout_def same_config_def)
  have "lru_ok ?c"
    using assms same_layout_views(1) [OF sl] v by (simp add: cache_inv_def lru_ok_def lru_list_def lru_links_def)
  then show "cache_inv ?c" using same_layout_inv [OF sl assms] by blast
  show "cmap ?c = cmap c" using v(3) by (intro same_layout_cmap [OF sl]) simp
qed

lemma touch_item_ok:
  assumes inv: "cache_inv c" and l: "live c i"
  obtains c' where "touch_item c i = Some c'" "cache_inv c'" "same_layout c c'" "cmap c' = cmap c"
    "\<forall>xs. lru_list c xs \<longrightarrow> lru_list c' xs" "c_hits c' = sz_add (c_hits c) 1"
proof -
  have sh: "shape_ok c" using inv by (simp add: cache_inv_def)
  have il: "i < length (c_items c)" using live_lt [OF sh l] .
  let ?f = "\<lambda>u. u\<lparr>ci_hits := sz_add (ci_hits u) 1\<rparr>"
  let ?c1 = "upd c i ?f"
  let ?c2 = "?c1\<lparr>c_hits := sz_add (c_hits ?c1) 1\<rparr>"
  have v1: "prevf ?c1 = prevf c" "nextf ?c1 = nextf c" "lprevf ?c1 = lprevf c" "lnextf ?c1 = lnextf c"
    using views_upd [OF il, of ?f] by (simp_all add: views_triv)
  have co1: "(core ?c1 j)\<lparr>ci_hits := 0\<rparr> = (core c j)\<lparr>ci_hits := 0\<rparr>" for j
    using il by (auto simp: core_def upd_def nth_list_update)
  have v2: "prevf ?c2 = prevf c" "nextf ?c2 = nextf c" "lprevf ?c2 = lprevf c" "lnextf ?c2 = lnextf c"
    "core ?c2 = core ?c1" using views_items [of ?c2 ?c1] v1 by auto
  have co: "(core ?c2 j)\<lparr>ci_hits := 0, ci_expires := 0, ci_flags := 0\<rparr> =
      (core c j)\<lparr>ci_hits := 0, ci_expires := 0, ci_flags := 0\<rparr>"
    "ci_expires (core ?c2 j) = ci_expires (core c j)" "ci_flags (core ?c2 j) = ci_flags (core c j)" for j
  proof -
    show "(core ?c2 j)\<lparr>ci_hits := 0, ci_expires := 0, ci_flags := 0\<rparr> =
      (core c j)\<lparr>ci_hits := 0, ci_expires := 0, ci_flags := 0\<rparr>"
      using arg_cong [OF co1 [of j], of "\<lambda>u. u\<lparr>ci_expires := 0, ci_flags := 0\<rparr>"] v2(5) by simp
    show "ci_expires (core ?c2 j) = ci_expires (core c j)" "ci_flags (core ?c2 j) = ci_flags (core c j)"
      using arg_cong [OF co1 [of j], of ci_expires] arg_cong [OF co1 [of j], of ci_flags] v2(5) by simp_all
  qed
  have sl: "same_layout c ?c2"
    using v2(1,2) co(1) by (simp add: same_layout_def same_config_def)
  have lh: "c_lru_head ?c2 = c_lru_head c" "c_lru_tail ?c2 = c_lru_tail c" by simp_all
  have ll: "lru_list c xs \<Longrightarrow> lru_list ?c2 xs" for xs
    unfolding lru_list_def lru_links_def v2 lh same_layout_views(1) [OF sl] .
  then have "lru_ok ?c2" using inv by (auto simp: cache_inv_def lru_ok_def)
  then have "cache_inv ?c2" using same_layout_inv [OF sl inv] by blast
  moreover have "cmap ?c2 = cmap c" using co by (intro same_layout_cmap [OF sl]) simp
  moreover have "touch_item c i = Some ?c2" by (simp add: touch_item_def upd_item_ok [OF il])
  moreover have "c_hits ?c2 = sz_add (c_hits c) 1" by (simp add: upd_def)
  ultimately show ?thesis using that sl ll by blast
qed

lemma value_in_data:
  assumes "cache_inv c" "live c i"
  shows "ci_first_block (core c i) * c_blocksize c + ci_valsize (core c i) \<le> length (c_data c)"
proof -
  have bs: "0 < c_blocksize c" "length (c_data c) = c_blocksize c * c_blocks c"
    and v: "0 < ci_valsize (core c i)" "iblocks c i \<subseteq> {..<c_blocks c}"
    using assms by (auto simp: cache_inv_def shape_ok_def blocks_ok_def)
  let ?n = "blocks_needed (c_blocksize c) (ci_valsize (core c i))"
  have "ci_first_block (core c i) + ?n \<le> c_blocks c" by (rule iblocks_bound [OF bs(1) v])
  then have "(ci_first_block (core c i) + ?n) * c_blocksize c \<le> c_blocks c * c_blocksize c"
    by (rule mult_right_mono) simp
  then have "ci_first_block (core c i) * c_blocksize c + ?n * c_blocksize c \<le> c_blocksize c * c_blocks c"
    by (simp only: add_mult_distrib mult.commute [of "c_blocks c"])
  moreover have "ci_valsize (core c i) \<le> ?n * c_blocksize c" by (rule blocks_needed_bound [OF bs(1)])
  ultimately show ?thesis unfolding bs(2) by linarith
qed

section \<open>Linking a new item\<close>

lemma chain_last_seg:
  "seg (prevf c) (nextf c) p xs 0 \<Longrightarrow> xs \<noteq> [] \<Longrightarrow> \<forall>x\<in>set xs. x < length (c_items c) \<Longrightarrow>
     length xs \<le> fuel \<Longrightarrow> chain_last fuel c (hd0 0 xs) = Some (last xs)"
proof (induction xs arbitrary: p fuel)
  case (Cons x xs)
  then obtain f where f: "fuel = Suc f" by (cases fuel) auto
  have x: "x < length (c_items c)" "ci_next (c_items c ! x) = hd0 0 xs"
    using Cons.prems by (auto simp: nextf_def)
  show ?case
  proof (cases xs)
    case Nil
    then show ?thesis using f x by (simp add: get_item_ok)
  next
    case (Cons y ys)
    have "chain_last f c (hd0 0 xs) = Some (last xs)"
      using Cons.IH [of x f] Cons.prems Cons f by simp
    moreover have "hd0 0 xs \<noteq> 0" using Cons.prems(1) Cons by simp
    ultimately show ?thesis using f x Cons by (simp add: get_item_ok)
  qed
qed simp

lemma link_item_effect:
  assumes "i < length (c_items c)" "h = ci_hash (core c i) mod c_hashsize c" "0 < c_hashsize c"
    and sg: "seg (prevf c) (nextf c) 0 xs 0" and hd: "c_hashtable c ! h = hd0 0 xs" and d: "distinct xs"
    and i: "i \<notin> set xs" and rg: "\<forall>x\<in>set xs. x < length (c_items c)" and len: "length xs \<le> c_max_items c"
  obtains c' where "link_item c i = Some c'" "same_but_hash_links c c'"
    "prevf c' = (prevf c)(i := last0 0 xs)" "nextf c' = append_nx (nextf c) xs i"
    "c_hashtable c' = (if xs = [] then (c_hashtable c)[h := i] else c_hashtable c)"
proof -
  let ?f = "\<lambda>u. u\<lparr>ci_prev := 0, ci_next := 0\<rparr>"
  let ?c1 = "upd c i ?f"
  have v1: "prevf ?c1 = (prevf c)(i := 0)" "nextf ?c1 = (nextf c)(i := 0)" "core ?c1 = core c"
    "lprevf ?c1 = lprevf c" "lnextf ?c1 = lnextf c"
    using views_upd [OF assms(1), of ?f] views_triv [of c i] by (simp_all add: core_def)
  have h: "h < c_hashsize c" unfolding assms(2) using assms(3) by (rule mod_less_divisor)
  have hs: "ci_hash (c_items ?c1 ! i) mod c_hashsize ?c1 = h"
    using v1(3) assms(2) by (simp add: core_fields)
  have i1: "i < length (c_items ?c1)" using assms(1) by simp
  have sg1: "seg (prevf ?c1) (nextf ?c1) 0 xs 0"
  proof -
    have "seg (prevf c) (nextf c) 0 xs 0 = seg (prevf ?c1) (nextf ?c1) 0 xs 0"
      using i unfolding v1 by (intro seg_cong) auto
    then show ?thesis using sg by simp
  qed
  have bk: "mem_get (c_hashtable ?c1) h = Some (hd0 0 xs)" using h hd by (simp add: mem_get_def)
  have nz: "hd0 0 xs = 0 \<longleftrightarrow> xs = []" by (rule hd0_zero [OF sg])
  show ?thesis
  proof (cases "xs = []")
    case True
    let ?c2 = "?c1\<lparr>c_hashtable := (c_hashtable c)[h := i]\<rparr>"
    have "link_item c i = Some ?c2"
      unfolding link_item_def upd_item_ok [OF assms(1)] bind.bind_lunit get_item_ok [OF i1] Let_def hs bk
      using True h by (simp add: set_bucket_def)
    moreover have "prevf ?c2 = prevf ?c1" "nextf ?c2 = nextf ?c1" "core ?c2 = core ?c1"
      "lprevf ?c2 = lprevf ?c1" "lnextf ?c2 = lnextf ?c1"
      using views_items [of ?c2 ?c1] by auto
    ultimately show ?thesis
      using that [of ?c2] v1 True by (simp add: same_but_hash_links_def append_nx_def upd_def)
  next
    case False
    let ?l = "last xs"
    have l: "?l < length (c_items c)" "?l \<noteq> i" using False rg i last_in_set [OF False] by auto
    have cl: "chain_last (c_max_items ?c1) ?c1 (hd0 0 xs) = Some ?l"
      using sg1 False rg len by (intro chain_last_seg) auto
    let ?c2 = "upd ?c1 ?l (\<lambda>u. u\<lparr>ci_next := i\<rparr>)"
    let ?c3 = "upd ?c2 i (\<lambda>u. u\<lparr>ci_prev := ?l\<rparr>)"
    have l1: "?l < length (c_items ?c1)" and i2: "i < length (c_items ?c2)" using l assms(1) by auto
    have "link_item c i = Some ?c3"
      unfolding link_item_def upd_item_ok [OF assms(1)] bind.bind_lunit get_item_ok [OF i1] Let_def hs bk
      using False nz cl upd_item_ok [OF l1] upd_item_ok [OF i2] by simp
    moreover have "prevf ?c3 = (prevf c)(i := last0 0 xs)" "nextf ?c3 = append_nx (nextf c) xs i"
      "core ?c3 = core c" "lprevf ?c3 = lprevf c" "lnextf ?c3 = lnextf c"
      using False l(2) by (auto simp: upd_prev [OF i2] upd_next [OF l1] v1 last0_def append_nx_def fun_eq_iff)
    ultimately show ?thesis
      using that [of ?c3] False by (simp add: same_but_hash_links_def upd_def)
  qed
qed

lemma hash_ok_link:
  assumes ha: "hash_ok c" and i0: "0 < i" and nl: "\<not> live c i"
    and b: "bucket_ok c h xs" and hh: "h = ci_hash (core c' i) mod c_hashsize c"
    and h: "h < c_hashsize c" and sz: "c_hashsize c' = c_hashsize c"
    and pv: "prevf c' = (prevf c)(i := last0 0 xs)" and nx: "nextf c' = append_nx (nextf c) xs i"
    and ht: "c_hashtable c' = (if xs = [] then (c_hashtable c)[h := i] else c_hashtable c)"
    and lv: "\<And>j. live c' j \<longleftrightarrow> live c j \<or> j = i"
    and co: "\<And>j. j \<noteq> i \<Longrightarrow> ci_hash (core c' j) = ci_hash (core c j)"
  shows "hash_ok c'"
  unfolding hash_ok_def sz
proof (intro allI impI)
  fix g assume g: "g < c_hashsize c"
  have live': "{j. live c' j \<and> ci_hash (core c' j) mod c_hashsize c' = g} =
      {j. live c j \<and> ci_hash (core c j) mod c_hashsize c = g} \<union> (if g = h then {i} else {})"
    using lv co sz hh nl by (auto simp: set_eq_iff) metis+
  have sg: "seg (prevf c) (nextf c) 0 xs 0" "distinct xs"
    and hd: "c_hashtable c ! h = hd0 0 xs"
    and st: "set xs = {j. live c j \<and> ci_hash (core c j) mod c_hashsize c = h}"
    using b by (auto simp: bucket_ok_def)
  have ix: "i \<notin> set xs" using st nl by auto
  show "\<exists>zs. bucket_ok c' g zs"
  proof (cases "g = h")
    case True
    have "seg (prevf c') (nextf c') 0 (xs @ [i]) 0"
      unfolding pv nx using seg_append_item [OF sg ix] i0 by simp
    moreover have "c_hashtable c' ! g = hd0 0 (xs @ [i])" using True ht hd h by (cases xs) auto
    ultimately have "bucket_ok c' g (xs @ [i])"
      using sg(2) ix st live' True by (simp add: bucket_ok_def)
    then show ?thesis by blast
  next
    case False
    from ha g obtain zs where z: "bucket_ok c g zs" by (auto simp: hash_ok_def)
    have zi: "i \<notin> set zs" using bucket_member [OF z] nl by blast
    have zx: "xs \<noteq> [] \<Longrightarrow> last xs \<notin> set zs" using chains_disjoint [OF b z] False by auto
    have "seg (prevf c) (nextf c) 0 zs 0 = seg (prevf c') (nextf c') 0 zs 0"
      unfolding pv nx using zi zx by (intro seg_cong) (auto simp: append_nx_def)
    then have sz': "seg (prevf c') (nextf c') 0 zs 0" using z by (simp add: bucket_ok_def)
    have "c_hashtable c' ! g = c_hashtable c ! g" using ht False by simp
    moreover have "{j. live c' j \<and> ci_hash (core c' j) mod c_hashsize c' = g} =
      {j. live c j \<and> ci_hash (core c j) mod c_hashsize c = g}" using live' False by simp
    ultimately show ?thesis using bucket_ok_cong [OF z sz'] by blast
  qed
qed

section \<open>Storing a new item\<close>

text \<open>The expiration a store computes.\<close>

definition new_expires :: "cache \<Rightarrow> nat \<Rightarrow> nat \<Rightarrow> nat \<Rightarrow> nat" where
  "new_expires c expires flags now =
     (if \<not> c_purge_lru c \<and> expires \<noteq> 0 \<and> \<not> FLAG_ABSEXPIRE flags then sz_add expires now else expires)"

definition same_bookkeeping :: "cache \<Rightarrow> cache \<Rightarrow> bool" where
  "same_bookkeeping c c' \<longleftrightarrow> same_config c c' \<and> c_stack c' = c_stack c \<and> c_sp c' = c_sp c \<and>
     c_bitmap c' = c_bitmap c \<and> c_bitmap_pos c' = c_bitmap_pos c \<and> c_math_initial c' = c_math_initial c"

lemma same_bookkeeping_trans:
  "same_bookkeeping a b \<Longrightarrow> same_bookkeeping b c \<Longrightarrow> same_bookkeeping a c"
  by (auto simp: same_bookkeeping_def same_config_def)

lemma same_bookkeeping_upd [simp]: "same_bookkeeping c (upd c i f)"
  by (simp add: same_bookkeeping_def same_config_def upd_def)

text \<open>The part of a store up to the links: the item and the data are filled in.\<close>

definition fill_item ::
  "cache \<Rightarrow> nat \<Rightarrow> nat \<Rightarrow> bytes \<Rightarrow> bytes \<Rightarrow> nat \<Rightarrow> nat \<Rightarrow> cache option" where
  "fill_item c index fb key val expires flags = do {
     u \<leftarrow> get_item c index;
     k \<leftarrow> mem_write (ci_key u) 0 key;
     c \<leftarrow> upd_item c index (\<lambda>u. u\<lparr>ci_expires := expires, ci_hash := unat (c_hash c key),
             ci_hits := 0, ci_flags := flags, ci_key := k\<rparr>);
     c \<leftarrow> put_value c fb val flags (Some (c_math_initial c));
     upd_item c index (\<lambda>u. u\<lparr>ci_valsize := length val, ci_keysize := length key\<rparr>) }"

lemma store_new_fill:
  "store_new c index fb key val expires flags now = do {
     let e = new_expires c expires flags now;
     c \<leftarrow> (if c_purge_lru c then lru_add_item c index
           else if expires \<noteq> 0 \<and> \<not> FLAG_ABSEXPIRE flags then Some (scan_before c e) else Some c);
     c \<leftarrow> fill_item c index fb key val e flags;
     c \<leftarrow> link_item c index;
     Some (set_done (c\<lparr>c_n_items := sz_add (c_n_items c) 1\<rparr>) 0 key val e flags now) }"
  by (simp add: store_new_def fill_item_def new_expires_def Let_def)

lemma fill_item_ok:
  assumes "i < length (c_items c)" "length (ci_key (core c i)) = c_keysize c" "length key \<le> c_keysize c"
    and "\<not> FLAG_MATH flags" "fb * c_blocksize c + length val \<le> length (c_data c)"
  obtains c' where "fill_item c i fb key val e flags = Some c'" "same_bookkeeping c c'"
    "c_hashtable c' = c_hashtable c" "c_n_items c' = c_n_items c"
    "prevf c' = prevf c" "nextf c' = nextf c" "lprevf c' = lprevf c" "lnextf c' = lnextf c"
    "c_lru_head c' = c_lru_head c" "c_lru_tail c' = c_lru_tail c"
    "\<forall>j. j \<noteq> i \<longrightarrow> core c' j = core c j"
    "ci_keysize (core c' i) = length key" "ci_hash (core c' i) = unat (c_hash c key)"
    "ci_valsize (core c' i) = length val" "ci_first_block (core c' i) = ci_first_block (core c i)"
    "ci_expires (core c' i) = e" "ci_flags (core c' i) = flags"
    "take (length key) (ci_key (core c' i)) = key" "length (ci_key (core c' i)) = c_keysize c"
    "mem_write (c_data c) (fb * c_blocksize c) val = Some (c_data c')"
proof -
  obtain k where k: "mem_write (ci_key (c_items c ! i)) 0 key = Some k"
    using assms(2,3) by (auto simp: mem_write_def core_fields)
  have kk: "take (length key) k = key" "length k = c_keysize c"
    using mem_write_upto [OF k] mem_write_length [OF k] assms(2) by (simp_all add: core_fields)
  let ?f = "\<lambda>u. u\<lparr>ci_expires := e, ci_hash := unat (c_hash c key), ci_hits := 0, ci_flags := flags, ci_key := k\<rparr>"
  let ?c1 = "upd c i ?f"
  obtain d where d: "mem_write (c_data c) (fb * c_blocksize c) val = Some d"
    using assms(5) by (auto simp: mem_write_def)
  let ?c2 = "?c1\<lparr>c_data := d\<rparr>"
  have pv: "put_value ?c1 fb val flags (Some (c_math_initial ?c1)) = Some ?c2"
    using assms(4) d by (simp add: put_value_def Let_def)
  let ?g = "\<lambda>u. u\<lparr>ci_valsize := length val, ci_keysize := length key\<rparr>"
  let ?c3 = "upd ?c2 i ?g"
  have i2: "i < length (c_items ?c2)" using assms(1) by simp
  have v1: "prevf ?c1 = prevf c" "nextf ?c1 = nextf c" "lprevf ?c1 = lprevf c" "lnextf ?c1 = lnextf c"
    using views_upd [OF assms(1), of ?f] by (simp_all add: views_triv)
  have v2: "prevf ?c2 = prevf ?c1" "nextf ?c2 = nextf ?c1" "lprevf ?c2 = lprevf ?c1" "lnextf ?c2 = lnextf ?c1"
    "core ?c2 = core ?c1" using views_items [of ?c2 ?c1] by auto
  have v3: "prevf ?c3 = prevf ?c2" "nextf ?c3 = nextf ?c2" "lprevf ?c3 = lprevf ?c2" "lnextf ?c3 = lnextf ?c2"
    using views_upd [OF i2, of ?g] views_triv [of ?c2 i] by simp_all
  have co: "core ?c3 j = core c j" if "j \<noteq> i" for j
    using that assms(1) by (simp add: core_def upd_def)
  have ci: "ci_keysize (core ?c3 i) = length key" "ci_hash (core ?c3 i) = unat (c_hash c key)"
    "ci_valsize (core ?c3 i) = length val" "ci_first_block (core ?c3 i) = ci_first_block (core c i)"
    "ci_expires (core ?c3 i) = e" "ci_flags (core ?c3 i) = flags" "ci_key (core ?c3 i) = k"
    using assms(1) by (simp_all add: core_def upd_def)
  have "fill_item c i fb key val e flags = Some ?c3"
    unfolding fill_item_def get_item_ok [OF assms(1)] bind.bind_lunit k upd_item_ok [OF assms(1)] pv
      upd_item_ok [OF i2] ..
  moreover have "same_bookkeeping c ?c3"
    using mem_write_length [OF d] by (simp add: same_bookkeeping_def same_config_def upd_def)
  moreover have "c_hashtable ?c3 = c_hashtable c" "c_n_items ?c3 = c_n_items c"
    "c_lru_head ?c3 = c_lru_head c" "c_lru_tail ?c3 = c_lru_tail c" by simp_all
  moreover have "mem_write (c_data c) (fb * c_blocksize c) val = Some (c_data ?c3)" using d by simp
  ultimately show ?thesis
    using that [of ?c3] v1 v2 v3 co ci kk by simp
qed

text \<open>
  The state in which \<open>store_new\<close> runs: the unused item \<open>i\<close> is popped from the stack of \<open>c\<close> and
  the blocks of a value of \<open>n\<close> bytes from \<open>fb\<close> on are reserved for it.
\<close>

definition new_blocks :: "cache \<Rightarrow> nat \<Rightarrow> nat \<Rightarrow> nat set" where
  "new_blocks c fb n = {fb..<fb + blocks_needed (c_blocksize c) n}"

definition reserved :: "cache \<Rightarrow> cache \<Rightarrow> nat \<Rightarrow> nat \<Rightarrow> nat \<Rightarrow> bool" where
  "reserved c c2 i fb n \<longleftrightarrow>
     0 < c_sp c \<and> i = c_stack c ! c_sp c \<and>
     c2 = upd (c\<lparr>c_sp := c_sp c - 1, c_bitmap := c_bitmap c2, c_bitmap_pos := c_bitmap_pos c2\<rparr>) i
            (\<lambda>u. u\<lparr>ci_first_block := fb\<rparr>) \<and>
     new_blocks c fb n \<subseteq> {..<c_blocks c} \<and> (\<forall>j. live c j \<longrightarrow> new_blocks c fb n \<inter> iblocks c j = {}) \<and>
     (case c_bitmap c of
        None \<Rightarrow> c_bitmap c2 = None \<and> fb = i \<and> new_blocks c fb n = {i}
      | Some b1 \<Rightarrow> (\<exists>b2. c_bitmap c2 = Some b2 \<and> length b2 = length b1 \<and> c_bitmap_pos c2 < c_blocks c \<and>
          (\<forall>b<8 * length b1. used b2 b \<longleftrightarrow> used b1 b \<or> b \<in> new_blocks c fb n)))"

lemma stack_top:
  assumes "shape_ok c" "stack_ok c" "0 < c_sp c"
  shows "0 < c_stack c ! c_sp c" "c_stack c ! c_sp c < c_max_items c" "\<not> live c (c_stack c ! c_sp c)"
    "take (c_sp c) (drop 1 (c_stack c)) = take (c_sp c - 1) (drop 1 (c_stack c)) @ [c_stack c ! c_sp c]"
proof -
  obtain n where n: "c_sp c = Suc n" using assms(3) by (cases "c_sp c") auto
  have len: "Suc n < length (c_stack c)" using assms n by (auto simp: shape_ok_def stack_ok_def)
  then show t: "take (c_sp c) (drop 1 (c_stack c)) = take (c_sp c - 1) (drop 1 (c_stack c)) @ [c_stack c ! c_sp c]"
    using n by (simp add: take_Suc_conv_app_nth)
  then have "c_stack c ! c_sp c \<in> set (take (c_sp c) (drop 1 (c_stack c)))" by simp
  then show "0 < c_stack c ! c_sp c" "c_stack c ! c_sp c < c_max_items c" "\<not> live c (c_stack c ! c_sp c)"
    using assms(2) by (auto simp: stack_ok_def)
qed

lemma stack_ok_pop:
  assumes st: "stack_ok c" and sh: "shape_ok c" and sp: "0 < c_sp c" and i: "i = c_stack c ! c_sp c"
    and f: "c_sp c' = c_sp c - 1" "c_stack c' = c_stack c" "c_max_items c' = c_max_items c"
      "c_n_items c' = c_n_items c + 1"
    and lv: "\<And>j. live c' j \<longleftrightarrow> live c j \<or> j = i"
  shows "stack_ok c'"
proof -
  note top = stack_top [OF sh st sp]
  have s: "set (take (c_sp c) (drop 1 (c_stack c))) = {j. 0 < j \<and> j < c_max_items c \<and> \<not> live c j}"
    "distinct (take (c_sp c) (drop 1 (c_stack c)))" "c_n_items c = card {j. live c j}"
    using st by (auto simp: stack_ok_def)
  have "{j. live c' j} = insert i {j. live c j}" using lv by auto
  then have "card {j. live c' j} = c_n_items c + 1" using top(3) i s(3) by simp
  moreover have "set (take (c_sp c - 1) (drop 1 (c_stack c))) =
      set (take (c_sp c) (drop 1 (c_stack c))) - {i}"
    using s(2) unfolding top(4) i by auto
  moreover have "distinct (take (c_sp c - 1) (drop 1 (c_stack c)))" using s(2) unfolding top(4) by simp
  moreover have "{j. 0 < j \<and> j < c_max_items c \<and> \<not> live c' j} =
      {j. 0 < j \<and> j < c_max_items c \<and> \<not> live c j} - {i}" using lv by auto
  moreover have "c_sp c - 1 < c_max_items c" using st unfolding stack_ok_def by linarith
  ultimately show ?thesis unfolding stack_ok_def f using s(1) by simp
qed

lemma blocks_ok_new:
  assumes bl: "blocks_ok c" and r: "reserved c c2 i fb n" and n: "0 < n"
    and cf: "c_blocks c' = c_blocks c" "c_max_items c' = c_max_items c"
      "c_max_item_size c' = c_max_item_size c" "c_blocksize c' = c_blocksize c"
    and bm: "c_bitmap c' = c_bitmap c2" "c_bitmap_pos c' = c_bitmap_pos c2"
    and lv: "\<And>j. live c' j \<longleftrightarrow> live c j \<or> j = i" and nl: "\<not> live c i"
    and co: "\<And>j. j \<noteq> i \<Longrightarrow> core c' j = core c j"
    and ni: "ci_valsize (core c' i) = n" "ci_first_block (core c' i) = fb"
  shows "blocks_ok c'"
proof -
  have ib: "iblocks c' j = iblocks c j" if "j \<noteq> i" for j using co [OF that] cf by (simp add: iblocks_def)
  have ii: "iblocks c' i = new_blocks c fb n" using ni cf by (simp add: iblocks_def new_blocks_def)
  have nb: "new_blocks c fb n \<subseteq> {..<c_blocks c}" "\<And>j. live c j \<Longrightarrow> new_blocks c fb n \<inter> iblocks c j = {}"
    using r by (auto simp: reserved_def)
  have one: "0 < ci_valsize (core c' j) \<and> iblocks c' j \<subseteq> {..<c_blocks c}" if "live c' j" for j
  proof (cases "j = i")
    case False
    then show ?thesis using that lv bl ib co by (simp add: blocks_ok_def)
  qed (use ni n ii nb in simp)
  have two: "iblocks c' j \<inter> iblocks c' k = {}" if "live c' j" "live c' k" "j \<noteq> k" for j k
  proof -
    consider "j \<noteq> i" "k \<noteq> i" | "j = i" "k \<noteq> i" | "j \<noteq> i" "k = i" using \<open>j \<noteq> k\<close> by blast
    then show ?thesis
    proof cases
      case 1
      then show ?thesis using that lv bl ib by (simp add: blocks_ok_def)
    next
      case 2
      then show ?thesis using that lv ib ii nb(2) [of k] by simp
    next
      case 3
      then show ?thesis using that lv ib ii nb(2) [of j] by (simp add: Int_commute)
    qed
  qed
  show ?thesis
  proof (cases "c_bitmap c")
    case None
    then have "c_bitmap c' = None" "fb = i" "new_blocks c fb n = {i}" using r bm by (auto simp: reserved_def)
    moreover from this have "iblocks c' j = {j} \<and> ci_first_block (core c' j) = j" if "live c' j" for j
      using that lv bl None ib co ii ni by (cases "j = i") (simp_all add: blocks_ok_def)
    moreover have "c_max_items c' \<le> c_blocks c' \<and> c_max_item_size c' \<le> c_blocksize c'"
      using bl None cf by (simp add: blocks_ok_def)
    ultimately show ?thesis using one two cf(1) unfolding blocks_ok_def by simp
  next
    case (Some b1)
    then obtain b2 where b2: "c_bitmap c' = Some b2" "length b2 = length b1" "c_bitmap_pos c' < c_blocks c"
      "\<forall>b<8 * length b1. used b2 b \<longleftrightarrow> used b1 b \<or> b \<in> new_blocks c fb n"
      using r bm by (auto simp: reserved_def)
    have "used b2 b \<longleftrightarrow> c_blocks c \<le> b \<or> (\<exists>j. live c' j \<and> b \<in> iblocks c' j)" if "b < 8 * length b1" for b
    proof -
      have "used b1 b \<longleftrightarrow> c_blocks c \<le> b \<or> (\<exists>j. live c j \<and> b \<in> iblocks c j)"
        using bl Some that by (simp add: blocks_ok_def)
      then show ?thesis using b2(4) that lv ib ii nl by metis
    qed
    then show ?thesis using one two Some b2 bl cf by (auto simp: blocks_ok_def)
  qed
qed

lemma bucket_len:
  assumes "bucket_ok c h xs"
  shows "length xs \<le> c_max_items c" "\<forall>x\<in>set xs. live c x"
proof -
  show lv: "\<forall>x\<in>set xs. live c x" using assms by (auto simp: bucket_ok_def)
  then have "set xs \<subseteq> {..<c_max_items c}" by (auto simp: live_def)
  then have "card (set xs) \<le> c_max_items c" using card_mono [of "{..<c_max_items c}"] by fastforce
  moreover have "distinct xs" using assms by (simp add: bucket_ok_def)
  then have "card (set xs) = length xs" by (rule distinct_card)
  ultimately show "length xs \<le> c_max_items c" by linarith
qed

text \<open>The least-recently-used list or the scan time, before the item is filled in.\<close>

lemma queue_new_item:
  assumes lr: "lru_ok c" and sh: "shape_ok c" and nl: "\<not> live c i" and i: "0 < i" "i < c_max_items c"
    and c2: "c_purge_lru c2 = c_purge_lru c" "lprevf c2 = lprevf c" "lnextf c2 = lnextf c"
      "c_lru_head c2 = c_lru_head c" "c_lru_tail c2 = c_lru_tail c" "length (c_items c2) = length (c_items c)"
  obtains c3 where "(if c_purge_lru c2 then lru_add_item c2 i
      else if expires \<noteq> 0 \<and> \<not> FLAG_ABSEXPIRE flags then Some (scan_before c2 e) else Some c2) = Some c3"
    "same_layout c2 c3" "core c3 = core c2" "c_math_initial c3 = c_math_initial c2"
    "\<forall>xs. c_purge_lru c \<and> lru_list c xs \<longrightarrow> lru_links c3 (xs @ [i])"
proof (cases "c_purge_lru c")
  case True
  then obtain xs where xs: "lru_list c xs" using lr by (auto simp: lru_ok_def)
  have l2: "lru_links c2 xs" using xs c2 by (simp add: lru_list_def lru_links_def)
  have "\<forall>x\<in>set xs. x < length (c_items c2)" "i < length (c_items c2)" "i \<notin> set xs"
    using xs live_lt [OF sh] nl i sh c2(6) by (auto simp: lru_list_def shape_ok_def)
  from lru_add_effect [OF l2 this(1,2) i(1) this(3)] obtain c3 where
    c3: "lru_add_item c2 i = Some c3" "same_but_lru_links c2 c3" "lru_links c3 (xs @ [i])" by blast
  have "lru_links c3 (ys @ [i])" if "lru_list c ys" for ys
  proof -
    have "ys = xs" using seg_unique [of ys xs "lprevf c" "lnextf c" 0] that xs
      by (simp add: lru_list_def lru_links_def)
    then show ?thesis using c3(3) by simp
  qed
  then show ?thesis
    using that [of c3] c3(1) True c2(1) same_but_lru_fields [OF c3(2)] by simp
next
  case False
  let ?c3 = "if expires \<noteq> 0 \<and> \<not> FLAG_ABSEXPIRE flags then scan_before c2 e else c2"
  have v: "prevf ?c3 = prevf c2" "nextf ?c3 = nextf c2" "core ?c3 = core c2"
    using views_items [of ?c3 c2] by (auto simp: scan_before_def)
  have "same_layout c2 ?c3" using v by (simp add: same_layout_def same_config_def scan_before_def)
  moreover have "c_math_initial ?c3 = c_math_initial c2" by (simp add: scan_before_def)
  ultimately show ?thesis using that [of ?c3] False c2(1) v(3) by simp
qed

lemma set_done_ok:
  assumes "cache_inv c"
  obtains c' where "set_done c r key val e flags now = (r, c')" "cache_inv c'" "cmap c' = cmap c"
    "\<forall>j. live c' j = live c j" "\<forall>j. ikey c' j = ikey c j"
proof -
  let ?c1 = "if c_use_last_modified c then c\<lparr>c_last_modified_at := now\<rparr> else c"
  let ?c2 = "if c_nodes ?c1 \<noteq> 0 \<and> r = 0 \<and> \<not> FLAG_LOCAL flags
    then cache_send_udp_command ?c1 key val e 10 else ?c1"
  have it: "c_items ?c2 = c_items c" by (simp add: cache_send_udp_command_def)
  have v: "prevf ?c2 = prevf c" "nextf ?c2 = nextf c" "core ?c2 = core c" "lprevf ?c2 = lprevf c" "lnextf ?c2 = lnextf c"
    using views_items [OF it] by auto
  have sl: "same_layout c ?c2"
    using v it by (simp add: same_layout_def same_config_def cache_send_udp_command_def)
  have lh: "c_lru_head ?c2 = c_lru_head c" "c_lru_tail ?c2 = c_lru_tail c" "c_purge_lru ?c2 = c_purge_lru c"
    by (simp_all add: cache_send_udp_command_def)
  have "lru_ok ?c2"
    using assms unfolding cache_inv_def lru_ok_def lru_list_def lru_links_def v lh same_layout_views(1) [OF sl] by blast
  then have "cache_inv ?c2" using same_layout_inv [OF sl assms] by blast
  moreover have "cmap ?c2 = cmap c" using v(3) by (intro same_layout_cmap [OF sl]) simp
  ultimately show ?thesis using that [of ?c2] same_layout_views [OF sl] by (simp add: set_done_def Let_def)
qed

lemma cmap_insert:
  assumes "keys_ok c" "keys_ok c'" "\<not> live c i"
    and lv: "\<And>j. live c' j \<longleftrightarrow> live c j \<or> j = i"
    and k: "ikey c' i = key" "\<And>j. j \<noteq> i \<Longrightarrow> ikey c' j = ikey c j"
    and e: "\<And>j. live c j \<Longrightarrow> entry c' j = entry c j"
  shows "cmap c' = (cmap c)(key \<mapsto> entry c' i)"
proof
  fix k'
  have new: "index_of c' key = Some i" using index_of_Some [OF assms(2)] lv k by blast
  show "cmap c' k' = ((cmap c)(key \<mapsto> entry c' i)) k'"
  proof (cases "k' = key")
    case True
    then show ?thesis using new by (simp add: cmap_def)
  next
    case False
    have "index_of c' k' = index_of c k'"
    proof (cases "index_of c k'")
      case None
      then have n: "\<forall>j. live c j \<longrightarrow> ikey c j \<noteq> k'" using index_of_None [OF assms(1)] by simp
      have "ikey c' j \<noteq> k'" if "live c' j" for j
        using that lv n k False by (cases "j = i") auto
      then show ?thesis using None index_of_None [OF assms(2)] by metis
    next
      case (Some j)
      then have j: "live c j" "ikey c j = k'" using index_of_Some [OF assms(1)] by auto
      then have "j \<noteq> i" using assms(3) by auto
      then have "live c' j" "ikey c' j = k'" using lv j k by auto
      then show ?thesis using Some index_of_Some [OF assms(2)] by simp
    qed
    moreover have "entry c' j = entry c j" if "index_of c k' = Some j" for j
      using that index_of_Some [OF assms(1)] e by blast
    ultimately have "map_option (entry c') (index_of c' k') = map_option (entry c) (index_of c k')"
      by (cases "index_of c k'") simp_all
    then show ?thesis using False by (simp add: cmap_def)
  qed
qed

text \<open>A write to the blocks of one item leaves the values in other blocks alone.\<close>

lemma ivalue_other:
  assumes inv: "cache_inv c" and l: "live c j" and dj: "new_blocks c fb n \<inter> iblocks c j = {}"
    and w: "mem_write (c_data c) (fb * c_blocksize c) val = Some d" and n: "length val = n"
  shows "take (ci_valsize (core c j)) (drop (ci_first_block (core c j) * c_blocksize c) d) = ivalue c j"
proof -
  let ?bs = "c_blocksize c" and ?fj = "ci_first_block (core c j)" and ?vj = "ci_valsize (core c j)"
  have bs: "0 < ?bs" and v: "0 < ?vj" using inv l by (auto simp: cache_inv_def shape_ok_def blocks_ok_def)
  have kj: "0 < blocks_needed ?bs ?vj" by (rule blocks_needed_pos [OF bs v])
  have "fb + blocks_needed ?bs n \<le> ?fj \<or> ?fj + blocks_needed ?bs ?vj \<le> fb \<or> blocks_needed ?bs n = 0"
    using dj kj by (auto simp: new_blocks_def iblocks_def ivl_disj_int)
  then have "fb * ?bs + n \<le> ?fj * ?bs \<or> ?fj * ?bs + ?vj \<le> fb * ?bs \<or> n = 0"
  proof (elim disjE)
    assume "fb + blocks_needed ?bs n \<le> ?fj"
    then have "(fb + blocks_needed ?bs n) * ?bs \<le> ?fj * ?bs" by (rule mult_right_mono) simp
    then show ?thesis using blocks_needed_bound [OF bs, of n] by (simp add: add_mult_distrib)
  next
    assume "?fj + blocks_needed ?bs ?vj \<le> fb"
    then have "(?fj + blocks_needed ?bs ?vj) * ?bs \<le> fb * ?bs" by (rule mult_right_mono) simp
    then show ?thesis using blocks_needed_bound [OF bs, of ?vj] by (simp add: add_mult_distrib)
  next
    assume "blocks_needed ?bs n = 0"
    then show ?thesis using blocks_needed_pos [OF bs, of n] by (cases n) auto
  qed
  then have "mem_read d (?fj * ?bs) ?vj = mem_read (c_data c) (?fj * ?bs) ?vj"
    using mem_read_write_other [OF w, of "?fj * ?bs" ?vj] n w by (auto simp: mem_write_def split: if_splits)
  moreover have "?fj * ?bs + ?vj \<le> length (c_data c)" by (rule value_in_data [OF inv l])
  ultimately show ?thesis using mem_write_length [OF w] by (simp add: mem_read_def ivalue_def)
qed

end
