(* ===== verification/Cachestore.thy ===== *)
theory Cachestore
  imports Cacheinv
begin

text \<open>
  The store of the cache refines the update of a finite map, and the initialised cache stands
  for the empty map.
\<close>

section \<open>A store into a reserved item\<close>

lemma reserved_views:
  assumes r: "reserved c c2 i fb n" and i: "i < length (c_items c)"
  shows "prevf c2 = prevf c" "nextf c2 = nextf c" "lprevf c2 = lprevf c" "lnextf c2 = lnextf c"
    "\<And>j. j \<noteq> i \<Longrightarrow> core c2 j = core c j" "ci_first_block (core c2 i) = fb"
    "ci_key (core c2 i) = ci_key (core c i)" "ci_keysize (core c2 i) = ci_keysize (core c i)"
    "same_config c c2" "c_lru_head c2 = c_lru_head c" "c_lru_tail c2 = c_lru_tail c"
    "c_hashtable c2 = c_hashtable c" "c_stack c2 = c_stack c" "c_sp c2 = c_sp c - 1"
    "c_n_items c2 = c_n_items c" "c_data c2 = c_data c" "c_math_initial c2 = c_math_initial c"
proof -
  obtain s b p where e: "c2 = upd (c\<lparr>c_sp := s, c_bitmap := b, c_bitmap_pos := p\<rparr>) i
      (\<lambda>u. u\<lparr>ci_first_block := fb\<rparr>)" and s: "s = c_sp c - 1"
    using r unfolding reserved_def by blast
  let ?c1 = "c\<lparr>c_sp := s, c_bitmap := b, c_bitmap_pos := p\<rparr>" and ?f = "\<lambda>u. u\<lparr>ci_first_block := fb\<rparr>"
  have i1: "i < length (c_items ?c1)" using i by simp
  have v: "prevf ?c1 = prevf c" "nextf ?c1 = nextf c" "lprevf ?c1 = lprevf c" "lnextf ?c1 = lnextf c"
    "core ?c1 = core c" using views_items [of ?c1 c] by auto
  note u = views_upd [OF i1, of ?f]
  show "prevf c2 = prevf c" by (subst e) (simp add: u v views_triv)
  show "nextf c2 = nextf c" by (subst e) (simp add: u v views_triv)
  show "lprevf c2 = lprevf c" by (subst e) (simp add: u v views_triv)
  show "lnextf c2 = lnextf c" by (subst e) (simp add: u v views_triv)
  show "core c2 j = core c j" if "j \<noteq> i" for j using that by (subst e) (simp add: u v)
  show "ci_first_block (core c2 i) = fb" by (subst e) (simp add: u)
  show "ci_key (core c2 i) = ci_key (core c i)" by (subst e) (simp add: u core_def)
  show "ci_keysize (core c2 i) = ci_keysize (core c i)" by (subst e) (simp add: u core_def)
  show "same_config c c2" by (subst e) (simp add: same_config_def upd_def)
  show "c_lru_head c2 = c_lru_head c" "c_lru_tail c2 = c_lru_tail c" "c_hashtable c2 = c_hashtable c"
    "c_stack c2 = c_stack c" "c_sp c2 = c_sp c - 1" "c_n_items c2 = c_n_items c" "c_data c2 = c_data c"
    "c_math_initial c2 = c_math_initial c"
    by (subst e, simp add: upd_def s)+
qed

text \<open>
  The state with the item filled in and linked: the views in terms of the state before the
  pop.
\<close>

definition stored ::
  "cache \<Rightarrow> cache \<Rightarrow> nat \<Rightarrow> nat \<Rightarrow> bytes \<Rightarrow> bytes \<Rightarrow> nat \<Rightarrow> nat \<Rightarrow> bool" where
  "stored c c5 i fb key val e flags \<longleftrightarrow>
     same_config c c5 \<and> c_stack c5 = c_stack c \<and> c_sp c5 = c_sp c - 1 \<and> c_n_items c5 = c_n_items c \<and>
     (\<forall>j. j \<noteq> i \<longrightarrow> core c5 j = core c j) \<and>
     ci_keysize (core c5 i) = length key \<and> ci_hash (core c5 i) = unat (c_hash c key) \<and>
     ci_valsize (core c5 i) = length val \<and> ci_first_block (core c5 i) = fb \<and>
     ci_expires (core c5 i) = e \<and> ci_flags (core c5 i) = flags \<and>
     take (length key) (ci_key (core c5 i)) = key \<and> length (ci_key (core c5 i)) = c_keysize c \<and>
     mem_write (c_data c) (fb * c_blocksize c) val = Some (c_data c5) \<and>
     (\<forall>xs. c_purge_lru c \<and> lru_list c xs \<longrightarrow> lru_links c5 (xs @ [i]))"

lemma lru_links_cong:
  "lprevf c' = lprevf c \<Longrightarrow> lnextf c' = lnextf c \<Longrightarrow> c_lru_head c' = c_lru_head c \<Longrightarrow>
     c_lru_tail c' = c_lru_tail c \<Longrightarrow> lru_links c' xs = lru_links c xs"
  by (simp add: lru_links_def)

lemma stored_live:
  assumes s: "stored c c5 i fb key val e flags" and i: "0 < i" "i < c_max_items c" and k: "key \<noteq> []"
  shows "live c5 j \<longleftrightarrow> live c j \<or> j = i"
    "j \<noteq> i \<Longrightarrow> ikey c5 j = ikey c j" "ikey c5 i = key"
proof -
  have m: "c_max_items c5 = c_max_items c" using s by (simp add: stored_def same_config_def)
  have co: "\<forall>j. j \<noteq> i \<longrightarrow> core c5 j = core c j" and ks: "ci_keysize (core c5 i) = length key"
    "take (length key) (ci_key (core c5 i)) = key" using s by (auto simp: stored_def)
  show "live c5 j \<longleftrightarrow> live c j \<or> j = i" using co ks i k m by (cases "j = i") (simp_all add: live_def)
  show "j \<noteq> i \<Longrightarrow> ikey c5 j = ikey c j" using co by (simp add: ikey_def)
  show "ikey c5 i = key" using ks by (simp add: ikey_def)
qed

lemma keys_ok_stored:
  assumes ke: "keys_ok c" and s: "stored c c5 i fb key val e flags" and i: "0 < i" "i < c_max_items c"
    and k: "key \<noteq> []" "length key \<le> c_keysize c" and new: "index_of c key = None"
  shows "keys_ok c5"
proof -
  note v = stored_live [OF s i k(1)]
  have none: "\<And>j. live c j \<Longrightarrow> ikey c j \<noteq> key" using new index_of_None [OF ke] by blast
  have cf: "c_hash c5 = c_hash c" "c_keysize c5 = c_keysize c" using s by (auto simp: stored_def same_config_def)
  have one: "ci_hash (core c5 j) = unat (c_hash c5 (ikey c5 j)) \<and> ci_keysize (core c5 j) \<le> c_keysize c5"
    if "live c5 j" for j
  proof (cases "j = i")
    case True
    then show ?thesis using s v(3) k cf by (simp add: stored_def)
  next
    case False
    then have "live c j" using that v(1) by blast
    then show ?thesis using ke s v(2) [OF False] cf False by (simp add: keys_ok_def stored_def)
  qed
  have "j = l" if "live c5 j" "live c5 l" "ikey c5 j = ikey c5 l" for j l
  proof (rule ccontr)
    assume ne: "j \<noteq> l"
    then consider "j = i" "l \<noteq> i" | "j \<noteq> i" "l = i" | "j \<noteq> i" "l \<noteq> i" by blast
    then show False
    proof cases
      case 1
      then show ?thesis using that v none [of l] by simp
    next
      case 2
      then show ?thesis using that v none [of j] by simp
    next
      case 3
      then show ?thesis using that v ke ne by (auto simp: keys_ok_def)
    qed
  qed
  then show ?thesis using one unfolding keys_ok_def by blast
qed

lemma shape_ok_stored:
  assumes "shape_ok c" "stored c c5 i fb key val e flags"
  shows "shape_ok c5"
proof -
  have "length (ci_key (core c5 j)) = c_keysize c" if "j < c_max_items c" for j
    using assms that by (cases "j = i") (auto simp: stored_def shape_ok_def)
  then show ?thesis using assms by (simp add: stored_def shape_ok_def same_config_def)
qed


text \<open>The reservation is enough for the value: it fits into the data area.\<close>

lemma reserved_fits:
  assumes sh: "shape_ok c" and r: "reserved c c2 i fb n" and n: "0 < n"
  shows "fb * c_blocksize c + n \<le> length (c_data c)"
proof -
  have bs: "0 < c_blocksize c" "length (c_data c) = c_blocksize c * c_blocks c" using sh by (auto simp: shape_ok_def)
  let ?k = "blocks_needed (c_blocksize c) n"
  have "0 < ?k" by (rule blocks_needed_pos [OF bs(1) n])
  then have "fb + ?k \<le> c_blocks c"
    using r unfolding reserved_def new_blocks_def by (metis atLeastLessThan_subset_iff ivl_subset lessThan_atLeast0 add_less_cancel_left add_0_right linorder_not_less)
  then have "(fb + ?k) * c_blocksize c \<le> c_blocks c * c_blocksize c" by (rule mult_right_mono) simp
  then show ?thesis
    using blocks_needed_bound [OF bs(1), of n] unfolding bs(2) add_mult_distrib
    by (simp only: mult.commute [of "c_blocks c"])
qed

lemma store_fill_link:
  assumes inv: "cache_inv c" and r: "reserved c c2 i fb (length val)"
    and k: "key \<noteq> []" "length key \<le> c_keysize c" and v: "val \<noteq> []" and m: "\<not> FLAG_MATH flags"
  obtains c5 where
    "store_new c2 i fb key val expires flags now =
       Some (set_done (c5\<lparr>c_n_items := sz_add (c_n_items c5) 1\<rparr>) 0 key val (new_expires c expires flags now) flags now)"
    "stored c c5 i fb key val (new_expires c expires flags now) flags" "hash_ok c5"
    "c_bitmap c5 = c_bitmap c2" "c_bitmap_pos c5 = c_bitmap_pos c2"
proof -
  have sh: "shape_ok c" and ha: "hash_ok c" and st: "stack_ok c" and lr: "lru_ok c"
    using inv by (auto simp: cache_inv_def)
  have i: "0 < i" "i < c_max_items c" "\<not> live c i" "i < length (c_items c)"
    using stack_top [OF sh st] r sh by (auto simp: reserved_def shape_ok_def)
  note rv = reserved_views [OF r i(4)]
  have cf2: "c_purge_lru c2 = c_purge_lru c" "length (c_items c2) = length (c_items c)"
    "c_keysize c2 = c_keysize c" "c_hash c2 = c_hash c" "c_blocksize c2 = c_blocksize c" "c_max_items c2 = c_max_items c"
    using rv(9) by (auto simp: same_config_def)
  let ?e = "new_expires c expires flags now"
  have e2: "new_expires c2 expires flags now = ?e" using cf2 by (simp add: new_expires_def)
  obtain c3 where c3: "(if c_purge_lru c2 then lru_add_item c2 i
      else if expires \<noteq> 0 \<and> \<not> FLAG_ABSEXPIRE flags then Some (scan_before c2 ?e) else Some c2) = Some c3"
    "same_layout c2 c3" "core c3 = core c2" "c_math_initial c3 = c_math_initial c2"
    "\<forall>xs. c_purge_lru c \<and> lru_list c xs \<longrightarrow> lru_links c3 (xs @ [i])"
    by (rule queue_new_item [OF lr sh i(3,1,2) cf2(1) rv(3,4,10,11) cf2(2), of expires flags ?e])
  have f3: "same_config c2 c3" "c_hashtable c3 = c_hashtable c2" "c_stack c3 = c_stack c2" "c_sp c3 = c_sp c2"
    "c_bitmap c3 = c_bitmap c2" "c_bitmap_pos c3 = c_bitmap_pos c2" "c_n_items c3 = c_n_items c2"
    "c_data c3 = c_data c2" "prevf c3 = prevf c2" "nextf c3 = nextf c2"
    using c3(2) by (simp_all add: same_layout_def)
  have cf3: "c_keysize c3 = c_keysize c" "c_hash c3 = c_hash c" "c_blocksize c3 = c_blocksize c"
    "length (c_items c3) = length (c_items c)" "same_config c c3"
    using f3(1) rv(9) cf2 by (auto simp: same_config_def)
  have d3: "c_data c3 = c_data c" using f3(8) rv(16) by simp
  have a3: "i < length (c_items c3)" "length (ci_key (core c3 i)) = c_keysize c3" "length key \<le> c_keysize c3"
    "fb * c_blocksize c3 + length val \<le> length (c_data c3)"
    using i cf3 sh c3(3) rv(7) k reserved_fits [OF sh r] v d3 by (auto simp: shape_ok_def)
  obtain c4 where c4: "fill_item c3 i fb key val ?e flags = Some c4" "same_bookkeeping c3 c4"
    "c_hashtable c4 = c_hashtable c3" "c_n_items c4 = c_n_items c3"
    "prevf c4 = prevf c3" "nextf c4 = nextf c3" "lprevf c4 = lprevf c3" "lnextf c4 = lnextf c3"
    "c_lru_head c4 = c_lru_head c3" "c_lru_tail c4 = c_lru_tail c3"
    "\<forall>j. j \<noteq> i \<longrightarrow> core c4 j = core c3 j"
    "ci_keysize (core c4 i) = length key" "ci_hash (core c4 i) = unat (c_hash c3 key)"
    "ci_valsize (core c4 i) = length val" "ci_first_block (core c4 i) = ci_first_block (core c3 i)"
    "ci_expires (core c4 i) = ?e" "ci_flags (core c4 i) = flags"
    "take (length key) (ci_key (core c4 i)) = key" "length (ci_key (core c4 i)) = c_keysize c3"
    "mem_write (c_data c3) (fb * c_blocksize c3) val = Some (c_data c4)"
    by (rule fill_item_ok [OF a3(1,2,3) m a3(4), of ?e])
  have cf4: "same_config c c4" "c_stack c4 = c_stack c" "c_sp c4 = c_sp c - 1"
    "c_bitmap c4 = c_bitmap c2" "c_bitmap_pos c4 = c_bitmap_pos c2"
    using c4(2) cf3(5) f3 rv same_config_trans [OF cf3(5)] by (auto simp: same_bookkeeping_def)
  let ?h = "ci_hash (core c4 i) mod c_hashsize c4"
  have hs: "c_hashsize c4 = c_hashsize c" "0 < c_hashsize c" "c_hashtable c4 = c_hashtable c"
    using cf4(1) sh c4(3) f3(2) rv(12) by (auto simp: same_config_def shape_ok_def)
  then have h: "?h < c_hashsize c" by simp
  then obtain xs where b: "bucket_ok c ?h xs" using ha by (auto simp: hash_ok_def)
  have pv4: "prevf c4 = prevf c" "nextf c4 = nextf c" using c4(5,6) f3(9,10) rv(1,2) by simp_all
  have len4: "length (c_items c4) = length (c_items c)" "c_max_items c4 = c_max_items c"
    using cf4(1) by (auto simp: same_config_def)
  have b': "seg (prevf c4) (nextf c4) 0 xs 0" "c_hashtable c4 ! ?h = hd0 0 xs" "distinct xs" "i \<notin> set xs"
    "\<forall>x\<in>set xs. x < length (c_items c4)" "length xs \<le> c_max_items c4"
    using b bucket_len [OF b] i(3) live_lt [OF sh] pv4 hs len4 by (auto simp: bucket_ok_def)
  obtain c5 where c5: "link_item c4 i = Some c5" "same_but_hash_links c4 c5"
    "prevf c5 = (prevf c4)(i := last0 0 xs)" "nextf c5 = append_nx (nextf c4) xs i"
    "c_hashtable c5 = (if xs = [] then (c_hashtable c4)[?h := i] else c_hashtable c4)"
    by (rule link_item_effect [OF _ refl _ b'(1,2,3,4,5,6)]) (use i len4 hs in simp_all)
  have e5: "c5 = c4\<lparr>c_items := c_items c5, c_hashtable := c_hashtable c5\<rparr>"
    and l5: "length (c_items c5) = length (c_items c4)" "c_hashsize c5 = c_hashsize c4" "core c5 = core c4"
      "lprevf c5 = lprevf c4" "lnextf c5 = lnextf c4"
    using c5(2) unfolding same_but_hash_links_def by blast+
  have f5: "c_stack c5 = c_stack c4" "c_sp c5 = c_sp c4" "c_bitmap c5 = c_bitmap c4"
    "c_bitmap_pos c5 = c_bitmap_pos c4" "c_n_items c5 = c_n_items c4" "c_data c5 = c_data c4"
    "c_lru_head c5 = c_lru_head c4" "c_lru_tail c5 = c_lru_tail c4"
    by (subst e5, simp)+
  have sc: "same_config c4 c5" using l5(1,2) by (subst e5) (simp add: same_config_def)
  have lk: "lru_links c5 (ys @ [i])" if "c_purge_lru c \<and> lru_list c ys" for ys
    using that c3(5) lru_links_cong [of c5 c3] l5(4,5) c4(7,8,9,10) f5(7,8) by simp
  have s: "stored c c5 i fb key val ?e flags"
    unfolding stored_def l5(3) f5
    using same_config_trans [OF cf4(1) sc] cf4(2,3) c4 c3(3) rv(5,6,15) f3(7) cf3 d3 lk by auto
  have "hash_ok c5"
  proof (rule hash_ok_link [OF ha i(1) i(3) b _ h])
    show "?h = ci_hash (core c5 i) mod c_hashsize c" using l5(3) hs by simp
    show "c_hashsize c5 = c_hashsize c" using l5 hs by simp
    show "prevf c5 = (prevf c)(i := last0 0 xs)" "nextf c5 = append_nx (nextf c) xs i" using c5 pv4 by simp_all
    show "c_hashtable c5 = (if xs = [] then (c_hashtable c)[?h := i] else c_hashtable c)" using c5(5) hs by simp
    show "live c5 j \<longleftrightarrow> live c j \<or> j = i" for j by (rule stored_live(1) [OF s i(1,2) k(1)])
    show "ci_hash (core c5 j) = ci_hash (core c j)" if "j \<noteq> i" for j using s that by (simp add: stored_def)
  qed
  moreover have "store_new c2 i fb key val expires flags now =
      Some (set_done (c5\<lparr>c_n_items := sz_add (c_n_items c5) 1\<rparr>) 0 key val ?e flags now)"
    unfolding store_new_fill Let_def e2 c3(1) bind.bind_lunit c4(1) c5(1) ..
  ultimately show ?thesis using that [OF _ s] f5 cf4 by simp
qed


lemma lru_ok_stored:
  assumes lr: "lru_ok c" and s: "stored c c5 i fb key val e flags" and i: "0 < i" "i < c_max_items c"
    and k: "key \<noteq> []"
  shows "lru_ok c5"
proof (cases "c_purge_lru c")
  case True
  then obtain xs where x: "lru_list c xs" using lr by (auto simp: lru_ok_def)
  then have "lru_links c5 (xs @ [i])" using s True by (simp add: stored_def)
  moreover have "set (xs @ [i]) = {j. live c5 j}"
    using x stored_live(1) [OF s i k] by (auto simp: lru_list_def)
  ultimately have "lru_list c5 (xs @ [i])" by (simp add: lru_list_def)
  then show ?thesis by (auto simp: lru_ok_def)
next
  case False
  then show ?thesis using s by (simp add: lru_ok_def stored_def same_config_def)
qed

lemma entry_stored:
  assumes inv: "cache_inv c" and s: "stored c c5 i fb key val e flags"
    and r: "reserved c c2 i fb (length val)" and nl: "\<not> live c i"
  shows "live c j \<Longrightarrow> entry c5 j = entry c j" "entry c5 i = (val, e, flags)"
proof -
  have bs: "c_blocksize c5 = c_blocksize c" and co: "\<forall>j. j \<noteq> i \<longrightarrow> core c5 j = core c j"
    and w: "mem_write (c_data c) (fb * c_blocksize c) val = Some (c_data c5)"
    and ni: "ci_valsize (core c5 i) = length val" "ci_first_block (core c5 i) = fb"
      "ci_expires (core c5 i) = e" "ci_flags (core c5 i) = flags"
    using s by (auto simp: stored_def same_config_def)
  show "entry c5 j = entry c j" if j: "live c j"
  proof -
    have "new_blocks c fb (length val) \<inter> iblocks c j = {}" using r j by (simp add: reserved_def)
    from ivalue_other [OF inv j this w refl] have "ivalue c5 j = ivalue c j"
      using co j nl bs by (cases "j = i") (simp_all add: ivalue_def)
    then show ?thesis using co j nl by (cases "j = i") (simp_all add: entry_def)
  qed
  have "take (length val) (drop (fb * c_blocksize c) (c_data c5)) = val"
    using w by (auto simp: mem_write_def simp del: length_greater_0_conv split: if_splits dest!: sym [of _ "c_data c5"])
  then show "entry c5 i = (val, e, flags)" using ni bs by (simp add: entry_def ivalue_def)
qed

text \<open>A store of a new key from a reserved item: the map grows by that key, the invariant holds.\<close>

lemma store_new_ok:
  assumes inv: "cache_inv c" and r: "reserved c c2 i fb (length val)"
    and k: "key \<noteq> []" "length key \<le> c_keysize c" and v: "val \<noteq> []" and m: "\<not> FLAG_MATH flags"
    and new: "index_of c key = None"
  shows "\<exists>c'. store_new c2 i fb key val expires flags now = Some (0, c') \<and> cache_inv c' \<and>
     cmap c' = (cmap c)(key \<mapsto> (val, new_expires c expires flags now, flags))"
proof -
  have sh: "shape_ok c" and st: "stack_ok c" and lr: "lru_ok c" and ke: "keys_ok c" and bl: "blocks_ok c"
    using inv by (auto simp: cache_inv_def)
  have sp: "0 < c_sp c" and i: "i = c_stack c ! c_sp c" using r by (auto simp: reserved_def)
  have i3: "0 < i" "i < c_max_items c" "\<not> live c i" using stack_top [OF sh st sp] i by auto
  let ?e = "new_expires c expires flags now"
  obtain c5 where c5: "store_new c2 i fb key val expires flags now =
       Some (set_done (c5\<lparr>c_n_items := sz_add (c_n_items c5) 1\<rparr>) 0 key val ?e flags now)"
    "stored c c5 i fb key val ?e flags" "hash_ok c5" "c_bitmap c5 = c_bitmap c2" "c_bitmap_pos c5 = c_bitmap_pos c2"
    by (rule store_fill_link [OF inv r k v m])
  note s = c5(2) and lv = stored_live [OF c5(2) i3(1,2) k(1)]
  obtain n6 where n6: "sz_add (c_n_items c5) 1 = n6" by simp
  let ?c6 = "c5\<lparr>c_n_items := n6\<rparr>"
  have vw: "prevf ?c6 = prevf c5" "nextf ?c6 = nextf c5" "lprevf ?c6 = lprevf c5" "lnextf ?c6 = lnextf c5"
    "core ?c6 = core c5" using views_items [of ?c6 c5] by auto
  have lv6: "live ?c6 = live c5" "ikey ?c6 = ikey c5" "iblocks ?c6 = iblocks c5" "ivalue ?c6 = ivalue c5"
    using vw by (simp_all add: fun_eq_iff live_def ikey_def iblocks_def ivalue_def)
  have s0: "c_sp c5 = c_sp c - 1" "c_stack c5 = c_stack c" "c_max_items c5 = c_max_items c"
    "c_n_items c5 = c_n_items c" "c_blocks c5 = c_blocks c" "c_max_item_size c5 = c_max_item_size c"
    "c_blocksize c5 = c_blocksize c" "\<forall>j. j \<noteq> i \<longrightarrow> core c5 j = core c j"
    "ci_valsize (core c5 i) = length val" "ci_first_block (core c5 i) = fb"
    using s by (auto simp: stored_def same_config_def)
  have "card {j. live c j} \<le> card {..<c_max_items c}" by (rule card_mono) (auto simp: live_def)
  then have "c_n_items c < 2 ^ 63" using st sh by (simp add: stack_ok_def shape_ok_def)
  then have n: "c_n_items ?c6 = c_n_items c + 1" using s0 n6 by (simp add: sz_add_def)
  have "shape_ok ?c6" using shape_ok_stored [OF sh s] vw by (simp add: shape_ok_def)
  moreover have "hash_ok ?c6" using c5(3) by (simp add: hash_ok_def bucket_ok_def vw lv6)
  moreover have "keys_ok ?c6" using keys_ok_stored [OF ke s i3(1,2) k new] by (simp add: keys_ok_def vw lv6)
  moreover have "stack_ok ?c6"
    by (rule stack_ok_pop [OF st sh sp i _ _ _ n]) (use s0 lv lv6 in simp_all)
  moreover have "lru_ok ?c6"
    using lru_ok_stored [OF lr s i3(1,2) k(1)] by (simp add: lru_ok_def lru_list_def lru_links_def vw lv6)
  moreover have "blocks_ok ?c6"
    by (rule blocks_ok_new [OF bl r _ _ _ _ _ _ _ _ i3(3)]) (use s0 lv lv6 v c5 vw in simp_all)
  ultimately have i6: "cache_inv ?c6" by (simp add: cache_inv_def)
  have "cmap ?c6 = (cmap c)(key \<mapsto> entry ?c6 i)"
  proof (rule cmap_insert [OF ke _ i3(3)])
    show "keys_ok ?c6" by (rule \<open>keys_ok ?c6\<close>)
    show "entry ?c6 j = entry c j" if "live c j" for j
      using entry_stored(1) [OF inv s r i3(3) that] by (simp add: entry_def vw lv6)
  qed (use lv lv6 in simp_all)
  moreover have "entry ?c6 i = (val, ?e, flags)"
    using entry_stored(2) [OF inv s r i3(3)] by (simp add: entry_def vw lv6)
  moreover obtain c' where "set_done ?c6 0 key val ?e flags now = (0, c')" "cache_inv c'" "cmap c' = cmap ?c6"
    "\<forall>j. live c' j = live ?c6 j" "\<forall>j. ikey c' j = ikey ?c6 j"
    by (rule set_done_ok [OF i6])
  ultimately show ?thesis using c5(1) unfolding n6 by simp
qed


section \<open>The store of a new key\<close>

text \<open>Whether the blocks for a value are found, in bitmap mode.\<close>

definition room_for :: "cache \<Rightarrow> nat \<Rightarrow> bool" where
  "room_for c n \<longleftrightarrow> (case c_bitmap c of None \<Rightarrow> True
     | Some bm \<Rightarrow> uwsgi_cache_find_free_blocks bm (c_bitmap_pos c) (c_blocksize c) n \<noteq> None)"

lemma plain_reserved:
  assumes inv: "cache_inv c" and sp: "0 < c_sp c" and i: "i = c_stack c ! c_sp c" and bm: "c_bitmap c = None"
    and n: "0 < n" "n \<le> c_max_item_size c"
  shows "reserved c (upd (c\<lparr>c_sp := c_sp c - 1\<rparr>) i (\<lambda>u. u\<lparr>ci_first_block := i\<rparr>)) i i n"
proof -
  have sh: "shape_ok c" and st: "stack_ok c" and bl: "blocks_ok c" using inv by (auto simp: cache_inv_def)
  note top = stack_top [OF sh st sp, folded i]
  have bs: "0 < c_blocksize c" "n \<le> c_blocksize c" "c_max_items c \<le> c_blocks c"
    "\<And>j. live c j \<Longrightarrow> iblocks c j = {j}"
    using sh bl n bm by (auto simp: shape_ok_def blocks_ok_def)
  have "blocks_needed (c_blocksize c) n = 1"
    using bs(1,2) n(1) by (auto simp: blocks_needed_def le_less div_less)
  then have "new_blocks c i n = {i}" by (auto simp: new_blocks_def)
  moreover let ?c2 = "upd (c\<lparr>c_sp := c_sp c - 1\<rparr>) i (\<lambda>u. u\<lparr>ci_first_block := i\<rparr>)"
  have "?c2 = upd (c\<lparr>c_sp := c_sp c - 1, c_bitmap := c_bitmap ?c2, c_bitmap_pos := c_bitmap_pos ?c2\<rparr>) i
      (\<lambda>u. u\<lparr>ci_first_block := i\<rparr>)" using bm by (cases c) simp
  moreover have "c_bitmap ?c2 = None" using bm by simp
  moreover have "{i} \<subseteq> {..<c_blocks c}" using top(2) bs(3) by simp
  moreover have "\<forall>j. live c j \<longrightarrow> {i} \<inter> iblocks c j = {}" using top(3) bs(4) by auto
  ultimately show ?thesis unfolding reserved_def bm option.case using sp i by metis
qed

lemma bitmap_reserved:
  assumes inv: "cache_inv c" and sp: "0 < c_sp c" and i: "i = c_stack c ! c_sp c" and bm: "c_bitmap c = Some bm"
    and f: "uwsgi_cache_find_free_blocks bm (c_bitmap_pos c) (c_blocksize c) n = Some fb" and n: "0 < n"
  obtains c1 where "take_blocks (c\<lparr>c_sp := c_sp c - 1\<rparr>) bm n = Some (Some fb, c1)"
    "length (c_items c1) = length (c_items c)"
    "reserved c (upd c1 i (\<lambda>u. u\<lparr>ci_first_block := fb\<rparr>)) i fb n"
proof -
  have sh: "shape_ok c" and st: "stack_ok c" and bl: "blocks_ok c" using inv by (auto simp: cache_inv_def)
  have bs: "0 < c_blocksize c" "c_blocks c \<le> 8 * length bm" "c_bitmap_pos c < c_blocks c"
    "\<And>b. b < 8 * length bm \<Longrightarrow> used bm b \<longleftrightarrow> c_blocks c \<le> b \<or> (\<exists>i. live c i \<and> b \<in> iblocks c i)"
    using sh bl bm by (auto simp: shape_ok_def blocks_ok_def)
  let ?k = "blocks_needed (c_blocksize c) n"
  have k: "0 < ?k" by (rule blocks_needed_pos [OF bs(1) n])
  have "c_bitmap_pos c < 8 * length bm" using bs(2,3) by linarith
  from find_free_blocks_spec [OF this bs(1) n] f
  have run: "fb + ?k \<le> 8 * length bm" "free_run bm fb ?k" by auto
  have free: "\<not> used bm b" "b < 8 * length bm" if "b \<in> new_blocks c fb n" for b
    using that run by (auto simp: new_blocks_def free_run_def)
  have nb: "new_blocks c fb n \<subseteq> {..<c_blocks c}" "\<And>j. live c j \<Longrightarrow> new_blocks c fb n \<inter> iblocks c j = {}"
    using free bs(4) by force+
  obtain bm' where m: "cache_mark_blocks (c_blocksize c) bm fb n = Some (?k, bm')" "length bm' = length bm"
    "\<And>b. b < 8 * length bm \<Longrightarrow> used bm' b \<longleftrightarrow> used bm b \<or> fb \<le> b \<and> b < fb + ?k"
    by (rule cache_mark_blocks_spec [OF bs(1) n run(1)]) (rule that)
  let ?p = "if fb + ?k \<ge> c_blocks c then 0 else fb + ?k"
  let ?c1 = "c\<lparr>c_sp := c_sp c - 1, c_bitmap := Some bm', c_bitmap_pos := ?p\<rparr>"
  have "take_blocks (c\<lparr>c_sp := c_sp c - 1\<rparr>) bm n = Some (Some fb, ?c1)"
    using f m(1) by (simp add: take_blocks_def)
  moreover have "?p < c_blocks c" using bs(3) by auto
  moreover have "\<forall>b<8 * length bm. used bm' b \<longleftrightarrow> used bm b \<or> b \<in> new_blocks c fb n"
    using m(3) by (simp add: new_blocks_def)
  ultimately show ?thesis
    using that [of ?c1] sp i bm nb m(2) by (simp add: reserved_def)
qed

lemma set_new_ok:
  assumes inv: "cache_inv c" and sp: "0 < c_sp c"
    and k: "key \<noteq> []" "length key \<le> c_keysize c" and v: "val \<noteq> []" "length val \<le> c_max_item_size c"
    and m: "\<not> FLAG_MATH flags" and new: "index_of c key = None" and rm: "room_for c (length val)"
  shows "\<exists>c'. set_new c key val expires flags now = Some (0, c') \<and> cache_inv c' \<and>
     cmap c' = (cmap c)(key \<mapsto> (val, new_expires c expires flags now, flags))"
proof -
  have sh: "shape_ok c" and st: "stack_ok c" using inv by (auto simp: cache_inv_def)
  let ?i = "c_stack c ! c_sp c"
  note top = stack_top [OF sh st sp]
  have il: "?i < length (c_items c)" using top sh by (simp add: shape_ok_def)
  have g: "mem_get (c_stack c) (c_sp c) = Some ?i"
    using sh st by (simp add: mem_get_def shape_ok_def stack_ok_def)
  have v0: "0 < length val" using v by simp
  show ?thesis
  proof (cases "c_bitmap c")
    case None
    let ?c2 = "upd (c\<lparr>c_sp := c_sp c - 1\<rparr>) ?i (\<lambda>u. u\<lparr>ci_first_block := ?i\<rparr>)"
    have "set_new c key val expires flags now = store_new ?c2 ?i ?i key val expires flags now"
      using g None il by (simp add: set_new_def Let_def upd_item_ok)
    then show ?thesis
      using store_new_ok [OF inv plain_reserved [OF inv sp refl None v0 v(2)] k v(1) m new] by simp
  next
    case (Some bm)
    then obtain fb where f: "uwsgi_cache_find_free_blocks bm (c_bitmap_pos c) (c_blocksize c) (length val) = Some fb"
      using rm by (auto simp: room_for_def)
    obtain c1 where c1: "take_blocks (c\<lparr>c_sp := c_sp c - 1\<rparr>) bm (length val) = Some (Some fb, c1)"
      "length (c_items c1) = length (c_items c)"
      "reserved c (upd c1 ?i (\<lambda>u. u\<lparr>ci_first_block := fb\<rparr>)) ?i fb (length val)"
      by (rule bitmap_reserved [OF inv sp refl Some f v0])
    have "set_new c key val expires flags now =
        store_new (upd c1 ?i (\<lambda>u. u\<lparr>ci_first_block := fb\<rparr>)) ?i fb key val expires flags now"
      using g Some il c1(1,2) by (simp add: set_new_def Let_def upd_item_ok)
    then show ?thesis using store_new_ok [OF inv c1(3) k v(1) m new] by simp
  qed
qed


section \<open>The initialised cache\<close>

lemma init_bitmap_length:
  "length (init_bitmap blocks) = blocks div 8 + (if blocks mod 8 = 0 then 0 else 1)"
  by (simp add: init_bitmap_def Let_def del: replicate.simps list_update.simps)

lemma init_bitmap_covers: "blocks \<le> 8 * length (init_bitmap blocks)"
  by (simp add: init_bitmap_length) presburger

lemma init_bitmap_used:
  assumes "b < 8 * length (init_bitmap blocks)"
  shows "used (init_bitmap blocks) b \<longleftrightarrow> blocks \<le> b"
proof (cases "blocks mod 8 = 0")
  case True
  then have "b < blocks" using assms by (auto simp: init_bitmap_def)
  moreover have "b div 8 < blocks div 8" using \<open>b < blocks\<close> True by auto
  ultimately show ?thesis using True by (simp add: init_bitmap_def used_def)
next
  case False
  let ?m = "blocks mod 8" and ?q = "blocks div 8"
  have e: "init_bitmap blocks = (replicate (?q + 1) 0)[?q := drop_bit ?m 0xff]"
    using False by (simp add: init_bitmap_def Let_def)
  have b: "b div 8 \<le> ?q" using assms False by (auto simp: init_bitmap_length)
  have bl: "blocks = ?q * 8 + ?m" "b = b div 8 * 8 + b mod 8" by simp_all
  show ?thesis
  proof (cases "b div 8 = ?q")
    case True
    have "bit (0xff :: byte) k \<longleftrightarrow> k < 8" for k
      using bit_mask_iff [of 8 k, where 'a = "8 word"] by (simp add: mask_eq_exp_minus_1)
    then have "used (init_bitmap blocks) b \<longleftrightarrow> ?m + (7 - b mod 8) < 8"
      using True unfolding e by (simp add: used_def bit_drop_bit_eq del: replicate.simps list_update.simps)
    moreover have "b mod 8 < 8" by simp
    then have "?m + (7 - b mod 8) < 8 \<longleftrightarrow> ?m \<le> b mod 8" by linarith
    moreover have "?m \<le> b mod 8 \<longleftrightarrow> blocks \<le> b" using True bl by linarith
    ultimately show ?thesis by simp
  next
    case False
    then have "b div 8 < ?q" using b by simp
    moreover have "b mod 8 < 8" by simp
    ultimately have "b < blocks" using bl by linarith
    then show ?thesis using \<open>b div 8 < ?q\<close> unfolding e
      by (simp add: used_def del: replicate.simps list_update.simps)
  qed
qed



definition fresh_config :: "cache \<Rightarrow> nat \<Rightarrow> bool \<Rightarrow> bool" where
  "fresh_config c hashsize bm \<longleftrightarrow>
     0 < c_max_items c \<and> c_max_items c < 2 ^ 63 \<and> 0 < hashsize \<and> 0 < c_blocksize c \<and>
     c_n_items c = 0 \<and> c_lru_head c = 0 \<and> c_lru_tail c = 0 \<and>
     (if bm then c_bitmap_pos c < c_blocks c
      else c_max_items c \<le> c_blocks c \<and> c_max_item_size c \<le> c_blocksize c)"

lemma init_ok:
  assumes "fresh_config c hashsize bm"
  shows "cache_inv (uwsgi_cache_init c hashsize bm)" "cmap (uwsgi_cache_init c hashsize bm) = Map.empty"
    "index_of (uwsgi_cache_init c hashsize bm) k = None"
proof -
  let ?c = "uwsgi_cache_init c hashsize bm"
  have f: "c_max_items ?c = c_max_items c" "c_items ?c = replicate (c_max_items c) (blank_item (c_keysize c))"
    "c_stack ?c = [0..<c_max_items c]" "c_sp ?c = c_max_items c - 1" "c_hashtable ?c = replicate hashsize 0"
    "c_keysize ?c = c_keysize c" "c_blocks ?c = c_blocks c" "c_blocksize ?c = c_blocksize c"
    "c_data ?c = replicate (c_blocksize c * c_blocks c) 0" "c_n_items ?c = c_n_items c"
    "c_lru_head ?c = c_lru_head c" "c_lru_tail ?c = c_lru_tail c" "c_bitmap_pos ?c = c_bitmap_pos c"
    "c_max_item_size ?c = c_max_item_size c"
    "c_bitmap ?c = (if bm then Some (init_bitmap (c_blocks c)) else None)"
    by (simp_all add: uwsgi_cache_init_def)
  have n: "\<not> live ?c i" for i by (simp add: live_def core_def f blank_item_def)
  have st: "drop (Suc 0) [0..<c_max_items c] = [1..<c_max_items c]" by simp
  have "shape_ok ?c" using assms by (simp add: shape_ok_def fresh_config_def f core_def blank_item_def)
  moreover have "hash_ok ?c"
    unfolding hash_ok_def bucket_ok_def by (intro allI impI exI [of _ "[]"]) (use n f in simp_all)
  moreover have "keys_ok ?c" using n by (simp add: keys_ok_def)
  moreover have "stack_ok ?c" using assms n by (auto simp: stack_ok_def f fresh_config_def)
  moreover have "lru_ok ?c"
    unfolding lru_ok_def lru_list_def lru_links_def
    by (intro impI exI [of _ "[]"]) (use n f assms in \<open>simp_all add: fresh_config_def\<close>)
  moreover have "blocks_ok ?c"
    using assms n init_bitmap_covers unfolding blocks_ok_def f fresh_config_def
    by (cases bm) (simp_all add: init_bitmap_used)
  ultimately show "cache_inv ?c" by (simp add: cache_inv_def)
  show "index_of ?c k = None" for k using n by (simp add: index_of_def find_None_iff)
  then show "cmap ?c = Map.empty" by (simp add: cmap_def fun_eq_iff)
qed


section \<open>Properties of the store\<close>

definition storable :: "cache \<Rightarrow> bytes \<Rightarrow> bytes \<Rightarrow> nat \<Rightarrow> bool" where
  "storable c key val flags \<longleftrightarrow> key \<noteq> [] \<and> length key \<le> c_keysize c \<and> val \<noteq> [] \<and>
     length val \<le> c_max_item_size c \<and> \<not> FLAG_MATH flags"

lemma set2_unfold:
  assumes "storable c key val flags" "cache_inv c" "index_of c key = None" "0 < c_sp c"
  shows "uwsgi_cache_set2 c key val expires flags now = set_new c key val expires flags now"
  using assms get_index_spec [OF assms(2), of key now]
  by (auto simp: uwsgi_cache_set2_def storable_def simp del: length_greater_0_conv)

text \<open>
  C7: the store of a key the cache does not hold, with an unused item and, in bitmap mode, free
  blocks, returns 0, keeps the invariant and adds exactly the key with the value, the computed
  expiration and the flags to the map of the cache.
\<close>

theorem uwsgi_cache_set2_inserts:
  assumes "cache_inv c" "storable c key val flags" "index_of c key = None" "0 < c_sp c"
    and "room_for c (length val)"
  shows "\<exists>c'. uwsgi_cache_set2 c key val expires flags now = Some (0, c') \<and> cache_inv c' \<and>
     cmap c' = (cmap c)(key \<mapsto> (val, new_expires c expires flags now, flags))"
  using set_new_ok [OF assms(1,4) _ _ _ _ _ assms(3,5)] set2_unfold [OF assms(2,1,3,4)] assms(2)
  unfolding storable_def by metis

text \<open>A small cache in bitmap mode, freshly initialised, and one with the key \<open>a\<close> in it.\<close>

definition tiny_config :: cache where
  "tiny_config = \<lparr>c_keysize = 4, c_blocks = 8, c_blocksize = 4, c_hash = (\<lambda>k. word_of_nat (length k)),
     c_hashtable = [], c_stack = [], c_sp = 0, c_bitmap = None, c_bitmap_pos = 0, c_max_items = 4,
     c_max_item_size = 16, c_n_items = 0, c_items = [], c_use_last_modified = False,
     c_last_modified_at = 0, c_data = [], c_no_expire = False, c_full = 0, c_hits = 0, c_miss = 0,
     c_math_initial = 0, c_nodes = 0, c_sent = [], c_next_scan = 0, c_purge_lru = False,
     c_lru_head = 0, c_lru_tail = 0, c_lazy_expire = True, c_sweep_on_full = 0, c_clear_on_full = False\<rparr>"

definition tiny_cache :: cache where
  "tiny_cache = uwsgi_cache_init tiny_config 2 True"

lemma tiny_fresh: "fresh_config tiny_config 2 True"
  by (simp add: fresh_config_def tiny_config_def)

lemma tiny_storable: "storable tiny_cache [97] [1, 2, 3, 4, 5] 0"
  by (simp add: storable_def tiny_cache_def uwsgi_cache_init_def tiny_config_def)

lemma tiny_room: "0 < c_sp tiny_cache" "room_for tiny_cache (length [1::8 word, 2, 3, 4, 5])"
  by code_simp+

theorem uwsgi_cache_set2_inserts_witness:
  "\<exists>c'. uwsgi_cache_set2 tiny_cache [97] [1, 2, 3, 4, 5] 7 0 100 = Some (0, c') \<and> cache_inv c' \<and>
     cmap c' = (cmap tiny_cache)([97] \<mapsto> ([1, 2, 3, 4, 5], new_expires tiny_cache 7 0 100, 0))"
proof (rule uwsgi_cache_set2_inserts [OF _ tiny_storable])
  show "cache_inv tiny_cache" "index_of tiny_cache [97] = None"
    using init_ok [OF tiny_fresh] by (simp_all flip: tiny_cache_def)
  show "0 < c_sp tiny_cache" by (rule tiny_room)
  show "room_for tiny_cache (length [1::8 word, 2, 3, 4, 5])" by (rule tiny_room)
qed

text \<open>
  C11: an initialised cache, in either mode, satisfies the invariant and stands for the empty map.
\<close>

theorem uwsgi_cache_init_empty:
  assumes "fresh_config c hashsize bm"
  shows "cache_inv (uwsgi_cache_init c hashsize bm) \<and> cmap (uwsgi_cache_init c hashsize bm) = Map.empty"
  using init_ok [OF assms] by blast

theorem uwsgi_cache_init_empty_witness:
  "cache_inv (uwsgi_cache_init tiny_config 2 True) \<and> cmap (uwsgi_cache_init tiny_config 2 True) = Map.empty"
  by (rule uwsgi_cache_init_empty [OF tiny_fresh])

section \<open>Properties of lookups and deletions\<close>

lemma tiny_stored:
  obtains c' i where "uwsgi_cache_set2 tiny_cache [97] [1, 2, 3, 4, 5] 7 0 100 = Some (0, c')" "cache_inv c'"
    "cmap c' [97] = Some ([1, 2, 3, 4, 5], 107, 0)" "index_of c' [97] = Some i" "\<not> stale c' 106 i"
    "ci_flags (core c' i) = 0" "ci_expires (core c' i) = 107"
proof -
  note i = init_ok [OF tiny_fresh, folded tiny_cache_def]
  have "room_for tiny_cache (length [1::8 word, 2, 3, 4, 5])" by (rule tiny_room)
  then obtain c' where c': "uwsgi_cache_set2 tiny_cache [97] [1, 2, 3, 4, 5] 7 0 100 = Some (0, c')" "cache_inv c'"
      "cmap c' = (cmap tiny_cache)([97] \<mapsto> ([1, 2, 3, 4, 5], new_expires tiny_cache 7 0 100, 0))"
    using set_new_ok [OF i(1) tiny_room(1) _ _ _ _ _ i(3), of "[97]" "[1, 2, 3, 4, 5]" 0 7 100]
      set2_unfold [OF tiny_storable i(1,3) tiny_room(1), of 7 100] tiny_storable
    unfolding storable_def by metis
  have "new_expires tiny_cache 7 0 100 = 107"
    by (simp add: new_expires_def tiny_cache_def uwsgi_cache_init_def tiny_config_def sz_add_def)
  then have m: "cmap c' [97] = Some ([1, 2, 3, 4, 5], 107, 0)" using c'(3) by simp
  then obtain i where "index_of c' [97] = Some i" "entry c' i = ([1, 2, 3, 4, 5], 107, 0)"
    by (auto simp: cmap_def)
  then show ?thesis using that [OF c'(1,2) m] by (simp add: entry_def stale_def)
qed

text \<open>
  C10: under the invariant a lookup is the lookup in the map of the cache: it answers the item
  that holds the key, or 0 for none; with lazy expiration a stale item is removed and not
  found.  The invariant is kept, and the loop alarm is never reached.
\<close>

theorem uwsgi_cache_get_index_correct:
  assumes "cache_inv c"
  shows "case index_of c key of
      None \<Rightarrow> uwsgi_cache_get_index c key now = Some (0, c)
    | Some i \<Rightarrow>
        if stale c now i
        then \<exists>c'. uwsgi_cache_get_index c key now = Some (0, c') \<and> cache_inv c' \<and> cmap c' = (cmap c)(key := None)
        else uwsgi_cache_get_index c key now = Some (i, c) \<and> live c i \<and> ikey c i = key"
proof (cases "index_of c key")
  case None
  then show ?thesis using get_index_spec [OF assms] by simp
next
  case (Some i)
  have sh: "shape_ok c" and ke: "keys_ok c" using assms by (auto simp: cache_inv_def)
  have l: "live c i" "ikey c i = key" using index_of_Some [OF ke] Some by auto
  have g: "uwsgi_cache_get_index c key now =
      (if stale c now i then map_option (Pair 0) (del_item c i now) else Some (i, c))"
    using get_index_spec [OF assms] Some check_lazy_spec [OF sh l(1)] by simp
  obtain c' where "del_item c i now = Some c'" "cache_inv c'" "same_config c c'"
    "\<forall>j. live c' j \<longleftrightarrow> live c j \<and> j \<noteq> i" "\<forall>j. j \<noteq> i \<longrightarrow> core c' j = core c j" "c_data c' = c_data c"
    using del_item_inv [OF assms l(1), of now] by metis
  moreover from this have "cmap c' = (cmap c)(ikey c i := None)"
    using assms l(1) by (intro cmap_delete) auto
  ultimately have "stale c now i \<Longrightarrow> uwsgi_cache_get_index c key now = Some (0, c') \<and> cache_inv c' \<and>
      cmap c' = (cmap c)(key := None)" using g l(2) by simp
  with g l show ?thesis
    unfolding Some by (simp only: option.case) (cases "stale c now i"; simp only: if_True if_False; blast)
qed

theorem uwsgi_cache_get_index_correct_witness:
  "\<exists>c' i c''. uwsgi_cache_set2 tiny_cache [97] [1, 2, 3, 4, 5] 7 0 100 = Some (0, c') \<and>
     uwsgi_cache_get_index c' [97] 106 = Some (i, c'') \<and> live c'' i \<and> ikey c'' i = [97]"
proof -
  obtain c' i where c': "uwsgi_cache_set2 tiny_cache [97] [1, 2, 3, 4, 5] 7 0 100 = Some (0, c')" "cache_inv c'"
    "cmap c' [97] = Some ([1, 2, 3, 4, 5], 107, 0)" "index_of c' [97] = Some i" "\<not> stale c' 106 i"
    "ci_flags (core c' i) = 0" "ci_expires (core c' i) = 107" by (rule tiny_stored)
  from uwsgi_cache_get_index_correct [OF c'(2), of "[97]" 106] show ?thesis
    using c' by auto
qed


text \<open>
  C8: a read returns the value the map of the cache holds for the key, as a region of the data
  area, with its expiration; a missing, stale or ungettable item gives the null pointer.  The
  map does not change, except that a stale item is gone.
\<close>

theorem uwsgi_cache_get3_correct:
  assumes "cache_inv c"
  shows "\<exists>r c'. uwsgi_cache_get3 c key now = Some (r, c') \<and> cache_inv c' \<and>
     (case index_of c key of
        None \<Rightarrow> r = None \<and> cmap c' = cmap c
      | Some i \<Rightarrow>
          if stale c now i then r = None \<and> cmap c' = (cmap c)(key := None)
          else if FLAG_UNGETTABLE (ci_flags (core c i)) then r = None \<and> c' = c
          else (\<exists>off n. r = Some (off, n, ci_expires (core c i)) \<and> off + n \<le> length (c_data c') \<and>
                  cmap c key = Some (take n (drop off (c_data c')), ci_expires (core c i), ci_flags (core c i)) \<and>
                  cmap c' = cmap c))"
proof (cases "index_of c key")
  case None
  then show ?thesis
    using get_index_spec [OF assms] miss_ok [OF assms] by (simp add: uwsgi_cache_get3_def)
next
  case (Some i)
  have sh: "shape_ok c" and ke: "keys_ok c" using assms by (auto simp: cache_inv_def)
  have l: "live c i" "ikey c i = key" using index_of_Some [OF ke] Some by auto
  have il: "i < length (c_items c)" "i \<noteq> 0" using live_lt [OF sh l(1)] l(1) by (auto simp: live_def)
  have g: "uwsgi_cache_get_index c key now =
      (if stale c now i then map_option (Pair 0) (del_item c i now) else Some (i, c))"
    using get_index_spec [OF assms] Some check_lazy_spec [OF sh l(1)] by simp
  show ?thesis
  proof (cases "stale c now i")
    case True
    obtain c1 where c1: "del_item c i now = Some c1" "cache_inv c1" "same_config c c1"
      "\<forall>j. live c1 j \<longleftrightarrow> live c j \<and> j \<noteq> i" "\<forall>j. j \<noteq> i \<longrightarrow> core c1 j = core c j" "c_data c1 = c_data c"
      using del_item_inv [OF assms l(1), of now] by metis
    then have "cmap c1 = (cmap c)(key := None)"
      using cmap_delete [OF assms c1(2,3) l(1)] l(2) by simp
    then show ?thesis
      using True Some g c1(1) miss_ok [OF c1(2)] by (simp add: uwsgi_cache_get3_def)
  next
    case False
    show ?thesis
    proof (cases "FLAG_UNGETTABLE (ci_flags (core c i))")
      case True
      then show ?thesis
        using False Some g il assms by (simp add: uwsgi_cache_get3_def get_item_ok core_fields)
    next
      case gettable: False
      obtain c1 where c1: "lru_refresh c i = Some c1" "cache_inv c1" "same_layout c c1" "core c1 = core c"
        by (rule lru_refresh_ok [OF assms l(1)])
      have l1: "live c1 i" using same_layout_views(1) [OF c1(3)] l(1) by simp
      obtain c2 where c2: "touch_item c1 i = Some c2" "cache_inv c2" "same_layout c1 c2" "cmap c2 = cmap c1"
        by (rule touch_item_ok [OF c1(2) l1])
      have sl: "same_layout c c2" using c1(3) c2(3) by (rule same_layout_trans)
      have d: "c_data c2 = c_data c" using sl by (simp add: same_layout_def)
      have bs: "c_blocksize c2 = c_blocksize c" using sl by (simp add: same_layout_def same_config_def)
      have "cmap c1 = cmap c" using c1(4) by (intro same_layout_cmap [OF c1(3)]) simp
      moreover have "cmap c key = Some (entry c i)" using Some by (simp add: cmap_def)
      moreover have "c_blocksize c1 = c_blocksize c" using c1(3) by (simp add: same_layout_def same_config_def)
      ultimately show ?thesis
        using False gettable Some g il c1(1) c2 d bs value_in_data [OF assms l(1)]
        by (simp add: uwsgi_cache_get3_def get_item_ok core_fields entry_def ivalue_def)
    qed
  qed
qed

theorem uwsgi_cache_get3_correct_witness:
  "\<exists>c' off n c''. uwsgi_cache_set2 tiny_cache [97] [1, 2, 3, 4, 5] 7 0 100 = Some (0, c') \<and>
     uwsgi_cache_get3 c' [97] 106 = Some (Some (off, n, 107), c'') \<and>
     take n (drop off (c_data c'')) = [1, 2, 3, 4, 5]"
proof -
  obtain c' i where c': "uwsgi_cache_set2 tiny_cache [97] [1, 2, 3, 4, 5] 7 0 100 = Some (0, c')" "cache_inv c'"
    "cmap c' [97] = Some ([1, 2, 3, 4, 5], 107, 0)" "index_of c' [97] = Some i" "\<not> stale c' 106 i"
    "ci_flags (core c' i) = 0" "ci_expires (core c' i) = 107" by (rule tiny_stored)
  from uwsgi_cache_get3_correct [OF c'(2), of "[97]" 106] show ?thesis
    using c' by auto
qed


text \<open>
  C9: a delete by key removes exactly that key from the map, keeps the invariant and returns 0
  when the key was there (and not stale), -1 otherwise.
\<close>

theorem uwsgi_cache_del2_correct:
  assumes "cache_inv c"
  shows "\<exists>r c'. uwsgi_cache_del2 c key 0 flags now = Some (r, c') \<and> cache_inv c' \<and>
     cmap c' = (cmap c)(key := None) \<and>
     r = (case index_of c key of Some i \<Rightarrow> if stale c now i then -1 else 0 | None \<Rightarrow> -1)"
proof (cases "index_of c key")
  case None
  then have "cmap c = (cmap c)(key := None)" by (auto simp: fun_eq_iff cmap_def)
  then show ?thesis using None get_index_spec [OF assms] assms by (simp add: uwsgi_cache_del2_def)
next
  case (Some i)
  have sh: "shape_ok c" and ke: "keys_ok c" using assms by (auto simp: cache_inv_def)
  have l: "live c i" "ikey c i = key" using index_of_Some [OF ke] Some by auto
  have i0: "i \<noteq> 0" using l(1) by (auto simp: live_def)
  have g: "uwsgi_cache_get_index c key now =
      (if stale c now i then map_option (Pair 0) (del_item c i now) else Some (i, c))"
    using get_index_spec [OF assms] Some check_lazy_spec [OF sh l(1)] by simp
  obtain c1 where c1: "del_item c i now = Some c1" "cache_inv c1" "same_config c c1"
    "\<forall>j. live c1 j \<longleftrightarrow> live c j \<and> j \<noteq> i" "\<forall>j. j \<noteq> i \<longrightarrow> core c1 j = core c j" "c_data c1 = c_data c"
    using del_item_inv [OF assms l(1), of now] by metis
  then have m: "cmap c1 = (cmap c)(key := None)"
    using cmap_delete [OF assms c1(2,3) l(1)] l(2) by simp
  have snd: "cache_inv (cache_send_udp_command c1 key [] 0 11)"
    "cmap (cache_send_udp_command c1 key [] 0 11) = cmap c1"
    using sent_ok [OF c1(2)] by (simp_all add: cache_send_udp_command_def)
  show ?thesis
    using Some g i0 c1(1,2) m snd by (auto simp: uwsgi_cache_del2_def)
qed

theorem uwsgi_cache_del2_correct_witness:
  "\<exists>c' c''. uwsgi_cache_set2 tiny_cache [97] [1, 2, 3, 4, 5] 7 0 100 = Some (0, c') \<and>
     uwsgi_cache_del2 c' [97] 0 0 106 = Some (0, c'') \<and> cache_inv c'' \<and> cmap c'' [97] = None"
proof -
  obtain c' i where c': "uwsgi_cache_set2 tiny_cache [97] [1, 2, 3, 4, 5] 7 0 100 = Some (0, c')" "cache_inv c'"
    "cmap c' [97] = Some ([1, 2, 3, 4, 5], 107, 0)" "index_of c' [97] = Some i" "\<not> stale c' 106 i"
    "ci_flags (core c' i) = 0" "ci_expires (core c' i) = 107" by (rule tiny_stored)
  from uwsgi_cache_del2_correct [OF c'(2), of "[97]" 0 106] show ?thesis
    using c' by auto
qed


end
