(* ===== verification/Buffer.thy ===== *)
theory Buffer
  imports Prelude
begin

text \<open>
  The growable byte buffer of \<^verbatim>\<open>core/buffer.c\<close> (\<^verbatim>\<open>struct uwsgi_buffer\<close>), on which the response
  writers, the uwsgi packet builders, the websocket and the chunked readers rest.

  The allocated area \<open>buf\<close> is a byte list; \<open>blen\<close>, \<open>bpos\<close> and \<open>limit\<close> are the fields
  \<^verbatim>\<open>len\<close>, \<^verbatim>\<open>pos\<close> and \<^verbatim>\<open>limit\<close>.  The well-formedness \<open>ub_wf\<close> says that \<open>blen\<close> is the size of
  the area and \<open>bpos\<close> lies inside it.  The heap is a parameter (record \<open>cenv\<close>): whether
  an allocation of a given size succeeds and which byte fresh memory holds; the page size of
  the server is read from it too.  The abstract value of a buffer is the byte string written
  so far, \<open>ub_data\<close>.
\<close>

record cenv =
  page_size :: nat
  alloc_ok :: "nat \<Rightarrow> bool"
  junk :: byte

record ubuf =
  buf :: bytes
  bpos :: nat
  blen :: nat
  limit :: nat

section \<open>Operations\<close>

definition uwsgi_buffer_new :: "cenv \<Rightarrow> nat \<Rightarrow> ubuf" where
  "uwsgi_buffer_new e n =
     (if n \<noteq> 0 then \<lparr>buf = replicate n (junk e), bpos = 0, blen = n, limit = 0\<rparr>
      else \<lparr>buf = [], bpos = 0, blen = 0, limit = 0\<rparr>)"

text \<open>\<^verbatim>\<open>realloc\<close>: the old bytes are kept up to the smaller size, the rest is fresh.\<close>

definition realloc_area :: "cenv \<Rightarrow> bytes \<Rightarrow> nat \<Rightarrow> bytes option" where
  "realloc_area e m n =
     (if alloc_ok e n then Some (take n m @ replicate (n - length m) (junk e)) else None)"

definition uwsgi_buffer_fix :: "cenv \<Rightarrow> ubuf \<Rightarrow> nat \<Rightarrow> ubuf \<times> int" where
  "uwsgi_buffer_fix e ub n =
     (if limit ub > 0 \<and> n > limit ub then (ub, -1)
      else if blen ub < n then
        (case realloc_area e (buf ub) n of
           None \<Rightarrow> (ub, -1)
         | Some m \<Rightarrow> (ub\<lparr>buf := m, blen := n\<rparr>, 0))
      else (ub, 0))"

definition uwsgi_buffer_ensure :: "cenv \<Rightarrow> ubuf \<Rightarrow> nat \<Rightarrow> ubuf \<times> int" where
  "uwsgi_buffer_ensure e ub n =
     (let remains = sz_sub (blen ub) (bpos ub) in
      if remains < n then
        let new_len = sz_add (blen ub) (sz_sub n remains);
            capped = limit ub > 0 \<and> new_len > limit ub;
            new_len' = (if capped then limit ub else new_len)
        in if capped \<and> new_len' = blen ub then (ub, -1)
           else (case realloc_area e (buf ub) new_len' of
                   None \<Rightarrow> (ub, -1)
                 | Some m \<Rightarrow> (ub\<lparr>buf := m, blen := new_len'\<rparr>, 0))
      else (ub, 0))"

definition uwsgi_buffer_append :: "cenv \<Rightarrow> ubuf \<Rightarrow> bytes \<Rightarrow> (ubuf \<times> int) option" where
  "uwsgi_buffer_append e ub s =
     (let n = length s;
          remains = sz_sub (blen ub) (bpos ub);
          chunk0 = max n (page_size e);
          over0 = limit ub > 0 \<and> sz_add (blen ub) chunk0 > limit ub;
          chunk = (if over0 \<and> n < page_size e then n else chunk0)
      in if n > remains then
           if over0 \<and> sz_add (blen ub) chunk > limit ub then Some (ub, -1)
           else (case realloc_area e (buf ub) (sz_add (blen ub) chunk) of
                   None \<Rightarrow> Some (ub, -1)
                 | Some m \<Rightarrow> do {
                     m' \<leftarrow> mem_write m (bpos ub) s;
                     Some (ub\<lparr>buf := m', blen := sz_add (blen ub) chunk, bpos := bpos ub + n\<rparr>, 0)
                   })
         else do {
           m' \<leftarrow> mem_write (buf ub) (bpos ub) s;
           Some (ub\<lparr>buf := m', bpos := bpos ub + n\<rparr>, 0)
         })"

definition uwsgi_buffer_insert :: "cenv \<Rightarrow> ubuf \<Rightarrow> nat \<Rightarrow> bytes \<Rightarrow> (ubuf \<times> int) option" where
  "uwsgi_buffer_insert e ub p s =
     (let to_move = sz_sub (bpos ub) p;
          (ub1, r) = uwsgi_buffer_ensure e ub (length s)
      in if r \<noteq> 0 then Some (ub1, -1)
         else do {
           m1 \<leftarrow> mem_move (buf ub1) (p + length s) p to_move;
           m2 \<leftarrow> mem_write m1 p s;
           Some (ub1\<lparr>buf := m2, bpos := bpos ub1 + length s\<rparr>, 0)
         })"

definition uwsgi_buffer_decapitate :: "ubuf \<Rightarrow> nat \<Rightarrow> (ubuf \<times> int) option" where
  "uwsgi_buffer_decapitate ub n =
     (if n > bpos ub then Some (ub, -1)
      else do {
        m \<leftarrow> mem_move (buf ub) 0 n (bpos ub - n);
        Some (ub\<lparr>buf := m, bpos := bpos ub - n\<rparr>, 0)
      })"

text \<open>
  A sequence of appends, each guarded by \<^verbatim>\<open>if (...) return -1\<close>: the first failure stops it.
\<close>

fun app_seq :: "('b \<Rightarrow> bytes \<Rightarrow> ('b \<times> int) option) \<Rightarrow> 'b \<Rightarrow> bytes list \<Rightarrow> ('b \<times> int) option" where
  "app_seq app b [] = Some (b, 0)"
| "app_seq app b (s # ss) =
     (case app b s of
        None \<Rightarrow> None
      | Some (b1, r) \<Rightarrow> if r \<noteq> 0 then Some (b1, -1) else app_seq app b1 ss)"

abbreviation append_all :: "cenv \<Rightarrow> ubuf \<Rightarrow> bytes list \<Rightarrow> (ubuf \<times> int) option" where
  "append_all e \<equiv> app_seq (uwsgi_buffer_append e)"

definition uwsgi_buffer_byte :: "cenv \<Rightarrow> ubuf \<Rightarrow> byte \<Rightarrow> (ubuf \<times> int) option" where
  "uwsgi_buffer_byte e ub b = uwsgi_buffer_append e ub [b]"

definition uwsgi_buffer_u8 :: "cenv \<Rightarrow> ubuf \<Rightarrow> byte \<Rightarrow> (ubuf \<times> int) option" where
  "uwsgi_buffer_u8 e ub b = uwsgi_buffer_append e ub [b]"

definition uwsgi_buffer_u16le :: "cenv \<Rightarrow> ubuf \<Rightarrow> u16 \<Rightarrow> (ubuf \<times> int) option" where
  "uwsgi_buffer_u16le e ub w = uwsgi_buffer_append e ub [byte_of w 0, byte_of w 1]"

definition uwsgi_buffer_u16be :: "cenv \<Rightarrow> ubuf \<Rightarrow> u16 \<Rightarrow> (ubuf \<times> int) option" where
  "uwsgi_buffer_u16be e ub w = uwsgi_buffer_append e ub [byte_of w 1, byte_of w 0]"

definition uwsgi_buffer_u24be :: "cenv \<Rightarrow> ubuf \<Rightarrow> u32 \<Rightarrow> (ubuf \<times> int) option" where
  "uwsgi_buffer_u24be e ub w =
     uwsgi_buffer_append e ub [byte_of w 2, byte_of w 1, byte_of w 0]"

definition uwsgi_buffer_u32be :: "cenv \<Rightarrow> ubuf \<Rightarrow> u32 \<Rightarrow> (ubuf \<times> int) option" where
  "uwsgi_buffer_u32be e ub w =
     uwsgi_buffer_append e ub [byte_of w 3, byte_of w 2, byte_of w 1, byte_of w 0]"

definition uwsgi_buffer_u32le :: "cenv \<Rightarrow> ubuf \<Rightarrow> u32 \<Rightarrow> (ubuf \<times> int) option" where
  "uwsgi_buffer_u32le e ub w =
     uwsgi_buffer_append e ub [byte_of w 0, byte_of w 1, byte_of w 2, byte_of w 3]"

definition uwsgi_buffer_u64be :: "cenv \<Rightarrow> ubuf \<Rightarrow> u64 \<Rightarrow> (ubuf \<times> int) option" where
  "uwsgi_buffer_u64be e ub w =
     uwsgi_buffer_append e ub
       [byte_of w 7, byte_of w 6, byte_of w 5, byte_of w 4,
        byte_of w 3, byte_of w 2, byte_of w 1, byte_of w 0]"

definition uwsgi_buffer_u64le :: "cenv \<Rightarrow> ubuf \<Rightarrow> u64 \<Rightarrow> (ubuf \<times> int) option" where
  "uwsgi_buffer_u64le e ub w =
     uwsgi_buffer_append e ub
       [byte_of w 0, byte_of w 1, byte_of w 2, byte_of w 3,
        byte_of w 4, byte_of w 5, byte_of w 6, byte_of w 7]"

text \<open>
  The two float encoders copy the bit pattern of the argument, which they read through a
  pointer to an unsigned integer; the model takes that bit pattern.
\<close>

definition uwsgi_buffer_f32be :: "cenv \<Rightarrow> ubuf \<Rightarrow> u32 \<Rightarrow> (ubuf \<times> int) option" where
  "uwsgi_buffer_f32be e ub bits =
     uwsgi_buffer_append e ub [byte_of bits 3, byte_of bits 2, byte_of bits 1, byte_of bits 0]"

definition uwsgi_buffer_f64be :: "cenv \<Rightarrow> ubuf \<Rightarrow> u64 \<Rightarrow> (ubuf \<times> int) option" where
  "uwsgi_buffer_f64be e ub bits =
     uwsgi_buffer_append e ub
       [byte_of bits 7, byte_of bits 6, byte_of bits 5, byte_of bits 4,
        byte_of bits 3, byte_of bits 2, byte_of bits 1, byte_of bits 0]"

text \<open>\<^verbatim>\<open>snprintf\<close> with \<^verbatim>\<open>"%X"\<close> and \<^verbatim>\<open>"%lld"\<close>: the digits of a number.\<close>

definition digit :: "nat \<Rightarrow> byte" where
  "digit d = word_of_nat (if d < 10 then 48 + d else 55 + d)"

fun digits_of :: "nat \<Rightarrow> nat \<Rightarrow> bytes" where
  "digits_of b n =
     (if b < 2 \<or> n < b then [digit n] else digits_of b (n div b) @ [digit (n mod b)])"

declare digits_of.simps [simp del]

definition hex_upper :: "nat \<Rightarrow> bytes" where
  "hex_upper n = digits_of 16 n"

definition dec_signed :: "int \<Rightarrow> bytes" where
  "dec_signed k = (if k < 0 then ch CHR ''-'' # digits_of 10 (nat (- k)) else digits_of 10 (nat k))"

definition crlf :: bytes where
  "crlf = [13, 10]"

text \<open>The chunk header: \<^verbatim>\<open>len\<close> is cast to \<^verbatim>\<open>unsigned int\<close> before it is printed.\<close>

definition chunk_header :: "nat \<Rightarrow> bytes" where
  "chunk_header n = hex_upper (n mod 2 ^ 32) @ crlf"

definition uwsgi_buffer_insert_chunked ::
  "cenv \<Rightarrow> ubuf \<Rightarrow> nat \<Rightarrow> nat \<Rightarrow> (ubuf \<times> int) option" where
  "uwsgi_buffer_insert_chunked e ub p n =
     (let chunked = chunk_header n; ret = length chunked in
      if ret = 0 \<or> ret \<ge> 19 then Some (ub, -1) else uwsgi_buffer_insert e ub p chunked)"

definition uwsgi_buffer_append_chunked :: "cenv \<Rightarrow> ubuf \<Rightarrow> nat \<Rightarrow> (ubuf \<times> int) option" where
  "uwsgi_buffer_append_chunked e ub n =
     (let chunked = chunk_header n; ret = length chunked in
      if ret = 0 \<or> ret \<ge> 19 then Some (ub, -1) else uwsgi_buffer_append e ub chunked)"

text \<open>\<^verbatim>\<open>sizeof(UMAX64_STR)+1\<close> is 22: twenty digits, the terminating zero and one.\<close>

definition umax64_str_size :: nat where
  "umax64_str_size = 22"

definition uwsgi_buffer_num64 :: "cenv \<Rightarrow> ubuf \<Rightarrow> int \<Rightarrow> (ubuf \<times> int) option" where
  "uwsgi_buffer_num64 e ub k =
     (let s = dec_signed k; ret = length s in
      if ret = 0 \<or> ret \<ge> umax64_str_size then Some (ub, -1) else uwsgi_buffer_append e ub s)"

definition json_escape1 :: "byte \<Rightarrow> bytes" where
  "json_escape1 b =
     (if b = 9 then [92, 116]
      else if b = 10 then [92, 110]
      else if b = 13 then [92, 114]
      else if b = 34 then [92, 34]
      else if b = 92 then [92, 92]
      else [b])"

definition uwsgi_buffer_append_json :: "cenv \<Rightarrow> ubuf \<Rightarrow> bytes \<Rightarrow> (ubuf \<times> int) option" where
  "uwsgi_buffer_append_json e ub s = append_all e ub (map json_escape1 s)"

definition le16 :: "nat \<Rightarrow> bytes" where
  "le16 n = [byte_of (word_of_nat n :: u16) 0, byte_of (word_of_nat n :: u16) 1]"

definition be32 :: "nat \<Rightarrow> bytes" where
  "be32 n = be_bytes 4 (word_of_nat n :: u32)"

text \<open>
  The key and value lengths are \<^verbatim>\<open>uint16_t\<close> parameters: a longer string is cut to its
  length modulo \<open>2 ^ 16\<close>, which the model keeps by taking the length apart from the bytes.
\<close>

definition uwsgi_buffer_append_keyval ::
  "cenv \<Rightarrow> ubuf \<Rightarrow> bytes \<Rightarrow> u16 \<Rightarrow> bytes \<Rightarrow> u16 \<Rightarrow> (ubuf \<times> int) option" where
  "uwsgi_buffer_append_keyval e ub key keylen val vallen =
     append_all e ub
       [[byte_of keylen 0, byte_of keylen 1], take (unat keylen) key,
        [byte_of vallen 0, byte_of vallen 1], take (unat vallen) val]"

definition uwsgi_buffer_append_keyval32 ::
  "cenv \<Rightarrow> ubuf \<Rightarrow> bytes \<Rightarrow> u32 \<Rightarrow> bytes \<Rightarrow> u32 \<Rightarrow> (ubuf \<times> int) option" where
  "uwsgi_buffer_append_keyval32 e ub key keylen val vallen =
     append_all e ub
       [be_bytes 4 keylen, take (unat keylen) key, be_bytes 4 vallen, take (unat vallen) val]"

definition uwsgi_buffer_append_keynum ::
  "cenv \<Rightarrow> ubuf \<Rightarrow> bytes \<Rightarrow> u16 \<Rightarrow> int \<Rightarrow> (ubuf \<times> int) option" where
  "uwsgi_buffer_append_keynum e ub key keylen k =
     (let s = dec_signed k; ret = length s in
      if ret = 0 \<or> ret \<ge> umax64_str_size then Some (ub, -1)
      else append_all e ub
             [[byte_of keylen 0, byte_of keylen 1], take (unat keylen) key, le16 ret, s])"

definition uwsgi_buffer_append_valnum :: "cenv \<Rightarrow> ubuf \<Rightarrow> int \<Rightarrow> (ubuf \<times> int) option" where
  "uwsgi_buffer_append_valnum e ub k =
     (let s = dec_signed k; ret = length s in
      if ret = 0 \<or> ret \<ge> umax64_str_size then Some (ub, -1)
      else append_all e ub [le16 ret, s])"

text \<open>\<^verbatim>\<open>inet_ntop(AF_INET, ...)\<close>: dotted decimal of the four address bytes.\<close>

definition inet_ntop4 :: "bytes \<Rightarrow> bytes" where
  "inet_ntop4 a =
     digits_of 10 (unat (a ! 0)) @ [46] @ digits_of 10 (unat (a ! 1)) @ [46] @
     digits_of 10 (unat (a ! 2)) @ [46] @ digits_of 10 (unat (a ! 3))"

definition uwsgi_buffer_append_ipv4 :: "cenv \<Rightarrow> ubuf \<Rightarrow> bytes \<Rightarrow> (ubuf \<times> int) option" where
  "uwsgi_buffer_append_ipv4 e ub addr = uwsgi_buffer_append e ub (inet_ntop4 addr)"

text \<open>
  \<^verbatim>\<open>uwsgi_buffer_append_keyipv4\<close> keeps a pointer into the area across a further append.
  When that append reallocates (\<open>blen\<close> grows) the pointer dangles, and the write through it
  is undefined; otherwise it patches the low byte of the value length.
\<close>

definition uwsgi_buffer_append_keyipv4 ::
  "cenv \<Rightarrow> ubuf \<Rightarrow> bytes \<Rightarrow> u16 \<Rightarrow> bytes \<Rightarrow> (ubuf \<times> int) option" where
  "uwsgi_buffer_append_keyipv4 e ub key keylen addr = do {
     (ub1, r1) \<leftarrow> append_all e ub
        [[byte_of keylen 0, byte_of keylen 1], take (unat keylen) key, le16 15];
     if r1 \<noteq> 0 then Some (ub1, -1)
     else do {
       (ub2, r2) \<leftarrow> uwsgi_buffer_append_ipv4 e ub1 addr;
       if r2 \<noteq> 0 then Some (ub2, -1)
       else if blen ub2 \<noteq> blen ub1 then None
       else do {
         m \<leftarrow> mem_write (buf ub2) (bpos ub1 - 2) [word_of_nat (bpos ub2 - bpos ub1)];
         Some (ub2\<lparr>buf := m\<rparr>, 0)
       }
     }
   }"

definition uwsgi_buffer_set_uh :: "ubuf \<Rightarrow> byte \<Rightarrow> byte \<Rightarrow> (ubuf \<times> int) option" where
  "uwsgi_buffer_set_uh ub modifier1 modifier2 =
     (if bpos ub < 4 then Some (ub, -1)
      else do {
        m \<leftarrow> mem_write (buf ub) 0
          [modifier1, byte_of (word_of_nat (bpos ub - 4) :: u64) 0,
           byte_of (word_of_nat (bpos ub - 4) :: u64) 1, modifier2];
        Some (ub\<lparr>buf := m\<rparr>, 0)
      })"

definition uwsgi_buffer_map :: "ubuf \<Rightarrow> bytes \<Rightarrow> ubuf" where
  "uwsgi_buffer_map ub m = ub\<lparr>buf := m, bpos := length m, blen := length m\<rparr>"

text \<open>
  Sending a buffer: each round of \<^verbatim>\<open>uwsgi_buffer_send\<close> waits for the descriptor and writes.
  The peer is a script of answers, one pair per round: the value of \<^verbatim>\<open>uwsgi_waitfd_write\<close> and
  the value of \<^verbatim>\<open>write\<close>, which accepts at most what it is offered.  The result is the return
  code with the bytes handed over; \<open>None\<close> means the script ended while data remained.
\<close>

fun send_loop :: "bytes \<Rightarrow> (int \<times> int) list \<Rightarrow> bytes \<Rightarrow> (int \<times> bytes) option" where
  "send_loop [] script out = Some (0, out)"
| "send_loop (b # bs) [] out = None"
| "send_loop (b # bs) ((w, k) # script) out =
     (if w > 0 then
        if k > 0 then
          let n = min (nat k) (length (b # bs))
          in send_loop (drop n (b # bs)) script (out @ take n (b # bs))
        else Some (-1, out)
      else Some (-1, out))"

definition uwsgi_buffer_send :: "ubuf \<Rightarrow> (int \<times> int) list \<Rightarrow> (int \<times> bytes) option" where
  "uwsgi_buffer_send ub script = send_loop (take (bpos ub) (buf ub)) script []"

text \<open>
  \<^verbatim>\<open>uwsgi_buffer_write_simple\<close> does not wait and returns what \<^verbatim>\<open>write\<close> returned on a failure,
  the position on success.
\<close>

fun write_simple_loop :: "bytes \<Rightarrow> int list \<Rightarrow> int \<Rightarrow> bytes \<Rightarrow> (int \<times> bytes) option" where
  "write_simple_loop [] script whole out = Some (whole, out)"
| "write_simple_loop (b # bs) [] whole out = None"
| "write_simple_loop (b # bs) (k # script) whole out =
     (if k \<le> 0 then Some (k, out)
      else let n = min (nat k) (length (b # bs))
           in write_simple_loop (drop n (b # bs)) script whole (out @ take n (b # bs)))"

definition uwsgi_buffer_write_simple :: "ubuf \<Rightarrow> int list \<Rightarrow> (int \<times> bytes) option" where
  "uwsgi_buffer_write_simple ub script =
     write_simple_loop (take (bpos ub) (buf ub)) script (int (bpos ub)) []"

section \<open>Well-formed buffers and their data\<close>

abbreviation OBJ_MAX :: nat where
  "OBJ_MAX \<equiv> 9223372036854775808"

text \<open>No C object is as large as \<open>2 ^ 63\<close> bytes: larger requests are refused by the allocator.\<close>

definition env_ok :: "cenv \<Rightarrow> bool" where
  "env_ok e \<longleftrightarrow> page_size e < OBJ_MAX \<and> (\<forall>n. alloc_ok e n \<longrightarrow> n < OBJ_MAX)"

definition ub_wf :: "ubuf \<Rightarrow> bool" where
  "ub_wf ub \<longleftrightarrow> length (buf ub) = blen ub \<and> bpos ub \<le> blen ub \<and> blen ub < OBJ_MAX"

definition ub_data :: "ubuf \<Rightarrow> bytes" where
  "ub_data ub = take (bpos ub) (buf ub)"

definition ub_within_limit :: "ubuf \<Rightarrow> bool" where
  "ub_within_limit ub \<longleftrightarrow> (limit ub > 0 \<longrightarrow> blen ub \<le> limit ub)"

lemma length_ub_data: "ub_wf ub \<Longrightarrow> length (ub_data ub) = bpos ub"
  by (simp add: ub_wf_def ub_data_def)

text \<open>The size an append asks of the allocator, and when the append goes through.\<close>

definition grown :: "cenv \<Rightarrow> ubuf \<Rightarrow> nat \<Rightarrow> nat" where
  "grown e ub n =
     blen ub + (if limit ub > 0 \<and> blen ub + max n (page_size e) > limit ub \<and> n < page_size e
                then n else max n (page_size e))"

definition can_append :: "cenv \<Rightarrow> ubuf \<Rightarrow> nat \<Rightarrow> bool" where
  "can_append e ub n \<longleftrightarrow>
     n \<le> blen ub - bpos ub \<or>
     (limit ub > 0 \<longrightarrow> grown e ub n \<le> limit ub) \<and> alloc_ok e (grown e ub n)"

lemma realloc_area_Some [mem_simps]:
  "realloc_area e m n = Some m' \<Longrightarrow> length m \<le> n \<Longrightarrow>
     length m' = n \<and> take (length m) m' = m"
  by (auto simp: realloc_area_def split: if_splits)

lemma append_fits:
  assumes "ub_wf ub" "length s \<le> blen ub - bpos ub"
  shows "\<exists>m. uwsgi_buffer_append e ub s = Some (ub\<lparr>buf := m, bpos := bpos ub + length s\<rparr>, 0)
             \<and> mem_write (buf ub) (bpos ub) s = Some m"
  using assms
  by (auto simp: uwsgi_buffer_append_def ub_wf_def Let_def sz_simps mem_write_def split: option.splits)

lemma append_grows:
  assumes "env_ok e" "ub_wf ub" "length s < OBJ_MAX" "length s > blen ub - bpos ub"
  shows "uwsgi_buffer_append e ub s =
     (if (limit ub > 0 \<longrightarrow> grown e ub (length s) \<le> limit ub) \<and> alloc_ok e (grown e ub (length s))
      then Some (ub\<lparr>buf := take (bpos ub) (buf ub) @ s @
                     drop (bpos ub + length s)
                       (buf ub @ replicate (grown e ub (length s) - blen ub) (junk e)),
                   blen := grown e ub (length s), bpos := bpos ub + length s\<rparr>, 0)
      else Some (ub, -1))"
proof -
  let ?n = "length s"
  let ?over = "limit ub > 0 \<and> blen ub + max ?n (page_size e) > limit ub"
  let ?chunk = "if ?over \<and> ?n < page_size e then ?n else max ?n (page_size e)"
  have no_wrap: "sz_add (blen ub) (max ?n (page_size e)) = blen ub + max ?n (page_size e)"
    "sz_sub (blen ub) (bpos ub) = blen ub - bpos ub"
    using assms by (auto simp: env_ok_def ub_wf_def intro!: sz_simps)
  have "blen ub + ?chunk = grown e ub ?n" by (simp add: grown_def)
  moreover have "grown e ub ?n < SIZE_MOD"
    using assms by (auto simp: grown_def env_ok_def ub_wf_def)
  ultimately have sz: "sz_add (blen ub) ?chunk = grown e ub ?n"
    by (metis sz_add_exact)
  have over: "(?over \<and> grown e ub ?n > limit ub) = (limit ub > 0 \<and> grown e ub ?n > limit ub)"
    by (auto simp: grown_def)
  have fits: "bpos ub + ?n \<le> grown e ub ?n" "blen ub \<le> grown e ub ?n"
    using assms by (auto simp: grown_def ub_wf_def)
  have app: "uwsgi_buffer_append e ub s =
      (if ?n > blen ub - bpos ub then
         if limit ub > 0 \<and> grown e ub ?n > limit ub then Some (ub, -1)
         else (case realloc_area e (buf ub) (grown e ub ?n) of
                 None \<Rightarrow> Some (ub, -1)
               | Some m \<Rightarrow> do {
                   m' \<leftarrow> mem_write m (bpos ub) s;
                   Some (ub\<lparr>buf := m', blen := grown e ub ?n, bpos := bpos ub + ?n\<rparr>, 0)})
       else do {
         m' \<leftarrow> mem_write (buf ub) (bpos ub) s;
         Some (ub\<lparr>buf := m', bpos := bpos ub + ?n\<rparr>, 0)})"
    unfolding uwsgi_buffer_append_def Let_def no_wrap sz over ..
  show ?thesis
    using assms(2,4) fits
    by (simp add: app realloc_area_def mem_write_def ub_wf_def)
qed

section \<open>The interface: a sink of bytes\<close>

text \<open>
  What the writers rely on: an append either fails and leaves the sink as it was or adds
  exactly its bytes at the end, and it never faults.
\<close>

locale byte_sink =
  fixes app :: "'b \<Rightarrow> bytes \<Rightarrow> ('b \<times> int) option"
    and data :: "'b \<Rightarrow> bytes"
    and inv :: "'b \<Rightarrow> bool"
  assumes app_cases:
    "inv b \<Longrightarrow> length s < OBJ_MAX \<Longrightarrow>
       (\<exists>b'. app b s = Some (b', 0) \<and> inv b' \<and> data b' = data b @ s) \<or> app b s = Some (b, -1)"
begin

lemma app_total:
  assumes "inv b" "length s < OBJ_MAX"
  obtains b' r where "app b s = Some (b', r)" "inv b'" "r = 0 \<or> r = -1"
    "r = 0 \<Longrightarrow> data b' = data b @ s" "r = -1 \<Longrightarrow> b' = b"
  using app_cases [OF assms] assms(1) by (metis one_neq_neg_one zero_neq_neg_one)

lemma app_data:
  assumes "inv b" "length s < OBJ_MAX" "app b s = Some (b', 0)"
  shows "inv b' \<and> data b' = data b @ s"
  using app_cases [OF assms(1,2)] assms(3) by auto

lemma app_seq_total:
  assumes "inv b" "\<forall>s\<in>set ss. length s < OBJ_MAX"
  shows "\<exists>b' r k. app_seq app b ss = Some (b', r) \<and> inv b' \<and> k \<le> length ss \<and>
           data b' = data b @ concat (take k ss) \<and> (r = 0 \<and> k = length ss \<or> r = -1 \<and> k < length ss)"
  using assms
proof (induction ss arbitrary: b)
  case Nil
  then show ?case by simp
next
  case (Cons s ss)
  then have s: "length s < OBJ_MAX" by simp
  from app_cases [OF Cons.prems(1) s] show ?case
  proof
    assume "\<exists>b'. app b s = Some (b', 0) \<and> inv b' \<and> data b' = data b @ s"
    then obtain b1 where b1: "app b s = Some (b1, 0)" "inv b1" "data b1 = data b @ s" by blast
    from Cons.IH [OF b1(2)] Cons.prems(2) obtain b' r k where
      "app_seq app b1 ss = Some (b', r)" "inv b'" "k \<le> length ss"
      "data b' = data b1 @ concat (take k ss)" "r = 0 \<and> k = length ss \<or> r = -1 \<and> k < length ss"
      by auto
    with b1 show ?thesis
      by (intro exI [of _ b'] exI [of _ r] exI [of _ "Suc k"]) auto
  next
    assume "app b s = Some (b, -1)"
    with Cons.prems(1) show ?thesis
      by (intro exI [of _ b] exI [of _ "-1"] exI [of _ 0]) simp
  qed
qed

lemma app_seq_data:
  assumes "inv b" "\<forall>s\<in>set ss. length s < OBJ_MAX" "app_seq app b ss = Some (b', 0)"
  shows "inv b' \<and> data b' = data b @ concat ss"
  using app_seq_total [OF assms(1,2)] assms(3) by auto

lemma app_seq_prefix:
  assumes "inv b" "\<forall>s\<in>set ss. length s < OBJ_MAX" "app_seq app b ss = Some (b', r)"
  shows "take (length (data b)) (data b') = data b"
  using app_seq_total [OF assms(1,2)] assms(3) by auto

end

text \<open>The buffer provides it.\<close>

lemma append_wf_cases:
  assumes "env_ok e" "ub_wf ub" "length s < OBJ_MAX"
  shows "(\<exists>ub'. uwsgi_buffer_append e ub s = Some (ub', 0) \<and> ub_wf ub' \<and>
            ub_data ub' = ub_data ub @ s \<and> limit ub' = limit ub \<and>
            (ub_within_limit ub \<longrightarrow> ub_within_limit ub') \<and> can_append e ub (length s)) \<or>
         uwsgi_buffer_append e ub s = Some (ub, -1) \<and> \<not> can_append e ub (length s)"
proof (cases "length s \<le> blen ub - bpos ub")
  case True
  from append_fits [OF assms(2) True] obtain m where
    m: "uwsgi_buffer_append e ub s = Some (ub\<lparr>buf := m, bpos := bpos ub + length s\<rparr>, 0)"
       "mem_write (buf ub) (bpos ub) s = Some m" by blast
  with assms(2) True show ?thesis
    by (auto simp: ub_wf_def ub_data_def ub_within_limit_def can_append_def mem_simps)
next
  case False
  then have gt: "length s > blen ub - bpos ub" by simp
  have ge: "bpos ub + length s \<le> grown e ub (length s)" "blen ub \<le> grown e ub (length s)"
    using assms by (auto simp: grown_def ub_wf_def)
  show ?thesis
    using append_grows [OF assms gt] assms ge gt
    by (auto simp: ub_wf_def ub_data_def ub_within_limit_def can_append_def env_ok_def)
qed

interpretation ub: byte_sink "uwsgi_buffer_append e" ub_data "\<lambda>b. env_ok e \<and> ub_wf b" for e
  using append_wf_cases by unfold_locales blast

text \<open>A sequence of appends that fits succeeds.\<close>

lemma append_all_fits:
  "ub_wf ub \<Longrightarrow> bpos ub + length (concat ss) \<le> blen ub \<Longrightarrow> \<exists>b. append_all e ub ss = Some (b, 0)"
proof (induction ss arbitrary: ub)
  case (Cons s ss)
  have "length s \<le> blen ub - bpos ub" using Cons.prems(2) by simp
  from append_fits [OF Cons.prems(1) this] obtain m where
    m: "uwsgi_buffer_append e ub s = Some (ub\<lparr>buf := m, bpos := bpos ub + length s\<rparr>, 0)"
      "mem_write (buf ub) (bpos ub) s = Some m" by blast
  have "ub_wf (ub\<lparr>buf := m, bpos := bpos ub + length s\<rparr>)"
    using Cons.prems mem_write_length [OF m(2)] by (simp add: ub_wf_def)
  from Cons.IH [OF this] Cons.prems(2) m(1) show ?case by (simp add: add.assoc)
qed simp

section \<open>Insertion, decapitation, sending\<close>

lemma decapitate_cases:
  assumes "ub_wf ub"
  shows "n \<le> bpos ub \<Longrightarrow> \<exists>ub'. uwsgi_buffer_decapitate ub n = Some (ub', 0) \<and> ub_wf ub' \<and>
           ub_data ub' = drop n (ub_data ub) \<and> blen ub' = blen ub \<and> limit ub' = limit ub"
    and "n > bpos ub \<Longrightarrow> uwsgi_buffer_decapitate ub n = Some (ub, -1)"
  using assms
  by (auto simp: uwsgi_buffer_decapitate_def mem_move_def mem_read_def mem_write_def ub_wf_def
      ub_data_def drop_take)

lemma ensure_enough:
  assumes "env_ok e" "ub_wf ub" "n < OBJ_MAX" "limit ub = 0 \<or> bpos ub + n \<le> limit ub"
    and "uwsgi_buffer_ensure e ub n = (ub', 0)"
  shows "ub_wf ub' \<and> ub_data ub' = ub_data ub \<and> bpos ub' = bpos ub \<and> limit ub' = limit ub
           \<and> bpos ub + n \<le> blen ub'"
proof -
  have "sz_sub (blen ub) (bpos ub) = blen ub - bpos ub"
    using assms(2) by (auto simp: ub_wf_def intro!: sz_simps)
  moreover have "sz_sub n (blen ub - bpos ub) = n - (blen ub - bpos ub)"
    if "blen ub - bpos ub < n"
    using that assms(3) by (auto intro!: sz_simps)
  moreover have "sz_add (blen ub) (n - (blen ub - bpos ub)) = bpos ub + n"
    if "blen ub - bpos ub < n"
    using that assms(2,3) by (auto simp: ub_wf_def sz_add_def)
  ultimately show ?thesis
    using assms
    by (auto simp: uwsgi_buffer_ensure_def Let_def ub_wf_def ub_data_def realloc_area_def env_ok_def
        split: if_splits option.splits)
qed

lemma insert_area:
  assumes "p \<le> n" "n + length s \<le> length m"
  shows "\<exists>m1 m2. mem_move m (p + length s) p (n - p) = Some m1 \<and> mem_write m1 p s = Some m2 \<and>
           length m2 = length m \<and> take (n + length s) m2 = take p m @ s @ drop p (take n m)"
  using assms
  by (simp add: mem_move_def mem_read_def mem_write_def drop_take)

lemma send_loop_step:
  assumes "bs \<noteq> []" "w > 0" "k > 0"
  shows "send_loop bs ((w, k) # script) out =
     send_loop (drop (min (nat k) (length bs)) bs) script (out @ take (min (nat k) (length bs)) bs)"
  using assms by (cases bs) (simp_all add: Let_def)

lemma send_loop_ok:
  "send_loop bs script out = Some (r, out') \<Longrightarrow>
     (r = 0 \<and> out' = out @ bs) \<or> (r = -1 \<and> (\<exists>j<length bs. out' = out @ take j bs))"
proof (induction script arbitrary: bs out)
  case Nil
  then show ?case by (cases bs) auto
next
  case (Cons wk script)
  obtain w k where wk: "wk = (w, k)" by (cases wk)
  show ?case
  proof (cases "bs \<noteq> [] \<and> w > 0 \<and> k > 0")
    case True
    let ?n = "min (nat k) (length bs)"
    from Cons.prems wk True have
      "send_loop (drop ?n bs) script (out @ take ?n bs) = Some (r, out')"
      by (simp add: send_loop_step)
    from Cons.IH [OF this] show ?thesis
    proof
      assume "r = 0 \<and> out' = (out @ take ?n bs) @ drop ?n bs"
      then show ?thesis by simp
    next
      assume "r = -1 \<and> (\<exists>j<length (drop ?n bs). out' = (out @ take ?n bs) @ take j (drop ?n bs))"
      then obtain j where j: "r = -1" "j < length (drop ?n bs)"
        "out' = (out @ take ?n bs) @ take j (drop ?n bs)" by blast
      from j(3) have "out' = out @ take (?n + j) bs" by (simp only: take_add append_assoc)
      moreover from j(2) have "?n + j < length bs" by auto
      ultimately show ?thesis using j(1) by blast
    qed
  next
    case False
    with Cons.prems wk show ?thesis by (cases bs) (auto split: if_splits)
  qed
qed

lemma send_loop_progress:
  "length bs \<le> length script \<Longrightarrow> \<forall>(w, k)\<in>set script. w > 0 \<and> k > 0 \<Longrightarrow>
     send_loop bs script out = Some (0, out @ bs)"
proof (induction script arbitrary: bs out)
  case Nil
  then show ?case by simp
next
  case (Cons wk script)
  obtain w k where wk: "wk = (w, k)" by (cases wk)
  with Cons.prems have pos: "w > 0" "k > 0" by auto
  show ?case
  proof (cases "bs = []")
    case False
    let ?n = "min (nat k) (length bs)"
    from False pos have "length (drop ?n bs) \<le> length script"
      using Cons.prems(1) by (cases bs) auto
    with Cons have "send_loop (drop ?n bs) script (out @ take ?n bs) =
        Some (0, (out @ take ?n bs) @ drop ?n bs)" by auto
    with False pos wk show ?thesis by (simp add: send_loop_step)
  qed simp
qed

section \<open>Decoding what was written\<close>

definition json_unescape1 :: "byte \<Rightarrow> byte" where
  "json_unescape1 c = (if c = 116 then 9 else if c = 110 then 10 else if c = 114 then 13 else c)"

fun json_unescape :: "bytes \<Rightarrow> bytes" where
  "json_unescape [] = []"
| "json_unescape [b] = [b]"
| "json_unescape (b # c # r) =
     (if b = 92 then json_unescape1 c # json_unescape r else b # json_unescape (c # r))"

lemma json_unescape_escape1: "json_unescape (json_escape1 b @ r) = b # json_unescape r"
  by (cases r) (auto simp: json_escape1_def json_unescape1_def)

lemma json_unescape_escape: "json_unescape (concat (map json_escape1 s)) = s"
  by (induction s) (simp_all add: json_unescape_escape1)

lemma length_json_escape1: "length (json_escape1 b) \<le> 2"
  by (simp add: json_escape1_def)

section \<open>Properties\<close>

text \<open>
  C32: appending to a well-formed buffer never touches memory outside its area; it succeeds
  exactly when the bytes fit, or the enlarged area respects the limit and can be allocated;
  on success the data grow by exactly the bytes given, on failure they are unchanged, and
  the area never exceeds the configured limit.
\<close>

theorem uwsgi_buffer_append_correct:
  assumes "env_ok e" "ub_wf ub" "length s < OBJ_MAX"
  shows "\<exists>ub' r. uwsgi_buffer_append e ub s = Some (ub', r) \<and> ub_wf ub' \<and>
           r = (if can_append e ub (length s) then 0 else -1) \<and>
           ub_data ub' = ub_data ub @ (if can_append e ub (length s) then s else []) \<and>
           (ub_within_limit ub \<longrightarrow> ub_within_limit ub')"
  using append_wf_cases [OF assms] assms(2) by auto

definition env_small :: cenv where
  "env_small = \<lparr>page_size = 8, alloc_ok = (\<lambda>n. n < 4096), junk = 0\<rparr>"

lemma env_small_ok [simp]: "env_ok env_small"
  by (simp add: env_ok_def env_small_def)

definition ub_small :: ubuf where
  "ub_small = \<lparr>buf = [1, 2, 3], bpos = 3, blen = 3, limit = 4\<rparr>"

lemma ub_small_wf [simp]: "ub_wf ub_small"
  by (simp add: ub_wf_def ub_small_def)

theorem uwsgi_buffer_append_correct_witness:
  "\<exists>ub' r. uwsgi_buffer_append env_small ub_small [7] = Some (ub', r) \<and> r = 0 \<and>
     ub_data ub' = [1, 2, 3, 7] \<and> ub_within_limit ub'"
proof -
  have "can_append env_small ub_small 1" "ub_within_limit ub_small" "ub_data ub_small = [1, 2, 3]"
    by (auto simp: can_append_def ub_small_def env_small_def grown_def ub_within_limit_def ub_data_def)
  then show ?thesis
    using uwsgi_buffer_append_correct [OF env_small_ok ub_small_wf, of "[7]"] by auto
qed

text \<open>
  When the buffer has no limit (or the limit leaves room), inserting bytes at a position
  inside the data succeeds or fails cleanly, and on success the data are the bytes before the
  position, the inserted bytes and the bytes after it.
\<close>

theorem uwsgi_buffer_insert_correct:
  assumes "env_ok e" "ub_wf ub" "length s < OBJ_MAX" "p \<le> bpos ub"
    and "limit ub = 0 \<or> bpos ub + length s \<le> limit ub"
  shows "\<exists>ub' r. uwsgi_buffer_insert e ub p s = Some (ub', r) \<and> ub_wf ub' \<and>
           (r = 0 \<and> ub_data ub' = take p (ub_data ub) @ s @ drop p (ub_data ub) \<or>
            r = -1 \<and> ub_data ub' = ub_data ub)"
proof -
  obtain ub1 r1 where ens: "uwsgi_buffer_ensure e ub (length s) = (ub1, r1)" by force
  show ?thesis
  proof (cases "r1 = 0")
    case True
    from ensure_enough [OF assms(1,2,3,5)] ens True have
      e1: "ub_wf ub1" "ub_data ub1 = ub_data ub" "bpos ub1 = bpos ub"
          "bpos ub + length s \<le> length (buf ub1)"
      by (auto simp: ub_wf_def)
    have sub: "sz_sub (bpos ub) p = bpos ub - p"
      using assms(2,4) by (auto simp: ub_wf_def intro!: sz_simps)
    from insert_area [OF assms(4) e1(4)] obtain m1 m2 where
      m: "mem_move (buf ub1) (p + length s) p (bpos ub - p) = Some m1"
         "mem_write m1 p s = Some m2" "length m2 = length (buf ub1)"
         "take (bpos ub + length s) m2 = take p (buf ub1) @ s @ drop p (take (bpos ub) (buf ub1))"
      by blast
    then have "uwsgi_buffer_insert e ub p s =
        Some (ub1\<lparr>buf := m2, bpos := bpos ub + length s\<rparr>, 0)"
      using ens True e1(3) sub by (simp add: uwsgi_buffer_insert_def)
    moreover have "take p (buf ub1) = take p (ub_data ub)"
      using e1(2,3) assms(4) by (metis min.absorb1 take_take ub_data_def)
    ultimately show ?thesis
      using m e1 by (auto simp: ub_wf_def ub_data_def)
  next
    case False
    then have "ub1 = ub"
      using ens by (auto simp: uwsgi_buffer_ensure_def Let_def split: if_splits option.splits)
    with False show ?thesis
      using ens assms(2) by (auto simp: uwsgi_buffer_insert_def Let_def)
  qed
qed

theorem uwsgi_buffer_insert_correct_witness:
  "\<exists>ub' r. uwsgi_buffer_insert env_small (ub_small\<lparr>limit := 0\<rparr>) 1 [8, 9] = Some (ub', r) \<and>
     (r = 0 \<and> ub_data ub' = [1, 8, 9, 2, 3] \<or> r = -1 \<and> ub_data ub' = [1, 2, 3])"
  using uwsgi_buffer_insert_correct [of env_small "ub_small\<lparr>limit := 0\<rparr>" "[8, 9]" 1]
  by (auto simp: ub_wf_def ub_small_def ub_data_def)

text \<open>
  C38: when a limit is set and lies below what the insertion needs, \<^verbatim>\<open>uwsgi_buffer_ensure\<close>
  grows the area only to the limit and still reports success, so \<^verbatim>\<open>uwsgi_buffer_insert\<close>
  moves and copies past the end of the area.
\<close>

theorem uwsgi_buffer_insert_overflows_limited_area:
  assumes "ub_wf ub" "p \<le> bpos ub" "0 < length s" "length s < OBJ_MAX"
    and "blen ub < limit ub" "limit ub < bpos ub + length s" "alloc_ok e (limit ub)"
  shows "uwsgi_buffer_insert e ub p s = None"
proof -
  have remains: "sz_sub (blen ub) (bpos ub) = blen ub - bpos ub"
    using assms(1) by (auto simp: ub_wf_def intro!: sz_simps)
  have short: "blen ub - bpos ub < length s"
    using assms by (auto simp: ub_wf_def)
  have new_len: "sz_add (blen ub) (sz_sub (length s) (blen ub - bpos ub)) = bpos ub + length s"
    using assms short by (auto simp: ub_wf_def sz_simps)
  have "uwsgi_buffer_ensure e ub (length s) =
      (ub\<lparr>buf := take (limit ub) (buf ub) @ replicate (limit ub - length (buf ub)) (junk e),
          blen := limit ub\<rparr>, 0)"
    using assms short by (simp add: uwsgi_buffer_ensure_def Let_def remains new_len realloc_area_def)
  moreover have "sz_sub (bpos ub) p = bpos ub - p"
    using assms(1,2) by (auto simp: ub_wf_def intro!: sz_simps)
  ultimately show ?thesis
    using assms
    by (auto simp: uwsgi_buffer_insert_def Let_def mem_move_def mem_read_def mem_write_def ub_wf_def)
qed

theorem uwsgi_buffer_insert_overflows_limited_area_witness:
  "uwsgi_buffer_insert env_small ub_small 0 [7, 8] = None"
  using uwsgi_buffer_insert_overflows_limited_area [of ub_small 0 "[7, 8]" env_small]
  by (simp add: ub_small_def env_small_def ub_wf_def)

text \<open>
  C33: sending a buffer hands over a prefix of its data in order, all of it exactly when the
  function returns 0; and it returns 0 whenever the peer keeps accepting bytes.
\<close>

theorem uwsgi_buffer_send_delivers:
  "(uwsgi_buffer_send ub script = Some (r, out) \<longrightarrow>
      r = 0 \<and> out = ub_data ub \<or> r = -1 \<and> (\<exists>j<length (ub_data ub). out = take j (ub_data ub))) \<and>
   (length (ub_data ub) \<le> length script \<and> (\<forall>(w, k)\<in>set script. w > 0 \<and> k > 0) \<longrightarrow>
      uwsgi_buffer_send ub script = Some (0, ub_data ub))"
  using send_loop_ok [of "ub_data ub" script "[]" r out]
    send_loop_progress [of "ub_data ub" script "[]"]
  by (auto simp: uwsgi_buffer_send_def ub_data_def)

theorem uwsgi_buffer_send_delivers_witness:
  "uwsgi_buffer_send ub_small [(1, 2), (1, 9), (1, 1)] = Some (0, [1, 2, 3])"
  using uwsgi_buffer_send_delivers [of ub_small "[(1, 2), (1, 9), (1, 1)]"]
  by (simp add: ub_small_def ub_data_def)

end
