(* ===== verification/Protocol.thy ===== *)
theory Protocol
  imports Buffer Strings
begin

text \<open>
  The wire format of \<^verbatim>\<open>core/protocol.c\<close>: the parsers of key/value packets and of arrays, the
  HTTP range header, the reading of a response packet and the transformation of a raw HTTP
  response.  The request itself, its hooks and \<^verbatim>\<open>uwsgi_parse_vars\<close> are in \<open>Request\<close>.

  A pointer into a packet is an offset, a string in it a region: offset and length.  A
  callback is modelled by the list of the arguments it is called with.
\<close>

type_synonym region = "nat \<times> nat"

definition contents_at :: "bytes \<Rightarrow> region \<Rightarrow> bytes" where
  "contents_at m r = take (snd r) (drop (fst r) m)"

section \<open>Packets of key/value pairs\<close>

text \<open>\<^verbatim>\<open>uwsgi_hooked_parse\<close> over the bytes from \<open>p\<close> to \<open>e\<close>; \<open>acc\<close> holds the calls of the hook.\<close>

function hooked_loop ::
  "bytes \<Rightarrow> nat \<Rightarrow> nat \<Rightarrow> (region \<times> region) list \<Rightarrow> (int \<times> (region \<times> region) list) option" where
  "hooked_loop m p e acc =
     (if p \<ge> e then Some (0, acc)
      else if p + 2 \<ge> e then Some (-1, acc)
      else case rd_le 2 m p of None \<Rightarrow> None | Some k \<Rightarrow>
        if k = 0 then Some (-1, acc)
        else if p + 2 + k > e then Some (-1, acc)
        else if p + 2 + k + 2 > e then Some (-1, acc)
        else case rd_le 2 m (p + 2 + k) of None \<Rightarrow> None | Some v \<Rightarrow>
          if p + 2 + k + 2 + v > e then Some (-1, acc)
          else hooked_loop m (p + 2 + k + 2 + v) e (acc @ [((p + 2, k), (p + 2 + k + 2, v))]))"
  by pat_completeness auto
termination by (relation "measure (\<lambda>(m, p, e, acc). e - p)") auto

declare hooked_loop.simps [simp del]

definition uwsgi_hooked_parse :: "bytes \<Rightarrow> nat \<Rightarrow> (int \<times> (region \<times> region) list) option" where
  "uwsgi_hooked_parse buffer len = hooked_loop buffer 0 len []"

text \<open>The hook of an array gets a 16-bit position, which wraps.\<close>

function hooked_array_loop ::
  "bytes \<Rightarrow> nat \<Rightarrow> nat \<Rightarrow> nat \<Rightarrow> (nat \<times> region) list \<Rightarrow> (int \<times> (nat \<times> region) list) option" where
  "hooked_array_loop m p e pos acc =
     (if p \<ge> e then Some (0, acc)
      else if p + 2 > e then Some (-1, acc)
      else case rd_le 2 m p of None \<Rightarrow> None | Some v \<Rightarrow>
        if p + 2 + v > e then Some (-1, acc)
        else hooked_array_loop m (p + 2 + v) e ((pos + 1) mod 65536) (acc @ [(pos, (p + 2, v))]))"
  by pat_completeness auto
termination by (relation "measure (\<lambda>(m, p, e, pos, acc). e - p)") auto

declare hooked_array_loop.simps [simp del]

definition uwsgi_hooked_parse_array :: "bytes \<Rightarrow> nat \<Rightarrow> (int \<times> (nat \<times> region) list) option" where
  "uwsgi_hooked_parse_array buffer len = hooked_array_loop buffer 0 len 0 []"

text \<open>
  \<^verbatim>\<open>uwsgi_parse_array\<close> moves every item one byte back to make room for a terminator
  (\<^verbatim>\<open>uwsgi_cheap_string\<close>), so it changes the buffer.  \<^verbatim>\<open>argc\<close> is 8 bits wide: at most \<open>mx\<close>
  items.  The result has the buffer and the items as regions.
\<close>

function parse_array_loop ::
  "bytes \<Rightarrow> nat \<Rightarrow> nat \<Rightarrow> nat \<Rightarrow> region list \<Rightarrow> (int \<times> bytes \<times> region list) option" where
  "parse_array_loop m p e mx args =
     (if p \<ge> e \<or> length args \<ge> mx then Some (0, m, args)
      else if p + 2 < e then
        case rd_le 2 m p of None \<Rightarrow> None | Some n \<Rightarrow>
          if n = 0 then parse_array_loop m (p + 2) e mx args
          else if p + 2 + n \<le> e then
            case uwsgi_cheap_string m (p + 2) n of None \<Rightarrow> None | Some m' \<Rightarrow>
              parse_array_loop m' (p + 2 + n) e mx (args @ [(p + 1, n)])
          else Some (-1, m, args)
      else Some (-1, m, args))"
  by pat_completeness auto
termination by (relation "measure (\<lambda>(m, p, e, mx, args). e - p)") auto

declare parse_array_loop.simps [simp del]

definition uwsgi_parse_array :: "bytes \<Rightarrow> nat \<Rightarrow> nat \<Rightarrow> (int \<times> bytes \<times> region list) option" where
  "uwsgi_parse_array buffer n mx = parse_array_loop buffer 0 n mx []"

section \<open>The range header\<close>

datatype range_state = NotParsed | Parsed | Valid | Invalid

record range =
  rg_state :: range_state
  rg_from :: int
  rg_to :: int

abbreviation INT64_MAX :: int where "INT64_MAX \<equiv> 2 ^ 63 - 1"

text \<open>A \<^verbatim>\<open>uint64_t\<close> converted to \<^verbatim>\<open>int64_t\<close>; the negation of the least number is undefined.\<close>

definition u64_to_i64 :: "u64 \<Rightarrow> int" where
  "u64_to_i64 w = to_signed 8 (unat w)"

definition neg_i64 :: "int \<Rightarrow> int option" where
  "neg_i64 i = (if i = - (2 ^ 63) then None else Some (- i))"

text \<open>
  \<^verbatim>\<open>uwsgi_parse_http_range\<close>: only the part before the first comma counts; \<open>start-\<close>, \<open>start-end\<close>
  and \<open>-suffix\<close>.
\<close>

definition uwsgi_parse_http_range :: "bytes \<Rightarrow> range option" where
  "uwsgi_parse_http_range hdr =
     (let inv = \<lparr>rg_state = Invalid, rg_from = 0, rg_to = 0\<rparr>;
          s = takeWhile (\<lambda>b. b \<noteq> ch CHR '','') hdr; rlen = length s in
      if rlen < 8 then Some inv
      else if memchr (ch CHR ''='') s \<noteq> Some 5 then Some inv
      else if take 5 s \<noteq> str ''bytes'' then Some inv
      else let r = drop 6 s in
        case memchr (ch CHR ''-'') r of
          None \<Rightarrow> Some inv
        | Some dash \<Rightarrow>
            if dash \<noteq> 0 then do {
              f \<leftarrow> uwsgi_str_num (take dash r);
              t \<leftarrow> (if dash = length r - 1 then Some INT64_MAX
                   else map_option u64_to_i64 (uwsgi_str_num (drop (dash + 1) r)));
              Some (if t \<ge> u64_to_i64 f
                    then \<lparr>rg_state = Parsed, rg_from = u64_to_i64 f, rg_to = t\<rparr> else inv) }
            else do {
              f \<leftarrow> uwsgi_str_num (drop 1 r);
              n \<leftarrow> neg_i64 (u64_to_i64 f);
              Some (if n < 0 then \<lparr>rg_state = Parsed, rg_from = n, rg_to = INT64_MAX\<rparr>
                    else inv\<lparr>rg_from := n\<rparr>) })"

text \<open>\<^verbatim>\<open>uwsgi_fix_range_for_size\<close> of \<^verbatim>\<open>core/utils.c\<close>.\<close>

definition uwsgi_fix_range_for_size :: "range \<Rightarrow> int \<Rightarrow> range" where
  "uwsgi_fix_range_for_size r sz =
     (if rg_state r \<noteq> Parsed then r
      else
        let f = (if rg_from r < 0 then sz + rg_from r else rg_from r);
            t = (if rg_to r > sz - 1 then sz - 1 else rg_to r) in
        if f = 0 \<and> t = sz - 1 then \<lparr>rg_state = NotParsed, rg_from = f, rg_to = t\<rparr>
        else if t \<ge> f then \<lparr>rg_state = Valid, rg_from = f, rg_to = t\<rparr>
        else \<lparr>rg_state = Invalid, rg_from = 0, rg_to = 0\<rparr>)"

section \<open>Reading a response packet\<close>

text \<open>
  \<^verbatim>\<open>uwsgi_read_response\<close>.  What the peer does is the list of pairs of the results of
  \<^verbatim>\<open>uwsgi_waitfd\<close> and of the read after it: the bytes got (none at the end of the stream), or
  \<open>None\<close> for an error.  The loop is left with the bytes read, \<open>True\<close> when all have come, and the
  last result of the wait; the list running out is a wait that fails.
\<close>

type_synonym io_events = "(int \<times> bytes option) list"

fun read_loop :: "io_events \<Rightarrow> nat \<Rightarrow> bytes \<Rightarrow> bool \<times> bytes \<times> io_events" where
  "read_loop [] remains acc = (remains = 0, acc, [])"
| "read_loop ((rlen, d) # evs) remains acc =
     (if remains = 0 then (True, acc, (rlen, d) # evs)
      else if rlen > 0 then
        case d of None \<Rightarrow> (False, acc, evs)
        | Some bs \<Rightarrow>
            let bs = take remains bs in
            if bs = [] then (False, acc, evs)
            else if length bs = remains then (True, acc @ bs, evs)
            else read_loop evs (remains - length bs) (acc @ bs)
      else (False, acc, evs))"

text \<open>
  The result, the header and the body read.  \<open>hdr0\<close> is what the caller's header holds before;
  \<open>want\<close> says whether the caller gave a buffer pointer.  The tests for a time-out
  (\<^verbatim>\<open>ret == 0\<close>) never hold, as \<^verbatim>\<open>ret\<close> is \<open>-1\<close> in both loops.
\<close>

definition uwsgi_read_response ::
  "io_events \<Rightarrow> bytes \<Rightarrow> bool \<Rightarrow> int \<times> bytes \<times> bytes" where
  "uwsgi_read_response evs hdr0 want =
     (let (ok, got, evs') = read_loop evs 4 [];
          hdr = got @ drop (length got) hdr0;
          ret = (if ok then int (unat (hdr ! 3)) else -1);
          pktsize = le_nat (take 2 (drop 1 hdr)) in
      if want \<and> pktsize > 0 then
        let (ok, body, evs'') = read_loop evs' pktsize [] in
        (if ok then int (unat (hdr ! 3)) else -1, hdr, body)
      else (ret, hdr, []))"

section \<open>A raw HTTP response\<close>

text \<open>
  \<^verbatim>\<open>uwsgi_blob_to_response\<close>: \<open>cb\<close> is the result of the response functions, the list the calls
  made.  \<open>i\<close> counts the bytes before the rest \<open>bs\<close>, \<open>line\<close> the bytes of the current line.
\<close>

datatype response_call = PrepareHeaders bytes | AddHeader bytes bytes | WriteBody bytes

definition header_line ::
  "bytes \<Rightarrow> bool \<Rightarrow> (response_call \<Rightarrow> int) \<Rightarrow> response_call list \<times> bool" where
  "header_line l status_managed cb =
     (let t = take (length l - 1) l in
      if status_managed then
        case memchr (ch CHR '':'') t of None \<Rightarrow> ([], False)
        | Some colon \<Rightarrow>
            if l ! (colon + 1) \<noteq> 32 then ([], False)
            else let c = AddHeader (take colon l) (drop (colon + 2) t) in ([c], cb c = 0)
      else
        case memchr 32 t of None \<Rightarrow> ([], False)
        | Some space \<Rightarrow>
            if length l - 1 - (space + 1) < 3 then ([], False)
            else let c = PrepareHeaders (drop (space + 1) t) in ([c], cb c = 0))"

fun blob_loop ::
  "bytes \<Rightarrow> bytes \<Rightarrow> bool \<Rightarrow> response_call list \<Rightarrow> (response_call \<Rightarrow> int) \<Rightarrow>
     bytes option \<times> response_call list" where
  "blob_loop [] line st calls cb = (Some [], calls)"
| "blob_loop (b # bs) line st calls cb =
     (if b = 10 then
        if length line < 1 then (None, calls)
        else if last line \<noteq> 13 then (None, calls)
        else if length line = 1 then (Some bs, calls)
        else
          let (cs, ok) = header_line line st cb in
          if ok then blob_loop bs [] True (calls @ cs) cb else (None, calls @ cs)
      else blob_loop bs (line @ [b]) st calls cb)"

definition uwsgi_blob_to_response :: "bytes \<Rightarrow> (response_call \<Rightarrow> int) \<Rightarrow> int \<times> response_call list" where
  "uwsgi_blob_to_response body cb =
     (case blob_loop body [] False [] cb of
        (None, calls) \<Rightarrow> (-1, calls)
      | (Some rest, calls) \<Rightarrow>
          if rest = [] then (0, calls)
          else if cb (WriteBody rest) \<noteq> 0 then (-1, calls @ [WriteBody rest])
          else (0, calls @ [WriteBody rest]))"


section \<open>The format and its parsers\<close>

lemma le16_length [simp]: "length (le16 n) = 2"
  by (simp add: le16_def)

lemma le_nat_le16 [codec]: "n < 65536 \<Longrightarrow> le_nat (le16 n) = n"
proof -
  assume "n < 65536"
  then have "unat (word_of_nat n :: u16) = n" by (simp add: unat_of_nat)
  moreover have "le16 n = le_bytes 2 (word_of_nat n :: u16)" by (simp add: le16_def le_bytes_def upt_rec)
  ultimately show ?thesis using \<open>n < 65536\<close> by (simp add: le_nat_le_bytes)
qed

lemma rd_le2: "p + 2 \<le> length m \<Longrightarrow> rd_le 2 m p = Some (le_nat (take 2 (drop p m)))"
  by (simp add: rd_le_def mem_read_def)

lemma le_nat2_bound: "length xs = 2 \<Longrightarrow> le_nat xs < 65536"
  using le_nat_bound [of xs] by simp

lemma le16_le_nat: "length xs = 2 \<Longrightarrow> le16 (le_nat xs) = xs"
proof -
  assume l: "length xs = 2"
  then obtain a b where x: "xs = [a, b]" by (auto simp: length_Suc_conv numeral_2_eq_2)
  have u: "unat a < 256" "unat b < 256" using unsigned_less [of a] unsigned_less [of b] by simp_all
  obtain n where n: "le_nat xs = n" "n = unat a + 256 * unat b" by (simp add: x)
  have "n < 65536" using u n(2) by simp
  then have "unat (word_of_nat n :: u16) = n" by (simp add: unat_of_nat)
  then have "unat (byte_of (word_of_nat n :: u16) 0) = unat a" "unat (byte_of (word_of_nat n :: u16) 1) = unat b"
    using n(2) u by (simp_all add: unat_byte_of)
  then have "byte_of (word_of_nat n :: u16) 0 = a \<and> byte_of (word_of_nat n :: u16) 1 = b"
    by (simp add: word_unat_eq_iff)
  then have "le16 n = [a, b]" by (simp add: le16_def)
  then show ?thesis using n(1) x by simp
qed

definition enc_var :: "bytes \<times> bytes \<Rightarrow> bytes" where
  "enc_var kv = le16 (length (fst kv)) @ fst kv @ le16 (length (snd kv)) @ snd kv"

definition enc_vars :: "(bytes \<times> bytes) list \<Rightarrow> bytes" where
  "enc_vars kvs = concat (map enc_var kvs)"

definition var_ok :: "bytes \<times> bytes \<Rightarrow> bool" where
  "var_ok kv \<longleftrightarrow> fst kv \<noteq> [] \<and> length (fst kv) < 65536 \<and> length (snd kv) < 65536"

definition var_at :: "bytes \<Rightarrow> region \<times> region \<Rightarrow> bytes \<times> bytes" where
  "var_at m c = (contents_at m (fst c), contents_at m (snd c))"

lemma enc_vars_simps [simp]:
  "enc_vars [] = []" "enc_vars (kv # kvs) = enc_var kv @ enc_vars kvs" "enc_vars (xs @ ys) = enc_vars xs @ enc_vars ys"
  by (simp_all add: enc_vars_def)

lemma take_drop_split: "p + a \<le> e \<Longrightarrow> take (e - p) (drop p m) = take a (drop p m) @ take (e - (p + a)) (drop (p + a) m)"
  by (metis add.commute diff_add_inverse2 diff_diff_left drop_drop le_add_diff_inverse2 le_diff_conv2 take_add add_leD1)

text \<open>What the loop reads at one pair.\<close>

lemma var_bytes:
  assumes "e \<le> length m" "p + 2 + k + 2 + v \<le> e" "rd_le 2 m p = Some k" "rd_le 2 m (p + 2 + k) = Some v"
  shows "take (e - p) (drop p m) =
     enc_var (var_at m ((p + 2, k), (p + 2 + k + 2, v))) @ take (e - (p + 2 + k + 2 + v)) (drop (p + 2 + k + 2 + v) m)"
proof -
  have k: "take 2 (drop p m) = le16 k" and v: "take 2 (drop (p + 2 + k) m) = le16 v"
    using assms rd_le2 [of p m] rd_le2 [of "p + 2 + k" m] by (auto simp: le16_le_nat)
  have l: "length (take k (drop (p + 2) m)) = k" "length (take v (drop (p + 2 + k + 2) m)) = v"
    using assms(1,2) by simp_all
  have "take (e - p) (drop p m) = le16 k @ take k (drop (p + 2) m) @ le16 v @ take v (drop (p + 2 + k + 2) m) @
      take (e - (p + 2 + k + 2 + v)) (drop (p + 2 + k + 2 + v) m)"
    using take_drop_split [of p 2 e m] take_drop_split [of "p + 2" k e m] take_drop_split [of "p + 2 + k" 2 e m]
      take_drop_split [of "p + 2 + k + 2" v e m] assms(2) k v by simp
  then show ?thesis using l by (simp add: enc_var_def var_at_def contents_at_def)
qed

lemma hooked_loop_sound:
  assumes "e \<le> length m" "p \<le> e"
  shows "\<exists>r ext rest. hooked_loop m p e acc = Some (r, acc @ ext) \<and> (r = 0 \<or> r = -1) \<and>
     (\<forall>c\<in>set ext. var_ok (var_at m c)) \<and>
     take (e - p) (drop p m) = enc_vars (map (var_at m) ext) @ rest \<and> (r = 0 \<longleftrightarrow> rest = [])"
  using assms
proof (induction m p e acc rule: hooked_loop.induct)
  case (1 m p e acc)
  have stop: ?case if "hooked_loop m p e acc = Some (-1, acc)" "p < e"
    using that 1(2) by (intro exI [of _ "-1"] exI [of _ "[]"] exI [of _ "take (e - p) (drop p m)"]) auto
  consider "p \<ge> e" | "p < e" "p + 2 \<ge> e" | "p + 2 < e" by linarith
  then show ?case
  proof cases
    case 1
    then show ?thesis by (intro exI [of _ 0] exI [of _ "[]"]) (simp add: hooked_loop.simps [of m p e acc])
  next
    case 2
    then show ?thesis by (intro stop) (simp_all add: hooked_loop.simps [of m p e acc])
  next
    case 3
    obtain k where k: "rd_le 2 m p = Some k" using 3 1(2) rd_le2 [of p m] by simp
    have kb: "k < 65536" using rd_le_bound [OF k] by simp
    show ?thesis
    proof (cases "k = 0 \<or> p + 2 + k + 2 > e")
      case True
      then show ?thesis using 3 k by (intro stop) (auto simp: hooked_loop.simps [of m p e acc])
    next
      case False
      obtain v where v: "rd_le 2 m (p + 2 + k) = Some v" using False 1(2) rd_le2 [of "p + 2 + k" m] by simp
      have vb: "v < 65536" using rd_le_bound [OF v] by simp
      show ?thesis
      proof (cases "p + 2 + k + 2 + v > e")
        case True
        then show ?thesis using 3 k v False by (intro stop) (auto simp: hooked_loop.simps [of m p e acc])
      next
        case le: False
        let ?c = "((p + 2, k), (p + 2 + k + 2, v))"
        have step: "hooked_loop m p e acc = hooked_loop m (p + 2 + k + 2 + v) e (acc @ [?c])"
          using 3 k v False le by (simp add: hooked_loop.simps [of m p e acc])
        have "var_ok (var_at m ?c)"
          using kb vb False le 1(2) by (auto simp: var_ok_def var_at_def contents_at_def)
        moreover have "take (e - p) (drop p m) = enc_var (var_at m ?c) @
            take (e - (p + 2 + k + 2 + v)) (drop (p + 2 + k + 2 + v) m)"
          using var_bytes [OF 1(2) _ k v] le by simp
        moreover obtain r ext rest where
          "hooked_loop m (p + 2 + k + 2 + v) e (acc @ [?c]) = Some (r, (acc @ [?c]) @ ext)" "r = 0 \<or> r = -1"
          "\<forall>c\<in>set ext. var_ok (var_at m c)"
          "take (e - (p + 2 + k + 2 + v)) (drop (p + 2 + k + 2 + v) m) = enc_vars (map (var_at m) ext) @ rest"
          "r = 0 \<longleftrightarrow> rest = []"
          using 1(1) [OF _ _ k _ _ _ v] 3 False le 1(2) by (simp add: not_le) blast
        ultimately show ?thesis unfolding step
          by (intro exI [of _ r] exI [of _ "?c # ext"] exI [of _ rest]) auto
      qed
    qed
  qed
qed


lemma take_drop_inner:
  "take (e - p) (drop p m) = xs @ ys @ zs \<Longrightarrow> take (length ys) (drop (p + length xs) m) = ys"
proof -
  assume a: "take (e - p) (drop p m) = xs @ ys @ zs"
  have "length (xs @ ys @ zs) \<le> e - p" using arg_cong [OF a, of length] by simp
  then have l: "length xs + length ys \<le> e - p" by simp
  have "take (length ys) (drop (length xs) (take (e - p) (drop p m))) = ys" by (simp add: a)
  moreover have "length ys \<le> e - p - length xs" using l by linarith
  ultimately show ?thesis by (simp add: drop_take min_def add.commute)
qed

lemma hooked_loop_complete:
  "\<forall>kv\<in>set kvs. var_ok kv \<Longrightarrow> e \<le> length m \<Longrightarrow> p \<le> e \<Longrightarrow> take (e - p) (drop p m) = enc_vars kvs \<Longrightarrow>
     \<exists>calls. hooked_loop m p e acc = Some (0, calls)"
proof (induction kvs arbitrary: p acc)
  case Nil
  then have "e \<le> p" by auto
  then show ?case by (subst hooked_loop.simps) simp
next
  case (Cons kv kvs)
  obtain key val where kv: "kv = (key, val)" by (cases kv)
  let ?k = "length key" and ?v = "length val"
  have ok: "0 < ?k" "?k < 65536" "?v < 65536" using Cons.prems(1) kv by (auto simp: var_ok_def)
  have t: "take (e - p) (drop p m) = le16 ?k @ key @ le16 ?v @ val @ enc_vars kvs"
    using Cons.prems(4) kv by (simp add: enc_var_def)
  have len: "e - p = 2 + ?k + 2 + ?v + length (enc_vars kvs)"
    using arg_cong [OF t, of length] Cons.prems(2,3) by simp
  have "take 2 (drop p m) = le16 ?k" using take_drop_inner [of e p m "[]" "le16 ?k" "key @ le16 ?v @ val @ enc_vars kvs"] t by simp
  then have k: "rd_le 2 m p = Some ?k" using rd_le2 [of p m] len Cons.prems(2,3) le_nat_le16 [OF ok(2)] by simp
  have "take 2 (drop (p + (2 + ?k)) m) = le16 ?v"
    using take_drop_inner [of e p m "le16 ?k @ key" "le16 ?v" "val @ enc_vars kvs"] t by simp
  then have v: "rd_le 2 m (p + 2 + ?k) = Some ?v"
    using rd_le2 [of "p + 2 + ?k" m] len Cons.prems(2,3) le_nat_le16 [OF ok(3)] by (simp add: add.assoc)
  have le: "p + 2 + ?k + 2 + ?v \<le> e" using len Cons.prems(3) by linarith
  have step: "hooked_loop m p e acc =
      hooked_loop m (p + 2 + ?k + 2 + ?v) e (acc @ [((p + 2, ?k), (p + 2 + ?k + 2, ?v))])"
    using k v le ok by (subst hooked_loop.simps) simp
  have "take (e - (p + 2 + ?k + 2 + ?v)) (drop (p + 2 + ?k + 2 + ?v) m) = enc_vars kvs"
  proof -
    have "drop (2 + ?k + 2 + ?v) (take (e - p) (drop p m)) = enc_vars kvs" unfolding t by simp
    then show ?thesis by (simp add: drop_take add.commute add.left_commute)
  qed
  from Cons.IH [OF _ Cons.prems(2) le this] Cons.prems(1) show ?case unfolding step by simp
qed

text \<open>The format is unambiguous.\<close>

lemma le16_inj: "a < 65536 \<Longrightarrow> b < 65536 \<Longrightarrow> le16 a = le16 b \<Longrightarrow> a = b"
  by (metis le_nat_le16)

lemma enc_var_nonempty [simp]: "enc_var kv \<noteq> []"
  by (simp add: enc_var_def le16_def)

lemma enc_vars_unique:
  "\<forall>kv\<in>set xs. var_ok kv \<Longrightarrow> \<forall>kv\<in>set ys. var_ok kv \<Longrightarrow> enc_vars xs = enc_vars ys \<Longrightarrow> xs = ys"
proof (induction xs arbitrary: ys)
  case Nil
  then show ?case by (cases ys) auto
next
  case (Cons x xs)
  then obtain y ys' where y: "ys = y # ys'" by (cases ys) auto
  obtain k v k' v' where kv: "x = (k, v)" "y = (k', v')" by (cases x; cases y)
  have ok: "length k < 65536" "length v < 65536" "length k' < 65536" "length v' < 65536"
    using Cons.prems(1,2) y kv by (auto simp: var_ok_def)
  have e: "le16 (length k) @ k @ le16 (length v) @ v @ enc_vars xs =
      le16 (length k') @ k' @ le16 (length v') @ v' @ enc_vars ys'"
    using Cons.prems(3) y kv by (simp add: enc_var_def)
  then have "length k = length k'" by (intro le16_inj ok) (simp add: append_eq_append_conv)
  with e have k: "k = k'" "le16 (length v) @ v @ enc_vars xs = le16 (length v') @ v' @ enc_vars ys'"
    by (simp_all add: append_eq_append_conv)
  then have "length v = length v'" by (intro le16_inj ok) (simp add: append_eq_append_conv)
  with k have "x = y" "enc_vars xs = enc_vars ys'" using kv by simp_all
  with Cons.IH [of ys'] Cons.prems(1,2) y show ?case by simp
qed

lemma hooked_parse_accepts:
  assumes "len \<le> length m" "\<forall>kv\<in>set kvs. var_ok kv" "take len m = enc_vars kvs"
  obtains calls where "uwsgi_hooked_parse m len = Some (0, calls)" "map (var_at m) calls = kvs"
proof -
  obtain r ext rest where h: "hooked_loop m 0 len [] = Some (r, ext)" "\<forall>c\<in>set ext. var_ok (var_at m c)"
    "take len m = enc_vars (map (var_at m) ext) @ rest" "r = 0 \<longleftrightarrow> rest = []"
    using hooked_loop_sound [of len m 0 "[]"] assms(1) by auto
  have r: "r = 0" using hooked_loop_complete [OF assms(2,1), of 0 "[]"] assms(3) h(1) by auto
  have "map (var_at m) ext = kvs"
    using enc_vars_unique [OF assms(2), of "map (var_at m) ext"] h r assms(3) by auto
  then show ?thesis using that [of ext] h(1) r by (simp add: uwsgi_hooked_parse_def)
qed

lemma hooked_parse_accepted:
  assumes "len \<le> length m" "uwsgi_hooked_parse m len = Some (0, calls)"
  shows "take len m = enc_vars (map (var_at m) calls)" "\<forall>kv\<in>set (map (var_at m) calls). var_ok kv"
  using hooked_loop_sound [of len m 0 "[]"] assms by (auto simp: uwsgi_hooked_parse_def)

text \<open>
  C29: the parser is defined on every packet; it answers 0 exactly when the packet is the
  encoding of a list of pairs with non-empty keys, and then it has called the hook with
  exactly these pairs in order; otherwise it answers -1.
\<close>

theorem uwsgi_hooked_parse_correct:
  assumes "len \<le> length m"
  shows "\<exists>r calls. uwsgi_hooked_parse m len = Some (r, calls) \<and>
     (if r = 0 then take len m = enc_vars (map (var_at m) calls) \<and> (\<forall>c\<in>set calls. var_ok (var_at m c))
      else r = -1 \<and> \<not> (\<exists>kvs. (\<forall>kv\<in>set kvs. var_ok kv) \<and> take len m = enc_vars kvs))"
proof -
  obtain r ext rest where h: "hooked_loop m 0 len [] = Some (r, ext)" "r = 0 \<or> r = -1"
    "\<forall>c\<in>set ext. var_ok (var_at m c)" "take len m = enc_vars (map (var_at m) ext) @ rest" "r = 0 \<longleftrightarrow> rest = []"
    using hooked_loop_sound [of len m 0 "[]"] assms by auto
  have "r = 0" if "\<forall>kv\<in>set kvs. var_ok kv" "take len m = enc_vars kvs" for kvs
    using hooked_loop_complete [OF that(1) assms, of 0 "[]"] that(2) h(1) by auto
  then show ?thesis unfolding uwsgi_hooked_parse_def using h by (intro exI [of _ r] exI [of _ ext]) auto
qed

definition packet_sample :: "(bytes \<times> bytes) list" where
  "packet_sample = [(str ''a'', str ''bc''), (str ''d'', [])]"

lemma packet_sample_ok:
  "length (enc_vars packet_sample) = 12" "\<forall>kv\<in>set packet_sample. var_ok kv" "packet_sample \<noteq> []"
  "length packet_sample = 2"
  by (simp_all add: packet_sample_def enc_var_def var_ok_def str_eq_Nil)

theorem uwsgi_hooked_parse_correct_witness:
  "\<exists>calls. uwsgi_hooked_parse (enc_vars packet_sample @ [9]) 12 = Some (0, calls) \<and>
     enc_vars packet_sample = enc_vars (map (var_at (enc_vars packet_sample @ [9])) calls)"
proof -
  have l: "length (enc_vars packet_sample) = 12" by (simp add: packet_sample_def enc_var_def)
  then have t: "take 12 (enc_vars packet_sample @ [9]) = enc_vars packet_sample" by simp
  have ok: "\<forall>kv\<in>set packet_sample. var_ok kv" by (simp add: packet_sample_def var_ok_def str_eq_Nil)
  have "12 \<le> length (enc_vars packet_sample @ [9])" using l by simp
  from uwsgi_hooked_parse_correct [OF this] t ok show ?thesis by metis
qed


section \<open>Ranges\<close>

text \<open>
  A range that \<open>uwsgi_fix_range_for_size\<close> declares valid lies inside the resource, provided
  a suffix range is not longer than the resource; it is reset to the whole resource, or is
  invalid and empty, otherwise.
\<close>

theorem uwsgi_fix_range_inside:
  assumes "rg_state r = Parsed" "0 < sz" "- sz \<le> rg_from r" "0 \<le> rg_from r \<longrightarrow> rg_from r \<le> rg_to r"
  shows "case rg_state (uwsgi_fix_range_for_size r sz) of
      Valid \<Rightarrow> 0 \<le> rg_from (uwsgi_fix_range_for_size r sz) \<and>
        rg_from (uwsgi_fix_range_for_size r sz) \<le> rg_to (uwsgi_fix_range_for_size r sz) \<and>
        rg_to (uwsgi_fix_range_for_size r sz) < sz
    | NotParsed \<Rightarrow> rg_from (uwsgi_fix_range_for_size r sz) = 0 \<and> rg_to (uwsgi_fix_range_for_size r sz) = sz - 1
    | Invalid \<Rightarrow> rg_from (uwsgi_fix_range_for_size r sz) = 0 \<and> rg_to (uwsgi_fix_range_for_size r sz) = 0
    | Parsed \<Rightarrow> False"
  using assms by (simp add: uwsgi_fix_range_for_size_def Let_def)

theorem uwsgi_fix_range_inside_witness:
  "rg_state (uwsgi_fix_range_for_size \<lparr>rg_state = Parsed, rg_from = -30, rg_to = INT64_MAX\<rparr> 100) = Valid \<and>
   0 \<le> rg_from (uwsgi_fix_range_for_size \<lparr>rg_state = Parsed, rg_from = -30, rg_to = INT64_MAX\<rparr> 100)"
proof -
  let ?r = "\<lparr>rg_state = Parsed, rg_from = -30, rg_to = INT64_MAX\<rparr>"
  have s: "rg_state (uwsgi_fix_range_for_size ?r 100) = Valid" by (simp add: uwsgi_fix_range_for_size_def Let_def)
  from uwsgi_fix_range_inside [of ?r 100] s show ?thesis by simp
qed

text \<open>
  The header \<open>bytes=-n\<close> with a suffix longer than the resource (which RFC 7233 has mean the
  whole resource) becomes a range declared valid whose start is negative.
\<close>

theorem uwsgi_fix_range_long_suffix:
  assumes "rg_state r = Parsed" "0 < sz" "rg_from r < - sz" "0 \<le> rg_to r"
  shows "rg_state (uwsgi_fix_range_for_size r sz) = Valid \<and> rg_from (uwsgi_fix_range_for_size r sz) = sz + rg_from r \<and>
     sz + rg_from r < 0"
  using assms by (simp add: uwsgi_fix_range_for_size_def Let_def)

lemma parse_suffix_range:
  "uwsgi_parse_http_range (str ''bytes=-500'') = Some \<lparr>rg_state = Parsed, rg_from = -500, rg_to = INT64_MAX\<rparr>"
proof -
  have n: "uwsgi_str_num (str ''500'') = Some 500"
    by (simp add: uwsgi_str_num_def str_def ch_def signed_char_def Let_def)
  have f: "takeWhile (\<lambda>b. b \<noteq> ch CHR '','') (str ''bytes=-500'') = str ''bytes=-500''"
    "memchr (ch CHR ''='') (str ''bytes=-500'') = Some 5" "take 5 (str ''bytes=-500'') = str ''bytes''"
    "drop 6 (str ''bytes=-500'') = str ''-500''" "memchr (ch CHR ''-'') (str ''-500'') = Some 0"
    "drop 1 (str ''-500'') = str ''500''"
    by code_simp+
  have "u64_to_i64 500 = 500" "neg_i64 500 = Some (-500)"
    by (simp_all add: u64_to_i64_def to_signed_def neg_i64_def)
  then show ?thesis unfolding uwsgi_parse_http_range_def Let_def f option.case n by simp
qed

theorem uwsgi_fix_range_long_suffix_witness:
  "\<exists>r. uwsgi_parse_http_range (str ''bytes=-500'') = Some r \<and>
     rg_state (uwsgi_fix_range_for_size r 100) = Valid \<and> rg_from (uwsgi_fix_range_for_size r 100) = -400"
  using uwsgi_fix_range_long_suffix [of "\<lparr>rg_state = Parsed, rg_from = -500, rg_to = INT64_MAX\<rparr>" 100]
    parse_suffix_range by simp

end
