(* ===== verification/Request.thy ===== *)
theory Request
  imports Protocol
begin

text \<open>
  The request and the parsing of its variables (\<^verbatim>\<open>core/protocol.c\<close>): the hooks by key length,
  the loops of \<^verbatim>\<open>uwsgi_simple_parse_vars\<close> and \<^verbatim>\<open>uwsgi_parse_vars\<close>, the management of
  \<^verbatim>\<open>SCRIPT_NAME\<close>, the static files that follow, and the two functions that add variables to a
  request.

  A string of the request is a pointer and a length.  A pointer goes into the packet
  (\<open>InBuf\<close>) or to other memory (\<open>Const\<close>, the bytes there).
\<close>

datatype ptr = InBuf nat | Const bytes

type_synonym strp = "ptr \<times> nat"

abbreviation nullp :: strp where "nullp \<equiv> (Const [], 0)"

record wsgi_request =
  r_buffer :: bytes
  r_pktsize :: nat
  r_hvec :: "strp list"
  r_var_cnt :: nat
  r_parsed :: bool
  r_dynamic :: bool
  r_status :: int
  r_script_name_pos :: int
  r_path_info_pos :: int
  r_post_cl :: nat
  r_post_file :: "bytes option"
  r_env :: "(bytes \<times> bytes) list"           \<comment> \<open>what \<^verbatim>\<open>setenv\<close> was called with\<close>
  r_range :: range
  r_range_from0 :: nat                       \<comment> \<open>\<^verbatim>\<open>__range_from\<close>\<close>
  r_range_to0 :: nat                         \<comment> \<open>\<^verbatim>\<open>__range_to\<close>\<close>
  r_body :: bytes                            \<comment> \<open>what \<^verbatim>\<open>uwsgi_response_write_body_do\<close> was given\<close>
  r_parser_buf :: "bytes option"
  r_remains :: nat
  r_remains_buf :: ptr
  r_https :: strp
  r_path_info :: strp
  r_host :: strp
  r_file :: strp
  r_home :: strp
  r_script_name :: strp
  r_uri :: strp
  r_remote_user :: strp
  r_remote_addr :: strp
  r_cookie :: strp
  r_appid :: strp
  r_chdir :: strp
  r_http_origin :: strp
  r_query_string :: strp
  r_content_type :: strp
  r_referer :: strp
  r_scheme :: strp
  r_script :: strp
  r_module :: strp
  r_document_root :: strp
  r_method :: strp
  r_callable :: strp
  r_protocol :: strp
  r_user_agent :: strp
  r_cache_get :: strp
  r_authorization :: strp
  r_touch_reload :: strp
  r_encoding :: strp
  r_if_modified_since :: strp
  r_http_sec_websocket_key :: strp
  r_http_sec_websocket_protocol :: strp
  r_if_range :: strp

text \<open>
  A directory of the static file lists: its key, its value and whether the value was resolved
  (\<^verbatim>\<open>status\<close>: 0 for not yet, 2 for a file, 1 otherwise).
\<close>

record udd =
  udd_key :: bytes
  udd_value :: "bytes option"
  udd_status :: nat

text \<open>
  The options of the server, and the functions of other files and of the system the parser
  calls: the opening of a file, the path resolution, the post buffering, the lookup of a
  magic cache string and the serving of a file (0 when it was served).
\<close>

record pcfg =
  pc_vec_size :: nat
  pc_buffer_size :: nat
  pc_honour_range :: bool
  pc_limit_post :: nat
  pc_caches :: bool
  pc_log_x_forwarded_for :: bool
  pc_fopen :: "bytes \<Rightarrow> bool"
  pc_post_buffering :: nat
  pc_postbuffer_disk :: "wsgi_request \<Rightarrow> int \<times> wsgi_request"
  pc_postbuffer_mem :: "wsgi_request \<Rightarrow> int \<times> wsgi_request"
  pc_magic_get :: "bytes \<Rightarrow> bytes option"
  pc_check_cache :: bool
  pc_manage_script_name :: bool
  pc_apps :: "bytes list"
  pc_static_skip_ext :: "bytes list"
  pc_check_static :: "udd list"
  pc_static_maps :: "udd list"
  pc_static_maps2 :: "udd list"
  pc_check_static_docroot :: bool
  pc_realpath :: "bytes \<Rightarrow> bytes option"
  pc_is_file :: "bytes \<Rightarrow> bool"
  pc_file_serve :: "bytes \<Rightarrow> bytes \<Rightarrow> nat \<Rightarrow> int"

section \<open>Strings of the request\<close>

definition ptr_add :: "ptr \<Rightarrow> nat \<Rightarrow> ptr" where
  "ptr_add p k = (case p of InBuf n \<Rightarrow> InBuf (n + k) | Const b \<Rightarrow> Const (drop k b))"

definition str_at :: "wsgi_request \<Rightarrow> strp \<Rightarrow> bytes" where
  "str_at r s = (case fst s of InBuf n \<Rightarrow> take (snd s) (drop n (r_buffer r)) | Const b \<Rightarrow> take (snd s) b)"

text \<open>A C string ends at the first zero byte.\<close>

definition c_str :: "bytes \<Rightarrow> bytes" where
  "c_str s = takeWhile (\<lambda>b. b \<noteq> 0) s"

text \<open>\<^verbatim>\<open>uwsgi_proto_key\<close>: the bytes at the key compared with a constant.\<close>

definition key_is :: "wsgi_request \<Rightarrow> nat \<Rightarrow> string \<Rightarrow> bool" where
  "key_is r key s \<longleftrightarrow> take (length s) (drop key (r_buffer r)) = str s"

section \<open>The hooks\<close>

type_synonym hook = "pcfg \<Rightarrow> wsgi_request \<Rightarrow> nat \<Rightarrow> strp \<Rightarrow> (int \<times> wsgi_request) option"

definition uwsgi_proto_check_5 :: hook where
  "uwsgi_proto_check_5 c r key v =
     (if key_is r key ''HTTPS'' then Some (0, r\<lparr>r_https := v\<rparr>) else Some (0, r))"

definition uwsgi_proto_check_9 :: hook where
  "uwsgi_proto_check_9 c r key v =
     (if key_is r key ''PATH_INFO''
      then Some (0, r\<lparr>r_path_info := v, r_path_info_pos := int (r_var_cnt r) + 1\<rparr>)
      else if key_is r key ''HTTP_HOST'' then Some (0, r\<lparr>r_host := v\<rparr>)
      else Some (0, r))"

text \<open>
  \<^verbatim>\<open>HTTP_IF_RANGE\<close> has 13 letters and is compared in the hook for keys of 10: the comparison
  reads three bytes behind the key.
\<close>

definition uwsgi_proto_check_10 :: hook where
  "uwsgi_proto_check_10 c r key v =
     (if pc_honour_range c \<and> key + 13 > length (r_buffer r) then None
      else
        let r = (if pc_honour_range c \<and> key_is r key ''HTTP_IF_RANGE'' then r\<lparr>r_if_range := v\<rparr> else r) in
        if pc_honour_range c \<and> key_is r key ''HTTP_RANGE'' then do {
          rg \<leftarrow> uwsgi_parse_http_range (str_at r v);
          Some (0, r\<lparr>r_range := rg, r_range_from0 := nat (rg_from rg mod 2 ^ 64),
                     r_range_to0 := nat (rg_to rg mod 2 ^ 64)\<rparr>) }
        else if key_is r key ''UWSGI_FILE'' then Some (0, r\<lparr>r_file := v, r_dynamic := True\<rparr>)
        else if key_is r key ''UWSGI_HOME'' then Some (0, r\<lparr>r_home := v\<rparr>)
        else Some (0, r))"

definition uwsgi_proto_check_11 :: hook where
  "uwsgi_proto_check_11 c r key v =
     (if key_is r key ''SCRIPT_NAME''
      then Some (0, r\<lparr>r_script_name := v, r_script_name_pos := int (r_var_cnt r) + 1\<rparr>)
      else if key_is r key ''REQUEST_URI'' then Some (0, r\<lparr>r_uri := v\<rparr>)
      else if key_is r key ''REMOTE_USER'' then Some (0, r\<lparr>r_remote_user := v\<rparr>)
      else if snd (r_host r) = 0 \<and> key_is r key ''SERVER_NAME'' then Some (0, r\<lparr>r_host := v\<rparr>)
      else if snd (r_remote_addr r) = 0 \<and> key_is r key ''REMOTE_ADDR'' then Some (0, r\<lparr>r_remote_addr := v\<rparr>)
      else if key_is r key ''HTTP_COOKIE'' then Some (0, r\<lparr>r_cookie := v\<rparr>)
      else if key_is r key ''UWSGI_APPID'' then Some (0, r\<lparr>r_appid := v\<rparr>)
      else if key_is r key ''UWSGI_CHDIR'' then Some (0, r\<lparr>r_chdir := v\<rparr>)
      else if key_is r key ''HTTP_ORIGIN'' then Some (0, r\<lparr>r_http_origin := v\<rparr>)
      else Some (0, r))"

text \<open>
  \<^verbatim>\<open>UWSGI_SETENV\<close> puts a zero byte in place of the first \<^verbatim>\<open>=\<close> of the value, in the packet, and
  sets the variable; a name that is empty is an error that is only logged.
\<close>

definition set_env :: "wsgi_request \<Rightarrow> strp \<Rightarrow> wsgi_request" where
  "set_env r v =
     (case (memchr (ch CHR ''='') (str_at r v), fst v) of
        (Some eq, InBuf n) \<Rightarrow>
          let name = c_str (take eq (str_at r v)); value = c_str (drop (eq + 1) (str_at r v));
              r = r\<lparr>r_buffer := (r_buffer r)[n + eq := 0]\<rparr> in
          if name = [] then r else r\<lparr>r_env := r_env r @ [(name, value)]\<rparr>
      | _ \<Rightarrow> r)"

definition uwsgi_proto_check_12 :: hook where
  "uwsgi_proto_check_12 c r key v =
     (if key_is r key ''QUERY_STRING'' then Some (0, r\<lparr>r_query_string := v\<rparr>)
      else if key_is r key ''CONTENT_TYPE'' then Some (0, r\<lparr>r_content_type := v\<rparr>)
      else if key_is r key ''HTTP_REFERER'' then Some (0, r\<lparr>r_referer := v\<rparr>)
      else if key_is r key ''UWSGI_SCHEME'' then Some (0, r\<lparr>r_scheme := v\<rparr>)
      else if key_is r key ''UWSGI_SCRIPT'' then Some (0, r\<lparr>r_script := v, r_dynamic := True\<rparr>)
      else if key_is r key ''UWSGI_MODULE'' then Some (0, r\<lparr>r_module := v, r_dynamic := True\<rparr>)
      else if key_is r key ''UWSGI_PYHOME'' then Some (0, r\<lparr>r_home := v\<rparr>)
      else if key_is r key ''UWSGI_SETENV'' then Some (0, set_env r v)
      else Some (0, r))"

definition uwsgi_proto_check_13 :: hook where
  "uwsgi_proto_check_13 c r key v =
     (if key_is r key ''DOCUMENT_ROOT'' then Some (0, r\<lparr>r_document_root := v\<rparr>) else Some (0, r))"

definition uwsgi_proto_check_14 :: hook where
  "uwsgi_proto_check_14 c r key v =
     (if key_is r key ''REQUEST_METHOD'' then Some (0, r\<lparr>r_method := v\<rparr>)
      else if key_is r key ''CONTENT_LENGTH'' then
        let r = r\<lparr>r_post_cl := unat (get_content_length (str_at r v))\<rparr> in
        if pc_limit_post c \<noteq> 0 \<and> r_post_cl r > pc_limit_post c then Some (-1, r) else Some (0, r)
      else if key_is r key ''UWSGI_POSTFILE'' then
        let path = c_str (str_at r v) in
        Some (0, r\<lparr>r_post_file := (if pc_fopen c path then Some path else None)\<rparr>)
      else if key_is r key ''UWSGI_CALLABLE'' then Some (0, r\<lparr>r_callable := v, r_dynamic := True\<rparr>)
      else Some (0, r))"

definition uwsgi_proto_check_15 :: hook where
  "uwsgi_proto_check_15 c r key v =
     (if key_is r key ''SERVER_PROTOCOL'' then Some (0, r\<lparr>r_protocol := v\<rparr>)
      else if key_is r key ''HTTP_USER_AGENT'' then Some (0, r\<lparr>r_user_agent := v\<rparr>)
      else if pc_caches c \<and> key_is r key ''UWSGI_CACHE_GET'' then Some (0, r\<lparr>r_cache_get := v\<rparr>)
      else Some (0, r))"

definition uwsgi_proto_check_18 :: hook where
  "uwsgi_proto_check_18 c r key v =
     (if key_is r key ''HTTP_AUTHORIZATION'' then Some (0, r\<lparr>r_authorization := v\<rparr>)
      else if key_is r key ''UWSGI_TOUCH_RELOAD'' then Some (0, r\<lparr>r_touch_reload := v\<rparr>)
      else Some (0, r))"

definition uwsgi_proto_check_20 :: hook where
  "uwsgi_proto_check_20 c r key v =
     (if pc_log_x_forwarded_for c \<and> key_is r key ''HTTP_X_FORWARDED_FOR''
      then Some (0, r\<lparr>r_remote_addr := v\<rparr>)
      else
        let r = (if key_is r key ''HTTP_X_FORWARDED_SSL'' then r\<lparr>r_https := v\<rparr> else r) in
        if key_is r key ''HTTP_ACCEPT_ENCODING'' then Some (0, r\<lparr>r_encoding := v\<rparr>) else Some (0, r))"

definition uwsgi_proto_check_22 :: hook where
  "uwsgi_proto_check_22 c r key v =
     (if key_is r key ''HTTP_IF_MODIFIED_SINCE'' then Some (0, r\<lparr>r_if_modified_since := v\<rparr>)
      else if key_is r key ''HTTP_SEC_WEBSOCKET_KEY'' then Some (0, r\<lparr>r_http_sec_websocket_key := v\<rparr>)
      else if key_is r key ''HTTP_X_FORWARDED_PROTO'' then Some (0, r\<lparr>r_scheme := v\<rparr>)
      else Some (0, r))"

definition uwsgi_proto_check_27 :: hook where
  "uwsgi_proto_check_27 c r key v =
     (if key_is r key ''HTTP_SEC_WEBSOCKET_PROTOCOL''
      then Some (0, r\<lparr>r_http_sec_websocket_protocol := v\<rparr>) else Some (0, r))"

definition uwsgi_proto_hooks_setup :: "nat \<Rightarrow> hook option" where
  "uwsgi_proto_hooks_setup n =
     map_of [(5, uwsgi_proto_check_5), (9, uwsgi_proto_check_9), (10, uwsgi_proto_check_10),
       (11, uwsgi_proto_check_11), (12, uwsgi_proto_check_12), (13, uwsgi_proto_check_13),
       (14, uwsgi_proto_check_14), (15, uwsgi_proto_check_15), (18, uwsgi_proto_check_18),
       (20, uwsgi_proto_check_20), (22, uwsgi_proto_check_22), (27, uwsgi_proto_check_27)] n"

definition run_hook :: "pcfg \<Rightarrow> wsgi_request \<Rightarrow> nat \<Rightarrow> nat \<Rightarrow> strp \<Rightarrow> (int \<times> wsgi_request) option" where
  "run_hook c r keylen key v =
     (if 4 < keylen \<and> keylen < 28 then
        case uwsgi_proto_hooks_setup keylen of None \<Rightarrow> Some (0, r) | Some h \<Rightarrow> h c r key v
      else Some (0, r))"


section \<open>Parsing the variables\<close>

definition hv_put :: "wsgi_request \<Rightarrow> nat \<Rightarrow> strp \<Rightarrow> wsgi_request option" where
  "hv_put r i v = (if i < length (r_hvec r) then Some (r\<lparr>r_hvec := (r_hvec r)[i := v]\<rparr>) else None)"

text \<open>
  One variable, its key of \<open>k\<close> bytes behind position \<open>p\<close>: the part the two loops share.  The
  hooks run in \<^verbatim>\<open>uwsgi_parse_vars\<close> only.  The result has the next position, none when the
  function returns \<open>-1\<close>.
\<close>

definition one_var ::
  "pcfg \<Rightarrow> bool \<Rightarrow> wsgi_request \<Rightarrow> nat \<Rightarrow> nat \<Rightarrow> nat \<Rightarrow> (wsgi_request \<times> nat option) option" where
  "one_var c hooks r p k e = do {
     r \<leftarrow> hv_put r (r_var_cnt r) (InBuf (p + 2), k);
     (if p + 2 + k + 2 \<le> e then do {
        v \<leftarrow> rd_le 2 (r_buffer r) (p + 2 + k);
        (if p + 2 + k + 2 + v \<le> e then do {
           (ret, r) \<leftarrow> (if hooks then run_hook c r k (p + 2) (InBuf (p + 2 + k + 2), v) else Some (0, r));
           (if ret \<noteq> 0 then Some (r, None)
            else if r_var_cnt r + 5 < pc_vec_size c then do {
              r \<leftarrow> hv_put (r\<lparr>r_var_cnt := r_var_cnt r + 1\<rparr>) (r_var_cnt r + 1) (InBuf (p + 2 + k + 2), v);
              (if r_var_cnt r + 5 < pc_vec_size c
               then Some (r\<lparr>r_var_cnt := r_var_cnt r + 1\<rparr>, Some (p + 2 + k + 2 + v))
               else Some (r, None)) }
            else Some (r, None)) }
         else Some (r, None)) }
      else Some (r, None)) }"

lemma one_var_next: "one_var c hooks r p k e = Some (r', Some q) \<Longrightarrow> p + 4 + k \<le> q \<and> q \<le> e"
  by (auto simp: one_var_def split: bind_splits if_splits prod.splits)

text \<open>
  The loop of \<^verbatim>\<open>uwsgi_parse_vars\<close>.  A key that does not end before the packet does is no error:
  the loop goes on behind the key length.
\<close>

function parse_vars_loop :: "pcfg \<Rightarrow> wsgi_request \<Rightarrow> nat \<Rightarrow> nat \<Rightarrow> (int \<times> wsgi_request) option" where
  "parse_vars_loop c r p e =
     (if p \<ge> e then Some (0, r)
      else if p + 2 < e then
        case rd_le 2 (r_buffer r) p of None \<Rightarrow> None | Some k \<Rightarrow>
          if k = 0 then Some (-1, r)
          else if p + 2 + k < e then
            case one_var c True r p k e of None \<Rightarrow> None
            | Some (r', None) \<Rightarrow> Some (-1, r')
            | Some (r', Some q) \<Rightarrow> parse_vars_loop c r' q e
          else parse_vars_loop c r (p + 2) e
      else Some (-1, r))"
  by pat_completeness auto
termination
  by (relation "measure (\<lambda>(c, r, p, e). e - p)") (use one_var_next in fastforce)+

declare parse_vars_loop.simps [simp del]

text \<open>
  The loop of \<^verbatim>\<open>uwsgi_simple_parse_vars\<close> has no branch for one or two bytes left, and then
  never ends: \<open>fuel\<close> bounds the passes.
\<close>

datatype 'a outcome = Returned 'a | Undefined | Running

primrec simple_parse_loop :: "nat \<Rightarrow> pcfg \<Rightarrow> wsgi_request \<Rightarrow> nat \<Rightarrow> nat \<Rightarrow> (int \<times> wsgi_request) outcome" where
  "simple_parse_loop 0 c r p e = Running"
| "simple_parse_loop (Suc fuel) c r p e =
     (if p \<ge> e then Returned (0, r)
      else if p + 2 < e then
        case rd_le 2 (r_buffer r) p of None \<Rightarrow> Undefined | Some k \<Rightarrow>
          if k = 0 then Returned (-1, r)
          else if p + 2 + k < e then
            case one_var c False r p k e of None \<Rightarrow> Undefined
            | Some (r', None) \<Rightarrow> Returned (-1, r')
            | Some (r', Some q) \<Rightarrow> simple_parse_loop fuel c r' q e
          else simple_parse_loop fuel c r (p + 2) e
      else simple_parse_loop fuel c r p e)"

definition uwsgi_simple_parse_vars ::
  "nat \<Rightarrow> pcfg \<Rightarrow> wsgi_request \<Rightarrow> nat \<Rightarrow> nat \<Rightarrow> (int \<times> wsgi_request) outcome" where
  "uwsgi_simple_parse_vars fuel c r ptrbuf bufferend = simple_parse_loop fuel c r ptrbuf bufferend"

section \<open>SCRIPT_NAME\<close>

text \<open>
  The search for the longest mount point that is a prefix of the path; \<open>orig\<close> and \<open>opath\<close> are
  the pointer and the bytes of the original path.  The lengths stored are the ones of the
  mount point (8 bits wide) with its trailing slash; the length of the path has 16 bits.
\<close>

primrec script_loop :: "bytes list \<Rightarrow> nat \<Rightarrow> ptr \<Rightarrow> bytes \<Rightarrow> wsgi_request \<Rightarrow> wsgi_request option" where
  "script_loop [] best orig opath r = Some r"
| "script_loop (m # ms) best orig opath r =
     (let ml = length m mod 256;
          n = (if ml > 0 \<and> m ! (ml - 1) = ch CHR ''/'' then ml - 1 else ml) in
      if length opath < n \<or> n \<le> best \<or> take n opath \<noteq> take n m \<or>
         (length opath > n \<and> opath ! n \<noteq> ch CHR ''/'')
      then script_loop ms best orig opath r
      else
        let sn = (Const m, ml);
            pi = (ptr_add orig ml, nat ((int (length opath) - int ml) mod 65536)) in
        do {
          r \<leftarrow> hv_put (r\<lparr>r_script_name := sn, r_path_info := pi\<rparr>) (nat (r_script_name_pos r)) sn;
          r \<leftarrow> hv_put r (nat (r_path_info_pos r)) pi;
          script_loop ms n orig opath r })"

definition manage_script_name :: "pcfg \<Rightarrow> wsgi_request \<Rightarrow> (int \<times> wsgi_request) option" where
  "manage_script_name c r =
     (if pc_manage_script_name c \<and> pc_apps c \<noteq> [] \<and> snd (r_path_info r) > 1 \<and> r_path_info_pos r \<noteq> -1 then
        if r_script_name_pos r = -1 \<and> r_var_cnt r + 6 \<ge> pc_vec_size c then Some (-1, r)
        else do {
          r \<leftarrow> (if r_script_name_pos r = -1 then do {
                 r \<leftarrow> hv_put r (r_var_cnt r) (Const (str ''SCRIPT_NAME''), 11);
                 let r = r\<lparr>r_var_cnt := r_var_cnt r + 1, r_script_name_pos := int (r_var_cnt r + 1)\<rparr>;
                 r \<leftarrow> hv_put r (r_var_cnt r) nullp;
                 Some (r\<lparr>r_var_cnt := r_var_cnt r + 1\<rparr>) }
               else Some r);
          r \<leftarrow> script_loop (pc_apps c) 0 (fst (r_path_info r)) (str_at r (r_path_info r)) r;
          Some (0, r) }
      else Some (0, r))"

section \<open>Static files\<close>

definition skip_ext :: "pcfg \<Rightarrow> bytes \<Rightarrow> bool" where
  "skip_ext c path \<longleftrightarrow>
     (\<exists>sse\<in>set (pc_static_skip_ext c). length path \<ge> length sse \<and>
        uwsgi_strncmp (drop (length path - length sse) path) sse)"

text \<open>Each loop returns whether a file was served, and the list with the values it resolved.\<close>

primrec check_static_loop :: "pcfg \<Rightarrow> bytes \<Rightarrow> udd list \<Rightarrow> bool \<times> udd list" where
  "check_static_loop c path [] = (False, [])"
| "check_static_loop c path (u # us) =
     (let u = (if udd_value u = None then u\<lparr>udd_value := pc_realpath c (udd_key u)\<rparr> else u) in
      case udd_value u of
        None \<Rightarrow> apsnd ((#) u) (check_static_loop c path us)
      | Some root \<Rightarrow>
          if pc_file_serve c root path 0 = 0 then (True, u # us)
          else apsnd ((#) u) (check_static_loop c path us))"

primrec static_maps_loop :: "pcfg \<Rightarrow> bool \<Rightarrow> bytes \<Rightarrow> udd list \<Rightarrow> bool \<times> udd list" where
  "static_maps_loop c whole path [] = (False, [])"
| "static_maps_loop c whole path (u # us) =
     (let u = (if udd_status u = 0 then
                 case udd_value u \<bind> pc_realpath c of
                   None \<Rightarrow> u\<lparr>udd_value := None\<rparr>
                 | Some root \<Rightarrow> u\<lparr>udd_value := Some root, udd_status := 1 + (if pc_is_file c root then 1 else 0)\<rparr>
               else u) in
      case udd_value u of
        None \<Rightarrow> apsnd ((#) u) (static_maps_loop c whole path us)
      | Some root \<Rightarrow>
          if uwsgi_starts_with path (udd_key u) \<and>
             pc_file_serve c root (if whole then path else drop (length (udd_key u)) path) (udd_status u - 1) = 0
          then (True, u # us)
          else apsnd ((#) u) (static_maps_loop c whole path us))"

definition static_files :: "pcfg \<Rightarrow> wsgi_request \<Rightarrow> int \<times> pcfg" where
  "static_files c r =
     (let path = str_at r (r_path_info r) in
      if skip_ext c path then (0, c)
      else
        let (served, l) = check_static_loop c path (pc_check_static c); c = c\<lparr>pc_check_static := l\<rparr> in
        if served then (-1, c)
        else
          let (served, l) = static_maps_loop c False path (pc_static_maps c); c = c\<lparr>pc_static_maps := l\<rparr> in
          if served then (-1, c)
          else
            let (served, l) = static_maps_loop c True path (pc_static_maps2 c); c = c\<lparr>pc_static_maps2 := l\<rparr> in
            if served then (-1, c)
            else if pc_check_static_docroot c \<and> snd (r_document_root r) > 0 then
              case pc_realpath c (str_at r (r_document_root r)) of
                None \<Rightarrow> (-1, c)
              | Some root \<Rightarrow> if pc_file_serve c root path 0 = 0 then (-1, c) else (0, c)
            else (0, c))"

section \<open>The whole parser\<close>

text \<open>A cached response is sent and ends the request.\<close>

definition from_cache :: "pcfg \<Rightarrow> wsgi_request \<Rightarrow> bytes \<Rightarrow> wsgi_request option" where
  "from_cache c r key =
     (case pc_magic_get c key of
        Some v \<Rightarrow> if v \<noteq> [] then Some (r\<lparr>r_body := r_body r @ v\<rparr>) else None
      | None \<Rightarrow> None)"

definition after_vars :: "pcfg \<Rightarrow> wsgi_request \<Rightarrow> (int \<times> wsgi_request \<times> pcfg) option" where
  "after_vars c r =
     (let (ret, r) =
        (if pc_post_buffering c > 0 \<and> r_post_file r = None then
           if r_post_cl r \<ge> pc_post_buffering c then pc_postbuffer_disk c r else pc_postbuffer_mem c r
         else (0, r)) in
      if ret \<noteq> 0 then Some (-1, r, c)
      else
        case (if snd (r_cache_get r) > 0 then from_cache c r (str_at r (r_cache_get r)) else None) of
          Some r \<Rightarrow> Some (-1, r, c)
        | None \<Rightarrow>
            case (if pc_check_cache c \<and> snd (r_uri r) > 0 \<and> str_at r (r_method r) = str ''GET''
                  then from_cache c r (str_at r (r_uri r)) else None) of
              Some r \<Rightarrow> Some (-1, r, c)
            | None \<Rightarrow> do {
                (ret, r) \<leftarrow> manage_script_name c r;
                (if ret \<noteq> 0 then Some (-1, r, c)
                 else let (ret, c) = static_files c r in Some (ret, r, c)) })"

definition uwsgi_parse_vars :: "nat \<Rightarrow> pcfg \<Rightarrow> wsgi_request \<Rightarrow> (int \<times> wsgi_request \<times> pcfg) outcome" where
  "uwsgi_parse_vars fuel c r =
     (let finish = (\<lambda>x. case x of None \<Rightarrow> Undefined | Some y \<Rightarrow> Returned y);
          r = r\<lparr>r_status := 500\<rparr> in
      if r_parsed r then Returned (0, r, c)
      else if snd (r_uri r) > 0 then
        case uwsgi_simple_parse_vars fuel c (r\<lparr>r_parsed := True\<rparr>) 0 (r_pktsize r) of
          Running \<Rightarrow> Running | Undefined \<Rightarrow> Undefined
        | Returned (ret, r) \<Rightarrow> if ret = 0 then finish (after_vars c r) else Returned (ret, r, c)
      else
        case parse_vars_loop c (r\<lparr>r_parsed := True, r_script_name_pos := -1, r_path_info_pos := -1\<rparr>) 0 (r_pktsize r) of
          None \<Rightarrow> Undefined
        | Some (ret, r) \<Rightarrow> if ret = 0 then finish (after_vars c r) else Returned (ret, r, c))"

section \<open>Adding variables\<close>

text \<open>
  The bytes that follow the packet in the buffer are moved out of the way first; \<open>None\<close> is a
  pointer to memory that is not there.
\<close>

definition detach_remains :: "wsgi_request \<Rightarrow> wsgi_request" where
  "detach_remains r =
     (if r_parser_buf r = None \<and> r_remains r > 0 then
        let bs = str_at r (r_remains_buf r, r_remains r) in
        r\<lparr>r_parser_buf := Some bs, r_remains_buf := Const bs\<rparr>
      else r)"

text \<open>The packet with a variable behind it; the two vector slots; the result points to the value.\<close>

definition put_var :: "wsgi_request \<Rightarrow> bytes \<Rightarrow> bytes \<Rightarrow> (nat \<times> wsgi_request) option" where
  "put_var r key val = do {
     let p = r_pktsize r;
     b \<leftarrow> mem_write (r_buffer r) p (le16 (length key) @ key @ le16 (length val) @ val);
     r \<leftarrow> hv_put (r\<lparr>r_buffer := b\<rparr>) (r_var_cnt r) (InBuf (p + 2), length key);
     r \<leftarrow> hv_put r (r_var_cnt r + 1) (InBuf (p + 2 + length key + 2), length val);
     Some (p + 2 + length key + 2,
       r\<lparr>r_var_cnt := r_var_cnt r + 2,
         r_pktsize := (r_pktsize r + (2 + length key + 2 + length val)) mod 65536\<rparr>) }"

definition uwsgi_req_append :: "pcfg \<Rightarrow> wsgi_request \<Rightarrow> bytes \<Rightarrow> bytes \<Rightarrow> (nat option \<times> wsgi_request) option" where
  "uwsgi_req_append c r key val =
     (let r = detach_remains r in
      if r_pktsize r + (2 + length key + 2 + length val) > pc_buffer_size c then Some (None, r)
      else if r_var_cnt r + 6 \<ge> pc_vec_size c then Some (None, r)
      else do { (p, r) \<leftarrow> put_var r key val; Some (Some p, r) })"

text \<open>The length of the path grows before the checks, and stays grown when they fail.\<close>

definition uwsgi_req_append_path_info_with_index ::
  "pcfg \<Rightarrow> wsgi_request \<Rightarrow> bytes \<Rightarrow> (int \<times> wsgi_request) option" where
  "uwsgi_req_append_path_info_with_index c r index =
     (let r = detach_remains r;
          old = str_at r (r_path_info r);
          slash = (if old \<noteq> [] \<and> last old \<noteq> ch CHR ''/'' then [ch CHR ''/''] else []);
          n = (snd (r_path_info r) + length slash + length index) mod 65536;
          r = r\<lparr>r_path_info := (fst (r_path_info r), n)\<rparr> in
      if r_pktsize r + (13 + n) > pc_buffer_size c then Some (-1, r)
      else if r_var_cnt r + 6 \<ge> pc_vec_size c then Some (-1, r)
      else if n \<noteq> length old + length slash + length index then None
      else do {
        (p, r) \<leftarrow> put_var r (str ''PATH_INFO'') (old @ slash @ index);
        Some (0, r\<lparr>r_path_info := (InBuf p, n)\<rparr>) })"


section \<open>What the hooks leave alone\<close>

definition hook_frame :: "nat \<Rightarrow> wsgi_request \<Rightarrow> wsgi_request \<Rightarrow> bool" where
  "hook_frame q r r' \<longleftrightarrow> r_hvec r' = r_hvec r \<and> r_var_cnt r' = r_var_cnt r \<and>
     length (r_buffer r') = length (r_buffer r) \<and> drop q (r_buffer r') = drop q (r_buffer r)"

lemma set_env_frame: "hook_frame (n + v) r (set_env r (InBuf n, v))"
proof -
  have "eq < v" if "memchr (ch CHR ''='') (str_at r (InBuf n, v)) = Some eq" for eq
    using memchr_SomeD [OF that] by (auto simp: str_at_def)
  then show ?thesis
    by (auto simp: hook_frame_def set_env_def Let_def split: option.splits)
qed

lemmas hook_defs =
  uwsgi_proto_check_5_def uwsgi_proto_check_9_def uwsgi_proto_check_11_def uwsgi_proto_check_12_def
  uwsgi_proto_check_13_def uwsgi_proto_check_14_def uwsgi_proto_check_15_def uwsgi_proto_check_18_def
  uwsgi_proto_check_20_def uwsgi_proto_check_22_def uwsgi_proto_check_27_def

text \<open>
  Without ranges every hook is defined. The content length is set by one hook only, for one key,
  and the same hook is the only one that fails: exactly when the length is over a limit.
\<close>

definition over_limit :: "pcfg \<Rightarrow> nat \<Rightarrow> bool" where
  "over_limit c n \<longleftrightarrow> pc_limit_post c \<noteq> 0 \<and> pc_limit_post c < n"

definition good_result :: "pcfg \<Rightarrow> nat \<Rightarrow> nat option \<Rightarrow> wsgi_request \<Rightarrow> (int \<times> wsgi_request) option \<Rightarrow> bool" where
  "good_result c q cl r res \<longleftrightarrow> (\<exists>r'. hook_frame q r r' \<and>
     res = Some (if (\<exists>n. cl = Some n \<and> over_limit c n) then -1 else 0, r') \<and>
     r_post_cl r' = (case cl of None \<Rightarrow> r_post_cl r | Some n \<Rightarrow> n))"

lemma good_if: "(b \<Longrightarrow> good_result c q cl r x) \<Longrightarrow> (\<not> b \<Longrightarrow> good_result c q cl r y) \<Longrightarrow> good_result c q cl r (if b then x else y)"
  by simp

lemma good_unchanged: "hook_frame q r r' \<Longrightarrow> r_post_cl r' = r_post_cl r \<Longrightarrow> good_result c q None r (Some (0, r'))"
  by (simp add: good_result_def)

lemma good_set_env: "good_result c (n + v) None r (Some (0, set_env r (InBuf n, v)))"
  using set_env_frame by (rule good_unchanged) (auto simp: set_env_def Let_def split: option.splits)

lemma good_hooks:
  "good_result c q None r (uwsgi_proto_check_5 c r key w)" "good_result c q None r (uwsgi_proto_check_9 c r key w)"
  "good_result c q None r (uwsgi_proto_check_11 c r key w)" "good_result c q None r (uwsgi_proto_check_13 c r key w)"
  "good_result c q None r (uwsgi_proto_check_15 c r key w)"
  "good_result c q None r (uwsgi_proto_check_18 c r key w)" "good_result c q None r (uwsgi_proto_check_20 c r key w)"
  "good_result c q None r (uwsgi_proto_check_22 c r key w)" "good_result c q None r (uwsgi_proto_check_27 c r key w)"
  unfolding hook_defs Let_def
  by (intro good_if good_unchanged; simp add: hook_frame_def good_result_def)+

text \<open>The content length among the pairs, and what one pair does to the length known so far.\<close>

definition length_of :: "bytes \<times> bytes \<Rightarrow> nat option" where
  "length_of kv = (if fst kv = str ''CONTENT_LENGTH''
     then Some (dec_nat (takeWhile is_digit (snd kv)) mod 2 ^ 64) else None)"

definition last_length :: "nat \<Rightarrow> (bytes \<times> bytes) list \<Rightarrow> nat" where
  "last_length n kvs = foldl (\<lambda>n kv. case length_of kv of None \<Rightarrow> n | Some n' \<Rightarrow> n') n kvs"

definition some_over_limit :: "pcfg \<Rightarrow> (bytes \<times> bytes) list \<Rightarrow> bool" where
  "some_over_limit c kvs \<longleftrightarrow> (\<exists>kv\<in>set kvs. \<exists>n. length_of kv = Some n \<and> over_limit c n)"

lemma last_length_simps [simp]:
  "last_length n [] = n"
  "last_length n (kv # kvs) = last_length (case length_of kv of None \<Rightarrow> n | Some n' \<Rightarrow> n') kvs"
  by (simp_all add: last_length_def)

lemma some_over_limit_simps [simp]:
  "\<not> some_over_limit c []"
  "some_over_limit c (kv # kvs) \<longleftrightarrow> (\<exists>n. length_of kv = Some n \<and> over_limit c n) \<or> some_over_limit c kvs"
  by (simp_all add: some_over_limit_def)

lemma good_check_14:
  assumes "take 14 (drop key (r_buffer r)) = k"
  shows "good_result c q (length_of (k, str_at r w)) r (uwsgi_proto_check_14 c r key w)"
proof -
  have keq: "key_is r key ''REQUEST_METHOD'' \<longleftrightarrow> k = str ''REQUEST_METHOD''"
    "key_is r key ''CONTENT_LENGTH'' \<longleftrightarrow> k = str ''CONTENT_LENGTH''"
    using assms by (auto simp: key_is_def eval_nat_numeral)
  have ne: "str ''CONTENT_LENGTH'' \<noteq> str ''REQUEST_METHOD''" by code_simp
  show ?thesis
  proof (cases "k = str ''CONTENT_LENGTH''")
    case True
    then show ?thesis using ne
      by (auto simp: hook_defs keq good_result_def hook_frame_def length_of_def over_limit_def get_content_length_mod Let_def)
  next
    case False
    then have "length_of (k, str_at r w) = None" by (simp add: length_of_def)
    then show ?thesis unfolding hook_defs Let_def keq if_not_P [OF False]
      by (simp only:) (intro good_if good_unchanged; simp add: hook_frame_def)
  qed
qed

lemma good_check_10: "\<not> pc_honour_range c \<Longrightarrow> good_result c q None r (uwsgi_proto_check_10 c r key w)"
  unfolding uwsgi_proto_check_10_def Let_def
  by (simp add: hook_frame_def good_result_def)

lemma good_check_12: "good_result c (n + v) None r (uwsgi_proto_check_12 c r key (InBuf n, v))"
  unfolding hook_defs
  by (intro good_if good_set_env; intro good_unchanged; simp add: hook_frame_def)

lemma run_hook_good:
  assumes "\<not> pc_honour_range c" "key + k \<le> length (r_buffer r)"
  shows "good_result c (n + v) (length_of (contents_at (r_buffer r) (key, k), str_at r (InBuf n, v))) r
    (run_hook c r k key (InBuf n, v))"
proof (cases "k = 14")
  case True
  then show ?thesis using good_check_14 [OF refl, where key = key and r = r and w = "(InBuf n, v)" and c = c and q = "n + v"]
    by (simp add: run_hook_def uwsgi_proto_hooks_setup_def contents_at_def)
next
  case False
  have "length (contents_at (r_buffer r) (key, k)) = k" using assms(2) by (simp add: contents_at_def)
  then have "contents_at (r_buffer r) (key, k) \<noteq> str ''CONTENT_LENGTH''" using False by auto
  then have "length_of (contents_at (r_buffer r) (key, k), str_at r (InBuf n, v)) = None" by (simp add: length_of_def)
  then show ?thesis
    using False good_hooks [of c "n + v" r key "(InBuf n, v)"] good_check_10 [OF assms(1), of "n + v" r key "(InBuf n, v)"]
      good_check_12 [of c n v r key] good_unchanged [of "n + v" r r c]
    by (simp add: run_hook_def uwsgi_proto_hooks_setup_def hook_frame_def)
qed


section \<open>The loop follows the calls of the hooked parser\<close>

definition vec_of :: "(region \<times> region) list \<Rightarrow> strp list" where
  "vec_of calls = concat (map (\<lambda>(k, v). [(InBuf (fst k), snd k), (InBuf (fst v), snd v)]) calls)"

lemma vec_of_simps [simp]:
  "vec_of [] = []" "vec_of ((k, v) # cs) = (InBuf (fst k), snd k) # (InBuf (fst v), snd v) # vec_of cs"
  by (simp_all add: vec_of_def)

lemma hooked_inv:
  assumes "hooked_loop m p e acc = Some (0, acc @ calls)" "e \<le> length m"
  obtains "p \<ge> e" "calls = []"
  | k v cs where "p + 2 < e" "rd_le 2 m p = Some k" "k \<noteq> 0" "p + 2 + k + 2 + v \<le> e"
      "rd_le 2 m (p + 2 + k) = Some v" "calls = ((p + 2, k), (p + 2 + k + 2, v)) # cs"
      "hooked_loop m (p + 2 + k + 2 + v) e (acc @ [((p + 2, k), (p + 2 + k + 2, v))]) =
         Some (0, (acc @ [((p + 2, k), (p + 2 + k + 2, v))]) @ cs)"
proof (cases "p \<ge> e")
  case True
  then show ?thesis using that(1) assms(1) by (simp add: hooked_loop.simps [of m p e acc])
next
  case False
  have u: "p + 2 < e" using assms(1) False by (simp add: hooked_loop.simps [of m p e acc] split: if_splits)
  then obtain k where k: "rd_le 2 m p = Some k" using assms(2) rd_le2 [of p m] by simp
  have kk: "k \<noteq> 0" "p + 2 + k + 2 \<le> e"
    using assms(1) u k by (auto simp: hooked_loop.simps [of m p e acc] split: if_splits)
  then obtain v where v: "rd_le 2 m (p + 2 + k) = Some v" using assms(2) rd_le2 [of "p + 2 + k" m] by simp
  have vv: "p + 2 + k + 2 + v \<le> e"
    using assms(1) u k kk v by (auto simp: hooked_loop.simps [of m p e acc] split: if_splits)
  let ?c = "((p + 2, k), (p + 2 + k + 2, v))"
  have h: "hooked_loop m (p + 2 + k + 2 + v) e (acc @ [?c]) = Some (0, acc @ calls)"
    using assms(1) u k kk v vv by (simp add: hooked_loop.simps [of m p e acc])
  moreover obtain r ext where "hooked_loop m (p + 2 + k + 2 + v) e (acc @ [?c]) = Some (r, (acc @ [?c]) @ ext)"
    using hooked_loop_sound [OF assms(2) vv, of "acc @ [?c]"] by blast
  ultimately have "calls = ?c # ext" by simp
  then show ?thesis using that(2) u k kk v vv h by simp
qed

lemma rd_le_drop:
  assumes "length b = length m" "drop p b = drop p m" "p \<le> q"
  shows "rd_le n b q = rd_le n m q"
proof -
  have "drop q b = drop (q - p) (drop p b)" "drop q m = drop (q - p) (drop p m)" using assms(3) by simp_all
  then show ?thesis using assms(1,2) by (simp add: rd_le_def mem_read_def)
qed

lemma drop_further: "drop q b = drop q m \<Longrightarrow> q \<le> q' \<Longrightarrow> drop q' b = drop q' m"
  by (metis drop_drop le_add_diff_inverse2)

lemma take_put2:
  "n + 1 < length xs \<Longrightarrow> take (n + 2) (xs[n := a, Suc n := b]) = take n xs @ [a, b]"
  by (rule nth_equalityI) (auto simp: nth_append nth_list_update less_Suc_eq)

text \<open>One variable, when there is room and no ranges: two slots of the vector and the hook.\<close>

lemma one_var_ok:
  assumes hr: "\<not> pc_honour_range c" and room: "r_var_cnt r + 6 < pc_vec_size c" "pc_vec_size c = length (r_hvec r)"
    and le: "p + 2 + k + 2 + v \<le> e" "e \<le> length (r_buffer r)" and v: "rd_le 2 (r_buffer r) (p + 2 + k) = Some v"
    and cl: "cl = length_of (var_at (r_buffer r) ((p + 2, k), (p + 2 + k + 2, v)))"
  shows "\<exists>r'. if \<exists>n. cl = Some n \<and> over_limit c n then one_var c True r p k e = Some (r', None)
    else one_var c True r p k e = Some (r', Some (p + 2 + k + 2 + v)) \<and>
       r_var_cnt r' = r_var_cnt r + 2 \<and> length (r_hvec r') = length (r_hvec r) \<and>
       take (r_var_cnt r') (r_hvec r') = take (r_var_cnt r) (r_hvec r) @ [(InBuf (p + 2), k), (InBuf (p + 2 + k + 2), v)] \<and>
       length (r_buffer r') = length (r_buffer r) \<and>
       drop (p + 2 + k + 2 + v) (r_buffer r') = drop (p + 2 + k + 2 + v) (r_buffer r) \<and>
       r_post_cl r' = (case cl of None \<Rightarrow> r_post_cl r | Some n \<Rightarrow> n)"
proof -
  let ?n = "r_var_cnt r" and ?kk = "(InBuf (p + 2), k)" and ?vv = "(InBuf (p + 2 + k + 2), v)"
  let ?r1 = "r\<lparr>r_hvec := (r_hvec r)[?n := ?kk]\<rparr>"
  have key: "p + 2 + k \<le> length (r_buffer ?r1)" using le by simp
  have cl1: "cl = length_of (contents_at (r_buffer ?r1) (p + 2, k), str_at ?r1 ?vv)"
    using cl by (simp add: var_at_def contents_at_def str_at_def)
  obtain r2 where h: "hook_frame (p + 2 + k + 2 + v) ?r1 r2"
    "run_hook c ?r1 k (p + 2) ?vv = Some (if \<exists>n. cl = Some n \<and> over_limit c n then -1 else 0, r2)"
    "r_post_cl r2 = (case cl of None \<Rightarrow> r_post_cl ?r1 | Some n \<Rightarrow> n)"
    using run_hook_good [OF hr key, of "p + 2 + k + 2" v] unfolding good_result_def cl1 by blast
  have f: "r_hvec r2 = (r_hvec r)[?n := ?kk]" "r_var_cnt r2 = ?n" "length (r_buffer r2) = length (r_buffer r)"
    "drop (p + 2 + k + 2 + v) (r_buffer r2) = drop (p + 2 + k + 2 + v) (r_buffer r)"
    using h(1) by (simp_all add: hook_frame_def)
  have p1: "hv_put r ?n ?kk = Some ?r1" using room by (simp add: hv_put_def)
  have v1: "rd_le 2 (r_buffer ?r1) (p + 2 + k) = Some v" using v by simp
  let ?r3 = "r2\<lparr>r_var_cnt := ?n + 1, r_hvec := (r_hvec r)[?n := ?kk, ?n + 1 := ?vv]\<rparr>"
  have p2: "hv_put (r2\<lparr>r_var_cnt := r_var_cnt r2 + 1\<rparr>) (r_var_cnt r2 + 1) ?vv = Some ?r3"
    using room f by (simp add: hv_put_def)
  have l2: "p + 2 + k + 2 \<le> e" using le by simp
  show ?thesis
  proof (cases "\<exists>n. cl = Some n \<and> over_limit c n")
    case False
    have c1: "r_var_cnt r2 + 5 < pc_vec_size c" "r_var_cnt ?r3 + 5 < pc_vec_size c" using room f by simp_all
    have "one_var c True r p k e = Some (?r3\<lparr>r_var_cnt := r_var_cnt ?r3 + 1\<rparr>, Some (p + 2 + k + 2 + v))"
      unfolding one_var_def p1 bind.bind_lunit using l2 le v1 h(2) c1 p2 by (simp add: if_not_P [OF False])
    then show ?thesis unfolding if_not_P [OF False]
      using f h(3) room take_put2 [of ?n "r_hvec r" ?kk ?vv]
      by (intro exI [of _ "?r3\<lparr>r_var_cnt := r_var_cnt ?r3 + 1\<rparr>"]) (auto split: option.splits)
  next
    case True
    have "one_var c True r p k e = Some (r2, None)"
      unfolding one_var_def p1 bind.bind_lunit using l2 le v1 h(2) by (simp add: if_P [OF True])
    then show ?thesis unfolding if_P [OF True] by blast
  qed
qed

lemma var_at_drop:
  assumes "drop p b = drop p m" "p \<le> fst (fst x)" "p \<le> fst (snd x)"
  shows "var_at b x = var_at m x"
  using drop_further [OF assms(1,2)] drop_further [OF assms(1,3)] by (simp add: var_at_def contents_at_def)

lemma parse_follows:
  assumes "\<not> pc_honour_range c"
    and "hooked_loop m p e acc = Some (0, acc @ calls)" "e \<le> length m"
    and "length (r_buffer r) = length m" "drop p (r_buffer r) = drop p m"
    and "pc_vec_size c = length (r_hvec r)" "r_var_cnt r + 2 * length calls + 4 < pc_vec_size c"
  shows "\<exists>r'. if some_over_limit c (map (var_at m) calls) then parse_vars_loop c r p e = Some (-1, r')
     else parse_vars_loop c r p e = Some (0, r') \<and> r_var_cnt r' = r_var_cnt r + 2 * length calls \<and>
        take (r_var_cnt r') (r_hvec r') = take (r_var_cnt r) (r_hvec r) @ vec_of calls \<and>
        r_post_cl r' = last_length (r_post_cl r) (map (var_at m) calls)"
  using assms(2-)
proof (induction calls arbitrary: p acc r)
  case Nil
  from hooked_inv [OF Nil(1,2)] have "p \<ge> e" by blast
  then show ?case using Nil by (simp add: parse_vars_loop.simps [of c r p e])
next
  case (Cons call cs)
  from hooked_inv [OF Cons.prems(1,2)] obtain k v where
    kv: "p + 2 < e" "rd_le 2 m p = Some k" "k \<noteq> 0" "p + 2 + k + 2 + v \<le> e" "rd_le 2 m (p + 2 + k) = Some v"
      "call = ((p + 2, k), (p + 2 + k + 2, v))"
    and rest: "hooked_loop m (p + 2 + k + 2 + v) e (acc @ [call]) = Some (0, (acc @ [call]) @ cs)"
    by (metis list.distinct(1) list.inject)
  have rk: "rd_le 2 (r_buffer r) p = Some k" "rd_le 2 (r_buffer r) (p + 2 + k) = Some v"
    using kv rd_le_drop [OF Cons.prems(3,4)] by simp_all
  have room: "r_var_cnt r + 6 < pc_vec_size c" using Cons.prems(6) by simp
  have e: "e \<le> length (r_buffer r)" using Cons.prems(2,3) by simp
  let ?over = "\<exists>n. length_of (var_at m call) = Some n \<and> over_limit c n" and ?q = "p + 2 + k + 2 + v"
  have cl: "length_of (var_at m call) = length_of (var_at (r_buffer r) ((p + 2, k), (p + 2 + k + 2, v)))"
    using var_at_drop [OF Cons.prems(4), of call] kv(6) by simp
  from one_var_ok [OF assms(1) room Cons.prems(5) kv(4) e rk(2) cl] obtain r' where
    o: "if ?over then one_var c True r p k e = Some (r', None)
      else one_var c True r p k e = Some (r', Some ?q) \<and>
       r_var_cnt r' = r_var_cnt r + 2 \<and> length (r_hvec r') = length (r_hvec r) \<and>
       take (r_var_cnt r') (r_hvec r') = take (r_var_cnt r) (r_hvec r) @ [(InBuf (p + 2), k), (InBuf (p + 2 + k + 2), v)] \<and>
       length (r_buffer r') = length (r_buffer r) \<and> drop ?q (r_buffer r') = drop ?q (r_buffer r) \<and>
       r_post_cl r' = (case length_of (var_at m call) of None \<Rightarrow> r_post_cl r | Some n \<Rightarrow> n)" by (elim exE)
  have step: "parse_vars_loop c r p e = (case one_var c True r p k e of None \<Rightarrow> None
            | Some (r', None) \<Rightarrow> Some (-1, r')
            | Some (r', Some q) \<Rightarrow> parse_vars_loop c r' q e)"
    using kv rk by (simp add: parse_vars_loop.simps [of c r p e])
  show ?case
  proof (cases ?over)
    case True
    then show ?thesis using step o by (intro exI [of _ r']) simp
  next
    case False
    note f = o [unfolded if_not_P [OF False]]
    have d: "drop ?q (r_buffer r') = drop ?q m"
      using f drop_further [OF Cons.prems(4), of ?q] by simp
    have "length (r_buffer r') = length m" "pc_vec_size c = length (r_hvec r')"
      "r_var_cnt r' + 2 * length cs + 4 < pc_vec_size c" using f Cons.prems(3,5,6) by simp_all
    then obtain r2 where r2: "if some_over_limit c (map (var_at m) cs) then parse_vars_loop c r' ?q e = Some (-1, r2)
      else parse_vars_loop c r' ?q e = Some (0, r2) \<and> r_var_cnt r2 = r_var_cnt r' + 2 * length cs \<and>
        take (r_var_cnt r2) (r_hvec r2) = take (r_var_cnt r') (r_hvec r') @ vec_of cs \<and>
        r_post_cl r2 = last_length (r_post_cl r') (map (var_at m) cs)"
      using Cons.IH [OF rest Cons.prems(2) _ d] by blast
    have "parse_vars_loop c r p e = parse_vars_loop c r' ?q e" using step f by simp
    then show ?thesis using f r2 False kv(6) by (intro exI [of _ r2]) (auto split: if_splits)
  qed
qed


section \<open>Properties\<close>

text \<open>A small configuration and the request with a packet in its buffer.\<close>

definition cfg_small :: pcfg where
  "cfg_small = \<lparr>pc_vec_size = 20, pc_buffer_size = 100, pc_honour_range = False, pc_limit_post = 0,
     pc_caches = False, pc_log_x_forwarded_for = False, pc_fopen = (\<lambda>_. False), pc_post_buffering = 0,
     pc_postbuffer_disk = Pair 0, pc_postbuffer_mem = Pair 0, pc_magic_get = (\<lambda>_. None),
     pc_check_cache = False, pc_manage_script_name = False, pc_apps = [str ''/foo/''], pc_static_skip_ext = [],
     pc_check_static = [], pc_static_maps = [], pc_static_maps2 = [], pc_check_static_docroot = False,
     pc_realpath = Some, pc_is_file = (\<lambda>_. False), pc_file_serve = (\<lambda>_ _ _. -1)\<rparr>"

definition request_with :: "bytes \<Rightarrow> nat \<Rightarrow> wsgi_request" where
  "request_with b n = \<lparr>r_buffer = b, r_pktsize = n, r_hvec = replicate 20 nullp, r_var_cnt = 0,
     r_parsed = False, r_dynamic = False, r_status = 0, r_script_name_pos = -1, r_path_info_pos = -1,
     r_post_cl = 0, r_post_file = None, r_env = [],
     r_range = \<lparr>rg_state = NotParsed, rg_from = 0, rg_to = 0\<rparr>, r_range_from0 = 0, r_range_to0 = 0,
     r_body = [], r_parser_buf = None, r_remains = 0, r_remains_buf = Const [], r_https = nullp,
     r_path_info = nullp, r_host = nullp, r_file = nullp, r_home = nullp, r_script_name = nullp,
     r_uri = nullp, r_remote_user = nullp, r_remote_addr = nullp, r_cookie = nullp, r_appid = nullp,
     r_chdir = nullp, r_http_origin = nullp, r_query_string = nullp, r_content_type = nullp,
     r_referer = nullp, r_scheme = nullp, r_script = nullp, r_module = nullp, r_document_root = nullp,
     r_method = nullp, r_callable = nullp, r_protocol = nullp, r_user_agent = nullp, r_cache_get = nullp,
     r_authorization = nullp, r_touch_reload = nullp, r_encoding = nullp, r_if_modified_since = nullp,
     r_http_sec_websocket_key = nullp, r_http_sec_websocket_protocol = nullp, r_if_range = nullp\<rparr>"

text \<open>
  C30: on every packet the hooked parser accepts, when ranges are not honoured and the vector has
  room for its variables, the loop of \<open>uwsgi_parse_vars\<close> returns -1 exactly when a limit for the
  body is set and one of the content lengths of the packet is over it. Otherwise it returns 0, the
  vector has exactly the keys and values of that parser, in order, and the length of the body is
  that of the last content length in the packet, and the one known before when there is none.
\<close>

theorem uwsgi_parse_vars_follows_hooked_parse:
  assumes "\<not> pc_honour_range c" "uwsgi_hooked_parse (r_buffer r) (r_pktsize r) = Some (0, calls)"
    and "r_pktsize r \<le> length (r_buffer r)" "pc_vec_size c = length (r_hvec r)" "r_var_cnt r = 0"
    and "2 * length calls + 4 < pc_vec_size c"
    and "kvs = map (var_at (r_buffer r)) calls"
  shows "\<exists>r'. if some_over_limit c kvs then parse_vars_loop c r 0 (r_pktsize r) = Some (-1, r')
     else parse_vars_loop c r 0 (r_pktsize r) = Some (0, r') \<and>
        r_var_cnt r' = 2 * length calls \<and> take (r_var_cnt r') (r_hvec r') = vec_of calls \<and>
        r_post_cl r' = last_length (r_post_cl r) kvs"
proof -
  have h: "hooked_loop (r_buffer r) 0 (r_pktsize r) [] = Some (0, [] @ calls)"
    using assms(2) by (simp add: uwsgi_hooked_parse_def)
  have n: "r_var_cnt r + 2 * length calls + 4 < pc_vec_size c" using assms(5,6) by simp
  show ?thesis using parse_follows [OF assms(1) h assms(3) refl refl assms(4) n]
    by (simp only: assms(5,7) add_0 take_0 append_Nil)
qed

lemma hooked_sample:
  obtains calls where "uwsgi_hooked_parse (enc_vars packet_sample @ rest) 12 = Some (0, calls)"
    "map (var_at (enc_vars packet_sample @ rest)) calls = packet_sample" "length calls = 2"
proof -
  have "12 \<le> length (enc_vars packet_sample @ rest)" "take 12 (enc_vars packet_sample @ rest) = enc_vars packet_sample"
    using packet_sample_ok(1) by simp_all
  from hooked_parse_accepts [OF this(1) packet_sample_ok(2) this(2)] obtain calls where
    c: "uwsgi_hooked_parse (enc_vars packet_sample @ rest) 12 = Some (0, calls)"
      "map (var_at (enc_vars packet_sample @ rest)) calls = packet_sample" by blast
  then have "length calls = 2" using packet_sample_ok(4) by (metis length_map)
  then show ?thesis using that c by blast
qed

theorem uwsgi_parse_vars_follows_hooked_parse_witness:
  "(\<exists>r'. parse_vars_loop cfg_small (request_with (enc_vars packet_sample) 12) 0 12 = Some (0, r') \<and> r_var_cnt r' = 4) \<and>
   (\<exists>r'. parse_vars_loop (cfg_small\<lparr>pc_limit_post := 8\<rparr>)
      (request_with (enc_vars [(str ''CONTENT_LENGTH'', str ''9'')]) 19) 0 19 = Some (-1, r'))"
proof
  obtain calls where h: "uwsgi_hooked_parse (enc_vars packet_sample) 12 = Some (0, calls)" "length calls = 2"
    using hooked_sample [of "[]"] by auto
  with packet_sample_ok(1) uwsgi_parse_vars_follows_hooked_parse [of cfg_small "request_with (enc_vars packet_sample) 12" calls] h
  show "\<exists>r'. parse_vars_loop cfg_small (request_with (enc_vars packet_sample) 12) 0 12 = Some (0, r') \<and> r_var_cnt r' = 4"
    by (auto simp: cfg_small_def request_with_def some_over_limit_def over_limit_def split: if_splits)
next
  let ?kvs = "[(str ''CONTENT_LENGTH'', str ''9'')]"
  let ?m = "enc_vars ?kvs" and ?c = "cfg_small\<lparr>pc_limit_post := 8\<rparr>"
  have len: "length ?m = 19" by (simp add: enc_var_def le16_def)
  then have "19 \<le> length ?m" "\<forall>kv\<in>set ?kvs. var_ok kv" "take 19 ?m = ?m" by (simp_all add: var_ok_def)
  from hooked_parse_accepts [OF this] obtain calls where
    c: "uwsgi_hooked_parse ?m 19 = Some (0, calls)" "map (var_at ?m) calls = ?kvs" by blast
  have "length (map (var_at ?m) calls) = length ?kvs" by (simp only: c(2))
  then have "length calls = 1" by simp
  moreover have "dec_nat (takeWhile is_digit (str ''9'')) = 9" by code_simp
  then have "some_over_limit ?c ?kvs" by (simp add: length_of_def over_limit_def)
  ultimately show "\<exists>r'. parse_vars_loop ?c (request_with ?m 19) 0 19 = Some (-1, r')"
    using uwsgi_parse_vars_follows_hooked_parse [of ?c "request_with ?m 19" calls] c len
    by (simp add: cfg_small_def request_with_def)
qed

text \<open>
  A first key whose length runs over the end of the packet is no error for
  \<open>uwsgi_parse_vars\<close>: it goes on behind the length and takes the variables that follow, so it
  accepts packets the hooked parser rejects.
\<close>

theorem uwsgi_parse_vars_skips_bad_key:
  assumes "\<not> pc_honour_range c" "pc_limit_post c = 0" "pc_vec_size c = length (r_hvec r)" "r_var_cnt r = 0"
    and "r_buffer r = le16 n @ enc_vars kvs @ rest" "r_pktsize r = 2 + length (enc_vars kvs)"
    and "\<forall>kv\<in>set kvs. var_ok kv" "kvs \<noteq> []" "length (enc_vars kvs) \<le> n" "n < 65536"
    and "2 * length kvs + 4 < pc_vec_size c"
  shows "\<exists>r' calls. uwsgi_hooked_parse (r_buffer r) (r_pktsize r) = Some (-1, calls) \<and>
     parse_vars_loop c r 0 (r_pktsize r) = Some (0, r') \<and> r_var_cnt r' = 2 * length kvs"
proof -
  let ?m = "r_buffer r" and ?e = "r_pktsize r"
  have ne: "enc_vars kvs \<noteq> []" using assms(8) by (cases kvs) auto
  have e: "2 < ?e" "?e \<le> length ?m" using ne assms(5,6) by simp_all
  have n: "rd_le 2 ?m 0 = Some n" "2 + n \<ge> ?e"
    using assms(5,6,9,10) e rd_le2 [of 0 ?m] by (auto simp: le_nat_le16)
  have n0: "n \<noteq> 0" using assms(9) length_greater_0_conv [THEN iffD2, OF ne] by linarith
  have rej: "uwsgi_hooked_parse ?m ?e = Some (-1, [])"
    unfolding uwsgi_hooked_parse_def using e n n0 by (simp add: hooked_loop.simps [of ?m 0 ?e "[]"])
  have t: "take (?e - 2) (drop 2 ?m) = enc_vars kvs" using assms(5,6) by simp
  obtain calls where h: "hooked_loop ?m 2 ?e [] = Some (0, [] @ calls)"
    using hooked_loop_complete [OF assms(7) e(2) _ t, of "[]"] e by auto
  have len: "length calls = length kvs"
  proof -
    obtain ext rst where x: "hooked_loop ?m 2 ?e [] = Some (0, ext)" "\<forall>c\<in>set ext. var_ok (var_at ?m c)"
      "enc_vars kvs = enc_vars (map (var_at ?m) ext) @ rst" "rst = []"
      using hooked_loop_sound [OF e(2), of 2 "[]"] e h t by auto
    then have "kvs = map (var_at ?m) ext" using enc_vars_unique [OF assms(7), of "map (var_at ?m) ext"] by auto
    then show ?thesis using h x(1) by simp
  qed
  have step: "parse_vars_loop c r 0 ?e = parse_vars_loop c r 2 ?e"
    using e n n0 by (simp add: parse_vars_loop.simps [of c r 0 ?e] flip: numeral_2_eq_2)
  have room: "r_var_cnt r + 2 * length calls + 4 < pc_vec_size c" using assms(4,11) len by simp
  have "\<not> some_over_limit c (map (var_at ?m) calls)" using assms(2) by (simp add: some_over_limit_def over_limit_def)
  with parse_follows [OF assms(1) h e(2) refl refl assms(3) room] assms(4) len rej show ?thesis
    unfolding step by (auto split: if_splits)
qed

theorem uwsgi_parse_vars_skips_bad_key_witness:
  "\<exists>r' calls. uwsgi_hooked_parse (le16 500 @ enc_vars packet_sample) 14 = Some (-1, calls) \<and>
     parse_vars_loop cfg_small (request_with (le16 500 @ enc_vars packet_sample) 14) 0 14 = Some (0, r') \<and>
     r_var_cnt r' = 4"
proof -
  let ?r = "request_with (le16 500 @ enc_vars packet_sample) 14"
  note l = packet_sample_ok(1) and ok = packet_sample_ok(2-4)
  have r: "r_buffer ?r = le16 500 @ enc_vars packet_sample @ []" "r_pktsize ?r = 2 + length (enc_vars packet_sample)"
    "r_var_cnt ?r = 0" "pc_vec_size cfg_small = length (r_hvec ?r)" "\<not> pc_honour_range cfg_small"
    "pc_limit_post cfg_small = 0" "2 * length packet_sample + 4 < pc_vec_size cfg_small"
    using l ok by (simp_all add: request_with_def cfg_small_def)
  have "length (enc_vars packet_sample) \<le> 500" "(500 :: nat) < 65536" using l by simp_all
  from uwsgi_parse_vars_skips_bad_key [OF r(5,6,4,3,1,2) ok(1,2) this r(7)] show ?thesis
    using l ok by (simp add: request_with_def)
qed

text \<open>
  C39: a packet in the request that leaves one or two bytes at its end sends
  \<open>uwsgi_simple_parse_vars\<close> into an endless loop: no number of passes is enough.
\<close>

theorem uwsgi_simple_parse_vars_loops:
  assumes "ptrbuf < bufferend" "bufferend \<le> ptrbuf + 2"
  shows "uwsgi_simple_parse_vars fuel c r ptrbuf bufferend = Running"
  using assms by (induction fuel) (simp_all add: uwsgi_simple_parse_vars_def)

theorem uwsgi_simple_parse_vars_loops_witness:
  "uwsgi_simple_parse_vars 1000 cfg_small (request_with [1] 1) 0 1 = Running"
  by (rule uwsgi_simple_parse_vars_loops) simp_all


text \<open>
  C31: a variable added to a request is in its packet: the packet parses as before with the new
  pair at the end, and the next two slots of the vector are its key and its value; a variable
  that does not fit in the buffer or in the vector leaves the packet and the vector as they
  were.
\<close>

theorem uwsgi_req_append_correct:
  assumes "uwsgi_hooked_parse (r_buffer r) (r_pktsize r) = Some (0, calls)"
    and "r_pktsize r \<le> length (r_buffer r)" "pc_buffer_size c \<le> length (r_buffer r)" "pc_buffer_size c < 65536"
    and "pc_vec_size c = length (r_hvec r)" "key \<noteq> []" "length key < 65536" "length val < 65536"
  shows "\<exists>po r'. uwsgi_req_append c r key val = Some (po, r') \<and>
     (case po of
        None \<Rightarrow> r_buffer r' = r_buffer r \<and> r_pktsize r' = r_pktsize r \<and> r_hvec r' = r_hvec r \<and> r_var_cnt r' = r_var_cnt r
      | Some p \<Rightarrow> r_var_cnt r' = r_var_cnt r + 2 \<and> str_at r' (r_hvec r' ! r_var_cnt r) = key \<and>
          str_at r' (r_hvec r' ! (r_var_cnt r + 1)) = val \<and>
          (\<exists>calls'. uwsgi_hooked_parse (r_buffer r') (r_pktsize r') = Some (0, calls') \<and>
             map (var_at (r_buffer r')) calls' = map (var_at (r_buffer r)) calls @ [(key, val)]))"
proof -
  let ?d = "detach_remains r"
  have d: "r_buffer ?d = r_buffer r" "r_pktsize ?d = r_pktsize r" "r_hvec ?d = r_hvec r" "r_var_cnt ?d = r_var_cnt r"
    by (simp_all add: detach_remains_def Let_def)
  show ?thesis
  proof (cases "r_pktsize r + (2 + length key + 2 + length val) > pc_buffer_size c \<or> r_var_cnt r + 6 \<ge> pc_vec_size c")
    case True
    then have "uwsgi_req_append c r key val = Some (None, ?d)" using d by (auto simp: uwsgi_req_append_def Let_def)
    then show ?thesis using d by simp
  next
    case False
    let ?n = "r_var_cnt r" and ?p = "r_pktsize r" and ?e = "le16 (length key) @ key @ le16 (length val) @ val"
    let ?k = "(InBuf (?p + 2), length key)" and ?v = "(InBuf (?p + 2 + length key + 2), length val)"
    have le: "?p + length ?e \<le> pc_buffer_size c" using False by simp
    then obtain b where b: "mem_write (r_buffer ?d) ?p ?e = Some b" using assms(3) d by (auto simp: mem_write_def)
    have bl: "length b = length (r_buffer r)" "take (?p + length ?e) b = take ?p (r_buffer r) @ ?e"
      using mem_write_length [OF b] mem_write_upto [OF b] d by simp_all
    let ?r' = "?d\<lparr>r_buffer := b, r_hvec := (r_hvec r)[?n := ?k, ?n + 1 := ?v], r_var_cnt := ?n + 2,
        r_pktsize := ?p + length ?e\<rparr>"
    have "(?p + (2 + length key + 2 + length val)) mod 65536 = ?p + length ?e" using le assms(4) by simp
    then have "put_var ?d key val = Some (?p + 2 + length key + 2, ?r')"
      using b d False assms(5) by (simp add: put_var_def hv_put_def Let_def)
    then have a: "uwsgi_req_append c r key val = Some (Some (?p + 2 + length key + 2), ?r')"
      using False d by (simp add: uwsgi_req_append_def Let_def)
    have acc: "take ?p (r_buffer r) = enc_vars (map (var_at (r_buffer r)) calls)"
      "\<forall>kv\<in>set (map (var_at (r_buffer r)) calls). var_ok kv"
      by (rule hooked_parse_accepted [OF assms(2,1)])+
    have t: "take (?p + length ?e) b = enc_vars (map (var_at (r_buffer r)) calls @ [(key, val)])"
      using bl(2) acc(1) by (simp add: enc_var_def)
    have "\<forall>kv\<in>set (map (var_at (r_buffer r)) calls @ [(key, val)]). var_ok kv"
      using acc(2) assms(6-8) by (auto simp: var_ok_def)
    moreover have "?p + length ?e \<le> length b" using le assms(3) bl(1) by simp
    ultimately obtain calls' where "uwsgi_hooked_parse b (?p + length ?e) = Some (0, calls')"
      "map (var_at b) calls' = map (var_at (r_buffer r)) calls @ [(key, val)]"
      using hooked_parse_accepts t by metis
    moreover have "str_at ?r' ?k = key" "str_at ?r' ?v = val"
      using take_drop_inner [of "?p + length ?e" 0 b "take ?p (r_buffer r) @ le16 (length key)" key "le16 (length val) @ val"]
        take_drop_inner [of "?p + length ?e" 0 b "take ?p (r_buffer r) @ le16 (length key) @ key @ le16 (length val)" val "[]"]
        bl(2) assms(2) by (simp_all add: str_at_def add.assoc)
    moreover have "?n + 1 < length (r_hvec r)" using False assms(5) by simp
    ultimately show ?thesis using a by (simp add: nth_list_update)
  qed
qed

theorem uwsgi_req_append_correct_witness:
  "\<exists>p r' calls'. uwsgi_req_append cfg_small (request_with (enc_vars packet_sample @ replicate 88 0) 12) (str ''k'') (str ''v'') =
       Some (Some p, r') \<and> uwsgi_hooked_parse (r_buffer r') (r_pktsize r') = Some (0, calls') \<and>
     map (var_at (r_buffer r')) calls' = packet_sample @ [(str ''k'', str ''v'')]"
proof -
  let ?r = "request_with (enc_vars packet_sample @ replicate 88 0) 12"
  obtain calls where h: "uwsgi_hooked_parse (r_buffer ?r) (r_pktsize ?r) = Some (0, calls)"
    "map (var_at (r_buffer ?r)) calls = packet_sample"
    using hooked_sample [of "replicate 88 0"] by (auto simp: request_with_def)
  have r: "r_pktsize ?r \<le> length (r_buffer ?r)" "pc_buffer_size cfg_small \<le> length (r_buffer ?r)"
    "pc_buffer_size cfg_small < 65536" "pc_vec_size cfg_small = length (r_hvec ?r)"
    using packet_sample_ok(1) by (simp_all add: request_with_def cfg_small_def)
  have kv: "str ''k'' \<noteq> []" "length (str ''k'') < 65536" "length (str ''v'') < 65536" by (simp_all add: str_eq_Nil)
  have "uwsgi_req_append cfg_small ?r (str ''k'') (str ''v'') \<noteq> Some (None, r')" for r'
    using packet_sample_ok(1)
    by (simp add: uwsgi_req_append_def detach_remains_def request_with_def cfg_small_def Let_def split: bind_splits)
  with uwsgi_req_append_correct [OF h(1) r kv] h(2) show ?thesis by (auto split: option.splits)
qed


text \<open>
  When there is no room for \<open>PATH_INFO\<close> with an index file, the function returns -1 but has
  already enlarged the length of the path, which then covers bytes of the packet behind it.
\<close>

theorem uwsgi_req_append_path_info_leaves_length:
  assumes "str_at r (r_path_info r) = old" "old \<noteq> []" "last old \<noteq> ch CHR ''/''"
    and "snd (r_path_info r) + 1 + length index < 65536"
    and "r_pktsize r + 13 + snd (r_path_info r) + 1 + length index > pc_buffer_size c"
  shows "\<exists>r'. uwsgi_req_append_path_info_with_index c r index = Some (-1, r') \<and> r_buffer r' = r_buffer r \<and>
     r_path_info r' = (fst (r_path_info r), snd (r_path_info r) + 1 + length index)"
proof -
  have d: "r_path_info (detach_remains r) = r_path_info r"
    "r_pktsize (detach_remains r) = r_pktsize r" "r_buffer (detach_remains r) = r_buffer r"
    by (simp_all add: detach_remains_def Let_def)
  have "str_at (detach_remains r) = str_at r" unfolding str_at_def d(3) ..
  note d = this d
  show ?thesis using assms by (simp add: uwsgi_req_append_path_info_with_index_def Let_def d)
qed

theorem uwsgi_req_append_path_info_leaves_length_witness:
  "\<exists>r'. uwsgi_req_append_path_info_with_index cfg_small
       ((request_with (replicate 100 7) 90)\<lparr>r_path_info := (InBuf 5, 3)\<rparr>) (str ''index.html'') = Some (-1, r') \<and>
     r_path_info r' = (InBuf 5, 14)"
proof -
  let ?r = "(request_with (replicate 100 7) 90)\<lparr>r_path_info := (InBuf 5, 3)\<rparr>"
  have s: "str_at ?r (r_path_info ?r) = replicate 3 7" by (simp add: str_at_def request_with_def)
  have "last (replicate 3 (7 :: byte)) \<noteq> ch CHR ''/''" by code_simp
  then have "\<exists>r'. uwsgi_req_append_path_info_with_index cfg_small ?r (str ''index.html'') = Some (-1, r') \<and>
      r_buffer r' = r_buffer ?r \<and> r_path_info r' = (fst (r_path_info ?r), snd (r_path_info ?r) + 1 + length (str ''index.html''))"
    by (intro uwsgi_req_append_path_info_leaves_length [OF s]) (simp_all add: request_with_def cfg_small_def)
  then show ?thesis by auto
qed

text \<open>
  An application mounted under a name with a trailing slash is chosen for the path that is
  the name without the slash, and the length of the rest of the path becomes 65535.
\<close>

theorem manage_script_name_trailing_slash:
  assumes "pc_manage_script_name c" "pc_apps c = [m @ [ch CHR ''/'']]" "length m < 255" "1 < length m"
    and "str_at r (r_path_info r) = m" "snd (r_path_info r) = length m"
    and "r_path_info_pos r = int i" "i < length (r_hvec r)" "r_script_name_pos r = int j" "j < length (r_hvec r)"
  shows "\<exists>r'. manage_script_name c r = Some (0, r') \<and> snd (r_path_info r') = 65535 \<and>
     r_path_info r' = r_hvec r' ! i"
proof -
  have "m \<noteq> []" using assms(4) by auto
  then show ?thesis using assms by (simp add: manage_script_name_def hv_put_def Let_def nth_append)
qed

theorem manage_script_name_trailing_slash_witness:
  "\<exists>r'. manage_script_name (cfg_small\<lparr>pc_manage_script_name := True\<rparr>)
       ((request_with (str ''/foo'') 4)\<lparr>r_path_info := (InBuf 0, 4), r_path_info_pos := 1, r_script_name_pos := 3\<rparr>) = Some (0, r') \<and>
     snd (r_path_info r') = 65535"
proof -
  let ?c = "cfg_small\<lparr>pc_manage_script_name := True\<rparr>"
  let ?r = "(request_with (str ''/foo'') 4)\<lparr>r_path_info := (InBuf 0, 4), r_path_info_pos := 1, r_script_name_pos := 3\<rparr>"
  have "pc_apps ?c = [str ''/foo'' @ [ch CHR ''/'']]" by (simp add: cfg_small_def str_def)
  then have "\<exists>r'. manage_script_name ?c ?r = Some (0, r') \<and> snd (r_path_info r') = 65535 \<and> r_path_info r' = r_hvec r' ! 1"
    by (intro manage_script_name_trailing_slash [where m = "str ''/foo''" and j = 3])
       (simp_all add: request_with_def str_at_def)
  then show ?thesis by blast
qed

end
