(* ===== verification/Codecs.thy ===== *)
theory Codecs
  imports Strings
begin

text \<open>
  The codecs of \<^verbatim>\<open>core/utils.c\<close>: base64, big endian integers, hexadecimal text, the percent
  encoding and the decoder that builds \<^verbatim>\<open>PATH_INFO\<close> from the raw uri, and the small string
  editors next to them.  A destination area is the list of the bytes written; the bounds of
  what is written against what the callers allocate are lemmas.
\<close>

section \<open>base64\<close>

definition b64_table64 :: "nat list" where
  "b64_table64 =
     replicate 43 77 @ [62] @ replicate 3 77 @ [63] @ [52..<62] @ replicate 7 77 @ [0..<26] @
     replicate 6 77 @ [26..<52] @ replicate 5 77 @ replicate 128 77"

definition b64_table64_2 :: bytes where
  "b64_table64_2 = str ''ABCDEFGHIJKLMNOPQRSTUVWXYZabcdefghijklmnopqrstuvwxyz0123456789+/''"

definition b64_val :: "byte \<Rightarrow> byte" where
  "b64_val b = word_of_nat (b64_table64 ! unat b)"

definition b64_chr :: "byte \<Rightarrow> byte" where
  "b64_chr v = b64_table64_2 ! unat v"

text \<open>The scan for the first \<open>=\<close>: \<open>None\<close> for invalid content.\<close>

fun b64_scan :: "bytes \<Rightarrow> bytes option" where
  "b64_scan [] = Some []"
| "b64_scan (c # cs) =
     (if c = 61 then Some []
      else if b64_table64 ! unat c = 77 then None
      else map_option ((#) c) (b64_scan cs))"

fun b64_groups :: "bytes \<Rightarrow> bytes" where
  "b64_groups (a # b # c # d # r) =
     [push_bit 2 (b64_val a) OR drop_bit 4 (b64_val b),
      push_bit 4 (b64_val b) OR drop_bit 2 (b64_val c),
      push_bit 6 (b64_val c) OR b64_val d] @ b64_groups r"
| "b64_groups [a, b, c] =
     [push_bit 2 (b64_val a) OR drop_bit 4 (b64_val b),
      push_bit 4 (b64_val b) OR drop_bit 2 (b64_val c)]"
| "b64_groups [a, b] = [push_bit 2 (b64_val a) OR drop_bit 4 (b64_val b)]"
| "b64_groups _ = []"

definition uwsgi_base64_decode :: "bytes \<Rightarrow> bytes option" where
  "uwsgi_base64_decode buf = do {
     src \<leftarrow> b64_scan buf;
     (if length src mod 4 = 1 then None else Some (b64_groups src)) }"

fun uwsgi_base64_encode :: "bytes \<Rightarrow> bytes" where
  "uwsgi_base64_encode (a # b # c # r) =
     [b64_chr (drop_bit 2 a),
      b64_chr (push_bit 4 a AND 0x30 OR drop_bit 4 b),
      b64_chr (push_bit 2 b AND 0x3C OR drop_bit 6 c),
      b64_chr (c AND 0x3F)] @ uwsgi_base64_encode r"
| "uwsgi_base64_encode [a, b] =
     [b64_chr (drop_bit 2 a),
      b64_chr (push_bit 4 a AND 0x30 OR drop_bit 4 b),
      b64_chr (push_bit 2 b AND 0x3C), 61]"
| "uwsgi_base64_encode [a] =
     [b64_chr (drop_bit 2 a), b64_chr (push_bit 4 a AND 0x30), 61, 61]"
| "uwsgi_base64_encode [] = []"

lemma b64_encode_fits: "length (uwsgi_base64_encode s) + 1 \<le> length s * 4 div 3 + 5"
  by (induction s rule: uwsgi_base64_encode.induct) auto

lemma b64_decode_fits:
  assumes "uwsgi_base64_decode s = Some d"
  shows "length d + 1 \<le> (length s + 3) div 4 * 3 + 1"
proof -
  have scan: "b64_scan t = Some u \<Longrightarrow> length u \<le> length t" for t u
    by (induction t arbitrary: u) (auto split: if_splits)
  have len: "4 * length (b64_groups u) \<le> 3 * length u" for u
    by (induction u rule: b64_groups.induct) auto
  have groups: "length (b64_groups u) \<le> (length u + 3) div 4 * 3" for u
  proof -
    have "length u \<le> 4 * ((length u + 3) div 4)" by simp
    with len [of u] show ?thesis by linarith
  qed
  from assms obtain u where u: "b64_scan s = Some u" "d = b64_groups u"
    by (auto simp: uwsgi_base64_decode_def split: bind_splits if_splits)
  have "(length u + 3) div 4 * 3 \<le> (length s + 3) div 4 * 3"
    using scan [OF u(1)] by (intro mult_le_mono1 div_le_mono) simp
  with groups [of u] u(2) show ?thesis by (simp del: div_mult_self1)
qed

text \<open>The two tables are inverse to each other.\<close>

lemma b64_tables:
  assumes "k < 64"
  shows "b64_table64 ! unat (b64_table64_2 ! k) = k" and "b64_table64_2 ! k \<noteq> 61"
proof -
  have "list_all (\<lambda>k. b64_table64 ! unat (b64_table64_2 ! k) = k \<and> b64_table64_2 ! k \<noteq> 61) [0..<64]"
    by code_simp
  with assms show "b64_table64 ! unat (b64_table64_2 ! k) = k" "b64_table64_2 ! k \<noteq> 61"
    by (auto simp: list_all_iff)
qed

lemma b64_val_chr:
  assumes "unat v < 64"
  shows "b64_val (b64_chr v) = v" "b64_chr v \<noteq> 61" "b64_table64 ! unat (b64_chr v) \<noteq> 77"
  using b64_tables [OF assms] assms by (simp_all add: b64_val_def b64_chr_def)

lemma byte_eqI:
  fixes a b :: byte
  assumes "bit a 0 = bit b 0" "bit a 1 = bit b 1" "bit a 2 = bit b 2" "bit a 3 = bit b 3"
    "bit a 4 = bit b 4" "bit a 5 = bit b 5" "bit a 6 = bit b 6" "bit a 7 = bit b 7"
  shows "a = b"
proof (rule bit_word_eqI)
  fix n assume "n < LENGTH(8)"
  then have "n = 0 \<or> n = 1 \<or> n = 2 \<or> n = 3 \<or> n = 4 \<or> n = 5 \<or> n = 6 \<or> n = 7" by auto
  with assms show "bit a n = bit b n" by blast
qed

lemma b64_digits:
  "unat (drop_bit 2 a :: byte) < 64"
  "unat (push_bit 4 a AND 0x30 OR drop_bit 4 b :: byte) < 64"
  "unat (push_bit 2 b AND 0x3C OR drop_bit 6 c :: byte) < 64"
  "unat (c AND 0x3F :: byte) < 64"
  "unat (push_bit 4 a AND 0x30 :: byte) < 64"
  "unat (push_bit 2 b AND 0x3C :: byte) < 64"
proof -
  have lt: "unat x < 64" if "x AND mask 6 = x" for x :: byte
  proof -
    have "take_bit 6 (unat x) = unat x" using that by (metis take_bit_eq_mask unsigned_take_bit_eq)
    then have "unat x mod 64 = unat x" by (simp add: take_bit_eq_mod)
    then show ?thesis by (metis mod_less_divisor zero_less_numeral)
  qed
  have nb: "\<not> bit x 8" "\<not> bit x 9" "\<not> bit x 10" "\<not> bit x 11" "\<not> bit x 12" "\<not> bit x 13" for x :: byte
    by (auto dest: bit_imp_le_length)
  show "unat (drop_bit 2 a :: byte) < 64"
    "unat (push_bit 4 a AND 0x30 OR drop_bit 4 b :: byte) < 64"
    "unat (push_bit 2 b AND 0x3C OR drop_bit 6 c :: byte) < 64"
    "unat (c AND 0x3F :: byte) < 64"
    "unat (push_bit 4 a AND 0x30 :: byte) < 64"
    "unat (push_bit 2 b AND 0x3C :: byte) < 64"
    by (rule lt; rule byte_eqI; simp add: bit_simps nb)+
qed


lemma b64_group:
  fixes a b c :: byte
  shows "push_bit 2 (drop_bit 2 a) OR drop_bit 4 (push_bit 4 a AND 0x30 OR drop_bit 4 b) = a"
    and "push_bit 4 (push_bit 4 a AND 0x30 OR drop_bit 4 b) OR
           drop_bit 2 (push_bit 2 b AND 0x3C OR drop_bit 6 c) = b"
    and "push_bit 6 (push_bit 2 b AND 0x3C OR drop_bit 6 c) OR (c AND 0x3F) = c"
    and "push_bit 2 (drop_bit 2 a) OR drop_bit 4 (push_bit 4 a AND 0x30) = a"
    and "push_bit 4 (push_bit 4 a AND 0x30 OR drop_bit 4 b) OR drop_bit 2 (push_bit 2 b AND 0x3C) = b"
  by (rule byte_eqI; simp add: bit_simps)+

lemma b64_decode_encode: "uwsgi_base64_decode (uwsgi_base64_encode s) = Some s"
proof -
  let ?pad = "replicate ((3 - length s mod 3) mod 3) (61 :: byte)"
  have "\<exists>u. uwsgi_base64_encode s = u @ ?pad \<and> (\<forall>c\<in>set u. c \<noteq> 61 \<and> b64_table64 ! unat c \<noteq> 77) \<and>
          length u mod 4 \<noteq> 1 \<and> b64_groups u = s"
  proof (induction s rule: uwsgi_base64_encode.induct)
    case (1 a b c r)
    then obtain u where u: "uwsgi_base64_encode r = u @ replicate ((3 - length r mod 3) mod 3) 61"
      "\<forall>c\<in>set u. c \<noteq> 61 \<and> b64_table64 ! unat c \<noteq> 77" "length u mod 4 \<noteq> 1" "b64_groups u = r"
      by blast
    let ?h = "[b64_chr (drop_bit 2 a), b64_chr (push_bit 4 a AND 0x30 OR drop_bit 4 b),
               b64_chr (push_bit 2 b AND 0x3C OR drop_bit 6 c), b64_chr (c AND 0x3F)]"
    from u show ?case
      by (intro exI [of _ "?h @ u"]) (simp add: b64_val_chr b64_digits b64_group del: drop_bit_or drop_bit_and push_bit_or push_bit_and)
  next
    case (2 a b)
    let ?h = "[b64_chr (drop_bit 2 a), b64_chr (push_bit 4 a AND 0x30 OR drop_bit 4 b),
               b64_chr (push_bit 2 b AND 0x3C)]"
    show ?case by (intro exI [of _ ?h]) (simp add: b64_val_chr b64_digits b64_group del: drop_bit_or drop_bit_and push_bit_or push_bit_and)
  next
    case (3 a)
    let ?h = "[b64_chr (drop_bit 2 a), b64_chr (push_bit 4 a AND 0x30)]"
    have pad2: "replicate 2 (61 :: byte) = [61, 61]" by (simp add: numeral_2_eq_2)
    show ?case
      by (intro exI [of _ ?h])
        (simp add: pad2 b64_val_chr b64_digits b64_group del: drop_bit_or drop_bit_and push_bit_or push_bit_and)
  next
    case 4
    then show ?case by simp
  qed
  then obtain u where u: "uwsgi_base64_encode s = u @ ?pad"
    "\<forall>c\<in>set u. c \<noteq> 61 \<and> b64_table64 ! unat c \<noteq> 77" "length u mod 4 \<noteq> 1" "b64_groups u = s"
    by blast
  have "b64_scan (u @ replicate n 61) = Some u" for n
    using u(2) by (induction u) (auto, cases n, auto)
  with u show ?thesis by (simp add: uwsgi_base64_decode_def)
qed


section \<open>Big endian integers\<close>

text \<open>
  The integer is loaded from memory (little endian) and its bytes are stored in the opposite
  order into the result.
\<close>

definition uwsgi_be16 :: "bytes \<Rightarrow> nat \<Rightarrow> nat option" where
  "uwsgi_be16 m p = do {
     v \<leftarrow> rd_le 2 m p;
     let src = (word_of_nat v :: u16);
     Some (le_nat [byte_of src 1, byte_of src 0]) }"

definition uwsgi_be32 :: "bytes \<Rightarrow> nat \<Rightarrow> nat option" where
  "uwsgi_be32 m p = do {
     v \<leftarrow> rd_le 4 m p;
     let src = (word_of_nat v :: u32);
     Some (le_nat [byte_of src 3, byte_of src 2, byte_of src 1, byte_of src 0]) }"

definition uwsgi_be64 :: "bytes \<Rightarrow> nat \<Rightarrow> nat option" where
  "uwsgi_be64 m p = do {
     v \<leftarrow> rd_le 8 m p;
     let src = (word_of_nat v :: u64);
     Some (le_nat [byte_of src 7, byte_of src 6, byte_of src 5, byte_of src 4,
                   byte_of src 3, byte_of src 2, byte_of src 1, byte_of src 0]) }"

lemma byte_of_le_nat:
  assumes "k < length bs" "length bs \<le> LENGTH('a::len) div 8"
  shows "byte_of (word_of_nat (le_nat bs) :: 'a word) k = bs ! k"
proof -
  have pow: "(256 :: nat) ^ length bs \<le> 2 ^ LENGTH('a)"
  proof -
    have "8 * length bs \<le> LENGTH('a)" using assms(2) by linarith
    then have "(2 :: nat) ^ (8 * length bs) \<le> 2 ^ LENGTH('a)" by (intro power_increasing) auto
    then show ?thesis by (simp add: power_mult)
  qed
  have lt: "le_nat bs < 2 ^ LENGTH('a)" using le_nat_bound [of bs] pow by linarith
  have nth: "j < length cs \<Longrightarrow> le_nat cs div 256 ^ j mod 256 = unat (cs ! j)" for cs j
  proof (induction cs arbitrary: j)
    case Nil
    then show ?case by simp
  next
    case (Cons c cs)
    have c: "unat c < 256" using unsigned_less [of c] by simp
    show ?case
    proof (cases j)
      case 0
      with c show ?thesis by simp
    next
      case (Suc i)
      have "le_nat (c # cs) div 256 ^ Suc i = (unat c + 256 * le_nat cs) div 256 div 256 ^ i"
        by (simp only: le_nat.simps div_mult2_eq power_Suc)
      also have "(unat c + 256 * le_nat cs) div 256 = le_nat cs" using c by simp
      finally show ?thesis using Cons Suc by simp
    qed
  qed
  have "unat (byte_of (word_of_nat (le_nat bs) :: 'a word) k) = unat (bs ! k)"
    using nth [OF assms(1)] lt by (simp add: unat_byte_of unat_of_nat)
  then show ?thesis by (rule unsigned_word_eqI)
qed

lemma two_bytes: "length xs = 2 \<Longrightarrow> \<exists>a b. xs = [a, b]"
  by (auto simp: eval_nat_numeral length_Suc_conv)

lemma eight_bytes: "length xs = 8 \<Longrightarrow> \<exists>a b c d e f g h. xs = [a, b, c, d, e, f, g, h]"
  by (auto simp: eval_nat_numeral length_Suc_conv)

lemma be16_value: "p + 2 \<le> length m \<Longrightarrow> uwsgi_be16 m p = Some (be_nat (take 2 (drop p m)))"
proof -
  assume le: "p + 2 \<le> length m"
  let ?bs = "take 2 (drop p m)"
  have n: "length ?bs = 2" using le by simp
  then obtain a b where ab: "?bs = [a, b]" using two_bytes by blast
  have "byte_of (word_of_nat (le_nat ?bs) :: u16) k = ?bs ! k" if "k < 2" for k
    using byte_of_le_nat [of k ?bs, where 'a = 16] n that by simp
  from this [of 0] this [of 1] le show ?thesis
    by (simp add: uwsgi_be16_def rd_le_def mem_read_def ab be_nat_def)
qed

lemma be64_value: "p + 8 \<le> length m \<Longrightarrow> uwsgi_be64 m p = Some (be_nat (take 8 (drop p m)))"
proof -
  assume le: "p + 8 \<le> length m"
  let ?bs = "take 8 (drop p m)"
  have n: "length ?bs = 8" using le by simp
  then obtain a b c d e f g h where ab: "?bs = [a, b, c, d, e, f, g, h]"
    using eight_bytes by blast
  have "byte_of (word_of_nat (le_nat ?bs) :: u64) k = ?bs ! k" if "k < 8" for k
    using byte_of_le_nat [of k ?bs, where 'a = 64] n that by simp
  from this [of 0] this [of 1] this [of 2] this [of 3] this [of 4] this [of 5] this [of 6] this [of 7] le
  show ?thesis
    by (simp add: uwsgi_be64_def rd_le_def mem_read_def ab be_nat_def)
qed


section \<open>Hexadecimal text and the percent encoding\<close>

definition uwsgi_hex_table :: "nat \<Rightarrow> bytes" where
  "uwsgi_hex_table n = [str ''0123456789ABCDEF'' ! (n div 16), str ''0123456789ABCDEF'' ! (n mod 16)]"

definition uwsgi_str_to_hex :: "bytes \<Rightarrow> bytes" where
  "uwsgi_str_to_hex src = concat (map (\<lambda>b. uwsgi_hex_table (unat b)) src)"

text \<open>
  \<^verbatim>\<open>http_url_encode\<close> indexes the table with a signed \<^verbatim>\<open>char\<close>: a byte from 0x80 on is a
  negative index, a read outside the table. The bytes written go to an area the caller sizes;
  their number goes to a 16 bit integer.
\<close>

definition unreserved :: "byte \<Rightarrow> bool" where
  "unreserved b = (65 \<le> b \<and> b \<le> 90 \<or> 97 \<le> b \<and> b \<le> 122 \<or> 48 \<le> b \<and> b \<le> 57 \<or>
                   b = 45 \<or> b = 95 \<or> b = 46 \<or> b = 126 \<or> b = 47)"

fun url_encode_loop :: "bytes \<Rightarrow> bytes option" where
  "url_encode_loop [] = Some []"
| "url_encode_loop (b # bs) =
     (if unreserved b then map_option ((#) b) (url_encode_loop bs)
      else if b \<ge> 0x80 then None
      else map_option (\<lambda>r. 37 # uwsgi_hex_table (unat b) @ r) (url_encode_loop bs))"

definition http_url_encode :: "bytes \<Rightarrow> (u16 \<times> bytes) option" where
  "http_url_encode buf = map_option (\<lambda>dst. (word_of_nat (length dst), dst)) (url_encode_loop buf)"

section \<open>The path decoder\<close>

text \<open>
  \<^verbatim>\<open>http_url_decode\<close>.  \<^verbatim>\<open>ptr\<close> and \<^verbatim>\<open>new_len\<close> move together, so the state is the status, the
  first digit of a pending percent code and the bytes written.
\<close>

datatype ustatus = Zero | Percent1 | Percent2 | Slash | Dot | Dotdot

record udec =
  ud_status :: ustatus
  ud_value :: byte
  ud_out :: bytes

text \<open>The two backward loops over \<^verbatim>\<open>dst\<close>, on the reversed output.\<close>

fun cut_rev :: "bytes \<Rightarrow> bytes" where
  "cut_rev [] = []"
| "cut_rev (c # r) = (if c = 47 then r else cut_rev r)"

fun keep_rev :: "bytes \<Rightarrow> bytes" where
  "keep_rev [] = []"
| "keep_rev (c # r) = (if c = 47 then c # r else keep_rev r)"

definition cut_segment :: "bytes \<Rightarrow> bytes" where
  "cut_segment dst = rev (cut_rev (rev dst))"

definition keep_slash :: "bytes \<Rightarrow> bytes" where
  "keep_slash dst = rev (keep_rev (rev dst))"

definition url_step :: "bool \<Rightarrow> nat \<Rightarrow> byte \<Rightarrow> udec \<Rightarrow> udec" where
  "url_step no_slash i c s =
     (let dst = ud_out s in
      case ud_status s of
        Zero \<Rightarrow>
          if c = 37 then s\<lparr>ud_status := Percent1\<rparr>
          else if c = 47 then s\<lparr>ud_status := Slash\<rparr>
          else s\<lparr>ud_out := dst @ [c]\<rparr>
      | Percent1 \<Rightarrow>
          if c = 37 then s\<lparr>ud_status := Zero, ud_out := dst @ [37]\<rparr>
          else s\<lparr>ud_status := Percent2, ud_value := c\<rparr>
      | Percent2 \<Rightarrow> s\<lparr>ud_status := Zero, ud_out := dst @ [hex2num (ud_value s) c]\<rparr>
      | Slash \<Rightarrow>
          if c = 46 then s\<lparr>ud_status := Dot\<rparr>
          else let dst = (if i > 0 \<or> \<not> no_slash then dst @ [47] else dst) in
            if c = 37 then s\<lparr>ud_status := Percent1, ud_out := dst\<rparr>
            else if c = 47 then s\<lparr>ud_status := Slash, ud_out := dst\<rparr>
            else s\<lparr>ud_status := Zero, ud_out := dst @ [c]\<rparr>
      | Dot \<Rightarrow>
          if c = 46 then s\<lparr>ud_status := Dotdot\<rparr>
          else if c = 47 then s\<lparr>ud_status := Slash\<rparr>
          else let dst = (if i > 1 then dst @ [47] else dst) @ [46] in
            if c = 37 then s\<lparr>ud_status := Percent1, ud_out := dst\<rparr>
            else s\<lparr>ud_status := Zero, ud_out := dst @ [c]\<rparr>
      | Dotdot \<Rightarrow>
          if c = 47 then s\<lparr>ud_status := Slash, ud_out := cut_segment dst\<rparr>
          else let dst = (if i > 2 then dst @ [47] else dst) @ [46, 46] in
            if c = 37 then s\<lparr>ud_status := Percent1, ud_out := dst\<rparr>
            else s\<lparr>ud_status := Zero, ud_out := dst @ [c]\<rparr>)"

fun url_loop :: "bool \<Rightarrow> nat \<Rightarrow> bytes \<Rightarrow> udec \<Rightarrow> udec" where
  "url_loop no_slash i [] s = s"
| "url_loop no_slash i (c # cs) s =
     (if c = 35 then s else url_loop no_slash (Suc i) cs (url_step no_slash i c s))"

definition url_end :: "udec \<Rightarrow> bytes" where
  "url_end s =
     (case ud_status s of
        Slash \<Rightarrow> ud_out s @ [47]
      | Dot \<Rightarrow> ud_out s @ [47]
      | Dotdot \<Rightarrow> keep_slash (ud_out s)
      | _ \<Rightarrow> ud_out s)"

definition http_url_decode :: "bytes \<Rightarrow> bytes" where
  "http_url_decode buf =
     (let no_slash = (buf \<noteq> [] \<and> hd buf \<noteq> 47) in
      url_end (url_loop no_slash 0 buf
        \<lparr>ud_status = (if no_slash then Slash else Zero), ud_value = 48, ud_out = []\<rparr>))"


section \<open>What the path decoder computes\<close>

text \<open>
  The specification works on tokens: literal bytes, decoded bytes and a code that is cut off.
  A segment is a stretch without a literal slash; a segment \<open>.\<close> is dropped and a segment
  \<open>..\<close> takes the output back to its last slash.
\<close>

datatype tok = Lit byte | Pct byte | Cut

fun tokens :: "bytes \<Rightarrow> tok list" where
  "tokens [] = []"
| "tokens (c # r) =
     (if c = 35 then []
      else if c \<noteq> 37 then Lit c # tokens r
      else (case r of [] \<Rightarrow> [Cut] | d # r \<Rightarrow>
        if d = 35 then [Cut]
        else if d = 37 then Pct 37 # tokens r
        else (case r of [] \<Rightarrow> [Cut] | e # r \<Rightarrow>
          if e = 35 then [Cut] else Pct (hex2num d e) # tokens r)))"

fun tok_bytes :: "tok \<Rightarrow> bytes" where
  "tok_bytes (Lit b) = [b]"
| "tok_bytes (Pct b) = [b]"
| "tok_bytes Cut = []"

abbreviation flat :: "tok list \<Rightarrow> bytes" where
  "flat ts \<equiv> concat (map tok_bytes ts)"

definition seg_mid :: "bytes \<Rightarrow> tok list \<Rightarrow> bytes" where
  "seg_mid dst s =
     (if s = [Lit 46] then dst
      else if s = [Lit 46, Lit 46] then cut_segment dst
      else dst @ 47 # flat s)"

definition seg_last :: "bytes \<Rightarrow> tok list \<Rightarrow> bytes" where
  "seg_last dst s =
     (if s = [Lit 46] then dst @ [47]
      else if s = [Lit 46, Lit 46] then keep_slash dst
      else dst @ 47 # flat s)"

text \<open>\<open>seg_run dst s ts\<close>: the tokens \<open>s\<close> of the current segment have been seen, \<open>ts\<close> follow.\<close>

fun seg_run :: "bytes \<Rightarrow> tok list \<Rightarrow> tok list \<Rightarrow> bytes" where
  "seg_run dst s [] = seg_last dst s"
| "seg_run dst s (t # ts) =
     (if t = Lit 47 then seg_run (seg_mid dst s) [] ts else seg_run dst (s @ [t]) ts)"

text \<open>The state of the decoder after the tokens \<open>s\<close> of the current segment.\<close>

definition in_segment :: "nat \<Rightarrow> bytes \<Rightarrow> tok list \<Rightarrow> udec \<Rightarrow> bool" where
  "in_segment i dst s u =
     (Lit 47 \<notin> set s \<and>
      (if s = [] then ud_status u = Slash \<and> ud_out u = dst \<and> i \<ge> 1
       else if s = [Lit 46] then ud_status u = Dot \<and> ud_out u = dst \<and> i \<ge> 2
       else if s = [Lit 46, Lit 46] then ud_status u = Dotdot \<and> ud_out u = dst \<and> i \<ge> 3
       else ud_status u = Zero \<and> ud_out u = dst @ 47 # flat s))"

lemma in_segment_end: "in_segment i dst s u \<Longrightarrow> url_end u = seg_last dst s"
  by (auto simp: in_segment_def url_end_def seg_last_def split: if_splits)

lemma in_segment_slash:
  "in_segment i dst s u \<Longrightarrow> in_segment (Suc i) (seg_mid dst s) [] (url_step False i 47 u)"
  by (auto simp: in_segment_def url_step_def seg_mid_def split: if_splits)

lemma in_segment_lit:
  "in_segment i dst s u \<Longrightarrow> c \<noteq> 47 \<Longrightarrow> c \<noteq> 37 \<Longrightarrow>
     in_segment (Suc i) dst (s @ [Lit c]) (url_step False i c u)"
  by (auto simp: in_segment_def url_step_def append_eq_Cons_conv split: if_splits)

text \<open>A percent sign opens a code in every status and writes what was held back.\<close>

lemma in_segment_percent:
  "in_segment i dst s u \<Longrightarrow>
     ud_status (url_step False i 37 u) = Percent1 \<and> ud_out (url_step False i 37 u) = dst @ 47 # flat s"
  by (auto simp: in_segment_def url_step_def split: if_splits)

lemma in_segment_code:
  assumes "ud_status u = Zero" "ud_out u = dst @ 47 # flat s @ [b]" "Lit 47 \<notin> set s"
  shows "in_segment i dst (s @ [Pct b]) u"
  using assms by (auto simp: in_segment_def append_eq_Cons_conv)

lemma seg_last_Cut: "seg_last dst (s @ [Cut]) = dst @ 47 # flat s"
  by (auto simp: seg_last_def append_eq_Cons_conv)

lemma url_loop_tokens:
  assumes "in_segment i dst s u"
  shows "url_end (url_loop False i cs u) = seg_run dst s (tokens cs)"
  using assms
proof (induction cs arbitrary: i dst s u rule: tokens.induct)
  case 1
  then show ?case by (simp add: in_segment_end)
next
  case (2 c r)
  show ?case
  proof (cases "c = 35 \<or> c \<noteq> 37")
    case True
    consider "c = 35" | "c \<noteq> 35" "c = 47" | "c \<noteq> 35" "c \<noteq> 47" "c \<noteq> 37" using True by auto
    then show ?thesis
    proof cases
      case 1
      with 2(4) show ?thesis by (simp add: in_segment_end)
    next
      case c: 2
      with 2(1) [OF _ _ in_segment_slash [OF 2(4)]] show ?thesis by simp
    next
      case 3
      with 2(1) [OF _ _ in_segment_lit [OF 2(4)]] show ?thesis by simp
    qed
  next
    case False
    then have c: "c = 37" "c \<noteq> 35" "\<not> c \<noteq> 37" by auto
    let ?u1 = "url_step False i 37 u"
    have no: "Lit 47 \<notin> set s" using 2(4) by (simp add: in_segment_def)
    have u1: "ud_status ?u1 = Percent1" "ud_out ?u1 = dst @ 47 # flat s"
      using in_segment_percent [OF 2(4)] by auto
    then have fin1: "url_end ?u1 = dst @ 47 # flat s" by (simp add: url_end_def)
    show ?thesis
    proof (cases r)
      case Nil
      with c fin1 show ?thesis by (simp add: seg_last_Cut)
    next
      case r: (Cons d r1)
      consider "d = 35" | "d = 37" | "d \<noteq> 35" "d \<noteq> 37" by blast
      then show ?thesis
      proof cases
        case 1
        with c r fin1 show ?thesis by (simp add: seg_last_Cut)
      next
        case d: 2
        let ?u2 = "url_step False (Suc i) 37 ?u1"
        have "ud_status ?u2 = Zero" "ud_out ?u2 = dst @ 47 # flat s @ [37]"
          using u1 by (auto simp: url_step_def)
        from in_segment_code [OF this no] 2(2) [OF c(2,3) r, of "Suc (Suc i)" dst "s @ [Pct 37]" ?u2] c r d
        show ?thesis by simp
      next
        case d: 3
        let ?u2 = "url_step False (Suc i) d ?u1"
        have u2: "ud_status ?u2 = Percent2" "ud_value ?u2 = d" "ud_out ?u2 = dst @ 47 # flat s"
          using u1 d by (auto simp: url_step_def)
        then have fin2: "url_end ?u2 = dst @ 47 # flat s" by (simp add: url_end_def)
        show ?thesis
        proof (cases r1)
          case Nil
          with c d r fin2 show ?thesis by (simp add: seg_last_Cut)
        next
          case r1: (Cons e r2)
          show ?thesis
          proof (cases "e = 35")
            case True
            with c d r r1 fin2 show ?thesis by (simp add: seg_last_Cut)
          next
            case e: False
            let ?u3 = "url_step False (Suc (Suc i)) e ?u2"
            have "ud_status ?u3 = Zero" "ud_out ?u3 = dst @ 47 # flat s @ [hex2num d e]"
              using u2 by (auto simp: url_step_def)
            from in_segment_code [OF this no]
              2(3) [OF c(2,3) r d(1,2) r1 e, of "Suc (Suc (Suc i))" dst "s @ [Pct (hex2num d e)]" ?u3] c r d r1 e
            show ?thesis by simp
          qed
        qed
      qed
    qed
  qed
qed

lemma http_url_decode_tokens: "http_url_decode (47 # cs) = seg_run [] [] (tokens cs)"
proof -
  have "in_segment 1 [] [] (url_step False 0 47 \<lparr>ud_status = Zero, ud_value = 48, ud_out = []\<rparr>)"
    by (simp add: in_segment_def url_step_def)
  from url_loop_tokens [OF this, of cs] show ?thesis
    by (simp add: http_url_decode_def)
qed


section \<open>Plain paths\<close>

abbreviation dot :: bytes where "dot \<equiv> [46]"
abbreviation dotdot :: bytes where "dotdot \<equiv> [46, 46]"

definition join :: "bytes list \<Rightarrow> bytes" where
  "join ss = concat (map (\<lambda>s. 47 # s) ss)"

text \<open>The removal of dot segments on lists of segments; \<open>st\<close> are the segments kept so far.\<close>

fun dot_walk :: "bytes list \<Rightarrow> bytes list \<Rightarrow> bytes list" where
  "dot_walk st [] = st"
| "dot_walk st (s # ss) =
     (if s = dot then dot_walk (if ss = [] then st @ [[]] else st) ss
      else if s = dotdot then
        dot_walk (if ss = [] \<and> st \<noteq> [] then butlast st @ [[]] else butlast st) ss
      else dot_walk (st @ [s]) ss)"

lemma join_simps [simp]: "join [] = []" "join (ss @ [s]) = join ss @ 47 # s"
  by (simp_all add: join_def)

lemma cut_rev_at: "47 \<notin> set a \<Longrightarrow> cut_rev (a @ 47 # r) = r" "47 \<notin> set a \<Longrightarrow> keep_rev (a @ 47 # r) = 47 # r"
  by (induction a) auto

lemma cut_join:
  assumes "\<forall>s\<in>set st. 47 \<notin> set s"
  shows "cut_segment (join st) = join (butlast st)"
    and "keep_slash (join st) = join (if st = [] then [] else butlast st @ [[]])"
proof -
  show "cut_segment (join st) = join (butlast st)"
    using assms by (cases st rule: rev_cases) (simp_all add: cut_segment_def cut_rev_at)
  show "keep_slash (join st) = join (if st = [] then [] else butlast st @ [[]])"
    using assms by (cases st rule: rev_cases) (simp_all add: keep_slash_def cut_rev_at)
qed

lemma fields_first: "w \<notin> set a \<Longrightarrow> Strings.fields w a = [a]" "w \<notin> set a \<Longrightarrow> Strings.fields w (a @ w # r) = a # Strings.fields w r"
  by (induction a) auto

lemma fields_clean: "s \<in> set (Strings.fields w r) \<Longrightarrow> w \<notin> set s"
proof (induction r arbitrary: s)
  case (Cons b r)
  then show ?case by (cases "Strings.fields w r") (auto split: if_splits)
qed simp

lemma butlast_subset: "\<forall>s\<in>set st. P s \<Longrightarrow> \<forall>s\<in>set (butlast st). P s"
  by (auto dest: in_set_butlastD)

lemma flat_map_Lit [simp]: "flat (map Lit a) = a" "concat (map (tok_bytes \<circ> Lit) a) = a"
  by (induction a) auto

lemma map_Lit_dot: "map Lit a = [Lit 46] \<longleftrightarrow> a = dot" "map Lit a = [Lit 46, Lit 46] \<longleftrightarrow> a = dotdot"
  by auto

lemma seg_run_Lit:
  assumes "47 \<notin> set a" "\<forall>s\<in>set st. 47 \<notin> set s"
  shows "seg_run (join st) (map Lit a) (map Lit cs) = join (dot_walk st (Strings.fields 47 (a @ cs)))"
  using assms
proof (induction cs arbitrary: a st)
  case Nil
  have "seg_last (join st) (map Lit a) = join (dot_walk st [a])"
    using cut_join [OF Nil(2)] by (simp add: seg_last_def map_Lit_dot)
  with Nil(1) show ?case by (simp add: fields_first)
next
  case (Cons c cs)
  show ?case
  proof (cases "c = 47")
    case True
    let ?st = "if a = dot then st else if a = dotdot then butlast st else st @ [a]"
    have mid: "seg_mid (join st) (map Lit a) = join ?st"
      using cut_join [OF Cons.prems(2)] by (simp add: seg_mid_def map_Lit_dot)
    have "\<forall>s\<in>set ?st. 47 \<notin> set s"
      using Cons.prems butlast_subset [OF Cons.prems(2)] by auto
    from Cons.IH [of "[]", OF _ this] True Cons.prems(1) show ?thesis
      by (simp add: mid fields_first)
  next
    case False
    with Cons.IH [of "a @ [c]" st] Cons.prems show ?thesis by simp
  qed
qed

lemma tokens_plain: "37 \<notin> set cs \<Longrightarrow> 35 \<notin> set cs \<Longrightarrow> tokens cs = map Lit cs"
  by (induction cs) auto

lemma dot_walk_clean:
  assumes "\<forall>s\<in>set st. s \<noteq> dot \<and> s \<noteq> dotdot \<and> 47 \<notin> set s" "\<forall>s\<in>set ss. 47 \<notin> set s"
  shows "\<forall>s\<in>set (dot_walk st ss). s \<noteq> dot \<and> s \<noteq> dotdot \<and> 47 \<notin> set s"
  using assms
proof (induction ss arbitrary: st)
  case Nil
  then show ?case by simp
next
  case (Cons s ss)
  let ?P = "\<lambda>s. s \<noteq> dot \<and> s \<noteq> dotdot \<and> 47 \<notin> set s"
  obtain st' where st': "dot_walk st (s # ss) = dot_walk st' ss" "\<forall>s\<in>set st'. ?P s"
  proof (cases "s = dot \<or> s = dotdot")
    case True
    then have eq: "dot_walk st (s # ss) = dot_walk
      (if s = dot then (if ss = [] then st @ [[]] else st)
       else if ss = [] \<and> st \<noteq> [] then butlast st @ [[]] else butlast st) ss"
      by auto
    show thesis by (rule that [OF eq]) (use Cons.prems(1) butlast_subset [OF Cons.prems(1)] in simp)
  next
    case False
    then have eq: "dot_walk st (s # ss) = dot_walk (st @ [s]) ss" by simp
    show thesis by (rule that [OF eq]) (use Cons.prems False in simp)
  qed
  from Cons.IH [OF st'(2)] Cons.prems(2) show ?case by (simp only: st'(1)) simp
qed

lemma fields_join: "\<forall>s\<in>set ss. w \<notin> set s \<Longrightarrow> w = 47 \<Longrightarrow> Strings.fields w (join ss) = [] # ss"
proof -
  have "Strings.fields 47 (a @ join ss) = a # ss" if "47 \<notin> set a" "\<forall>s\<in>set ss. 47 \<notin> set s" for a ss
    using that by (induction ss arbitrary: a) (simp_all add: join_def fields_first)
  from this [of "[]" ss] show "\<forall>s\<in>set ss. w \<notin> set s \<Longrightarrow> w = 47 \<Longrightarrow> ?thesis" by simp
qed

lemma http_url_decode_plain:
  assumes "37 \<notin> set p" "35 \<notin> set p"
  shows "http_url_decode (47 # p) = join (dot_walk [] (Strings.fields 47 p))"
  using seg_run_Lit [of "[]" "[]" p] assms by (simp add: http_url_decode_tokens tokens_plain)

lemma http_url_decode_no_dots:
  assumes "37 \<notin> set p" "35 \<notin> set p"
  shows "\<forall>s\<in>set (Strings.fields 47 (http_url_decode (47 # p))). s \<noteq> dot \<and> s \<noteq> dotdot"
proof -
  let ?ss = "dot_walk [] (Strings.fields 47 p)"
  have "\<forall>s\<in>set ?ss. s \<noteq> dot \<and> s \<noteq> dotdot \<and> 47 \<notin> set s"
    by (rule dot_walk_clean) (auto dest: fields_clean)
  then have "\<forall>s\<in>set (Strings.fields 47 (join ?ss)). s \<noteq> dot \<and> s \<noteq> dotdot" by (simp add: fields_join)
  then show ?thesis by (simp add: http_url_decode_plain [OF assms])
qed

section \<open>The decoder undoes the encoder\<close>

definition enc_tok :: "byte \<Rightarrow> tok" where
  "enc_tok c = (if unreserved c then Lit c else Pct c)"

lemma flat_enc_tok [simp]: "flat (map enc_tok a) = a" "concat (map (tok_bytes \<circ> enc_tok) a) = a"
  by (induction a) (auto simp: enc_tok_def)

lemma enc_tok_Lit [simp]: "enc_tok c = Lit b \<longleftrightarrow> c = b \<and> unreserved b"
  by (auto simp: enc_tok_def)

lemma unreserved_simps [simp]: "unreserved 46" "unreserved 47" "\<not> unreserved 35" "\<not> unreserved 37"
  by (simp_all add: unreserved_def)

lemma hex_digit:
  assumes "k < 16"
  defines "d \<equiv> str ''0123456789ABCDEF'' ! k"
  shows "hex_val d = Some k \<and> d \<noteq> 35 \<and> d \<noteq> 37"
proof -
  have "k = 0 \<or> k = 1 \<or> k = 2 \<or> k = 3 \<or> k = 4 \<or> k = 5 \<or> k = 6 \<or> k = 7 \<or>
        k = 8 \<or> k = 9 \<or> k = 10 \<or> k = 11 \<or> k = 12 \<or> k = 13 \<or> k = 14 \<or> k = 15"
    using assms(1) by presburger
  then show ?thesis
    by (elim disjE) (simp_all add: d_def str_def ch_def hex_val_def)
qed

lemma hex_table_digits:
  "\<exists>d e. uwsgi_hex_table (unat b) = [d, e] \<and> d \<noteq> 35 \<and> d \<noteq> 37 \<and> e \<noteq> 35 \<and> hex2num d e = b"
proof -
  have "unat b < 256" using unsigned_less [of b] by simp
  then have "unat b div 16 < 16" "unat b mod 16 < 16" by auto
  from hex_digit [OF this(1)] hex_digit [OF this(2)] show ?thesis
    by (simp add: uwsgi_hex_table_def hex2num_def)
qed

lemma encode_tokens:
  "url_encode_loop cs = Some e \<Longrightarrow> tokens e = map enc_tok cs"
proof (induction cs arbitrary: e)
  case Nil
  then show ?case by simp
next
  case (Cons b bs)
  show ?case
  proof (cases "unreserved b")
    case True
    then have "b \<noteq> 35" "b \<noteq> 37" by auto
    with True Cons show ?thesis by (auto simp: enc_tok_def)
  next
    case False
    with Cons.prems obtain r where r: "url_encode_loop bs = Some r" "e = 37 # uwsgi_hex_table (unat b) @ r"
      and b: "b < 0x80" by (auto split: if_splits)
    obtain d f where "uwsgi_hex_table (unat b) = [d, f]" "d \<noteq> 35" "d \<noteq> 37" "f \<noteq> 35" "hex2num d f = b"
      using hex_table_digits by blast
    with r Cons.IH False show ?thesis by (simp add: enc_tok_def)
  qed
qed

lemma encode_total: "(\<exists>e. url_encode_loop cs = Some e) \<longleftrightarrow> (\<forall>c\<in>set cs. c < 0x80)"
proof -
  have "b < 0x80" if "unreserved b" for b
    using that by (auto simp: unreserved_def word_le_nat_alt word_less_nat_alt)
  then show ?thesis by (induction cs) (auto simp: not_le)
qed

text \<open>One byte for an unreserved byte, three for another one.\<close>

definition encoded_size :: "bytes \<Rightarrow> nat" where
  "encoded_size cs = (\<Sum>c\<leftarrow>cs. if unreserved c then 1 else 3)"

lemma encode_length: "url_encode_loop cs = Some e \<Longrightarrow> length e = encoded_size cs"
  by (induction cs arbitrary: e) (auto simp: encoded_size_def uwsgi_hex_table_def split: if_splits)

lemma seg_run_no_dots:
  assumes "47 \<notin> set a" "dot \<notin> set (Strings.fields 47 (a @ cs))" "dotdot \<notin> set (Strings.fields 47 (a @ cs))"
  shows "seg_run dst (map enc_tok a) (map enc_tok cs) = dst @ 47 # a @ cs"
  using assms
proof (induction cs arbitrary: a dst)
  case Nil
  then show ?case by (auto simp: fields_first seg_last_def map_eq_Cons_conv)
next
  case (Cons c cs)
  show ?case
  proof (cases "c = 47")
    case True
    with Cons.prems have "seg_mid dst (map enc_tok a) = dst @ 47 # a"
      by (auto simp: fields_first seg_mid_def map_eq_Cons_conv)
    with True Cons.IH [of "[]"] Cons.prems show ?thesis by (simp add: fields_first)
  next
    case False
    with Cons.IH [of "a @ [c]"] Cons.prems show ?thesis by simp
  qed
qed


section \<open>Bounds\<close>

text \<open>The bytes written never outrun the bytes read, so a destination as large as the source is enough.\<close>

lemma length_cut: "length (cut_segment d) \<le> length d" "length (keep_slash d) \<le> length d"
proof -
  have "length (cut_rev r) \<le> length r" "length (keep_rev r) \<le> length r" for r
    by (induction r) auto
  from this [of "rev d"] show "length (cut_segment d) \<le> length d" "length (keep_slash d) \<le> length d"
    by (simp_all add: cut_segment_def keep_slash_def)
qed

text \<open>The bytes held back in a status; the first segment of a relative path has no slash.\<close>

fun held :: "ustatus \<Rightarrow> nat" where
  "held Zero = 0"
| "held Percent1 = 1"
| "held Percent2 = 2"
| "held Slash = 1"
| "held Dot = 2"
| "held Dotdot = 3"

definition room_inv :: "bool \<Rightarrow> nat \<Rightarrow> udec \<Rightarrow> bool" where
  "room_inv ns i u =
     (length (ud_out u) + held (ud_status u) \<le> i \<or>
      ns \<and> length (ud_out u) + held (ud_status u) \<le> i + 1 \<and>
        (i = 0 \<and> ud_status u = Slash \<or> i = 1 \<and> ud_status u = Dot \<or> i = 2 \<and> ud_status u = Dotdot))"

lemma url_step_room: "room_inv ns i u \<Longrightarrow> room_inv ns (Suc i) (url_step ns i c u)"
  using length_cut(1) [of "ud_out u"]
  by (cases "ud_status u") (auto simp: room_inv_def url_step_def Let_def)

lemma url_end_room: "room_inv ns i u \<Longrightarrow> 0 < i \<Longrightarrow> length (url_end u) \<le> i"
  using length_cut(2) [of "ud_out u"]
  by (cases "ud_status u") (auto simp: room_inv_def url_end_def)

lemma url_loop_room:
  "room_inv ns i u \<Longrightarrow> \<exists>j. i \<le> j \<and> j \<le> i + length cs \<and> room_inv ns j (url_loop ns i cs u) \<and>
     (j = i \<longrightarrow> url_loop ns i cs u = u)"
proof (induction cs arbitrary: i u)
  case Nil
  then show ?case by auto
next
  case (Cons c cs)
  show ?case
  proof (cases "c = 35")
    case True
    with Cons.prems show ?thesis by auto
  next
    case False
    from Cons.IH [OF url_step_room [OF Cons.prems], of c] obtain j where
      "Suc i \<le> j" "j \<le> Suc i + length cs" "room_inv ns j (url_loop ns (Suc i) cs (url_step ns i c u))"
      by blast
    with False show ?thesis by (intro exI [of _ j]) auto
  qed
qed

lemma http_url_decode_fits: "length (http_url_decode p) \<le> length p"
proof -
  let ?ns = "p \<noteq> [] \<and> hd p \<noteq> 47"
  let ?u = "\<lparr>ud_status = (if ?ns then Slash else Zero), ud_value = 48, ud_out = []\<rparr>"
  have "room_inv ?ns 0 ?u" by (auto simp: room_inv_def)
  from url_loop_room [OF this, of p] obtain j where
    j: "j \<le> length p" "room_inv ?ns j (url_loop ?ns 0 p ?u)" "j = 0 \<longrightarrow> url_loop ?ns 0 p ?u = ?u"
    by auto
  show ?thesis
  proof (cases "j = 0")
    case True
    with j have "http_url_decode p = url_end ?u" by (simp add: http_url_decode_def Let_def)
    then show ?thesis by (cases p) (auto simp: url_end_def)
  next
    case False
    with url_end_room [OF j(2)] j(1) show ?thesis by (simp add: http_url_decode_def Let_def)
  qed
qed

section \<open>Properties\<close>

text \<open>
  C24: On a path without percent codes \<^verbatim>\<open>http_url_decode\<close> is the removal of dot segments: it
  keeps the segments in order, drops a segment \<open>.\<close> and goes back one for \<open>..\<close>, so that no
  segment of the result is \<open>.\<close> or \<open>..\<close>; the result never outgrows the input.
\<close>

theorem http_url_decode_resolves:
  assumes "37 \<notin> set p" "35 \<notin> set p"
  shows "http_url_decode (47 # p) = join (dot_walk [] (Strings.fields 47 p)) \<and>
         (\<forall>s\<in>set (Strings.fields 47 (http_url_decode (47 # p))). s \<noteq> dot \<and> s \<noteq> dotdot) \<and>
         length (http_url_decode (47 # p)) \<le> length (47 # p)"
  using http_url_decode_plain [OF assms] http_url_decode_no_dots [OF assms]
    http_url_decode_fits [of "47 # p"] by blast

theorem http_url_decode_resolves_witness:
  "http_url_decode (str ''/a/b/../../../c/./d'') = str ''/c/d''"
proof -
  have "http_url_decode (47 # str ''a/b/../../../c/./d'') =
        join (dot_walk [] (Strings.fields 47 (str ''a/b/../../../c/./d'')))"
    using http_url_decode_resolves [of "str ''a/b/../../../c/./d''"] by (simp add: str_def ch_def)
  moreover have "str ''/a/b/../../../c/./d'' = 47 # str ''a/b/../../../c/./d''"
    by (simp add: str_def ch_def)
  ultimately show ?thesis by (simp add: str_def ch_def join_def)
qed

text \<open>
  Dots written as percent codes are decoded after the removal of dot segments, so a
  path made of \<^verbatim>\<open>%2e%2e\<close> leaves the decoder with its parent segments.
\<close>

theorem http_url_decode_keeps_encoded_dots:
  "http_url_decode (str ''/%2e%2e/%2e%2e/x'') = str ''/../../x''"
  by code_simp

text \<open>
  C25: A path of ASCII bytes without dot segments whose encoding has less than 65536 bytes
  survives the encoder and the decoder: the length reported is that of the encoding, and the
  decoder turns that many bytes back into the path. The encoder reads outside its table exactly
  when the path has a byte from 0x80 on.
\<close>

theorem http_url_encode_decode:
  assumes "dot \<notin> set (Strings.fields 47 p)" "dotdot \<notin> set (Strings.fields 47 p)"
    and "encoded_size (47 # p) < 65536"
  shows "case http_url_encode (47 # p) of
           None \<Rightarrow> \<exists>c\<in>set p. 0x80 \<le> c
         | Some (n, e) \<Rightarrow> (\<forall>c\<in>set p. c < 0x80) \<and> unat n = length e \<and> http_url_decode (take (unat n) e) = 47 # p"
proof (cases "url_encode_loop p")
  case None
  with encode_total [of p] show ?thesis by (auto simp: not_less http_url_encode_def)
next
  case (Some e)
  have all: "url_encode_loop (47 # p) = Some (47 # e)" using Some by simp
  have len: "unat (word_of_nat (length (47 # e)) :: u16) = length (47 # e)"
    using assms(3) unfolding encode_length [OF all, symmetric] unat_of_nat by simp
  have "http_url_decode (47 # e) = 47 # p"
    using seg_run_no_dots [of "[]" p "[]"] assms by (simp add: http_url_decode_tokens encode_tokens [OF Some])
  with encode_total [of p] Some show ?thesis
    unfolding http_url_encode_def all option.map option.case prod.case len take_all [OF order_refl] by auto
qed

theorem http_url_encode_decode_witness:
  "\<exists>n e. http_url_encode (str ''/my file#1'') = Some (n, e) \<and> unat n = length e \<and>
     http_url_decode (take (unat n) e) = str ''/my file#1''"
proof -
  let ?p = "str ''my file#1''"
  have p: "str ''/my file#1'' = 47 # ?p" by (simp add: str_def ch_def)
  have no_dots: "dot \<notin> set (Strings.fields 47 ?p)" "dotdot \<notin> set (Strings.fields 47 ?p)"
    by (simp_all add: str_def ch_def)
  have fit: "encoded_size (47 # ?p) < 65536" by (simp add: str_def ch_def encoded_size_def unreserved_def)
  have "\<forall>c\<in>set (47 # ?p). c < 0x80" by (simp add: str_def ch_def)
  then obtain e where e: "url_encode_loop (47 # ?p) = Some e" using encode_total by blast
  then have n: "http_url_encode (47 # ?p) = Some (word_of_nat (length e), e)" by (simp add: http_url_encode_def)
  with http_url_encode_decode [OF no_dots fit] show ?thesis unfolding p by (simp only: n option.case prod.case) blast
qed

text \<open>
  The length reported wraps: 65536 is lost of the size of a longer encoding, such as that of a
  path of 22000 spaces.
\<close>

theorem http_url_encode_length_wraps:
  "http_url_encode (replicate k 32) = Some (word_of_nat (3 * k), concat (replicate k (str ''%20'')))"
proof -
  have "url_encode_loop (replicate k 32) = Some (concat (replicate k (str ''%20'')))"
    by (induction k) (simp_all add: unreserved_def uwsgi_hex_table_def str_def ch_def)
  moreover have "length (concat (replicate k (str ''%20''))) = 3 * k" by (induction k) simp_all
  ultimately show ?thesis by (simp add: http_url_encode_def)
qed

theorem http_url_encode_length_wraps_22000:
  "map_option (\<lambda>(n, e). (unat n, length e)) (http_url_encode (replicate 22000 32)) = Some (464, 66000)"
proof -
  have "length (concat (replicate k (str ''%20''))) = 3 * k" for k by (induction k) simp_all
  then show ?thesis by (simp add: http_url_encode_length_wraps)
qed

text \<open>
  C26: Decoding what was encoded in base64 gives the bytes back, and the encoding with its
  terminator fits the area allocated for it.
\<close>

theorem uwsgi_base64_roundtrip:
  "uwsgi_base64_decode (uwsgi_base64_encode s) = Some s \<and>
   length (uwsgi_base64_encode s) + 1 \<le> length s * 4 div 3 + 5"
  using b64_decode_encode b64_encode_fits by blast

end
