(* ===== verification/Protos.thy ===== *)
theory Protos
  imports Protocol Codecs
begin

text \<open>
  The protocol parsers a socket may have: \<^verbatim>\<open>proto/uwsgi.c\<close>, \<^verbatim>\<open>proto/puwsgi.c\<close>, \<^verbatim>\<open>proto/scgi.c\<close>,
  \<^verbatim>\<open>proto/fastcgi.c\<close> and what they share in \<^verbatim>\<open>proto/base.c\<close>.  Each of them turns the bytes of a
  connection, however they are cut into reads, into a uwsgi packet in the request's buffer.

  The area of a request (\<open>pq_area\<close>) is the four bytes of \<^verbatim>\<open>struct uwsgi_header\<close> (\<^verbatim>\<open>wsgi_req->uh\<close>:
  modifier1, the packet size, modifier2) followed by \<^verbatim>\<open>wsgi_req->buffer\<close>.  What the system
  calls return is an argument: the bytes a \<^verbatim>\<open>read\<close> would deliver (none at the end of the stream),
  a call that would block, or an error.  A parser returns \<open>0\<close> (\<^verbatim>\<open>UWSGI_OK\<close>), \<open>1\<close>
  (\<^verbatim>\<open>UWSGI_AGAIN\<close>) or \<open>-1\<close>.
\<close>

datatype io = Bytes bytes | Again | Broken

datatype rloc = In_area nat | In_parser nat

record preq =
  pq_area :: bytes
  pq_pos :: nat
  pq_buf :: "bytes option"
  pq_buf_size :: nat
  pq_remains :: nat
  pq_remains_at :: rloc
  pq_move :: nat
  pq_eof :: bool
  pq_status :: nat
  pq_stream :: "byte \<times> byte"
  pq_write_pos :: nat
  pq_write_errors :: nat

record pconf =
  ps_buffer_size :: nat
  ps_modifiers :: "byte \<times> byte"
  ps_env :: cenv

text \<open>\<^verbatim>\<open>read(fd, ptr, room)\<close>\<close>

definition sys_read :: "nat \<Rightarrow> io \<Rightarrow> io" where
  "sys_read room ev = (case ev of Bytes bs \<Rightarrow> Bytes (take room bs) | _ \<Rightarrow> ev)"

abbreviation pktsize_of :: "preq \<Rightarrow> nat option" where
  "pktsize_of r \<equiv> rd_le 2 (pq_area r) 1"

text \<open>\<^verbatim>\<open>uh->pktsize += n\<close>\<close>

definition grow_packet :: "preq \<Rightarrow> nat \<Rightarrow> preq option" where
  "grow_packet r n = do {
     p \<leftarrow> pktsize_of r;
     a \<leftarrow> wr_le 2 (pq_area r) 1 (p + n);
     Some (r\<lparr>pq_area := a\<rparr>) }"

definition set_modifiers :: "pconf \<Rightarrow> preq \<Rightarrow> preq option" where
  "set_modifiers c r = do {
     a \<leftarrow> mem_write (pq_area r) 0 [fst (ps_modifiers c)];
     a \<leftarrow> mem_write a 3 [snd (ps_modifiers c)];
     Some (r\<lparr>pq_area := a\<rparr>) }"

section \<open>Adding variables to the packet\<close>

text \<open>The lengths arrive as \<^verbatim>\<open>uint16_t\<close>; so does the result, 0 standing for no room.\<close>

definition proto_base_add_uwsgi_var ::
  "pconf \<Rightarrow> preq \<Rightarrow> bytes \<Rightarrow> bytes \<Rightarrow> (nat \<times> preq) option" where
  "proto_base_add_uwsgi_var c r key val = do {
     p \<leftarrow> pktsize_of r;
     (if p + length key + length val + 2 + 2 \<ge> ps_buffer_size c then Some (0, r)
      else do {
        a \<leftarrow> mem_write (pq_area r) (4 + p) (le16 (length key) @ key @ le16 (length val) @ val);
        Some ((length key + length val + 2 + 2) mod 65536, r\<lparr>pq_area := a\<rparr>) }) }"

definition toupper :: "byte \<Rightarrow> byte" where
  "toupper b = (if 97 \<le> b \<and> b \<le> 122 then b - 32 else b)"

definition cgi_name :: "bytes \<Rightarrow> bytes" where
  "cgi_name key = map (\<lambda>b. if b = 45 then 95 else toupper b) key"

text \<open>The key is rewritten in place; the function returns it with the rest.\<close>

definition proto_base_add_uwsgi_header ::
  "pconf \<Rightarrow> preq \<Rightarrow> bytes \<Rightarrow> bytes \<Rightarrow> (nat \<times> bytes \<times> preq) option" where
  "proto_base_add_uwsgi_header c r key val = do {
     p \<leftarrow> pktsize_of r;
     let key = cgi_name key;
     (if \<not> uwsgi_strncmp (str ''CONTENT_TYPE'') key \<and> \<not> uwsgi_strncmp (str ''CONTENT_LENGTH'') key then
        if p + length key + length val + 2 + 2 + 5 \<ge> ps_buffer_size c then Some (0, key, r)
        else do {
          a \<leftarrow> mem_write (pq_area r) (4 + p)
                 (le16 ((length key + 5) mod 65536) @ str ''HTTP_'' @ key @ le16 (length val) @ val);
          Some (((length key + 5) mod 65536 + length val + 2 + 2) mod 65536, key, r\<lparr>pq_area := a\<rparr>) }
      else if p + length key + length val + 2 + 2 \<ge> ps_buffer_size c then Some (0, key, r)
      else do {
        a \<leftarrow> mem_write (pq_area r) (4 + p) (le16 (length key) @ key @ le16 (length val) @ val);
        Some ((length key + length val + 2 + 2) mod 65536, key, r\<lparr>pq_area := a\<rparr>) }) }"

text \<open>
  The idiom of the parsers: \<^verbatim>\<open>pktsize = proto_base_add_uwsgi_var(...); if (pktsize == 0) return -1;
  uh->pktsize += pktsize\<close>.  The inner \<open>None\<close> is the early return.
\<close>

definition put_pair :: "pconf \<Rightarrow> preq \<Rightarrow> bytes \<Rightarrow> bytes \<Rightarrow> preq option option" where
  "put_pair c r key val = do {
     (n, r) \<leftarrow> proto_base_add_uwsgi_var c r key val;
     (if n = 0 then Some None else do { r \<leftarrow> grow_packet r n; Some (Some r) }) }"

lemma put_pair_keeps:
  "put_pair c r k v = Some (Some r') \<Longrightarrow> \<exists>a. r' = r\<lparr>pq_area := a\<rparr>"
  by (auto simp: put_pair_def proto_base_add_uwsgi_var_def grow_packet_def split: bind_splits if_splits)

section \<open>The uwsgi protocol\<close>

definition uwsgi_proto_uwsgi_parser :: "pconf \<Rightarrow> preq \<Rightarrow> io \<Rightarrow> (int \<times> preq) option" where
  "uwsgi_proto_uwsgi_parser c r ev =
     (case sys_read (sz_sub (ps_buffer_size c + 4) (pq_pos r)) ev of
        Bytes bs \<Rightarrow>
          if bs = [] then Some (-1, r)
          else do {
            a \<leftarrow> mem_write (pq_area r) (pq_pos r) bs;
            let r = r\<lparr>pq_area := a, pq_pos := pq_pos r + length bs\<rparr>;
            (if pq_pos r \<ge> 4 then do {
               p \<leftarrow> pktsize_of r;
               (if pq_pos r - 4 = p then Some (0, r)
                else if pq_pos r - 4 > p then
                  Some (0, r\<lparr>pq_remains := pq_pos r - (4 + p), pq_remains_at := In_area (4 + p)\<rparr>)
                else if p > ps_buffer_size c then Some (-1, r)
                else Some (1, r)) }
             else Some (1, r)) }
      | Again \<Rightarrow> Some (1, r)
      | Broken \<Rightarrow> Some (-1, r))"

text \<open>The persistent variant reads the header and the payload apart and never more.\<close>

definition puwsgi_negative :: "preq \<Rightarrow> io \<Rightarrow> (int \<times> preq) option" where
  "puwsgi_negative r ev =
     (case ev of Again \<Rightarrow> Some (1, r)
      | _ \<Rightarrow> Some (-1, r\<lparr>pq_write_errors := pq_write_errors r + 1\<rparr>))"

definition uwsgi_proto_puwsgi_parser :: "pconf \<Rightarrow> preq \<Rightarrow> io \<Rightarrow> (int \<times> preq) option" where
  "uwsgi_proto_puwsgi_parser c r ev =
     (if pq_pos r < 4 then
        case sys_read (4 - pq_pos r) ev of
          Bytes (b # bs) \<Rightarrow> do {
            a \<leftarrow> mem_write (pq_area r) (pq_pos r) (b # bs);
            let r = r\<lparr>pq_area := a, pq_pos := pq_pos r + length (b # bs)\<rparr>;
            (if pq_pos r = 4 then do {
               p \<leftarrow> pktsize_of r;
               (if p > ps_buffer_size c
                then Some (-1, r\<lparr>pq_write_errors := pq_write_errors r + 1\<rparr>) else Some (1, r)) }
             else Some (1, r)) }
        | e \<Rightarrow> puwsgi_negative r e
      else do {
        p \<leftarrow> pktsize_of r;
        (case sys_read (sz_sub p (pq_pos r - 4)) ev of
           Bytes (b # bs) \<Rightarrow> do {
             a \<leftarrow> mem_write (pq_area r) (pq_pos r) (b # bs);
             let r = r\<lparr>pq_area := a, pq_pos := pq_pos r + length (b # bs)\<rparr>;
             p \<leftarrow> pktsize_of r;
             Some (if pq_pos r - 4 = p then 0 else 1, r) }
         | e \<Rightarrow> puwsgi_negative r e) })"

text \<open>
  Closing in the persistent variant keeps the connection for the next request exactly when the
  packet was read as a whole and nothing failed; the result is whether it is kept.
\<close>

definition uwsgi_proto_puwsgi_close :: "preq \<Rightarrow> bool option" where
  "uwsgi_proto_puwsgi_close r = do {
     p \<leftarrow> pktsize_of r;
     Some (\<not> (pq_write_errors r \<noteq> 0 \<or> p + 4 \<noteq> pq_pos r)) }"

section \<open>SCGI\<close>

text \<open>
  The loop over the NUL-terminated strings of the netstring.  \<open>key\<close> and \<open>value\<close> are the
  pointers of the source as offsets; \<open>None\<close> is the null pointer.  The result is the position
  reached, or nothing when a variable did not fit.
\<close>

function scgi_loop ::
  "pconf \<Rightarrow> preq \<Rightarrow> bytes \<Rightarrow> nat \<Rightarrow> nat \<Rightarrow> nat option \<Rightarrow> nat \<Rightarrow> nat option \<Rightarrow> (nat option \<times> preq) option"
where
  "scgi_loop c r m i e key keylen val =
     (if i \<ge> e then Some (Some i, r)
      else
        let (key, val) = (case key of None \<Rightarrow> (i, val)
              | Some k \<Rightarrow> (k, if keylen > 0 \<and> val = None then Some i else val)) in
        case mem_get m i of None \<Rightarrow> None | Some b \<Rightarrow>
          if b = 0 then
            (case val of
               Some v \<Rightarrow>
                 (case put_pair c r (take (keylen mod 65536) (drop key m))
                         (take ((i - v) mod 65536) (drop v m)) of
                    None \<Rightarrow> None
                  | Some None \<Rightarrow> Some (None, r)
                  | Some (Some r) \<Rightarrow> scgi_loop c r m (i + 1) e None 0 None)
             | None \<Rightarrow> scgi_loop c r m (i + 1) e (Some key) (i - key) None)
          else scgi_loop c r m (i + 1) e (Some key) keylen val)"
  by pat_completeness auto
termination by (relation "measure (\<lambda>(c, r, m, i, e, _). e - i)") auto

declare scgi_loop.simps [simp del]

definition scgi_parse :: "pconf \<Rightarrow> preq \<Rightarrow> (int \<times> preq) option" where
  "scgi_parse c r = do {
     m \<leftarrow> pq_buf r;
     let len = pq_pos r;
     (case memchr 58 (take len m) of
        None \<Rightarrow> Some (0, r)
      | Some i \<Rightarrow> do {
          n \<leftarrow> uwsgi_str_num (take i m);
          let n = unat n;
          (if n = 0 then Some (-1, r)
           else if sz_add (sz_add i n) 1 > len then Some (0, r)
           else do {
             (stop, r) \<leftarrow> scgi_loop c r m (i + 1) (sz_add (i + 1) n) (Some (i + 1)) 0 None;
             (case stop of
                None \<Rightarrow> Some (-1, r)
              | Some j \<Rightarrow> do {
                  b \<leftarrow> mem_get m j;
                  (if b = 44
                   then Some (1, if len > j + 1
                                 then r\<lparr>pq_remains := len - (j + 1), pq_remains_at := In_parser (j + 1)\<rparr>
                                 else r)
                   else Some (-1, r)) }) }) }) }"

definition uwsgi_proto_scgi_parser :: "pconf \<Rightarrow> preq \<Rightarrow> io \<Rightarrow> (int \<times> preq) option" where
  "uwsgi_proto_scgi_parser c r ev =
     (let r = (case pq_buf r of
                 None \<Rightarrow> r\<lparr>pq_buf := Some (replicate (ps_buffer_size c) (junk (ps_env c)))\<rparr>
               | Some _ \<Rightarrow> r) in
      if sz_sub (ps_buffer_size c) (pq_pos r) = 0 then Some (-1, r)
      else case sys_read (sz_sub (ps_buffer_size c) (pq_pos r)) ev of
        Bytes bs \<Rightarrow>
          if bs = [] then Some (-1, r)
          else do {
            m \<leftarrow> pq_buf r;
            m \<leftarrow> mem_write m (pq_pos r) bs;
            (ret, r) \<leftarrow> scgi_parse c (r\<lparr>pq_buf := Some m, pq_pos := pq_pos r + length bs\<rparr>);
            (if ret > 0 then do { r \<leftarrow> set_modifiers c r; Some (0, r) }
             else if ret = 0 then Some (1, r)
             else Some (-1, r)) }
      | Again \<Rightarrow> Some (1, r)
      | Broken \<Rightarrow> Some (-1, r))"


section \<open>FastCGI: reading\<close>

text \<open>
  One length of a FastCGI pair at position \<open>j\<close> of the \<open>len\<close> bytes behind \<open>base\<close>: the length
  and the next position, or nothing (the inner \<open>None\<close>) when the record ends.
\<close>

definition fcgi_length :: "bytes \<Rightarrow> nat \<Rightarrow> nat \<Rightarrow> nat \<Rightarrow> (nat \<times> nat) option option" where
  "fcgi_length m base len j = do {
     octet \<leftarrow> mem_get m (base + j);
     (if octet > 127 then
        if j + 4 \<ge> len then Some None
        else do {
          v \<leftarrow> uwsgi_be32 m (base + j);
          Some (Some (unat ((word_of_nat v :: u32) XOR 0x80000000), j + 4)) }
      else if j + 1 \<ge> len then Some None
      else Some (Some (unat octet, j + 1))) }"

lemma fcgi_length_next: "fcgi_length m base len j = Some (Some (k, i)) \<Longrightarrow> j < i"
  by (auto simp: fcgi_length_def split: bind_splits if_splits)

function fastcgi_to_uwsgi :: "pconf \<Rightarrow> preq \<Rightarrow> bytes \<Rightarrow> nat \<Rightarrow> nat \<Rightarrow> nat \<Rightarrow> (int \<times> preq) option" where
  "fastcgi_to_uwsgi c r m base len j =
     (if j \<ge> len then Some (0, r)
      else case fcgi_length m base len j of
        None \<Rightarrow> None
      | Some None \<Rightarrow> Some (-1, r)
      | Some (Some (keylen, i)) \<Rightarrow>
          case fcgi_length m base len i of
            None \<Rightarrow> None
          | Some None \<Rightarrow> Some (-1, r)
          | Some (Some (vallen, i')) \<Rightarrow>
              let both = (keylen + vallen) mod 4294967296 in
              if i' + both > len then Some (-1, r)
              else if keylen > 0xffff \<or> vallen > 0xffff then Some (-1, r)
              else case mem_read m (base + i') keylen of None \<Rightarrow> None | Some key \<Rightarrow>
                case mem_read m (base + i' + keylen) vallen of None \<Rightarrow> None | Some val \<Rightarrow>
                  case put_pair c r key val of
                    None \<Rightarrow> None
                  | Some None \<Rightarrow> Some (-1, r)
                  | Some (Some r) \<Rightarrow>
                      fastcgi_to_uwsgi c r m base len (i' + (both + 4294967295) mod 4294967296 + 1))"
  by pat_completeness auto
termination
  by (relation "measure (\<lambda>(c, r, m, base, len, j). len - j)") (auto dest!: fcgi_length_next)

declare fastcgi_to_uwsgi.simps [simp del]

text \<open>The header of a record: content length, length of the whole record, type, request id.\<close>

definition fcgi_header :: "bytes \<Rightarrow> (nat \<times> nat \<times> byte \<times> byte \<times> byte) option" where
  "fcgi_header m = do {
     n \<leftarrow> uwsgi_be16 m 4;
     pad \<leftarrow> mem_get m 6;
     type \<leftarrow> mem_get m 1;
     req1 \<leftarrow> mem_get m 2;
     req0 \<leftarrow> mem_get m 3;
     Some (n, 8 + n + unat pad, type, req1, req0) }"

text \<open>The growth of the record buffer when a record does not fit, and the drop of a record.\<close>

definition fcgi_grow :: "pconf \<Rightarrow> preq \<Rightarrow> nat \<Rightarrow> preq option" where
  "fcgi_grow c r all_len = do {
     m \<leftarrow> pq_buf r;
     let n = pq_buf_size r + all_len - (pq_buf_size r - pq_pos r);
     m \<leftarrow> realloc_area (ps_env c) m n;
     Some (r\<lparr>pq_buf := Some m, pq_buf_size := n\<rparr>) }"

definition fcgi_drop :: "preq \<Rightarrow> nat \<Rightarrow> preq option" where
  "fcgi_drop r all_len = do {
     m \<leftarrow> pq_buf r;
     m \<leftarrow> mem_move m 0 all_len (pq_pos r - all_len);
     Some (r\<lparr>pq_buf := Some m, pq_pos := pq_pos r - all_len\<rparr>) }"

lemma fcgi_drop_pos: "fcgi_drop r n = Some r' \<Longrightarrow> pq_pos r' = pq_pos r - n"
  by (auto simp: fcgi_drop_def split: bind_splits)

lemma fcgi_header_len: "fcgi_header m = Some (n, a, t, x, y) \<Longrightarrow> 8 + n \<le> a"
  by (auto simp: fcgi_header_def split: bind_splits)

lemma to_uwsgi_pos: "fastcgi_to_uwsgi c r m base len j = Some (ret, r') \<Longrightarrow> pq_pos r' = pq_pos r"
proof (induction c r m base len j rule: fastcgi_to_uwsgi.induct)
  case (1 c r m base len j)
  have keeps: "pq_pos r' = pq_pos r" if "put_pair c r k v = Some (Some r')" for r' k v
    using put_pair_keeps [OF that] by auto
  from 1(2) show ?case
    by (subst (asm) fastcgi_to_uwsgi.simps)
      (auto split: if_splits option.splits prod.splits simp: Let_def dest!: 1(1) dest: keeps)
qed

text \<open>The loop over the records received: it stops at a STDIN record or when more bytes are needed.\<close>

function fcgi_records :: "pconf \<Rightarrow> preq \<Rightarrow> (int \<times> preq) option" where
  "fcgi_records c r =
     (if pq_pos r < 8 then Some (1, r)
      else case pq_buf r of None \<Rightarrow> None | Some m \<Rightarrow>
        case fcgi_header m of None \<Rightarrow> None | Some (len, all_len, type, req1, req0) \<Rightarrow>
          let r = r\<lparr>pq_stream := (req0, req1)\<rparr> in
          if type = 5 then
            (case set_modifiers c r of None \<Rightarrow> None
             | Some r \<Rightarrow> Some (0, if len = 0 then r\<lparr>pq_eof := True\<rparr> else r))
          else if pq_pos r \<ge> all_len then
            (case (if type = 4 then fastcgi_to_uwsgi c r m 8 len 0 else Some (0, r)) of
               None \<Rightarrow> None
             | Some (ret, r) \<Rightarrow>
                 if ret \<noteq> 0 then Some (-1, r)
                 else case fcgi_drop r all_len of None \<Rightarrow> None | Some r \<Rightarrow> fcgi_records c r)
          else if all_len > pq_buf_size r - pq_pos r then
            (case fcgi_grow c r all_len of None \<Rightarrow> Some (-1, r) | Some r \<Rightarrow> Some (1, r))
          else Some (1, r))"
  by pat_completeness auto
termination
  by (relation "measure (\<lambda>(c, r). pq_pos r)")
    (auto dest!: fcgi_drop_pos fcgi_header_len to_uwsgi_pos split: if_splits)

declare fcgi_records.simps [simp del]

definition uwsgi_proto_fastcgi_parser :: "pconf \<Rightarrow> preq \<Rightarrow> io \<Rightarrow> (int \<times> preq) option" where
  "uwsgi_proto_fastcgi_parser c r ev =
     (let r = (case pq_buf r of
                 None \<Rightarrow> r\<lparr>pq_buf := Some (replicate (ps_buffer_size c) (junk (ps_env c))),
                           pq_buf_size := ps_buffer_size c\<rparr>
               | Some _ \<Rightarrow> r) in
      case sys_read (pq_buf_size r - pq_pos r) ev of
        Bytes bs \<Rightarrow>
          if bs = [] then Some (-1, r)
          else do {
            m \<leftarrow> pq_buf r;
            m \<leftarrow> mem_write m (pq_pos r) bs;
            fcgi_records c (r\<lparr>pq_buf := Some m, pq_pos := pq_pos r + length bs\<rparr>) }
      | Again \<Rightarrow> Some (1, r)
      | Broken \<Rightarrow> Some (-1, r))"


section \<open>FastCGI: the body\<close>

text \<open>
  \<^verbatim>\<open>uwsgi_proto_fastcgi_read_body\<close>.  A pass over the buffered record gives a result with the
  bytes copied, or asks for a read (\<open>None\<close>); the result \<open>-2\<close> stands for \<open>-1\<close> with \<^verbatim>\<open>EAGAIN\<close>.
  When no whole STDIN record is there the function reads once, and again only while even the
  header is incomplete.
\<close>

definition fcgi_pass :: "pconf \<Rightarrow> preq \<Rightarrow> nat \<Rightarrow> bool \<Rightarrow> ((int \<times> bytes) option \<times> preq) option" where
  "fcgi_pass c r len has_read =
     (let more = (if has_read then Some (-2, []) else None) in
      if pq_pos r < 8 then Some (None, r)
      else do {
        m \<leftarrow> pq_buf r;
        (flen, all_len, type, req1, req0) \<leftarrow> fcgi_header m;
        (if pq_pos r \<ge> all_len then
           if type = 5 then
             if flen = 0 then Some (Some (0, []), r\<lparr>pq_eof := True\<rparr>)
             else do {
               let remains = min flen len;
               bs \<leftarrow> mem_read m 8 remains;
               let r = r\<lparr>pq_remains := flen - remains, pq_remains_at := In_parser (8 + remains)\<rparr>;
               r \<leftarrow> (if flen - remains = 0 then fcgi_drop r all_len
                     else Some (r\<lparr>pq_move := all_len, pq_pos := pq_pos r - all_len\<rparr>));
               Some (Some (int remains, bs), r) }
           else do { r \<leftarrow> fcgi_drop r all_len; Some (more, r) }
         else if all_len > pq_buf_size r - pq_pos r then
           (case fcgi_grow c r all_len of
              None \<Rightarrow> Some (Some (-1, []), r)
            | Some r \<Rightarrow> Some (more, r))
         else Some (more, r)) })"

fun fcgi_body_loop ::
  "pconf \<Rightarrow> preq \<Rightarrow> nat \<Rightarrow> bool \<Rightarrow> io list \<Rightarrow> ((int \<times> bytes) \<times> preq \<times> io list) option" where
  "fcgi_body_loop c r len has_read [] =
     (case fcgi_pass c r len has_read of
        None \<Rightarrow> None
      | Some (Some res, r) \<Rightarrow> Some (res, r, [])
      | Some (None, r) \<Rightarrow> Some ((-2, []), r, []))"
| "fcgi_body_loop c r len has_read (ev # evs) =
     (case fcgi_pass c r len has_read of
        None \<Rightarrow> None
      | Some (Some res, r) \<Rightarrow> Some (res, r, ev # evs)
      | Some (None, r) \<Rightarrow>
          (case sys_read (pq_buf_size r - pq_pos r) ev of
             Again \<Rightarrow> Some ((-2, []), r, evs)
           | Broken \<Rightarrow> Some ((-1, []), r, evs)
           | Bytes bs \<Rightarrow>
               if bs = [] then Some ((0, []), r, evs)
               else case pq_buf r of None \<Rightarrow> None | Some m \<Rightarrow>
                 case mem_write m (pq_pos r) bs of None \<Rightarrow> None | Some m \<Rightarrow>
                   fcgi_body_loop c (r\<lparr>pq_buf := Some m, pq_pos := pq_pos r + length bs\<rparr>) len True evs))"

text \<open>The bytes left over by the header parser (\<^verbatim>\<open>proto_parser_remains\<close>) come first.\<close>

definition remains_area :: "preq \<Rightarrow> bytes option" where
  "remains_area r = (case pq_remains_at r of In_area _ \<Rightarrow> Some (pq_area r) | In_parser _ \<Rightarrow> pq_buf r)"

definition take_remains :: "preq \<Rightarrow> nat \<Rightarrow> (bytes \<times> preq) option" where
  "take_remains r len = do {
     let n = min (pq_remains r) len;
     m \<leftarrow> remains_area r;
     (case pq_remains_at r of
        In_area p \<Rightarrow> do {
          bs \<leftarrow> mem_read m p n;
          Some (bs, r\<lparr>pq_remains := pq_remains r - n, pq_remains_at := In_area (p + n)\<rparr>) }
      | In_parser p \<Rightarrow> do {
          bs \<leftarrow> mem_read m p n;
          Some (bs, r\<lparr>pq_remains := pq_remains r - n, pq_remains_at := In_parser (p + n)\<rparr>) }) }"

definition uwsgi_proto_fastcgi_read_body ::
  "pconf \<Rightarrow> preq \<Rightarrow> nat \<Rightarrow> io list \<Rightarrow> ((int \<times> bytes) \<times> preq \<times> io list) option" where
  "uwsgi_proto_fastcgi_read_body c r len evs =
     (if pq_remains r > 0 then do {
        (bs, r) \<leftarrow> take_remains r len;
        r \<leftarrow> (if pq_remains r = 0 \<and> pq_move r \<noteq> 0 then do {
                m \<leftarrow> pq_buf r;
                m \<leftarrow> mem_move m 0 (pq_move r) (pq_pos r);
                Some (r\<lparr>pq_buf := Some m, pq_move := 0\<rparr>) }
              else Some r);
        Some ((int (length bs), bs), r, evs) }
      else if pq_eof r then Some ((0, []), r, evs)
      else fcgi_body_loop c r len False evs)"

definition uwsgi_proto_base_read_body :: "preq \<Rightarrow> nat \<Rightarrow> io \<Rightarrow> (io \<times> preq) option" where
  "uwsgi_proto_base_read_body r len ev =
     (if pq_remains r > 0 then do { (bs, r) \<leftarrow> take_remains r len; Some (Bytes bs, r) }
      else Some (sys_read len ev, r))"

section \<open>Writing\<close>

text \<open>
  The plain write of a body: one \<^verbatim>\<open>write\<close> of what is left, with what it accepts.  The bytes
  handed to the peer are appended to the output.
\<close>

datatype wr = Accepts nat | Write_again | Write_broken

definition uwsgi_proto_base_write :: "preq \<Rightarrow> bytes \<Rightarrow> wr \<Rightarrow> (int \<times> bytes \<times> preq) option" where
  "uwsgi_proto_base_write r data ev =
     (let left = sz_sub (length data) (pq_write_pos r) in
      case ev of
        Accepts n \<Rightarrow>
          let n = min n left in
          if n = 0 then Some (-1, [], r)
          else do {
            out \<leftarrow> mem_read data (pq_write_pos r) n;
            let r = r\<lparr>pq_write_pos := pq_write_pos r + n\<rparr>;
            Some (if pq_write_pos r = length data then 0 else 1, out, r) }
      | Write_again \<Rightarrow> Some (1, [], r)
      | Write_broken \<Rightarrow> Some (-1, [], r))"

definition fcgi_stdout_header :: "byte \<times> byte \<Rightarrow> nat \<Rightarrow> bytes" where
  "fcgi_stdout_header sid n = [1, 6, snd sid, fst sid, byte_of (word_of_nat n :: u16) 1,
     byte_of (word_of_nat n :: u16) 0, 0, 0]"

text \<open>
  \<^verbatim>\<open>uwsgi_proto_fastcgi_write\<close>: at the start of a record its header is written as a whole
  (\<open>header_ok\<close> is the result of \<^verbatim>\<open>uwsgi_write_true_nb\<close>), then a part of its content.
\<close>

definition uwsgi_proto_fastcgi_write ::
  "preq \<Rightarrow> bytes \<Rightarrow> bool \<Rightarrow> wr \<Rightarrow> (int \<times> bytes \<times> preq) option" where
  "uwsgi_proto_fastcgi_write r data header_ok ev =
     (let n = min (sz_sub (length data) (pq_write_pos r)) 0xffff;
          start = pq_status r = 0;
          head = (if start then fcgi_stdout_header (pq_stream r) n else []);
          r = (if start then r\<lparr>pq_status := n\<rparr> else r) in
      if start \<and> \<not> header_ok then Some (-1, [], r)
      else case ev of
        Accepts k \<Rightarrow>
          let k = min k (pq_status r) in
          if k = 0 then Some (-1, head, r)
          else do {
            out \<leftarrow> mem_read data (pq_write_pos r) k;
            let r = r\<lparr>pq_write_pos := pq_write_pos r + k, pq_status := pq_status r - k\<rparr>;
            Some (if pq_write_pos r = length data then 0 else 1, head @ out, r) }
      | Write_again \<Rightarrow> Some (1, head, r)
      | Write_broken \<Rightarrow> Some (-1, head, r))"

text \<open>
  \<^verbatim>\<open>uwsgi_proto_base_writev\<close>.  The vector is the list of its stretches; after a partial write
  the ones consumed are removed from it and the first one left is shortened.
\<close>

fun iov_first :: "bytes list \<Rightarrow> nat \<Rightarrow> nat \<Rightarrow> nat \<Rightarrow> nat \<times> nat \<times> nat" where
  "iov_first [] wlen i new_len = (0, 0, new_len)"
| "iov_first (v # vs) wlen i new_len =
     (if length v \<le> wlen then iov_first vs (wlen - length v) (i + 1) (new_len - 1)
      else (i, wlen, new_len))"

fun iov_move :: "bytes list \<Rightarrow> nat \<Rightarrow> nat \<Rightarrow> bytes list" where
  "iov_move [] skip pos = []"
| "iov_move (v # vs) skip pos = (if pos = 0 then drop skip v else v) # iov_move vs skip (pos + 1)"

definition uwsgi_proto_base_writev :: "preq \<Rightarrow> bytes list \<Rightarrow> wr \<Rightarrow> int \<times> bytes \<times> bytes list \<times> preq" where
  "uwsgi_proto_base_writev r iov ev =
     (let needed = sum_list (map length iov) in
      case ev of
        Accepts n \<Rightarrow>
          let wlen = min n needed in
          if wlen = 0 then (-1, [], iov, r)
          else
            let r = r\<lparr>pq_write_pos := pq_write_pos r + wlen\<rparr> in
            if wlen = needed then (0, concat iov, iov, r)
            else let (first, skip, new_len) = iov_first iov wlen 0 (length iov) in
              (1, take wlen (concat iov), take new_len (iov_move (drop first iov) skip 0), r)
      | Write_again \<Rightarrow> (1, [], iov, r)
      | Write_broken \<Rightarrow> (-1, [], iov, r))"

text \<open>Sending a file: the bytes are those of the file, from \<open>pos\<close> on.\<close>

definition uwsgi_proto_base_sendfile :: "preq \<Rightarrow> bytes \<Rightarrow> nat \<Rightarrow> nat \<Rightarrow> wr \<Rightarrow> int \<times> bytes \<times> preq" where
  "uwsgi_proto_base_sendfile r file pos len ev =
     (case ev of
        Accepts n \<Rightarrow>
          let out = take (min n (sz_sub len (pq_write_pos r))) (drop (pos + pq_write_pos r) file) in
          if out = [] then (-1, [], r)
          else let r = r\<lparr>pq_write_pos := pq_write_pos r + length out\<rparr> in
            (if pq_write_pos r = len then 0 else 1, out, r)
      | Write_again \<Rightarrow> (1, [], r)
      | Write_broken \<Rightarrow> (-1, [], r))"

definition uwsgi_proto_fastcgi_sendfile ::
  "preq \<Rightarrow> bytes \<Rightarrow> nat \<Rightarrow> nat \<Rightarrow> bool \<Rightarrow> wr \<Rightarrow> int \<times> bytes \<times> preq" where
  "uwsgi_proto_fastcgi_sendfile r file pos len header_ok ev =
     (let n = min (sz_sub len (pq_write_pos r)) 0xffff;
          start = pq_status r = 0;
          head = (if start then fcgi_stdout_header (pq_stream r) n else []);
          r = (if start then r\<lparr>pq_status := n\<rparr> else r) in
      if start \<and> \<not> header_ok then (-1, [], r)
      else case ev of
        Accepts k \<Rightarrow>
          let out = take (min k (pq_status r)) (drop (pos + pq_write_pos r) file) in
          if out = [] then (-1, head, r)
          else let r = r\<lparr>pq_write_pos := pq_write_pos r + length out, pq_status := pq_status r - length out\<rparr> in
            (if pq_write_pos r = len then 0 else 1, head @ out, r)
      | Write_again \<Rightarrow> (1, head, r)
      | Write_broken \<Rightarrow> (-1, head, r))"

text \<open>The END_REQUEST record with the empty STDOUT record before it, for a request id.\<close>

definition fcgi_end_request :: "byte \<times> byte \<Rightarrow> bytes" where
  "fcgi_end_request sid =
     [1, 6, snd sid, fst sid, 0, 0, 0, 0, 1, 3, snd sid, fst sid, 0, 8, 0, 0, 0, 0, 0, 0, 0, 0, 0, 0]"

text \<open>
  \<^verbatim>\<open>uwsgi_proto_fastcgi_close\<close> drains the body first; a wait that fails or a broken read
  skips the last records.  \<open>waits\<close> are the results of the waits.
\<close>

fun fcgi_drain :: "pconf \<Rightarrow> preq \<Rightarrow> io list \<Rightarrow> int list \<Rightarrow> nat \<Rightarrow> bool option" where
  "fcgi_drain c r evs waits 0 = None"
| "fcgi_drain c r evs waits (Suc fuel) =
     (case uwsgi_proto_fastcgi_read_body c r 4096 evs of
        None \<Rightarrow> None
      | Some ((ret, _), r, evs) \<Rightarrow>
          if ret = -2 then
            (case waits of [] \<Rightarrow> Some False
             | w # ws \<Rightarrow> if w \<le> 0 then Some False else fcgi_drain c r evs ws fuel)
          else if ret < 0 then Some False
          else if ret = 0 then Some True
          else fcgi_drain c r evs waits fuel)"

definition uwsgi_proto_fastcgi_close :: "pconf \<Rightarrow> preq \<Rightarrow> io list \<Rightarrow> int list \<Rightarrow> nat \<Rightarrow> bytes option" where
  "uwsgi_proto_fastcgi_close c r evs waits fuel =
     (case (if pq_eof r then Some True else fcgi_drain c r evs waits fuel) of
        None \<Rightarrow> None
      | Some ok \<Rightarrow> Some (if ok then fcgi_end_request (pq_stream r) else []))"

section \<open>Response headers\<close>

definition uwsgi_proto_base_add_header :: "cenv \<Rightarrow> bytes \<Rightarrow> bytes \<Rightarrow> (ubuf option) option" where
  "uwsgi_proto_base_add_header e k v = do {
     (ub, ret) \<leftarrow> (if length k > 0
        then append_all e (uwsgi_buffer_new e (length k + 2 + length v + 2)) [k, str '': '', v, [13, 10]]
        else append_all e (uwsgi_buffer_new e (length v + 2)) [v, [13, 10]]);
     Some (if ret \<noteq> 0 then None else Some ub) }"

definition uwsgi_proto_base_cgi_prepare_headers :: "cenv \<Rightarrow> bytes \<Rightarrow> (ubuf option) option" where
  "uwsgi_proto_base_cgi_prepare_headers e s = do {
     (ub, ret) \<leftarrow> append_all e (uwsgi_buffer_new e (8 + length s + 2)) [str ''Status: '', s, [13, 10]];
     Some (if ret \<noteq> 0 then None else Some ub) }"

definition uwsgi_proto_base_prepare_headers :: "cenv \<Rightarrow> bool \<Rightarrow> bytes \<Rightarrow> bytes \<Rightarrow> (ubuf option) option" where
  "uwsgi_proto_base_prepare_headers e cgi_mode protocol s =
     (if cgi_mode then uwsgi_proto_base_cgi_prepare_headers e s
      else do {
        (ub, ret) \<leftarrow> (if protocol \<noteq> []
           then append_all e (uwsgi_buffer_new e (length protocol + 1 + length s + 2))
                  [protocol, [32], s, [13, 10]]
           else append_all e (uwsgi_buffer_new e (9 + length s + 2)) [str ''HTTP/1.0 '', s, [13, 10]]);
        Some (if ret \<noteq> 0 then None else Some ub) })"

definition uwsgi_proto_base_fix_headers :: "cenv \<Rightarrow> ubuf \<Rightarrow> (ubuf \<times> int) option" where
  "uwsgi_proto_base_fix_headers e headers = uwsgi_buffer_append e headers [13, 10]"


section \<open>The packet under construction\<close>

text \<open>\<open>packet c r s\<close>: the area has its full size and the packet built so far is \<open>s\<close>.\<close>

definition packet :: "pconf \<Rightarrow> preq \<Rightarrow> bytes \<Rightarrow> bool" where
  "packet c r s \<longleftrightarrow> length (pq_area r) = ps_buffer_size c + 4 \<and> ps_buffer_size c < 65536 \<and>
     pktsize_of r = Some (length s) \<and> length s \<le> ps_buffer_size c \<and>
     take (length s) (drop 4 (pq_area r)) = s"

lemma mem_write_bytes:
  assumes "mem_write m p s = Some m'"
  shows "take (length s) (drop p m') = s"
  using mem_read_write_same [OF assms] by (simp add: mem_read_Some_iff)

lemma put_pair_fits:
  assumes p: "packet c r s" and fit: "length s + length (enc_var (k, v)) < ps_buffer_size c"
  shows "\<exists>a. put_pair c r k v = Some (Some (r\<lparr>pq_area := a\<rparr>)) \<and> packet c (r\<lparr>pq_area := a\<rparr>) (s @ enc_var (k, v))"
proof -
  let ?w = "enc_var (k, v)"
  have w: "?w = le16 (length k) @ k @ le16 (length v) @ v" "length ?w = length k + length v + 4"
    by (simp_all add: enc_var_def)
  from p have A: "length (pq_area r) = ps_buffer_size c + 4" "ps_buffer_size c < 65536"
    "rd_le 2 (pq_area r) 1 = Some (length s)" "take (length s) (drop 4 (pq_area r)) = s"
    by (auto simp: packet_def)
  obtain a1 where a1: "mem_write (pq_area r) (4 + length s) ?w = Some a1"
    using A fit by (simp add: mem_write_def)
  have l1: "length a1 = ps_buffer_size c + 4" using mem_write_length [OF a1] A by simp
  have sz1: "rd_le 2 a1 1 = Some (length s)"
    using A(3) mem_read_write_other [OF a1, of 1 2] by (simp add: rd_le_def)
  obtain a2 where a2: "wr_le 2 a1 1 (length s + length ?w) = Some a2"
    using wr_le_total [of 1 2 a1] l1 by auto
  have l2: "length a2 = ps_buffer_size c + 4" using wr_le_length [OF a2] l1 by simp
  have sz2: "rd_le 2 a2 1 = Some (length s + length ?w)"
    using rd_wr_le_same [OF a2] A fit by simp
  have "mem_read a2 4 (length s) = mem_read a1 4 (length s)"
    by (rule mem_read_wr_le_other [OF a2]) simp
  also have "\<dots> = mem_read (pq_area r) 4 (length s)"
    by (rule mem_read_write_other [OF a1]) simp
  also have "\<dots> = Some s" using A fit by (simp add: mem_read_def)
  finally have pre: "take (length s) (drop 4 a2) = s" by (simp add: mem_read_Some_iff)
  have "mem_read a2 (4 + length s) (length ?w) = mem_read a1 (4 + length s) (length ?w)"
    by (rule mem_read_wr_le_other [OF a2]) simp
  also have "\<dots> = Some ?w" by (rule mem_read_write_same [OF a1])
  finally have new: "take (length ?w) (drop (length s) (drop 4 a2)) = ?w"
    by (simp add: mem_read_Some_iff add.commute)
  have bytes: "take (length (s @ ?w)) (drop 4 a2) = s @ ?w"
    using pre new by (simp add: take_add)
  have n: "length k + length v + 2 + 2 < 65536" using fit A w by simp
  have add: "proto_base_add_uwsgi_var c r k v = Some (length ?w, r\<lparr>pq_area := a1\<rparr>)"
    using A fit w a1 n by (simp add: proto_base_add_uwsgi_var_def)
  have "grow_packet (r\<lparr>pq_area := a1\<rparr>) (length ?w) = Some (r\<lparr>pq_area := a2\<rparr>)"
    using sz1 a2 by (simp add: grow_packet_def)
  with add w(2) have "put_pair c r k v = Some (Some (r\<lparr>pq_area := a2\<rparr>))"
    by (simp add: put_pair_def)
  moreover have "packet c (r\<lparr>pq_area := a2\<rparr>) (s @ ?w)"
    using l2 A sz2 bytes fit by (simp add: packet_def)
  ultimately show ?thesis by blast
qed

lemma put_pair_full:
  assumes "packet c r s" "length s + length (enc_var (k, v)) \<ge> ps_buffer_size c"
  shows "put_pair c r k v = Some None"
  using assms by (simp add: packet_def put_pair_def proto_base_add_uwsgi_var_def enc_var_def)

text \<open>A finished packet is read by the hooked parser as its pairs.\<close>

lemma packet_parses:
  assumes "packet c r (enc_vars kvs)" "\<forall>kv\<in>set kvs. var_ok kv"
  obtains n calls where "pktsize_of r = Some n" "uwsgi_hooked_parse (drop 4 (pq_area r)) n = Some (0, calls)"
    "map (var_at (drop 4 (pq_area r))) calls = kvs"
  using assms hooked_parse_accepts [of "length (enc_vars kvs)" "drop 4 (pq_area r)" kvs] that
  by (auto simp: packet_def)

section \<open>SCGI requests\<close>

definition enc_scgi :: "(bytes \<times> bytes) list \<Rightarrow> bytes" where
  "enc_scgi kvs = concat (map (\<lambda>(k, v). k @ 0 # v @ [0]) kvs)"

definition scgi_ok :: "bytes \<times> bytes \<Rightarrow> bool" where
  "scgi_ok kv \<longleftrightarrow> fst kv \<noteq> [] \<and> 0 \<notin> set (fst kv) \<and> 0 \<notin> set (snd kv)"

lemma mem_get_at: "mem_get (pre @ x # xs) (length pre) = Some x"
  by (simp add: mem_get_def)

lemma scgi_skip:
  assumes "0 \<notin> set xs" "val \<noteq> None \<or> keylen = 0" "length pre + length xs \<le> e"
  shows "scgi_loop c r (pre @ xs @ ys) (length pre) e (Some a) keylen val =
         scgi_loop c r (pre @ xs @ ys) (length pre + length xs) e (Some a) keylen val"
  using assms
proof (induction xs arbitrary: pre)
  case Nil
  then show ?case by simp
next
  case (Cons x xs)
  have "scgi_loop c r (pre @ (x # xs) @ ys) (length pre) e (Some a) keylen val =
        scgi_loop c r (pre @ (x # xs) @ ys) (length pre + 1) e (Some a) keylen val"
    using Cons.prems by (subst scgi_loop.simps) (auto simp: mem_get_def)
  with Cons.IH [of "pre @ [x]"] Cons.prems show ?case by simp
qed

lemma scgi_key:
  assumes "0 \<notin> set k" "k \<noteq> []" "length pre + length k < e" "key = None \<or> key = Some (length pre)"
  shows "scgi_loop c r (pre @ k @ 0 # ys) (length pre) e key 0 None =
         scgi_loop c r (pre @ k @ 0 # ys) (length pre + length k + 1) e (Some (length pre)) (length k) None"
proof -
  let ?m = "pre @ k @ 0 # ys"
  have "scgi_loop c r ?m (length pre) e key 0 None = scgi_loop c r ?m (length pre) e (Some (length pre)) 0 None"
    using assms(4) scgi_loop.simps [of c r ?m "length pre" e None 0 None]
      scgi_loop.simps [of c r ?m "length pre" e "Some (length pre)" 0 None] by auto
  also have "\<dots> = scgi_loop c r ?m (length pre + length k) e (Some (length pre)) 0 None"
    using assms by (intro scgi_skip) auto
  also have "\<dots> = scgi_loop c r ?m (length pre + length k + 1) e (Some (length pre)) (length k) None"
    using assms mem_get_at [of "pre @ k" 0 ys] by (subst scgi_loop.simps) auto
  finally show ?thesis .
qed

lemma scgi_value:
  assumes "0 \<notin> set v" "0 < keylen" "length pre + length v < e"
  shows "scgi_loop c r (pre @ v @ 0 # ys) (length pre) e (Some a) keylen None =
     (case put_pair c r (take (keylen mod 65536) (drop a (pre @ v @ 0 # ys)))
             (take (length v mod 65536) (v @ 0 # ys)) of
        None \<Rightarrow> None
      | Some None \<Rightarrow> Some (None, r)
      | Some (Some r) \<Rightarrow> scgi_loop c r (pre @ v @ 0 # ys) (length pre + length v + 1) e None 0 None)"
proof -
  let ?m = "pre @ v @ 0 # ys"
  have "scgi_loop c r ?m (length pre) e (Some a) keylen None =
        scgi_loop c r ?m (length pre) e (Some a) keylen (Some (length pre))"
    using assms scgi_loop.simps [of c r ?m "length pre" e "Some a" keylen None]
      scgi_loop.simps [of c r ?m "length pre" e "Some a" keylen "Some (length pre)"] by auto
  also have "\<dots> = scgi_loop c r ?m (length pre + length v) e (Some a) keylen (Some (length pre))"
    using assms by (intro scgi_skip) auto
  also have "\<dots> = (case put_pair c r (take (keylen mod 65536) (drop a ?m)) (take (length v mod 65536) (v @ 0 # ys)) of
        None \<Rightarrow> None
      | Some None \<Rightarrow> Some (None, r)
      | Some (Some r) \<Rightarrow> scgi_loop c r ?m (length pre + length v + 1) e None 0 None)"
    using assms mem_get_at [of "pre @ v" 0 ys] by (subst scgi_loop.simps) simp
  finally show ?thesis .
qed


lemma enc_scgi_simps [simp]: "enc_scgi [] = []" "enc_scgi ((k, v) # kvs) = k @ 0 # v @ 0 # enc_scgi kvs"
  by (simp_all add: enc_scgi_def)

lemma length_enc_var [simp]: "length (enc_var (k, v)) = length k + length v + 4"
  by (simp add: enc_var_def)

lemma scgi_pairs:
  assumes "\<forall>kv\<in>set kvs. scgi_ok kv" "packet c r s" "length s + length (enc_vars kvs) < ps_buffer_size c"
    and "key = None \<or> key = Some (length pre)"
  shows "\<exists>a. scgi_loop c r (pre @ enc_scgi kvs @ ys) (length pre) (length pre + length (enc_scgi kvs)) key 0 None =
              Some (Some (length pre + length (enc_scgi kvs)), r\<lparr>pq_area := a\<rparr>) \<and>
            packet c (r\<lparr>pq_area := a\<rparr>) (s @ enc_vars kvs)"
  using assms
proof (induction kvs arbitrary: pre r s key)
  case Nil
  have "r = r\<lparr>pq_area := pq_area r\<rparr>" by simp
  with Nil show ?case by (intro exI [of _ "pq_area r"]) (simp add: scgi_loop.simps)
next
  case (Cons kv kvs)
  obtain k v where kv: "kv = (k, v)" by (cases kv)
  have ok: "k \<noteq> []" "0 \<notin> set k" "0 \<notin> set v" using Cons.prems(1) kv by (auto simp: scgi_ok_def)
  have small: "length k < 65536" "length v < 65536"
    using Cons.prems(2,3) kv by (auto simp: packet_def)
  let ?m = "pre @ enc_scgi (kv # kvs) @ ys" and ?e = "length pre + length (enc_scgi (kv # kvs))"
  let ?pre1 = "pre @ k @ [0]" and ?pre2 = "pre @ k @ 0 # v @ [0]"
  have m: "?m = pre @ k @ 0 # v @ 0 # enc_scgi kvs @ ys" by (simp add: kv)
  have "scgi_loop c r ?m (length pre) ?e key 0 None =
        scgi_loop c r ?m (length ?pre1) ?e (Some (length pre)) (length k) None"
    using scgi_key [OF ok(2,1), of pre ?e key c r "v @ 0 # enc_scgi kvs @ ys"] Cons.prems(4) kv m by simp
  also have "\<dots> = (case put_pair c r k v of None \<Rightarrow> None | Some None \<Rightarrow> Some (None, r)
      | Some (Some r) \<Rightarrow> scgi_loop c r ?m (length ?pre2) ?e None 0 None)"
    using scgi_value [OF ok(3), of "length k" ?pre1 ?e c r "enc_scgi kvs @ ys" "length pre"] ok(1) small kv m
    by (simp add: add.assoc cong: option.case_cong)
  finally have step: "scgi_loop c r ?m (length pre) ?e key 0 None = \<dots>" .
  obtain a where a: "put_pair c r k v = Some (Some (r\<lparr>pq_area := a\<rparr>))"
    "packet c (r\<lparr>pq_area := a\<rparr>) (s @ enc_var (k, v))"
    using put_pair_fits [OF Cons.prems(2), of k v] Cons.prems(3) kv by auto
  have "\<exists>b. scgi_loop c (r\<lparr>pq_area := a\<rparr>) (?pre2 @ enc_scgi kvs @ ys) (length ?pre2)
        (length ?pre2 + length (enc_scgi kvs)) None 0 None =
        Some (Some (length ?pre2 + length (enc_scgi kvs)), r\<lparr>pq_area := a\<rparr>\<lparr>pq_area := b\<rparr>) \<and>
      packet c (r\<lparr>pq_area := a\<rparr>\<lparr>pq_area := b\<rparr>) ((s @ enc_var (k, v)) @ enc_vars kvs)"
    using Cons.prems(1,3) kv by (intro Cons.IH [OF _ a(2)]) auto
  with step a(1) m kv show ?case by (simp add: add.assoc)
qed

text \<open>A request: the length of the strings in decimal, a colon, the strings, a comma.\<close>

definition scgi_request :: "bytes \<Rightarrow> (bytes \<times> bytes) list \<Rightarrow> bytes" where
  "scgi_request ds kvs = ds @ 58 # enc_scgi kvs @ [44]"

definition decimal_of :: "nat \<Rightarrow> bytes \<Rightarrow> bool" where
  "decimal_of n ds \<longleftrightarrow> (\<forall>d\<in>set ds. is_digit d) \<and> length ds < 20 \<and> dec_nat ds = n"

text \<open>What the reads so far have left in the request.\<close>

definition scgi_read :: "pconf \<Rightarrow> preq \<Rightarrow> bytes \<Rightarrow> bool" where
  "scgi_read c r p \<longleftrightarrow>
     (case pq_buf r of
        None \<Rightarrow> p = [] \<and> pq_pos r = 0
      | Some m \<Rightarrow> length m = ps_buffer_size c \<and> pq_pos r = length p \<and> length p \<le> length m \<and>
          take (length p) m = p)"

lemma decimal_colon:
  assumes "decimal_of n ds"
  shows "58 \<notin> set ds" and "uwsgi_str_num ds = Some w \<Longrightarrow> unat w = n" and "uwsgi_str_num ds \<noteq> None"
proof -
  show "58 \<notin> set ds" using assms by (auto simp: decimal_of_def is_digit_def)
  have "map_option unat (uwsgi_str_num ds) = Some n"
    using assms uwsgi_str_num_decimal [of ds] by (simp add: decimal_of_def)
  then show "uwsgi_str_num ds = Some w \<Longrightarrow> unat w = n" "uwsgi_str_num ds \<noteq> None" by auto
qed

lemma memchr_first: "b \<notin> set xs \<Longrightarrow> memchr b (xs @ b # ys) = Some (length xs)" "b \<notin> set xs \<Longrightarrow> memchr b xs = None"
proof -
  assume b: "b \<notin> set xs"
  then have "takeWhile (\<lambda>c. c \<noteq> b) (xs @ b # ys) = xs"
    by (induction xs) auto
  then show "memchr b (xs @ b # ys) = Some (length xs)" by (simp add: memchr_def)
  show "memchr b xs = None" using b by (simp add: memchr_None)
qed

text \<open>The parser once the strings are there: what it does depends on the byte behind them.\<close>

lemma scgi_parse_body:
  assumes kvs: "\<forall>kv\<in>set kvs. scgi_ok kv" "kvs \<noteq> []" and ds: "decimal_of (length (enc_scgi kvs)) ds"
    and p: "packet c r []" "length (enc_vars kvs) < ps_buffer_size c"
    and buf: "pq_buf r = Some m" "length m = ps_buffer_size c" "pq_pos r \<le> length m"
    and m: "m = ds @ 58 # enc_scgi kvs @ ys" "pq_pos r \<ge> length ds + 1 + length (enc_scgi kvs)"
  shows "\<exists>a. packet c (r\<lparr>pq_area := a\<rparr>) (enc_vars kvs) \<and>
     scgi_parse c r =
       (case ys of [] \<Rightarrow> None
        | y # _ \<Rightarrow>
            if y = 44 then
              let j = length ds + 1 + length (enc_scgi kvs); r = r\<lparr>pq_area := a\<rparr> in
              Some (1, if pq_pos r > j + 1
                       then r\<lparr>pq_remains := pq_pos r - (j + 1), pq_remains_at := In_parser (j + 1)\<rparr> else r)
            else Some (-1, r\<lparr>pq_area := a\<rparr>))"
proof -
  let ?n = "length (enc_scgi kvs)" and ?pre = "ds @ [58]"
  have small: "length m < 65536" using p buf by (simp add: packet_def)
  obtain w where w: "uwsgi_str_num ds = Some w" "unat w = ?n"
    using decimal_colon [OF ds] by auto
  have n0: "?n \<noteq> 0" using kvs(2) by (cases kvs) auto
  have "take (pq_pos r) m = ds @ 58 # take (pq_pos r - (length ds + 1)) (enc_scgi kvs @ ys)"
    using m by (simp add: take_Cons')
  then have colon: "memchr 58 (take (pq_pos r) m) = Some (length ds)"
    using memchr_first(1) [OF decimal_colon(1) [OF ds]] by simp
  obtain a where a: "scgi_loop c r (?pre @ enc_scgi kvs @ ys) (length ?pre) (length ?pre + ?n) (Some (length ?pre)) 0 None =
      Some (Some (length ?pre + ?n), r\<lparr>pq_area := a\<rparr>)" "packet c (r\<lparr>pq_area := a\<rparr>) (enc_vars kvs)"
    using scgi_pairs [OF kvs(1) p(1), of "Some (length ?pre)" ?pre ys] p(2) by auto
  have szs: "sz_add (length ds) ?n = length ds + ?n" "sz_add (length ds + ?n) 1 = length ds + ?n + 1"
    "sz_add (length ds + 1) ?n = length ds + 1 + ?n"
    using m buf small by (simp_all add: sz_simps)
  have get: "mem_get m (length ds + 1 + ?n) = (case ys of [] \<Rightarrow> None | y # _ \<Rightarrow> Some y)"
    using m by (cases ys) (auto simp: mem_get_def nth_append)
  have loop: "scgi_loop c r m (length ds + 1) (length ds + 1 + ?n) (Some (length ds + 1)) 0 None =
      Some (Some (length ds + 1 + ?n), r\<lparr>pq_area := a\<rparr>)"
    using a(1) m by simp
  have "take (length ds) m = ds" using m by simp
  then have "scgi_parse c r = do {
      b \<leftarrow> mem_get m (length ds + 1 + ?n);
      (if b = 44
       then Some (1, if pq_pos r > length ds + 1 + ?n + 1
              then r\<lparr>pq_area := a, pq_remains := pq_pos r - (length ds + 1 + ?n + 1),
                     pq_remains_at := In_parser (length ds + 1 + ?n + 1)\<rparr>
              else r\<lparr>pq_area := a\<rparr>)
       else Some (-1, r\<lparr>pq_area := a\<rparr>)) }"
    using m(2) n0 w by (simp only: scgi_parse_def buf colon Let_def szs loop bind.bind_lunit prod.case option.case) simp
  with a(2) show ?thesis unfolding get by (intro exI [of _ a]) (cases ys; simp add: Let_def)
qed


section \<open>Feeding a parser\<close>

text \<open>
  The connection delivers its bytes in pieces; the event loop calls the parser again while it
  answers 1.  A parser that answers 1 on a class of unfinished inputs and remembers what it
  has seen behaves the same for every cut of the input: this is its interface.
\<close>

fun feed :: "('r \<Rightarrow> io \<Rightarrow> (int \<times> 'r) option) \<Rightarrow> 'r \<Rightarrow> bytes list \<Rightarrow> (int \<times> 'r \<times> bytes list) option" where
  "feed parse r [] = Some (1, r, [])"
| "feed parse r (d # ds) =
     (case parse r (Bytes d) of
        None \<Rightarrow> None
      | Some (ret, r) \<Rightarrow> if ret = 1 then feed parse r ds else Some (ret, r, ds))"

locale incremental =
  fixes parse :: "'r \<Rightarrow> io \<Rightarrow> (int \<times> 'r) option"
    and seen :: "'r \<Rightarrow> bytes \<Rightarrow> bool"
    and pending :: "bytes \<Rightarrow> bool"
  assumes step: "seen r p \<Longrightarrow> d \<noteq> [] \<Longrightarrow> pending (p @ d) \<Longrightarrow> \<exists>r'. parse r (Bytes d) = Some (1, r') \<and> seen r' (p @ d)"
    and pending_prefix: "pending (x @ y) \<Longrightarrow> pending x"
begin

lemma feed_pending:
  assumes "seen r p" "[] \<notin> set ds" "pending (p @ concat ds)"
  shows "\<exists>r'. seen r' (p @ concat ds) \<and> (\<forall>es. feed parse r (ds @ es) = feed parse r' es)"
  using assms
proof (induction ds arbitrary: r p)
  case Nil
  then show ?case by auto
next
  case (Cons d ds)
  have "pending (p @ d)" using Cons.prems(3) pending_prefix [of "p @ d" "concat ds"] by simp
  then obtain r1 where r1: "parse r (Bytes d) = Some (1, r1)" "seen r1 (p @ d)"
    using step [of r p d] Cons.prems by auto
  from Cons.IH [OF r1(2)] Cons.prems r1(1) show ?case by auto
qed

text \<open>The answer for the last piece is the answer for the whole.\<close>

lemma feed_last:
  assumes "seen r []" "[] \<notin> set ds" "pending (concat ds)"
    and "\<And>r'. seen r' (concat ds) \<Longrightarrow> \<exists>ret r''. ret \<noteq> 1 \<and> parse r' (Bytes d) = Some (ret, r'') \<and> P ret r''"
  shows "\<exists>ret r''. feed parse r (ds @ [d]) = Some (ret, r'', []) \<and> P ret r''"
proof -
  obtain r' where r': "seen r' (concat ds)" "\<forall>es. feed parse r (ds @ es) = feed parse r' es"
    using feed_pending [of r "[]" ds] assms(1-3) by auto
  from assms(4) [OF r'(1)] r'(2) show ?thesis by auto
qed

end

section \<open>The uwsgi parser and its pieces\<close>

text \<open>The header of a packet and the packet itself.\<close>

definition uwsgi_request :: "byte \<Rightarrow> byte \<Rightarrow> bytes \<Rightarrow> bytes" where
  "uwsgi_request m1 m2 payload = m1 # le16 (length payload) @ m2 # payload"

definition uwsgi_seen :: "pconf \<Rightarrow> preq \<Rightarrow> bytes \<Rightarrow> bool" where
  "uwsgi_seen c r p \<longleftrightarrow> length (pq_area r) = ps_buffer_size c + 4 \<and> ps_buffer_size c < 65536 \<and>
     pq_pos r = length p \<and> length p \<le> ps_buffer_size c + 4 \<and> take (length p) (pq_area r) = p"

text \<open>Unfinished input: the header is incomplete, or the payload it announces is.\<close>

definition uwsgi_pending :: "pconf \<Rightarrow> bytes \<Rightarrow> bool" where
  "uwsgi_pending c x \<longleftrightarrow> length x \<le> ps_buffer_size c + 4 \<and>
     (length x < 4 \<or> length x - 4 < le_nat (take 2 (drop 1 x)) \<and> le_nat (take 2 (drop 1 x)) \<le> ps_buffer_size c)"

lemma header_of_prefix: "4 \<le> n \<Longrightarrow> take 2 (drop 1 (take n x)) = take 2 (drop 1 x)"
  by (simp add: drop_take min_def)

lemma uwsgi_seen_write:
  assumes "uwsgi_seen c r p" "d \<noteq> []" "length (p @ d) \<le> ps_buffer_size c + 4"
  obtains a where "sys_read (sz_sub (ps_buffer_size c + 4) (pq_pos r)) (Bytes d) = Bytes d"
    "mem_write (pq_area r) (pq_pos r) d = Some a"
    "uwsgi_seen c (r\<lparr>pq_area := a, pq_pos := pq_pos r + length d\<rparr>) (p @ d)"
    "4 \<le> length (p @ d) \<Longrightarrow> rd_le 2 a 1 = Some (le_nat (take 2 (drop 1 (p @ d))))"
proof -
  from assms have r: "length (pq_area r) = ps_buffer_size c + 4" "ps_buffer_size c < 65536"
    "pq_pos r = length p" "take (length p) (pq_area r) = p" by (auto simp: uwsgi_seen_def)
  have "sz_sub (ps_buffer_size c + 4) (pq_pos r) = ps_buffer_size c + 4 - length p"
    using assms r by (simp add: sz_simps)
  then have read: "sys_read (sz_sub (ps_buffer_size c + 4) (pq_pos r)) (Bytes d) = Bytes d"
    using assms(3) by (simp add: sys_read_def)
  obtain a where a: "mem_write (pq_area r) (pq_pos r) d = Some a"
    using assms(3) r by (simp add: mem_write_def)
  have t: "take (length (p @ d)) a = p @ d" using mem_write_upto [OF a] r by simp
  have l: "length a = ps_buffer_size c + 4" using mem_write_length [OF a] r by simp
  have "rd_le 2 a 1 = Some (le_nat (take 2 (drop 1 (p @ d))))" if "4 \<le> length (p @ d)"
  proof -
    have "take 2 (drop 1 (take (length (p @ d)) a)) = take 2 (drop 1 a)"
      using that by (simp add: drop_take min_def)
    then show ?thesis using l rd_le2 [of 1 a] unfolding t by simp
  qed
  then show thesis using that [OF read a] r l t assms(3) by (simp add: uwsgi_seen_def)
qed

lemma uwsgi_pending_step:
  assumes "uwsgi_seen c r p" "d \<noteq> []" "uwsgi_pending c (p @ d)"
  shows "\<exists>r'. uwsgi_proto_uwsgi_parser c r (Bytes d) = Some (1, r') \<and> uwsgi_seen c r' (p @ d)"
proof -
  have len: "length (p @ d) \<le> ps_buffer_size c + 4" using assms(3) by (simp add: uwsgi_pending_def)
  obtain a where a: "sys_read (sz_sub (ps_buffer_size c + 4) (pq_pos r)) (Bytes d) = Bytes d"
    "mem_write (pq_area r) (pq_pos r) d = Some a"
    "uwsgi_seen c (r\<lparr>pq_area := a, pq_pos := pq_pos r + length d\<rparr>) (p @ d)"
    "4 \<le> length (p @ d) \<Longrightarrow> rd_le 2 a 1 = Some (le_nat (take 2 (drop 1 (p @ d))))"
    using uwsgi_seen_write [OF assms(1,2) len] by blast
  have pos: "pq_pos r + length d = length (p @ d)" using assms(1) by (simp add: uwsgi_seen_def)
  let ?n = "le_nat (take 2 (drop 1 (p @ d)))"
  have "uwsgi_proto_uwsgi_parser c r (Bytes d) = Some (1, r\<lparr>pq_area := a, pq_pos := pq_pos r + length d\<rparr>)"
  proof (cases "length (p @ d) < 4")
    case True
    then show ?thesis using a(1,2) assms(2) pos by (simp add: uwsgi_proto_uwsgi_parser_def)
  next
    case False
    moreover have "length (p @ d) - 4 < ?n" "?n \<le> ps_buffer_size c"
      using assms(3) False by (auto simp: uwsgi_pending_def)
    moreover have "rd_le 2 a 1 = Some ?n" using a(4) False by simp
    ultimately show ?thesis using a(1,2) assms(2)
      by (simp add: uwsgi_proto_uwsgi_parser_def pos del: length_append)
  qed
  with a(3) show ?thesis by blast
qed

lemma uwsgi_pending_prefix: "uwsgi_pending c (x @ y) \<Longrightarrow> uwsgi_pending c x"
  by (auto simp: uwsgi_pending_def not_less)

interpretation uwsgi_in: incremental "uwsgi_proto_uwsgi_parser c" "uwsgi_seen c" "uwsgi_pending c" for c
  using uwsgi_pending_step uwsgi_pending_prefix by unfold_locales

lemma uwsgi_last_piece:
  assumes "uwsgi_seen c r p" "d \<noteq> []" "length (p @ d) \<le> ps_buffer_size c + 4"
    and "p @ d = uwsgi_request m1 m2 payload @ rest" "length payload < 65536"
  shows "\<exists>r'. uwsgi_proto_uwsgi_parser c r (Bytes d) = Some (0, r') \<and>
     take (4 + length payload) (pq_area r') = uwsgi_request m1 m2 payload \<and>
     pktsize_of r' = Some (length payload) \<and> length (pq_area r') = ps_buffer_size c + 4 \<and>
     (rest \<noteq> [] \<longrightarrow> pq_remains r' = length rest \<and> pq_remains_at r' = In_area (4 + length payload) \<and>
        mem_read (pq_area r') (4 + length payload) (length rest) = Some rest)"
proof -
  obtain a where a: "sys_read (sz_sub (ps_buffer_size c + 4) (pq_pos r)) (Bytes d) = Bytes d"
    "mem_write (pq_area r) (pq_pos r) d = Some a"
    "uwsgi_seen c (r\<lparr>pq_area := a, pq_pos := pq_pos r + length d\<rparr>) (p @ d)"
    "4 \<le> length (p @ d) \<Longrightarrow> rd_le 2 a 1 = Some (le_nat (take 2 (drop 1 (p @ d))))"
    using uwsgi_seen_write [OF assms(1-3)] by blast
  have pos: "pq_pos r + length d = length (p @ d)" using assms(1) by (simp add: uwsgi_seen_def)
  let ?q = "uwsgi_request m1 m2 payload"
  have q: "length ?q = 4 + length payload" by (simp add: uwsgi_request_def)
  have len: "length (p @ d) = 4 + length payload + length rest" using assms(4) q by simp
  have n: "rd_le 2 a 1 = Some (length payload)"
    using a(4) len assms(4,5) by (simp add: uwsgi_request_def le_nat_le16)
  have l: "length a = ps_buffer_size c + 4" "take (length (p @ d)) a = p @ d"
    using a(3) by (auto simp: uwsgi_seen_def)
  then have t: "take (length (p @ d)) a = ?q @ rest" using assms(4) by simp
  have t1: "take (4 + length payload) a = ?q"
  proof -
    have "take (length ?q) (take (length (p @ d)) a) = ?q" unfolding t by simp
    then show ?thesis using q len by (simp add: min_def)
  qed
  have t2: "take (length rest) (drop (4 + length payload) a) = rest"
  proof -
    have "drop (length ?q) (take (length (p @ d)) a) = rest" unfolding t by simp
    then show ?thesis using q len by (simp add: drop_take)
  qed
  let ?r = "r\<lparr>pq_area := a, pq_pos := pq_pos r + length d\<rparr>"
  have "uwsgi_proto_uwsgi_parser c r (Bytes d) = Some (0, if rest = [] then ?r
     else ?r\<lparr>pq_remains := length rest, pq_remains_at := In_area (4 + length payload)\<rparr>)"
    using a(1,2) assms(2) n len by (simp add: uwsgi_proto_uwsgi_parser_def pos del: length_append)
  then show ?thesis using t1 t2 n l assms(3) len by (auto simp: mem_read_def)
qed


section \<open>The SCGI parser and its pieces\<close>

definition scgi_seen :: "pconf \<Rightarrow> preq \<Rightarrow> bytes \<Rightarrow> bool" where
  "scgi_seen c r p \<longleftrightarrow> packet c r [] \<and> scgi_read c r p"

text \<open>
  Unfinished input of the request with the length field \<open>ds\<close> and \<open>n\<close> bytes of strings: a part
  of the field, or at most \<open>n - 1\<close> of the strings.
\<close>

definition scgi_pending :: "pconf \<Rightarrow> bytes \<Rightarrow> nat \<Rightarrow> bytes \<Rightarrow> bool" where
  "scgi_pending c ds n x \<longleftrightarrow> decimal_of n ds \<and> 0 < n \<and> length x \<le> length ds + n \<and>
     length ds + n < ps_buffer_size c \<and> (\<exists>t. x = take (length x) (ds @ 58 # t))"

lemma scgi_read_write:
  assumes "scgi_read c r p" "packet c r []" "d \<noteq> []" "length (p @ d) \<le> ps_buffer_size c"
  obtains m r0 where "uwsgi_proto_scgi_parser c r (Bytes d) = do {
        (ret, r) \<leftarrow> scgi_parse c r0;
        (if ret > 0 then do { r \<leftarrow> set_modifiers c r; Some (0, r) }
         else if ret = 0 then Some (1, r) else Some (-1, r)) }"
    "pq_buf r0 = Some m" "scgi_read c r0 (p @ d)" "packet c r0 []"
    "case pq_buf r of None \<Rightarrow> True | Some m0 \<Rightarrow> drop (length (p @ d)) m = drop (length (p @ d)) m0"
proof -
  obtain m0 where m0: "m0 = (case pq_buf r of None \<Rightarrow> replicate (ps_buffer_size c) (junk (ps_env c)) | Some m \<Rightarrow> m)"
    by simp
  let ?r = "r\<lparr>pq_buf := Some m0\<rparr>"
  have r: "(case pq_buf r of
                 None \<Rightarrow> r\<lparr>pq_buf := Some (replicate (ps_buffer_size c) (junk (ps_env c)))\<rparr>
               | Some _ \<Rightarrow> r) = ?r"
    by (cases r) (auto simp: m0 split: option.splits)
  have m0': "length m0 = ps_buffer_size c" "pq_pos r = length p" "take (length p) m0 = p"
    using assms(1) m0 by (auto simp: scgi_read_def split: option.splits)
  have bs: "ps_buffer_size c < 65536" using assms(2) by (simp add: packet_def)
  have pos: "0 < length d" using assms(3) by simp
  then have gt: "length p < ps_buffer_size c" using assms(4) unfolding length_append by linarith
  have room: "sz_sub (ps_buffer_size c) (length p) = ps_buffer_size c - length p"
    using assms(4) bs by (simp add: sz_simps)
  obtain m where m: "mem_write m0 (length p) d = Some m" using m0' assms(4) by (simp add: mem_write_def)
  let ?r0 = "?r\<lparr>pq_buf := Some m, pq_pos := pq_pos r + length d\<rparr>"
  have run: "uwsgi_proto_scgi_parser c r (Bytes d) = do {
        (ret, r) \<leftarrow> scgi_parse c ?r0;
        (if ret > 0 then do { r \<leftarrow> set_modifiers c r; Some (0, r) }
         else if ret = 0 then Some (1, r) else Some (-1, r)) }"
    unfolding uwsgi_proto_scgi_parser_def r using m0' assms(3,4) room m pos gt
    by (simp add: sys_read_def Let_def)
  have "take (length (p @ d)) m = p @ d" using mem_write_upto [OF m] m0' by simp
  then have "scgi_read c ?r0 (p @ d)"
    using mem_write_length [OF m] m0' assms(4) by (simp add: scgi_read_def)
  moreover have "packet c ?r0 []" using assms(2) by (simp add: packet_def)
  moreover have "drop (length (p @ d)) m = drop (length (p @ d)) m0"
    using m by (auto simp: mem_write_Some_iff)
  ultimately show thesis using that [OF run, of m] m0 by (auto split: option.splits)
qed

lemma scgi_parse_pending:
  assumes "scgi_read c r x" "pq_buf r = Some m" "scgi_pending c ds n x" "packet c r []"
  shows "scgi_parse c r = Some (0, r)"
proof -
  have m: "pq_pos r = length x" "take (length x) m = x"
    using assms(1,2) by (auto simp: scgi_read_def)
  from assms(3) obtain t where t: "x = take (length x) (ds @ 58 # t)" and ds: "decimal_of n ds"
    and le: "length x \<le> length ds + n" "0 < n" "length ds + n < ps_buffer_size c" by (auto simp: scgi_pending_def)
  show ?thesis
  proof (cases "length x \<le> length ds")
    case True
    then have "x = take (length x) ds" using t by simp
    then have "58 \<in> set x \<Longrightarrow> 58 \<in> set (take (length x) ds)" by argo
    then have "58 \<notin> set x" using decimal_colon(1) [OF ds] in_set_takeD by fast
    then show ?thesis using m memchr_first(2) by (simp add: scgi_parse_def assms(2))
  next
    case False
    then obtain u where x: "x = ds @ 58 # u" using t by (cases "length x - length ds") auto
    obtain w where w: "uwsgi_str_num ds = Some w" "unat w = n" using decimal_colon [OF ds] by auto
    have "take (length ds) m = ds" using m(2) x by (metis append_take_drop_id append_eq_append_conv_if length_append le_add1 append_eq_conv_conj append_assoc)
    moreover have "sz_add (sz_add (length ds) n) 1 = length ds + n + 1"
      using le assms(4) by (simp add: packet_def sz_simps)
    moreover have "memchr 58 x = Some (length ds)" using x memchr_first(1) [OF decimal_colon(1) [OF ds]] by simp
    ultimately show ?thesis using m w le by (simp add: scgi_parse_def assms(2))
  qed
qed

lemma scgi_pending_step:
  assumes "scgi_seen c r p" "d \<noteq> []" "scgi_pending c ds n (p @ d)"
  shows "\<exists>r'. uwsgi_proto_scgi_parser c r (Bytes d) = Some (1, r') \<and> scgi_seen c r' (p @ d)"
proof -
  have len: "length (p @ d) \<le> ps_buffer_size c" using assms(3) by (auto simp: scgi_pending_def)
  have sr: "scgi_read c r p" "packet c r []" using assms(1) by (auto simp: scgi_seen_def)
  obtain m r0 where r0: "uwsgi_proto_scgi_parser c r (Bytes d) = do {
        (ret, r) \<leftarrow> scgi_parse c r0;
        (if ret > 0 then do { r \<leftarrow> set_modifiers c r; Some (0, r) }
         else if ret = 0 then Some (1, r) else Some (-1, r)) }"
    "pq_buf r0 = Some m" "scgi_read c r0 (p @ d)" "packet c r0 []"
    using scgi_read_write [OF sr assms(2) len] by blast
  from scgi_parse_pending [OF r0(3,2) assms(3) r0(4)] r0 show ?thesis by (simp add: scgi_seen_def)
qed

lemma scgi_pending_prefix: "scgi_pending c ds n (x @ y) \<Longrightarrow> scgi_pending c ds n x"
proof -
  assume a: "scgi_pending c ds n (x @ y)"
  then obtain t where "x @ y = take (length (x @ y)) (ds @ 58 # t)" by (auto simp: scgi_pending_def)
  then have "x = take (length x) (take (length (x @ y)) (ds @ 58 # t))" by (metis append_eq_conv_conj)
  then have "x = take (length x) (ds @ 58 # t)" by (simp add: min_def split: if_splits)
  with a show ?thesis by (auto simp: scgi_pending_def)
qed

interpretation scgi_in: incremental "uwsgi_proto_scgi_parser c" "scgi_seen c" "scgi_pending c ds n" for c ds n
  using scgi_pending_step scgi_pending_prefix by unfold_locales


lemma set_modifiers_packet:
  assumes "packet c r s"
  shows "\<exists>a. set_modifiers c r = Some (r\<lparr>pq_area := a\<rparr>) \<and> packet c (r\<lparr>pq_area := a\<rparr>) s"
proof -
  from assms have A: "length (pq_area r) = ps_buffer_size c + 4" "rd_le 2 (pq_area r) 1 = Some (length s)"
    "length s \<le> ps_buffer_size c" "take (length s) (drop 4 (pq_area r)) = s" by (auto simp: packet_def)
  obtain a1 where a1: "mem_write (pq_area r) 0 [fst (ps_modifiers c)] = Some a1" using A by (simp add: mem_write_def)
  obtain a2 where a2: "mem_write a1 3 [snd (ps_modifiers c)] = Some a2"
    using A mem_write_length [OF a1] by (simp add: mem_write_def)
  have l: "length a2 = ps_buffer_size c + 4" using A mem_write_length [OF a1] mem_write_length [OF a2] by simp
  have keep: "mem_read a2 q k = mem_read (pq_area r) q k" if "1 \<le> q" "q + k \<le> 3 \<or> 4 \<le> q" for q k
    using that mem_read_write_other [OF a1, of q k] mem_read_write_other [OF a2, of q k] by auto
  have "rd_le 2 a2 1 = Some (length s)" using A(2) keep [of 1 2] by (simp add: rd_le_def)
  moreover have "mem_read a2 4 (length s) = Some s" using keep [of 4 "length s"] A by (simp add: mem_read_def)
  ultimately have "packet c (r\<lparr>pq_area := a2\<rparr>) s"
    using assms l by (simp add: packet_def mem_read_Some_iff)
  with a1 a2 show ?thesis by (auto simp: set_modifiers_def)
qed

lemma scgi_last_piece:
  assumes "scgi_seen c r p" "d \<noteq> []" "length (p @ d) \<le> ps_buffer_size c" "p @ d = scgi_request ds kvs @ rest"
    and kvs: "\<forall>kv\<in>set kvs. scgi_ok kv" "kvs \<noteq> []" and ds: "decimal_of (length (enc_scgi kvs)) ds"
    and room: "length (enc_vars kvs) < ps_buffer_size c"
  shows "\<exists>r' m j. uwsgi_proto_scgi_parser c r (Bytes d) = Some (0, r') \<and> packet c r' (enc_vars kvs) \<and>
     (rest \<noteq> [] \<longrightarrow> pq_remains r' = length rest \<and> pq_remains_at r' = In_parser j \<and> pq_buf r' = Some m \<and>
        mem_read m j (length rest) = Some rest)"
proof -
  have sr: "scgi_read c r p" "packet c r []" using assms(1) by (auto simp: scgi_seen_def)
  obtain m r0 where r0: "uwsgi_proto_scgi_parser c r (Bytes d) = do {
        (ret, r) \<leftarrow> scgi_parse c r0;
        (if ret > 0 then do { r \<leftarrow> set_modifiers c r; Some (0, r) }
         else if ret = 0 then Some (1, r) else Some (-1, r)) }"
    "pq_buf r0 = Some m" "scgi_read c r0 (p @ d)" "packet c r0 []"
    using scgi_read_write [OF sr assms(2,3)] by blast
  let ?n = "length (enc_scgi kvs)" let ?j = "length ds + 1 + ?n"
  have m: "pq_pos r0 = ?j + 1 + length rest" "length m = ps_buffer_size c" "pq_pos r0 \<le> length m"
    "take (pq_pos r0) m = ds @ 58 # enc_scgi kvs @ 44 # rest"
    using r0(2,3) assms(4) by (auto simp: scgi_read_def scgi_request_def)
  then have mm: "m = ds @ 58 # enc_scgi kvs @ 44 # rest @ drop (pq_pos r0) m"
    by (metis append_Cons append_assoc append_take_drop_id)
  obtain a where a: "packet c (r0\<lparr>pq_area := a\<rparr>) (enc_vars kvs)"
    "scgi_parse c r0 = Some (1, if pq_pos r0 > ?j + 1
       then r0\<lparr>pq_area := a, pq_remains := pq_pos r0 - (?j + 1), pq_remains_at := In_parser (?j + 1)\<rparr>
       else r0\<lparr>pq_area := a\<rparr>)"
    using scgi_parse_body [OF kvs ds r0(4) room r0(2) m(2,3) mm] m(1) by (auto simp: Let_def)
  let ?r1 = "if pq_pos r0 > ?j + 1
       then r0\<lparr>pq_area := a, pq_remains := pq_pos r0 - (?j + 1), pq_remains_at := In_parser (?j + 1)\<rparr>
       else r0\<lparr>pq_area := a\<rparr>"
  have "packet c ?r1 (enc_vars kvs)" using a(1) by (simp add: packet_def)
  from set_modifiers_packet [OF this] obtain b where b: "set_modifiers c ?r1 = Some (?r1\<lparr>pq_area := b\<rparr>)"
    "packet c (?r1\<lparr>pq_area := b\<rparr>) (enc_vars kvs)" by blast
  have run: "uwsgi_proto_scgi_parser c r (Bytes d) = Some (0, ?r1\<lparr>pq_area := b\<rparr>)"
    unfolding r0(1) a(2) using b(1) by simp
  have "drop (?j + 1) (ds @ 58 # enc_scgi kvs @ 44 # rest @ drop (pq_pos r0) m) = rest @ drop (pq_pos r0) m" by simp
  then have "take (length rest) (drop (?j + 1) m) = rest"
    using mm by (metis append_eq_conv_conj)
  then have "mem_read m (?j + 1) (length rest) = Some rest" using m by (simp add: mem_read_def)
  with run b(2) r0(2) m(1) show ?thesis
    by (intro exI [of _ "?r1\<lparr>pq_area := b\<rparr>"] exI [of _ m] exI [of _ "?j + 1"]) auto
qed


section \<open>FastCGI parameters\<close>

definition fcgi_len :: "nat \<Rightarrow> bytes" where
  "fcgi_len n = (if n < 128 then [word_of_nat n] else be_bytes 4 (word_of_nat (n + 2147483648) :: u32))"

definition enc_fcgi :: "(bytes \<times> bytes) list \<Rightarrow> bytes" where
  "enc_fcgi kvs = concat (map (\<lambda>(k, v). fcgi_len (length k) @ fcgi_len (length v) @ k @ v) kvs)"

lemma enc_fcgi_simps [simp]:
  "enc_fcgi [] = []"
  "enc_fcgi ((k, v) # kvs) = fcgi_len (length k) @ fcgi_len (length v) @ k @ v @ enc_fcgi kvs"
  by (simp_all add: enc_fcgi_def)

lemma be32_value: "p + 4 \<le> length m \<Longrightarrow> uwsgi_be32 m p = Some (be_nat (take 4 (drop p m)))"
proof -
  assume le: "p + 4 \<le> length m"
  let ?bs = "take 4 (drop p m)"
  have n: "length ?bs = 4" using le by simp
  have four: "length xs = 4 \<Longrightarrow> \<exists>a b c d. xs = [a, b, c, d]" for xs :: bytes
    by (auto simp: eval_nat_numeral length_Suc_conv)
  obtain a b c d where ab: "?bs = [a, b, c, d]" using four [OF n] by blast
  have "byte_of (word_of_nat (le_nat ?bs) :: u32) k = ?bs ! k" if "k < 4" for k
    using byte_of_le_nat [of k ?bs, where 'a = 32] n that by simp
  from this [of 0] this [of 1] this [of 2] this [of 3] le show ?thesis
    by (simp add: uwsgi_be32_def rd_le_def mem_read_def ab be_nat_def)
qed

lemma top_bit_xor:
  assumes "n < 2147483648"
  shows "unat ((word_of_nat (n + 2147483648) :: u32) XOR 0x80000000) = n"
proof -
  obtain t :: nat where t: "t = 2147483648" "t = 2 ^ 31" by simp
  have disj: "n AND t = 0"
  proof (rule bit_eqI)
    fix k
    have "bit t k \<longleftrightarrow> k = 31" unfolding t(2) by (auto simp only: bit_exp_iff possible_bit_def) simp
    moreover have "\<not> bit n 31" using assms by (simp add: bit_iff_odd)
    ultimately show "bit (n AND t) k = bit 0 k" by (auto simp: bit_and_iff)
  qed
  have "unat ((word_of_nat (n + 2147483648) :: u32) XOR 0x80000000) = (n + t) XOR t"
    unfolding unsigned_xor_eq unat_of_nat using assms t(1) by simp
  also have "\<dots> = (n XOR t) XOR t" by (simp only: disjunctive_add_eq_xor [OF disj])
  also have "\<dots> = n" by (simp only: xor.assoc xor_self_eq xor.right_neutral)
  finally show ?thesis .
qed

lemma fcgi_length_read:
  assumes "m = pre @ fcgi_len n @ ys" "length pre = base + j" "n < 65536"
    and "j + length (fcgi_len n) < len"
  shows "fcgi_length m base len j = Some (Some (n, j + length (fcgi_len n)))"
proof (cases "n < 128")
  case True
  then have "mem_get m (base + j) = Some (word_of_nat n)" "unat (word_of_nat n :: byte) = n"
    using assms(1,2) by (simp_all add: fcgi_len_def mem_get_def unat_of_nat flip: assms(2))
  moreover from this have "\<not> (word_of_nat n :: byte) > 127" using True by (simp add: word_less_nat_alt)
  ultimately show ?thesis using True assms(4) by (simp add: fcgi_length_def fcgi_len_def)
next
  case False
  obtain w :: u32 where w_def: "w = word_of_nat (n + 2147483648)" by simp
  have w: "unat w = n + 2147483648" unfolding w_def unat_of_nat using assms(3) by simp
  have xor: "unat (w XOR 0x80000000) = n" unfolding w_def using assms(3) by (intro top_bit_xor) simp
  have fl: "fcgi_len n = be_bytes 4 w" using False by (simp add: fcgi_len_def w_def)
  have "[0..<4] = [0..<3] @ [3 :: nat]" by code_simp
  then have hd: "be_bytes 4 w = byte_of w 3 # rev (le_bytes 3 w)"
    by (simp add: be_bytes_def le_bytes_def)
  have "unat (byte_of w 3) = unat w div 256 ^ 3 mod 256" by (rule unat_byte_of)
  also have "\<dots> = (n + 2147483648) div 16777216 mod 256" by (simp only: w) simp
  also have "\<dots> = 128" using assms(3) by simp
  finally have "byte_of w 3 > 127" by (simp add: word_less_nat_alt)
  moreover have "mem_get m (base + j) = Some (byte_of w 3)"
    using assms(1) fl hd by (simp add: mem_get_def flip: assms(2))
  moreover have "uwsgi_be32 m (base + j) = Some (unat w)"
  proof -
    have "uwsgi_be32 m (base + j) = Some (be_nat (take 4 (drop (base + j) m)))"
      using assms(1) fl by (intro be32_value) (simp flip: assms(2))
    moreover have "take 4 (drop (base + j) m) = be_bytes 4 w" using assms(1) fl by (simp flip: assms(2))
    ultimately show ?thesis using w assms(3) by (simp add: be_nat_be_bytes)
  qed
  ultimately show ?thesis using fl assms(4) xor
    by (simp add: fcgi_length_def)
qed

lemma length_fcgi_len: "1 \<le> length (fcgi_len n)"
  by (simp add: fcgi_len_def)

text \<open>
  Whole pairs are added to the packet; the loop goes on behind them, with the end of the record
  or with the start of another pair.
\<close>

lemma fcgi_pairs_go_on:
  assumes "\<forall>kv\<in>set kvs. var_ok kv" "packet c r s" "length s + length (enc_vars kvs) < ps_buffer_size c"
    and "m = pre @ enc_fcgi kvs @ ys" "length pre = base + j" "j + length (enc_fcgi kvs) \<le> len"
  shows "\<exists>a. fastcgi_to_uwsgi c r m base len j =
               fastcgi_to_uwsgi c (r\<lparr>pq_area := a\<rparr>) m base len (j + length (enc_fcgi kvs)) \<and>
             packet c (r\<lparr>pq_area := a\<rparr>) (s @ enc_vars kvs)"
  using assms
proof (induction kvs arbitrary: pre r s j)
  case Nil
  have "r = r\<lparr>pq_area := pq_area r\<rparr>" by simp
  with Nil show ?case by (intro exI [of _ "pq_area r"]) simp
next
  case (Cons kv kvs)
  obtain k v where kv: "kv = (k, v)" by (cases kv)
  have ok: "k \<noteq> []" "length k < 65536" "length v < 65536" using Cons.prems(1) kv by (auto simp: var_ok_def)
  then have k0: "0 < length k" by simp
  let ?K = "fcgi_len (length k)" and ?V = "fcgi_len (length v)"
  let ?j1 = "j + length ?K" let ?j2 = "?j1 + length ?V"
  have m: "m = pre @ ?K @ ?V @ k @ v @ enc_fcgi kvs @ ys" using Cons.prems(4) kv by simp
  have len: "?j2 + length k + length v + length (enc_fcgi kvs) \<le> len" using Cons.prems(6) kv by simp
  have kl: "fcgi_length m base len j = Some (Some (length k, ?j1))"
    using fcgi_length_read [OF m Cons.prems(5) ok(2), of len] len k0 by simp
  have vl: "fcgi_length m base len ?j1 = Some (Some (length v, ?j2))"
    using fcgi_length_read [of m "pre @ ?K" "length v" "k @ v @ enc_fcgi kvs @ ys" base ?j1 len] m Cons.prems(5) ok(3) len k0 by simp
  have at: "base + ?j2 = length (pre @ ?K @ ?V)" using Cons.prems(5) by simp
  have key: "mem_read m (base + ?j2) (length k) = Some k"
    unfolding at by (simp add: mem_read_def m)
  have val: "mem_read m (base + ?j2 + length k) (length v) = Some v"
    unfolding at by (simp add: mem_read_def m)
  obtain a where a: "put_pair c r k v = Some (Some (r\<lparr>pq_area := a\<rparr>))"
    "packet c (r\<lparr>pq_area := a\<rparr>) (s @ enc_var (k, v))"
    using put_pair_fits [OF Cons.prems(2), of k v] Cons.prems(3) kv by auto
  obtain n where n: "length k + length v = Suc n" using k0 by (cases "length k + length v") auto
  have both: "Suc n mod 4294967296 = Suc n" "(Suc n + 4294967295) mod 4294967296 + 1 = Suc n"
    using ok n by simp_all
  have j: "\<not> len \<le> j" "\<not> ?j2 + Suc n > len" using len k0 n by linarith+
  have "fastcgi_to_uwsgi c r m base len j =
      fastcgi_to_uwsgi c (r\<lparr>pq_area := a\<rparr>) m base len (?j2 + ((Suc n + 4294967295) mod 4294967296 + 1))"
    using kl vl key val a(1) ok
    by (subst fastcgi_to_uwsgi.simps) (simp add: Let_def n both(1) j del: add_Suc_right cong: if_cong, simp only: add.assoc)
  then have step: "fastcgi_to_uwsgi c r m base len j =
      fastcgi_to_uwsgi c (r\<lparr>pq_area := a\<rparr>) m base len (?j2 + (length k + length v))"
    unfolding both(2) n .
  have "\<exists>b. fastcgi_to_uwsgi c (r\<lparr>pq_area := a\<rparr>) m base len (?j2 + (length k + length v)) =
        fastcgi_to_uwsgi c (r\<lparr>pq_area := a\<rparr>\<lparr>pq_area := b\<rparr>) m base len
          (?j2 + (length k + length v) + length (enc_fcgi kvs)) \<and>
      packet c (r\<lparr>pq_area := a\<rparr>\<lparr>pq_area := b\<rparr>) ((s @ enc_var (k, v)) @ enc_vars kvs)"
    using Cons.prems kv m len
    by (intro Cons.IH [of _ _ "pre @ ?K @ ?V @ k @ v", OF _ a(2)]) auto
  moreover have "?j2 + (length k + length v) + length (enc_fcgi kvs) = j + length (enc_fcgi (kv # kvs))"
    using kv by simp
  ultimately show ?case unfolding step using kv by simp
qed

lemma fcgi_pairs:
  assumes "\<forall>kv\<in>set kvs. var_ok kv" "packet c r s" "length s + length (enc_vars kvs) < ps_buffer_size c"
    and "m = pre @ enc_fcgi kvs @ ys" "length pre = base + j" "len = j + length (enc_fcgi kvs)"
  shows "\<exists>a. fastcgi_to_uwsgi c r m base len j = Some (0, r\<lparr>pq_area := a\<rparr>) \<and>
             packet c (r\<lparr>pq_area := a\<rparr>) (s @ enc_vars kvs)"
proof -
  have "fastcgi_to_uwsgi c r' m base len len = Some (0, r')" for r' by (simp add: fastcgi_to_uwsgi.simps)
  with fcgi_pairs_go_on [OF assms(1-5), of len] assms(6) show ?thesis by auto
qed

text \<open>A length of which the record does not hold all bytes and one more is refused.\<close>

lemma fcgi_length_cut:
  assumes "m = pre @ take i (fcgi_len n) @ ys" "length pre = base + j" "n < 65536" "0 < i"
    and "len = j + i" "i \<le> length (fcgi_len n)"
  shows "fcgi_length m base len j = Some None"
proof (cases "n < 128")
  case True
  then have i: "i = 1" using assms(4,6) by (simp add: fcgi_len_def)
  then have "mem_get m (base + j) = Some (word_of_nat n)" "unat (word_of_nat n :: byte) = n"
    using True assms(1,2) by (simp_all add: fcgi_len_def mem_get_def unat_of_nat flip: assms(2))
  moreover from this have "\<not> (word_of_nat n :: byte) > 127" using True by (simp add: word_less_nat_alt)
  ultimately show ?thesis using i assms(5) by (simp add: fcgi_length_def)
next
  case False
  have four: "length (fcgi_len n) = 4" using False by (simp add: fcgi_len_def)
  have lt: "base + j < length m" using assms(1,2,4,6) by simp
  have "fcgi_length (pre @ fcgi_len n @ [0]) base (j + 5) j = Some (Some (n, j + 4))"
    using fcgi_length_read [OF refl assms(2,3), where ys = "[0]" and len = "j + 5"] four by simp
  then have top: "fcgi_len n ! 0 > 127"
    using four assms(2) by (auto simp: fcgi_length_def mem_get_def nth_append split: if_splits bind_splits)
  have "mem_get m (base + j) = Some (fcgi_len n ! 0)"
    using assms(1,2,4,6) four lt by (simp add: mem_get_def nth_append flip: assms(2))
  with top show ?thesis using assms(5,6) four by (simp add: fcgi_length_def)
qed

text \<open>A record that ends inside a pair is refused at that pair.\<close>

lemma fcgi_cut_pair:
  assumes "k \<noteq> []" "length k < 65536" "length v < 65536"
    and "m = pre @ take i (fcgi_len (length k) @ fcgi_len (length v) @ k @ v) @ ys" "length pre = base + j"
    and "0 < i" "i < length (fcgi_len (length k) @ fcgi_len (length v) @ k @ v)" "len = j + i"
  shows "fastcgi_to_uwsgi c r m base len j = Some (-1, r)"
proof -
  let ?K = "fcgi_len (length k)" and ?V = "fcgi_len (length v)"
  have k0: "0 < length k" and j: "j < len" using assms(1,6,8) by simp_all
  consider (key) "i \<le> length ?K" | (val) "length ?K < i" "i \<le> length ?K + length ?V" | (inside) "length ?K + length ?V < i"
    by linarith
  then show ?thesis
  proof cases
    case key
    then have "fcgi_length m base len j = Some None"
      using fcgi_length_cut [of m pre i "length k" ys base j len] assms by simp
    with j show ?thesis by (subst fastcgi_to_uwsgi.simps) simp
  next
    case val
    have kl: "fcgi_length m base len j = Some (Some (length k, j + length ?K))"
      using fcgi_length_read [of m pre "length k" "take (i - length ?K) ?V @ ys" base j len] assms val by simp
    have "fcgi_length m base len (j + length ?K) = Some None"
      using fcgi_length_cut [of m "pre @ ?K" "i - length ?K" "length v" ys base "j + length ?K" len] assms val by simp
    with j kl show ?thesis by (subst fastcgi_to_uwsgi.simps) simp
  next
    case inside
    let ?t = "take (i - length ?K - length ?V) (k @ v)"
    have m: "m = pre @ ?K @ ?V @ ?t @ ys" using assms(4) inside by simp
    have kl: "fcgi_length m base len j = Some (Some (length k, j + length ?K))"
      using fcgi_length_read [OF m assms(5,2), of len] assms(8) inside by simp
    have vl: "fcgi_length m base len (j + length ?K) = Some (Some (length v, j + length ?K + length ?V))"
      using fcgi_length_read [of m "pre @ ?K" "length v" "?t @ ys" base "j + length ?K" len] m assms(3,5,8) inside by simp
    have "(length k + length v) mod 4294967296 = length k + length v" using assms(2,3) by simp
    then show ?thesis using j kl vl assms(7,8) by (subst fastcgi_to_uwsgi.simps) (simp add: Let_def)
  qed
qed


section \<open>FastCGI records and the pieces of a stream\<close>

text \<open>A record before the body: pairs, or a record of another type, which is ignored.\<close>

datatype frec = Params "(bytes \<times> bytes) list" bytes | Other byte bytes bytes

fun rec_type :: "frec \<Rightarrow> byte" where
  "rec_type (Params _ _) = 4"
| "rec_type (Other t _ _) = t"

fun rec_content :: "frec \<Rightarrow> bytes" where
  "rec_content (Params kvs _) = enc_fcgi kvs"
| "rec_content (Other _ b _) = b"

fun rec_pad :: "frec \<Rightarrow> bytes" where
  "rec_pad (Params _ z) = z"
| "rec_pad (Other _ _ z) = z"

fun rec_pairs :: "frec \<Rightarrow> (bytes \<times> bytes) list" where
  "rec_pairs (Params kvs _) = kvs"
| "rec_pairs (Other _ _ _) = []"

definition rec_ok :: "frec \<Rightarrow> bool" where
  "rec_ok f \<longleftrightarrow> (\<forall>kv\<in>set (rec_pairs f). var_ok kv) \<and> length (rec_content f) < 65536 \<and>
     length (rec_pad f) < 256 \<and> (\<forall>t b z. f = Other t b z \<longrightarrow> t \<noteq> 4 \<and> t \<noteq> 5)"

definition rec_header :: "byte \<Rightarrow> nat \<Rightarrow> nat \<Rightarrow> bytes" where
  "rec_header t n z = [1, t, 0, 1] @ rev (le16 n) @ [word_of_nat z, 0]"

definition enc_frec :: "frec \<Rightarrow> bytes" where
  "enc_frec f = rec_header (rec_type f) (length (rec_content f)) (length (rec_pad f)) @ rec_content f @ rec_pad f"

lemma length_rec_header [simp]: "length (rec_header t n z) = 8"
  by (simp add: rec_header_def)

lemma length_enc_frec: "length (enc_frec f) = 8 + length (rec_content f) + length (rec_pad f)"
  by (simp add: enc_frec_def)

lemma enc_frec_not_Nil [simp]: "enc_frec f \<noteq> []"
  using length_enc_frec [of f] by fastforce

lemma fcgi_header_read:
  assumes "take 8 m = rec_header t n z" "n < 65536" "z < 256"
  shows "fcgi_header m = Some (n, 8 + n + z, t, 0, 1)"
proof -
  have "length (take 8 m) = 8" by (simp add: assms(1))
  then have len: "8 \<le> length m" by simp
  obtain a b where ab: "le16 n = [a, b]" by (simp add: le16_def)
  then have h: "take 8 m = [1, t, 0, 1, b, a, word_of_nat z, 0]" using assms(1) by (simp add: rec_header_def)
  have nth: "m ! k = [1, t, 0, 1, b, a, word_of_nat z, 0] ! k" if "k < 8" for k
    using that nth_take [of k 8 m] h by simp
  have "take 2 (drop 4 (take 8 m)) = take 2 (drop 4 m)" by (simp add: drop_take min_def)
  then have "take 2 (drop 4 m) = [b, a]" unfolding h by simp
  then have "uwsgi_be16 m 4 = Some n"
    using be16_value [of 4 m] len le_nat_le16 [OF assms(2)] ab by (simp add: be_nat_def)
  moreover have "mem_get m 6 = Some (word_of_nat z)" "mem_get m 1 = Some t" "mem_get m 2 = Some 0" "mem_get m 3 = Some 1"
    using nth [of 6] nth [of 1] nth [of 2] nth [of 3] len by (simp_all add: mem_get_def)
  ultimately show ?thesis using assms(3) by (simp add: fcgi_header_def unat_of_nat)
qed

text \<open>What the parser holds: the packet of the records done and the bytes of the current one.\<close>

definition fcgi_holds :: "pconf \<Rightarrow> preq \<Rightarrow> (bytes \<times> bytes) list \<Rightarrow> bytes \<Rightarrow> bool" where
  "fcgi_holds c r kvs x \<longleftrightarrow> packet c r (enc_vars kvs) \<and>
     (case pq_buf r of
        None \<Rightarrow> x = [] \<and> pq_pos r = 0
      | Some m \<Rightarrow> pq_buf_size r = length m \<and> ps_buffer_size c \<le> length m \<and> pq_pos r = length x \<and>
          length x \<le> length m \<and> take (length x) m = x)"

text \<open>One complete record is consumed.\<close>

lemma fcgi_records_step:
  assumes h: "fcgi_holds c r kvs (enc_frec f @ y)" and f: "rec_ok f"
    and room: "length (enc_vars (kvs @ rec_pairs f)) < ps_buffer_size c"
  shows "\<exists>r'. fcgi_records c r = fcgi_records c r' \<and> fcgi_holds c r' (kvs @ rec_pairs f) y"
proof -
  let ?x = "enc_frec f @ y" and ?n = "length (rec_content f)" and ?z = "length (rec_pad f)"
  let ?all = "8 + ?n + ?z"
  obtain m where m: "pq_buf r = Some m" "pq_buf_size r = length m" "pq_pos r = length ?x"
    "length ?x \<le> length m" "take (length ?x) m = ?x" "ps_buffer_size c \<le> length m" and pk: "packet c r (enc_vars kvs)"
    using h by (auto simp: fcgi_holds_def split: option.splits)
  have all: "length (enc_frec f) = ?all" by (rule length_enc_frec)
  have "m = ?x @ drop (length ?x) m" using append_take_drop_id [of "length ?x" m, unfolded m(5)] by (rule sym)
  then obtain w where mm: "m = rec_header (rec_type f) ?n ?z @ rec_content f @ rec_pad f @ y @ w"
    by (auto simp: enc_frec_def)
  have "take 8 m = rec_header (rec_type f) ?n ?z"
    by (subst mm) simp
  then have hd: "fcgi_header m = Some (?n, ?all, rec_type f, 0, 1)"
    using fcgi_header_read [of m "rec_type f" ?n ?z] f by (simp add: rec_ok_def)
  let ?r1 = "r\<lparr>pq_stream := (1, 0)\<rparr>"
  have pk1: "packet c ?r1 (enc_vars kvs)" using pk by (simp add: packet_def)
  obtain a where a: "(if rec_type f = 4 then fastcgi_to_uwsgi c ?r1 m 8 ?n 0 else Some (0, ?r1)) = Some (0, ?r1\<lparr>pq_area := a\<rparr>)"
    "packet c (?r1\<lparr>pq_area := a\<rparr>) (enc_vars (kvs @ rec_pairs f))"
  proof (cases f)
    case (Params qs z)
    have "\<exists>a. fastcgi_to_uwsgi c ?r1 m 8 ?n 0 = Some (0, ?r1\<lparr>pq_area := a\<rparr>) \<and>
             packet c (?r1\<lparr>pq_area := a\<rparr>) (enc_vars kvs @ enc_vars qs)"
      by (rule fcgi_pairs [OF _ pk1, of qs m "rec_header 4 ?n ?z" "z @ y @ w"])
        (use f room mm Params in \<open>auto simp: rec_ok_def\<close>)
    then show thesis using that Params by auto
  next
    case (Other t b z)
    have "?r1 = ?r1\<lparr>pq_area := pq_area r\<rparr>" by simp
    then show thesis using that [of "pq_area r"] pk1 f Other by (auto simp: rec_ok_def)
  qed
  let ?r2 = "?r1\<lparr>pq_area := a\<rparr>"
  have "mem_read m ?all (length y) = Some y"
  proof -
    have "drop ?all m = y @ w" by (subst mm) simp
    then show ?thesis using m(4) all by (simp add: mem_read_def)
  qed
  moreover from this obtain m' where m': "mem_write m 0 y = Some m'"
    by (auto simp: mem_read_def mem_write_def split: if_splits)
  ultimately have dr: "fcgi_drop ?r2 ?all = Some (?r2\<lparr>pq_buf := Some m', pq_pos := length y\<rparr>)"
    using m(1,3) all by (simp add: fcgi_drop_def mem_move_def)
  have "rec_type f \<noteq> 5" using f by (cases f) (auto simp: rec_ok_def)
  then have "fcgi_records c r = fcgi_records c (?r2\<lparr>pq_buf := Some m', pq_pos := length y\<rparr>)"
    using m(1,3) all hd a(1) dr by (subst fcgi_records.simps) (simp add: Let_def)
  moreover have "fcgi_holds c (?r2\<lparr>pq_buf := Some m', pq_pos := length y\<rparr>) (kvs @ rec_pairs f) y"
    using a(2) m(2,4,6) mem_write_length [OF m'] mem_write_upto [OF m']
    by (auto simp: fcgi_holds_def packet_def)
  ultimately show ?thesis by blast
qed

lemma fcgi_grow_Some:
  assumes "pq_buf r = Some m" "alloc_ok (ps_env c) n" "n = pq_buf_size r + a - (pq_buf_size r - pq_pos r)"
  shows "fcgi_grow c r a = Some (r\<lparr>pq_buf := Some (take n m @ replicate (n - length m) (junk (ps_env c))), pq_buf_size := n\<rparr>)"
  using assms(1,2) unfolding fcgi_grow_def realloc_area_def assms(3) [symmetric] by (simp add: Let_def)

text \<open>An incomplete record stays in the buffer, which may grow for it.\<close>

lemma fcgi_records_part:
  assumes h: "fcgi_holds c r kvs x" and buf: "pq_buf r \<noteq> None" and alloc: "\<forall>n. alloc_ok (ps_env c) n"
    and x: "length x < 8 \<or> (\<exists>f y. rec_ok f \<and> enc_frec f = x @ y \<and> y \<noteq> [])"
  shows "\<exists>r'. fcgi_records c r = Some (1, r') \<and> fcgi_holds c r' kvs x"
proof (cases "length x < 8")
  case True
  then show ?thesis using h buf
    by (intro exI [of _ r]) (subst fcgi_records.simps, auto simp: fcgi_holds_def split: option.splits)
next
  case False
  with x obtain f y where f: "rec_ok f" "enc_frec f = x @ y" "y \<noteq> []" by blast
  obtain m where m: "pq_buf r = Some m" "pq_buf_size r = length m" "pq_pos r = length x"
    "length x \<le> length m" "take (length x) m = x" "ps_buffer_size c \<le> length m" and pk: "packet c r (enc_vars kvs)"
    using h buf by (auto simp: fcgi_holds_def)
  let ?n = "length (rec_content f)" and ?z = "length (rec_pad f)"
  let ?all = "8 + ?n + ?z"
  have "length (enc_frec f) = length x + length y" using f(2) by simp
  moreover have "0 < length y" using f(3) by simp
  ultimately have lt: "length x < ?all" using length_enc_frec [of f] by linarith
  have "take 8 (take (length x) m) = take 8 (enc_frec f)" using f(2) m(5) False by simp
  then have "take 8 m = rec_header (rec_type f) ?n ?z" using False by (simp add: enc_frec_def min_def)
  then have hd: "fcgi_header m = Some (?n, ?all, rec_type f, 0, 1)"
    using fcgi_header_read [of m "rec_type f" ?n ?z] f(1) by (simp add: rec_ok_def)
  have t5: "rec_type f \<noteq> 5" using f(1) by (cases f) (auto simp: rec_ok_def)
  let ?r1 = "r\<lparr>pq_stream := (1, 0)\<rparr>"
  have h1: "fcgi_holds c ?r1 kvs x" using h by (simp add: fcgi_holds_def packet_def split: option.splits)
  show ?thesis
  proof (cases "?all > length m - length x")
    case True
    obtain k where kdef: "k = length m + ?all - (length m - length x)" by simp
    let ?m' = "take k m @ replicate (k - length m) (junk (ps_env c))"
    have k: "length m \<le> k" using True kdef by simp
    have "fcgi_grow c ?r1 ?all = Some (?r1\<lparr>pq_buf := Some ?m', pq_buf_size := k\<rparr>)"
      by (rule fcgi_grow_Some) (use m alloc kdef in simp_all)
    moreover have "fcgi_holds c (?r1\<lparr>pq_buf := Some ?m', pq_buf_size := k\<rparr>) kvs x"
      using pk m k by (simp add: fcgi_holds_def packet_def)
    ultimately show ?thesis using m lt hd t5 False True
      by (subst fcgi_records.simps) (simp add: Let_def not_le)
  next
    case noroom: False
    show ?thesis using m lt hd t5 False noroom h1
      by (subst fcgi_records.simps) (simp add: Let_def)
  qed
qed


lemma fcgi_write_read:
  assumes "fcgi_holds c r kvs x" "d \<noteq> []" "length (x @ d) \<le> ps_buffer_size c"
  obtains r0 where "uwsgi_proto_fastcgi_parser c r (Bytes d) = fcgi_records c r0"
    "fcgi_holds c r0 kvs (x @ d)" "pq_buf r0 \<noteq> None"
proof -
  obtain m0 n0 where m0: "m0 = (case pq_buf r of None \<Rightarrow> replicate (ps_buffer_size c) (junk (ps_env c)) | Some m \<Rightarrow> m)"
    "n0 = (case pq_buf r of None \<Rightarrow> ps_buffer_size c | Some m \<Rightarrow> pq_buf_size r)" by simp
  let ?r = "r\<lparr>pq_buf := Some m0, pq_buf_size := n0\<rparr>"
  have r: "(case pq_buf r of
                 None \<Rightarrow> r\<lparr>pq_buf := Some (replicate (ps_buffer_size c) (junk (ps_env c))),
                           pq_buf_size := ps_buffer_size c\<rparr>
               | Some _ \<Rightarrow> r) = ?r"
    by (cases r) (auto simp: m0 split: option.splits)
  have h: "packet c r (enc_vars kvs)" "n0 = length m0" "ps_buffer_size c \<le> length m0" "pq_pos r = length x"
    "length x \<le> length m0" "take (length x) m0 = x"
    using assms(1) m0 by (auto simp: fcgi_holds_def split: option.splits)
  obtain m where m: "mem_write m0 (length x) d = Some m" using h assms(3) by (simp add: mem_write_def)
  have d: "length d \<le> n0 - length x" using h assms(3) by simp
  moreover have "0 < length d" using assms(2) by simp
  ultimately have d0: "length x < n0" by linarith
  have "uwsgi_proto_fastcgi_parser c r (Bytes d) =
      fcgi_records c (?r\<lparr>pq_buf := Some m, pq_pos := length x + length d\<rparr>)"
    unfolding uwsgi_proto_fastcgi_parser_def r using assms(2) h(4) m d d0 by (simp add: sys_read_def Let_def)
  moreover have "fcgi_holds c (?r\<lparr>pq_buf := Some m, pq_pos := length x + length d\<rparr>) kvs (x @ d)"
    using h mem_write_length [OF m] mem_write_upto [OF m] assms(3) by (simp add: fcgi_holds_def packet_def)
  ultimately show thesis using that by auto
qed

definition enc_records :: "frec list \<Rightarrow> bytes" where
  "enc_records fs = concat (map enc_frec fs)"

definition all_pairs :: "frec list \<Rightarrow> (bytes \<times> bytes) list" where
  "all_pairs fs = concat (map rec_pairs fs)"

lemma enc_records_simps [simp]:
  "enc_records [] = []" "enc_records (f # fs) = enc_frec f @ enc_records fs" "enc_records (fs @ gs) = enc_records fs @ enc_records gs"
  "all_pairs [] = []" "all_pairs (f # fs) = rec_pairs f @ all_pairs fs" "all_pairs (fs @ gs) = all_pairs fs @ all_pairs gs"
  by (simp_all add: enc_records_def all_pairs_def)

text \<open>The bytes of an unfinished stream leave some records done and a part of the next one.\<close>

definition part_of :: "frec list \<Rightarrow> bytes \<Rightarrow> bool" where
  "part_of fs x = (case fs of [] \<Rightarrow> length x < 8 | f # _ \<Rightarrow> \<exists>y. enc_frec f = x @ y \<and> y \<noteq> [])"

lemma fcgi_records_pending:
  assumes "fcgi_holds c r kvs x" "pq_buf r \<noteq> None" "\<forall>n. alloc_ok (ps_env c) n" "\<forall>f\<in>set fs. rec_ok f"
    and "length (enc_vars (kvs @ all_pairs fs)) < ps_buffer_size c" "x @ y = enc_records fs @ sh" "length sh = 8" "y \<noteq> []"
  shows "\<exists>r' gs hs x'. fcgi_records c r = Some (1, r') \<and> fs = gs @ hs \<and> x = enc_records gs @ x' \<and>
     fcgi_holds c r' (kvs @ all_pairs gs) x' \<and> part_of hs x'"
  using assms
proof (induction fs arbitrary: r kvs x)
  case Nil
  then have "length x + length y = 8" by (metis append_Nil enc_records_simps(1) length_append)
  moreover have "0 < length y" using Nil by simp
  ultimately have "length x < 8" by linarith
  with fcgi_records_part [OF Nil(1-3)] show ?case
    by (auto simp: part_of_def intro: exI [of _ "[]"])
next
  case (Cons f fs)
  show ?case
  proof (cases "length x < length (enc_frec f)")
    case True
    from Cons.prems(6) have "x @ y = enc_frec f @ enc_records fs @ sh" by simp
    then obtain us where "x @ us = enc_frec f \<or> x = enc_frec f @ us" by (auto simp: append_eq_append_conv2)
    with True have y': "enc_frec f = x @ us" "us \<noteq> []" by auto
    then have "\<exists>f y. rec_ok f \<and> enc_frec f = x @ y \<and> y \<noteq> []" using Cons.prems(4) by auto
    with fcgi_records_part [OF Cons.prems(1-3)] obtain r' where
      "fcgi_records c r = Some (1, r')" "fcgi_holds c r' kvs x" by blast
    with y' show ?thesis
      by (intro exI [of _ r'] exI [of _ "[]"] exI [of _ "f # fs"] exI [of _ x]) (auto simp: part_of_def)
  next
    case False
    let ?n = "length (enc_frec f)"
    have "(take ?n x @ drop ?n x) @ y = enc_frec f @ enc_records fs @ sh" using Cons.prems(6) by simp
    then have "take ?n x @ drop ?n x @ y = enc_frec f @ enc_records fs @ sh" by (simp only: append_assoc)
    moreover have "length (take ?n x) = ?n" using False by simp
    ultimately have "take ?n x = enc_frec f \<and> drop ?n x @ y = enc_records fs @ sh"
      using append_eq_append_conv [of "take ?n x" "enc_frec f" "drop ?n x @ y" "enc_records fs @ sh"] by blast
    then obtain x1 where x1: "x = enc_frec f @ x1" "x1 @ y = enc_records fs @ sh"
      using append_take_drop_id [of ?n x] by metis
    have f: "rec_ok f" using Cons.prems(4) by simp
    have room: "length (enc_vars (kvs @ rec_pairs f)) < ps_buffer_size c" using Cons.prems(5) by simp
    obtain r1 where r1: "fcgi_records c r = fcgi_records c r1" "fcgi_holds c r1 (kvs @ rec_pairs f) x1"
      using fcgi_records_step [OF _ f room, of r x1] Cons.prems(1) x1 by auto
    show ?thesis
    proof (cases "pq_buf r1")
      case None
      then have "fcgi_records c r1 = Some (1, r1)"
        using r1(2) by (subst fcgi_records.simps) (simp add: fcgi_holds_def)
      moreover have "x1 = []" using None r1(2) by (simp add: fcgi_holds_def)
      moreover have "part_of fs []" by (cases fs) (auto simp: part_of_def)
      ultimately show ?thesis using r1 x1
        by (intro exI [of _ r1] exI [of _ "[f]"] exI [of _ fs] exI [of _ "[]"]) simp
    next
      case (Some m)
      then have "pq_buf r1 \<noteq> None" by simp
      from Cons.IH [OF r1(2) this Cons.prems(3)] Cons.prems x1(2) obtain r' gs hs x' where
        "fcgi_records c r1 = Some (1, r')" "fs = gs @ hs" "x1 = enc_records gs @ x'"
        "fcgi_holds c r' ((kvs @ rec_pairs f) @ all_pairs gs) x'" "part_of hs x'" by auto
      with r1(1) x1(1) show ?thesis
        by (intro exI [of _ r'] exI [of _ "f # gs"] exI [of _ hs] exI [of _ x']) simp
    qed
  qed
qed

lemma fcgi_records_done:
  assumes "fcgi_holds c r kvs (enc_records fs @ rec_header 5 n z @ rest)" "pq_buf r \<noteq> None" "\<forall>f\<in>set fs. rec_ok f"
    and "length (enc_vars (kvs @ all_pairs fs)) < ps_buffer_size c" "n < 65536" "z < 256"
  shows "\<exists>r'. fcgi_records c r = Some (0, r') \<and> fcgi_holds c r' (kvs @ all_pairs fs) (rec_header 5 n z @ rest)"
  using assms
proof (induction fs arbitrary: r kvs)
  case Nil
  let ?x = "rec_header 5 n z @ rest"
  obtain m where m: "pq_buf r = Some m" "pq_buf_size r = length m" "pq_pos r = length ?x"
    "length ?x \<le> length m" "take (length ?x) m = ?x" "ps_buffer_size c \<le> length m" and pk: "packet c r (enc_vars kvs)"
    using Nil(1,2) by (auto simp: fcgi_holds_def)
  have "take 8 (take (length ?x) m) = rec_header 5 n z" unfolding m(5) by simp
  then have "take 8 m = rec_header 5 n z" by (simp add: min_def)
  then have hd: "fcgi_header m = Some (n, 8 + n + z, 5, 0, 1)" using fcgi_header_read Nil(5,6) by simp
  have pk1: "packet c (r\<lparr>pq_stream := (1, 0)\<rparr>) (enc_vars kvs)" using pk by (simp add: packet_def)
  obtain a where a: "set_modifiers c (r\<lparr>pq_stream := (1, 0)\<rparr>) = Some (r\<lparr>pq_stream := (1, 0)\<rparr>\<lparr>pq_area := a\<rparr>)"
    "packet c (r\<lparr>pq_stream := (1, 0)\<rparr>\<lparr>pq_area := a\<rparr>) (enc_vars kvs)"
    using set_modifiers_packet [OF pk1] by blast
  let ?r = "r\<lparr>pq_stream := (1, 0)\<rparr>\<lparr>pq_area := a\<rparr>"
  have run: "fcgi_records c r = Some (0, if n = 0 then ?r\<lparr>pq_eof := True\<rparr> else ?r)"
    using m(1,3) hd a(1) by (subst fcgi_records.simps) (simp add: Let_def)
  show ?case unfolding run using a(2) m by (simp add: fcgi_holds_def packet_def)
next
  case (Cons f fs)
  have f: "rec_ok f" using Cons.prems(3) by simp
  have room: "length (enc_vars (kvs @ rec_pairs f)) < ps_buffer_size c" using Cons.prems(4) by simp
  obtain r1 where r1: "fcgi_records c r = fcgi_records c r1"
    "fcgi_holds c r1 (kvs @ rec_pairs f) (enc_records fs @ rec_header 5 n z @ rest)"
    using fcgi_records_step [OF _ f room, of r "enc_records fs @ rec_header 5 n z @ rest"] Cons.prems(1) by auto
  have "pq_buf r1 \<noteq> None" using r1(2) by (auto simp: fcgi_holds_def rec_header_def split: option.splits)
  from Cons.IH [OF r1(2) this] Cons.prems r1(1) show ?case by simp
qed

definition fcgi_seen :: "pconf \<Rightarrow> frec list \<Rightarrow> preq \<Rightarrow> bytes \<Rightarrow> bool" where
  "fcgi_seen c fs r p \<longleftrightarrow>
     (\<exists>gs hs x. fs = gs @ hs \<and> p = enc_records gs @ x \<and> fcgi_holds c r (all_pairs gs) x \<and> part_of hs x)"

definition fcgi_pending :: "pconf \<Rightarrow> frec list \<Rightarrow> bytes \<Rightarrow> bytes \<Rightarrow> bool" where
  "fcgi_pending c fs sh p \<longleftrightarrow> (\<forall>f\<in>set fs. rec_ok f) \<and> (\<forall>n. alloc_ok (ps_env c) n) \<and> length sh = 8 \<and>
     length (enc_vars (all_pairs fs)) < ps_buffer_size c \<and> length p \<le> ps_buffer_size c \<and>
     (\<exists>y. p @ y = enc_records fs @ sh \<and> y \<noteq> [])"

lemma fcgi_pending_step:
  assumes "fcgi_seen c fs r p" "d \<noteq> []" "fcgi_pending c fs sh (p @ d)"
  shows "\<exists>r'. uwsgi_proto_fastcgi_parser c r (Bytes d) = Some (1, r') \<and> fcgi_seen c fs r' (p @ d)"
proof -
  from assms(1) obtain gs hs x where g: "fs = gs @ hs" "p = enc_records gs @ x" "fcgi_holds c r (all_pairs gs) x"
    by (auto simp: fcgi_seen_def)
  from assms(3) obtain y where pe: "\<forall>f\<in>set fs. rec_ok f" "\<forall>n. alloc_ok (ps_env c) n" "length sh = 8"
    "length (enc_vars (all_pairs fs)) < ps_buffer_size c" "length (p @ d) \<le> ps_buffer_size c"
    "(p @ d) @ y = enc_records fs @ sh" "y \<noteq> []" by (auto simp: fcgi_pending_def)
  have len: "length (x @ d) \<le> ps_buffer_size c" using pe(5) g(2) by simp
  obtain r0 where r0: "uwsgi_proto_fastcgi_parser c r (Bytes d) = fcgi_records c r0"
    "fcgi_holds c r0 (all_pairs gs) (x @ d)" "pq_buf r0 \<noteq> None"
    using fcgi_write_read [OF g(3) assms(2) len] by blast
  have "(x @ d) @ y = enc_records hs @ sh" using pe(6) g(1,2) by simp
  from fcgi_records_pending [OF r0(2,3) pe(2) _ _ this pe(3,7)] pe(1,4) g(1) obtain r' gs' hs' x' where
    r': "fcgi_records c r0 = Some (1, r')" "hs = gs' @ hs'" "x @ d = enc_records gs' @ x'"
    "fcgi_holds c r' (all_pairs gs @ all_pairs gs') x'" "part_of hs' x'" by auto
  then have "fcgi_seen c fs r' (p @ d)" using g
    unfolding fcgi_seen_def by (intro exI [of _ "gs @ gs'"] exI [of _ hs'] exI [of _ x']) simp
  with r0(1) r'(1) show ?thesis by auto
qed

lemma fcgi_pending_prefix: "fcgi_pending c fs sh (x @ y) \<Longrightarrow> fcgi_pending c fs sh x"
  unfolding fcgi_pending_def by (metis (no_types, lifting) append_assoc append_is_Nil_conv le_add1 length_append order_trans)

interpretation fcgi_in: incremental "uwsgi_proto_fastcgi_parser c" "fcgi_seen c fs" "fcgi_pending c fs sh" for c fs sh
  using fcgi_pending_step fcgi_pending_prefix by unfold_locales

lemma fcgi_last_piece:
  assumes "fcgi_seen c fs r p" "d \<noteq> []" "length (p @ d) \<le> ps_buffer_size c"
    and "p @ d = enc_records fs @ rec_header 5 n z @ rest" "n < 65536" "z < 256"
    and "\<forall>f\<in>set fs. rec_ok f" "length (enc_vars (all_pairs fs)) < ps_buffer_size c"
  shows "\<exists>r'. uwsgi_proto_fastcgi_parser c r (Bytes d) = Some (0, r') \<and>
     fcgi_holds c r' (all_pairs fs) (rec_header 5 n z @ rest)"
proof -
  from assms(1) obtain gs hs x where g: "fs = gs @ hs" "p = enc_records gs @ x" "fcgi_holds c r (all_pairs gs) x"
    by (auto simp: fcgi_seen_def)
  have len: "length (x @ d) \<le> ps_buffer_size c" using assms(3) g(2) by simp
  obtain r0 where r0: "uwsgi_proto_fastcgi_parser c r (Bytes d) = fcgi_records c r0"
    "fcgi_holds c r0 (all_pairs gs) (x @ d)" "pq_buf r0 \<noteq> None"
    using fcgi_write_read [OF g(3) assms(2) len] by blast
  have "x @ d = enc_records hs @ rec_header 5 n z @ rest" using assms(4) g(1,2) by simp
  with r0 fcgi_records_done [of c r0 "all_pairs gs" hs n z rest] assms(5-8) g(1) show ?thesis by auto
qed


section \<open>FastCGI output\<close>

text \<open>The caller repeats the write while the answer is 1; the headers go out as a whole.\<close>

fun write_all :: "preq \<Rightarrow> bytes \<Rightarrow> wr list \<Rightarrow> (int \<times> bytes \<times> preq) option" where
  "write_all r data [] = Some (1, [], r)"
| "write_all r data (ev # evs) =
     (case uwsgi_proto_fastcgi_write r data True ev of
        None \<Rightarrow> None
      | Some (ret, out, r) \<Rightarrow>
          if ret = 1 then map_option (\<lambda>(ret, out', r). (ret, out @ out', r)) (write_all r data evs)
          else Some (ret, out, r))"

definition stdout_records :: "byte \<times> byte \<Rightarrow> bytes list \<Rightarrow> bytes" where
  "stdout_records sid cs = concat (map (\<lambda>c. fcgi_stdout_header sid (length c) @ c) cs)"

definition record_sizes :: "bytes list \<Rightarrow> bool" where
  "record_sizes cs \<longleftrightarrow> (\<forall>c\<in>set cs. c \<noteq> [] \<and> length c \<le> 0xffff)"

text \<open>A write at the start of a record is the header and a write inside the record.\<close>

lemma fcgi_write_start:
  assumes "pq_status r = 0" "pq_write_pos r < length data" "length data < SIZE_MOD"
  defines "n \<equiv> min (length data - pq_write_pos r) 0xffff"
  shows "uwsgi_proto_fastcgi_write r data True ev =
     map_option (\<lambda>(ret, out, r'). (ret, fcgi_stdout_header (pq_stream r) n @ out, r'))
       (uwsgi_proto_fastcgi_write (r\<lparr>pq_status := n\<rparr>) data True ev)"
proof -
  have "sz_sub (length data) (pq_write_pos r) = length data - pq_write_pos r" using assms(2,3) by (simp add: sz_simps)
  moreover have "n \<noteq> 0" using assms(2) by (simp add: n_def)
  ultimately show ?thesis using assms(1)
    by (cases ev) (auto simp: uwsgi_proto_fastcgi_write_def Let_def n_def [symmetric] split: bind_splits)
qed

lemma fcgi_write_inside:
  assumes "0 < pq_status r" "pq_write_pos r + pq_status r \<le> length data"
  shows "uwsgi_proto_fastcgi_write r data True ev =
     (case ev of
        Accepts k \<Rightarrow>
          let k = min k (pq_status r);
              r' = r\<lparr>pq_write_pos := pq_write_pos r + k, pq_status := pq_status r - k\<rparr> in
          if k = 0 then Some (-1, [], r)
          else Some (if pq_write_pos r + k = length data then 0 else 1, take k (drop (pq_write_pos r) data), r')
      | Write_again \<Rightarrow> Some (1, [], r)
      | Write_broken \<Rightarrow> Some (-1, [], r))"
  using assms by (auto simp: uwsgi_proto_fastcgi_write_def Let_def mem_read_def split: wr.split)

lemma write_all_start:
  assumes "pq_status r = 0" "pq_write_pos r < length data" "length data < SIZE_MOD" "evs \<noteq> []"
  defines "n \<equiv> min (length data - pq_write_pos r) 0xffff"
  shows "write_all r data evs =
     map_option (\<lambda>(ret, out, r'). (ret, fcgi_stdout_header (pq_stream r) n @ out, r'))
       (write_all (r\<lparr>pq_status := n\<rparr>) data evs)"
  using fcgi_write_start [OF assms(1-3)] assms(4) unfolding n_def [symmetric]
  by (cases evs) (auto simp: option.map_comp comp_def case_prod_unfold split: option.splits)

lemma stdout_records_Cons [simp]:
  "stdout_records sid [] = []" "stdout_records sid (c # cs) = fcgi_stdout_header sid (length c) @ c @ stdout_records sid cs"
  by (simp_all add: stdout_records_def)

lemma write_all_inside:
  assumes "write_all r data evs = Some (0, out, r')" "pq_write_pos r < length data" "length data < SIZE_MOD"
    and "pq_write_pos r + pq_status r \<le> length data"
  shows "\<exists>cs. out = take (pq_status r) (drop (pq_write_pos r) data) @ stdout_records (pq_stream r) cs \<and>
     drop (pq_write_pos r + pq_status r) data = concat cs \<and> record_sizes cs"
  using assms
proof (induction evs arbitrary: r out)
  case Nil
  then show ?case by simp
next
  case (Cons ev evs)
  have inside: "\<exists>cs. out = take (pq_status r) (drop (pq_write_pos r) data) @ stdout_records (pq_stream r) cs \<and>
      drop (pq_write_pos r + pq_status r) data = concat cs \<and> record_sizes cs"
    if w: "write_all r data (ev # evs) = Some (0, out, r')" "pq_write_pos r < length data" "0 < pq_status r"
      "pq_write_pos r + pq_status r \<le> length data" for r out
  proof (cases ev)
    case (Accepts k0)
    let ?k = "min k0 (pq_status r)"
    let ?r = "r\<lparr>pq_write_pos := pq_write_pos r + ?k, pq_status := pq_status r - ?k\<rparr>"
    have k: "?k \<noteq> 0"
    proof
      assume "?k = 0"
      then show False using w(1) fcgi_write_inside [OF w(3,4)] Accepts by (simp add: Let_def)
    qed
    then have step: "uwsgi_proto_fastcgi_write r data True ev =
        Some (if pq_write_pos r + ?k = length data then 0 else 1, take ?k (drop (pq_write_pos r) data), ?r)"
      using fcgi_write_inside [OF w(3,4)] Accepts by (auto simp: Let_def)
    show ?thesis
    proof (cases "pq_write_pos r + ?k = length data")
      case True
      then have k': "?k = pq_status r" using w(4) by linarith
      have "take ?k (drop (pq_write_pos r) data) = out" using w(1) step True by auto
      then have "out = take (pq_status r) (drop (pq_write_pos r) data)" unfolding k' by (rule sym)
      moreover have "drop (pq_write_pos r + pq_status r) data = []" using True k' by simp
      ultimately show ?thesis by (intro exI [of _ "[]"]) (simp add: record_sizes_def)
    next
      case False
      then obtain out' where out': "write_all ?r data evs = Some (0, out', r')"
        "out = take ?k (drop (pq_write_pos r) data) @ out'"
        using w(1) step by auto
      have "\<exists>cs. out' = take (pq_status ?r) (drop (pq_write_pos ?r) data) @ stdout_records (pq_stream ?r) cs \<and>
          drop (pq_write_pos ?r + pq_status ?r) data = concat cs \<and> record_sizes cs"
        by (rule Cons.IH [OF out'(1)]) (use w False Cons.prems(3) in auto)
      then obtain cs where cs: "out' = take (pq_status r - ?k) (drop (pq_write_pos r + ?k) data) @ stdout_records (pq_stream r) cs"
        "drop (pq_write_pos r + pq_status r) data = concat cs" "record_sizes cs" by auto
      have "take ?k (drop (pq_write_pos r) data) @ take (pq_status r - ?k) (drop (pq_write_pos r + ?k) data) =
          take (pq_status r) (drop (pq_write_pos r) data)"
        using take_add [of ?k "pq_status r - ?k" "drop (pq_write_pos r) data"] by (simp add: add.commute)
      with out'(2) cs show ?thesis by (intro exI [of _ cs]) (metis append_assoc)
    qed
  next
    case Write_again
    then have step: "uwsgi_proto_fastcgi_write r data True ev = Some (1, [], r)"
      using fcgi_write_inside [OF w(3,4)] by simp
    then have "write_all r data evs = Some (0, out, r')" using w(1) by auto
    then show ?thesis using Cons.IH w(2,4) Cons.prems(3) by blast
  next
    case Write_broken
    then show ?thesis using fcgi_write_inside [OF w(3,4)] w(1) by simp
  qed
  show ?case
  proof (cases "pq_status r = 0")
    case False
    with inside [OF Cons.prems(1,2) _ Cons.prems(4)] show ?thesis by simp
  next
    case True
    obtain n where n: "n = min (length data - pq_write_pos r) 0xffff" by simp
    then have n': "0 < n" "n \<le> 0xffff" "pq_write_pos r + n \<le> length data" using Cons.prems(2) by auto
    obtain out' where out': "write_all (r\<lparr>pq_status := n\<rparr>) data (ev # evs) = Some (0, out', r')"
      "out = fcgi_stdout_header (pq_stream r) n @ out'"
      using write_all_start [OF True Cons.prems(2,3), of "ev # evs", folded n] Cons.prems(1)
      by (cases "write_all (r\<lparr>pq_status := n\<rparr>) data (ev # evs)") (auto simp del: write_all.simps)
    obtain cs where cs: "out' = take n (drop (pq_write_pos r) data) @ stdout_records (pq_stream r) cs"
      "drop (pq_write_pos r + n) data = concat cs" "record_sizes cs"
      using inside [OF out'(1)] n' Cons.prems(2) by auto
    let ?c = "take n (drop (pq_write_pos r) data)"
    have c: "length ?c = n" using n' by simp
    have "drop (pq_write_pos r) data = ?c @ drop (pq_write_pos r + n) data"
      using append_take_drop_id [of n "drop (pq_write_pos r) data"] by (simp add: add.commute)
    with True out'(2) cs c n' show ?thesis
      by (intro exI [of _ "?c # cs"]) (auto simp: record_sizes_def)
  qed
qed

lemma write_all_ends:
  assumes "pq_write_pos r < length data" "length data < SIZE_MOD" "pq_write_pos r + pq_status r \<le> length data"
    and "\<forall>ev\<in>set evs. \<exists>k. ev = Accepts k \<and> 0 < k" "length data - pq_write_pos r \<le> length evs"
  shows "\<exists>out r'. write_all r data evs = Some (0, out, r')"
  using assms
proof (induction evs arbitrary: r)
  case Nil
  then show ?case by simp
next
  case (Cons ev evs)
  have inside: "\<exists>out r'. write_all r data (ev # evs) = Some (0, out, r')"
    if w: "pq_write_pos r < length data" "0 < pq_status r" "pq_write_pos r + pq_status r \<le> length data"
      "length data - pq_write_pos r \<le> Suc (length evs)" for r
  proof -
    obtain k0 where k0: "ev = Accepts k0" "0 < k0" using Cons.prems(4) by auto
    let ?k = "min k0 (pq_status r)"
    let ?r = "r\<lparr>pq_write_pos := pq_write_pos r + ?k, pq_status := pq_status r - ?k\<rparr>"
    have k: "0 < ?k" using k0 w by simp
    then have step: "uwsgi_proto_fastcgi_write r data True ev =
        Some (if pq_write_pos r + ?k = length data then 0 else 1, take ?k (drop (pq_write_pos r) data), ?r)"
      using fcgi_write_inside [OF w(2,3)] k0 by (auto simp: Let_def)
    show ?thesis
    proof (cases "pq_write_pos r + ?k = length data")
      case False
      have "\<exists>out r'. write_all ?r data evs = Some (0, out, r')"
        by (rule Cons.IH) (use w k False Cons.prems in auto)
      then show ?thesis using step False by auto
    qed (use step in simp)
  qed
  show ?case
  proof (cases "pq_status r = 0")
    case True
    obtain n where n: "n = min (length data - pq_write_pos r) 0xffff" by simp
    have "\<exists>out r'. write_all (r\<lparr>pq_status := n\<rparr>) data (ev # evs) = Some (0, out, r')"
      by (rule inside) (use Cons.prems n in auto)
    then show ?thesis using write_all_start [OF True Cons.prems(1,2), of "ev # evs", folded n]
      by (auto simp del: write_all.simps)
  qed (use inside Cons.prems in simp)
qed


section \<open>Vectors\<close>

lemma iov_first_spec:
  assumes "wlen < length (concat vs)"
  shows "\<exists>j skip. iov_first vs wlen i (n + length vs) = (i + j, skip, n + length vs - j) \<and> j < length vs \<and>
     drop wlen (concat vs) = drop skip (vs ! j) @ concat (drop (Suc j) vs)"
  using assms
proof (induction vs arbitrary: wlen i)
  case Nil
  then show ?case by simp
next
  case (Cons v vs)
  show ?case
  proof (cases "length v \<le> wlen")
    case True
    have "wlen - length v < length (concat vs)" using True Cons.prems by (auto simp del: length_concat)
    from Cons.IH [OF this, of "i + 1"] obtain j skip where
      j: "iov_first vs (wlen - length v) (i + 1) (n + length vs) = (i + 1 + j, skip, n + length vs - j)"
      "j < length vs" "drop (wlen - length v) (concat vs) = drop skip (vs ! j) @ concat (drop (Suc j) vs)"
      by blast
    with True show ?thesis by (intro exI [of _ "Suc j"] exI [of _ skip]) (simp add: drop_append)
  next
    case False
    then show ?thesis by (intro exI [of _ 0] exI [of _ wlen]) simp
  qed
qed

lemma iov_move_rest: "iov_move vs skip (Suc p) = vs"
  by (induction vs arbitrary: p) auto

lemma writev_partial:
  assumes "uwsgi_proto_base_writev r iov (Accepts n) = (1, out, iov', r')"
  obtains j skip where "j < length iov" "iov' = drop skip (iov ! j) # drop (Suc j) iov"
    "out @ concat iov' = concat iov"
proof -
  obtain N where N: "sum_list (map length iov) = N" "length (concat iov) = N" by (simp add: length_concat)
  have n: "0 < n" "n < N"
    using assms unfolding uwsgi_proto_base_writev_def N(1) by (auto simp: Let_def split: if_splits)
  then obtain j skip where j: "iov_first iov n 0 (length iov) = (j, skip, length iov - j)" "j < length iov"
    "drop n (concat iov) = drop skip (iov ! j) @ concat (drop (Suc j) iov)"
    using iov_first_spec [of n iov 0 0] N(2) by auto
  have "iov_move (drop j iov) skip 0 = drop skip (iov ! j) # drop (Suc j) iov"
    using iov_move_rest [of _ skip 0] by (subst Cons_nth_drop_Suc [OF j(2), symmetric]) simp
  then have "take (length iov - j) (iov_move (drop j iov) skip 0) = drop skip (iov ! j) # drop (Suc j) iov"
    using j(2) by simp
  with assms n j(1) have out: "out = take n (concat iov)" "iov' = drop skip (iov ! j) # drop (Suc j) iov"
    unfolding uwsgi_proto_base_writev_def N(1) by (auto simp: Let_def)
  have "out @ concat iov' = take n (concat iov) @ drop n (concat iov)" unfolding out j(3) by simp
  then have "out @ concat iov' = concat iov" by (simp only: append_take_drop_id)
  with j(2) out(2) show ?thesis by (rule that)
qed

lemma writev_rest:
  assumes "uwsgi_proto_base_writev r iov ev = (ret, out, iov', r')" "ret = 1"
  shows "out @ concat iov' = concat iov"
proof (cases ev)
  case (Accepts n)
  with assms show ?thesis using writev_partial [of r iov n out iov' r'] by metis
qed (use assms in \<open>auto simp: uwsgi_proto_base_writev_def Let_def\<close>)

section \<open>Properties\<close>

definition preq_new :: "nat \<Rightarrow> preq" where
  "preq_new n = \<lparr>pq_area = replicate (n + 4) 0, pq_pos = 0, pq_buf = None, pq_buf_size = 0, pq_remains = 0,
     pq_remains_at = In_area 0, pq_move = 0, pq_eof = False, pq_status = 0, pq_stream = (0, 0),
     pq_write_pos = 0, pq_write_errors = 0\<rparr>"

definition pconf_small :: pconf where
  "pconf_small = \<lparr>ps_buffer_size = 100, ps_modifiers = (0, 0), ps_env = \<lparr>page_size = 64, alloc_ok = (\<lambda>_. True), junk = 7\<rparr>\<rparr>"

lemma packet_new: "packet pconf_small (preq_new 100) []"
  by (simp add: packet_def preq_new_def pconf_small_def rd_le_def mem_read_def numeral_2_eq_2)

text \<open>
  C14: Whatever way a uwsgi packet is cut into reads, the parser answers 1 until the last
  byte has come and then 0; the packet in the request is the one sent, its variables are read
  by the hooked parser, and bytes behind it are kept as the start of the body.
\<close>

theorem uwsgi_proto_uwsgi_parser_frames:
  assumes "pq_pos r = 0" "length (pq_area r) = ps_buffer_size c + 4" "ps_buffer_size c < 65536"
    and "[] \<notin> set ds" "d \<noteq> []" "concat ds @ d = uwsgi_request m1 m2 (enc_vars kvs) @ rest"
    and "length (concat ds) < 4 + length (enc_vars kvs)" "length (concat ds @ d) \<le> ps_buffer_size c + 4"
    and "\<forall>kv\<in>set kvs. var_ok kv"
  shows "\<exists>r' calls. feed (uwsgi_proto_uwsgi_parser c) r (ds @ [d]) = Some (0, r', []) \<and>
     pktsize_of r' = Some (length (enc_vars kvs)) \<and>
     uwsgi_hooked_parse (drop 4 (pq_area r')) (length (enc_vars kvs)) = Some (0, calls) \<and>
     map (var_at (drop 4 (pq_area r'))) calls = kvs \<and>
     (rest \<noteq> [] \<longrightarrow> take_remains r' (length rest) = Some (rest, r'\<lparr>pq_remains := 0,
         pq_remains_at := In_area (4 + length (enc_vars kvs) + length rest)\<rparr>))"
proof -
  let ?q = "uwsgi_request m1 m2 (enc_vars kvs)" and ?n = "length (enc_vars kvs)"
  have q: "length ?q = 4 + ?n" by (simp add: uwsgi_request_def)
  have len: "4 + ?n + length rest \<le> ps_buffer_size c + 4"
    using assms(8) q unfolding assms(6) by simp
  have n: "?n < 65536" using len assms(3) by linarith
  have pend: "uwsgi_pending c (concat ds)"
  proof (cases "length (concat ds) < 4")
    case True
    then show ?thesis using assms(8) by (simp add: uwsgi_pending_def)
  next
    case False
    have "take (length (concat ds)) (concat ds @ d) = concat ds" by (simp del: length_concat)
    then have "concat ds = take (length (concat ds)) (?q @ rest)" unfolding assms(6) by (rule sym)
    then have "take 2 (drop 1 (concat ds)) = take 2 (drop 1 (take (length (concat ds)) (?q @ rest)))"
      by (rule arg_cong [where f = "\<lambda>x. take 2 (drop 1 x)"])
    also have "\<dots> = take 2 (drop 1 (?q @ rest))" using False by (intro header_of_prefix) simp
    also have "\<dots> = le16 ?n" by (simp add: uwsgi_request_def)
    finally show ?thesis using assms(7,8) False n len by (simp add: uwsgi_pending_def le_nat_le16 del: length_concat)
  qed
  have seen: "uwsgi_seen c r []" using assms(1-3) by (simp add: uwsgi_seen_def)
  have "\<exists>ret r'. feed (uwsgi_proto_uwsgi_parser c) r (ds @ [d]) = Some (ret, r', []) \<and>
     (ret = 0 \<and> take (4 + ?n) (pq_area r') = ?q \<and> pktsize_of r' = Some ?n \<and> length (pq_area r') = ps_buffer_size c + 4 \<and>
     (rest \<noteq> [] \<longrightarrow> pq_remains r' = length rest \<and> pq_remains_at r' = In_area (4 + ?n) \<and>
        mem_read (pq_area r') (4 + ?n) (length rest) = Some rest))"
    by (rule uwsgi_in.feed_last [OF seen assms(4) pend])
      (use uwsgi_last_piece [OF _ assms(5,8,6) n] in fastforce)
  then obtain r' where r': "feed (uwsgi_proto_uwsgi_parser c) r (ds @ [d]) = Some (0, r', [])"
    "take (4 + ?n) (pq_area r') = ?q" "pktsize_of r' = Some ?n" "length (pq_area r') = ps_buffer_size c + 4"
    "rest \<noteq> [] \<longrightarrow> pq_remains r' = length rest \<and> pq_remains_at r' = In_area (4 + ?n) \<and>
        mem_read (pq_area r') (4 + ?n) (length rest) = Some rest" by blast
  have "take ?n (drop 4 (pq_area r')) = drop 4 (take (4 + ?n) (pq_area r'))" by (simp add: drop_take)
  also have "\<dots> = enc_vars kvs" unfolding r'(2) by (simp add: uwsgi_request_def)
  finally obtain calls where "uwsgi_hooked_parse (drop 4 (pq_area r')) ?n = Some (0, calls)"
    "map (var_at (drop 4 (pq_area r'))) calls = kvs"
    using hooked_parse_accepts [of ?n "drop 4 (pq_area r')" kvs] assms(9) r'(4) len by auto
  moreover have "rest \<noteq> [] \<longrightarrow> take_remains r' (length rest) =
      Some (rest, r'\<lparr>pq_remains := 0, pq_remains_at := In_area (4 + ?n + length rest)\<rparr>)"
    using r'(5) by (simp add: take_remains_def remains_area_def)
  ultimately show ?thesis using r'(1,3) by blast
qed

theorem uwsgi_proto_uwsgi_parser_frames_witness:
  "\<exists>r' calls. feed (uwsgi_proto_uwsgi_parser pconf_small) (preq_new 100)
       [take 3 (uwsgi_request 0 0 (enc_vars packet_sample)), drop 3 (uwsgi_request 0 0 (enc_vars packet_sample)) @ [9, 9]] =
     Some (0, r', []) \<and> map (var_at (drop 4 (pq_area r'))) calls = packet_sample"
proof -
  let ?q = "uwsgi_request 0 0 (enc_vars packet_sample)"
  have q: "length ?q = 16" "length (enc_vars packet_sample) = 12" "\<forall>kv\<in>set packet_sample. var_ok kv"
    using packet_sample_ok by (simp_all add: uwsgi_request_def)
  have r: "pq_pos (preq_new 100) = 0" "length (pq_area (preq_new 100)) = ps_buffer_size pconf_small + 4"
    "ps_buffer_size pconf_small < 65536" by (simp_all add: preq_new_def pconf_small_def)
  have cut: "[] \<notin> set [take 3 ?q]" "drop 3 ?q @ [9, 9] \<noteq> []" "concat [take 3 ?q] @ drop 3 ?q @ [9, 9] = ?q @ [9, 9]"
    using q(1) by auto
  have len: "length (concat [take 3 ?q]) < 4 + length (enc_vars packet_sample)"
    "length (concat [take 3 ?q] @ drop 3 ?q @ [9, 9]) \<le> ps_buffer_size pconf_small + 4"
    using q(1,2) by (simp_all add: pconf_small_def)
  from uwsgi_proto_uwsgi_parser_frames [OF r cut len q(3)] show ?thesis
    unfolding append_Cons append_Nil by blast
qed


text \<open>
  C12: An SCGI request that is not cut right before its comma is read to the end however it is
  delivered: the packet built holds exactly the variables of the request, as the hooked parser
  reads it, and the bytes behind the comma are kept as the start of the body.
\<close>

theorem uwsgi_proto_scgi_parser_correct:
  assumes "packet c r []" "pq_buf r = None" "pq_pos r = 0" "[] \<notin> set cs" "d \<noteq> []"
    and "concat cs @ d = scgi_request ds kvs @ rest" "length (concat cs @ d) \<le> ps_buffer_size c"
    and "length (concat cs) \<le> length ds + length (enc_scgi kvs)" "decimal_of (length (enc_scgi kvs)) ds"
    and "\<forall>kv\<in>set kvs. scgi_ok kv \<and> var_ok kv" "kvs \<noteq> []" "length (enc_vars kvs) < ps_buffer_size c"
  shows "\<exists>r' n calls. feed (uwsgi_proto_scgi_parser c) r (cs @ [d]) = Some (0, r', []) \<and>
     pktsize_of r' = Some n \<and> uwsgi_hooked_parse (drop 4 (pq_area r')) n = Some (0, calls) \<and>
     map (var_at (drop 4 (pq_area r'))) calls = kvs \<and>
     (rest \<noteq> [] \<longrightarrow> (\<exists>r''. take_remains r' (length rest) = Some (rest, r'')))"
proof -
  let ?n = "length (enc_scgi kvs)"
  have ok: "\<forall>kv\<in>set kvs. scgi_ok kv" "\<forall>kv\<in>set kvs. var_ok kv" using assms(10) by auto
  have n0: "0 < ?n" using assms(11) by (cases kvs) auto
  have req: "length (scgi_request ds kvs) = length ds + ?n + 2" by (simp add: scgi_request_def)
  then have small: "length ds + ?n < ps_buffer_size c"
    using arg_cong [OF assms(6), of length] assms(7) by simp
  have "concat cs = take (length (concat cs)) (scgi_request ds kvs @ rest)"
    using assms(6) by (metis append_eq_conv_conj)
  then have "concat cs = take (length (concat cs)) (ds @ 58 # (enc_scgi kvs @ [44] @ rest))"
    by (simp only: scgi_request_def append_assoc append_Cons)
  then have pend: "scgi_pending c ds ?n (concat cs)"
    using assms(8,9) n0 small by (auto simp: scgi_pending_def simp del: length_concat)
  have seen: "scgi_seen c r []" using assms(1-3) by (simp add: scgi_seen_def scgi_read_def)
  have "\<exists>ret r'. feed (uwsgi_proto_scgi_parser c) r (cs @ [d]) = Some (ret, r', []) \<and>
     (ret = 0 \<and> packet c r' (enc_vars kvs) \<and> (\<exists>m j. rest \<noteq> [] \<longrightarrow> pq_remains r' = length rest \<and>
       pq_remains_at r' = In_parser j \<and> pq_buf r' = Some m \<and> mem_read m j (length rest) = Some rest))"
    by (rule scgi_in.feed_last [OF seen assms(4) pend])
      (use scgi_last_piece [OF _ assms(5,7,6) ok(1) assms(11,9,12)] in fastforce)
  then obtain r' m j where r': "feed (uwsgi_proto_scgi_parser c) r (cs @ [d]) = Some (0, r', [])"
    "packet c r' (enc_vars kvs)" "rest \<noteq> [] \<longrightarrow> pq_remains r' = length rest \<and>
       pq_remains_at r' = In_parser j \<and> pq_buf r' = Some m \<and> mem_read m j (length rest) = Some rest" by blast
  obtain n calls where "pktsize_of r' = Some n" "uwsgi_hooked_parse (drop 4 (pq_area r')) n = Some (0, calls)"
    "map (var_at (drop 4 (pq_area r'))) calls = kvs"
    using packet_parses [OF r'(2) ok(2)] by blast
  with r' show ?thesis by (auto simp: take_remains_def remains_area_def)
qed

definition scgi_sample :: "(bytes \<times> bytes) list" where
  "scgi_sample = [(str ''CONTENT_LENGTH'', str ''2''), (str ''SCGI'', str ''1'')]"

lemma scgi_sample_ok:
  "length (enc_scgi scgi_sample) = 24" "\<forall>kv\<in>set scgi_sample. scgi_ok kv \<and> var_ok kv" "scgi_sample \<noteq> []"
  "length (enc_vars scgi_sample) = 28" "decimal_of 24 (str ''24'')" "length (str ''24'') = 2"
  by (simp_all add: scgi_sample_def enc_scgi_def enc_var_def scgi_ok_def var_ok_def decimal_of_def is_digit_def
      str_def ch_def)

theorem uwsgi_proto_scgi_parser_correct_witness:
  "\<exists>r' n calls. feed (uwsgi_proto_scgi_parser pconf_small) (preq_new 100)
       [take 9 (scgi_request (str ''24'') scgi_sample), drop 9 (scgi_request (str ''24'') scgi_sample) @ [1, 2]] =
     Some (0, r', []) \<and> uwsgi_hooked_parse (drop 4 (pq_area r')) n = Some (0, calls) \<and>
     map (var_at (drop 4 (pq_area r'))) calls = scgi_sample"
proof -
  let ?q = "scgi_request (str ''24'') scgi_sample"
  have q: "length ?q = 28" using scgi_sample_ok by (simp add: scgi_request_def)
  have r: "pq_buf (preq_new 100) = None" "pq_pos (preq_new 100) = 0" by (simp_all add: preq_new_def)
  have cut: "[] \<notin> set [take 9 ?q]" "drop 9 ?q @ [1, 2] \<noteq> []" "concat [take 9 ?q] @ drop 9 ?q @ [1, 2] = ?q @ [1, 2]"
    using q by auto
  have len: "length (concat [take 9 ?q] @ drop 9 ?q @ [1, 2]) \<le> ps_buffer_size pconf_small"
    "length (concat [take 9 ?q]) \<le> length (str ''24'') + length (enc_scgi scgi_sample)"
    "decimal_of (length (enc_scgi scgi_sample)) (str ''24'')"
    "length (enc_vars scgi_sample) < ps_buffer_size pconf_small"
    using q scgi_sample_ok by (simp_all add: pconf_small_def)
  from uwsgi_proto_scgi_parser_correct [OF packet_new r cut len(1-3) scgi_sample_ok(2,3) len(4)] show ?thesis
    unfolding append_Cons append_Nil by blast
qed

text \<open>
  C40: An SCGI request cut right before its comma is not waited for: the parser looks at the
  byte of its buffer that has not been received yet.  With the buffer exactly full this is a
  read behind its end; otherwise the request is refused unless that byte happens to be a comma.
\<close>

theorem scgi_parse_ignores_missing_comma:
  assumes "packet c r []" "pq_buf r = Some m" "length m = ps_buffer_size c"
    and "m = ds @ 58 # enc_scgi kvs @ ys" "pq_pos r = length ds + 1 + length (enc_scgi kvs)"
    and "\<forall>kv\<in>set kvs. scgi_ok kv" "kvs \<noteq> []" "decimal_of (length (enc_scgi kvs)) ds"
    and "length (enc_vars kvs) < ps_buffer_size c" "ys = [] \<or> hd ys \<noteq> 44"
  shows "if ys = [] then scgi_parse c r = None else \<exists>r'. scgi_parse c r = Some (-1, r')"
proof -
  have "pq_pos r \<le> length m" using assms(4,5) by simp
  from scgi_parse_body [OF assms(6-8,1,9,2,3) this assms(4)] assms(5,10) show ?thesis
    by (cases ys) auto
qed

theorem scgi_parse_ignores_missing_comma_witness:
  "\<exists>r'. scgi_parse pconf_small ((preq_new 100)\<lparr>pq_pos := 27,
       pq_buf := Some (str ''24'' @ 58 # enc_scgi scgi_sample @ replicate 73 0)\<rparr>) = Some (-1, r')"
proof -
  let ?r = "(preq_new 100)\<lparr>pq_pos := 27, pq_buf := Some (str ''24'' @ 58 # enc_scgi scgi_sample @ replicate 73 0)\<rparr>"
  have "packet pconf_small ?r []" using packet_new by (simp add: packet_def)
  moreover have "replicate 73 (0 :: byte) \<noteq> []" "hd (replicate 73 (0 :: byte)) \<noteq> 44" by simp_all
  ultimately show ?thesis
    using scgi_parse_ignores_missing_comma [of pconf_small ?r "str ''24'' @ 58 # enc_scgi scgi_sample @ replicate 73 0"
        "str ''24''" scgi_sample "replicate 73 0"] scgi_sample_ok
    by (simp add: pconf_small_def)
qed

text \<open>
  C13: The parameters of a FastCGI request with the id 1 that is not longer than the buffer, whose
  keys are not empty and whose PARAMS records hold whole pairs, are read to the end however the
  stream of records is cut into reads: other records are ignored, the packet holds exactly the
  pairs of the PARAMS records in order, and the parser stops at the header of the first STDIN
  record, which stays in its buffer. What the code does with a pair split over two records
  and with an empty pair is stated below.
\<close>

theorem uwsgi_proto_fastcgi_parser_correct:
  assumes "packet c r []" "pq_buf r = None" "pq_pos r = 0" "\<forall>n. alloc_ok (ps_env c) n"
    and "[] \<notin> set cs" "d \<noteq> []" "concat cs @ d = enc_records fs @ rec_header 5 n z @ rest"
    and "length (concat cs) < length (enc_records fs) + 8" "length (concat cs @ d) \<le> ps_buffer_size c"
    and "\<forall>f\<in>set fs. rec_ok f" "length (enc_vars (all_pairs fs)) < ps_buffer_size c" "n < 65536" "z < 256"
  shows "\<exists>r' m k calls. feed (uwsgi_proto_fastcgi_parser c) r (cs @ [d]) = Some (0, r', []) \<and>
     pktsize_of r' = Some k \<and> uwsgi_hooked_parse (drop 4 (pq_area r')) k = Some (0, calls) \<and>
     map (var_at (drop 4 (pq_area r'))) calls = all_pairs fs \<and>
     pq_buf r' = Some m \<and> take (pq_pos r') m = rec_header 5 n z @ rest"
proof -
  let ?sh = "rec_header 5 n z" and ?p = "concat cs"
  have "?p = take (length ?p) ((enc_records fs @ ?sh) @ rest)"
    using assms(7) by (metis append_assoc append_eq_conv_conj)
  then have "?p = take (length ?p) (enc_records fs @ ?sh)" using assms(8) by (simp del: length_concat)
  then have split: "?p @ drop (length ?p) (enc_records fs @ ?sh) = enc_records fs @ ?sh"
    by (metis append_take_drop_id)
  have "length ?p < length (enc_records fs @ ?sh)" using assms(8) unfolding length_append length_rec_header .
  then have "drop (length ?p) (enc_records fs @ ?sh) \<noteq> []" by (simp only: drop_eq_Nil not_le)
  with split have pend: "fcgi_pending c fs ?sh ?p"
    using assms(4,9-11) by (auto simp: fcgi_pending_def simp del: length_concat)
  have "part_of fs []" by (cases fs) (auto simp: part_of_def)
  moreover have "fcgi_holds c r [] []" using assms(1-3) by (simp add: fcgi_holds_def)
  ultimately have seen: "fcgi_seen c fs r []"
    unfolding fcgi_seen_def by (intro exI [of _ "[]"] exI [of _ fs]) simp
  have "\<exists>ret r'. feed (uwsgi_proto_fastcgi_parser c) r (cs @ [d]) = Some (ret, r', []) \<and>
     (ret = 0 \<and> fcgi_holds c r' (all_pairs fs) (?sh @ rest))"
    by (rule fcgi_in.feed_last [OF seen assms(5) pend])
      (use fcgi_last_piece [OF _ assms(6,9,7,12,13,10,11)] in fastforce)
  then obtain r' where r': "feed (uwsgi_proto_fastcgi_parser c) r (cs @ [d]) = Some (0, r', [])"
    "fcgi_holds c r' (all_pairs fs) (?sh @ rest)" by blast
  have pk: "packet c r' (enc_vars (all_pairs fs))" using r'(2) by (simp add: fcgi_holds_def)
  have ok: "\<forall>kv\<in>set (all_pairs fs). var_ok kv" using assms(10) by (auto simp: all_pairs_def rec_ok_def)
  obtain k calls where "pktsize_of r' = Some k" "uwsgi_hooked_parse (drop 4 (pq_area r')) k = Some (0, calls)"
    "map (var_at (drop 4 (pq_area r'))) calls = all_pairs fs"
    using packet_parses [OF pk ok] by blast
  moreover obtain m where "pq_buf r' = Some m" "take (pq_pos r') m = ?sh @ rest"
    using r'(2) by (auto simp: fcgi_holds_def rec_header_def split: option.splits)
  ultimately show ?thesis using r'(1) by blast
qed

definition fcgi_sample :: "frec list" where
  "fcgi_sample = [Other 1 [0, 1, 0, 0, 0, 0, 0, 0] [], Params [(str ''a'', str ''bc'')] [0, 0], Params [] []]"

lemma fcgi_sample_ok:
  "\<forall>f\<in>set fcgi_sample. rec_ok f" "all_pairs fcgi_sample = [(str ''a'', str ''bc'')]"
  "length (enc_records fcgi_sample) = 39" "length (enc_vars (all_pairs fcgi_sample)) = 7"
  by (simp_all add: fcgi_sample_def rec_ok_def var_ok_def length_enc_frec fcgi_len_def)

theorem uwsgi_proto_fastcgi_parser_correct_witness:
  "\<exists>r' k calls. feed (uwsgi_proto_fastcgi_parser pconf_small) (preq_new 100)
       [take 30 (enc_records fcgi_sample), drop 30 (enc_records fcgi_sample) @ rec_header 5 0 0] = Some (0, r', []) \<and>
     uwsgi_hooked_parse (drop 4 (pq_area r')) k = Some (0, calls) \<and>
     map (var_at (drop 4 (pq_area r'))) calls = [(str ''a'', str ''bc'')]"
proof -
  let ?q = "enc_records fcgi_sample"
  have r: "pq_buf (preq_new 100) = None" "pq_pos (preq_new 100) = 0" "\<forall>n. alloc_ok (ps_env pconf_small) n"
    by (simp_all add: preq_new_def pconf_small_def)
  have cut: "[] \<notin> set [take 30 ?q]" "drop 30 ?q @ rec_header 5 0 0 \<noteq> []"
    "concat [take 30 ?q] @ drop 30 ?q @ rec_header 5 0 0 = ?q @ rec_header 5 0 0 @ []"
    using fcgi_sample_ok(3) by auto
  have len: "length (concat [take 30 ?q]) < length ?q + 8"
    "length (concat [take 30 ?q] @ drop 30 ?q @ rec_header 5 0 0) \<le> ps_buffer_size pconf_small"
    "length (enc_vars (all_pairs fcgi_sample)) < ps_buffer_size pconf_small" "(0 :: nat) < 65536" "(0 :: nat) < 256"
    using fcgi_sample_ok by (simp_all add: pconf_small_def)
  obtain r' m k calls where "feed (uwsgi_proto_fastcgi_parser pconf_small) (preq_new 100) ([take 30 ?q] @ [drop 30 ?q @ rec_header 5 0 0]) = Some (0, r', [])"
    "uwsgi_hooked_parse (drop 4 (pq_area r')) k = Some (0, calls)"
    "map (var_at (drop 4 (pq_area r'))) calls = all_pairs fcgi_sample"
    using uwsgi_proto_fastcgi_parser_correct [OF packet_new r cut len(1,2) fcgi_sample_ok(1) len(3-5)] by (elim exE conjE)
  then show ?thesis unfolding append_Cons append_Nil fcgi_sample_ok(2) by (intro exI conjI)
qed

text \<open>
  A pair that is split over two PARAMS records, which the FastCGI protocol allows, is refused:
  a record with any whole pairs and then a proper non-empty part of the bytes of one more pair,
  cut inside a length, inside the key or inside the value, gives -1.
\<close>

theorem fastcgi_to_uwsgi_rejects_split_pair:
  assumes "\<forall>kv\<in>set kvs. var_ok kv" "packet c r s" "length s + length (enc_vars kvs) < ps_buffer_size c"
    and "var_ok kv" "0 < i" "i < length (enc_fcgi [kv])"
    and "m = pre @ enc_fcgi kvs @ take i (enc_fcgi [kv]) @ ys"
  shows "\<exists>a. fastcgi_to_uwsgi c r m (length pre) (length (enc_fcgi kvs) + i) 0 = Some (-1, r\<lparr>pq_area := a\<rparr>)"
proof -
  let ?base = "length pre" and ?j = "length (enc_fcgi kvs)"
  obtain k v where kv: "kv = (k, v)" by (cases kv)
  let ?K = "fcgi_len (length k)" and ?V = "fcgi_len (length v)"
  have ok: "k \<noteq> []" "length k < 65536" "length v < 65536" using assms(4) kv by (auto simp: var_ok_def)
  have ex: "enc_fcgi [kv] = ?K @ ?V @ k @ v" using kv by simp
  obtain a where a: "fastcgi_to_uwsgi c r m ?base (?j + i) 0 =
      fastcgi_to_uwsgi c (r\<lparr>pq_area := a\<rparr>) m ?base (?j + i) ?j"
    using fcgi_pairs_go_on [OF assms(1-3,7), of ?base 0 "?j + i"] by auto
  have "fastcgi_to_uwsgi c r' m ?base (?j + i) ?j = Some (-1, r')" for r'
    by (rule fcgi_cut_pair [where pre = "pre @ enc_fcgi kvs" and k = k and v = v and i = i and ys = ys]) (use assms ok kv ex in auto)
  then show ?thesis unfolding a by blast
qed

theorem fastcgi_to_uwsgi_rejects_split_pair_witness:
  "\<exists>a. fastcgi_to_uwsgi pconf_small (preq_new 100)
       (replicate 8 0 @ [1, 1] @ str ''ab'' @ [1, 3] @ str ''k'' @ str ''va'') 8 9 0 = Some (-1, (preq_new 100)\<lparr>pq_area := a\<rparr>)"
proof -
  let ?kvs = "[(str ''a'', str ''b'')]" and ?kv = "(str ''k'', str ''val'')"
  have ok: "\<forall>kv\<in>set ?kvs. var_ok kv" "var_ok ?kv" by (simp_all add: var_ok_def)
  have fit: "length ([] :: bytes) + length (enc_vars ?kvs) < ps_buffer_size pconf_small"
    by (simp add: enc_vars_def enc_var_def pconf_small_def)
  have len: "(0 :: nat) < 5" "5 < length (enc_fcgi [?kv])" by (simp_all add: fcgi_len_def)
  have "(replicate 8 0 @ [1, 1] @ str ''ab'' @ [1, 3] @ str ''k'' @ str ''va'' :: bytes) =
      replicate 8 0 @ enc_fcgi ?kvs @ take 5 (enc_fcgi [?kv]) @ []"
    by (simp add: fcgi_len_def str_def)
  from fastcgi_to_uwsgi_rejects_split_pair [OF ok(1) packet_new fit ok(2) len this]
  show ?thesis by (simp add: fcgi_len_def)
qed

text \<open>
  The pair with an empty key and an empty value ends the record: the step behind a pair is
  computed in 32 bits, where its length 0 less one is 4294967295. The rest of the record, whatever
  it holds, is dropped and 0 is returned.
\<close>

theorem fastcgi_to_uwsgi_drops_behind_empty_pair:
  assumes "\<forall>kv\<in>set kvs. var_ok kv" "packet c r s" "length s + length (enc_vars kvs) + 4 < ps_buffer_size c"
    and "m = pre @ enc_fcgi kvs @ [0, 0] @ ys @ zs" "ys \<noteq> []" "length ys < 65536"
  shows "\<exists>a. fastcgi_to_uwsgi c r m (length pre) (length (enc_fcgi kvs) + 2 + length ys) 0 = Some (0, r\<lparr>pq_area := a\<rparr>) \<and>
             packet c (r\<lparr>pq_area := a\<rparr>) (s @ enc_vars kvs @ enc_var ([], []))"
proof -
  let ?base = "length pre" and ?j = "length (enc_fcgi kvs)"
  let ?len = "?j + 2 + length ys"
  obtain a where a: "fastcgi_to_uwsgi c r m ?base ?len 0 = fastcgi_to_uwsgi c (r\<lparr>pq_area := a\<rparr>) m ?base ?len ?j"
    "packet c (r\<lparr>pq_area := a\<rparr>) (s @ enc_vars kvs)"
    using fcgi_pairs_go_on [OF assms(1,2) _ assms(4), of ?base 0 ?len] assms(3) by auto
  obtain b where b: "put_pair c (r\<lparr>pq_area := a\<rparr>) [] [] = Some (Some (r\<lparr>pq_area := a\<rparr>\<lparr>pq_area := b\<rparr>))"
    "packet c (r\<lparr>pq_area := a\<rparr>\<lparr>pq_area := b\<rparr>) ((s @ enc_vars kvs) @ enc_var ([], []))"
    using put_pair_fits [OF a(2), of "[]" "[]"] assms(3) by (auto simp: enc_var_def)
  have z: "fcgi_len 0 = [0]" by (simp add: fcgi_len_def)
  have ys: "0 < length ys" using assms(5) by simp
  have kl: "fcgi_length m ?base ?len ?j = Some (Some (0, ?j + 1))"
    using fcgi_length_read [of m "pre @ enc_fcgi kvs" 0 "[0] @ ys @ zs" ?base ?j ?len] assms(4) z ys by simp
  have vl: "fcgi_length m ?base ?len (?j + 1) = Some (Some (0, ?j + 2))"
    using fcgi_length_read [of m "pre @ enc_fcgi kvs @ [0]" 0 "ys @ zs" ?base "?j + 1" ?len] assms(4) z ys by simp
  have rd: "mem_read m (?base + (?j + 2)) 0 = Some []" by (simp add: mem_read_def assms(4))
  have fc: "length (enc_fcgi kvs) + 2 + length ys \<le> ?j + 2 + 4294967295 + 1" using assms(6) by simp
  have "fastcgi_to_uwsgi c (r\<lparr>pq_area := a\<rparr>) m ?base ?len ?j =
      fastcgi_to_uwsgi c (r\<lparr>pq_area := a\<rparr>\<lparr>pq_area := b\<rparr>) m ?base ?len (?j + 2 + 4294967295 + 1)"
    using kl vl rd b(1) ys by (subst fastcgi_to_uwsgi.simps) (simp add: Let_def)
  also have "\<dots> = Some (0, r\<lparr>pq_area := a\<rparr>\<lparr>pq_area := b\<rparr>)"
    using fc by (subst fastcgi_to_uwsgi.simps) simp
  finally show ?thesis using a(1) b(2) by (intro exI [of _ b]) simp
qed

theorem fastcgi_to_uwsgi_drops_behind_empty_pair_witness:
  "\<exists>a. fastcgi_to_uwsgi pconf_small (preq_new 100) (replicate 8 0 @ [0, 0] @ [1, 1] @ str ''kv'') 8 6 0 =
       Some (0, (preq_new 100)\<lparr>pq_area := a\<rparr>) \<and>
     packet pconf_small ((preq_new 100)\<lparr>pq_area := a\<rparr>) (enc_var ([], []))"
proof -
  have "\<forall>kv\<in>set []. var_ok kv" "length ([] :: bytes) + length (enc_vars []) + 4 < ps_buffer_size pconf_small"
    "replicate 8 0 @ [0, 0] @ [1, 1] @ str ''kv'' = replicate 8 0 @ enc_fcgi [] @ [0, 0] @ ([1, 1] @ str ''kv'') @ []"
    "[1, 1] @ str ''kv'' \<noteq> []" "length ([1, 1] @ str ''kv'') < 65536"
    by (simp_all add: pconf_small_def enc_vars_def)
  from fastcgi_to_uwsgi_drops_behind_empty_pair [OF this(1) packet_new this(2-5)] show ?thesis
    by (simp add: enc_vars_def numeral_eq_Suc)
qed

text \<open>
  C18: The FastCGI output is the body cut into records: whenever the writes end with 0, the bytes
  sent are records of at most 65535 bytes each whose contents make up the body, however the
  writes were accepted; and they do end with 0 when each write takes at least one byte.
\<close>

theorem uwsgi_proto_fastcgi_write_correct:
  assumes "pq_status r = 0" "pq_write_pos r = 0" "data \<noteq> []" "length data < SIZE_MOD"
  shows "(\<forall>out r'. write_all r data evs = Some (0, out, r') \<longrightarrow>
            (\<exists>cs. out = stdout_records (pq_stream r) cs \<and> concat cs = data \<and> record_sizes cs)) \<and>
         ((\<forall>ev\<in>set evs. \<exists>k. ev = Accepts k \<and> 0 < k) \<and> length data \<le> length evs \<longrightarrow>
            (\<exists>out r'. write_all r data evs = Some (0, out, r')))"
  using write_all_inside [of r data evs] write_all_ends [of r data evs] assms by fastforce

theorem uwsgi_proto_fastcgi_write_correct_witness:
  "\<exists>out r' cs. write_all (preq_new 100) (str ''hello'') (replicate 5 (Accepts 2)) = Some (0, out, r') \<and>
     out = stdout_records (0, 0) cs \<and> concat cs = str ''hello''"
proof -
  have p: "pq_status (preq_new 100) = 0" "pq_write_pos (preq_new 100) = 0" "pq_stream (preq_new 100) = (0, 0)"
    by (simp_all add: preq_new_def)
  have "str ''hello'' \<noteq> []" "length (str ''hello'') < SIZE_MOD" by simp_all
  from uwsgi_proto_fastcgi_write_correct [OF p(1,2) this, of "replicate 5 (Accepts 2)"] p(3) show ?thesis
    by fastforce
qed


text \<open>
  After a partial \<^verbatim>\<open>writev\<close> the vector left holds exactly the bytes not sent yet, whatever
  number of bytes the kernel took.
\<close>

theorem uwsgi_proto_base_writev_keeps_rest:
  assumes "uwsgi_proto_base_writev r iov ev = (1, out, iov', r')"
  shows "out @ concat iov' = concat iov"
  using writev_rest [OF assms] by simp

theorem uwsgi_proto_base_writev_keeps_rest_witness:
  "\<exists>out iov' r'. uwsgi_proto_base_writev (preq_new 8) [[1, 2], [3, 4, 5], [6]] (Accepts 3) = (1, out, iov', r') \<and>
     out @ concat iov' = [1, 2, 3, 4, 5, 6]"
proof -
  obtain out iov' r' where w: "uwsgi_proto_base_writev (preq_new 8) [[1, 2], [3, 4, 5], [6]] (Accepts 3) = (1, out, iov', r')"
    by (simp add: uwsgi_proto_base_writev_def)
  from uwsgi_proto_base_writev_keeps_rest [OF w] w show ?thesis by simp
qed

end
