(* ===== verification/Chunked.thy ===== *)
theory Chunked
  imports Protos
begin

text \<open>
  The reader of chunked request bodies, \<^verbatim>\<open>core/chunked.c\<close>: a buffer that is filled from the
  connection and a parser with two states, the size line and the body of a chunk.

  The connection is the list of what its reads will deliver; a read takes what there is room
  for and leaves the rest, and the end of the list is the end of the stream.  \<open>waits\<close> are the
  results of the calls of \<^verbatim>\<open>wait_read_hook\<close>.
\<close>

section \<open>Reading from the connection\<close>

fun net_read :: "nat \<Rightarrow> io list \<Rightarrow> io \<times> io list" where
  "net_read room [] = (Bytes [], [])"
| "net_read room (Bytes bs # evs) =
     (Bytes (take room bs), if room < length bs then Bytes (drop room bs) # evs else evs)"
| "net_read room (ev # evs) = (ev, evs)"

fun net_bytes :: "io list \<Rightarrow> bytes" where
  "net_bytes [] = []"
| "net_bytes (Bytes bs # evs) = bs @ net_bytes evs"
| "net_bytes (_ # evs) = net_bytes evs"

record chan =
  ch_evs :: "io list"
  ch_waits :: "int list"

text \<open>\<^verbatim>\<open>uwsgi_chunked_input_recv\<close>: the bytes read, or nothing for -1.\<close>

definition uwsgi_chunked_input_recv :: "nat \<Rightarrow> bool \<Rightarrow> chan \<Rightarrow> bytes option \<times> chan" where
  "uwsgi_chunked_input_recv room nb cn =
     (case net_read room (ch_evs cn) of
        (Bytes bs, evs) \<Rightarrow> (if bs = [] then None else Some bs, cn\<lparr>ch_evs := evs\<rparr>)
      | (Broken, evs) \<Rightarrow> (None, cn\<lparr>ch_evs := evs\<rparr>)
      | (Again, evs) \<Rightarrow>
          if nb then (None, cn\<lparr>ch_evs := evs\<rparr>)
          else (case ch_waits cn of
              [] \<Rightarrow> (None, cn\<lparr>ch_evs := evs\<rparr>)
            | w # ws \<Rightarrow>
                if w > 0 then
                  (case net_read room evs of
                     (Bytes bs, evs) \<Rightarrow> (if bs = [] then None else Some bs, cn\<lparr>ch_evs := evs, ch_waits := ws\<rparr>)
                   | (_, evs) \<Rightarrow> (None, cn\<lparr>ch_evs := evs, ch_waits := ws\<rparr>))
                else (None, cn\<lparr>ch_evs := evs, ch_waits := ws\<rparr>)))"

section \<open>The size line\<close>

text \<open>
  \<^verbatim>\<open>strtoul(s, NULL, 16)\<close> on an area that need not hold a terminator: white space, a sign, an
  optional \<^verbatim>\<open>0x\<close>, the digits; the value saturates.  Running over the end of the area is undefined.
\<close>

fun hex_value :: "bytes \<Rightarrow> nat \<Rightarrow> nat option" where
  "hex_value [] acc = None"
| "hex_value (b # bs) acc =
     (case hex_val b of None \<Rightarrow> Some acc | Some d \<Rightarrow> hex_value bs (acc * 16 + d))"

definition hex_body :: "bytes \<Rightarrow> nat option" where
  "hex_body s =
     (case s of
        z # x # h # bs \<Rightarrow>
          if z = 48 \<and> (x = 120 \<or> x = 88) \<and> hex_val h \<noteq> None then hex_value (h # bs) 0 else hex_value s 0
      | _ \<Rightarrow> hex_value s 0)"

definition strtoul16 :: "bytes \<Rightarrow> nat option" where
  "strtoul16 s =
     (case dropWhile isspace s of
        [] \<Rightarrow> None
      | b # bs \<Rightarrow>
          if b = 45 then map_option (\<lambda>v. sz_sub 0 (min v (SIZE_MOD - 1))) (hex_body bs)
          else if b = 43 then map_option (\<lambda>v. min v (SIZE_MOD - 1)) (hex_body bs)
          else map_option (\<lambda>v. min v (SIZE_MOD - 1)) (hex_body (b # bs)))"

definition line_char :: "byte \<Rightarrow> bool" where
  "line_char b = (48 \<le> b \<and> b \<le> 57 \<or> 97 \<le> b \<and> b \<le> 122 \<or> 65 \<le> b \<and> b \<le> 90)"

text \<open>
  \<^verbatim>\<open>uwsgi_chunked_readline\<close>: the scan gives the length of a complete line, -1 or -2; the number is
  a \<^verbatim>\<open>size_t\<close> that comes back as a signed \<^verbatim>\<open>ssize_t\<close>.
\<close>

fun line_scan :: "bytes \<Rightarrow> bool \<Rightarrow> nat \<Rightarrow> int + nat" where
  "line_scan [] found i = Inl (-2)"
| "line_scan (b # bs) found i =
     (if found then (if b = 10 then Inr i else Inl (-1))
      else if line_char b then line_scan bs False (i + 1)
      else if b = 13 then line_scan bs True (i + 1)
      else Inl (-1))"

definition uwsgi_chunked_readline :: "ubuf \<Rightarrow> (int \<times> ubuf) option" where
  "uwsgi_chunked_readline ub =
     (case line_scan (take (bpos ub) (buf ub)) False 0 of
        Inl e \<Rightarrow> Some (e, ub)
      | Inr i \<Rightarrow> do {
          num \<leftarrow> strtoul16 (buf ub);
          (ub, ret) \<leftarrow> uwsgi_buffer_decapitate ub (i + 1);
          Some (if ret \<noteq> 0 then -1 else to_signed 8 num, ub) })"

section \<open>Reading a chunk\<close>

record chunked =
  ck_buf :: "ubuf option"
  ck_complete :: bool
  ck_decapitate :: nat
  ck_need :: nat
  ck_status :: nat
  ck_chunk_len :: int

record ckconf =
  ck_env :: cenv
  ck_limit :: nat

text \<open>
  A pass of the loop once its bytes are there.  It returns (\<open>Inl\<close>: nothing for the null pointer,
  or the length of the chunk at the start of the buffer) or goes round again (\<open>Inr\<close>).
  \<^verbatim>\<open>chunk_len + 2\<close> is signed arithmetic: beyond \<open>2 ^ 63\<close> it is undefined.  The status is 0 or 1
  (any other would make the loop spin for ever).
\<close>

definition chunk_body :: "chunked \<Rightarrow> ubuf \<Rightarrow> int \<Rightarrow> bool \<Rightarrow> ((nat option + unit) \<times> chunked) option" where
  "chunk_body r ub clen waiting =
     (if clen + 2 \<ge> 2 ^ 63 then None
      else if nat (clen + 2) > bpos ub then
        Some (Inr (), r\<lparr>ck_need := nat (clen + 2) - bpos ub, ck_status := 1\<rparr>)
      else Some (Inl (Some (nat clen)),
                 if waiting then r\<lparr>ck_decapitate := nat (clen + 2), ck_status := 0\<rparr>
                 else r\<lparr>ck_decapitate := nat (clen + 2)\<rparr>))"

definition chunk_parse :: "chunked \<Rightarrow> ((nat option + unit) \<times> chunked) option" where
  "chunk_parse r = do {
     ub \<leftarrow> ck_buf r;
     (if bpos ub = 0 then Some (Inr (), r)
      else if ck_status r = 0 then do {
        (clen, ub) \<leftarrow> uwsgi_chunked_readline ub;
        let r = r\<lparr>ck_buf := Some ub, ck_chunk_len := clen\<rparr>;
        (if clen = -2 then Some (Inr (), r\<lparr>ck_need := ck_need r + 1\<rparr>)
         else if clen < 0 then Some (Inl None, r)
         else if clen = 0 then Some (Inl (Some 0), r\<lparr>ck_complete := True\<rparr>)
         else chunk_body r ub clen False) }
      else if ck_status r = 1 then chunk_body r ub (ck_chunk_len r) True
      else None) }"

definition chunk_fill ::
  "ckconf \<Rightarrow> bool \<Rightarrow> chunked \<Rightarrow> chan \<Rightarrow> (bool \<times> chunked \<times> chan) option" where
  "chunk_fill c nb r cn = do {
     ub \<leftarrow> ck_buf r;
     (case uwsgi_buffer_ensure (ck_env c) ub (max (page_size (ck_env c)) (ck_need r)) of (ub, ret) \<Rightarrow>
        if ret \<noteq> 0 then Some (False, r\<lparr>ck_buf := Some ub\<rparr>, cn)
        else (case uwsgi_chunked_input_recv (sz_sub (blen ub) (bpos ub)) nb cn of (res, cn) \<Rightarrow>
          (case res of
             None \<Rightarrow> Some (False, r\<lparr>ck_buf := Some ub\<rparr>, cn)
           | Some bs \<Rightarrow> do {
               m \<leftarrow> mem_write (buf ub) (bpos ub) bs;
               Some (True, r\<lparr>ck_buf := Some (ub\<lparr>buf := m, bpos := bpos ub + length bs\<rparr>),
                             ck_need := ck_need r - length bs\<rparr>, cn) }))) }"

definition chunk_pass ::
  "ckconf \<Rightarrow> bool \<Rightarrow> chunked \<Rightarrow> chan \<Rightarrow> ((nat option + unit) \<times> chunked \<times> chan) option" where
  "chunk_pass c nb r cn = do {
     ub \<leftarrow> ck_buf r;
     (go, r, cn) \<leftarrow> (if ck_need r > 0 \<or> bpos ub = 0 then chunk_fill c nb r cn else Some (True, r, cn));
     (if \<not> go then Some (Inl None, r, cn)
      else if ck_need r > 0 then Some (Inr (), r, cn)
      else do { (res, r) \<leftarrow> chunk_parse r; Some (res, r, cn) }) }"

text \<open>
  Every pass that goes round again has taken bytes from the connection or has found that it
  needs some, so the loop ends however the peer behaves.
\<close>

definition chunk_measure :: "chunked \<Rightarrow> chan \<Rightarrow> nat" where
  "chunk_measure r cn = 2 * length (net_bytes (ch_evs cn)) + (if ck_need r = 0 then 1 else 0)"

lemma net_read_bytes:
  "net_read room evs = (Bytes bs, evs') \<Longrightarrow> net_bytes evs = bs @ net_bytes evs'"
  by (induction room evs rule: net_read.induct) (auto split: if_splits)

lemma net_read_other:
  "net_read room evs = (ev, evs') \<Longrightarrow> ev = Again \<or> ev = Broken \<Longrightarrow> net_bytes evs = net_bytes evs'"
  by (induction room evs rule: net_read.induct) (auto split: if_splits)

lemma recv_bytes:
  assumes "uwsgi_chunked_input_recv room nb cn = (Some bs, cn')"
  shows "bs \<noteq> []" "net_bytes (ch_evs cn) = bs @ net_bytes (ch_evs cn')"
  using assms
  by (auto simp: uwsgi_chunked_input_recv_def split: prod.splits io.splits list.splits if_splits
      dest!: net_read_bytes net_read_other)

lemma net_read_room: "net_read room evs = (Bytes bs, evs') \<Longrightarrow> length bs \<le> room"
  by (induction room evs rule: net_read.induct) (auto split: if_splits)

lemma recv_room:
  assumes "uwsgi_chunked_input_recv room nb cn = (Some bs, cn')"
  shows "length bs \<le> room"
  using assms
  by (auto simp: uwsgi_chunked_input_recv_def split: prod.splits io.splits list.splits if_splits
      dest!: net_read_room)

lemma chunk_fill_shrinks:
  assumes "chunk_fill c nb r cn = Some (True, r', cn')"
  shows "length (net_bytes (ch_evs cn')) < length (net_bytes (ch_evs cn))"
proof -
  from assms obtain room bs where "uwsgi_chunked_input_recv room nb cn = (Some bs, cn')"
    by (auto simp: chunk_fill_def split: bind_splits prod.splits if_splits option.splits)
  from recv_bytes [OF this] show ?thesis by simp
qed

lemma chunk_parse_again:
  assumes "chunk_parse r = Some (Inr (), r')" "ck_need r = 0" "ck_buf r = Some ub" "bpos ub \<noteq> 0"
  shows "ck_need r' > 0"
  using assms by (auto simp: chunk_parse_def chunk_body_def Let_def split: bind_splits prod.splits if_splits)

lemma chunk_fill_fills:
  assumes "chunk_fill c nb r cn = Some (True, r', cn')"
  shows "\<exists>ub. ck_buf r' = Some ub \<and> bpos ub \<noteq> 0"
  using assms
  by (auto simp: chunk_fill_def split: bind_splits prod.splits if_splits option.splits dest: recv_bytes(1))

lemma chunk_pass_decreases:
  assumes "chunk_pass c nb r cn = Some (Inr (), r', cn')"
  shows "chunk_measure r' cn' < chunk_measure r cn"
proof -
  from assms obtain ub go r1 where
    ub: "ck_buf r = Some ub" and
    f: "(if ck_need r > 0 \<or> bpos ub = 0 then chunk_fill c nb r cn else Some (True, r, cn)) = Some (go, r1, cn')" and
    go: "go" and
    p: "ck_need r1 > 0 \<and> r' = r1 \<or> ck_need r1 = 0 \<and> chunk_parse r1 = Some (Inr (), r')"
    by (auto simp: chunk_pass_def split: bind_splits prod.splits if_splits)
  show ?thesis
  proof (cases "ck_need r > 0 \<or> bpos ub = 0")
    case True
    then have "chunk_fill c nb r cn = Some (True, r1, cn')" using f go by simp
    from chunk_fill_shrinks [OF this] show ?thesis by (auto simp: chunk_measure_def)
  next
    case False
    then have "r1 = r" "cn' = cn" "ck_need r = 0" "bpos ub \<noteq> 0" using f go by auto
    with p chunk_parse_again [of r r' ub] ub show ?thesis by (auto simp: chunk_measure_def)
  qed
qed

function chunk_loop ::
  "ckconf \<Rightarrow> bool \<Rightarrow> chunked \<Rightarrow> chan \<Rightarrow> (nat option \<times> chunked \<times> chan) option" where
  "chunk_loop c nb r cn =
     (case chunk_pass c nb r cn of
        None \<Rightarrow> None
      | Some (res, r1, cn1) \<Rightarrow>
          (case res of Inl v \<Rightarrow> Some (v, r1, cn1) | Inr u \<Rightarrow> chunk_loop c nb r1 cn1))"
  by auto
termination
  by (relation "measure (\<lambda>(c, nb, r, cn). chunk_measure r cn)") (auto intro: chunk_pass_decreases)

declare chunk_loop.simps [simp del]

text \<open>
  \<^verbatim>\<open>uwsgi_chunked_read\<close>: the length and the buffer whose first bytes are the chunk, or nothing
  for the null pointer.
\<close>

definition uwsgi_chunked_read ::
  "ckconf \<Rightarrow> bool \<Rightarrow> chunked \<Rightarrow> chan \<Rightarrow> (nat option \<times> chunked \<times> chan) option" where
  "uwsgi_chunked_read c nb r cn = do {
     let r = (case ck_buf r of
                None \<Rightarrow> r\<lparr>ck_buf := Some ((uwsgi_buffer_new (ck_env c) (page_size (ck_env c)))
                                            \<lparr>limit := ck_limit c\<rparr>)\<rparr>
              | Some _ \<Rightarrow> r);
     ub \<leftarrow> ck_buf r;
     (if ck_complete r then Some (Some 0, r, cn)
      else if ck_decapitate r > 0 then do {
        (ub, ret) \<leftarrow> uwsgi_buffer_decapitate ub (ck_decapitate r);
        (if ret \<noteq> 0 then Some (None, r\<lparr>ck_buf := Some ub\<rparr>, cn)
         else chunk_loop c nb (r\<lparr>ck_buf := Some ub, ck_decapitate := 0\<rparr>) cn) }
      else chunk_loop c nb r cn) }"

section \<open>What a well-behaved peer sends\<close>

text \<open>
  A line of hexadecimal digits and its value, a chunk on the wire, and a connection that
  delivers: no read comes back empty or broken, and a read that would block is followed by data
  once the wait hook has returned.
\<close>

definition hex_num :: "bytes \<Rightarrow> nat \<Rightarrow> nat" where
  "hex_num l acc = foldl (\<lambda>a b. a * 16 + the (hex_val b)) acc l"

definition hex_line :: "bytes \<Rightarrow> nat \<Rightarrow> bool" where
  "hex_line l n \<longleftrightarrow> l \<noteq> [] \<and> (\<forall>b\<in>set l. hex_val b \<noteq> None) \<and> hex_num l 0 = n"

abbreviation CRLF :: bytes where
  "CRLF \<equiv> [13, 10]"

definition chunk_wire :: "bytes \<times> bytes \<Rightarrow> bytes" where
  "chunk_wire x = fst x @ CRLF @ snd x @ CRLF"

fun delivers :: "bool \<Rightarrow> io list \<Rightarrow> int list \<Rightarrow> bool" where
  "delivers nb [] ws = True"
| "delivers nb (Bytes bs # evs) ws = (bs \<noteq> [] \<and> delivers nb evs ws)"
| "delivers nb (Again # Bytes bs # evs) (w # ws) = (\<not> nb \<and> w > 0 \<and> bs \<noteq> [] \<and> delivers nb evs ws)"
| "delivers nb _ ws = False"

lemma hex_val_line_char: "hex_val b \<noteq> None \<Longrightarrow> line_char b \<and> \<not> isspace b \<and> b \<noteq> 45 \<and> b \<noteq> 43 \<and> b \<noteq> 120 \<and> b \<noteq> 88"
  by (auto simp: hex_val_def line_char_def isspace_def split: if_splits; unat_arith; auto)

lemma hex_value_line:
  "\<forall>b\<in>set l. hex_val b \<noteq> None \<Longrightarrow> hex_val t = None \<Longrightarrow> hex_value (l @ t # X) acc = Some (hex_num l acc)"
  by (induction l arbitrary: acc) (auto simp: hex_num_def)

lemma hex_body_line:
  assumes "hex_line l n" "hex_val t = None" "t \<noteq> 120" "t \<noteq> 88"
  shows "hex_body (l @ t # X) = Some n"
proof -
  have v: "hex_value (l @ t # X) 0 = Some n"
    using assms(1,2) by (simp add: hex_value_line hex_line_def)
  obtain z l' where l: "l = z # l'" using assms(1) by (cases l) (auto simp: hex_line_def)
  have "hd (l' @ [t]) \<noteq> 120 \<and> hd (l' @ [t]) \<noteq> 88"
    using assms hex_val_line_char by (cases l') (auto simp: hex_line_def l)
  then show ?thesis
    using v by (cases l'; cases X) (auto simp: hex_body_def l split: list.splits)
qed

lemma strtoul16_line:
  assumes "hex_line l n" "n < SIZE_MOD"
  shows "strtoul16 (l @ 13 # X) = Some n"
proof -
  obtain z l' where l: "l = z # l'" using assms(1) by (cases l) (auto simp: hex_line_def)
  have z: "\<not> isspace z" "z \<noteq> 45" "z \<noteq> 43"
    using assms(1) hex_val_line_char by (auto simp: hex_line_def l)
  have "hex_body (l @ 13 # X) = Some n"
    using assms(1) by (rule hex_body_line) (simp_all add: hex_val_def)
  then show ?thesis using z assms(2) by (simp add: strtoul16_def l)
qed

lemma line_scan_line:
  "\<forall>b\<in>set l. line_char b \<Longrightarrow> line_scan (l @ CRLF @ X) False i = Inr (i + length l + 1)"
  by (induction l arbitrary: i) (auto simp: line_char_def)

lemma line_scan_short:
  assumes "\<forall>b\<in>set l. line_char b" "length p < length l + 2" "p = take (length p) (l @ CRLF)"
  shows "line_scan p False i = Inl (-2)"
  using assms
proof (induction l arbitrary: p i)
  case Nil
  then show ?case by (cases p; cases "tl p") (auto simp: line_char_def)
next
  case (Cons b l)
  then show ?case by (cases p) auto
qed

lemma readline_complete:
  assumes "ub_wf ub" "hex_line l n" "n < 2 ^ 63" "ub_data ub = l @ CRLF @ X"
  shows "\<exists>ub'. uwsgi_chunked_readline ub = Some (int n, ub') \<and> ub_wf ub' \<and> ub_data ub' = X
           \<and> limit ub' = limit ub"
proof -
  have lc: "\<forall>b\<in>set l. line_char b" using assms(2) hex_val_line_char by (auto simp: hex_line_def)
  have len: "length (ub_data ub) = bpos ub" using assms(1) by (rule length_ub_data)
  have "buf ub = ub_data ub @ drop (bpos ub) (buf ub)" by (simp add: ub_data_def)
  then have area: "buf ub = l @ 13 # (10 # X @ drop (bpos ub) (buf ub))"
    by (subst (asm) assms(4)) simp
  have str: "strtoul16 (buf ub) = Some n"
    by (subst area, rule strtoul16_line) (use assms in auto)
  from decapitate_cases(1) [OF assms(1), of "length l + 2"] obtain ub' where
    "uwsgi_buffer_decapitate ub (length l + 2) = Some (ub', 0)" "ub_wf ub'"
    "ub_data ub' = drop (length l + 2) (ub_data ub)" "limit ub' = limit ub"
    using len assms(4) by auto
  then show ?thesis
    using line_scan_line [OF lc, of X 0] str assms(3,4)
    by (simp add: uwsgi_chunked_readline_def ub_data_def to_signed_def)
qed

lemma readline_short:
  assumes "hex_line l n" "length (ub_data ub) < length l + 2"
    and "ub_data ub = take (length (ub_data ub)) (l @ CRLF)"
  shows "uwsgi_chunked_readline ub = Some (-2, ub)"
proof -
  have lc: "\<forall>b\<in>set l. line_char b" using assms(1) hex_val_line_char by (auto simp: hex_line_def)
  have "line_scan (ub_data ub) False 0 = Inl (-2)"
    using lc assms(2,3) by (rule line_scan_short)
  then show ?thesis by (simp add: uwsgi_chunked_readline_def ub_data_def)
qed

lemma delivers_take:
  assumes "delivers nb evs ws" "net_bytes evs \<noteq> []" "room > 0"
  shows "\<exists>bs cn'. uwsgi_chunked_input_recv room nb \<lparr>ch_evs = evs, ch_waits = ws\<rparr> = (Some bs, cn') \<and>
           delivers nb (ch_evs cn') (ch_waits cn')"
  using assms
  by (cases "(nb, evs, ws)" rule: delivers.cases) (auto simp: uwsgi_chunked_input_recv_def)

lemma ensure_succeeds:
  assumes "env_ok e" "ub_wf ub" "n < OBJ_MAX" "limit ub = 0 \<or> bpos ub + n \<le> limit ub" "alloc_ok e (bpos ub + n)"
  shows "snd (uwsgi_buffer_ensure e ub n) = 0"
proof -
  have "sz_sub (blen ub) (bpos ub) = blen ub - bpos ub"
    using assms(2) by (auto simp: ub_wf_def intro!: sz_simps)
  moreover have "sz_sub n (blen ub - bpos ub) = n - (blen ub - bpos ub)"
    if "blen ub - bpos ub < n"
    using that assms(3) by (auto intro!: sz_simps)
  moreover have "sz_add (blen ub) (n - (blen ub - bpos ub)) = bpos ub + n"
    if "blen ub - bpos ub < n"
    using that assms(2,3) by (auto simp: ub_wf_def sz_add_def)
  ultimately show ?thesis
    using assms(4,5) by (auto simp: uwsgi_buffer_ensure_def Let_def realloc_area_def)
qed

text \<open>
  What holds between the passes of a read: the data buffered and the bytes still to come make
  the pending stream, and \<open>tot\<close> bounds both, so the buffer can always grow to what is needed.
\<close>

definition room_ok :: "ckconf \<Rightarrow> nat \<Rightarrow> bool" where
  "room_ok c tot \<longleftrightarrow>
     env_ok (ck_env c) \<and> page_size (ck_env c) > 0 \<and>
     (ck_limit c = 0 \<or> tot + page_size (ck_env c) \<le> ck_limit c) \<and>
     (\<forall>n \<le> tot + page_size (ck_env c). alloc_ok (ck_env c) n)"

definition pending :: "ckconf \<Rightarrow> bool \<Rightarrow> nat \<Rightarrow> chunked \<Rightarrow> chan \<Rightarrow> ubuf \<Rightarrow> bytes \<Rightarrow> bool" where
  "pending c nb tot r cn ub S \<longleftrightarrow>
     ck_buf r = Some ub \<and> ub_wf ub \<and> limit ub = ck_limit c \<and> \<not> ck_complete r \<and>
     S = ub_data ub @ net_bytes (ch_evs cn) \<and> length S \<le> tot \<and>
     delivers nb (ch_evs cn) (ch_waits cn)"

lemma chunk_fill_pending:
  assumes "room_ok c tot" "pending c nb tot r cn ub S" "net_bytes (ch_evs cn) \<noteq> []"
    and "bpos ub + ck_need r \<le> tot"
  shows "\<exists>(bs :: bytes) ub' cn'. bs \<noteq> [] \<and> chunk_fill c nb r cn =
           Some (True, r\<lparr>ck_buf := Some ub', ck_need := ck_need r - length bs\<rparr>, cn') \<and>
           pending c nb tot (r\<lparr>ck_buf := Some ub', ck_need := ck_need r - length bs\<rparr>) cn' ub' S \<and>
           bpos ub' = bpos ub + length bs"
proof -
  let ?n = "max (page_size (ck_env c)) (ck_need r)"
  from assms(2) have P: "ck_buf r = Some ub" "ub_wf ub" "limit ub = ck_limit c" "\<not> ck_complete r"
    "S = ub_data ub @ net_bytes (ch_evs cn)" "length S \<le> tot" "delivers nb (ch_evs cn) (ch_waits cn)"
    unfolding pending_def by blast+
  have le: "bpos ub + ?n \<le> tot + page_size (ck_env c)" "?n > 0"
    using assms(1,4) P(5,6) length_ub_data [OF P(2)] by (auto simp: room_ok_def)
  have al: "alloc_ok (ck_env c) (bpos ub + ?n)" "limit ub = 0 \<or> bpos ub + ?n \<le> limit ub" "env_ok (ck_env c)"
    using assms(1) le P(3) by (auto simp: room_ok_def)
  then have n: "?n < OBJ_MAX" unfolding env_ok_def by fastforce
  obtain ub1 where e: "uwsgi_buffer_ensure (ck_env c) ub ?n = (ub1, 0)"
    using ensure_succeeds [OF al(3) P(2) n al(2) al(1)] by (cases "uwsgi_buffer_ensure (ck_env c) ub ?n") auto
  from ensure_enough [OF al(3) P(2) n al(2) e] have u1: "ub_wf ub1" "ub_data ub1 = ub_data ub"
    "bpos ub1 = bpos ub" "limit ub1 = limit ub" "bpos ub + ?n \<le> blen ub1" by auto
  have room: "sz_sub (blen ub1) (bpos ub1) = blen ub1 - bpos ub1"
    using u1(1) by (auto simp: ub_wf_def intro!: sz_simps)
  moreover have "blen ub1 - bpos ub1 > 0" using u1(3,5) le(2) by linarith
  ultimately obtain bs cn' where rv:
    "uwsgi_chunked_input_recv (sz_sub (blen ub1) (bpos ub1)) nb cn = (Some bs, cn')"
    "delivers nb (ch_evs cn') (ch_waits cn')"
    using delivers_take [OF P(7) assms(3), of "sz_sub (blen ub1) (bpos ub1)"] by (cases cn) auto
  note rb = recv_bytes [OF rv(1)]
  have lb: "length bs \<le> blen ub1 - bpos ub1"
    using recv_room [OF rv(1)] room by simp
  then have "bpos ub1 + length bs \<le> length (buf ub1)" using u1(1) by (auto simp: ub_wf_def)
  then obtain m where m: "mem_write (buf ub1) (bpos ub1) bs = Some m"
    by (simp add: mem_write_def)
  let ?ub = "ub1\<lparr>buf := m, bpos := bpos ub1 + length bs\<rparr>"
  have wf: "ub_wf ?ub" "ub_data ?ub = ub_data ub @ bs"
    using u1 lb mem_write_length [OF m] mem_write_upto [OF m] by (auto simp: ub_wf_def ub_data_def)
  have "chunk_fill c nb r cn =
      Some (True, r\<lparr>ck_buf := Some ?ub, ck_need := ck_need r - length bs\<rparr>, cn')"
    using P(1) e rv(1) m by (simp add: chunk_fill_def)
  moreover have "pending c nb tot (r\<lparr>ck_buf := Some ?ub, ck_need := ck_need r - length bs\<rparr>) cn' ?ub S"
    using P rb rv(2) u1 wf by (simp add: pending_def)
  ultimately show ?thesis
    using rb(1) u1(3) by (intro exI [of _ bs] exI [of _ ?ub] exI [of _ cn']) simp
qed

definition in_step :: "nat \<Rightarrow> chunked \<Rightarrow> ubuf \<Rightarrow> bytes \<Rightarrow> bytes \<Rightarrow> bytes \<Rightarrow> bool" where
  "in_step n r ub S l T \<longleftrightarrow>
     ck_decapitate r = 0 \<and> (n = 0 \<or> n + 2 \<le> length T) \<and>
     (ck_status r = 0 \<and> S = l @ CRLF @ T \<and> hex_line l n \<and>
        (ck_need r = 0 \<or> ck_need r = 1 \<and> bpos ub < length l + 2) \<or>
      n > 0 \<and> ck_status r = 1 \<and> ck_chunk_len r = int n \<and> S = T \<and> ck_need r = n + 2 - bpos ub)"

definition chunk_ready :: "ckconf \<Rightarrow> bool \<Rightarrow> nat \<Rightarrow> nat \<Rightarrow> chunked \<Rightarrow> chan \<Rightarrow> bytes \<Rightarrow> bool" where
  "chunk_ready c nb tot n r cn T \<longleftrightarrow>
     (\<exists>ub. ck_buf r = Some ub \<and> (if n = 0 then ck_complete r
        else pending c nb tot r cn ub T \<and> n + 2 \<le> bpos ub \<and> ck_decapitate r = n + 2 \<and>
             ck_status r = 0 \<and> ck_need r = 0))"

lemma take_two: "k < 2 + m \<Longrightarrow> take (k - m) (a # b # xs) = take (k - m) [a, b]"
  by (rule disjE [of "k - m = 0" "k - m = 1"], linarith) simp_all

lemma chunk_parse_step:
  assumes "room_ok c tot" "pending c nb tot r cn ub S" "in_step n r ub S l T"
    and "ck_need r = 0" "bpos ub \<noteq> 0"
  shows "(\<exists>r' ub' S'. chunk_parse r = Some (Inr (), r') \<and> pending c nb tot r' cn ub' S' \<and> in_step n r' ub' S' l T) \<or>
         (\<exists>r'. chunk_parse r = Some (Inl (Some n), r') \<and> chunk_ready c nb tot n r' cn T)"
proof -
  from assms(2) have P: "ck_buf r = Some ub" "ub_wf ub" "limit ub = ck_limit c" "\<not> ck_complete r"
    "S = ub_data ub @ net_bytes (ch_evs cn)" "length S \<le> tot" "delivers nb (ch_evs cn) (ch_waits cn)"
    unfolding pending_def by blast+
  have len: "length (ub_data ub) = bpos ub" using P(2) by (rule length_ub_data)
  have tot: "tot < OBJ_MAX" using assms(1) unfolding room_ok_def env_ok_def by fastforce
  from assms(3) have dec: "ck_decapitate r = 0" and nT: "n = 0 \<or> n + 2 \<le> length T"
    by (simp_all add: in_step_def)
  from assms(3) consider
      (line) "ck_status r = 0" "S = l @ CRLF @ T" "hex_line l n"
    | (body) "n > 0" "ck_status r = 1" "ck_chunk_len r = int n" "S = T" "n + 2 \<le> bpos ub"
    using assms(4) by (auto simp: in_step_def)
  then show ?thesis
  proof cases
    case body
    have "int n + 2 < 2 ^ 63" "nat (int n + 2) = n + 2"
      using nT body tot P(6) by (auto simp: nat_add_distrib)
    then have "chunk_parse r = Some (Inl (Some n), r\<lparr>ck_decapitate := n + 2, ck_status := 0\<rparr>)"
      using P(1) assms(4,5) body by (simp add: chunk_parse_def chunk_body_def)
    moreover have "chunk_ready c nb tot n (r\<lparr>ck_decapitate := n + 2, ck_status := 0\<rparr>) cn T"
      using P body assms(4) by (auto simp: chunk_ready_def pending_def)
    ultimately show ?thesis by blast
  next
    case line
    show ?thesis
    proof (cases "bpos ub < length l + 2")
      case True
      have "ub_data ub = take (length (ub_data ub)) S" using P(5) by simp
      also have "\<dots> = take (length (ub_data ub)) (l @ CRLF)"
        using True line(2) len by (simp add: take_two [of "bpos ub" "length l" 13 10 T])
      finally have "uwsgi_chunked_readline ub = Some (-2, ub)"
        using readline_short [OF line(3)] True len by simp
      then have "chunk_parse r = Some (Inr (), r\<lparr>ck_buf := Some ub, ck_chunk_len := -2, ck_need := 1\<rparr>)"
        using P(1) assms(4,5) line(1) by (simp add: chunk_parse_def)
      moreover have "pending c nb tot (r\<lparr>ck_buf := Some ub, ck_chunk_len := -2, ck_need := 1\<rparr>) cn ub S"
        using assms(2) by (auto simp: pending_def)
      moreover have "in_step n (r\<lparr>ck_buf := Some ub, ck_chunk_len := -2, ck_need := 1\<rparr>) ub S l T"
        using True line dec nT by (simp add: in_step_def)
      ultimately show ?thesis by blast
    next
      case False
      have "take (length l + 2) (ub_data ub) = take (length l + 2) S" using P(5) False len by simp
      also have "\<dots> = l @ CRLF" using line(2) by simp
      finally have X: "ub_data ub = l @ CRLF @ drop (length l + 2) (ub_data ub)"
        by (metis append_take_drop_id append.assoc)
      have n63: "n < 2 ^ 63" using nT tot P(6) line(2) by auto
      from readline_complete [OF P(2) line(3) n63 X] obtain ub' where
        rl: "uwsgi_chunked_readline ub = Some (int n, ub')" "ub_wf ub'"
          "ub_data ub' = drop (length l + 2) (ub_data ub)" "limit ub' = limit ub" by blast
      have T: "T = ub_data ub' @ net_bytes (ch_evs cn)"
        using P(5) line(2) X rl(3) by (metis append.assoc same_append_eq)
      let ?r = "r\<lparr>ck_buf := Some ub', ck_chunk_len := int n\<rparr>"
      have pe: "pending c nb tot ?r cn ub' T"
        using P rl T line(2) by (auto simp: pending_def)
      have len': "length (ub_data ub') = bpos ub'" using rl(2) by (rule length_ub_data)
      show ?thesis
      proof (cases "n = 0")
        case True
        then have "chunk_parse r = Some (Inl (Some n), ?r\<lparr>ck_complete := True\<rparr>)"
          using P(1) assms(5) line(1) rl(1) by (simp add: chunk_parse_def Let_def)
        moreover have "chunk_ready c nb tot n (?r\<lparr>ck_complete := True\<rparr>) cn T"
          using True by (simp add: chunk_ready_def)
        ultimately show ?thesis by blast
      next
        case n: False
        have i: "int n + 2 < 2 ^ 63" "nat (int n + 2) = n + 2"
          using nT n tot P(6) line(2) by (auto simp: nat_add_distrib)
        show ?thesis
        proof (cases "n + 2 > bpos ub'")
          case True
          then have "chunk_parse r = Some (Inr (), ?r\<lparr>ck_need := n + 2 - bpos ub', ck_status := 1\<rparr>)"
            using P(1) assms(5) line(1) rl(1) n i by (simp add: chunk_parse_def chunk_body_def Let_def)
          moreover have "pending c nb tot (?r\<lparr>ck_need := n + 2 - bpos ub', ck_status := 1\<rparr>) cn ub' T"
            using pe by (auto simp: pending_def)
          moreover have "in_step n (?r\<lparr>ck_need := n + 2 - bpos ub', ck_status := 1\<rparr>) ub' T l T"
            using nT n dec by (simp add: in_step_def)
          ultimately show ?thesis by blast
        next
          case False
          then have "chunk_parse r = Some (Inl (Some n), ?r\<lparr>ck_decapitate := n + 2\<rparr>)"
            using P(1) assms(5) line(1) rl(1) n i by (simp add: chunk_parse_def chunk_body_def Let_def)
          moreover have "chunk_ready c nb tot n (?r\<lparr>ck_decapitate := n + 2\<rparr>) cn T"
            using pe False n line(1) assms(4) by (auto simp: chunk_ready_def pending_def)
          ultimately show ?thesis by blast
        qed
      qed
    qed
  qed
qed

lemma chunk_loop_reads:
  assumes "room_ok c tot" "pending c nb tot r cn ub S" "in_step n r ub S l T"
  shows "\<exists>r' cn'. chunk_loop c nb r cn = Some (Some n, r', cn') \<and> chunk_ready c nb tot n r' cn' T"
  using assms(2,3)
proof (induction "chunk_measure r cn" arbitrary: r cn ub S rule: less_induct)
  case less
  note pe = less.prems(1) and st = less.prems(2)
  have ub: "ck_buf r = Some ub" and lenS: "length S \<le> tot" and S: "S = ub_data ub @ net_bytes (ch_evs cn)"
    and wf: "ub_wf ub"
    using pe unfolding pending_def by blast+
  have len: "length (ub_data ub) = bpos ub" using wf by (rule length_ub_data)
  obtain r1 cn1 ub1 where
    f: "(if ck_need r > 0 \<or> bpos ub = 0 then chunk_fill c nb r cn else Some (True, r, cn)) = Some (True, r1, cn1)"
    and p1: "pending c nb tot r1 cn1 ub1 S" and s1: "in_step n r1 ub1 S l T" and b1: "bpos ub1 \<noteq> 0"
  proof (cases "ck_need r > 0 \<or> bpos ub = 0")
    case True
    have "bpos ub + ck_need r \<le> length S \<and> bpos ub < length S"
      using True st by (auto simp: in_step_def)
    moreover have "length S = bpos ub + length (net_bytes (ch_evs cn))" using S len by simp
    ultimately have more: "net_bytes (ch_evs cn) \<noteq> []" and need: "bpos ub + ck_need r \<le> tot"
      using lenS by auto
    from chunk_fill_pending [OF assms(1) pe more need] obtain bs :: bytes and ub' cn' where
      bs: "bs \<noteq> []" and
      f: "chunk_fill c nb r cn = Some (True, r\<lparr>ck_buf := Some ub', ck_need := ck_need r - length bs\<rparr>, cn')" and
      p: "pending c nb tot (r\<lparr>ck_buf := Some ub', ck_need := ck_need r - length bs\<rparr>) cn' ub' S" and
      b: "bpos ub' = bpos ub + length bs" by blast
    have "ck_need r - length bs = 0 \<or> ck_need r \<noteq> 1" using bs by (cases bs; cases "ck_need r = 1") simp_all
    then have "in_step n (r\<lparr>ck_buf := Some ub', ck_need := ck_need r - length bs\<rparr>) ub' S l T"
      using st b unfolding in_step_def by (elim conjE disjE) simp_all
    then show ?thesis using that [OF _ p] f True b bs by simp
  next
    case False
    then show ?thesis using that [OF _ pe st] by simp
  qed
  have dm: "chunk_measure r2 cn1 < chunk_measure r cn" if "chunk_pass c nb r cn = Some (Inr (), r2, cn1)" for r2
    using chunk_pass_decreases [OF that] .
  show ?case
  proof (cases "ck_need r1 > 0")
    case True
    then have ps: "chunk_pass c nb r cn = Some (Inr (), r1, cn1)"
      using ub f by (simp add: chunk_pass_def)
    from less.hyps [OF dm [OF ps] p1 s1] show ?thesis
      by (simp add: chunk_loop.simps [of c nb r cn] ps)
  next
    case False
    from chunk_parse_step [OF assms(1) p1 s1 _ b1] False
    consider (again) r2 ub2 S2 where "chunk_parse r1 = Some (Inr (), r2)" "pending c nb tot r2 cn1 ub2 S2"
        "in_step n r2 ub2 S2 l T"
      | (ready) r2 where "chunk_parse r1 = Some (Inl (Some n), r2)" "chunk_ready c nb tot n r2 cn1 T"
      by auto
    then show ?thesis
    proof cases
      case again
      then have ps: "chunk_pass c nb r cn = Some (Inr (), r2, cn1)"
        using ub f False by (simp add: chunk_pass_def)
      from less.hyps [OF dm [OF ps] again(2,3)] show ?thesis
        by (simp add: chunk_loop.simps [of c nb r cn] ps)
    next
      case ready
      then have "chunk_pass c nb r cn = Some (Inl (Some n), r2, cn1)"
        using ub f False by (simp add: chunk_pass_def)
      then show ?thesis using ready(2) by (simp add: chunk_loop.simps [of c nb r cn])
    qed
  qed
qed

text \<open>Between two reads: nothing read yet, or a chunk that the next read cuts off.\<close>

definition between :: "ckconf \<Rightarrow> bool \<Rightarrow> nat \<Rightarrow> chunked \<Rightarrow> chan \<Rightarrow> bytes \<Rightarrow> bool" where
  "between c nb tot r cn W \<longleftrightarrow>
     \<not> ck_complete r \<and> ck_status r = 0 \<and> ck_need r = 0 \<and>
     (ck_buf r = None \<and> ck_decapitate r = 0 \<and> W = net_bytes (ch_evs cn) \<and> length W \<le> tot \<and>
        delivers nb (ch_evs cn) (ch_waits cn) \<or>
      (\<exists>ub T. pending c nb tot r cn ub T \<and> ck_decapitate r > 0 \<and> ck_decapitate r \<le> bpos ub \<and>
              W = drop (ck_decapitate r) T))"

lemma read_enters_loop:
  assumes "room_ok c tot" "between c nb tot r cn W"
  shows "\<exists>r' ub. uwsgi_chunked_read c nb r cn = chunk_loop c nb r' cn \<and> pending c nb tot r' cn ub W \<and>
           ck_decapitate r' = 0 \<and> ck_status r' = 0 \<and> ck_need r' = 0"
proof (cases "ck_buf r")
  case None
  let ?ub = "(uwsgi_buffer_new (ck_env c) (page_size (ck_env c)))\<lparr>limit := ck_limit c\<rparr>"
  have wf: "ub_wf ?ub" "ub_data ?ub = []"
    using assms(1) by (auto simp: ub_wf_def ub_data_def uwsgi_buffer_new_def room_ok_def env_ok_def)
  have b: "\<not> ck_complete r" "ck_status r = 0" "ck_need r = 0" "ck_decapitate r = 0"
    "W = net_bytes (ch_evs cn)" "length W \<le> tot" "delivers nb (ch_evs cn) (ch_waits cn)"
    using assms(2) None unfolding between_def pending_def by auto
  have "uwsgi_chunked_read c nb r cn = chunk_loop c nb (r\<lparr>ck_buf := Some ?ub\<rparr>) cn"
    using None b by (simp add: uwsgi_chunked_read_def Let_def)
  moreover have "pending c nb tot (r\<lparr>ck_buf := Some ?ub\<rparr>) cn ?ub W"
    using wf b by (simp add: pending_def)
  ultimately show ?thesis using b by (intro exI [of _ "r\<lparr>ck_buf := Some ?ub\<rparr>"] exI [of _ ?ub]) simp
next
  case (Some ub)
  then obtain T where b: "\<not> ck_complete r" "ck_status r = 0" "ck_need r = 0" "pending c nb tot r cn ub T"
    "ck_decapitate r > 0" "ck_decapitate r \<le> bpos ub" "W = drop (ck_decapitate r) T"
    using assms(2) unfolding between_def pending_def by auto
  then have P: "ub_wf ub" "limit ub = ck_limit c" "T = ub_data ub @ net_bytes (ch_evs cn)" "length T \<le> tot"
    "delivers nb (ch_evs cn) (ch_waits cn)"
    unfolding pending_def by blast+
  from decapitate_cases(1) [OF P(1) b(6)] obtain ub' where d:
    "uwsgi_buffer_decapitate ub (ck_decapitate r) = Some (ub', 0)" "ub_wf ub'"
    "ub_data ub' = drop (ck_decapitate r) (ub_data ub)" "limit ub' = limit ub" by blast
  have "uwsgi_chunked_read c nb r cn = chunk_loop c nb (r\<lparr>ck_buf := Some ub', ck_decapitate := 0\<rparr>) cn"
    using Some b d(1) by (simp add: uwsgi_chunked_read_def Let_def)
  moreover have "W = ub_data ub' @ net_bytes (ch_evs cn)"
    using b(6,7) P(3) d(3) length_ub_data [OF P(1)] by simp
  then have "pending c nb tot (r\<lparr>ck_buf := Some ub', ck_decapitate := 0\<rparr>) cn ub' W"
    using P d b by (auto simp: pending_def)
  ultimately show ?thesis
    using b by (intro exI [of _ "r\<lparr>ck_buf := Some ub', ck_decapitate := 0\<rparr>"] exI [of _ ub']) simp
qed

lemma read_one:
  assumes "room_ok c tot" "between c nb tot r cn (l @ CRLF @ T)" "hex_line l n" "n = 0 \<or> n + 2 \<le> length T"
  shows "\<exists>r' cn' ub. uwsgi_chunked_read c nb r cn = Some (Some n, r', cn') \<and> ck_buf r' = Some ub \<and>
           (if n = 0 then ck_complete r'
            else between c nb tot r' cn' (drop (n + 2) T) \<and> mem_read (buf ub) 0 n = Some (take n T))"
proof -
  from read_enters_loop [OF assms(1,2)] obtain r1 ub1 where
    e: "uwsgi_chunked_read c nb r cn = chunk_loop c nb r1 cn" "pending c nb tot r1 cn ub1 (l @ CRLF @ T)"
    "ck_decapitate r1 = 0" "ck_status r1 = 0" "ck_need r1 = 0" by blast
  have "in_step n r1 ub1 (l @ CRLF @ T) l T"
    using e assms(3,4) by (simp add: in_step_def)
  from chunk_loop_reads [OF assms(1) e(2) this] obtain r' cn' where
    l: "chunk_loop c nb r1 cn = Some (Some n, r', cn')" "chunk_ready c nb tot n r' cn' T" by blast
  from l(2) obtain ub where ub: "ck_buf r' = Some ub" by (auto simp: chunk_ready_def)
  have "if n = 0 then ck_complete r'
        else between c nb tot r' cn' (drop (n + 2) T) \<and> mem_read (buf ub) 0 n = Some (take n T)"
  proof (cases "n = 0")
    case True
    then show ?thesis using l(2) by (auto simp: chunk_ready_def)
  next
    case False
    then have r: "pending c nb tot r' cn' ub T" "n + 2 \<le> bpos ub" "ck_decapitate r' = n + 2"
      "ck_status r' = 0" "ck_need r' = 0"
      using l(2) ub by (auto simp: chunk_ready_def)
    have u: "ub_wf ub" "T = ub_data ub @ net_bytes (ch_evs cn')" "\<not> ck_complete r'"
      using r(1) unfolding pending_def by blast+
    have "between c nb tot r' cn' (drop (n + 2) T)"
      using r u(3) unfolding between_def by auto
    moreover have "take n T = take n (buf ub)"
      using u r(2) length_ub_data [OF u(1)] by (simp add: ub_data_def min_def)
    moreover have "n \<le> length (buf ub)" using u(1) r(2) by (auto simp: ub_wf_def)
    ultimately show ?thesis using False by (simp add: mem_read_def)
  qed
  then show ?thesis using e(1) l(1) ub by auto
qed

text \<open>
  The scan of a size line takes every letter for a digit, \<^verbatim>\<open>strtoul\<close> does not: a line such as
  \<^verbatim>\<open>zz\<close> is a chunk of size 0, the end of the body.
\<close>

lemma uwsgi_chunked_readline_takes_letters:
  assumes "ub_wf ub" "ub_data ub = b # l @ CRLF @ X" "\<forall>x\<in>set l. line_char x"
    and "line_char b" "hex_val b = None"
  shows "\<exists>ub'. uwsgi_chunked_readline ub = Some (0, ub') \<and> ub_data ub' = X"
proof -
  have len: "length (ub_data ub) = bpos ub" using assms(1) by (rule length_ub_data)
  have "buf ub = ub_data ub @ drop (bpos ub) (buf ub)" by (simp add: ub_data_def)
  then have area: "buf ub = b # (l @ CRLF @ X @ drop (bpos ub) (buf ub))"
    by (subst (asm) assms(2)) simp
  have "b \<noteq> 48" "\<not> isspace b" "b \<noteq> 45" "b \<noteq> 43"
    using assms(4,5) by (auto simp: hex_val_def line_char_def isspace_def word_le_nat_alt)
  then have str: "strtoul16 (buf ub) = Some 0"
    using assms(5) by (subst area) (auto simp: strtoul16_def hex_body_def split: list.splits)
  have ls: "line_scan (take (bpos ub) (buf ub)) False 0 = Inr (length l + 2)"
    using line_scan_line [of "b # l" X 0] assms(2,3,4) by (simp add: ub_data_def)
  from decapitate_cases(1) [OF assms(1), of "length l + 2 + 1"] obtain ub' where
    "uwsgi_buffer_decapitate ub (length l + 2 + 1) = Some (ub', 0)"
    "ub_data ub' = drop (length l + 2 + 1) (ub_data ub)"
    using len assms(2) by auto
  then show ?thesis
    using assms(2) by (simp add: uwsgi_chunked_readline_def ls str to_signed_def)
qed

section \<open>The body of a request\<close>

text \<open>What the application gets from \<open>k\<close> calls of \<^verbatim>\<open>uwsgi_chunked_read\<close>.\<close>

primrec chunk_reads :: "nat \<Rightarrow> ckconf \<Rightarrow> bool \<Rightarrow> chunked \<Rightarrow> chan \<Rightarrow> bytes list option" where
  "chunk_reads 0 c nb r cn = Some []"
| "chunk_reads (Suc k) c nb r cn = do {
     (res, r, cn) \<leftarrow> uwsgi_chunked_read c nb r cn;
     n \<leftarrow> res;
     ub \<leftarrow> ck_buf r;
     d \<leftarrow> mem_read (buf ub) 0 n;
     ds \<leftarrow> chunk_reads k c nb r cn;
     Some (d # ds) }"

definition chunked_new :: chunked where
  "chunked_new = \<lparr>ck_buf = None, ck_complete = False, ck_decapitate = 0, ck_need = 0, ck_status = 0,
                  ck_chunk_len = 0\<rparr>"

definition chunk_ok :: "bytes \<times> bytes \<Rightarrow> bool" where
  "chunk_ok x \<longleftrightarrow> hex_line (fst x) (length (snd x)) \<and> snd x \<noteq> []"

lemma reads_complete:
  "ck_complete r \<Longrightarrow> ck_buf r = Some ub \<Longrightarrow> chunk_reads k c nb r cn = Some (replicate k [])"
  by (induction k) (simp_all add: uwsgi_chunked_read_def mem_read_def)

lemma reads_chunks:
  assumes "room_ok c tot" "between c nb tot r cn (concat (map chunk_wire xs) @ z @ CRLF @ R)"
    and "\<forall>x\<in>set xs. chunk_ok x" "hex_line z 0"
  shows "chunk_reads (length xs + Suc k) c nb r cn = Some (map snd xs @ replicate (Suc k) [])"
  using assms(2,3)
proof (induction xs arbitrary: r cn)
  case Nil
  from read_one [OF assms(1) _ assms(4), of nb r cn R] Nil(1) obtain r' cn' ub where
    "uwsgi_chunked_read c nb r cn = Some (Some 0, r', cn')" "ck_buf r' = Some ub" "ck_complete r'"
    by auto
  then show ?case by (simp add: reads_complete mem_read_def)
next
  case (Cons x xs)
  let ?T = "snd x @ CRLF @ concat (map chunk_wire xs) @ z @ CRLF @ R"
  have x: "hex_line (fst x) (length (snd x))" "length (snd x) \<noteq> 0"
    using Cons.prems(2) by (auto simp: chunk_ok_def)
  have "between c nb tot r cn (fst x @ CRLF @ ?T)"
    using Cons.prems(1) by (simp add: chunk_wire_def [of x])
  from read_one [OF assms(1) this x(1)] x(2) obtain r' cn' ub where
    rd: "uwsgi_chunked_read c nb r cn = Some (Some (length (snd x)), r', cn')" "ck_buf r' = Some ub"
    "between c nb tot r' cn' (drop (length (snd x) + 2) ?T)"
    "mem_read (buf ub) 0 (length (snd x)) = Some (take (length (snd x)) ?T)"
    by auto
  have "between c nb tot r' cn' (concat (map chunk_wire xs) @ z @ CRLF @ R)"
    using rd(3) by simp
  note IH = Cons.IH [OF this]
  have "length (x # xs) + Suc k = Suc (length xs + Suc k)" by simp
  with IH Cons.prems(2) rd(1,2,4) show ?case
    by (simp only:) (simp del: add_Suc_right replicate_Suc)
qed

text \<open>
  C21: a chunked body that the peer sends in any cut is read chunk by chunk: the calls of
  \<^verbatim>\<open>uwsgi_chunked_read\<close> return the data of the chunks in their order, and after the last chunk
  every further call returns the empty string.  The buffer's limit has to leave a page beyond
  what is sent.
\<close>

theorem uwsgi_chunked_read_delivers:
  assumes "room_ok c (length (net_bytes evs))" "delivers nb evs ws"
    and "\<forall>x\<in>set xs. chunk_ok x" "hex_line z 0"
    and "net_bytes evs = concat (map chunk_wire xs) @ z @ CRLF @ R"
  shows "chunk_reads (length xs + Suc k) c nb chunked_new \<lparr>ch_evs = evs, ch_waits = ws\<rparr> =
           Some (map snd xs @ replicate (Suc k) [])"
proof -
  have "between c nb (length (net_bytes evs)) chunked_new \<lparr>ch_evs = evs, ch_waits = ws\<rparr>
          (concat (map chunk_wire xs) @ z @ CRLF @ R)"
    using assms(2,5) unfolding between_def by (simp add: chunked_new_def)
  then show ?thesis using reads_chunks [OF assms(1) _ assms(3,4)] by blast
qed

definition ck_sample :: ckconf where
  "ck_sample = \<lparr>ck_env = env_small, ck_limit = 0\<rparr>"

theorem uwsgi_chunked_read_delivers_witness:
  "chunk_reads 3 ck_sample False chunked_new
     \<lparr>ch_evs = [Bytes [50, 13], Again, Bytes [10, 7], Bytes [8, 13, 10, 49, 13, 10, 9, 13, 10, 48, 13, 10]],
      ch_waits = [1]\<rparr> = Some [[7, 8], [9], []]"
proof -
  have r: "room_ok ck_sample n" if "n < 100" for n
    using that by (simp add: room_ok_def ck_sample_def) (simp add: env_small_def)
  have h: "hex_line [50] (Suc (Suc 0))" "hex_line [49] (Suc 0)" "hex_line [48] 0"
    by (simp_all add: hex_line_def hex_num_def hex_val_def)
  have "chunk_reads (length [([50::byte], [7::byte, 8]), ([49], [9])] + Suc 0) ck_sample False chunked_new
     \<lparr>ch_evs = [Bytes [50, 13], Again, Bytes [10, 7], Bytes [8, 13, 10, 49, 13, 10, 9, 13, 10, 48, 13, 10]],
      ch_waits = [1]\<rparr> = Some (map snd [([50::byte], [7::byte, 8]), ([49], [9])] @ replicate (Suc 0) [])"
    by (rule uwsgi_chunked_read_delivers [where z = "[48]" and R = "[]"])
      (use r h in \<open>simp_all add: chunk_ok_def chunk_wire_def\<close>)
  then show ?thesis by (simp add: numeral_3_eq_3)
qed

end
