(* ===== verification/Httpdate.thy ===== *)
theory Httpdate
  imports Strings Buffer
begin

text \<open>
  Dates in HTTP headers, \<^verbatim>\<open>core/static.c\<close>: \<^verbatim>\<open>uwsgi_http_date\<close> and \<^verbatim>\<open>parse_http_date\<close>, with the calendar of
  \<^verbatim>\<open>gmtime\<close> and \<^verbatim>\<open>timegm\<close> they rest on.  A time is a number of seconds since 1970; the years of the
  calendar are walked one by one, the inverse counts the days before a year.
\<close>

section \<open>The calendar\<close>

definition leap :: "nat \<Rightarrow> bool" where
  "leap y \<longleftrightarrow> 4 dvd y \<and> (100 dvd y \<longrightarrow> 400 dvd y)"

definition year_days :: "nat \<Rightarrow> nat" where
  "year_days y = (if leap y then 366 else 365)"

definition month_days :: "nat \<Rightarrow> nat \<Rightarrow> nat" where
  "month_days y m = (if m = 1 then (if leap y then 29 else 28)
                     else if m = 3 \<or> m = 5 \<or> m = 8 \<or> m = 10 then 30 else 31)"

function year_from :: "nat \<Rightarrow> nat \<Rightarrow> nat \<times> nat" where
  "year_from y d = (if d < year_days y then (y, d) else year_from (y + 1) (d - year_days y))"
  by auto
termination
  by (relation "measure snd") (auto simp: year_days_def)

function month_from :: "nat \<Rightarrow> nat \<Rightarrow> nat \<Rightarrow> nat \<times> nat" where
  "month_from y m d =
     (if d < month_days y m \<or> m \<ge> 11 then (m, d) else month_from y (m + 1) (d - month_days y m))"
  by auto
termination
  by (relation "measure (\<lambda>(y, m, d). 11 - m)") auto

declare year_from.simps [simp del] month_from.simps [simp del]

record tm =
  tm_year :: int
  tm_mon :: int
  tm_mday :: int
  tm_hour :: int
  tm_min :: int
  tm_sec :: int
  tm_wday :: int

text \<open>\<^verbatim>\<open>gmtime\<close> gives the null pointer when the year does not fit an \<^verbatim>\<open>int\<close>.\<close>

definition gmtime :: "nat \<Rightarrow> tm option" where
  "gmtime t =
     (let days = t div 86400; s = t mod 86400;
          (y, yd) = year_from 1970 days; (m, d) = month_from y 0 yd in
      if y \<ge> 1900 + 2 ^ 31 then None
      else Some \<lparr>tm_year = int y - 1900, tm_mon = int m, tm_mday = int d + 1, tm_hour = int (s div 3600),
                 tm_min = int (s mod 3600 div 60), tm_sec = int (s mod 60), tm_wday = int ((days + 4) mod 7)\<rparr>)"

text \<open>Days between the start of 1970 and the start of a year, and the start of a month in it.\<close>

definition days_before :: "int \<Rightarrow> int" where
  "days_before y = 365 * (y - 1970) + ((y - 1) div 4 - (y - 1) div 100 + (y - 1) div 400) - 477"

definition month_start :: "int \<Rightarrow> nat \<Rightarrow> int" where
  "month_start y m = int (sum_list (map (month_days (nat (y mod 400))) [0..<m]))"

text \<open>\<^verbatim>\<open>timegm\<close> for a month between 0 and 11; the other fields may be out of range.\<close>

definition timegm :: "tm \<Rightarrow> int" where
  "timegm x =
     (days_before (tm_year x + 1900) + month_start (tm_year x + 1900) (nat (tm_mon x)) + tm_mday x - 1) * 86400
     + tm_hour x * 3600 + tm_min x * 60 + tm_sec x"

section \<open>Formatting and parsing\<close>

definition week :: "nat \<Rightarrow> bytes" where
  "week d = str ([''Sun'', ''Mon'', ''Tue'', ''Wed'', ''Thu'', ''Fri'', ''Sat''] ! d)"

definition months :: "nat \<Rightarrow> bytes" where
  "months m = str ([''Jan'', ''Feb'', ''Mar'', ''Apr'', ''May'', ''Jun'', ''Jul'', ''Aug'', ''Sep'', ''Oct'',
                    ''Nov'', ''Dec''] ! m)"

text \<open>\<^verbatim>\<open>%02d\<close> and \<^verbatim>\<open>%4d\<close> of numbers that are not negative.\<close>

definition fmt02 :: "int \<Rightarrow> bytes" where
  "fmt02 k = (let s = digits_of 10 (nat k) in replicate (2 - length s) 48 @ s)"

definition fmt4 :: "int \<Rightarrow> bytes" where
  "fmt4 k = (let s = digits_of 10 (nat k) in replicate (4 - length s) 32 @ s)"

definition http_date_text :: "tm \<Rightarrow> bytes" where
  "http_date_text x =
     week (nat (tm_wday x)) @ [44, 32] @ fmt02 (tm_mday x) @ [32] @ months (nat (tm_mon x)) @ [32] @
     fmt4 (tm_year x + 1900) @ [32] @ fmt02 (tm_hour x) @ [58] @ fmt02 (tm_min x) @ [58] @
     fmt02 (tm_sec x) @ str '' GMT''"

text \<open>
  \<^verbatim>\<open>snprintf\<close> into 31 bytes: the length of the whole text and what was written, with the
  terminator.  The length is compared with 31 although 30 characters have room.
\<close>

definition uwsgi_http_date :: "nat \<Rightarrow> (nat \<times> bytes) option" where
  "uwsgi_http_date t = do {
     x \<leftarrow> gmtime t;
     let s = http_date_text x;
     Some (if length s > 31 then 0 else length s, take 30 s @ [0]) }"

text \<open>
  The parser reads at fixed places of the area the date points to; \<open>len\<close> is used in the first
  test only.
\<close>

definition num2_at :: "bytes \<Rightarrow> nat \<Rightarrow> int option" where
  "num2_at m p = do { a \<leftarrow> mem_get m p; b \<leftarrow> mem_get m (p + 1); Some (uwsgi_str2_num a b) }"

definition uwsgi_str4_num :: "byte \<Rightarrow> byte \<Rightarrow> byte \<Rightarrow> byte \<Rightarrow> int" where
  "uwsgi_str4_num a b c d =
     1000 * (signed_char a - 48) + 100 * (signed_char b - 48) + 10 * (signed_char c - 48) + (signed_char d - 48)"

definition num4_at :: "bytes \<Rightarrow> nat \<Rightarrow> int option" where
  "num4_at m p = do {
     a \<leftarrow> mem_get m p; b \<leftarrow> mem_get m (p + 1); c \<leftarrow> mem_get m (p + 2); d \<leftarrow> mem_get m (p + 3);
     Some (uwsgi_str4_num a b c d) }"

definition parse_month :: "bytes \<Rightarrow> nat option option" where
  "parse_month date = do {
     a \<leftarrow> mem_get date 8;
     (if a = ch CHR ''J'' then do {
        b \<leftarrow> mem_get date 9;
        (if b = ch CHR ''a'' then Some (Some 0)
         else if b = ch CHR ''u'' then do {
           c \<leftarrow> mem_get date 10;
           Some (if c = ch CHR ''n'' then Some 5 else if c = ch CHR ''l'' then Some 6 else None) }
         else Some None) }
      else if a = ch CHR ''F'' then Some (Some 1)
      else if a = ch CHR ''M'' then do {
        b \<leftarrow> mem_get date 9;
        (if b \<noteq> ch CHR ''a'' then Some None
         else do {
           c \<leftarrow> mem_get date 10;
           Some (if c = ch CHR ''r'' then Some 2 else if c = ch CHR ''y'' then Some 4 else None) }) }
      else if a = ch CHR ''A'' then do {
        c \<leftarrow> mem_get date 10;
        Some (if c = ch CHR ''r'' then Some 3 else if c = ch CHR ''g'' then Some 7 else None) }
      else Some (if a = ch CHR ''S'' then Some 8 else if a = ch CHR ''O'' then Some 9
                 else if a = ch CHR ''N'' then Some 10 else if a = ch CHR ''D'' then Some 11 else None)) }"

definition parse_http_date :: "bytes \<Rightarrow> nat \<Rightarrow> int option" where
  "parse_http_date date len = do {
     bad \<leftarrow> (if len \<noteq> 29 then do { c \<leftarrow> mem_get date 3; Some (c \<noteq> 44) } else Some False);
     (if bad then Some 0
      else do {
        mday \<leftarrow> num2_at date 5;
        mon \<leftarrow> parse_month date;
        (case mon of
           None \<Rightarrow> Some 0
         | Some mon \<Rightarrow> do {
             y \<leftarrow> num4_at date 12;
             hour \<leftarrow> num2_at date 17;
             minute \<leftarrow> num2_at date 20;
             sec \<leftarrow> num2_at date 23;
             Some (timegm \<lparr>tm_year = y - 1900, tm_mon = int mon, tm_mday = mday, tm_hour = hour,
                            tm_min = minute, tm_sec = sec, tm_wday = 0\<rparr>) }) }) }"

section \<open>The calendar is consistent\<close>

lemma days_before_Suc: "days_before (int y + 1) = days_before (int y) + int (year_days y)"
proof -
  have step: "int y div k = (int y - 1) div k + (if k dvd int y then 1 else 0)" if "k > 0" for k
  proof (cases "k dvd int y")
    case True
    then obtain q where q: "int y = k * q" by (elim dvdE)
    have "(k * q - 1) div k = q - 1"
      using that by (intro int_div_pos_eq [of _ _ _ "k - 1"]) (auto simp: algebra_simps)
    then show ?thesis using that q by simp
  next
    case False
    have "(int y - 1) div k = int y div k"
    proof (intro int_div_pos_eq [of _ _ _ "int y mod k - 1"])
      show "int y - 1 = k * (int y div k) + (int y mod k - 1)" by simp
      show "0 \<le> int y mod k - 1" using False that
        by (metis dvd_eq_mod_eq_0 int_one_le_iff_zero_less le_less pos_mod_sign diff_ge_0_iff_ge)
      show "int y mod k - 1 < k" using that pos_mod_bound [of k "int y"] by linarith
    qed
    then show ?thesis using False by simp
  qed
  have "(4::int) dvd int y \<longleftrightarrow> 4 dvd y" "(100::int) dvd int y \<longleftrightarrow> 100 dvd y" "(400::int) dvd int y \<longleftrightarrow> 400 dvd y"
    by (metis int_dvd_int_iff of_nat_numeral)+
  then have d: "int y div 4 = (int y - 1) div 4 + (if 4 dvd y then 1 else 0)"
    "int y div 100 = (int y - 1) div 100 + (if 100 dvd y then 1 else 0)"
    "int y div 400 = (int y - 1) div 400 + (if 400 dvd y then 1 else 0)"
    using step [of 4] step [of 100] step [of 400] by simp_all
  have i: "400 dvd y \<Longrightarrow> 100 dvd y" "100 dvd y \<Longrightarrow> 4 dvd y"
    by (auto elim!: dvdE)
  have e: "int y + 1 - 1 = int y" by simp
  obtain a b c where q: "(int y - 1) div 4 = a" "(int y - 1) div 100 = b" "(int y - 1) div 400 = c" by blast
  show ?thesis
    unfolding days_before_def e d q year_days_def leap_def
    by (cases "4 dvd y"; cases "100 dvd y"; cases "400 dvd y") (use i in simp_all)
qed

lemma days_before_mono: "x \<le> y \<Longrightarrow> days_before (int x) \<le> days_before (int y)"
proof (induction y)
  case (Suc y)
  then show ?case using days_before_Suc [of y] by (cases "x = Suc y") (auto simp: add.commute)
qed simp

lemma year_from_days:
  "year_from y d = (y', d') \<Longrightarrow>
     days_before (int y) + int d = days_before (int y') + int d' \<and> d' < year_days y' \<and> y \<le> y'"
proof (induction y d arbitrary: y' d' rule: year_from.induct)
  case (1 y d)
  show ?case
  proof (cases "d < year_days y")
    case True
    then show ?thesis using 1(2) by (simp add: year_from.simps [of y d])
  next
    case False
    then have "year_from (y + 1) (d - year_days y) = (y', d')"
      using 1(2) by (simp add: year_from.simps [of y d])
    from 1(1) [OF False this] show ?thesis
      using days_before_Suc [of y] False by (auto simp: add.commute)
  qed
qed

lemma month_from_days:
  "month_from y m d = (m', d') \<Longrightarrow> m \<le> 11 \<Longrightarrow> d < sum_list (map (month_days y) [m..<12]) \<Longrightarrow>
     sum_list (map (month_days y) [0..<m]) + d = sum_list (map (month_days y) [0..<m']) + d' \<and>
     d' < month_days y m' \<and> m' \<le> 11"
proof (induction y m d arbitrary: m' d' rule: month_from.induct)
  case (1 y m d)
  have up: "[m..<12] = m # [Suc m..<12]" using 1(3) by (simp add: upt_conv_Cons)
  show ?case
  proof (cases "d < month_days y m \<or> m \<ge> 11")
    case True
    then have "d < month_days y m" using 1(3,4) by (auto simp: upt_rec)
    then show ?thesis using 1(2,3) True by (simp add: month_from.simps [of y m d])
  next
    case False
    then have "month_from y (m + 1) (d - month_days y m) = (m', d')"
      using 1(2) by (simp add: month_from.simps [of y m d])
    from 1(1) [OF False this] False 1(4) up show ?thesis
      by (auto simp: upt_Suc_append)
  qed
qed

lemma months_of_year: "sum_list (map (month_days y) [0..<12]) = year_days y"
  by (simp add: upt_rec month_days_def year_days_def)

lemma month_days_mod: "month_days (nat (int y mod 400)) = month_days y"
proof (rule ext)
  fix m
  have "nat (int y mod 400) = y mod 400" by (simp add: nat_mod_as_int)
  moreover have "4 dvd y mod 400 \<longleftrightarrow> 4 dvd y" "100 dvd y mod 400 \<longleftrightarrow> 100 dvd y" "400 dvd y mod 400 \<longleftrightarrow> 400 dvd y"
    by (simp_all add: dvd_mod_iff)
  ultimately show "month_days (nat (int y mod 400)) m = month_days y m" by (simp add: month_days_def leap_def)
qed

lemma gmtime_timegm:
  assumes "gmtime t = Some x"
  shows "timegm x = int t" "0 \<le> tm_mon x" "tm_mon x \<le> 11" "1 \<le> tm_mday x" "tm_mday x \<le> 31"
    "0 \<le> tm_hour x" "tm_hour x < 24" "0 \<le> tm_min x" "tm_min x < 60" "0 \<le> tm_sec x" "tm_sec x < 60"
    "0 \<le> tm_wday x" "tm_wday x < 7" "70 \<le> tm_year x"
    "days_before (tm_year x + 1900) \<le> int (t div 86400)"
proof -
  obtain y yd where y: "year_from 1970 (t div 86400) = (y, yd)" by fastforce
  obtain m d where m: "month_from y 0 yd = (m, d)" by fastforce
  have x: "x = \<lparr>tm_year = int y - 1900, tm_mon = int m, tm_mday = int d + 1, tm_hour = int (t mod 86400 div 3600),
      tm_min = int (t mod 86400 mod 3600 div 60), tm_sec = int (t mod 86400 mod 60),
      tm_wday = int ((t div 86400 + 4) mod 7)\<rparr>"
    using assms by (simp add: gmtime_def y m Let_def split: if_splits)
  have "days_before 1970 = 0" by (simp add: days_before_def)
  then have yy: "int (t div 86400) = days_before (int y) + int yd" "yd < year_days y" "1970 \<le> y"
    using year_from_days [OF y] by auto
  have mm: "yd = sum_list (map (month_days y) [0..<m]) + d" "d < month_days y m" "m \<le> 11"
    using month_from_days [OF m] yy(2) months_of_year [of y] by auto
  have md: "month_days y m \<le> 31" by (simp add: month_days_def)
  obtain s where s_def: "s = t mod 86400" by blast
  have s: "s < 86400" by (simp add: s_def)
  have "int s = int (s div 3600) * 3600 + int (s mod 3600 div 60) * 60 + int (s mod 60)"
  proof -
    have "s = s div 3600 * 3600 + s mod 3600 div 60 * 60 + s mod 60" 
    proof -
      have "s mod 3600 mod 60 = s mod 60" by (simp add: mod_mod_cancel)
      with div_mult_mod_eq [of s 3600] div_mult_mod_eq [of "s mod 3600" 60] show ?thesis by linarith
    qed
    then have "int s = int (s div 3600 * 3600 + s mod 3600 div 60 * 60 + s mod 60)" by (rule arg_cong)
    then show ?thesis by (simp only: of_nat_add of_nat_mult of_nat_numeral)
  qed
  moreover have "month_start (int y) m = int (sum_list (map (month_days y) [0..<m]))"
    by (simp add: month_start_def month_days_mod)
  moreover have "int t = int (t div 86400) * 86400 + int s"
    unfolding s_def by (metis div_mult_mod_eq of_nat_add of_nat_mult of_nat_numeral)
  ultimately show "timegm x = int t"
    using yy(1) mm(1) by (simp add: x timegm_def s_def)
  show "0 \<le> tm_mon x" "tm_mon x \<le> 11" "1 \<le> tm_mday x" "tm_mday x \<le> 31"
    "0 \<le> tm_hour x" "0 \<le> tm_min x" "0 \<le> tm_sec x" "tm_sec x < 60"
    "0 \<le> tm_wday x" "70 \<le> tm_year x"
    using mm(2,3) md yy(3) by (simp_all add: x)
  have "s mod 3600 < 3600" by simp
  then show "tm_min x < 60" by (simp add: x s_def [symmetric] less_mult_imp_div_less del: mod_less_divisor)
  show "tm_hour x < 24" using s by (simp add: x s_def [symmetric] less_mult_imp_div_less)
  show "tm_wday x < 7" by (simp add: x)
  show "days_before (tm_year x + 1900) \<le> int (t div 86400)" using yy(1) by (simp add: x)
qed

section \<open>Dates read back\<close>

lemma digits_two: "n < 100 \<Longrightarrow> fmt02 (int n) = [digit (n div 10), digit (n mod 10)]"
proof -
  assume "n < 100"
  then have "n div 10 < 10" by simp
  then show ?thesis
    by (cases "n < 10")
      (simp_all add: fmt02_def Let_def digits_of.simps [of 10 n] digits_of.simps [of 10 "n div 10"] digit_def)
qed

lemma digits_four:
  assumes "1000 \<le> n" "n < 10000"
  shows "fmt4 (int n) = [digit (n div 1000), digit (n div 100 mod 10), digit (n div 10 mod 10), digit (n mod 10)]"
proof -
  have "\<not> n < 10" "\<not> n div 10 < 10" "\<not> n div 100 < 10" "n div 1000 < 10" using assms by auto
  moreover have "n div 10 div 10 = n div 100" "n div 100 div 10 = n div 1000" by (simp_all add: div_mult2_eq [symmetric])
  ultimately have "digits_of 10 n = [digit (n div 1000), digit (n div 100 mod 10), digit (n div 10 mod 10), digit (n mod 10)]"
    by (simp add: digits_of.simps [of 10 n] digits_of.simps [of 10 "n div 10"] digits_of.simps [of 10 "n div 100"]
        digits_of.simps [of 10 "n div 1000"])
  then show ?thesis by (simp add: fmt4_def)
qed

lemma signed_digit: "d < 10 \<Longrightarrow> signed_char (digit d) = 48 + int d"
proof -
  assume "d < 10"
  then have "d \<in> {0, 1, 2, 3, 4, 5, 6, 7, 8, 9}" by auto
  then show ?thesis by (auto simp: digit_def signed_char_def)
qed

lemma text_layout:
  assumes "length w = 3" "length mo = 3" "length y = 4" "length a = 2" "length h = 2" "length i = 2" "length s = 2"
  shows "w @ [44, 32] @ a @ [32] @ mo @ [32] @ y @ [32] @ h @ [58] @ i @ [58] @ s @ r =
    [w ! 0, w ! 1, w ! 2, 44, 32, a ! 0, a ! 1, 32, mo ! 0, mo ! 1, mo ! 2, 32, y ! 0, y ! 1, y ! 2, y ! 3, 32,
     h ! 0, h ! 1, 58, i ! 0, i ! 1, 58, s ! 0, s ! 1] @ r"
  using assms by (auto simp: length_Suc_conv numeral_eq_Suc)

lemma months_parse:
  assumes "m \<le> 11" "mem_get date 8 = Some (months m ! 0)" "mem_get date 9 = Some (months m ! 1)"
    "mem_get date 10 = Some (months m ! 2)"
  shows "parse_month date = Some (Some m)"
proof -
  have "m = 0 \<or> m = 1 \<or> m = 2 \<or> m = 3 \<or> m = 4 \<or> m = 5 \<or> m = 6 \<or> m = 7 \<or> m = 8 \<or> m = 9 \<or> m = 10 \<or> m = 11"
    using assms(1) by presburger
  then show ?thesis
    unfolding parse_month_def assms(2-4)
    by (elim disjE) (simp_all add: months_def str_def ch_def)
qed

lemma length_week: "d < 7 \<Longrightarrow> length (week d) = 3"
proof -
  assume "d < 7"
  then have "d \<in> {0, 1, 2, 3, 4, 5, 6}" by auto
  then show ?thesis by (auto simp: week_def)
qed

lemma length_months: "m \<le> 11 \<Longrightarrow> length (months m) = 3"
proof -
  assume "m \<le> 11"
  then have "m \<in> {0, 1, 2, 3, 4, 5, 6, 7, 8, 9, 10, 11}" unfolding insert_iff empty_iff by presburger
  then show ?thesis by (auto simp: months_def)
qed

text \<open>
  C20: up to the year 9999 the date put into a header has 29 characters, and the parser of
  \<^verbatim>\<open>If-Modified-Since\<close> reads it back as the time it was made from.
\<close>

theorem uwsgi_http_date_roundtrip:
  assumes "t < 253402300800"
  shows "\<exists>dst. uwsgi_http_date t = Some (29, dst) \<and> parse_http_date (take 29 dst) 29 = Some (int t)"
proof -
  obtain y yd where y: "year_from 1970 (t div 86400) = (y, yd)" by fastforce
  have y9: "y < 10000"
  proof (rule ccontr)
    assume "\<not> y < 10000"
    then have "days_before (int 10000) \<le> days_before (int y)" by (intro days_before_mono) simp
    moreover have "days_before (int 10000) = 2932897" "days_before (int 1970) = 0" by (simp_all add: days_before_def)
    moreover have "t div 86400 < 2932897" using assms by (simp add: less_mult_imp_div_less)
    ultimately show False using year_from_days [OF y] by auto
  qed
  obtain x where x: "gmtime t = Some x" "tm_year x = int y - 1900"
    using y y9 by (cases "month_from y 0 yd") (auto simp: gmtime_def Let_def)
  note f = gmtime_timegm [OF x(1)]
  have ny: "1970 \<le> y" using f(14) x(2) by simp
  obtain d m hh mi ss w where n: "tm_mday x = int d" "tm_mon x = int m" "tm_hour x = int hh" "tm_min x = int mi"
    "tm_sec x = int ss" "tm_wday x = int w" "d < 100" "m \<le> 11" "hh < 100" "mi < 100" "ss < 100" "w < 7"
  proof (rule that)
    show "tm_mday x = int (nat (tm_mday x))" "tm_mon x = int (nat (tm_mon x))" "tm_hour x = int (nat (tm_hour x))"
      "tm_min x = int (nat (tm_min x))" "tm_sec x = int (nat (tm_sec x))" "tm_wday x = int (nat (tm_wday x))"
      "nat (tm_mday x) < 100" "nat (tm_mon x) \<le> 11" "nat (tm_hour x) < 100" "nat (tm_min x) < 100"
      "nat (tm_sec x) < 100" "nat (tm_wday x) < 7"
      using f by simp_all
  qed
  let ?D = "[week w ! 0, week w ! 1, week w ! 2, 44, 32, digit (d div 10), digit (d mod 10), 32,
    months m ! 0, months m ! 1, months m ! 2, 32, digit (y div 1000), digit (y div 100 mod 10),
    digit (y div 10 mod 10), digit (y mod 10), 32, digit (hh div 10), digit (hh mod 10), 58, digit (mi div 10),
    digit (mi mod 10), 58, digit (ss div 10), digit (ss mod 10)] @ str '' GMT''"
  have yx: "tm_year x + 1900 = int y" using x(2) by simp
  have "http_date_text x = week w @ [44, 32] @ fmt02 (int d) @ [32] @ months m @ [32] @ fmt4 (int y) @ [32] @
      fmt02 (int hh) @ [58] @ fmt02 (int mi) @ [58] @ fmt02 (int ss) @ str '' GMT''"
    unfolding http_date_text_def yx n(1-6) nat_int ..
  also have "\<dots> = ?D"
    by (subst text_layout)
      (use n ny y9 in \<open>simp_all add: length_week length_months digits_two digits_four\<close>)
  finally have t: "http_date_text x = ?D" .
  have "length ?D = 29" by simp
  then have hd: "uwsgi_http_date t = Some (29, take 30 ?D @ [0])"
    unfolding uwsgi_http_date_def x(1) bind.bind_lunit Let_def t by simp
  have D: "take 29 (take 30 ?D @ [0]) = ?D" by simp
  have dm: "k div 10 < 10" "k mod 10 < 10" "int (k div 10) * 10 + int (k mod 10) = int k" if "k < 100" for k :: nat
    using that by (auto simp: zdiv_int zmod_int)
  have n2: "uwsgi_str2_num (digit (k div 10)) (digit (k mod 10)) = int k" if "k < 100" for k
    using dm [OF that] by (simp add: uwsgi_str2_num_def signed_digit)
  have n4: "uwsgi_str4_num (digit (y div 1000)) (digit (y div 100 mod 10)) (digit (y div 10 mod 10)) (digit (y mod 10)) = int y"
  proof -
    have "y div 1000 < 10" using y9 by simp
    moreover have "y div 10 div 10 = y div 100" "y div 100 div 10 = y div 1000"
      by (simp_all add: div_mult2_eq [symmetric])
    then have "y = 1000 * (y div 1000) + 100 * (y div 100 mod 10) + 10 * (y div 10 mod 10) + y mod 10"
      using div_mult_mod_eq [of y 10] div_mult_mod_eq [of "y div 10" 10] div_mult_mod_eq [of "y div 100" 10]
      by linarith
    then have "int y = 1000 * int (y div 1000) + 100 * int (y div 100 mod 10) + 10 * int (y div 10 mod 10) + int (y mod 10)"
      by linarith
    ultimately show ?thesis by (simp add: uwsgi_str4_num_def signed_digit)
  qed
  have pm: "parse_month ?D = Some (Some m)"
    by (rule months_parse [OF n(8)]) (simp_all add: mem_get_def)
  have "parse_http_date ?D 29 = Some (timegm \<lparr>tm_year = int y - 1900, tm_mon = int m, tm_mday = int d,
      tm_hour = int hh, tm_min = int mi, tm_sec = int ss, tm_wday = 0\<rparr>)"
    unfolding parse_http_date_def pm
    by (simp add: num2_at_def num4_at_def mem_get_def n2 n4 n)
  also have "\<dots> = Some (timegm x)" using n x(2) by (simp add: timegm_def)
  finally have "parse_http_date (take 29 (take 30 ?D @ [0])) 29 = Some (int t)" by (simp only: D f(1))
  with hd show ?thesis by blast
qed

theorem uwsgi_http_date_roundtrip_witness:
  "\<exists>dst. uwsgi_http_date 784111777 = Some (29, dst) \<and> parse_http_date (take 29 dst) 29 = Some 784111777"
  using uwsgi_http_date_roundtrip [of 784111777] by simp

text \<open>The test of the length lets every text with a comma in the fourth place through.\<close>

lemma parse_http_date_reads_on:
  assumes "length date < 7" "mem_get date 3 = Some 44" "len \<noteq> 29"
  shows "parse_http_date date len = None"
proof -
  have "mem_get date (5 + 1) = None" using assms(1) by (simp add: mem_get_def)
  then have "num2_at date 5 = None" unfolding num2_at_def by (cases "mem_get date 5") auto
  then show ?thesis using assms(2,3) by (simp add: parse_http_date_def)
qed

end
