(* ===== verification/Writer.thy ===== *)
theory Writer
  imports Request Protos Httpdate
begin

text \<open>
  The response of a request, \<^verbatim>\<open>core/writer.c\<close> and \<^verbatim>\<open>core/transformations.c\<close>: the headers are collected in a
  buffer, sent with or before the first part of the body, and every part of the body passes the
  transformations of the request.

  The state \<open>resp\<close> holds the fields of \<^verbatim>\<open>struct wsgi_request\<close> the writer works on (\<open>rp_q\<close> has
  \<^verbatim>\<open>write_pos\<close> and \<^verbatim>\<open>write_errors\<close>), the bytes the peer was given and the script of the system calls
  to come: what each write accepts, and the results of the waits.  A script that has come to its
  end is a peer that is gone.  The configuration \<open>wconf\<close> has the options of the server and the
  functions of the socket; the routing engine and the transformation functions are function
  pointers there too.
\<close>

section \<open>State and configuration\<close>

record ut =
  ut_chunk :: "ubuf option"
  ut_final :: bool
  ut_stream :: bool
  ut_round :: nat
  ut_flushed :: bool
  ut_func :: nat

record resp =
  rp_q :: preq
  rp_req :: wsgi_request
  rp_headers :: "ubuf option"
  rp_headers_sent :: bool
  rp_headers_size :: nat
  rp_response_size :: nat
  rp_header_cnt :: nat
  rp_status :: int
  rp_ignore_body :: bool
  rp_error_routing :: bool
  rp_response_routing :: bool
  rp_transformations :: "ut list"
  rp_chunk :: bytes
  rp_remove :: "bytes list"
  rp_additional :: "bytes list"
  rp_via :: nat
  rp_closed :: "int list"
  rp_out :: bytes
  rp_evs :: "wr list"
  rp_waits :: "int list"

record wconf =
  wc_env :: cenv
  wc_header_limit :: nat
  wc_pcfg :: pcfg
  wc_pull :: "(bytes \<times> bytes) list"
  wc_collect :: "(bytes \<times> bytes) list"
  wc_remove :: "bytes list"
  wc_additional :: "bytes list"
  wc_error_routes :: "resp \<Rightarrow> int \<times> resp"
  wc_response_routes :: "resp \<Rightarrow> int \<times> resp"
  wc_funs :: "nat \<Rightarrow> resp \<Rightarrow> ut \<Rightarrow> resp \<times> ut \<times> int"
  wc_offload :: "int \<Rightarrow> nat \<Rightarrow> int"
  sk_prepare :: "bytes \<Rightarrow> ubuf option option"
  sk_add :: "bytes \<Rightarrow> bytes \<Rightarrow> ubuf option option"
  sk_fix :: "ubuf \<Rightarrow> (ubuf \<times> int) option"
  sk_write :: "preq \<Rightarrow> bytes \<Rightarrow> wr \<Rightarrow> (int \<times> bytes \<times> preq) option"
  sk_writev :: bool
  sk_sendfile :: "preq \<Rightarrow> bytes \<Rightarrow> nat \<Rightarrow> nat \<Rightarrow> wr \<Rightarrow> int \<times> bytes \<times> preq"
  sk_can_offload :: bool

abbreviation rp_errors :: "resp \<Rightarrow> nat" where
  "rp_errors r \<equiv> pq_write_errors (rp_q r)"

definition write_error :: "resp \<Rightarrow> resp" where
  "write_error r = r\<lparr>rp_q := (rp_q r)\<lparr>pq_write_errors := pq_write_errors (rp_q r) + 1\<rparr>\<rparr>"

definition reset_pos :: "resp \<Rightarrow> resp" where
  "reset_pos r = r\<lparr>rp_q := (rp_q r)\<lparr>pq_write_pos := 0\<rparr>\<rparr>"

section \<open>The loop around a write\<close>

text \<open>
  All functions share it: an error ends it, a write that took its bytes is followed by the next
  one, a write that would block by a wait.
\<close>

fun net_loop ::
  "('s \<Rightarrow> wr \<Rightarrow> (int \<times> 's) option) \<Rightarrow> 's \<Rightarrow> wr list \<Rightarrow> int list \<Rightarrow> (int \<times> 's \<times> wr list \<times> int list) option" where
  "net_loop f s [] ws = Some (-1, s, [], ws)"
| "net_loop f s (ev # evs) ws =
     (case f s ev of
        None \<Rightarrow> None
      | Some (ret, s) \<Rightarrow>
          if ret < 0 then Some (-1, s, evs, ws)
          else if ret = 0 then Some (0, s, evs, ws)
          else if ev \<noteq> Write_again then net_loop f s evs ws
          else (case ws of
              [] \<Rightarrow> Some (-1, s, evs, [])
            | w # ws \<Rightarrow> if w \<le> 0 then Some (-1, s, evs, ws) else net_loop f s evs ws))"

definition sending :: "(preq \<Rightarrow> wr \<Rightarrow> (int \<times> bytes \<times> preq) option) \<Rightarrow> resp \<Rightarrow> (int \<times> resp) option" where
  "sending f r = do {
     (ret, (q, out), evs, ws) \<leftarrow>
       net_loop (\<lambda>(q, out) ev. do { (ret, o1, q) \<leftarrow> f q ev; Some (ret, (q, out @ o1)) })
         (rp_q r, rp_out r) (rp_evs r) (rp_waits r);
     let r = r\<lparr>rp_q := q, rp_out := out, rp_evs := evs, rp_waits := ws\<rparr>;
     Some (ret, if ret < 0 then write_error r else r) }"

section \<open>Headers\<close>

fun strncasecmp :: "bytes \<Rightarrow> bytes \<Rightarrow> bool" where
  "strncasecmp (a # as) (b # bs) =
     (if toupper a \<noteq> toupper b then True else if a = 0 then False else strncasecmp as bs)"
| "strncasecmp _ _ = False"

definition uwsgi_strnicmp :: "bytes \<Rightarrow> bytes \<Rightarrow> bool" where
  "uwsgi_strnicmp s d = (if length s \<noteq> length d then True else strncasecmp s d)"

definition new_headers :: "wconf \<Rightarrow> resp \<Rightarrow> resp" where
  "new_headers c r =
     (case rp_headers r of
        None \<Rightarrow> r\<lparr>rp_headers := Some ((uwsgi_buffer_new (wc_env c) (page_size (wc_env c)))\<lparr>limit := wc_header_limit c\<rparr>)\<rparr>
      | Some _ \<Rightarrow> r)"

text \<open>What the socket made (nothing for the null pointer) is appended to the headers.\<close>

definition append_headers :: "wconf \<Rightarrow> resp \<Rightarrow> ubuf option \<Rightarrow> (int \<times> resp) option" where
  "append_headers c r hh =
     (case hh of
        None \<Rightarrow> Some (-1, write_error r)
      | Some hh \<Rightarrow> do {
          h \<leftarrow> rp_headers r;
          d \<leftarrow> mem_read (buf hh) 0 (bpos hh);
          (h, ret) \<leftarrow> uwsgi_buffer_append (wc_env c) h d;
          let r = r\<lparr>rp_headers := Some h\<rparr>;
          Some (if ret \<noteq> 0 then (-1, write_error r) else (0, r)) })"

definition may_add :: "resp \<Rightarrow> bool" where
  "may_add r \<longleftrightarrow> \<not> rp_headers_sent r \<and> rp_headers_size r = 0 \<and> rp_response_size r = 0 \<and> rp_errors r = 0"

definition hsc :: "(bytes \<times> bytes) list" where
  "hsc = map (\<lambda>(k, m). (str k, str m))
     [(''200'', ''OK''), (''302'', ''Found''), (''404'', ''Not Found''), (''500'', ''Internal Server Error''),
      (''301'', ''Moved Permanently''), (''304'', ''Not Modified''), (''303'', ''See Other''), (''403'', ''Forbidden''),
      (''307'', ''Temporary Redirect''), (''401'', ''Unauthorized''), (''400'', ''Bad Request''),
      (''405'', ''Method Not Allowed''), (''408'', ''Request Timeout''), (''100'', ''Continue''),
      (''101'', ''Switching Protocols''), (''201'', ''Created''), (''202'', ''Accepted''),
      (''203'', ''Non-Authoritative Information''), (''204'', ''No Content''), (''205'', ''Reset Content''),
      (''206'', ''Partial Content''), (''300'', ''Multiple Choices''), (''305'', ''Use Proxy''),
      (''402'', ''Payment Required''), (''406'', ''Not Acceptable''), (''407'', ''Proxy Authentication Required''),
      (''409'', ''Conflict''), (''410'', ''Gone''), (''411'', ''Length Required''), (''412'', ''Precondition Failed''),
      (''413'', ''Request Entity Too Large''), (''414'', ''Request-URI Too Long''), (''415'', ''Unsupported Media Type''),
      (''416'', ''Requested Range Not Satisfiable''), (''417'', ''Expectation Failed''), (''501'', ''Not Implemented''),
      (''502'', ''Bad Gateway''), (''503'', ''Service Unavailable''), (''504'', ''Gateway Timeout''),
      (''505'', ''HTTP Version Not Supported''), (''509'', ''Bandwidth Limit Exceeded'')]"

definition uwsgi_http_status_msg :: "bytes \<Rightarrow> bytes option" where
  "uwsgi_http_status_msg status = map_of hsc (take 3 status)"

definition status_line :: "bytes \<Rightarrow> bytes" where
  "status_line status =
     (if length status \<le> 4 then
        (case uwsgi_http_status_msg status of
           Some sc \<Rightarrow> take 3 status @ str '' '' @ sc
         | None \<Rightarrow> take 3 status @ str '' Unknown'')
      else status)"

text \<open>Routes may end the response: \<^verbatim>\<open>UWSGI_ROUTE_BREAK\<close> is 2.\<close>

definition error_routes :: "wconf \<Rightarrow> resp \<Rightarrow> bool \<times> resp" where
  "error_routes c r =
     (if rp_error_routing r then (False, r)
      else (case wc_error_routes c r of (code, r) \<Rightarrow>
        if code = 2 then (True, r\<lparr>rp_ignore_body := True\<rparr>) else (False, r\<lparr>rp_error_routing := False\<rparr>)))"

definition response_routes :: "wconf \<Rightarrow> resp \<Rightarrow> bool \<times> resp" where
  "response_routes c r =
     (if rp_response_routing r then (False, r)
      else (case wc_response_routes c r of (code, r) \<Rightarrow>
        if code = 2 then (True, r\<lparr>rp_ignore_body := True\<rparr>) else (False, r\<lparr>rp_response_routing := False\<rparr>)))"

definition uwsgi_response_prepare_headers :: "wconf \<Rightarrow> resp \<Rightarrow> bytes \<Rightarrow> (int \<times> resp) option" where
  "uwsgi_response_prepare_headers c r status =
     (if \<not> may_add r \<or> length status < 3 then Some (-1, r)
      else do {
        let r = new_headers c r;
        h \<leftarrow> rp_headers r;
        let r = r\<lparr>rp_headers := Some (h\<lparr>bpos := 0\<rparr>), rp_header_cnt := 0,
                  rp_status := uwsgi_str3_num (status ! 0) (status ! 1) (status ! 2)\<rparr>;
        (case error_routes c r of (brk, r) \<Rightarrow>
           if brk then Some (-1, r)
           else do {
             hh \<leftarrow> sk_prepare c (status_line status);
             append_headers c r hh }) })"

text \<open>The number as text with its terminator; three bytes of it are used.\<close>

definition uwsgi_response_prepare_headers_int :: "wconf \<Rightarrow> resp \<Rightarrow> int \<Rightarrow> (int \<times> resp) option" where
  "uwsgi_response_prepare_headers_int c r status = do {
     s \<leftarrow> mem_read (dec_signed status @ [0]) 0 3;
     uwsgi_response_prepare_headers c r s }"

text \<open>A response variable taken over by the request: \<^verbatim>\<open>--pull-header\<close>, \<^verbatim>\<open>--collect-header\<close>.\<close>

definition take_header :: "wconf \<Rightarrow> resp \<Rightarrow> bytes \<Rightarrow> bytes \<Rightarrow> (int \<times> resp) option" where
  "take_header c r var v = do {
     (p, q) \<leftarrow> uwsgi_req_append (wc_pcfg c) (rp_req r) var v;
     let r = r\<lparr>rp_req := q\<rparr>;
     Some (if p = None then (-1, write_error r) else (0, r)) }"

fun pull_loop :: "wconf \<Rightarrow> (bytes \<times> bytes) list \<Rightarrow> resp \<Rightarrow> bytes \<Rightarrow> bytes \<Rightarrow> (bool \<times> int \<times> resp) option" where
  "pull_loop c [] r key v = Some (False, 0, r)"
| "pull_loop c ((name, var) # ps) r key v =
     (if \<not> uwsgi_strnicmp key name then map_option (\<lambda>(ret, r). (True, ret, r)) (take_header c r var v)
      else pull_loop c ps r key v)"

fun collect_loop :: "wconf \<Rightarrow> (bytes \<times> bytes) list \<Rightarrow> resp \<Rightarrow> bytes \<Rightarrow> bytes \<Rightarrow> (int \<times> resp) option" where
  "collect_loop c [] r key v = Some (0, r)"
| "collect_loop c ((name, var) # ps) r key v =
     (if \<not> uwsgi_strnicmp key name then
        (case take_header c r var v of
           None \<Rightarrow> None
         | Some (ret, r) \<Rightarrow> if ret < 0 then Some (-1, r) else collect_loop c ps r key v)
      else collect_loop c ps r key v)"

text \<open>Keys and values come with 16-bit lengths; a key of length 0 is a whole header line.\<close>

definition uwsgi_response_add_header_do :: "wconf \<Rightarrow> resp \<Rightarrow> bytes \<Rightarrow> bytes \<Rightarrow> (int \<times> resp) option" where
  "uwsgi_response_add_header_do c r key v = do {
     (pulled, ret, r) \<leftarrow> pull_loop c (wc_pull c) r key v;
     (if pulled then Some (ret, r)
      else do {
        (ret, r) \<leftarrow> collect_loop c (wc_collect c) r key v;
        (if ret < 0 then Some (-1, r)
         else do {
           let r = new_headers c r;
           hh \<leftarrow> sk_add c key v;
           (ret, r) \<leftarrow> append_headers c r hh;
           Some (ret, if ret = 0 then r\<lparr>rp_header_cnt := (rp_header_cnt r + 1) mod 65536\<rparr> else r) }) }) }"

definition uwsgi_response_add_header :: "wconf \<Rightarrow> resp \<Rightarrow> bytes \<Rightarrow> bytes \<Rightarrow> (int \<times> resp) option" where
  "uwsgi_response_add_header c r key v =
     (if \<not> may_add r then Some (-1, r)
      else if list_ex (\<lambda>n. \<not> uwsgi_strnicmp key n) (wc_remove c) then Some (0, r)
      else if list_ex (\<lambda>n. \<not> uwsgi_strnicmp key n) (rp_remove r) then Some (0, r)
      else uwsgi_response_add_header_do c r key v)"

definition uwsgi_response_add_header_force :: "wconf \<Rightarrow> resp \<Rightarrow> bytes \<Rightarrow> bytes \<Rightarrow> (int \<times> resp) option" where
  "uwsgi_response_add_header_force c r key v =
     (if \<not> may_add r then Some (-1, r) else uwsgi_response_add_header_do c r key v)"

definition uwsgi_response_add_content_length :: "wconf \<Rightarrow> resp \<Rightarrow> u64 \<Rightarrow> (int \<times> resp) option" where
  "uwsgi_response_add_content_length c r cl =
     (let s = digits_of 10 (unat cl) in
      if length s \<ge> umax64_str_size + 1 then Some (-1, write_error r)
      else uwsgi_response_add_header c r (str ''Content-Length'') s)"

definition add_date_header :: "wconf \<Rightarrow> resp \<Rightarrow> bytes \<Rightarrow> nat \<Rightarrow> (int \<times> resp) option" where
  "add_date_header c r key t = do {
     (len, d) \<leftarrow> uwsgi_http_date t;
     (if len = 0 then Some (-1, write_error r)
      else uwsgi_response_add_header c r key (take len d)) }"

definition uwsgi_response_add_expires :: "wconf \<Rightarrow> resp \<Rightarrow> nat \<Rightarrow> (int \<times> resp) option" where
  "uwsgi_response_add_expires c r t = add_date_header c r (str ''Expires'') t"

definition uwsgi_response_add_date :: "wconf \<Rightarrow> resp \<Rightarrow> bytes \<Rightarrow> nat \<Rightarrow> (int \<times> resp) option" where
  "uwsgi_response_add_date c r hkey t = add_date_header c r hkey t"

definition uwsgi_response_add_last_modified :: "wconf \<Rightarrow> resp \<Rightarrow> nat \<Rightarrow> (int \<times> resp) option" where
  "uwsgi_response_add_last_modified c r t = add_date_header c r (str ''Last-Modified'') t"

text \<open>The three numbers are \<^verbatim>\<open>int64_t\<close>; the area has 73 bytes.\<close>

definition uwsgi_response_add_content_range :: "wconf \<Rightarrow> resp \<Rightarrow> int \<Rightarrow> int \<Rightarrow> int \<Rightarrow> (int \<times> resp) option" where
  "uwsgi_response_add_content_range c r start end cl =
     (let add = (\<lambda>s. if length s \<ge> 6 + umax64_str_size * 3 + 4 then Some (-1, write_error r)
                     else uwsgi_response_add_header c r (str ''Content-Range'') s) in
      if start = -1 \<and> end = -1 \<and> cl \<ge> 0 then add (str ''bytes */'' @ dec_signed cl)
      else if start < 0 \<or> end < start \<or> end \<ge> cl then Some (-1, write_error r)
      else add (str ''bytes '' @ dec_signed start @ str ''-'' @ dec_signed end @ str ''/'' @ dec_signed cl))"

section \<open>Sending the headers\<close>

fun add_lines :: "wconf \<Rightarrow> resp \<Rightarrow> bytes list \<Rightarrow> (int \<times> resp) option" where
  "add_lines c r [] = Some (0, r)"
| "add_lines c r (l # ls) =
     (case uwsgi_response_add_header c r [] l of
        None \<Rightarrow> None
      | Some (ret, r) \<Rightarrow> if ret \<noteq> 0 then Some (-1, r) else add_lines c r ls)"

text \<open>The result 1 (\<^verbatim>\<open>UWSGI_AGAIN\<close>) tells that the headers are to be sent.\<close>

definition uwsgi_response_write_headers_do0 :: "wconf \<Rightarrow> resp \<Rightarrow> (int \<times> resp) option" where
  "uwsgi_response_write_headers_do0 c r =
     (if rp_headers_sent r \<or> rp_headers r = None \<or> rp_response_size r \<noteq> 0 \<or> rp_errors r \<noteq> 0 then Some (0, r)
      else case response_routes c r of (brk, r) \<Rightarrow>
        if brk then Some (-1, r)
        else do {
          (ret, r) \<leftarrow> add_lines c r (wc_additional c);
          (if ret \<noteq> 0 then Some (-1, r)
           else do {
             (ret, r) \<leftarrow> add_lines c r (rp_additional r);
             (if ret \<noteq> 0 then Some (-1, r)
              else do {
                h \<leftarrow> rp_headers r;
                (h, ret) \<leftarrow> sk_fix c h;
                let r = r\<lparr>rp_headers := Some h\<rparr>;
                Some (if ret \<noteq> 0 then (-1, write_error r) else (1, r)) }) }) })"

definition headers_data :: "resp \<Rightarrow> bytes option" where
  "headers_data r = do { h \<leftarrow> rp_headers r; mem_read (buf h) 0 (bpos h) }"

definition uwsgi_response_write_headers_do :: "wconf \<Rightarrow> resp \<Rightarrow> (int \<times> resp) option" where
  "uwsgi_response_write_headers_do c r = do {
     (ret, r) \<leftarrow> uwsgi_response_write_headers_do0 c r;
     (if ret \<noteq> 1 then Some (ret, r)
      else do {
        d \<leftarrow> headers_data r;
        (ret, r) \<leftarrow> sending (\<lambda>q. sk_write c q d) r;
        Some (if ret < 0 then (-1, r)
              else (0, reset_pos (r\<lparr>rp_headers_size := rp_headers_size r + pq_write_pos (rp_q r),
                                    rp_headers_sent := True\<rparr>))) }) }"

section \<open>Headers and body in one call\<close>

text \<open>
  The loop of \<^verbatim>\<open>uwsgi_response_writev_headers_and_body_do\<close>: it ends with an error, with everything
  sent, or with one stretch left (\<open>Some\<close>), which is then written plainly.
\<close>

fun writev_loop ::
  "preq \<Rightarrow> bytes \<Rightarrow> bytes list \<Rightarrow> wr list \<Rightarrow> int list \<Rightarrow> int \<times> bytes option \<times> preq \<times> bytes \<times> wr list \<times> int list" where
  "writev_loop q out iov [] ws =
     (if length iov = 1 then (1, Some (hd iov), q, out, [], ws) else (-1, None, q, out, [], ws))"
| "writev_loop q out iov (ev # evs) ws =
     (if length iov = 1 then (1, Some (hd iov), q, out, ev # evs, ws)
      else case uwsgi_proto_base_writev q iov ev of (ret, o1, iov, q) \<Rightarrow>
        if ret < 0 then (-1, None, q, out @ o1, evs, ws)
        else if ret = 0 then (0, None, q, out @ o1, evs, ws)
        else if ev \<noteq> Write_again then writev_loop q (out @ o1) iov evs ws
        else (case ws of
            [] \<Rightarrow> (-1, None, q, out @ o1, evs, [])
          | w # ws \<Rightarrow> if w \<le> 0 then (-1, None, q, out @ o1, evs, ws)
                      else writev_loop q (out @ o1) iov evs ws))"

text \<open>A plain write of the body and the accounting after it.\<close>

definition write_out :: "wconf \<Rightarrow> resp \<Rightarrow> bytes \<Rightarrow> (int \<times> resp) option" where
  "write_out c r d = do {
     (ret, r) \<leftarrow> sending (\<lambda>q. sk_write c q d) r;
     Some (if ret < 0 then (-1, r)
           else (0, reset_pos (r\<lparr>rp_response_size := rp_response_size r + pq_write_pos (rp_q r)\<rparr>))) }"

definition uwsgi_response_writev_headers_and_body_do :: "wconf \<Rightarrow> resp \<Rightarrow> bytes \<Rightarrow> (int \<times> resp) option" where
  "uwsgi_response_writev_headers_and_body_do c r body = do {
     (ret, r) \<leftarrow> uwsgi_response_write_headers_do0 c r;
     (if ret \<noteq> 1 then Some (ret, r)
      else do {
        h \<leftarrow> rp_headers r;
        d \<leftarrow> headers_data r;
        (case writev_loop (rp_q r) (rp_out r) [d, body] (rp_evs r) (rp_waits r) of (ret, left, q, out, evs, ws) \<Rightarrow>
           let r = r\<lparr>rp_q := q, rp_out := out, rp_evs := evs, rp_waits := ws\<rparr> in
           case left of
             Some rest \<Rightarrow>
               let r = r\<lparr>rp_headers_size := rp_headers_size r + bpos h, rp_headers_sent := True\<rparr>;
                   r = r\<lparr>rp_response_size := sz_add (rp_response_size r) (sz_sub (pq_write_pos (rp_q r)) (rp_headers_size r))\<rparr>
               in write_out c (reset_pos r) rest
           | None \<Rightarrow>
               if ret < 0 then Some (-1, write_error r)
               else Some (0, reset_pos (r\<lparr>rp_headers_size := rp_headers_size r + bpos h,
                                         rp_response_size := rp_response_size r + length body,
                                         rp_headers_sent := True\<rparr>))) }) }"

section \<open>Transformations\<close>

text \<open>
  \<^verbatim>\<open>uwsgi_apply_transformations\<close>: the chunk passes the chain until a transformation that cannot
  stream keeps it (1); otherwise what comes out is sent (0).  A transformation may have sent its
  chunk itself (\<^verbatim>\<open>flushed\<close>).  The list walked is the second argument, the part of the chain behind
  it is kept reversed in the first.
\<close>

definition ut_open :: "cenv \<Rightarrow> ut \<Rightarrow> nat \<Rightarrow> ubuf" where
  "ut_open e ut n = (case ut_chunk ut of None \<Rightarrow> uwsgi_buffer_new e n | Some b \<Rightarrow> b)"

fun trans_loop ::
  "wconf \<Rightarrow> ut list \<Rightarrow> ut list \<Rightarrow> resp \<Rightarrow> bytes \<Rightarrow> bool \<Rightarrow> (int \<times> ut list \<times> resp \<times> bytes \<times> bool) option" where
  "trans_loop c past [] r t flushed = Some (0, rev past, r, t, flushed)"
| "trans_loop c past (ut # uts) r t flushed =
     (let b = ut_open (wc_env c) ut (length t); ut = ut\<lparr>ut_chunk := Some b\<rparr> in
      if ut_final ut then trans_loop c (ut # past) uts r t flushed
      else case uwsgi_buffer_append (wc_env c) b t of
        None \<Rightarrow> None
      | Some (b, ret) \<Rightarrow>
          let ut = ut\<lparr>ut_chunk := Some b\<rparr> in
          if ret \<noteq> 0 then Some (-1, rev past @ ut # uts, r, t, flushed)
          else if \<not> ut_stream ut then Some (1, rev past @ ut # uts, r, t, flushed)
          else case wc_funs c (ut_func ut) r (ut\<lparr>ut_round := ut_round ut + 1\<rparr>) of
            (r, ut, ret) \<Rightarrow>
              if ret \<noteq> 0 then Some (-1, rev past @ ut # uts, r, t, flushed)
              else (case ut_chunk ut of
                  None \<Rightarrow> None
                | Some b \<Rightarrow>
                    (case mem_read (buf b) 0 (bpos b) of
                       None \<Rightarrow> None
                     | Some t \<Rightarrow>
                         trans_loop c (ut\<lparr>ut_chunk := Some (b\<lparr>bpos := 0\<rparr>)\<rparr> # past) uts r t (flushed \<or> ut_flushed ut))))"

definition uwsgi_apply_transformations :: "wconf \<Rightarrow> resp \<Rightarrow> bytes \<Rightarrow> (int \<times> resp) option" where
  "uwsgi_apply_transformations c r body = do {
     (ret, uts, r, t, flushed) \<leftarrow> trans_loop c [] (rp_transformations r) (r\<lparr>rp_chunk := []\<rparr>) body False;
     let r = r\<lparr>rp_transformations := uts\<rparr>;
     Some (ret, if ret = 0 \<and> \<not> flushed then r\<lparr>rp_chunk := t\<rparr> else r) }"

text \<open>
  \<^verbatim>\<open>uwsgi_apply_final_transformations\<close>: streaming transformations at the head of the chain are
  skipped, from the first buffering one on every transformation is run.  \<open>None\<close> inside stands for
  a chain stopped because nothing was buffered.
\<close>

fun final_loop ::
  "wconf \<Rightarrow> ut list \<Rightarrow> ut list \<Rightarrow> resp \<Rightarrow> bool \<Rightarrow> bytes \<Rightarrow> bool \<Rightarrow>
     (int \<times> ut list \<times> resp \<times> (bytes \<times> bool) option) option" where
  "final_loop c past [] r found t flushed = Some (0, rev past, r, Some (t, flushed))"
| "final_loop c past (ut # uts) r found t flushed =
     (if \<not> found \<and> ut_stream ut then
        (case ut_chunk ut of
           None \<Rightarrow> Some (0, rev past @ ut # uts, r, None)
         | Some b \<Rightarrow>
             (case mem_read (buf b) 0 (bpos b) of
                None \<Rightarrow> None
              | Some t \<Rightarrow> final_loop c (ut # past) uts r found t flushed))
      else
        let b = ut_open (wc_env c) ut (if length t > 0 then length t else page_size (wc_env c)) in
        case (if length t > 0 then uwsgi_buffer_append (wc_env c) b t else Some (b, 0)) of
          None \<Rightarrow> None
        | Some (b, ret) \<Rightarrow>
            let ut = ut\<lparr>ut_chunk := Some b\<rparr> in
            if ret \<noteq> 0 then Some (-1, rev past @ ut # uts, r, None)
            else case wc_funs c (ut_func ut) r (ut\<lparr>ut_round := ut_round ut + 1\<rparr>) of
              (r, ut, ret) \<Rightarrow>
                if ret \<noteq> 0 then Some (-1, rev past @ ut # uts, r, None)
                else (case ut_chunk ut of
                    None \<Rightarrow> None
                  | Some b \<Rightarrow>
                      (case mem_read (buf b) 0 (bpos b) of
                         None \<Rightarrow> None
                       | Some t \<Rightarrow> final_loop c (ut # past) uts r True t (flushed \<or> ut_flushed ut))))"

definition uwsgi_apply_final_transformations :: "wconf \<Rightarrow> resp \<Rightarrow> (int \<times> resp) option" where
  "uwsgi_apply_final_transformations c r = do {
     (ret, uts, r, res) \<leftarrow> final_loop c [] (rp_transformations r) (r\<lparr>rp_chunk := []\<rparr>) False [] False;
     let r = r\<lparr>rp_transformations := uts\<rparr>;
     Some (ret, case res of
        Some (t, flushed) \<Rightarrow> if flushed then r else r\<lparr>rp_chunk := t\<rparr>
      | None \<Rightarrow> r) }"

definition uwsgi_add_transformation :: "resp \<Rightarrow> nat \<Rightarrow> resp" where
  "uwsgi_add_transformation r func =
     r\<lparr>rp_transformations := rp_transformations r @
        [\<lparr>ut_chunk = None, ut_final = False, ut_stream = False, ut_round = 0, ut_flushed = False, ut_func = func\<rparr>]\<rparr>"

section \<open>The body\<close>

text \<open>
  The part of \<^verbatim>\<open>uwsgi_response_write_body_do\<close> behind the transformations: headers not sent yet go
  out first, in the same call when the socket can do it.
\<close>

definition body_write :: "wconf \<Rightarrow> resp \<Rightarrow> bytes \<Rightarrow> (int \<times> resp) option" where
  "body_write c r body =
     (if \<not> rp_headers_sent r then
        if sk_writev c \<and> length body > 0 \<and> rp_headers r \<noteq> None then
          uwsgi_response_writev_headers_and_body_do c r body
        else do {
          (ret, r) \<leftarrow> uwsgi_response_write_headers_do c r;
          (if ret = 0 then (if length body = 0 then Some (0, r) else write_out c r body)
           else if ret = 1 then Some (1, r)
           else Some (-1, write_error r)) }
      else if length body = 0 then Some (0, r)
      else write_out c r body)"

definition uwsgi_response_write_body_do :: "wconf \<Rightarrow> resp \<Rightarrow> bytes \<Rightarrow> (int \<times> resp) option" where
  "uwsgi_response_write_body_do c r body =
     (if rp_errors r \<noteq> 0 then Some (-1, r)
      else if rp_ignore_body r then Some (0, r)
      else case (if rp_headers_sent r then (False, r) else response_routes c r) of (brk, r) \<Rightarrow>
        if brk then Some (-1, r)
        else if rp_chunk r = [] \<and> rp_transformations r \<noteq> [] then do {
          (t_ret, r) \<leftarrow> uwsgi_apply_transformations c r body;
          (if t_ret = 0 then body_write c (r\<lparr>rp_chunk := []\<rparr>) (rp_chunk r)
           else if t_ret = 1 then Some (0, r)
           else Some (-1, write_error r)) }
        else body_write c r body)"

text \<open>
  \<^verbatim>\<open>uwsgi_response_writev_body_do\<close>.  The loop over the vector leaves for the write with the first
  stretch that comes out of the chain.  \<open>Inl\<close> is a return, \<open>Inr\<close> the vector to write.
\<close>

fun vector_trans :: "wconf \<Rightarrow> resp \<Rightarrow> bytes list \<Rightarrow> bytes list \<Rightarrow> bool \<Rightarrow> ((int + bytes list) \<times> resp) option" where
  "vector_trans c r past [] buffering = Some (if buffering then Inl 0 else Inr (rev past), r)"
| "vector_trans c r past (v # vs) buffering =
     (if rp_chunk r = [] \<and> rp_transformations r \<noteq> [] then
        (case uwsgi_apply_transformations c r v of
           None \<Rightarrow> None
         | Some (t_ret, r) \<Rightarrow>
             if t_ret = 0 then Some (Inr (rev past @ rp_chunk r # vs), r\<lparr>rp_chunk := []\<rparr>)
             else if t_ret = 1 then vector_trans c r (v # past) vs True
             else Some (Inl (-1), write_error r))
      else vector_trans c r (v # past) vs buffering)"

fun write_each :: "wconf \<Rightarrow> resp \<Rightarrow> bytes list \<Rightarrow> (int \<times> resp) option" where
  "write_each c r [] = Some (0, r)"
| "write_each c r (v # vs) =
     (case sending (\<lambda>q. sk_write c q v) r of
        None \<Rightarrow> None
      | Some (ret, r) \<Rightarrow> if ret < 0 then Some (-1, r) else write_each c r vs)"

definition writev_out :: "wconf \<Rightarrow> resp \<Rightarrow> bytes list \<Rightarrow> (int \<times> resp) option" where
  "writev_out c r iov = do {
     (ret, r) \<leftarrow> (if sk_writev c then do {
         (ret, (q, out, _), evs, ws) \<leftarrow>
           net_loop (\<lambda>(q, out, iov) ev. case uwsgi_proto_base_writev q iov ev of
               (ret, o1, iov, q) \<Rightarrow> Some (ret, (q, out @ o1, iov)))
             (rp_q r, rp_out r, iov) (rp_evs r) (rp_waits r);
         let r = r\<lparr>rp_q := q, rp_out := out, rp_evs := evs, rp_waits := ws\<rparr>;
         Some (ret, if ret < 0 then write_error r else r) }
       else write_each c r iov);
     Some (if ret < 0 then (-1, r)
           else (0, reset_pos (r\<lparr>rp_response_size := rp_response_size r + pq_write_pos (rp_q r)\<rparr>))) }"

definition uwsgi_response_writev_body_do :: "wconf \<Rightarrow> resp \<Rightarrow> bytes list \<Rightarrow> (int \<times> resp) option" where
  "uwsgi_response_writev_body_do c r iov =
     (if rp_errors r \<noteq> 0 then Some (-1, r)
      else if rp_ignore_body r then Some (0, r)
      else case (if rp_headers_sent r then (False, r) else response_routes c r) of (brk, r) \<Rightarrow>
        if brk then Some (-1, r)
        else do {
          (res, r) \<leftarrow> vector_trans c r [] iov False;
          (case res of
             Inl ret \<Rightarrow> Some (ret, r)
           | Inr iov \<Rightarrow>
               let send = (\<lambda>r. if iov = [] then Some (0, r) else writev_out c r iov) in
               if rp_headers_sent r then send r
               else do {
                 (ret, r) \<leftarrow> uwsgi_response_write_headers_do c r;
                 (if ret = 0 then send r else if ret = 1 then Some (1, r) else Some (-1, write_error r)) }) })"

section \<open>Files\<close>

text \<open>
  \<^verbatim>\<open>uwsgi_response_sendfile_do_can_close\<close>.  The file behind the descriptor is its bytes; \<open>fstat\<close> may
  fail, \<open>dup\<close> gives a descriptor or a negative number.  A length of 0 means the whole file.
\<close>

record sfile =
  sf_fd :: int
  sf_data :: bytes
  sf_stat_ok :: bool
  sf_dup :: int
  sf_request_fd :: int                       \<comment> \<open>\<^verbatim>\<open>wsgi_req->sendfile_fd\<close>\<close>

definition close_fd :: "bool \<Rightarrow> int \<Rightarrow> resp \<Rightarrow> resp" where
  "close_fd can fd r = (if can then r\<lparr>rp_closed := fd # rp_closed r\<rparr> else r)"

definition sendfile_send :: "wconf \<Rightarrow> resp \<Rightarrow> sfile \<Rightarrow> nat \<Rightarrow> nat \<Rightarrow> bool \<Rightarrow> (int \<times> resp) option" where
  "sendfile_send c r f pos len can =
     (if sk_can_offload c then
        if \<not> can \<and> sf_dup f < 0 then Some (-1, write_error r)
        else
          let fd = (if can then sf_fd f else sf_dup f) in
          if wc_offload c fd len = 0 then Some (0, r\<lparr>rp_via := 3, rp_response_size := rp_response_size r + len\<rparr>)
          else Some (-1, close_fd True fd (write_error r))
      else do {
        (ret, r) \<leftarrow> sending (\<lambda>q ev. Some (sk_sendfile c q (sf_data f) pos len ev)) (r\<lparr>rp_via := 1\<rparr>);
        Some (if ret < 0 then (-1, close_fd can (sf_fd f) r)
              else (0, close_fd can (sf_fd f)
                     (reset_pos (r\<lparr>rp_response_size := rp_response_size r + pq_write_pos (rp_q r)\<rparr>)))) })"

definition sendfile_body :: "wconf \<Rightarrow> resp \<Rightarrow> sfile \<Rightarrow> nat \<Rightarrow> nat \<Rightarrow> bool \<Rightarrow> (int \<times> resp) option" where
  "sendfile_body c r f pos len can =
     (if len = 0 then
        if \<not> sf_stat_ok f then Some (-1, close_fd can (sf_fd f) (write_error r))
        else if pos \<ge> length (sf_data f) then Some (0, close_fd can (sf_fd f) r)
        else sendfile_send c r f pos (length (sf_data f)) can
      else sendfile_send c r f pos len can)"

definition uwsgi_response_sendfile_do_can_close ::
  "wconf \<Rightarrow> resp \<Rightarrow> sfile \<Rightarrow> nat \<Rightarrow> nat \<Rightarrow> bool \<Rightarrow> (int \<times> resp) option" where
  "uwsgi_response_sendfile_do_can_close c r f pos len can_close =
     (let can = (can_close \<and> sf_fd f \<noteq> sf_request_fd f) in
      if rp_errors r \<noteq> 0 then Some (-1, close_fd can (sf_fd f) r)
      else if rp_ignore_body r then Some (0, close_fd can (sf_fd f) r)
      else if rp_headers_sent r then sendfile_body c r f pos len can
      else do {
        (ret, r) \<leftarrow> uwsgi_response_write_headers_do c r;
        (if ret = 0 then sendfile_body c r f pos len can
         else if ret = 1 then Some (1, r)
         else Some (-1, close_fd can (sf_fd f) (write_error r))) })"

definition uwsgi_response_sendfile_do :: "wconf \<Rightarrow> resp \<Rightarrow> sfile \<Rightarrow> nat \<Rightarrow> nat \<Rightarrow> (int \<times> resp) option" where
  "uwsgi_response_sendfile_do c r f pos len = uwsgi_response_sendfile_do_can_close c r f pos len True"

text \<open>The bare write of an error page or a file in a fallback; no accounting.\<close>

definition uwsgi_simple_write :: "wconf \<Rightarrow> resp \<Rightarrow> bytes \<Rightarrow> (int \<times> resp) option" where
  "uwsgi_simple_write c r d = do {
     (ret, r) \<leftarrow> sending (\<lambda>q. sk_write c q d) (reset_pos r);
     Some (if ret < 0 then -1 else 0, r) }"

section \<open>What the loops hand over\<close>

lemma net_loop_keeps:
  assumes "I s"
    and "\<And>s ev. I s \<Longrightarrow> \<exists>ret s'. f s ev = Some (ret, s') \<and> (ret > 0 \<longrightarrow> I s') \<and> (ret = 0 \<longrightarrow> Q s')"
  shows "\<exists>ret s' evs' ws'. net_loop f s evs ws = Some (ret, s', evs', ws') \<and>
           (ret = 0 \<or> ret = -1) \<and> (ret = 0 \<longrightarrow> Q s')"
  using assms(1)
proof (induction evs arbitrary: s ws)
  case Nil
  then show ?case by simp
next
  case (Cons ev evs)
  from assms(2) [OF Cons.prems, of ev] obtain ret s' where
    f: "f s ev = Some (ret, s')" "ret > 0 \<longrightarrow> I s'" "ret = 0 \<longrightarrow> Q s'" by blast
  show ?case
  proof (cases "ret \<le> 0")
    case True
    then show ?thesis using f by auto
  next
    case False
    then have "I s'" using f(2) by simp
    then show ?thesis
      using f False Cons.IH by (cases "ev = Write_again"; cases ws) auto
  qed
qed

lemma sz_sub_le: "b \<le> a \<Longrightarrow> a < SIZE_MOD \<Longrightarrow> sz_sub a b = a - b"
  by (rule sz_sub_exact)

lemma base_write_step:
  assumes "q = q0\<lparr>pq_write_pos := p\<rparr>" "p \<le> length d" "length d < SIZE_MOD"
  shows "\<exists>ret k. uwsgi_proto_base_write q d ev = Some (ret, take k (drop p d), q0\<lparr>pq_write_pos := p + k\<rparr>) \<and>
           p + k \<le> length d \<and> (ret = 0 \<longrightarrow> p + k = length d)"
proof (cases ev)
  case (Accepts n)
  let ?k = "min n (length d - p)"
  have "mem_read d p ?k = Some (take ?k (drop p d))" using assms(2) by (simp add: mem_read_def)
  moreover have left: "sz_sub (length d) p = length d - p" using assms(2,3) by (rule sz_sub_le)
  ultimately have e: "uwsgi_proto_base_write q d ev =
      (if ?k = 0 then Some (-1, [], q)
       else Some (if p + ?k = length d then 0 else 1, take ?k (drop p d), q0\<lparr>pq_write_pos := p + ?k\<rparr>))"
    using Accepts assms(1) by (simp add: uwsgi_proto_base_write_def Let_def) arith
  have le: "p + ?k \<le> length d" using assms(2) by arith
  obtain k where k: "?k = k" by blast
  show ?thesis
  proof (cases "k = 0")
    case True
    then show ?thesis
      using e assms(1,2) unfolding k by (intro exI [of _ "-1"] exI [of _ 0]) simp
  next
    case False
    then show ?thesis
      using e le unfolding k by (intro exI [of _ "if p + k = length d then 0 else 1"] exI [of _ k]) simp
  qed
next
  case Write_again
  then show ?thesis using assms by (intro exI [of _ 1] exI [of _ 0]) (simp add: uwsgi_proto_base_write_def)
next
  case Write_broken
  then show ?thesis using assms by (intro exI [of _ "-1"] exI [of _ 0]) (simp add: uwsgi_proto_base_write_def)
qed

text \<open>A response that differs in its output and its script only.\<close>

definition io_only :: "resp \<Rightarrow> resp \<Rightarrow> bool" where
  "io_only r r' \<longleftrightarrow>
     (\<exists>p out evs ws. r' = r\<lparr>rp_q := (rp_q r)\<lparr>pq_write_pos := p\<rparr>, rp_out := out, rp_evs := evs, rp_waits := ws\<rparr>)"

lemma sending_base:
  assumes "pq_write_pos (rp_q r) = 0" "length d < SIZE_MOD"
  shows "\<exists>ret r'. sending (\<lambda>q. uwsgi_proto_base_write q d) r = Some (ret, r') \<and>
           (ret = 0 \<and> io_only r r' \<and> rp_out r' = rp_out r @ d \<and> pq_write_pos (rp_q r') = length d \<or>
            ret = -1 \<and> rp_errors r' \<noteq> 0)"
proof -
  let ?f = "\<lambda>(q, out) ev. do { (ret, o1, q) \<leftarrow> uwsgi_proto_base_write q d ev; Some (ret, (q, out @ o1)) }"
  let ?I = "\<lambda>(q, out). \<exists>p. q = (rp_q r)\<lparr>pq_write_pos := p\<rparr> \<and> p \<le> length d \<and> out = rp_out r @ take p d"
  let ?Q = "\<lambda>(q, out). q = (rp_q r)\<lparr>pq_write_pos := length d\<rparr> \<and> out = rp_out r @ d"
  have i: "?I (rp_q r, rp_out r)"
    using assms(1) by (auto intro!: exI [of _ 0])
  have step: "\<exists>ret s'. ?f s ev = Some (ret, s') \<and> (ret > 0 \<longrightarrow> ?I s') \<and> (ret = 0 \<longrightarrow> ?Q s')" if I: "?I s" for s ev
  proof -
    obtain q out p where s: "s = (q, out)" "q = (rp_q r)\<lparr>pq_write_pos := p\<rparr>" "p \<le> length d" "out = rp_out r @ take p d"
      using I by (cases s) auto
    from base_write_step [OF s(2,3) assms(2), of ev] obtain ret k where
      b: "uwsgi_proto_base_write q d ev = Some (ret, take k (drop p d), (rp_q r)\<lparr>pq_write_pos := p + k\<rparr>)"
      "p + k \<le> length d" "ret = 0 \<longrightarrow> p + k = length d" by blast
    have "out @ take k (drop p d) = rp_out r @ take (p + k) d" using s(4) by (simp add: take_add)
    then have "?f s ev = Some (ret, ((rp_q r)\<lparr>pq_write_pos := p + k\<rparr>, rp_out r @ take (p + k) d))"
      using b(1) s(1) by simp
    then show ?thesis using b(2,3) by auto
  qed
  have "\<exists>ret s' evs ws. net_loop ?f (rp_q r, rp_out r) (rp_evs r) (rp_waits r) = Some (ret, s', evs, ws) \<and>
      (ret = 0 \<or> ret = -1) \<and> (ret = 0 \<longrightarrow> ?Q s')"
    by (rule net_loop_keeps [of ?I _ ?f ?Q, OF i]) (rule step)
  then obtain ret s' evs ws where
    n: "net_loop ?f (rp_q r, rp_out r) (rp_evs r) (rp_waits r) = Some (ret, s', evs, ws)"
      "ret = 0 \<or> ret = -1" "ret = 0 \<longrightarrow> ?Q s'"
    by (elim exE conjE) (rule that; assumption)
  obtain q out where s': "s' = (q, out)" by (cases s')
  have e: "sending (\<lambda>q. uwsgi_proto_base_write q d) r =
      Some (ret, let r = r\<lparr>rp_q := q, rp_out := out, rp_evs := evs, rp_waits := ws\<rparr> in
                 if ret < 0 then write_error r else r)"
    unfolding sending_def n(1) s' by (simp add: Let_def)
  from n(2) show ?thesis
  proof
    assume "ret = 0"
    then show ?thesis using e n(3) s' by (auto simp: io_only_def)
  next
    assume "ret = -1"
    then show ?thesis using e by (simp add: write_error_def)
  qed
qed

lemma writev_step:
  assumes "uwsgi_proto_base_writev q iov ev = (ret, o1, iov', q')"
  shows "ret = -1 \<or> ret = 0 \<and> o1 = concat iov \<and> q' = q\<lparr>pq_write_pos := pq_write_pos q + length o1\<rparr> \<or>
         ret = 1 \<and> o1 @ concat iov' = concat iov \<and> q' = q\<lparr>pq_write_pos := pq_write_pos q + length o1\<rparr>"
proof (cases "ret = 1")
  case True
  have "q' = q\<lparr>pq_write_pos := pq_write_pos q + length o1\<rparr>"
    using assms True
    by (cases ev) (auto simp: uwsgi_proto_base_writev_def Let_def length_concat split: if_splits prod.splits)
  then show ?thesis using writev_rest [OF assms True] True by blast
next
  case False
  then show ?thesis
    using assms
    by (cases ev) (auto simp: uwsgi_proto_base_writev_def Let_def length_concat split: if_splits prod.splits)
qed

lemma writev_shape:
  assumes "uwsgi_proto_base_writev q iov ev = (1, o1, iov', q')" "iov = [x, y] \<or> iov = [drop k y]"
  shows "\<exists>x k. iov' = [x, y] \<or> iov' = [drop k y]"
proof (cases ev)
  case (Accepts n)
  with assms(1) obtain j skip where "j < length iov" "iov' = drop skip (iov ! j) # drop (Suc j) iov"
    using writev_partial by metis
  then show ?thesis using assms(2) by (auto simp: less_Suc_eq) blast?
qed (use assms in \<open>auto simp: uwsgi_proto_base_writev_def Let_def\<close>)

lemma writev_loop_spec:
  assumes "writev_loop q out iov evs ws = (ret, left, q', out', evs', ws')" "iov = [x, y] \<or> iov = [drop k y]"
  shows "left = None \<and> ret = -1 \<or>
     (\<exists>o1. out' = out @ o1 \<and> q' = q\<lparr>pq_write_pos := pq_write_pos q + length o1\<rparr> \<and>
        (left = None \<and> ret = 0 \<and> o1 = concat iov \<or>
         (\<exists>k. left = Some (drop k y) \<and> o1 @ drop k y = concat iov)))"
  using assms
proof (induction evs arbitrary: q out iov ws x k)
  case Nil
  then show ?case by auto
next
  case (Cons ev evs)
  show ?case
  proof (cases "length iov = 1")
    case True
    then show ?thesis using Cons.prems by auto
  next
    case False
    obtain ret1 o1 iov1 q1 where w: "uwsgi_proto_base_writev q iov ev = (ret1, o1, iov1, q1)"
      by (cases "uwsgi_proto_base_writev q iov ev")
    note st = writev_step [OF w]
    show ?thesis
    proof (cases "ret1 = 1")
      case False
      then show ?thesis using Cons.prems(1) st \<open>length iov \<noteq> 1\<close> w by auto
    next
      case True
      then have one: "o1 @ concat iov1 = concat iov" "q1 = q\<lparr>pq_write_pos := pq_write_pos q + length o1\<rparr>"
        using st by auto
      obtain x' k' where sh: "iov1 = [x', y] \<or> iov1 = [drop k' y]"
        using writev_shape [of q iov ev o1 iov1 q1 x y k] w True Cons.prems(2) by blast
      have "left = None \<and> ret = -1 \<or> (\<exists>ws1. writev_loop q1 (out @ o1) iov1 evs ws1 = (ret, left, q', out', evs', ws'))"
        using Cons.prems(1) w True \<open>length iov \<noteq> 1\<close> by (auto split: if_splits list.splits)
      then show ?thesis
      proof
        assume "\<exists>ws1. writev_loop q1 (out @ o1) iov1 evs ws1 = (ret, left, q', out', evs', ws')"
        then obtain ws1 where "writev_loop q1 (out @ o1) iov1 evs ws1 = (ret, left, q', out', evs', ws')" ..
        from Cons.IH [OF this sh] show ?thesis
        proof (elim disjE exE conjE)
          fix o2
          assume o2: "out' = (out @ o1) @ o2" "q' = q1\<lparr>pq_write_pos := pq_write_pos q1 + length o2\<rparr>"
            "left = None" "ret = 0" "o2 = concat iov1"
          moreover have "length (concat iov) = length o1 + length (concat iov1)"
            unfolding one(1) [symmetric] by (rule length_append)
          ultimately show ?thesis
            using one by (intro disjI2 exI [of _ "concat iov"]) (simp add: add.assoc del: length_concat)
        next
          fix o2 k2
          assume o2: "out' = (out @ o1) @ o2" "q' = q1\<lparr>pq_write_pos := pq_write_pos q1 + length o2\<rparr>"
            "left = Some (drop k2 y)" "o2 @ drop k2 y = concat iov1"
          then show ?thesis
            using one by (intro disjI2 exI [of _ "o1 @ o2"]) (auto simp: add.assoc)
        qed simp
      qed simp
    qed
  qed
qed

lemma base_sendfile_step:
  assumes "q = q0\<lparr>pq_write_pos := p\<rparr>" "p \<le> len" "len < SIZE_MOD"
  shows "\<exists>ret k. uwsgi_proto_base_sendfile q file pos len ev =
             (ret, take k (drop (pos + p) file), q0\<lparr>pq_write_pos := p + k\<rparr>) \<and>
           p + k \<le> len \<and> k \<le> length file - (pos + p) \<and> (ret = 0 \<longrightarrow> p + k = len)"
proof (cases ev)
  case (Accepts n)
  have left: "sz_sub len p = len - p" using assms(2,3) by (rule sz_sub_le)
  obtain k where k: "length (take (min n (len - p)) (drop (pos + p) file)) = k" by blast
  have e: "take (min n (len - p)) (drop (pos + p) file) = take k (drop (pos + p) file)"
    using k by (metis append_eq_conv_conj append_take_drop_id)
  have le: "p + k \<le> len" "k \<le> length file - (pos + p)"
    unfolding k [symmetric] using assms(2) by auto
  have "uwsgi_proto_base_sendfile q file pos len ev =
      (if k = 0 then (-1, [], q)
       else (if p + k = len then 0 else 1, take k (drop (pos + p) file), q0\<lparr>pq_write_pos := p + k\<rparr>))"
    using Accepts assms(1) k unfolding uwsgi_proto_base_sendfile_def
    by (simp add: left Let_def e [symmetric] del: take_eq_Nil length_take)
      (auto simp del: take_eq_Nil length_take)
  note e' = this
  show ?thesis
  proof (cases "k = 0")
    case True
    then show ?thesis using e' assms(1,2) by (intro exI [of _ "-1"] exI [of _ 0]) simp
  next
    case False
    then show ?thesis using e' le by (intro exI [of _ "if p + k = len then 0 else 1"] exI [of _ k]) simp
  qed
next
  case Write_again
  then show ?thesis using assms by (intro exI [of _ 1] exI [of _ 0]) (simp add: uwsgi_proto_base_sendfile_def)
next
  case Write_broken
  then show ?thesis using assms by (intro exI [of _ "-1"] exI [of _ 0]) (simp add: uwsgi_proto_base_sendfile_def)
qed

lemma sending_file:
  assumes "pq_write_pos (rp_q r) = 0" "len < SIZE_MOD"
  shows "\<exists>ret r'. sending (\<lambda>q ev. Some (uwsgi_proto_base_sendfile q file pos len ev)) r = Some (ret, r') \<and>
           (ret = 0 \<and> io_only r r' \<and> rp_out r' = rp_out r @ take len (drop pos file) \<and>
              pq_write_pos (rp_q r') = length (take len (drop pos file)) \<or>
            ret = -1 \<and> rp_errors r' \<noteq> 0)"
proof -
  let ?d = "drop pos file"
  let ?f = "\<lambda>(q, out) ev. do { (ret, o1, q) \<leftarrow> Some (uwsgi_proto_base_sendfile q file pos len ev); Some (ret, (q, out @ o1)) }"
  let ?I = "\<lambda>(q, out). \<exists>p. q = (rp_q r)\<lparr>pq_write_pos := p\<rparr> \<and> p \<le> len \<and> p \<le> length ?d \<and> out = rp_out r @ take p ?d"
  let ?Q = "\<lambda>(q, out). q = (rp_q r)\<lparr>pq_write_pos := length (take len ?d)\<rparr> \<and> out = rp_out r @ take len ?d"
  have i: "?I (rp_q r, rp_out r)"
    using assms(1) by (auto intro!: exI [of _ 0])
  have step: "\<exists>ret s'. ?f s ev = Some (ret, s') \<and> (ret > 0 \<longrightarrow> ?I s') \<and> (ret = 0 \<longrightarrow> ?Q s')" if I: "?I s" for s ev
  proof -
    obtain q out p where s: "s = (q, out)" "q = (rp_q r)\<lparr>pq_write_pos := p\<rparr>" "p \<le> len" "p \<le> length ?d"
        "out = rp_out r @ take p ?d"
      using I by (cases s) auto
    from base_sendfile_step [OF s(2,3) assms(2), of "file" pos ev] obtain ret k where
      b: "uwsgi_proto_base_sendfile q file pos len ev = (ret, take k (drop (pos + p) file), (rp_q r)\<lparr>pq_write_pos := p + k\<rparr>)"
      "p + k \<le> len" "k \<le> length file - (pos + p)" "ret = 0 \<longrightarrow> p + k = len" by blast
    have "out @ take k (drop (pos + p) file) = rp_out r @ take (p + k) ?d"
      unfolding s(5) take_add drop_drop by (simp add: add.commute [of p pos])
    then have "?f s ev = Some (ret, ((rp_q r)\<lparr>pq_write_pos := p + k\<rparr>, rp_out r @ take (p + k) ?d))"
      using b(1) s(1) by simp
    then show ?thesis using b(2-4) s(4) by auto
  qed
  have "\<exists>ret s' evs ws. net_loop ?f (rp_q r, rp_out r) (rp_evs r) (rp_waits r) = Some (ret, s', evs, ws) \<and>
      (ret = 0 \<or> ret = -1) \<and> (ret = 0 \<longrightarrow> ?Q s')"
    by (rule net_loop_keeps [of ?I _ ?f ?Q, OF i]) (rule step)
  then obtain ret s' evs ws where
    n: "net_loop ?f (rp_q r, rp_out r) (rp_evs r) (rp_waits r) = Some (ret, s', evs, ws)"
      "ret = 0 \<or> ret = -1" "ret = 0 \<longrightarrow> ?Q s'"
    by (elim exE conjE) (rule that; assumption)
  obtain q out where s': "s' = (q, out)" by (cases s')
  have e: "sending (\<lambda>q ev. Some (uwsgi_proto_base_sendfile q file pos len ev)) r =
      Some (ret, let r = r\<lparr>rp_q := q, rp_out := out, rp_evs := evs, rp_waits := ws\<rparr> in
                 if ret < 0 then write_error r else r)"
    unfolding sending_def n(1) s' by (simp add: Let_def)
  from n(2) show ?thesis
  proof
    assume "ret = 0"
    then show ?thesis using e n(3) s' by (auto simp: io_only_def)
  next
    assume "ret = -1"
    then show ?thesis using e by (simp add: write_error_def)
  qed
qed

text \<open>A vector is sent as the bytes of its stretches.\<close>

lemma sending_vector:
  assumes "pq_write_pos (rp_q r) = 0" "sk_writev c" "iov \<noteq> []"
  shows "\<exists>ret r'. writev_out c r iov = Some (ret, r') \<and>
           (ret = 0 \<and> rp_out r' = rp_out r @ concat iov \<and>
              (\<exists>r1. io_only r r1 \<and> r' = reset_pos (r1\<lparr>rp_response_size := rp_response_size r + length (concat iov)\<rparr>)) \<or>
            ret = -1 \<and> rp_errors r' \<noteq> 0)"
proof -
  let ?d = "concat iov"
  let ?f = "\<lambda>(q, out, iov) ev. case uwsgi_proto_base_writev q iov ev of (ret, o1, iov, q) \<Rightarrow> Some (ret, (q, out @ o1, iov))"
  let ?I = "\<lambda>(q, out, iov). \<exists>o1. q = (rp_q r)\<lparr>pq_write_pos := length o1\<rparr> \<and> out = rp_out r @ o1 \<and> o1 @ concat iov = ?d"
  let ?Q = "\<lambda>(q, out, iov :: bytes list). q = (rp_q r)\<lparr>pq_write_pos := length ?d\<rparr> \<and> out = rp_out r @ ?d"
  have i: "?I (rp_q r, rp_out r, iov)"
    using assms(1) by auto
  have step: "\<exists>ret s'. ?f s ev = Some (ret, s') \<and> (ret > 0 \<longrightarrow> ?I s') \<and> (ret = 0 \<longrightarrow> ?Q s')" if I: "?I s" for s ev
  proof -
    obtain q out v o1 where s: "s = (q, out, v)" "q = (rp_q r)\<lparr>pq_write_pos := length o1\<rparr>" "out = rp_out r @ o1"
        "o1 @ concat v = ?d"
      using I by (cases s) auto
    obtain ret o2 v' q' where w: "uwsgi_proto_base_writev q v ev = (ret, o2, v', q')"
      by (cases "uwsgi_proto_base_writev q v ev")
    have f: "?f s ev = Some (ret, (q', out @ o2, v'))" using w s(1) by simp
    have one: "?I (q', out @ o2, v')" if "ret = 1"
      using writev_step [OF w] that s by (auto intro!: exI [of _ "o1 @ o2"])
    have zero: "?Q (q', out @ o2, v')" if "ret = 0"
    proof -
      have "o2 = concat v" "q' = q\<lparr>pq_write_pos := pq_write_pos q + length o2\<rparr>"
        using writev_step [OF w] that by auto
      moreover have "length ?d = length o1 + length (concat v)"
        unfolding s(4) [symmetric] by (rule length_append)
      ultimately show ?thesis using s by (simp del: length_concat)
    qed
    have "ret = -1 \<or> ret = 0 \<or> ret = 1" using writev_step [OF w] by blast
    then show ?thesis using f one zero by auto
  qed
  have "\<exists>ret s' evs ws. net_loop ?f (rp_q r, rp_out r, iov) (rp_evs r) (rp_waits r) = Some (ret, s', evs, ws) \<and>
      (ret = 0 \<or> ret = -1) \<and> (ret = 0 \<longrightarrow> ?Q s')"
    by (rule net_loop_keeps [of ?I _ ?f ?Q, OF i]) (rule step)
  then obtain ret s' evs ws where
    n: "net_loop ?f (rp_q r, rp_out r, iov) (rp_evs r) (rp_waits r) = Some (ret, s', evs, ws)"
      "ret = 0 \<or> ret = -1" "ret = 0 \<longrightarrow> ?Q s'"
    by (elim exE conjE) (rule that; assumption)
  obtain q out v where s': "s' = (q, out, v)" by (cases s')
  let ?r = "r\<lparr>rp_q := q, rp_out := out, rp_evs := evs, rp_waits := ws\<rparr>"
  have e: "writev_out c r iov =
      Some (if ret < 0 then (-1, write_error ?r)
            else (0, reset_pos (?r\<lparr>rp_response_size := rp_response_size r + pq_write_pos q\<rparr>)))"
    using assms(2) n(1) s' n(2) by (auto simp: writev_out_def Let_def)
  from n(2) show ?thesis
  proof
    assume z: "ret = 0"
    then have "io_only r ?r" "out = rp_out r @ ?d" "pq_write_pos q = length ?d"
      using n(3) s' by (auto simp: io_only_def)
    then show ?thesis
      using e z by (auto simp: reset_pos_def simp del: length_concat)
  next
    assume "ret = -1"
    then show ?thesis using e by (simp add: write_error_def)
  qed
qed

section \<open>The interface: a socket for responses\<close>

text \<open>
  What the writer relies on: the functions that make header lines never fault and give
  well-formed buffers, bodies are written by the plain functions, and no route or option takes
  the response over.
\<close>

definition makes_buffer :: "ubuf option option \<Rightarrow> bool" where
  "makes_buffer x \<longleftrightarrow> (\<exists>hh. x = Some hh \<and> (\<forall>b. hh = Some b \<longrightarrow> ub_wf b))"

definition headers_wf :: "resp \<Rightarrow> bool" where
  "headers_wf r \<longleftrightarrow> (\<forall>h. rp_headers r = Some h \<longrightarrow> ub_wf h)"

text \<open>The fields a header operation leaves alone.\<close>

definition keep ::
  "resp \<Rightarrow> preq \<times> bytes \<times> bool \<times> nat \<times> nat \<times> bool \<times> ut list \<times> bytes \<times> bytes list \<times> bytes list" where
  "keep r = (rp_q r, rp_out r, rp_headers_sent r, rp_headers_size r, rp_response_size r, rp_ignore_body r,
             rp_transformations r, rp_chunk r, rp_remove r, rp_additional r)"

definition header_step :: "resp \<Rightarrow> int \<Rightarrow> resp \<Rightarrow> bool" where
  "header_step r ret r' \<longleftrightarrow>
     ret = -1 \<and> rp_errors r' \<noteq> 0 \<or>
     ret = 0 \<and> keep r' = keep r \<and> headers_wf r' \<and> (rp_headers r \<noteq> None \<longrightarrow> rp_headers r' \<noteq> None)"

locale response_socket =
  fixes c :: wconf
  assumes plain: "sk_write c = uwsgi_proto_base_write" "sk_sendfile c = uwsgi_proto_base_sendfile" "\<not> sk_can_offload c"
    and quiet: "snd (wc_error_routes c r) = r" "fst (wc_error_routes c r) \<noteq> 2"
      "snd (wc_response_routes c r) = r" "fst (wc_response_routes c r) \<noteq> 2"
    and untaken: "wc_pull c = []" "wc_collect c = []"
    and prepare: "env_ok (wc_env c) \<Longrightarrow> length s < 65600 \<Longrightarrow> makes_buffer (sk_prepare c s)"
    and add: "env_ok (wc_env c) \<Longrightarrow> length k < 65536 \<Longrightarrow> length v < 65536 \<Longrightarrow> makes_buffer (sk_add c k v)"
    and fixes_wf: "env_ok (wc_env c) \<Longrightarrow> ub_wf h \<Longrightarrow> \<exists>h' ret. sk_fix c h = Some (h', ret) \<and> ub_wf h'"
begin

lemma routes_pass: "fst (response_routes c r) = False" "keep (snd (response_routes c r)) = keep r"
  "rp_headers (snd (response_routes c r)) = rp_headers r"
  "fst (error_routes c r) = False" "keep (snd (error_routes c r)) = keep r"
  "rp_headers (snd (error_routes c r)) = rp_headers r"
  using quiet [of r]
  by (auto simp: response_routes_def error_routes_def keep_def split: prod.splits)

lemma new_headers_step:
  assumes "env_ok (wc_env c)" "headers_wf r"
  shows "keep (new_headers c r) = keep r" "headers_wf (new_headers c r)" "rp_headers (new_headers c r) \<noteq> None"
  using assms
  by (auto simp: new_headers_def keep_def headers_wf_def ub_wf_def uwsgi_buffer_new_def env_ok_def split: option.splits)

lemma append_headers_step:
  assumes "env_ok (wc_env c)" "headers_wf r" "rp_headers r \<noteq> None" "\<forall>b. hh = Some b \<longrightarrow> ub_wf b"
  shows "\<exists>ret r'. append_headers c r hh = Some (ret, r') \<and> header_step r ret r'"
proof (cases hh)
  case None
  then show ?thesis by (simp add: append_headers_def header_step_def write_error_def)
next
  case (Some b)
  obtain h where h: "rp_headers r = Some h" "ub_wf h" using assms(2,3) by (auto simp: headers_wf_def)
  have b: "ub_wf b" using assms(4) Some by simp
  have rd: "mem_read (buf b) 0 (bpos b) = Some (ub_data b)" "length (ub_data b) < OBJ_MAX"
    using b by (auto simp: mem_read_def ub_wf_def ub_data_def)
  from append_wf_cases [OF assms(1) h(2) rd(2)] obtain h' ret where
    "uwsgi_buffer_append (wc_env c) h (ub_data b) = Some (h', ret)" "ub_wf h'" "ret = 0 \<or> ret = -1"
    using h(2) by metis
  then show ?thesis
    using Some h rd(1)
    by (auto simp: append_headers_def header_step_def Let_def write_error_def keep_def headers_wf_def)
qed

lemma prepare_step:
  assumes "env_ok (wc_env c)" "headers_wf r" "length s < 65536"
  shows "\<exists>ret r'. uwsgi_response_prepare_headers c r s = Some (ret, r') \<and> (header_step r ret r' \<or> ret = -1 \<and> r' = r)"
proof (cases "\<not> may_add r \<or> length s < 3")
  case True
  then show ?thesis by (simp add: uwsgi_response_prepare_headers_def)
next
  case False
  note n = new_headers_step [OF assms(1,2)]
  obtain h where h: "rp_headers (new_headers c r) = Some h" "ub_wf h" using n(2,3) by (auto simp: headers_wf_def)
  let ?r = "(new_headers c r)\<lparr>rp_headers := Some (h\<lparr>bpos := 0\<rparr>), rp_header_cnt := 0,
                  rp_status := uwsgi_str3_num (s ! 0) (s ! 1) (s ! 2)\<rparr>"
  obtain e where er: "error_routes c ?r = (False, e)" using routes_pass(4) [of ?r] by (metis prod.collapse)
  have k: "keep e = keep r" "headers_wf e" "rp_headers e \<noteq> None"
    using n(1) h routes_pass(5,6) [of ?r] er by (auto simp: keep_def headers_wf_def ub_wf_def)
  have "length (status_line s) < 65600"
  proof (cases "length s \<le> 4")
    case True
    have "\<forall>x\<in>set hsc. length (snd x) < 100" by (simp add: hsc_def)
    then have "length sc < 100" if "uwsgi_http_status_msg s = Some sc" for sc
      using that map_of_SomeD unfolding uwsgi_http_status_msg_def by fastforce
    then show ?thesis using True by (auto simp: status_line_def split: option.split)
  qed (use assms(3) in \<open>simp add: status_line_def\<close>)
  from prepare [OF assms(1) this] obtain hh where hh: "sk_prepare c (status_line s) = Some hh" "\<forall>b. hh = Some b \<longrightarrow> ub_wf b"
    by (auto simp: makes_buffer_def)
  from append_headers_step [OF assms(1) k(2,3) hh(2)] obtain ret r' where
    a: "append_headers c e hh = Some (ret, r')" "header_step e ret r'" by blast
  have "uwsgi_response_prepare_headers c r s = Some (ret, r')"
    using False h(1) er hh(1) a(1) by (simp add: uwsgi_response_prepare_headers_def Let_def)
  moreover have "header_step r ret r'" using a(2) k(1,3) by (auto simp: header_step_def)
  ultimately show ?thesis by blast
qed

lemma add_header_step:
  assumes "env_ok (wc_env c)" "headers_wf r" "length k < 65536" "length v < 65536"
  shows "\<exists>ret r'. uwsgi_response_add_header c r k v = Some (ret, r') \<and>
           (header_step r ret r' \<or> ret = -1 \<and> r' = r \<and> \<not> may_add r)"
proof -
  note n = new_headers_step [OF assms(1,2)]
  from add [OF assms(1,3,4)] obtain hh where hh: "sk_add c k v = Some hh" "\<forall>b. hh = Some b \<longrightarrow> ub_wf b"
    by (auto simp: makes_buffer_def)
  from append_headers_step [OF assms(1) n(2,3) hh(2)] obtain ret r1 where
    a: "append_headers c (new_headers c r) hh = Some (ret, r1)" "header_step (new_headers c r) ret r1" by blast
  let ?r = "if ret = 0 then r1\<lparr>rp_header_cnt := (rp_header_cnt r1 + 1) mod 65536\<rparr> else r1"
  have d: "uwsgi_response_add_header_do c r k v = Some (ret, ?r)"
    using untaken hh(1) a(1) by (simp add: uwsgi_response_add_header_do_def Let_def)
  have "header_step r ret ?r" using a(2) n(1,3) by (auto simp: header_step_def keep_def headers_wf_def)
  moreover have "header_step r 0 r" using assms(2) by (simp add: header_step_def)
  ultimately show ?thesis using d by (simp add: uwsgi_response_add_header_def)
qed

lemma add_lines_step:
  assumes "env_ok (wc_env c)" "headers_wf r" "\<forall>l\<in>set ls. length l < 65536" "may_add r"
  shows "\<exists>ret r'. add_lines c r ls = Some (ret, r') \<and> header_step r ret r'"
  using assms(2-4)
proof (induction ls arbitrary: r)
  case Nil
  then show ?case by (simp add: header_step_def)
next
  case (Cons l ls)
  from add_header_step [OF assms(1) Cons.prems(1), of "[]" l] Cons.prems(2,3) obtain ret r1 where
    a: "uwsgi_response_add_header c r [] l = Some (ret, r1)" "header_step r ret r1" by auto
  show ?case
  proof (cases "ret = 0")
    case True
    then have k: "keep r1 = keep r" "headers_wf r1" using a(2) by (auto simp: header_step_def)
    then have "may_add r1" using Cons.prems(3) by (auto simp: may_add_def keep_def)
    from Cons.IH [OF k(2) _ this] Cons.prems(2) obtain ret2 r2 where
      "add_lines c r1 ls = Some (ret2, r2)" "header_step r1 ret2 r2" by auto
    then show ?thesis using a True by (auto simp: header_step_def)
  next
    case False
    then show ?thesis using a by (auto simp: header_step_def)
  qed
qed

text \<open>
  The bytes on the wire as long as no write has failed: first the headers, once, then the bodies
  handed over so far, \<open>B\<close>.
\<close>

definition wire :: "resp \<Rightarrow> bytes \<Rightarrow> bool" where
  "wire r B \<longleftrightarrow>
     rp_errors r \<noteq> 0 \<or>
     pq_write_pos (rp_q r) = 0 \<and> \<not> rp_ignore_body r \<and> rp_transformations r = [] \<and> headers_wf r \<and>
     (\<forall>l\<in>set (rp_additional r). length l < 65536) \<and> rp_response_size r = length B \<and>
     (if rp_headers_sent r
      then \<exists>h. rp_headers r = Some h \<and> rp_out r = ub_data h @ B \<and> rp_headers_size r = bpos h
      else rp_out r = B \<and> rp_headers_size r = 0 \<and> (B \<noteq> [] \<longrightarrow> rp_headers r = None))"

lemma headers_do0_step:
  assumes "env_ok (wc_env c)" "\<forall>l\<in>set (wc_additional c). length l < 65536" "wire r B" "rp_errors r = 0"
  shows "if rp_headers_sent r \<or> rp_headers r = None then uwsgi_response_write_headers_do0 c r = Some (0, r)
         else \<exists>ret r'. uwsgi_response_write_headers_do0 c r = Some (ret, r') \<and>
           (ret = -1 \<and> rp_errors r' \<noteq> 0 \<or>
            ret = 1 \<and> keep r' = keep r \<and> headers_wf r' \<and> rp_headers r' \<noteq> None)"
proof (cases "rp_headers_sent r \<or> rp_headers r = None")
  case True
  then show ?thesis by (auto simp: uwsgi_response_write_headers_do0_def)
next
  case False
  then have B: "B = []" and w: "headers_wf r" "\<forall>l\<in>set (rp_additional r). length l < 65536"
      "rp_response_size r = 0" "rp_headers_size r = 0"
    using assms(3,4) by (auto simp: wire_def)
  obtain r1 where r1: "response_routes c r = (False, r1)" using routes_pass(1) [of r] by (metis prod.collapse)
  have k1: "keep r1 = keep r" "rp_headers r1 = rp_headers r" using routes_pass(2,3) [of r] r1 by auto
  have m1: "may_add r1" "headers_wf r1"
    using k1 False w assms(4) by (auto simp: may_add_def keep_def headers_wf_def)
  from add_lines_step [OF assms(1) m1(2) assms(2) m1(1)] obtain ret2 r2 where
    r2: "add_lines c r1 (wc_additional c) = Some (ret2, r2)" "header_step r1 ret2 r2" by blast
  show ?thesis
  proof (cases "ret2 = 0")
    case False
    then have "ret2 = -1 \<and> rp_errors r2 \<noteq> 0" using r2(2) by (auto simp: header_step_def)
    then show ?thesis
      using \<open>\<not> (rp_headers_sent r \<or> rp_headers r = None)\<close> w(3) assms(4) r1 r2(1)
      by (auto simp: uwsgi_response_write_headers_do0_def)
  next
    case True
    then have k2: "keep r2 = keep r" "headers_wf r2" "rp_headers r2 \<noteq> None"
      using r2(2) k1 False by (auto simp: header_step_def)
    then have m2: "may_add r2" "\<forall>l\<in>set (rp_additional r2). length l < 65536"
      using False w assms(4) by (auto simp: may_add_def keep_def)
    from add_lines_step [OF assms(1) k2(2) m2(2,1)] obtain ret3 r3 where
      r3: "add_lines c r2 (rp_additional r2) = Some (ret3, r3)" "header_step r2 ret3 r3" by blast
    show ?thesis
    proof (cases "ret3 = 0")
      case False
      then have "ret3 = -1 \<and> rp_errors r3 \<noteq> 0" using r3(2) by (auto simp: header_step_def)
      then show ?thesis
        using \<open>\<not> (rp_headers_sent r \<or> rp_headers r = None)\<close> True w(3) assms(4) r1 r2(1) r3(1)
        by (auto simp: uwsgi_response_write_headers_do0_def)
    next
      case z: True
      then have k3: "keep r3 = keep r" "headers_wf r3" "rp_headers r3 \<noteq> None"
        using r3(2) k2 by (auto simp: header_step_def)
      then obtain h where h: "rp_headers r3 = Some h" "ub_wf h" by (auto simp: headers_wf_def)
      from fixes_wf [OF assms(1) h(2)] obtain h' ret where f: "sk_fix c h = Some (h', ret)" "ub_wf h'" by blast
      have "uwsgi_response_write_headers_do0 c r =
          Some (if ret \<noteq> 0 then (-1, write_error (r3\<lparr>rp_headers := Some h'\<rparr>)) else (1, r3\<lparr>rp_headers := Some h'\<rparr>))"
        using False w(3) assms(4) r1 r2(1) r3(1) True z h(1) f(1)
        by (simp add: uwsgi_response_write_headers_do0_def Let_def)
      then show ?thesis
        using False k3(1) f(2) by (auto simp: write_error_def keep_def headers_wf_def)
    qed
  qed
qed

text \<open>The outcome of a step: the stream grows by \<open>d\<close>, or a write error is on record.\<close>

definition sent :: "resp \<Rightarrow> bytes \<Rightarrow> bytes \<Rightarrow> int \<Rightarrow> resp \<Rightarrow> bool" where
  "sent r B d ret r' \<longleftrightarrow>
     ret = 0 \<and> wire r' (B @ d) \<and> (rp_headers_sent r' \<or> rp_headers r' = None) \<and> rp_errors r' = rp_errors r \<or>
     ret = -1 \<and> rp_errors r' \<noteq> 0"

lemma write_headers_step:
  assumes "env_ok (wc_env c)" "\<forall>l\<in>set (wc_additional c). length l < 65536" "wire r B" "rp_errors r = 0"
  shows "\<exists>ret r'. uwsgi_response_write_headers_do c r = Some (ret, r') \<and> sent r B [] ret r'"
proof (cases "rp_headers_sent r \<or> rp_headers r = None")
  case True
  then show ?thesis
    using headers_do0_step [OF assms] assms(3) by (auto simp: uwsgi_response_write_headers_do_def sent_def)
next
  case False
  then obtain ret0 r0 where d0: "uwsgi_response_write_headers_do0 c r = Some (ret0, r0)"
    "ret0 = -1 \<and> rp_errors r0 \<noteq> 0 \<or> ret0 = 1 \<and> keep r0 = keep r \<and> headers_wf r0 \<and> rp_headers r0 \<noteq> None"
    using headers_do0_step [OF assms] by auto
  show ?thesis
  proof (cases "ret0 = 1")
    case False
    then show ?thesis using d0 by (auto simp: uwsgi_response_write_headers_do_def sent_def)
  next
    case True
    then obtain h where h: "rp_headers r0 = Some h" "ub_wf h" and k: "keep r0 = keep r"
      using d0(2) by (auto simp: headers_wf_def)
    have hd: "headers_data r0 = Some (ub_data h)" "length (ub_data h) = bpos h" "length (ub_data h) < SIZE_MOD"
      using h by (auto simp: headers_data_def mem_read_def ub_data_def ub_wf_def)
    have pos: "pq_write_pos (rp_q r0) = 0" using k assms(3,4) by (auto simp: keep_def wire_def)
    from sending_base [OF pos hd(3)] obtain ret r1 where
      s: "sending (\<lambda>q. uwsgi_proto_base_write q (ub_data h)) r0 = Some (ret, r1)" and
      c: "ret = 0 \<and> io_only r0 r1 \<and> rp_out r1 = rp_out r0 @ ub_data h \<and> pq_write_pos (rp_q r1) = length (ub_data h) \<or>
          ret = -1 \<and> rp_errors r1 \<noteq> 0" by blast
    let ?r = "reset_pos (r1\<lparr>rp_headers_size := rp_headers_size r1 + pq_write_pos (rp_q r1), rp_headers_sent := True\<rparr>)"
    have e: "uwsgi_response_write_headers_do c r = Some (if ret < 0 then (-1, r1) else (0, ?r))"
      using d0(1) True hd(1) s plain(1) by (simp add: uwsgi_response_write_headers_do_def)
    have "wire ?r (B @ [])" if "ret = 0"
      using that c assms(3,4) False k h hd
      by (auto simp: wire_def keep_def io_only_def reset_pos_def headers_wf_def)
    then show ?thesis
      using e c k by (auto simp: sent_def reset_pos_def keep_def io_only_def)
  qed
qed

lemma write_out_step:
  assumes "wire r B" "rp_errors r = 0" "rp_headers_sent r \<or> rp_headers r = None" "length d < SIZE_MOD"
  shows "\<exists>ret r'. write_out c r d = Some (ret, r') \<and> sent r B d ret r'"
proof -
  have pos: "pq_write_pos (rp_q r) = 0" using assms(1,2) by (auto simp: wire_def)
  from sending_base [OF pos assms(4)] obtain ret r1 where
    s: "sending (\<lambda>q. uwsgi_proto_base_write q d) r = Some (ret, r1)" and
    c: "ret = 0 \<and> io_only r r1 \<and> rp_out r1 = rp_out r @ d \<and> pq_write_pos (rp_q r1) = length d \<or>
        ret = -1 \<and> rp_errors r1 \<noteq> 0" by blast
  let ?r = "reset_pos (r1\<lparr>rp_response_size := rp_response_size r1 + pq_write_pos (rp_q r1)\<rparr>)"
  have e: "write_out c r d = Some (if ret < 0 then (-1, r1) else (0, ?r))"
    using s plain(1) by (simp add: write_out_def)
  have "wire ?r (B @ d)" if "ret = 0"
    using that c assms(1-3) by (auto simp: wire_def io_only_def reset_pos_def headers_wf_def)
  then show ?thesis
    using e c assms(3) by (auto simp: sent_def reset_pos_def io_only_def)
qed

lemma sent_wire: "sent r B d ret r' \<Longrightarrow> wire r' (B @ (if ret = 0 then d else []))"
  by (auto simp: sent_def wire_def)

lemma sent_trans:
  "sent r B [] 0 r1 \<Longrightarrow> sent r1 B d ret r2 \<Longrightarrow> sent r B d ret r2"
  by (auto simp: sent_def)

lemma headers_and_body_step:
  assumes "env_ok (wc_env c)" "\<forall>l\<in>set (wc_additional c). length l < 65536" "wire r B" "rp_errors r = 0"
    and "\<not> rp_headers_sent r" "rp_headers r \<noteq> None" "length d < OBJ_MAX"
  shows "\<exists>ret r'. uwsgi_response_writev_headers_and_body_do c r d = Some (ret, r') \<and> sent r B d ret r'"
proof -
  obtain ret0 r0 where d0: "uwsgi_response_write_headers_do0 c r = Some (ret0, r0)"
    "ret0 = -1 \<and> rp_errors r0 \<noteq> 0 \<or> ret0 = 1 \<and> keep r0 = keep r \<and> headers_wf r0 \<and> rp_headers r0 \<noteq> None"
    using headers_do0_step [OF assms(1-4)] assms(5,6) by auto
  show ?thesis
  proof (cases "ret0 = 1")
    case False
    then show ?thesis using d0 by (auto simp: uwsgi_response_writev_headers_and_body_do_def sent_def)
  next
    case True
    then obtain h where h: "rp_headers r0 = Some h" "ub_wf h" and k: "keep r0 = keep r"
      using d0(2) by (auto simp: headers_wf_def)
    have hd: "headers_data r0 = Some (ub_data h)" "length (ub_data h) = bpos h" "bpos h < OBJ_MAX"
      using h by (auto simp: headers_data_def mem_read_def ub_data_def ub_wf_def)
    have w0: "pq_write_pos (rp_q r0) = 0" "B = []" "rp_out r0 = []" "rp_headers_size r0 = 0" "rp_response_size r0 = 0"
      "rp_errors r0 = 0" "\<not> rp_ignore_body r0" "rp_transformations r0 = []" "\<forall>l\<in>set (rp_additional r0). length l < 65536"
      using k assms(3-6) by (auto simp: keep_def wire_def)
    obtain ret left q out evs ws where
      l: "writev_loop (rp_q r0) (rp_out r0) [ub_data h, d] (rp_evs r0) (rp_waits r0) = (ret, left, q, out, evs, ws)"
      by (cases "writev_loop (rp_q r0) (rp_out r0) [ub_data h, d] (rp_evs r0) (rp_waits r0)")
    let ?r = "r0\<lparr>rp_q := q, rp_out := out, rp_evs := evs, rp_waits := ws\<rparr>"
    from writev_loop_spec [OF l, of "ub_data h" d 0] consider
        (err) "left = None" "ret = -1"
      | (all) "out = ub_data h @ d" "q = (rp_q r0)\<lparr>pq_write_pos := bpos h + length d\<rparr>" "left = None" "ret = 0"
      | (part) o1 j where "out = o1" "q = (rp_q r0)\<lparr>pq_write_pos := length o1\<rparr>" "left = Some (drop j d)"
          "o1 @ drop j d = ub_data h @ d"
      using w0(1,3) hd(2) by auto
    then show ?thesis
    proof cases
      case err
      then have "uwsgi_response_writev_headers_and_body_do c r d = Some (-1, write_error ?r)"
        using d0(1) True h(1) hd(1) l by (simp add: uwsgi_response_writev_headers_and_body_do_def)
      then show ?thesis by (simp add: sent_def write_error_def)
    next
      case all
      let ?r' = "reset_pos (?r\<lparr>rp_headers_size := rp_headers_size ?r + bpos h,
                     rp_response_size := rp_response_size ?r + length d, rp_headers_sent := True\<rparr>)"
      have "uwsgi_response_writev_headers_and_body_do c r d = Some (0, ?r')"
        using d0(1) True h(1) hd(1) l all by (simp add: uwsgi_response_writev_headers_and_body_do_def)
      moreover have "wire ?r' (B @ d)"
        using all w0 h by (auto simp: wire_def reset_pos_def headers_wf_def)
      ultimately show ?thesis
        using all w0 assms(4) by (auto simp: sent_def reset_pos_def)
    next
      case part
      have len: "length o1 + length (drop j d) = bpos h + length d"
        using arg_cong [OF part(4), of length] hd(2) by simp
      then have ge: "bpos h \<le> length o1" by simp
      have lt: "length o1 < SIZE_MOD" using len hd(3) assms(7) by simp
      have "take (bpos h) (o1 @ drop j d) = ub_data h" "drop (bpos h) (o1 @ drop j d) = d"
        unfolding part(4) using hd(2) by simp_all
      then have "take (bpos h) o1 = ub_data h" "drop (bpos h) o1 @ drop j d = d" using ge by simp_all
      then obtain b where b: "o1 = ub_data h @ b" "b @ drop j d = d"
        by (metis append_take_drop_id)
      let ?r1 = "?r\<lparr>rp_headers_size := rp_headers_size ?r + bpos h, rp_headers_sent := True\<rparr>"
      let ?r2 = "?r1\<lparr>rp_response_size := sz_add (rp_response_size ?r1) (sz_sub (pq_write_pos (rp_q ?r1)) (rp_headers_size ?r1))\<rparr>"
      have "sz_sub (length o1) (bpos h) = length b"
        using ge lt b(1) hd(2) by (simp add: sz_sub_le)
      moreover have "sz_add 0 (length b) = length b" using lt b(1) by (simp add: sz_add_def)
      ultimately have w2: "wire (reset_pos ?r2) (B @ b)"
        using part w0 h b hd(2) by (auto simp: wire_def reset_pos_def headers_wf_def)
      have e2: "rp_errors (reset_pos ?r2) = 0" "rp_headers_sent (reset_pos ?r2)"
        using part(2) w0(6) by (simp_all add: reset_pos_def)
      have "length (drop j d) < SIZE_MOD" using assms(7) by simp
      from write_out_step [OF w2 e2(1) _ this] e2(2) obtain ret2 r3 where
        o: "write_out c (reset_pos ?r2) (drop j d) = Some (ret2, r3)" "sent (reset_pos ?r2) (B @ b) (drop j d) ret2 r3"
        by blast
      have "uwsgi_response_writev_headers_and_body_do c r d = Some (ret2, r3)"
        using d0(1) True h(1) hd(1) l part(3) o(1)
        by (simp add: uwsgi_response_writev_headers_and_body_do_def Let_def)
      moreover have "sent r B d ret2 r3"
        using o(2) b(2) e2(1) assms(4) by (auto simp: sent_def)
      ultimately show ?thesis by blast
    qed
  qed
qed

lemma body_write_step:
  assumes "env_ok (wc_env c)" "\<forall>l\<in>set (wc_additional c). length l < 65536" "wire r B" "rp_errors r = 0"
    and "length d < OBJ_MAX"
  shows "\<exists>ret r'. body_write c r d = Some (ret, r') \<and> sent r B d ret r'"
proof -
  have d: "length d < SIZE_MOD" using assms(5) by simp
  have out: "\<exists>ret r'. (if length d = 0 then Some (0, r) else write_out c r d) = Some (ret, r') \<and> sent r B d ret r'"
    if "wire r B" "rp_errors r = 0" "rp_headers_sent r \<or> rp_headers r = None" for r
    using write_out_step [OF that d] that by (auto simp: sent_def)
  show ?thesis
  proof (cases "rp_headers_sent r")
    case True
    then show ?thesis using out [OF assms(3,4)] by (simp add: body_write_def)
  next
    case False
    show ?thesis
    proof (cases "sk_writev c \<and> length d > 0 \<and> rp_headers r \<noteq> None")
      case True
      then show ?thesis
        using headers_and_body_step [OF assms(1-4) False _ assms(5)] False by (simp add: body_write_def)
    next
      case no: False
      from write_headers_step [OF assms(1-4)] obtain ret1 r1 where
        h: "uwsgi_response_write_headers_do c r = Some (ret1, r1)" "sent r B [] ret1 r1" by blast
      show ?thesis
      proof (cases "ret1 = 0")
        case True
        then have "wire r1 B" "rp_errors r1 = 0" "rp_headers_sent r1 \<or> rp_headers r1 = None"
          using h(2) assms(4) by (auto simp: sent_def)
        from out [OF this] obtain ret2 r2 where
          "(if length d = 0 then Some (0, r1) else write_out c r1 d) = Some (ret2, r2)" "sent r1 B d ret2 r2" by blast
        then show ?thesis using False no h True sent_trans [of r B r1 d ret2 r2] by (auto simp: body_write_def)
      next
        case f: False
        then have "ret1 = -1" "rp_errors r1 \<noteq> 0" using h(2) by (auto simp: sent_def)
        then show ?thesis using False no h(1) by (auto simp: body_write_def sent_def write_error_def)
      qed
    qed
  qed
qed

lemma wire_pass:
  assumes "wire r B" "keep r' = keep r" "rp_headers r' = rp_headers r"
  shows "wire r' B"
  using assms by (auto simp: wire_def keep_def headers_wf_def)

lemma body_routes:
  assumes "wire r B" "rp_errors r = 0"
  shows "\<exists>r1. (if rp_headers_sent r then (False, r) else response_routes c r) = (False, r1) \<and> wire r1 B \<and>
           rp_errors r1 = 0 \<and> rp_headers_sent r1 = rp_headers_sent r \<and> rp_transformations r1 = []"
proof -
  obtain r1 where r1: "response_routes c r = (False, r1)" using routes_pass(1) [of r] by (metis prod.collapse)
  have k: "keep r1 = keep r" "rp_headers r1 = rp_headers r" using routes_pass(2,3) [of r] r1 by auto
  have t: "rp_transformations r = []" using assms by (simp add: wire_def)
  show ?thesis
    using r1 k wire_pass [OF assms(1) k] assms t by (auto simp: keep_def)
qed

lemma body_step:
  assumes "env_ok (wc_env c)" "\<forall>l\<in>set (wc_additional c). length l < 65536" "wire r B" "length d < OBJ_MAX"
  shows "\<exists>ret r'. uwsgi_response_write_body_do c r d = Some (ret, r') \<and> wire r' (B @ (if ret = 0 then d else []))"
proof (cases "rp_errors r = 0")
  case False
  then show ?thesis by (simp add: uwsgi_response_write_body_do_def wire_def)
next
  case True
  then have i: "\<not> rp_ignore_body r" using assms(3) by (simp add: wire_def)
  from body_routes [OF assms(3) True] obtain r1 where
    r1: "(if rp_headers_sent r then (False, r) else response_routes c r) = (False, r1)" "wire r1 B" "rp_errors r1 = 0"
      "rp_transformations r1 = []" by blast
  from body_write_step [OF assms(1,2) r1(2,3) assms(4)] obtain ret r2 where
    w: "body_write c r1 d = Some (ret, r2)" "sent r1 B d ret r2" by blast
  have "uwsgi_response_write_body_do c r d = Some (ret, r2)"
    using True i r1(1,4) w(1) by (simp add: uwsgi_response_write_body_do_def)
  then show ?thesis using w(2) by (auto simp: sent_def wire_def)
qed

lemma vector_step:
  assumes "env_ok (wc_env c)" "\<forall>l\<in>set (wc_additional c). length l < 65536" "wire r B" "sk_writev c"
  shows "\<exists>ret r'. uwsgi_response_writev_body_do c r vs = Some (ret, r') \<and>
           wire r' (B @ (if ret = 0 then concat vs else []))"
proof (cases "rp_errors r = 0")
  case False
  then show ?thesis by (simp add: uwsgi_response_writev_body_do_def wire_def)
next
  case True
  then have i: "\<not> rp_ignore_body r" using assms(3) by (simp add: wire_def)
  from body_routes [OF assms(3) True] obtain r1 where
    r1: "(if rp_headers_sent r then (False, r) else response_routes c r) = (False, r1)" "wire r1 B" "rp_errors r1 = 0"
      "rp_transformations r1 = []" by blast
  have vt: "vector_trans c r1 past vs False = Some (Inr (rev past @ vs), r1)" for past
    using r1(4) by (induction vs arbitrary: past) auto
  have send: "\<exists>ret r'. (if vs = [] then Some (0, r) else writev_out c r vs) = Some (ret, r') \<and>
      wire r' (B @ (if ret = 0 then concat vs else []))"
    if w: "wire r B" "rp_errors r = 0" "rp_headers_sent r \<or> rp_headers r = None" for r
  proof (cases "vs = []")
    case False
    have pos: "pq_write_pos (rp_q r) = 0" using w(1,2) by (auto simp: wire_def)
    from sending_vector [OF pos assms(4) False] obtain ret r' where
      s: "writev_out c r vs = Some (ret, r')" and
      c: "ret = 0 \<and> rp_out r' = rp_out r @ concat vs \<and>
            (\<exists>r1. io_only r r1 \<and> r' = reset_pos (r1\<lparr>rp_response_size := rp_response_size r + length (concat vs)\<rparr>)) \<or>
          ret = -1 \<and> rp_errors r' \<noteq> 0" by blast
    have "wire r' (B @ concat vs)" if "ret = 0"
      using that c w by (auto simp: wire_def io_only_def reset_pos_def headers_wf_def simp del: length_concat)
    then show ?thesis using s c False by (auto simp: wire_def)
  qed (use w in simp)
  show ?thesis
  proof (cases "rp_headers_sent r1")
    case True
    from send [OF r1(2,3)] True obtain ret r2 where
      "(if vs = [] then Some (0, r1) else writev_out c r1 vs) = Some (ret, r2)"
      "wire r2 (B @ (if ret = 0 then concat vs else []))" by blast
    then show ?thesis
      using \<open>rp_errors r = 0\<close> i r1(1) True vt [of "[]"] by (simp add: uwsgi_response_writev_body_do_def Let_def)
  next
    case False
    from write_headers_step [OF assms(1,2) r1(2,3)] obtain ret1 r2 where
      h: "uwsgi_response_write_headers_do c r1 = Some (ret1, r2)" "sent r1 B [] ret1 r2" by blast
    show ?thesis
    proof (cases "ret1 = 0")
      case z: True
      then have "wire r2 B" "rp_errors r2 = 0" "rp_headers_sent r2 \<or> rp_headers r2 = None"
        using h(2) r1(3) by (auto simp: sent_def)
      from send [OF this] obtain ret r3 where
        "(if vs = [] then Some (0, r2) else writev_out c r2 vs) = Some (ret, r3)"
        "wire r3 (B @ (if ret = 0 then concat vs else []))" by blast
      then show ?thesis
        using \<open>rp_errors r = 0\<close> i r1(1) False vt [of "[]"] h(1) z
        by (simp add: uwsgi_response_writev_body_do_def Let_def)
    next
      case z: False
      then have "ret1 = -1" "rp_errors r2 \<noteq> 0" using h(2) by (auto simp: sent_def)
      then show ?thesis
        using \<open>rp_errors r = 0\<close> i r1(1) False vt [of "[]"] h(1)
        by (simp add: uwsgi_response_writev_body_do_def Let_def wire_def write_error_def)
    qed
  qed
qed

lemma wire_close [simp]: "wire (close_fd can fd r) B = wire r B"
  by (simp add: wire_def close_fd_def headers_wf_def)

lemma file_step:
  assumes "env_ok (wc_env c)" "\<forall>l\<in>set (wc_additional c). length l < 65536" "wire r B"
    and "len < SIZE_MOD" "length (sf_data f) < SIZE_MOD"
  shows "\<exists>ret r'. uwsgi_response_sendfile_do c r f pos len = Some (ret, r') \<and>
    wire r' (B @ (if ret = 0 then take (if len = 0 then length (sf_data f) else len) (drop pos (sf_data f)) else []))"
proof (cases "rp_errors r = 0")
  case False
  then show ?thesis
    by (simp add: uwsgi_response_sendfile_do_def uwsgi_response_sendfile_do_can_close_def Let_def)
      (simp add: wire_def)
next
  case True
  then have i: "\<not> rp_ignore_body r" using assms(3) by (simp add: wire_def)
  let ?can = "sf_fd f \<noteq> sf_request_fd f"
  have send: "\<exists>ret r'. sendfile_send c r f pos n ?can = Some (ret, r') \<and>
      wire r' (B @ (if ret = 0 then take n (drop pos (sf_data f)) else []))"
    if w: "wire r B" "rp_errors r = 0" "rp_headers_sent r \<or> rp_headers r = None" and n: "n < SIZE_MOD" for r n
  proof -
    let ?v = "r\<lparr>rp_via := 1\<rparr>"
    have pos: "pq_write_pos (rp_q ?v) = 0" using w(1,2) by (auto simp: wire_def)
    from sending_file [OF pos n, of "sf_data f" pos] obtain ret r1 where
      s: "sending (\<lambda>q ev. Some (uwsgi_proto_base_sendfile q (sf_data f) pos n ev)) ?v = Some (ret, r1)" and
      c: "ret = 0 \<and> io_only ?v r1 \<and> rp_out r1 = rp_out ?v @ take n (drop pos (sf_data f)) \<and>
            pq_write_pos (rp_q r1) = length (take n (drop pos (sf_data f))) \<or>
          ret = -1 \<and> rp_errors r1 \<noteq> 0" by blast
    let ?r = "reset_pos (r1\<lparr>rp_response_size := rp_response_size r1 + pq_write_pos (rp_q r1)\<rparr>)"
    have e: "sendfile_send c r f pos n ?can =
        Some (if ret < 0 then (-1, close_fd ?can (sf_fd f) r1) else (0, close_fd ?can (sf_fd f) ?r))"
      using s plain(2,3) by (simp add: sendfile_send_def)
    obtain d where d: "take n (drop pos (sf_data f)) = d" by blast
    have "wire ?r (B @ d)" if "ret = 0"
      using that c w unfolding d by (auto simp: wire_def io_only_def reset_pos_def headers_wf_def)
    moreover have "wire r1 B" if "ret = -1" using that c by (simp add: wire_def)
    ultimately show ?thesis using e c unfolding d by auto
  qed
  have body: "\<exists>ret r'. sendfile_body c r f pos len ?can = Some (ret, r') \<and>
      wire r' (B @ (if ret = 0 then take (if len = 0 then length (sf_data f) else len) (drop pos (sf_data f)) else []))"
    if w: "wire r B" "rp_errors r = 0" "rp_headers_sent r \<or> rp_headers r = None" for r
  proof (cases "len = 0")
    case z: True
    consider "\<not> sf_stat_ok f" | "sf_stat_ok f" "pos \<ge> length (sf_data f)" | "sf_stat_ok f" "pos < length (sf_data f)"
      by linarith
    then show ?thesis
    proof cases
      case 1
      then have "sendfile_body c r f pos len ?can = Some (-1, close_fd ?can (sf_fd f) (write_error r))"
        using z by (simp add: sendfile_body_def)
      moreover have "wire (write_error r) B" by (simp add: wire_def write_error_def)
      ultimately show ?thesis by simp
    next
      case 2
      then show ?thesis using z w(1) by (simp add: sendfile_body_def)
    next
      case 3
      then have "sendfile_body c r f pos len ?can = sendfile_send c r f pos (length (sf_data f)) ?can"
        using z by (simp add: sendfile_body_def)
      then show ?thesis using send [OF w assms(5)] z by simp
    qed
  next
    case False
    then show ?thesis using send [OF w assms(4)] by (simp add: sendfile_body_def)
  qed
  show ?thesis
  proof (cases "rp_headers_sent r")
    case h: True
    then show ?thesis
      using body [OF assms(3) True] True i
      by (simp add: uwsgi_response_sendfile_do_def uwsgi_response_sendfile_do_can_close_def Let_def)
  next
    case False
    from write_headers_step [OF assms(1-3) True] obtain ret1 r1 where
      h: "uwsgi_response_write_headers_do c r = Some (ret1, r1)" "sent r B [] ret1 r1" by blast
    show ?thesis
    proof (cases "ret1 = 0")
      case z: True
      then have "wire r1 B" "rp_errors r1 = 0" "rp_headers_sent r1 \<or> rp_headers r1 = None"
        using h(2) True by (auto simp: sent_def)
      from body [OF this] show ?thesis
        using True i False h(1) z
        by (simp add: uwsgi_response_sendfile_do_def uwsgi_response_sendfile_do_can_close_def Let_def)
    next
      case z: False
      then have "ret1 = -1" "rp_errors r1 \<noteq> 0" using h(2) by (auto simp: sent_def)
      then have "uwsgi_response_sendfile_do c r f pos len = Some (-1, close_fd ?can (sf_fd f) (write_error r1))"
        using True i False h(1)
        by (simp add: uwsgi_response_sendfile_do_def uwsgi_response_sendfile_do_can_close_def Let_def)
      moreover have "wire (write_error r1) B" by (simp add: wire_def write_error_def)
      ultimately show ?thesis by simp
    qed
  qed
qed

end

section \<open>A whole response\<close>

text \<open>The calls of an application, and the part of the body each of them stands for.\<close>

datatype rop = Prepare bytes | Header bytes bytes | Headers | Body bytes | Vector "bytes list" | File sfile nat nat

fun run_op :: "wconf \<Rightarrow> resp \<Rightarrow> rop \<Rightarrow> (int \<times> resp) option" where
  "run_op c r (Prepare s) = uwsgi_response_prepare_headers c r s"
| "run_op c r (Header k v) = uwsgi_response_add_header c r k v"
| "run_op c r Headers = uwsgi_response_write_headers_do c r"
| "run_op c r (Body d) = uwsgi_response_write_body_do c r d"
| "run_op c r (Vector vs) = uwsgi_response_writev_body_do c r vs"
| "run_op c r (File f pos len) = uwsgi_response_sendfile_do c r f pos len"

fun run_ops :: "wconf \<Rightarrow> resp \<Rightarrow> rop list \<Rightarrow> (int list \<times> resp) option" where
  "run_ops c r [] = Some ([], r)"
| "run_ops c r (op # ops) = do {
     (ret, r) \<leftarrow> run_op c r op;
     (rets, r) \<leftarrow> run_ops c r ops;
     Some (ret # rets, r) }"

fun op_data :: "rop \<Rightarrow> bytes" where
  "op_data (Body d) = d"
| "op_data (Vector vs) = concat vs"
| "op_data (File f pos len) = take (if len = 0 then length (sf_data f) else len) (drop pos (sf_data f))"
| "op_data _ = []"

fun op_ok :: "bool \<Rightarrow> rop \<Rightarrow> bool" where
  "op_ok wv (Prepare s) = (length s < 65536)"
| "op_ok wv (Header k v) = (length k < 65536 \<and> length v < 65536)"
| "op_ok wv Headers = True"
| "op_ok wv (Body d) = (length d < OBJ_MAX)"
| "op_ok wv (Vector vs) = wv"
| "op_ok wv (File f pos len) = (len < SIZE_MOD \<and> length (sf_data f) < SIZE_MOD)"

definition accepted :: "(int \<times> rop) list \<Rightarrow> bytes" where
  "accepted xs = concat (map (\<lambda>(ret, op). if ret = 0 then op_data op else []) xs)"

context response_socket
begin

lemma header_step_wire:
  assumes "wire r B" "rp_errors r = 0" "may_add r" "header_step r ret r'"
  shows "wire r' B"
proof (cases "ret = 0")
  case True
  then have k: "keep r' = keep r" "headers_wf r'" using assms(4) by (auto simp: header_step_def)
  have "\<not> rp_headers_sent r" "B = []" using assms(1-3) by (auto simp: wire_def may_add_def)
  then show ?thesis using assms(1,2) k by (auto simp: wire_def keep_def)
next
  case False
  then show ?thesis using assms(4) by (auto simp: header_step_def wire_def)
qed

lemma run_op_wire:
  assumes "env_ok (wc_env c)" "\<forall>l\<in>set (wc_additional c). length l < 65536" "wire r B" "op_ok (sk_writev c) op"
  shows "\<exists>ret r'. run_op c r op = Some (ret, r') \<and> wire r' (B @ (if ret = 0 then op_data op else []))"
proof (cases op)
  case (Body d)
  show ?thesis unfolding Body run_op.simps op_data.simps
    by (rule body_step [OF assms(1-3)]) (use assms(4) Body in simp)
next
  case (Vector vs)
  show ?thesis unfolding Vector run_op.simps op_data.simps
    by (rule vector_step [OF assms(1-3)]) (use assms(4) Vector in simp)
next
  case (File f pos len)
  show ?thesis unfolding File run_op.simps op_data.simps
    by (rule file_step [OF assms(1-3)]) (use assms(4) File in simp_all)
next
  case Headers
  show ?thesis
  proof (cases "rp_errors r = 0")
    case True
    from write_headers_step [OF assms(1-3) True] obtain ret r' where
      "uwsgi_response_write_headers_do c r = Some (ret, r')" "sent r B [] ret r'" by blast
    then show ?thesis using sent_wire [of r B "[]" ret r'] Headers by auto
  next
    case False
    then show ?thesis
      using Headers by (auto simp: uwsgi_response_write_headers_do_def uwsgi_response_write_headers_do0_def wire_def)
  qed
next
  case (Prepare s)
  show ?thesis
  proof (cases "may_add r")
    case True
    then have e: "rp_errors r = 0" by (simp add: may_add_def)
    then have "headers_wf r" using assms(3) by (simp add: wire_def)
    from prepare_step [OF assms(1) this, of s] assms(4) Prepare obtain ret r' where
      a: "uwsgi_response_prepare_headers c r s = Some (ret, r')" "header_step r ret r' \<or> ret = -1 \<and> r' = r" by auto
    have "wire r' B" using a(2) assms(3) header_step_wire [OF assms(3) e True] by blast
    then show ?thesis using a(1) Prepare by (intro exI [of _ ret] exI [of _ r']) simp
  next
    case False
    then show ?thesis using assms(3) Prepare by (simp add: uwsgi_response_prepare_headers_def)
  qed
next
  case (Header k v)
  show ?thesis
  proof (cases "may_add r")
    case True
    then have e: "rp_errors r = 0" by (simp add: may_add_def)
    then have "headers_wf r" using assms(3) by (simp add: wire_def)
    from add_header_step [OF assms(1) this, of k v] assms(4) Header obtain ret r' where
      a: "uwsgi_response_add_header c r k v = Some (ret, r')" "header_step r ret r' \<or> ret = -1 \<and> r' = r" by auto
    have "wire r' B" using a(2) assms(3) header_step_wire [OF assms(3) e True] by blast
    then show ?thesis using a(1) Header by (intro exI [of _ ret] exI [of _ r']) simp
  next
    case False
    then show ?thesis using assms(3) Header by (simp add: uwsgi_response_add_header_def)
  qed
qed

lemma run_ops_wire:
  assumes "env_ok (wc_env c)" "\<forall>l\<in>set (wc_additional c). length l < 65536" "wire r B"
    and "\<forall>op\<in>set ops. op_ok (sk_writev c) op"
  shows "\<exists>rets r'. run_ops c r ops = Some (rets, r') \<and> length rets = length ops \<and>
           wire r' (B @ accepted (zip rets ops))"
  using assms(3,4)
proof (induction ops arbitrary: r B)
  case Nil
  then show ?case by (simp add: accepted_def)
next
  case (Cons op ops)
  from run_op_wire [OF assms(1,2) Cons.prems(1), of op] Cons.prems(2) obtain ret r1 where
    o: "run_op c r op = Some (ret, r1)" "wire r1 (B @ (if ret = 0 then op_data op else []))" by auto
  from Cons.IH [OF o(2)] Cons.prems(2) obtain rets r2 where
    "run_ops c r1 ops = Some (rets, r2)" "length rets = length ops"
    "wire r2 ((B @ (if ret = 0 then op_data op else [])) @ accepted (zip rets ops))" by auto
  then show ?case using o(1) by (simp add: accepted_def)
qed

end

section \<open>The sockets that speak plain HTTP or CGI\<close>

text \<open>
  A server without routes, whose sockets use the functions of \<^verbatim>\<open>proto/base.c\<close>: \<open>cgi\<close> selects the
  status line, \<open>protocol\<close> is the one of the request, \<open>wv\<close> tells whether the socket has \<^verbatim>\<open>writev\<close>.
\<close>

definition base_socket ::
  "cenv \<Rightarrow> pcfg \<Rightarrow> bool \<Rightarrow> bytes \<Rightarrow> bool \<Rightarrow> nat \<Rightarrow> bytes list \<Rightarrow> bytes list \<Rightarrow> wconf" where
  "base_socket e pc cgi protocol wv lim removed additional =
     \<lparr>wc_env = e, wc_header_limit = lim, wc_pcfg = pc, wc_pull = [], wc_collect = [], wc_remove = removed,
      wc_additional = additional, wc_error_routes = Pair 0, wc_response_routes = Pair 0,
      wc_funs = (\<lambda>_ r ut. (r, ut, 0)), wc_offload = (\<lambda>_ _. -1),
      sk_prepare = uwsgi_proto_base_prepare_headers e cgi (take 65535 protocol), sk_add = uwsgi_proto_base_add_header e,
      sk_fix = uwsgi_proto_base_fix_headers e, sk_write = uwsgi_proto_base_write, sk_writev = wv,
      sk_sendfile = uwsgi_proto_base_sendfile, sk_can_offload = False\<rparr>"

lemma makes_buffer_seq:
  assumes "env_ok e" "n < OBJ_MAX" "\<forall>s\<in>set ss. length s < OBJ_MAX"
  shows "makes_buffer (do { (ub, ret) \<leftarrow> append_all e (uwsgi_buffer_new e n) ss; Some (if ret \<noteq> 0 then None else Some ub) })"
proof -
  have "env_ok e \<and> ub_wf (uwsgi_buffer_new e n)"
    using assms(1,2) by (auto simp: ub_wf_def uwsgi_buffer_new_def)
  from ub.app_seq_total [OF this assms(3)] obtain b r where
    "append_all e (uwsgi_buffer_new e n) ss = Some (b, r)" "ub_wf b" by blast
  then show ?thesis by (simp add: makes_buffer_def)
qed

interpretation base: response_socket "base_socket e pc cgi protocol wv lim removed additional"
  for e pc cgi protocol wv lim removed additional
proof
  let ?c = "base_socket e pc cgi protocol wv lim removed additional"
  show "sk_write ?c = uwsgi_proto_base_write" "sk_sendfile ?c = uwsgi_proto_base_sendfile" "\<not> sk_can_offload ?c"
    "snd (wc_error_routes ?c r) = r" "fst (wc_error_routes ?c r) \<noteq> 2"
    "snd (wc_response_routes ?c r) = r" "fst (wc_response_routes ?c r) \<noteq> 2" "wc_pull ?c = []" "wc_collect ?c = []" for r
    by (simp_all add: base_socket_def)
  show "makes_buffer (sk_prepare ?c s)" if "env_ok (wc_env ?c)" "length s < 65600" for s
  proof -
    have e: "env_ok e" using that(1) by (simp add: base_socket_def)
    have "makes_buffer (uwsgi_proto_base_prepare_headers e cgi p s)" if "length p < 65536" for p
      using makes_buffer_seq [OF e, of "8 + length s + 2" "[str ''Status: '', s, [13, 10]]"]
        makes_buffer_seq [OF e, of "length p + 1 + length s + 2" "[p, [32], s, [13, 10]]"]
        makes_buffer_seq [OF e, of "9 + length s + 2" "[str ''HTTP/1.0 '', s, [13, 10]]"] that \<open>length s < 65600\<close>
      by (auto simp: uwsgi_proto_base_prepare_headers_def uwsgi_proto_base_cgi_prepare_headers_def simp del: app_seq.simps)
    from this [of "take 65535 protocol"] show ?thesis by (simp add: base_socket_def)
  qed
  show "makes_buffer (sk_add ?c k v)" if "env_ok (wc_env ?c)" "length k < 65536" "length v < 65536" for k v
  proof -
    have e: "env_ok e" using that(1) by (simp add: base_socket_def)
    have "makes_buffer (uwsgi_proto_base_add_header e k v)"
      using makes_buffer_seq [OF e, of "length k + 2 + length v + 2" "[k, str '': '', v, [13, 10]]"]
        makes_buffer_seq [OF e, of "length v + 2" "[v, [13, 10]]"] that(2,3)
      by (auto simp: uwsgi_proto_base_add_header_def simp del: app_seq.simps)
    then show ?thesis by (simp add: base_socket_def)
  qed
  show "\<exists>h' ret. sk_fix ?c h = Some (h', ret) \<and> ub_wf h'" if "env_ok (wc_env ?c)" "ub_wf h" for h
  proof -
    have e: "env_ok e" using that(1) by (simp add: base_socket_def)
    from append_wf_cases [OF e that(2), of "[13, 10]"] that(2) show ?thesis
      by (auto simp: base_socket_def uwsgi_proto_base_fix_headers_def)
  qed
qed

text \<open>
  C19: on a socket with the functions of \<^verbatim>\<open>proto/base.c\<close>, without transformations, routes,
  collected headers and offloading, whatever calls an application makes to answer a request, calls
  with vectors only where the socket has \<^verbatim>\<open>writev\<close>, and however the peer takes the bytes, none
  of them faults; and as long as no write has failed, what went over the wire is the headers, once
  and whole, followed by the data of the calls that returned 0, in their order. The sizes the
  server accounts for are the lengths of the two parts. Without \<^verbatim>\<open>writev\<close> the fallback for
  vectors loses bytes: that is \<open>writev_fallback_loses_second\<close>.
\<close>

theorem response_on_the_wire:
  assumes "env_ok e" "\<forall>l\<in>set additional. length l < 65536" "\<forall>l\<in>set (rp_additional r). length l < 65536"
    and "rp_errors r = 0" "pq_write_pos (rp_q r) = 0" "\<not> rp_ignore_body r" "rp_transformations r = []"
    and "rp_headers r = None" "\<not> rp_headers_sent r" "rp_headers_size r = 0" "rp_response_size r = 0" "rp_out r = []"
    and "\<forall>op\<in>set ops. op_ok wv op"
  shows "\<exists>rets r'. run_ops (base_socket e pc cgi protocol wv lim removed additional) r ops = Some (rets, r') \<and>
           length rets = length ops \<and>
           (rp_errors r' = 0 \<longrightarrow>
              rp_response_size r' = length (accepted (zip rets ops)) \<and>
              (if rp_headers_sent r'
               then \<exists>h. rp_headers r' = Some h \<and> rp_out r' = ub_data h @ accepted (zip rets ops) \<and>
                        rp_headers_size r' = length (ub_data h)
               else rp_out r' = accepted (zip rets ops)))"
proof -
  let ?c = "base_socket e pc cgi protocol wv lim removed additional"
  have c: "wc_env ?c = e" "wc_additional ?c = additional" "sk_writev ?c = wv" by (simp_all add: base_socket_def)
  have "base.wire r []" using assms(3-12) by (simp add: base.wire_def headers_wf_def)
  from base.run_ops_wire [of e pc cgi protocol wv lim removed additional, unfolded c, OF assms(1,2) this assms(13)]
  obtain rets r' where r: "run_ops ?c r ops = Some (rets, r')" "length rets = length ops"
    "base.wire r' (accepted (zip rets ops))" by auto
  then show ?thesis
    by (auto simp: base.wire_def headers_wf_def length_ub_data)
qed

definition resp_new :: "wr list \<Rightarrow> int list \<Rightarrow> resp" where
  "resp_new evs ws =
     \<lparr>rp_q = preq_new 0, rp_req = request_with [] 0, rp_headers = None, rp_headers_sent = False, rp_headers_size = 0,
      rp_response_size = 0, rp_header_cnt = 0, rp_status = 0, rp_ignore_body = False, rp_error_routing = False,
      rp_response_routing = False, rp_transformations = [], rp_chunk = [], rp_remove = [], rp_additional = [],
      rp_via = 0, rp_closed = [], rp_out = [], rp_evs = evs, rp_waits = ws\<rparr>"

definition env_page :: cenv where
  "env_page = \<lparr>page_size = 64, alloc_ok = (\<lambda>n. n < 4096), junk = 0\<rparr>"

definition plain_sample :: wconf where
  "plain_sample = base_socket env_page cfg_small False [] True 0 [] []"

definition calls_sample :: "rop list" where
  "calls_sample = [Prepare (str ''200 OK''), Body [1, 2, 3], Body [4]]"

definition peer_sample :: resp where
  "peer_sample = resp_new [Accepts 5, Write_again, Accepts 16, Accepts 10, Accepts 1] [1]"

lemmas run_simps =
  plain_sample_def base_socket_def calls_sample_def peer_sample_def resp_new_def preq_new_def env_page_def
  uwsgi_response_prepare_headers_def may_add_def new_headers_def error_routes_def response_routes_def
  append_headers_def status_line_def uwsgi_response_write_body_do_def body_write_def
  uwsgi_response_write_headers_do_def uwsgi_response_write_headers_do0_def headers_data_def
  uwsgi_response_writev_headers_and_body_do_def write_out_def sending_def reset_pos_def
  uwsgi_proto_base_write_def uwsgi_proto_base_writev_def uwsgi_proto_base_prepare_headers_def
  uwsgi_proto_base_fix_headers_def uwsgi_buffer_new_def uwsgi_buffer_append_def realloc_area_def
  mem_read_def mem_write_def sz_sub_def sz_add_def Let_def

lemma calls_sample_run:
  "map_option (\<lambda>(rets, r). (rets, rp_errors r, rp_headers_sent r)) (run_ops plain_sample peer_sample calls_sample)
   = Some ([0, 0, 0], 0, True)"
  by (simp add: run_simps)

theorem response_on_the_wire_witness:
  "\<exists>r' h. run_ops plain_sample peer_sample calls_sample = Some ([0, 0, 0], r') \<and> rp_headers r' = Some h \<and>
     rp_out r' = ub_data h @ [1, 2, 3, 4] \<and> rp_response_size r' = 4 \<and> rp_headers_size r' = length (ub_data h)"
proof -
  obtain r' where r: "run_ops plain_sample peer_sample calls_sample = Some ([0, 0, 0], r')"
    "rp_errors r' = 0" "rp_headers_sent r'"
    using calls_sample_run by auto
  have e: "env_ok env_page" by (simp add: env_ok_def env_page_def)
  have acc: "accepted (zip [0, 0, 0] calls_sample) = [1, 2, 3, 4]" by (simp add: accepted_def calls_sample_def)
  have "\<exists>rets r'. run_ops (base_socket env_page cfg_small False [] True 0 [] []) peer_sample calls_sample = Some (rets, r') \<and>
           length rets = length calls_sample \<and>
           (rp_errors r' = 0 \<longrightarrow>
              rp_response_size r' = length (accepted (zip rets calls_sample)) \<and>
              (if rp_headers_sent r'
               then \<exists>h. rp_headers r' = Some h \<and> rp_out r' = ub_data h @ accepted (zip rets calls_sample) \<and>
                        rp_headers_size r' = length (ub_data h)
               else rp_out r' = accepted (zip rets calls_sample)))"
    by (rule response_on_the_wire)
      (simp_all add: e peer_sample_def resp_new_def preq_new_def calls_sample_def)
  then show ?thesis using r acc by (auto simp: plain_sample_def)
qed

text \<open>
  On a socket without \<^verbatim>\<open>writev\<close>, such as a raw one, the stretches of a vector are written one by
  one, but the position is not reset in between: a second stretch of the length of the first is
  taken for written, and the call fails.
\<close>

lemma writev_fallback_loses_second:
  assumes "sk_write c = uwsgi_proto_base_write" "\<not> sk_writev c" "pq_write_pos (rp_q r) = 0"
    and "length a = length b" "a \<noteq> []" "length a < SIZE_MOD" "rp_evs r = [Accepts (length a), Accepts k]"
  shows "\<exists>r'. writev_out c r [a, b] = Some (-1, r') \<and> rp_out r' = rp_out r @ a"
proof -
  have "sz_sub (length a) 0 = length a" "sz_sub (length a) (length a) = 0"
    using assms(6) by (simp_all add: sz_simps)
  moreover have "b \<noteq> []" using assms(4,5) by auto
  ultimately show ?thesis
    using assms by (simp add: writev_out_def sending_def uwsgi_proto_base_write_def mem_read_def Let_def write_error_def)
qed

text \<open>
  The transformations of a vector end with the first stretch that comes out of the chain: the
  stretches behind it are sent as they are.
\<close>

lemma vector_trans_stops:
  assumes "rp_chunk r = []" "rp_transformations r \<noteq> []"
    and "uwsgi_apply_transformations c r v = Some (0, r')"
  shows "vector_trans c r [] (v # vs) False = Some (Inr (rp_chunk r' # vs), r'\<lparr>rp_chunk := []\<rparr>)"
  using assms by simp

end
