(* ===== verification/Websockets.thy ===== *)
theory Websockets
  imports Chunked Writer Sharedarea
begin

text \<open>
  Websockets, \<^verbatim>\<open>core/websockets.c\<close>: the builder of messages, the handshake, the reader with its five
  phases, the answers to pings and the supervision by pings of the server.

  \<open>wsreq\<close> holds the websocket fields of \<^verbatim>\<open>struct wsgi_request\<close>, the response they write to
  (theory Writer) and the connection they read from (theory Chunked).  The clock is part of the
  configuration: what the \<open>n\<close>-th call of \<^verbatim>\<open>uwsgi_now\<close> returns.
\<close>

section \<open>State\<close>

record wsreq =
  ws_resp :: resp
  ws_chan :: chan
  ws_ticks :: nat
  ws_buf :: "ubuf option"
  ws_send_buf :: "ubuf option"
  ws_need :: nat
  ws_phase :: int
  ws_opcode :: nat
  ws_has_mask :: nat
  ws_size :: nat
  ws_pktsize :: nat
  ws_last_ping :: int
  ws_last_pong :: int
  ws_closed :: bool
  ws_key :: bytes
  ws_origin :: bytes
  ws_protocol :: bytes

record wsconf =
  wsc_writer :: wconf
  wsc_now :: "nat \<Rightarrow> int"
  wsc_ping :: ubuf
  wsc_pong :: ubuf
  wsc_ping_freq :: int
  wsc_tolerance :: int
  wsc_max_size :: nat

abbreviation wsc_env :: "wsconf \<Rightarrow> cenv" where
  "wsc_env c \<equiv> wc_env (wsc_writer c)"

definition uwsgi_websockets_init :: "cenv \<Rightarrow> wconf \<Rightarrow> (nat \<Rightarrow> int) \<Rightarrow> wsconf option" where
  "uwsgi_websockets_init e w now = do {
     (pong, _) \<leftarrow> uwsgi_buffer_append e (uwsgi_buffer_new e 2) [0x8A, 0];
     (ping, _) \<leftarrow> uwsgi_buffer_append e (uwsgi_buffer_new e 2) [0x89, 0];
     Some \<lparr>wsc_writer = w, wsc_now = now, wsc_ping = ping, wsc_pong = pong, wsc_ping_freq = 30,
           wsc_tolerance = 3, wsc_max_size = 1024\<rparr> }"

definition uwsgi_now :: "wsconf \<Rightarrow> wsreq \<Rightarrow> int \<times> wsreq" where
  "uwsgi_now c r = (wsc_now c (ws_ticks r), r\<lparr>ws_ticks := ws_ticks r + 1\<rparr>)"

section \<open>Messages\<close>

text \<open>
  The pieces \<^verbatim>\<open>uwsgi_buffer_u8\<close>, \<^verbatim>\<open>u16be\<close> and \<^verbatim>\<open>u64be\<close> append.  \<open>None\<close> inside is the null pointer; the
  buffer of the request changes either way.
\<close>

definition length_field :: "nat \<Rightarrow> bytes list" where
  "length_field len =
     (if len < 126 then [[word_of_nat len]]
      else if len \<le> 65535 then [[126], be_bytes 2 (word_of_nat len :: u16)]
      else [[127], be_bytes 8 (word_of_nat len :: u64)])"

definition uwsgi_websocket_message ::
  "wsconf \<Rightarrow> wsreq \<Rightarrow> bytes \<Rightarrow> byte \<Rightarrow> (ubuf option \<times> wsreq) option" where
  "uwsgi_websocket_message c r msg opcode = do {
     let ub = (case ws_send_buf r of
                 None \<Rightarrow> uwsgi_buffer_new (wsc_env c) (10 + length msg)
               | Some ub \<Rightarrow> ub\<lparr>bpos := 0\<rparr>);
     (ub, ret) \<leftarrow> append_all (wsc_env c) ub ([[opcode]] @ length_field (length msg) @ [msg]);
     Some (if ret \<noteq> 0 then None else Some ub, r\<lparr>ws_send_buf := Some ub\<rparr>) }"

text \<open>\<^verbatim>\<open>uwsgi_response_write_body_do\<close> on a buffer of the websocket.\<close>

definition ws_write :: "wsconf \<Rightarrow> wsreq \<Rightarrow> ubuf \<Rightarrow> (int \<times> wsreq) option" where
  "ws_write c r ub = do {
     d \<leftarrow> mem_read (buf ub) 0 (bpos ub);
     (ret, p) \<leftarrow> uwsgi_response_write_body_do (wsc_writer c) (ws_resp r) d;
     Some (ret, r\<lparr>ws_resp := p\<rparr>) }"

definition uwsgi_websocket_send_do :: "wsconf \<Rightarrow> wsreq \<Rightarrow> bytes \<Rightarrow> byte \<Rightarrow> (int \<times> wsreq) option" where
  "uwsgi_websocket_send_do c r msg opcode = do {
     (ub, r) \<leftarrow> uwsgi_websocket_message c r msg opcode;
     (case ub of None \<Rightarrow> Some (-1, r) | Some ub \<Rightarrow> ws_write c r ub) }"

text \<open>
  A message from a shared area: its position enters the default length only, the bytes are
  those at the start of the area.
\<close>

definition uwsgi_websocket_send_from_sharedarea_do ::
  "wsconf \<Rightarrow> sareas \<Rightarrow> wsreq \<Rightarrow> int \<Rightarrow> nat \<Rightarrow> nat \<Rightarrow> byte \<Rightarrow> (int \<times> sareas \<times> wsreq) option" where
  "uwsgi_websocket_send_from_sharedarea_do c t r i pos len opcode = do {
     found \<leftarrow> uwsgi_sharedarea_get_by_id t i pos;
     (case found of
        None \<Rightarrow> Some (-1, t, r)
      | Some sa \<Rightarrow> do {
          let len = (if len = 0 then
                       if sa_honour_used sa then sz_sub (sa_used sa) pos else sz_sub (sz_add (sa_max_pos sa) 1) pos
                     else len);
          let t = t[nat i := sa\<lparr>sa_hits := sz_add (sa_hits sa) 1\<rparr>];
          d \<leftarrow> mem_read (sa_area sa) 0 len;
          (ub, r) \<leftarrow> uwsgi_websocket_message c r d opcode;
          (case ub of
             None \<Rightarrow> Some (-1, t, r)
           | Some ub \<Rightarrow> do { (ret, r) \<leftarrow> ws_write c r ub; Some (ret, t, r) }) }) }"

text \<open>A failed send closes the websocket.\<close>

definition close_on_error :: "int \<Rightarrow> wsreq \<Rightarrow> wsreq" where
  "close_on_error ret r = (if ret < 0 then r\<lparr>ws_closed := True\<rparr> else r)"

definition send_op :: "wsconf \<Rightarrow> wsreq \<Rightarrow> bytes \<Rightarrow> byte \<Rightarrow> (int \<times> wsreq) option" where
  "send_op c r msg opcode =
     (if ws_closed r then Some (-1, r)
      else do { (ret, r) \<leftarrow> uwsgi_websocket_send_do c r msg opcode; Some (ret, close_on_error ret r) })"

definition uwsgi_websocket_send :: "wsconf \<Rightarrow> wsreq \<Rightarrow> bytes \<Rightarrow> (int \<times> wsreq) option" where
  "uwsgi_websocket_send c r msg = send_op c r msg 0x81"

definition uwsgi_websocket_send_binary :: "wsconf \<Rightarrow> wsreq \<Rightarrow> bytes \<Rightarrow> (int \<times> wsreq) option" where
  "uwsgi_websocket_send_binary c r msg = send_op c r msg 0x82"

definition send_area_op ::
  "wsconf \<Rightarrow> sareas \<Rightarrow> wsreq \<Rightarrow> int \<Rightarrow> nat \<Rightarrow> nat \<Rightarrow> byte \<Rightarrow> (int \<times> sareas \<times> wsreq) option" where
  "send_area_op c t r i pos len opcode =
     (if ws_closed r then Some (-1, t, r)
      else do {
        (ret, t, r) \<leftarrow> uwsgi_websocket_send_from_sharedarea_do c t r i pos len opcode;
        Some (ret, t, close_on_error ret r) })"

definition uwsgi_websocket_send_from_sharedarea ::
  "wsconf \<Rightarrow> sareas \<Rightarrow> wsreq \<Rightarrow> int \<Rightarrow> nat \<Rightarrow> nat \<Rightarrow> (int \<times> sareas \<times> wsreq) option" where
  "uwsgi_websocket_send_from_sharedarea c t r i pos len = send_area_op c t r i pos len 0x81"

definition uwsgi_websocket_send_binary_from_sharedarea ::
  "wsconf \<Rightarrow> sareas \<Rightarrow> wsreq \<Rightarrow> int \<Rightarrow> nat \<Rightarrow> nat \<Rightarrow> (int \<times> sareas \<times> wsreq) option" where
  "uwsgi_websocket_send_binary_from_sharedarea c t r i pos len = send_area_op c t r i pos len 0x82"

definition uwsgi_websockets_simple_send :: "wsconf \<Rightarrow> wsreq \<Rightarrow> ubuf \<Rightarrow> wr \<Rightarrow> (int \<times> wsreq) option" where
  "uwsgi_websockets_simple_send c r ub ev = do {
     d \<leftarrow> mem_read (buf ub) 0 (bpos ub);
     (len, o1, q) \<leftarrow> sk_write (wsc_writer c) (rp_q (ws_resp r)) d ev;
     let p = (ws_resp r)\<lparr>rp_q := q, rp_out := rp_out (ws_resp r) @ o1\<rparr>;
     Some (if rp_errors p > 0 then -1 else len, r\<lparr>ws_resp := p\<rparr>) }"

section \<open>Pings\<close>

definition uwsgi_websockets_ping :: "wsconf \<Rightarrow> wsreq \<Rightarrow> (int \<times> wsreq) option" where
  "uwsgi_websockets_ping c r = do {
     (ret, r) \<leftarrow> ws_write c r (wsc_ping c);
     (if ret \<noteq> 0 then Some (-1, r)
      else case uwsgi_now c r of (t, r) \<Rightarrow> Some (0, r\<lparr>ws_last_ping := t\<rparr>)) }"

definition uwsgi_websockets_pong :: "wsconf \<Rightarrow> wsreq \<Rightarrow> (int \<times> wsreq) option" where
  "uwsgi_websockets_pong c r = ws_write c r (wsc_pong c)"

definition uwsgi_websockets_check_pingpong :: "wsconf \<Rightarrow> wsreq \<Rightarrow> (int \<times> wsreq) option" where
  "uwsgi_websockets_check_pingpong c r =
     (case uwsgi_now c r of (t, r) \<Rightarrow>
        if ws_last_ping r = 0 then uwsgi_websockets_ping c r
        else if ws_last_pong r < ws_last_ping r then
          Some (if t - ws_last_ping r > wsc_tolerance c then -1 else 0, r)
        else if t - ws_last_ping r \<ge> wsc_ping_freq c then uwsgi_websockets_ping c r
        else Some (0, r))"

section \<open>Reading\<close>

definition uwsgi_websocket_parse_header :: "wsreq \<Rightarrow> wsreq option" where
  "uwsgi_websocket_parse_header r = do {
     ub \<leftarrow> ws_buf r;
     byte1 \<leftarrow> mem_get (buf ub) 0;
     byte2 \<leftarrow> mem_get (buf ub) 1;
     Some (r\<lparr>ws_opcode := unat (byte1 AND 0xf), ws_has_mask := unat (drop_bit 7 byte2),
             ws_size := unat (byte2 AND 0x7f)\<rparr>) }"

definition unmask :: "bytes \<Rightarrow> bytes \<Rightarrow> bytes" where
  "unmask key d = map (\<lambda>i. d ! i XOR key ! (i mod 4)) [0..<length d]"

text \<open>
  \<^verbatim>\<open>uwsgi_websockets_parse\<close>: the payload is unmasked in place and copied; the frame is cut off
  the buffer.
\<close>

definition uwsgi_websockets_parse :: "wsconf \<Rightarrow> wsreq \<Rightarrow> (ubuf option \<times> wsreq) option" where
  "uwsgi_websockets_parse c r = do {
     wb \<leftarrow> ws_buf r;
     let off = sz_sub (ws_pktsize r) (ws_size r);
     d \<leftarrow> mem_read (buf wb) off (ws_size r);
     m \<leftarrow> (if ws_has_mask r \<noteq> 0 then do {
             key \<leftarrow> (if off < 4 then None else mem_read (buf wb) (off - 4) 4);
             mem_write (buf wb) off (unmask key d) }
           else Some (buf wb));
     let wb = wb\<lparr>buf := m\<rparr>;
     d \<leftarrow> mem_read m off (ws_size r);
     (ub, ret) \<leftarrow> uwsgi_buffer_append (wsc_env c) (uwsgi_buffer_new (wsc_env c) (ws_size r)) d;
     (if ret \<noteq> 0 then Some (None, r\<lparr>ws_buf := Some wb\<rparr>)
      else do {
        (wb, ret) \<leftarrow> uwsgi_buffer_decapitate wb (ws_pktsize r);
        let r = r\<lparr>ws_buf := Some wb\<rparr>;
        Some (if ret \<noteq> 0 then (None, r) else (Some ub, r\<lparr>ws_phase := 0, ws_need := 2\<rparr>)) }) }"

text \<open>
  \<^verbatim>\<open>uwsgi_websockets_recv_pkt\<close>: the bytes read, nothing and -1, or nothing and 0 when the call must
  not block.  While it waits it keeps up the pings.
\<close>

fun recv_loop ::
  "wsconf \<Rightarrow> nat \<Rightarrow> bool \<Rightarrow> wsreq \<Rightarrow> io list \<Rightarrow> int list \<Rightarrow> (int \<times> bytes \<times> wsreq) option" where
  "recv_loop c room nb r [] ws = Some (-1, [], r\<lparr>ws_chan := \<lparr>ch_evs = [], ch_waits = ws\<rparr>\<rparr>)"
| "recv_loop c room nb r (Again # evs) ws =
     (if nb then do {
        (ret, r) \<leftarrow> uwsgi_websockets_check_pingpong c r;
        Some (if ret \<noteq> 0 then -1 else 0, [], r\<lparr>ws_chan := \<lparr>ch_evs = evs, ch_waits = ws\<rparr>\<rparr>) }
      else (case ws of
          [] \<Rightarrow> Some (-1, [], r\<lparr>ws_chan := \<lparr>ch_evs = evs, ch_waits = []\<rparr>\<rparr>)
        | w # ws \<Rightarrow>
            if w > 0 then
              (case net_read room evs of
                 (Bytes bs, evs) \<Rightarrow> Some (if bs = [] then -1 else 1, bs, r\<lparr>ws_chan := \<lparr>ch_evs = evs, ch_waits = ws\<rparr>\<rparr>)
               | (_, evs) \<Rightarrow> Some (-1, [], r\<lparr>ws_chan := \<lparr>ch_evs = evs, ch_waits = ws\<rparr>\<rparr>))
            else if w < 0 then Some (-1, [], r\<lparr>ws_chan := \<lparr>ch_evs = evs, ch_waits = ws\<rparr>\<rparr>)
            else do {
              (ret, r) \<leftarrow> uwsgi_websockets_check_pingpong c r;
              (if ret \<noteq> 0 then Some (-1, [], r\<lparr>ws_chan := \<lparr>ch_evs = evs, ch_waits = ws\<rparr>\<rparr>)
               else recv_loop c room nb r evs ws) }))"
| "recv_loop c room nb r evs ws =
     (case net_read room evs of
        (Bytes bs, evs) \<Rightarrow> Some (if bs = [] then -1 else 1, bs, r\<lparr>ws_chan := \<lparr>ch_evs = evs, ch_waits = ws\<rparr>\<rparr>)
      | (_, evs) \<Rightarrow> Some (-1, [], r\<lparr>ws_chan := \<lparr>ch_evs = evs, ch_waits = ws\<rparr>\<rparr>))"

definition uwsgi_websockets_recv_pkt :: "wsconf \<Rightarrow> nat \<Rightarrow> bool \<Rightarrow> wsreq \<Rightarrow> (int \<times> bytes \<times> wsreq) option" where
  "uwsgi_websockets_recv_pkt c room nb r = recv_loop c room nb r (ch_evs (ws_chan r)) (ch_waits (ws_chan r))"

section \<open>The phases\<close>

text \<open>
  What a pass of the loop of \<^verbatim>\<open>uwsgi_websocket_recv_do\<close> does once the bytes it needs are there:
  a return (\<open>Inl\<close>, with nothing for the null pointer) or another pass (\<open>Inr\<close>).
\<close>

definition ws_message :: "wsconf \<Rightarrow> wsreq \<Rightarrow> ((ubuf option + unit) \<times> wsreq) option" where
  "ws_message c r =
     (if ws_opcode r = 0 \<or> ws_opcode r = 1 \<or> ws_opcode r = 2 then
        map_option (\<lambda>(ub, r). (Inl ub, r)) (uwsgi_websockets_parse c r)
      else if ws_opcode r = 8 then Some (Inl None, r)
      else do {
        (ret, r) \<leftarrow> (if ws_opcode r = 9 then uwsgi_websockets_pong c r
                    else if ws_opcode r = 10 then
                      (case uwsgi_now c r of (t, r) \<Rightarrow> Some (0, r\<lparr>ws_last_pong := t\<rparr>))
                    else Some (0, r));
        (if ret \<noteq> 0 then Some (Inl None, r)
         else do {
           wb \<leftarrow> ws_buf r;
           (wb, ret) \<leftarrow> uwsgi_buffer_decapitate wb (ws_pktsize r);
           Some (if ret \<noteq> 0 then Inl None else Inr (),
                 r\<lparr>ws_buf := Some wb, ws_phase := 0, ws_need := 2\<rparr>) }) })"

definition ws_phase_step :: "wsconf \<Rightarrow> wsreq \<Rightarrow> ((ubuf option + unit) \<times> wsreq) option" where
  "ws_phase_step c r =
     (if ws_phase r = 0 then do {
        r \<leftarrow> uwsgi_websocket_parse_header r;
        let p = 2 + ws_has_mask r * 4;
        Some (Inr (),
          if ws_size r = 126 then r\<lparr>ws_need := sz_add (ws_need r) 2, ws_phase := 1, ws_pktsize := p + 2\<rparr>
          else if ws_size r = 127 then r\<lparr>ws_need := sz_add (ws_need r) 8, ws_phase := 1, ws_pktsize := p + 8\<rparr>
          else r\<lparr>ws_phase := 2, ws_pktsize := p\<rparr>) }
      else if ws_phase r = 1 then do {
        wb \<leftarrow> ws_buf r;
        size \<leftarrow> (if ws_size r = 126 then map_option Some (uwsgi_be16 (buf wb) 2)
                 else if ws_size r = 127 then map_option Some (uwsgi_be64 (buf wb) 2)
                 else Some None);
        Some (case size of
            None \<Rightarrow> (Inl None, r)
          | Some n \<Rightarrow>
              if n > (wsc_max_size c * 1024) mod SIZE_MOD then (Inl None, r\<lparr>ws_size := n\<rparr>)
              else (Inr (), r\<lparr>ws_size := n, ws_phase := 2\<rparr>)) }
      else if ws_phase r = 2 then
        Some (Inr (),
          if ws_has_mask r \<noteq> 0 then r\<lparr>ws_need := sz_add (ws_need r) 4, ws_phase := 3\<rparr>
          else r\<lparr>ws_need := sz_add (ws_need r) (ws_size r), ws_pktsize := sz_add (ws_pktsize r) (ws_size r), ws_phase := 4\<rparr>)
      else if ws_phase r = 3 then
        Some (Inr (), r\<lparr>ws_need := sz_add (ws_need r) (ws_size r), ws_pktsize := sz_add (ws_pktsize r) (ws_size r),
                       ws_phase := 4\<rparr>)
      else if ws_phase r = 4 then ws_message c r
      else Some (Inl None, r))"

definition ws_fill :: "wsconf \<Rightarrow> bool \<Rightarrow> wsreq \<Rightarrow> ((ubuf option + unit) \<times> wsreq) option" where
  "ws_fill c nb r = do {
     wb \<leftarrow> ws_buf r;
     (case uwsgi_buffer_ensure (wsc_env c) wb (page_size (wsc_env c)) of (wb, ret) \<Rightarrow>
        let r = r\<lparr>ws_buf := Some wb\<rparr> in
        if ret \<noteq> 0 then Some (Inl None, r)
        else do {
          (len, bs, r) \<leftarrow> uwsgi_websockets_recv_pkt c (sz_sub (blen wb) (bpos wb)) nb r;
          (if len \<le> 0 then Some (Inl (if nb \<and> len = 0 then Some (uwsgi_buffer_new (wsc_env c) 0) else None), r)
           else do {
             m \<leftarrow> mem_write (buf wb) (bpos wb) bs;
             Some (Inr (), r\<lparr>ws_buf := Some (wb\<lparr>buf := m, bpos := bpos wb + length bs\<rparr>)\<rparr>) }) }) }"

definition ws_pass :: "wsconf \<Rightarrow> bool \<Rightarrow> wsreq \<Rightarrow> ((ubuf option + unit) \<times> wsreq) option" where
  "ws_pass c nb r = do {
     wb \<leftarrow> ws_buf r;
     (if bpos wb \<ge> ws_need r then ws_phase_step c r else ws_fill c nb r) }"

text \<open>A loop that may go on for ever: \<open>None\<close> when it does not return.\<close>

partial_function (option) ws_loop :: "wsconf \<Rightarrow> bool \<Rightarrow> wsreq \<Rightarrow> (ubuf option \<times> wsreq) option" where
  "ws_loop c nb r =
     (case ws_pass c nb r of
        None \<Rightarrow> None
      | Some (res, r1) \<Rightarrow> (case res of Inl v \<Rightarrow> Some (v, r1) | Inr u \<Rightarrow> ws_loop c nb r1))"

definition uwsgi_websocket_recv_do :: "wsconf \<Rightarrow> bool \<Rightarrow> wsreq \<Rightarrow> (ubuf option \<times> wsreq) option" where
  "uwsgi_websocket_recv_do c nb r =
     ws_loop c nb (case ws_buf r of
        None \<Rightarrow> r\<lparr>ws_buf := Some (uwsgi_buffer_new (wsc_env c) (page_size (wsc_env c))), ws_need := 2\<rparr>
      | Some _ \<Rightarrow> r)"

definition recv_op :: "wsconf \<Rightarrow> bool \<Rightarrow> wsreq \<Rightarrow> (ubuf option \<times> wsreq) option" where
  "recv_op c nb r =
     (if ws_closed r then Some (None, r)
      else do {
        (ub, r) \<leftarrow> uwsgi_websocket_recv_do c nb r;
        Some (ub, if ub = None then r\<lparr>ws_closed := True\<rparr> else r) })"

definition uwsgi_websocket_recv :: "wsconf \<Rightarrow> wsreq \<Rightarrow> (ubuf option \<times> wsreq) option" where
  "uwsgi_websocket_recv c r = recv_op c False r"

definition uwsgi_websocket_recv_nb :: "wsconf \<Rightarrow> wsreq \<Rightarrow> (ubuf option \<times> wsreq) option" where
  "uwsgi_websocket_recv_nb c r = recv_op c True r"

section \<open>The handshake\<close>

text \<open>
  The headers of the answer; \<open>sha1\<close> is the hash of the key and the fixed text, or nothing when
  the library fails.
\<close>

fun add_headers :: "wconf \<Rightarrow> resp \<Rightarrow> (bytes \<times> bytes) list \<Rightarrow> (int \<times> resp) option" where
  "add_headers c r [] = Some (0, r)"
| "add_headers c r ((k, v) # hs) =
     (case uwsgi_response_add_header c r k v of
        None \<Rightarrow> None
      | Some (ret, r) \<Rightarrow> if ret \<noteq> 0 then Some (-1, r) else add_headers c r hs)"

definition uwsgi_websocket_handshake ::
  "wsconf \<Rightarrow> (bytes \<Rightarrow> bytes \<Rightarrow> bytes option) \<Rightarrow> wsreq \<Rightarrow> bytes \<Rightarrow> bytes \<Rightarrow> bytes \<Rightarrow> (int \<times> wsreq) option" where
  "uwsgi_websocket_handshake c sha1 r key origin protocol =
     (let w = wsc_writer c;
          key = (if key = [] then ws_key r else key);
          done = (\<lambda>ret p r. Some (ret, r\<lparr>ws_resp := p\<rparr>)) in
      if key = [] then Some (-1, r)
      else do {
        (ret, p) \<leftarrow> uwsgi_response_prepare_headers w (ws_resp r) (str ''101 Web Socket Protocol Handshake'');
        (if ret \<noteq> 0 then done (-1) p r
         else do {
           (ret, p) \<leftarrow> add_headers w p
              ([(str ''Upgrade'', str ''WebSocket''), (str ''Connection'', str ''Upgrade'')] @
               [(str ''Sec-WebSocket-Origin'',
                  if ws_origin r \<noteq> [] \<or> origin \<noteq> [] then (if origin = [] then ws_origin r else origin)
                  else str ''*'')] @
               (if ws_protocol r \<noteq> [] \<or> protocol \<noteq> []
                then [(str ''Sec-WebSocket-Protocol'', if protocol = [] then ws_protocol r else protocol)] else []));
           (if ret \<noteq> 0 then done (-1) p r
            else (case sha1 key (str ''258EAFA5-E914-47DA-95CA-C5AB0DC85B11'') of
                None \<Rightarrow> done (-1) p r
              | Some digest \<Rightarrow> do {
                  (ret, p) \<leftarrow> uwsgi_response_add_header w p (str ''Sec-WebSocket-Accept'') (uwsgi_base64_encode digest);
                  (if ret \<noteq> 0 then done (-1) p r
                   else (case uwsgi_now c r of (t, r) \<Rightarrow> do {
                       (ret, p) \<leftarrow> uwsgi_response_write_headers_do w p;
                       done ret p (r\<lparr>ws_last_pong := t\<rparr>) })) })) }) })"

section \<open>Frames\<close>

text \<open>
  A frame of the peer: its first byte, the masking key if it has one, and the payload.  The
  second byte holds the mask bit and the length code.
\<close>

datatype frame = Frame byte "bytes option" bytes

definition len_code :: "nat \<Rightarrow> nat" where
  "len_code n = (if n < 126 then n else if n \<le> 65535 then 126 else 127)"

definition len_ext :: "nat \<Rightarrow> bytes" where
  "len_ext n = (if n < 126 then [] else if n \<le> 65535 then be_bytes 2 (word_of_nat n :: u16)
                else be_bytes 8 (word_of_nat n :: u64))"

fun f_opcode :: "frame \<Rightarrow> nat" where
  "f_opcode (Frame b k d) = unat (b AND 0xf)"

fun f_mask :: "frame \<Rightarrow> nat" where
  "f_mask (Frame b k d) = (if k = None then 0 else 1)"

fun f_data :: "frame \<Rightarrow> bytes" where
  "f_data (Frame b k d) = d"

fun f_key :: "frame \<Rightarrow> bytes" where
  "f_key (Frame b k d) = (case k of None \<Rightarrow> [] | Some key \<Rightarrow> key)"

fun f_wire :: "frame \<Rightarrow> bytes" where
  "f_wire (Frame b k d) = (case k of None \<Rightarrow> d | Some key \<Rightarrow> unmask key d)"

definition f_head :: "frame \<Rightarrow> bytes" where
  "f_head f = [case f of Frame b k d \<Rightarrow> b, word_of_nat (f_mask f * 128 + len_code (length (f_data f)))]"

definition enc_frame :: "frame \<Rightarrow> bytes" where
  "enc_frame f = f_head f @ len_ext (length (f_data f)) @ f_key f @ f_wire f"

definition frame_ok :: "wsconf \<Rightarrow> frame \<Rightarrow> bool" where
  "frame_ok c f \<longleftrightarrow>
     (case f of Frame b k d \<Rightarrow> \<forall>key. k = Some key \<longrightarrow> length key = 4) \<and>
     length (f_data f) < OBJ_MAX \<and>
     (length (f_data f) \<ge> 126 \<longrightarrow> length (f_data f) \<le> (wsc_max_size c * 1024) mod SIZE_MOD)"

lemma length_unmask [simp]: "length (unmask key d) = length d"
  by (simp add: unmask_def)

lemma unmask_twice [simp]: "unmask key (unmask key d) = d"
  by (rule nth_equalityI) (simp_all add: unmask_def xor.assoc)

lemma length_f_wire [simp]: "length (f_wire f) = length (f_data f)"
  by (cases f) (auto split: option.split)

lemma length_f_key: "frame_ok c f \<Longrightarrow> length (f_key f) = 4 * f_mask f"
  by (cases f) (auto simp: frame_ok_def split: option.split)

lemma length_f_head [simp]: "length (f_head f) = 2"
  by (simp add: f_head_def)

lemma f_mask_le: "f_mask f \<le> 1"
  by (cases f) simp

lemma len_code_lt: "len_code n < 128"
  by (simp add: len_code_def)

lemma length_len_ext: "length (len_ext n) = (if len_code n = 126 then 2 else if len_code n = 127 then 8 else 0)"
  by (simp add: len_ext_def len_code_def)

lemma head_bits:
  assumes "m \<le> 1" "k < 128"
  shows "unat (drop_bit 7 (word_of_nat (m * 128 + k) :: byte)) = m"
    and "unat ((word_of_nat (m * 128 + k) :: byte) AND 0x7f) = k"
proof -
  obtain w where w: "(word_of_nat (m * 128 + k) :: byte) = w" by blast
  have "m * 128 + k < 256" using assms by linarith
  then have u: "unat w = m * 128 + k"
    unfolding w [symmetric] unat_of_nat take_bit_eq_mod by simp
  show "unat (drop_bit 7 (word_of_nat (m * 128 + k) :: byte)) = m"
    unfolding w unat_drop_bit_eq u using assms(2) by (simp add: drop_bit_eq_div)
  have "w AND 0x7f = take_bit 7 w"
    by (simp add: take_bit_eq_mask mask_eq_exp_minus_1)
  note and7 = this
  show "unat ((word_of_nat (m * 128 + k) :: byte) AND 0x7f) = k"
    unfolding w and7 unsigned_take_bit_eq u using assms(2) by (simp add: take_bit_eq_mod)
qed

lemma len_ext_value:
  assumes "n < SIZE_MOD"
  shows "len_code n = 126 \<Longrightarrow> be_nat (len_ext n) = n" "len_code n = 127 \<Longrightarrow> be_nat (len_ext n) = n"
  using assms by (auto simp: len_code_def len_ext_def codec unat_of_nat take_bit_eq_mod split: if_splits)

section \<open>The reader and its frames\<close>

definition ws_room :: "wsconf \<Rightarrow> nat \<Rightarrow> bool" where
  "ws_room c tot \<longleftrightarrow>
     env_ok (wsc_env c) \<and> page_size (wsc_env c) > 0 \<and> (\<forall>n \<le> tot + page_size (wsc_env c). alloc_ok (wsc_env c) n)"

definition ws_stream :: "bool \<Rightarrow> nat \<Rightarrow> wsreq \<Rightarrow> ubuf \<Rightarrow> bytes \<Rightarrow> bool" where
  "ws_stream nb tot r wb S \<longleftrightarrow>
     ws_buf r = Some wb \<and> ub_wf wb \<and> limit wb = 0 \<and> \<not> ws_closed r \<and>
     S = ub_data wb @ net_bytes (ch_evs (ws_chan r)) \<and> length S \<le> tot \<and>
     delivers nb (ch_evs (ws_chan r)) (ch_waits (ws_chan r))"

definition head_read :: "frame \<Rightarrow> wsreq \<Rightarrow> bool" where
  "head_read f r \<longleftrightarrow> ws_opcode r = f_opcode f \<and> ws_has_mask r = f_mask f"

definition at_phase :: "frame \<Rightarrow> wsreq \<Rightarrow> bool" where
  "at_phase f r \<longleftrightarrow>
     (let n = length (f_data f); ext = length (len_ext n) in
      ws_phase r = 0 \<and> ws_need r = 2 \<or>
      ws_phase r = 1 \<and> head_read f r \<and> n \<ge> 126 \<and> ws_size r = len_code n \<and> ws_need r = 2 + ext \<and>
        ws_pktsize r = 2 + f_mask f * 4 + ext \<or>
      ws_phase r = 2 \<and> head_read f r \<and> ws_size r = n \<and> ws_need r = 2 + ext \<and>
        ws_pktsize r = 2 + f_mask f * 4 + ext \<or>
      ws_phase r = 3 \<and> head_read f r \<and> f_mask f = 1 \<and> ws_size r = n \<and> ws_need r = 6 + ext \<and>
        ws_pktsize r = 2 + f_mask f * 4 + ext \<or>
      ws_phase r = 4 \<and> head_read f r \<and> ws_size r = n \<and> ws_need r = length (enc_frame f) \<and>
        ws_pktsize r = length (enc_frame f))"

lemma length_enc_frame:
  "frame_ok c f \<Longrightarrow> length (enc_frame f) = 2 + f_mask f * 4 + length (len_ext (length (f_data f))) + length (f_data f)"
  by (simp add: enc_frame_def length_f_key)

lemma at_phase_need:
  assumes "frame_ok c f" "at_phase f r"
  shows "ws_need r \<le> length (enc_frame f)"
  using assms f_mask_le [of f] by (auto simp: at_phase_def Let_def length_enc_frame)

text \<open>The bytes of a frame at the start of the buffer.\<close>

lemma buffered:
  assumes "ws_stream nb tot r wb (enc_frame f @ R)" "n \<le> bpos wb" "n \<le> length (enc_frame f)"
  shows "n \<le> length (buf wb)" "take n (buf wb) = take n (enc_frame f)"
proof -
  have wf: "ub_wf wb" and S: "enc_frame f @ R = ub_data wb @ net_bytes (ch_evs (ws_chan r))"
    using assms(1) unfolding ws_stream_def by blast+
  show "n \<le> length (buf wb)" using wf assms(2) by (simp add: ub_wf_def)
  have "take n (enc_frame f @ R) = take n (ub_data wb @ net_bytes (ch_evs (ws_chan r)))" unfolding S ..
  then show "take n (buf wb) = take n (enc_frame f)"
    using assms(2,3) wf by (simp add: ub_data_def ub_wf_def min_def)
qed

lemma phase_advances:
  assumes "ws_stream nb tot r wb (enc_frame f @ R)" "frame_ok c f" "at_phase f r" "ws_need r \<le> bpos wb"
    and "ws_phase r \<noteq> 4"
  shows "\<exists>r'. ws_phase_step c r = Some (Inr (), r') \<and> at_phase f r' \<and> ws_phase r < ws_phase r' \<and> ws_phase r' \<le> 4 \<and>
           ws_buf r' = ws_buf r \<and> ws_chan r' = ws_chan r \<and> ws_closed r' = ws_closed r"
proof -
  let ?n = "length (f_data f)"
  have wb: "ws_buf r = Some wb" using assms(1) by (simp add: ws_stream_def)
  note need = at_phase_need [OF assms(2,3)]
  note b = buffered [OF assms(1,4) need]
  have n63: "?n < OBJ_MAX" using assms(2) by (simp add: frame_ok_def)
  have e: "enc_frame f = f_head f @ len_ext ?n @ f_key f @ f_wire f" by (simp add: enc_frame_def)
  have small: "f_mask f \<le> 1" "length (len_ext ?n) \<le> 8"
    using f_mask_le [of f] by (auto simp: length_len_ext)
  from assms(3,5) consider
      (p0) "ws_phase r = 0" "ws_need r = 2"
    | (p1) "ws_phase r = 1" "head_read f r" "?n \<ge> 126" "ws_size r = len_code ?n" "ws_need r = 2 + length (len_ext ?n)"
        "ws_pktsize r = 2 + f_mask f * 4 + length (len_ext ?n)"
    | (p2) "ws_phase r = 2" "head_read f r" "ws_size r = ?n" "ws_need r = 2 + length (len_ext ?n)"
        "ws_pktsize r = 2 + f_mask f * 4 + length (len_ext ?n)"
    | (p3) "ws_phase r = 3" "head_read f r" "f_mask f = 1" "ws_size r = ?n" "ws_need r = 6 + length (len_ext ?n)"
        "ws_pktsize r = 2 + f_mask f * 4 + length (len_ext ?n)"
    unfolding at_phase_def Let_def by blast
  then show ?thesis
  proof cases
    case p0
    have t: "take 2 (buf wb) = f_head f" using b(2) p0(2) by (simp add: e)
    have "buf wb ! 0 = take 2 (buf wb) ! 0" "buf wb ! 1 = take 2 (buf wb) ! 1" by simp_all
    then have "buf wb ! 0 = f_head f ! 0" "buf wb ! 1 = f_head f ! 1" unfolding t by blast+
    moreover have "2 \<le> length (buf wb)" using b(1) p0(2) by simp
    then have "0 < length (buf wb)" "1 < length (buf wb)" by linarith+
    ultimately have get: "mem_get (buf wb) 0 = Some (f_head f ! 0)" "mem_get (buf wb) 1 = Some (f_head f ! 1)"
      by (simp_all add: mem_get_def)
    have bits: "unat (drop_bit 7 (f_head f ! 1)) = f_mask f" "unat (f_head f ! 1 AND 0x7f) = len_code ?n"
      using head_bits [OF small(1) len_code_lt [of ?n]] by (simp_all add: f_head_def)
    have op: "unat (f_head f ! 0 AND 0xf) = f_opcode f" by (cases f) (simp add: f_head_def)
    have h: "uwsgi_websocket_parse_header r =
        Some (r\<lparr>ws_opcode := f_opcode f, ws_has_mask := f_mask f, ws_size := len_code ?n\<rparr>)"
      by (simp only: uwsgi_websocket_parse_header_def wb get bits op bind.bind_lunit)
    have lc: "len_code ?n = 126 \<longleftrightarrow> 126 \<le> ?n \<and> ?n \<le> 65535" "len_code ?n = 127 \<longleftrightarrow> 65535 < ?n"
      "len_code ?n \<noteq> 126 \<Longrightarrow> len_code ?n \<noteq> 127 \<Longrightarrow> len_code ?n = ?n"
      by (cases "?n < 126"; cases "?n \<le> 65535"; simp add: len_code_def)+
    consider "len_code ?n = 126" | "len_code ?n = 127" | "len_code ?n \<noteq> 126" "len_code ?n \<noteq> 127" by blast
    then show ?thesis
      using p0 lc
      by cases (simp_all add: ws_phase_step_def h Let_def at_phase_def head_read_def length_len_ext sz_add_def)
  next
    case p1
    have "take (length (len_ext ?n)) (drop 2 (buf wb)) = drop 2 (take (2 + length (len_ext ?n)) (buf wb))"
      by (simp add: drop_take)
    also have "\<dots> = len_ext ?n" using b(2) p1(5) by (simp add: e)
    finally have x: "take (length (len_ext ?n)) (drop 2 (buf wb)) = len_ext ?n" .
    have le: "2 + length (len_ext ?n) \<le> length (buf wb)" using b(1) p1(5) by simp
    have n: "?n < SIZE_MOD" using n63 by simp
    have max: "\<not> ?n > (wsc_max_size c * 1024) mod SIZE_MOD"
      using assms(2) p1(3) by (simp add: frame_ok_def)
    have "len_code ?n = 126 \<and> uwsgi_be16 (buf wb) 2 = Some ?n \<or> len_code ?n = 127 \<and> uwsgi_be64 (buf wb) 2 = Some ?n"
    proof (cases "len_code ?n = 126")
      case True
      then have "length (len_ext ?n) = 2" by (simp add: length_len_ext)
      then show ?thesis
        using True be16_value [of 2 "buf wb"] le x len_ext_value(1) [OF n True] by simp
    next
      case False
      then have c: "len_code ?n = 127" using p1(3) by (auto simp: len_code_def split: if_splits)
      then have "length (len_ext ?n) = 8" by (simp add: length_len_ext)
      then show ?thesis
        using c be64_value [of 2 "buf wb"] le x len_ext_value(2) [OF n c] by simp
    qed
    then have "ws_phase_step c r = Some (Inr (), r\<lparr>ws_size := ?n, ws_phase := 2\<rparr>)"
      using p1(1,4) wb max by (auto simp: ws_phase_step_def)
    then show ?thesis
      using p1 by (auto simp: at_phase_def Let_def head_read_def)
  next
    case p2
    have "sz_add (2 + length (len_ext ?n)) 4 = 6 + length (len_ext ?n)"
      "sz_add (2 + length (len_ext ?n)) ?n = 2 + length (len_ext ?n) + ?n"
      using small(2) n63 by (simp_all add: sz_add_def)
    moreover have "f_mask f = 0 \<or> f_mask f = 1" using small(1) by linarith
    ultimately show ?thesis
      using p2 by (elim disjE)
        (simp_all add: ws_phase_step_def at_phase_def Let_def head_read_def length_enc_frame [OF assms(2)])
  next
    case p3
    have "sz_add (6 + length (len_ext ?n)) ?n = 6 + length (len_ext ?n) + ?n"
      using small(2) n63 by (simp add: sz_add_def)
    then show ?thesis
      using p3 by (simp add: ws_phase_step_def at_phase_def Let_def head_read_def length_enc_frame [OF assms(2)])
  qed
qed

lemma recv_delivers:
  assumes "delivers nb evs ws" "net_bytes evs \<noteq> []" "room > 0"
  shows "\<exists>bs cn'. recv_loop c room nb r evs ws = Some (1, bs, r\<lparr>ws_chan := cn'\<rparr>) \<and> bs \<noteq> [] \<and> length bs \<le> room \<and>
           net_bytes evs = bs @ net_bytes (ch_evs cn') \<and> delivers nb (ch_evs cn') (ch_waits cn')"
  using assms
  by (cases "(nb, evs, ws)" rule: delivers.cases) auto

lemma fill_advances:
  assumes "ws_room c tot" "ws_stream nb tot r wb S" "bpos wb < length S"
  shows "\<exists>bs wb' cn'. ws_fill c nb r = Some (Inr (), r\<lparr>ws_buf := Some wb', ws_chan := cn'\<rparr>) \<and>
           ws_stream nb tot (r\<lparr>ws_buf := Some wb', ws_chan := cn'\<rparr>) wb' S \<and> bs \<noteq> [] \<and>
           net_bytes (ch_evs (ws_chan r)) = bs @ net_bytes (ch_evs cn')"
proof -
  let ?e = "wsc_env c"
  let ?p = "page_size ?e"
  from assms(2) have P: "ws_buf r = Some wb" "ub_wf wb" "limit wb = 0" "\<not> ws_closed r"
    "S = ub_data wb @ net_bytes (ch_evs (ws_chan r))" "length S \<le> tot"
    "delivers nb (ch_evs (ws_chan r)) (ch_waits (ws_chan r))"
    unfolding ws_stream_def by blast+
  have len: "length (ub_data wb) = bpos wb" using P(2) by (rule length_ub_data)
  have more: "net_bytes (ch_evs (ws_chan r)) \<noteq> []" using assms(3) P(5) len by auto
  have al: "env_ok ?e" "?p > 0" "alloc_ok ?e (bpos wb + ?p)"
    using assms(1,3) P(6) by (auto simp: ws_room_def)
  then have n: "?p < OBJ_MAX" by (simp add: env_ok_def)
  have lim: "limit wb = 0 \<or> bpos wb + ?p \<le> limit wb" using P(3) by simp
  obtain wb1 where e: "uwsgi_buffer_ensure ?e wb ?p = (wb1, 0)"
    using ensure_succeeds [OF al(1) P(2) n lim al(3)] by (cases "uwsgi_buffer_ensure ?e wb ?p") auto
  from ensure_enough [OF al(1) P(2) n lim e] have u1: "ub_wf wb1" "ub_data wb1 = ub_data wb"
    "bpos wb1 = bpos wb" "limit wb1 = 0" "bpos wb + ?p \<le> blen wb1" using P(3) by auto
  have room: "sz_sub (blen wb1) (bpos wb1) = blen wb1 - bpos wb1"
    using u1(1) by (auto simp: ub_wf_def intro!: sz_simps)
  have pos: "blen wb1 - bpos wb1 > 0" using u1(3,5) al(2) by linarith
  obtain bs cn' where rv: "recv_loop c (blen wb1 - bpos wb1) nb (r\<lparr>ws_buf := Some wb1\<rparr>) (ch_evs (ws_chan r)) (ch_waits (ws_chan r))
       = Some (1, bs, r\<lparr>ws_buf := Some wb1, ws_chan := cn'\<rparr>)" "bs \<noteq> []" "length bs \<le> blen wb1 - bpos wb1"
     "net_bytes (ch_evs (ws_chan r)) = bs @ net_bytes (ch_evs cn')" "delivers nb (ch_evs cn') (ch_waits cn')"
    using recv_delivers [OF P(7) more pos, of c "r\<lparr>ws_buf := Some wb1\<rparr>"] by auto
  then have "bpos wb1 + length bs \<le> length (buf wb1)" using u1(1) by (auto simp: ub_wf_def)
  then obtain m where m: "mem_write (buf wb1) (bpos wb1) bs = Some m" by (simp add: mem_write_def)
  let ?wb = "wb1\<lparr>buf := m, bpos := bpos wb1 + length bs\<rparr>"
  have wf: "ub_wf ?wb" "ub_data ?wb = ub_data wb @ bs"
    using u1 rv(3) mem_write_length [OF m] mem_write_upto [OF m] by (auto simp: ub_wf_def ub_data_def)
  have "ws_fill c nb r = Some (Inr (), r\<lparr>ws_buf := Some ?wb, ws_chan := cn'\<rparr>)"
    using P(1) e rv(1) m by (simp add: ws_fill_def uwsgi_websockets_recv_pkt_def room Let_def)
  moreover have "ws_stream nb tot (r\<lparr>ws_buf := Some ?wb, ws_chan := cn'\<rparr>) ?wb S"
    using P(4,5,6) rv(4,5) u1(4) wf by (simp add: ws_stream_def)
  ultimately show ?thesis using rv(2,4) by blast
qed

text \<open>The loop gets a whole frame into the buffer, its header decoded.\<close>

lemma loop_gets_frame:
  assumes "ws_room c tot" "ws_stream nb tot r wb (enc_frame f @ R)" "frame_ok c f" "at_phase f r"
  shows "\<exists>r' wb'. ws_loop c nb r = ws_loop c nb r' \<and> ws_stream nb tot r' wb' (enc_frame f @ R) \<and>
           at_phase f r' \<and> ws_phase r' = 4 \<and> ws_need r' \<le> bpos wb'"
  using assms(2,4)
proof (induction "5 * length (net_bytes (ch_evs (ws_chan r))) + nat (4 - ws_phase r)" arbitrary: r wb rule: less_induct)
  case less
  note st = less.prems(1) and ph = less.prems(2)
  have wb: "ws_buf r = Some wb" using st by (simp add: ws_stream_def)
  show ?case
  proof (cases "ws_need r \<le> bpos wb")
    case True
    show ?thesis
    proof (cases "ws_phase r = 4")
      case False
      from phase_advances [OF st assms(3) ph True False] obtain r' where
        r': "ws_phase_step c r = Some (Inr (), r')" "at_phase f r'" "ws_phase r < ws_phase r'" "ws_phase r' \<le> 4"
          "ws_buf r' = ws_buf r" "ws_chan r' = ws_chan r" "ws_closed r' = ws_closed r" by blast
      have "ws_pass c nb r = Some (Inr (), r')" using wb True r'(1) by (simp add: ws_pass_def)
      then have eq: "ws_loop c nb r = ws_loop c nb r'" by (subst ws_loop.simps) simp
      have "ws_stream nb tot r' wb (enc_frame f @ R)" using st unfolding ws_stream_def r'(5-7) .
      from less.hyps [OF _ this r'(2)] r'(3,4,6) eq show ?thesis by auto
    qed (use st ph True in blast)
  next
    case False
    have "bpos wb < length (enc_frame f @ R)"
      using False at_phase_need [OF assms(3) ph] by simp
    from fill_advances [OF assms(1) st this] obtain bs wb' cn' where
      f: "ws_fill c nb r = Some (Inr (), r\<lparr>ws_buf := Some wb', ws_chan := cn'\<rparr>)"
        "ws_stream nb tot (r\<lparr>ws_buf := Some wb', ws_chan := cn'\<rparr>) wb' (enc_frame f @ R)" "bs \<noteq> []"
        "net_bytes (ch_evs (ws_chan r)) = bs @ net_bytes (ch_evs cn')" by blast
    let ?r = "r\<lparr>ws_buf := Some wb', ws_chan := cn'\<rparr>"
    have "ws_pass c nb r = Some (Inr (), ?r)" using wb False f(1) by (simp add: ws_pass_def)
    then have eq: "ws_loop c nb r = ws_loop c nb ?r" by (subst ws_loop.simps) simp
    have "at_phase f ?r" using ph by (simp add: at_phase_def head_read_def Let_def)
    moreover have "length bs \<noteq> 0" using f(3) by simp
    ultimately show ?thesis
      using less.hyps [OF _ f(2)] f(4) eq by auto
  qed
qed

lemma fresh_buffer_append:
  assumes "length d < OBJ_MAX"
  shows "\<exists>ub. uwsgi_buffer_append e (uwsgi_buffer_new e (length d)) d = Some (ub, 0) \<and> ub_data ub = d \<and> ub_wf ub"
proof -
  let ?b = "uwsgi_buffer_new e (length d)"
  have b: "ub_wf ?b" "length d \<le> blen ?b - bpos ?b" "bpos ?b = 0" "length (buf ?b) = length d"
    using assms by (auto simp: ub_wf_def uwsgi_buffer_new_def)
  from append_fits [OF b(1,2)] obtain m where
    m: "uwsgi_buffer_append e ?b d = Some (?b\<lparr>buf := m, bpos := bpos ?b + length d\<rparr>, 0)" "mem_write (buf ?b) (bpos ?b) d = Some m"
    by blast
  have "m = d" using m(2) b(3,4) by (auto simp: mem_write_def)
  then show ?thesis using m(1) b by (auto simp: ub_data_def ub_wf_def)
qed

text \<open>A frame with a message: the payload, unmasked, is handed out and the frame cut off.\<close>

lemma parse_frame:
  assumes "ws_stream nb tot r wb (enc_frame f @ R)" "frame_ok c f" "at_phase f r" "ws_phase r = 4" "ws_need r \<le> bpos wb"
  shows "\<exists>ub r' wb'. uwsgi_websockets_parse c r = Some (Some ub, r') \<and> ub_data ub = f_data f \<and> ub_wf ub \<and>
           ws_stream nb tot r' wb' R \<and> ws_phase r' = 0 \<and> ws_need r' = 2"
proof -
  let ?n = "length (f_data f)"
  let ?t = "length (enc_frame f)"
  obtain off where off: "?t = off + ?n" "off = 2 + f_mask f * 4 + length (len_ext ?n)"
    using length_enc_frame [OF assms(2)] by simp
  have p4: "ws_has_mask r = f_mask f" "ws_size r = ?n" "ws_need r = ?t" "ws_pktsize r = ?t"
    using assms(3,4) by (auto simp: at_phase_def Let_def head_read_def)
  have P: "ws_buf r = Some wb" "ub_wf wb" "limit wb = 0" "\<not> ws_closed r"
    "enc_frame f @ R = ub_data wb @ net_bytes (ch_evs (ws_chan r))" "length (enc_frame f @ R) \<le> tot"
    "delivers nb (ch_evs (ws_chan r)) (ch_waits (ws_chan r))"
    using assms(1) unfolding ws_stream_def by blast+
  have tb: "?t \<le> bpos wb" using assms(5) p4(3) by simp
  have b: "?t \<le> length (buf wb)" "take ?t (buf wb) = enc_frame f"
    using buffered [OF assms(1) tb] by simp_all
  have n63: "?n < OBJ_MAX" using assms(2) by (simp add: frame_ok_def)
  have ts: "?t < SIZE_MOD" using P(2) tb by (auto simp: ub_wf_def)
  have offs: "sz_sub ?t ?n = off" using off(1) ts by (simp add: sz_simps)
  have e: "enc_frame f = (f_head f @ len_ext ?n @ f_key f) @ f_wire f" by (simp add: enc_frame_def)
  have lo: "length (f_head f @ len_ext ?n @ f_key f) = off"
    using off(2) length_f_key [OF assms(2)] by simp
  have buf_split: "buf wb = (f_head f @ len_ext ?n @ f_key f) @ f_wire f @ drop ?t (buf wb)"
    using append_take_drop_id [of ?t "buf wb"] b(2) e by (metis append.assoc)
  have rd: "mem_read (buf wb) off ?n = Some (f_wire f)"
    using lo by (subst buf_split) (simp add: mem_read_def)
  obtain m where m:
    "(if ws_has_mask r \<noteq> 0 then do {
        key \<leftarrow> (if off < 4 then None else mem_read (buf wb) (off - 4) 4);
        mem_write (buf wb) off (unmask key (f_wire f)) } else Some (buf wb)) = Some m"
    "m = (f_head f @ len_ext ?n @ f_key f) @ f_data f @ drop ?t (buf wb)"
  proof (cases f)
    case (Frame b1 k d)
    show ?thesis
    proof (cases k)
      case None
      then have "ws_has_mask r = 0" "f_wire f = f_data f" using p4(1) Frame by simp_all
      then show ?thesis using that [of "buf wb"] buf_split by simp
    next
      case (Some key)
      have k: "f_key f = key" "length key = 4" "ws_has_mask r = 1" "f_wire f = unmask key (f_data f)" "f_mask f = 1"
        using Frame Some assms(2) p4(1) by (auto simp: frame_ok_def)
      have o4: "\<not> off < 4" using off(2) k(5) by simp
      have "length (f_head f @ len_ext ?n) = off - 4" using lo k(1,2) by simp
      then have key: "mem_read (buf wb) (off - 4) 4 = Some key"
        using k(1,2) by (subst buf_split) (simp add: mem_read_def)
      have "mem_write (buf wb) off (unmask key (f_wire f)) =
          Some ((f_head f @ len_ext ?n @ f_key f) @ f_data f @ drop ?t (buf wb))"
        using lo k(4) by (subst buf_split) (simp add: mem_write_def)
      then show ?thesis using that key k(3) o4 by simp
    qed
  qed
  have md: "mem_read m off ?n = Some (f_data f)"
    unfolding m(2) using lo by (simp add: mem_read_def)
  have len_m: "length m = length (buf wb)" unfolding m(2) using lo off(1) b(1) by simp
  from fresh_buffer_append [OF n63, of "wsc_env c"] obtain ub where
    ub: "uwsgi_buffer_append (wsc_env c) (uwsgi_buffer_new (wsc_env c) ?n) (f_data f) = Some (ub, 0)" "ub_data ub = f_data f" "ub_wf ub"
    by blast
  let ?wb = "wb\<lparr>buf := m\<rparr>"
  have wf: "ub_wf ?wb" using P(2) len_m by (simp add: ub_wf_def)
  from decapitate_cases(1) [OF wf, of ?t] tb obtain wb' where
    d: "uwsgi_buffer_decapitate ?wb ?t = Some (wb', 0)" "ub_wf wb'" "ub_data wb' = drop ?t (ub_data ?wb)" "limit wb' = limit ?wb"
    by auto
  let ?r = "r\<lparr>ws_buf := Some wb', ws_phase := 0, ws_need := 2\<rparr>"
  have "uwsgi_websockets_parse c r = Some (Some ub, ?r)"
    using m(1) md ub(1) d(1) by (simp add: uwsgi_websockets_parse_def P(1) p4(2,4) offs rd Let_def)
  moreover have "drop ?t m = drop ?t (buf wb)" unfolding m(2) using lo off(1) by simp
  then have "drop ?t (ub_data ?wb) = drop ?t (ub_data wb)" by (simp add: ub_data_def drop_take)
  then have "R = ub_data wb' @ net_bytes (ch_evs (ws_chan r))"
    using arg_cong [OF P(5), of "drop ?t"] tb length_ub_data [OF P(2)] d(3) by simp
  then have "ws_stream nb tot ?r wb' R"
    using P(3,4,6,7) d(2,4) unfolding ws_stream_def by auto
  ultimately show ?thesis using ub(2,3) by auto
qed

text \<open>The control frames that need no answer are skipped.\<close>

lemma skip_frame:
  assumes "ws_stream nb tot r wb (enc_frame f @ R)" "frame_ok c f" "at_phase f r" "ws_phase r = 4" "ws_need r \<le> bpos wb"
    and "f_opcode f \<notin> {0, 1, 2, 8, 9}"
  shows "\<exists>r' wb'. ws_loop c nb r = ws_loop c nb r' \<and> ws_stream nb tot r' wb' R \<and> ws_phase r' = 0 \<and> ws_need r' = 2"
proof -
  let ?t = "length (enc_frame f)"
  have p4: "ws_opcode r = f_opcode f" "ws_need r = ?t" "ws_pktsize r = ?t"
    using assms(3,4) by (auto simp: at_phase_def Let_def head_read_def)
  have P: "ws_buf r = Some wb" "ub_wf wb" "limit wb = 0" "\<not> ws_closed r"
    "enc_frame f @ R = ub_data wb @ net_bytes (ch_evs (ws_chan r))" "length (enc_frame f @ R) \<le> tot"
    "delivers nb (ch_evs (ws_chan r)) (ch_waits (ws_chan r))"
    using assms(1) unfolding ws_stream_def by blast+
  have tb: "?t \<le> bpos wb" using assms(5) p4(2) by simp
  from decapitate_cases(1) [OF P(2) tb] obtain wb' where
    d: "uwsgi_buffer_decapitate wb ?t = Some (wb', 0)" "ub_wf wb'" "ub_data wb' = drop ?t (ub_data wb)" "limit wb' = limit wb"
    by auto
  let ?r0 = "if ws_opcode r = 10 then r\<lparr>ws_ticks := ws_ticks r + 1, ws_last_pong := wsc_now c (ws_ticks r)\<rparr> else r"
  let ?r = "?r0\<lparr>ws_buf := Some wb', ws_phase := 0, ws_need := 2\<rparr>"
  have "ws_message c r = Some (Inr (), ?r)"
    using assms(6) P(1) p4 d(1) by (auto simp: ws_message_def uwsgi_now_def)
  then have "ws_pass c nb r = Some (Inr (), ?r)"
    using P(1) assms(4,5) by (simp add: ws_pass_def ws_phase_step_def)
  then have eq: "ws_loop c nb r = ws_loop c nb ?r" by (subst ws_loop.simps) simp
  have "R = ub_data wb' @ net_bytes (ch_evs (ws_chan r))"
    using arg_cong [OF P(5), of "drop ?t"] tb length_ub_data [OF P(2)] d(3) by simp
  then have "ws_stream nb tot ?r wb' R"
    using P(3,4,6,7) d(2,4) unfolding ws_stream_def by auto
  then show ?thesis using eq by (intro exI [of _ ?r] exI [of _ wb']) simp
qed

section \<open>Messages in and out\<close>

definition ws_idle :: "bool \<Rightarrow> nat \<Rightarrow> wsreq \<Rightarrow> bytes \<Rightarrow> bool" where
  "ws_idle nb tot r S \<longleftrightarrow>
     ws_phase r = 0 \<and>
     (ws_buf r = None \<and> \<not> ws_closed r \<and> S = net_bytes (ch_evs (ws_chan r)) \<and> length S \<le> tot \<and>
        delivers nb (ch_evs (ws_chan r)) (ch_waits (ws_chan r)) \<or>
      (\<exists>wb. ws_stream nb tot r wb S \<and> ws_need r = 2))"

lemma idle_enters:
  assumes "ws_room c tot" "ws_idle nb tot r S"
  shows "\<exists>r' wb. recv_op c nb r =
             map_option (\<lambda>(ub, r). (ub, if ub = None then r\<lparr>ws_closed := True\<rparr> else r)) (ws_loop c nb r') \<and>
           ws_stream nb tot r' wb S \<and> ws_phase r' = 0 \<and> ws_need r' = 2"
proof (cases "ws_buf r")
  case None
  let ?ub = "uwsgi_buffer_new (wsc_env c) (page_size (wsc_env c))"
  let ?r = "r\<lparr>ws_buf := Some ?ub, ws_need := 2\<rparr>"
  have wf: "ub_wf ?ub" "ub_data ?ub = []" "limit ?ub = 0"
    using assms(1) by (auto simp: ub_wf_def ub_data_def uwsgi_buffer_new_def ws_room_def env_ok_def)
  have i: "\<not> ws_closed r" "S = net_bytes (ch_evs (ws_chan r))" "length S \<le> tot" "ws_phase r = 0"
    "delivers nb (ch_evs (ws_chan r)) (ch_waits (ws_chan r))"
    using assms(2) None unfolding ws_idle_def ws_stream_def by auto
  have "ws_stream nb tot ?r ?ub S" using wf i by (simp add: ws_stream_def)
  moreover have "recv_op c nb r = map_option (\<lambda>(ub, r). (ub, if ub = None then r\<lparr>ws_closed := True\<rparr> else r)) (ws_loop c nb ?r)"
    using None i(1) by (cases "ws_loop c nb ?r") (auto simp: recv_op_def uwsgi_websocket_recv_do_def)
  ultimately show ?thesis using i(4) by (intro exI [of _ ?r] exI [of _ ?ub]) simp
next
  case (Some wb)
  then have i: "ws_stream nb tot r wb S" "ws_need r = 2" "ws_phase r = 0"
    using assms(2) unfolding ws_idle_def ws_stream_def by auto
  then have "\<not> ws_closed r" by (simp add: ws_stream_def)
  then have "recv_op c nb r = map_option (\<lambda>(ub, r). (ub, if ub = None then r\<lparr>ws_closed := True\<rparr> else r)) (ws_loop c nb r)"
    using Some by (cases "ws_loop c nb r") (auto simp: recv_op_def uwsgi_websocket_recv_do_def)
  then show ?thesis using i by blast
qed

definition skipped :: "wsconf \<Rightarrow> frame \<Rightarrow> bool" where
  "skipped c f \<longleftrightarrow> frame_ok c f \<and> f_opcode f \<notin> {0, 1, 2, 8, 9}"

definition message :: "wsconf \<Rightarrow> frame \<Rightarrow> bool" where
  "message c f \<longleftrightarrow> frame_ok c f \<and> f_opcode f \<in> {0, 1, 2}"

lemma loop_reads_message:
  assumes "ws_room c tot" "ws_stream nb tot r wb (concat (map enc_frame ss) @ enc_frame f @ R)"
    and "ws_phase r = 0" "ws_need r = 2" "\<forall>s\<in>set ss. skipped c s" "message c f"
  shows "\<exists>ub r' wb'. ws_loop c nb r = Some (Some ub, r') \<and> ub_data ub = f_data f \<and> ub_wf ub \<and>
           ws_stream nb tot r' wb' R \<and> ws_phase r' = 0 \<and> ws_need r' = 2"
  using assms(2-5)
proof (induction ss arbitrary: r wb)
  case Nil
  have ok: "frame_ok c f" using assms(6) by (simp add: message_def)
  have "at_phase f r" using Nil(2,3) by (simp add: at_phase_def)
  from loop_gets_frame [OF assms(1) _ ok this, of nb wb R] Nil(1) obtain r1 wb1 where
    r1: "ws_loop c nb r = ws_loop c nb r1" "ws_stream nb tot r1 wb1 (enc_frame f @ R)" "at_phase f r1"
      "ws_phase r1 = 4" "ws_need r1 \<le> bpos wb1" by auto
  from parse_frame [OF r1(2) ok r1(3-5)] obtain ub r' wb' where
    u: "uwsgi_websockets_parse c r1 = Some (Some ub, r')" "ub_data ub = f_data f" "ub_wf ub"
      "ws_stream nb tot r' wb' R" "ws_phase r' = 0" "ws_need r' = 2" by blast
  have "ws_opcode r1 \<in> {0, 1, 2}"
    using r1(3,4) assms(6) by (auto simp: at_phase_def Let_def head_read_def message_def)
  moreover have "ws_buf r1 = Some wb1" using r1(2) by (simp add: ws_stream_def)
  ultimately have "ws_pass c nb r1 = Some (Inl (Some ub), r')"
    using r1(4,5) u(1) by (auto simp: ws_pass_def ws_phase_step_def ws_message_def)
  then have "ws_loop c nb r1 = Some (Some ub, r')" by (subst ws_loop.simps) simp
  then show ?case using r1(1) u(2-6) by auto
next
  case (Cons s ss)
  let ?R = "concat (map enc_frame ss) @ enc_frame f @ R"
  have ok: "frame_ok c s" "f_opcode s \<notin> {0, 1, 2, 8, 9}" using Cons.prems(4) by (auto simp: skipped_def)
  have "at_phase s r" using Cons.prems(2,3) by (simp add: at_phase_def)
  from loop_gets_frame [OF assms(1) _ ok(1) this, of nb wb ?R] Cons.prems(1) obtain r1 wb1 where
    r1: "ws_loop c nb r = ws_loop c nb r1" "ws_stream nb tot r1 wb1 (enc_frame s @ ?R)" "at_phase s r1"
      "ws_phase r1 = 4" "ws_need r1 \<le> bpos wb1" by auto
  from skip_frame [OF r1(2) ok(1) r1(3-5) ok(2)] obtain r2 wb2 where
    r2: "ws_loop c nb r1 = ws_loop c nb r2" "ws_stream nb tot r2 wb2 ?R" "ws_phase r2 = 0" "ws_need r2 = 2" by blast
  from Cons.IH [OF r2(2-4)] Cons.prems(4) r1(1) r2(1) show ?case by simp
qed

text \<open>What the application gets from a number of calls.\<close>

primrec ws_reads :: "nat \<Rightarrow> wsconf \<Rightarrow> bool \<Rightarrow> wsreq \<Rightarrow> (bytes list \<times> wsreq) option" where
  "ws_reads 0 c nb r = Some ([], r)"
| "ws_reads (Suc k) c nb r = do {
     (ub, r) \<leftarrow> recv_op c nb r;
     ub \<leftarrow> ub;
     (ds, r) \<leftarrow> ws_reads k c nb r;
     Some (ub_data ub # ds, r) }"

definition enc_group :: "frame list \<times> frame \<Rightarrow> bytes" where
  "enc_group x = concat (map enc_frame (fst x)) @ enc_frame (snd x)"

definition group_ok :: "wsconf \<Rightarrow> frame list \<times> frame \<Rightarrow> bool" where
  "group_ok c x \<longleftrightarrow> (\<forall>s\<in>set (fst x). skipped c s) \<and> message c (snd x)"

lemma reads_groups:
  assumes "ws_room c tot" "ws_idle nb tot r (concat (map enc_group xs) @ R)" "\<forall>x\<in>set xs. group_ok c x"
  shows "\<exists>r'. ws_reads (length xs) c nb r = Some (map (f_data \<circ> snd) xs, r') \<and> ws_idle nb tot r' R"
  using assms(2,3)
proof (induction xs arbitrary: r)
  case Nil
  then show ?case by simp
next
  case (Cons x xs)
  let ?R = "concat (map enc_group xs) @ R"
  from idle_enters [OF assms(1) Cons.prems(1)] obtain r1 wb1 where
    e: "recv_op c nb r = map_option (\<lambda>(ub, r). (ub, if ub = None then r\<lparr>ws_closed := True\<rparr> else r)) (ws_loop c nb r1)"
      "ws_stream nb tot r1 wb1 (concat (map enc_group (x # xs)) @ R)" "ws_phase r1 = 0" "ws_need r1 = 2" by blast
  have g: "\<forall>s\<in>set (fst x). skipped c s" "message c (snd x)" using Cons.prems(2) by (auto simp: group_ok_def)
  have "ws_stream nb tot r1 wb1 (concat (map enc_frame (fst x)) @ enc_frame (snd x) @ ?R)"
    using e(2) by (simp add: enc_group_def [of x])
  from loop_reads_message [OF assms(1) this e(3,4) g] obtain ub r2 wb2 where
    m: "ws_loop c nb r1 = Some (Some ub, r2)" "ub_data ub = f_data (snd x)" "ws_stream nb tot r2 wb2 ?R"
      "ws_phase r2 = 0" "ws_need r2 = 2" by blast
  have "ws_idle nb tot r2 ?R" using m(3-5) by (auto simp: ws_idle_def)
  from Cons.IH [OF this] Cons.prems(2) obtain r3 where
    "ws_reads (length xs) c nb r2 = Some (map (f_data \<circ> snd) xs, r3)" "ws_idle nb tot r3 R" by auto
  then show ?case using e(1) m(1,2) by simp
qed

text \<open>
  C22: the frames of a peer, in any cut and with pongs and reserved control frames between them,
  are read message by message: each call of \<^verbatim>\<open>uwsgi_websocket_recv\<close> (or its variant that does not
  block) returns the payload of the next message with the mask taken off, whatever the form of
  its length, and the bytes behind the last one stay for the next call.
\<close>

theorem uwsgi_websocket_recv_delivers:
  assumes "ws_room c (length (net_bytes evs))" "delivers nb evs ws" "\<forall>x\<in>set xs. group_ok c x"
    and "net_bytes evs = concat (map enc_group xs) @ R"
    and "ws_buf r = None" "ws_phase r = 0" "\<not> ws_closed r" "ws_chan r = \<lparr>ch_evs = evs, ch_waits = ws\<rparr>"
  shows "\<exists>r'. ws_reads (length xs) c nb r = Some (map (f_data \<circ> snd) xs, r') \<and>
           ws_idle nb (length (net_bytes evs)) r' R"
proof (rule reads_groups [OF assms(1) _ assms(3)])
  show "ws_idle nb (length (net_bytes evs)) r (concat (map enc_group xs) @ R)"
    using assms(2,4-8) by (simp add: ws_idle_def)
qed

definition ws_new :: "resp \<Rightarrow> io list \<Rightarrow> int list \<Rightarrow> wsreq" where
  "ws_new p evs ws =
     \<lparr>ws_resp = p, ws_chan = \<lparr>ch_evs = evs, ch_waits = ws\<rparr>, ws_ticks = 0, ws_buf = None, ws_send_buf = None,
      ws_need = 0, ws_phase = 0, ws_opcode = 0, ws_has_mask = 0, ws_size = 0, ws_pktsize = 0, ws_last_ping = 0,
      ws_last_pong = 0, ws_closed = False, ws_key = [], ws_origin = [], ws_protocol = []\<rparr>"

definition ws_sample :: wsconf where
  "ws_sample = \<lparr>wsc_writer = plain_sample, wsc_now = int, wsc_ping = uwsgi_buffer_new env_page 0,
     wsc_pong = uwsgi_buffer_new env_page 0, wsc_ping_freq = 30, wsc_tolerance = 3, wsc_max_size = 1024\<rparr>"

definition frames_sample :: "(frame list \<times> frame) list" where
  "frames_sample = [([Frame 0x8A None []], Frame 0x81 (Some [1, 2, 3, 4]) [72, 105]), ([], Frame 0x82 None [7])]"

lemma ws_sample_room: "n < 1000 \<Longrightarrow> ws_room ws_sample n"
  by (simp add: ws_room_def ws_sample_def plain_sample_def base_socket_def env_ok_def env_page_def)

theorem uwsgi_websocket_recv_delivers_witness:
  "\<exists>r'. ws_reads 2 ws_sample False
      (ws_new peer_sample [Bytes [0x8A, 0, 0x81], Again, Bytes [0x82, 1, 2], Bytes [3, 4, 73, 107, 0x82, 1, 7, 0x81]] [1])
    = Some ([[72, 105], [7]], r') \<and> ws_idle False 14 r' [0x81]"
proof -
  let ?evs = "[Bytes [0x8A, 0, 0x81], Again, Bytes [0x82, 1, 2], Bytes [3, 4, 73, 107, 0x82, 1, 7, 0x81]]"
  have g: "\<forall>x\<in>set frames_sample. group_ok ws_sample x"
    by (simp add: frames_sample_def group_ok_def skipped_def message_def frame_ok_def)
  have n: "net_bytes ?evs = concat (map enc_group frames_sample) @ [0x81]"
    by (simp add: frames_sample_def enc_group_def enc_frame_def f_head_def len_code_def len_ext_def unmask_def upt_rec)
  have d: "delivers False ?evs [1]" by simp
  have l: "length (net_bytes ?evs) = 14" by simp
  have k: "length frames_sample = 2" "map (f_data \<circ> snd) frames_sample = [[72, 105], [7]]"
    by (simp_all add: frames_sample_def)
  have "ws_room ws_sample (length (net_bytes ?evs))" by (rule ws_sample_room) simp
  from uwsgi_websocket_recv_delivers [OF this d g n, of "ws_new peer_sample ?evs [1]", unfolded k l]
  show ?thesis by (simp only: ws_new_def wsreq.simps simp_thms)
qed

lemma concat_length_field:
  "concat (length_field n) = [word_of_nat (len_code n)] @ len_ext n"
  by (simp add: length_field_def len_code_def len_ext_def)

text \<open>
  C23: a message built by the server is a frame without a mask: with a fresh buffer the builder
  always succeeds, with the buffer of an earlier message it succeeds or gives the null pointer,
  and a peer that reads with this code gets the message back.
\<close>

theorem uwsgi_websocket_message_read_back:
  assumes "env_ok (wsc_env c)" "length msg + 10 < OBJ_MAX" "\<And>b. ws_send_buf s = Some b \<Longrightarrow> ub_wf b"
  shows "\<exists>res s'. uwsgi_websocket_message c s msg opcode = Some (res, s') \<and> (ws_send_buf s = None \<longrightarrow> res \<noteq> None) \<and>
    (\<forall>ub. res = Some ub \<longrightarrow> ub_data ub = enc_frame (Frame opcode None msg)) \<and>
    (\<forall>ub evs ws r d. res = Some ub \<longrightarrow> net_bytes evs = ub_data ub \<longrightarrow> message d (Frame opcode None msg) \<longrightarrow>
       ws_room d (length (net_bytes evs)) \<longrightarrow> delivers nb evs ws \<longrightarrow>
       (\<exists>r'. ws_reads 1 d nb (ws_new r evs ws) = Some ([msg], r') \<and> ws_idle nb (length (net_bytes evs)) r' []))"
proof -
  let ?f = "Frame opcode None msg"
  let ?ub = "case ws_send_buf s of None \<Rightarrow> uwsgi_buffer_new (wsc_env c) (10 + length msg) | Some ub \<Rightarrow> ub\<lparr>bpos := 0\<rparr>"
  let ?ss = "[[opcode]] @ length_field (length msg) @ [msg]"
  have wf: "ub_wf ?ub" "ub_data ?ub = []"
    using assms(2,3) by (auto simp: ub_wf_def ub_data_def uwsgi_buffer_new_def split: option.splits)
  have small: "\<forall>x\<in>set ?ss. length x < OBJ_MAX"
    using assms(2) by (auto simp: length_field_def)
  have "env_ok (wsc_env c) \<and> ub_wf ?ub" using assms(1) wf(1) ..
  from ub.app_seq_total [OF this small] obtain b ret k where
    b: "append_all (wsc_env c) ?ub ?ss = Some (b, ret)" "ub_wf b" "k \<le> length ?ss"
      "ub_data b = ub_data ?ub @ concat (take k ?ss)" "ret = 0 \<and> k = length ?ss \<or> ret = -1 \<and> k < length ?ss"
    by auto
  have m: "uwsgi_websocket_message c s msg opcode = Some (if ret \<noteq> 0 then None else Some b, s\<lparr>ws_send_buf := Some b\<rparr>)"
    unfolding uwsgi_websocket_message_def Let_def b(1) by simp
  have enc: "ub_data b = enc_frame ?f" if "ret = 0"
    using b(4,5) that wf(2) by (auto simp: enc_frame_def f_head_def concat_length_field)
  have read: "\<exists>r'. ws_reads 1 d nb (ws_new r evs ws) = Some ([msg], r') \<and> ws_idle nb (length (net_bytes evs)) r' []"
    if "ret = 0" "net_bytes evs = ub_data b" "message d ?f" "ws_room d (length (net_bytes evs))" "delivers nb evs ws"
    for evs ws r d
  proof -
    have "\<forall>x\<in>set [([], ?f)]. group_ok d x" using that(3) by (simp add: group_ok_def)
    from reads_groups [OF that(4) _ this, of nb "ws_new r evs ws" "[]"] that(2,5) enc [OF that(1)]
    show ?thesis by (auto simp: ws_idle_def ws_new_def enc_group_def)
  qed
  have fresh: "ret = 0" if "ws_send_buf s = None"
  proof -
    have "length (concat ?ss) \<le> 10 + length msg" by (simp add: length_field_def)
    then have "bpos ?ub + length (concat ?ss) \<le> blen ?ub" using that by (simp add: uwsgi_buffer_new_def)
    from append_all_fits [OF wf(1) this, of "wsc_env c"] obtain b' where "append_all (wsc_env c) ?ub ?ss = Some (b', 0)" ..
    with b(1) show ?thesis by (simp only: option.inject prod.inject)
  qed
  show ?thesis using m read fresh enc by auto
qed

theorem uwsgi_websocket_message_read_back_witness:
  "\<exists>ub s' r'. uwsgi_websocket_message ws_sample (ws_new peer_sample [] []) [104, 105] 0x81 = Some (Some ub, s') \<and>
     ws_reads 1 ws_sample False (ws_new peer_sample [Bytes (ub_data ub)] []) = Some ([[104, 105]], r') \<and>
     ws_idle False (length (ub_data ub)) r' []"
proof -
  have e: "env_ok (wsc_env ws_sample)"
    by (simp add: ws_sample_def plain_sample_def base_socket_def env_ok_def env_page_def)
  have m: "message ws_sample (Frame 0x81 None [104, 105])" by (simp add: message_def frame_ok_def ws_sample_def)
  have len: "length (enc_frame (Frame 0x81 None [104, 105])) < 1000"
    by (simp add: enc_frame_def f_head_def len_ext_def)
  from uwsgi_websocket_message_read_back [OF e, of "[104, 105]" "ws_new peer_sample [] []" "0x81" False]
  obtain ub s' where g: "uwsgi_websocket_message ws_sample (ws_new peer_sample [] []) [104, 105] 0x81 = Some (Some ub, s')"
    "ub_data ub = enc_frame (Frame 0x81 None [104, 105])"
    "\<And>evs ws r d. net_bytes evs = ub_data ub \<Longrightarrow> message d (Frame 0x81 None [104, 105]) \<Longrightarrow>
       ws_room d (length (net_bytes evs)) \<Longrightarrow> delivers False evs ws \<Longrightarrow>
       (\<exists>r'. ws_reads 1 d False (ws_new r evs ws) = Some ([[104, 105]], r') \<and>
          ws_idle False (length (net_bytes evs)) r' [])"
    by (auto simp: ws_new_def)
  have "ub_data ub \<noteq> []" using g(2) by (simp add: enc_frame_def f_head_def)
  then have "net_bytes [Bytes (ub_data ub)] = ub_data ub" "delivers False [Bytes (ub_data ub)] []" by simp_all
  from g(3) [OF this(1) m _ this(2), of peer_sample] ws_sample_room [OF len] this(1) g(1,2) show ?thesis by auto
qed

end
