(* ===== verification/Timers.thy ===== *)
theory Timers
  imports Prelude
begin

text \<open>
  The timers of \<^verbatim>\<open>core/rb_timers.c\<close>: a red-black tree of heap nodes with parent pointers and one
  sentinel for all missing children.

  A pointer is a natural number, 0 is the null pointer, and the memory maps the addresses of the
  allocated nodes to their fields.  \<open>None\<close> is an access through a pointer to no node.  The code has
  each case twice, for the left and for the right; here the side is an argument.
\<close>

section \<open>Nodes and trees\<close>

datatype side = Lft | Rgt

fun other :: "side \<Rightarrow> side" where
  "other Lft = Rgt"
| "other Rgt = Lft"

record rb_timer =
  rb_value :: nat
  rb_parent :: nat
  rb_left :: nat
  rb_right :: nat
  rb_red :: bool
  rb_data :: nat

record rbtree =
  rt_root :: nat
  rt_sentinel :: nat
  rt_mem :: "nat \<rightharpoonup> rb_timer"

fun child :: "side \<Rightarrow> rb_timer \<Rightarrow> nat" where
  "child Lft n = rb_left n"
| "child Rgt n = rb_right n"

fun set_child :: "side \<Rightarrow> nat \<Rightarrow> rb_timer \<Rightarrow> rb_timer" where
  "set_child Lft p n = n\<lparr>rb_left := p\<rparr>"
| "set_child Rgt p n = n\<lparr>rb_right := p\<rparr>"

definition rb_node :: "rbtree \<Rightarrow> nat \<Rightarrow> rb_timer option" where
  "rb_node s p = rt_mem s p"

definition rb_upd :: "rbtree \<Rightarrow> nat \<Rightarrow> (rb_timer \<Rightarrow> rb_timer) \<Rightarrow> rbtree option" where
  "rb_upd s p f = map_option (\<lambda>n. s\<lparr>rt_mem := (rt_mem s)(p \<mapsto> f n)\<rparr>) (rt_mem s p)"

definition uwsgi_rbt_red :: "rbtree \<Rightarrow> nat \<Rightarrow> rbtree option" where
  "uwsgi_rbt_red s p = rb_upd s p (\<lambda>n. n\<lparr>rb_red := True\<rparr>)"

definition uwsgi_rbt_black :: "rbtree \<Rightarrow> nat \<Rightarrow> rbtree option" where
  "uwsgi_rbt_black s p = rb_upd s p (\<lambda>n. n\<lparr>rb_red := False\<rparr>)"

definition uwsgi_rbt_is_red :: "rbtree \<Rightarrow> nat \<Rightarrow> bool option" where
  "uwsgi_rbt_is_red s p = map_option rb_red (rb_node s p)"

definition uwsgi_rbt_copy_color :: "rbtree \<Rightarrow> nat \<Rightarrow> nat \<Rightarrow> rbtree option" where
  "uwsgi_rbt_copy_color s p q = do { n \<leftarrow> rb_node s q; rb_upd s p (\<lambda>m. m\<lparr>rb_red := rb_red n\<rparr>) }"

text \<open>The sentinel's address comes from the allocator; its fields are zero.\<close>

definition uwsgi_init_rb_timer :: "nat \<Rightarrow> rbtree" where
  "uwsgi_init_rb_timer sentinel = \<lparr>rt_root = sentinel, rt_sentinel = sentinel,
     rt_mem = [sentinel \<mapsto> \<lparr>rb_value = 0, rb_parent = 0, rb_left = 0, rb_right = 0, rb_red = False, rb_data = 0\<rparr>]\<rparr>"

section \<open>The operations\<close>

text \<open>The loop to the left; it does not return on a cyclic chain, which is \<open>None\<close> too.\<close>

partial_function (option) min_loop :: "rbtree \<Rightarrow> nat \<Rightarrow> nat option" where
  "min_loop s node =
     (case rb_node s node of
        None \<Rightarrow> None
      | Some n \<Rightarrow> if rb_left n = rt_sentinel s then Some node else min_loop s (rb_left n))"

text \<open>\<open>Some 0\<close> is the null pointer.\<close>

definition uwsgi_min_rb_timer :: "rbtree \<Rightarrow> nat \<Rightarrow> nat option" where
  "uwsgi_min_rb_timer s node =
     (let node = (if node = 0 then rt_root s else node) in
      if rt_root s = rt_sentinel s then Some 0 else min_loop s node)"

text \<open>The pointer to a node in its parent, or in the tree, is redirected.\<close>

definition relink :: "side \<Rightarrow> rbtree \<Rightarrow> nat \<Rightarrow> nat \<Rightarrow> rbtree option" where
  "relink d s node temp =
     (if node = rt_root s then Some (s\<lparr>rt_root := temp\<rparr>)
      else do {
        n \<leftarrow> rb_node s node;
        p \<leftarrow> rb_node s (rb_parent n);
        rb_upd s (rb_parent n) (if node = child d p then set_child d temp else set_child (other d) temp) })"

definition reparent :: "rbtree \<Rightarrow> nat \<Rightarrow> nat \<Rightarrow> rbtree option" where
  "reparent s p par = (if p \<noteq> rt_sentinel s then rb_upd s p (\<lambda>m. m\<lparr>rb_parent := par\<rparr>) else Some s)"

definition rotate :: "side \<Rightarrow> rbtree \<Rightarrow> nat \<Rightarrow> rbtree option" where
  "rotate d s node = do {
     n \<leftarrow> rb_node s node;
     let temp = child (other d) n;
     t \<leftarrow> rb_node s temp;
     s \<leftarrow> rb_upd s node (set_child (other d) (child d t));
     t \<leftarrow> rb_node s temp;
     s \<leftarrow> reparent s (child d t) node;
     n \<leftarrow> rb_node s node;
     s \<leftarrow> rb_upd s temp (\<lambda>m. m\<lparr>rb_parent := rb_parent n\<rparr>);
     s \<leftarrow> relink d s node temp;
     s \<leftarrow> rb_upd s temp (set_child d node);
     rb_upd s node (\<lambda>m. m\<lparr>rb_parent := temp\<rparr>) }"

definition uwsgi_rbtree_lr :: "rbtree \<Rightarrow> nat \<Rightarrow> rbtree option" where
  "uwsgi_rbtree_lr s node = rotate Lft s node"

definition uwsgi_rbtree_rr :: "rbtree \<Rightarrow> nat \<Rightarrow> rbtree option" where
  "uwsgi_rbtree_rr s node = rotate Rgt s node"

definition rotate_to :: "side \<Rightarrow> rbtree \<Rightarrow> nat \<Rightarrow> rbtree option" where
  "rotate_to d s node = (case d of Lft \<Rightarrow> uwsgi_rbtree_lr s node | Rgt \<Rightarrow> uwsgi_rbtree_rr s node)"

text \<open>The way down to the place of a new node: equal values go to the right.\<close>

partial_function (option) add_loop :: "rbtree \<Rightarrow> nat \<Rightarrow> nat \<Rightarrow> (side \<times> nat) option" where
  "add_loop s value temp =
     (case rb_node s temp of
        None \<Rightarrow> None
      | Some t \<Rightarrow>
          (let d = (if value < rb_value t then Lft else Rgt) in
           if child d t = rt_sentinel s then Some (d, temp) else add_loop s value (child d t)))"

definition uwsgi_rbt_add :: "rbtree \<Rightarrow> nat \<Rightarrow> nat \<Rightarrow> rbtree option" where
  "uwsgi_rbt_add s temp node = do {
     n \<leftarrow> rb_node s node;
     (d, temp) \<leftarrow> add_loop s (rb_value n) temp;
     s \<leftarrow> rb_upd s temp (set_child d node);
     rb_upd s node (\<lambda>n. n\<lparr>rb_parent := temp, rb_left := rt_sentinel s, rb_right := rt_sentinel s, rb_red := True\<rparr>) }"

text \<open>A pass of the loop that restores the colours after an insertion, the parent being the
  child on side \<open>d\<close> of the grandparent.\<close>

definition add_rotate :: "side \<Rightarrow> rbtree \<Rightarrow> nat \<Rightarrow> (rbtree \<times> nat) option" where
  "add_rotate d s node = do {
     n \<leftarrow> rb_node s node;
     p \<leftarrow> rb_node s (rb_parent n);
     s \<leftarrow> uwsgi_rbt_black s (rb_parent n);
     s \<leftarrow> uwsgi_rbt_red s (rb_parent p);
     s \<leftarrow> rotate_to (other d) s (rb_parent p);
     Some (s, node) }"

definition add_fix :: "side \<Rightarrow> rbtree \<Rightarrow> nat \<Rightarrow> (rbtree \<times> nat) option" where
  "add_fix d s node = do {
     n \<leftarrow> rb_node s node;
     p \<leftarrow> rb_node s (rb_parent n);
     g \<leftarrow> rb_node s (rb_parent p);
     let temp = child (other d) g;
     red \<leftarrow> uwsgi_rbt_is_red s temp;
     (if red then do {
        s \<leftarrow> uwsgi_rbt_black s (rb_parent n);
        s \<leftarrow> uwsgi_rbt_black s temp;
        s \<leftarrow> uwsgi_rbt_red s (rb_parent p);
        Some (s, rb_parent p) }
      else do {
        (s, node) \<leftarrow> (if node = child (other d) p then do {
                        s \<leftarrow> rotate_to d s (rb_parent n);
                        Some (s, rb_parent n) }
                      else Some (s, node));
        add_rotate d s node }) }"

definition add_pass :: "rbtree \<Rightarrow> nat \<Rightarrow> ((rbtree + rbtree \<times> nat)) option" where
  "add_pass s node =
     (if node = rt_root s then Some (Inl s)
      else do {
        n \<leftarrow> rb_node s node;
        p \<leftarrow> rb_node s (rb_parent n);
        (if \<not> rb_red p then Some (Inl s)
         else do {
           g \<leftarrow> rb_node s (rb_parent p);
           map_option Inr (add_fix (if rb_parent n = rb_left g then Lft else Rgt) s node) }) })"

partial_function (option) balance_loop :: "rbtree \<Rightarrow> nat \<Rightarrow> rbtree option" where
  "balance_loop s node =
     (case add_pass s node of
        None \<Rightarrow> None
      | Some r \<Rightarrow> (case r of Inl s' \<Rightarrow> Some s' | Inr sn \<Rightarrow> balance_loop (fst sn) (snd sn)))"

text \<open>The address of the new node comes from the allocator.\<close>

definition uwsgi_add_rb_timer :: "rbtree \<Rightarrow> nat \<Rightarrow> nat \<Rightarrow> nat \<Rightarrow> rbtree option" where
  "uwsgi_add_rb_timer s node value data =
     (let new = \<lparr>rb_value = value, rb_parent = 0, rb_left = 0, rb_right = 0, rb_red = False, rb_data = data\<rparr>;
          sentinel = rt_sentinel s;
          s = s\<lparr>rt_mem := (rt_mem s)(node \<mapsto> new)\<rparr> in
      if rt_root s = sentinel then do {
        s \<leftarrow> rb_upd s node (\<lambda>n. n\<lparr>rb_parent := 0, rb_left := sentinel, rb_right := sentinel\<rparr>);
        s \<leftarrow> uwsgi_rbt_black s node;
        Some (s\<lparr>rt_root := node\<rparr>) }
      else do {
        s \<leftarrow> uwsgi_rbt_add s (rt_root s) node;
        s \<leftarrow> balance_loop s node;
        uwsgi_rbt_black s (rt_root s) })"

text \<open>A pass of the loop that restores the black heights after a deletion, \<open>temp\<close> being the child on
  side \<open>d\<close> of its parent.\<close>

definition both_black :: "rbtree \<Rightarrow> nat \<Rightarrow> nat \<Rightarrow> bool option" where
  "both_black s p q = do {
     r \<leftarrow> uwsgi_rbt_is_red s p;
     (if r then Some False else map_option Not (uwsgi_rbt_is_red s q)) }"

definition sibling :: "side \<Rightarrow> rbtree \<Rightarrow> nat \<Rightarrow> nat option" where
  "sibling d s temp = do {
     t \<leftarrow> rb_node s temp;
     p \<leftarrow> rb_node s (rb_parent t);
     Some (child (other d) p) }"

definition parent_of :: "rbtree \<Rightarrow> nat \<Rightarrow> nat option" where
  "parent_of s temp = map_option rb_parent (rb_node s temp)"

definition del_lift :: "side \<Rightarrow> rbtree \<Rightarrow> nat \<Rightarrow> nat \<Rightarrow> (rbtree \<times> nat) option" where
  "del_lift d s temp w = do {
     red \<leftarrow> uwsgi_rbt_is_red s w;
     (if red then do {
        s \<leftarrow> uwsgi_rbt_black s w;
        p \<leftarrow> parent_of s temp;
        s \<leftarrow> uwsgi_rbt_red s p;
        s \<leftarrow> rotate_to d s p;
        w \<leftarrow> sibling d s temp;
        Some (s, w) }
      else Some (s, w)) }"

definition del_turn :: "side \<Rightarrow> rbtree \<Rightarrow> nat \<Rightarrow> nat \<Rightarrow> (rbtree \<times> nat) option" where
  "del_turn d s temp w = do {
     n \<leftarrow> rb_node s w;
     far \<leftarrow> uwsgi_rbt_is_red s (child (other d) n);
     (if \<not> far then do {
        s \<leftarrow> uwsgi_rbt_black s (child d n);
        s \<leftarrow> uwsgi_rbt_red s w;
        s \<leftarrow> rotate_to (other d) s w;
        w \<leftarrow> sibling d s temp;
        Some (s, w) }
      else Some (s, w)) }"

definition del_rotate :: "side \<Rightarrow> rbtree \<Rightarrow> nat \<Rightarrow> nat \<Rightarrow> (rbtree \<times> nat) option" where
  "del_rotate d s temp w = do {
     p \<leftarrow> parent_of s temp;
     s \<leftarrow> uwsgi_rbt_copy_color s w p;
     s \<leftarrow> uwsgi_rbt_black s p;
     n \<leftarrow> rb_node s w;
     s \<leftarrow> uwsgi_rbt_black s (child (other d) n);
     s \<leftarrow> rotate_to d s p;
     Some (s, rt_root s) }"

definition del_fix :: "side \<Rightarrow> rbtree \<Rightarrow> nat \<Rightarrow> (rbtree \<times> nat) option" where
  "del_fix d s temp = do {
     w \<leftarrow> sibling d s temp;
     (s, w) \<leftarrow> del_lift d s temp w;
     n \<leftarrow> rb_node s w;
     black \<leftarrow> both_black s (rb_left n) (rb_right n);
     (if black then do {
        s \<leftarrow> uwsgi_rbt_red s w;
        p \<leftarrow> parent_of s temp;
        Some (s, p) }
      else do {
        (s, w) \<leftarrow> del_turn d s temp w;
        del_rotate d s temp w }) }"

definition del_pass :: "rbtree \<Rightarrow> nat \<Rightarrow> ((rbtree \<times> nat) + (rbtree \<times> nat)) option" where
  "del_pass s temp =
     (if temp = rt_root s then Some (Inl (s, temp))
      else do {
        t \<leftarrow> rb_node s temp;
        (if rb_red t then Some (Inl (s, temp))
         else do {
           p \<leftarrow> rb_node s (rb_parent t);
           map_option Inr (del_fix (if temp = rb_left p then Lft else Rgt) s temp) }) })"

partial_function (option) fixup_loop :: "rbtree \<Rightarrow> nat \<Rightarrow> (rbtree \<times> nat) option" where
  "fixup_loop s temp =
     (case del_pass s temp of
        None \<Rightarrow> None
      | Some r \<Rightarrow> (case r of Inl st \<Rightarrow> Some st | Inr st \<Rightarrow> fixup_loop (fst st) (snd st)))"

text \<open>The node that leaves its place, and its only child.\<close>

definition del_choose :: "rbtree \<Rightarrow> nat \<Rightarrow> (nat \<times> nat) option" where
  "del_choose s node = do {
     n \<leftarrow> rb_node s node;
     (if rb_left n = rt_sentinel s then Some (node, rb_right n)
      else if rb_right n = rt_sentinel s then Some (node, rb_left n)
      else do {
        subst \<leftarrow> uwsgi_min_rb_timer s (rb_right n);
        m \<leftarrow> rb_node s subst;
        Some (subst, if rb_left m \<noteq> rt_sentinel s then rb_left m else rb_right m) }) }"

text \<open>The place of the deleted node is taken by \<open>subst\<close>.\<close>

definition take_place :: "rbtree \<Rightarrow> nat \<Rightarrow> nat \<Rightarrow> rbtree option" where
  "take_place s node subst = do {
     n \<leftarrow> rb_node s node;
     s \<leftarrow> rb_upd s subst (\<lambda>m. m\<lparr>rb_left := rb_left n, rb_right := rb_right n, rb_parent := rb_parent n\<rparr>);
     s \<leftarrow> uwsgi_rbt_copy_color s subst node;
     s \<leftarrow> relink Lft s node subst;
     m \<leftarrow> rb_node s subst;
     s \<leftarrow> reparent s (rb_left m) subst;
     m \<leftarrow> rb_node s subst;
     reparent s (rb_right m) subst }"

definition cut_out :: "rbtree \<Rightarrow> nat \<Rightarrow> nat \<Rightarrow> nat \<Rightarrow> rbtree option" where
  "cut_out s subst temp par = do {
     m \<leftarrow> rb_node s subst;
     p \<leftarrow> rb_node s (rb_parent m);
     s \<leftarrow> rb_upd s (rb_parent m) (if subst = rb_left p then set_child Lft temp else set_child Rgt temp);
     rb_upd s temp (\<lambda>t. t\<lparr>rb_parent := par\<rparr>) }"

definition uwsgi_del_rb_timer :: "rbtree \<Rightarrow> nat \<Rightarrow> rbtree option" where
  "uwsgi_del_rb_timer s node = do {
     (subst, temp) \<leftarrow> del_choose s node;
     (if subst = rt_root s then uwsgi_rbt_black (s\<lparr>rt_root := temp\<rparr>) temp
      else do {
        m \<leftarrow> rb_node s subst;
        s \<leftarrow> cut_out s subst temp (if subst \<noteq> node \<and> rb_parent m = node then subst else rb_parent m);
        s \<leftarrow> (if subst = node then Some s else take_place s node subst);
        (if rb_red m then Some s
         else do {
           (s, temp) \<leftarrow> fixup_loop s temp;
           uwsgi_rbt_black s temp }) }) }"

section \<open>The tree in the memory\<close>

text \<open>An element is an address with the value and the data of the node.\<close>

type_synonym elem = "nat \<times> nat \<times> nat"

datatype rbt = Lf | Nd bool rbt elem rbt

type_synonym frame = "side \<times> bool \<times> elem \<times> rbt"

fun mk :: "side \<Rightarrow> bool \<Rightarrow> elem \<Rightarrow> rbt \<Rightarrow> rbt \<Rightarrow> rbt" where
  "mk Lft c e t u = Nd c t e u"
| "mk Rgt c e t u = Nd c u e t"

fun inord :: "rbt \<Rightarrow> elem list" where
  "inord Lf = []"
| "inord (Nd c l e r) = inord l @ e # inord r"

fun plug :: "frame list \<Rightarrow> rbt \<Rightarrow> rbt" where
  "plug [] t = t"
| "plug ((d, c, e, u) # fs) t = plug fs (mk d c e t u)"

fun addrs :: "rbt \<Rightarrow> nat list" where
  "addrs Lf = []"
| "addrs (Nd c l e r) = addrs l @ fst e # addrs r"

fun fs_addrs :: "frame list \<Rightarrow> nat list" where
  "fs_addrs [] = []"
| "fs_addrs ((d, c, e, u) # fs) = fst e # addrs u @ fs_addrs fs"

definition holds :: "rb_timer \<Rightarrow> bool \<Rightarrow> elem \<Rightarrow> bool" where
  "holds n c e \<longleftrightarrow> rb_red n = c \<and> rb_value n = fst (snd e) \<and> rb_data n = snd (snd e)"

fun shape :: "(nat \<rightharpoonup> rb_timer) \<Rightarrow> nat \<Rightarrow> nat \<Rightarrow> nat \<Rightarrow> rbt \<Rightarrow> bool" where
  "shape m sn par p Lf \<longleftrightarrow> p = sn"
| "shape m sn par p (Nd c l e r) \<longleftrightarrow>
     p = fst e \<and> p \<noteq> sn \<and>
     (case m p of None \<Rightarrow> False
      | Some n \<Rightarrow> holds n c e \<and> rb_parent n = par \<and> shape m sn p (rb_left n) l \<and> shape m sn p (rb_right n) r)"

fun seg :: "(nat \<rightharpoonup> rb_timer) \<Rightarrow> nat \<Rightarrow> nat \<Rightarrow> nat \<Rightarrow> frame list \<Rightarrow> nat \<Rightarrow> nat \<Rightarrow> bool" where
  "seg m sn rt rp [] p par \<longleftrightarrow> p = rt \<and> par = rp"
| "seg m sn rt rp ((d, c, e, u) # fs) p par \<longleftrightarrow>
     par = fst e \<and> par \<noteq> sn \<and>
     (case m par of None \<Rightarrow> False
      | Some n \<Rightarrow> holds n c e \<and> child d n = p \<and> shape m sn par (child (other d) n) u \<and>
                 seg m sn rt rp fs par (rb_parent n))"

lemma side_simps [simp]:
  "other (other d) = d" "d \<noteq> other d" "other d \<noteq> d"
  "child d (set_child d p n) = p" "child (other d) (set_child d p n) = child (other d) n"
  "child d (set_child (other d) p n) = child d n"
  "rb_parent (set_child d p n) = rb_parent n" "rb_red (set_child d p n) = rb_red n"
  "child d (n\<lparr>rb_parent := q\<rparr>) = child d n" "child d (n\<lparr>rb_red := c\<rparr>) = child d n"
  "set_child d p (set_child d q n) = set_child d p n"
  by (cases d; simp)+

lemma holds_simps [simp]:
  "holds (set_child d p n) c e = holds n c e" "holds (n\<lparr>rb_parent := q\<rparr>) c e = holds n c e"
  "holds (n\<lparr>rb_red := c'\<rparr>) c e \<longleftrightarrow> c' = c \<and> holds n (rb_red n) e"
  by (cases d; auto simp: holds_def)+

lemma holds_red: "holds n c e \<Longrightarrow> rb_red n = c"
  by (simp add: holds_def)

lemma shape_upd [simp]: "x \<notin> set (addrs t) \<Longrightarrow> shape (m(x := v)) sn par p t = shape m sn par p t"
  by (induction t arbitrary: par p) (auto split: option.splits)

lemma seg_upd [simp]: "x \<notin> set (fs_addrs fs) \<Longrightarrow> seg (m(x := v)) sn rt rp fs p par = seg m sn rt rp fs p par"
  by (induction fs arbitrary: p par rule: fs_addrs.induct) (auto split: option.splits)

lemma shape_mk:
  "shape m sn par p (mk d c e t u) \<longleftrightarrow>
     p = fst e \<and> p \<noteq> sn \<and>
     (\<exists>n. m p = Some n \<and> holds n c e \<and> rb_parent n = par \<and> shape m sn p (child d n) t \<and>
          shape m sn p (child (other d) n) u)"
  by (cases d) (auto split: option.splits)

lemma addrs_mk [simp]: "set (addrs (mk d c e t u)) = insert (fst e) (set (addrs t) \<union> set (addrs u))"
  "distinct (addrs (mk d c e t u)) \<longleftrightarrow>
     distinct (addrs t) \<and> distinct (addrs u) \<and> set (addrs t) \<inter> set (addrs u) = {} \<and>
     fst e \<notin> set (addrs t) \<and> fst e \<notin> set (addrs u)"
  by (cases d; auto)+

lemma shape_cong: "(\<And>x. x \<in> set (addrs t) \<Longrightarrow> m x = m' x) \<Longrightarrow> shape m sn par p t = shape m' sn par p t"
  by (induction t arbitrary: par p) (auto split: option.splits)

lemma shape_root: "shape m sn par p t \<Longrightarrow> p = sn \<or> p \<in> set (addrs t)"
  by (cases t) auto

lemma seg_root: "seg m sn rt rp fs p par \<Longrightarrow> fs \<noteq> [] \<Longrightarrow> rt \<in> set (fs_addrs fs)"
proof (induction fs arbitrary: p par)
  case (Cons f fs)
  obtain d c e u where f: "f = (d, c, e, u)" by (metis prod_cases4)
  with Cons show ?case by (cases fs) (auto split: option.splits)
qed simp

text \<open>The node at \<open>p\<close> is the root of the part \<open>t\<close> of the tree, \<open>fs\<close> is the way up from it.\<close>

definition well_placed :: "rbtree \<Rightarrow> nat list \<Rightarrow> bool" where
  "well_placed s as \<longleftrightarrow> distinct as \<and> rt_sentinel s \<notin> set as \<and> 0 \<notin> set as \<and> rt_sentinel s \<noteq> 0 \<and>
     (\<exists>z. rt_mem s (rt_sentinel s) = Some z \<and> \<not> rb_red z)"

definition focus :: "rbtree \<Rightarrow> frame list \<Rightarrow> rbt \<Rightarrow> nat \<Rightarrow> nat \<Rightarrow> bool" where
  "focus s fs t p par \<longleftrightarrow> (\<exists>rp. seg (rt_mem s) (rt_sentinel s) (rt_root s) rp fs p par) \<and>
     shape (rt_mem s) (rt_sentinel s) par p t \<and> well_placed s (addrs t @ fs_addrs fs)"

text \<open>What the steps leave alone: the sentinel and the set of allocated nodes.\<close>

definition keeps :: "rbtree \<Rightarrow> rbtree \<Rightarrow> bool" where
  "keeps s s' \<longleftrightarrow> rt_sentinel s' = rt_sentinel s \<and> rt_mem s' (rt_sentinel s) = rt_mem s (rt_sentinel s) \<and>
     dom (rt_mem s') = dom (rt_mem s)"

lemma keeps_refl [simp]: "keeps s s" by (simp add: keeps_def)

lemma keeps_trans: "keeps s s' \<Longrightarrow> keeps s' s'' \<Longrightarrow> keeps s s''" by (simp add: keeps_def)

lemma rb_upd_simp [simp]: "rt_mem s p = Some n \<Longrightarrow> rb_upd s p f = Some (s\<lparr>rt_mem := (rt_mem s)(p \<mapsto> f n)\<rparr>)"
  by (simp add: rb_upd_def)

lemma timer_seg_cong:
  "(\<And>x. x \<in> set (fs_addrs fs) \<Longrightarrow> m x = m' x) \<Longrightarrow> seg m sn rt rp fs p par = seg m' sn rt rp fs p par"
proof (induction fs arbitrary: p par rule: fs_addrs.induct)
  case (2 d c e u fs)
  then have "shape m sn par q u = shape m' sn par q u" for q by (intro shape_cong) simp
  with 2 show ?case by (auto split: option.splits)
qed simp

lemma reparent:
  assumes "shape (rt_mem s) (rt_sentinel s) a q t" "distinct (addrs t)"
  shows "\<exists>s'. reparent s q b = Some s' \<and> shape (rt_mem s') (rt_sentinel s') b q t \<and> rt_root s' = rt_root s \<and>
    rt_sentinel s' = rt_sentinel s \<and> dom (rt_mem s') = dom (rt_mem s) \<and>
    (\<forall>x. x \<notin> set (addrs t) \<longrightarrow> rt_mem s' x = rt_mem s x)"
proof (cases t)
  case Lf
  then show ?thesis using assms by (simp add: reparent_def)
next
  case (Nd c l e r)
  then obtain n where n: "rt_mem s q = Some n" "q = fst e" "q \<noteq> rt_sentinel s" "holds n c e"
    "shape (rt_mem s) (rt_sentinel s) q (rb_left n) l" "shape (rt_mem s) (rt_sentinel s) q (rb_right n) r"
    using assms(1) by (auto split: option.splits)
  then have "reparent s q b = Some (s\<lparr>rt_mem := (rt_mem s)(q \<mapsto> n\<lparr>rb_parent := b\<rparr>)\<rparr>)" by (simp add: reparent_def)
  then show ?thesis using n Nd assms(2) by auto
qed

lemma relink:
  assumes "seg (rt_mem s) (rt_sentinel s) (rt_root s) rp fs p par" "distinct (fs_addrs fs)"
    and "p \<notin> set (fs_addrs fs)" "p \<noteq> rt_sentinel s" "rt_mem s p = Some n" "rb_parent n = par"
  shows "\<exists>s' rp'. relink d s p q = Some s' \<and> seg (rt_mem s') (rt_sentinel s') (rt_root s') rp' fs q par \<and>
    rt_sentinel s' = rt_sentinel s \<and> dom (rt_mem s') = dom (rt_mem s) \<and>
    (\<forall>x. x \<notin> set (fs_addrs fs) \<longrightarrow> rt_mem s' x = rt_mem s x)"
proof (cases fs)
  case Nil
  then show ?thesis using assms by (auto simp: relink_def)
next
  case (Cons f gs)
  obtain d' c e u where f: "f = (d', c, e, u)" by (metis prod_cases4)
  from assms(1) f Cons obtain m where m: "par = fst e" "par \<noteq> rt_sentinel s" "rt_mem s par = Some m" "holds m c e"
    "child d' m = p" "shape (rt_mem s) (rt_sentinel s) par (child (other d') m) u"
    "seg (rt_mem s) (rt_sentinel s) (rt_root s) rp gs par (rb_parent m)"
    by (auto split: option.splits)
  have "p \<noteq> rt_root s" using seg_root [OF assms(1)] assms(3) Cons by auto
  moreover have "child (other d') m \<noteq> p" using shape_root [OF m(6)] assms(3,4) Cons f by auto
  then have "(if p = child d m then set_child d q m else set_child (other d) q m) = set_child d' q m"
    using m(5) by (cases d; cases d') auto
  moreover have "par \<notin> set (addrs u)" "par \<notin> set (fs_addrs gs)" using assms(2) m(1) Cons f by auto
  ultimately show ?thesis
    using assms(3,5,6) m Cons f by (auto simp: relink_def rb_node_def if_distrib dom_def)
qed

lemma rotate:
  assumes "focus s fs (mk d c e x (mk d c' e' y z)) p par"
  shows "\<exists>s'. rotate d s p = Some s' \<and> focus s' fs (mk d c' e' (mk d c e x y) z) (fst e') par \<and> keeps s s'"
proof -
  let ?m = "rt_mem s" and ?sn = "rt_sentinel s"
  from assms obtain n t rp where
    sg: "seg ?m ?sn (rt_root s) rp fs p par" and
    n: "p = fst e" "p \<noteq> ?sn" "?m p = Some n" "holds n c e" "rb_parent n = par" "shape ?m ?sn p (child d n) x" and
    t: "child (other d) n = fst e'" "fst e' \<noteq> ?sn" "?m (fst e') = Some t" "holds t c' e'" "rb_parent t = p"
      "shape ?m ?sn (fst e') (child d t) y" "shape ?m ?sn (fst e') (child (other d) t) z" and
    wp: "well_placed s (addrs (mk d c e x (mk d c' e' y z)) @ fs_addrs fs)"
    by (auto simp: focus_def shape_mk)
  have dist: "fst e \<noteq> fst e'" "fst e \<notin> set (addrs x)" "fst e \<notin> set (addrs y)" "fst e \<notin> set (addrs z)"
    "fst e' \<notin> set (addrs x)" "fst e' \<notin> set (addrs y)" "fst e' \<notin> set (addrs z)"
    "fst e \<notin> set (fs_addrs fs)" "fst e' \<notin> set (fs_addrs fs)" "distinct (fs_addrs fs)"
    "set (addrs x) \<inter> set (addrs y) = {}" "set (addrs y) \<inter> set (addrs z) = {}" "set (addrs x) \<inter> set (addrs z) = {}"
    "set (addrs x) \<inter> set (fs_addrs fs) = {}" "set (addrs y) \<inter> set (fs_addrs fs) = {}" "set (addrs z) \<inter> set (fs_addrs fs) = {}"
    "?sn \<notin> set (fs_addrs fs)"
    using wp by (auto simp: well_placed_def)
  let ?s1 = "s\<lparr>rt_mem := ?m(p \<mapsto> set_child (other d) (child d t) n)\<rparr>"
  have "shape (rt_mem ?s1) (rt_sentinel ?s1) (fst e') (child d t) y" "distinct (addrs y)"
    using t(6) dist n(1) wp by (auto simp: well_placed_def)
  from reparent [OF this, of p] obtain s2 where
    s2: "reparent ?s1 (child d t) p = Some s2" "shape (rt_mem s2) (rt_sentinel s2) p (child d t) y"
      "rt_root s2 = rt_root s" "rt_sentinel s2 = ?sn" "dom (rt_mem s2) = dom (rt_mem ?s1)"
      "\<And>a. a \<notin> set (addrs y) \<Longrightarrow> rt_mem s2 a = rt_mem ?s1 a" by auto
  have v2: "rt_mem s2 p = Some (set_child (other d) (child d t) n)" "rt_mem s2 (fst e') = Some t"
    using s2(6) dist n(1) t(3) by auto
  let ?s3 = "s2\<lparr>rt_mem := (rt_mem s2)(fst e' \<mapsto> t\<lparr>rb_parent := par\<rparr>)\<rparr>"
  have "seg (rt_mem ?s3) (rt_sentinel ?s3) (rt_root ?s3) rp fs p par = seg ?m ?sn (rt_root s) rp fs p par"
    using dist n(1) s2(3,4) by (simp, intro timer_seg_cong, subst s2(6)) auto
  then have "seg (rt_mem ?s3) (rt_sentinel ?s3) (rt_root ?s3) rp fs p par" using sg by simp
  from relink [OF this dist(10), of "set_child (other d) (child d t) n" d "fst e'"] obtain s4 rp' where
    s4: "relink d ?s3 p (fst e') = Some s4" "seg (rt_mem s4) (rt_sentinel s4) (rt_root s4) rp' fs (fst e') par"
      "rt_sentinel s4 = ?sn" "dom (rt_mem s4) = dom (rt_mem ?s3)"
      "\<And>a. a \<notin> set (fs_addrs fs) \<Longrightarrow> rt_mem s4 a = rt_mem ?s3 a"
    using dist n v2 s2(3,4) by auto
  have v4: "rt_mem s4 p = Some (set_child (other d) (child d t) n)" "rt_mem s4 (fst e') = Some (t\<lparr>rb_parent := par\<rparr>)"
    using s4(5) dist n(1) v2 by auto
  let ?s6 = "s4\<lparr>rt_mem := (rt_mem s4)(fst e' \<mapsto> set_child d p (t\<lparr>rb_parent := par\<rparr>),
                  p \<mapsto> set_child (other d) (child d t) n\<lparr>rb_parent := fst e'\<rparr>)\<rparr>"
  have run: "rotate d s p = Some ?s6"
    unfolding rotate_def using n t dist s2(1,4) v2 s4(1) v4 by (simp add: rb_node_def Let_def)
  have same: "rt_mem ?s6 a = ?m a" if "a \<noteq> p" "a \<noteq> fst e'" "a \<notin> set (addrs y)" "a \<notin> set (fs_addrs fs)" for a
    using that s4(5) s2(6) by simp
  have "shape (rt_mem ?s6) ?sn p (child d n) x" "shape (rt_mem ?s6) ?sn (fst e') (child (other d) t) z"
    using n(6) t(7) dist n(1) same by (subst shape_cong [of _ _ ?m]; fastforce)+
  moreover have "shape (rt_mem ?s6) ?sn p (child d t) y"
  proof (subst shape_cong [of _ _ "rt_mem s2"])
    fix a assume "a \<in> set (addrs y)"
    moreover from this have "a \<notin> set (fs_addrs fs)" using dist by blast
    ultimately show "rt_mem ?s6 a = rt_mem s2 a" using dist n(1) s4(5) [of a] by auto
  qed (use s2(2,4) in simp)
  moreover have "seg (rt_mem ?s6) ?sn (rt_root ?s6) rp' fs (fst e') par"
    using s4(2,3) dist n(1) by simp
  moreover have "dom (rt_mem ?s6) = dom ?m" using s4(4) s2(5) n(3) t(3) by auto
  moreover have "rt_mem ?s6 ?sn = ?m ?sn"
    using wp n(2) t(2) by (intro same) (auto simp: well_placed_def)
  ultimately show ?thesis
    using run s4(3) n t dist wp by (auto simp: focus_def shape_mk keeps_def well_placed_def)
qed

text \<open>The memory holds the tree \<open>t\<close>.\<close>

definition rep :: "rbtree \<Rightarrow> rbt \<Rightarrow> bool" where
  "rep s t \<longleftrightarrow> (\<exists>p par. focus s [] t p par)"

definition adr :: "rbtree \<Rightarrow> rbt \<Rightarrow> nat" where
  "adr s t = (case t of Lf \<Rightarrow> rt_sentinel s | Nd c l e r \<Rightarrow> fst e)"

lemma adr_simps [simp]: "adr s Lf = rt_sentinel s" "adr s (mk d c e t u) = fst e" "adr s (Nd c t e u) = fst e"
  by (cases d; simp add: adr_def)+

lemma shape_adr: "shape m (rt_sentinel s) par p t \<Longrightarrow> p = adr s t"
  by (cases t) auto

lemma focus_Cons: "(\<exists>p par. focus s ((d, c, e, u) # fs) t p par) \<longleftrightarrow> (\<exists>p par. focus s fs (mk d c e t u) p par)"
proof -
  have "well_placed s (addrs t @ fs_addrs ((d, c, e, u) # fs)) = well_placed s (addrs (mk d c e t u) @ fs_addrs fs)"
    by (auto simp: well_placed_def)
  then show ?thesis
    by (auto simp: focus_def shape_mk split: option.splits)
qed

lemma rep_focus: "rep s (plug fs t) \<longleftrightarrow> (\<exists>p par. focus s fs t p par)"
proof (induction fs arbitrary: t)
  case (Cons f fs)
  obtain d c e u where "f = (d, c, e, u)" by (metis prod_cases4)
  then show ?case using Cons focus_Cons by simp
qed (simp add: rep_def)

lemma mk_other: "mk (other d) c e t u = mk d c e u t"
  by (cases d) simp_all

lemma rep_node:
  assumes "rep s (plug fs (mk d c e t u))"
  obtains n where "rb_node s (fst e) = Some n" "rt_mem s (fst e) = Some n" "holds n c e"
    "child d n = adr s t" "child (other d) n = adr s u" "fst e \<noteq> rt_sentinel s" "fst e \<noteq> 0"
    "fs \<noteq> [] \<Longrightarrow> rb_parent n = fst (fst (snd (snd (hd fs))))" "fs \<noteq> [] \<Longrightarrow> fst e \<noteq> rt_root s" "fs = [] \<Longrightarrow> fst e = rt_root s"
proof -
  from assms obtain p par where f: "focus s fs (mk d c e t u) p par" by (auto simp: rep_focus)
  then obtain n rp where n: "p = fst e" "p \<noteq> rt_sentinel s" "rt_mem s p = Some n" "holds n c e" "rb_parent n = par"
     "child d n = adr s t" "child (other d) n = adr s u" and wp: "well_placed s (addrs (mk d c e t u) @ fs_addrs fs)"
     and sg: "seg (rt_mem s) (rt_sentinel s) (rt_root s) rp fs p par"
    by (auto simp: focus_def shape_mk dest: shape_adr)
  have "fs \<noteq> [] \<Longrightarrow> par = fst (fst (snd (snd (hd fs))))" using sg by (cases fs) (auto split: option.splits)
  moreover have "fs \<noteq> [] \<Longrightarrow> p \<noteq> rt_root s" using seg_root [OF sg] wp n(1) by (auto simp: well_placed_def)
  moreover have "fs = [] \<Longrightarrow> p = rt_root s" using sg by simp
  ultimately show thesis using n wp by (intro that [of n]) (auto simp: rb_node_def well_placed_def)
qed

lemma rep_sentinel:
  assumes "rep s t"
  obtains z where "rb_node s (rt_sentinel s) = Some z" "rt_mem s (rt_sentinel s) = Some z" "\<not> rb_red z"
  using assms by (auto simp: rep_def focus_def well_placed_def rb_node_def)

lemma rep_root: "rep s t \<Longrightarrow> rt_root s = adr s t"
  by (auto simp: rep_def focus_def dest: shape_adr)

lemma rep_rotate:
  assumes "rep s (plug fs (mk d c e x (mk d c' e' y z)))"
  shows "\<exists>s'. rotate d s (fst e) = Some s' \<and> rep s' (plug fs (mk d c' e' (mk d c e x y) z)) \<and> keeps s s'"
proof -
  from assms obtain p par where f: "focus s fs (mk d c e x (mk d c' e' y z)) p par" by (auto simp: rep_focus)
  then have "p = fst e" by (auto simp: focus_def shape_mk)
  with rotate [OF f] show ?thesis by (auto simp: rep_focus)
qed

lemma rep_paint:
  assumes "rep s (plug fs (mk d c e t u))"
  shows "\<exists>s'. rb_upd s (fst e) (\<lambda>n. n\<lparr>rb_red := c'\<rparr>) = Some s' \<and> rep s' (plug fs (mk d c' e t u)) \<and> keeps s s'"
proof -
  from assms obtain p par where f: "focus s fs (mk d c e t u) p par" by (auto simp: rep_focus)
  then obtain n rp where n: "p = fst e" "p \<noteq> rt_sentinel s" "rt_mem s p = Some n" "holds n c e" "rb_parent n = par"
     "shape (rt_mem s) (rt_sentinel s) p (child d n) t" "shape (rt_mem s) (rt_sentinel s) p (child (other d) n) u"
     and wp: "well_placed s (addrs (mk d c e t u) @ fs_addrs fs)"
     and sg: "seg (rt_mem s) (rt_sentinel s) (rt_root s) rp fs p par"
    by (auto simp: focus_def shape_mk)
  have "fst e \<notin> set (addrs t)" "fst e \<notin> set (addrs u)" "fst e \<notin> set (fs_addrs fs)" using wp by (auto simp: well_placed_def)
  then have "focus (s\<lparr>rt_mem := (rt_mem s)(p \<mapsto> n\<lparr>rb_red := c'\<rparr>)\<rparr>) fs (mk d c' e t u) p par"
    using n sg wp by (auto simp: focus_def shape_mk well_placed_def holds_red)
  then show ?thesis using n by (auto simp: rep_focus keeps_def)
qed

lemma rep_placed: "rep s (plug fs t) \<Longrightarrow> well_placed s (addrs t @ fs_addrs fs)"
  by (auto simp: rep_focus focus_def)

lemma rep_adr_neq:
  assumes "rep s (plug fs (mk d c e t u))" "t \<noteq> Lf \<or> u \<noteq> Lf"
  shows "adr s t \<noteq> adr s u"
proof -
  have "rt_sentinel s \<notin> set (addrs t) \<union> set (addrs u)" "set (addrs t) \<inter> set (addrs u) = {}"
    using rep_placed [OF assms(1)] by (auto simp: well_placed_def)
  with assms(2) show ?thesis by (cases t; cases u) auto
qed

lemma adr_keeps [simp]: "keeps s s' \<Longrightarrow> adr s' t = adr s t"
  by (simp add: adr_def keeps_def split: rbt.splits)

section \<open>Colours and heights\<close>

fun red :: "rbt \<Rightarrow> bool" where
  "red Lf = False"
| "red (Nd c l e r) = c"

fun bh :: "rbt \<Rightarrow> nat" where
  "bh Lf = 0"
| "bh (Nd c l e r) = (if c then bh l else Suc (bh l))"

fun inv :: "rbt \<Rightarrow> bool" where
  "inv Lf = True"
| "inv (Nd c l e r) \<longleftrightarrow> inv l \<and> inv r \<and> bh l = bh r \<and> (c \<longrightarrow> \<not> red l \<and> \<not> red r)"

definition top_red :: "frame list \<Rightarrow> bool" where
  "top_red fs = (case fs of [] \<Rightarrow> False | (d, c, e, u) # _ \<Rightarrow> c)"

text \<open>A way up that makes a red-black tree of a part of black height \<open>h\<close>.\<close>

fun cinv :: "frame list \<Rightarrow> nat \<Rightarrow> bool" where
  "cinv [] h = True"
| "cinv ((d, c, e, u) # fs) h \<longleftrightarrow>
     inv u \<and> bh u = h \<and> (c \<longrightarrow> \<not> red u \<and> fs \<noteq> [] \<and> \<not> top_red fs) \<and> cinv fs (if c then h else Suc h)"

lemma red_mk [simp]: "red (mk d c e t u) = c" by (cases d) simp_all

lemma top_red_simps [simp]: "\<not> top_red []" "top_red ((d, c, e, u) # fs) = c"
  by (simp_all add: top_red_def)

lemma inv_mk: "inv (mk d c e t u) \<longleftrightarrow> inv t \<and> inv u \<and> bh t = bh u \<and> (c \<longrightarrow> \<not> red t \<and> \<not> red u)"
  by (cases d) auto

lemma bh_mk: "bh t = bh u \<Longrightarrow> bh (mk d c e t u) = (if c then bh t else Suc (bh t))"
  by (cases d) auto

lemma inv_plug:
  "inv (plug fs t) \<and> \<not> red (plug fs t) \<longleftrightarrow>
     inv t \<and> cinv fs (bh t) \<and> (top_red fs \<longrightarrow> \<not> red t) \<and> (fs = [] \<longrightarrow> \<not> red t)"
proof (induction fs arbitrary: t)
  case (Cons f fs)
  obtain d c e u where "f = (d, c, e, u)" by (metis prod_cases4)
  then show ?case using Cons by (cases "bh t = bh u") (auto simp: inv_mk bh_mk)
qed simp

lemma mk_cases: "t \<noteq> Lf \<Longrightarrow> \<exists>c e l r. t = mk d c e l r"
  by (cases t; cases d) (auto intro: exI [of _ "_ :: rbt"])

lemma inord_mk: "inord (mk d c e t u) = (case d of Lft \<Rightarrow> inord t @ e # inord u | Rgt \<Rightarrow> inord u @ e # inord t)"
  by (cases d) auto

lemma inord_plug: "inord t = inord t' \<Longrightarrow> inord (plug fs t) = inord (plug fs t')"
  by (induction fs t arbitrary: t' rule: plug.induct) (auto simp: inord_mk split: side.splits)

lemma mk_eq [simp]: "mk d c e t u = mk d c' e' t' u' \<longleftrightarrow> c = c' \<and> e = e' \<and> t = t' \<and> u = u'"
  by (cases d) auto

lemma mk_neq [simp]: "mk d c e t u \<noteq> Lf"
  by (cases d) simp_all

lemma plug_neq: "t \<noteq> Lf \<Longrightarrow> plug fs t \<noteq> Lf"
  by (induction fs t rule: plug.induct) auto

section \<open>The loop after an insertion\<close>

lemma rotate_to: "rotate_to d = rotate d"
  by (cases d) (auto simp: rotate_to_def uwsgi_rbtree_lr_def uwsgi_rbtree_rr_def fun_eq_iff)

lemma add_rotate:
  assumes "rep s (plug fs (mk d False g (mk d True p t w) u))" "t \<noteq> Lf"
  shows "\<exists>s'. add_rotate d s (adr s t) = Some (s', adr s t) \<and> keeps s s' \<and>
    rep s' (plug fs (mk d False p t (mk d True g w u)))"
proof -
  obtain c e l r where t: "t = mk d c e l r" using mk_cases [OF assms(2)] by blast
  obtain n where n: "rb_node s (fst e) = Some n" "rb_parent n = fst p"
    using rep_node [of s "(d, True, p, w) # (d, False, g, u) # fs" d c e l r] assms(1) t by auto
  obtain m where m: "rb_node s (fst p) = Some m" "rb_parent m = fst g"
    using rep_node [of s "(d, False, g, u) # fs" d True p t w] assms(1) by auto
  from rep_paint [of s "(d, False, g, u) # fs" d True p t w False] assms(1) obtain s1 where
    s1: "uwsgi_rbt_black s (fst p) = Some s1" "rep s1 (plug fs (mk d False g (mk d False p t w) u))" "keeps s s1"
    by (auto simp: uwsgi_rbt_black_def)
  from rep_paint [of s1 fs d False g "mk d False p t w" u True] s1(2) obtain s2 where
    s2: "uwsgi_rbt_red s1 (fst g) = Some s2" "rep s2 (plug fs (mk d True g (mk d False p t w) u))" "keeps s1 s2"
    by (auto simp: uwsgi_rbt_red_def)
  have "rep s2 (plug fs (mk (other d) True g u (mk (other d) False p w t)))" using s2(2) by (simp add: mk_other)
  from rep_rotate [OF this] obtain s3 where
    s3: "rotate (other d) s2 (fst g) = Some s3" "keeps s2 s3"
      "rep s3 (plug fs (mk d False p t (mk d True g w u)))" by (auto simp: mk_other)
  have "add_rotate d s (adr s t) = Some (s3, adr s t)"
    using n m s1(1) s2(1) s3(1) t by (simp add: add_rotate_def rotate_to)
  then show ?thesis using s3(3) keeps_trans [OF keeps_trans [OF s1(3) s2(3)] s3(2)] by blast
qed

fun blacken :: "rbt \<Rightarrow> rbt" where
  "blacken Lf = Lf"
| "blacken (Nd c l e r) = Nd False l e r"

lemma blacken_simps [simp]:
  "blacken (mk d c e t u) = mk d False e t u" "inord (blacken t) = inord t" "\<not> red (blacken t)" "adr s (blacken t) = adr s t"
  "inv t \<Longrightarrow> inv (blacken t)"
  by (cases d; cases t; auto)+

lemma rep_black: "rep s (plug fs t) \<Longrightarrow> t \<noteq> Lf \<Longrightarrow>
  \<exists>s'. uwsgi_rbt_black s (adr s t) = Some s' \<and> rep s' (plug fs (blacken t)) \<and> keeps s s'"
  using mk_cases [of t Lft] rep_paint [of s fs Lft] by (auto simp: uwsgi_rbt_black_def)

lemma rep_red: "rep s (plug fs (mk d c e t u)) \<Longrightarrow>
  \<exists>s'. uwsgi_rbt_red s (fst e) = Some s' \<and> rep s' (plug fs (mk d True e t u)) \<and> keeps s s'"
  using rep_paint [of s fs d] by (auto simp: uwsgi_rbt_red_def)

lemma rep_is_red: "rep s (plug fs t) \<Longrightarrow> uwsgi_rbt_is_red s (adr s t) = Some (red t)"
proof (cases "t = Lf")
  case True
  assume "rep s (plug fs t)"
  with True show ?thesis by (auto simp: uwsgi_rbt_is_red_def elim: rep_sentinel)
next
  case False
  assume r: "rep s (plug fs t)"
  obtain c e l r where "t = mk Lft c e l r" using mk_cases [OF False] by blast
  then show ?thesis using r by (auto simp: uwsgi_rbt_is_red_def holds_red intro: rep_node [of s fs Lft c e l r])
qed

lemma add_fix:
  assumes r: "rep s (plug fs (mk d False g (mk d0 True p t w) u))" and t: "t \<noteq> Lf" "red t"
  shows "\<exists>s' fs' t'. add_fix d s (adr s t) = Some (s', adr s' t') \<and> keeps s s' \<and> rep s' (plug fs' t') \<and>
    red t' \<and> length fs' \<le> length fs + 1 \<and>
    (if red u then fs' = fs \<and> t' = mk d True g (mk d0 False p t w) (blacken u)
     else \<exists>q v. fs' = (d, False, q, v) # fs \<and>
       (d = d0 \<longrightarrow> t' = t \<and> q = p \<and> v = mk d True g w u) \<and>
       (d \<noteq> d0 \<longrightarrow> (\<exists>l r. t = mk d True q l r \<and> t' = mk d True p w l \<and> v = mk d True g r u)))"
proof -
  obtain c e l r where te: "t = mk d0 c e l r" using mk_cases [OF t(1)] by blast
  obtain n where n: "rb_node s (adr s t) = Some n" "rb_parent n = fst p"
    by (rule rep_node [of s "(d0, True, p, w) # (d, False, g, u) # fs" d0 c e l r]) (use r te in auto)
  obtain m where m: "rb_node s (fst p) = Some m" "rb_parent m = fst g" "child (other d0) m = adr s w" "child d0 m = adr s t"
    by (rule rep_node [of s "(d, False, g, u) # fs" d0 True p t w]) (use r in auto)
  obtain k where k: "rb_node s (fst g) = Some k" "child (other d) k = adr s u" 
    by (rule rep_node [of s fs d False g "mk d0 True p t w" u]) (use r in auto)
  have "rep s (plug ((other d, False, g, mk d0 True p t w) # fs) u)" using r by (simp add: mk_other)
  note u = this rep_is_red [OF this]
  show ?thesis
  proof (cases "red u")
    case True
    then have "u \<noteq> Lf" by auto
    obtain s1 where s1: "uwsgi_rbt_black s (fst p) = Some s1" "rep s1 (plug fs (mk d False g (mk d0 False p t w) u))" "keeps s s1"
      using rep_black [of s "(d, False, g, u) # fs" "mk d0 True p t w"] r by (cases d0) auto
    have "rep s1 (plug ((other d, False, g, mk d0 False p t w) # fs) u)" using s1(2) by (simp add: mk_other)
    from rep_black [OF this \<open>u \<noteq> Lf\<close>] obtain s2 where
      s2: "uwsgi_rbt_black s1 (adr s1 u) = Some s2" "rep s2 (plug fs (mk d False g (mk d0 False p t w) (blacken u)))" "keeps s1 s2"
      by (auto simp: mk_other)
    from rep_red [OF s2(2)] obtain s3 where
      s3: "uwsgi_rbt_red s2 (fst g) = Some s3" "rep s3 (plug fs (mk d True g (mk d0 False p t w) (blacken u)))" "keeps s2 s3" by blast
    have "add_fix d s (adr s t) = Some (s3, fst g)"
      using n m k u(2) True s1 s2 s3 by (simp add: add_fix_def)
    then show ?thesis using True s3(2) keeps_trans [OF keeps_trans [OF s1(3) s2(3)] s3(3)]
      by (intro exI [of _ s3] exI [of _ fs] exI [of _ "mk d True g (mk d0 False p t w) (blacken u)"]) simp
  next
    case False
    show ?thesis
    proof (cases "d = d0")
      case True
      then have "child (other d) m \<noteq> adr s t"
        using rep_adr_neq [of s "(d, False, g, u) # fs" d0 True p t w] r t(1) m(3) by auto
      with add_rotate [of s fs d g p t w u] r True t(1) obtain s' where
        "add_fix d s (adr s t) = Some (s', adr s t)" "keeps s s'" "rep s' (plug fs (mk d False p t (mk d True g w u)))"
        using n m k u(2) False by (auto simp: add_fix_def)
      then show ?thesis using False True t(2)
        by (intro exI [of _ s'] exI [of _ "(d, False, p, mk d True g w u) # fs"] exI [of _ t]) auto
    next
      case d: False
      then have d0: "d0 = other d" by (cases d; cases d0) auto
      have "t = mk d c e r l" using te d0 by (simp add: mk_other)
      then have "rep s (plug ((d, False, g, u) # fs) (mk d True p w (mk d True e r l)))"
        using r d0 t(2) by (simp add: mk_other)
      from rep_rotate [OF this] obtain s1 where
        s1: "rotate d s (fst p) = Some s1" "rep s1 (plug fs (mk d False g (mk d True e (mk d True p w r) l) u))" "keeps s s1"
        by auto
      from add_rotate [OF s1(2)] obtain s2 where s2: "add_rotate d s1 (fst p) = Some (s2, fst p)" "keeps s1 s2"
        "rep s2 (plug fs (mk d False e (mk d True p w r) (mk d True g l u)))" by (cases d) auto
      have "add_fix d s (adr s t) = Some (s2, fst p)"
        using n m k u(2) False d0 s1(1) s2(1) by (simp add: add_fix_def rotate_to)
      then show ?thesis using False d te t(2) s2(3) d0 keeps_trans [OF s1(3) s2(2)]
        by (intro exI [of _ s2] exI [of _ "(d, False, e, mk d True g l u) # fs"] exI [of _ "mk d True p w r"])
          (cases e, auto simp: mk_other)
    qed
  qed
qed

lemma bh_blacken: "bh (blacken t) = (if red t then Suc (bh t) else bh t)"
  by (cases t) auto

lemma side_of_child:
  assumes "rep s (plug fs (mk d c e t u))" "t \<noteq> Lf \<or> u \<noteq> Lf" "rb_node s (fst e) = Some n"
  shows "(if adr s t = rb_left n then Lft else Rgt) = d"
proof -
  have "child d n = adr s t" "child (other d) n = adr s u"
    using assms(1,3) by (auto elim!: rep_node)
  then show ?thesis using rep_adr_neq [OF assms(1,2)] by (cases d) auto
qed

lemma balance_loop:
  assumes "rep s (plug fs t)" "red t" "inv t" "cinv fs (bh t)"
  shows "\<exists>s' t'. balance_loop s (adr s t) = Some s' \<and> keeps s s' \<and> rep s' t' \<and> t' \<noteq> Lf \<and> inv t' \<and>
    inord t' = inord (plug fs t)"
  using assms
proof (induction "length fs" arbitrary: s fs t rule: less_induct)
  case less
  from less.prems(2) have ne: "t \<noteq> Lf" by auto
  have ret: ?case if "add_pass s (adr s t) = Some (Inl s)" "inv (plug fs t)" "plug fs t \<noteq> Lf"
    using that less.prems(1) by (subst balance_loop.simps) auto
  show ?case
  proof (cases fs)
    case Nil
    then show ?thesis using ret less.prems ne rep_root [of s t] by (simp add: add_pass_def)
  next
    case (Cons f gs)
    obtain d0 c p w where f: "f = (d0, c, p, w)" by (metis prod_cases4)
    obtain k e l r where te: "t = mk d0 k e l r" using mk_cases [OF ne] by blast
    obtain n where n: "rb_node s (adr s t) = Some n" "rb_parent n = fst p" "adr s t \<noteq> rt_root s"
      by (rule rep_node [of s fs d0 k e l r]) (use less.prems te Cons f in auto)
    obtain m where m: "rb_node s (fst p) = Some m" "rb_red m = c" "gs \<noteq> [] \<Longrightarrow> rb_parent m = fst (fst (snd (snd (hd gs))))"
      by (rule rep_node [of s gs d0 c p t w]) (use less.prems Cons f in \<open>auto simp: holds_red\<close>)
    show ?thesis
    proof (cases c)
      case False
      have "inv (plug fs t) \<and> \<not> red (plug fs t)"
        unfolding inv_plug using less.prems Cons f False by simp
      moreover have "plug fs t \<noteq> Lf" using ne by (rule plug_neq)
      ultimately show ?thesis using ret n m False by (simp add: add_pass_def)
    next
      case True
      then obtain d g u hs where g: "gs = (d, False, g, u) # hs"
        using less.prems(4) Cons f by (cases gs) auto
      have r: "rep s (plug hs (mk d False g (mk d0 True p t w) u))" using less.prems(1) Cons f g True by simp
      obtain q where q: "rb_node s (fst g) = Some q" by (rule rep_node [OF r])
      have "add_pass s (adr s t) = map_option Inr (add_fix d s (adr s t))"
        using n m True q g side_of_child [OF r _ q] by (simp add: add_pass_def) 
      moreover from add_fix [OF r ne less.prems(2)] obtain s1 fs1 t1 where
        s1: "add_fix d s (adr s t) = Some (s1, adr s1 t1)" "keeps s s1" "rep s1 (plug fs1 t1)" "red t1" "length fs1 \<le> length hs + 1"
          "if red u then fs1 = hs \<and> t1 = mk d True g (mk d0 False p t w) (blacken u)
           else \<exists>q v. fs1 = (d, False, q, v) # hs \<and> (d = d0 \<longrightarrow> t1 = t \<and> q = p \<and> v = mk d True g w u) \<and>
             (d \<noteq> d0 \<longrightarrow> (\<exists>l r. t = mk d True q l r \<and> t1 = mk d True p w l \<and> v = mk d True g r u))" by blast
      moreover have inv1: "inv t1" "cinv fs1 (bh t1)"
        using less.prems s1(6) Cons f g True
        by (cases "red u"; cases "d = d0"; auto simp: inv_mk bh_mk bh_blacken)+
      moreover have "inord (plug fs1 t1) = inord (plug hs (mk d False g (mk d0 True p t w) u))"
      proof (cases "red u")
        case True
        then show ?thesis using s1(6) by (auto intro!: inord_plug simp: inord_mk split: side.splits)
      next
        case False
        then obtain q v where fs1: "fs1 = (d, False, q, v) # hs"
          "d = d0 \<Longrightarrow> t1 = t \<and> q = p \<and> v = mk d True g w u"
          "d \<noteq> d0 \<Longrightarrow> \<exists>l r. t = mk d True q l r \<and> t1 = mk d True p w l \<and> v = mk d True g r u"
          using s1(6) by auto
        have "d0 = d \<or> d0 = other d" by (cases d; cases d0) auto
        then have "inord (mk d False q t1 v) = inord (mk d False g (mk d0 True p t w) u)"
          using fs1(2,3) by (cases d) (auto simp: inord_mk)
        from inord_plug [OF this] fs1(1)
        show ?thesis by simp
      qed
      moreover have "length fs1 < length fs" using s1(5) Cons g by simp
      moreover from calculation less.hyps [of fs1 s1 t1] obtain s2 t2 where
        "balance_loop s1 (adr s1 t1) = Some s2" "keeps s1 s2" "rep s2 t2" "t2 \<noteq> Lf" "inv t2" "inord t2 = inord (plug fs1 t1)"
        by blast
      ultimately show ?thesis
        using Cons f g True keeps_trans [of s s1 s2] by (subst balance_loop.simps) auto
    qed
  qed
qed

section \<open>Insertion\<close>

abbreviation val :: "elem \<Rightarrow> nat" where
  "val e \<equiv> fst (snd e)"

text \<open>The specification: a list sorted by value, the new one behind those of the same value.\<close>

definition insert_timer :: "elem \<Rightarrow> elem list \<Rightarrow> elem list" where
  "insert_timer x es = takeWhile (\<lambda>e. val e \<le> val x) es @ x # dropWhile (\<lambda>e. val e \<le> val x) es"

definition timers :: "rbtree \<Rightarrow> elem list \<Rightarrow> bool" where
  "timers s es \<longleftrightarrow> (\<exists>t. rep s t \<and> inv t \<and> \<not> red t \<and> inord t = es \<and> sorted (map val es))"

fun place :: "nat \<Rightarrow> frame list \<Rightarrow> rbt \<Rightarrow> frame list" where
  "place v fs Lf = fs"
| "place v fs (Nd c l e r) = (if v < val e then place v ((Lft, c, e, r) # fs) l else place v ((Rgt, c, e, l) # fs) r)"

fun ins :: "nat \<Rightarrow> rbt \<Rightarrow> rbt \<Rightarrow> rbt" where
  "ins v x Lf = x"
| "ins v x (Nd c l e r) = (if v < val e then Nd c (ins v x l) e r else Nd c l e (ins v x r))"

lemma plug_place: "plug (place v fs t) x = plug fs (ins v x t)"
  by (induction v fs t rule: place.induct) auto

lemma ins_Lf: "ins v Lf t = t"
  by (induction t) auto

lemma place_neq: "t \<noteq> Lf \<or> fs \<noteq> [] \<Longrightarrow> place v fs t \<noteq> []"
  by (induction v fs t rule: place.induct) auto

lemma inord_ins:
  "sorted (map val (inord t)) \<Longrightarrow> inord (ins (val x) (Nd c Lf x Lf) t) = insert_timer x (inord t)"
proof (induction t)
  case (Nd k l e r)
  show ?case
  proof (cases "val x < val e")
    case True
    then show ?thesis using Nd by (simp add: insert_timer_def sorted_append takeWhile_tail dropWhile_append3)
  next
    case False
    then have "\<forall>y\<in>set (inord l). val y \<le> val x" using Nd.prems by (force simp: sorted_append)
    then show ?thesis using Nd False
      by (simp add: insert_timer_def sorted_append)
  qed
qed (simp add: insert_timer_def)

lemma sorted_insert_timer: "sorted (map val es) \<Longrightarrow> sorted (map val (insert_timer x es))"
proof -
  let ?P = "\<lambda>e. val e \<le> val x"
  assume s: "sorted (map val es)"
  have "val x \<le> val y" if "y \<in> set (dropWhile ?P es)" for y
  proof (cases "dropWhile ?P es")
    case (Cons z zs)
    then have "\<not> ?P z" by (simp add: dropWhile_eq_Cons_conv)
    moreover have "sorted (map val (z # zs))"
      using s Cons by (metis map_append sorted_append takeWhile_dropWhile_id)
    ultimately show ?thesis using that Cons by auto
  qed (use that in \<open>simp only: empty_iff list.set\<close>)
  moreover have "sorted (map val (takeWhile ?P es))" "sorted (map val (dropWhile ?P es))"
    using s by (metis map_append sorted_append takeWhile_dropWhile_id)+
  ultimately show ?thesis
    by (auto simp: insert_timer_def sorted_append dest!: set_takeWhileD intro: order_trans)
qed

lemma shape_dom: "shape m sn par p t \<Longrightarrow> x \<in> set (addrs t) \<Longrightarrow> \<exists>n. m x = Some n"
  by (induction t arbitrary: par p) (auto split: option.splits)

lemma rep_dom: "rep s t \<Longrightarrow> x \<in> set (addrs t) \<Longrightarrow> \<exists>n. rt_mem s x = Some n"
  by (auto simp: rep_def focus_def dest: shape_dom)

lemma add_loop:
  "rep s (plug fs t) \<Longrightarrow> t \<noteq> Lf \<Longrightarrow> place v fs t = (d, c, e, u) # gs \<Longrightarrow> add_loop s v (adr s t) = Some (d, fst e)"
proof (induction v fs t rule: place.induct)
  case (2 v fs k l x r)
  obtain n where n: "rb_node s (fst x) = Some n" "child Lft n = adr s l" "child (other Lft) n = adr s r" "holds n k x"
    by (rule rep_node [of s fs Lft k x l r]) (use 2 in auto)
  have nil: "adr s t = rt_sentinel s \<longleftrightarrow> t = Lf" if "t = l \<or> t = r" for t
    using rep_placed [OF 2(3)] that by (cases t) (auto simp: well_placed_def)
  show ?case
  proof (cases "v < val x")
    case True
    then show ?thesis
      using 2(1) [OF True] 2(3,5) n nil [of l] by (subst add_loop.simps, cases "l = Lf") (auto simp: holds_def Let_def)
  next
    case False
    then show ?thesis
      using 2(2) [OF False] 2(3,5) n nil [of r] by (subst add_loop.simps, cases "r = Lf") (auto simp: holds_def Let_def)
  qed
qed simp

lemma rep_alloc:
  assumes "rep s t" "rt_mem s a = None"
  shows "rep (s\<lparr>rt_mem := (rt_mem s)(a \<mapsto> n)\<rparr>) t" "a \<notin> set (addrs t)" "a \<noteq> rt_sentinel s"
proof -
  show a: "a \<notin> set (addrs t)" using rep_dom [OF assms(1)] assms(2) by force
  show "a \<noteq> rt_sentinel s" using assms by (auto elim: rep_sentinel)
  then show "rep (s\<lparr>rt_mem := (rt_mem s)(a \<mapsto> n)\<rparr>) t"
    using assms(1) a by (auto simp: rep_def focus_def well_placed_def)
qed

lemma addrs_plug: "set (addrs (plug fs t)) = set (addrs t) \<union> set (fs_addrs fs)"
  by (induction fs t rule: plug.induct) auto

text \<open>A fresh node is hung into a place without a child.\<close>

lemma rep_attach:
  assumes r: "rep s (plug ((d, c, e, u) # fs) Lf)" and a: "rt_mem s a = Some n" "a \<noteq> 0" "a \<noteq> rt_sentinel s"
    "a \<notin> set (addrs (plug ((d, c, e, u) # fs) Lf))" "rb_value n = v" "rb_data n = x"
  shows "\<exists>s'. do { s \<leftarrow> rb_upd s (fst e) (set_child d a);
      rb_upd s a (\<lambda>n. n\<lparr>rb_parent := fst e, rb_left := rt_sentinel s, rb_right := rt_sentinel s, rb_red := True\<rparr>) } = Some s' \<and>
    keeps s s' \<and> rep s' (plug ((d, c, e, u) # fs) (Nd True Lf (a, v, x) Lf))"
proof -
  have fa: "a \<notin> set (fs_addrs fs)" "a \<noteq> fst e" "a \<notin> set (addrs u)"
    using a(4) unfolding addrs_plug by auto
  from r obtain p par where "focus s ((d, c, e, u) # fs) Lf p par" unfolding rep_focus by blast
  then obtain k rp where k: "rt_mem s (fst e) = Some k" "holds k c e" "fst e \<noteq> rt_sentinel s"
    "shape (rt_mem s) (rt_sentinel s) (fst e) (child (other d) k) u"
    "seg (rt_mem s) (rt_sentinel s) (rt_root s) rp fs (fst e) (rb_parent k)"
    and wp: "well_placed s (fs_addrs ((d, c, e, u) # fs))"
    by (auto simp: focus_def split: option.splits)
  let ?s = "s\<lparr>rt_mem := (rt_mem s)(fst e \<mapsto> set_child d a k,
       a \<mapsto> n\<lparr>rb_parent := fst e, rb_left := rt_sentinel s, rb_right := rt_sentinel s, rb_red := True\<rparr>)\<rparr>"
  have e: "fst e \<notin> set (fs_addrs fs)" "fst e \<notin> set (addrs u)" using wp by (auto simp: well_placed_def)
  have "seg (rt_mem ?s) (rt_sentinel s) (rt_root s) rp ((d, c, e, u) # fs) a (fst e)"
    using k fa e by simp
  moreover have "shape (rt_mem ?s) (rt_sentinel s) (fst e) a (Nd True Lf (a, v, x) Lf)"
    using a by (simp add: holds_def)
  moreover have "well_placed ?s (addrs (Nd True Lf (a, v, x) Lf) @ fs_addrs ((d, c, e, u) # fs))"
    using wp fa a k(3) by (auto simp: well_placed_def)
  ultimately have "rep ?s (plug ((d, c, e, u) # fs) (Nd True Lf (a, v, x) Lf))"
    unfolding rep_focus focus_def by (intro exI [of _ a] exI [of _ "fst e"] conjI exI [of _ rp]) simp_all
  moreover have "keeps s ?s" using k(1,3) a by (auto simp: keeps_def)
  ultimately show ?thesis using k(1) a(1) fa(2) by simp
qed

text \<open>
  A timer added to the tree goes behind the timers of the same value in the sorted list the
  tree stands for; the tree stays a red-black tree.
\<close>

lemma uwsgi_add_rb_timer_correct:
  assumes "timers s es" "rt_mem s a = None" "a \<noteq> 0"
  shows "\<exists>s'. uwsgi_add_rb_timer s a v x = Some s' \<and> timers s' (insert_timer (a, v, x) es) \<and>
    rt_sentinel s' = rt_sentinel s \<and> dom (rt_mem s') = insert a (dom (rt_mem s))"
proof -
  from assms(1) obtain t where t: "rep s t" "inv t" "\<not> red t" "inord t = es" "sorted (map val es)"
    by (auto simp: timers_def)
  let ?n = "\<lparr>rb_value = v, rb_parent = 0, rb_left = 0, rb_right = 0, rb_red = False, rb_data = x\<rparr>"
  let ?s = "s\<lparr>rt_mem := (rt_mem s)(a \<mapsto> ?n)\<rparr>"
  note s = rep_alloc(1) [OF t(1) assms(2), of ?n] rep_alloc(2,3) [OF t(1) assms(2)]
  show ?thesis
  proof (cases "t = Lf")
    case True
    then have "rt_root s = rt_sentinel s" using rep_root [OF t(1)] by simp
    moreover obtain z where "rt_mem s (rt_sentinel s) = Some z" "\<not> rb_red z" using t(1) by (rule rep_sentinel)
    moreover have "rt_sentinel s \<noteq> 0" using t(1) by (auto simp: rep_def focus_def well_placed_def)
    ultimately show ?thesis using True t(4) assms(3) s(3)
      by (auto simp: uwsgi_add_rb_timer_def uwsgi_rbt_black_def Let_def timers_def insert_timer_def rep_def focus_def
          well_placed_def holds_def intro!: exI [of _ "Nd False Lf (a, v, x) Lf"])
  next
    case False
    obtain d c e u fs where pl: "place v [] t = (d, c, e, u) # fs"
      using place_neq [of t "[]" v] False by (metis neq_Nil_conv prod_cases4)
    then have pt: "plug ((d, c, e, u) # fs) Lf = t" using plug_place [of v "[]" t Lf] by (simp add: ins_Lf)
    have root: "rt_root s = adr ?s t" "rt_root s \<noteq> rt_sentinel s"
      using rep_root [OF t(1)] False rep_placed [of s "[]" t] t(1)
      by (auto simp: adr_def well_placed_def split: rbt.splits)
    have loop: "add_loop ?s v (rt_root s) = Some (d, fst e)"
      unfolding root(1) using s(1) False pl by (intro add_loop [of _ "[]"]) simp_all
    have "rep ?s (plug ((d, c, e, u) # fs) Lf)" using s(1) pt by simp
    from rep_attach [OF this, of a ?n v x] assms(3) s(2,3) pt obtain s1 where
      s1: "do { s \<leftarrow> rb_upd ?s (fst e) (set_child d a);
        rb_upd s a (\<lambda>n. n\<lparr>rb_parent := fst e, rb_left := rt_sentinel s, rb_right := rt_sentinel s, rb_red := True\<rparr>) } = Some s1"
      "keeps ?s s1" "rep s1 (plug ((d, c, e, u) # fs) (Nd True Lf (a, v, x) Lf))" by auto
    have add: "uwsgi_rbt_add ?s (rt_root s) a = Some s1"
      unfolding uwsgi_rbt_add_def using loop s1(1) by (simp add: rb_node_def)
    have "cinv ((d, c, e, u) # fs) (bh Lf)" using inv_plug [of "(d, c, e, u) # fs" Lf] pt t(2,3) by simp
    from balance_loop [OF s1(3)] this obtain s2 t2 where
      s2: "balance_loop s1 a = Some s2" "keeps s1 s2" "rep s2 t2" "t2 \<noteq> Lf" "inv t2"
        "inord t2 = inord (plug ((d, c, e, u) # fs) (Nd True Lf (a, v, x) Lf))" by auto
    from rep_black [of s2 "[]" t2] s2(3,4) rep_root [OF s2(3)] obtain s3 where
      s3: "uwsgi_rbt_black s2 (rt_root s2) = Some s3" "rep s3 (blacken t2)" "keeps s2 s3" by auto
    have "inord t2 = insert_timer (a, v, x) es"
      using s2(6) plug_place [of v "[]" t] pl inord_ins [of t "(a, v, x)"] t(4,5) by simp
    then have "timers s3 (insert_timer (a, v, x) es)"
      using s3(2) s2(5) sorted_insert_timer [OF t(5)] by (auto simp: timers_def intro!: exI [of _ "blacken t2"])
    moreover have "keeps ?s s3" using keeps_trans [OF keeps_trans [OF s1(2) s2(2)] s3(3)] .
    moreover have "uwsgi_add_rb_timer s a v x = Some s3"
      using root(2) add s2(1) s3(1) by (simp add: uwsgi_add_rb_timer_def)
    ultimately show ?thesis by (auto simp: keeps_def)
  qed
qed

section \<open>The loop after a deletion\<close>

text \<open>The sentinel knows its parent while it is the hole left by a deletion.\<close>

definition lf_ok :: "rbtree \<Rightarrow> rbt \<Rightarrow> nat \<Rightarrow> bool" where
  "lf_ok s t p \<longleftrightarrow> (t = Lf \<longrightarrow> parent_of s (rt_sentinel s) = Some p)"

lemma lf_ok_keeps: "keeps s s' \<Longrightarrow> lf_ok s' t p = lf_ok s t p"
  by (simp add: lf_ok_def keeps_def parent_of_def rb_node_def)

lemma rep_parent:
  assumes "rep s (plug fs (mk d c e t u))" "lf_ok s t (fst e)"
  shows "parent_of s (adr s t) = Some (fst e)"
proof (cases "t = Lf")
  case True
  with assms(2) show ?thesis by (simp add: lf_ok_def)
next
  case False
  then obtain k x l r where t: "t = mk d k x l r" using mk_cases by blast
  obtain n where "rb_node s (fst x) = Some n" "rb_parent n = fst e"
    by (rule rep_node [of s "(d, c, e, u) # fs" d k x l r]) (use assms(1) t in auto)
  then show ?thesis using t by (simp add: parent_of_def)
qed

lemma rep_sibling:
  assumes "rep s (plug fs (mk d c e t u))" "lf_ok s t (fst e)"
  shows "sibling d s (adr s t) = Some (adr s u)"
proof -
  obtain n where "rb_node s (fst e) = Some n" "child (other d) n = adr s u" using assms(1) by (rule rep_node)
  with rep_parent [OF assms] show ?thesis by (auto simp: sibling_def parent_of_def)
qed

lemma rep_swap: "rep s (plug fs (mk d c e t u)) \<longleftrightarrow> rep s (plug ((other d, c, e, t) # fs) u)"
  by (simp add: mk_other)

lemma del_lift_red:
  assumes "rep s (plug fs (mk d False p t (mk d True b x y)))" "lf_ok s t (fst p)"
  shows "\<exists>s'. del_lift d s (adr s t) (fst b) = Some (s', adr s' x) \<and> keeps s s' \<and>
    rep s' (plug fs (mk d False b (mk d True p t x) y))"
proof -
  have r: "rep s (plug ((other d, False, p, t) # fs) (mk d True b x y))" using assms(1) by (simp add: mk_other)
  note red = rep_is_red [OF r, simplified]
  from rep_black [OF r] obtain s1 where s1: "uwsgi_rbt_black s (fst b) = Some s1" "keeps s s1"
    "rep s1 (plug fs (mk d False p t (mk d False b x y)))" by (auto simp: mk_other)
  have ok1: "lf_ok s1 t (fst p)" using assms(2) s1(2) lf_ok_keeps by blast
  from rep_red [OF s1(3)] obtain s2 where s2: "uwsgi_rbt_red s1 (fst p) = Some s2" "keeps s1 s2"
    "rep s2 (plug fs (mk d True p t (mk d False b x y)))" by blast
  from rep_rotate [OF s2(3)] obtain s3 where s3: "rotate d s2 (fst p) = Some s3" "keeps s2 s3"
    "rep s3 (plug fs (mk d False b (mk d True p t x) y))" by blast
  have k: "keeps s s3" using keeps_trans [OF keeps_trans [OF s1(2) s2(2)] s3(2)] .
  have "lf_ok s3 t (fst p)" using assms(2) k lf_ok_keeps by blast
  then have "sibling d s3 (adr s3 t) = Some (adr s3 x)"
    using rep_sibling [of s3 "(d, False, b, y) # fs"] s3(3) by simp
  moreover have "parent_of s1 (adr s1 t) = Some (fst p)" using rep_parent [OF s1(3) ok1] .
  ultimately have "del_lift d s (adr s t) (fst b) = Some (s3, adr s3 x)"
    using red s1 s2(1) s3(1) k by (simp add: del_lift_def rotate_to)
  with s3(3) k show ?thesis by blast
qed

lemma del_turn:
  assumes "rep s (plug fs (mk d c p t (mk d False b x y)))" "lf_ok s t (fst p)" "red x \<or> red y"
  shows "\<exists>s' b' x' y'. del_turn d s (adr s t) (fst b) = Some (s', fst b') \<and> keeps s s' \<and>
    rep s' (plug fs (mk d c p t (mk d False b' x' y'))) \<and> red y' \<and>
    (red y \<longrightarrow> b' = b \<and> x' = x \<and> y' = y) \<and>
    (\<not> red y \<longrightarrow> (\<exists>z. x = mk d True b' x' z \<and> y' = mk d True b z y))"
proof -
  have r: "rep s (plug ((other d, c, p, t) # fs) (mk d False b x y))" using assms(1) by (simp add: mk_other)
  obtain n where n: "rb_node s (fst b) = Some n" "child d n = adr s x" "child (other d) n = adr s y"
    using r by (rule rep_node)
  have "rep s (plug ((other d, False, b, x) # (other d, c, p, t) # fs) y)" using r by (simp add: mk_other)
  note far = rep_is_red [OF this]
  show ?thesis
  proof (cases "red y")
    case True
    with n far assms(1) show ?thesis
      by (intro exI [of _ s] exI [of _ b] exI [of _ x] exI [of _ y]) (simp add: del_turn_def)
  next
    case False
    then have "x \<noteq> Lf" using assms(3) by auto
    then obtain e l z where x: "x = mk d True e l z" using mk_cases [of x d] assms(3) False by (metis red_mk)
    have "rep s (plug ((d, False, b, y) # (other d, c, p, t) # fs) x)" using r by simp
    from rep_black [OF this \<open>x \<noteq> Lf\<close>] x obtain s1 where
      s1: "uwsgi_rbt_black s (adr s x) = Some s1" "keeps s s1"
        "rep s1 (plug ((other d, c, p, t) # fs) (mk d False b (mk d False e l z) y))" by auto
    from rep_red [OF s1(3)] obtain s2 where s2: "uwsgi_rbt_red s1 (fst b) = Some s2" "keeps s1 s2"
      "rep s2 (plug ((other d, c, p, t) # fs) (mk d True b (mk d False e l z) y))" by blast
    then have "rep s2 (plug ((other d, c, p, t) # fs) (mk (other d) True b y (mk (other d) False e z l)))"
      by (simp only: mk_other)
    from rep_rotate [OF this] obtain s3 where s3: "rotate (other d) s2 (fst b) = Some s3" "keeps s2 s3"
      "rep s3 (plug fs (mk d c p t (mk d False e l (mk d True b z y))))" by (auto simp: mk_other)
    have k: "keeps s s3" using keeps_trans [OF keeps_trans [OF s1(2) s2(2)] s3(2)] .
    then have "lf_ok s3 t (fst p)" using assms(2) lf_ok_keeps by blast
    from rep_sibling [OF s3(3) this] have "del_turn d s (adr s t) (fst b) = Some (s3, fst e)"
      using n far False s1(1) s2(1) s3(1) k by (simp add: del_turn_def rotate_to)
    with k s3(3) x False show ?thesis
      by (intro exI [of _ s3] exI [of _ e] exI [of _ l] exI [of _ "mk d True b z y"]) simp
  qed
qed

lemma del_rotate:
  assumes "rep s (plug fs (mk d c p t (mk d k b x y)))" "lf_ok s t (fst p)" "y \<noteq> Lf"
  shows "\<exists>s'. del_rotate d s (adr s t) (fst b) = Some (s', rt_root s') \<and> keeps s s' \<and>
    rep s' (plug fs (mk d c b (mk d False p t x) (blacken y)))"
proof -
  obtain n where n: "rb_node s (fst p) = Some n" "rb_red n = c"
    using assms(1) by (rule rep_node) (simp add: holds_red)
  have "rep s (plug ((other d, c, p, t) # fs) (mk d k b x y))" using assms(1) by (simp add: mk_other)
  from rep_paint [OF this, of c] n obtain s1 where s1: "uwsgi_rbt_copy_color s (fst b) (fst p) = Some s1" "keeps s s1"
    "rep s1 (plug fs (mk d c p t (mk d c b x y)))" by (auto simp: uwsgi_rbt_copy_color_def mk_other)
  from rep_black [OF s1(3)] obtain s2 where s2: "uwsgi_rbt_black s1 (fst p) = Some s2" "keeps s1 s2"
    "rep s2 (plug fs (mk d False p t (mk d c b x y)))" by auto
  have r: "rep s2 (plug ((other d, False, p, t) # fs) (mk d c b x y))" using s2(3) by (simp add: mk_other)
  obtain m where m: "rb_node s2 (fst b) = Some m" "child (other d) m = adr s2 y" using r by (rule rep_node)
  have "rep s2 (plug ((other d, c, b, x) # (other d, False, p, t) # fs) y)" using r by (simp add: mk_other)
  from rep_black [OF this assms(3)] obtain s3 where s3: "uwsgi_rbt_black s2 (adr s2 y) = Some s3" "keeps s2 s3"
    "rep s3 (plug fs (mk d False p t (mk d c b x (blacken y))))" by (auto simp: mk_other)
  from rep_rotate [OF s3(3)] obtain s4 where s4: "rotate d s3 (fst p) = Some s4" "keeps s3 s4"
    "rep s4 (plug fs (mk d c b (mk d False p t x) (blacken y)))" by blast
  have "del_rotate d s (adr s t) (fst b) = Some (s4, rt_root s4)"
    using rep_parent [OF assms(1,2)] s1(1) s2(1) m s3(1) s4(1) by (simp add: del_rotate_def rotate_to)
  with s4(3) keeps_trans [OF keeps_trans [OF s1(2) s2(2)] keeps_trans [OF s3(2) s4(2)]] show ?thesis by blast
qed

lemma both_black: "rep s (plug fs (mk d c e x y)) \<Longrightarrow> rb_node s (fst e) = Some n \<Longrightarrow>
  both_black s (rb_left n) (rb_right n) = Some (\<not> red x \<and> \<not> red y)"
proof -
  assume r: "rep s (plug fs (mk d c e x y))" and n: "rb_node s (fst e) = Some n"
  have "child d n = adr s x" "child (other d) n = adr s y" using r n by (auto elim!: rep_node)
  moreover have "uwsgi_rbt_is_red s (adr s x) = Some (red x)" using r rep_is_red [of s "(d, c, e, y) # fs" x] by simp
  moreover have "uwsgi_rbt_is_red s (adr s y) = Some (red y)"
    using r rep_is_red [of s "(other d, c, e, x) # fs" y] by (simp add: mk_other)
  ultimately show ?thesis by (cases d) (auto simp: both_black_def)
qed

text \<open>The part of a pass behind the first rotation: the sibling is black.\<close>

definition del_rest :: "side \<Rightarrow> rbtree \<Rightarrow> nat \<Rightarrow> nat \<Rightarrow> (rbtree \<times> nat) option" where
  "del_rest d s temp w = do {
      n \<leftarrow> rb_node s w;
      black \<leftarrow> both_black s (rb_left n) (rb_right n);
      (if black then do { s \<leftarrow> uwsgi_rbt_red s w; p \<leftarrow> parent_of s temp; Some (s, p) }
       else do { (s, w) \<leftarrow> del_turn d s temp w; del_rotate d s temp w }) }"

lemma del_rest:
  assumes r: "rep s (plug fs (mk d c p t (mk d False b x y)))" and ok: "lf_ok s t (fst p)"
    and i: "inv (mk d False b x y)" "bh (mk d False b x y) = Suc (bh t)" "inv t" "\<not> red t"
      "cinv fs (if c then Suc (bh t) else Suc (Suc (bh t)))" "c \<Longrightarrow> fs \<noteq> [] \<and> \<not> top_red fs"
  shows "\<exists>s' gs u. del_rest d s (adr s t) (fst b) = Some (s', adr s' u) \<and> keeps s s' \<and> rep s' (plug gs u) \<and>
    u \<noteq> Lf \<and> inv (blacken u) \<and> cinv gs (Suc (bh u)) \<and> inord (plug gs u) = inord (plug fs (mk d c p t (mk d False b x y))) \<and>
    (gs = fs \<and> red u = c \<or> gs = [] \<and> \<not> red u)"
proof -
  have rw: "rep s (plug ((other d, c, p, t) # fs) (mk d False b x y))" using r by (simp add: mk_other)
  obtain n where n: "rb_node s (fst b) = Some n" using rw by (rule rep_node)
  note bb = both_black [OF rw n]
  have h: "inv x" "inv y" "bh x = bh y" "bh x = bh t"
    using i(1,2) by (auto simp: inv_mk bh_mk)
  show ?thesis
  proof (cases "\<not> red x \<and> \<not> red y")
    case True
    from rep_red [OF rw] obtain s1 where s1: "uwsgi_rbt_red s (fst b) = Some s1" "keeps s s1"
      "rep s1 (plug fs (mk d c p t (mk d True b x y)))" by (auto simp: mk_other)
    have "parent_of s1 (adr s1 t) = Some (fst p)" using rep_parent [OF s1(3)] ok s1(2) lf_ok_keeps by blast
    then have "del_rest d s (adr s t) (fst b) = Some (s1, fst p)" using n bb True s1(1,2) by (simp add: del_rest_def)
    moreover have "inv (blacken (mk d c p t (mk d True b x y)))" "cinv fs (Suc (bh (mk d c p t (mk d True b x y))))"
      using i h True by (cases c; simp add: inv_mk bh_mk)+
    moreover have "inord (plug fs (mk d c p t (mk d True b x y))) = inord (plug fs (mk d c p t (mk d False b x y)))"
      by (rule inord_plug, cases d) (simp_all add: inord_mk)
    ultimately show ?thesis using s1(2,3)
      by (intro exI [of _ s1] exI [of _ fs] exI [of _ "mk d c p t (mk d True b x y)"]) simp
  next
    case False
    from del_turn [OF r ok] False obtain s1 b' x' y' where
      s1: "del_turn d s (adr s t) (fst b) = Some (s1, fst b')" "keeps s s1"
        "rep s1 (plug fs (mk d c p t (mk d False b' x' y')))" "red y'" 
      and c: "(red y \<longrightarrow> b' = b \<and> x' = x \<and> y' = y) \<and> (\<not> red y \<longrightarrow> (\<exists>z. x = mk d True b' x' z \<and> y' = mk d True b z y))"
      by blast
    have y: "y' \<noteq> Lf" using s1(4) by auto
    let ?u = "mk d c b' (mk d False p t x') (blacken y')"
    have "lf_ok s1 t (fst p)" using ok s1(2) lf_ok_keeps by blast
    from del_rotate [OF s1(3) this y] obtain s2 where
      s2: "del_rotate d s1 (adr s1 t) (fst b') = Some (s2, rt_root s2)" "keeps s1 s2" "rep s2 (plug fs ?u)" by blast
    have sub: "inv x'" "inv y'" "bh x' = bh t" "bh y' = bh t"
      using c h by (cases "red y"; auto simp: inv_mk bh_mk)+
    then have "inv ?u" "bh ?u = (if c then Suc (bh t) else Suc (Suc (bh t)))"
      using i(3,4) s1(4) by (simp_all add: inv_mk bh_mk bh_blacken)
    then have "inv (plug fs ?u) \<and> \<not> red (plug fs ?u) \<or> fs = [] \<and> \<not> c"
      using i(5,6) inv_plug [of fs ?u] by (cases "fs = []") auto
    then have "inv (plug fs ?u) \<and> \<not> red (plug fs ?u)" using \<open>inv ?u\<close> by auto
    moreover have "del_rest d s (adr s t) (fst b) = Some (s2, adr s2 (plug fs ?u))"
      using n bb False s1(1,2) s2(1) rep_root [OF s2(3)] by (simp add: del_rest_def)
    moreover have "inord (mk d False b' x' y') = inord (mk d False b x y)"
      using c by (cases "red y") (auto simp: inord_mk split: side.splits)
    then have "inord (plug fs ?u) = inord (plug fs (mk d c p t (mk d False b x y)))"
      by (intro inord_plug) (auto simp: inord_mk split: side.splits)
    ultimately show ?thesis using s2(3) keeps_trans [OF s1(2) s2(2)] plug_neq [of ?u fs]
      by (intro exI [of _ s2] exI [of _ "[]"] exI [of _ "plug fs ?u"]) auto
  qed
qed

lemma del_fix:
  assumes r: "rep s (plug fs (mk d c p t w))" and ok: "lf_ok s t (fst p)"
    and i: "inv t" "\<not> red t" "cinv ((d, c, p, w) # fs) (Suc (bh t))"
  shows "\<exists>s' gs u. del_fix d s (adr s t) = Some (s', adr s' u) \<and> keeps s s' \<and> rep s' (plug gs u) \<and>
    u \<noteq> Lf \<and> inv (blacken u) \<and> cinv gs (Suc (bh u)) \<and> inord (plug gs u) = inord (plug fs (mk d c p t w)) \<and>
    (length gs \<le> length fs \<or> length gs = Suc (length fs) \<and> red u)"
proof -
  have fx: "del_fix d s (adr s t) = (case del_lift d s (adr s t) (adr s w) of None \<Rightarrow> None
      | Some (s1, w1) \<Rightarrow> del_rest d s1 (adr s t) w1)" if "w \<noteq> Lf"
    using rep_sibling [OF r ok] by (auto simp: del_fix_def del_rest_def split: option.splits)
  have "w \<noteq> Lf" using i(3) by auto
  then obtain k b x y where w: "w = mk d k b x y" using mk_cases by blast
  show ?thesis
  proof (cases k)
    case True
    then have c: "\<not> c" using i(3) w by auto
    from del_lift_red [of s fs d p t b x y] r ok w c True obtain s1 where
      s1: "del_lift d s (adr s t) (fst b) = Some (s1, adr s1 x)" "keeps s s1"
        "rep s1 (plug ((d, False, b, y) # fs) (mk d True p t x))" by auto
    have h: "inv x" "inv y" "bh x = Suc (bh t)" "bh y = Suc (bh t)" "\<not> red x" "\<not> red y"
      using i(3) w True by (auto simp: inv_mk bh_mk)
    then have "x \<noteq> Lf" by auto
    then obtain e l z where x: "x = mk d False e l z" using mk_cases [of x d] h(5) by (metis red_mk)
    have "lf_ok s1 t (fst p)" using ok s1(2) lf_ok_keeps by blast
    moreover have "inv (mk d False e l z)" "bh (mk d False e l z) = Suc (bh t)" using h(1,3) x by simp_all
    moreover have "cinv ((d, False, b, y) # fs) (if True then Suc (bh t) else Suc (Suc (bh t)))"
      "True \<Longrightarrow> (d, False, b, y) # fs \<noteq> [] \<and> \<not> top_red ((d, False, b, y) # fs)"
      using h i(3) c by simp_all
    ultimately obtain s2 gs u where
      s2: "del_rest d s1 (adr s1 t) (fst e) = Some (s2, adr s2 u)" "keeps s1 s2" "rep s2 (plug gs u)"
        "u \<noteq> Lf" "inv (blacken u)" "cinv gs (Suc (bh u))"
        "inord (plug gs u) = inord (plug ((d, False, b, y) # fs) (mk d True p t x))"
        "gs = (d, False, b, y) # fs \<and> red u = True \<or> gs = [] \<and> \<not> red u" using del_rest [OF s1(3) [unfolded x] _ _ _ i(1,2)] unfolding x [symmetric] by blast
    have "inord (plug ((d, False, b, y) # fs) (mk d True p t x)) = inord (plug fs (mk d c p t w))"
      unfolding plug.simps by (rule inord_plug) (auto simp: w inord_mk split: side.splits)
    then show ?thesis using fx s1(1,2) s2 w x keeps_trans [OF s1(2) s2(2)]
      by (intro exI [of _ s2] exI [of _ gs] exI [of _ u]) auto
  next
    case False
    have "uwsgi_rbt_is_red s (fst b) = Some False"
      using rep_is_red [of s "(other d, c, p, t) # fs" w] r w False by (simp add: mk_other)
    then have "del_fix d s (adr s t) = del_rest d s (adr s t) (fst b)"
      using fx w by (simp add: del_lift_def)
    moreover have rr: "rep s (plug fs (mk d c p t (mk d False b x y)))" using r w False by simp
    have "inv (mk d False b x y)" "bh (mk d False b x y) = Suc (bh t)"
      "cinv fs (if c then Suc (bh t) else Suc (Suc (bh t)))" "c \<Longrightarrow> fs \<noteq> [] \<and> \<not> top_red fs"
      using i(3) w False by auto
    from del_rest [OF rr ok this(1,2) i(1,2) this(3,4)] obtain s2 gs u where
      "del_rest d s (adr s t) (fst b) = Some (s2, adr s2 u)" "keeps s s2" "rep s2 (plug gs u)"
        "u \<noteq> Lf" "inv (blacken u)" "cinv gs (Suc (bh u))"
        "inord (plug gs u) = inord (plug fs (mk d c p t (mk d False b x y)))" "gs = fs \<or> gs = []" by blast
    ultimately show ?thesis using w False by (intro exI [of _ s2] exI [of _ gs] exI [of _ u]) auto
  qed
qed

lemma adr_Lf: "rep s (plug fs t) \<Longrightarrow> adr s t = rt_sentinel s \<longleftrightarrow> t = Lf"
  using rep_placed by (cases t) (fastforce simp: well_placed_def)+

lemma fixup_loop:
  assumes "rep s (plug fs t)" "t \<noteq> Lf \<or> fs \<noteq> []" "inv (blacken t)" "cinv fs (Suc (bh t))"
    and "\<And>d c p w gs. fs = (d, c, p, w) # gs \<Longrightarrow> lf_ok s t (fst p)"
  shows "\<exists>s' gs u. fixup_loop s (adr s t) = Some (s', adr s' u) \<and> keeps s s' \<and> rep s' (plug gs u) \<and> u \<noteq> Lf \<and>
    inv (plug gs (blacken u)) \<and> \<not> red (plug gs (blacken u)) \<and> inord (plug gs u) = inord (plug fs t)"
  using assms
proof (induction "length fs + (if red t then 0 else 1)" arbitrary: s fs t rule: less_induct)
  case less
  have ret: ?case if "del_pass s (adr s t) = Some (Inl (s, adr s t))" "t \<noteq> Lf"
    "inv (plug fs (blacken t))" "\<not> red (plug fs (blacken t))"
    using that less.prems(1) by (subst fixup_loop.simps) (auto intro!: exI [of _ s] exI [of _ fs] exI [of _ t])
  show ?case
  proof (cases fs)
    case Nil
    then show ?thesis using ret less.prems(1-3) rep_root [of s t] by (simp add: del_pass_def)
  next
    case (Cons f gs)
    obtain d c p w where f: "f = (d, c, p, w)" by (metis prod_cases4)
    have r: "rep s (plug gs (mk d c p t w))" using less.prems(1) Cons f by simp
    have ok: "lf_ok s t (fst p)" using less.prems(5) Cons f by blast
    have red: "uwsgi_rbt_is_red s (adr s t) = Some (red t)" using rep_is_red [OF less.prems(1)] .
    then obtain n where n: "rb_node s (adr s t) = Some n" "rb_red n = red t" by (auto simp: uwsgi_rbt_is_red_def)
    show ?thesis
    proof (cases "red t")
      case True
      then have "t \<noteq> Lf" by auto
      moreover have "inv (plug fs (blacken t)) \<and> \<not> red (plug fs (blacken t))"
        unfolding inv_plug using less.prems(3,4) True by (simp add: bh_blacken)
      ultimately show ?thesis using ret n True by (simp add: del_pass_def)
    next
      case False
      then have it: "inv t" using less.prems(3) by (cases t) auto
      have w: "w \<noteq> Lf" using less.prems(4) Cons f by auto
      have "adr s t \<noteq> rt_root s"
      proof (cases "t = Lf")
        case True
        then show ?thesis using rep_root [OF r] adr_Lf [of s "[]" "plug gs (mk d c p t w)"] r plug_neq [of "mk d c p t w" gs] by simp
      next
        case False
        then obtain k e x y where "t = mk d k e x y" using mk_cases by blast
        then show ?thesis using r by (auto intro: rep_node [of s "(d, c, p, w) # gs" d k e x y])
      qed
      moreover obtain m where m: "rb_node s (fst p) = Some m" using r by (rule rep_node)
      moreover have "rb_parent n = fst p" using rep_parent [OF r ok] n(1) by (simp add: parent_of_def)
      ultimately have pass: "del_pass s (adr s t) = map_option Inr (del_fix d s (adr s t))"
        using n False side_of_child [OF r _ m] w by (simp add: del_pass_def)
      from less.prems(4) Cons f have "cinv ((d, c, p, w) # gs) (Suc (bh t))" by simp
      from del_fix [OF r ok it False this] obtain s1 gs1 u where
        s1: "del_fix d s (adr s t) = Some (s1, adr s1 u)" "keeps s s1" "rep s1 (plug gs1 u)"
          "u \<noteq> Lf" "inv (blacken u)" "cinv gs1 (Suc (bh u))" "inord (plug gs1 u) = inord (plug gs (mk d c p t w))"
          "length gs1 \<le> length gs \<or> length gs1 = Suc (length gs) \<and> red u" by blast
      have "length gs1 + (if red u then 0 else 1) < length fs + (if red t then 0 else 1)"
        using s1(8) Cons False by auto
      from less.hyps [OF this s1(3) _ s1(5,6)] s1(4) obtain s2 gs2 v where
        s2: "fixup_loop s1 (adr s1 u) = Some (s2, adr s2 v)" "keeps s1 s2" "rep s2 (plug gs2 v)" "v \<noteq> Lf"
          "inv (plug gs2 (blacken v))" "\<not> red (plug gs2 (blacken v))" "inord (plug gs2 v) = inord (plug gs1 u)"
        by (auto simp: lf_ok_def)
      have "fixup_loop s (adr s t) = Some (s2, adr s2 v)" using pass s1(1) s2(1) by (subst fixup_loop.simps) simp
      then show ?thesis using s2 s1(7) keeps_trans [OF s1(2) s2(2)] Cons f by auto
    qed
  qed
qed

section \<open>Deletion\<close>

lemma focus_node:
  assumes "a \<in> set (addrs t)"
  shows "\<exists>gs c e l r. plug fs t = plug gs (Nd c l e r) \<and> fst e = a"
  using assms
proof (induction t arbitrary: fs)
  case (Nd c l e r)
  consider "a \<in> set (addrs l)" | "fst e = a" | "a \<in> set (addrs r)" using Nd.prems by auto
  then show ?case
  proof cases
    case 1
    from Nd.IH(1) [OF this, of "(Lft, c, e, r) # fs"] show ?thesis by simp
  next
    case 3
    from Nd.IH(2) [OF this, of "(Rgt, c, e, l) # fs"] show ?thesis by simp
  qed blast
qed simp

lemma addrs_inord: "addrs t = map fst (inord t)"
  by (induction t) auto

lemma inord_addr: "y \<in> set (inord t) \<Longrightarrow> fst y \<in> set (addrs t)"
  by (simp add: addrs_inord)

lemma filter_inord_plug:
  assumes "filter P (inord t) = inord t'" "\<forall>e\<in>set (inord (plug fs Lf)). P e"
  shows "filter P (inord (plug fs t)) = inord (plug fs t')"
proof -
  have split: "\<exists>A B. \<forall>t. inord (plug fs t) = A @ inord t @ B" for fs
  proof (induction fs)
    case (Cons f fs)
    obtain d c e u where f: "f = (d, c, e, u)" by (metis prod_cases4)
    from Cons obtain A B where "\<forall>t. inord (plug fs t) = A @ inord t @ B" by blast
    show ?case
    proof (cases d)
      case Lft
      then show ?thesis using f \<open>\<forall>t. inord (plug fs t) = A @ inord t @ B\<close>
        by (intro exI [of _ A] exI [of _ "e # inord u @ B"]) simp
    next
      case Rgt
      then show ?thesis using f \<open>\<forall>t. inord (plug fs t) = A @ inord t @ B\<close>
        by (intro exI [of _ "A @ inord u @ [e]"] exI [of _ B]) simp
    qed
  qed (auto intro: exI [of _ "[]"])
  then obtain A B where ab: "\<And>t. inord (plug fs t) = A @ inord t @ B" by blast
  then have "\<forall>e\<in>set A \<union> set B. P e" using assms(2) by auto
  then show ?thesis using assms(1) ab by simp
qed

text \<open>A node with at most one child is taken out of the tree: its parent takes the child, and the
  child gets the parent \<open>z\<close>.\<close>

lemma splice:
  assumes r: "rep s (plug ((d, c, p, w) # fs) (mk k b e q Lf))" and a: "a = adr s q"
  shows "\<exists>s'. cut_out s (fst e) a z = Some s' \<and>
    (\<exists>rp. seg (rt_mem s') (rt_sentinel s') (rt_root s') rp ((d, c, p, w) # fs) a (fst p)) \<and>
    shape (rt_mem s') (rt_sentinel s') z a q \<and> well_placed s' (addrs q @ fs_addrs ((d, c, p, w) # fs)) \<and>
    rt_mem s' (fst e) = rt_mem s (fst e) \<and> rt_sentinel s' = rt_sentinel s \<and> dom (rt_mem s') = dom (rt_mem s) \<and>
    parent_of s' a = Some z \<and> rt_root s' = rt_root s"
proof -
  have wp: "well_placed s (addrs (mk k b e q Lf) @ fs_addrs ((d, c, p, w) # fs))" using rep_placed [OF r] .
  obtain h where h: "rb_node s (fst e) = Some h" "rb_parent h = fst p"
    by (rule rep_node [OF r]) auto
  obtain m where m: "rb_node s (fst p) = Some m" by (rule rep_node [of s fs d c p "mk k b e q Lf" w]) (use r in simp)
  from side_of_child [of s fs d c p "mk k b e q Lf" w] r m
  have "(if fst e = rb_left m then set_child Lft (adr s q) else set_child Rgt (adr s q)) = set_child d (adr s q)"
    by (auto split: if_splits)
  moreover obtain rp where sg: "seg (rt_mem s) (rt_sentinel s) (rt_root s) rp ((d, c, p, w) # fs) (fst e) (fst p)"
    and sh: "shape (rt_mem s) (rt_sentinel s) (fst p) (fst e) (mk k b e q Lf)"
    using r unfolding rep_focus focus_def by (auto simp: shape_mk split: option.splits)
  obtain n where "shape (rt_mem s) (rt_sentinel s) (fst e) (child k n) q" using sh by (auto simp: shape_mk)
  then have q: "shape (rt_mem s) (rt_sentinel s) (fst e) (adr s q) q" using shape_adr by metis
  obtain t where t: "rt_mem s (adr s q) = Some t"
    using q wp by (cases q) (auto simp: well_placed_def split: option.splits)
  have mp: "rt_mem s (fst p) = Some m" "fst p \<noteq> rt_sentinel s" "holds m c p" "child d m = fst e"
    "shape (rt_mem s) (rt_sentinel s) (fst p) (child (other d) m) w"
    "seg (rt_mem s) (rt_sentinel s) (rt_root s) rp fs (fst p) (rb_parent m)"
    using sg m by (auto simp: rb_node_def split: option.splits)
  have aq: "adr s q = rt_sentinel s \<or> adr s q \<in> set (addrs q)" using shape_root [OF q] .
  have dist: "fst p \<noteq> adr s q" "adr s q \<notin> set (fs_addrs fs)" "adr s q \<notin> set (addrs w)" "fst e \<noteq> adr s q" "fst e \<noteq> fst p"
    "fst p \<notin> set (addrs q)" "fst p \<notin> set (addrs w)" "fst p \<notin> set (fs_addrs fs)"
    using wp aq mp(2) by (auto simp: well_placed_def)
  let ?s1 = "s\<lparr>rt_mem := (rt_mem s)(fst p \<mapsto> set_child d (adr s q) m)\<rparr>"
  let ?s2 = "s\<lparr>rt_mem := (rt_mem s)(fst p \<mapsto> set_child d (adr s q) m, adr s q \<mapsto> t\<lparr>rb_parent := z\<rparr>)\<rparr>"
  have "shape (rt_mem ?s2) (rt_sentinel s) z (adr s q) q"
    using q wp dist t by (cases q) (auto simp: well_placed_def)
  moreover have "seg (rt_mem ?s2) (rt_sentinel s) (rt_root s) rp ((d, c, p, w) # fs) (adr s q) (fst p)"
    using mp dist by simp
  moreover have "well_placed ?s2 (addrs q @ fs_addrs ((d, c, p, w) # fs))"
    using wp dist t by (auto simp: well_placed_def)
  ultimately show ?thesis
    using m h mp(1) t dist unfolding a by (auto simp: cut_out_def parent_of_def rb_node_def)
qed

text \<open>A node \<open>b\<close> outside the tree takes the place of the node \<open>a\<close>.\<close>

lemma take_place:
  assumes n: "rt_mem s a = Some n" "rb_red n = k" and sg: "seg (rt_mem s) (rt_sentinel s) (rt_root s) rp fs a (rb_parent n)"
    and sh: "shape (rt_mem s) (rt_sentinel s) pl (rb_left n) l" "shape (rt_mem s) (rt_sentinel s) pr (rb_right n) r"
    and b: "rt_mem s b = Some m" "rb_value m = v" "rb_data m = x"
    and wp: "well_placed s (addrs l @ a # b # addrs r @ fs_addrs fs)"
  shows "\<exists>s'. take_place s a b = Some s' \<and> rep s' (plug fs (Nd k l (b, v, x) r)) \<and> keeps s s'"
proof -
  have dist: "a \<noteq> b" "a \<noteq> rt_sentinel s" "b \<noteq> rt_sentinel s" "b \<notin> set (addrs l)" "b \<notin> set (addrs r)" "b \<notin> set (fs_addrs fs)"
    "a \<notin> set (fs_addrs fs)" "distinct (fs_addrs fs)" "distinct (addrs l)" "distinct (addrs r)"
    "rt_sentinel s \<notin> set (addrs l)" "rt_sentinel s \<notin> set (addrs r)" "rt_sentinel s \<notin> set (fs_addrs fs)" "b \<noteq> 0"
    and disj: "\<And>y. y \<in> set (addrs l) \<Longrightarrow> y \<notin> set (fs_addrs fs)" "\<And>y. y \<in> set (addrs r) \<Longrightarrow> y \<notin> set (fs_addrs fs)"
      "\<And>y. y \<in> set (addrs l) \<Longrightarrow> y \<notin> set (addrs r)" "\<And>y. y \<in> set (addrs r) \<Longrightarrow> y \<notin> set (addrs l)"
    using wp by (auto simp: well_placed_def)
  let ?m = "m\<lparr>rb_left := rb_left n, rb_right := rb_right n, rb_parent := rb_parent n\<rparr>\<lparr>rb_red := k\<rparr>"
  let ?s2 = "s\<lparr>rt_mem := (rt_mem s)(b \<mapsto> ?m)\<rparr>"
  have "seg (rt_mem ?s2) (rt_sentinel ?s2) (rt_root ?s2) rp fs a (rb_parent n)" using sg dist(6) by simp
  from relink [OF this dist(8,7), of n Lft b] dist n(1) obtain s3 rp' where
    s3: "relink Lft ?s2 a b = Some s3" "seg (rt_mem s3) (rt_sentinel s3) (rt_root s3) rp' fs b (rb_parent n)"
      "rt_sentinel s3 = rt_sentinel s" "dom (rt_mem s3) = dom (rt_mem ?s2)"
      "\<And>y. y \<notin> set (fs_addrs fs) \<Longrightarrow> rt_mem s3 y = rt_mem ?s2 y" by auto
  have b3: "rt_mem s3 b = Some ?m" using s3(5) dist(6) by simp
  have "shape (rt_mem s3) (rt_sentinel s3) pl (rb_left n) l"
    using sh(1) dist(4) disj(1) s3(3,5) by (subst shape_cong [of _ _ "rt_mem s"]) (auto simp: fun_upd_def)
  from reparent [OF this dist(9), of b] obtain s4 where s4: "reparent s3 (rb_left n) b = Some s4"
    "shape (rt_mem s4) (rt_sentinel s4) b (rb_left n) l" "rt_root s4 = rt_root s3" "rt_sentinel s4 = rt_sentinel s3"
    "dom (rt_mem s4) = dom (rt_mem s3)" "\<And>y. y \<notin> set (addrs l) \<Longrightarrow> rt_mem s4 y = rt_mem s3 y" by blast
  have b4: "rt_mem s4 b = Some ?m" using s4(6) [OF dist(4)] b3 by simp
  have "shape (rt_mem s4) (rt_sentinel s4) pr (rb_right n) r"
    using sh(2) dist(5) disj(2,4) s3(3,5) s4(4,6) by (subst shape_cong [of _ _ "rt_mem s"]) (auto simp: fun_upd_def)
  from reparent [OF this dist(10), of b] obtain s5 where s5: "reparent s4 (rb_right n) b = Some s5"
    "shape (rt_mem s5) (rt_sentinel s5) b (rb_right n) r" "rt_root s5 = rt_root s4" "rt_sentinel s5 = rt_sentinel s4"
    "dom (rt_mem s5) = dom (rt_mem s4)" "\<And>y. y \<notin> set (addrs r) \<Longrightarrow> rt_mem s5 y = rt_mem s4 y" by blast
  have b5: "rt_mem s5 b = Some ?m" using s5(6) [OF dist(5)] b4 by simp
  have run: "take_place s a b = Some s5"
    unfolding take_place_def uwsgi_rbt_copy_color_def using n b(1) dist(1) s3(1) b3 s4(1) b4 s5(1)
    by (simp add: rb_node_def)
  have l5: "shape (rt_mem s5) (rt_sentinel s) b (rb_left n) l"
    using s4(2,4) s3(3) disj(3) s5(6) by (subst shape_cong [of _ _ "rt_mem s4"]) auto
  have "seg (rt_mem s5) (rt_sentinel s) (rt_root s5) rp' fs b (rb_parent n)"
  proof (subst timer_seg_cong [of _ _ "rt_mem s3"])
    fix y assume "y \<in> set (fs_addrs fs)"
    then have "y \<notin> set (addrs l)" "y \<notin> set (addrs r)" using disj(1,2) by blast+
    then show "rt_mem s5 y = rt_mem s3 y" using s5(6) s4(6) by simp
  qed (use s3(2,3) s4(3) s5(3) in simp)
  moreover have z: "rt_mem s5 (rt_sentinel s) = rt_mem s (rt_sentinel s)"
    using s5(6) s4(6) s3(5) dist by (auto simp: fun_upd_def)
  moreover have "well_placed s5 (addrs (Nd k l (b, v, x) r) @ fs_addrs fs)"
    using wp z s3(3) s4(4) s5(4) by (auto simp: well_placed_def)
  ultimately have "focus s5 fs (Nd k l (b, v, x) r) b (rb_parent n)"
    using l5 s5(2,4) s4(4) s3(3) b5 b dist(3) unfolding focus_def by (auto simp: holds_def)
  then have "rep s5 (plug fs (Nd k l (b, v, x) r))" unfolding rep_focus by blast
  moreover have "keeps s s5" using z s5(4,5) s4(4,5) s3(3,4) b(1) by (auto simp: keeps_def)
  ultimately show ?thesis using run by blast
qed

lemma min_loop:
  assumes "rep s (plug fs t)" "t \<noteq> Lf"
  shows "\<exists>gs c e r. min_loop s (adr s t) = Some (fst e) \<and> (\<forall>f\<in>set gs. fst f = Lft) \<and> t = plug gs (Nd c Lf e r)"
  using assms
proof (induction t arbitrary: fs)
  case (Nd c l e r)
  obtain n where n: "rb_node s (fst e) = Some n" "rb_left n = adr s l"
    by (rule rep_node [of s fs Lft c e l r]) (use Nd.prems in auto)
  have lr: "rep s (plug ((Lft, c, e, r) # fs) l)" using Nd.prems(1) by simp
  show ?case
  proof (cases "l = Lf")
    case True
    then have "min_loop s (adr s (Nd c l e r)) = Some (fst e)" using n by (subst min_loop.simps) simp
    then show ?thesis using True by (intro exI [of _ "[]"] exI [of _ c] exI [of _ e] exI [of _ r]) simp
  next
    case False
    from Nd.IH(1) [OF lr False] obtain gs k y u where
      g: "min_loop s (adr s l) = Some (fst y)" "\<forall>f\<in>set gs. fst f = Lft" "l = plug gs (Nd k Lf y u)" by blast
    have "min_loop s (adr s (Nd c l e r)) = Some (fst y)"
      using n g(1) adr_Lf [OF lr] False by (subst min_loop.simps) simp
    moreover have "Nd c l e r = plug (gs @ [(Lft, c, e, r)]) (Nd k Lf y u)"
    proof -
      have "plug (gs @ hs) u = plug hs (plug gs u)" for hs u by (induction gs u rule: plug.induct) auto
      then show ?thesis using g(3) by simp
    qed
    ultimately show ?thesis using g(2)
      by (intro exI [of _ "gs @ [(Lft, c, e, r)]"] exI [of _ k] exI [of _ y] exI [of _ u]) auto
  qed
qed simp

lemma del_finish:
  assumes r: "rep s (plug fs t)" "fs \<noteq> []" and ok: "\<And>d c p w gs. fs = (d, c, p, w) # gs \<Longrightarrow> lf_ok s t (fst p)"
    and i: "c \<Longrightarrow> inv (plug fs t) \<and> \<not> red (plug fs t)" "\<not> c \<Longrightarrow> inv (blacken t) \<and> cinv fs (Suc (bh t))"
  shows "\<exists>s' T. (if c then Some s else do { (s, temp) \<leftarrow> fixup_loop s (adr s t); uwsgi_rbt_black s temp }) = Some s' \<and>
    keeps s s' \<and> rep s' T \<and> inv T \<and> \<not> red T \<and> inord T = inord (plug fs t)"
proof (cases c)
  case True
  then show ?thesis using r i(1) by auto
next
  case False
  from fixup_loop [OF r(1), of] r(2) i(2) [OF False] ok obtain s1 gs u where
    s1: "fixup_loop s (adr s t) = Some (s1, adr s1 u)" "keeps s s1" "rep s1 (plug gs u)" "u \<noteq> Lf"
      "inv (plug gs (blacken u))" "\<not> red (plug gs (blacken u))" "inord (plug gs u) = inord (plug fs t)" by blast
  from rep_black [OF s1(3,4)] obtain s2 where
    s2: "uwsgi_rbt_black s1 (adr s1 u) = Some s2" "rep s2 (plug gs (blacken u))" "keeps s1 s2" by blast
  have "inord (plug gs (blacken u)) = inord (plug fs t)" using s1(7) inord_plug [of "blacken u" u gs] by simp
  then show ?thesis using False s1(1,5,6) s2(1,2) keeps_trans [OF s1(2) s2(3)] by auto
qed

lemma hole_inv:
  assumes "inv (plug fs (mk k c e t Lf))" "\<not> red (plug fs (mk k c e t Lf))"
  shows "c \<Longrightarrow> inv (plug fs t) \<and> \<not> red (plug fs t)" "\<not> c \<Longrightarrow> inv (blacken t) \<and> cinv fs (Suc (bh t))"
proof -
  have i: "inv (mk k c e t Lf)" "cinv fs (bh (mk k c e t Lf))"
    using assms inv_plug [of fs "mk k c e t Lf"] by auto
  then have "inv t" "bh t = 0" "c \<Longrightarrow> \<not> red t" "bh (mk k c e t Lf) = (if c then 0 else 1)"
    by (auto simp: inv_mk bh_mk)
  then show "c \<Longrightarrow> inv (plug fs t) \<and> \<not> red (plug fs t)" "\<not> c \<Longrightarrow> inv (blacken t) \<and> cinv fs (Suc (bh t))"
    using i(2) inv_plug [of fs t] by auto
qed

text \<open>What a deletion leaves, in terms of the tree.\<close>

definition removed :: "rbtree \<Rightarrow> rbtree \<Rightarrow> elem list \<Rightarrow> bool" where
  "removed s s' es \<longleftrightarrow> rt_sentinel s' = rt_sentinel s \<and> dom (rt_mem s') = dom (rt_mem s) \<and>
     (\<exists>T. rep s' T \<and> inv T \<and> \<not> red T \<and> inord T = es)"

lemma del_one_child:
  assumes r: "rep s (plug fs (mk k c e q Lf))" and i: "inv (plug fs (mk k c e q Lf))" "\<not> red (plug fs (mk k c e q Lf))"
    and ch: "del_choose s (fst e) = Some (fst e, adr s q)"
  shows "\<exists>s'. uwsgi_del_rb_timer s (fst e) = Some s' \<and> removed s s' (inord (plug fs q))"
proof (cases fs)
  case Nil
  have q: "inv q" using i(1) Nil by (simp add: inv_mk)
  let ?s = "s\<lparr>rt_root := adr s q\<rparr>"
  obtain n where n: "shape (rt_mem s) (rt_sentinel s) (fst e) (child k n) q" and wp: "well_placed s (addrs (mk k c e q Lf))"
    using r Nil by (auto simp: rep_def focus_def shape_mk)
  have "adr s q = child k n" using shape_adr [OF n] by simp
  moreover have wp': "well_placed ?s (addrs q)" using wp by (auto simp: well_placed_def)
  ultimately have "focus ?s [] q (adr s q) (fst e)" using n by (auto simp: focus_def)
  then have rq: "rep ?s q" by (auto simp: rep_def)
  have root: "fst e = rt_root s" using rep_root [OF r] Nil by simp
  show ?thesis
  proof (cases "q = Lf")
    case True
    obtain z where z: "rt_mem s (rt_sentinel s) = Some z" "\<not> rb_red z" using r by (rule rep_sentinel)
    let ?s' = "?s\<lparr>rt_mem := (rt_mem s)(rt_sentinel s \<mapsto> z\<lparr>rb_red := False\<rparr>)\<rparr>"
    have "rep ?s' Lf" using rq True by (auto simp: rep_def focus_def well_placed_def)
    moreover have "uwsgi_del_rb_timer s (fst e) = Some ?s'"
      using ch root True z(1) by (simp add: uwsgi_del_rb_timer_def uwsgi_rbt_black_def)
    moreover from calculation have "removed s ?s' (inord (plug fs q))"
      unfolding removed_def using True Nil z(1) by (intro conjI exI [of _ Lf]) auto
    ultimately show ?thesis by blast
  next
    case False
    from rep_black [of ?s "[]" q, unfolded plug.simps, OF rq False] obtain s' where
      s': "uwsgi_rbt_black ?s (adr ?s q) = Some s'" "rep s' (blacken q)" "keeps ?s s'" by blast
    have k: "rt_sentinel s' = rt_sentinel s" "dom (rt_mem s') = dom (rt_mem s)" using s'(3) by (simp_all add: keeps_def del: adr_keeps)
    have "adr ?s q = adr s q" by (simp add: adr_def split: rbt.split)
    then have "uwsgi_del_rb_timer s (fst e) = Some s'" using ch root s'(1) by (simp add: uwsgi_del_rb_timer_def)
    moreover have "removed s s' (inord (plug fs q))"
      unfolding removed_def using k s'(2) Nil q by (intro conjI exI [of _ "blacken q"]) simp_all
    ultimately show ?thesis by blast
  qed
next
  case (Cons f gs)
  obtain d b p w where f: "f = (d, b, p, w)" by (metis prod_cases4)
  obtain n where n: "rb_node s (fst e) = Some n" "rb_red n = c" "rb_parent n = fst p" "fst e \<noteq> rt_root s"
    by (rule rep_node [OF r]) (use Cons f in \<open>auto simp: holds_red\<close>)
  from splice [of s d b p w gs k c e q "adr s q" "fst p"] r Cons f obtain s1 where
    s1: "cut_out s (fst e) (adr s q) (fst p) = Some s1"
    "\<exists>rp. seg (rt_mem s1) (rt_sentinel s1) (rt_root s1) rp fs (adr s q) (fst p)"
    "shape (rt_mem s1) (rt_sentinel s1) (fst p) (adr s q) q" "well_placed s1 (addrs q @ fs_addrs fs)"
    "rt_sentinel s1 = rt_sentinel s" "dom (rt_mem s1) = dom (rt_mem s)" "parent_of s1 (adr s q) = Some (fst p)"
    by blast
  have "rep s1 (plug fs q)" unfolding rep_focus focus_def using s1(2-4) by blast
  moreover have a: "adr s1 q = adr s q" using s1(5) by (simp add: adr_def split: rbt.split)
  moreover have "lf_ok s1 q (fst p')" if "fs = (d', c', p', w') # gs'" for d' c' p' w' gs'
    using that Cons f s1(5,7) a by (auto simp: lf_ok_def)
  ultimately obtain s2 T where
    s2: "(if c then Some s1 else do { (s, temp) \<leftarrow> fixup_loop s1 (adr s q); uwsgi_rbt_black s temp }) = Some s2"
      "keeps s1 s2" "rep s2 T" "inv T" "\<not> red T" "inord T = inord (plug fs q)"
    using del_finish [of s1 fs q c] hole_inv [OF i] Cons by (metis list.discI)
  have "uwsgi_del_rb_timer s (fst e) = Some s2"
    using ch n s1(1) s2(1) by (simp add: uwsgi_del_rb_timer_def)
  then show ?thesis using s2 s1(5,6) by (auto simp: removed_def keeps_def)
qed

lemma plug_append: "plug (gs @ fs) t = plug fs (plug gs t)"
  by (induction gs t rule: plug.induct) auto

lemma distinct_plug: "distinct (addrs (plug fs t)) = distinct (addrs t @ fs_addrs fs)"
  by (induction fs t rule: plug.induct) auto

lemma fsa:
  "set (fs_addrs (gs @ hs)) = set (fs_addrs gs) \<union> set (fs_addrs hs)"
  "distinct (fs_addrs (gs @ hs)) \<longleftrightarrow>
     distinct (fs_addrs gs) \<and> distinct (fs_addrs hs) \<and> set (fs_addrs gs) \<inter> set (fs_addrs hs) = {}"
  by (induction gs rule: fs_addrs.induct) auto

lemma top_red_append: "top_red (gs @ (d, c, e, u) # fs) = (if gs = [] then c else top_red gs)"
  by (cases gs) auto

lemma cinv_swap: "cinv (gs @ (d, c, e, u) # fs) h = cinv (gs @ (d, c, e', u) # fs) h"
  by (induction gs h rule: cinv.induct) (auto simp: top_red_append)

lemma inv_swap:
  "inv (plug (gs @ (d, c, e, u) # fs) t) \<and> \<not> red (plug (gs @ (d, c, e, u) # fs) t) \<longleftrightarrow>
   inv (plug (gs @ (d, c, e', u) # fs) t) \<and> \<not> red (plug (gs @ (d, c, e', u) # fs) t)"
  unfolding inv_plug using cinv_swap [of gs d c e u fs _ e'] by (auto simp: top_red_append)

lemma inord_leftmost: "\<forall>f\<in>set gs. fst f = Lft \<Longrightarrow> inord t = e # inord q \<Longrightarrow> inord (plug gs t) = e # inord (plug gs q)"
  by (induction gs t arbitrary: q rule: plug.induct) (auto simp: inord_mk)

text \<open>The place of \<open>a\<close> is taken by the leftmost node \<open>b\<close> of its right part, whose only child \<open>q\<close> goes up.\<close>

lemma move_up:
  assumes r: "rep s (plug fs (Nd c l e (plug gs (mk Rgt k b q Lf))))"
    and m: "rt_mem s (fst b) = Some m" "rb_parent m = p" "rb_value m = fst (snd b)" "rb_data m = snd (snd b)"
  shows "\<exists>s1 s2. cut_out s (fst b) (adr s q) (if p = fst e then fst b else p) = Some s1 \<and>
    take_place s1 (fst e) (fst b) = Some s2 \<and> rep s2 (plug (gs @ (Rgt, c, b, l) # fs) q) \<and> adr s2 q = adr s q \<and>
    lf_ok s2 q (case gs of [] \<Rightarrow> fst b | f # gs \<Rightarrow> fst (fst (snd (snd f)))) \<and>
    rt_sentinel s2 = rt_sentinel s \<and> dom (rt_mem s2) = dom (rt_mem s)"
proof -
  have b: "b = (fst b, fst (snd b), snd (snd b))" by simp
  have wp: "well_placed s (addrs (mk Rgt k b q Lf) @ fs_addrs (gs @ (Rgt, c, e, l) # fs))"
    using r rep_placed [of s "gs @ (Rgt, c, e, l) # fs" "mk Rgt k b q Lf"] by (simp add: plug_append)
  have step: ?thesis if s1: "cut_out s (fst b) (adr s q) (if p = fst e then fst b else p) = Some s1"
    "rt_mem s1 (fst b) = rt_mem s (fst b)" "rt_sentinel s1 = rt_sentinel s" "dom (rt_mem s1) = dom (rt_mem s)"
    "well_placed s1 (addrs q @ fs_addrs (gs @ (Rgt, c, e, l) # fs))"
    "parent_of s1 (adr s q) = Some (case gs of [] \<Rightarrow> fst b | f # gs \<Rightarrow> fst (fst (snd (snd f))))"
    and n: "rt_mem s1 (fst e) = Some n" "holds n c e" "\<exists>rp. seg (rt_mem s1) (rt_sentinel s1) (rt_root s1) rp fs (fst e) (rb_parent n)"
    "\<exists>pl. shape (rt_mem s1) (rt_sentinel s1) pl (rb_left n) l"
    "\<exists>pr. shape (rt_mem s1) (rt_sentinel s1) pr (rb_right n) (plug gs q)" for s1 n
  proof -
    from n(3-5) obtain rp pl pr where n': "seg (rt_mem s1) (rt_sentinel s1) (rt_root s1) rp fs (fst e) (rb_parent n)"
      "shape (rt_mem s1) (rt_sentinel s1) pl (rb_left n) l" "shape (rt_mem s1) (rt_sentinel s1) pr (rb_right n) (plug gs q)" by blast
    have "well_placed s1 (addrs l @ fst e # fst b # addrs (plug gs q) @ fs_addrs fs)"
      using wp s1(3,5) by (auto simp: well_placed_def addrs_plug distinct_plug fsa)
    from take_place [OF n(1) holds_red [OF n(2)] n' s1(2) [unfolded m(1)] m(3,4) this] obtain s2 where
      s2: "take_place s1 (fst e) (fst b) = Some s2" "rep s2 (plug fs (Nd c l b (plug gs q)))" "keeps s1 s2"
      using b by auto
    have "adr s2 q = adr s q" "rt_sentinel s2 = rt_sentinel s" "dom (rt_mem s2) = dom (rt_mem s)"
      using s2(3) s1(3,4) by (auto simp: adr_def keeps_def split: rbt.splits)
    moreover have "lf_ok s2 q (case gs of [] \<Rightarrow> fst b | f # gs \<Rightarrow> fst (fst (snd (snd f))))"
      unfolding lf_ok_keeps [OF s2(3)] using s1(3,6) by (auto simp: lf_ok_def)
    ultimately show ?thesis using s1(1) s2(1,2) by (auto simp: plug_append)
  qed
  have pm: "p = fst (fst (snd (snd (hd (gs @ (Rgt, c, e, l) # fs)))))"
    by (rule rep_node [of s "gs @ (Rgt, c, e, l) # fs" Rgt k b q Lf])
      (use r m(1,2) in \<open>auto simp: plug_append rb_node_def\<close>)
  show ?thesis
  proof (cases gs)
    case Nil
    then have p: "p = fst e" using pm by simp
    have "rep s (plug ((Rgt, c, e, l) # fs) (mk Rgt k b q Lf))" using r Nil by simp
    from splice [OF this refl, of "fst b"] obtain s1 rp where
      s1: "cut_out s (fst b) (adr s q) (fst b) = Some s1"
        "seg (rt_mem s1) (rt_sentinel s1) (rt_root s1) rp ((Rgt, c, e, l) # fs) (adr s q) (fst e)"
        "shape (rt_mem s1) (rt_sentinel s1) (fst b) (adr s q) q" "well_placed s1 (addrs q @ fs_addrs ((Rgt, c, e, l) # fs))"
        "rt_mem s1 (fst b) = rt_mem s (fst b)" "rt_sentinel s1 = rt_sentinel s" "dom (rt_mem s1) = dom (rt_mem s)"
        "parent_of s1 (adr s q) = Some (fst b)" by blast
    from s1(2) obtain n where n: "rt_mem s1 (fst e) = Some n" "holds n c e" "rb_right n = adr s q"
      "shape (rt_mem s1) (rt_sentinel s1) (fst e) (rb_left n) l"
      "seg (rt_mem s1) (rt_sentinel s1) (rt_root s1) rp fs (fst e) (rb_parent n)" by (auto split: option.splits)
    show ?thesis
      by (rule step [of s1 n]) (use s1 n p Nil in auto)
  next
    case (Cons f hs)
    obtain d j x w where f: "f = (d, j, x, w)" by (metis prod_cases4)
    have p: "p = fst x" "p \<noteq> fst e" using pm Cons f wp by (auto simp: well_placed_def fsa)
    have eq: "(d, j, x, w) # hs @ (Rgt, c, e, l) # fs = gs @ (Rgt, c, e, l) # fs" using Cons f by simp
    have "rep s (plug ((d, j, x, w) # hs @ (Rgt, c, e, l) # fs) (mk Rgt k b q Lf))" using r unfolding eq by (simp add: plug_append)
    from splice [OF this refl, of "fst x", unfolded eq] obtain s1 where
      s1: "cut_out s (fst b) (adr s q) (fst x) = Some s1"
        "\<exists>rp. seg (rt_mem s1) (rt_sentinel s1) (rt_root s1) rp (gs @ (Rgt, c, e, l) # fs) (adr s q) (fst x)"
        "shape (rt_mem s1) (rt_sentinel s1) (fst x) (adr s q) q" "well_placed s1 (addrs q @ fs_addrs (gs @ (Rgt, c, e, l) # fs))"
        "rt_mem s1 (fst b) = rt_mem s (fst b)" "rt_sentinel s1 = rt_sentinel s" "dom (rt_mem s1) = dom (rt_mem s)"
        "parent_of s1 (adr s q) = Some (fst x)" by blast
    have "rep s1 (plug (gs @ (Rgt, c, e, l) # fs) q)" unfolding rep_focus focus_def using s1(2-4) by blast
    then have "rep s1 (plug fs (Nd c l e (plug gs q)))" by (simp add: plug_append)
    then obtain pa par where "focus s1 fs (Nd c l e (plug gs q)) pa par" unfolding rep_focus by blast
    then obtain n where n: "rt_mem s1 (fst e) = Some n" "holds n c e"
      "\<exists>rp. seg (rt_mem s1) (rt_sentinel s1) (rt_root s1) rp fs (fst e) (rb_parent n)"
      "shape (rt_mem s1) (rt_sentinel s1) (fst e) (rb_left n) l"
      "shape (rt_mem s1) (rt_sentinel s1) (fst e) (rb_right n) (plug gs q)"
      by (auto simp: focus_def split: option.splits)
    show ?thesis
      by (rule step [of s1 n]) (use s1 n p Cons f in auto)
  qed
qed

text \<open>
  The deletion of a timer of the tree takes exactly this timer out of the sorted list; the
  tree stays a red-black tree.
\<close>

lemma uwsgi_del_rb_timer_correct:
  assumes "timers s es" "e \<in> set es"
  shows "\<exists>s'. uwsgi_del_rb_timer s (fst e) = Some s' \<and> timers s' (filter (\<lambda>y. fst y \<noteq> fst e) es) \<and>
    rt_sentinel s' = rt_sentinel s \<and> dom (rt_mem s') = dom (rt_mem s)"
proof -
  let ?P = "\<lambda>y. fst y \<noteq> fst e"
  from assms(1) obtain t where t: "rep s t" "inv t" "\<not> red t" "inord t = es" "sorted (map val es)"
    by (auto simp: timers_def)
  have fin: ?thesis if "uwsgi_del_rb_timer s (fst e) = Some s'" "removed s s' (filter ?P es)" for s'
    using that sorted_filter [OF t(5)] by (auto simp: removed_def timers_def)
  have "fst e \<in> set (addrs t)" using assms(2) t(4) by (auto simp: addrs_inord)
  from focus_node [OF this, of "[]"] obtain fs c x l r where tp: "t = plug fs (Nd c l x r)" "fst x = fst e" by auto
  have rx: "rep s (plug fs (Nd c l x r))" using t(1) tp(1) by simp
  have wp: "well_placed s (addrs (Nd c l x r) @ fs_addrs fs)" using rep_placed [OF rx] .
  have P: "\<forall>y\<in>set (inord (plug fs Lf)). ?P y"
    using wp tp(2) addrs_plug [of fs Lf] by (auto simp: well_placed_def dest!: inord_addr)
  have part: "\<forall>y\<in>set (inord l) \<union> set (inord r). ?P y" using wp tp(2) by (auto simp: well_placed_def dest!: inord_addr)
  have del: "filter ?P es = inord (plug fs u)" if "inord u = inord l @ inord r" for u
    unfolding t(4) [symmetric] tp(1)
  proof (rule filter_inord_plug [OF _ P])
    show "filter ?P (inord (Nd c l x r)) = inord u" using part tp(2) that by simp
  qed
  obtain n where n: "rb_node s (fst x) = Some n" "child Lft n = adr s l" "child Rgt n = adr s r" "rb_red n = c"
    by (rule rep_node [of s fs Lft c x l r]) (use rx in \<open>auto simp: holds_red\<close>)
  have al: "adr s l = rt_sentinel s \<longleftrightarrow> l = Lf" and ar: "adr s r = rt_sentinel s \<longleftrightarrow> r = Lf"
    using adr_Lf [of s "(Lft, c, x, r) # fs" l] adr_Lf [of s "(Rgt, c, x, l) # fs" r] rx by simp_all
  show ?thesis
  proof (cases "l = Lf \<or> r = Lf")
    case True
    then obtain k q where q: "Nd c l x r = mk k c x q Lf" "inord q = inord l @ inord r" "del_choose s (fst x) = Some (fst x, adr s q)"
    proof
      assume "l = Lf"
      then show ?thesis using that [of Rgt r] n al by (simp add: del_choose_def)
    next
      assume "r = Lf"
      then show ?thesis using that [of Lft l] n al ar by (cases "l = Lf") (simp_all add: del_choose_def)
    qed
    from del_one_child [of s fs k c x q] rx q(1,3) t(2,3) tp(1) obtain s' where
      "uwsgi_del_rb_timer s (fst x) = Some s'" "removed s s' (inord (plug fs q))" by auto
    then show ?thesis using fin del [OF q(2)] tp(2) by simp
  next
    case False
    have "rep s (plug ((Rgt, c, x, l) # fs) r)" using rx by simp
    from min_loop [OF this] False obtain gs k b q where
      b: "min_loop s (adr s r) = Some (fst b)" "\<forall>f\<in>set gs. fst f = Lft" "r = plug gs (Nd k Lf b q)" by blast
    let ?fs = "gs @ (Rgt, c, x, l) # fs" and ?gs = "gs @ (Rgt, c, b, l) # fs"
    have rb: "rep s (plug ?fs (mk Rgt k b q Lf))" "rep s (plug fs (Nd c l x (plug gs (mk Rgt k b q Lf))))"
      using rx b(3) by (simp_all add: plug_append)
    obtain m where m: "rb_node s (fst b) = Some m" "rt_mem s (fst b) = Some m" "rb_left m = rt_sentinel s"
      "rb_right m = adr s q" "holds m k b" "fst b \<noteq> rt_root s"
      by (rule rep_node [OF rb(1)]) auto
    have root: "rt_root s \<noteq> rt_sentinel s" using rep_root [OF t(1)] adr_Lf [of s "[]" t] t(1) tp(1) plug_neq by auto
    have "adr s r \<noteq> 0" using wp False by (cases r) (auto simp: well_placed_def)
    then have ch: "del_choose s (fst x) = Some (fst b, adr s q)"
      using n al ar False b(1) m(1,3,4) root by (simp add: del_choose_def uwsgi_min_rb_timer_def)
    have "inv (plug ?fs (mk Rgt k b q Lf)) \<and> \<not> red (plug ?fs (mk Rgt k b q Lf))"
      using t(2,3) tp(1) b(3) by (simp add: plug_append)
    then have i: "inv (plug ?gs (mk Rgt k b q Lf))" "\<not> red (plug ?gs (mk Rgt k b q Lf))"
      unfolding inv_swap [of gs Rgt c b] using inv_swap [of gs Rgt c x l fs _ b] by blast+
    from move_up [OF rb(2) m(2) refl] m(5) obtain s1 s2 where
      s1: "cut_out s (fst b) (adr s q) (if rb_parent m = fst x then fst b else rb_parent m) = Some s1"
        "take_place s1 (fst x) (fst b) = Some s2" "rep s2 (plug ?gs q)" "adr s2 q = adr s q"
        "lf_ok s2 q (case gs of [] \<Rightarrow> fst b | f # gs \<Rightarrow> fst (fst (snd (snd f))))"
        "rt_sentinel s2 = rt_sentinel s" "dom (rt_mem s2) = dom (rt_mem s)" by (auto simp: holds_def)
    have "lf_ok s2 q (fst p)" if "?gs = (d, j, p, w) # hs" for d j p w hs
      using that s1(5) by (cases gs) auto
    with del_finish [OF s1(3)] hole_inv [OF i] obtain s3 T where
      s3: "(if k then Some s2 else do { (s, temp) \<leftarrow> fixup_loop s2 (adr s2 q); uwsgi_rbt_black s temp }) = Some s3"
        "keeps s2 s3" "rep s3 T" "inv T" "\<not> red T" "inord T = inord (plug ?gs q)" by blast
    have "fst b \<noteq> fst x" using wp b(3) by (auto simp: well_placed_def addrs_plug)
    then have run: "uwsgi_del_rb_timer s (fst x) = Some s3"
      using ch m holds_red [OF m(5)] s1(1,2,4) s3(1) by (cases k) (simp_all add: uwsgi_del_rb_timer_def)
    have "inord r = b # inord (plug gs q)" unfolding b(3) using inord_leftmost [OF b(2)] by simp
    then have "filter ?P es = inord (plug ?gs q)" using del [of "Nd c l b (plug gs q)"] by (simp add: plug_append)
    then show ?thesis using fin [of s3] run s3(2-6) s1(6,7) tp(2) by (auto simp: removed_def keeps_def)
  qed
qed

section \<open>The interface of a timer queue\<close>

lemma uwsgi_init_rb_timer_empty: "sentinel \<noteq> 0 \<Longrightarrow> timers (uwsgi_init_rb_timer sentinel) []"
  by (auto simp: timers_def rep_def focus_def uwsgi_init_rb_timer_def well_placed_def intro!: exI [of _ Lf])

lemma uwsgi_min_rb_timer_correct:
  assumes "timers s es"
  shows "uwsgi_min_rb_timer s 0 = Some (case es of [] \<Rightarrow> 0 | e # _ \<Rightarrow> fst e)"
proof -
  from assms obtain t where t: "rep s t" "inord t = es" by (auto simp: timers_def)
  have root: "rt_root s = adr s t" by (rule rep_root [OF t(1)])
  show ?thesis
  proof (cases "t = Lf")
    case True
    then show ?thesis using root t(2) by (auto simp: uwsgi_min_rb_timer_def)
  next
    case False
    from min_loop [of s "[]" t] t(1) False obtain gs c e r where
      m: "min_loop s (adr s t) = Some (fst e)" "\<forall>f\<in>set gs. fst f = Lft" "t = plug gs (Nd c Lf e r)" by auto
    have "es = e # inord (plug gs r)" using inord_leftmost [OF m(2), of "Nd c Lf e r" e r] m(3) t(2) by simp
    moreover have "adr s t \<noteq> rt_sentinel s" using adr_Lf [of s "[]" t] t(1) False by simp
    ultimately show ?thesis using m(1) root by (simp add: uwsgi_min_rb_timer_def)
  qed
qed

text \<open>A timer of the list is a node of the memory with its value and data.\<close>

lemma timers_node:
  assumes "timers s es" "e \<in> set es"
  obtains n where "rb_node s (fst e) = Some n" "rb_value n = val e" "rb_data n = snd (snd e)"
    "fst e \<noteq> 0" "fst e \<noteq> rt_sentinel s"
proof -
  from assms obtain t where t: "rep s t" "inord t = es" by (auto simp: timers_def)
  have "\<exists>gs c l r. plug fs t = plug gs (Nd c l e r)" if "e \<in> set (inord t)" for fs t
    using that
  proof (induction t arbitrary: fs)
    case (Nd c l x r)
    from Nd.prems consider "e \<in> set (inord l)" | "e = x" | "e \<in> set (inord r)" by auto
    then show ?case
    proof cases
      case 1
      from Nd.IH(1) [OF this, of "(Lft, c, x, r) # fs"] show ?thesis by simp
    next
      case 3
      from Nd.IH(2) [OF this, of "(Rgt, c, x, l) # fs"] show ?thesis by simp
    qed blast
  qed simp
  from this [of t "[]"] assms(2) t obtain gs c l r where "rep s (plug gs (Nd c l e r))" by auto
  then have "rep s (plug gs (mk Lft c e l r))" by simp
  then show ?thesis
    by (rule rep_node) (auto simp: holds_def intro: that)
qed

lemma timers_distinct: "timers s es \<Longrightarrow> distinct (map fst es)"
  by (auto simp: timers_def rep_def focus_def well_placed_def addrs_inord [symmetric])

lemma timers_sorted: "timers s es \<Longrightarrow> sorted (map val es)"
  by (auto simp: timers_def)

text \<open>The caller frees a node it has deleted.\<close>

definition rb_free :: "rbtree \<Rightarrow> nat \<Rightarrow> rbtree" where
  "rb_free s a = s\<lparr>rt_mem := (rt_mem s)(a := None)\<rparr>"

lemma rb_free_keeps:
  assumes "timers s es" "a \<notin> fst ` set es" "a \<noteq> rt_sentinel s"
  shows "timers (rb_free s a) es"
proof -
  from assms(1) obtain t where t: "rep s t" "inv t" "\<not> red t" "inord t = es" "sorted (map val es)"
    by (auto simp: timers_def)
  have "a \<notin> set (addrs t)" using assms(2) t(4) by (simp add: addrs_inord)
  then have "rep (rb_free s a) t"
    using t(1) assms(3) by (auto simp: rep_def focus_def well_placed_def rb_free_def)
  with t show ?thesis by (auto simp: timers_def)
qed

text \<open>What the users of the timers do: they add a timer in memory they have just allocated, or
  they delete one and free it.\<close>

datatype timer_op = Add nat nat nat | Del nat

definition timer_step :: "rbtree \<Rightarrow> timer_op \<Rightarrow> rbtree option" where
  "timer_step s x = (case x of
     Add a v d \<Rightarrow> uwsgi_add_rb_timer s a v d
   | Del a \<Rightarrow> map_option (\<lambda>s. rb_free s a) (uwsgi_del_rb_timer s a))"

definition list_step :: "elem list \<Rightarrow> timer_op \<Rightarrow> elem list" where
  "list_step es x = (case x of
     Add a v d \<Rightarrow> insert_timer (a, v, d) es
   | Del a \<Rightarrow> filter (\<lambda>e. fst e \<noteq> a) es)"

text \<open>A legal step allocates at a new address or deletes a timer that is there.\<close>

fun legal :: "nat set \<Rightarrow> elem list \<Rightarrow> timer_op list \<Rightarrow> bool" where
  "legal m es [] = True"
| "legal m es (Add a v d # xs) \<longleftrightarrow> a \<notin> m \<and> a \<noteq> 0 \<and> legal (insert a m) (list_step es (Add a v d)) xs"
| "legal m es (Del a # xs) \<longleftrightarrow> a \<in> fst ` set es \<and> legal (m - {a}) (list_step es (Del a)) xs"

primrec steps :: "('s \<Rightarrow> 'x \<Rightarrow> 's option) \<Rightarrow> 's \<Rightarrow> 'x list \<Rightarrow> 's option" where
  "steps f s [] = Some s"
| "steps f s (x # xs) = do { s \<leftarrow> f s x; steps f s xs }"

text \<open>The contract of a timer queue: its steps follow the sorted list, and the first timer is the
  head of the list.\<close>

locale timer_queue =
  fixes step :: "'s \<Rightarrow> timer_op \<Rightarrow> 's option"
    and first :: "'s \<Rightarrow> nat option"
    and view :: "'s \<Rightarrow> elem list \<Rightarrow> bool"
    and used :: "'s \<Rightarrow> nat set"
  assumes step_add: "view s es \<Longrightarrow> a \<notin> used s \<Longrightarrow> a \<noteq> 0 \<Longrightarrow>
      \<exists>s'. step s (Add a v d) = Some s' \<and> view s' (list_step es (Add a v d)) \<and> used s' = insert a (used s)"
    and step_del: "view s es \<Longrightarrow> a \<in> fst ` set es \<Longrightarrow>
      \<exists>s'. step s (Del a) = Some s' \<and> view s' (list_step es (Del a)) \<and> used s' = used s - {a}"
    and first_head: "view s es \<Longrightarrow> first s = Some (case es of [] \<Rightarrow> 0 | e # _ \<Rightarrow> fst e)"
begin

lemma steps_follow:
  assumes "view s es" "legal (used s) es xs"
  shows "\<exists>s'. steps step s xs = Some s' \<and> view s' (foldl list_step es xs) \<and>
    first s' = Some (case foldl list_step es xs of [] \<Rightarrow> 0 | e # _ \<Rightarrow> fst e)"
  using assms
proof (induction xs arbitrary: s es)
  case Nil
  then show ?case using first_head by simp
next
  case (Cons x xs)
  have "\<exists>s1. step s x = Some s1 \<and> view s1 (list_step es x) \<and> legal (used s1) (list_step es x) xs"
  proof (cases x)
    case (Add a v d)
    with Cons.prems(2) have "a \<notin> used s" "a \<noteq> 0" "legal (insert a (used s)) (list_step es x) xs" by simp_all
    with step_add [OF Cons.prems(1) this(1,2), of v d] Add show ?thesis by auto
  next
    case (Del a)
    with Cons.prems(2) have "a \<in> fst ` set es" "legal (used s - {a}) (list_step es x) xs" by simp_all
    with step_del [OF Cons.prems(1) this(1)] Del show ?thesis by auto
  qed
  then obtain s1 where s1: "step s x = Some s1" "view s1 (list_step es x)" "legal (used s1) (list_step es x) xs" by blast
  from Cons.IH [OF s1(2,3)] s1(1) show ?case by auto
qed

end

interpretation rb: timer_queue timer_step "\<lambda>s. uwsgi_min_rb_timer s 0" timers "\<lambda>s. dom (rt_mem s)"
proof unfold_locales
  fix s es a v d
  assume "timers s es" "a \<notin> dom (rt_mem s)" "a \<noteq> 0"
  then show "\<exists>s'. timer_step s (Add a v d) = Some s' \<and> timers s' (list_step es (Add a v d)) \<and>
      dom (rt_mem s') = insert a (dom (rt_mem s))"
    using uwsgi_add_rb_timer_correct [of s es a v d] by (auto simp: timer_step_def list_step_def domIff)
next
  fix s es a
  assume t: "timers s es" and "a \<in> fst ` set es"
  then obtain e where e: "e \<in> set es" "a = fst e" by blast
  from uwsgi_del_rb_timer_correct [OF t e(1)] obtain s1 where
    s1: "uwsgi_del_rb_timer s a = Some s1" "timers s1 (filter (\<lambda>y. fst y \<noteq> a) es)"
      "rt_sentinel s1 = rt_sentinel s" "dom (rt_mem s1) = dom (rt_mem s)" unfolding e(2) by blast
  have "a \<noteq> rt_sentinel s1" unfolding s1(3) e(2) by (rule timers_node [OF t e(1)])
  moreover have "a \<notin> fst ` set (filter (\<lambda>y. fst y \<noteq> a) es)" by auto
  ultimately have "timers (rb_free s1 a) (filter (\<lambda>y. fst y \<noteq> a) es)" using rb_free_keeps [OF s1(2)] by blast
  moreover have "dom (rt_mem (rb_free s1 a)) = dom (rt_mem s) - {a}" using s1(4) by (simp add: rb_free_def)
  ultimately show "\<exists>s'. timer_step s (Del a) = Some s' \<and> timers s' (list_step es (Del a)) \<and>
      dom (rt_mem s') = dom (rt_mem s) - {a}"
    using s1(1) by (simp add: timer_step_def list_step_def)
qed (rule uwsgi_min_rb_timer_correct)

section \<open>Properties\<close>

fun height :: "rbt \<Rightarrow> nat" where
  "height Lf = 0"
| "height (Nd c l e r) = Suc (max (height l) (height r))"

lemma height_bound: "inv t \<Longrightarrow> height t \<le> 2 * bh t + (if red t then 1 else 0)"
  by (induction t) (auto split: if_splits)

lemma size_bound: "inv t \<Longrightarrow> 2 ^ bh t \<le> length (inord t) + 1"
  by (induction t) auto

lemma timers_balanced: "timers s es \<Longrightarrow> \<exists>t. rep s t \<and> inord t = es \<and> 2 ^ height t \<le> (length es + 1) ^ 2"
proof -
  assume "timers s es"
  then obtain t where t: "rep s t" "inv t" "\<not> red t" "inord t = es" by (auto simp: timers_def)
  have "(2::nat) ^ height t \<le> 2 ^ (2 * bh t)" using height_bound [OF t(2)] t(3) by (intro power_increasing) auto
  also have "\<dots> = (2 ^ bh t) ^ 2" by (simp add: power_mult [symmetric] mult.commute)
  also have "\<dots> \<le> (length es + 1) ^ 2" using size_bound [OF t(2)] t(4) by (intro power_mono) auto
  finally show ?thesis using t(1,4) by blast
qed

text \<open>
  C4: after any steps of the users of the timers, from the empty tree on, no pointer is followed
  to nowhere, the tree holds the timers in the order of their values, those of the same value in
  the order they came, the first timer is the one of least value, and the depth of the tree is
  logarithmic in the number of timers.
\<close>

theorem rb_timers_follow_sorted_list:
  assumes "sentinel \<noteq> 0" "legal {sentinel} [] xs"
  shows "\<exists>s t es. steps timer_step (uwsgi_init_rb_timer sentinel) xs = Some s \<and> es = foldl list_step [] xs \<and>
    rep s t \<and> inord t = es \<and> sorted (map val es) \<and> 2 ^ height t \<le> (length es + 1) ^ 2 \<and>
    uwsgi_min_rb_timer s 0 = Some (case es of [] \<Rightarrow> 0 | e # _ \<Rightarrow> fst e)"
proof -
  have "legal (dom (rt_mem (uwsgi_init_rb_timer sentinel))) [] xs"
    using assms(2) by (simp add: uwsgi_init_rb_timer_def)
  from rb.steps_follow [OF uwsgi_init_rb_timer_empty [OF assms(1)] this] obtain s where
    s: "steps timer_step (uwsgi_init_rb_timer sentinel) xs = Some s" "timers s (foldl list_step [] xs)"
      "uwsgi_min_rb_timer s 0 = Some (case foldl list_step [] xs of [] \<Rightarrow> 0 | e # _ \<Rightarrow> fst e)" by blast
  from timers_balanced [OF s(2)] s(1,3) timers_sorted [OF s(2)] show ?thesis by blast
qed

theorem rb_timers_follow_sorted_list_witness:
  "\<exists>s. steps timer_step (uwsgi_init_rb_timer 1)
      [Add 2 30 0, Add 3 10 0, Add 4 20 0, Add 5 10 0, Add 6 40 0, Del 3, Add 3 5 0, Del 4] = Some s \<and>
    uwsgi_min_rb_timer s 0 = Some 3"
proof -
  have "legal {1} [] [Add 2 30 0, Add 3 10 0, Add 4 20 0, Add 5 10 0, Add 6 40 0, Del 3, Add 3 5 0, Del 4]"
    by (simp add: list_step_def insert_timer_def)
  from rb_timers_follow_sorted_list [OF _ this] show ?thesis
    by (auto simp: list_step_def insert_timer_def)
qed

end
