(* ===== verification/Httpproto.thy ===== *)
theory Httpproto
  imports Protos Request
begin

text \<open>
  The HTTP protocol of a socket, \<^verbatim>\<open>proto/http.c\<close>: a request is collected until its empty line and
  turned into a uwsgi packet; the other way round a request becomes the text that is sent to an
  HTTP backend.

  The area the request is read into (\<^verbatim>\<open>proto_parser_buf\<close>) is a memory, pointers into it are offsets.
  The header lines collected on the way are kept with their bytes: the area is not written
  again behind the line in work.
\<close>

section \<open>Configuration\<close>

datatype sockaddr = In4 bytes | In6 bytes

record hconf =
  hc_base :: pconf
  hc_proxy_protocol :: bool
  hc_manage_script_name :: bool
  hc_hostname :: bytes
  hc_socket_name :: bytes
  hc_peer :: sockaddr
  hc_ntop :: "sockaddr \<Rightarrow> bytes option"    \<comment> \<open>\<^verbatim>\<open>inet_ntop\<close>\<close>
  hc_https :: bytes

abbreviation hc_size :: "hconf \<Rightarrow> nat" where
  "hc_size c \<equiv> ps_buffer_size (hc_base c)"

definition slice :: "bytes \<Rightarrow> nat \<Rightarrow> nat \<Rightarrow> bytes" where
  "slice m a b = take (b - a) (drop a m)"

text \<open>\<^verbatim>\<open>uh->pktsize += proto_base_add_uwsgi_var(...)\<close>: a variable without room is left out.\<close>

definition add_var :: "hconf \<Rightarrow> preq \<Rightarrow> bytes \<Rightarrow> bytes \<Rightarrow> preq option" where
  "add_var c r key v = do {
     (n, r) \<leftarrow> proto_base_add_uwsgi_var (hc_base c) r key (take (length v mod 65536) v);
     grow_packet r n }"

section \<open>Header lines\<close>

text \<open>
  One pass over the line: the status, the position, and the three results (the length of the key,
  the offset of the value and its length).
\<close>

fun header_scan :: "nat \<Rightarrow> nat \<Rightarrow> nat \<times> nat \<times> nat \<Rightarrow> bytes \<Rightarrow> bytes \<times> nat \<times> nat \<times> nat" where
  "header_scan st i (kl, vo, vl) [] = ([], kl, vo, vl)"
| "header_scan st i (kl, vo, vl) (b # bs) =
     (if st = 0 then
        let b = toupper b; b = (if b = 45 then 95 else b);
            (bs, res) = (if b = 58 then header_scan 1 (i + 1) (i, vo, vl) bs
                         else header_scan 0 (i + 1) (kl, vo, vl) bs)
        in (b # bs, res)
      else
        let (bs, res) = (if st = 1 then
                           if b \<noteq> 32 then header_scan 2 (i + 1) (kl, vo + i, vl + 1) bs
                           else header_scan 1 (i + 1) (kl, vo, vl) bs
                         else header_scan 2 (i + 1) (kl, vo, vl + 1) bs)
        in (b # bs, res))"

text \<open>The rewritten line with the key, the value and whether the key gets the prefix; the inner
  \<open>None\<close> is the null pointer.\<close>

definition http_header_to_cgi :: "bytes \<Rightarrow> bytes \<times> (bytes \<times> bytes \<times> bool) option" where
  "http_header_to_cgi hh =
     (case header_scan 0 0 (0, 0, 0) hh of (hh, kl, vo, vl) \<Rightarrow>
        if kl = 0 then (hh, None)
        else (hh, Some (take kl hh, take vl (drop vo hh),
                \<not> uwsgi_strncmp (str ''CONTENT_LENGTH'') (take kl hh) \<and>
                \<not> uwsgi_strncmp (str ''CONTENT_TYPE'') (take kl hh))))"

definition http_add_uwsgi_header :: "hconf \<Rightarrow> preq \<Rightarrow> bytes \<Rightarrow> bytes \<Rightarrow> bool \<Rightarrow> (nat \<times> preq) option" where
  "http_add_uwsgi_header c r hh hv has_prefix = do {
     p \<leftarrow> pktsize_of r;
     let key = (if has_prefix then str ''HTTP_'' else []) @ hh;
     (if p + length key + length hv + 2 + 2 \<ge> hc_size c then Some (0, r)
      else do {
        a \<leftarrow> mem_write (pq_area r) (4 + p) (le16 (length key mod 65536) @ key @ le16 (length hv mod 65536) @ hv);
        Some ((2 + length key + 2 + length hv) mod 65536, r\<lparr>pq_area := a\<rparr>) }) }"

text \<open>A header with the name of an earlier one is appended to its value.\<close>

fun merge_header :: "(bytes \<times> bytes \<times> bool) list \<Rightarrow> bytes \<Rightarrow> bytes \<Rightarrow> bool \<Rightarrow> (bytes \<times> bytes \<times> bool) list" where
  "merge_header [] k v pre = [(k, v, pre)]"
| "merge_header ((k', v', pre') # hs) k v pre =
     (if length k = length k' \<and> k = k' then (k', v' @ str '', '' @ v, pre') # hs
      else (k', v', pre') # merge_header hs k v pre)"

section \<open>The PROXY line\<close>

text \<open>
  A field ends at \<open>stop\<close>; a line feed ends the line.  The results: the position behind, whether
  the line has ended, and the field, if its end was seen.
\<close>

function proxy_field :: "byte \<Rightarrow> bytes \<Rightarrow> nat \<Rightarrow> nat \<Rightarrow> nat \<Rightarrow> (nat \<times> bool \<times> (nat \<times> nat) option) option" where
  "proxy_field stop m base p e =
     (if p \<ge> e then Some (p, False, None)
      else case mem_get m p of None \<Rightarrow> None | Some b \<Rightarrow>
        if b = stop then Some (p + 1, False, Some (base, p))
        else if b = 10 then Some (p + 1, True, None)
        else proxy_field stop m base (p + 1) e)"
  by pat_completeness auto
termination by (relation "measure (\<lambda>(stop, m, base, p, e). e - p)") auto

declare proxy_field.simps [simp del]

function line_feed :: "bytes \<Rightarrow> nat \<Rightarrow> nat \<Rightarrow> nat option" where
  "line_feed m p e =
     (if p \<ge> e then Some p
      else case mem_get m p of None \<Rightarrow> None | Some b \<Rightarrow> if b = 10 then Some (p + 1) else line_feed m (p + 1) e)"
  by pat_completeness auto
termination by (relation "measure (\<lambda>(m, p, e). e - p)") auto

declare line_feed.simps [simp del]

text \<open>The source and the destination with their ports, each with its length as \<^verbatim>\<open>uint16_t\<close>.\<close>

record proxy =
  px_src :: "bytes option"
  px_dst :: "bytes option"
  px_src_port :: "bytes option"
  px_dst_port :: "bytes option"

definition field_bytes :: "bytes \<Rightarrow> (nat \<times> nat) option \<Rightarrow> bytes option" where
  "field_bytes m f = map_option (\<lambda>(a, b). take ((b - a) mod 65536) (drop a m)) f"

fun proxy_fields ::
  "(byte \<times> (bytes option \<Rightarrow> proxy \<Rightarrow> proxy)) list \<Rightarrow> bytes \<Rightarrow> nat \<Rightarrow> nat \<Rightarrow> proxy \<Rightarrow> (nat \<times> proxy) option"
where
  "proxy_fields [] m p e x = map_option (\<lambda>p. (p, x)) (line_feed m p e)"
| "proxy_fields ((stop, put) # fs) m p e x = do {
     (p, eol, f) \<leftarrow> proxy_field stop m p p e;
     let x = put (field_bytes m f) x;
     (if eol then Some (p, x) else proxy_fields fs m p e x) }"

text \<open>The first field, the protocol, is not kept.\<close>

definition proxy1_parse :: "bytes \<Rightarrow> nat \<Rightarrow> nat \<Rightarrow> (nat \<times> proxy) option" where
  "proxy1_parse m ptr e =
     (let x = \<lparr>px_src = None, px_dst = None, px_src_port = None, px_dst_port = None\<rparr> in
      if e - ptr > 6 then do {
        s \<leftarrow> mem_read m ptr 6;
        (if s \<noteq> str ''PROXY '' then Some (ptr, x)
         else proxy_fields
           [(32, \<lambda>f x. x), (32, \<lambda>f x. x\<lparr>px_src := f\<rparr>), (32, \<lambda>f x. x\<lparr>px_dst := f\<rparr>),
            (32, \<lambda>f x. x\<lparr>px_src_port := f\<rparr>), (13, \<lambda>f x. x\<lparr>px_dst_port := f\<rparr>)] m (ptr + 6) e x) }
      else Some (ptr, x))"

section \<open>The request line\<close>

text \<open>The method: everything up to the first space.\<close>

function method_loop :: "hconf \<Rightarrow> preq \<Rightarrow> bytes \<Rightarrow> nat \<Rightarrow> nat \<Rightarrow> nat \<Rightarrow> (nat \<times> preq) option" where
  "method_loop c r m base p e =
     (if p \<ge> e then Some (p, r)
      else case mem_get m p of None \<Rightarrow> None | Some b \<Rightarrow>
        if b = 32 then map_option (\<lambda>r. (p + 1, r)) (add_var c r (str ''REQUEST_METHOD'') (slice m base p))
        else method_loop c r m base (p + 1) e)"
  by pat_completeness auto
termination by (relation "measure (\<lambda>(c, r, m, base, p, e). e - p)") auto

declare method_loop.simps [simp del]

definition add_path :: "hconf \<Rightarrow> preq \<Rightarrow> bytes \<Rightarrow> nat \<Rightarrow> nat \<Rightarrow> nat \<Rightarrow> preq option option" where
  "add_path c r m base p e =
     (if e + (p - base) < hc_size c then
        map_option Some (add_var c r (str ''PATH_INFO'')
          (http_url_decode (take ((p - base) mod 65536) (drop base m))))
      else Some None)"

text \<open>The address; the inner \<open>None\<close> is the early return.\<close>

function uri_loop :: "hconf \<Rightarrow> preq \<Rightarrow> bytes \<Rightarrow> nat \<Rightarrow> nat option \<Rightarrow> nat \<Rightarrow> nat \<Rightarrow> (nat \<times> preq) option option" where
  "uri_loop c r m base qs p e =
     (if p \<ge> e then Some (Some (p, r))
      else case mem_get m p of None \<Rightarrow> None | Some b \<Rightarrow>
        if b = 63 \<and> qs = None then
          (case add_path c r m base p e of None \<Rightarrow> None
           | Some None \<Rightarrow> Some None
           | Some (Some r) \<Rightarrow> uri_loop c r m base (Some (p + 1)) (p + 1) e)
        else if b = 32 then do {
          r \<leftarrow> add_var c r (str ''REQUEST_URI'') (slice m base p);
          (case qs of
             None \<Rightarrow> do {
               x \<leftarrow> add_path c r m base p e;
               (case x of None \<Rightarrow> Some None
                | Some r \<Rightarrow> do { r \<leftarrow> add_var c r (str ''QUERY_STRING'') []; Some (Some (p + 1, r)) }) }
           | Some q \<Rightarrow> do { r \<leftarrow> add_var c r (str ''QUERY_STRING'') (slice m q p); Some (Some (p + 1, r)) }) }
        else uri_loop c r m base qs (p + 1) e)"
  by pat_completeness auto
termination by (relation "measure (\<lambda>(c, r, m, base, qs, p, e). e - p)") auto

declare uri_loop.simps [simp del]

function protocol_loop :: "hconf \<Rightarrow> preq \<Rightarrow> bytes \<Rightarrow> nat \<Rightarrow> nat \<Rightarrow> nat \<Rightarrow> (nat \<times> preq) option option" where
  "protocol_loop c r m base p e =
     (if p \<ge> e then Some (Some (p, r))
      else case mem_get m p of None \<Rightarrow> None | Some b \<Rightarrow>
        if b = 13 then
          if p + 1 \<ge> e then Some None
          else case mem_get m (p + 1) of None \<Rightarrow> None | Some b \<Rightarrow>
            if b \<noteq> 10 then Some None
            else map_option (\<lambda>r. Some (p + 2, r)) (add_var c r (str ''SERVER_PROTOCOL'') (slice m base p))
        else protocol_loop c r m base (p + 1) e)"
  by pat_completeness auto
termination by (relation "measure (\<lambda>(c, r, m, base, p, e). e - p)") auto

declare protocol_loop.simps [simp del]

section \<open>The headers\<close>

text \<open>
  The loop over the lines; \<open>base\<close> is the start of the line.  A line that begins with white space
  goes on with the header before it.  The results: the rewritten area and the headers; the inner
  \<open>None\<close> is an invalid request.
\<close>

function header_loop ::
  "bytes \<Rightarrow> (bytes \<times> bytes \<times> bool) list \<Rightarrow> nat \<Rightarrow> nat \<Rightarrow> nat \<Rightarrow>
   (bytes \<times> (bytes \<times> bytes \<times> bool) list) option option" where
  "header_loop m hs base p e =
     (if p \<ge> e then Some (Some (m, hs))
      else case mem_get m p of None \<Rightarrow> None | Some b \<Rightarrow>
        if b = 13 then
          if p + 1 \<ge> e then Some None
          else case mem_get m (p + 1) of None \<Rightarrow> None | Some b1 \<Rightarrow>
            if b1 \<noteq> 10 then Some None
            else case (if p + 2 < e then mem_get m (p + 2) else Some 0) of None \<Rightarrow> None | Some b2 \<Rightarrow>
              if p + 2 < e \<and> (b2 = 32 \<or> b2 = 9) then header_loop m hs base (p + 2) e
              else if p = base then Some (Some (m, hs))
              else case http_header_to_cgi (slice m base p) of (line, res) \<Rightarrow>
                case mem_write m base line of None \<Rightarrow> None | Some m \<Rightarrow>
                  case res of None \<Rightarrow> Some None
                  | Some (k, v, pre) \<Rightarrow> header_loop m (merge_header hs k v pre) (p + 2) (p + 2) e
        else header_loop m hs base (p + 1) e)"
  by pat_completeness auto
termination by (relation "measure (\<lambda>(m, hs, base, p, e). e - p)") auto

declare header_loop.simps [simp del]

text \<open>The headers go into the packet until one has no room; then the request is broken (1).\<close>

fun add_headers_loop :: "hconf \<Rightarrow> preq \<Rightarrow> (bytes \<times> bytes \<times> bool) list \<Rightarrow> (int \<times> preq) option" where
  "add_headers_loop c r [] = Some (0, r)"
| "add_headers_loop c r ((k, v, pre) # hs) =
     (case http_add_uwsgi_header c r k v pre of None \<Rightarrow> None | Some (n, r) \<Rightarrow>
      case pktsize_of r of None \<Rightarrow> None | Some old \<Rightarrow>
      case grow_packet r n of None \<Rightarrow> None | Some r \<Rightarrow>
      case pktsize_of r of None \<Rightarrow> None | Some new \<Rightarrow>
        if old = new then Some (1, r) else add_headers_loop c r hs)"

section \<open>The variables of the connection\<close>

definition v4_mapped :: "bytes \<Rightarrow> bool" where
  "v4_mapped a \<longleftrightarrow> take 10 a = replicate 10 0 \<and> take 2 (drop 10 a) = [255, 255]"

definition peer_text :: "hconf \<Rightarrow> bytes option" where
  "peer_text c = (case hc_peer c of
     In6 a \<Rightarrow> if v4_mapped a then hc_ntop c (In4 (take 4 (drop 12 a))) else hc_ntop c (In6 a)
   | In4 a \<Rightarrow> hc_ntop c (In4 a))"

definition server_vars :: "hconf \<Rightarrow> preq \<Rightarrow> proxy \<Rightarrow> preq option" where
  "server_vars c r x = do {
     r \<leftarrow> (if \<not> hc_manage_script_name c then add_var c r (str ''SCRIPT_NAME'') [] else Some r);
     r \<leftarrow> add_var c r (str ''SERVER_NAME'') (hc_hostname c);
     (case px_dst x of
        Some a \<Rightarrow> do {
          r \<leftarrow> add_var c r (str ''SERVER_ADDR'') a;
          (case px_dst_port x of Some p \<Rightarrow> add_var c r (str ''SERVER_PORT'') p | None \<Rightarrow> Some r) }
      | None \<Rightarrow> (case memchr 58 (hc_socket_name c) of
          Some i \<Rightarrow> add_var c r (str ''SERVER_PORT'') (drop (i + 1) (hc_socket_name c))
        | None \<Rightarrow> add_var c r (str ''SERVER_PORT'') (str ''80''))) }"

text \<open>The inner \<open>None\<close>: the address has no text.\<close>

definition remote_vars :: "hconf \<Rightarrow> preq \<Rightarrow> proxy \<Rightarrow> preq option option" where
  "remote_vars c r x =
     (case px_src x of
        Some a \<Rightarrow> do {
          r \<leftarrow> add_var c r (str ''REMOTE_ADDR'') a;
          map_option Some (case px_src_port x of Some p \<Rightarrow> add_var c r (str ''REMOTE_PORT'') p | None \<Rightarrow> Some r) }
      | None \<Rightarrow> (case peer_text c of
          None \<Rightarrow> Some None
        | Some t \<Rightarrow> map_option Some (add_var c r (str ''REMOTE_ADDR'') t)))"

section \<open>The parser\<close>

definition http_parse :: "hconf \<Rightarrow> preq \<Rightarrow> nat \<Rightarrow> (int \<times> preq) option" where
  "http_parse c r e = do {
     m \<leftarrow> pq_buf r;
     (p, x) \<leftarrow> (if hc_proxy_protocol c then proxy1_parse m 0 e
               else Some (0, \<lparr>px_src = None, px_dst = None, px_src_port = None, px_dst_port = None\<rparr>));
     (p, r) \<leftarrow> method_loop c r m p p e;
     u \<leftarrow> uri_loop c r m p None p e;
     (case u of None \<Rightarrow> Some (-1, r) | Some (p, r) \<Rightarrow> do {
        u \<leftarrow> protocol_loop c r m p p e;
        (case u of None \<Rightarrow> Some (-1, r) | Some (p, r) \<Rightarrow> do {
           r \<leftarrow> server_vars c r x;
           u \<leftarrow> remote_vars c r x;
           (case u of None \<Rightarrow> Some (-1, r) | Some r \<Rightarrow> do {
              r \<leftarrow> (if hc_https c \<noteq> [] then add_var c r (str ''HTTPS'') (hc_https c) else Some r);
              u \<leftarrow> header_loop m [] p p e;
              (case u of None \<Rightarrow> Some (-1, r)
               | Some (m, hs) \<Rightarrow> add_headers_loop c (r\<lparr>pq_buf := Some m\<rparr>) hs) }) }) }) }"

text \<open>The automaton that looks for the empty line: the number of its bytes seen, or the number of
  bytes read when it is found.\<close>

fun end_scan :: "nat \<Rightarrow> bytes \<Rightarrow> nat + nat" where
  "end_scan st [] = Inl st"
| "end_scan st (b # bs) =
     (if b = 13 \<and> (st = 0 \<or> st = 2) then map_sum id Suc (end_scan (st + 1) bs)
      else if b = 13 then map_sum id Suc (end_scan 1 bs)
      else if b = 10 \<and> st = 1 then map_sum id Suc (end_scan 2 bs)
      else if b = 10 \<and> st = 3 then Inr 1
      else map_sum id Suc (end_scan 0 bs))"

text \<open>What the plain and the encrypted parser do with the bytes they have read.\<close>

definition http_take :: "hconf \<Rightarrow> preq \<Rightarrow> bytes \<Rightarrow> (int \<times> preq) option" where
  "http_take c r bs = do {
     m \<leftarrow> pq_buf r;
     m \<leftarrow> mem_write m (pq_pos r) bs;
     let p = pq_pos r;
     let r = r\<lparr>pq_buf := Some m, pq_pos := p + length bs\<rparr>;
     (case end_scan (pq_status r) bs of
        Inl st \<Rightarrow> Some (1, r\<lparr>pq_status := st\<rparr>)
      | Inr n \<Rightarrow> do {
          let r = r\<lparr>pq_status := 3, pq_remains := length bs - n\<rparr>;
          let r = (if pq_remains r > 0 then r\<lparr>pq_remains_at := In_parser (pq_pos r - pq_remains r)\<rparr> else r);
          (ret, r) \<leftarrow> http_parse c r (p + n);
          (if ret \<noteq> 0 then Some (-1, r) else do { r \<leftarrow> set_modifiers (hc_base c) r; Some (0, r) }) }) }"

definition http_area :: "hconf \<Rightarrow> preq \<Rightarrow> preq" where
  "http_area c r = (case pq_buf r of
     None \<Rightarrow> r\<lparr>pq_buf := Some (replicate (hc_size c) (junk (ps_env (hc_base c))))\<rparr>
   | Some _ \<Rightarrow> r)"

definition uwsgi_proto_http_parser :: "hconf \<Rightarrow> preq \<Rightarrow> io \<Rightarrow> (int \<times> preq) option" where
  "uwsgi_proto_http_parser c r ev =
     (let r = http_area c r in
      if sz_sub (hc_size c) (pq_pos r) = 0 then Some (-1, r)
      else case sys_read (sz_sub (hc_size c) (pq_pos r)) ev of
        Bytes bs \<Rightarrow> if bs = [] then Some (-1, r) else http_take c r bs
      | Again \<Rightarrow> Some (1, r)
      | Broken \<Rightarrow> Some (-1, r))"

text \<open>
  The encrypted variant: \<^verbatim>\<open>SSL_read\<close> may ask for the connection to become writable and is then called
  again; \<open>wait\<close> is what \<^verbatim>\<open>uwsgi_wait_write_req\<close> returns.
\<close>

datatype ssl = Ssl_bytes bytes | Want_read | Want_write | Ssl_failed

fun uwsgi_proto_https_parser :: "hconf \<Rightarrow> preq \<Rightarrow> int list \<Rightarrow> ssl list \<Rightarrow> (int \<times> preq) option" where
  "uwsgi_proto_https_parser c r waits [] = None"
| "uwsgi_proto_https_parser c r waits (ev # evs) =
     (let r = http_area c r in
      if sz_sub (hc_size c) (pq_pos r) = 0 then Some (-1, r)
      else case ev of
        Ssl_bytes bs \<Rightarrow>
          let bs = take (sz_sub (hc_size c) (pq_pos r)) bs in
          if bs = [] then Some (-1, r) else http_take (c\<lparr>hc_https := str ''on''\<rparr>) r bs
      | Want_read \<Rightarrow> Some (1, r)
      | Want_write \<Rightarrow> (case waits of
            w # waits \<Rightarrow> if w \<le> 0 then Some (-1, r) else uwsgi_proto_https_parser c r waits evs
          | [] \<Rightarrow> None)
      | Ssl_failed \<Rightarrow> Some (-1, r))"

section \<open>Requests to HTTP backends\<close>

definition tolower :: "byte \<Rightarrow> byte" where
  "tolower b = (if 65 \<le> b \<and> b \<le> 90 then b + 32 else b)"

fun httpize :: "bool \<Rightarrow> bytes \<Rightarrow> bytes" where
  "httpize upper [] = []"
| "httpize upper (b # bs) =
     (if upper then b # httpize False bs
      else if b = 95 then 45 # httpize True bs
      else tolower b # httpize False bs)"

definition uwsgi_httpize_var :: "bytes \<Rightarrow> bytes" where
  "uwsgi_httpize_var s = httpize True s"

text \<open>The variables of the request, two entries of the vector each.\<close>

definition req_pairs :: "wsgi_request \<Rightarrow> (bytes \<times> bytes) list option" where
  "req_pairs r =
     (if odd (r_var_cnt r) \<or> length (r_hvec r) < r_var_cnt r then None
      else Some (map (\<lambda>i. (str_at r (r_hvec r ! (2 * i)), str_at r (r_hvec r ! (2 * i + 1)))) [0..<r_var_cnt r div 2]))"

text \<open>
  The loop over the headers: what is appended to the buffer, and the value of
  \<^verbatim>\<open>X-Forwarded-For\<close>.  The name is rewritten in the buffer right after it was appended; a name that
  is rewritten first gives the same bytes.
\<close>

fun http_lines :: "bool \<Rightarrow> bytes list \<Rightarrow> bytes \<Rightarrow> (bytes \<times> bytes) list \<Rightarrow> bytes list \<times> bytes" where
  "http_lines host drops xff [] = ([], xff)"
| "http_lines host drops xff ((k, v) # kvs) =
     (if uwsgi_starts_with k (str ''HTTP_'') then
        let h = drop 5 k in
        if host \<and> uwsgi_strncmp h (str ''HOST'') then http_lines host drops xff kvs
        else if \<exists>d\<in>set drops. uwsgi_strncmp h d then http_lines host drops xff kvs
        else if uwsgi_strncmp h (str ''X_FORWARDED_FOR'') then http_lines host drops v kvs
        else let (ls, xff) = http_lines host drops xff kvs in
             (uwsgi_httpize_var h # str '': '' # v # [13, 10] # ls, xff)
      else http_lines host drops xff kvs)"

definition to_http ::
  "cenv \<Rightarrow> bytes list \<Rightarrow> bytes list \<Rightarrow> bytes list \<Rightarrow> wsgi_request \<Rightarrow> bytes option \<Rightarrow> bytes option \<Rightarrow> ubuf option option" where
  "to_http e proto drops conn r host uri = do {
     kvs \<leftarrow> req_pairs r;
     let (ls, xff) = http_lines (host \<noteq> None) drops [] kvs;
     (ub, ret) \<leftarrow> append_all e (uwsgi_buffer_new e 4096)
       ([str_at r (r_method r), [32]] @
        [case uri of Some u \<Rightarrow> if u \<noteq> [] then u else str_at r (r_uri r) | None \<Rightarrow> str_at r (r_uri r)] @
        proto @ ls @
        (case host of Some h \<Rightarrow> [str ''Host: '', h, [13, 10]] | None \<Rightarrow> []) @
        (if snd (r_content_type r) > 0 then [str ''Content-Type: '', str_at r (r_content_type r), [13, 10]] else []));
     (if ret \<noteq> 0 then Some None else do {
        (ub, ret) \<leftarrow> (if r_post_cl r > 0 then do {
             (ub, ret) \<leftarrow> append_all e ub [str ''Content-Length: ''];
             (if ret \<noteq> 0 then Some (ub, ret) else do {
                (ub, ret) \<leftarrow> uwsgi_buffer_num64 e ub (sint (word_of_nat (r_post_cl r) :: u64));
                (if ret \<noteq> 0 then Some (ub, ret) else append_all e ub [[13, 10]]) }) }
           else Some (ub, 0));
        (if ret \<noteq> 0 then Some None else do {
           (ub, ret) \<leftarrow> append_all e ub
             (conn @ [str ''X-Forwarded-For: ''] @ (if xff \<noteq> [] then [xff, str '', ''] else []) @
              [str_at r (r_remote_addr r), [13, 10, 13, 10]]);
           Some (if ret \<noteq> 0 then None else Some ub) }) }) }"

definition uwsgi_to_http_dumb :: "cenv \<Rightarrow> wsgi_request \<Rightarrow> bytes option \<Rightarrow> bytes option \<Rightarrow> ubuf option option" where
  "uwsgi_to_http_dumb e r host uri = to_http e [[32], str_at r (r_protocol r), [13, 10]] [] [] r host uri"

definition uwsgi_to_http :: "cenv \<Rightarrow> wsgi_request \<Rightarrow> bytes option \<Rightarrow> bytes option \<Rightarrow> ubuf option option" where
  "uwsgi_to_http e r host uri =
     to_http e [str '' HTTP/1.0'' @ [13, 10]]
       [str ''CONNECTION'', str ''KEEP_ALIVE'', str ''TE'', str ''TRAILER'']
       [str ''Connection: close'' @ [13, 10]] r host uri"

fun full_scan :: "nat \<Rightarrow> bytes \<Rightarrow> int" where
  "full_scan st [] = 0"
| "full_scan st (b # bs) =
     (if st = 0 then full_scan (if b = 13 then 1 else 0) bs
      else if st = 1 then full_scan (if b = 10 then 2 else 0) bs
      else if st = 2 then full_scan (if b = 13 then 3 else 0) bs
      else if st = 3 then if b = 10 then 1 else full_scan 0 bs
      else full_scan 0 bs)"

definition uwsgi_is_full_http :: "ubuf \<Rightarrow> int option" where
  "uwsgi_is_full_http ub = map_option (full_scan 0) (mem_read (buf ub) 0 (bpos ub))"

section \<open>Keeping connections\<close>

text \<open>
  The slot of a core on an HTTP/1.1 socket: whether its connection is to be used again, and its
  file descriptor.  The results of closing: the slot, and whether the connection is closed now.
\<close>

record http11_slot =
  hs_retry :: bool
  hs_fd :: int

definition uwsgi_proto_http11_close ::
  "preq \<Rightarrow> int \<Rightarrow> nat \<Rightarrow> nat \<Rightarrow> bool \<Rightarrow> bytes \<Rightarrow> http11_slot \<times> bool" where
  "uwsgi_proto_http11_close r fd post_pos post_cl offloaded protocol =
     (if pq_write_errors r \<noteq> 0 \<or> pq_status r \<noteq> 3 \<or> pq_remains r > 0 \<or> post_pos < post_cl \<or> offloaded \<or>
         uwsgi_strncmp (str ''HTTP/1.0'') protocol
      then (\<lparr>hs_retry = False, hs_fd = -1\<rparr>, True)
      else (\<lparr>hs_retry = True, hs_fd = fd\<rparr>, False))"

text \<open>The descriptor of the next request: the one kept, when it becomes readable, or a new one.\<close>

definition uwsgi_proto_http11_accept :: "http11_slot \<Rightarrow> int \<Rightarrow> int \<Rightarrow> int \<times> http11_slot" where
  "uwsgi_proto_http11_accept s wait accepted =
     (if hs_retry s then
        if wait \<le> 0 then (-1, \<lparr>hs_retry = False, hs_fd = -1\<rparr>) else (hs_fd s, s)
      else (accepted, s))"

section \<open>Variables in a row\<close>

primrec add_vars :: "hconf \<Rightarrow> preq \<Rightarrow> (bytes \<times> bytes) list \<Rightarrow> preq option" where
  "add_vars c r [] = Some r"
| "add_vars c r (kv # kvs) = do { r \<leftarrow> add_var c r (fst kv) (snd kv); add_vars c r kvs }"

lemma add_vars_append: "add_vars c r (xs @ ys) = do { r \<leftarrow> add_vars c r xs; add_vars c r ys }"
  by (induction xs arbitrary: r) (auto split: bind_splits)

lemma add_var_fits:
  assumes "packet (hc_base c) r s" "length s + length (enc_var (k, v)) < hc_size c"
  shows "\<exists>a. add_var c r k v = Some (r\<lparr>pq_area := a\<rparr>) \<and> packet (hc_base c) (r\<lparr>pq_area := a\<rparr>) (s @ enc_var (k, v))"
proof -
  from put_pair_fits [OF assms] obtain a where
    a: "put_pair (hc_base c) r k v = Some (Some (r\<lparr>pq_area := a\<rparr>))" "packet (hc_base c) (r\<lparr>pq_area := a\<rparr>) (s @ enc_var (k, v))"
    by blast
  have "length v < 65536" using assms by (simp add: packet_def)
  then have "add_var c r k v = Some (r\<lparr>pq_area := a\<rparr>)"
    using a(1) by (auto simp: add_var_def put_pair_def split: bind_splits if_splits)
  with a(2) show ?thesis by blast
qed

lemma add_vars_fit:
  "packet (hc_base c) r s \<Longrightarrow> length s + length (enc_vars kvs) < hc_size c \<Longrightarrow>
   \<exists>a. add_vars c r kvs = Some (r\<lparr>pq_area := a\<rparr>) \<and> packet (hc_base c) (r\<lparr>pq_area := a\<rparr>) (s @ enc_vars kvs)"
proof (induction kvs arbitrary: r s)
  case Nil
  then show ?case by (auto intro: exI [of _ "pq_area r"])
next
  case (Cons kv kvs)
  obtain k v where kv: "kv = (k, v)" by (cases kv)
  have "length s + length (enc_var (k, v)) < hc_size c" using Cons.prems(2) kv by simp
  from add_var_fits [OF Cons.prems(1) this] obtain a where
    a: "add_var c r k v = Some (r\<lparr>pq_area := a\<rparr>)" "packet (hc_base c) (r\<lparr>pq_area := a\<rparr>) (s @ enc_var (k, v))" by blast
  from Cons.IH [OF a(2)] Cons.prems(2) kv a(1) show ?case by auto
qed

section \<open>The phases on a well-formed request\<close>

lemma method_skip:
  "32 \<notin> set xs \<Longrightarrow> length pre + length xs \<le> e \<Longrightarrow>
   method_loop c r (pre @ xs @ ys) base (length pre) e = method_loop c r (pre @ xs @ ys) base (length pre + length xs) e"
proof (induction xs arbitrary: pre)
  case (Cons x xs)
  have "method_loop c r (pre @ (x # xs) @ ys) base (length pre) e =
        method_loop c r (pre @ (x # xs) @ ys) base (length pre + 1) e"
    using Cons.prems by (subst method_loop.simps) (auto simp: mem_get_def)
  with Cons.IH [of "pre @ [x]"] Cons.prems show ?case by simp
qed simp

lemma slice_part: "slice (pre @ xs @ ys) (length pre) (length pre + length xs) = xs"
  by (simp add: slice_def)

lemma method_part:
  assumes "32 \<notin> set xs" "length pre + length xs < e"
  shows "method_loop c r (pre @ xs @ 32 # ys) (length pre) (length pre) e =
    map_option (\<lambda>r. (length pre + length xs + 1, r)) (add_vars c r [(str ''REQUEST_METHOD'', xs)])"
  unfolding method_skip [OF assms(1) less_imp_le [OF assms(2)]]
  using assms mem_get_at [of "pre @ xs" 32 ys] slice_part [of pre xs "32 # ys"]
  by (subst method_loop.simps) (auto split: bind_splits)

lemma uri_skip:
  "\<forall>b\<in>set xs. b \<noteq> 32 \<and> (b = 63 \<longrightarrow> qs \<noteq> None) \<Longrightarrow> length pre + length xs \<le> e \<Longrightarrow>
   uri_loop c r (pre @ xs @ ys) base qs (length pre) e = uri_loop c r (pre @ xs @ ys) base qs (length pre + length xs) e"
proof (induction xs arbitrary: pre)
  case (Cons x xs)
  have "uri_loop c r (pre @ (x # xs) @ ys) base qs (length pre) e =
        uri_loop c r (pre @ (x # xs) @ ys) base qs (length pre + 1) e"
    using Cons.prems by (subst uri_loop.simps) (auto simp: mem_get_def)
  with Cons.IH [of "pre @ [x]"] Cons.prems show ?case by simp
qed simp

text \<open>The target of a request: a path and perhaps a query.\<close>

definition target :: "bytes \<Rightarrow> bytes option \<Rightarrow> bytes" where
  "target p q = (case q of None \<Rightarrow> p | Some q \<Rightarrow> p @ 63 # q)"

definition uri_vars :: "bytes \<Rightarrow> bytes option \<Rightarrow> (bytes \<times> bytes) list" where
  "uri_vars p q = (case q of
     None \<Rightarrow> [(str ''REQUEST_URI'', p), (str ''PATH_INFO'', http_url_decode p), (str ''QUERY_STRING'', [])]
   | Some q \<Rightarrow> [(str ''PATH_INFO'', http_url_decode p), (str ''REQUEST_URI'', target p (Some q)), (str ''QUERY_STRING'', q)])"

lemma add_path_part:
  "length xs < 65536 \<Longrightarrow> e + length xs < hc_size c \<Longrightarrow>
   add_path c r (pre @ xs @ ys) (length pre) (length pre + length xs) e =
     map_option Some (add_var c r (str ''PATH_INFO'') (http_url_decode xs))"
  by (simp add: add_path_def)

lemma uri_part:
  assumes "32 \<notin> set p" "63 \<notin> set p" "\<And>x. q = Some x \<Longrightarrow> 32 \<notin> set x"
    and "length pre + length (target p q) < e" "length p < 65536" "e + length p < hc_size c"
  shows "uri_loop c r (pre @ target p q @ 32 # ys) (length pre) None (length pre) e =
    map_option (\<lambda>r. Some (length pre + length (target p q) + 1, r)) (add_vars c r (uri_vars p q))"
proof (cases q)
  case None
  have "uri_loop c r (pre @ p @ 32 # ys) (length pre) None (length pre) e =
        uri_loop c r (pre @ p @ 32 # ys) (length pre) None (length pre + length p) e"
    using assms None by (intro uri_skip) (auto simp: target_def)
  also have "\<dots> = map_option (\<lambda>r. Some (length pre + length p + 1, r)) (add_vars c r (uri_vars p None))"
    using assms(4-6) None mem_get_at [of "pre @ p" 32 ys] slice_part [of pre p "32 # ys"]
      add_path_part [of p e c _ pre "32 # ys"]
    by (subst uri_loop.simps) (auto simp: target_def uri_vars_def split: bind_splits)
  finally show ?thesis using None by (simp add: target_def)
next
  case (Some x)
  let ?m = "pre @ p @ 63 # x @ 32 # ys"
  have "uri_loop c r ?m (length pre) None (length pre) e = uri_loop c r ?m (length pre) None (length pre + length p) e"
    using assms Some by (intro uri_skip) (auto simp: target_def)
  also have "\<dots> = do { r \<leftarrow> add_var c r (str ''PATH_INFO'') (http_url_decode p);
      uri_loop c r ?m (length pre) (Some (length pre + length p + 1)) (length pre + length p + 1) e }"
    using assms(4-6) Some mem_get_at [of "pre @ p" 63 "x @ 32 # ys"] add_path_part [of p e c r pre "63 # x @ 32 # ys"]
    by (subst uri_loop.simps) (auto simp: target_def split: option.splits)
  finally have A: "uri_loop c r ?m (length pre) None (length pre) e = \<dots>" .
  have B: "uri_loop c r ?m (length pre) (Some (length pre + length p + 1)) (length pre + length p + 1) e =
      uri_loop c r ?m (length pre) (Some (length pre + length p + 1)) (length pre + length p + 1 + length x) e" for r
    using assms Some uri_skip [of x "Some (length pre + length p + 1)" "pre @ p @ [63]" e c r "32 # ys" "length pre"]
    by (auto simp: target_def)
  have C: "uri_loop c r ?m (length pre) (Some (length pre + length p + 1)) (length pre + length p + 1 + length x) e =
      map_option (\<lambda>r. Some (length pre + length p + 1 + length x + 1, r))
        (add_vars c r [(str ''REQUEST_URI'', p @ 63 # x), (str ''QUERY_STRING'', x)])" for r
    using assms(4) Some mem_get_at [of "pre @ p @ 63 # x" 32 ys] slice_part [of "pre @ p @ [63]" x "32 # ys"]
      slice_part [of pre "p @ 63 # x" "32 # ys"]
    by (subst uri_loop.simps) (auto simp: target_def ac_simps split: bind_splits)
  show ?thesis using A Some unfolding B C by (auto simp: target_def uri_vars_def add.assoc split: bind_splits option.splits)
qed

lemma protocol_skip:
  "13 \<notin> set xs \<Longrightarrow> length pre + length xs \<le> e \<Longrightarrow>
   protocol_loop c r (pre @ xs @ ys) base (length pre) e = protocol_loop c r (pre @ xs @ ys) base (length pre + length xs) e"
proof (induction xs arbitrary: pre)
  case (Cons x xs)
  have "protocol_loop c r (pre @ (x # xs) @ ys) base (length pre) e =
        protocol_loop c r (pre @ (x # xs) @ ys) base (length pre + 1) e"
    using Cons.prems by (subst protocol_loop.simps) (auto simp: mem_get_def)
  with Cons.IH [of "pre @ [x]"] Cons.prems show ?case by simp
qed simp

lemma protocol_part:
  assumes "13 \<notin> set xs" "length pre + length xs + 1 < e"
  shows "protocol_loop c r (pre @ xs @ 13 # 10 # ys) (length pre) (length pre) e =
    map_option (\<lambda>r. Some (length pre + length xs + 2, r)) (add_vars c r [(str ''SERVER_PROTOCOL'', xs)])"
proof -
  have "length pre + length xs \<le> e" using assms(2) by simp
  note skip = protocol_skip [OF assms(1) this]
  show ?thesis
    unfolding skip
    using assms mem_get_at [of "pre @ xs" 13 "10 # ys"] mem_get_at [of "pre @ xs @ [13]" 10 ys]
      slice_part [of pre xs "13 # 10 # ys"]
    by (subst protocol_loop.simps) (auto split: bind_splits)
qed

text \<open>A header line: the name, a colon, a space and the value.\<close>

definition header_ok :: "bytes \<times> bytes \<Rightarrow> bool" where
  "header_ok h \<longleftrightarrow> fst h \<noteq> [] \<and> 58 \<notin> set (fst h) \<and> hd (fst h) \<noteq> 32 \<and> hd (fst h) \<noteq> 9 \<and>
     (snd h \<noteq> [] \<longrightarrow> hd (snd h) \<noteq> 32) \<and> set (fst h @ snd h) \<inter> {10, 13} = {}"

definition head_line :: "bytes \<times> bytes \<Rightarrow> bytes" where
  "head_line h = fst h @ 58 # 32 # snd h"

definition prefixed :: "bytes \<Rightarrow> bool" where
  "prefixed k \<longleftrightarrow> cgi_name k \<noteq> str ''CONTENT_LENGTH'' \<and> cgi_name k \<noteq> str ''CONTENT_TYPE''"

text \<open>
  The headers of a request as CGI variables: one for each name, in the order in which the names
  first appear, with the values of all its lines.
\<close>

fun firsts :: "'a list \<Rightarrow> 'a list" where
  "firsts [] = []"
| "firsts (x # xs) = x # filter (\<lambda>y. y \<noteq> x) (firsts xs)"

definition joined :: "bytes list \<Rightarrow> bytes" where
  "joined vs = (case vs of [] \<Rightarrow> [] | v # vs \<Rightarrow> v @ concat (map (\<lambda>v. str '', '' @ v) vs))"

definition values_of :: "bytes \<Rightarrow> (bytes \<times> bytes) list \<Rightarrow> bytes list" where
  "values_of k hs = map snd (filter (\<lambda>h. cgi_name (fst h) = k) hs)"

definition plain_name :: "bytes \<Rightarrow> bool" where
  "plain_name k \<longleftrightarrow> k = str ''CONTENT_LENGTH'' \<or> k = str ''CONTENT_TYPE''"

definition merged :: "(bytes \<times> bytes) list \<Rightarrow> (bytes \<times> bytes \<times> bool) list" where
  "merged hs = map (\<lambda>k. (k, joined (values_of k hs), \<not> plain_name k)) (firsts (map (\<lambda>h. cgi_name (fst h)) hs))"

lemma set_firsts [simp]: "set (firsts xs) = set xs"
  by (induction xs) auto

lemma distinct_firsts: "distinct (firsts xs)"
  by (induction xs) auto

lemma firsts_snoc: "firsts (xs @ [x]) = (if x \<in> set xs then firsts xs else firsts xs @ [x])"
  by (induction xs) auto

lemma joined_snoc: "vs \<noteq> [] \<Longrightarrow> joined (vs @ [v]) = joined vs @ str '', '' @ v"
  by (cases vs) (simp_all add: joined_def)

lemma values_of_snoc: "values_of k (hs @ [h]) = values_of k hs @ (if cgi_name (fst h) = k then [snd h] else [])"
  by (simp add: values_of_def)

lemma values_of_Nil: "values_of k hs = [] \<longleftrightarrow> k \<notin> (\<lambda>h. cgi_name (fst h)) ` set hs"
  by (auto simp: values_of_def filter_empty_conv)

lemma merge_header_new: "k \<notin> set ks \<Longrightarrow> merge_header (map (\<lambda>k. (k, f k, g k)) ks) k v pre = map (\<lambda>k. (k, f k, g k)) ks @ [(k, v, pre)]"
  by (induction ks) auto

lemma merge_header_old:
  "distinct ks \<Longrightarrow> k \<in> set ks \<Longrightarrow> merge_header (map (\<lambda>k. (k, f k, g k)) ks) k v pre =
     map (\<lambda>x. (x, if x = k then f x @ str '', '' @ v else f x, g x)) ks"
  by (induction ks) auto

lemma merged_fold:
  "foldl (\<lambda>acc h. merge_header acc (cgi_name (fst h)) (snd h) (prefixed (fst h))) [] hs = merged hs"
proof (induction hs rule: rev_induct)
  case Nil
  show ?case by (simp add: merged_def)
next
  case (snoc h hs)
  let ?k = "cgi_name (fst h)" and ?ks = "firsts (map (\<lambda>h. cgi_name (fst h)) hs)"
  have pre: "prefixed (fst h) = (\<not> plain_name ?k)" by (simp add: prefixed_def plain_name_def)
  show ?case
  proof (cases "?k \<in> set ?ks")
    case True
    then have "values_of ?k hs \<noteq> []" "?k \<in> (\<lambda>h. cgi_name (fst h)) ` set hs" by (simp_all add: values_of_Nil)
    with snoc True show ?thesis
      by (simp add: merged_def merge_header_old [OF distinct_firsts True] firsts_snoc values_of_snoc joined_snoc pre
          del: set_firsts)
  next
    case False
    then have "values_of ?k hs = []" "?k \<notin> (\<lambda>h. cgi_name (fst h)) ` set hs" "\<And>x. x \<in> set ?ks \<Longrightarrow> ?k \<noteq> x"
      by (auto simp: values_of_Nil)
    with snoc False show ?thesis
      by (simp add: merged_def merge_header_new firsts_snoc values_of_snoc joined_def pre del: set_firsts)
  qed
qed

lemma toupper_colon [simp]: "toupper b = 58 \<longleftrightarrow> b = 58"
proof -
  have "b = 58" if "97 \<le> b" "b \<le> 122" "b - 32 = 58" for b :: byte
  proof -
    have "b = 58 + 32" using that(3) by (simp add: diff_eq_eq)
    with that(1) show ?thesis by simp
  qed
  then show ?thesis by (auto simp: toupper_def)
qed

lemma toupper_dash [simp]: "toupper b = 45 \<longleftrightarrow> b = 45"
proof -
  have "False" if "97 \<le> b" "b - 32 = 45" for b :: byte
  proof -
    have "b = 45 + 32" using that(2) by (simp add: diff_eq_eq)
    with that(1) show ?thesis by simp
  qed
  then show ?thesis by (auto simp: toupper_def)
qed

lemma header_scan_value: "st \<noteq> 0 \<Longrightarrow> st \<noteq> 1 \<Longrightarrow> header_scan st i (kl, vo, vl) bs = (bs, kl, vo, vl + length bs)"
proof (induction bs arbitrary: st i vl)
  case (Cons b bs)
  have "header_scan 2 (i + 1) (kl, vo, vl + 1) bs = (bs, kl, vo, vl + 1 + length bs)" by (rule Cons.IH) simp_all
  with Cons.prems show ?case by simp
qed simp

lemma header_scan_key:
  "58 \<notin> set k \<Longrightarrow> header_scan 0 i (kl, vo, vl) (k @ 58 # rest) =
     (case header_scan 1 (i + length k + 1) (i + length k, vo, vl) rest of (bs, res) \<Rightarrow> (cgi_name k @ 58 # bs, res))"
proof (induction k arbitrary: i)
  case Nil
  then show ?case by (simp add: cgi_name_def toupper_def split: prod.splits)
next
  case (Cons b k)
  then have "b \<noteq> 58" by auto
  with Cons show ?case by (auto simp: cgi_name_def Let_def split: prod.splits)
qed

lemma header_to_cgi:
  assumes "header_ok h"
  shows "http_header_to_cgi (head_line h) =
    (head_line (cgi_name (fst h), snd h), Some (cgi_name (fst h), snd h, prefixed (fst h)))"
proof -
  obtain k v where h: "h = (k, v)" by (cases h)
  have k: "58 \<notin> set k" "k \<noteq> []" using assms h by (auto simp: header_ok_def)
  have l: "length (cgi_name k) = length k" by (simp add: cgi_name_def)
  have "header_scan 1 (length k + 1) (length k, 0, 0) (32 # v) =
      (32 # v, length k, if v = [] then 0 else length k + 2, length v)"
  proof (cases v)
    case (Cons b bs)
    then have "b \<noteq> 32" using assms h by (auto simp: header_ok_def)
    with Cons show ?thesis using header_scan_value [of 2] by simp
  qed simp
  then have "header_scan 0 0 (0, 0, 0) (k @ 58 # 32 # v) =
      (cgi_name k @ 58 # 32 # v, length k, if v = [] then 0 else length k + 2, length v)"
    using header_scan_key [OF k(1), of 0 0 0 0 "32 # v"] by simp
  then show ?thesis
    using k(2) l h by (auto simp: http_header_to_cgi_def head_line_def prefixed_def uwsgi_strncmp_def)
qed

lemma header_skip:
  "13 \<notin> set xs \<Longrightarrow> length pre + length xs \<le> e \<Longrightarrow>
   header_loop (pre @ xs @ ys) hs base (length pre) e = header_loop (pre @ xs @ ys) hs base (length pre + length xs) e"
proof (induction xs arbitrary: pre)
  case (Cons x xs)
  have "header_loop (pre @ (x # xs) @ ys) hs base (length pre) e =
        header_loop (pre @ (x # xs) @ ys) hs base (length pre + 1) e"
    using Cons.prems by (subst header_loop.simps) (auto simp: mem_get_def)
  with Cons.IH [of "pre @ [x]"] Cons.prems show ?case by simp
qed simp

lemma header_part:
  assumes "header_ok h" "length pre + length (head_line h) + 2 < e" "b2 \<noteq> 32" "b2 \<noteq> 9"
  shows "header_loop (pre @ head_line h @ 13 # 10 # b2 # ys) hs (length pre) (length pre) e =
    (let pre' = pre @ head_line (cgi_name (fst h), snd h) @ [13, 10] in
     header_loop (pre' @ b2 # ys) (merge_header hs (cgi_name (fst h)) (snd h) (prefixed (fst h))) (length pre') (length pre') e)"
proof -
  let ?l = "head_line h" and ?l' = "head_line (cgi_name (fst h), snd h)"
  let ?m = "pre @ ?l @ 13 # 10 # b2 # ys"
  have l: "length ?l' = length ?l" "?l \<noteq> []" by (simp_all add: head_line_def cgi_name_def)
  have "13 \<notin> set ?l" using assms(1) by (auto simp: header_ok_def head_line_def)
  note skip = header_skip [OF this]
  have w: "mem_write ?m (length pre) ?l' = Some (pre @ ?l' @ 13 # 10 # b2 # ys)"
    using l by (simp add: mem_write_def)
  have "header_loop ?m hs (length pre) (length pre) e = header_loop ?m hs (length pre) (length pre + length ?l) e"
    using assms(2) by (intro skip) simp
  also have "\<dots> = header_loop (pre @ ?l' @ 13 # 10 # b2 # ys)
      (merge_header hs (cgi_name (fst h)) (snd h) (prefixed (fst h)))
      (length pre + length ?l + 2) (length pre + length ?l + 2) e"
    using assms(2-4) l w header_to_cgi [OF assms(1)] slice_part [of pre ?l "13 # 10 # b2 # ys"]
      mem_get_at [of "pre @ ?l" 13 "10 # b2 # ys"] mem_get_at [of "pre @ ?l @ [13]" 10 "b2 # ys"]
      mem_get_at [of "pre @ ?l @ [13, 10]" b2 ys]
    by (subst header_loop.simps) simp
  finally show ?thesis using l by (simp add: Let_def)
qed

definition header_lines :: "(bytes \<times> bytes) list \<Rightarrow> bytes" where
  "header_lines hs = concat (map (\<lambda>h. head_line h @ [13, 10]) hs)"

lemma headers_part:
  assumes "\<forall>h\<in>set hs. header_ok h" "e = length pre + length (header_lines hs) + 2"
  shows "header_loop (pre @ header_lines hs @ 13 # 10 # ys) acc (length pre) (length pre) e =
    Some (Some (pre @ header_lines (map (\<lambda>h. (cgi_name (fst h), snd h)) hs) @ 13 # 10 # ys,
      foldl (\<lambda>acc h. merge_header acc (cgi_name (fst h)) (snd h) (prefixed (fst h))) acc hs))"
  using assms
proof (induction hs arbitrary: pre acc)
  case Nil
  then show ?case
    using mem_get_at [of pre 13 "10 # ys"] mem_get_at [of "pre @ [13]" 10 ys]
    by (subst header_loop.simps) (simp add: header_lines_def)
next
  case (Cons h hs)
  let ?rest = "header_lines hs @ 13 # 10 # ys"
  let ?l = "head_line (cgi_name (fst h), snd h)"
  obtain b2 zs where b: "?rest = b2 # zs" "b2 \<noteq> 32" "b2 \<noteq> 9"
  proof (cases hs)
    case Nil
    then show ?thesis using that [of 13] by (simp add: header_lines_def)
  next
    case c: (Cons g gs)
    then have "fst g \<noteq> []" "hd (fst g) \<noteq> 32" "hd (fst g) \<noteq> 9" using Cons.prems(1) by (auto simp: header_ok_def)
    then show ?thesis using that [of "hd (fst g)"] c by (cases "fst g") (simp_all add: header_lines_def head_line_def)
  qed
  have l: "length ?l = length (head_line h)" by (simp add: head_line_def cgi_name_def)
  have "header_loop (pre @ head_line h @ 13 # 10 # ?rest) acc (length pre) (length pre) e =
     header_loop ((pre @ ?l @ [13, 10]) @ ?rest) (merge_header acc (cgi_name (fst h)) (snd h) (prefixed (fst h)))
       (length (pre @ ?l @ [13, 10])) (length (pre @ ?l @ [13, 10])) e"
    using header_part [of h pre e b2 zs acc] Cons.prems b by (simp add: Let_def header_lines_def)
  also have "\<dots> = Some (Some ((pre @ ?l @ [13, 10]) @ header_lines (map (\<lambda>h. (cgi_name (fst h), snd h)) hs) @ 13 # 10 # ys,
      foldl (\<lambda>acc h. merge_header acc (cgi_name (fst h)) (snd h) (prefixed (fst h)))
        (merge_header acc (cgi_name (fst h)) (snd h) (prefixed (fst h))) hs))"
    using Cons.prems l by (intro Cons.IH) (auto simp: header_lines_def)
  finally show ?case by (simp add: header_lines_def)
qed

section \<open>The packet of a request\<close>

definition header_var :: "bytes \<times> bytes \<times> bool \<Rightarrow> bytes \<times> bytes" where
  "header_var h = (case h of (k, v, pre) \<Rightarrow> ((if pre then str ''HTTP_'' else []) @ k, v))"

lemma add_header_fits:
  assumes "packet (hc_base c) r s" "length s + length (enc_var (header_var (k, v, pre))) < hc_size c"
  shows "\<exists>a. add_headers_loop c r ((k, v, pre) # hs) = add_headers_loop c (r\<lparr>pq_area := a\<rparr>) hs \<and>
    packet (hc_base c) (r\<lparr>pq_area := a\<rparr>) (s @ enc_var (header_var (k, v, pre)))"
proof -
  obtain key where key: "header_var (k, v, pre) = (key, v)" "key = (if pre then str ''HTTP_'' else []) @ k"
    by (simp add: header_var_def)
  from put_pair_fits [OF assms [unfolded key(1)]] obtain a where
    a: "put_pair (hc_base c) r key v = Some (Some (r\<lparr>pq_area := a\<rparr>))"
      "packet (hc_base c) (r\<lparr>pq_area := a\<rparr>) (s @ enc_var (key, v))" by blast
  have p: "pktsize_of r = Some (length s)" "hc_size c < 65536" using assms(1) by (auto simp: packet_def)
  have len: "length key + length v + 4 + length s < hc_size c" using assms(2) key by simp
  have "http_add_uwsgi_header c r k v pre = proto_base_add_uwsgi_var (hc_base c) r key v"
    unfolding http_add_uwsgi_header_def proto_base_add_uwsgi_var_def key(2) [symmetric]
    using p len by (simp add: Let_def add.commute add.left_commute)
  moreover obtain n r1 where n: "proto_base_add_uwsgi_var (hc_base c) r key v = Some (n, r1)" "grow_packet r1 n = Some (r\<lparr>pq_area := a\<rparr>)"
    using a(1) by (auto simp: put_pair_def split: bind_splits if_splits)
  moreover have "pktsize_of r1 = Some (length s)"
    using n(1) p mem_read_write_other [of "pq_area r" "4 + length s" _ _ 1 2]
    by (auto simp: proto_base_add_uwsgi_var_def rd_le_def split: if_splits bind_splits)
  moreover have "pktsize_of (r\<lparr>pq_area := a\<rparr>) = Some (length s + length (enc_var (key, v)))"
    using a(2) by (simp add: packet_def)
  ultimately have "add_headers_loop c r ((k, v, pre) # hs) = add_headers_loop c (r\<lparr>pq_area := a\<rparr>) hs" by simp
  with a(2) key(1) show ?thesis by auto
qed

lemma add_headers_fit:
  "packet (hc_base c) r s \<Longrightarrow> length s + length (enc_vars (map header_var hs)) < hc_size c \<Longrightarrow>
   \<exists>a. add_headers_loop c r hs = Some (0, r\<lparr>pq_area := a\<rparr>) \<and>
     packet (hc_base c) (r\<lparr>pq_area := a\<rparr>) (s @ enc_vars (map header_var hs))"
proof (induction hs arbitrary: r s)
  case Nil
  then show ?case by (auto intro: exI [of _ "pq_area r"])
next
  case (Cons h hs)
  obtain k v pre where h: "h = (k, v, pre)" by (metis prod_cases3)
  have "length s + length (enc_var (header_var (k, v, pre))) < hc_size c"
    using Cons.prems(2) h by (simp add: enc_vars_def)
  from add_header_fits [OF Cons.prems(1) this, of hs] obtain a where
    a: "add_headers_loop c r (h # hs) = add_headers_loop c (r\<lparr>pq_area := a\<rparr>) hs"
      "packet (hc_base c) (r\<lparr>pq_area := a\<rparr>) (s @ enc_var (header_var h))" unfolding h by blast
  from Cons.IH [OF a(2)] Cons.prems(2) a(1) show ?case by (auto simp: enc_vars_def)
qed

record http_req =
  rq_method :: bytes
  rq_path :: bytes
  rq_query :: "bytes option"
  rq_protocol :: bytes
  rq_headers :: "(bytes \<times> bytes) list"

definition request_line :: "http_req \<Rightarrow> bytes" where
  "request_line q = rq_method q @ 32 # target (rq_path q) (rq_query q) @ 32 # rq_protocol q"

definition http_head :: "http_req \<Rightarrow> bytes" where
  "http_head q = request_line q @ [13, 10] @ header_lines (rq_headers q) @ [13, 10]"

definition request_ok :: "http_req \<Rightarrow> bool" where
  "request_ok q \<longleftrightarrow> 32 \<notin> set (rq_method q) \<and> 32 \<notin> set (rq_path q) \<and> 63 \<notin> set (rq_path q) \<and>
     (\<forall>x. rq_query q = Some x \<longrightarrow> 32 \<notin> set x) \<and> set (request_line q) \<inter> {10, 13} = {} \<and>
     (\<forall>h\<in>set (rq_headers q). header_ok h)"

definition server_list :: "hconf \<Rightarrow> (bytes \<times> bytes) list" where
  "server_list c = (if hc_manage_script_name c then [] else [(str ''SCRIPT_NAME'', [])]) @
     [(str ''SERVER_NAME'', hc_hostname c),
      (str ''SERVER_PORT'', case memchr 58 (hc_socket_name c) of
         Some i \<Rightarrow> drop (i + 1) (hc_socket_name c) | None \<Rightarrow> str ''80'')]"

definition line_vars :: "hconf \<Rightarrow> http_req \<Rightarrow> bytes \<Rightarrow> (bytes \<times> bytes) list" where
  "line_vars c q peer =
     (str ''REQUEST_METHOD'', rq_method q) # uri_vars (rq_path q) (rq_query q) @
     (str ''SERVER_PROTOCOL'', rq_protocol q) # server_list c @ [(str ''REMOTE_ADDR'', peer)] @
     (if hc_https c = [] then [] else [(str ''HTTPS'', hc_https c)])"

definition request_vars :: "hconf \<Rightarrow> http_req \<Rightarrow> bytes \<Rightarrow> (bytes \<times> bytes) list" where
  "request_vars c q peer = line_vars c q peer @ map header_var (merged (rq_headers q))"

lemma server_vars_list:
  "server_vars c r \<lparr>px_src = None, px_dst = None, px_src_port = None, px_dst_port = None\<rparr> = add_vars c r (server_list c)"
  by (auto simp: server_vars_def server_list_def split: option.splits bind_splits)

lemma http_parse_head:
  assumes q: "request_ok q" and c: "\<not> hc_proxy_protocol c" "peer_text c = Some peer"
    and r: "pq_buf r = Some (http_head q @ ys)" "packet (hc_base c) r []"
    and fit: "length (enc_vars (request_vars c q peer)) < hc_size c" "length (http_head q) + length (rq_path q) < hc_size c"
  shows "\<exists>a m. http_parse c r (length (http_head q)) = Some (0, r\<lparr>pq_area := a, pq_buf := Some m\<rparr>) \<and>
    packet (hc_base c) (r\<lparr>pq_area := a, pq_buf := Some m\<rparr>) (enc_vars (request_vars c q peer)) \<and>
    length m = length (http_head q @ ys) \<and> drop (length (http_head q)) m = ys"
proof -
  let ?e = "length (http_head q)" and ?m = "http_head q @ ys"
  let ?t = "target (rq_path q) (rq_query q)"
  let ?h = "header_lines (rq_headers q)" and ?h' = "header_lines (map (\<lambda>h. (cgi_name (fst h), snd h)) (rq_headers q))"
  have ok: "32 \<notin> set (rq_method q)" "32 \<notin> set (rq_path q)" "63 \<notin> set (rq_path q)"
    "\<And>x. rq_query q = Some x \<Longrightarrow> 32 \<notin> set x" "13 \<notin> set (rq_protocol q)" "\<forall>h\<in>set (rq_headers q). header_ok h"
    using q by (auto simp: request_ok_def request_line_def)
  have e: "?e = length (rq_method q) + length ?t + length (rq_protocol q) + length ?h + 6"
    by (simp add: http_head_def request_line_def)
  have small: "length (rq_path q) < 65536" using fit(2) r(2) by (simp add: packet_def)
  let ?p1 = "rq_method q @ [32]" let ?p2 = "?p1 @ ?t @ [32]" let ?p3 = "?p2 @ rq_protocol q @ [13, 10]"
  have m1: "?m = [] @ rq_method q @ 32 # ?t @ 32 # rq_protocol q @ 13 # 10 # ?h @ 13 # 10 # ys"
    and m2: "?m = ?p1 @ ?t @ 32 # rq_protocol q @ 13 # 10 # ?h @ 13 # 10 # ys"
    and m3: "?m = ?p2 @ rq_protocol q @ 13 # 10 # ?h @ 13 # 10 # ys"
    and m4: "?m = ?p3 @ ?h @ 13 # 10 # ys"
    by (simp_all add: http_head_def request_line_def)
  have meth: "method_loop c r ?m 0 0 ?e = map_option (\<lambda>r. (length ?p1, r)) (add_vars c r [(str ''REQUEST_METHOD'', rq_method q)])" for r
    unfolding m1 using method_part [OF ok(1), of "[]"] e by simp
  have uri: "uri_loop c r ?m (length ?p1) None (length ?p1) ?e =
      map_option (\<lambda>r. Some (length ?p2, r)) (add_vars c r (uri_vars (rq_path q) (rq_query q)))" for r
    unfolding m2 using uri_part [OF ok(2-4), where pre = ?p1 and e = ?e and c = c and r = r] e small fit(2) by simp
  have proto: "protocol_loop c r ?m (length ?p2) (length ?p2) ?e =
      map_option (\<lambda>r. Some (length ?p3, r)) (add_vars c r [(str ''SERVER_PROTOCOL'', rq_protocol q)])" for r
    unfolding m3 using protocol_part [OF ok(5), where pre = ?p2 and e = ?e and c = c and r = r] e by (simp add: add.assoc)
  have heads: "header_loop ?m [] (length ?p3) (length ?p3) ?e = Some (Some (?p3 @ ?h' @ 13 # 10 # ys, merged (rq_headers q)))"
    unfolding m4 merged_fold [symmetric] using headers_part [OF ok(6), of ?e ?p3 ys "[]"] e by simp
  let ?m' = "?p3 @ ?h' @ 13 # 10 # ys"
  obtain m n1 n2 n3 m' where n: "m = ?m" "n1 = length ?p1" "n2 = length ?p2" "n3 = length ?p3" "m' = ?m'" by blast
  have run: "http_parse c r ?e = do { r \<leftarrow> add_vars c r (line_vars c q peer);
      add_headers_loop c (r\<lparr>pq_buf := Some m'\<rparr>) (merged (rq_headers q)) }"
    unfolding http_parse_def r(1)
    using c meth [folded n] uri [folded n] proto [folded n] heads [folded n] n(1)
    by (simp add: server_vars_list remote_vars_def line_vars_def add_vars_append bind_map_option o_def
        split: bind_splits option.splits)
  have f: "length [] + length (enc_vars (line_vars c q peer)) < hc_size c" using fit(1) by (simp add: request_vars_def enc_vars_def)
  from add_vars_fit [OF r(2) f] obtain a where
    a: "add_vars c r (line_vars c q peer) = Some (r\<lparr>pq_area := a\<rparr>)"
      "packet (hc_base c) (r\<lparr>pq_area := a\<rparr>) (enc_vars (line_vars c q peer))" by auto
  have "packet (hc_base c) (r\<lparr>pq_area := a, pq_buf := Some m'\<rparr>) (enc_vars (line_vars c q peer))"
    using a(2) by (simp add: packet_def)
  moreover have "length (enc_vars (line_vars c q peer)) + length (enc_vars (map header_var (merged (rq_headers q)))) < hc_size c"
    using fit(1) by (simp add: request_vars_def enc_vars_def)
  ultimately obtain b where
    b: "add_headers_loop c (r\<lparr>pq_area := a, pq_buf := Some m'\<rparr>) (merged (rq_headers q)) =
        Some (0, r\<lparr>pq_area := a, pq_buf := Some m'\<rparr>\<lparr>pq_area := b\<rparr>)"
      "packet (hc_base c) (r\<lparr>pq_area := a, pq_buf := Some m'\<rparr>\<lparr>pq_area := b\<rparr>) (enc_vars (request_vars c q peer))"
    using add_headers_fit by (fastforce simp: request_vars_def enc_vars_def)
  have h': "length ?h' = length ?h" by (simp add: header_lines_def head_line_def cgi_name_def o_def length_concat)
  obtain pre where pre: "pre = ?p3 @ ?h' @ [13, 10]" by blast
  have "m' = pre @ ys" "length pre = ?e" unfolding n(5) pre using h' by (simp_all add: http_head_def request_line_def)
  then have "drop ?e m' = ys" "length m' = length ?m" by simp_all
  then show ?thesis using run a(1) b by (rule_tac exI [of _ b], rule_tac exI [of _ m']) (simp add: packet_def)
qed

section \<open>The empty line\<close>

lemma end_scan_append:
  "end_scan st (xs @ ys) =
     (case end_scan st xs of Inl st \<Rightarrow> map_sum id (\<lambda>n. n + length xs) (end_scan st ys) | Inr n \<Rightarrow> Inr n)"
  by (induction st xs rule: end_scan.induct)
    (auto simp: sum.map_comp o_def sum.map_ident map_sum.id id_def split: sum.splits)

lemma end_scan_Inl:
  "end_scan st xs = Inl st' \<Longrightarrow> end_scan st (xs @ ys) = map_sum id (\<lambda>n. n + length xs) (end_scan st' ys)"
  by (simp add: end_scan_append)

lemma end_scan_text: "set xs \<inter> {10, 13} = {} \<Longrightarrow> end_scan st xs = Inl (if xs = [] then st else 0)"
  by (induction xs arbitrary: st) auto

lemma end_scan_line:
  assumes "set xs \<inter> {10, 13} = {}" "xs \<noteq> []"
  shows "end_scan st (xs @ [13, 10]) = Inl 2"
  using assms by (simp add: end_scan_append end_scan_text)

lemma end_scan_headers:
  "\<forall>h\<in>set hs. header_ok h \<Longrightarrow> end_scan 2 (header_lines hs) = Inl 2"
proof (induction hs)
  case (Cons h hs)
  have "set (head_line h) \<inter> {10, 13} = {}" "head_line h \<noteq> []"
    using Cons.prems by (auto simp: header_ok_def head_line_def)
  note line = end_scan_line [OF this, of 2]
  have "end_scan 2 ((head_line h @ [13, 10]) @ header_lines hs) = Inl 2"
    unfolding end_scan_Inl [OF line] using Cons by simp
  then show ?case by (simp add: header_lines_def)
qed (simp add: header_lines_def)

lemma end_scan_head:
  assumes "request_ok q"
  shows "end_scan 0 (http_head q @ ys) = Inr (length (http_head q))"
proof -
  have l: "set (request_line q) \<inter> {10, 13} = {}" "request_line q \<noteq> []" "\<forall>h\<in>set (rq_headers q). header_ok h"
    using assms by (auto simp: request_ok_def request_line_def)
  obtain pre where pre: "pre = (request_line q @ [13, 10]) @ header_lines (rq_headers q)" by blast
  have "end_scan 0 pre = Inl 2"
    unfolding pre end_scan_Inl [OF end_scan_line [OF l(1,2)]] end_scan_headers [OF l(3)] by simp
  then have "end_scan 0 (pre @ 13 # 10 # ys) = Inr (length pre + 2)" by (simp add: end_scan_append)
  moreover have "http_head q @ ys = pre @ 13 # 10 # ys" "length (http_head q) = length pre + 2"
    by (simp_all add: pre http_head_def)
  ultimately show ?thesis by simp
qed

section \<open>The parser and its pieces\<close>

definition http_seen :: "hconf \<Rightarrow> preq \<Rightarrow> bytes \<Rightarrow> bool" where
  "http_seen c r p \<longleftrightarrow> packet (hc_base c) r [] \<and> scgi_read (hc_base c) r p \<and> end_scan 0 p = Inl (pq_status r)"

text \<open>Unfinished input: the empty line has not come, and the area is not full.\<close>

definition http_pending :: "hconf \<Rightarrow> bytes \<Rightarrow> bool" where
  "http_pending c x \<longleftrightarrow> (\<exists>st. end_scan 0 x = Inl st) \<and> length x \<le> hc_size c"

lemma http_seen_write:
  assumes "http_seen c r p" "d \<noteq> []" "length (p @ d) \<le> hc_size c"
  obtains m0 m where "uwsgi_proto_http_parser c r (Bytes d) = http_take c (r\<lparr>pq_buf := Some m0\<rparr>) d"
    "mem_write m0 (pq_pos r) d = Some m" "length m = hc_size c" "take (length (p @ d)) m = p @ d" "pq_pos r = length p"
proof -
  obtain m0 where m0: "m0 = (case pq_buf r of None \<Rightarrow> replicate (hc_size c) (junk (ps_env (hc_base c))) | Some m \<Rightarrow> m)"
    by simp
  have r: "http_area c r = r\<lparr>pq_buf := Some m0\<rparr>" by (cases r) (auto simp: m0 http_area_def split: option.splits)
  have m0': "length m0 = hc_size c" "pq_pos r = length p" "take (length p) m0 = p"
    using assms(1) m0 by (auto simp: http_seen_def scgi_read_def split: option.splits)
  have bs: "hc_size c < 65536" using assms(1) by (simp add: http_seen_def packet_def)
  have pos: "0 < length d" using assms(2) by simp
  then have gt: "length p < hc_size c" using assms(3) unfolding length_append by linarith
  have room: "sz_sub (hc_size c) (length p) = hc_size c - length p" using assms(3) bs by (simp add: sz_simps)
  obtain m where m: "mem_write m0 (length p) d = Some m" using m0' assms(3) by (simp add: mem_write_def)
  have "uwsgi_proto_http_parser c r (Bytes d) = http_take c (r\<lparr>pq_buf := Some m0\<rparr>) d"
    unfolding uwsgi_proto_http_parser_def r using m0' assms(2,3) room gt by (simp add: sys_read_def Let_def)
  then show thesis using that m m0' mem_write_length [OF m] mem_write_upto [OF m] by auto
qed

lemma http_pending_step:
  assumes "http_seen c r p" "d \<noteq> []" "http_pending c (p @ d)"
  shows "\<exists>r'. uwsgi_proto_http_parser c r (Bytes d) = Some (1, r') \<and> http_seen c r' (p @ d)"
proof -
  have len: "length (p @ d) \<le> hc_size c" using assms(3) by (auto simp: http_pending_def)
  obtain m0 m where m: "uwsgi_proto_http_parser c r (Bytes d) = http_take c (r\<lparr>pq_buf := Some m0\<rparr>) d"
    "mem_write m0 (pq_pos r) d = Some m" "length m = hc_size c" "take (length (p @ d)) m = p @ d" "pq_pos r = length p"
    using http_seen_write [OF assms(1,2) len] by blast
  have st: "end_scan 0 p = Inl (pq_status r)" using assms(1) by (simp add: http_seen_def)
  obtain s where s: "end_scan 0 (p @ d) = Inl s" using assms(3) by (auto simp: http_pending_def)
  then have "end_scan (pq_status r) d = Inl s" using st
    by (cases "end_scan (pq_status r) d") (auto simp: end_scan_append)
  with m s assms(1) len show ?thesis
    by (auto simp: http_take_def http_seen_def scgi_read_def packet_def)
qed

lemma http_pending_prefix: "http_pending c (x @ y) \<Longrightarrow> http_pending c x"
  by (auto simp: http_pending_def end_scan_append split: sum.splits)

interpretation http_in: incremental "uwsgi_proto_http_parser c" "http_seen c" "http_pending c" for c
  using http_pending_step http_pending_prefix by unfold_locales

lemma map_sum_Inr: "map_sum f g x = Inr y \<longleftrightarrow> (\<exists>z. x = Inr z \<and> y = g z)"
  by (cases x) auto

lemma end_scan_le: "end_scan st xs = Inr n \<Longrightarrow> n \<le> length xs"
  by (induction st xs arbitrary: n rule: end_scan.induct) (auto simp: map_sum_Inr split: if_splits)

lemma http_last_piece:
  assumes seen: "http_seen c r p" "d \<noteq> []" "length (p @ d) \<le> hc_size c" "p @ d = http_head q @ rest"
    and q: "request_ok q" "\<not> hc_proxy_protocol c" "peer_text c = Some peer"
    and fit: "length (enc_vars (request_vars c q peer)) < hc_size c" "length (http_head q) + length (rq_path q) < hc_size c"
  shows "\<exists>r' m j. uwsgi_proto_http_parser c r (Bytes d) = Some (0, r') \<and>
     packet (hc_base c) r' (enc_vars (request_vars c q peer)) \<and> pq_remains r' = length rest \<and>
     (rest \<noteq> [] \<longrightarrow> pq_remains_at r' = In_parser j \<and> pq_buf r' = Some m \<and>
        mem_read m j (length rest) = Some rest)"
proof -
  let ?e = "length (http_head q)"
  obtain m0 m where m: "uwsgi_proto_http_parser c r (Bytes d) = http_take c (r\<lparr>pq_buf := Some m0\<rparr>) d"
    "mem_write m0 (pq_pos r) d = Some m" "length m = hc_size c" "take (length (p @ d)) m = p @ d" "pq_pos r = length p"
    using http_seen_write [OF seen(1-3)] by blast
  have "end_scan 0 p = Inl (pq_status r)" using seen(1) by (simp add: http_seen_def)
  note scan = end_scan_Inl [OF this, of d, unfolded seen(4) end_scan_head [OF q(1)]]
  then obtain n where n: "end_scan (pq_status r) d = Inr n" "n + length p = ?e"
    by (cases "end_scan (pq_status r) d") auto
  have len: "length d + length p = ?e + length rest" using arg_cong [OF seen(4), of length] by simp
  then have k: "length d - n = length rest" "length p + n = ?e" "length p + length d - length rest = ?e" using n(2) by simp_all
  obtain j r1 where r1: "r1 = r\<lparr>pq_buf := Some m, pq_pos := length p + length d, pq_status := 3, pq_remains := length rest,
      pq_remains_at := if rest = [] then pq_remains_at r else In_parser j\<rparr>" "j = ?e" by blast
  have run: "uwsgi_proto_http_parser c r (Bytes d) = do {
      (ret, r) \<leftarrow> http_parse c r1 ?e;
      (if ret \<noteq> 0 then Some (-1, r) else do { r \<leftarrow> set_modifiers (hc_base c) r; Some (0, r) }) }"
    unfolding m(1) http_take_def using m(2,5) n(1) k len by (simp add: r1)
  have "m = http_head q @ rest @ drop (length (p @ d)) m"
    using m(4) seen(4) by (metis append_assoc append_take_drop_id)
  then have buf: "pq_buf r1 = Some (http_head q @ rest @ drop (length (p @ d)) m)" by (simp add: r1)
  have "packet (hc_base c) r1 []" using seen(1) by (simp add: http_seen_def packet_def r1)
  from http_parse_head [OF q buf this fit] obtain a m' where
    m': "http_parse c r1 ?e = Some (0, r1\<lparr>pq_area := a, pq_buf := Some m'\<rparr>)"
      "packet (hc_base c) (r1\<lparr>pq_area := a, pq_buf := Some m'\<rparr>) (enc_vars (request_vars c q peer))"
      "drop ?e m' = rest @ drop (length (p @ d)) m" "length m' = length (http_head q @ rest @ drop (length (p @ d)) m)" by blast
  from set_modifiers_packet [OF m'(2)] obtain b where
    b: "set_modifiers (hc_base c) (r1\<lparr>pq_area := a, pq_buf := Some m'\<rparr>) = Some (r1\<lparr>pq_area := a, pq_buf := Some m'\<rparr>\<lparr>pq_area := b\<rparr>)"
      "packet (hc_base c) (r1\<lparr>pq_area := a, pq_buf := Some m'\<rparr>\<lparr>pq_area := b\<rparr>) (enc_vars (request_vars c q peer))" by blast
  have "mem_read m' ?e (length rest) = Some rest" using m'(3,4) by (simp add: mem_read_def)
  with run m'(1) b show ?thesis
    by (intro exI [of _ "r1\<lparr>pq_area := a, pq_buf := Some m'\<rparr>\<lparr>pq_area := b\<rparr>"] exI [of _ m'] exI [of _ ?e]) (simp add: r1)
qed

lemma http_feed:
  assumes "packet (hc_base c) r []" "pq_buf r = None" "pq_pos r = 0" "pq_status r = 0" "[] \<notin> set cs" "d \<noteq> []"
    and "concat cs @ d = http_head q @ rest" "length (concat cs @ d) \<le> hc_size c" "length (concat cs) < length (http_head q)"
    and "request_ok q" "\<not> hc_proxy_protocol c" "peer_text c = Some peer"
    and "length (enc_vars (request_vars c q peer)) < hc_size c" "length (http_head q) + length (rq_path q) < hc_size c"
  shows "\<exists>r' m j. feed (uwsgi_proto_http_parser c) r (cs @ [d]) = Some (0, r', []) \<and>
     packet (hc_base c) r' (enc_vars (request_vars c q peer)) \<and> pq_remains r' = length rest \<and>
     (rest \<noteq> [] \<longrightarrow> pq_remains_at r' = In_parser j \<and> pq_buf r' = Some m \<and> mem_read m j (length rest) = Some rest)"
proof -
  have scan: "end_scan 0 (concat cs @ d) = Inr (length (http_head q))"
    unfolding assms(7) by (rule end_scan_head [OF assms(10)])
  then have pend: "http_pending c (concat cs)"
    using assms(8,9) end_scan_le [of 0 "concat cs"] by (cases "end_scan 0 (concat cs)") (auto simp: http_pending_def end_scan_append)
  have seen: "http_seen c r []" using assms(1-4) by (simp add: http_seen_def scgi_read_def)
  have "\<exists>ret r'. feed (uwsgi_proto_http_parser c) r (cs @ [d]) = Some (ret, r', []) \<and>
     (ret = 0 \<and> packet (hc_base c) r' (enc_vars (request_vars c q peer)) \<and> pq_remains r' = length rest \<and>
      (\<exists>m j. rest \<noteq> [] \<longrightarrow> pq_remains_at r' = In_parser j \<and> pq_buf r' = Some m \<and> mem_read m j (length rest) = Some rest))"
    by (rule http_in.feed_last [OF seen assms(5) pend])
      (use http_last_piece [OF _ assms(6,8,7,10-14)] in fastforce)
  then show ?thesis by blast
qed

text \<open>
  C5: An HTTP request is read to its empty line however the connection cuts it: the packet built
  holds exactly the variables of the request line, of the server and of the headers (names in CGI
  form, equal ones merged), as the hooked parser reads it, and the bytes behind the empty line
  are kept as the start of the body.
\<close>

theorem uwsgi_proto_http_parser_correct:
  assumes "packet (hc_base c) r []" "pq_buf r = None" "pq_pos r = 0" "pq_status r = 0" "[] \<notin> set cs" "d \<noteq> []"
    and "concat cs @ d = http_head q @ rest" "length (concat cs @ d) \<le> hc_size c" "length (concat cs) < length (http_head q)"
    and "request_ok q" "\<not> hc_proxy_protocol c" "peer_text c = Some peer" "\<forall>kv\<in>set (request_vars c q peer). var_ok kv"
    and "length (enc_vars (request_vars c q peer)) < hc_size c" "length (http_head q) + length (rq_path q) < hc_size c"
  shows "\<exists>r' n calls. feed (uwsgi_proto_http_parser c) r (cs @ [d]) = Some (0, r', []) \<and>
     pktsize_of r' = Some n \<and> uwsgi_hooked_parse (drop 4 (pq_area r')) n = Some (0, calls) \<and>
     map (var_at (drop 4 (pq_area r'))) calls = request_vars c q peer \<and>
     (rest \<noteq> [] \<longrightarrow> (\<exists>r''. take_remains r' (length rest) = Some (rest, r'')))"
proof -
  from http_feed [OF assms(1-12,14,15)] obtain r' m j where
    r': "feed (uwsgi_proto_http_parser c) r (cs @ [d]) = Some (0, r', [])"
      "packet (hc_base c) r' (enc_vars (request_vars c q peer))" "pq_remains r' = length rest"
      "rest \<noteq> [] \<longrightarrow> pq_remains_at r' = In_parser j \<and> pq_buf r' = Some m \<and> mem_read m j (length rest) = Some rest" by blast
  obtain n calls where "pktsize_of r' = Some n" "uwsgi_hooked_parse (drop 4 (pq_area r')) n = Some (0, calls)"
    "map (var_at (drop 4 (pq_area r'))) calls = request_vars c q peer"
    using packet_parses [OF r'(2) assms(13)] by blast
  with r' show ?thesis by (auto simp: take_remains_def remains_area_def)
qed

definition http_small :: hconf where
  "http_small = \<lparr>hc_base = pconf_small\<lparr>ps_buffer_size := 300\<rparr>, hc_proxy_protocol = False, hc_manage_script_name = True,
     hc_hostname = str ''h'', hc_socket_name = str '':80'', hc_peer = In4 [1, 2, 3, 4], hc_ntop = (\<lambda>_. Some (str ''1.2.3.4'')),
     hc_https = []\<rparr>"

definition http_sample :: http_req where
  "http_sample = \<lparr>rq_method = str ''GET'', rq_path = str ''/a'', rq_query = Some (str ''b''), rq_protocol = str ''HTTP/1.0'',
     rq_headers = [(str ''Host'', str ''h''), (str ''Content-Length'', str ''2''), (str ''X-A'', str ''1''), (str ''x-a'', str ''2'')]\<rparr>"

lemma http_sample_vars:
  "request_vars http_small http_sample (str ''1.2.3.4'') =
     [(str ''REQUEST_METHOD'', str ''GET''), (str ''PATH_INFO'', str ''/a''), (str ''REQUEST_URI'', str ''/a?b''),
      (str ''QUERY_STRING'', str ''b''), (str ''SERVER_PROTOCOL'', str ''HTTP/1.0''), (str ''SERVER_NAME'', str ''h''),
      (str ''SERVER_PORT'', str ''80''), (str ''REMOTE_ADDR'', str ''1.2.3.4''), (str ''HTTP_HOST'', str ''h''),
      (str ''CONTENT_LENGTH'', str ''2''), (str ''HTTP_X_A'', str ''1, 2'')]"
  by code_simp

lemma http_sample_ok:
  "request_ok http_sample" "\<forall>kv\<in>set (request_vars http_small http_sample (str ''1.2.3.4'')). var_ok kv"
  "length (enc_vars (request_vars http_small http_sample (str ''1.2.3.4''))) < 300"
  "length (http_head http_sample) = 65" "length (rq_path http_sample) = 2"
  "peer_text http_small = Some (str ''1.2.3.4'')"
proof -
  show "request_ok http_sample"
    by (simp add: request_ok_def request_line_def http_sample_def target_def header_ok_def str_def ch_def)
  show "length (http_head http_sample) = 65"
    by (simp add: http_head_def request_line_def http_sample_def target_def header_lines_def head_line_def str_def)
  show "\<forall>kv\<in>set (request_vars http_small http_sample (str ''1.2.3.4'')). var_ok kv"
    "length (enc_vars (request_vars http_small http_sample (str ''1.2.3.4''))) < 300"
    unfolding http_sample_vars by (simp_all add: var_ok_def enc_var_def str_def)
qed (simp_all add: http_sample_def peer_text_def http_small_def str_def)

lemma http_small_packet: "packet (hc_base http_small) (preq_new 300) []"
  by (simp add: packet_def preq_new_def http_small_def pconf_small_def rd_le_def mem_read_def numeral_2_eq_2)

theorem uwsgi_proto_http_parser_correct_witness:
  "\<exists>r' n calls. feed (uwsgi_proto_http_parser http_small) (preq_new 300)
       [take 9 (http_head http_sample), drop 9 (http_head http_sample) @ [1, 2]] = Some (0, r', []) \<and>
     uwsgi_hooked_parse (drop 4 (pq_area r')) n = Some (0, calls) \<and>
     map (var_at (drop 4 (pq_area r'))) calls = request_vars http_small http_sample (str ''1.2.3.4'')"
proof -
  let ?q = "http_head http_sample"
  note q = http_sample_ok(4)
  have r: "pq_buf (preq_new 300) = None" "pq_pos (preq_new 300) = 0" "pq_status (preq_new 300) = 0"
    by (simp_all add: preq_new_def)
  have cut: "[] \<notin> set [take 9 ?q]" "drop 9 ?q @ [1, 2] \<noteq> []" "concat [take 9 ?q] @ drop 9 ?q @ [1, 2] = ?q @ [1, 2]"
    using q by auto
  have size: "hc_size http_small = 300" "\<not> hc_proxy_protocol http_small" by (simp_all add: http_small_def)
  have len: "length (concat [take 9 ?q] @ drop 9 ?q @ [1, 2]) \<le> hc_size http_small"
    "length (concat [take 9 ?q]) < length ?q"
    "length (enc_vars (request_vars http_small http_sample (str ''1.2.3.4''))) < hc_size http_small"
    "length ?q + length (rq_path http_sample) < hc_size http_small"
    unfolding size(1) using q http_sample_ok(3,5) by simp_all
  from uwsgi_proto_http_parser_correct [OF http_small_packet r cut len(1,2) http_sample_ok(1) size(2) http_sample_ok(6,2) len(3,4)]
  show ?thesis unfolding append_Cons append_Nil by blast
qed

end
