(* ===== verification/Subscription.thy ===== *)
theory Subscription
  imports Complex_Main Links Hash Protocol
begin

text \<open>
  The subscription system of the routers, \<^verbatim>\<open>core/subscription.c\<close>, and its use by
  \<^verbatim>\<open>plugins/corerouter\<close>: instances announce themselves under a key, a router picks one of them for
  every request.  A table indexed by the hash of the key holds chains of slots, doubly linked
  nodes of the heap, modelled by a store from addresses to slots (0 is the null pointer); each
  slot has a list of nodes, told apart by their addresses.  A pointer to nowhere has no result.
  Signatures and SNI (both only with SSL) are left out.
\<close>

section \<open>Slots, nodes, requests\<close>

record snode =
  sn_id :: nat
  sn_name :: bytes
  sn_modifier1 :: byte
  sn_modifier2 :: byte
  sn_last_check :: int
  sn_requests :: u64
  sn_last_requests :: u64
  sn_tx :: u64
  sn_rx :: u64
  sn_death_mark :: bool
  sn_reference :: u64
  sn_cores :: u64
  sn_load :: u64
  sn_failcnt :: u64
  sn_weight :: u64
  sn_wrr :: u64
  sn_unix_check :: int
  sn_pid :: int
  sn_uid :: int
  sn_gid :: int
  sn_notify :: bytes

record sslot =
  sl_key :: bytes
  sl_hash :: nat
  sl_hits :: u64
  sl_nodes :: "snode list"
  sl_prev :: nat
  sl_next :: nat

record subs =
  sb_table :: "nat \<Rightarrow> nat"
  sb_slots :: "nat \<Rightarrow> sslot option"

record sreq =
  us_key :: bytes
  us_address :: bytes
  us_modifier1 :: byte
  us_modifier2 :: byte
  us_cores :: u64
  us_load :: u64
  us_weight :: u64
  us_unix_check :: int
  us_sign :: bytes
  us_sni_key :: bytes
  us_sni_crt :: bytes
  us_sni_ca :: bytes
  us_pid :: int
  us_uid :: int
  us_gid :: int
  us_notify :: bytes

text \<open>
  The options: the tolerance, the directories of credentials, the algorithm.  \<^verbatim>\<open>stat\<close> answers with the
  owner and the group of a file; \<open>sc_fdiv\<close> is the division of two counters converted to \<^verbatim>\<open>double\<close>.
\<close>

datatype subscription_algo = Wrr | Lrc | Wlrc

record sconf =
  sc_tolerance :: int
  sc_dirs :: "bytes list"
  sc_stat :: "bytes \<Rightarrow> (int \<times> int) option"
  sc_algo :: subscription_algo
  sc_fdiv :: "u64 \<Rightarrow> u64 \<Rightarrow> rat"

definition slot_index :: "bytes \<Rightarrow> nat" where
  "slot_index key = unat (djb33x_hash key) mod 0xffff"

definition upd_slot :: "subs \<Rightarrow> nat \<Rightarrow> (sslot \<Rightarrow> sslot) \<Rightarrow> subs option" where
  "upd_slot s a f =
     (case sb_slots s a of None \<Rightarrow> None
      | Some v \<Rightarrow> Some (s\<lparr>sb_slots := (sb_slots s)(a \<mapsto> f v)\<rparr>))"

definition put_head :: "subs \<Rightarrow> nat \<Rightarrow> nat \<Rightarrow> subs" where
  "put_head s h a = s\<lparr>sb_table := (sb_table s)(h := a)\<rparr>"

definition slot_nodes :: "subs \<Rightarrow> nat \<Rightarrow> snode list option" where
  "slot_nodes s a = map_option sl_nodes (sb_slots s a)"

definition put_nodes :: "subs \<Rightarrow> nat \<Rightarrow> snode list \<Rightarrow> subs option" where
  "put_nodes s a ns = upd_slot s a (\<lambda>v. v\<lparr>sl_nodes := ns\<rparr>)"

fun find_node :: "nat \<Rightarrow> snode list \<Rightarrow> snode option" where
  "find_node n [] = None"
| "find_node n (nd # ns) = (if sn_id nd = n then Some nd else find_node n ns)"

definition upd_node :: "nat \<Rightarrow> (snode \<Rightarrow> snode) \<Rightarrow> snode list \<Rightarrow> snode list" where
  "upd_node n f = map (\<lambda>nd. if sn_id nd = n then f nd else nd)"

section \<open>Looking up a slot\<close>

text \<open>\<^verbatim>\<open>uwsgi_subscription_credentials_check\<close>.\<close>

fun credentials_loop :: "sconf \<Rightarrow> bytes list \<Rightarrow> bytes \<Rightarrow> sreq \<Rightarrow> bool" where
  "credentials_loop c [] key usr = False"
| "credentials_loop c (d # ds) key usr =
     (case sc_stat c (d @ key) of
        None \<Rightarrow> credentials_loop c ds key usr
      | Some (uid, gid) \<Rightarrow>
          if uid \<noteq> us_uid usr then credentials_loop c ds key usr
          else if gid \<noteq> us_gid usr then credentials_loop c ds key usr
          else True)"

definition uwsgi_subscription_credentials_check :: "sconf \<Rightarrow> bytes \<Rightarrow> sreq \<Rightarrow> bool" where
  "uwsgi_subscription_credentials_check c key usr = credentials_loop c (sc_dirs c) key usr"

text \<open>The walk over a chain; \<open>head\<close> is the entry of the table, where a walk that comes back stops.\<close>

partial_function (option) find_slot :: "subs \<Rightarrow> bytes \<Rightarrow> nat \<Rightarrow> nat \<Rightarrow> nat option" where
  "find_slot s key head a =
     (if a = 0 then Some 0
      else case sb_slots s a of None \<Rightarrow> None
      | Some v \<Rightarrow>
          if uwsgi_strncmp key (sl_key v) then Some a
          else if sl_next v = head then Some 0
          else find_slot s key head (sl_next v))"

text \<open>A slot with more hits than the one before it changes places with it.\<close>

definition move_up :: "subs \<Rightarrow> nat \<Rightarrow> nat \<Rightarrow> subs option" where
  "move_up s h a = do {
     v \<leftarrow> sb_slots s a;
     if sl_prev v = 0 then Some s
     else do {
       let prev = sl_prev v;
       p \<leftarrow> sb_slots s prev;
       if sl_hits v > sl_hits p then do {
         let parent = sl_prev p;
         s \<leftarrow> (if parent \<noteq> 0 then upd_slot s parent (\<lambda>u. u\<lparr>sl_next := a\<rparr>) else Some (put_head s h a));
         s \<leftarrow> (if sl_next v \<noteq> 0 then upd_slot s (sl_next v) (\<lambda>u. u\<lparr>sl_prev := prev\<rparr>) else Some s);
         s \<leftarrow> upd_slot s prev (\<lambda>u. u\<lparr>sl_prev := a, sl_next := sl_next v\<rparr>);
         upd_slot s a (\<lambda>u. u\<lparr>sl_next := prev, sl_prev := parent\<rparr>) }
       else Some s } }"

definition uwsgi_get_subscribe_slot :: "subs \<Rightarrow> bytes \<Rightarrow> (nat \<times> subs) option" where
  "uwsgi_get_subscribe_slot s key =
     (if length key > 0xff then Some (0, s)
      else do {
        let h = slot_index key;
        a \<leftarrow> find_slot s key (sb_table s h) (sb_table s h);
        if a = 0 then Some (0, s)
        else do { s \<leftarrow> move_up s h a; Some (a, s) } })"

section \<open>The algorithms\<close>

text \<open>
  An algorithm gets the nodes of the slot and, in the first step, the node it is asked about; it
  answers with the node chosen (0: none) and the nodes as it leaves them.
\<close>

definition take_node :: "nat \<Rightarrow> snode list \<Rightarrow> nat \<times> snode list" where
  "take_node n ns = (n, upd_node n (\<lambda>nd. nd\<lparr>sn_reference := sn_reference nd + 1\<rparr>) ns)"

fun lrc_loop :: "snode list \<Rightarrow> u64 \<Rightarrow> nat \<Rightarrow> nat" where
  "lrc_loop [] min_rc choosen = choosen"
| "lrc_loop (nd # ns) min_rc choosen =
     (if \<not> sn_death_mark nd \<and> (min_rc = 0 \<or> sn_reference nd < min_rc) then
        if sn_reference nd = 0 \<and>
           \<not> (case ns of [] \<Rightarrow> False
              | nx # _ \<Rightarrow> sn_reference nx \<le> sn_reference nd \<and> sn_last_requests nx \<le> sn_last_requests nd)
        then sn_id nd
        else lrc_loop ns (sn_reference nd) (sn_id nd)
      else lrc_loop ns min_rc choosen)"

definition uwsgi_subscription_algo_lrc :: "snode list \<Rightarrow> nat \<Rightarrow> (nat \<times> snode list) option" where
  "uwsgi_subscription_algo_lrc ns n =
     (if n \<noteq> 0 then Some (0, ns)
      else let choosen = lrc_loop ns 0 0 in
        Some (if choosen \<noteq> 0 then take_node choosen ns else (0, ns)))"

fun wlrc_loop :: "(u64 \<Rightarrow> u64 \<Rightarrow> rat) \<Rightarrow> snode list \<Rightarrow> rat \<Rightarrow> nat \<Rightarrow> nat" where
  "wlrc_loop fd [] min_rc choosen = choosen"
| "wlrc_loop fd (nd # ns) min_rc choosen =
     (let ref = fd (sn_reference nd) (sn_weight nd) in
      if \<not> sn_death_mark nd \<and> (min_rc = 0 \<or> ref < min_rc) then
        if ref = 0 \<and>
           \<not> (case ns of [] \<Rightarrow> False
              | nx # _ \<Rightarrow> fd (sn_reference nx) (sn_weight nx) \<le> ref \<and> sn_last_requests nx \<le> sn_last_requests nd)
        then sn_id nd
        else wlrc_loop fd ns ref (sn_id nd)
      else wlrc_loop fd ns min_rc choosen)"

definition uwsgi_subscription_algo_wlrc ::
  "(u64 \<Rightarrow> u64 \<Rightarrow> rat) \<Rightarrow> snode list \<Rightarrow> nat \<Rightarrow> (nat \<times> snode list) option" where
  "uwsgi_subscription_algo_wlrc fd ns n =
     (if n \<noteq> 0 then Some (0, ns)
      else let choosen = wlrc_loop fd ns 0 0 in
        Some (if choosen \<noteq> 0 then take_node choosen ns else (0, ns)))"

text \<open>The smallest weight of the nodes alive (0: none), and the last of them.\<close>

fun min_weight :: "snode list \<Rightarrow> u64 \<Rightarrow> u64" where
  "min_weight [] m = m"
| "min_weight (nd # ns) m =
     min_weight ns (if \<not> sn_death_mark nd \<and> (m = 0 \<or> sn_weight nd < m) then sn_weight nd else m)"

fun last_alive :: "snode list \<Rightarrow> nat \<Rightarrow> nat" where
  "last_alive [] n = n"
| "last_alive (nd # ns) n = last_alive ns (if sn_death_mark nd then n else sn_id nd)"

definition uwsgi_subscription_algo_wrr :: "snode list \<Rightarrow> nat \<Rightarrow> (nat \<times> snode list) option" where
  "uwsgi_subscription_algo_wrr ns n =
     (if n \<noteq> 0 then do {
        nd \<leftarrow> find_node n ns;
        if \<not> sn_death_mark nd \<and> sn_wrr nd > 0 then
          Some (n, upd_node n (\<lambda>nd. nd\<lparr>sn_wrr := sn_wrr nd - 1, sn_reference := sn_reference nd + 1\<rparr>) ns)
        else Some (0, ns) }
      else
        let m = min_weight ns 0; choosen = last_alive ns 0 in
        if choosen = 0 then Some (0, ns)
        else if m = 0 then None
        else
          let ns = map (\<lambda>nd. if sn_death_mark nd then nd else nd\<lparr>sn_wrr := sn_weight nd div m\<rparr>) ns in
          Some (choosen, upd_node choosen
            (\<lambda>nd. nd\<lparr>sn_wrr := sn_wrr nd - 1, sn_reference := sn_reference nd + 1\<rparr>) ns))"

definition run_algo :: "sconf \<Rightarrow> snode list \<Rightarrow> nat \<Rightarrow> (nat \<times> snode list) option" where
  "run_algo c ns n =
     (case sc_algo c of
        Wrr \<Rightarrow> uwsgi_subscription_algo_wrr ns n
      | Lrc \<Rightarrow> uwsgi_subscription_algo_lrc ns n
      | Wlrc \<Rightarrow> uwsgi_subscription_algo_wlrc (sc_fdiv c) ns n)"

definition uwsgi_subscription_set_algo :: "bytes option \<Rightarrow> sconf \<Rightarrow> sconf" where
  "uwsgi_subscription_set_algo algo c = c\<lparr>sc_algo :=
     (case algo of None \<Rightarrow> Wrr
      | Some a \<Rightarrow> if a = str ''wrr'' then Wrr else if a = str ''lrc'' then Lrc
                 else if a = str ''wlrc'' then Wlrc else Wrr)\<rparr>"

section \<open>Removing and choosing\<close>

text \<open>
  \<^verbatim>\<open>uwsgi_remove_subscribe_node\<close>: the node \<open>n\<close> of the slot \<open>a\<close> (\<^verbatim>\<open>node->slot\<close>).  The slot goes with its
  last node; then the result is 1.
\<close>

definition uwsgi_remove_subscribe_node :: "subs \<Rightarrow> nat \<Rightarrow> nat \<Rightarrow> (int \<times> subs) option" where
  "uwsgi_remove_subscribe_node s a n = do {
     v \<leftarrow> sb_slots s a;
     let ns = filter (\<lambda>nd. sn_id nd \<noteq> n) (sl_nodes v);
     s \<leftarrow> put_nodes s a ns;
     if ns \<noteq> [] then Some (0, s)
     else if sl_prev v = 0 \<and> sl_next v = 0 \<or> sl_next v = a then
       Some (1, put_head (s\<lparr>sb_slots := (sb_slots s)(a := None)\<rparr>) (sl_hash v) 0)
     else do {
       let s = (if sb_table s (sl_hash v) = a then put_head s (sl_hash v) (sl_next v) else s);
       s \<leftarrow> (if sl_prev v \<noteq> 0 then upd_slot s (sl_prev v) (\<lambda>u. u\<lparr>sl_next := sl_next v\<rparr>) else Some s);
       s \<leftarrow> (if sl_next v \<noteq> 0 then upd_slot s (sl_next v) (\<lambda>u. u\<lparr>sl_prev := sl_prev v\<rparr>) else Some s);
       Some (1, s\<lparr>sb_slots := (sb_slots s)(a := None)\<rparr>) } }"

text \<open>A node that has not been announced for longer than the tolerance is marked.\<close>

definition check_alive :: "sconf \<Rightarrow> int \<Rightarrow> snode \<Rightarrow> snode" where
  "check_alive c now nd =
     (if now - sn_last_check nd > sc_tolerance c
      then nd\<lparr>sn_failcnt := sn_failcnt nd + 1, sn_death_mark := True\<rparr> else nd)"

text \<open>
  The walk of \<^verbatim>\<open>uwsgi_get_subscribe_node\<close> over the nodes of the slot \<open>a\<close>; the list holds the nodes still
  to come, in their order (a pass takes away the node it looks at, no other).
\<close>

fun visit_nodes :: "sconf \<Rightarrow> int \<Rightarrow> nat \<Rightarrow> nat list \<Rightarrow> subs \<Rightarrow> (nat \<times> subs) option" where
  "visit_nodes c now a [] s = do {
     ns \<leftarrow> slot_nodes s a;
     (r, ns) \<leftarrow> run_algo c ns 0;
     s \<leftarrow> put_nodes s a ns;
     Some (r, s) }"
| "visit_nodes c now a (n # rest) s = do {
     ns \<leftarrow> slot_nodes s a;
     s \<leftarrow> put_nodes s a (upd_node n (check_alive c now) ns);
     ns \<leftarrow> slot_nodes s a;
     nd \<leftarrow> find_node n ns;
     if sn_death_mark nd \<and> sn_reference nd = 0 then do {
       (gone, s) \<leftarrow> uwsgi_remove_subscribe_node s a n;
       if gone = 1 then Some (0, s) else visit_nodes c now a rest s }
     else do {
       (r, ns) \<leftarrow> run_algo c ns n;
       s \<leftarrow> put_nodes s a ns;
       if r \<noteq> 0 then Some (r, s) else visit_nodes c now a rest s } }"

text \<open>The result is the slot and the node; without a node, 0.\<close>

definition uwsgi_get_subscribe_node :: "sconf \<Rightarrow> int \<Rightarrow> subs \<Rightarrow> bytes \<Rightarrow> ((nat \<times> nat) \<times> subs) option" where
  "uwsgi_get_subscribe_node c now s key =
     (if length key > 0xff then Some ((0, 0), s)
      else do {
        (a, s) \<leftarrow> uwsgi_get_subscribe_slot s key;
        if a = 0 then Some ((0, 0), s)
        else do {
          s \<leftarrow> upd_slot s a (\<lambda>v. v\<lparr>sl_hits := sl_hits v + 1\<rparr>);
          ns \<leftarrow> slot_nodes s a;
          (r, s) \<leftarrow> visit_nodes c now a (map sn_id ns) s;
          Some (if r = 0 then (0, 0) else (a, r), s) } })"

fun named_node :: "bytes \<Rightarrow> snode list \<Rightarrow> nat" where
  "named_node name [] = 0"
| "named_node name (nd # ns) = (if uwsgi_strncmp name (sn_name nd) then sn_id nd else named_node name ns)"

definition uwsgi_get_subscribe_node_by_name :: "subs \<Rightarrow> bytes \<Rightarrow> bytes \<Rightarrow> ((nat \<times> nat) \<times> subs) option" where
  "uwsgi_get_subscribe_node_by_name s key val =
     (if length key > 0xff then Some ((0, 0), s)
      else do {
        (a, s) \<leftarrow> uwsgi_get_subscribe_slot s key;
        if a = 0 then Some ((0, 0), s)
        else do {
          ns \<leftarrow> slot_nodes s a;
          Some (case named_node val ns of 0 \<Rightarrow> (0, 0) | n \<Rightarrow> (a, n), s) } })"

section \<open>Adding\<close>

text \<open>The node of a request; an address in the store comes from \<^verbatim>\<open>uwsgi_malloc\<close>.\<close>

definition new_node :: "int \<Rightarrow> nat \<Rightarrow> sreq \<Rightarrow> snode" where
  "new_node now n usr =
     \<lparr>sn_id = n, sn_name = us_address usr, sn_modifier1 = us_modifier1 usr, sn_modifier2 = us_modifier2 usr,
      sn_last_check = now, sn_requests = 0, sn_last_requests = 0, sn_tx = 0, sn_rx = 0,
      sn_death_mark = False, sn_reference = 0, sn_cores = us_cores usr, sn_load = us_load usr,
      sn_failcnt = 0, sn_weight = (if us_weight usr = 0 then 1 else us_weight usr), sn_wrr = 0,
      sn_unix_check = us_unix_check usr, sn_pid = us_pid usr, sn_uid = us_uid usr, sn_gid = us_gid usr,
      sn_notify = (if 0 < length (us_notify usr) \<and> length (us_notify usr) < 102 then us_notify usr else [])\<rparr>"

definition renew_node :: "int \<Rightarrow> sreq \<Rightarrow> snode \<Rightarrow> snode" where
  "renew_node now usr nd = nd\<lparr>sn_death_mark := False, sn_last_check := now, sn_cores := us_cores usr,
     sn_load := us_load usr, sn_weight := (if us_weight usr = 0 then 1 else us_weight usr), sn_last_requests := 0\<rparr>"

text \<open>The last slot of a chain (0: the chain is empty).\<close>

partial_function (option) last_slot :: "subs \<Rightarrow> nat \<Rightarrow> nat \<Rightarrow> nat option" where
  "last_slot s old a =
     (if a = 0 then Some old
      else case sb_slots s a of None \<Rightarrow> None | Some v \<Rightarrow> last_slot s a (sl_next v))"

text \<open>
  \<^verbatim>\<open>uwsgi_add_subscribe_node\<close>.  A new slot has the address \<open>a\<close>, a new node the address \<open>n\<close>.  The key of a
  new slot is copied into an array of 255 bytes and a null byte is put behind it, whatever its
  length: from 255 bytes on this leaves the array.
\<close>

definition uwsgi_add_subscribe_node ::
  "sconf \<Rightarrow> int \<Rightarrow> nat \<Rightarrow> nat \<Rightarrow> subs \<Rightarrow> sreq \<Rightarrow> ((nat \<times> nat) \<times> subs) option" where
  "uwsgi_add_subscribe_node c now a n s usr = do {
     (cur, s) \<leftarrow> uwsgi_get_subscribe_slot s (us_key usr);
     if length (us_address usr) > 0xff \<or> length (us_address usr) = 0 then Some ((0, 0), s)
     else if cur \<noteq> 0 then do {
       v \<leftarrow> sb_slots s cur;
       if sc_dirs c \<noteq> [] \<and> \<not> uwsgi_subscription_credentials_check c (sl_key v) usr then Some ((0, 0), s)
       else case named_node (us_address usr) (sl_nodes v) of
           0 \<Rightarrow> do {
             s \<leftarrow> put_nodes s cur (sl_nodes v @ [new_node now n usr]);
             Some ((cur, n), s) }
         | old \<Rightarrow> do {
             s \<leftarrow> put_nodes s cur (upd_node old (renew_node now usr) (sl_nodes v));
             Some ((cur, old), s) } }
     else if length (us_key usr) > 0xff then None
     else if sc_dirs c \<noteq> [] \<and> \<not> uwsgi_subscription_credentials_check c (us_key usr) usr then Some ((0, 0), s)
     else if length (us_key usr) = 0xff then None
     else do {
       let h = slot_index (us_key usr);
       old \<leftarrow> last_slot s 0 (sb_table s h);
       s \<leftarrow> (if old \<noteq> 0 then upd_slot s old (\<lambda>u. u\<lparr>sl_next := a\<rparr>) else Some s);
       let s = s\<lparr>sb_slots := (sb_slots s)(a \<mapsto> \<lparr>sl_key = us_key usr, sl_hash = h, sl_hits = 0,
                 sl_nodes = [new_node now n usr], sl_prev = old, sl_next = 0\<rparr>)\<rparr>;
       Some ((a, n), if sb_table s h = 0 \<or> old = 0 then put_head s h a else s) } }"

definition uwsgi_no_subscriptions :: "subs \<Rightarrow> bool" where
  "uwsgi_no_subscriptions s = list_all (\<lambda>i. sb_table s i = 0) [0..<0xffff]"

definition uwsgi_subscription_init_ht :: subs where
  "uwsgi_subscription_init_ht = \<lparr>sb_table = (\<lambda>_. 0), sb_slots = (\<lambda>_. None)\<rparr>"

section \<open>The routers\<close>

text \<open>\<^verbatim>\<open>corerouter_manage_subscription\<close>, the hook for the pairs of a packet.\<close>

definition corerouter_manage_subscription :: "bytes \<Rightarrow> bytes \<Rightarrow> sreq \<Rightarrow> sreq option" where
  "corerouter_manage_subscription key val usr =
     (if uwsgi_strncmp (str ''key'') key then Some (usr\<lparr>us_key := val\<rparr>)
      else if uwsgi_strncmp (str ''address'') key then Some (usr\<lparr>us_address := val\<rparr>)
      else if uwsgi_strncmp (str ''modifier1'') key then
        map_option (\<lambda>n. usr\<lparr>us_modifier1 := ucast n\<rparr>) (uwsgi_str_num val)
      else if uwsgi_strncmp (str ''modifier2'') key then
        map_option (\<lambda>n. usr\<lparr>us_modifier2 := ucast n\<rparr>) (uwsgi_str_num val)
      else if uwsgi_strncmp (str ''cores'') key then map_option (\<lambda>n. usr\<lparr>us_cores := n\<rparr>) (uwsgi_str_num val)
      else if uwsgi_strncmp (str ''load'') key then map_option (\<lambda>n. usr\<lparr>us_load := n\<rparr>) (uwsgi_str_num val)
      else if uwsgi_strncmp (str ''weight'') key then map_option (\<lambda>n. usr\<lparr>us_weight := n\<rparr>) (uwsgi_str_num val)
      else if uwsgi_strncmp (str ''unix'') key then
        map_option (\<lambda>n. usr\<lparr>us_unix_check := u64_to_i64 n\<rparr>) (uwsgi_str_num val)
      else if uwsgi_strncmp (str ''sign'') key then Some (usr\<lparr>us_sign := val\<rparr>)
      else if uwsgi_strncmp (str ''sni_key'') key then Some (usr\<lparr>us_sni_key := val\<rparr>)
      else if uwsgi_strncmp (str ''sni_crt'') key then Some (usr\<lparr>us_sni_crt := val\<rparr>)
      else if uwsgi_strncmp (str ''sni_ca'') key then Some (usr\<lparr>us_sni_ca := val\<rparr>)
      else if uwsgi_strncmp (str ''notify'') key then Some (usr\<lparr>us_notify := val\<rparr>)
      else Some usr)"

fun manage_vars :: "(bytes \<times> bytes) list \<Rightarrow> sreq \<Rightarrow> sreq option" where
  "manage_vars [] usr = Some usr"
| "manage_vars ((k, v) # kvs) usr = do {
     usr \<leftarrow> corerouter_manage_subscription k v usr;
     manage_vars kvs usr }"

definition blank_sreq :: "int \<times> int \<times> int \<Rightarrow> sreq" where
  "blank_sreq cred =
     \<lparr>us_key = [], us_address = [], us_modifier1 = 0, us_modifier2 = 0, us_cores = 0, us_load = 0,
      us_weight = 0, us_unix_check = 0, us_sign = [], us_sni_key = [], us_sni_crt = [], us_sni_ca = [],
      us_pid = fst cred, us_uid = fst (snd cred), us_gid = snd (snd cred), us_notify = []\<rparr>"

text \<open>
  What the router makes of a packet: 4 bytes of header, then pairs; the result of the parser is
  not looked at.  A packet of less than 4 bytes makes it read behind what was received.
\<close>

definition packet_request :: "bytes \<Rightarrow> int \<times> int \<times> int \<Rightarrow> sreq option" where
  "packet_request pkt cred =
     (if length pkt < 4 then None
      else do {
        (_, calls) \<leftarrow> uwsgi_hooked_parse (drop 4 pkt) (length pkt - 4);
        manage_vars (map (var_at (drop 4 pkt)) calls) (blank_sreq cred) })"

text \<open>
  \<^verbatim>\<open>uwsgi_corerouter_manage_subscription\<close>: what \<^verbatim>\<open>recv\<close> delivered (empty: nothing) is an announcement
  when its fourth byte is 0, otherwise a node takes its leave.
\<close>

definition mark_failed :: "snode \<Rightarrow> snode" where
  "mark_failed nd = nd\<lparr>sn_failcnt := sn_failcnt nd + 1, sn_death_mark := True\<rparr>"

definition unsubscribe :: "subs \<Rightarrow> sreq \<Rightarrow> subs option" where
  "unsubscribe s usr = do {
     ((a, n), s) \<leftarrow> uwsgi_get_subscribe_node_by_name s (us_key usr) (us_address usr);
     if n = 0 then Some s
     else do {
       ns \<leftarrow> slot_nodes s a;
       nd \<leftarrow> find_node n ns;
       if length (sn_name nd) = 0 then Some s
       else do {
         s \<leftarrow> put_nodes s a (upd_node n mark_failed ns);
         if sn_reference nd = 0 then map_option snd (uwsgi_remove_subscribe_node s a n)
         else Some s } } }"

definition uwsgi_corerouter_manage_subscription ::
  "sconf \<Rightarrow> int \<Rightarrow> nat \<Rightarrow> nat \<Rightarrow> bytes \<Rightarrow> int \<times> int \<times> int \<Rightarrow> subs \<Rightarrow> subs option" where
  "uwsgi_corerouter_manage_subscription c now a n pkt cred s =
     (if pkt = [] then Some s
      else do {
        usr \<leftarrow> packet_request pkt cred;
        if pkt ! 3 = 0 then map_option snd (uwsgi_add_subscribe_node c now a n s usr)
        else unsubscribe s usr })"

text \<open>
  The part of \<^verbatim>\<open>corerouter_close_peer\<close> about the node \<^verbatim>\<open>peer->un\<close> (0: none): its count goes down, and a
  failed peer marks it and removes it when nothing else uses it.
\<close>

definition close_peer_node :: "subs \<Rightarrow> nat \<Rightarrow> nat \<Rightarrow> bool \<Rightarrow> subs option" where
  "close_peer_node s a n failed =
     (if n = 0 then Some s
      else do {
        ns \<leftarrow> slot_nodes s a;
        nd \<leftarrow> find_node n ns;
        if length (sn_name nd) = 0 then Some s
        else do {
          let ns = upd_node n (\<lambda>nd. nd\<lparr>sn_reference := sn_reference nd - 1\<rparr>) ns;
          s \<leftarrow> put_nodes s a ns;
          if failed then do {
            s \<leftarrow> put_nodes s a (upd_node n mark_failed ns);
            nd \<leftarrow> find_node n ns;
            if sn_reference nd = 0 then map_option snd (uwsgi_remove_subscribe_node s a n) else Some s }
          else Some s } })"

text \<open>The maps from a key to a node, \<^verbatim>\<open>plugins/corerouter/cr_map.c\<close>, with the key to fall back on.\<close>

definition uwsgi_cr_map_use_subscription ::
  "sconf \<Rightarrow> int \<Rightarrow> bytes option \<Rightarrow> subs \<Rightarrow> bytes \<Rightarrow> ((nat \<times> nat) \<times> subs) option" where
  "uwsgi_cr_map_use_subscription c now fallback s key = do {
     (un, s) \<leftarrow> uwsgi_get_subscribe_node c now s key;
     if snd un = 0 \<and> fallback \<noteq> None then uwsgi_get_subscribe_node c now s (the fallback)
     else Some (un, s) }"

fun dotsplit :: "sconf \<Rightarrow> int \<Rightarrow> nat \<Rightarrow> bytes \<Rightarrow> subs \<Rightarrow> ((nat \<times> nat) \<times> subs) option" where
  "dotsplit c now 0 name s = Some ((0, 0), s)"
| "dotsplit c now (Suc count) name s = do {
     (un, s) \<leftarrow> uwsgi_get_subscribe_node c now s name;
     if snd un \<noteq> 0 then Some (un, s)
     else if name = [] then None
     else case memchr 46 (drop 1 name) of
         None \<Rightarrow> Some (un, s)
       | Some i \<Rightarrow> dotsplit c now count (drop (i + 1) name) s }"

definition uwsgi_cr_map_use_subscription_dotsplit ::
  "sconf \<Rightarrow> int \<Rightarrow> subs \<Rightarrow> bytes \<Rightarrow> ((nat \<times> nat) \<times> subs) option" where
  "uwsgi_cr_map_use_subscription_dotsplit c now s key = dotsplit c now 5 key s"

text \<open>What a peer gets from its node: the address and the modifiers.\<close>

definition peer_instance :: "subs \<Rightarrow> nat \<times> nat \<Rightarrow> (bytes \<times> byte \<times> byte) option" where
  "peer_instance s un = do {
     ns \<leftarrow> slot_nodes s (fst un);
     nd \<leftarrow> find_node (snd un) ns;
     if sn_name nd = [] then None else Some (sn_name nd, sn_modifier1 nd, sn_modifier2 nd) }"

section \<open>The shape of the table\<close>

text \<open>
  The links of the slots and what they hold apart from them.  \<open>chained s cn\<close>: the chain at each
  index is \<open>cn\<close> of it, and every slot is in the chain of its hash.
\<close>

definition pvs :: "subs \<Rightarrow> nat \<Rightarrow> nat" where
  "pvs s a = (case sb_slots s a of None \<Rightarrow> 0 | Some v \<Rightarrow> sl_prev v)"

definition nxs :: "subs \<Rightarrow> nat \<Rightarrow> nat" where
  "nxs s a = (case sb_slots s a of None \<Rightarrow> 0 | Some v \<Rightarrow> sl_next v)"

definition strip :: "sslot \<Rightarrow> sslot" where
  "strip v = v\<lparr>sl_prev := 0, sl_next := 0\<rparr>"

definition bodies :: "subs \<Rightarrow> nat \<Rightarrow> sslot option" where
  "bodies s a = map_option strip (sb_slots s a)"

definition chained :: "subs \<Rightarrow> (nat \<Rightarrow> nat list) \<Rightarrow> bool" where
  "chained s cn \<longleftrightarrow>
     (\<forall>h. sb_table s h = hd0 0 (cn h) \<and> seg (pvs s) (nxs s) 0 (cn h) 0 \<and> distinct (cn h)) \<and>
     (\<forall>h a. a \<in> set (cn h) \<longleftrightarrow> (\<exists>b. bodies s a = Some b \<and> sl_hash b = h))"

definition nodes_wf :: "snode list \<Rightarrow> bool" where
  "nodes_wf ns \<longleftrightarrow> ns \<noteq> [] \<and> distinct (map sn_id ns) \<and> distinct (map sn_name ns) \<and>
     (\<forall>nd\<in>set ns. sn_id nd \<noteq> 0 \<and> sn_name nd \<noteq> [] \<and> length (sn_name nd) \<le> 0xff \<and> sn_weight nd \<noteq> 0)"

definition body_wf :: "sslot \<Rightarrow> bool" where
  "body_wf b \<longleftrightarrow> sl_hash b = slot_index (sl_key b) \<and> length (sl_key b) < 0xff \<and> nodes_wf (sl_nodes b)"

definition slots_wf :: "(nat \<Rightarrow> sslot option) \<Rightarrow> bool" where
  "slots_wf B \<longleftrightarrow> (\<forall>a b. B a = Some b \<longrightarrow> body_wf b) \<and>
     (\<forall>a b x y. B a = Some x \<longrightarrow> B b = Some y \<longrightarrow> sl_key x = sl_key y \<longrightarrow> a = b)"

definition sub_ok :: "subs \<Rightarrow> bool" where
  "sub_ok s \<longleftrightarrow> (\<exists>cn. chained s cn) \<and> slots_wf (bodies s)"

text \<open>The key of the slot at an address.\<close>

definition keyed :: "subs \<Rightarrow> nat \<Rightarrow> bytes option" where
  "keyed s a = map_option sl_key (bodies s a)"

text \<open>The nodes of a key: what the walk over its chain finds.\<close>

definition pool :: "subs \<Rightarrow> bytes \<Rightarrow> snode list option" where
  "pool s key = Option.bind
     (find_slot s key (sb_table s (slot_index key)) (sb_table s (slot_index key))) (slot_nodes s)"

lemma strip_simps [simp]:
  "sl_key (strip v) = sl_key v" "sl_hash (strip v) = sl_hash v" "sl_hits (strip v) = sl_hits v"
  "sl_nodes (strip v) = sl_nodes v" "strip (v\<lparr>sl_prev := p\<rparr>) = strip v" "strip (v\<lparr>sl_next := n\<rparr>) = strip v"
  "strip (v\<lparr>sl_nodes := ns\<rparr>) = (strip v)\<lparr>sl_nodes := ns\<rparr>" "strip (v\<lparr>sl_hits := k\<rparr>) = (strip v)\<lparr>sl_hits := k\<rparr>"
  by (simp_all add: strip_def)

lemma bodies_iff: "bodies s a = Some b \<longleftrightarrow> (\<exists>v. sb_slots s a = Some v \<and> strip v = b)"
  by (auto simp: bodies_def)

lemma bodies_None [simp]: "bodies s a = None \<longleftrightarrow> sb_slots s a = None"
  by (simp add: bodies_def)

lemma keyed_iff: "keyed s a = Some k \<longleftrightarrow> (\<exists>v. sb_slots s a = Some v \<and> sl_key v = k)"
  by (auto simp: keyed_def bodies_def)

lemma keyed_None: "keyed s a = None \<longleftrightarrow> sb_slots s a = None"
  by (simp add: keyed_def)

lemma chained_members: "chained s cn \<Longrightarrow> x \<in> set (cn h) \<longleftrightarrow> (\<exists>b. bodies s x = Some b \<and> sl_hash b = h)"
  by (simp add: chained_def)

lemma chained_in: "chained s cn \<Longrightarrow> a \<in> set (cn h) \<Longrightarrow> \<exists>v. sb_slots s a = Some v \<and> sl_hash v = h"
  by (auto simp: chained_def bodies_iff)

lemma chained_mem: "chained s cn \<Longrightarrow> sb_slots s a = Some v \<Longrightarrow> a \<in> set (cn (sl_hash v))"
  by (auto simp: chained_def bodies_iff)

lemma chained_seg: "chained s cn \<Longrightarrow> seg (pvs s) (nxs s) 0 (cn h) 0 \<and> distinct (cn h) \<and> sb_table s h = hd0 0 (cn h)"
  by (simp add: chained_def)

lemma chained_null: "chained s cn \<Longrightarrow> sb_slots s 0 = None"
proof (rule ccontr)
  assume c: "chained s cn" and n: "sb_slots s 0 \<noteq> None"
  then obtain v where "sb_slots s 0 = Some v" by auto
  with c have "0 \<in> set (cn (sl_hash v))" by (rule chained_mem)
  with chained_seg [OF c] show False using seg_nonzero by blast
qed

lemma chained_apart: "chained s cn \<Longrightarrow> a \<in> set (cn h) \<Longrightarrow> a \<in> set (cn k) \<Longrightarrow> h = k"
  by (auto simp: chained_def)

lemma find_slot_walk:
  assumes "seg (pvs s) (nxs s) p ys 0" "head \<notin> set (tl ys)" "\<forall>a\<in>set ys. sb_slots s a \<noteq> None"
  shows "find_slot s key head (hd0 0 ys) =
    Some (case List.find (\<lambda>a. \<exists>v. sb_slots s a = Some v \<and> sl_key v = key) ys of None \<Rightarrow> 0 | Some a \<Rightarrow> a)"
  using assms
proof (induction ys arbitrary: p)
  case Nil
  then show ?case by (simp add: find_slot.simps)
next
  case (Cons a ys)
  then obtain v where v: "sb_slots s a = Some v" "a \<noteq> 0" "sl_next v = hd0 0 ys" by (auto simp: nxs_def)
  show ?case
  proof (cases "sl_key v = key")
    case True
    then show ?thesis using v by (subst find_slot.simps) (auto simp: uwsgi_strncmp_def)
  next
    case False
    then have c: "\<not> uwsgi_strncmp key (sl_key v)" by (auto simp: uwsgi_strncmp_def)
    show ?thesis
    proof (cases ys)
      case Nil
      then show ?thesis using v c False
        by (subst find_slot.simps) (auto simp: find_slot.simps [of s key head 0])
    next
      case (Cons b zs)
      then have "hd0 0 ys \<noteq> head" using Cons.prems(2) by auto
      moreover have "find_slot s key head (hd0 0 ys) =
          Some (case List.find (\<lambda>a. \<exists>v. sb_slots s a = Some v \<and> sl_key v = key) ys of None \<Rightarrow> 0 | Some a \<Rightarrow> a)"
        using Cons.prems Cons by (intro Cons.IH [of a]) auto
      ultimately show ?thesis using v c False by (subst find_slot.simps) simp
    qed
  qed
qed

lemma find_slot_chain:
  assumes "chained s cn"
  shows "find_slot s key (sb_table s h) (sb_table s h) =
    Some (case List.find (\<lambda>a. \<exists>v. sb_slots s a = Some v \<and> sl_key v = key) (cn h) of None \<Rightarrow> 0 | Some a \<Rightarrow> a)"
proof -
  note c = chained_seg [OF assms, of h]
  have "hd0 0 (cn h) \<notin> set (tl (cn h))" using c by (cases "cn h") auto
  moreover have "\<forall>a\<in>set (cn h). sb_slots s a \<noteq> None" using chained_in [OF assms] by auto
  ultimately show ?thesis using find_slot_walk [of s 0 "cn h" "hd0 0 (cn h)" key] c by simp
qed

lemma find_slot_hit:
  assumes "sub_ok s" "sb_slots s a = Some v"
  shows "find_slot s (sl_key v) (sb_table s (slot_index (sl_key v))) (sb_table s (slot_index (sl_key v))) = Some a"
proof -
  obtain cn where c: "chained s cn" and w: "slots_wf (bodies s)" using assms(1) by (auto simp: sub_ok_def)
  let ?P = "\<lambda>a. \<exists>u. sb_slots s a = Some u \<and> sl_key u = sl_key v"
  have h: "sl_hash v = slot_index (sl_key v)"
    using w assms(2) by (auto simp: slots_wf_def body_wf_def bodies_def dest: spec [of _ a])
  have m: "a \<in> set (cn (slot_index (sl_key v)))" using chained_mem [OF c assms(2)] h by simp
  then obtain b where b: "List.find ?P (cn (slot_index (sl_key v))) = Some b"
    using assms(2) by (cases "List.find ?P (cn (slot_index (sl_key v)))") (auto simp: find_None_iff)
  then obtain u where "sb_slots s b = Some u" "sl_key u = sl_key v" by (auto simp: find_Some_iff)
  then have "b = a" using w assms(2) unfolding slots_wf_def bodies_iff by (metis strip_simps(1))
  then show ?thesis using find_slot_chain [OF c] b by simp
qed

lemma find_slot_miss:
  assumes "sub_ok s" "\<And>a v. sb_slots s a = Some v \<Longrightarrow> sl_key v \<noteq> key"
  shows "find_slot s key (sb_table s h) (sb_table s h) = Some 0"
proof -
  obtain cn where c: "chained s cn" using assms(1) by (auto simp: sub_ok_def)
  have "List.find (\<lambda>a. \<exists>v. sb_slots s a = Some v \<and> sl_key v = key) (cn h) = None"
    using assms(2) by (auto simp: find_None_iff)
  then show ?thesis using find_slot_chain [OF c] by simp
qed

lemma sub_ok_null: "sub_ok s \<Longrightarrow> sb_slots s 0 = None"
  using chained_null by (auto simp: sub_ok_def)

lemma sub_ok_body: "sub_ok s \<Longrightarrow> sb_slots s a = Some v \<Longrightarrow> body_wf (strip v)"
  by (auto simp: sub_ok_def slots_wf_def bodies_iff)

lemma pool_hit: "sub_ok s \<Longrightarrow> sb_slots s a = Some v \<Longrightarrow> pool s (sl_key v) = Some (sl_nodes v)"
  using find_slot_hit [of s a v] by (simp add: pool_def slot_nodes_def)

lemma pool_miss: "sub_ok s \<Longrightarrow> (\<And>a v. sb_slots s a = Some v \<Longrightarrow> sl_key v \<noteq> key) \<Longrightarrow> pool s key = None"
  using find_slot_miss [of s key] sub_ok_null [of s] by (simp add: pool_def slot_nodes_def)

lemma pool_iff:
  assumes "sub_ok s"
  shows "pool s key = Some ns \<longleftrightarrow> (\<exists>a b. bodies s a = Some b \<and> sl_key b = key \<and> sl_nodes b = ns)"
proof
  assume p: "pool s key = Some ns"
  then obtain a v where v: "sb_slots s a = Some v" "sl_key v = key"
    using pool_miss [OF assms, of key] by (metis option.distinct(1))
  then show "\<exists>a b. bodies s a = Some b \<and> sl_key b = key \<and> sl_nodes b = ns"
    using pool_hit [OF assms v(1)] p by (intro exI [of _ a] exI [of _ "strip v"]) (simp add: bodies_def)
next
  assume "\<exists>a b. bodies s a = Some b \<and> sl_key b = key \<and> sl_nodes b = ns"
  then show "pool s key = Some ns" using pool_hit [OF assms] by (auto simp: bodies_iff)
qed

lemma pool_eqI:
  assumes "sub_ok s" "\<And>ns. P = Some ns \<longleftrightarrow> (\<exists>a b. bodies s a = Some b \<and> sl_key b = key \<and> sl_nodes b = ns)"
  shows "pool s key = P"
  using pool_iff [OF assms(1)] assms(2) by (metis not_Some_eq)

section \<open>Changing links\<close>

definition sees :: "subs \<Rightarrow> (nat \<Rightarrow> nat) \<Rightarrow> (nat \<Rightarrow> nat) \<Rightarrow> (nat \<Rightarrow> nat) \<Rightarrow> (nat \<Rightarrow> sslot option) \<Rightarrow> bool" where
  "sees s T pv nx B \<longleftrightarrow> sb_table s = T \<and> pvs s = pv \<and> nxs s = nx \<and> bodies s = B"

lemma sees_refl: "sees s (sb_table s) (pvs s) (nxs s) (bodies s)"
  by (simp add: sees_def)

lemma slot_views:
  fixes s :: subs
  defines "s' \<equiv> \<lambda>a u. s\<lparr>sb_slots := (sb_slots s)(a \<mapsto> u)\<rparr>"
  shows "sb_table (s' a u) = sb_table s" "pvs (s' a u) = (pvs s)(a := sl_prev u)"
    "nxs (s' a u) = (nxs s)(a := sl_next u)" "bodies (s' a u) = (bodies s)(a \<mapsto> strip u)"
  by (auto simp: s'_def pvs_def nxs_def bodies_def)

lemma sees_upd:
  assumes "sees s T pv nx B" "B a \<noteq> None" "\<And>u. strip (f u) = strip u"
  shows "\<exists>u s'. upd_slot s a f = Some s' \<and> sb_slots s a = Some u \<and>
    sees s' T (pv(a := sl_prev (f u))) (nx(a := sl_next (f u))) B"
proof -
  obtain u where u: "sb_slots s a = Some u" "B a = Some (strip u)" using assms(1,2) by (auto simp: sees_def bodies_def)
  then show ?thesis
    using assms(1,3) slot_views [where s = s and a = a and u = "f u"]
    by (intro exI [of _ u] exI [of _ "s\<lparr>sb_slots := (sb_slots s)(a \<mapsto> f u)\<rparr>"])
      (auto simp: upd_slot_def sees_def fun_upd_idem)
qed

lemma sees_at: "sees s T pv nx B \<Longrightarrow> sb_slots s a = Some u \<Longrightarrow> pv a = sl_prev u \<and> nx a = sl_next u"
  by (auto simp: sees_def pvs_def nxs_def)

lemma sees_next:
  assumes "sees s T pv nx B" "B a \<noteq> None"
  shows "\<exists>s'. upd_slot s a (\<lambda>u. u\<lparr>sl_next := x\<rparr>) = Some s' \<and> sees s' T pv (nx(a := x)) B"
  using sees_upd [OF assms, of "\<lambda>u. u\<lparr>sl_next := x\<rparr>"] sees_at [OF assms(1), of a] by (auto simp: fun_upd_idem)

lemma sees_prev:
  assumes "sees s T pv nx B" "B a \<noteq> None"
  shows "\<exists>s'. upd_slot s a (\<lambda>u. u\<lparr>sl_prev := x\<rparr>) = Some s' \<and> sees s' T (pv(a := x)) nx B"
  using sees_upd [OF assms, of "\<lambda>u. u\<lparr>sl_prev := x\<rparr>"] sees_at [OF assms(1), of a] by (auto simp: fun_upd_idem)

lemma sees_both:
  assumes "sees s T pv nx B" "B a \<noteq> None"
  shows "\<exists>s'. upd_slot s a (\<lambda>u. u\<lparr>sl_prev := x, sl_next := y\<rparr>) = Some s' \<and> sees s' T (pv(a := x)) (nx(a := y)) B"
    "\<exists>s'. upd_slot s a (\<lambda>u. u\<lparr>sl_next := y, sl_prev := x\<rparr>) = Some s' \<and> sees s' T (pv(a := x)) (nx(a := y)) B"
  using sees_upd [OF assms, of "\<lambda>u. u\<lparr>sl_prev := x, sl_next := y\<rparr>"]
    sees_upd [OF assms, of "\<lambda>u. u\<lparr>sl_next := y, sl_prev := x\<rparr>"] by auto

lemma sees_head: "sees s T pv nx B \<Longrightarrow> sees (put_head s h x) (T(h := x)) pv nx B"
  by (auto simp: sees_def put_head_def pvs_def nxs_def bodies_def)

lemma seg_swap:
  assumes "seg pv nx 0 (xs @ p # a # ys) 0" "distinct (xs @ p # a # ys)"
  shows "seg ((if ys = [] then pv else pv(hd ys := p))(p := a, a := last0 0 xs))
    ((if xs = [] then nx else nx(last xs := a))(p := hd0 0 ys, a := p)) 0 (xs @ a # p # ys) 0"
    (is "seg ?pv ?nx _ _ _")
proof -
  from assms(1) have s: "seg pv nx 0 xs p" "seg pv nx a ys 0" "p \<noteq> 0" "a \<noteq> 0" by (auto simp: seg_append)
  have "seg ?pv ?nx 0 xs a"
  proof (cases "xs = []")
    case False
    have "seg pv (nx(last xs := a)) 0 xs a" using s(1) assms(2) False by (intro seg_next) auto
    moreover have "seg pv (nx(last xs := a)) 0 xs a = seg ?pv ?nx 0 xs a"
      using assms(2) False by (intro seg_cong) (auto dest: hd_in_set)
    ultimately show ?thesis by blast
  qed simp
  moreover have "seg ?pv ?nx p ys 0"
  proof (cases ys)
    case (Cons y zs)
    have "seg (pv(y := p)) nx p ys 0" using s(2) assms(2) Cons seg_prev [of pv nx a y zs 0 p] by simp
    moreover have "seg (pv(y := p)) nx p ys 0 = seg ?pv ?nx p ys 0"
      using assms(2) Cons by (intro seg_cong) (auto dest: last_in_set)
    ultimately show ?thesis by blast
  qed simp
  moreover have "p \<noteq> a" using assms(2) by auto
  ultimately show ?thesis using s(3,4) by (auto simp: seg_append)
qed

text \<open>A change that touches only one chain keeps the others.\<close>

lemma chained_change:
  assumes c: "chained s cn" and h: "\<forall>k. k \<noteq> h \<longrightarrow> T k = sb_table s k"
    and own: "T h = hd0 0 xs" "seg pv nx 0 xs 0" "distinct xs"
    and frame: "\<And>x. x \<notin> set (cn h) \<Longrightarrow> x \<notin> set xs \<Longrightarrow> pv x = pvs s x \<and> nx x = nxs s x"
    and mem: "\<And>k x. x \<in> set ((cn(h := xs)) k) \<longleftrightarrow> (\<exists>b. B x = Some b \<and> sl_hash b = k)"
    and see: "sees s' T pv nx B"
  shows "chained s' (cn(h := xs))"
proof -
  have v: "sb_table s' = T" "pvs s' = pv" "nxs s' = nx" "bodies s' = B" using see by (auto simp: sees_def)
  have "sb_table s' k = hd0 0 ((cn(h := xs)) k) \<and> seg (pvs s') (nxs s') 0 ((cn(h := xs)) k) 0 \<and> distinct ((cn(h := xs)) k)" for k
  proof (cases "k = h")
    case False
    have "seg (pvs s) (nxs s) 0 (cn k) 0 = seg pv nx 0 (cn k) 0"
    proof (rule seg_cong)
      fix x
      assume x: "x \<in> set (cn k)"
      then have "x \<notin> set (cn h)" using chained_apart [OF c, of x k h] False by auto
      moreover have "x \<notin> set xs"
        using x mem [of x k] mem [of x h] False by auto
      ultimately show "pvs s x = pv x \<and> nxs s x = nx x" using frame by simp
    qed
    then show ?thesis using chained_seg [OF c, of k] v h False by simp
  qed (use own v in simp)
  then show ?thesis using mem v unfolding chained_def by blast
qed

lemma move_up_ok:
  assumes c: "chained s cn" and v: "sb_slots s a = Some v" "sl_hash v = h"
  shows "\<exists>s' cn'. move_up s h a = Some s' \<and> chained s' cn' \<and> bodies s' = bodies s"
proof -
  have a: "a \<in> set (cn h)" using chained_mem [OF c v(1)] v(2) by simp
  obtain us ys where us: "cn h = us @ a # ys" using a by (meson split_list)
  note g = chained_seg [OF c, of h]
  have pa: "pvs s a = last0 0 us" "nxs s a = hd0 0 ys" "a \<noteq> 0" using g us by (auto dest: seg_at)
  have pv: "sl_prev v = last0 0 us" "sl_next v = hd0 0 ys" using pa v by (auto simp: pvs_def nxs_def)
  show ?thesis
  proof (cases "us = []")
    case True
    then show ?thesis using c v pv by (auto simp: move_up_def)
  next
    case False
    obtain xs p where xs: "us = xs @ [p]" using False by (metis append_butlast_last_id)
    have chain: "cn h = xs @ p # a # ys" using us xs by simp
    have dist: "distinct (xs @ p # a # ys)" and sg: "seg (pvs s) (nxs s) 0 (xs @ p # a # ys) 0"
      and hd: "sb_table s h = hd0 0 (xs @ p # a # ys)" using g chain by auto
    have p0: "p \<noteq> 0" "pvs s p = last0 0 xs" using seg_at [OF sg] by auto
    obtain pvv where pvv: "sb_slots s p = Some pvv" "sl_prev pvv = last0 0 xs"
      using chained_in [OF c, of p h] chain p0 by (auto simp: pvs_def)
    have live: "x \<in> set (cn h) \<Longrightarrow> bodies s x \<noteq> None" for x using chained_in [OF c, of x h] by (auto simp: bodies_def)
    have sv: "sl_prev v = p" using pv xs by simp
    show ?thesis
    proof (cases "sl_hits v > sl_hits pvv")
      case False
      then show ?thesis using c v sv pvv p0 by (auto simp: move_up_def)
    next
      case True
      let ?T1 = "if xs = [] then (sb_table s)(h := a) else sb_table s"
      let ?nx1 = "if xs = [] then nxs s else (nxs s)(last xs := a)"
      let ?pv2 = "if ys = [] then pvs s else (pvs s)(hd ys := p)"
      have nz: "xs = [] \<or> last xs \<noteq> 0" "ys = [] \<or> hd ys \<noteq> 0"
        using seg_nonzero [OF sg, of 0] by (metis UnCI last_in_set set_append, metis UnCI hd_in_set list.set_intros(2) set_append)
      have par: "last0 0 xs \<noteq> 0 \<longleftrightarrow> xs \<noteq> []" "last0 0 xs = (if xs = [] then 0 else last xs)"
        using nz by (auto simp: last0_def)
      have suc: "hd0 0 ys \<noteq> 0 \<longleftrightarrow> ys \<noteq> []" "hd0 0 ys = (if ys = [] then 0 else hd ys)"
        using nz by (auto simp: hd0_def split: list.splits)
      have l: "bodies s p \<noteq> None" "bodies s a \<noteq> None" "xs \<noteq> [] \<Longrightarrow> bodies s (last xs) \<noteq> None"
        "ys \<noteq> [] \<Longrightarrow> bodies s (hd ys) \<noteq> None"
        using live chain last_in_set [of xs] hd_in_set [of ys] by (auto simp del: bodies_None)
      obtain s1 where s1: "(if last0 0 xs \<noteq> 0 then upd_slot s (last0 0 xs) (\<lambda>u. u\<lparr>sl_next := a\<rparr>) else Some (put_head s h a)) = Some s1"
        "sees s1 ?T1 (pvs s) ?nx1 (bodies s)"
        using sees_next [OF sees_refl l(3), of a] sees_head [OF sees_refl, of s h a] par
        by (cases "xs = []") auto
      obtain s2 where s2: "(if hd0 0 ys \<noteq> 0 then upd_slot s1 (hd0 0 ys) (\<lambda>u. u\<lparr>sl_prev := p\<rparr>) else Some s1) = Some s2"
        "sees s2 ?T1 ?pv2 ?nx1 (bodies s)"
        using sees_prev [OF s1(2) l(4), of p] s1(2) suc by (cases "ys = []") auto
      obtain s3 where s3: "upd_slot s2 p (\<lambda>u. u\<lparr>sl_prev := a, sl_next := hd0 0 ys\<rparr>) = Some s3"
        "sees s3 ?T1 (?pv2(p := a)) (?nx1(p := hd0 0 ys)) (bodies s)"
        using sees_both(1) [OF s2(2) l(1), of "hd0 0 ys" a] by auto
      obtain s4 where s4: "upd_slot s3 a (\<lambda>u. u\<lparr>sl_next := p, sl_prev := last0 0 xs\<rparr>) = Some s4"
        "sees s4 ?T1 (?pv2(p := a, a := last0 0 xs)) (?nx1(p := hd0 0 ys, a := p)) (bodies s)"
        using sees_both(2) [OF s3(2) l(2), of "last0 0 xs" p] by auto
      have "move_up s h a = Some s4"
        using v(1) sv p0(1) pvv True s1(1) s2(1) s3(1) s4(1) pv
        by (cases "hd0 0 ys = 0"; cases "last0 0 xs = 0"; simp add: move_up_def Let_def)
      moreover have "chained s4 (cn(h := xs @ a # p # ys))"
      proof (rule chained_change [OF c _ _ seg_swap [OF sg dist] _ _ _ s4(2)])
        show "\<forall>k. k \<noteq> h \<longrightarrow> ?T1 k = sb_table s k" by simp
        show "?T1 h = hd0 0 (xs @ a # p # ys)" using hd by (cases xs) auto
        show "distinct (xs @ a # p # ys)" using dist by auto
        show "(x \<in> set ((cn(h := xs @ a # p # ys)) k)) = (\<exists>b. bodies s x = Some b \<and> sl_hash b = k)" for k x
          using chained_members [OF c, of x k] chain by (cases "k = h") auto
        show "(?pv2(p := a, a := last0 0 xs)) x = pvs s x \<and> (?nx1(p := hd0 0 ys, a := p)) x = nxs s x"
          if "x \<notin> set (cn h)" for x
        proof -
          have "x \<noteq> a" "x \<noteq> p" "xs \<noteq> [] \<Longrightarrow> x \<noteq> last xs" "ys \<noteq> [] \<Longrightarrow> x \<noteq> hd ys"
            using that chain last_in_set [of xs] hd_in_set [of ys] by auto
          then show ?thesis by simp
        qed
      qed
      moreover have "bodies s4 = bodies s" using s4(2) by (simp add: sees_def)
      ultimately show ?thesis by blast
    qed
  qed
qed

lemma sub_ok_change:
  assumes "sub_ok s" "chained s' cn" "bodies s' = bodies s"
  shows "sub_ok s' \<and> pool s' = pool s"
proof -
  have o: "sub_ok s'" using assms by (auto simp: sub_ok_def)
  moreover have "pool s' = pool s"
    by (rule ext, rule pool_eqI [OF o]) (simp add: pool_iff [OF assms(1)] assms(3))
  ultimately show ?thesis by blast
qed

text \<open>What a lookup finds; the chain may change its order.\<close>

lemma get_slot_ok:
  assumes "sub_ok s"
  obtains a s' where "uwsgi_get_subscribe_slot s key = Some (a, s')" "sub_ok s'" "pool s' = pool s"
    "bodies s' = bodies s" "a = 0 \<Longrightarrow> pool s key = None"
    "a \<noteq> 0 \<Longrightarrow> \<exists>v. sb_slots s' a = Some v \<and> sl_key v = key \<and> pool s key = Some (sl_nodes v)"
proof (cases "\<exists>a v. sb_slots s a = Some v \<and> sl_key v = key")
  case False
  then have f: "find_slot s key (sb_table s h) (sb_table s h) = Some 0" for h
    using find_slot_miss [OF assms, of key h] by blast
  have "uwsgi_get_subscribe_slot s key = Some (0, s)" using f by (simp add: uwsgi_get_subscribe_slot_def)
  moreover have "pool s key = None" using pool_miss [OF assms, of key] False by blast
  ultimately show ?thesis using that [of 0 s] assms by simp
next
  case True
  then obtain a v where v: "sb_slots s a = Some v" "sl_key v = key" by blast
  have a0: "a \<noteq> 0" using sub_ok_null [OF assms] v by (metis option.distinct(1))
  have w: "sl_hash v = slot_index key" "length key < 0xff" using sub_ok_body [OF assms v(1)] v(2) by (auto simp: body_wf_def)
  obtain cn where c: "chained s cn" using assms by (auto simp: sub_ok_def)
  obtain s' cn' where m: "move_up s (slot_index key) a = Some s'" "chained s' cn'" "bodies s' = bodies s"
    using move_up_ok [OF c v(1) w(1)] by blast
  have "uwsgi_get_subscribe_slot s key = Some (a, s')"
    using find_slot_hit [OF assms v(1)] v(2) w(2) a0 m(1) by (simp add: uwsgi_get_subscribe_slot_def Let_def)
  moreover obtain v' where v': "sb_slots s' a = Some v'" "strip v' = strip v"
    using m(3) v(1) bodies_iff [of s' a "strip v"] bodies_iff [of s a "strip v"] by auto
  moreover have "sl_key v' = key" "sl_nodes v' = sl_nodes v" using v'(2) v(2) by (metis strip_simps(1), metis strip_simps(4))
  moreover have "pool s key = Some (sl_nodes v)" using pool_hit [OF assms v(1)] v(2) by simp
  ultimately show ?thesis using that [of a s'] sub_ok_change [OF assms m(2,3)] m(3) a0 by simp
qed

text \<open>A change at one address leaves the pools of other keys.\<close>

lemma pool_frame:
  assumes "sub_ok s" "sub_ok s'" "\<And>x. x \<noteq> a \<Longrightarrow> bodies s' x = bodies s x"
    "\<And>b. bodies s a = Some b \<Longrightarrow> sl_key b = k0" "\<And>b. bodies s' a = Some b \<Longrightarrow> sl_key b = k0" "k \<noteq> k0"
  shows "pool s' k = pool s k"
proof (rule pool_eqI [OF assms(2)])
  fix ns
  have "bodies s' x = Some b \<and> sl_key b = k \<longleftrightarrow> bodies s x = Some b \<and> sl_key b = k" for x b
    using assms(3) [of x] assms(4,5) [of b] assms(6) by (cases "x = a") auto
  then show "pool s k = Some ns \<longleftrightarrow> (\<exists>x b. bodies s' x = Some b \<and> sl_key b = k \<and> sl_nodes b = ns)"
    unfolding pool_iff [OF assms(1)] by metis
qed

lemma get_slot_ex:
  assumes "sub_ok s"
  shows "\<exists>a s'. uwsgi_get_subscribe_slot s key = Some (a, s') \<and> sub_ok s' \<and> pool s' = pool s \<and> bodies s' = bodies s \<and>
    (a = 0 \<longrightarrow> pool s key = None) \<and>
    (a \<noteq> 0 \<longrightarrow> (\<exists>v. sb_slots s' a = Some v \<and> sl_key v = key \<and> pool s key = Some (sl_nodes v)))"
proof (rule get_slot_ok [OF assms, of key], goal_cases)
  case (1 a s')
  then show ?case by (intro exI [of _ a] exI [of _ s']) auto
qed

text \<open>Changing the nodes of a slot.\<close>

lemma chained_body:
  assumes "chained s cn" "sb_slots s a = Some v" "sl_prev v' = sl_prev v" "sl_next v' = sl_next v" "sl_hash v' = sl_hash v"
  shows "chained (s\<lparr>sb_slots := (sb_slots s)(a \<mapsto> v')\<rparr>) cn"
proof -
  have "pvs (s\<lparr>sb_slots := (sb_slots s)(a \<mapsto> v')\<rparr>) = pvs s" "nxs (s\<lparr>sb_slots := (sb_slots s)(a \<mapsto> v')\<rparr>) = nxs s"
    using assms by (auto simp: pvs_def nxs_def)
  moreover have "(\<exists>b. bodies (s\<lparr>sb_slots := (sb_slots s)(a \<mapsto> v')\<rparr>) x = Some b \<and> sl_hash b = h) \<longleftrightarrow>
      (\<exists>b. bodies s x = Some b \<and> sl_hash b = h)" for x h
    using assms(2,5) by (auto simp: bodies_def)
  ultimately show ?thesis using assms(1) by (simp add: chained_def)
qed

lemma upd_body_ok:
  assumes "sub_ok s" "sb_slots s a = Some v" "sl_prev v' = sl_prev v" "sl_next v' = sl_next v"
    "sl_hash v' = sl_hash v" "sl_key v' = sl_key v" "nodes_wf (sl_nodes v')"
  shows "sub_ok (s\<lparr>sb_slots := (sb_slots s)(a \<mapsto> v')\<rparr>)"
    "pool (s\<lparr>sb_slots := (sb_slots s)(a \<mapsto> v')\<rparr>) = (pool s)(sl_key v \<mapsto> sl_nodes v')"
    "keyed (s\<lparr>sb_slots := (sb_slots s)(a \<mapsto> v')\<rparr>) = keyed s"
proof -
  let ?s = "s\<lparr>sb_slots := (sb_slots s)(a \<mapsto> v')\<rparr>"
  obtain cn where c: "chained s cn" and w: "slots_wf (bodies s)" using assms(1) by (auto simp: sub_ok_def)
  have B: "bodies ?s = (bodies s)(a \<mapsto> strip v')" by (rule slot_views)
  have b: "bodies s a = Some (strip v)" using assms(2) by (simp add: bodies_def)
  show "keyed ?s = keyed s" using b assms(6) by (auto simp: keyed_def B)
  have "slots_wf (bodies ?s)"
  proof -
    have "body_wf (strip v)" using w b by (auto simp: slots_wf_def)
    then have "body_wf (strip v')" using assms(5-7) by (simp add: body_wf_def)
    moreover have "x = a" if "bodies s x = Some y" "sl_key y = sl_key v" for x y
      using w that b unfolding slots_wf_def by (metis strip_simps(1))
    ultimately show ?thesis using w assms(6) unfolding B slots_wf_def by (auto split: if_splits)
  qed
  then show ok: "sub_ok ?s" using chained_body [OF c assms(2-5)] by (auto simp: sub_ok_def)
  show "pool ?s = (pool s)(sl_key v \<mapsto> sl_nodes v')"
  proof
    fix k
    show "pool ?s k = ((pool s)(sl_key v \<mapsto> sl_nodes v')) k"
    proof (cases "k = sl_key v")
      case True
      then show ?thesis using pool_hit [OF ok, of a v'] assms(6) by simp
    next
      case False
      have "pool ?s k = pool s k"
        by (rule pool_frame [OF assms(1) ok _ _ _ False, of a]) (use B b assms(6) in auto)
      then show ?thesis using False by simp
    qed
  qed
qed

section \<open>Taking out and putting in\<close>

lemma put_nodes_ok:
  assumes "sub_ok s" "sb_slots s a = Some v" "nodes_wf ns"
  obtains s' v' where "put_nodes s a ns = Some s'" "sub_ok s'" "pool s' = (pool s)(sl_key v \<mapsto> ns)"
    "sb_slots s' a = Some v'" "sl_key v' = sl_key v" "sl_nodes v' = ns" "keyed s' = keyed s"
  using upd_body_ok [OF assms(1,2), of "v\<lparr>sl_nodes := ns\<rparr>"] assms(2,3)
  by (auto simp: put_nodes_def upd_slot_def)

lemma last_slot_walk:
  assumes "seg (pvs s) (nxs s) p xs 0" "\<forall>a\<in>set xs. sb_slots s a \<noteq> None"
  shows "last_slot s p (hd0 0 xs) = Some (last0 p xs)"
  using assms
proof (induction xs arbitrary: p)
  case Nil
  then show ?case by (simp add: last_slot.simps)
next
  case (Cons a xs)
  then obtain v where "sb_slots s a = Some v" "a \<noteq> 0" "sl_next v = hd0 0 xs" by (auto simp: nxs_def)
  with Cons show ?case by (subst last_slot.simps) simp
qed

text \<open>The state without a slot, with the links around it closed.\<close>

lemma unlink_slot:
  assumes ok: "sub_ok s" and v: "sb_slots s a = Some v"
    and see: "sees s' (if pvs s a = 0 then (sb_table s)(sl_hash v := nxs s a) else sb_table s)
      (unlink_pv (pvs s) (nxs s) a) (unlink_nx (pvs s) (nxs s) a) B"
    and B: "B = bodies s \<or> B = (bodies s)(a \<mapsto> b')" and e: "e = s'\<lparr>sb_slots := (sb_slots s')(a := None)\<rparr>"
  shows "sub_ok e \<and> pool e = (pool s)(sl_key v := None) \<and> keyed e = (keyed s)(a := None)"
proof -
  obtain cn where c: "chained s cn" and w: "slots_wf (bodies s)" using ok by (auto simp: sub_ok_def)
  let ?h = "sl_hash v"
  obtain us ys where us: "cn ?h = us @ a # ys" using chained_mem [OF c v] by (meson split_list)
  note g = chained_seg [OF c, of ?h]
  have sg: "seg (pvs s) (nxs s) 0 (us @ a # ys) 0" and dist: "distinct (us @ a # ys)"
    and hd: "sb_table s ?h = hd0 0 (us @ a # ys)" using g us by auto
  have at: "pvs s a = last0 0 us" "nxs s a = hd0 0 ys" "a \<noteq> 0" using seg_at [OF sg] by auto
  have nil: "pvs s a = 0 \<longleftrightarrow> us = []" using at(1) sg last0_zero [of "pvs s" "nxs s" 0 us a] by (simp add: seg_append)
  have cut: "seg (unlink_pv (pvs s) (nxs s) a) (unlink_nx (pvs s) (nxs s) a) 0 (us @ ys) 0"
    by (rule seg_unlink [OF sg dist])
  let ?pv = "(unlink_pv (pvs s) (nxs s) a)(a := 0)" and ?nx = "(unlink_nx (pvs s) (nxs s) a)(a := 0)"
  have cut0: "seg ?pv ?nx 0 (us @ ys) 0"
  proof -
    have "seg (unlink_pv (pvs s) (nxs s) a) (unlink_nx (pvs s) (nxs s) a) 0 (us @ ys) 0 = seg ?pv ?nx 0 (us @ ys) 0"
      by (rule seg_cong) (use dist in auto)
    with cut show ?thesis by blast
  qed
  have Be: "bodies e = (bodies s)(a := None)" using see B e by (auto simp: sees_def bodies_def fun_eq_iff)
  have see': "sees e (if pvs s a = 0 then (sb_table s)(?h := nxs s a) else sb_table s) ?pv ?nx ((bodies s)(a := None))"
  proof -
    have "pvs e = (pvs s')(a := 0)" "nxs e = (nxs s')(a := 0)" "sb_table e = sb_table s'"
      by (auto simp: e pvs_def nxs_def)
    then show ?thesis using see Be by (auto simp: sees_def)
  qed
  have "chained e (cn(?h := us @ ys))"
  proof (rule chained_change [OF c _ _ cut0 _ _ _ see'])
    show "\<forall>k. k \<noteq> ?h \<longrightarrow> (if pvs s a = 0 then (sb_table s)(?h := nxs s a) else sb_table s) k = sb_table s k" by simp
    show "(if pvs s a = 0 then (sb_table s)(?h := nxs s a) else sb_table s) ?h = hd0 0 (us @ ys)"
      using nil at(2) hd by (cases us) auto
    show "distinct (us @ ys)" using dist by simp
    show "(x \<in> set ((cn(?h := us @ ys)) k)) = (\<exists>b. ((bodies s)(a := None)) x = Some b \<and> sl_hash b = k)" for k x
      using chained_members [OF c, of x k] us dist v by (cases "k = ?h"; cases "x = a") (auto simp: bodies_def)
    show "?pv x = pvs s x \<and> ?nx x = nxs s x" if "x \<notin> set (cn ?h)" for x
    proof -
      have "x \<noteq> a" "us \<noteq> [] \<Longrightarrow> x \<noteq> last0 0 us" "ys \<noteq> [] \<Longrightarrow> x \<noteq> hd0 0 ys"
        using that us last0_in [of us 0] hd0_in [of ys 0] by auto
      then show ?thesis using at nil hd0_zero [of "pvs s" "nxs s" a ys 0] sg
        by (auto simp: unlink_pv_def unlink_nx_def seg_append)
    qed
  qed
  moreover have "slots_wf (bodies e)" using w unfolding Be slots_wf_def by (auto split: if_splits)
  ultimately have ok': "sub_ok e" by (auto simp: sub_ok_def)
  moreover have "pool e = (pool s)(sl_key v := None)"
  proof
    fix k
    have bv: "bodies s a = Some (strip v)" using v by (simp add: bodies_def)
    show "pool e k = ((pool s)(sl_key v := None)) k"
    proof (cases "k = sl_key v")
      case True
      have "sl_key b \<noteq> sl_key v" if "bodies e x = Some b" for x b
        using that w bv unfolding Be slots_wf_def by (metis fun_upd_apply option.distinct(1) strip_simps(1))
      then have "pool e (sl_key v) = None" by (intro pool_eqI [OF ok']) auto
      then show ?thesis using True by simp
    next
      case False
      have "pool e k = pool s k"
        by (rule pool_frame [OF ok ok' _ _ _ False, of a]) (use Be bv in auto)
      then show ?thesis using False by simp
    qed
  qed
  moreover have "keyed e = (keyed s)(a := None)" by (auto simp: keyed_def Be)
  ultimately show ?thesis by blast
qed

lemma slot_links:
  assumes "sub_ok s" "sb_slots s a = Some v"
  shows "sl_next v \<noteq> a" "sb_table s (sl_hash v) = a \<longleftrightarrow> sl_prev v = 0" "pvs s a = sl_prev v" "nxs s a = sl_next v"
    "sl_prev v \<noteq> 0 \<Longrightarrow> bodies s (sl_prev v) \<noteq> None \<and> sl_prev v \<noteq> a" "sl_next v \<noteq> 0 \<Longrightarrow> bodies s (sl_next v) \<noteq> None"
proof -
  obtain cn where c: "chained s cn" using assms(1) by (auto simp: sub_ok_def)
  let ?h = "sl_hash v"
  obtain us ys where us: "cn ?h = us @ a # ys" using chained_mem [OF c assms(2)] by (meson split_list)
  note g = chained_seg [OF c, of ?h]
  have sg: "seg (pvs s) (nxs s) 0 (us @ a # ys) 0" and dist: "distinct (us @ a # ys)"
    and hd: "sb_table s ?h = hd0 0 (us @ a # ys)" using g us by auto
  have at: "pvs s a = last0 0 us" "nxs s a = hd0 0 ys" "a \<noteq> 0" using seg_at [OF sg] by auto
  show lk: "pvs s a = sl_prev v" "nxs s a = sl_next v" using assms(2) by (simp_all add: pvs_def nxs_def)
  have u0: "us = [] \<longleftrightarrow> last0 0 us = 0" using sg last0_zero [of "pvs s" "nxs s" 0 us a] by (simp add: seg_append)
  have live: "bodies s x \<noteq> None" if "x \<in> set (cn ?h)" for x
    using chained_members [OF c, of x ?h] that by (auto simp del: bodies_None)
  show "sl_next v \<noteq> a" using at lk dist hd0_in [of ys 0] by (cases ys) auto
  show "sb_table s ?h = a \<longleftrightarrow> sl_prev v = 0" using hd dist u0 at lk by (cases us) auto
  show "bodies s (sl_prev v) \<noteq> None \<and> sl_prev v \<noteq> a" if p: "sl_prev v \<noteq> 0"
  proof -
    have "sl_prev v \<in> set us" using at(1) lk(1) last0_in [of us 0] u0 p by simp
    then show ?thesis using live [of "sl_prev v"] us dist by auto
  qed
  show "bodies s (sl_next v) \<noteq> None" if p: "sl_next v \<noteq> 0"
    using at(2) lk(2) hd0_in [of ys 0] p live [of "sl_next v"] us by (cases ys) auto
qed

lemma remove_node_ok:
  assumes ok: "sub_ok s" and v: "sb_slots s a = Some v"
  obtains s' where
    "uwsgi_remove_subscribe_node s a n = Some (if filter (\<lambda>nd. sn_id nd \<noteq> n) (sl_nodes v) = [] then 1 else 0, s')"
    "sub_ok s'"
    "pool s' = (pool s)(sl_key v := (case filter (\<lambda>nd. sn_id nd \<noteq> n) (sl_nodes v) of [] \<Rightarrow> None | ns \<Rightarrow> Some ns))"
    "filter (\<lambda>nd. sn_id nd \<noteq> n) (sl_nodes v) \<noteq> [] \<Longrightarrow> \<exists>v'. sb_slots s' a = Some v' \<and> sl_key v' = sl_key v \<and>
       sl_nodes v' = filter (\<lambda>nd. sn_id nd \<noteq> n) (sl_nodes v)"
    "keyed s' = (if filter (\<lambda>nd. sn_id nd \<noteq> n) (sl_nodes v) = [] then (keyed s)(a := None) else keyed s)"
proof -
  obtain ns where ns: "filter (\<lambda>nd. sn_id nd \<noteq> n) (sl_nodes v) = ns" by blast
  note lk = slot_links [OF ok v]
  show ?thesis
  proof (cases "ns = []")
    case False
    have "nodes_wf (sl_nodes v)" using sub_ok_body [OF ok v] by (simp add: body_wf_def)
    then have "nodes_wf ns" using False ns by (auto simp: nodes_wf_def distinct_map_filter)
    then obtain s' v' where "put_nodes s a ns = Some s'" "sub_ok s'" "pool s' = (pool s)(sl_key v \<mapsto> ns)"
      "sb_slots s' a = Some v'" "sl_key v' = sl_key v" "sl_nodes v' = ns"
      "keyed s' = keyed s"
      using put_nodes_ok [OF ok v] by metis
    then show ?thesis using that [of s'] v ns False by (auto simp: uwsgi_remove_subscribe_node_def Let_def split: list.splits)
  next
    case True
    obtain b' where b': "strip (v\<lparr>sl_nodes := []\<rparr>) = b'" by blast
    obtain B where B: "B = (bodies s)(a \<mapsto> b')" by blast
    obtain s1 where s1: "put_nodes s a [] = Some s1" "sees s1 (sb_table s) (pvs s) (nxs s) B"
      using v lk(3,4) slot_views [where s = s and a = a and u = "v\<lparr>sl_nodes := []\<rparr>"] b'
      by (auto simp: put_nodes_def upd_slot_def sees_def fun_upd_idem B)
    show ?thesis
    proof (cases "sl_prev v = 0 \<and> sl_next v = 0")
      case both: True
      let ?s2 = "put_head s1 (sl_hash v) 0" and ?e = "put_head (s1\<lparr>sb_slots := (sb_slots s1)(a := None)\<rparr>) (sl_hash v) 0"
      have "sees ?s2 ((sb_table s)(sl_hash v := 0)) (pvs s) (nxs s) B" by (rule sees_head [OF s1(2)])
      then have "sub_ok ?e \<and> pool ?e = (pool s)(sl_key v := None) \<and> keyed ?e = (keyed s)(a := None)"
        using both lk(3,4) by (intro unlink_slot [OF ok v, of ?s2 B b']) (auto simp: unlink_pv_def unlink_nx_def put_head_def B)
      moreover have "uwsgi_remove_subscribe_node s a n = Some (1, ?e)"
        using v ns True s1(1) both by (simp add: uwsgi_remove_subscribe_node_def)
      ultimately show ?thesis using that [of ?e] ns True by simp
    next
      case False
      let ?T = "if sl_prev v = 0 then (sb_table s)(sl_hash v := sl_next v) else sb_table s"
      obtain s2 where s2: "(if sb_table s1 (sl_hash v) = a then put_head s1 (sl_hash v) (sl_next v) else s1) = s2"
        "sees s2 ?T (pvs s) (nxs s) B"
        using sees_head [OF s1(2), of "sl_hash v" "sl_next v"] s1(2) lk(2)
        by (cases "sl_prev v = 0") (auto simp: sees_def)
      have lp: "sl_prev v \<noteq> 0 \<Longrightarrow> B (sl_prev v) \<noteq> None" "sl_next v \<noteq> 0 \<Longrightarrow> B (sl_next v) \<noteq> None"
        using lk(5,6) by (auto simp: B simp del: bodies_None)
      obtain s3 where s3: "(if sl_prev v \<noteq> 0 then upd_slot s2 (sl_prev v) (\<lambda>u. u\<lparr>sl_next := sl_next v\<rparr>) else Some s2) = Some s3"
        "sees s3 ?T (pvs s) (unlink_nx (pvs s) (nxs s) a) B"
        using sees_next [OF s2(2) lp(1), of "sl_next v"] s2(2) lk(3,4)
        by (cases "sl_prev v = 0") (auto simp: unlink_nx_def)
      obtain s4 where s4: "(if sl_next v \<noteq> 0 then upd_slot s3 (sl_next v) (\<lambda>u. u\<lparr>sl_prev := sl_prev v\<rparr>) else Some s3) = Some s4"
        "sees s4 ?T (unlink_pv (pvs s) (nxs s) a) (unlink_nx (pvs s) (nxs s) a) B"
        using sees_prev [OF s3(2) lp(2), of "sl_prev v"] s3(2) lk(3,4)
        by (cases "sl_next v = 0") (auto simp: unlink_pv_def)
      let ?e = "s4\<lparr>sb_slots := (sb_slots s4)(a := None)\<rparr>"
      have "sub_ok ?e \<and> pool ?e = (pool s)(sl_key v := None) \<and> keyed ?e = (keyed s)(a := None)"
        using s4(2) lk(3,4) by (intro unlink_slot [OF ok v, of s4 B b']) (auto simp: B)
      moreover have "uwsgi_remove_subscribe_node s a n = Some (1, ?e)"
        using v ns True s1(1) False lk(1) s2(1) s3(1) s4(1)
        by (cases "sl_prev v = 0"; cases "sl_next v = 0"; simp add: uwsgi_remove_subscribe_node_def Let_def)
      ultimately show ?thesis using that [of ?e] ns True by simp
    qed
  qed
qed

lemma add_slot_ok:
  assumes ok: "sub_ok s" and none: "pool s key = None" and a: "a \<noteq> 0" "sb_slots s a = None"
    and key: "length key < 0xff" and nd: "nodes_wf ns" and h: "h = slot_index key"
  shows "\<exists>old s1 e. last_slot s 0 (sb_table s h) = Some old \<and>
    (if old \<noteq> 0 then upd_slot s old (\<lambda>u. u\<lparr>sl_next := a\<rparr>) else Some s) = Some s1 \<and>
    e = (let s = s1\<lparr>sb_slots := (sb_slots s1)(a \<mapsto> \<lparr>sl_key = key, sl_hash = h, sl_hits = 0,
           sl_nodes = ns, sl_prev = old, sl_next = 0\<rparr>)\<rparr> in
         if sb_table s h = 0 \<or> old = 0 then put_head s h a else s) \<and>
    sub_ok e \<and> pool e = (pool s)(key \<mapsto> ns) \<and> keyed e = (keyed s)(a \<mapsto> key)"
proof -
  obtain cn where c: "chained s cn" and w: "slots_wf (bodies s)" using ok by (auto simp: sub_ok_def)
  obtain xs where xs: "xs = cn h" by blast
  note g = chained_seg [OF c, of h, folded xs]
  have live: "\<forall>x\<in>set xs. sb_slots s x \<noteq> None" using chained_in [OF c, of _ h] xs by auto
  have out: "a \<notin> set (cn k)" for k using a(2) chained_in [OF c, of a k] by auto
  have last: "last_slot s 0 (sb_table s h) = Some (last0 0 xs)" using last_slot_walk [of s 0 xs] g live by simp
  have l0: "last0 0 xs = 0 \<longleftrightarrow> xs = []" "sb_table s h = 0 \<longleftrightarrow> xs = []"
    using last0_zero [of "pvs s" "nxs s" 0 xs 0] hd0_zero [of "pvs s" "nxs s" 0 xs 0] g by auto
  let ?nx = "if xs = [] then nxs s else (nxs s)(last xs := a)"
  obtain s1 where s1: "(if last0 0 xs \<noteq> 0 then upd_slot s (last0 0 xs) (\<lambda>u. u\<lparr>sl_next := a\<rparr>) else Some s) = Some s1"
    "sees s1 (sb_table s) (pvs s) ?nx (bodies s)"
  proof (cases "xs = []")
    case False
    then have "bodies s (last xs) \<noteq> None" using live last_in_set [of xs] by simp
    from sees_next [OF sees_refl this, of a] show ?thesis using that l0 False by (auto simp: last0_def)
  qed (use that [of s] l0 sees_refl [of s] in auto)
  let ?u = "\<lparr>sl_key = key, sl_hash = h, sl_hits = 0, sl_nodes = ns, sl_prev = last0 0 xs, sl_next = 0\<rparr>"
  let ?s2 = "s1\<lparr>sb_slots := (sb_slots s1)(a \<mapsto> ?u)\<rparr>"
  let ?T = "if xs = [] then (sb_table s)(h := a) else sb_table s"
  have see2: "sees ?s2 (sb_table s) ((pvs s)(a := last0 0 xs)) (append_nx (nxs s) xs a) ((bodies s)(a \<mapsto> strip ?u))"
    using s1(2) slot_views [where s = s1 and a = a and u = ?u] by (simp add: sees_def append_nx_def)
  have "sub_ok e \<and> pool e = (pool s)(key \<mapsto> ns) \<and> keyed e = (keyed s)(a \<mapsto> key)"
    if e: "e = (let s = ?s2 in if sb_table s h = 0 \<or> last0 0 xs = 0 then put_head s h a else s)" for e
  proof -
    have see: "sees e ?T ((pvs s)(a := last0 0 xs)) (append_nx (nxs s) xs a) ((bodies s)(a \<mapsto> strip ?u))"
      using sees_head [OF see2, of h a] see2 l0 s1(2) e by (cases "xs = []") (auto simp: sees_def)
    have "chained e (cn(h := xs @ [a]))"
    proof (rule chained_change [OF c _ _ _ _ _ _ see])
      show "\<forall>k. k \<noteq> h \<longrightarrow> ?T k = sb_table s k" by simp
      show "?T h = hd0 0 (xs @ [a])" using g by (cases xs) auto
      show "seg ((pvs s)(a := last0 0 xs)) (append_nx (nxs s) xs a) 0 (xs @ [a]) 0"
        using g out [of h] xs a(1) by (intro seg_append_item) auto
      show "distinct (xs @ [a])" using g out [of h] xs by auto
      show "(x \<in> set ((cn(h := xs @ [a])) k)) = (\<exists>b. ((bodies s)(a \<mapsto> strip ?u)) x = Some b \<and> sl_hash b = k)" for k x
        using chained_members [OF c, of x k] out [of k] xs by (cases "k = h"; cases "x = a") auto
      show "((pvs s)(a := last0 0 xs)) x = pvs s x \<and> append_nx (nxs s) xs a x = nxs s x"
        if "x \<notin> set (cn h)" "x \<notin> set (xs @ [a])" for x
        using that xs last_in_set [of xs] by (auto simp: append_nx_def)
    qed
    moreover have Be: "bodies e = (bodies s)(a \<mapsto> strip ?u)" using see by (simp add: sees_def)
    have new: "sl_key b \<noteq> key" if "bodies s x = Some b" for x b using that none pool_iff [OF ok, of key "sl_nodes b"] by auto
    have "body_wf (strip ?u)" using key nd h by (simp add: body_wf_def)
    then have "slots_wf (bodies e)" using w new unfolding Be slots_wf_def by (auto split: if_splits)
    ultimately have ok': "sub_ok e" by (auto simp: sub_ok_def)
    moreover have "pool e = (pool s)(key \<mapsto> ns)"
    proof
      fix k
      show "pool e k = ((pool s)(key \<mapsto> ns)) k"
      proof (cases "k = key")
        case True
        have "pool e key = Some ns"
          unfolding pool_iff [OF ok'] by (rule exI [of _ a], rule exI [of _ "strip ?u"]) (simp add: Be)
        then show ?thesis using True by simp
      next
        case False
        have "pool e k = pool s k"
          by (rule pool_frame [OF ok ok' _ _ _ False, of a]) (use Be a(2) in \<open>auto simp: bodies_def\<close>)
        then show ?thesis using False by simp
      qed
    qed
    moreover have "keyed e = (keyed s)(a \<mapsto> key)" by (auto simp: keyed_def Be)
    ultimately show ?thesis by blast
  qed
  then show ?thesis using last s1(1) by blast
qed

section \<open>The pools\<close>

text \<open>
  What the operations do to the nodes of a key, without the table: announcing, taking leave,
  releasing, and choosing.
\<close>

definition announce :: "int \<Rightarrow> nat \<Rightarrow> sreq \<Rightarrow> snode list option \<Rightarrow> snode list" where
  "announce now n usr p =
     (case p of None \<Rightarrow> [new_node now n usr]
      | Some ns \<Rightarrow>
          if us_address usr \<in> sn_name ` set ns
          then map (\<lambda>nd. if sn_name nd = us_address usr then renew_node now usr nd else nd) ns
          else ns @ [new_node now n usr])"

definition some_nodes :: "snode list \<Rightarrow> snode list option" where
  "some_nodes ns = (if ns = [] then None else Some ns)"

lemma some_nodes_simps [simp]: "some_nodes [] = None" "ns \<noteq> [] \<Longrightarrow> some_nodes ns = Some ns"
  by (simp_all add: some_nodes_def)

text \<open>The choice: marking what was not announced, dropping what is dead and unused, asking the algorithm.\<close>

fun pick_nodes :: "sconf \<Rightarrow> int \<Rightarrow> snode list \<Rightarrow> snode list \<Rightarrow> (nat \<times> snode list) option" where
  "pick_nodes c now past [] = (if past = [] then Some (0, []) else run_algo c past 0)"
| "pick_nodes c now past (nd # ns) =
     (let nd = check_alive c now nd in
      if sn_death_mark nd \<and> sn_reference nd = 0 then pick_nodes c now past ns
      else case run_algo c (past @ nd # ns) (sn_id nd) of
          None \<Rightarrow> None
        | Some (r, all) \<Rightarrow> if r \<noteq> 0 then Some (r, all) else pick_nodes c now (past @ [nd]) ns)"

text \<open>Only the addresses, names and weights matter for being well-formed.\<close>

definition face :: "snode \<Rightarrow> nat \<times> bytes \<times> u64" where
  "face nd = (sn_id nd, sn_name nd, sn_weight nd)"

lemma face_upd [simp]:
  "face (nd\<lparr>sn_reference := r\<rparr>) = face nd" "face (nd\<lparr>sn_wrr := w\<rparr>) = face nd"
  "face (nd\<lparr>sn_failcnt := f\<rparr>) = face nd" "face (nd\<lparr>sn_death_mark := d\<rparr>) = face nd"
  "face (check_alive c now nd) = face nd" "face (mark_failed nd) = face nd"
  by (simp_all add: face_def check_alive_def mark_failed_def)

lemma face_fields: "face x = face y \<longleftrightarrow> sn_id x = sn_id y \<and> sn_name x = sn_name y \<and> sn_weight x = sn_weight y"
  by (auto simp: face_def)

lemma check_alive_fields [simp]:
  "sn_id (check_alive c now nd) = sn_id nd" "sn_name (check_alive c now nd) = sn_name nd"
  "sn_weight (check_alive c now nd) = sn_weight nd" "sn_reference (check_alive c now nd) = sn_reference nd"
  "sn_wrr (check_alive c now nd) = sn_wrr nd" "sn_last_check (check_alive c now nd) = sn_last_check nd"
  by (simp_all add: check_alive_def)

lemma map_faces:
  assumes "map face ns' = map face ns"
  shows "map sn_id ns' = map sn_id ns" "map sn_name ns' = map sn_name ns" "map sn_weight ns' = map sn_weight ns"
    "nodes_wf ns' \<longleftrightarrow> nodes_wf ns"
proof -
  have c: "map (f \<circ> face) ns' = map (f \<circ> face) ns" for f :: "nat \<times> bytes \<times> u64 \<Rightarrow> 'b"
    using arg_cong [OF assms, of "map f"] by simp
  have ids: "map sn_id xs = map (fst \<circ> face) xs" "map sn_name xs = map ((fst \<circ> snd) \<circ> face) xs"
    "map sn_weight xs = map ((snd \<circ> snd) \<circ> face) xs" for xs by (simp_all add: face_def)
  show i: "map sn_id ns' = map sn_id ns" "map sn_name ns' = map sn_name ns" "map sn_weight ns' = map sn_weight ns"
    unfolding ids using c by blast+
  have g: "(\<forall>nd\<in>set xs. sn_id nd \<noteq> 0 \<and> sn_name nd \<noteq> [] \<and> length (sn_name nd) \<le> 0xff \<and> sn_weight nd \<noteq> 0) \<longleftrightarrow>
      list_all (\<lambda>(n, m, w). n \<noteq> 0 \<and> m \<noteq> [] \<and> length m \<le> 0xff \<and> w \<noteq> 0) (map face xs)" for xs
    by (auto simp: face_def list_all_iff)
  have "ns' = [] \<longleftrightarrow> ns = []" using assms by (metis map_is_Nil_conv)
  then show "nodes_wf ns' \<longleftrightarrow> nodes_wf ns" unfolding nodes_wf_def g assms i by simp
qed

lemma upd_node_faces: "(\<And>nd. face (f nd) = face nd) \<Longrightarrow> map face (upd_node n f ns) = map face ns"
  by (simp add: upd_node_def)

lemma upd_node_at:
  assumes "distinct (map sn_id (past @ nd # rest))"
  shows "upd_node (sn_id nd) f (past @ nd # rest) = past @ f nd # rest"
    "find_node (sn_id nd) (past @ nd # rest) = Some nd"
    "filter (\<lambda>x. sn_id x \<noteq> sn_id nd) (past @ nd # rest) = past @ rest"
proof -
  have o: "sn_id x \<noteq> sn_id nd" if "x \<in> set past \<union> set rest" for x using assms that by (auto simp: image_iff)
  have "map (\<lambda>x. if sn_id x = sn_id nd then f x else x) xs = xs" if "set xs \<subseteq> set past \<union> set rest" for xs
    by (rule map_idI) (use o that in auto)
  then show "upd_node (sn_id nd) f (past @ nd # rest) = past @ f nd # rest" by (simp add: upd_node_def)
  have "find_node n (xs @ ys) = find_node n ys" if "\<forall>x\<in>set xs. sn_id x \<noteq> n" for n xs ys
    using that by (induction xs) auto
  then show "find_node (sn_id nd) (past @ nd # rest) = Some nd" using o by simp
  show "filter (\<lambda>x. sn_id x \<noteq> sn_id nd) (past @ nd # rest) = past @ rest" using o by (simp add: filter_True)
qed

lemma find_node_in: "find_node n ns = Some nd \<Longrightarrow> nd \<in> set ns \<and> sn_id nd = n"
  by (induction ns) (auto split: if_splits)

lemma find_node_some: "n \<in> sn_id ` set ns \<Longrightarrow> \<exists>nd. find_node n ns = Some nd"
  by (induction ns) auto

lemma min_weight_zero:
  "\<forall>nd\<in>set ns. sn_weight nd \<noteq> 0 \<Longrightarrow> min_weight ns m = 0 \<longleftrightarrow> m = 0 \<and> (\<forall>nd\<in>set ns. sn_death_mark nd)"
  by (induction ns arbitrary: m) auto

lemma last_alive_in:
  "(last_alive ns n = n \<and> (\<forall>nd\<in>set ns. sn_death_mark nd)) \<or> (\<exists>nd\<in>set ns. \<not> sn_death_mark nd \<and> sn_id nd = last_alive ns n)"
proof (induction ns arbitrary: n)
  case (Cons nd ns)
  then show ?case by (cases "sn_death_mark nd") (auto, metis)
qed simp

lemma lrc_loop_in: "lrc_loop ns m n = n \<or> (\<exists>nd\<in>set ns. \<not> sn_death_mark nd \<and> sn_id nd = lrc_loop ns m n)"
proof (induction ns m n rule: lrc_loop.induct)
  case (2 nd ns m n)
  then show ?case by (auto simp: Let_def)
qed simp

lemma wlrc_loop_in: "wlrc_loop fd ns m n = n \<or> (\<exists>nd\<in>set ns. \<not> sn_death_mark nd \<and> sn_id nd = wlrc_loop fd ns m n)"
proof (induction fd ns m n rule: wlrc_loop.induct)
  case (2 fd nd ns m n)
  then show ?case by (auto simp: Let_def)
qed simp

text \<open>Every algorithm answers with a node alive or none, and changes only counters.\<close>

lemma run_algo_cases:
  assumes wf: "nodes_wf ns" and n: "n = 0 \<or> n \<in> sn_id ` set ns"
  obtains r ns' where "run_algo c ns n = Some (r, ns')" "map face ns' = map face ns"
    "r \<noteq> 0 \<Longrightarrow> \<exists>nd\<in>set ns. sn_id nd = r \<and> \<not> sn_death_mark nd" "n \<noteq> 0 \<Longrightarrow> r = 0 \<Longrightarrow> ns' = ns"
    "n \<noteq> 0 \<Longrightarrow> r \<noteq> 0 \<Longrightarrow> r = n" "map sn_death_mark ns' = map sn_death_mark ns"
proof (cases "sc_algo c")
  case Wrr
  show ?thesis
  proof (cases "n = 0")
    case False
    then obtain nd where nd: "find_node n ns = Some nd" using find_node_some n by blast
    have i: "nd \<in> set ns" "sn_id nd = n" using find_node_in [OF nd] by auto
    let ?f = "\<lambda>nd. nd\<lparr>sn_wrr := sn_wrr nd - 1, sn_reference := sn_reference nd + 1\<rparr>"
    show ?thesis
    proof (cases "\<not> sn_death_mark nd \<and> sn_wrr nd > 0")
      case True
      have "run_algo c ns n = Some (n, upd_node n ?f ns)"
        using Wrr False nd True by (simp add: run_algo_def uwsgi_subscription_algo_wrr_def)
      then show ?thesis by (rule that) (use i True False in \<open>auto simp: upd_node_faces upd_node_def\<close>)
    next
      case no: False
      then show ?thesis using that [of 0 ns] Wrr False nd
        by (auto simp: run_algo_def uwsgi_subscription_algo_wrr_def)
    qed
  next
    case True
    let ?m = "min_weight ns 0" and ?l = "last_alive ns 0"
    let ?ns = "map (\<lambda>nd. if sn_death_mark nd then nd else nd\<lparr>sn_wrr := sn_weight nd div ?m\<rparr>) ns"
    let ?f = "\<lambda>nd. nd\<lparr>sn_wrr := sn_wrr nd - 1, sn_reference := sn_reference nd + 1\<rparr>"
    show ?thesis
    proof (cases "?l = 0")
      case z: True
      then show ?thesis using that [of 0 ns] Wrr True by (simp add: run_algo_def uwsgi_subscription_algo_wrr_def Let_def)
    next
      case False
      then obtain nd where nd: "nd \<in> set ns" "\<not> sn_death_mark nd" "sn_id nd = ?l" using last_alive_in [of ns 0] by auto
      then have "?m \<noteq> 0" using min_weight_zero [of ns 0] wf by (auto simp: nodes_wf_def)
      then have "run_algo c ns n = Some (?l, upd_node ?l ?f ?ns)"
        using Wrr True False by (simp add: run_algo_def uwsgi_subscription_algo_wrr_def Let_def)
      then show ?thesis by (rule that) (use nd True False in \<open>auto simp: upd_node_faces upd_node_def\<close>)
    qed
  qed
next
  case Lrc
  show ?thesis
  proof (cases "n = 0 \<and> lrc_loop ns 0 0 \<noteq> 0")
    case True
    then have "run_algo c ns n = Some (take_node (lrc_loop ns 0 0) ns)"
      using Lrc by (simp add: run_algo_def uwsgi_subscription_algo_lrc_def)
    then show ?thesis unfolding take_node_def
      by (rule that) (use True lrc_loop_in [of ns 0 0] in \<open>auto simp: upd_node_faces upd_node_def\<close>)
  next
    case False
    then have "run_algo c ns n = Some (0, ns)"
      using Lrc by (auto simp: run_algo_def uwsgi_subscription_algo_lrc_def)
    then show ?thesis by (rule that) auto
  qed
next
  case Wlrc
  show ?thesis
  proof (cases "n = 0 \<and> wlrc_loop (sc_fdiv c) ns 0 0 \<noteq> 0")
    case True
    then have "run_algo c ns n = Some (take_node (wlrc_loop (sc_fdiv c) ns 0 0) ns)"
      using Wlrc by (simp add: run_algo_def uwsgi_subscription_algo_wlrc_def)
    then show ?thesis unfolding take_node_def
      by (rule that) (use True wlrc_loop_in [of "sc_fdiv c" ns 0 0] in \<open>auto simp: upd_node_faces upd_node_def\<close>)
  next
    case False
    then have "run_algo c ns n = Some (0, ns)"
      using Wlrc by (auto simp: run_algo_def uwsgi_subscription_algo_wlrc_def)
    then show ?thesis by (rule that) auto
  qed
qed

lemma run_algo_ok:
  assumes "nodes_wf ns" "n = 0 \<or> n \<in> sn_id ` set ns"
  shows "\<exists>r ns'. run_algo c ns n = Some (r, ns') \<and> map face ns' = map face ns \<and>
    (r \<noteq> 0 \<longrightarrow> (\<exists>nd\<in>set ns. sn_id nd = r \<and> \<not> sn_death_mark nd)) \<and> (n \<noteq> 0 \<longrightarrow> r = 0 \<longrightarrow> ns' = ns) \<and>
    (n \<noteq> 0 \<longrightarrow> r \<noteq> 0 \<longrightarrow> r = n) \<and> map sn_death_mark ns' = map sn_death_mark ns"
proof (rule run_algo_cases [OF assms, of c], goal_cases)
  case (1 r ns')
  then show ?case by (intro exI [of _ r] exI [of _ ns']) auto
qed

text \<open>The walk of the code over the table is the choice among the nodes of the key.\<close>

lemma remove_ok:
  assumes "sub_ok s" "sb_slots s a = Some v" "filter (\<lambda>nd. sn_id nd \<noteq> n) (sl_nodes v) = ns"
  shows "\<exists>s'. uwsgi_remove_subscribe_node s a n = Some (if ns = [] then 1 else 0, s') \<and> sub_ok s' \<and>
    pool s' = (pool s)(sl_key v := some_nodes ns) \<and>
    (ns \<noteq> [] \<longrightarrow> (\<exists>v'. sb_slots s' a = Some v' \<and> sl_key v' = sl_key v \<and> sl_nodes v' = ns)) \<and>
    keyed s' = (if ns = [] then (keyed s)(a := None) else keyed s)"
proof (rule remove_node_ok [OF assms(1,2), of n], goal_cases)
  case (1 s')
  then show ?case by (intro exI [of _ s']) (auto simp: assms(3) split: list.splits)
qed

lemma visit_ok:
  assumes "sub_ok s" "sb_slots s a = Some v" "sl_key v = key" "sl_nodes v = past @ rest"
  shows "\<exists>r ns s'. pick_nodes c now past rest = Some (r, ns) \<and>
    visit_nodes c now a (map sn_id rest) s = Some (r, s') \<and> sub_ok s' \<and> pool s' = (pool s)(key := some_nodes ns) \<and>
    keyed s' = (if ns = [] then (keyed s)(a := None) else keyed s)"
  using assms
proof (induction rest arbitrary: past s v)
  case Nil
  have wf: "nodes_wf (sl_nodes v)" using sub_ok_body [OF Nil.prems(1,2)] by (simp add: body_wf_def)
  then have ne: "past \<noteq> []" using Nil.prems(4) by (auto simp: nodes_wf_def)
  obtain r ns where r: "run_algo c past 0 = Some (r, ns)" "map face ns = map face past"
    using run_algo_ok [of past 0 c] wf Nil.prems(4) by fastforce
  have wf': "nodes_wf ns" "ns \<noteq> []" using map_faces(4) [OF r(2)] wf Nil.prems(4) by (auto simp: nodes_wf_def)
  obtain s' v' where s': "put_nodes s a ns = Some s'" "sub_ok s'" "pool s' = (pool s)(sl_key v \<mapsto> ns)"
    "keyed s' = keyed s"
    using put_nodes_ok [OF Nil.prems(1,2) wf'(1)] by metis
  show ?case using Nil.prems ne r(1) s' wf'(2)
    by (intro exI [of _ r] exI [of _ ns] exI [of _ s']) (simp add: slot_nodes_def)
next
  case (Cons nd rest)
  let ?nd = "check_alive c now nd" and ?all = "past @ check_alive c now nd # rest"
  have wf: "nodes_wf (past @ nd # rest)" using sub_ok_body [OF Cons.prems(1,2)] Cons.prems(4) by (simp add: body_wf_def)
  have wf': "nodes_wf ?all" using map_faces(4) [of ?all "past @ nd # rest"] wf by simp
  have d: "distinct (map sn_id (past @ nd # rest))" "distinct (map sn_id ?all)" using wf wf' by (auto simp: nodes_wf_def)
  have at: "upd_node (sn_id nd) (check_alive c now) (past @ nd # rest) = ?all"
    "find_node (sn_id nd) ?all = Some ?nd" "filter (\<lambda>x. sn_id x \<noteq> sn_id nd) ?all = past @ rest"
    using upd_node_at(1) [OF d(1)] upd_node_at(2,3) [OF d(2)] by simp_all
  obtain s1 v1 where s1: "put_nodes s a ?all = Some s1" "sub_ok s1" "pool s1 = (pool s)(key \<mapsto> ?all)"
    "sb_slots s1 a = Some v1" "sl_key v1 = key" "sl_nodes v1 = ?all" "keyed s1 = keyed s"
    using put_nodes_ok [OF Cons.prems(1,2) wf'] Cons.prems(3) by metis
  show ?case
  proof (cases "sn_death_mark ?nd \<and> sn_reference ?nd = 0")
    case dead: True
    obtain s2 where s2: "uwsgi_remove_subscribe_node s1 a (sn_id nd) = Some (if past @ rest = [] then 1 else 0, s2)"
      "sub_ok s2" "pool s2 = (pool s1)(key := some_nodes (past @ rest))"
      "past @ rest \<noteq> [] \<Longrightarrow> \<exists>v. sb_slots s2 a = Some v \<and> sl_key v = key \<and> sl_nodes v = past @ rest"
      "keyed s2 = (if past @ rest = [] then (keyed s1)(a := None) else keyed s1)"
      using remove_ok [OF s1(2,4), of "sn_id nd" "past @ rest"] s1(5,6) at(3) by auto
    show ?thesis
    proof (cases "past @ rest = []")
      case True
      then show ?thesis using Cons.prems s1 s2 at dead
        by (intro exI [of _ 0] exI [of _ "[]"] exI [of _ s2]) (simp add: slot_nodes_def)
    next
      case False
      then obtain v2 where v2: "sb_slots s2 a = Some v2" "sl_key v2 = key" "sl_nodes v2 = past @ rest" using s2(4) by blast
      obtain r ns s' where ih: "pick_nodes c now past rest = Some (r, ns)"
        "visit_nodes c now a (map sn_id rest) s2 = Some (r, s')" "sub_ok s'" "pool s' = (pool s2)(key := some_nodes ns)"
        "keyed s' = (if ns = [] then (keyed s2)(a := None) else keyed s2)"
        using Cons.IH [OF s2(2) v2] by blast
      then show ?thesis using Cons.prems s1 s2 at dead False
        by (intro exI [of _ r] exI [of _ ns] exI [of _ s']) (auto simp: slot_nodes_def Let_def)
    qed
  next
    case alive: False
    obtain r ns where r: "run_algo c ?all (sn_id nd) = Some (r, ns)" "map face ns = map face ?all" "r = 0 \<Longrightarrow> ns = ?all"
      using run_algo_ok [OF wf', of "sn_id nd" c] wf by (fastforce simp: nodes_wf_def)
    have wfn: "nodes_wf ns" "ns \<noteq> []" using map_faces(4) [OF r(2)] wf' by (auto simp: nodes_wf_def)
    obtain s2 v2 where s2: "put_nodes s1 a ns = Some s2" "sub_ok s2" "pool s2 = (pool s1)(key \<mapsto> ns)"
      "sb_slots s2 a = Some v2" "sl_key v2 = key" "sl_nodes v2 = ns" "keyed s2 = keyed s1"
      using put_nodes_ok [OF s1(2,4) wfn(1)] s1(5) by metis
    show ?thesis
    proof (cases "r = 0")
      case False
      then show ?thesis using Cons.prems s1 s2 at alive r wfn(2)
        by (intro exI [of _ r] exI [of _ ns] exI [of _ s2]) (auto simp: slot_nodes_def Let_def)
    next
      case True
      then have "sl_nodes v2 = (past @ [?nd]) @ rest" using s2(6) r(3) by simp
      from Cons.IH [OF s2(2,4,5) this] obtain q ns' s' where "pick_nodes c now (past @ [?nd]) rest = Some (q, ns')"
        "visit_nodes c now a (map sn_id rest) s2 = Some (q, s')" "sub_ok s'" "pool s' = (pool s2)(key := some_nodes ns')"
        "keyed s' = (if ns' = [] then (keyed s2)(a := None) else keyed s2)"
        by blast
      then show ?thesis using Cons.prems s1 s2 at alive r True
        by (intro exI [of _ q] exI [of _ ns'] exI [of _ s']) (auto simp: slot_nodes_def Let_def)
    qed
  qed
qed

section \<open>Announcing, leaving, releasing\<close>

definition admitted :: "sconf \<Rightarrow> sreq \<Rightarrow> bool" where
  "admitted c usr \<longleftrightarrow> us_address usr \<noteq> [] \<and> length (us_address usr) \<le> 0xff \<and>
     (sc_dirs c = [] \<or> uwsgi_subscription_credentials_check c (us_key usr) usr)"

definition leave :: "bytes \<Rightarrow> snode list \<Rightarrow> snode list" where
  "leave name ns = filter (\<lambda>nd. \<not> (sn_name nd = name \<and> sn_reference nd = 0))
     (map (\<lambda>nd. if sn_name nd = name then mark_failed nd else nd) ns)"

definition release :: "nat \<Rightarrow> bool \<Rightarrow> snode list \<Rightarrow> snode list" where
  "release n failed ns =
     (let ns = upd_node n (\<lambda>nd. nd\<lparr>sn_reference := sn_reference nd - 1\<rparr>) ns in
      if failed then filter (\<lambda>nd. \<not> (sn_id nd = n \<and> sn_reference nd = 0)) (upd_node n mark_failed ns) else ns)"

lemma named_node_spec:
  assumes "nodes_wf ns"
  shows "named_node m ns = 0 \<longleftrightarrow> m \<notin> sn_name ` set ns"
    "nd \<in> set ns \<Longrightarrow> sn_name nd = m \<longleftrightarrow> sn_id nd = named_node m ns"
proof -
  have "\<forall>nd\<in>set ns. sn_id nd \<noteq> 0" "distinct (map sn_id ns)" "distinct (map sn_name ns)"
    using assms by (auto simp: nodes_wf_def)
  then have "(named_node m ns = 0 \<longleftrightarrow> m \<notin> sn_name ` set ns) \<and> (\<forall>nd\<in>set ns. sn_name nd = m \<longleftrightarrow> sn_id nd = named_node m ns)"
  proof (induction ns)
    case (Cons x ns)
    then have ih: "named_node m ns = 0 \<longleftrightarrow> m \<notin> sn_name ` set ns" "\<forall>nd\<in>set ns. sn_name nd = m \<longleftrightarrow> sn_id nd = named_node m ns"
      by auto
    show ?case
    proof (cases "sn_name x = m")
      case True
      then have "\<forall>nd\<in>set ns. sn_name nd \<noteq> m \<and> sn_id nd \<noteq> sn_id x" using Cons.prems(2,3) by (auto simp: image_iff)
      then show ?thesis using True Cons.prems(1) by (auto simp: uwsgi_strncmp_def)
    next
      case False
      then have e: "named_node m (x # ns) = named_node m ns" by (auto simp: uwsgi_strncmp_def)
      have "sn_id x \<noteq> named_node m ns"
      proof (cases "m \<in> sn_name ` set ns")
        case True
        then obtain y where "y \<in> set ns" "sn_id y = named_node m ns" using ih(2) by auto
        then show ?thesis using Cons.prems(2) by (auto simp: image_iff)
      qed (use ih(1) Cons.prems(1) in auto)
      then show ?thesis using e ih False by auto
    qed
  qed simp
  then show "named_node m ns = 0 \<longleftrightarrow> m \<notin> sn_name ` set ns"
    "nd \<in> set ns \<Longrightarrow> sn_name nd = m \<longleftrightarrow> sn_id nd = named_node m ns" by auto
qed

lemma upd_named:
  assumes "nodes_wf ns"
  shows "upd_node (named_node m ns) f ns = map (\<lambda>nd. if sn_name nd = m then f nd else nd) ns"
  using named_node_spec(2) [OF assms, of _ m] by (auto simp: upd_node_def)

lemma nodes_wf_new:
  assumes "us_address usr \<noteq> []" "length (us_address usr) \<le> 0xff" "n \<noteq> 0"
  shows "nodes_wf [new_node now n usr]"
    "nodes_wf ns \<Longrightarrow> n \<notin> sn_id ` set ns \<Longrightarrow> us_address usr \<notin> sn_name ` set ns \<Longrightarrow> nodes_wf (ns @ [new_node now n usr])"
  using assms by (auto simp: nodes_wf_def new_node_def)

lemma nodes_wf_renew:
  assumes "nodes_wf ns"
  shows "nodes_wf (map (\<lambda>nd. if sn_name nd = m then renew_node now usr nd else nd) ns)"
proof -
  have "map sn_id (map (\<lambda>nd. if sn_name nd = m then renew_node now usr nd else nd) ns) = map sn_id ns"
    "map sn_name (map (\<lambda>nd. if sn_name nd = m then renew_node now usr nd else nd) ns) = map sn_name ns"
    by (auto simp: renew_node_def)
  then show ?thesis using assms by (auto simp: nodes_wf_def renew_node_def simp del: map_map)
qed

definition fresh :: "subs \<Rightarrow> nat \<Rightarrow> nat \<Rightarrow> bool" where
  "fresh s a n \<longleftrightarrow> a \<noteq> 0 \<and> sb_slots s a = None \<and> n \<noteq> 0 \<and>
     (\<forall>b v. sb_slots s b = Some v \<longrightarrow> n \<notin> sn_id ` set (sl_nodes v))"

lemma fresh_bodies: "bodies s' = bodies s \<Longrightarrow> fresh s a n \<Longrightarrow> fresh s' a n"
proof -
  assume b: "bodies s' = bodies s" and f: "fresh s a n"
  have "\<exists>u. sb_slots s x = Some u \<and> sl_nodes u = sl_nodes v" if "sb_slots s' x = Some v" for x v
    using that b bodies_iff [of s x "strip v"] bodies_iff [of s' x "strip v"] by (metis strip_simps(4))
  moreover have "sb_slots s' a = None" using f fun_cong [OF b, of a] by (auto simp: fresh_def bodies_def)
  ultimately show ?thesis using f unfolding fresh_def by metis
qed

definition subscribe_pool :: "sconf \<Rightarrow> int \<Rightarrow> nat \<Rightarrow> sreq \<Rightarrow> (bytes \<Rightarrow> snode list option) \<Rightarrow> bytes \<Rightarrow> snode list option" where
  "subscribe_pool c now n usr P =
     (if admitted c usr then P(us_key usr \<mapsto> announce now n usr (P (us_key usr))) else P)"

lemma add_node_ok:
  assumes ok: "sub_ok s" and f: "fresh s a n" and key: "length (us_key usr) < 0xff"
  shows "\<exists>r s'. uwsgi_add_subscribe_node c now a n s usr = Some (r, s') \<and> sub_ok s' \<and>
    pool s' = subscribe_pool c now n usr (pool s) \<and>
    (keyed s' = keyed s \<or> keyed s a = None \<and> keyed s' = (keyed s)(a \<mapsto> us_key usr))"
proof -
  let ?key = "us_key usr"
  obtain cur s0 where g: "uwsgi_get_subscribe_slot s ?key = Some (cur, s0)" "sub_ok s0" "pool s0 = pool s"
    "bodies s0 = bodies s" "cur = 0 \<Longrightarrow> pool s ?key = None"
    "cur \<noteq> 0 \<Longrightarrow> \<exists>v. sb_slots s0 cur = Some v \<and> sl_key v = ?key \<and> pool s ?key = Some (sl_nodes v)"
    using get_slot_ex [OF ok, of ?key] by blast
  have f0: "fresh s0 a n" by (rule fresh_bodies [OF g(4) f])
  have k0: "keyed s0 = keyed s" "keyed s a = None" using g(4) f by (simp_all add: keyed_def fresh_def fun_eq_iff)
  show ?thesis
  proof (cases "admitted c usr")
    case False
    have "\<exists>s'. uwsgi_add_subscribe_node c now a n s usr = Some ((0, 0), s') \<and> s' = s0"
      using False g key by (cases "cur = 0") (auto simp: uwsgi_add_subscribe_node_def admitted_def)
    then show ?thesis using g(2,3) False k0 by (auto simp: subscribe_pool_def)
  next
    case True
    then have ad: "us_address usr \<noteq> []" "length (us_address usr) \<le> 0xff"
      "sc_dirs c = [] \<or> uwsgi_subscription_credentials_check c ?key usr" by (auto simp: admitted_def)
    have n: "n \<noteq> 0" using f by (simp add: fresh_def)
    show ?thesis
    proof (cases "cur = 0")
      case new: True
      obtain h where h: "h = slot_index ?key" by blast
      have p0: "pool s0 ?key = None" and fa: "a \<noteq> 0" "sb_slots s0 a = None"
        using g(3) g(5) [OF new] f0 by (simp_all add: fresh_def)
      obtain old s1 e where o: "last_slot s0 0 (sb_table s0 h) = Some old"
        "(if old \<noteq> 0 then upd_slot s0 old (\<lambda>u. u\<lparr>sl_next := a\<rparr>) else Some s0) = Some s1"
        "e = (let s = s1\<lparr>sb_slots := (sb_slots s1)(a \<mapsto> \<lparr>sl_key = ?key, sl_hash = h, sl_hits = 0,
               sl_nodes = [new_node now n usr], sl_prev = old, sl_next = 0\<rparr>)\<rparr> in
             if sb_table s h = 0 \<or> old = 0 then put_head s h a else s)"
        "sub_ok e" "pool e = (pool s0)(?key \<mapsto> [new_node now n usr])" "keyed e = (keyed s0)(a \<mapsto> ?key)"
        using add_slot_ok [OF g(2) p0 fa key nodes_wf_new(1) [OF ad(1,2) n, of now] h] by blast
      have "uwsgi_add_subscribe_node c now a n s usr = Some ((a, n), e)"
        using g(1) new ad key o(1,2) h unfolding o(3)
        by (cases "old = 0") (auto simp: uwsgi_add_subscribe_node_def Let_def)
      then show ?thesis using o(4-6) k0 g(3) g(5) [OF new] True by (auto simp: subscribe_pool_def announce_def)
    next
      case False
      then obtain v where v: "sb_slots s0 cur = Some v" "sl_key v = ?key" "pool s ?key = Some (sl_nodes v)" using g(6) by blast
      have wf: "nodes_wf (sl_nodes v)" using sub_ok_body [OF g(2) v(1)] by (simp add: body_wf_def)
      note nn = named_node_spec(1) [OF wf, of "us_address usr"]
      have out: "n \<notin> sn_id ` set (sl_nodes v)" using f0 v(1) unfolding fresh_def by blast
      have wf': "nodes_wf (announce now n usr (Some (sl_nodes v)))"
        using nodes_wf_renew [OF wf] nodes_wf_new(2) [OF ad(1,2) n wf out] by (simp add: announce_def)
      obtain s' v' where s': "put_nodes s0 cur (announce now n usr (Some (sl_nodes v))) = Some s'" "sub_ok s'"
        "pool s' = (pool s0)(?key \<mapsto> announce now n usr (Some (sl_nodes v)))" "keyed s' = keyed s0"
        using put_nodes_ok [OF g(2) v(1) wf'] v(2) by metis
      have "\<exists>r. uwsgi_add_subscribe_node c now a n s usr = Some (r, s')"
        using g(1) False ad v s'(1) nn upd_named [OF wf, of "us_address usr"]
        by (cases "named_node (us_address usr) (sl_nodes v)") (auto simp: uwsgi_add_subscribe_node_def announce_def)
      then show ?thesis using s' k0 g(3) v(3) True by (auto simp: subscribe_pool_def)
    qed
  qed
qed

definition bind_nodes :: "bytes \<Rightarrow> (snode list \<Rightarrow> snode list) \<Rightarrow> (bytes \<Rightarrow> snode list option) \<Rightarrow> bytes \<Rightarrow> snode list option" where
  "bind_nodes key f P = P(key := Option.bind (P key) (\<lambda>ns. some_nodes (f ns)))"

text \<open>What an operation may do to the addresses: keep them, or lose the one of a pool that is gone.\<close>

definition keeps_slots :: "subs \<Rightarrow> subs \<Rightarrow> bool" where
  "keeps_slots s s' \<longleftrightarrow>
     keyed s' = keyed s \<or> (\<exists>a k. keyed s a = Some k \<and> pool s' k = None \<and> keyed s' = (keyed s)(a := None))"

lemma mark_failed_fields [simp]:
  "sn_id (mark_failed nd) = sn_id nd" "sn_name (mark_failed nd) = sn_name nd"
  "sn_weight (mark_failed nd) = sn_weight nd" "sn_reference (mark_failed nd) = sn_reference nd"
  by (simp_all add: mark_failed_def)

lemma find_node_wf: "nodes_wf ns \<Longrightarrow> nd \<in> set ns \<Longrightarrow> find_node (sn_id nd) ns = Some nd"
proof -
  assume wf: "nodes_wf ns" and nd: "nd \<in> set ns"
  then obtain past rest where ns: "ns = past @ nd # rest" by (meson split_list)
  then show ?thesis using upd_node_at(2) [of past nd rest] wf by (simp add: nodes_wf_def)
qed

lemma find_upd_node: "find_node n ns = Some nd \<Longrightarrow> (\<And>x. sn_id (f x) = sn_id x) \<Longrightarrow> find_node n (upd_node n f ns) = Some (f nd)"
  by (induction ns) (auto simp: upd_node_def split: if_splits)

text \<open>Changing the nodes of a slot and removing the one node when it is no longer used.\<close>

lemma drop_node_ok:
  assumes "sub_ok s" "sb_slots s a = Some v" "map face ns = map face (sl_nodes v)"
  shows "\<exists>s1 v1. put_nodes s a ns = Some s1 \<and> sub_ok s1 \<and> pool s1 = (pool s)(sl_key v \<mapsto> ns) \<and> sb_slots s1 a = Some v1 \<and>
      sl_key v1 = sl_key v \<and> sl_nodes v1 = ns \<and> keyed s1 = keyed s"
    "\<exists>s1 s2 x. put_nodes s a ns = Some s1 \<and> uwsgi_remove_subscribe_node s1 a n = Some (x, s2) \<and> sub_ok s2 \<and>
      pool s2 = (pool s)(sl_key v := some_nodes (filter (\<lambda>nd. sn_id nd \<noteq> n) ns)) \<and> keeps_slots s s2"
proof -
  have "nodes_wf (sl_nodes v)" using sub_ok_body [OF assms(1,2)] by (simp add: body_wf_def)
  then have wf: "nodes_wf ns" using map_faces(4) [OF assms(3)] by simp
  obtain s1 v1 where s1: "put_nodes s a ns = Some s1" "sub_ok s1" "pool s1 = (pool s)(sl_key v \<mapsto> ns)"
    "sb_slots s1 a = Some v1" "sl_key v1 = sl_key v" "sl_nodes v1 = ns" "keyed s1 = keyed s"
    using put_nodes_ok [OF assms(1,2) wf] by metis
  then show "\<exists>s1 v1. put_nodes s a ns = Some s1 \<and> sub_ok s1 \<and> pool s1 = (pool s)(sl_key v \<mapsto> ns) \<and> sb_slots s1 a = Some v1 \<and>
      sl_key v1 = sl_key v \<and> sl_nodes v1 = ns \<and> keyed s1 = keyed s" by blast
  let ?ns = "filter (\<lambda>nd. sn_id nd \<noteq> n) ns"
  have "filter (\<lambda>nd. sn_id nd \<noteq> n) (sl_nodes v1) = ?ns" using s1(6) by simp
  from remove_ok [OF s1(2,4) this] obtain s2 where s2: "uwsgi_remove_subscribe_node s1 a n = Some (if ?ns = [] then 1 else 0, s2)"
    "sub_ok s2" "pool s2 = (pool s1)(sl_key v1 := some_nodes ?ns)"
    "keyed s2 = (if ?ns = [] then (keyed s1)(a := None) else keyed s1)" by blast
  have p: "pool s2 = (pool s)(sl_key v := some_nodes ?ns)" unfolding s2(3) s1(3,5) by (rule fun_upd_upd)
  have "keyed s a = Some (sl_key v)" using assms(2) by (auto simp: keyed_iff)
  then have "keeps_slots s s2" using s2(4) s1(7) p unfolding keeps_slots_def by auto
  then show "\<exists>s1 s2 x. put_nodes s a ns = Some s1 \<and> uwsgi_remove_subscribe_node s1 a n = Some (x, s2) \<and> sub_ok s2 \<and>
      pool s2 = (pool s)(sl_key v := some_nodes ?ns) \<and> keeps_slots s s2" using s1(1) s2(1,2) p by blast
qed

lemma filter_named:
  assumes "nodes_wf ns" "find_node (named_node m ns) ns = Some nd" "sn_reference nd = 0"
  shows "filter (\<lambda>x. sn_id x \<noteq> named_node m ns) (upd_node (named_node m ns) mark_failed ns) = leave m ns"
proof -
  have nd: "nd \<in> set ns" "sn_id nd = named_node m ns" using find_node_in [OF assms(2)] by auto
  have same: "x = nd" if "x \<in> set ns" "sn_name x = m" for x
    using that nd named_node_spec(2) [OF assms(1) that(1), of m] assms(1) by (auto simp: nodes_wf_def distinct_map inj_on_def)
  have "filter (\<lambda>x. sn_id x \<noteq> named_node m ns) (map (\<lambda>nd. if sn_name nd = m then mark_failed nd else nd) ns) = leave m ns"
    unfolding leave_def
    by (rule filter_cong) (use same named_node_spec(2) [OF assms(1), of _ m] assms(3) in auto)
  then show ?thesis unfolding upd_named [OF assms(1)] .
qed

lemma unsubscribe_ok:
  assumes ok: "sub_ok s"
  shows "\<exists>s'. unsubscribe s usr = Some s' \<and> sub_ok s' \<and>
    pool s' = bind_nodes (us_key usr) (leave (us_address usr)) (pool s) \<and> keeps_slots s s'"
proof -
  let ?key = "us_key usr" and ?m = "us_address usr"
  obtain a s0 where g: "uwsgi_get_subscribe_slot s ?key = Some (a, s0)" "sub_ok s0" "pool s0 = pool s"
    "bodies s0 = bodies s" "a = 0 \<Longrightarrow> pool s ?key = None"
    "a \<noteq> 0 \<Longrightarrow> \<exists>v. sb_slots s0 a = Some v \<and> sl_key v = ?key \<and> pool s ?key = Some (sl_nodes v)"
    using get_slot_ex [OF ok, of ?key] by blast
  have k0: "keyed s0 = keyed s" using g(4) by (simp add: keyed_def fun_eq_iff)
  have kp: "keeps_slots s s0" using k0 by (simp add: keeps_slots_def)
  show ?thesis
  proof (cases "a = 0")
    case True
    then have "unsubscribe s usr = Some (if length ?key > 0xff then s else s0)"
      using g(1) by (auto simp: unsubscribe_def uwsgi_get_subscribe_node_by_name_def)
    moreover have "bind_nodes ?key (leave ?m) (pool s) = pool s" using g(5) True by (auto simp: bind_nodes_def)
    moreover have "keeps_slots s s" by (simp add: keeps_slots_def)
    ultimately show ?thesis using ok g(2,3) kp by (cases "length ?key > 0xff") auto
  next
    case False
    then obtain v where v: "sb_slots s0 a = Some v" "sl_key v = ?key" "pool s ?key = Some (sl_nodes v)" using g(6) by blast
    have wf: "nodes_wf (sl_nodes v)" and len: "length ?key < 0xff" using sub_ok_body [OF g(2) v(1)] v(2) by (auto simp: body_wf_def)
    let ?n = "named_node ?m (sl_nodes v)"
    note nn = named_node_spec(1) [OF wf, of ?m]
    have lv: "leave ?m (sl_nodes v) = sl_nodes v" if out: "?m \<notin> sn_name ` set (sl_nodes v)"
    proof -
      have that: "sn_name nd \<noteq> ?m" if "nd \<in> set (sl_nodes v)" for nd using out that by (auto simp: image_iff)
      have "map (\<lambda>nd. if sn_name nd = ?m then mark_failed nd else nd) (sl_nodes v) = sl_nodes v"
        by (rule map_idI) (use that in auto)
      then show ?thesis using that by (auto simp: leave_def intro: filter_True)
    qed
    show ?thesis
    proof (cases "?n = 0")
      case True
      have ne: "sl_nodes v \<noteq> []" using wf by (simp add: nodes_wf_def)
      have "unsubscribe s usr = Some s0" using g(1) len False v(1) True
        by (simp add: unsubscribe_def uwsgi_get_subscribe_node_by_name_def slot_nodes_def)
      moreover have "bind_nodes ?key (leave ?m) (pool s) = pool s"
        using v(3) lv nn True ne by (auto simp: bind_nodes_def)
      ultimately show ?thesis using g(2,3) kp by simp
    next
      case name: False
      then obtain x where x: "x \<in> set (sl_nodes v)" "sn_name x = ?m" using nn by auto
      then have "sn_id x = ?n" using named_node_spec(2) [OF wf, of x ?m] by simp
      then have fn: "find_node ?n (sl_nodes v) = Some x" using find_node_wf [OF wf x(1)] by simp
      have xl: "sn_name x \<noteq> []" using wf x(1) by (auto simp: nodes_wf_def)
      let ?ns = "upd_node ?n mark_failed (sl_nodes v)"
      have fc: "map face ?ns = map face (sl_nodes v)" by (rule upd_node_faces) simp
      have run: "unsubscribe s usr = do {
          s \<leftarrow> put_nodes s0 a ?ns;
          if sn_reference x = 0 then map_option snd (uwsgi_remove_subscribe_node s a ?n) else Some s }"
        using g(1) len False v(1) name fn xl
        by (cases ?n) (simp_all add: unsubscribe_def uwsgi_get_subscribe_node_by_name_def slot_nodes_def cong: if_cong)
      show ?thesis
      proof (cases "sn_reference x = 0")
        case True
        obtain s1 s2 y where r: "put_nodes s0 a ?ns = Some s1" "uwsgi_remove_subscribe_node s1 a ?n = Some (y, s2)"
          "sub_ok s2" "pool s2 = (pool s0)(sl_key v := some_nodes (filter (\<lambda>nd. sn_id nd \<noteq> ?n) ?ns))" "keeps_slots s0 s2"
          using drop_node_ok(2) [OF g(2) v(1) fc, of ?n] by blast
        have "pool s2 = bind_nodes ?key (leave ?m) (pool s)"
          using r(4) g(3) v(2,3) filter_named [OF wf fn True] by (simp add: bind_nodes_def)
        moreover have "keeps_slots s s2" using r(5) k0 by (simp add: keeps_slots_def)
        ultimately show ?thesis using run r(1-3) True by simp
      next
        case no: False
        obtain s1 v1 where r: "put_nodes s0 a ?ns = Some s1" "sub_ok s1" "pool s1 = (pool s0)(sl_key v \<mapsto> ?ns)"
          "keyed s1 = keyed s0"
          using drop_node_ok(1) [OF g(2) v(1) fc] by blast
        have "sn_reference y \<noteq> 0" if "y \<in> set (sl_nodes v)" "sn_name y = ?m" for y
          using that x wf no by (auto simp: nodes_wf_def distinct_map inj_on_def)
        then have "leave ?m (sl_nodes v) = ?ns"
          unfolding leave_def upd_named [OF wf] by (auto intro!: filter_True)
        moreover have "?ns \<noteq> []" using wf by (auto simp: nodes_wf_def upd_node_def)
        ultimately have "pool s1 = bind_nodes ?key (leave ?m) (pool s)"
          using r(3) g(3) v(2,3) by (simp add: bind_nodes_def)
        moreover have "keeps_slots s s1" using r(4) k0 by (simp add: keeps_slots_def)
        ultimately show ?thesis using run r(1,2) no by simp
      qed
    qed
  qed
qed

lemma filter_released:
  "filter (\<lambda>x. sn_id x \<noteq> n) xs = filter (\<lambda>x. \<not> (sn_id x = n \<and> sn_reference x = 0)) xs"
  if "\<forall>x\<in>set xs. sn_id x = n \<longrightarrow> sn_reference x = 0"
  using that by (intro filter_cong) auto

lemma close_peer_ok:
  assumes ok: "sub_ok s" and v: "sb_slots s a = Some v" and nd: "nd \<in> set (sl_nodes v)" "sn_id nd = n"
  shows "\<exists>s'. close_peer_node s a n failed = Some s' \<and> sub_ok s' \<and>
    pool s' = bind_nodes (sl_key v) (release n failed) (pool s) \<and> keeps_slots s s'"
proof -
  have wf: "nodes_wf (sl_nodes v)" using sub_ok_body [OF ok v] by (simp add: body_wf_def)
  have fn: "find_node n (sl_nodes v) = Some nd" using find_node_wf [OF wf nd(1)] nd(2) by simp
  have n0: "n \<noteq> 0" "sn_name nd \<noteq> []" using wf nd by (auto simp: nodes_wf_def)
  have pv: "pool s (sl_key v) = Some (sl_nodes v)" by (rule pool_hit [OF ok v])
  let ?f = "\<lambda>nd. nd\<lparr>sn_reference := sn_reference nd - 1\<rparr>"
  obtain ns where ns: "ns = upd_node n ?f (sl_nodes v)" by blast
  have fc: "map face ns = map face (sl_nodes v)" unfolding ns by (rule upd_node_faces) simp
  have fn1: "find_node n ns = Some (?f nd)" unfolding ns by (rule find_upd_node [OF fn]) simp
  obtain s1 v1 where s1: "put_nodes s a ns = Some s1" "sub_ok s1" "pool s1 = (pool s)(sl_key v \<mapsto> ns)"
    "sb_slots s1 a = Some v1" "sl_key v1 = sl_key v" "sl_nodes v1 = ns" "keyed s1 = keyed s"
    using drop_node_ok(1) [OF ok v fc] by blast
  have ne: "ns \<noteq> []" using fc nd(1) by (metis list.map_disc_iff list.set(1) empty_iff)
  let ?ms = "upd_node n mark_failed ns"
  have fc1: "map face ?ms = map face (sl_nodes v1)" unfolding s1(6) by (rule upd_node_faces) simp
  have run: "close_peer_node s a n failed = (if failed then do {
        s \<leftarrow> put_nodes s1 a ?ms;
        if sn_reference nd - 1 = 0 then map_option snd (uwsgi_remove_subscribe_node s a n) else Some s }
      else Some s1)"
    using n0 v fn s1(1) fn1 ns by (simp add: close_peer_node_def slot_nodes_def)
  show ?thesis
  proof (cases failed)
    case False
    then have "pool s1 = bind_nodes (sl_key v) (release n failed) (pool s)"
      using s1(3) pv ns ne by (simp add: bind_nodes_def release_def)
    then show ?thesis using run s1(2,7) False by (simp add: keeps_slots_def)
  next
    case True
    have one: "x = ?f nd" if "x \<in> set ns" "sn_id x = n" for x
    proof -
      have "nodes_wf ns" using map_faces(4) [OF fc] wf by simp
      from find_node_wf [OF this that(1)] fn1 that(2) show ?thesis by simp
    qed
    have ref: "sn_reference y = sn_reference nd - 1" if y: "y \<in> set ?ms" "sn_id y = n" for y
    proof -
      obtain x where x: "x \<in> set ns" "y = (if sn_id x = n then mark_failed x else x)"
        using y(1) unfolding upd_node_def by auto
      then have "sn_id x = n" using y(2) by (auto split: if_splits)
      then show ?thesis using x one [of x] by simp
    qed
    have rel: "release n failed (sl_nodes v) = filter (\<lambda>nd. \<not> (sn_id nd = n \<and> sn_reference nd = 0)) ?ms"
      using True ns by (simp add: release_def Let_def)
    show ?thesis
    proof (cases "sn_reference nd - 1 = 0")
      case zero: True
      obtain s2 s3 x where r: "put_nodes s1 a ?ms = Some s2" "uwsgi_remove_subscribe_node s2 a n = Some (x, s3)" "sub_ok s3"
        "pool s3 = (pool s1)(sl_key v1 := some_nodes (filter (\<lambda>nd. sn_id nd \<noteq> n) ?ms))" "keeps_slots s1 s3"
        using drop_node_ok(2) [OF s1(2,4) fc1, of n] by blast
      have "filter (\<lambda>nd. sn_id nd \<noteq> n) ?ms = release n failed (sl_nodes v)"
        unfolding rel by (rule filter_released) (use ref zero in auto)
      then have "pool s3 = bind_nodes (sl_key v) (release n failed) (pool s)"
        using r(4) s1(3,5) pv by (simp add: bind_nodes_def)
      moreover have "keeps_slots s s3" using r(5) s1(7) by (simp add: keeps_slots_def)
      ultimately show ?thesis using run r(1-3) True zero by simp
    next
      case False
      obtain s2 where r: "put_nodes s1 a ?ms = Some s2" "sub_ok s2" "pool s2 = (pool s1)(sl_key v1 \<mapsto> ?ms)" "keyed s2 = keyed s1"
        using drop_node_ok(1) [OF s1(2,4) fc1] by blast
      have "release n failed (sl_nodes v) = ?ms"
        unfolding rel by (rule filter_True) (use ref False in auto)
      moreover have "?ms \<noteq> []" using ne by (auto simp: upd_node_def)
      ultimately have "pool s2 = bind_nodes (sl_key v) (release n failed) (pool s)"
        using r(3) s1(3,5) pv by (simp add: bind_nodes_def)
      then show ?thesis using run r(1,2,4) s1(7) True False by (simp add: keeps_slots_def)
    qed
  qed
qed

lemma get_node_ok:
  assumes ok: "sub_ok s"
  shows "\<exists>a r s'. uwsgi_get_subscribe_node c now s key = Some ((a, r), s') \<and> sub_ok s' \<and> keeps_slots s s' \<and>
    (case pool s key of None \<Rightarrow> r = 0 \<and> pool s' = pool s
     | Some ns \<Rightarrow> \<exists>ns'. pick_nodes c now [] ns = Some (r, ns') \<and> pool s' = (pool s)(key := some_nodes ns') \<and>
         (r \<noteq> 0 \<longrightarrow> keyed s a = Some key))"
proof -
  obtain a s0 where g: "uwsgi_get_subscribe_slot s key = Some (a, s0)" "sub_ok s0" "pool s0 = pool s"
    "bodies s0 = bodies s" "a = 0 \<Longrightarrow> pool s key = None"
    "a \<noteq> 0 \<Longrightarrow> \<exists>v. sb_slots s0 a = Some v \<and> sl_key v = key \<and> pool s key = Some (sl_nodes v)"
    using get_slot_ex [OF ok, of key] by blast
  have k0: "keyed s0 = keyed s" using g(4) by (simp add: keyed_def fun_eq_iff)
  show ?thesis
  proof (cases "a = 0")
    case True
    then have "uwsgi_get_subscribe_node c now s key = Some ((0, 0), if length key > 0xff then s else s0)"
      using g(1) by (simp add: uwsgi_get_subscribe_node_def)
    then show ?thesis using g(2,3,5) True ok k0 by (cases "length key > 0xff") (auto simp: keeps_slots_def)
  next
    case False
    then obtain v where v: "sb_slots s0 a = Some v" "sl_key v = key" "pool s key = Some (sl_nodes v)" using g(6) by blast
    have wf: "nodes_wf (sl_nodes v)" and len: "length key < 0xff" using sub_ok_body [OF g(2) v(1)] v(2) by (auto simp: body_wf_def)
    let ?v = "v\<lparr>sl_hits := sl_hits v + 1\<rparr>"
    obtain s1 where s1: "s1 = s0\<lparr>sb_slots := (sb_slots s0)(a \<mapsto> ?v)\<rparr>" by blast
    have b: "sub_ok s1" "pool s1 = (pool s0)(key \<mapsto> sl_nodes v)" "keyed s1 = keyed s0"
      using upd_body_ok [OF g(2) v(1), of ?v] wf v(2) unfolding s1 by simp_all
    have p1: "pool s1 = pool s" using b(2) g(3) v(3) by auto
    have "sb_slots s1 a = Some ?v" "sl_key ?v = key" "sl_nodes ?v = [] @ sl_nodes v" using v(2) by (simp_all add: s1)
    from visit_ok [OF b(1) this, of c now] obtain r ns s' where r: "pick_nodes c now [] (sl_nodes v) = Some (r, ns)"
      "visit_nodes c now a (map sn_id (sl_nodes v)) s1 = Some (r, s')" "sub_ok s'" "pool s' = (pool s1)(key := some_nodes ns)"
      "keyed s' = (if ns = [] then (keyed s1)(a := None) else keyed s1)" by blast
    have "uwsgi_get_subscribe_node c now s key = Some (if r = 0 then (0, 0) else (a, r), s')"
      using g(1) False len v(1) r(2) s1 by (simp add: uwsgi_get_subscribe_node_def upd_slot_def slot_nodes_def)
    moreover have ka: "keyed s a = Some key" using v(1,2) k0 by (metis keyed_iff)
    moreover have "keeps_slots s s'" using r(4,5) b(3) k0 ka by (auto simp: keeps_slots_def)
    ultimately show ?thesis using r(1,3,4) v(3) p1 by (cases "r = 0") auto
  qed
qed

end
