(* ===== verification/Router.thy ===== *)
theory Router
  imports Subscription
begin

text \<open>
  A router at work on the table of subscriptions: datagrams, requests and closing peers refine the
  same events on a map from keys to nodes, the counts of the nodes are the number of peers that
  hold them, the node chosen for a request, the rounds of the round robin, and the datagram an
  instance announces itself with (\<^verbatim>\<open>uwsgi_subscription_ub\<close>).
\<close>

section \<open>A router at work\<close>

text \<open>
  What happens to a router: a datagram arrives, a request asks for a node under a key (and a key
  to fall back on), the peer of a request is closed.  The state is the table and the nodes that
  the open peers hold (\<^verbatim>\<open>peer->un\<close>).
\<close>

datatype router_event =
    Datagram int nat nat bytes "int \<times> int \<times> int"
  | Pick int bytes "bytes option"
  | Close nat bool

definition drop_nth :: "nat \<Rightarrow> 'a list \<Rightarrow> 'a list" where
  "drop_nth i xs = take i xs @ drop (Suc i) xs"

fun router_step :: "sconf \<Rightarrow> router_event \<Rightarrow> subs \<times> (nat \<times> nat) list \<Rightarrow> (subs \<times> (nat \<times> nat) list) option" where
  "router_step c (Datagram now a n pkt cred) (s, peers) =
     map_option (\<lambda>s. (s, peers)) (uwsgi_corerouter_manage_subscription c now a n pkt cred s)"
| "router_step c (Pick now key fallback) (s, peers) =
     map_option (\<lambda>(un, s). (s, if snd un = 0 then peers else peers @ [un]))
       (uwsgi_cr_map_use_subscription c now fallback s key)"
| "router_step c (Close i failed) (s, peers) =
     (if i < length peers
      then map_option (\<lambda>s. (s, drop_nth i peers)) (close_peer_node s (fst (peers ! i)) (snd (peers ! i)) failed)
      else Some (s, peers))"

fun router_run :: "sconf \<Rightarrow> router_event list \<Rightarrow> subs \<times> (nat \<times> nat) list \<Rightarrow> (subs \<times> (nat \<times> nat) list) option" where
  "router_run c [] st = Some st"
| "router_run c (ev # evs) st = Option.bind (router_step c ev st) (router_run c evs)"

text \<open>The same on pools, where a peer holds a node of a key.\<close>

type_synonym pools = "bytes \<Rightarrow> snode list option"

definition pick_pool :: "sconf \<Rightarrow> int \<Rightarrow> bytes \<Rightarrow> pools \<times> (bytes \<times> nat) list \<Rightarrow> nat \<times> (pools \<times> (bytes \<times> nat) list)" where
  "pick_pool c now key st =
     (case fst st key of None \<Rightarrow> (0, st)
      | Some ns \<Rightarrow>
          (case pick_nodes c now [] ns of None \<Rightarrow> (0, st)
           | Some (r, ns) \<Rightarrow>
               (r, ((fst st)(key := some_nodes ns), if r = 0 then snd st else snd st @ [(key, r)]))))"

fun pool_step :: "sconf \<Rightarrow> router_event \<Rightarrow> pools \<times> (bytes \<times> nat) list \<Rightarrow> pools \<times> (bytes \<times> nat) list" where
  "pool_step c (Datagram now a n pkt cred) (P, L) =
     ((if pkt = [] then P
       else case packet_request pkt cred of None \<Rightarrow> P
         | Some usr \<Rightarrow>
             if pkt ! 3 = 0 then subscribe_pool c now n usr P
             else bind_nodes (us_key usr) (leave (us_address usr)) P), L)"
| "pool_step c (Pick now key fallback) st =
     (case (pick_pool c now key st, fallback) of
        ((0, st'), Some fb) \<Rightarrow> snd (pick_pool c now fb st')
      | ((_, st'), _) \<Rightarrow> st')"
| "pool_step c (Close i failed) (P, L) =
     (if i < length L
      then (bind_nodes (fst (L ! i)) (release (snd (L ! i)) failed) P, drop_nth i L) else (P, L))"

text \<open>
  What an event asks for: the packet parses, a key has less than 255 bytes, the addresses that
  \<^verbatim>\<open>uwsgi_malloc\<close> returns are not in use, the count of a node does not wrap.
\<close>

fun event_ok :: "router_event \<Rightarrow> subs \<times> (nat \<times> nat) list \<Rightarrow> bool" where
  "event_ok (Datagram now a n pkt cred) (s, peers) \<longleftrightarrow>
     (pkt \<noteq> [] \<longrightarrow> (\<exists>usr. packet_request pkt cred = Some usr \<and>
        (pkt ! 3 = 0 \<longrightarrow> length (us_key usr) < 0xff \<and> fresh s a n)))"
| "event_ok (Pick now key fallback) (s, peers) \<longleftrightarrow> length peers + 1 < 2 ^ 64"
| "event_ok (Close i failed) (s, peers) \<longleftrightarrow> True"

fun events_ok :: "sconf \<Rightarrow> router_event list \<Rightarrow> subs \<times> (nat \<times> nat) list \<Rightarrow> bool" where
  "events_ok c [] st = True"
| "events_ok c (ev # evs) st \<longleftrightarrow> event_ok ev st \<and> (case router_step c ev st of None \<Rightarrow> True | Some st' \<Rightarrow> events_ok c evs st')"

text \<open>The counts are right: a node is held as often as its count says, and what is held exists.\<close>

definition refs_ok :: "pools \<Rightarrow> (bytes \<times> nat) list \<Rightarrow> bool" where
  "refs_ok P L \<longleftrightarrow> length L < 2 ^ 64 \<and>
     (\<forall>key ns. P key = Some ns \<longrightarrow> nodes_wf ns \<and>
        (\<forall>nd\<in>set ns. sn_reference nd = word_of_nat (count_list L (key, sn_id nd)))) \<and>
     (\<forall>(key, n)\<in>set L. \<exists>ns. P key = Some ns \<and> n \<in> sn_id ` set ns)"

definition holds_nodes :: "subs \<Rightarrow> (nat \<times> nat) list \<Rightarrow> (bytes \<times> nat) list \<Rightarrow> bool" where
  "holds_nodes s = list_all2 (\<lambda>p h. keyed s (fst p) = Some (fst h) \<and> snd p = snd h)"

definition router_sim :: "subs \<times> (nat \<times> nat) list \<Rightarrow> pools \<times> (bytes \<times> nat) list \<Rightarrow> bool" where
  "router_sim st ab \<longleftrightarrow> sub_ok (fst st) \<and> pool (fst st) = fst ab \<and> holds_nodes (fst st) (snd st) (snd ab) \<and>
     refs_ok (fst ab) (snd ab)"

text \<open>A change of one pool that respects the counts.\<close>

lemma refs_change:
  assumes r: "refs_ok P L" and len: "length L' < 2 ^ 64"
    and other: "\<And>k n. k \<noteq> key \<Longrightarrow> count_list L' (k, n) = count_list L (k, n)"
    and new: "\<And>ns. p = Some ns \<Longrightarrow> nodes_wf ns \<and> (\<forall>nd\<in>set ns. sn_reference nd = word_of_nat (count_list L' (key, sn_id nd)))"
    and held: "\<And>n. (key, n) \<in> set L' \<Longrightarrow> \<exists>ns. p = Some ns \<and> n \<in> sn_id ` set ns"
  shows "refs_ok (P(key := p)) L'"
proof -
  have "\<exists>ns. (P(key := p)) k = Some ns \<and> n \<in> sn_id ` set ns" if "(k, n) \<in> set L'" for k n
  proof (cases "k = key")
    case False
    then have "(k, n) \<in> set L" using other [of k n] that count_list_0_iff [of L] count_list_0_iff [of L'] by metis
    then show ?thesis using r False unfolding refs_ok_def by fastforce
  qed (use held that in simp)
  then show ?thesis using r len other new unfolding refs_ok_def by (auto split: if_splits)
qed

lemma count_drop_nth:
  assumes "i < length L"
  shows "count_list L y = count_list (drop_nth i L) y + (if L ! i = y then 1 else 0)" "length (drop_nth i L) < length L"
    "set (drop_nth i L) \<subseteq> set L"
proof -
  have "L = take i L @ L ! i # drop (Suc i) L" using assms by (rule id_take_nth_drop)
  then have "count_list L y = count_list (take i L @ L ! i # drop (Suc i) L) y" by simp
  then show "count_list L y = count_list (drop_nth i L) y + (if L ! i = y then 1 else 0)" by (simp add: drop_nth_def)
  show "length (drop_nth i L) < length L" using assms by (simp add: drop_nth_def)
  show "set (drop_nth i L) \<subseteq> set L" by (auto simp: drop_nth_def dest: in_set_takeD in_set_dropD)
qed

lemma word_count_zero: "n < 2 ^ 64 \<Longrightarrow> (word_of_nat n :: u64) = 0 \<longleftrightarrow> n = 0"
proof -
  assume "n < 2 ^ 64"
  then have "unat (word_of_nat n :: u64) = n" by (simp add: unat_of_nat)
  then show ?thesis by (metis unat_eq_zero)
qed

lemma count_less: "length L < m \<Longrightarrow> count_list L y < m"
  using count_le_length [of L y] by simp

text \<open>Counts of references through an algorithm and through the choice.\<close>

definition counted :: "snode \<Rightarrow> nat \<times> u64" where
  "counted nd = (sn_id nd, sn_reference nd)"

definition plus_ref :: "nat \<Rightarrow> nat \<times> u64 \<Rightarrow> nat \<times> u64" where
  "plus_ref r x = (fst x, if fst x = r then snd x + 1 else snd x)"

lemma counted_simps [simp]:
  "counted (nd\<lparr>sn_wrr := w\<rparr>) = counted nd" "counted (check_alive c now nd) = counted nd"
  "fst (counted nd) = sn_id nd" "snd (counted nd) = sn_reference nd"
  by (simp_all add: counted_def)

lemma run_algo_refs:
  assumes "nodes_wf ns" "run_algo c ns n = Some (r, ns')"
  shows "map counted ns' = map (plus_ref r) (map counted ns)"
proof -
  have z: "map (plus_ref 0) (map counted ns) = map counted ns"
    using assms(1) by (auto simp: plus_ref_def counted_def nodes_wf_def)
  have u: "map counted (upd_node m f xs) = map (plus_ref m) (map counted xs)"
    if "\<And>nd. sn_id (f nd) = sn_id nd" "\<And>nd. sn_reference (f nd) = sn_reference nd + 1" for m f xs
    using that by (auto simp: upd_node_def plus_ref_def counted_def)
  have g: "map counted (map (\<lambda>nd. if sn_death_mark nd then nd else nd\<lparr>sn_wrr := w nd\<rparr>) ns) = map counted ns" for w
    by auto
  show ?thesis
  proof (cases "sc_algo c")
    case Wrr
    then show ?thesis using assms(2) z u g
      by (auto simp: run_algo_def uwsgi_subscription_algo_wrr_def Let_def simp del: map_map split: if_splits bind_splits)
  next
    case Lrc
    then show ?thesis using assms(2) z u
      by (auto simp: run_algo_def uwsgi_subscription_algo_lrc_def take_node_def Let_def simp del: map_map split: if_splits)
  next
    case Wlrc
    then show ?thesis using assms(2) z u
      by (auto simp: run_algo_def uwsgi_subscription_algo_wlrc_def take_node_def Let_def simp del: map_map split: if_splits)
  qed
qed

text \<open>The choice drops only nodes that nobody uses, and counts the node it gives.\<close>

lemma pick_nodes_refs:
  assumes "pick_nodes c now past rest = Some (r, ns)" "past @ rest = [] \<or> nodes_wf (past @ rest)"
  shows "(ns = [] \<or> nodes_wf ns) \<and> (r \<noteq> 0 \<longrightarrow> r \<in> sn_id ` set ns) \<and>
    counted ` set ns \<subseteq> plus_ref r ` counted ` set (past @ rest) \<and>
    (\<forall>nd\<in>set (past @ rest). nd \<in> set past \<or> sn_reference nd \<noteq> 0 \<longrightarrow> sn_id nd \<in> sn_id ` set ns)"
  using assms
proof (induction rest arbitrary: past)
  case Nil
  show ?case
  proof (cases "past = []")
    case True
    then show ?thesis using Nil.prems by simp
  next
    case False
    then have wf: "nodes_wf past" and run: "run_algo c past 0 = Some (r, ns)" using Nil.prems by auto
    obtain r' ns' where a: "run_algo c past 0 = Some (r', ns')" "map face ns' = map face past"
      "r' \<noteq> 0 \<longrightarrow> (\<exists>nd\<in>set past. sn_id nd = r' \<and> \<not> sn_death_mark nd)" using run_algo_ok [OF wf, of 0 c] by blast
    have e: "r' = r" "ns' = ns" using a(1) run by simp_all
    have ids: "sn_id ` set ns = sn_id ` set past" using map_faces(1) [OF a(2)] e by (metis image_set)
    have "counted ` set ns = plus_ref r ` counted ` set past"
      using run_algo_refs [OF wf run] by (metis image_set)
    then show ?thesis using map_faces(4) [OF a(2)] wf a(3) e ids by auto
  qed
next
  case (Cons nd rest)
  let ?nd = "check_alive c now nd"
  have wf: "nodes_wf (past @ nd # rest)" using Cons.prems(2) by simp
  have wf': "nodes_wf (past @ ?nd # rest)" using map_faces(4) [of "past @ ?nd # rest" "past @ nd # rest"] wf by simp
  have same: "counted ` set (past @ ?nd # rest) = counted ` set (past @ nd # rest)" by auto
  show ?case
  proof (cases "sn_death_mark ?nd \<and> sn_reference ?nd = 0")
    case True
    then have "pick_nodes c now past rest = Some (r, ns)" using Cons.prems(1) by simp
    moreover have "past @ rest = [] \<or> nodes_wf (past @ rest)" using wf by (auto simp: nodes_wf_def)
    ultimately have ih: "(ns = [] \<or> nodes_wf ns) \<and> (r \<noteq> 0 \<longrightarrow> r \<in> sn_id ` set ns) \<and>
      counted ` set ns \<subseteq> plus_ref r ` counted ` set (past @ rest) \<and>
      (\<forall>nd\<in>set (past @ rest). nd \<in> set past \<or> sn_reference nd \<noteq> 0 \<longrightarrow> sn_id nd \<in> sn_id ` set ns)"
      by (rule Cons.IH)
    moreover have "nd \<notin> set past" using wf by (auto simp: nodes_wf_def)
    ultimately show ?thesis using True by auto
  next
    case False
    obtain q xs where a: "run_algo c (past @ ?nd # rest) (sn_id nd) = Some (q, xs)"
      "map face xs = map face (past @ ?nd # rest)"
      "q \<noteq> 0 \<longrightarrow> (\<exists>x\<in>set (past @ ?nd # rest). sn_id x = q \<and> \<not> sn_death_mark x)"
      using run_algo_ok [OF wf', of "sn_id nd" c] by force
    show ?thesis
    proof (cases "q = 0")
      case True
      then have "pick_nodes c now (past @ [?nd]) rest = Some (r, ns)" using Cons.prems(1) a(1) False by (auto simp: Let_def)
      moreover have "(past @ [?nd]) @ rest = [] \<or> nodes_wf ((past @ [?nd]) @ rest)" using wf' by simp
      ultimately have ih: "(ns = [] \<or> nodes_wf ns) \<and> (r \<noteq> 0 \<longrightarrow> r \<in> sn_id ` set ns) \<and>
        counted ` set ns \<subseteq> plus_ref r ` counted ` set ((past @ [?nd]) @ rest) \<and>
        (\<forall>x\<in>set ((past @ [?nd]) @ rest). x \<in> set (past @ [?nd]) \<or> sn_reference x \<noteq> 0 \<longrightarrow> sn_id x \<in> sn_id ` set ns)"
        by (rule Cons.IH)
      have "?nd \<in> set ((past @ [?nd]) @ rest)" "?nd \<in> set (past @ [?nd])" by simp_all
      then have "sn_id ?nd \<in> sn_id ` set ns" using ih by blast
      then have "sn_id nd \<in> sn_id ` set ns" by simp
      then show ?thesis using ih same by auto
    next
      case no: False
      then have e: "q = r" "xs = ns" using Cons.prems(1) a(1) False by (auto simp: Let_def)
      have "sn_id ` set ns = sn_id ` set (past @ ?nd # rest)" using map_faces(1) [OF a(2)] e by (metis image_set)
      then have ids: "sn_id ` set ns = sn_id ` set (past @ nd # rest)" by simp
      have "counted ` set ns = plus_ref r ` counted ` set (past @ ?nd # rest)"
        using run_algo_refs [OF wf' a(1)] e by (metis image_set)
      then show ?thesis using map_faces(4) [OF a(2)] wf' a(3) e ids same by auto
    qed
  qed
qed

lemma renew_fields [simp]:
  "sn_id (renew_node now usr nd) = sn_id nd" "sn_name (renew_node now usr nd) = sn_name nd"
  "sn_reference (renew_node now usr nd) = sn_reference nd"
  by (simp_all add: renew_node_def)

lemma announce_ids: "sn_id ` set ns \<subseteq> sn_id ` set (announce now n usr (Some ns))"
proof -
  have "map sn_id (map (\<lambda>nd. if sn_name nd = m then renew_node now usr nd else nd) ns) = map sn_id ns" for m by simp
  from arg_cong [OF this, of set] show ?thesis by (auto simp: announce_def simp del: map_map)
qed

lemma nodes_wf_filter: "nodes_wf ns \<Longrightarrow> filter Q ns \<noteq> [] \<Longrightarrow> nodes_wf (filter Q ns)"
  by (simp add: nodes_wf_def distinct_map_filter)

lemma upd_node_mem: "x \<in> set ns \<Longrightarrow> (if sn_id x = n then f x else x) \<in> set (upd_node n f ns)"
  by (auto simp: upd_node_def)

lemma upd_node_from: "y \<in> set (upd_node n f ns) \<Longrightarrow> \<exists>x\<in>set ns. y = (if sn_id x = n then f x else x)"
  by (auto simp: upd_node_def)

lemma refs_subscribe:
  assumes r: "refs_ok P L" and n: "n \<noteq> 0" "\<And>ns. P (us_key usr) = Some ns \<Longrightarrow> n \<notin> sn_id ` set ns"
  shows "refs_ok (subscribe_pool c now n usr P) L"
proof (cases "admitted c usr")
  case True
  then have ad: "us_address usr \<noteq> []" "length (us_address usr) \<le> 0xff" by (auto simp: admitted_def)
  let ?p = "announce now n usr (P (us_key usr))"
  have zero: "count_list L (us_key usr, n) = 0"
  proof -
    have "(us_key usr, n) \<notin> set L" using r n(2) unfolding refs_ok_def by fastforce
    then show ?thesis by (simp add: count_list_0_iff)
  qed
  have fresh0: "sn_reference (new_node now n usr) = word_of_nat (count_list L (us_key usr, n))" "sn_id (new_node now n usr) = n"
    using zero by (simp_all add: new_node_def)
  have "refs_ok (P(us_key usr := Some ?p)) L"
  proof (rule refs_change [OF r])
    show "length L < 2 ^ 64" using r by (simp add: refs_ok_def)
    show "nodes_wf ns \<and> (\<forall>nd\<in>set ns. sn_reference nd = word_of_nat (count_list L (us_key usr, sn_id nd)))" if "Some ?p = Some ns" for ns
    proof (cases "P (us_key usr)")
      case None
      then show ?thesis using that nodes_wf_new(1) [OF ad n(1)] fresh0 by (auto simp: announce_def)
    next
      case (Some old)
      then have o: "nodes_wf old" "\<forall>nd\<in>set old. sn_reference nd = word_of_nat (count_list L (us_key usr, sn_id nd))"
        using r by (auto simp: refs_ok_def)
      show ?thesis
        using that Some o n(2) [OF Some] fresh0 nodes_wf_renew [OF o(1)] nodes_wf_new(2) [OF ad n(1) o(1)]
        by (auto simp: announce_def renew_node_def split: if_splits)
    qed
    show "\<exists>ns. Some ?p = Some ns \<and> m \<in> sn_id ` set ns" if "(us_key usr, m) \<in> set L" for m
    proof -
      obtain ns where "P (us_key usr) = Some ns" "m \<in> sn_id ` set ns" using r \<open>(us_key usr, m) \<in> set L\<close> unfolding refs_ok_def by fastforce
      then show ?thesis using announce_ids [of ns now n usr] by auto
    qed
  qed simp
  then show ?thesis using True by (simp add: subscribe_pool_def)
qed (use r in \<open>simp add: subscribe_pool_def\<close>)

lemma some_nodes_iff: "some_nodes xs = Some ns \<longleftrightarrow> xs = ns \<and> ns \<noteq> []"
  by (auto simp: some_nodes_def)

lemma refs_leave:
  assumes r: "refs_ok P L"
  shows "refs_ok (bind_nodes key (leave name) P) L"
  unfolding bind_nodes_def
proof (rule refs_change [OF r])
  show len: "length L < 2 ^ 64" using r by (simp add: refs_ok_def)
  have old: "nodes_wf ns \<and> (\<forall>nd\<in>set ns. sn_reference nd = word_of_nat (count_list L (key, sn_id nd)))" if "P key = Some ns" for ns
    using r that by (auto simp: refs_ok_def)
  have sub: "x \<in> set (leave name ns) \<Longrightarrow> \<exists>nd\<in>set ns. face x = face nd \<and> sn_reference x = sn_reference nd" for x ns
    by (auto simp: leave_def split: if_splits)
  have fm: "map face (map (\<lambda>nd. if sn_name nd = name then mark_failed nd else nd) ns) = map face ns" for ns by simp
  show "nodes_wf ns \<and> (\<forall>nd\<in>set ns. sn_reference nd = word_of_nat (count_list L (key, sn_id nd)))"
    if b: "Option.bind (P key) (\<lambda>ns. some_nodes (leave name ns)) = Some ns" for ns
  proof -
    obtain os where os: "P key = Some os" "leave name os = ns" "ns \<noteq> []"
      using b by (cases "P key") (auto simp: some_nodes_iff)
    have "nodes_wf (map (\<lambda>nd. if sn_name nd = name then mark_failed nd else nd) os)"
      using old [OF os(1)] map_faces(4) [OF fm, of os] by simp
    moreover have "leave name os \<noteq> []" using os(2,3) by simp
    ultimately have "nodes_wf ns" using os(2) nodes_wf_filter unfolding leave_def by blast
    moreover have "sn_reference x = word_of_nat (count_list L (key, sn_id x))" if xin: "x \<in> set ns" for x
    proof -
      obtain nd where "nd \<in> set os" "face x = face nd" "sn_reference x = sn_reference nd" using sub [of x os] xin os(2) by blast
      then show ?thesis using old [OF os(1)] by (simp add: face_fields)
    qed
    ultimately show ?thesis by blast
  qed
  show "\<exists>ns. Option.bind (P key) (\<lambda>ns. some_nodes (leave name ns)) = Some ns \<and> n \<in> sn_id ` set ns" if h: "(key, n) \<in> set L" for n
  proof -
    obtain os where os: "P key = Some os" "n \<in> sn_id ` set os" using r h unfolding refs_ok_def by fastforce
    then obtain nd where nd: "nd \<in> set os" "sn_id nd = n" by auto
    have "count_list L (key, n) \<noteq> 0" using h by (simp add: count_list_0_iff)
    then have "sn_reference nd \<noteq> 0" using old [OF os(1)] nd word_count_zero [OF count_less [OF len]] by auto
    then have "(if sn_name nd = name then mark_failed nd else nd) \<in> set (leave name os)"
      using nd(1) by (auto simp: leave_def)
    then have "n \<in> sn_id ` set (leave name os)" using nd(2) by (auto intro: rev_image_eqI)
    then show ?thesis using os(1) by (intro exI [of _ "leave name os"]) (auto simp: some_nodes_iff)
  qed
qed simp

lemma refs_close:
  assumes r: "refs_ok P L" and i: "i < length L"
  shows "refs_ok (bind_nodes (fst (L ! i)) (release (snd (L ! i)) failed) P) (drop_nth i L)"
  unfolding bind_nodes_def
proof (rule refs_change [OF r])
  obtain key n where kn: "L ! i = (key, n)" by (cases "L ! i")
  have kn': "fst (L ! i) = key" "snd (L ! i) = n" using kn by simp_all
  note cd = count_drop_nth [OF i]
  have len: "length L < 2 ^ 64" using r by (simp add: refs_ok_def)
  then show "length (drop_nth i L) < 2 ^ 64" using cd(2) by simp
  have old: "nodes_wf ns \<and> (\<forall>nd\<in>set ns. sn_reference nd = word_of_nat (count_list L (key, sn_id nd)))" if "P key = Some ns" for ns
    using r that by (auto simp: refs_ok_def)
  let ?f = "\<lambda>nd. nd\<lparr>sn_reference := sn_reference nd - 1\<rparr>" and ?L = "drop_nth i L"
  have cn: "count_list L (key, m) = count_list ?L (key, m) + (if n = m then 1 else 0)" for m using cd(1) [of "(key, m)"] kn by auto
  have ref: "sn_reference x = word_of_nat (count_list ?L (key, sn_id x))"
    if h: "P key = Some os" "x \<in> set (upd_node n ?f os)" for x os
  proof -
    obtain y where y: "y \<in> set os" "x = (if sn_id y = n then ?f y else y)" using upd_node_from [OF h(2)] by blast
    have "sn_reference y = word_of_nat (count_list L (key, sn_id y))" using old [OF h(1)] y(1) by blast
    then show ?thesis using y(2) cn [of "sn_id y"] by (cases "sn_id y = n") auto
  qed
  have wf: "nodes_wf (upd_node n ?f os)" if "P key = Some os" for os
    using old [OF that] map_faces(4) [OF upd_node_faces, of ?f n os] by simp
  have marked: "face (mark_failed x) = face x \<and> sn_reference (mark_failed x) = sn_reference x" for x by simp
  have wfm: "nodes_wf (upd_node n mark_failed ms)" if "nodes_wf ms" for ms
    using that map_faces(4) [OF upd_node_faces, of mark_failed n ms] by simp
  have refm: "\<exists>y\<in>set ms. sn_id x = sn_id y \<and> sn_reference x = sn_reference y" if "x \<in> set (upd_node n mark_failed ms)" for x ms
    using upd_node_from [OF that] marked by (auto split: if_splits)
  show "nodes_wf ns \<and> (\<forall>nd\<in>set ns. sn_reference nd = word_of_nat (count_list ?L (fst (L ! i), sn_id nd)))"
    if b: "Option.bind (P (fst (L ! i))) (\<lambda>ns. some_nodes (release (snd (L ! i)) failed ns)) = Some ns" for ns
  proof -
    obtain os where os: "P key = Some os" "release n failed os = ns" "ns \<noteq> []"
      using b unfolding kn' by (cases "P key") (auto simp: some_nodes_iff)
    show ?thesis
    proof (cases failed)
      case False
      then show ?thesis using os wf [OF os(1)] ref [OF os(1)] unfolding kn' by (auto simp: release_def)
    next
      case True
      then have ns: "ns = filter (\<lambda>nd. \<not> (sn_id nd = n \<and> sn_reference nd = 0)) (upd_node n mark_failed (upd_node n ?f os))"
        using os(2) by (simp add: release_def Let_def)
      then have "nodes_wf ns" using nodes_wf_filter [OF wfm [OF wf [OF os(1)]]] os(3) by blast
      moreover have "sn_reference x = word_of_nat (count_list ?L (key, sn_id x))" if xin: "x \<in> set ns" for x
      proof -
        have "x \<in> set (upd_node n mark_failed (upd_node n ?f os))" using xin ns by simp
        from refm [OF this] obtain y where "y \<in> set (upd_node n ?f os)" "sn_id x = sn_id y" "sn_reference x = sn_reference y" by blast
        then show ?thesis using ref [OF os(1)] by simp
      qed
      ultimately show ?thesis unfolding kn' by blast
    qed
  qed
  show "\<exists>ns. Option.bind (P (fst (L ! i))) (\<lambda>ns. some_nodes (release (snd (L ! i)) failed ns)) = Some ns \<and> m \<in> sn_id ` set ns"
    if h: "(fst (L ! i), m) \<in> set ?L" for m
  proof -
    have hL: "(key, m) \<in> set L" and hd: "count_list ?L (key, m) \<noteq> 0"
      using h cd(3) kn' by (auto simp: count_list_0_iff)
    obtain os where os: "P key = Some os" "m \<in> sn_id ` set os" using r hL unfolding refs_ok_def by fastforce
    then obtain nd where nd: "nd \<in> set os" "sn_id nd = m" by auto
    let ?y = "if sn_id nd = n then ?f nd else nd"
    have y: "?y \<in> set (upd_node n ?f os)" "sn_id ?y = m" using upd_node_mem [OF nd(1), of n ?f] nd(2) by auto
    have "count_list ?L (key, m) < 2 ^ 64" using cd(2) len by (intro count_less) simp
    then have nz: "sn_reference ?y \<noteq> 0" using ref [OF os(1) y(1)] y(2) hd word_count_zero by metis
    have "m \<in> sn_id ` set (release n failed os)"
    proof (cases failed)
      case False
      then show ?thesis using y by (auto simp: release_def intro: rev_image_eqI)
    next
      case True
      let ?z = "if sn_id ?y = n then mark_failed ?y else ?y"
      have "?z \<in> set (upd_node n mark_failed (upd_node n ?f os))" by (rule upd_node_mem [OF y(1)])
      moreover have "sn_id ?z = m" "sn_reference ?z \<noteq> 0" using y(2) nz by auto
      ultimately show ?thesis using True unfolding release_def Let_def by (auto intro: rev_image_eqI)
    qed
    then show ?thesis using os(1) unfolding kn' by (intro exI [of _ "release n failed os"]) (auto simp: some_nodes_iff)
  qed
  show "count_list ?L (k, m) = count_list L (k, m)" if "k \<noteq> fst (L ! i)" for k m
    using that cd(1) [of "(k, m)"] by (cases "L ! i") auto
qed

lemma refs_pick:
  assumes r: "refs_ok P L" and len: "length L + 1 < 2 ^ 64" and p: "P key = Some ns" "pick_nodes c now [] ns = Some (q, ns')"
  shows "refs_ok (P(key := some_nodes ns')) (if q = 0 then L else L @ [(key, q)])" (is "refs_ok _ ?L")
proof -
  have old: "nodes_wf ns" "\<forall>nd\<in>set ns. sn_reference nd = word_of_nat (count_list L (key, sn_id nd))"
    using r p(1) by (auto simp: refs_ok_def)
  have pk: "ns' = [] \<or> nodes_wf ns'" "q \<noteq> 0 \<longrightarrow> q \<in> sn_id ` set ns'" "counted ` set ns' \<subseteq> plus_ref q ` counted ` set ns"
    "\<forall>nd\<in>set ns. sn_reference nd \<noteq> 0 \<longrightarrow> sn_id nd \<in> sn_id ` set ns'"
    using pick_nodes_refs [OF p(2)] old(1) by auto
  show ?thesis
  proof (rule refs_change [OF r])
    show "length ?L < 2 ^ 64" using len by simp
    show "count_list ?L (k, n) = count_list L (k, n)" if "k \<noteq> key" for k n using that by simp
    show "nodes_wf xs \<and> (\<forall>nd\<in>set xs. sn_reference nd = word_of_nat (count_list ?L (key, sn_id nd)))" if x: "some_nodes ns' = Some xs" for xs
    proof -
      have xs: "xs = ns'" "nodes_wf ns'" using x pk(1) by (auto simp: some_nodes_iff)
      have "sn_reference nd = word_of_nat (count_list ?L (key, sn_id nd))" if nd: "nd \<in> set ns'" for nd
      proof -
        have "counted nd \<in> plus_ref q ` counted ` set ns" using pk(3) nd by blast
        then obtain y where y: "y \<in> set ns" "counted nd = plus_ref q (counted y)" by blast
        then have e: "sn_id nd = sn_id y" "sn_reference nd = (if sn_id y = q then sn_reference y + 1 else sn_reference y)"
          by (auto simp: counted_def plus_ref_def)
        have "sn_id y \<noteq> 0" using old(1) y(1) by (auto simp: nodes_wf_def)
        then show ?thesis using e old(2) y(1) by auto
      qed
      then show ?thesis using xs by blast
    qed
    show "\<exists>xs. some_nodes ns' = Some xs \<and> n \<in> sn_id ` set xs" if h: "(key, n) \<in> set ?L" for n
    proof -
      have "n \<in> sn_id ` set ns'"
      proof (cases "n = q \<and> q \<noteq> 0")
        case False
        then have hL: "(key, n) \<in> set L" using h by (auto split: if_splits)
        then obtain nd where nd: "nd \<in> set ns" "sn_id nd = n" using r p(1) unfolding refs_ok_def by fastforce
        have "count_list L (key, n) \<noteq> 0" using hL by (simp add: count_list_0_iff)
        moreover have "count_list L (key, n) < 2 ^ 64" using len by (intro count_less) simp
        ultimately have "sn_reference nd \<noteq> 0" using old(2) nd word_count_zero by metis
        then show ?thesis using pk(4) nd by blast
      qed (use pk(2) in simp)
      then show ?thesis by (intro exI [of _ ns']) (auto simp: some_nodes_iff)
    qed
  qed
qed

lemma holds_keeps:
  assumes "holds_nodes s peers L" "keeps_slots s s'" "\<forall>h\<in>set L. pool s' (fst h) \<noteq> None"
  shows "holds_nodes s' peers L"
  unfolding holds_nodes_def list_all2_conv_all_nth
proof (intro conjI allI impI)
  show "length peers = length L" using assms(1) by (auto simp: holds_nodes_def list_all2_lengthD)
  fix i
  assume i: "i < length peers"
  have h: "keyed s (fst (peers ! i)) = Some (fst (L ! i))" "snd (peers ! i) = snd (L ! i)"
    using assms(1) i unfolding holds_nodes_def list_all2_conv_all_nth by auto
  have "pool s' (fst (L ! i)) \<noteq> None" using assms(3) i \<open>length peers = length L\<close> by simp
  then show "keyed s' (fst (peers ! i)) = Some (fst (L ! i))" using assms(2) h(1) by (auto simp: keeps_slots_def)
  show "snd (peers ! i) = snd (L ! i)" by (rule h(2))
qed

lemma holds_drop: "holds_nodes s peers L \<Longrightarrow> holds_nodes s (drop_nth i peers) (drop_nth i L)"
  unfolding holds_nodes_def drop_nth_def by (intro list_all2_appendI list_all2_takeI list_all2_dropI)

lemma refs_live: "refs_ok P L \<Longrightarrow> \<forall>h\<in>set L. P (fst h) \<noteq> None"
  unfolding refs_ok_def by fastforce

lemma sim_change:
  assumes "sub_ok s'" "pool s' = P'" "refs_ok P' L'" "keeps_slots s s'" "holds_nodes s peers L'"
  shows "router_sim (s', peers) (P', L')"
  using assms holds_keeps [OF assms(5,4)] refs_live [OF assms(3)] by (simp add: router_sim_def)

lemma sim_pick:
  assumes "router_sim (s, peers) (P, L)" "length peers + 1 < 2 ^ 64"
  shows "\<exists>a q s'. uwsgi_get_subscribe_node c now s key = Some ((a, q), s') \<and> fst (pick_pool c now key (P, L)) = q \<and>
    router_sim (s', if q = 0 then peers else peers @ [(a, q)]) (snd (pick_pool c now key (P, L))) \<and>
    (q = 0 \<longrightarrow> snd (snd (pick_pool c now key (P, L))) = L)"
proof -
  have ok: "sub_ok s" and P: "pool s = P" and h: "holds_nodes s peers L" and r: "refs_ok P L"
    using assms(1) by (auto simp: router_sim_def)
  have len: "length L + 1 < 2 ^ 64" using h assms(2) by (simp add: holds_nodes_def list_all2_lengthD)
  obtain a q s' where g: "uwsgi_get_subscribe_node c now s key = Some ((a, q), s')" "sub_ok s'" "keeps_slots s s'"
    "case pool s key of None \<Rightarrow> q = 0 \<and> pool s' = pool s
     | Some ns \<Rightarrow> \<exists>ns'. pick_nodes c now [] ns = Some (q, ns') \<and> pool s' = (pool s)(key := some_nodes ns') \<and>
         (q \<noteq> 0 \<longrightarrow> keyed s a = Some key)"
    using get_node_ok [OF ok, of c now key] by blast
  show ?thesis
  proof (cases "P key")
    case None
    then have "q = 0" "pool s' = P" using g(4) P by simp_all
    then show ?thesis using g(1) None sim_change [OF g(2) _ r g(3) h] by (auto simp: pick_pool_def)
  next
    case (Some ns)
    then obtain ns' where p: "pick_nodes c now [] ns = Some (q, ns')" "pool s' = P(key := some_nodes ns')" "q \<noteq> 0 \<longrightarrow> keyed s a = Some key"
      using g(4) P by auto
    have "holds_nodes s (if q = 0 then peers else peers @ [(a, q)]) (if q = 0 then L else L @ [(key, q)])"
      using h p(3) by (auto simp: holds_nodes_def intro: list_all2_appendI)
    from sim_change [OF g(2) p(2) refs_pick [OF r len Some p(1)] g(3) this] show ?thesis
      using g(1) Some p(1) by (auto simp: pick_pool_def)
  qed
qed

lemma fresh_pool: "sub_ok s \<Longrightarrow> fresh s a n \<Longrightarrow> pool s key = Some ns \<Longrightarrow> n \<notin> sn_id ` set ns"
  unfolding pool_iff bodies_iff fresh_def by (metis strip_simps(4))

lemma sim_datagram:
  assumes sim: "router_sim (s, peers) (P, L)" and ok: "event_ok (Datagram now a n pkt cred) (s, peers)"
  shows "\<exists>st. router_step c (Datagram now a n pkt cred) (s, peers) = Some st \<and>
    router_sim st (pool_step c (Datagram now a n pkt cred) (P, L))"
proof (cases "pkt = []")
  case True
  then show ?thesis using sim by (simp add: uwsgi_corerouter_manage_subscription_def)
next
  case False
  have s: "sub_ok s" "pool s = P" "holds_nodes s peers L" "refs_ok P L" using sim by (auto simp: router_sim_def)
  obtain usr where u: "packet_request pkt cred = Some usr" "pkt ! 3 = 0 \<Longrightarrow> length (us_key usr) < 0xff \<and> fresh s a n"
    using ok False by auto
  show ?thesis
  proof (cases "pkt ! 3 = 0")
    case True
    then have f: "length (us_key usr) < 0xff" "fresh s a n" using u(2) by auto
    have n: "n \<noteq> 0" "P (us_key usr) = Some ns \<Longrightarrow> n \<notin> sn_id ` set ns" for ns
      using f(2) fresh_pool [OF s(1) f(2)] s(2) by (auto simp: fresh_def)
    obtain x s' where x: "uwsgi_add_subscribe_node c now a n s usr = Some (x, s')" "sub_ok s'"
      "pool s' = subscribe_pool c now n usr P" "keyed s' = keyed s \<or> keyed s a = None \<and> keyed s' = (keyed s)(a \<mapsto> us_key usr)"
      using add_node_ok [OF s(1) f(2,1), of c now] s(2) by blast
    have r: "refs_ok (subscribe_pool c now n usr P) L" by (rule refs_subscribe [OF s(4) n])
    have "holds_nodes s' peers L"
      using s(3) x(4) unfolding holds_nodes_def by (elim list_all2_mono) auto
    then have "router_sim (s', peers) (subscribe_pool c now n usr P, L)" using x(2,3) r by (simp add: router_sim_def)
    then show ?thesis using x(1) u(1) False True by (simp add: uwsgi_corerouter_manage_subscription_def)
  next
    case leaving: False
    obtain s' where x: "unsubscribe s usr = Some s'" "sub_ok s'" "pool s' = bind_nodes (us_key usr) (leave (us_address usr)) P"
      "keeps_slots s s'" using unsubscribe_ok [OF s(1), of usr] s(2) by blast
    have "router_sim (s', peers) (bind_nodes (us_key usr) (leave (us_address usr)) P, L)"
      by (rule sim_change [OF x(2,3) refs_leave [OF s(4)] x(4) s(3)])
    then show ?thesis using x(1) u(1) False leaving by (simp add: uwsgi_corerouter_manage_subscription_def)
  qed
qed

lemma sim_close:
  assumes sim: "router_sim (s, peers) (P, L)"
  shows "\<exists>st. router_step c (Close i failed) (s, peers) = Some st \<and> router_sim st (pool_step c (Close i failed) (P, L))"
proof -
  have s: "sub_ok s" "pool s = P" "holds_nodes s peers L" "refs_ok P L" using sim by (auto simp: router_sim_def)
  have len: "length peers = length L" using s(3) by (simp add: holds_nodes_def list_all2_lengthD)
  show ?thesis
  proof (cases "i < length L")
    case False
    then show ?thesis using sim len by simp
  next
    case True
    obtain a n key m where e: "peers ! i = (a, n)" "L ! i = (key, m)" by (cases "peers ! i"; cases "L ! i")
    have k: "keyed s a = Some key" "n = m" using s(3) True len e unfolding holds_nodes_def list_all2_conv_all_nth by auto
    obtain v where v: "sb_slots s a = Some v" "sl_key v = key" using k(1) by (auto simp: keyed_iff)
    have "(key, m) \<in> set L" using True e(2) nth_mem by metis
    then obtain ns where "P key = Some ns" "m \<in> sn_id ` set ns" using s(4) unfolding refs_ok_def by fastforce
    then obtain nd where nd: "nd \<in> set (sl_nodes v)" "sn_id nd = n" using pool_hit [OF s(1) v(1)] v(2) s(2) k(2) by auto
    obtain s' where x: "close_peer_node s a n failed = Some s'" "sub_ok s'" "pool s' = bind_nodes key (release n failed) P" "keeps_slots s s'"
      using close_peer_ok [OF s(1) v(1) nd, of failed] v(2) s(2) by blast
    have r: "refs_ok (bind_nodes key (release n failed) P) (drop_nth i L)" using refs_close [OF s(4) True, of failed] e(2) k(2) by simp
    have "router_sim (s', drop_nth i peers) (bind_nodes key (release n failed) P, drop_nth i L)"
      by (rule sim_change [OF x(2,3) r x(4) holds_drop [OF s(3)]])
    then show ?thesis using x(1) e k(2) True len by simp
  qed
qed

lemma sim_picks:
  assumes sim: "router_sim (s, peers) (P, L)" and len: "length peers + 1 < 2 ^ 64"
  shows "\<exists>st. router_step c (Pick now key fallback) (s, peers) = Some st \<and> router_sim st (pool_step c (Pick now key fallback) (P, L))"
proof -
  obtain a q s1 where g: "uwsgi_get_subscribe_node c now s key = Some ((a, q), s1)" "fst (pick_pool c now key (P, L)) = q"
    "router_sim (s1, if q = 0 then peers else peers @ [(a, q)]) (snd (pick_pool c now key (P, L)))"
    "q = 0 \<longrightarrow> snd (snd (pick_pool c now key (P, L))) = L"
    using sim_pick [OF sim len, of c now key] by (elim exE conjE) (rule that, assumption+)
  obtain P1 L1 where pp: "pick_pool c now key (P, L) = (q, (P1, L1))" using g(2) by (cases "pick_pool c now key (P, L)") auto
  show ?thesis
  proof (cases "q = 0 \<and> fallback \<noteq> None")
    case False
    then show ?thesis using g pp by (cases q; cases fallback) (auto simp: uwsgi_cr_map_use_subscription_def)
  next
    case True
    then obtain fb where fb: "fallback = Some fb" by blast
    have "router_sim (s1, peers) (P1, L1)" using g(3) pp True by simp
    from sim_pick [OF this len, of c now fb] obtain a2 q2 s2 where h: "uwsgi_get_subscribe_node c now s1 fb = Some ((a2, q2), s2)"
      "router_sim (s2, if q2 = 0 then peers else peers @ [(a2, q2)]) (snd (pick_pool c now fb (P1, L1)))" by blast
    then show ?thesis using g(1) pp True fb by (simp add: uwsgi_cr_map_use_subscription_def)
  qed
qed

text \<open>
  The contract between a table and its router, stated for any implementation: whatever an event
  that is allowed does, it is what the event does to pools.
\<close>

locale pool_table =
  fixes step :: "'e \<Rightarrow> 's \<Rightarrow> 's option" and spec :: "'e \<Rightarrow> 'p \<Rightarrow> 'p" and sim :: "'s \<Rightarrow> 'p \<Rightarrow> bool"
    and allowed :: "'e \<Rightarrow> 's \<Rightarrow> bool"
  assumes step_sim: "sim st ab \<Longrightarrow> allowed e st \<Longrightarrow> \<exists>st'. step e st = Some st' \<and> sim st' (spec e ab)"
begin

fun run :: "'e list \<Rightarrow> 's \<Rightarrow> 's option" where
  "run [] st = Some st"
| "run (e # es) st = Option.bind (step e st) (run es)"

fun all_allowed :: "'e list \<Rightarrow> 's \<Rightarrow> bool" where
  "all_allowed [] st = True"
| "all_allowed (e # es) st \<longleftrightarrow> allowed e st \<and> (case step e st of None \<Rightarrow> True | Some st' \<Rightarrow> all_allowed es st')"

lemma runs: "sim st ab \<Longrightarrow> all_allowed es st \<Longrightarrow> \<exists>st'. run es st = Some st' \<and> sim st' (fold spec es ab)"
proof (induction es arbitrary: st ab)
  case (Cons e es)
  then obtain st' where "step e st = Some st'" "sim st' (spec e ab)" using step_sim [of st ab e] by auto
  with Cons show ?case by simp
qed simp

end

interpretation rt: pool_table "router_step c" "pool_step c" router_sim event_ok for c
proof
  fix st ab e
  assume a: "router_sim st ab" "event_ok e st"
  obtain s peers P L where e: "st = (s, peers)" "ab = (P, L)" by (cases st; cases ab)
  show "\<exists>st'. router_step c e st = Some st' \<and> router_sim st' (pool_step c e ab)"
    using a sim_datagram [of s peers P L] sim_picks [of s peers P L] sim_close [of s peers P L c]
    unfolding e by (cases e) auto
qed

lemma rt_run: "rt.run c evs st = router_run c evs st"
proof (induction evs arbitrary: st)
  case (Cons e es)
  then show ?case by (cases "router_step c e st") simp_all
qed simp

lemma rt_allowed: "rt.all_allowed c evs st = events_ok c evs st"
  by (induction evs arbitrary: st) (auto split: option.splits)

lemma chained_init: "chained uwsgi_subscription_init_ht (\<lambda>_. [])"
  by (simp add: chained_def uwsgi_subscription_init_ht_def bodies_def)

lemma sim_init: "router_sim (uwsgi_subscription_init_ht, []) (Map.empty, [])"
proof -
  have b: "bodies uwsgi_subscription_init_ht = Map.empty" by (auto simp: uwsgi_subscription_init_ht_def bodies_def)
  then have ok: "sub_ok uwsgi_subscription_init_ht" using chained_init by (auto simp: sub_ok_def slots_wf_def)
  moreover have "pool uwsgi_subscription_init_ht = Map.empty"
    by (rule ext, rule pool_eqI [OF ok]) (simp add: b)
  ultimately show ?thesis by (simp add: router_sim_def refs_ok_def holds_nodes_def)
qed

section \<open>Which node is chosen\<close>

definition alive :: "sconf \<Rightarrow> int \<Rightarrow> snode \<Rightarrow> bool" where
  "alive c now nd \<longleftrightarrow> \<not> sn_death_mark nd \<and> now - sn_last_check nd \<le> sc_tolerance c"

lemma check_alive_mark [simp]: "sn_death_mark (check_alive c now nd) \<longleftrightarrow> \<not> alive c now nd"
  by (auto simp: check_alive_def alive_def)

text \<open>The two loops that look for a least node, as one.\<close>

fun least_loop :: "(snode \<Rightarrow> 'a :: {linorder, zero}) \<Rightarrow> snode list \<Rightarrow> 'a \<Rightarrow> nat \<Rightarrow> nat" where
  "least_loop f [] m choosen = choosen"
| "least_loop f (nd # ns) m choosen =
     (if \<not> sn_death_mark nd \<and> (m = 0 \<or> f nd < m) then
        if f nd = 0 \<and>
           \<not> (case ns of [] \<Rightarrow> False | nx # _ \<Rightarrow> f nx \<le> f nd \<and> sn_last_requests nx \<le> sn_last_requests nd)
        then sn_id nd
        else least_loop f ns (f nd) (sn_id nd)
      else least_loop f ns m choosen)"

lemma lrc_least: "lrc_loop ns m n = least_loop sn_reference ns m n"
  by (induction ns m n rule: lrc_loop.induct) (auto split: list.splits)

lemma wlrc_least: "wlrc_loop fd ns m n = least_loop (\<lambda>nd. fd (sn_reference nd) (sn_weight nd)) ns m n"
  by (induction fd ns m n rule: wlrc_loop.induct) (auto simp: Let_def split: list.splits)

definition least_of :: "(snode \<Rightarrow> 'a :: linorder) \<Rightarrow> snode list \<Rightarrow> nat \<Rightarrow> bool" where
  "least_of f ns n \<longleftrightarrow> (\<exists>nd\<in>set ns. sn_id nd = n \<and> \<not> sn_death_mark nd \<and>
     (\<forall>x\<in>set ns. \<not> sn_death_mark x \<longrightarrow> f nd \<le> f x))"

lemma least_of_head: "\<not> sn_death_mark y \<Longrightarrow> \<forall>x\<in>set ns. \<not> sn_death_mark x \<longrightarrow> f y \<le> f x \<Longrightarrow> least_of f (y # ns) (sn_id y)"
  by (auto simp: least_of_def)

lemma least_of_tail:
  assumes "least_of f ns k" "sn_death_mark y \<or> (\<exists>x\<in>set ns. \<not> sn_death_mark x \<and> f x \<le> f y)"
  shows "least_of f (y # ns) k"
proof -
  obtain nd where nd: "nd \<in> set ns" "sn_id nd = k" "\<not> sn_death_mark nd" "\<forall>x\<in>set ns. \<not> sn_death_mark x \<longrightarrow> f nd \<le> f x"
    using assms(1) unfolding least_of_def by blast
  have "sn_death_mark y \<or> f nd \<le> f y" using assms(2) nd(4) by (meson order_trans)
  then show ?thesis using nd unfolding least_of_def by (intro bexI [of _ nd]) auto
qed

text \<open>Once a node with nothing to do is in front, such a node is the result.\<close>

lemma least_loop_idle:
  assumes "\<And>x. x \<in> set ns \<Longrightarrow> 0 \<le> f x" "\<And>x. x \<in> set ns \<Longrightarrow> f x = 0 \<Longrightarrow> \<not> sn_death_mark x"
    "ns = nd # rest" "f nd = (0 :: 'a :: {linorder, zero})"
  shows "\<exists>x\<in>set ns. f x = 0 \<and> \<not> sn_death_mark x \<and> sn_id x = least_loop f ns 0 n"
  using assms
proof (induction ns arbitrary: nd rest n)
  case (Cons y ns)
  then have y: "y = nd" "ns = rest" "\<not> sn_death_mark nd" "f nd = 0" by auto
  show ?case
  proof (cases "case ns of [] \<Rightarrow> False | nx # _ \<Rightarrow> f nx \<le> f nd \<and> sn_last_requests nx \<le> sn_last_requests nd")
    case False
    then show ?thesis using y by auto
  next
    case True
    then obtain nx zs where ns: "ns = nx # zs" "f nx \<le> 0" using y(4) by (cases ns) auto
    then have "f nx = 0" using Cons.prems(1) [of nx] by auto
    then obtain x where "x \<in> set ns" "f x = 0" "\<not> sn_death_mark x" "sn_id x = least_loop f ns 0 (sn_id nd)"
      using Cons.IH [of nx zs "sn_id nd"] Cons.prems(1,2) ns(1) by auto
    then show ?thesis using y True by auto
  qed
qed simp

lemma least_loop_rest:
  assumes "\<And>x. x \<in> set ns \<Longrightarrow> (0 :: 'a :: {linorder, zero}) \<le> f x" "\<And>x. x \<in> set ns \<Longrightarrow> f x = 0 \<Longrightarrow> \<not> sn_death_mark x" "m \<noteq> 0" "0 \<le> m"
  shows "(least_loop f ns m n = n \<and> (\<forall>x\<in>set ns. \<not> sn_death_mark x \<longrightarrow> m \<le> f x)) \<or>
    (least_of f ns (least_loop f ns m n) \<and> (\<exists>x\<in>set ns. \<not> sn_death_mark x \<and> f x < m))"
  using assms
proof (induction ns arbitrary: m n)
  case (Cons y ns)
  have pos: "\<And>x. x \<in> set ns \<Longrightarrow> 0 \<le> f x" "\<And>x. x \<in> set ns \<Longrightarrow> f x = 0 \<Longrightarrow> \<not> sn_death_mark x" using Cons.prems by auto
  show ?case
  proof (cases "\<not> sn_death_mark y \<and> f y < m")
    case False
    then have "least_loop f (y # ns) m n = least_loop f ns m n" using Cons.prems(3) by auto
    moreover note Cons.IH [OF pos Cons.prems(3,4), of n]
    moreover have "least_of f (y # ns) k" if "least_of f ns k" "\<exists>x\<in>set ns. \<not> sn_death_mark x \<and> f x < m" for k
    proof (rule least_of_tail [OF that(1)])
      show "sn_death_mark y \<or> (\<exists>x\<in>set ns. \<not> sn_death_mark x \<and> f x \<le> f y)"
        using that(2) False by (meson leI less_imp_le order_trans)
    qed
    ultimately show ?thesis using False by (metis leI list.set_intros(2) set_ConsD)
  next
    case True
    show ?thesis
    proof (cases "f y = 0")
      case zero: True
      obtain x where "x \<in> set (y # ns)" "f x = 0" "\<not> sn_death_mark x" "sn_id x = least_loop f (y # ns) 0 n"
        using least_loop_idle [of "y # ns" f y ns n] Cons.prems(1,2) zero by auto
      moreover have "least_loop f (y # ns) 0 n = least_loop f (y # ns) m n" using True by simp
      ultimately have "least_of f (y # ns) (least_loop f (y # ns) m n)"
        using Cons.prems(1) unfolding least_of_def by (intro bexI [of _ x]) auto
      then show ?thesis using True by auto
    next
      case False
      then have e: "least_loop f (y # ns) m n = least_loop f ns (f y) (sn_id y)" using True by simp
      have "0 \<le> f y" using Cons.prems(1) by simp
      from Cons.IH [OF pos False this, of "sn_id y"] have "least_of f (y # ns) (least_loop f (y # ns) m n)"
        unfolding e using True least_of_head [of y ns f] least_of_tail [of f ns _ y] by (metis less_imp_le)
      then show ?thesis using True by auto
    qed
  qed
qed simp

lemma least_loop_least:
  assumes "\<And>x. x \<in> set ns \<Longrightarrow> (0 :: 'a :: {linorder, zero}) \<le> f x" "\<And>x. x \<in> set ns \<Longrightarrow> f x = 0 \<Longrightarrow> \<not> sn_death_mark x"
  shows "(least_loop f ns 0 0 = 0 \<and> (\<forall>x\<in>set ns. sn_death_mark x)) \<or> least_of f ns (least_loop f ns 0 0)"
  using assms
proof (induction ns)
  case (Cons y ns)
  show ?case
  proof (cases "sn_death_mark y")
    case True
    then show ?thesis using Cons unfolding least_of_def by auto
  next
    case alive: False
    show ?thesis
    proof (cases "f y = 0")
      case True
      then obtain x where "x \<in> set (y # ns)" "f x = 0" "\<not> sn_death_mark x" "sn_id x = least_loop f (y # ns) 0 0"
        using least_loop_idle [of "y # ns" f y ns 0] Cons.prems by auto
      then have "least_of f (y # ns) (least_loop f (y # ns) 0 0)"
        using Cons.prems(1) unfolding least_of_def by (intro bexI [of _ x]) auto
      then show ?thesis by blast
    next
      case False
      then have e: "least_loop f (y # ns) 0 0 = least_loop f ns (f y) (sn_id y)" using alive by simp
      have "least_of f (y # ns) (least_loop f (y # ns) 0 0)"
      proof -
        have "(least_loop f ns (f y) (sn_id y) = sn_id y \<and> (\<forall>x\<in>set ns. \<not> sn_death_mark x \<longrightarrow> f y \<le> f x)) \<or>
          (least_of f ns (least_loop f ns (f y) (sn_id y)) \<and> (\<exists>x\<in>set ns. \<not> sn_death_mark x \<and> f x < f y))"
          using Cons.prems False by (intro least_loop_rest) auto
        then show ?thesis unfolding e using alive least_of_head [of y ns f] least_of_tail [of f ns _ y] by (metis less_imp_le)
      qed
      then show ?thesis by blast
    qed
  qed
qed simp

definition used :: "snode \<Rightarrow> bool" where
  "used nd \<longleftrightarrow> \<not> (sn_death_mark nd \<and> sn_reference nd = 0)"

text \<open>The algorithms without a first step see all nodes that are left.\<close>

lemma pick_nodes_skip:
  assumes "sc_algo c \<noteq> Wrr" "\<forall>nd\<in>set rest. sn_id nd \<noteq> 0"
  shows "pick_nodes c now past rest =
    (let all = past @ filter used (map (check_alive c now) rest) in if all = [] then Some (0, []) else run_algo c all 0)"
  using assms(2)
proof (induction rest arbitrary: past)
  case (Cons nd rest)
  have z: "run_algo c xs (sn_id nd) = Some (0, xs)" for xs
    using assms(1) Cons.prems
    by (cases "sc_algo c") (simp_all add: run_algo_def uwsgi_subscription_algo_lrc_def uwsgi_subscription_algo_wlrc_def)
  show ?case
  proof (cases "used (check_alive c now nd)")
    case True
    then show ?thesis using Cons z by (auto simp: Let_def used_def)
  next
    case False
    then show ?thesis using Cons by (auto simp: Let_def used_def)
  qed
qed (simp add: Let_def)

definition divides_ok :: "(u64 \<Rightarrow> u64 \<Rightarrow> rat) \<Rightarrow> bool" where
  "divides_ok fd \<longleftrightarrow> (\<forall>r w. w \<noteq> 0 \<longrightarrow> 0 \<le> fd r w \<and> (fd r w = 0 \<longleftrightarrow> r = 0))"

definition best :: "sconf \<Rightarrow> snode \<Rightarrow> snode \<Rightarrow> bool" where
  "best c nd x \<longleftrightarrow> (case sc_algo c of Wrr \<Rightarrow> True | Lrc \<Rightarrow> sn_reference nd \<le> sn_reference x
     | Wlrc \<Rightarrow> sc_fdiv c (sn_reference nd) (sn_weight nd) \<le> sc_fdiv c (sn_reference x) (sn_weight x))"

lemma chosen_rr:
  assumes "sc_algo c = Wrr" "pick_nodes c now past rest = Some (r, ns')" "past @ rest = [] \<or> nodes_wf (past @ rest)"
  shows "if r = 0 then (\<forall>x\<in>set past. sn_death_mark x) \<and> (\<forall>x\<in>set rest. \<not> alive c now x)
    else (\<exists>x\<in>set past. sn_id x = r \<and> \<not> sn_death_mark x) \<or> (\<exists>x\<in>set rest. sn_id x = r \<and> alive c now x)"
  using assms(2,3)
proof (induction rest arbitrary: past)
  case Nil
  show ?case
  proof (cases "past = []")
    case True
    then show ?thesis using Nil.prems by simp
  next
    case False
    then have run: "run_algo c past 0 = Some (r, ns')" and wf: "nodes_wf past" using Nil.prems by auto
    show ?thesis using run last_alive_in [of past 0] assms(1) wf
      by (auto simp: run_algo_def uwsgi_subscription_algo_wrr_def Let_def nodes_wf_def split: if_splits)
  qed
next
  case (Cons nd rest)
  let ?nd = "check_alive c now nd"
  have wf: "nodes_wf (past @ nd # rest)" using Cons.prems(2) by simp
  have wf': "nodes_wf (past @ ?nd # rest)" using map_faces(4) [of "past @ ?nd # rest" "past @ nd # rest"] wf by simp
  show ?case
  proof (cases "sn_death_mark ?nd \<and> sn_reference ?nd = 0")
    case True
    have "past @ rest = [] \<or> nodes_wf (past @ rest)" using wf by (auto simp: nodes_wf_def)
    then show ?thesis using Cons.IH [of past] Cons.prems(1) True by (auto split: if_splits)
  next
    case False
    have d: "distinct (map sn_id (past @ ?nd # rest))" using wf' by (simp add: nodes_wf_def)
    have fn: "find_node (sn_id nd) (past @ ?nd # rest) = Some ?nd" using upd_node_at(2) [OF d] by simp
    have n0: "sn_id nd \<noteq> 0" using wf by (auto simp: nodes_wf_def)
    show ?thesis
    proof (cases "alive c now nd \<and> sn_wrr nd > 0")
      case True
      then have "r = sn_id nd" using Cons.prems(1) False fn n0 assms(1)
        by (auto simp: run_algo_def uwsgi_subscription_algo_wrr_def Let_def)
      then show ?thesis using n0 True by auto
    next
      case no: False
      then have "run_algo c (past @ ?nd # rest) (sn_id nd) = Some (0, past @ ?nd # rest)"
        using fn n0 assms(1) by (auto simp: run_algo_def uwsgi_subscription_algo_wrr_def)
      then have "pick_nodes c now (past @ [?nd]) rest = Some (r, ns')" using Cons.prems(1) False by (auto simp: Let_def)
      from Cons.IH [OF this] wf' show ?thesis by (auto split: if_splits)
    qed
  qed
qed

lemma least_choice:
  fixes f :: "snode \<Rightarrow> 'a :: {linorder, zero}"
  assumes wf: "nodes_wf ns" and all: "all = filter used (map (check_alive c now) ns)"
    and f: "\<And>nd. nd \<in> set ns \<Longrightarrow> 0 \<le> f nd" "\<And>nd. nd \<in> set ns \<Longrightarrow> f nd = 0 \<Longrightarrow> sn_reference nd = 0"
    and same: "\<And>nd. f (check_alive c now nd) = f nd" and k: "k = least_loop f all 0 0"
  shows "if k = 0 then \<forall>nd\<in>set ns. \<not> alive c now nd
    else \<exists>nd\<in>set ns. sn_id nd = k \<and> alive c now nd \<and> (\<forall>x\<in>set ns. alive c now x \<longrightarrow> f nd \<le> f x)"
proof -
  have forth: "check_alive c now nd \<in> set all" if "nd \<in> set ns" "alive c now nd" for nd using that by (auto simp: used_def all)
  have ids: "\<forall>nd\<in>set ns. sn_id nd \<noteq> 0" using wf by (simp add: nodes_wf_def)
  have "(k = 0 \<and> (\<forall>x\<in>set all. sn_death_mark x)) \<or> least_of f all k"
    unfolding k
  proof (rule least_loop_least)
    fix x assume "x \<in> set all"
    then obtain nd where nd: "nd \<in> set ns" "x = check_alive c now nd" "used x" unfolding all by auto
    show "0 \<le> f x" using f(1) [OF nd(1)] same nd(2) by simp
    show "\<not> sn_death_mark x" if "f x = 0" using f(2) [OF nd(1)] same nd that by (auto simp: used_def)
  qed
  then show ?thesis
  proof
    assume "k = 0 \<and> (\<forall>x\<in>set all. sn_death_mark x)"
    then show ?thesis using forth by (metis check_alive_mark)
  next
    assume "least_of f all k"
    then obtain y where y: "y \<in> set all" "sn_id y = k" "\<not> sn_death_mark y" "\<forall>x\<in>set all. \<not> sn_death_mark x \<longrightarrow> f y \<le> f x"
      unfolding least_of_def by blast
    then obtain nd where nd: "nd \<in> set ns" "y = check_alive c now nd" unfolding all by auto
    have "f nd \<le> f x" if "x \<in> set ns" "alive c now x" for x
      using y(4) forth [OF that] that(2) same [of x] same [of nd] nd(2) by auto
    moreover have "sn_id nd = k" "alive c now nd" "k \<noteq> 0" using y nd ids by auto
    ultimately show ?thesis using nd(1) by (simp, intro bexI [of _ nd]) auto
  qed
qed

lemma pick_chooses:
  assumes wf: "nodes_wf ns" and fd: "divides_ok (sc_fdiv c)" and p: "pick_nodes c now [] ns = Some (r, ns')"
  shows "if r = 0 then \<forall>nd\<in>set ns. \<not> alive c now nd
    else \<exists>nd\<in>set ns. sn_id nd = r \<and> alive c now nd \<and> (\<forall>x\<in>set ns. alive c now x \<longrightarrow> best c nd x)"
proof (cases "sc_algo c = Wrr")
  case True
  then show ?thesis using chosen_rr [OF True p] wf by (auto simp: best_def split: if_splits)
next
  case False
  obtain all where all: "all = filter used (map (check_alive c now) ns)" by blast
  have ids: "\<forall>nd\<in>set ns. sn_id nd \<noteq> 0" using wf by (simp add: nodes_wf_def)
  have run: "(if all = [] then Some (0, []) else run_algo c all 0) = Some (r, ns')"
    using pick_nodes_skip [OF False ids, of now "[]"] p all by (simp add: Let_def)
  show ?thesis
  proof (cases "sc_algo c")
    case Lrc
    have "r = least_loop sn_reference all 0 0"
      using run Lrc by (auto simp: run_algo_def uwsgi_subscription_algo_lrc_def take_node_def lrc_least Let_def split: if_splits)
    from least_choice [OF wf all _ _ _ this] show ?thesis using Lrc by (simp add: best_def)
  next
    case Wlrc
    let ?f = "\<lambda>nd. sc_fdiv c (sn_reference nd) (sn_weight nd)"
    have r: "r = least_loop ?f all 0 0"
      using run Wlrc by (auto simp: run_algo_def uwsgi_subscription_algo_wlrc_def take_node_def wlrc_least Let_def split: if_splits)
    have "\<forall>nd\<in>set ns. sn_weight nd \<noteq> 0" using wf by (simp add: nodes_wf_def)
    then have d: "0 \<le> ?f nd" "?f nd = 0 \<Longrightarrow> sn_reference nd = 0" if "nd \<in> set ns" for nd
      using fd that by (auto simp: divides_ok_def)
    have "if r = 0 then \<forall>nd\<in>set ns. \<not> alive c now nd
      else \<exists>nd\<in>set ns. sn_id nd = r \<and> alive c now nd \<and> (\<forall>x\<in>set ns. alive c now x \<longrightarrow> ?f nd \<le> ?f x)"
    proof (rule least_choice [OF wf all _ _ _ r])
      show "0 \<le> ?f nd" if "nd \<in> set ns" for nd by (rule d(1) [OF that])
      show "sn_reference nd = 0" if "nd \<in> set ns" "?f nd = 0" for nd by (rule d(2) [OF that])
    qed simp
    then show ?thesis unfolding best_def Wlrc subscription_algo.case .
  qed (use False in simp)
qed

section \<open>Rounds of the round robin\<close>

text \<open>What the nodes alive have left of a round: address, weight, credit.\<close>

definition tickets :: "snode list \<Rightarrow> (nat \<times> u64 \<times> u64) list" where
  "tickets ns = map (\<lambda>nd. (sn_id nd, sn_weight nd, sn_wrr nd)) (filter (\<lambda>nd. \<not> sn_death_mark nd) ns)"

definition spend :: "nat \<Rightarrow> (nat \<times> u64 \<times> u64) list \<Rightarrow> (nat \<times> u64 \<times> u64) list" where
  "spend r = map (\<lambda>(i, w, k). (i, w, if i = r then k - 1 else k))"

definition refill :: "u64 \<Rightarrow> (nat \<times> u64 \<times> u64) list \<Rightarrow> (nat \<times> u64 \<times> u64) list" where
  "refill m = map (\<lambda>(i, w, k). (i, w, w div m))"

definition announced_until :: "sconf \<Rightarrow> int \<Rightarrow> snode list \<Rightarrow> bool" where
  "announced_until c T ns \<longleftrightarrow> (\<forall>nd\<in>set ns. \<not> sn_death_mark nd \<longrightarrow> T - sn_last_check nd \<le> sc_tolerance c)"

lemma tickets_simps [simp]:
  "tickets [] = []" "tickets (xs @ ys) = tickets xs @ tickets ys"
  "tickets (nd # ns) = (if sn_death_mark nd then tickets ns else (sn_id nd, sn_weight nd, sn_wrr nd) # tickets ns)"
  by (simp_all add: tickets_def)

lemma announced_simps [simp]:
  "announced_until c T []" "announced_until c T (xs @ ys) \<longleftrightarrow> announced_until c T xs \<and> announced_until c T ys"
  "announced_until c T (nd # ns) \<longleftrightarrow> (\<not> sn_death_mark nd \<longrightarrow> T - sn_last_check nd \<le> sc_tolerance c) \<and> announced_until c T ns"
  by (auto simp: announced_until_def)

lemma spend_out: "r \<notin> fst ` set ts \<Longrightarrow> spend r ts = ts"
proof -
  assume "r \<notin> fst ` set ts"
  then have "(case t of (i, w, k) \<Rightarrow> (i, w, if i = r then k - 1 else k)) = t" if "t \<in> set ts" for t
    using that by (cases t) force
  then show ?thesis unfolding spend_def by (rule map_idI)
qed

lemma tickets_ids: "fst ` set (tickets ns) \<subseteq> sn_id ` set ns"
  by (auto simp: tickets_def)

lemma check_mark: "t \<le> T \<Longrightarrow> (\<not> sn_death_mark nd \<longrightarrow> T - sn_last_check nd \<le> sc_tolerance c) \<Longrightarrow>
    sn_death_mark (check_alive c t nd) = sn_death_mark nd \<and> (\<not> sn_death_mark nd \<longrightarrow> check_alive c t nd = nd)"
  by (auto simp: check_alive_def)

lemma nodes_wf_drop: "nodes_wf (past @ nd # rest) \<Longrightarrow> past @ rest \<noteq> [] \<Longrightarrow> nodes_wf (past @ rest)"
  by (auto simp: nodes_wf_def)

text \<open>A round that goes on: some node has credit.\<close>

lemma pick_credit:
  assumes "sc_algo c = Wrr" "t \<le> T" "nodes_wf (past @ rest)" "announced_until c T (past @ rest)"
    "(i, w, k) \<in> set (tickets rest)" "k \<noteq> 0"
  shows "\<exists>r ns. pick_nodes c t past rest = Some (r, ns) \<and> nodes_wf ns \<and> announced_until c T ns \<and>
    tickets ns = spend r (tickets (past @ rest)) \<and> (\<exists>w k. (r, w, k) \<in> set (tickets rest) \<and> k \<noteq> 0)"
  using assms(3-5)
proof (induction rest arbitrary: past)
  case (Cons nd rest)
  let ?nd = "check_alive c t nd"
  have wf: "nodes_wf (past @ nd # rest)" and an: "announced_until c T (past @ nd # rest)" using Cons.prems by auto
  have mark: "sn_death_mark ?nd = sn_death_mark nd" "\<not> sn_death_mark nd \<Longrightarrow> ?nd = nd"
    using check_mark [OF assms(2), of nd c] an by auto
  have wf': "nodes_wf (past @ ?nd # rest)" using map_faces(4) [of "past @ ?nd # rest" "past @ nd # rest"] wf by simp
  have d: "distinct (map sn_id (past @ ?nd # rest))" using wf' by (simp add: nodes_wf_def)
  have fn: "find_node (sn_id nd) (past @ ?nd # rest) = Some ?nd" using upd_node_at(2) [OF d] by simp
  have n0: "sn_id nd \<noteq> 0" using wf by (auto simp: nodes_wf_def)
  show ?case
  proof (cases "sn_death_mark nd")
    case dead: True
    then have more: "(i, w, k) \<in> set (tickets rest)" using Cons.prems(3) by simp
    show ?thesis
    proof (cases "sn_reference nd = 0")
      case True
      have "nodes_wf (past @ rest)" by (rule nodes_wf_drop [OF wf]) (use more in auto)
      with Cons.IH [OF this _ more] an dead True mark(1) show ?thesis by simp
    next
      case False
      have "run_algo c (past @ ?nd # rest) (sn_id nd) = Some (0, past @ ?nd # rest)"
        using fn n0 assms(1) dead mark(1) by (auto simp: run_algo_def uwsgi_subscription_algo_wrr_def)
      moreover have "nodes_wf ((past @ [?nd]) @ rest)" "announced_until c T ((past @ [?nd]) @ rest)" using wf' an dead mark by auto
      note Cons.IH [OF this more]
      ultimately show ?thesis using dead mark(1) False by (simp add: Let_def)
    qed
  next
    case live: False
    then have e: "?nd = nd" using mark(2) by simp
    show ?thesis
    proof (cases "sn_wrr nd = 0")
      case False
      let ?f = "\<lambda>nd. nd\<lparr>sn_wrr := sn_wrr nd - 1, sn_reference := sn_reference nd + 1\<rparr>"
      let ?ns = "past @ ?f nd # rest"
      have d': "distinct (map sn_id (past @ nd # rest))" using wf by (simp add: nodes_wf_def)
      have "run_algo c (past @ nd # rest) (sn_id nd) = Some (sn_id nd, ?ns)"
        using fn e n0 assms(1) live False upd_node_at(1) [OF d', of ?f]
        by (simp add: run_algo_def uwsgi_subscription_algo_wrr_def word_neq_0_conv)
      moreover have "nodes_wf ?ns" using map_faces(4) [of ?ns "past @ nd # rest"] wf by simp
      moreover have "announced_until c T ?ns" using an by simp
      moreover have "tickets ?ns = spend (sn_id nd) (tickets (past @ nd # rest))"
      proof -
        have "sn_id nd \<notin> fst ` set (tickets past)" "sn_id nd \<notin> fst ` set (tickets rest)"
          using d' tickets_ids [of past] tickets_ids [of rest] by auto
        then show ?thesis using live spend_out by (simp add: spend_def)
      qed
      moreover have "(sn_id nd, sn_weight nd, sn_wrr nd) \<in> set (tickets (nd # rest))" using live by simp
      ultimately show ?thesis using e live n0 False
        by (intro exI [of _ "sn_id nd"] exI [of _ ?ns]) (auto simp: Let_def)
    next
      case True
      have more: "(i, w, k) \<in> set (tickets rest)" using Cons.prems(3) live True assms(6) by auto
      have "run_algo c (past @ nd # rest) (sn_id nd) = Some (0, past @ nd # rest)"
        using fn e n0 assms(1) True by (auto simp: run_algo_def uwsgi_subscription_algo_wrr_def)
      moreover have "nodes_wf ((past @ [nd]) @ rest)" "announced_until c T ((past @ [nd]) @ rest)" using wf an by auto
      note Cons.IH [OF this more]
      ultimately show ?thesis using e live by (force simp add: Let_def)
    qed
  qed
qed simp

text \<open>A round that begins: no node has credit, all get theirs and the last one alive is taken.\<close>

lemma pick_refill:
  assumes "sc_algo c = Wrr" "t \<le> T" "nodes_wf (past @ rest)" "announced_until c T (past @ rest)"
    "\<forall>(i, w, k)\<in>set (tickets (past @ rest)). k = 0" "tickets (past @ rest) \<noteq> []"
  shows "\<exists>r ns. pick_nodes c t past rest = Some (r, ns) \<and> nodes_wf ns \<and> announced_until c T ns \<and>
    tickets ns = spend r (refill (min_weight (past @ rest) 0) (tickets (past @ rest))) \<and>
    r \<in> fst ` set (tickets (past @ rest))"
  using assms(3-6)
proof (induction rest arbitrary: past)
  case Nil
  let ?m = "min_weight past 0" and ?l = "last_alive past 0"
  let ?g = "\<lambda>nd. if sn_death_mark nd then nd else nd\<lparr>sn_wrr := sn_weight nd div ?m\<rparr>"
  let ?f = "\<lambda>nd. nd\<lparr>sn_wrr := sn_wrr nd - 1, sn_reference := sn_reference nd + 1\<rparr>"
  let ?ns = "upd_node ?l ?f (map ?g past)"
  have wf: "nodes_wf past" using Nil.prems by simp
  obtain x where x: "x \<in> set past" "\<not> sn_death_mark x" using Nil.prems(4) by (auto simp: tickets_def filter_empty_conv)
  then obtain nd where nd: "nd \<in> set past" "\<not> sn_death_mark nd" "sn_id nd = ?l" using last_alive_in [of past 0] by auto
  have l0: "?l \<noteq> 0" using nd wf by (auto simp: nodes_wf_def)
  have m0: "?m \<noteq> 0" using min_weight_zero [of past 0] wf x by (auto simp: nodes_wf_def)
  have "pick_nodes c t past [] = Some (?l, ?ns)"
    using l0 m0 nd assms(1) by (auto simp: run_algo_def uwsgi_subscription_algo_wrr_def Let_def)
  moreover have "nodes_wf ?ns"
  proof -
    have "map face ?ns = map face past" by (auto simp: upd_node_def)
    then show ?thesis using map_faces(4) [of ?ns past] wf by simp
  qed
  moreover have "announced_until c T ?ns" using Nil.prems(2) by (auto simp: announced_until_def upd_node_def split: if_splits)
  moreover have "tickets ?ns = spend ?l (refill ?m (tickets past))"
    by (auto simp: tickets_def spend_def refill_def upd_node_def filter_map comp_def intro!: arg_cong2 [of _ _ _ _ map] filter_cong)
  moreover have "?l \<in> fst ` set (tickets past)" using nd by (force simp: tickets_def)
  ultimately show ?case by (intro exI [of _ ?l] exI [of _ ?ns]) simp
next
  case (Cons nd rest)
  let ?nd = "check_alive c t nd"
  have wf: "nodes_wf (past @ nd # rest)" and an: "announced_until c T (past @ nd # rest)" using Cons.prems by auto
  have mark: "sn_death_mark ?nd = sn_death_mark nd" "\<not> sn_death_mark nd \<Longrightarrow> ?nd = nd"
    using check_mark [OF assms(2), of nd c] an by auto
  have wf': "nodes_wf (past @ ?nd # rest)" using map_faces(4) [of "past @ ?nd # rest" "past @ nd # rest"] wf by simp
  have d: "distinct (map sn_id (past @ ?nd # rest))" using wf' by (simp add: nodes_wf_def)
  have fn: "find_node (sn_id nd) (past @ ?nd # rest) = Some ?nd" using upd_node_at(2) [OF d] by simp
  have n0: "sn_id nd \<noteq> 0" using wf by (auto simp: nodes_wf_def)
  have mw: "min_weight (xs @ ys) m = min_weight ys (min_weight xs m)" for xs ys m by (induction xs arbitrary: m) auto
  show ?case
  proof (cases "sn_death_mark nd \<and> sn_reference nd = 0")
    case True
    have "nodes_wf (past @ rest)" by (rule nodes_wf_drop [OF wf]) (use Cons.prems(4) True in auto)
    moreover have "min_weight (past @ nd # rest) 0 = min_weight (past @ rest) 0" using True by (simp add: mw)
    ultimately show ?thesis using Cons.IH [of past] Cons.prems True mark(1) by simp
  next
    case False
    have "run_algo c (past @ ?nd # rest) (sn_id nd) = Some (0, past @ ?nd # rest)"
    proof -
      have "sn_death_mark nd \<or> sn_wrr nd = 0" using Cons.prems(3) by (cases "sn_death_mark nd") auto
      then show ?thesis using fn n0 assms(1) mark by (auto simp: run_algo_def uwsgi_subscription_algo_wrr_def)
    qed
    then have "pick_nodes c t past (nd # rest) = pick_nodes c t (past @ [?nd]) rest"
      using False mark by (auto simp: Let_def)
    moreover have "min_weight ((past @ [?nd]) @ rest) 0 = min_weight (past @ nd # rest) 0" using mark by (simp add: mw)
    moreover have "tickets ((past @ [?nd]) @ rest) = tickets (past @ nd # rest)" using mark by simp
    moreover have "nodes_wf ((past @ [?nd]) @ rest)" "announced_until c T ((past @ [?nd]) @ rest)" using wf' an mark by auto
    ultimately show ?thesis using Cons.IH [of "past @ [?nd]"] Cons.prems by simp
  qed
qed

text \<open>A sequence of requests for one key, at the given times.\<close>

fun pick_all :: "sconf \<Rightarrow> bytes \<Rightarrow> int list \<Rightarrow> subs \<Rightarrow> (nat list \<times> subs) option" where
  "pick_all c key [] s = Some ([], s)"
| "pick_all c key (t # ts) s = do {
     (un, s) \<leftarrow> uwsgi_get_subscribe_node c t s key;
     (rs, s) \<leftarrow> pick_all c key ts s;
     Some (snd un # rs, s) }"

definition credit :: "(nat \<times> u64 \<times> u64) list \<Rightarrow> nat" where
  "credit ts = sum_list (map (\<lambda>(i, w, k). unat k) ts)"

lemma unat_pred: "k \<noteq> 0 \<Longrightarrow> unat (k - 1 :: u64) = unat k - 1"
  by (metis unat_minus_one)

lemma unat_pos: "k \<noteq> (0 :: u64) \<Longrightarrow> unat k > 0"
  by (simp add: unat_gt_0)

lemma credit_pos: "credit ts \<noteq> 0 \<Longrightarrow> \<exists>i w k. (i, w, k) \<in> set ts \<and> k \<noteq> 0"
proof (induction ts)
  case (Cons x ts)
  obtain i w k where x: "x = (i, w, k)" by (cases x)
  then show ?case using Cons by (cases "k = 0") (auto simp: credit_def)
qed (simp add: credit_def)

lemma credit_spend:
  assumes "distinct (map fst ts)" "(r, w, k) \<in> set ts" "k \<noteq> 0"
  shows "credit ts = Suc (credit (spend r ts))"
  using assms
proof (induction ts)
  case (Cons x ts)
  obtain i v j where x: "x = (i, v, j)" by (cases x)
  show ?case
  proof (cases "i = r")
    case True
    then have "r \<notin> fst ` set ts" using Cons.prems(1) x by auto
    moreover have "j = k" using Cons.prems(2) True x \<open>r \<notin> fst ` set ts\<close> by force
    ultimately show ?thesis using x True Cons.prems(3) spend_out [of r ts] unat_pos [of k]
      by (simp add: credit_def spend_def unat_pred)
  next
    case False
    then have "credit ts = Suc (credit (spend r ts))" using Cons x by auto
    then show ?thesis using x False by (simp add: credit_def spend_def)
  qed
qed simp

lemma spend_entry:
  "(i, w, k) \<in> set ts \<Longrightarrow> (i, w, if i = r then k - 1 else k) \<in> set (spend r ts)"
  "map fst (spend r ts) = map fst ts"
  by (force simp: spend_def, auto simp: spend_def)

text \<open>As long as there is credit, every node is taken as often as it has credit.\<close>

lemma spend_all:
  assumes "sc_algo c = Wrr" "\<forall>t\<in>set ts. t \<le> T"
  shows "sub_ok s \<Longrightarrow> pool s key = Some ns \<Longrightarrow> announced_until c T ns \<Longrightarrow> length ts = credit (tickets ns) \<Longrightarrow>
    \<exists>rs s' ns'. pick_all c key ts s = Some (rs, s') \<and> sub_ok s' \<and> pool s' key = Some ns' \<and>
      (\<forall>(i, w, k)\<in>set (tickets ns). count_list rs i = unat k)"
  using assms(2)
proof (induction ts arbitrary: s ns)
  case Nil
  then have "unat k = 0" if "(i, w, k) \<in> set (tickets ns)" for i w k
    using that by (auto simp: credit_def sum_list_eq_0_iff)
  then show ?case using Nil by auto
next
  case (Cons t ts)
  have wf: "nodes_wf ns" using Cons.prems(1,2) pool_iff [OF Cons.prems(1)] by (auto simp: sub_ok_def slots_wf_def body_wf_def)
  have dist: "distinct (map fst (tickets ns))"
    using wf by (auto simp: tickets_def nodes_wf_def distinct_map_filter comp_def)
  obtain i w k where e: "(i, w, k) \<in> set (tickets ns)" "k \<noteq> 0"
    using credit_pos [of "tickets ns"] Cons.prems(4) by auto
  obtain r ns1 where p: "pick_nodes c t [] ns = Some (r, ns1)" "nodes_wf ns1" "announced_until c T ns1"
    "tickets ns1 = spend r (tickets ns)" "\<exists>w k. (r, w, k) \<in> set (tickets ns) \<and> k \<noteq> 0"
    using pick_credit [OF assms(1), of t T "[]" ns i w k] Cons.prems(3,5) wf e by auto
  obtain a s1 where g: "uwsgi_get_subscribe_node c t s key = Some ((a, r), s1)" "sub_ok s1" "pool s1 key = Some ns1"
    using get_node_ok [OF Cons.prems(1), of c t key] Cons.prems(2) p(1,2) by (auto simp: nodes_wf_def)
  obtain w' k' where r: "(r, w', k') \<in> set (tickets ns)" "k' \<noteq> 0" using p(5) by blast
  have "length ts = credit (tickets ns1)" using credit_spend [OF dist r] Cons.prems(4) p(4) by simp
  then obtain rs s' ns' where ih: "pick_all c key ts s1 = Some (rs, s')" "sub_ok s'" "pool s' key = Some ns'"
    "\<forall>(i, w, k)\<in>set (tickets ns1). count_list rs i = unat k"
    using Cons.IH [OF g(2,3) p(3)] Cons.prems(5) by auto
  have "count_list (r # rs) i = unat k" if "(i, w, k) \<in> set (tickets ns)" for i w k
  proof -
    have c: "count_list rs i = unat (if i = r then k - 1 else k)" using ih(4) spend_entry(1) [OF that, of r] p(4) by auto
    show ?thesis
    proof (cases "i = r")
      case True
      have "(w, k) = (w', k')" using True that r(1) eq_key_imp_eq_value [OF dist] by blast
      then have "k = k'" by simp
      then show ?thesis using c True r(2) unat_pos [of k] by (simp add: unat_pred)
    qed (use c in simp)
  qed
  then show ?case using g(1) ih(1-3) by auto
qed

definition weight_share :: "snode list \<Rightarrow> snode \<Rightarrow> nat" where
  "weight_share ns nd = unat (sn_weight nd) div Min (unat ` sn_weight ` {x \<in> set ns. \<not> sn_death_mark x})"

lemma min_weight_Min:
  assumes "\<forall>nd\<in>set ns. sn_weight nd \<noteq> 0" "m \<noteq> 0 \<or> \<not> (\<forall>nd\<in>set ns. sn_death_mark nd)"
  shows "unat (min_weight ns m) = Min (unat ` sn_weight ` {x \<in> set ns. \<not> sn_death_mark x} \<union> (if m = 0 then {} else {unat m}))"
  using assms
proof (induction ns arbitrary: m)
  case (Cons nd ns)
  let ?S = "unat ` sn_weight ` {x \<in> set ns. \<not> sn_death_mark x}"
  show ?case
  proof (cases "sn_death_mark nd")
    case True
    then have "{x \<in> set (nd # ns). \<not> sn_death_mark x} = {x \<in> set ns. \<not> sn_death_mark x}" by auto
    then show ?thesis using Cons True by simp
  next
    case False
    then have s: "{x \<in> set (nd # ns). \<not> sn_death_mark x} = insert nd {x \<in> set ns. \<not> sn_death_mark x}" by auto
    have w: "sn_weight nd \<noteq> 0" using Cons.prems(1) by simp
    have f: "finite ?S" by simp
    have ins: "Min (insert x (insert y A)) = Min (insert (min x y) A)" if "finite A" for x y :: nat and A
      using that by (cases "A = {}") (auto simp: min.assoc)
    show ?thesis
    proof (cases "m = 0 \<or> sn_weight nd < m")
      case True
      have "unat (min_weight (nd # ns) m) = Min (insert (unat (sn_weight nd)) ?S)"
        using Cons.IH [of "sn_weight nd"] Cons.prems(1) w False True by simp
      also have "\<dots> = Min (unat ` sn_weight ` {x \<in> set (nd # ns). \<not> sn_death_mark x} \<union> (if m = 0 then {} else {unat m}))"
        using True ins [OF f, of "unat (sn_weight nd)" "unat m"] unfolding s
        by (auto simp: word_less_nat_alt min_def insert_commute)
      finally show ?thesis .
    next
      case no: False
      then have "unat (min_weight (nd # ns) m) = Min (insert (unat m) ?S)"
        using Cons.IH [of m] Cons.prems(1) by auto
      also have "\<dots> = Min (unat ` sn_weight ` {x \<in> set (nd # ns). \<not> sn_death_mark x} \<union> (if m = 0 then {} else {unat m}))"
        using no ins [OF f, of "unat (sn_weight nd)" "unat m"] unfolding s
        by (auto simp: word_less_nat_alt min_def insert_commute)
      finally show ?thesis .
    qed
  qed
qed auto

section \<open>The announcement of an instance\<close>






























lemma str_inj: "str s = str t \<longleftrightarrow> s = t"
proof -
  have "unat (ch c) = of_char c" for c by (simp add: ch_def unat_of_nat)
  then have "inj ch" by (metis injI of_char_eq_iff)
  then show ?thesis by (simp add: str_def inj_map_eq_map)
qed

lemma hook_names: "uwsgi_strncmp (str s) (str t) \<longleftrightarrow> s = t"
  by (auto simp: uwsgi_strncmp_def str_inj)


lemma manage_text:
  "corerouter_manage_subscription (str ''key'') v usr = Some (usr\<lparr>us_key := v\<rparr>)"
  "corerouter_manage_subscription (str ''address'') v usr = Some (usr\<lparr>us_address := v\<rparr>)"
  "corerouter_manage_subscription (str ''sni_key'') v usr = Some (usr\<lparr>us_sni_key := v\<rparr>)"
  "corerouter_manage_subscription (str ''sni_crt'') v usr = Some (usr\<lparr>us_sni_crt := v\<rparr>)"
  "corerouter_manage_subscription (str ''sni_ca'') v usr = Some (usr\<lparr>us_sni_ca := v\<rparr>)"
  "corerouter_manage_subscription (str ''notify'') v usr = Some (usr\<lparr>us_notify := v\<rparr>)"
  by (simp_all add: corerouter_manage_subscription_def hook_names)



lemma packet_of_pairs:
  assumes "\<forall>kv\<in>set kvs. var_ok kv" "pkt = [a, b, d, cmd] @ enc_vars kvs"
  shows "packet_request pkt cred = manage_vars kvs (blank_sreq cred)"
proof -
  let ?m = "enc_vars kvs"
  obtain calls where c: "uwsgi_hooked_parse ?m (length ?m) = Some (0, calls)" "map (var_at ?m) calls = kvs"
    using hooked_parse_accepts [OF order_refl assms(1), of ?m] by (simp only: take_all [OF order_refl]) blast
  have "drop 4 pkt = ?m" "length pkt = 4 + length ?m" unfolding assms(2) by simp_all
  then show ?thesis using c by (simp add: packet_request_def)
qed





section \<open>Properties of a router\<close>

text \<open>Requests and closings need no more than room for the counts.\<close>

fun calm :: "router_event \<Rightarrow> bool" where
  "calm (Datagram _ _ _ _ _) = False"
| "calm (Pick _ _ _) = True"
| "calm (Close _ _) = True"

lemma calm_step: "calm ev \<Longrightarrow> router_step c ev (s, peers) = Some (s', peers') \<Longrightarrow> length peers' \<le> Suc (length peers)"
proof (cases ev)
  case (Close i failed)
  assume st: "router_step c ev (s, peers) = Some (s', peers')"
  then have "peers' = drop_nth i peers \<or> peers' = peers" unfolding Close by (auto split: if_splits)
  moreover have "length (drop_nth i peers) \<le> length peers" by (simp add: drop_nth_def)
  ultimately show ?thesis by auto
qed (auto split: if_splits)

lemma calm_events_ok: "list_all calm evs \<Longrightarrow> length peers + length evs < 2 ^ 64 \<Longrightarrow> events_ok c evs (s, peers)"
proof (induction evs arbitrary: s peers)
  case (Cons ev evs)
  have "event_ok ev (s, peers)" using Cons.prems by (cases ev) simp_all
  moreover have "events_ok c evs (s', peers')" if "router_step c ev (s, peers) = Some (s', peers')" for s' peers'
    using calm_step [OF _ that] Cons.prems by (intro Cons.IH) auto
  ultimately show ?case by (auto split: option.splits)
qed simp

lemma held_node:
  assumes "router_sim (s, peers) (P, L)" "(a, n) \<in> set peers"
  shows "\<exists>ns nd. slot_nodes s a = Some ns \<and> find_node n ns = Some nd \<and> sn_name nd \<noteq> [] \<and> n \<noteq> 0"
proof -
  have ok: "sub_ok s" and p: "pool s = P" and h: "holds_nodes s peers L" and r: "refs_ok P L"
    using assms(1) by (simp_all add: router_sim_def)
  obtain i where i: "i < length peers" "peers ! i = (a, n)" using assms(2) by (auto simp: in_set_conv_nth)
  then have L: "i < length L" "keyed s a = Some (fst (L ! i))" "n = snd (L ! i)"
    using h by (auto simp: holds_nodes_def list_all2_conv_all_nth)
  then obtain v where v: "sb_slots s a = Some v" "sl_key v = fst (L ! i)" using keyed_iff by blast
  have "L ! i \<in> set L" using L(1) by simp
  then obtain ns where ns: "P (fst (L ! i)) = Some ns" "n \<in> sn_id ` set ns"
  proof -
    have "\<forall>(key, n)\<in>set L. \<exists>ns. P key = Some ns \<and> n \<in> sn_id ` set ns" using r by (simp add: refs_ok_def)
    from bspec [OF this \<open>L ! i \<in> set L\<close>] show ?thesis using that L(3) by (cases "L ! i") auto
  qed
  have nv: "ns = sl_nodes v" using pool_hit [OF ok v(1)] v(2) p ns(1) by simp
  have wf: "nodes_wf ns" using r ns(1) by (auto simp: refs_ok_def)
  obtain nd where nd: "find_node n ns = Some nd" using find_node_some [OF ns(2)] by blast
  then have "nd \<in> set ns" "sn_id nd = n" using find_node_in by blast+
  then show ?thesis using nd wf v(1) nv by (auto simp: slot_nodes_def nodes_wf_def)
qed

text \<open>
  C6: A router that starts with an empty table, whatever datagrams, requests and closings of peers
  follow, never follows a pointer to nowhere, and its hash chains stand for the map from keys to
  nodes that the same events produce without a table: each key has its own nodes in order of
  arrival, and an announcement, a leave, a choice or a closing changes one key. The node of an
  open peer always exists, in the slot of its key, and the count of a node is the number of
  open peers that hold it. The datagrams are those with 4 bytes of header whose numbers can be
  read; announced keys have less than 255 bytes.
\<close>

theorem router_follows_pools:
  assumes "events_ok c evs (uwsgi_subscription_init_ht, [])"
  shows "\<exists>s peers L. router_run c evs (uwsgi_subscription_init_ht, []) = Some (s, peers) \<and>
     fold (pool_step c) evs (Map.empty, []) = (pool s, L) \<and>
     list_all2 (\<lambda>(a, n) (key, n'). keyed s a = Some key \<and> n = n') peers L \<and>
     (\<forall>(a, n)\<in>set peers. \<exists>ns nd. slot_nodes s a = Some ns \<and> find_node n ns = Some nd \<and> sn_name nd \<noteq> []) \<and>
     (\<forall>key ns nd. pool s key = Some ns \<and> nd \<in> set ns \<longrightarrow> unat (sn_reference nd) = count_list L (key, sn_id nd))"
proof -
  from rt.runs [OF sim_init, where c = c and es = evs, unfolded rt_allowed, OF assms] obtain st' where
    st: "rt.run c evs (uwsgi_subscription_init_ht, []) = Some st'"
      "router_sim st' (fold (pool_step c) evs (Map.empty, []))" by (elim exE conjE)
  obtain s peers where sp: "st' = (s, peers)" by (cases st')
  obtain P L where pl: "fold (pool_step c) evs (Map.empty, []) = (P, L)" by fastforce
  have sim: "router_sim (s, peers) (P, L)" using st(2) sp pl by simp
  then have P: "P = pool s" and h: "holds_nodes s peers L" and r: "refs_ok P L" by (simp_all add: router_sim_def)
  have "list_all2 (\<lambda>(a, n) (key, n'). keyed s a = Some key \<and> n = n') peers L"
    using h unfolding holds_nodes_def by (rule list_all2_mono) auto
  moreover have "unat (sn_reference nd) = count_list L (key, sn_id nd)" if "pool s key = Some ns" "nd \<in> set ns" for key ns nd
  proof -
    have "sn_reference nd = word_of_nat (count_list L (key, sn_id nd))" "length L < 2 ^ 64"
      using r that P by (auto simp: refs_ok_def)
    then show ?thesis using count_less [of L "2 ^ 64" "(key, sn_id nd)"] by (simp add: unat_of_nat)
  qed
  moreover have "\<exists>ns nd. slot_nodes s a = Some ns \<and> find_node n ns = Some nd \<and> sn_name nd \<noteq> []" if "(a, n) \<in> set peers" for a n
    using held_node [OF sim that] by blast
  ultimately show ?thesis using st(1) sp pl P by (simp add: rt_run) blast
qed

definition sconf_small :: sconf where
  "sconf_small = \<lparr>sc_tolerance = 10, sc_dirs = [], sc_stat = (\<lambda>_. None), sc_algo = Wrr, sc_fdiv = (\<lambda>r w. of_nat (unat r) / of_nat (unat w))\<rparr>"

definition pairs_small :: "(bytes \<times> bytes) list" where
  "pairs_small = [(str ''key'', str ''a.org''), (str ''address'', str ''b'')]"

definition usr_small :: sreq where
  "usr_small = blank_sreq (0, 0, 0)\<lparr>us_key := str ''a.org'', us_address := str ''b''\<rparr>"

lemma packet_small: "packet_request ([224, 0, 0, 0] @ enc_vars pairs_small) (0, 0, 0) = Some usr_small"
proof -
  have "\<forall>kv\<in>set pairs_small. var_ok kv" by (simp add: pairs_small_def var_ok_def)
  from packet_of_pairs [OF this refl, of _ _ _ _ "(0, 0, 0)"] show ?thesis
    by (simp add: pairs_small_def manage_text usr_small_def)
qed

lemma usr_small_simps [simp]: "us_key usr_small = str ''a.org''" "us_address usr_small = str ''b''" "us_weight usr_small = 0"
  by (simp_all add: usr_small_def blank_sreq_def)

lemma node_small [simp]:
  "sn_id (new_node t n usr) = n" "sn_name (new_node t n usr) = us_address usr" "sn_death_mark (new_node t n usr) = False"
  "sn_reference (new_node t n usr) = 0" "sn_last_check (new_node t n usr) = t" "sn_wrr (new_node t n usr) = 0"
  "sn_weight (new_node t n usr) = (if us_weight usr = 0 then 1 else us_weight usr)"
  by (simp_all add: new_node_def)

lemma pool_small: "subscribe_pool sconf_small 0 2 usr_small Map.empty = [str ''a.org'' \<mapsto> [new_node 0 2 usr_small]]"
  by (simp add: subscribe_pool_def admitted_def sconf_small_def announce_def)

lemma fresh_init: "a \<noteq> 0 \<Longrightarrow> n \<noteq> 0 \<Longrightarrow> fresh uwsgi_subscription_init_ht a n"
  by (simp add: fresh_def uwsgi_subscription_init_ht_def)

theorem router_follows_pools_witness:
  "\<exists>s a. router_run sconf_small [Datagram 0 1 2 ([224, 0, 0, 0] @ enc_vars pairs_small) (0, 0, 0), Pick 1 (str ''a.org'') None]
       (uwsgi_subscription_init_ht, []) = Some (s, [(a, 2)]) \<and> keyed s a = Some (str ''a.org'')"
proof -
  let ?p = "[224, 0, 0, 0] @ enc_vars pairs_small" and ?i = uwsgi_subscription_init_ht
  let ?evs = "[Datagram 0 1 2 ?p (0, 0, 0), Pick 1 (str ''a.org'') None]"
  have "event_ok (Datagram 0 1 2 ?p (0, 0, 0)) (?i, [])"
    using packet_small fresh_init [of 1 2] by simp
  moreover have "events_ok sconf_small [Pick 1 (str ''a.org'') None] (s, [])" for s
    by (rule calm_events_ok) simp_all
  ultimately have ok: "events_ok sconf_small ?evs (?i, [])" by (auto split: option.splits)
  have "pick_nodes sconf_small 1 [] [new_node 0 2 usr_small] \<noteq> None \<and>
      fst (the (pick_nodes sconf_small 1 [] [new_node 0 2 usr_small])) = 2"
    by (simp add: Let_def check_alive_def sconf_small_def run_algo_def uwsgi_subscription_algo_wrr_def)
  then obtain ns where pk: "pick_nodes sconf_small 1 [] [new_node 0 2 usr_small] = Some (2, ns)" by auto
  have "pool_step sconf_small (Datagram 0 1 2 ?p (0, 0, 0)) (Map.empty, []) = ([str ''a.org'' \<mapsto> [new_node 0 2 usr_small]], [])"
    using packet_small pool_small by simp
  then have L: "snd (fold (pool_step sconf_small) ?evs (Map.empty, [])) = [(str ''a.org'', 2)]"
    using pk by (simp add: pick_pool_def)
  from router_follows_pools [OF ok] obtain s peers L where r: "router_run sconf_small ?evs (?i, []) = Some (s, peers)"
    "fold (pool_step sconf_small) ?evs (Map.empty, []) = (pool s, L)"
    "list_all2 (\<lambda>(a, n) (key, n'). keyed s a = Some key \<and> n = n') peers L" by (elim exE conjE)
  then have "L = [(str ''a.org'', 2)]" using L by simp
  then show ?thesis using r(1,3) by (auto simp: list_all2_Cons2)
qed

text \<open>
  C15: The node chosen for a key is alive, that is not marked and announced within the tolerance; the
  least-count algorithms take one with the fewest open peers, weighted or not, among the alive.
  Without a result there was none alive. The count of the node goes up by one, and no other key is
  touched. Nothing is asked of the table but its shape; the quotients the weighted algorithm
  computes with are positive for positive counts.
\<close>

theorem uwsgi_get_subscribe_node_chooses:
  assumes "sub_ok s" "pool s key = Some ns" "divides_ok (sc_fdiv c)"
  shows "\<exists>a r s'. uwsgi_get_subscribe_node c now s key = Some ((a, r), s') \<and> sub_ok s' \<and>
     (\<forall>k. k \<noteq> key \<longrightarrow> pool s' k = pool s k) \<and>
     (if r = 0 then \<forall>nd\<in>set ns. \<not> alive c now nd
      else \<exists>nd\<in>set ns. sn_id nd = r \<and> alive c now nd \<and> (\<forall>x\<in>set ns. alive c now x \<longrightarrow> best c nd x) \<and>
        (\<exists>ns' nd'. pool s' key = Some ns' \<and> nd' \<in> set ns' \<and> sn_id nd' = r \<and> sn_reference nd' = sn_reference nd + 1))"
proof -
  have wf: "nodes_wf ns" using assms(1,2) pool_iff [OF assms(1)] by (auto simp: sub_ok_def slots_wf_def body_wf_def)
  obtain a r s' ns' where g: "uwsgi_get_subscribe_node c now s key = Some ((a, r), s')" "sub_ok s'"
    "pick_nodes c now [] ns = Some (r, ns')" "pool s' = (pool s)(key := some_nodes ns')"
    using get_node_ok [OF assms(1), of c now key] assms(2) by auto
  note ch = pick_chooses [OF wf assms(3) g(3)] and rf = pick_nodes_refs [OF g(3)]
  have "\<exists>nd\<in>set ns. sn_id nd = r \<and> alive c now nd \<and> (\<forall>x\<in>set ns. alive c now x \<longrightarrow> best c nd x) \<and>
        (\<exists>ns' nd'. pool s' key = Some ns' \<and> nd' \<in> set ns' \<and> sn_id nd' = r \<and> sn_reference nd' = sn_reference nd + 1)" if nz: "r \<noteq> 0"
  proof -
    obtain nd where nd: "nd \<in> set ns" "sn_id nd = r" "alive c now nd" "\<forall>x\<in>set ns. alive c now x \<longrightarrow> best c nd x"
      using ch nz by auto
    obtain nd' where n': "nd' \<in> set ns'" "sn_id nd' = r" using rf wf nz by auto
    then obtain x where x: "x \<in> set ns" "counted nd' = plus_ref r (counted x)" using rf wf by fastforce
    then have "sn_id x = r" "sn_reference nd' = sn_reference x + 1" using n'(2) by (auto simp: counted_def plus_ref_def split: if_splits)
    moreover from this have "x = nd" using nd(1,2) x(1) wf by (auto simp: nodes_wf_def distinct_map inj_on_def)
    ultimately show ?thesis using nd n' g(4) by (intro bexI [of _ nd]) (auto simp: some_nodes_def)
  qed
  then show ?thesis using g ch by (intro exI [of _ a] exI [of _ r] exI [of _ s']) auto
qed

lemma table_small:
  "\<exists>r s. uwsgi_add_subscribe_node sconf_small 0 1 2 uwsgi_subscription_init_ht usr_small = Some (r, s) \<and> sub_ok s \<and>
     pool s = [str ''a.org'' \<mapsto> [new_node 0 2 usr_small]] \<and> (\<forall>a. a \<noteq> 1 \<longrightarrow> sb_slots s a = None)"
proof -
  let ?i = uwsgi_subscription_init_ht
  have ok: "sub_ok ?i" and p: "pool ?i = Map.empty" using sim_init by (simp_all add: router_sim_def)
  have k: "keyed ?i a = None" for a by (simp add: keyed_None uwsgi_subscription_init_ht_def)
  have "length (us_key usr_small) < 0xff" by simp
  from add_node_ok [OF ok fresh_init this, of 1 2 sconf_small 0] obtain r s where
    s: "uwsgi_add_subscribe_node sconf_small 0 1 2 ?i usr_small = Some (r, s)" "sub_ok s"
      "pool s = subscribe_pool sconf_small 0 2 usr_small (pool ?i)"
      "keyed s = keyed ?i \<or> keyed s = (keyed ?i)(1 \<mapsto> us_key usr_small)" by auto
  have "sb_slots s a = None" if "a \<noteq> 1" for a using s(4) k that keyed_None [of s a] by auto
  with s show ?thesis unfolding p pool_small by blast
qed

lemma divides_small: "divides_ok (sc_fdiv sconf_small)"
  by (auto simp: divides_ok_def sconf_small_def unat_eq_zero simp del: of_nat_unat)

theorem uwsgi_get_subscribe_node_chooses_witness:
  "\<exists>r s a s'. uwsgi_add_subscribe_node sconf_small 0 1 2 uwsgi_subscription_init_ht usr_small = Some (r, s) \<and>
     uwsgi_get_subscribe_node sconf_small 5 s (str ''a.org'') = Some ((a, 2), s')"
proof -
  obtain r s where s: "uwsgi_add_subscribe_node sconf_small 0 1 2 uwsgi_subscription_init_ht usr_small = Some (r, s)"
    "sub_ok s" "pool s (str ''a.org'') = Some [new_node 0 2 usr_small]" using table_small by auto
  have "alive sconf_small 5 (new_node 0 2 usr_small)" by (simp add: alive_def sconf_small_def)
  with uwsgi_get_subscribe_node_chooses [OF s(2,3) divides_small, of 5] s(1) show ?thesis
    by (auto split: if_splits)
qed

text \<open>
  C16: The weighted round robin gives each node its share: as many requests in a row as a round
  has, starting with no credit left, go to each node alive exactly as often as the integer quotient
  of its weight by the least weight says, when all of them are announced within the tolerance
  meanwhile.
\<close>

theorem wrr_shares_a_round:
  assumes ok: "sub_ok s" and p: "pool s key = Some ns" and c: "sc_algo c = Wrr"
    and live: "\<forall>nd\<in>set ns. \<not> sn_death_mark nd \<longrightarrow> sn_wrr nd = 0 \<and> (\<forall>t\<in>set ts. t - sn_last_check nd \<le> sc_tolerance c)"
    and len: "length ts = sum_list (map (weight_share ns) (filter (\<lambda>nd. \<not> sn_death_mark nd) ns))" and ne: "ts \<noteq> []"
  shows "\<exists>rs s'. pick_all c key ts s = Some (rs, s') \<and>
    (\<forall>nd\<in>set ns. \<not> sn_death_mark nd \<longrightarrow> count_list rs (sn_id nd) = weight_share ns nd)"
proof -
  obtain t us where ts: "ts = t # us" using ne by (cases ts) auto
  obtain T where T: "T \<in> set ts" "\<forall>t\<in>set ts. t \<le> T" using ne by (metis List.finite_set Max_ge Max_in set_empty)
  have wf: "nodes_wf ns" using p pool_iff [OF ok] ok by (auto simp: sub_ok_def slots_wf_def body_wf_def)
  have an: "announced_until c T ns" using live T(1) by (auto simp: announced_until_def)
  let ?tk = "tickets ns" and ?m = "min_weight ns 0"
  have zero: "\<forall>(i, w, k)\<in>set ?tk. k = 0" using live by (auto simp: tickets_def)
  have some: "filter (\<lambda>nd. \<not> sn_death_mark nd) ns \<noteq> []" using len ts by (metis length_0_conv list.simps(8) sum_list.Nil ne)
  then have tk: "?tk \<noteq> []" by (simp add: tickets_def)
  have w0: "\<forall>nd\<in>set ns. sn_weight nd \<noteq> 0" using wf by (simp add: nodes_wf_def)
  have ex: "\<not> (\<forall>nd\<in>set ns. sn_death_mark nd)" using some by (auto simp: filter_empty_conv)
  have m: "unat ?m = Min (unat ` sn_weight ` {x \<in> set ns. \<not> sn_death_mark x})" using min_weight_Min [OF w0, of 0] ex by simp
  have share: "unat (sn_weight nd div ?m) = weight_share ns nd" for nd by (simp add: weight_share_def m unat_div)
  have m0: "?m \<noteq> 0" using min_weight_zero [OF w0, of 0] ex by simp
  obtain r ns1 where pk: "pick_nodes c t [] ns = Some (r, ns1)" "nodes_wf ns1" "announced_until c T ns1"
    "tickets ns1 = spend r (refill ?m ?tk)" "r \<in> fst ` set ?tk"
    using pick_refill [OF c, of t T "[]" ns] T(2) ts wf an zero tk by auto
  obtain a s1 where g: "uwsgi_get_subscribe_node c t s key = Some ((a, r), s1)" "sub_ok s1" "pool s1 key = Some ns1"
    using get_node_ok [OF ok, of c t key] p pk(1,2) by (auto simp: nodes_wf_def)
  have rf: "refill ?m ?tk = map (\<lambda>nd. (sn_id nd, sn_weight nd, sn_weight nd div ?m)) (filter (\<lambda>nd. \<not> sn_death_mark nd) ns)"
    by (simp add: refill_def tickets_def)
  have dist: "distinct (map fst (refill ?m ?tk))" using wf unfolding rf by (simp add: nodes_wf_def distinct_map_filter comp_def)
  have cr: "credit (refill ?m ?tk) = length ts" unfolding rf credit_def len by (simp add: comp_def share)
  obtain x where x: "x \<in> set ns" "\<not> sn_death_mark x" "sn_id x = r" using pk(5) by (auto simp: tickets_def)
  have "Min (unat ` sn_weight ` {x \<in> set ns. \<not> sn_death_mark x}) \<le> unat (sn_weight x)" using x by (intro Min_le) auto
  moreover have "unat ?m > 0" using m0 unat_pos by blast
  ultimately have "weight_share ns x > 0" using m by (simp add: weight_share_def div_greater_zero_iff)
  then have "sn_weight x div ?m \<noteq> 0" using share [of x] by (metis less_irrefl unat_0)
  moreover have "(r, sn_weight x, sn_weight x div ?m) \<in> set (refill ?m ?tk)" using x by (auto simp: rf)
  ultimately have "credit (refill ?m ?tk) = Suc (credit (tickets ns1))" using credit_spend [OF dist] pk(4) by metis
  then have "length us = credit (tickets ns1)" using cr ts by simp
  moreover have "\<forall>t\<in>set us. t \<le> T" using T(2) ts by simp
  ultimately obtain rs s' where q: "pick_all c key us s1 = Some (rs, s')" "\<forall>(i, w, k)\<in>set (tickets ns1). count_list rs i = unat k"
    using spend_all [OF c, of us T s1 key ns1] g(2,3) pk(3) by blast
  have "count_list (r # rs) (sn_id nd) = weight_share ns nd" if "nd \<in> set ns" "\<not> sn_death_mark nd" for nd
  proof -
    have "(sn_id nd, sn_weight nd, sn_weight nd div ?m) \<in> set (refill ?m ?tk)" using that by (auto simp: rf)
    from spend_entry(1) [OF this, of r] have e: "count_list rs (sn_id nd) =
        unat (if sn_id nd = r then sn_weight nd div ?m - 1 else sn_weight nd div ?m)" using q(2) pk(4) by auto
    show ?thesis
    proof (cases "sn_id nd = r")
      case True
      then have "nd = x" using that x wf by (auto simp: nodes_wf_def distinct_map inj_on_def)
      then show ?thesis using e True \<open>sn_weight x div ?m \<noteq> 0\<close> share [of x] \<open>weight_share ns x > 0\<close> by (simp add: unat_pred)
    next
      case False
      then show ?thesis using e share [of nd] by simp
    qed
  qed
  then show ?thesis using g(1) q(1) ts by auto
qed

lemma two_nodes_small:
  "\<exists>s. sub_ok s \<and> pool s (str ''a.org'') =
     Some [new_node 0 2 usr_small, new_node 0 4 (usr_small\<lparr>us_address := str ''c'', us_weight := 2\<rparr>)]"
proof -
  obtain s where s: "sub_ok s" "pool s = [str ''a.org'' \<mapsto> [new_node 0 2 usr_small]]" "\<forall>a. a \<noteq> 1 \<longrightarrow> sb_slots s a = None"
    using table_small by blast
  let ?u = "usr_small\<lparr>us_address := str ''c'', us_weight := 2\<rparr>"
  have "4 \<notin> sn_id ` set (sl_nodes v)" if "sb_slots s b = Some v" for b v
  proof -
    have "sl_nodes v = [new_node 0 2 usr_small]"
      using pool_hit [OF s(1) that] s(2) by (cases "sl_key v = str ''a.org''") simp_all
    then show ?thesis by simp
  qed
  then have f: "fresh s 3 4" using s(3) by (simp add: fresh_def)
  have "length (us_key ?u) < 0xff" by simp
  from add_node_ok [OF s(1) f this, of sconf_small 0] show ?thesis
    using s(2) by (auto simp: subscribe_pool_def admitted_def sconf_small_def announce_def str_inj)
qed

theorem wrr_shares_a_round_witness:
  "\<exists>s ns rs s'. pool s (str ''a.org'') = Some ns \<and> map (\<lambda>nd. (sn_id nd, sn_weight nd)) ns = [(2, 1), (4, 2)] \<and>
     pick_all sconf_small (str ''a.org'') [1, 1, 1] s = Some (rs, s') \<and> count_list rs 2 = 1 \<and> count_list rs 4 = 2"
proof -
  let ?a = "new_node 0 2 usr_small" and ?b = "new_node 0 4 (usr_small\<lparr>us_address := str ''c'', us_weight := 2\<rparr>)"
  obtain s where s: "sub_ok s" "pool s (str ''a.org'') = Some [?a, ?b]" using two_nodes_small by blast
  have w: "sn_weight ?a = 1" "sn_weight ?b = 2" by simp_all
  have "{x \<in> set [?a, ?b]. \<not> sn_death_mark x} = {?a, ?b}" by auto
  then have share: "weight_share [?a, ?b] ?a = 1" "weight_share [?a, ?b] ?b = 2" by (simp_all add: weight_share_def w)
  have algo: "sc_algo sconf_small = Wrr" by (simp add: sconf_small_def)
  have live: "\<forall>nd\<in>set [?a, ?b]. \<not> sn_death_mark nd \<longrightarrow>
      sn_wrr nd = 0 \<and> (\<forall>t\<in>set [1, 1, 1]. t - sn_last_check nd \<le> sc_tolerance sconf_small)" by (simp add: sconf_small_def)
  have len: "length [1 :: int, 1, 1] = sum_list (map (weight_share [?a, ?b]) (filter (\<lambda>nd. \<not> sn_death_mark nd) [?a, ?b]))"
    using share by simp
  obtain rs s' where r: "pick_all sconf_small (str ''a.org'') [1, 1, 1] s = Some (rs, s')"
    "\<forall>nd\<in>set [?a, ?b]. \<not> sn_death_mark nd \<longrightarrow> count_list rs (sn_id nd) = weight_share [?a, ?b] nd"
    using wrr_shares_a_round [OF s algo live len] by auto
  then have "count_list rs 2 = 1" "count_list rs 4 = 2" using share by simp_all
  with s(2) r(1) w show ?thesis by (intro exI [of _ s] exI [of _ "[?a, ?b]"] exI [of _ rs] exI [of _ s']) simp
qed

end
