(* ===== verification/Reader.thy ===== *)
theory Reader
  imports Chunked
begin

text \<open>
  The request body, \<^verbatim>\<open>core/reader.c\<close>: reading by size, reading by line, seeking, and the post
  buffering in memory or in a file.

  The body comes from the parser of the protocol, which may hold its first bytes, and then from
  the connection; or from the file or the area it has been buffered in.  The results of
  \<^verbatim>\<open>uwsgi_wait_read_req\<close> are those of the channel.
\<close>

section \<open>The state\<close>

record source =
  so_req :: preq
  so_chan :: chan

text \<open>\<^verbatim>\<open>post_file\<close> is the contents of the file and its position.\<close>

record body =
  post_cl :: nat
  post_pos :: nat
  post_file :: "(bytes \<times> nat) option"
  post_buffering_buf :: bytes
  post_readline_buf :: "bytes option"
  post_readline_size :: nat
  post_readline_watermark :: nat
  post_readline_pos :: nat
  post_read_buf :: "bytes option"
  post_read_buf_size :: nat
  read_errors :: nat

record bconf =
  bc_env :: cenv
  bc_buffer_size :: nat
  bc_post_buffering :: nat
  bc_tmpfile_ok :: bool
  bc_fwrite_ok :: "nat \<Rightarrow> bool"    \<comment> \<open>whether a write at this position of the file succeeds\<close>

definition read_failed :: "body \<Rightarrow> body" where
  "read_failed b = b\<lparr>read_errors := read_errors b + 1\<rparr>"

definition re_alloc :: "bconf \<Rightarrow> bytes \<Rightarrow> nat \<Rightarrow> bytes option" where
  "re_alloc c m n =
     (if alloc_ok (bc_env c) n then Some (take n m @ replicate (n - length m) (junk (bc_env c))) else None)"

section \<open>Reading from the protocol\<close>

text \<open>\<^verbatim>\<open>wsgi_req->socket->proto_read_body\<close> of the protocols that use the plain one.\<close>

definition proto_read_body :: "nat \<Rightarrow> source \<Rightarrow> (io \<times> source) option" where
  "proto_read_body len s =
     (if pq_remains (so_req s) > 0 then do {
        (ev, q) \<leftarrow> uwsgi_proto_base_read_body (so_req s) len Again;
        Some (ev, s\<lparr>so_req := q\<rparr>) }
      else (case net_read len (ch_evs (so_chan s)) of (ev, evs) \<Rightarrow> do {
        (ev, q) \<leftarrow> uwsgi_proto_base_read_body (so_req s) len ev;
        Some (ev, s\<lparr>so_req := q, so_chan := (so_chan s)\<lparr>ch_evs := evs\<rparr>\<rparr>) }))"

text \<open>
  A read, and the read after \<^verbatim>\<open>uwsgi_wait_read_req\<close>: all readers do the same calls and differ in
  what they make of the outcome.
\<close>

datatype outcome = Data bytes | Closed | Failed | Retry | Timed_out | Wait_failed

definition outcome_of :: "io \<Rightarrow> outcome" where
  "outcome_of ev = (case ev of Bytes bs \<Rightarrow> if bs = [] then Closed else Data bs | Again \<Rightarrow> Retry | Broken \<Rightarrow> Failed)"

definition try_read :: "nat \<Rightarrow> source \<Rightarrow> (outcome \<times> source) option" where
  "try_read len s = map_option (\<lambda>(ev, s). (outcome_of ev, s)) (proto_read_body len s)"

definition wait_read :: "nat \<Rightarrow> source \<Rightarrow> (outcome \<times> source) option" where
  "wait_read len s =
     (case ch_waits (so_chan s) of
        [] \<Rightarrow> Some (Wait_failed, s)
      | w # ws \<Rightarrow>
          let s = s\<lparr>so_chan := (so_chan s)\<lparr>ch_waits := ws\<rparr>\<rparr> in
          if w > 0 then try_read len s else Some (if w = 0 then Timed_out else Wait_failed, s))"

text \<open>One read, with one wait when there is nothing yet.\<close>

definition read_or_wait :: "nat \<Rightarrow> source \<Rightarrow> (outcome \<times> source) option" where
  "read_or_wait len s = do {
     (out, s') \<leftarrow> try_read len s;
     (if out = Retry then wait_read len s' else Some (out, s')) }"

text \<open>\<^verbatim>\<open>fread(m + p, n, 1, file)\<close>: all of the bytes or an error; those that are there are read anyway.\<close>

definition fread :: "bytes \<Rightarrow> nat \<Rightarrow> nat \<Rightarrow> bytes \<times> nat \<Rightarrow> (bool \<times> bytes \<times> bytes \<times> nat) option" where
  "fread m p n f =
     (let bs = take n (drop (snd f) (fst f)) in do {
        m \<leftarrow> mem_write m p bs;
        Some (n > 0 \<and> length bs = n, m, fst f, snd f + length bs) })"

section \<open>Seeking\<close>

definition uwsgi_request_body_seek :: "bconf \<Rightarrow> body \<Rightarrow> int \<Rightarrow> body" where
  "uwsgi_request_body_seek c b pos =
     (case post_file b of
        Some (f, q) \<Rightarrow>
          if pos < 0 then
            (if int q + pos < 0 then (read_failed b)\<lparr>post_pos := q\<rparr>
             else b\<lparr>post_file := Some (f, nat (int q + pos)), post_pos := nat (int q + pos)\<rparr>)
          else b\<lparr>post_file := Some (f, nat pos), post_pos := nat pos\<rparr>
      | None \<Rightarrow>
          if bc_post_buffering c > 0 then
            if pos < 0 then
              (if int (post_pos b) - pos < 0 then b\<lparr>post_pos := 0\<rparr>
               else b\<lparr>post_pos := nat (int (post_pos b) - pos)\<rparr>)
            else b\<lparr>post_pos := if pos \<ge> int (bc_post_buffering c) then bc_post_buffering c - 1 else nat pos\<rparr>
          else b)"

section \<open>Reading by line\<close>

text \<open>
  The two parts of \<^verbatim>\<open>consume_body_for_readline\<close>: room in the area, and bytes into it.  The first
  result tells success.
\<close>

definition line_room :: "bconf \<Rightarrow> body \<Rightarrow> nat \<Rightarrow> (bool \<times> body) option" where
  "line_room c b remains =
     (if post_readline_size b - post_readline_watermark b = 0 then do {
        m \<leftarrow> post_readline_buf b;
        m \<leftarrow> mem_move m 0 (post_readline_pos b) (post_readline_watermark b - post_readline_pos b);
        let b = b\<lparr>post_readline_buf := Some m,
                  post_readline_watermark := post_readline_watermark b - post_readline_pos b,
                  post_readline_pos := 0\<rparr>;
        (if post_readline_size b - post_readline_watermark b < remains then
           (case re_alloc c m (post_readline_size b + remains) of
              None \<Rightarrow> Some (False, b)
            | Some m \<Rightarrow> Some (True, b\<lparr>post_readline_buf := Some m, post_readline_size := post_readline_size b + remains\<rparr>))
         else Some (True, b)) }
      else Some (True, b))"

definition line_fill :: "bconf \<Rightarrow> body \<Rightarrow> source \<Rightarrow> (bool \<times> body \<times> source) option" where
  "line_fill c b s = do {
     m \<leftarrow> post_readline_buf b;
     let remains = min (post_readline_size b - post_readline_watermark b) (post_cl b - post_pos b);
     (case post_file b of
        Some f \<Rightarrow> do {
          (ok, m, f) \<leftarrow> fread m (post_readline_watermark b) remains f;
          let b = b\<lparr>post_readline_buf := Some m, post_file := Some f\<rparr>;
          Some (ok, if ok then b\<lparr>post_pos := post_pos b + remains,
                                post_readline_watermark := post_readline_watermark b + remains\<rparr> else b, s) }
      | None \<Rightarrow>
          if bc_post_buffering c > 0 then do {
            bs \<leftarrow> mem_read (post_buffering_buf b) (post_pos b) remains;
            m \<leftarrow> mem_write m (post_readline_watermark b) bs;
            Some (True, b\<lparr>post_readline_buf := Some m, post_pos := post_pos b + remains,
                          post_readline_watermark := post_readline_watermark b + remains\<rparr>, s) }
          else do {
            (out, s) \<leftarrow> read_or_wait remains s;
            (case out of
               Data bs \<Rightarrow> do {
                 m \<leftarrow> mem_write m (post_readline_watermark b) bs;
                 Some (True, b\<lparr>post_readline_buf := Some m, post_pos := post_pos b + length bs,
                               post_readline_watermark := post_readline_watermark b + length bs\<rparr>, s) }
             | Timed_out \<Rightarrow> Some (False, b, s)
             | _ \<Rightarrow> Some (False, read_failed b, s)) }) }"

definition consume_body_for_readline :: "bconf \<Rightarrow> body \<Rightarrow> source \<Rightarrow> (bool \<times> body \<times> source) option" where
  "consume_body_for_readline c b s = do {
     (ok, b) \<leftarrow> line_room c b (min (bc_buffer_size c) (post_cl b - post_pos b));
     (if \<not> ok then Some (False, b, s) else line_fill c b s) }"

text \<open>
  What a call returns: \<^verbatim>\<open>uwsgi.empty\<close>, the null pointer with the value of \<^verbatim>\<open>*rlen\<close>, or a pointer into
  one of the three areas with \<^verbatim>\<open>*rlen\<close>, which the callers set to 0 before.
\<close>

datatype piece = Empty | Null int | In_line nat nat | In_read nat | In_post nat nat

text \<open>The first line of the bytes left over.\<close>

definition take_line :: "body \<Rightarrow> (piece option \<times> body) option" where
  "take_line b = do {
     m \<leftarrow> post_readline_buf b;
     bs \<leftarrow> mem_read m (post_readline_pos b) (post_readline_watermark b - post_readline_pos b);
     (case memchr 10 bs of
        None \<Rightarrow> Some (None, b)
      | Some i \<Rightarrow>
          let p = post_readline_pos b + (i + 1) in
          Some (Some (In_line (post_readline_pos b) (i + 1)),
                if p \<ge> post_readline_watermark b then b\<lparr>post_readline_pos := 0, post_readline_watermark := 0\<rparr>
                else b\<lparr>post_readline_pos := p\<rparr>)) }"

partial_function (option) readline_loop :: "bconf \<Rightarrow> body \<Rightarrow> source \<Rightarrow> (piece \<times> body \<times> source) option" where
  "readline_loop c b s =
     (if post_pos b \<ge> post_cl b then
        Some (In_line (post_readline_pos b) (post_readline_size b - post_readline_pos b), b\<lparr>post_readline_pos := 0\<rparr>, s)
      else case consume_body_for_readline c b s of
        None \<Rightarrow> None
      | Some x \<Rightarrow>
          if \<not> fst x then Some (Null (-1), read_failed (fst (snd x)), snd (snd x))
          else case take_line (fst (snd x)) of
            None \<Rightarrow> None
          | Some y \<Rightarrow>
              case fst y of
                Some r \<Rightarrow> Some (r, snd y, snd (snd x))
              | None \<Rightarrow> readline_loop c (snd y) (snd (snd x)))"

declare readline_loop.simps [code]

definition uwsgi_request_body_readline :: "bconf \<Rightarrow> body \<Rightarrow> source \<Rightarrow> (piece \<times> body \<times> source) option" where
  "uwsgi_request_body_readline c b s =
     (if (post_cl b = 0 \<or> post_pos b \<ge> post_cl b) \<and> post_readline_pos b = 0 then Some (Empty, b, s)
      else do {
        (hit, b) \<leftarrow> (if post_readline_pos b > 0 then take_line b else Some (None, b));
        (case hit of
           Some r \<Rightarrow> Some (r, b, s)
         | None \<Rightarrow>
             (case post_readline_buf b of
                Some _ \<Rightarrow> readline_loop c b s
              | None \<Rightarrow>
                  let amount = min (bc_buffer_size c) (post_cl b) in
                  if \<not> alloc_ok (bc_env c) amount then Some (Null (-1), read_failed b, s)
                  else readline_loop c (b\<lparr>post_readline_buf := Some (replicate amount (junk (bc_env c))),
                                          post_readline_size := amount\<rparr>) s)) })"

section \<open>Reading by size\<close>

lemma outcome_of_Data [simp]: "outcome_of ev = Data bs \<longleftrightarrow> ev = Bytes bs \<and> bs \<noteq> []"
  by (cases ev) (auto simp: outcome_of_def)

lemma try_read_Data: "try_read len s = Some (Data bs, s') \<Longrightarrow> bs \<noteq> []"
  by (auto simp: try_read_def)

lemma wait_read_Data: "wait_read len s = Some (Data bs, s') \<Longrightarrow> bs \<noteq> []"
  by (auto simp: wait_read_def Let_def dest: try_read_Data split: list.splits if_splits)

lemma proto_read_body_waits: "proto_read_body len s = Some (ev, s') \<Longrightarrow> ch_waits (so_chan s') = ch_waits (so_chan s)"
  by (auto simp: proto_read_body_def split: if_splits prod.splits bind_splits)

lemma try_read_waits: "try_read len s = Some (out, s') \<Longrightarrow> ch_waits (so_chan s') = ch_waits (so_chan s)"
  by (auto simp: try_read_def dest: proto_read_body_waits)

lemma wait_read_waits:
  "wait_read len s = Some (out, s') \<Longrightarrow> out \<noteq> Wait_failed \<Longrightarrow> length (ch_waits (so_chan s')) < length (ch_waits (so_chan s))"
  by (auto simp: wait_read_def Let_def dest: try_read_waits split: list.splits if_splits)

text \<open>
  The loop that reads \<open>remains\<close> bytes behind the \<open>rlen\<close> bytes there; \<open>waiting\<close> is the label \<^verbatim>\<open>wait\<close>.
  It ends since every pass takes bytes or uses up a result of the wait hook.
\<close>

function body_loop :: "body \<Rightarrow> nat \<Rightarrow> nat \<Rightarrow> bool \<Rightarrow> source \<Rightarrow> (piece \<times> body \<times> source) option" where
  "body_loop b rlen remains waiting s =
     (if remains = 0 then Some (In_read rlen, b, s)
      else case (if waiting then wait_read remains s else try_read remains s) of
        None \<Rightarrow> None
      | Some (out, s) \<Rightarrow>
          (case out of
             Data bs \<Rightarrow>
               (case post_read_buf b of None \<Rightarrow> None | Some m \<Rightarrow>
                case mem_write m rlen bs of None \<Rightarrow> None | Some m \<Rightarrow>
                  body_loop (b\<lparr>post_read_buf := Some m, post_pos := post_pos b + length bs\<rparr>)
                    (rlen + length bs) (remains - length bs) False s)
           | Retry \<Rightarrow> body_loop b rlen remains True s
           | Closed \<Rightarrow> Some (Null (-1), b, s)
           | Timed_out \<Rightarrow> Some (Null 0, b, s)
           | _ \<Rightarrow> Some (Null (-1), read_failed b, s)))"
  by pat_completeness auto
termination
proof (relation "measure (\<lambda>(b, rlen, remains, waiting, s). 2 * (remains + length (ch_waits (so_chan s))) + (if waiting then 0 else 1))", goal_cases)
  case (2 b rlen remains waiting s x out s' bs m m')
  then have "bs \<noteq> []" by (auto dest: try_read_Data wait_read_Data split: if_splits)
  moreover have "length (ch_waits (so_chan s')) \<le> length (ch_waits (so_chan s))"
    "waiting \<Longrightarrow> length (ch_waits (so_chan s')) < length (ch_waits (so_chan s))"
    using 2 by (auto dest: try_read_waits wait_read_waits split: if_splits)
  moreover have "remains - length bs < remains" using 2(1) \<open>bs \<noteq> []\<close> by (simp add: diff_less)
  ultimately show ?case by (cases waiting) auto
next
  case (3 b rlen remains waiting s x out s')
  then show ?case by (auto dest: try_read_waits wait_read_waits split: if_splits)
qed auto

declare body_loop.simps [simp del]

text \<open>
  The bytes left over from a line are copied to the area of \<^verbatim>\<open>read()\<close> when they are not enough.  The
  inner \<open>None\<close>: they are enough, or the area cannot grow.
\<close>

definition take_residual :: "bconf \<Rightarrow> body \<Rightarrow> nat \<Rightarrow> ((piece \<times> body) + (nat \<times> nat \<times> body)) option" where
  "take_residual c b remains =
     (if post_readline_pos b = 0 then Some (Inr (0, remains, b))
      else
        let avail = post_readline_watermark b - post_readline_pos b in
        if remains \<le> avail then
          Some (Inl (In_line (post_readline_pos b) remains, b\<lparr>post_readline_pos := post_readline_pos b + remains\<rparr>))
        else case (if avail > post_read_buf_size b then
                     map_option (\<lambda>m. b\<lparr>post_read_buf := Some m, post_read_buf_size := avail\<rparr>)
                       (re_alloc c (case post_read_buf b of None \<Rightarrow> [] | Some m \<Rightarrow> m) avail)
                   else Some b) of
            None \<Rightarrow> Some (Inl (Null (-1), read_failed b))
          | Some b \<Rightarrow> do {
              l \<leftarrow> (if avail = 0 then Some [] else do {
                 l \<leftarrow> post_readline_buf b;
                 mem_read l (post_readline_pos b) avail });
              m \<leftarrow> (if avail = 0 then Some (post_read_buf b)
                   else do { m \<leftarrow> post_read_buf b; map_option Some (mem_write m 0 l) });
              Some (Inr (avail, remains - avail,
                b\<lparr>post_read_buf := m, post_readline_pos := 0, post_readline_watermark := 0\<rparr>)) })"

definition read_area :: "bconf \<Rightarrow> body \<Rightarrow> nat \<Rightarrow> nat \<Rightarrow> body option" where
  "read_area c b rlen remains =
     (case post_read_buf b of
        None \<Rightarrow>
          if alloc_ok (bc_env c) remains then
            Some (b\<lparr>post_read_buf := Some (replicate remains (junk (bc_env c))), post_read_buf_size := remains\<rparr>)
          else None
      | Some m \<Rightarrow>
          if sz_add remains rlen > post_read_buf_size b then
            map_option (\<lambda>m. b\<lparr>post_read_buf := Some m, post_read_buf_size := sz_add remains rlen\<rparr>)
              (re_alloc c m (sz_add remains rlen))
          else Some b)"

text \<open>The hint is signed, what is read of it is a \<^verbatim>\<open>size_t\<close>.\<close>

definition uwsgi_request_body_read :: "bconf \<Rightarrow> body \<Rightarrow> source \<Rightarrow> int \<Rightarrow> (piece \<times> body \<times> source) option" where
  "uwsgi_request_body_read c b s hint =
     (let remains = nat (hint mod int SIZE_MOD) in
      if (post_cl b = 0 \<or> post_pos b \<ge> post_cl b) \<and> post_readline_pos b = 0 then Some (Empty, b, s)
      else do {
        x \<leftarrow> take_residual c b (if remains = 0 then post_cl b else remains);
        (case x of
           Inl (r, b) \<Rightarrow> Some (r, b, s)
         | Inr (rlen, remains, b) \<Rightarrow>
             let remains = (if sz_add remains (post_pos b) > post_cl b then sz_sub (post_cl b) (post_pos b) else remains) in
             if remains = 0 then Some (if rlen > 0 then In_read rlen else Empty, b, s)
             else if bc_post_buffering c > 0 \<and> post_file b = None then
               Some (In_post (post_pos b) (rlen + remains), b\<lparr>post_pos := post_pos b + remains\<rparr>, s)
             else (case read_area c b rlen remains of
                 None \<Rightarrow> Some (Null (-1), read_failed b, s)
               | Some b \<Rightarrow>
                   (case post_file b of
                      Some f \<Rightarrow> do {
                        m \<leftarrow> post_read_buf b;
                        (ok, m, f) \<leftarrow> fread m rlen remains f;
                        let b = b\<lparr>post_read_buf := Some m, post_file := Some f\<rparr>;
                        Some (if ok then (In_read (rlen + remains), b\<lparr>post_pos := post_pos b + remains\<rparr>, s)
                              else (Null (-1), read_failed b, s)) }
                    | None \<Rightarrow> body_loop b rlen remains False s))) })"

section \<open>Post buffering\<close>

text \<open>
  In memory: \<open>p\<close> is the position in the area.  The result is that of the function, with the
  outcome of the wait in place: a second failure is reported as a time-out.
\<close>

function mem_loop :: "body \<Rightarrow> nat \<Rightarrow> nat \<Rightarrow> source \<Rightarrow> (int \<times> body \<times> source) option" where
  "mem_loop b p remains s =
     (if remains = 0 then Some (0, b, s)
      else case try_read remains s of
        None \<Rightarrow> None
      | Some (out, s1) \<Rightarrow>
          (case (if out = Retry then wait_read remains s1 else Some (out, s1)) of
             None \<Rightarrow> None
           | Some (out2, s2) \<Rightarrow>
               (case out2 of
                  Data bs \<Rightarrow>
                    (case mem_write (post_buffering_buf b) p bs of None \<Rightarrow> None | Some m \<Rightarrow>
                       mem_loop (b\<lparr>post_buffering_buf := m\<rparr>) (p + length bs) (remains - length bs) s2)
                | _ \<Rightarrow> Some (-1, if out2 = Wait_failed \<or> out2 = Failed \<and> out \<noteq> Retry then read_failed b else b, s2))))"
  by pat_completeness auto
termination
proof (relation "measure (\<lambda>(b, p, remains, s). remains)", goal_cases)
  case (2 b p remains s x out s1 y out2 s2 bs m)
  then have "bs \<noteq> []" by (auto dest: try_read_Data wait_read_Data split: if_splits)
  with 2(1) show ?case by (simp add: diff_less)
qed auto

declare mem_loop.simps [simp del]

definition uwsgi_postbuffer_do_in_mem :: "body \<Rightarrow> source \<Rightarrow> (int \<times> body \<times> source) option" where
  "uwsgi_postbuffer_do_in_mem b s = mem_loop b 0 (post_cl b) s"

text \<open>In a file: the area is used for one piece after the other.\<close>

definition fwrite :: "bconf \<Rightarrow> bytes \<Rightarrow> bytes \<times> nat \<Rightarrow> (bytes \<times> nat) option" where
  "fwrite c bs f = (if bc_fwrite_ok c (snd f)
     then Some (take (snd f) (fst f) @ bs @ drop (snd f + length bs) (fst f), snd f + length bs) else None)"

function disk_loop :: "bconf \<Rightarrow> body \<Rightarrow> nat \<Rightarrow> source \<Rightarrow> (int \<times> body \<times> source) option" where
  "disk_loop c b remains s =
     (case post_file b of None \<Rightarrow> None | Some f \<Rightarrow>
      if remains = 0 then Some (0, b\<lparr>post_file := Some (fst f, 0)\<rparr>, s)
      else case read_or_wait (min remains (bc_post_buffering c)) s of
        None \<Rightarrow> None
      | Some (out, s1) \<Rightarrow>
          (case out of
             Data bs \<Rightarrow>
               (case mem_write (post_buffering_buf b) 0 bs of None \<Rightarrow> None | Some m \<Rightarrow>
                case fwrite c bs f of
                  None \<Rightarrow> Some (-1, read_failed (b\<lparr>post_buffering_buf := m\<rparr>), s1)
                | Some f \<Rightarrow> disk_loop c (b\<lparr>post_buffering_buf := m, post_file := Some f\<rparr>) (remains - length bs) s1)
           | _ \<Rightarrow> Some (-1, if out = Closed \<or> out = Timed_out then b else read_failed b, s1)))"
  by pat_completeness auto
termination
proof (relation "measure (\<lambda>(c, b, remains, s). remains)", goal_cases)
  case (2 c b remains s f x out s1 bs m f')
  then have "bs \<noteq> []" by (auto simp: read_or_wait_def dest: try_read_Data wait_read_Data split: bind_splits if_splits)
  with 2(2) show ?case by (simp add: diff_less)
qed auto

declare disk_loop.simps [simp del]

definition uwsgi_postbuffer_do_in_disk :: "bconf \<Rightarrow> body \<Rightarrow> source \<Rightarrow> (int \<times> body \<times> source) option" where
  "uwsgi_postbuffer_do_in_disk c b s =
     (if \<not> bc_tmpfile_ok c then Some (-1, read_failed b, s)
      else disk_loop c (b\<lparr>post_file := Some ([], 0)\<rparr>) (post_cl b) s)"

section \<open>What the protocol delivers\<close>

definition kept :: "preq \<Rightarrow> bytes" where
  "kept q = (if pq_remains q = 0 then [] else
     case remains_area q of None \<Rightarrow> []
     | Some m \<Rightarrow> take (pq_remains q) (drop (case pq_remains_at q of In_area p \<Rightarrow> p | In_parser p \<Rightarrow> p) m))"

definition src_bytes :: "source \<Rightarrow> bytes" where
  "src_bytes s = kept (so_req s) @ net_bytes (ch_evs (so_chan s))"

definition src_ok :: "source \<Rightarrow> bool" where
  "src_ok s \<longleftrightarrow> length (kept (so_req s)) = pq_remains (so_req s) \<and> delivers False (ch_evs (so_chan s)) (ch_waits (so_chan s))"

definition gives :: "nat \<Rightarrow> source \<Rightarrow> (outcome \<times> source) option \<Rightarrow> bool" where
  "gives len s res \<longleftrightarrow> (\<exists>bs s'. res = Some (Data bs, s') \<and> bs \<noteq> [] \<and> length bs \<le> len \<and>
     src_bytes s = bs @ src_bytes s' \<and> src_ok s')"

lemma take_remains_kept:
  assumes "length (kept q) = pq_remains q" "pq_remains q > 0"
  shows "\<exists>q'. take_remains q len = Some (take len (kept q), q') \<and> kept q' = drop len (kept q) \<and>
    pq_remains q' = pq_remains q - len"
proof -
  obtain m where m: "remains_area q = Some m" using assms by (auto simp: kept_def split: option.splits)
  obtain p where p: "pq_remains_at q = In_area p \<or> pq_remains_at q = In_parser p" by (cases "pq_remains_at q") auto
  have k: "kept q = take (pq_remains q) (drop p m)" using m p assms(2) by (auto simp: kept_def)
  then have le: "p + pq_remains q \<le> length m" using assms by (simp add: min_def split: if_splits)
  then have r: "mem_read m p (min (pq_remains q) len) = Some (take len (kept q))"
    using k by (simp add: mem_read_def min.commute)
  have d: "drop len (kept q) = take (pq_remains q - len) (drop (p + min (pq_remains q) len) m)"
    unfolding k by (auto simp: drop_take min_def add.commute)
  from p show ?thesis
  proof
    assume p: "pq_remains_at q = In_area p"
    then have "m = pq_area q" using m by (simp add: remains_area_def)
    with p r d m show ?thesis
      by (intro exI [of _ "q\<lparr>pq_remains := pq_remains q - min (pq_remains q) len, pq_remains_at := In_area (p + min (pq_remains q) len)\<rparr>"])
        (simp add: take_remains_def kept_def remains_area_def Let_def)
  next
    assume p: "pq_remains_at q = In_parser p"
    then have "pq_buf q = Some m" using m by (simp add: remains_area_def)
    with p r d m show ?thesis
      by (intro exI [of _ "q\<lparr>pq_remains := pq_remains q - min (pq_remains q) len, pq_remains_at := In_parser (p + min (pq_remains q) len)\<rparr>"])
        (simp add: take_remains_def kept_def remains_area_def Let_def)
  qed
qed

lemma try_read_kept:
  assumes "src_ok s" "pq_remains (so_req s) > 0" "len > 0"
  shows "gives len s (try_read len s)"
proof -
  let ?q = "so_req s"
  have ok: "length (kept ?q) = pq_remains ?q" using assms(1) by (simp add: src_ok_def)
  from take_remains_kept [OF ok assms(2)] obtain q' where
    q': "take_remains ?q len = Some (take len (kept ?q), q')" "kept q' = drop len (kept ?q)" "pq_remains q' = pq_remains ?q - len"
    by blast
  have "take len (kept ?q) \<noteq> []" using ok assms(2,3) by auto
  then show ?thesis using q' assms ok
    by (auto simp: gives_def try_read_def proto_read_body_def uwsgi_proto_base_read_body_def outcome_of_def src_bytes_def src_ok_def)
qed

lemma try_read_net:
  assumes "src_ok s" "pq_remains (so_req s) = 0"
    and "net_read len (ch_evs (so_chan s)) = (Bytes bs, evs)" "bs \<noteq> []" "delivers False evs (ch_waits (so_chan s))"
  shows "gives len s (try_read len s)"
  using assms net_read_bytes [OF assms(3)] net_read_room [OF assms(3)]
  by (auto simp: gives_def try_read_def proto_read_body_def uwsgi_proto_base_read_body_def sys_read_def outcome_of_def
      src_bytes_def src_ok_def kept_def)

lemma delivers_net:
  "delivers False evs ws \<Longrightarrow> net_bytes evs \<noteq> [] \<Longrightarrow> room > 0 \<Longrightarrow>
   (\<exists>bs evs'. net_read room evs = (Bytes bs, evs') \<and> bs \<noteq> [] \<and> delivers False evs' ws) \<or>
   (\<exists>evs1 w ws1 bs evs'. evs = Again # evs1 \<and> ws = w # ws1 \<and> w > 0 \<and> net_read room evs1 = (Bytes bs, evs') \<and>
      bs \<noteq> [] \<and> delivers False evs' ws1)"
  by (cases "(False, evs, ws)" rule: delivers.cases) (auto split: if_splits)

lemma read_or_wait_gives:
  assumes "src_ok s" "src_bytes s \<noteq> []" "len > 0"
  shows "gives len s (read_or_wait len s)"
    and "gives len s (try_read len s) \<or>
      (\<exists>s1. try_read len s = Some (Retry, s1) \<and> src_bytes s1 = src_bytes s \<and> gives len s1 (wait_read len s1))"
proof -
  show A: "gives len s (try_read len s) \<or>
      (\<exists>s1. try_read len s = Some (Retry, s1) \<and> src_bytes s1 = src_bytes s \<and> gives len s1 (wait_read len s1))"
  proof (cases "pq_remains (so_req s) > 0")
    case True
    with try_read_kept assms show ?thesis by blast
  next
    case False
    then have r0: "pq_remains (so_req s) = 0" by simp
    then have k0: "kept (so_req s) = []" by (simp add: kept_def)
    have d: "delivers False (ch_evs (so_chan s)) (ch_waits (so_chan s))" "net_bytes (ch_evs (so_chan s)) \<noteq> []"
      using assms k0 by (simp_all add: src_ok_def src_bytes_def)
    from delivers_net [OF d assms(3)] consider
        (now) bs evs' where "net_read len (ch_evs (so_chan s)) = (Bytes bs, evs')" "bs \<noteq> []" "delivers False evs' (ch_waits (so_chan s))"
      | (later) evs1 w ws1 bs evs' where "ch_evs (so_chan s) = Again # evs1" "ch_waits (so_chan s) = w # ws1" "w > 0"
          "net_read len evs1 = (Bytes bs, evs')" "bs \<noteq> []" "delivers False evs' ws1" by blast
    then show ?thesis
    proof cases
      case now
      from try_read_net [OF assms(1) r0 now] show ?thesis by blast
    next
      case later
      let ?s1 = "s\<lparr>so_chan := (so_chan s)\<lparr>ch_evs := evs1\<rparr>\<rparr>"
      let ?s2 = "s\<lparr>so_chan := (so_chan s)\<lparr>ch_evs := evs1, ch_waits := ws1\<rparr>\<rparr>"
      have t: "try_read len s = Some (Retry, ?s1)"
        using later(1) r0 by (simp add: try_read_def proto_read_body_def uwsgi_proto_base_read_body_def sys_read_def outcome_of_def)
      have "delivers False evs1 ws1" using d(1) later by (cases evs1; cases "hd evs1") auto
      then have "src_ok ?s2" using r0 k0 by (simp add: src_ok_def)
      from try_read_net [OF this, of len bs evs'] later r0 have "gives len ?s2 (try_read len ?s2)" by simp
      then have "gives len ?s1 (try_read len ?s2)" by (simp add: gives_def src_bytes_def)
      then have "gives len ?s1 (wait_read len ?s1)" using later(2,3) by (simp add: wait_read_def)
      moreover have "src_bytes ?s1 = src_bytes s" using later(1) by (simp add: src_bytes_def)
      ultimately show ?thesis using t by blast
    qed
  qed
  show "gives len s (read_or_wait len s)"
    using A by (auto simp: read_or_wait_def gives_def)
qed

section \<open>What is left of the body\<close>

text \<open>
  The areas of a request are what the fields say; the bytes between the two positions of the area
  of lines are \<open>region\<close>.  \<open>pend\<close> is what has not been taken from where the body comes from.
\<close>

definition area_of :: "bytes option \<Rightarrow> nat \<Rightarrow> bool" where
  "area_of m n = (case m of None \<Rightarrow> n = 0 | Some m \<Rightarrow> length m = n)"

lemma area_of_simps [simp]: "area_of None n \<longleftrightarrow> n = 0" "area_of (Some m) n \<longleftrightarrow> length m = n"
  by (simp_all add: area_of_def)

definition areas_ok :: "body \<Rightarrow> bool" where
  "areas_ok b \<longleftrightarrow>
     area_of (post_readline_buf b) (post_readline_size b) \<and> area_of (post_read_buf b) (post_read_buf_size b) \<and>
     post_readline_pos b \<le> post_readline_watermark b \<and> post_readline_watermark b \<le> post_readline_size b \<and>
     post_readline_watermark b \<le> post_pos b \<and> post_pos b \<le> post_cl b \<and> post_cl b < OBJ_MAX"

definition region :: "body \<Rightarrow> bytes" where
  "region b = (case post_readline_buf b of None \<Rightarrow> []
     | Some m \<Rightarrow> take (post_readline_watermark b - post_readline_pos b) (drop (post_readline_pos b) m))"

definition pend :: "bconf \<Rightarrow> body \<Rightarrow> source \<Rightarrow> bytes \<Rightarrow> bool" where
  "pend c b s P \<longleftrightarrow> length P = post_cl b - post_pos b \<and>
     (case post_file b of
        Some (f, q) \<Rightarrow> q = post_pos b \<and> P = take (length P) (drop q f)
      | None \<Rightarrow> if bc_post_buffering c > 0 then P = take (length P) (drop (post_pos b) (post_buffering_buf b))
          else src_ok s \<and> P = take (length P) (src_bytes s))"

definition enough :: "bconf \<Rightarrow> nat \<Rightarrow> bool" where
  "enough c n \<longleftrightarrow> bc_buffer_size c > 0 \<and> (\<forall>k \<le> n. alloc_ok (bc_env c) k)"

lemma length_region: "areas_ok b \<Longrightarrow> length (region b) = post_readline_watermark b - post_readline_pos b"
  by (cases "post_readline_buf b") (auto simp: areas_ok_def region_def)

lemma pend_length: "pend c b s P \<Longrightarrow> length P = post_cl b - post_pos b"
  by (simp add: pend_def)

lemma region_buf: "region b \<noteq> [] \<Longrightarrow> \<exists>m. post_readline_buf b = Some m"
  by (auto simp: region_def split: option.splits)

lemma take_app_take: "P = take (length P) X \<Longrightarrow> n \<le> length P \<Longrightarrow> take n X = take n P"
  by (metis min.absorb1 take_take)

lemma take_split: "P = take (length P) (bs @ X) \<Longrightarrow> length bs \<le> length P \<Longrightarrow> P = bs @ drop (length bs) P \<and> drop (length bs) P = take (length P - length bs) X"
  by (metis append_eq_conv_conj append_take_drop_id drop_take take_app_take append_take_drop_id)

lemma drop_of_take: "P = take (length P) (drop q X) \<Longrightarrow> n \<le> length P \<Longrightarrow> drop n P = take (length P - n) (drop (q + n) X)"
  by (metis add.commute drop_drop drop_take)

lemma pend_same:
  "post_cl b' = post_cl b \<Longrightarrow> post_pos b' = post_pos b \<Longrightarrow> post_file b' = post_file b \<Longrightarrow>
   post_buffering_buf b' = post_buffering_buf b \<Longrightarrow> pend c b' s P = pend c b s P"
  by (simp only: pend_def)

lemma pendD:
  "pend c b s P \<Longrightarrow> post_file b = Some (g, q) \<Longrightarrow> P = take (length P) (drop q g) \<and> q = post_pos b"
  "pend c b s P \<Longrightarrow> post_file b = None \<Longrightarrow> bc_post_buffering c > 0 \<Longrightarrow> P = take (length P) (drop (post_pos b) (post_buffering_buf b))"
  "pend c b s P \<Longrightarrow> post_file b = None \<Longrightarrow> bc_post_buffering c = 0 \<Longrightarrow> src_ok s \<and> P = take (length P) (src_bytes s)"
  by (auto simp only: pend_def option.case prod.case if_True if_False less_irrefl)

lemma fread_pend:
  assumes "pend c b s P" "post_file b = Some f" "0 < n" "n \<le> length P" "p + n \<le> length m"
  shows "\<exists>m'. fread m p n f = Some (True, m', fst f, snd f + n) \<and> mem_write m p (take n P) = Some m'"
proof -
  obtain g q where f: "f = (g, q)" by (cases f)
  have P: "P = take (length P) (drop q g)" using pendD(1) [OF assms(1)] assms(2) f by blast
  have t: "take n (drop q g) = take n P" using take_app_take [OF P assms(4)] .
  obtain m' where "mem_write m p (take n P) = Some m'" using assms(4,5) by (simp add: mem_write_def)
  with t f assms(3,4) show ?thesis by (simp add: fread_def Let_def)
qed

lemma pend_file:
  assumes "pend c b s P" "post_file b = Some f" "n \<le> length P" "post_cl b' = post_cl b" "post_pos b' = post_pos b + n"
    and "post_file b' = Some (fst f, snd f + n)"
  shows "pend c b' s (drop n P)"
proof -
  obtain g q where f: "f = (g, q)" by (cases f)
  have P: "P = take (length P) (drop q g)" "q = post_pos b" "length P = post_cl b - post_pos b"
    using pendD(1) [OF assms(1), of g q] pend_length [OF assms(1)] assms(2) f by simp_all
  with drop_of_take [OF P(1) assms(3)] assms(3-6) f show ?thesis by (simp add: pend_def)
qed

lemma pend_mem:
  assumes "pend c b s P" "post_file b = None" "bc_post_buffering c > 0" "n \<le> length P"
    and "post_cl b' = post_cl b" "post_pos b' = post_pos b + n" "post_file b' = None" "post_buffering_buf b' = post_buffering_buf b"
  shows "pend c b' s (drop n P)" "n > 0 \<Longrightarrow> mem_read (post_buffering_buf b) (post_pos b) n = Some (take n P)"
proof -
  have P: "P = take (length P) (drop (post_pos b) (post_buffering_buf b))" "length P = post_cl b - post_pos b"
    using pendD(2) [OF assms(1-3)] pend_length [OF assms(1)] by simp_all
  with drop_of_take [OF P(1) assms(4)] assms(4-8) show "pend c b' s (drop n P)" using assms(3) by (simp add: pend_def)
  have "length P \<le> length (post_buffering_buf b) - post_pos b" using P(1) by (metis length_drop length_take min.cobounded1)
  then show "mem_read (post_buffering_buf b) (post_pos b) n = Some (take n P)" if "n > 0"
    using take_app_take [OF P(1) assms(4)] assms(4) that by (auto simp: mem_read_def)
qed

lemma pend_net:
  assumes "pend c b s P" "post_file b = None" "bc_post_buffering c = 0" "length bs \<le> length P"
    and "src_bytes s = bs @ src_bytes s'" "src_ok s'"
    and "post_cl b' = post_cl b" "post_pos b' = post_pos b + length bs" "post_file b' = None"
  shows "pend c b' s' (drop (length bs) P)" "take (length bs) P = bs"
proof -
  have "P = take (length P) (bs @ src_bytes s')" using pendD(3) [OF assms(1-3)] assms(5) by simp
  from take_split [OF this assms(4)] have d: "P = bs @ drop (length bs) P" "drop (length bs) P = take (length P - length bs) (src_bytes s')"
    by blast+
  then show "take (length bs) P = bs" by (metis append_eq_conv_conj)
  have "drop (length bs) P = take (length (drop (length bs) P)) (src_bytes s')" using d(2) by (metis length_drop)
  moreover have "length (drop (length bs) P) = post_cl b' - post_pos b'"
    using pend_length [OF assms(1)] assms(7,8) by simp
  ultimately show "pend c b' s' (drop (length bs) P)"
    using assms(3,6,9) by (simp only: pend_def option.case if_False less_irrefl simp_thms)
qed

text \<open>One step of filling the area of lines.\<close>

definition filled :: "bconf \<Rightarrow> body \<Rightarrow> bytes \<Rightarrow> source \<Rightarrow> bytes \<Rightarrow> bytes \<Rightarrow> body \<Rightarrow> source \<Rightarrow> bool" where
  "filled c b m s P bs b' s' \<longleftrightarrow> bs \<noteq> [] \<and>
     (\<exists>m' f. b' = b\<lparr>post_readline_buf := Some m', post_file := f, post_pos := post_pos b + length bs,
        post_readline_watermark := post_readline_watermark b + length bs\<rparr> \<and>
      mem_write m (post_readline_watermark b) bs = Some m' \<and> (f = None \<longleftrightarrow> post_file b = None)) \<and>
     P = bs @ drop (length bs) P \<and> pend c b' s' (drop (length bs) P)"

abbreviation fill_step :: "body \<Rightarrow> bytes \<Rightarrow> (bytes \<times> nat) option \<Rightarrow> nat \<Rightarrow> body" where
  "fill_step b m' f k \<equiv> b\<lparr>post_readline_buf := Some m', post_file := f, post_pos := post_pos b + k,
     post_readline_watermark := post_readline_watermark b + k\<rparr>"

lemma filledI:
  assumes "bs \<noteq> []" "mem_write m (post_readline_watermark b) bs = Some m'" "f = None \<longleftrightarrow> post_file b = None"
    and "take (length bs) P = bs" "pend c (fill_step b m' f (length bs)) s' (drop (length bs) P)"
  shows "filled c b m s P bs (fill_step b m' f (length bs)) s'"
proof -
  have "P = bs @ drop (length bs) P" using assms(4) by (metis append_take_drop_id)
  with assms(1-3,5) show ?thesis unfolding filled_def
    by (intro conjI exI [of _ m'] exI [of _ f]) (assumption | rule refl)+
qed

lemma line_fill_takes:
  assumes "areas_ok b" "post_readline_buf b = Some m" "pend c b s P" "P \<noteq> []"
    and "post_readline_watermark b < post_readline_size b"
  shows "\<exists>bs b' s'. line_fill c b s = Some (True, b', s') \<and> filled c b m s P bs b' s'"
proof -
  obtain n where n: "n = min (post_readline_size b - post_readline_watermark b) (post_cl b - post_pos b)" by blast
  have lP: "length P = post_cl b - post_pos b" using assms(3) by (rule pend_length)
  have lm: "length m = post_readline_size b" using assms(1,2) by (simp add: areas_ok_def)
  have "0 < length P" using assms(4) by simp
  then have n': "0 < n" "n \<le> length P" "post_readline_watermark b + n \<le> length m"
    using assms(5) lP lm n by auto
  obtain bs where bs: "bs = take n P" by blast
  then have bs: "bs = take n P" "length bs = n" "bs \<noteq> []" "take (length bs) P = bs" using n' by auto
  show ?thesis
  proof (cases "post_file b")
    case (Some f)
    let ?f = "Some (fst f, snd f + length bs)"
    from fread_pend [OF assms(3) Some n'] obtain m' where
      m': "fread m (post_readline_watermark b) n f = Some (True, m', fst f, snd f + n)"
        "mem_write m (post_readline_watermark b) bs = Some m'" unfolding bs(1) by blast
    have "line_fill c b s = Some (True, fill_step b m' ?f (length bs), s)"
      using assms(2) Some m'(1) bs(2) by (simp add: line_fill_def Let_def flip: n)
    moreover have "pend c (fill_step b m' ?f (length bs)) s (drop (length bs) P)"
      unfolding bs(2) by (rule pend_file [OF assms(3) Some n'(2)]) simp_all
    then have "filled c b m s P bs (fill_step b m' ?f (length bs)) s"
      by (intro filledI [OF bs(3) m'(2) _ bs(4)]) (simp_all add: Some)
    ultimately show ?thesis by blast
  next
    case None
    show ?thesis
    proof (cases "bc_post_buffering c > 0")
      case True
      obtain m' where m': "mem_write m (post_readline_watermark b) bs = Some m'"
        using n' bs(2) by (simp add: mem_write_def)
      note pm = pend_mem [OF assms(3) None True n'(2), of "fill_step b m' None n"]
      have "line_fill c b s = Some (True, fill_step b m' None (length bs), s)"
        using assms(2) None True m' pm(2) n'(1) bs(1,2) by (simp add: line_fill_def Let_def flip: n)
      moreover have "pend c (fill_step b m' None (length bs)) s (drop (length bs) P)"
        unfolding bs(2) by (rule pm(1)) simp_all
      then have "filled c b m s P bs (fill_step b m' None (length bs)) s"
        by (intro filledI [OF bs(3) m' _ bs(4)]) (simp_all add: None)
      ultimately show ?thesis by blast
    next
      case False
      then have z: "bc_post_buffering c = 0" by simp
      have ok: "src_ok s" "P = take (length P) (src_bytes s)" using pendD(3) [OF assms(3) None z] by blast+
      have "src_bytes s \<noteq> []" using ok(2) assms(4) by auto
      from read_or_wait_gives(1) [OF ok(1) this n'(1)] obtain bs s' where
        r: "read_or_wait n s = Some (Data bs, s')" "bs \<noteq> []" "length bs \<le> n" "src_bytes s = bs @ src_bytes s'" "src_ok s'"
        by (auto simp: gives_def)
      have le: "length bs \<le> length P" using r(3) n'(2) by (rule order_trans)
      obtain m' where m': "mem_write m (post_readline_watermark b) bs = Some m'"
        using n' r(3) by (simp add: mem_write_def)
      note pn = pend_net [OF assms(3) None z le r(4,5), of "fill_step b m' None (length bs)"]
      have "line_fill c b s = Some (True, fill_step b m' None (length bs), s')"
        using assms(2) None z r(1) m' by (simp add: line_fill_def Let_def flip: n)
      moreover have "take (length bs) P = bs" "pend c (fill_step b m' None (length bs)) s' (drop (length bs) P)"
        by (rule pn; simp)+
      then have "filled c b m s P bs (fill_step b m' None (length bs)) s'"
        by (intro filledI [OF r(2) m']) (simp_all add: None)
      ultimately show ?thesis by blast
    qed
  qed
qed

lemma region_drop: "post_readline_buf b = Some m \<Longrightarrow> region b = drop (post_readline_pos b) (take (post_readline_watermark b) m)"
  by (simp add: region_def drop_take)

lemma filled_ok:
  assumes "areas_ok b" "post_readline_buf b = Some m" "filled c b m s P bs b' s'" "pend c b s P"
  shows "areas_ok b'" "region b' = region b @ bs" "post_readline_pos b' = post_readline_pos b" "post_cl b' = post_cl b"
    "pend c b' s' (drop (length bs) P)" "P = bs @ drop (length bs) P" "bs \<noteq> []" "\<exists>m'. post_readline_buf b' = Some m'"
    "post_file b' = None \<longleftrightarrow> post_file b = None" "post_pos b' = post_pos b + length bs"
    "post_readline_watermark b' > 0"
proof -
  from assms(3) obtain m' f where
    f: "b' = fill_step b m' f (length bs)" "mem_write m (post_readline_watermark b) bs = Some m'" "f = None \<longleftrightarrow> post_file b = None"
      "bs \<noteq> []" "P = bs @ drop (length bs) P" "pend c b' s' (drop (length bs) P)"
    unfolding filled_def by (elim conjE exE) (rule that, assumption+)
  show "pend c b' s' (drop (length bs) P)" "P = bs @ drop (length bs) P" "bs \<noteq> []" by (fact f)+
  show "post_readline_pos b' = post_readline_pos b" "post_cl b' = post_cl b" "\<exists>m'. post_readline_buf b' = Some m'"
    "post_file b' = None \<longleftrightarrow> post_file b = None" "post_pos b' = post_pos b + length bs"
    using f(1,3) by simp_all
  have ok: "length m = post_readline_size b" "post_readline_pos b \<le> post_readline_watermark b"
    "post_readline_watermark b \<le> post_readline_size b"
    using assms(1,2) by (auto simp: areas_ok_def)
  have w: "post_readline_watermark b + length bs \<le> post_readline_size b" "length m' = length m"
    using f(2) ok(1) mem_write_length [OF f(2)] by (auto simp: mem_write_Some_iff)
  have "length bs \<le> length P" using f(5) by (metis append_eq_conv_conj length_take min.absorb_iff2 min.commute)
  moreover have "post_pos b \<le> post_cl b" using assms(1) by (simp add: areas_ok_def)
  ultimately have "post_pos b + length bs \<le> post_cl b" using pend_length [OF assms(4)] by linarith
  then show "areas_ok b'" using assms(1,2) w f(1) by (simp add: areas_ok_def)
  have "region b' = drop (post_readline_pos b) (take (post_readline_watermark b + length bs) m')"
    using f(1) region_drop [of b' m'] by simp
  also have "\<dots> = region b @ bs"
    using mem_write_upto [OF f(2)] region_drop [OF assms(2)] ok by simp
  finally show "region b' = region b @ bs" .
  show "post_readline_watermark b' > 0" using f(1,4) by simp
qed

abbreviation set_line :: "body \<Rightarrow> bytes \<Rightarrow> nat \<Rightarrow> nat \<Rightarrow> nat \<Rightarrow> body" where
  "set_line b m k w p \<equiv> b\<lparr>post_readline_buf := Some m, post_readline_size := k, post_readline_watermark := w, post_readline_pos := p\<rparr>"

lemma line_roomI:
  "line_room c b n = Some (True, set_line b m' k w p) \<Longrightarrow> areas_ok (set_line b m' k w p) \<Longrightarrow>
   region (set_line b m' k w p) = region b \<Longrightarrow> w < k \<Longrightarrow>
   \<exists>b' m' k w p. line_room c b n = Some (True, b') \<and> b' = set_line b m' k w p \<and> areas_ok b' \<and> region b' = region b \<and> w < k"
  by blast

lemma line_room_makes:
  assumes "areas_ok b" "post_readline_buf b = Some m" "0 < n" "n \<le> post_cl b - post_pos b" "enough c (post_cl b)"
  shows "\<exists>b' m' k w p. line_room c b n = Some (True, b') \<and>
     b' = set_line b m' k w p \<and> areas_ok b' \<and> region b' = region b \<and> w < k"
proof (cases "post_readline_size b = post_readline_watermark b")
  case False
  then have "post_readline_watermark b < post_readline_size b" using assms(1) by (auto simp: areas_ok_def)
  then show ?thesis using assms(1,2)
    by (intro line_roomI [where m' = m and k = "post_readline_size b" and w = "post_readline_watermark b"
        and p = "post_readline_pos b"]) (simp_all add: line_room_def areas_ok_def region_def)
next
  case True
  have ok: "length m = post_readline_size b" "post_readline_pos b \<le> post_readline_watermark b"
    "post_readline_watermark b \<le> post_pos b" "post_pos b \<le> post_cl b"
    using assms(1,2) by (auto simp: areas_ok_def)
  let ?w = "post_readline_watermark b - post_readline_pos b"
  have lr: "length (region b) = ?w" using assms(1) by (rule length_region)
  have rd: "mem_read m (post_readline_pos b) ?w = Some (region b)"
    using ok True assms(2) by (simp add: mem_read_def region_def)
  obtain m1 where m1: "mem_write m 0 (region b) = Some m1" "length m1 = length m" "take ?w m1 = region b"
    using ok True lr mem_write_length mem_write_upto by (fastforce simp: mem_write_def)
  have mv: "mem_move m 0 (post_readline_pos b) ?w = Some m1" using rd m1(1) by (simp add: mem_move_def)
  show ?thesis
  proof (cases "post_readline_size b - ?w < n")
    case True
    let ?k = "post_readline_size b + n"
    have "?k \<le> post_cl b" using ok assms(3,4) \<open>post_readline_size b = _\<close> by linarith
    then have al: "alloc_ok (bc_env c) ?k" using assms(5) by (simp add: enough_def)
    let ?m = "m1 @ replicate n (junk (bc_env c))"
    let ?b = "b\<lparr>post_readline_buf := Some ?m, post_readline_size := ?k, post_readline_watermark := ?w, post_readline_pos := 0\<rparr>"
    have "line_room c b n = Some (True, ?b)"
      using \<open>post_readline_size b = _\<close> True assms(2) mv al m1(2) ok(1) by (simp add: line_room_def Let_def re_alloc_def)
    moreover have "areas_ok ?b" using assms(1,2) m1(2) ok \<open>post_readline_size b = _\<close> by (auto simp: areas_ok_def)
    moreover have "region ?b = region b" using m1(2,3) ok \<open>post_readline_size b = _\<close> by (simp add: region_def)
    moreover have "?w < ?k" using assms(3) ok(2) \<open>post_readline_size b = _\<close> by simp
    ultimately show ?thesis by (rule line_roomI)
  next
    case False
    let ?b = "b\<lparr>post_readline_buf := Some m1, post_readline_size := post_readline_size b, post_readline_watermark := ?w, post_readline_pos := 0\<rparr>"
    have "line_room c b n = Some (True, ?b)"
      using \<open>post_readline_size b = _\<close> False assms(2) mv by (simp add: line_room_def Let_def)
    moreover have "areas_ok ?b" using assms(1,2) m1(2) ok \<open>post_readline_size b = _\<close> by (auto simp: areas_ok_def)
    moreover have "region ?b = region b" using m1(3) by (simp add: region_def)
    moreover have "?w < post_readline_size b" using assms(3) False by simp
    ultimately show ?thesis by (rule line_roomI)
  qed
qed

text \<open>The whole step: some more bytes of the body at the end of the region.\<close>

lemma consume_takes:
  assumes "areas_ok b" "post_readline_buf b = Some m" "pend c b s P" "P \<noteq> []" "enough c (post_cl b)"
  shows "\<exists>bs P' b' s'. consume_body_for_readline c b s = Some (True, b', s') \<and> areas_ok b' \<and> region b' = region b @ bs \<and>
     post_cl b' = post_cl b \<and> pend c b' s' P' \<and> P = bs @ P' \<and> bs \<noteq> [] \<and>
     (\<exists>m'. post_readline_buf b' = Some m') \<and> (post_file b' = None \<longleftrightarrow> post_file b = None)"
proof -
  let ?n = "min (bc_buffer_size c) (post_cl b - post_pos b)"
  have "0 < length P" using assms(4) by simp
  then have n: "0 < ?n" "?n \<le> post_cl b - post_pos b" using pend_length [OF assms(3)] assms(5) by (auto simp: enough_def)
  from line_room_makes [OF assms(1,2) n assms(5)] obtain b1 m1 k w p where
    r: "line_room c b ?n = Some (True, b1)"
      "b1 = b\<lparr>post_readline_buf := Some m1, post_readline_size := k, post_readline_watermark := w, post_readline_pos := p\<rparr>"
      "areas_ok b1" "region b1 = region b" "w < k" by blast
  have b1: "post_readline_buf b1 = Some m1" "post_readline_watermark b1 < post_readline_size b1" using r(2,5) by simp_all
  have pe: "pend c b1 s P" using assms(3) pend_same [of b1 b c s P] r(2) by simp
  from line_fill_takes [OF r(3) b1(1) pe assms(4) b1(2)] obtain bs b' s' where
    l: "line_fill c b1 s = Some (True, b', s')" "filled c b1 m1 s P bs b' s'" by blast
  note ok = filled_ok [OF r(3) b1(1) l(2) pe]
  have "consume_body_for_readline c b s = Some (True, b', s')"
    using r(1) l(1) by (simp add: consume_body_for_readline_def)
  then show ?thesis using ok(1-4,7-9) ok(5,6) r(2,4) 
    by (rule_tac exI [of _ bs], rule_tac exI [of _ "drop (length bs) P"], rule_tac exI [of _ b'], rule_tac exI [of _ s']) simp
qed

section \<open>Lines\<close>

text \<open>Between two calls the region is what is left over, unless its position is 0.\<close>

definition left_over :: "body \<Rightarrow> bytes" where
  "left_over b = (if post_readline_pos b = 0 then [] else region b)"

definition body_ok :: "bconf \<Rightarrow> body \<Rightarrow> source \<Rightarrow> bytes \<Rightarrow> bool" where
  "body_ok c b s B \<longleftrightarrow> areas_ok b \<and> enough c (post_cl b) \<and>
     (post_readline_pos b = 0 \<longrightarrow> post_readline_watermark b = 0 \<or> post_pos b = post_cl b) \<and>
     (\<exists>P. pend c b s P \<and> B = left_over b @ P)"

text \<open>The bytes a result stands for; \<^verbatim>\<open>uwsgi.empty\<close> is an empty string.\<close>

fun piece_bytes :: "body \<Rightarrow> piece \<Rightarrow> bytes option" where
  "piece_bytes b Empty = Some []"
| "piece_bytes b (Null n) = None"
| "piece_bytes b (In_line p n) = do { m \<leftarrow> post_readline_buf b; mem_read m p n }"
| "piece_bytes b (In_read n) = do { m \<leftarrow> post_read_buf b; mem_read m 0 n }"
| "piece_bytes b (In_post p n) = mem_read (post_buffering_buf b) p n"

lemma region_read:
  assumes "areas_ok b" "post_readline_buf b = Some m"
  shows "mem_read m (post_readline_pos b) (post_readline_watermark b - post_readline_pos b) = Some (region b)"
    and "n \<le> length (region b) \<Longrightarrow> mem_read m (post_readline_pos b) n = Some (take n (region b))"
proof -
  have le: "post_readline_pos b \<le> post_readline_watermark b" "post_readline_watermark b \<le> length m"
    using assms by (simp_all add: areas_ok_def)
  then show "mem_read m (post_readline_pos b) (post_readline_watermark b - post_readline_pos b) = Some (region b)"
    using assms(2) by (simp add: mem_read_def region_def)
  show "mem_read m (post_readline_pos b) n = Some (take n (region b))" if "n \<le> length (region b)"
    using that le assms(2) length_region [OF assms(1)] by (simp add: mem_read_def region_def min_def)
qed

lemma take_line_none:
  assumes "areas_ok b" "post_readline_buf b = Some m" "10 \<notin> set (region b)"
  shows "take_line b = Some (None, b)"
  using region_read(1) [OF assms(1,2)] memchr_first(2) [OF assms(3)] assms(2) by (simp add: take_line_def)

lemma take_line_some:
  assumes "areas_ok b" "post_readline_buf b = Some m" "region b = l @ 10 # R" "10 \<notin> set l"
  shows "\<exists>b' p w. take_line b = Some (Some (In_line (post_readline_pos b) (length l + 1)), b') \<and>
     b' = b\<lparr>post_readline_watermark := w, post_readline_pos := p\<rparr> \<and> areas_ok b' \<and>
     piece_bytes b' (In_line (post_readline_pos b) (length l + 1)) = Some (l @ [10]) \<and> left_over b' = R \<and> (p = 0 \<longrightarrow> w = 0) \<and>
     (R = [] \<longrightarrow> p = 0)"
proof -
  let ?p = "post_readline_pos b + (length l + 1)"
  have lr: "length l + 1 + length R = post_readline_watermark b - post_readline_pos b"
    using length_region [OF assms(1)] assms(3) by simp
  have le: "post_readline_pos b \<le> post_readline_watermark b" "post_readline_watermark b \<le> length m"
    using assms by (simp_all add: areas_ok_def)
  have "memchr 10 (region b) = Some (length l)" unfolding assms(3) by (rule memchr_first(1) [OF assms(4)])
  then have t: "take_line b = Some (Some (In_line (post_readline_pos b) (length l + 1)),
       if ?p \<ge> post_readline_watermark b then b\<lparr>post_readline_pos := 0, post_readline_watermark := 0\<rparr>
       else b\<lparr>post_readline_pos := ?p\<rparr>)"
    using region_read(1) [OF assms(1,2)] assms(2) by (simp add: take_line_def Let_def)
  have rd: "mem_read m (post_readline_pos b) (length l + 1) = Some (l @ [10])"
    using region_read(2) [OF assms(1,2), of "length l + 1"] assms(3) by simp
  show ?thesis
  proof (cases "?p \<ge> post_readline_watermark b")
    case True
    then have "length R = 0" using lr le by linarith
    then have "R = []" by simp
    with True t rd assms(1,2) show ?thesis
      by (intro exI [of _ "b\<lparr>post_readline_pos := 0, post_readline_watermark := 0\<rparr>"] exI [of _ 0])
        (simp add: areas_ok_def left_over_def)
  next
    case False
    then have "R \<noteq> []" using lr by auto
    moreover have "region (b\<lparr>post_readline_pos := ?p\<rparr>) = drop (length l + 1) (region b)"
      using assms(2) by (simp add: region_def drop_take add.commute add.left_commute)
    then have "left_over (b\<lparr>post_readline_pos := ?p\<rparr>) = R" using assms(3) by (simp add: left_over_def)
    ultimately show ?thesis using False t rd assms(1,2)
      by (intro exI [of _ "b\<lparr>post_readline_pos := ?p\<rparr>"] exI [of _ ?p] exI [of _ "post_readline_watermark b"])
        (simp add: areas_ok_def)
  qed
qed

text \<open>What stays the same over all calls: the length of the body and where it comes from.\<close>

definition same_body :: "body \<Rightarrow> body \<Rightarrow> bool" where
  "same_body b b' \<longleftrightarrow> post_cl b' = post_cl b \<and> (post_file b' = None \<longleftrightarrow> post_file b = None)"

lemma split_first:
  assumes "l @ x # R = A @ P" "x \<notin> set l" "x \<in> set A"
  obtains R1 where "A = l @ x # R1" "R = R1 @ P"
  using assms by (auto simp: append_eq_append_conv2 Cons_eq_append_conv append_eq_Cons_conv)

lemma readline_loop_line:
  assumes "areas_ok b" "post_readline_buf b = Some m" "pend c b s P" "enough c (post_cl b)"
    and "10 \<notin> set (region b)" "region b @ P = l @ 10 # R" "10 \<notin> set l"
  shows "\<exists>r b' s'. readline_loop c b s = Some (r, b', s') \<and> piece_bytes b' r = Some (l @ [10]) \<and>
     body_ok c b' s' R \<and> same_body b b' \<and> (R = [] \<longrightarrow> post_readline_pos b' = 0)"
  using assms(1-6)
proof (induction "length P" arbitrary: P b s m rule: less_induct)
  case less
  have P: "P \<noteq> []"
  proof
    assume "P = []"
    then have "10 \<in> set (region b)" using less.prems(6) by simp
    with less.prems(5) show False by blast
  qed
  then have go: "\<not> post_cl b \<le> post_pos b" using pend_length [OF less.prems(3)] by auto
  from consume_takes [OF less.prems(1-3) P less.prems(4)] obtain bs P1 b1 s1 m1 where
    k: "consume_body_for_readline c b s = Some (True, b1, s1)" "areas_ok b1" "region b1 = region b @ bs"
      "post_cl b1 = post_cl b" "pend c b1 s1 P1" "P = bs @ P1" "bs \<noteq> []"
      "post_readline_buf b1 = Some m1" "post_file b1 = None \<longleftrightarrow> post_file b = None"
    by (elim exE conjE) (rule that, assumption+)
  have en: "enough c (post_cl b1)" using less.prems(4) k(4) by simp
  have all: "region b1 @ P1 = l @ 10 # R" using less.prems(6) k(3,6) by simp
  show ?case
  proof (cases "10 \<in> set (region b1)")
    case True
    then obtain R1 where R1: "region b1 = l @ 10 # R1" "R = R1 @ P1"
      by (rule split_first [OF all [symmetric] assms(7)])
    from take_line_some [OF k(2,8) R1(1) assms(7)] obtain b2 p w where
      t: "take_line b1 = Some (Some (In_line (post_readline_pos b1) (length l + 1)), b2)"
        "b2 = b1\<lparr>post_readline_watermark := w, post_readline_pos := p\<rparr>" "areas_ok b2"
        "piece_bytes b2 (In_line (post_readline_pos b1) (length l + 1)) = Some (l @ [10])" "left_over b2 = R1" "p = 0 \<longrightarrow> w = 0" "R1 = [] \<longrightarrow> p = 0"
      by blast
    have "pend c b2 s1 P1" using k(5) pend_same [of b2 b1 c s1] t(2) by simp
    then have "body_ok c b2 s1 R" using t en R1(2) by (auto simp: body_ok_def)
    moreover have "readline_loop c b s = Some (In_line (post_readline_pos b1) (length l + 1), b2, s1)"
      using go k(1) t(1) by (simp add: readline_loop.simps)
    ultimately show ?thesis using t(2,4,7) k(4,9) R1(2) by (auto simp: same_body_def)
  next
    case False
    have "length P1 < length P" using k(6,7) by simp
    from less.hyps [OF this k(2,8,5) en False all] obtain r b' s' where
      "readline_loop c b1 s1 = Some (r, b', s')" "piece_bytes b' r = Some (l @ [10])" "body_ok c b' s' R" "same_body b1 b'"
      "R = [] \<longrightarrow> post_readline_pos b' = 0"
      by blast
    moreover have "readline_loop c b s = readline_loop c b1 s1"
      using go k(1) take_line_none [OF k(2,8) False] by (simp add: readline_loop.simps [of c b s])
    ultimately show ?thesis using k(4,9) by (auto simp: same_body_def)
  qed
qed

lemma readline_loop_rest:
  assumes "areas_ok b" "post_readline_buf b = Some m" "pend c b s P" "enough c (post_cl b)" "10 \<notin> set (region b @ P)"
  shows "\<exists>r b' s' X. readline_loop c b s = Some (r, b', s') \<and> piece_bytes b' r = Some (region b @ P @ X) \<and>
     body_ok c b' s' [] \<and> same_body b b'"
  using assms
proof (induction "length P" arbitrary: P b s m rule: less_induct)
  case less
  show ?case
  proof (cases "P = []")
    case True
    let ?r = "In_line (post_readline_pos b) (post_readline_size b - post_readline_pos b)"
    let ?b = "b\<lparr>post_readline_pos := 0\<rparr>"
    have le: "post_cl b \<le> post_pos b" "post_cl b = post_pos b"
      using pend_length [OF less.prems(3)] True less.prems(1) by (simp_all add: areas_ok_def)
    have ar: "length m = post_readline_size b" "post_readline_pos b \<le> post_readline_watermark b"
      "post_readline_watermark b \<le> post_readline_size b" using less.prems(1,2) by (simp_all add: areas_ok_def)
    have "drop (post_readline_pos b) m = region b @ drop (post_readline_watermark b) m"
      using region_drop [OF less.prems(2)] ar by (metis append_take_drop_id drop_append drop_drop length_take min.absorb2
          append_Nil2 diff_is_0_eq drop0)
    moreover have "mem_read m (post_readline_pos b) (post_readline_size b - post_readline_pos b) =
        Some (drop (post_readline_pos b) m)" using ar by (simp add: mem_read_def)
    ultimately have "mem_read m (post_readline_pos b) (post_readline_size b - post_readline_pos b) =
        Some (region b @ drop (post_readline_watermark b) m)" by simp
    then have "piece_bytes ?b ?r = Some (region b @ P @ drop (post_readline_watermark b) m)"
      using less.prems(2) True by simp
    moreover have "body_ok c ?b s []"
      using less.prems le(2) True pend_same [of ?b b c s P] by (auto simp: body_ok_def areas_ok_def left_over_def)
    moreover have "readline_loop c b s = Some (?r, ?b, s)" using le by (simp add: readline_loop.simps)
    ultimately show ?thesis by (auto simp: same_body_def)
  next
    case False
    then have go: "\<not> post_cl b \<le> post_pos b" using pend_length [OF less.prems(3)] by auto
    from consume_takes [OF less.prems(1-3) False less.prems(4)] obtain bs P1 b1 s1 m1 where
      k: "consume_body_for_readline c b s = Some (True, b1, s1)" "areas_ok b1" "region b1 = region b @ bs"
        "post_cl b1 = post_cl b" "pend c b1 s1 P1" "P = bs @ P1" "bs \<noteq> []"
        "post_readline_buf b1 = Some m1" "post_file b1 = None \<longleftrightarrow> post_file b = None"
    by (elim exE conjE) (rule that, assumption+)
    have en: "enough c (post_cl b1)" using less.prems(4) k(4) by simp
    have all: "region b1 @ P1 = region b @ P" using k(3,6) by simp
    have "length P1 < length P" using k(6,7) by simp
    from less.hyps [OF this k(2,8,5) en] less.prems(5) obtain r b' s' X where
      "readline_loop c b1 s1 = Some (r, b', s')" "piece_bytes b' r = Some (region b @ P @ X)" "body_ok c b' s' []" "same_body b1 b'"
      unfolding all using all by (metis append.assoc)
    moreover have "10 \<notin> set (region b1)" using all less.prems(5) by (metis in_set_conv_decomp Un_iff set_append)
    then have "readline_loop c b s = readline_loop c b1 s1"
      using go k(1) take_line_none [OF k(2,8)] by (simp add: readline_loop.simps [of c b s])
    ultimately show ?thesis using k(4,9) by (auto simp: same_body_def)
  qed
qed

lemma body_okE:
  assumes "body_ok c b s B"
  obtains P where "areas_ok b" "enough c (post_cl b)" "pend c b s P" "B = left_over b @ P"
    "post_readline_pos b = 0 \<longrightarrow> post_readline_watermark b = 0 \<or> post_pos b = post_cl b"
  using assms unfolding body_ok_def by (elim exE conjE) (rule that, assumption+)

lemma readline_enters:
  assumes "body_ok c b s B" "B \<noteq> []" "10 \<notin> set (left_over b)"
  shows "\<exists>b1 m P. uwsgi_request_body_readline c b s = readline_loop c b1 s \<and> areas_ok b1 \<and> post_readline_buf b1 = Some m \<and>
     pend c b1 s P \<and> B = region b1 @ P \<and> region b1 = left_over b \<and> same_body b b1 \<and> enough c (post_cl b1)"
proof -
  from assms(1) obtain P where P: "areas_ok b" "enough c (post_cl b)" "pend c b s P" "B = left_over b @ P"
    "post_readline_pos b = 0 \<longrightarrow> post_readline_watermark b = 0 \<or> post_pos b = post_cl b" by (rule body_okE)
  have ar: "post_readline_pos b \<le> post_readline_watermark b" "post_readline_watermark b \<le> post_readline_size b"
    using P(1) by (simp_all add: areas_ok_def)
  show ?thesis
  proof (cases "post_readline_pos b = 0")
    case False
    then obtain m where m: "post_readline_buf b = Some m"
      using P(1) ar by (cases "post_readline_buf b") (auto simp: areas_ok_def)
    have "take_line b = Some (None, b)" using take_line_none [OF P(1) m] False assms(3) by (simp add: left_over_def)
    then have "uwsgi_request_body_readline c b s = readline_loop c b s"
      using False m by (simp add: uwsgi_request_body_readline_def)
    with P m False show ?thesis
      by (rule_tac exI [of _ b], rule_tac exI [of _ m], rule_tac exI [of _ P]) (simp add: left_over_def same_body_def)
  next
    case True
    then have B: "B = P" using P(4) by (simp add: left_over_def)
    have "0 < length P" using assms(2) B by simp
    then have lt: "post_pos b < post_cl b" using pend_length [OF P(3)] by simp
    then have w: "post_readline_watermark b = 0" using P(5) True by simp
    have r: "region b = []" using length_region [OF P(1)] w by simp
    show ?thesis
    proof (cases "post_readline_buf b")
      case (Some m)
      then have "uwsgi_request_body_readline c b s = readline_loop c b s"
        using True lt by (simp add: uwsgi_request_body_readline_def)
      with P Some True B r show ?thesis
        by (rule_tac exI [of _ b], rule_tac exI [of _ m], rule_tac exI [of _ P]) (simp add: left_over_def same_body_def)
    next
      case None
      let ?a = "min (bc_buffer_size c) (post_cl b)"
      let ?m = "replicate ?a (junk (bc_env c))"
      let ?b = "b\<lparr>post_readline_buf := Some ?m, post_readline_size := ?a\<rparr>"
      have "alloc_ok (bc_env c) ?a" using P(2) by (simp add: enough_def)
      then have "uwsgi_request_body_readline c b s = readline_loop c ?b s"
        using True lt None by (simp add: uwsgi_request_body_readline_def Let_def)
      moreover have "areas_ok ?b" using P(1) w True by (simp add: areas_ok_def)
      moreover have "region ?b = []" using w by (simp add: region_def)
      moreover have "pend c ?b s P" using P(3) pend_same [of ?b b c s P] by simp
      ultimately show ?thesis using P True B
        by (rule_tac exI [of _ ?b], rule_tac exI [of _ ?m], rule_tac exI [of _ P]) (simp add: left_over_def same_body_def)
    qed
  qed
qed

lemma same_body_trans: "same_body a b \<Longrightarrow> same_body b c \<Longrightarrow> same_body a c"
  by (simp add: same_body_def)

lemma readline_line:
  assumes "body_ok c b s (l @ 10 # R)" "10 \<notin> set l"
  shows "\<exists>r b' s'. uwsgi_request_body_readline c b s = Some (r, b', s') \<and> piece_bytes b' r = Some (l @ [10]) \<and>
     body_ok c b' s' R \<and> same_body b b' \<and> (R = [] \<longrightarrow> post_readline_pos b' = 0)"
proof (cases "10 \<in> set (left_over b)")
  case False
  from readline_enters [OF assms(1) _ False] obtain b1 m P where
    e: "uwsgi_request_body_readline c b s = readline_loop c b1 s" "areas_ok b1" "post_readline_buf b1 = Some m"
      "pend c b1 s P" "l @ 10 # R = region b1 @ P" "region b1 = left_over b" "same_body b b1" "enough c (post_cl b1)" by auto
  have "10 \<notin> set (region b1)" using e(6) False by simp
  from readline_loop_line [OF e(2-4,8) this e(5) [symmetric] assms(2)] show ?thesis
    unfolding e(1) using same_body_trans [OF e(7)] by blast
next
  case True
  from assms(1) obtain P where P: "areas_ok b" "enough c (post_cl b)" "pend c b s P" "l @ 10 # R = left_over b @ P"
    by (rule body_okE)
  have lo: "post_readline_pos b > 0" "left_over b = region b" using True by (auto simp: left_over_def split: if_splits)
  then obtain m where m: "post_readline_buf b = Some m" using True region_buf [of b] by force
  obtain R1 where R1: "region b = l @ 10 # R1" "R = R1 @ P"
    using split_first [OF P(4) assms(2) True] lo(2) by metis
  from take_line_some [OF P(1) m R1(1) assms(2)] obtain b2 p w where
    t: "take_line b = Some (Some (In_line (post_readline_pos b) (length l + 1)), b2)"
      "b2 = b\<lparr>post_readline_watermark := w, post_readline_pos := p\<rparr>" "areas_ok b2"
      "piece_bytes b2 (In_line (post_readline_pos b) (length l + 1)) = Some (l @ [10])" "left_over b2 = R1" "p = 0 \<longrightarrow> w = 0" "R1 = [] \<longrightarrow> p = 0"
    by blast
  have "pend c b2 s P" using P(3) pend_same [of b2 b c s] t(2) by simp
  then have "body_ok c b2 s R" using t P(2) R1(2) by (auto simp: body_ok_def)
  moreover have "uwsgi_request_body_readline c b s = Some (In_line (post_readline_pos b) (length l + 1), b2, s)"
    using lo(1) t(1) by (simp add: uwsgi_request_body_readline_def)
  ultimately show ?thesis using t(2,4,7) R1(2) by (auto simp: same_body_def)
qed

lemma readline_rest:
  assumes "body_ok c b s B" "10 \<notin> set B" "B \<noteq> []"
  shows "\<exists>r b' s' X. uwsgi_request_body_readline c b s = Some (r, b', s') \<and> piece_bytes b' r = Some (B @ X) \<and>
     body_ok c b' s' [] \<and> same_body b b'"
proof -
  from assms(1) obtain P where "B = left_over b @ P" by (rule body_okE)
  then have n: "10 \<notin> set (left_over b)" using assms(2) by simp
  from readline_enters [OF assms(1,3) n] obtain b1 m P where
    e: "uwsgi_request_body_readline c b s = readline_loop c b1 s" "areas_ok b1" "post_readline_buf b1 = Some m"
      "pend c b1 s P" "B = region b1 @ P" "same_body b b1" "enough c (post_cl b1)" by auto
  have "10 \<notin> set (region b1 @ P)" using e(5) assms(2) by simp
  from readline_loop_rest [OF e(2-4,7) this] show ?thesis
    unfolding e(1) e(5) append_assoc using same_body_trans [OF e(6)] by blast
qed

lemma readline_empty:
  assumes "body_ok c b s []" "post_readline_pos b = 0"
  shows "uwsgi_request_body_readline c b s = Some (Empty, b, s)"
proof -
  from assms obtain P where "pend c b s P" "[] = left_over b @ P" by (elim body_okE)
  then have "post_cl b \<le> post_pos b" using pend_length [of c b s P] by simp
  then show ?thesis using assms(2) by (simp add: uwsgi_request_body_readline_def)
qed

section \<open>Pieces\<close>

text \<open>The area of \<^verbatim>\<open>read()\<close> begins with \<open>r\<close>.\<close>

definition begins :: "body \<Rightarrow> bytes \<Rightarrow> bool" where
  "begins b r \<longleftrightarrow> (case post_read_buf b of None \<Rightarrow> r = [] | Some m \<Rightarrow> length r \<le> length m \<and> take (length r) m = r)"

abbreviation set_read :: "body \<Rightarrow> bytes option \<Rightarrow> nat \<Rightarrow> nat \<Rightarrow> nat \<Rightarrow> body" where
  "set_read b m k w p \<equiv> b\<lparr>post_read_buf := m, post_read_buf_size := k, post_readline_watermark := w, post_readline_pos := p\<rparr>"

lemma residualI:
  "take_residual c b h = Some (Inr (n, h - n, set_read b m k 0 0)) \<Longrightarrow> areas_ok (set_read b m k 0 0) \<Longrightarrow>
   begins (set_read b m k 0 0) r \<Longrightarrow>
   \<exists>b' m k. take_residual c b h = Some (Inr (n, h - n, b')) \<and> b' = set_read b m k 0 0 \<and> areas_ok b' \<and> begins b' r"
  by blast

lemma residual_rest:
  assumes "areas_ok b" "enough c (post_cl b)" "post_readline_pos b = 0 \<longrightarrow> post_readline_watermark b = 0"
    and "length (left_over b) < h"
  shows "\<exists>b' m k. take_residual c b h = Some (Inr (length (left_over b), h - length (left_over b), b')) \<and>
     b' = set_read b m k 0 0 \<and> areas_ok b' \<and> begins b' (left_over b)"
proof (cases "post_readline_pos b = 0")
  case True
  have e: "set_read b (post_read_buf b) (post_read_buf_size b) 0 0 = b" using True assms(3) by simp
  have "left_over b = []" "take_residual c b h = Some (Inr (0, h, b))"
    using True by (simp_all add: left_over_def take_residual_def)
  moreover have "begins b []" by (simp add: begins_def split: option.splits)
  ultimately show ?thesis using assms(1)
    by (intro residualI [where m = "post_read_buf b" and k = "post_read_buf_size b"]) (simp_all only: e list.size diff_zero)
next
  case False
  have lo: "left_over b = region b" using False by (simp add: left_over_def)
  have ar: "post_readline_pos b \<le> post_readline_watermark b" "post_readline_watermark b \<le> post_readline_size b"
    "post_readline_watermark b \<le> post_pos b" "post_pos b \<le> post_cl b" using assms(1) by (simp_all add: areas_ok_def)
  let ?n = "post_readline_watermark b - post_readline_pos b"
  have lr: "length (region b) = ?n" using assms(1) by (rule length_region)
  obtain l where l: "post_readline_buf b = Some l"
    using assms(1) False ar by (cases "post_readline_buf b") (auto simp: areas_ok_def)
  let ?old = "case post_read_buf b of None \<Rightarrow> [] | Some m \<Rightarrow> m"
  obtain mm kk where b1: "(if ?n > post_read_buf_size b then
         map_option (\<lambda>m. b\<lparr>post_read_buf := Some m, post_read_buf_size := ?n\<rparr>) (re_alloc c ?old ?n)
       else Some b) = Some (b\<lparr>post_read_buf := mm, post_read_buf_size := kk\<rparr>)" "area_of mm kk" "?n \<le> kk"
  proof (cases "?n > post_read_buf_size b")
    case True
    have "alloc_ok (bc_env c) ?n" using assms(2) ar by (simp add: enough_def)
    then show ?thesis using True
      by (intro that [where mm = "Some (take ?n ?old @ replicate (?n - length ?old) (junk (bc_env c)))" and kk = ?n]) (simp_all add: re_alloc_def)
  next
    case False
    then show ?thesis using assms(1) by (intro that [where mm = "post_read_buf b" and kk = "post_read_buf_size b"]) (simp_all add: areas_ok_def)
  qed
  have rd: "mem_read l (post_readline_pos b) ?n = Some (region b)" using region_read(1) [OF assms(1) l] .
  obtain m where m: "(if ?n = 0 then Some mm else do { m \<leftarrow> mm; map_option Some (mem_write m 0 (region b)) }) = Some m"
    "area_of m kk" "case m of None \<Rightarrow> region b = [] | Some m \<Rightarrow> length (region b) \<le> length m \<and> take (length (region b)) m = region b"
  proof (cases "?n = 0")
    case True
    then show ?thesis using that [of mm] b1(2) lr by (auto split: option.splits)
  next
    case False
    then obtain m0 where m0: "mm = Some m0" "length m0 = kk" using b1(2,3) by (cases mm) auto
    obtain m1 where m1: "mem_write m0 0 (region b) = Some m1" using m0 b1(3) lr by (simp add: mem_write_def)
    show ?thesis using that [of "Some m1"] m0 m1 False b1(3) lr mem_write_length [OF m1] mem_write_upto [OF m1] by simp
  qed
  have h: "\<not> h \<le> ?n" using assms(4) lo lr by simp
  have "take_residual c b h = Some (Inr (?n, h - ?n, set_read b m kk 0 0))"
  proof (cases "?n = 0")
    case True
    then show ?thesis unfolding take_residual_def Let_def b1(1) using \<open>post_readline_pos b \<noteq> 0\<close> h m(1) by simp
  next
    case n: False
    then obtain m0 m1 where "mm = Some m0" "mem_write m0 0 (region b) = Some m1" "m = Some m1"
      using m(1) by (cases mm) auto
    then show ?thesis unfolding take_residual_def Let_def b1(1) using \<open>post_readline_pos b \<noteq> 0\<close> h rd l n by simp
  qed
  moreover have "areas_ok (set_read b m kk 0 0)" using assms(1) m(2) by (simp add: areas_ok_def)
  moreover have "begins (set_read b m kk 0 0) (region b)" using m(3) by (simp add: begins_def)
  ultimately show ?thesis unfolding lo lr by (rule residualI)
qed

text \<open>The area is made large enough for what is to be read.\<close>

lemma read_area_fits:
  assumes "areas_ok b" "enough c (post_cl b)" "begins b r" "0 < k" "length r + k \<le> post_cl b"
  shows "\<exists>m. read_area c b (length r) k = Some (b\<lparr>post_read_buf := Some m, post_read_buf_size := length m\<rparr>) \<and>
     length r + k \<le> length m \<and> take (length r) m = r"
proof (cases "post_read_buf b")
  case None
  moreover have "alloc_ok (bc_env c) k" using assms(2,5) by (simp add: enough_def)
  ultimately show ?thesis using assms(3)
    by (rule_tac exI [of _ "replicate k (junk (bc_env c))"]) (simp add: read_area_def begins_def)
next
  case (Some m)
  have m: "length m = post_read_buf_size b" "length r \<le> length m" "take (length r) m = r"
    using assms(1,3) Some by (simp_all add: areas_ok_def begins_def)
  have "length r + k < SIZE_MOD" using assms(1,5) by (simp add: areas_ok_def)
  then have s: "sz_add k (length r) = length r + k" by (simp add: sz_simps add.commute)
  have al: "alloc_ok (bc_env c) (length r + k)" using assms(2,5) by (simp add: enough_def)
  show ?thesis
  proof (cases "length r + k > post_read_buf_size b")
    case True
    then show ?thesis using Some s al m
      by (rule_tac exI [of _ "m @ replicate (length r + k - length m) (junk (bc_env c))"]) (simp add: read_area_def re_alloc_def)
  next
    case False
    then have "read_area c b (length r) k = Some (b\<lparr>post_read_buf := Some m, post_read_buf_size := length m\<rparr>)"
      using Some s m by (cases b) (simp add: read_area_def)
    with False m show ?thesis by (intro exI [of _ m]) simp
  qed
qed

lemma read_step:
  assumes "remains \<noteq> 0" "gives remains s (if waiting then wait_read remains s else try_read remains s)"
    and "post_read_buf b = Some m" "rlen + remains \<le> length m"
  shows "\<exists>bs m' s'. body_loop b rlen remains waiting s =
       body_loop (b\<lparr>post_read_buf := Some m', post_pos := post_pos b + length bs\<rparr>) (rlen + length bs) (remains - length bs) False s' \<and>
     bs \<noteq> [] \<and> length bs \<le> remains \<and> mem_write m rlen bs = Some m' \<and> src_bytes s = bs @ src_bytes s' \<and> src_ok s'"
proof -
  from assms(2) obtain bs s' where g: "(if waiting then wait_read remains s else try_read remains s) = Some (Data bs, s')"
    "bs \<noteq> []" "length bs \<le> remains" "src_bytes s = bs @ src_bytes s'" "src_ok s'" by (auto simp: gives_def)
  obtain m' where m': "mem_write m rlen bs = Some m'" using assms(4) g(3) by (simp add: mem_write_def)
  have "body_loop b rlen remains waiting s =
       body_loop (b\<lparr>post_read_buf := Some m', post_pos := post_pos b + length bs\<rparr>) (rlen + length bs) (remains - length bs) False s'"
    using assms(1,3) g(1) m' by (subst body_loop.simps) simp
  with g m' show ?thesis by blast
qed

lemma body_loop_reads:
  assumes "post_read_buf b = Some m" "rlen + remains \<le> length m" "src_ok s" "remains \<le> length (src_bytes s)"
  shows "\<exists>m' s'. body_loop b rlen remains False s =
       Some (In_read (rlen + remains), b\<lparr>post_read_buf := Some m', post_pos := post_pos b + remains\<rparr>, s') \<and>
     length m' = length m \<and> take (rlen + remains) m' = take rlen m @ take remains (src_bytes s) \<and>
     src_bytes s' = drop remains (src_bytes s) \<and> src_ok s'"
  using assms
proof (induction remains arbitrary: b m rlen s rule: less_induct)
  case (less n)
  show ?case
  proof (cases "n = 0")
    case True
    then show ?thesis using less.prems by (cases b) (simp add: body_loop.simps)
  next
    case False
    have "src_bytes s \<noteq> []" using False less.prems(4) by auto
    from read_or_wait_gives(2) [OF less.prems(3) this] False consider
        (now) "gives n s (try_read n s)" | (later) s1 where "try_read n s = Some (Retry, s1)" "src_bytes s1 = src_bytes s" "gives n s1 (wait_read n s1)"
      by auto
    then have "\<exists>bs m' s'. body_loop b rlen n False s =
        body_loop (b\<lparr>post_read_buf := Some m', post_pos := post_pos b + length bs\<rparr>) (rlen + length bs) (n - length bs) False s' \<and>
      bs \<noteq> [] \<and> length bs \<le> n \<and> mem_write m rlen bs = Some m' \<and> src_bytes s = bs @ src_bytes s' \<and> src_ok s'"
    proof cases
      case now
      then show ?thesis using read_step [of n s False b m rlen] False less.prems(1,2) by simp
    next
      case later
      have "body_loop b rlen n False s = body_loop b rlen n True s1"
        using False later(1) by (subst body_loop.simps) simp
      then show ?thesis using later(2,3) read_step [of n s1 True b m rlen] False less.prems(1,2) by simp
    qed
    then obtain bs m1 s1 where g: "body_loop b rlen n False s =
        body_loop (b\<lparr>post_read_buf := Some m1, post_pos := post_pos b + length bs\<rparr>) (rlen + length bs) (n - length bs) False s1"
      "bs \<noteq> []" "length bs \<le> n" "mem_write m rlen bs = Some m1" "src_bytes s = bs @ src_bytes s1" "src_ok s1" by blast
    let ?b = "b\<lparr>post_read_buf := Some m1, post_pos := post_pos b + length bs\<rparr>"
    have "n - length bs < n" "post_read_buf ?b = Some m1" "rlen + length bs + (n - length bs) \<le> length m1"
      "n - length bs \<le> length (src_bytes s1)"
      using g(2,3,5) False less.prems(2,4) mem_write_length [OF g(4)] by (auto simp: diff_less)
    from less.IH [OF this(1,2,3) g(6) this(4)] obtain m' s' where
      r: "body_loop ?b (rlen + length bs) (n - length bs) False s1 =
         Some (In_read (rlen + length bs + (n - length bs)), ?b\<lparr>post_read_buf := Some m', post_pos := post_pos ?b + (n - length bs)\<rparr>, s')"
        "length m' = length m1" "take (rlen + length bs + (n - length bs)) m' = take (rlen + length bs) m1 @ take (n - length bs) (src_bytes s1)"
        "src_bytes s' = drop (n - length bs) (src_bytes s1)" "src_ok s'" by blast
    have "take (rlen + n) m' = take rlen m @ take n (src_bytes s)"
      using r(3) mem_write_upto [OF g(4)] g(3,5) by simp
    then show ?thesis using r g mem_write_length [OF g(4)]
      by (rule_tac exI [of _ m'], rule_tac exI [of _ s']) simp
  qed
qed

text \<open>The two halves of a read: the rest of the body that is taken, and what is done for it.\<close>

definition read_rest :: "bconf \<Rightarrow> body \<Rightarrow> source \<Rightarrow> nat \<Rightarrow> nat \<Rightarrow> (piece \<times> body \<times> source) option" where
  "read_rest c b s rlen remains =
     (let remains = (if sz_add remains (post_pos b) > post_cl b then sz_sub (post_cl b) (post_pos b) else remains) in
      if remains = 0 then Some (if rlen > 0 then In_read rlen else Empty, b, s)
      else if bc_post_buffering c > 0 \<and> post_file b = None then
        Some (In_post (post_pos b) (rlen + remains), b\<lparr>post_pos := post_pos b + remains\<rparr>, s)
      else (case read_area c b rlen remains of
          None \<Rightarrow> Some (Null (-1), read_failed b, s)
        | Some b \<Rightarrow>
            (case post_file b of
               Some f \<Rightarrow> do {
                 m \<leftarrow> post_read_buf b;
                 (ok, m, f) \<leftarrow> fread m rlen remains f;
                 let b = b\<lparr>post_read_buf := Some m, post_file := Some f\<rparr>;
                 Some (if ok then (In_read (rlen + remains), b\<lparr>post_pos := post_pos b + remains\<rparr>, s)
                       else (Null (-1), read_failed b, s)) }
             | None \<Rightarrow> body_loop b rlen remains False s)))"

lemma body_read_rest:
  "uwsgi_request_body_read c b s hint =
     (let remains = nat (hint mod int SIZE_MOD) in
      if (post_cl b = 0 \<or> post_pos b \<ge> post_cl b) \<and> post_readline_pos b = 0 then Some (Empty, b, s)
      else do {
        x \<leftarrow> take_residual c b (if remains = 0 then post_cl b else remains);
        (case x of Inl (r, b) \<Rightarrow> Some (r, b, s) | Inr (rlen, remains, b) \<Rightarrow> read_rest c b s rlen remains) })"
  unfolding uwsgi_request_body_read_def read_rest_def by (rule refl)

lemma read_rest_reads:
  assumes "areas_ok b" "enough c (post_cl b)" "pend c b s P" "begins b l" "length l \<le> post_pos b"
    and "post_readline_pos b = 0" "post_readline_watermark b = 0"
    and "0 < n" "n < OBJ_MAX" "bc_post_buffering c > 0 \<and> post_file b = None \<longrightarrow> l = []"
  shows "\<exists>r b' s'. read_rest c b s (length l) n = Some (r, b', s') \<and> piece_bytes b' r = Some (l @ take n P) \<and>
     body_ok c b' s' (drop n P) \<and> same_body b b' \<and> left_over b' = []"
proof -
  obtain k where k_def: "k = min n (length P)" by blast
  have le: "post_pos b \<le> post_cl b" "post_cl b < OBJ_MAX" using assms(1) by (simp_all add: areas_ok_def)
  have lP: "length P = post_cl b - post_pos b" using assms(3) by (rule pend_length)
  have z: "sz_add n (post_pos b) = n + post_pos b" "sz_sub (post_cl b) (post_pos b) = length P"
    using le assms(9) lP by (simp_all add: sz_simps)
  have kk: "(if sz_add n (post_pos b) > post_cl b then sz_sub (post_cl b) (post_pos b) else n) = k"
    using z le lP by (auto simp: k_def min_def)
  have fin: ?thesis if "read_rest c b s (length l) n = Some (r, b1, s1)" "piece_bytes b1 r = Some (l @ take k P)"
      "pend c b1 s1 (drop k P)" "areas_ok b1" "same_body b b1" "post_readline_pos b1 = 0" "post_readline_watermark b1 = 0"
    for r b1 s1
  proof -
    have "left_over b1 = []" using that(6) by (simp add: left_over_def)
    moreover have "take k P = take n P" "drop k P = drop n P" by (simp_all add: k_def min_def)
    moreover have "enough c (post_cl b1)" using that(5) assms(2) by (simp add: same_body_def)
    ultimately show ?thesis using that by (auto simp: body_ok_def)
  qed
  show ?thesis
  proof (cases "k = 0")
    case True
    then have P: "P = []" using assms(8) by (cases P) (simp_all add: k_def min_def split: if_splits)
    have "read_rest c b s (length l) n = Some (if length l > 0 then In_read (length l) else Empty, b, s)"
      unfolding read_rest_def Let_def kk using True by simp
    then show ?thesis
    proof (rule fin)
      show "piece_bytes b (if length l > 0 then In_read (length l) else Empty) = Some (l @ take k P)"
        using assms(4) P by (cases "post_read_buf b") (auto simp: begins_def mem_read_def)
    qed (use assms P in \<open>simp_all add: same_body_def\<close>)
  next
    case k: False
    then have kl: "0 < k" "k \<le> length P" "length l + k \<le> post_cl b" using lP le assms(5) by (auto simp: k_def)
    show ?thesis
    proof (cases "bc_post_buffering c > 0 \<and> post_file b = None")
      case True
      then have l: "l = []" using assms(10) by blast
      let ?b = "b\<lparr>post_pos := post_pos b + k\<rparr>"
      note pm = pend_mem [OF assms(3) conjunct2 [OF True] conjunct1 [OF True] kl(2), of ?b]
      have "read_rest c b s (length l) n = Some (In_post (post_pos b) k, ?b, s)"
        unfolding read_rest_def Let_def kk using k True l by simp
      then show ?thesis
      proof (rule fin)
        show "piece_bytes ?b (In_post (post_pos b) k) = Some (l @ take k P)" using pm(2) kl(1) True l by simp
        show "pend c ?b s (drop k P)" using pm(1) True by simp
        show "areas_ok ?b" using assms(1) kl lP le by (auto simp: areas_ok_def)
      qed (use assms in \<open>simp_all add: same_body_def\<close>)
    next
      case False
      from read_area_fits [OF assms(1,2,4) kl(1,3)] obtain m where
        m: "read_area c b (length l) k = Some (b\<lparr>post_read_buf := Some m, post_read_buf_size := length m\<rparr>)"
          "length l + k \<le> length m" "take (length l) m = l" by blast
      let ?b1 = "b\<lparr>post_read_buf := Some m, post_read_buf_size := length m\<rparr>"
      show ?thesis
      proof (cases "post_file b")
        case (Some f)
        have pe: "pend c ?b1 s P" using assms(3) pend_same [of ?b1 b c s] by simp
        have fb: "post_file ?b1 = Some f" using Some by simp
        from fread_pend [OF pe fb kl(1,2) m(2)] obtain m' where
          m': "fread m (length l) k f = Some (True, m', fst f, snd f + k)" "mem_write m (length l) (take k P) = Some m'" by blast
        let ?b = "?b1\<lparr>post_read_buf := Some m', post_file := Some (fst f, snd f + k), post_pos := post_pos b + k\<rparr>"
        have "read_rest c b s (length l) n = Some (In_read (length l + k), ?b, s)"
          unfolding read_rest_def Let_def kk using k m(1) Some m'(1) by simp
        then show ?thesis
        proof (rule fin)
          show "piece_bytes ?b (In_read (length l + k)) = Some (l @ take k P)"
            using mem_write_upto [OF m'(2)] mem_write_length [OF m'(2)] m(2,3) kl(2) by (simp add: mem_read_def min.absorb2)
          show "pend c ?b s (drop k P)" by (rule pend_file [OF assms(3) Some kl(2)]) simp_all
          show "areas_ok ?b" using assms(1) kl lP le mem_write_length [OF m'(2)] by (auto simp: areas_ok_def)
        qed (use assms Some in \<open>simp_all add: same_body_def\<close>)
      next
        case None
        then have zb: "bc_post_buffering c = 0" using False by simp
        have ok: "src_ok s" "P = take (length P) (src_bytes s)" using pendD(3) [OF assms(3) None zb] by blast+
        have tk: "take k (src_bytes s) = take k P" by (rule take_app_take [OF ok(2) kl(2)])
        have ls: "k \<le> length (src_bytes s)" using ok(2) kl(2) by (metis length_take min.cobounded1 order_trans)
        from body_loop_reads [of ?b1 m "length l" k s] m(2) ok(1) ls obtain m' s' where
          r: "body_loop ?b1 (length l) k False s =
               Some (In_read (length l + k), ?b1\<lparr>post_read_buf := Some m', post_pos := post_pos ?b1 + k\<rparr>, s')"
             "length m' = length m" "take (length l + k) m' = take (length l) m @ take k (src_bytes s)"
             "src_bytes s' = drop k (src_bytes s)" "src_ok s'" by auto
        let ?b = "?b1\<lparr>post_read_buf := Some m', post_pos := post_pos ?b1 + k\<rparr>"
        have "read_rest c b s (length l) n = Some (In_read (length l + k), ?b, s')"
          unfolding read_rest_def Let_def kk using k m(1) None zb r(1) by simp
        then show ?thesis
        proof (rule fin)
          show "piece_bytes ?b (In_read (length l + k)) = Some (l @ take k P)"
            using r(2,3) m(2,3) tk by (simp add: mem_read_def)
          have lk: "length (take k P) = k" using kl(2) by simp
          have "src_bytes s = take k P @ src_bytes s'" using r(4) tk by (metis append_take_drop_id)
          from pend_net(1) [OF assms(3) None zb _ this r(5), of ?b] show "pend c ?b s' (drop k P)"
            unfolding lk using kl(2) None by simp
          show "areas_ok ?b" using assms(1) kl lP le r(2) by (auto simp: areas_ok_def)
        qed (use assms None in \<open>simp_all add: same_body_def\<close>)
      qed
    qed
  qed
qed

lemma body_read:
  assumes "body_ok c b s B" "0 \<le> hint" "hint < int OBJ_MAX"
    and "bc_post_buffering c > 0 \<and> post_file b = None \<longrightarrow> left_over b = []"
  shows "\<exists>r b' s'. uwsgi_request_body_read c b s hint = Some (r, b', s') \<and>
     piece_bytes b' r = Some (if hint = 0 then B else take (nat hint) B) \<and>
     body_ok c b' s' (if hint = 0 then [] else drop (nat hint) B) \<and> same_body b b' \<and> (left_over b = [] \<longrightarrow> left_over b' = [])"
proof -
  from assms(1) obtain P where P: "areas_ok b" "enough c (post_cl b)" "pend c b s P" "B = left_over b @ P"
    "post_readline_pos b = 0 \<longrightarrow> post_readline_watermark b = 0 \<or> post_pos b = post_cl b" by (rule body_okE)
  have ar: "post_readline_pos b \<le> post_readline_watermark b" "post_readline_watermark b \<le> post_readline_size b"
    "post_readline_watermark b \<le> post_pos b" "post_pos b \<le> post_cl b" "post_cl b < OBJ_MAX"
    using P(1) by (simp_all add: areas_ok_def)
  have lP: "length P = post_cl b - post_pos b" using P(3) by (rule pend_length)
  have lo: "length (left_over b) \<le> post_pos b" using length_region [OF P(1)] ar by (auto simp: left_over_def)
  let ?h = "if hint = 0 then post_cl b else nat hint"
  have tk: "(if hint = 0 then B else take (nat hint) B) = take ?h B" "(if hint = 0 then [] else drop (nat hint) B) = drop ?h B"
    using lo lP ar P(4) by auto
  have m: "nat (hint mod int SIZE_MOD) = nat hint" using assms(2,3) by simp
  show ?thesis
  proof (cases "(post_cl b = 0 \<or> post_pos b \<ge> post_cl b) \<and> post_readline_pos b = 0")
    case True
    then have "B = []" using lP ar P(4) by (auto simp: left_over_def)
    moreover have "uwsgi_request_body_read c b s hint = Some (Empty, b, s)"
      unfolding body_read_rest using True by (simp add: Let_def)
    ultimately show ?thesis using assms(1) by (simp add: same_body_def)
  next
    case False
    then have cl: "post_cl b > 0" using ar by auto
    then have h: "0 < ?h" "?h < OBJ_MAX" using assms(2,3) ar by auto
    have w: "post_readline_pos b = 0 \<longrightarrow> post_readline_watermark b = 0" using P(5) False by auto
    have run: "uwsgi_request_body_read c b s hint = do {
        x \<leftarrow> take_residual c b ?h;
        (case x of Inl (r, b) \<Rightarrow> Some (r, b, s) | Inr (rlen, remains, b) \<Rightarrow> read_rest c b s rlen remains) }"
      unfolding body_read_rest m Let_def using False assms(2) by (simp only: if_False) auto
    show ?thesis
    proof (cases "length (left_over b) < ?h")
      case True
      from residual_rest [OF P(1,2) w True] obtain b1 m k where
        r: "take_residual c b ?h = Some (Inr (length (left_over b), ?h - length (left_over b), b1))"
          "b1 = set_read b m k 0 0" "areas_ok b1" "begins b1 (left_over b)" by blast
      have b1: "post_cl b1 = post_cl b" "post_pos b1 = post_pos b" "post_file b1 = post_file b"
        "post_buffering_buf b1 = post_buffering_buf b" "post_readline_pos b1 = 0" "post_readline_watermark b1 = 0"
        using r(2) by simp_all
      have n: "0 < ?h - length (left_over b)" "?h - length (left_over b) < OBJ_MAX" using True h(2) by linarith+
      have en: "enough c (post_cl b1)" and pe: "pend c b1 s P" and lb: "length (left_over b) \<le> post_pos b1"
        and nm: "bc_post_buffering c > 0 \<and> post_file b1 = None \<longrightarrow> left_over b = []"
        using P(2,3) b1 pend_same [of b1 b c s P] lo assms(4) by simp_all
      from read_rest_reads [OF r(3) en pe r(4) lb b1(5,6) n nm] obtain r' b' s' where
        f: "read_rest c b1 s (length (left_over b)) (?h - length (left_over b)) = Some (r', b', s')"
          "piece_bytes b' r' = Some (left_over b @ take (?h - length (left_over b)) P)"
          "body_ok c b' s' (drop (?h - length (left_over b)) P)" "same_body b1 b'" "left_over b' = []" by blast
      have "take ?h B = left_over b @ take (?h - length (left_over b)) P" "drop ?h B = drop (?h - length (left_over b)) P"
        using P(4) True by simp_all
      moreover have "same_body b b'" using f(4) b1 by (simp add: same_body_def)
      ultimately show ?thesis unfolding tk run using r(1) f by simp
    next
      case no: False
      then have p: "post_readline_pos b > 0" "left_over b = region b" using h(1) by (auto simp: left_over_def split: if_splits)
      have le: "?h \<le> length (region b)" using no p(2) by simp
      then have ne: "region b \<noteq> []" using h(1) by auto
      from region_buf [OF ne] obtain l where l: "post_readline_buf b = Some l" by blast
      let ?b = "b\<lparr>post_readline_pos := post_readline_pos b + ?h\<rparr>"
      have "take_residual c b ?h = Some (Inl (In_line (post_readline_pos b) ?h, ?b))"
        using p(1) le length_region [OF P(1)] by (simp add: take_residual_def Let_def)
      then have "uwsgi_request_body_read c b s hint = Some (In_line (post_readline_pos b) ?h, ?b, s)" unfolding run by simp
      moreover have "piece_bytes ?b (In_line (post_readline_pos b) ?h) = Some (take ?h B)"
        using region_read(2) [OF P(1) l le] l P(4) p(2) le by simp
      moreover have "areas_ok ?b" using P(1) le length_region [OF P(1)] ar by (auto simp: areas_ok_def)
      moreover have "left_over ?b = drop ?h (left_over b)"
        using p l by (simp add: left_over_def region_def drop_take add.commute)
      moreover have "pend c ?b s P" using P(3) pend_same [of ?b b c s P] by simp
      ultimately show ?thesis unfolding tk using P(2,4) p le by (auto simp: body_ok_def same_body_def)
    qed
  qed
qed

section \<open>The body as a stream of bytes\<close>

datatype body_op = Read int | Line

fun stream_step :: "bytes \<Rightarrow> body_op \<Rightarrow> bytes \<times> bytes" where
  "stream_step B (Read h) = (if h = 0 then (B, []) else (take (nat h) B, drop (nat h) B))"
| "stream_step B Line = (let l = takeWhile (\<lambda>x. x \<noteq> 10) B in (take (length l + 1) B, drop (length l + 1) B))"

fun stream_run :: "bytes \<Rightarrow> body_op list \<Rightarrow> bytes list" where
  "stream_run B [] = []"
| "stream_run B (op # ops) = fst (stream_step B op) # stream_run (snd (stream_step B op)) ops"

fun run_ops :: "('s \<Rightarrow> body_op \<Rightarrow> (bytes \<times> 's) option) \<Rightarrow> 's \<Rightarrow> body_op list \<Rightarrow> bytes list option" where
  "run_ops step s [] = Some []"
| "run_ops step s (op # ops) = do { (bs, s) \<leftarrow> step s op; bss \<leftarrow> run_ops step s ops; Some (bs # bss) }"

fun all_ok :: "(bytes \<Rightarrow> body_op \<Rightarrow> bool) \<Rightarrow> bytes \<Rightarrow> body_op list \<Rightarrow> bool" where
  "all_ok ok B [] \<longleftrightarrow> True"
| "all_ok ok B (op # ops) \<longleftrightarrow> ok B op \<and> all_ok ok (snd (stream_step B op)) ops"

locale byte_stream =
  fixes step :: "'s \<Rightarrow> body_op \<Rightarrow> (bytes \<times> 's) option"
    and holds :: "'s \<Rightarrow> bytes \<Rightarrow> bool"
    and ok :: "bytes \<Rightarrow> body_op \<Rightarrow> bool"
  assumes law: "holds s B \<Longrightarrow> ok B op \<Longrightarrow>
    \<exists>s'. step s op = Some (fst (stream_step B op), s') \<and> holds s' (snd (stream_step B op))"
begin

lemma run_follows: "holds s B \<Longrightarrow> all_ok ok B ops \<Longrightarrow> run_ops step s ops = Some (stream_run B ops)"
proof (induction ops arbitrary: s B)
  case (Cons op ops)
  from law [of s B op] Cons.prems obtain s' where
    "step s op = Some (fst (stream_step B op), s')" "holds s' (snd (stream_step B op))" by auto
  with Cons show ?case by simp
qed simp

end

definition body_step :: "bconf \<Rightarrow> body \<times> source \<Rightarrow> body_op \<Rightarrow> (bytes \<times> body \<times> source) option" where
  "body_step c x op = (case x of (b, s) \<Rightarrow> do {
     (r, b, s) \<leftarrow> (case op of Read h \<Rightarrow> uwsgi_request_body_read c b s h | Line \<Rightarrow> uwsgi_request_body_readline c b s);
     bs \<leftarrow> piece_bytes b r;
     Some (bs, b, s) })"

text \<open>
  What a client may call: reads (\<open>ar\<close>) with a size that is not negative, lines (\<open>al\<close>) as long as
  a newline is ahead.  On a body buffered in memory the two do not mix.
\<close>

definition op_ok :: "bool \<Rightarrow> bool \<Rightarrow> bytes \<Rightarrow> body_op \<Rightarrow> bool" where
  "op_ok ar al B op = (case op of Read h \<Rightarrow> ar \<and> 0 \<le> h \<and> h < int OBJ_MAX | Line \<Rightarrow> al \<and> 10 \<in> set B)"

definition body_holds :: "bconf \<Rightarrow> bool \<Rightarrow> bool \<Rightarrow> body \<times> source \<Rightarrow> bytes \<Rightarrow> bool" where
  "body_holds c ar al x B \<longleftrightarrow> body_ok c (fst x) (snd x) B \<and>
     (bc_post_buffering c > 0 \<and> post_file (fst x) = None \<longrightarrow> \<not> (ar \<and> al)) \<and> (ar \<and> \<not> al \<longrightarrow> left_over (fst x) = [])"

lemma body_law:
  assumes "body_holds c ar al x B" "op_ok ar al B op"
  shows "\<exists>x'. body_step c x op = Some (fst (stream_step B op), x') \<and> body_holds c ar al x' (snd (stream_step B op))"
proof -
  obtain b s where x: "x = (b, s)" by (cases x)
  have h: "body_ok c b s B" "bc_post_buffering c > 0 \<and> post_file b = None \<longrightarrow> \<not> (ar \<and> al)" "ar \<and> \<not> al \<longrightarrow> left_over b = []"
    using assms(1) x by (simp_all add: body_holds_def)
  show ?thesis
  proof (cases op)
    case (Read n)
    then have n: "ar" "0 \<le> n" "n < int OBJ_MAX" using assms(2) by (simp_all add: op_ok_def)
    have "bc_post_buffering c > 0 \<and> post_file b = None \<longrightarrow> left_over b = []" using h(2,3) n(1) by blast
    from body_read [OF h(1) n(2,3) this] obtain r b' s' where
      r: "uwsgi_request_body_read c b s n = Some (r, b', s')" "piece_bytes b' r = Some (if n = 0 then B else take (nat n) B)"
        "body_ok c b' s' (if n = 0 then [] else drop (nat n) B)" "same_body b b'" "left_over b = [] \<longrightarrow> left_over b' = []" by blast
    then show ?thesis using h Read x
      by (intro exI [of _ "(b', s')"]) (auto simp: body_step_def body_holds_def same_body_def)
  next
    case Line
    then have n: "al" "10 \<in> set B" using assms(2) by (simp_all add: op_ok_def)
    then obtain l R where B: "B = l @ 10 # R" "10 \<notin> set l" by (metis split_list_first)
    from readline_line [OF h(1) [unfolded B(1)] B(2)] obtain r b' s' where
      r: "uwsgi_request_body_readline c b s = Some (r, b', s')" "piece_bytes b' r = Some (l @ [10])" "body_ok c b' s' R" "same_body b b'"
      by blast
    have "takeWhile (\<lambda>x. x \<noteq> 10) B = l" using B by (simp add: takeWhile_tail) (metis takeWhile_eq_all_conv)
    then have "stream_step B Line = (l @ [10], R)" using B(1) by simp
    then show ?thesis using r h Line x n(1)
      by (intro exI [of _ "(b', s')"]) (auto simp: body_step_def body_holds_def same_body_def)
  qed
qed

interpretation body: byte_stream "body_step c" "body_holds c ar al" "op_ok ar al" for c ar al
  using body_law by unfold_locales

section \<open>Buffering the body first\<close>

definition body_new :: "nat \<Rightarrow> bytes \<Rightarrow> body" where
  "body_new n area = \<lparr>post_cl = n, post_pos = 0, post_file = None, post_buffering_buf = area, post_readline_buf = None,
     post_readline_size = 0, post_readline_watermark = 0, post_readline_pos = 0, post_read_buf = None,
     post_read_buf_size = 0, read_errors = 0\<rparr>"

text \<open>The choice at the end of \<^verbatim>\<open>uwsgi_parse_vars\<close>.\<close>

definition buffer_body :: "bconf \<Rightarrow> body \<Rightarrow> source \<Rightarrow> (int \<times> body \<times> source) option" where
  "buffer_body c b s =
     (if bc_post_buffering c > 0 \<and> post_file b = None then
        if post_cl b \<ge> bc_post_buffering c then uwsgi_postbuffer_do_in_disk c b s else uwsgi_postbuffer_do_in_mem b s
      else Some (0, b, s))"

lemma mem_loop_fills:
  assumes "src_ok s" "n \<le> length (src_bytes s)" "p + n \<le> length (post_buffering_buf b)"
  shows "\<exists>m s'. mem_loop b p n s = Some (0, b\<lparr>post_buffering_buf := m\<rparr>, s') \<and>
     take (p + n) m = take p (post_buffering_buf b) @ take n (src_bytes s)"
  using assms
proof (induction n arbitrary: b p s rule: less_induct)
  case (less n)
  show ?case
  proof (cases "n = 0")
    case True
    then show ?thesis by (cases b) (simp add: mem_loop.simps)
  next
    case False
    have "src_bytes s \<noteq> []" using False less.prems(2) by auto
    from read_or_wait_gives(2) [OF less.prems(1) this, of n] False obtain out s0 bs s1 where
      g: "try_read n s = Some (out, s0)" "(if out = Retry then wait_read n s0 else Some (out, s0)) = Some (Data bs, s1)"
        "bs \<noteq> []" "length bs \<le> n" "src_bytes s = bs @ src_bytes s1" "src_ok s1" by (auto simp: gives_def)
    obtain m where m: "mem_write (post_buffering_buf b) p bs = Some m" using less.prems(3) g(4) by (simp add: mem_write_def)
    have step: "mem_loop b p n s = mem_loop (b\<lparr>post_buffering_buf := m\<rparr>) (p + length bs) (n - length bs) s1"
      using False g(1,2) m by (subst mem_loop.simps) simp
    have "n - length bs < n" "n - length bs \<le> length (src_bytes s1)"
      "p + length bs + (n - length bs) \<le> length (post_buffering_buf (b\<lparr>post_buffering_buf := m\<rparr>))"
      using g(3-5) False less.prems(2,3) mem_write_length [OF m] by (auto simp: diff_less)
    from less.IH [OF this(1) g(6) this(2,3)] obtain m' s' where
      r: "mem_loop (b\<lparr>post_buffering_buf := m\<rparr>) (p + length bs) (n - length bs) s1 = Some (0, b\<lparr>post_buffering_buf := m'\<rparr>, s')"
        "take (p + length bs + (n - length bs)) m' = take (p + length bs) m @ take (n - length bs) (src_bytes s1)" by auto
    then show ?thesis using step g(4,5) mem_write_upto [OF m] by auto
  qed
qed

lemma disk_loop_fills:
  assumes "src_ok s" "n \<le> length (src_bytes s)" "bc_post_buffering c \<le> length (post_buffering_buf b)" "0 < bc_post_buffering c"
    and "post_file b = Some (f, length f)" "\<forall>p. bc_fwrite_ok c p"
  shows "\<exists>m s'. disk_loop c b n s = Some (0, b\<lparr>post_buffering_buf := m, post_file := Some (f @ take n (src_bytes s), 0)\<rparr>, s')"
  using assms(1-3,5)
proof (induction n arbitrary: b f s rule: less_induct)
  case (less n)
  show ?case
  proof (cases "n = 0")
    case True
    then show ?thesis using less.prems(4) by (cases b) (simp add: disk_loop.simps)
  next
    case False
    have "src_bytes s \<noteq> []" using False less.prems(2) by auto
    from read_or_wait_gives(1) [OF less.prems(1) this, of "min n (bc_post_buffering c)"] False assms(4) obtain bs s1 where
      g: "read_or_wait (min n (bc_post_buffering c)) s = Some (Data bs, s1)"
        "bs \<noteq> []" "length bs \<le> min n (bc_post_buffering c)" "src_bytes s = bs @ src_bytes s1" "src_ok s1" by (auto simp: gives_def)
    obtain m where m: "mem_write (post_buffering_buf b) 0 bs = Some m" using less.prems(3) g(3) by (simp add: mem_write_def)
    let ?b = "b\<lparr>post_buffering_buf := m, post_file := Some (f @ bs, length (f @ bs))\<rparr>"
    have step: "disk_loop c b n s = disk_loop c ?b (n - length bs) s1"
      using False g(1) m less.prems(4) assms(6) by (subst disk_loop.simps) (simp add: fwrite_def)
    have "n - length bs < n" "n - length bs \<le> length (src_bytes s1)" "bc_post_buffering c \<le> length (post_buffering_buf ?b)"
      "post_file ?b = Some (f @ bs, length (f @ bs))"
      using g(2-4) False less.prems(2,3) mem_write_length [OF m] by (auto simp: diff_less)
    from less.IH [OF this(1) g(5) this(2-4)] step g(3,4) show ?thesis by auto
  qed
qed

lemma buffer_body_ok:
  assumes "src_ok s" "src_bytes s = B @ X" "enough c (length B)" "length B < OBJ_MAX"
    and "bc_post_buffering c \<le> length area" "bc_tmpfile_ok c" "\<forall>p. bc_fwrite_ok c p"
  shows "\<exists>b s'. buffer_body c (body_new (length B) area) s = Some (0, b, s') \<and> body_ok c b s' B \<and> left_over b = [] \<and>
     (bc_post_buffering c > 0 \<and> post_file b = None \<longleftrightarrow> length B < bc_post_buffering c)"
proof -
  let ?n = "length B" and ?b = "body_new (length B) area"
  have le: "?n \<le> length (src_bytes s)" "take ?n (src_bytes s) = B" using assms(2) by simp_all
  have ok: "body_ok c b s' B \<and> left_over b = []" if "pend c b s' B"
    "b = ?b\<lparr>post_buffering_buf := m, post_file := f\<rparr>" for b s' m f
  proof -
    have "areas_ok b" "left_over b = []" "enough c (post_cl b)" "post_readline_watermark b = 0"
      using that(2) assms(3,4) by (simp_all add: areas_ok_def body_new_def left_over_def)
    with that(1) show ?thesis unfolding body_ok_def by (intro conjI exI [of _ B]) simp_all
  qed
  show ?thesis
  proof (cases "bc_post_buffering c > 0")
    case False
    have "pend c ?b s B" using False assms(1) le by (simp add: pend_def body_new_def)
    from ok [OF this, where m = area and f = None] False show ?thesis by (simp add: buffer_body_def body_new_def)
  next
    case pb: True
    show ?thesis
    proof (cases "?n \<ge> bc_post_buffering c")
      case True
      have "bc_post_buffering c \<le> length (post_buffering_buf (?b\<lparr>post_file := Some ([], 0)\<rparr>))"
        "post_file (?b\<lparr>post_file := Some ([], 0)\<rparr>) = Some ([], length ([] :: bytes))"
        using assms(5) by (simp_all add: body_new_def)
      from disk_loop_fills [OF assms(1) le(1) this(1) pb this(2) assms(7)] obtain m s' where
        r: "disk_loop c (?b\<lparr>post_file := Some ([], 0)\<rparr>) ?n s = Some (0, ?b\<lparr>post_buffering_buf := m, post_file := Some (B, 0)\<rparr>, s')"
        using le(2) by auto
      have "buffer_body c ?b s = Some (0, ?b\<lparr>post_buffering_buf := m, post_file := Some (B, 0)\<rparr>, s')"
        using pb True assms(6) r by (simp add: buffer_body_def uwsgi_postbuffer_do_in_disk_def body_new_def)
      moreover have "pend c (?b\<lparr>post_buffering_buf := m, post_file := Some (B, 0)\<rparr>) s' B"
        by (simp add: pend_def body_new_def)
      ultimately show ?thesis using ok [where s' = s' and m = m and f = "Some (B, 0)"] True by (simp add: body_new_def)
    next
      case False
      have "0 + ?n \<le> length (post_buffering_buf ?b)" using False assms(5) by (simp add: body_new_def)
      from mem_loop_fills [OF assms(1) le(1) this] obtain m s' where
        r: "mem_loop ?b 0 ?n s = Some (0, ?b\<lparr>post_buffering_buf := m\<rparr>, s')" "take ?n m = B" using le(2) by auto
      have "buffer_body c ?b s = Some (0, ?b\<lparr>post_buffering_buf := m\<rparr>, s')"
        using pb False r(1) by (simp add: buffer_body_def uwsgi_postbuffer_do_in_mem_def body_new_def)
      moreover have "pend c (?b\<lparr>post_buffering_buf := m\<rparr>) s' B" using pb r(2) by (simp add: pend_def body_new_def)
      ultimately show ?thesis using ok [where s' = s' and m = m and f = None and b = "?b\<lparr>post_buffering_buf := m\<rparr>"] False pb
        by (simp add: body_new_def)
    qed
  qed
qed

section \<open>Properties\<close>

lemma all_ok_reads: "all_ok (op_ok True True) B ops \<Longrightarrow> Line \<notin> set ops \<Longrightarrow> all_ok (op_ok True False) B ops"
  by (induction ops arbitrary: B) (auto simp: op_ok_def split: body_op.splits)

lemma all_ok_lines: "all_ok (op_ok True True) B ops \<Longrightarrow> (\<forall>h. Read h \<notin> set ops) \<Longrightarrow> all_ok (op_ok False True) B ops"
  by (induction ops arbitrary: B) (auto simp: op_ok_def split: body_op.splits)

definition mixed :: "body_op list \<Rightarrow> bool" where
  "mixed ops \<longleftrightarrow> Line \<in> set ops \<and> (\<exists>h. Read h \<in> set ops)"

lemma body_runs:
  assumes "body_ok c b s B" "left_over b = []" "all_ok (op_ok True True) B ops"
    and "bc_post_buffering c > 0 \<and> post_file b = None \<longrightarrow> \<not> mixed ops"
  shows "run_ops (body_step c) (b, s) ops = Some (stream_run B ops)"
proof (cases "bc_post_buffering c > 0 \<and> post_file b = None")
  case False
  then have "body_holds c True True (b, s) B" using assms(1) by (auto simp: body_holds_def)
  from body.run_follows [OF this assms(3)] show ?thesis .
next
  case True
  then consider (reads) "Line \<notin> set ops" | (lines) "\<forall>h. Read h \<notin> set ops" using assms(4) by (auto simp: mixed_def)
  then show ?thesis
  proof cases
    case reads
    have "body_holds c True False (b, s) B" using assms(1,2) by (simp add: body_holds_def)
    from body.run_follows [OF this all_ok_reads [OF assms(3) reads]] show ?thesis .
  next
    case lines
    have "body_holds c False True (b, s) B" using assms(1) by (simp add: body_holds_def)
    from body.run_follows [OF this all_ok_lines [OF assms(3) lines]] show ?thesis .
  qed
qed

text \<open>
  C2: The body of a request is a stream of bytes, whether it is read from the connection, from a file
  or from memory, and in whatever pieces it comes: a read gives the next bytes and a line the bytes
  up to the next newline. This holds for calls that ask for a line only while a newline is ahead,
  and that are all reads or all lines when the body is buffered in memory. Outside of these two
  conditions the code breaks the stream: the next property is about a line with no newline ahead,
  and a read after a line from memory loses the bytes left over by the line.
\<close>

theorem request_body_is_a_stream:
  assumes "src_ok s" "src_bytes s = B @ X" "enough c (length B)" "length B < OBJ_MAX"
    and "bc_post_buffering c \<le> length area" "bc_tmpfile_ok c" "\<forall>p. bc_fwrite_ok c p"
    and "all_ok (op_ok True True) B ops" "length B < bc_post_buffering c \<longrightarrow> \<not> mixed ops"
  shows "\<exists>b s'. buffer_body c (body_new (length B) area) s = Some (0, b, s') \<and>
     run_ops (body_step c) (b, s') ops = Some (stream_run B ops)"
proof -
  from buffer_body_ok [OF assms(1-7)] obtain b s' where
    "buffer_body c (body_new (length B) area) s = Some (0, b, s')" "body_ok c b s' B" "left_over b = []"
    "bc_post_buffering c > 0 \<and> post_file b = None \<longleftrightarrow> length B < bc_post_buffering c" by blast
  with body_runs [of c b s' B ops] assms(8,9) show ?thesis by blast
qed

definition bconf_small :: bconf where
  "bconf_small = \<lparr>bc_env = env_small, bc_buffer_size = 4, bc_post_buffering = 0, bc_tmpfile_ok = True, bc_fwrite_ok = (\<lambda>_. True)\<rparr>"

definition source_small :: source where
  "source_small = \<lparr>so_req = preq_new 4, so_chan = \<lparr>ch_evs = [Bytes [97], Again, Bytes [98, 10, 99], Bytes [100, 101, 10]], ch_waits = [1]\<rparr>\<rparr>"

theorem request_body_is_a_stream_witness:
  "\<exists>b s'. buffer_body bconf_small (body_new 7 []) source_small = Some (0, b, s') \<and>
     run_ops (body_step bconf_small) (b, s') [Line, Read 2, Line] = Some [[97, 98, 10], [99, 100], [101, 10]]"
proof -
  have s: "src_ok source_small" "src_bytes source_small = [97, 98, 10, 99, 100, 101, 10] @ []"
    by (simp_all add: src_ok_def src_bytes_def source_small_def kept_def preq_new_def)
  have c: "enough bconf_small 7" "bc_post_buffering bconf_small \<le> length ([] :: bytes)" "bc_tmpfile_ok bconf_small"
    "\<forall>p. bc_fwrite_ok bconf_small p" by (simp_all add: enough_def bconf_small_def) (simp add: env_small_def)
  let ?B = "[97, 98, 10, 99, 100, 101, 10] :: bytes"
  have o: "all_ok (op_ok True True) ?B [Line, Read 2, Line]" "stream_run ?B [Line, Read 2, Line] = [[97, 98, 10], [99, 100], [101, 10]]"
    by (simp_all add: op_ok_def Let_def)
  have l: "length ?B = 7" by simp
  from request_body_is_a_stream [OF s _ _ c(2-4) o(1)] show ?thesis
    unfolding l o(2) using c(1) by (simp add: bconf_small_def)
qed

text \<open>
  C3: A last line without a newline that comes after the lines before it have been used up is
  returned with bytes behind it: the length is that of the whole area, of which only the
  beginning has been read.
\<close>

theorem uwsgi_request_body_readline_returns_too_much:
  assumes "10 \<notin> set l" "10 \<notin> set R" "R \<noteq> []" "length l + 1 + length R \<le> bc_buffer_size c"
    and "bc_post_buffering c = 0" "alloc_ok (bc_env c) (length l + 1 + length R)" "src_ok s" "pq_remains (so_req s) = 0"
    and "ch_evs (so_chan s) = [Bytes (l @ [10]), Bytes R]"
  shows "\<exists>b1 s1 b2 s2 r X. uwsgi_request_body_readline c (body_new (length l + 1 + length R) []) s =
       Some (In_line 0 (length l + 1), b1, s1) \<and>
     uwsgi_request_body_readline c b1 s1 = Some (r, b2, s2) \<and> piece_bytes b2 r = Some (R @ X) \<and> length X = length l + 1"
proof -
  let ?n = "length l + 1 + length R" and ?m = "replicate (length l + 1 + length R) (junk (bc_env c))"
  let ?b0 = "(body_new ?n [])\<lparr>post_readline_buf := Some ?m, post_readline_size := ?n\<rparr>"
  let ?m1 = "l @ 10 # replicate (length R) (junk (bc_env c))"
  let ?m2 = "R @ drop (length R) ?m1"
  let ?s = "\<lambda>evs. s\<lparr>so_chan := (so_chan s)\<lparr>ch_evs := evs\<rparr>\<rparr>"
  let ?b1 = "?b0\<lparr>post_readline_buf := Some ?m1, post_pos := length l + 1\<rparr>"
  have R: "0 < length R" using assms(3) by simp
  have rw: "read_or_wait k (?s (Bytes x # evs)) = Some (Data x, ?s evs)" if "x \<noteq> []" "length x \<le> k" for x k evs
    using that assms(8) by (simp add: read_or_wait_def try_read_def proto_read_body_def uwsgi_proto_base_read_body_def sys_read_def outcome_of_def)
  have s0: "s = ?s [Bytes (l @ [10]), Bytes R]" using assms(9) by (cases s) simp
  have mn: "min (bc_buffer_size c) ?n = ?n" using assms(4) by simp
  have w1: "mem_write ?m 0 (l @ [10]) = Some ?m1" by (simp add: mem_write_def)
  have "line_fill c ?b0 s = Some (True, ?b1\<lparr>post_readline_watermark := length l + 1\<rparr>, ?s [Bytes R])"
    using assms(5) w1 by (subst s0) (simp add: line_fill_def Let_def body_new_def rw)
  then have c1: "consume_body_for_readline c ?b0 s = Some (True, ?b1\<lparr>post_readline_watermark := length l + 1\<rparr>, ?s [Bytes R])"
    using R by (simp add: consume_body_for_readline_def line_room_def body_new_def)
  have t1: "take_line (?b1\<lparr>post_readline_watermark := length l + 1\<rparr>) = Some (Some (In_line 0 (length l + 1)), ?b1)"
    using memchr_first(1) [OF assms(1), of "[]"] by (simp add: take_line_def mem_read_def body_new_def)
  have first: "uwsgi_request_body_readline c (body_new ?n []) s = Some (In_line 0 (length l + 1), ?b1, ?s [Bytes R])"
  proof -
    have "uwsgi_request_body_readline c (body_new ?n []) s = readline_loop c ?b0 s"
      using mn assms(6) by (simp add: uwsgi_request_body_readline_def body_new_def Let_def)
    also have "\<dots> = Some (In_line 0 (length l + 1), ?b1, ?s [Bytes R])"
      using c1 t1 by (subst readline_loop.simps) (simp add: body_new_def)
    finally show ?thesis .
  qed
  let ?b2 = "?b1\<lparr>post_readline_buf := Some ?m2, post_pos := ?n, post_readline_watermark := length R\<rparr>"
  have w2: "mem_write ?m1 0 R = Some ?m2" by (simp add: mem_write_def)
  have "line_fill c ?b1 (?s [Bytes R]) = Some (True, ?b2, ?s [])"
    using assms(3,5) w2 by (simp add: line_fill_def Let_def body_new_def rw)
  then have c2: "consume_body_for_readline c ?b1 (?s [Bytes R]) = Some (True, ?b2, ?s [])"
    using R by (simp add: consume_body_for_readline_def line_room_def body_new_def)
  have t2: "take_line ?b2 = Some (None, ?b2)"
    using memchr_first(2) [OF assms(2)] by (simp add: take_line_def mem_read_def body_new_def)
  have "readline_loop c ?b1 (?s [Bytes R]) = readline_loop c ?b2 (?s [])"
    using c2 t2 R by (subst readline_loop.simps) (simp add: body_new_def)
  also have "\<dots> = Some (In_line 0 ?n, ?b2\<lparr>post_readline_pos := 0\<rparr>, ?s [])"
    by (subst readline_loop.simps) (simp add: body_new_def)
  finally have "uwsgi_request_body_readline c ?b1 (?s [Bytes R]) = Some (In_line 0 ?n, ?b2\<lparr>post_readline_pos := 0\<rparr>, ?s [])"
    using R by (simp add: uwsgi_request_body_readline_def body_new_def)
  moreover have "piece_bytes (?b2\<lparr>post_readline_pos := 0\<rparr>) (In_line 0 ?n) = Some (R @ drop (length R) ?m1)"
    by (simp add: mem_read_def)
  moreover have "length (drop (length R) ?m1) = length l + 1" by simp
  ultimately show ?thesis using first by blast
qed

theorem uwsgi_request_body_readline_returns_too_much_witness:
  "\<exists>b1 s1 b2 s2 r X. uwsgi_request_body_readline bconf_small (body_new 4 [])
       \<lparr>so_req = preq_new 4, so_chan = \<lparr>ch_evs = [Bytes [97, 10], Bytes [98, 99]], ch_waits = []\<rparr>\<rparr> = Some (In_line 0 2, b1, s1) \<and>
     uwsgi_request_body_readline bconf_small b1 s1 = Some (r, b2, s2) \<and> piece_bytes b2 r = Some ([98, 99] @ X) \<and> length X = 2"
proof -
  let ?s = "\<lparr>so_req = preq_new 4, so_chan = \<lparr>ch_evs = [Bytes [97, 10], Bytes [98, 99]], ch_waits = []\<rparr>\<rparr>"
  have l: "length ([97] :: bytes) + 1 = 2" "2 + length ([98, 99] :: bytes) = 4" by simp_all
  have c: "bc_buffer_size bconf_small = 4" "bc_post_buffering bconf_small = 0" "alloc_ok (bc_env bconf_small) 4"
    by (simp_all add: bconf_small_def) (simp add: env_small_def)
  have s: "src_ok ?s" "pq_remains (so_req ?s) = 0" "ch_evs (so_chan ?s) = [Bytes ([97] @ [10]), Bytes [98, 99]]"
    by (simp_all add: src_ok_def kept_def preq_new_def)
  have n: "10 \<notin> set ([97] :: bytes)" "10 \<notin> set ([98, 99] :: bytes)" "[98, 99] \<noteq> ([] :: bytes)" by simp_all
  note t = uwsgi_request_body_readline_returns_too_much [OF n, of bconf_small, unfolded l c(1), OF _ c(2,3) s, simplified]
  show ?thesis using t by simp
qed

end
