(* ===== verification/Spec2Isabelle.thy ===== *)
theory Spec2Isabelle
  imports Hash Queue Sharedarea Cachestore Request Codecs Protos Chunked Writer Websockets Timers Httpproto Router Reader
begin

text \<open>
  A development of the C runtime of this repository.

  The repository is a web shop written with Django (Python, under
  \<^verbatim>\<open>src/dailyfresh/apps\<close>) together with the sources of the server it runs on, uWSGI 2.0.18
  (\<^verbatim>\<open>src/dailyfresh/uwsgi-2.0.18\<close>, written in C).  The C code is modelled: what happens to the bytes of
  a request between a connection and the application and back, and the shared stores the
  applications use.  Paths below are relative to the directory of uWSGI.

  \<^bold>\<open>How the parts work together.\<close>  A socket is served by one of the protocol parsers.  It collects the
  bytes of a connection in the buffer of the request and leaves there one packet of key/value
  pairs; \<^verbatim>\<open>uwsgi_parse_vars\<close> turns the packet into the vector of variables and the fields of the
  request.  The application reads the body through \<^verbatim>\<open>core/reader.c\<close> (or the chunked reader, or the
  websocket reader) and answers through \<^verbatim>\<open>core/writer.c\<close>, whose output goes through the growable
  buffers of \<^verbatim>\<open>core/buffer.c\<close>.  Cache, queue and shared areas are memory shared between all workers.
  Instances announce themselves to a router in datagrams of the same packet format; the router
  chooses one of them for each request it passes on.

  \<^bold>\<open>The theories\<close> and the code they model.
  \<^item> \<open>Prelude\<close>: bytes, memory areas, 64-bit sizes, the \<open>option\<close> convention for undefined behaviour, the
    collections of lemmas the other theories share.
  \<^item> \<open>Buffer\<close>: \<^verbatim>\<open>core/buffer.c\<close>; the record \<open>ubuf\<close> is \<^verbatim>\<open>struct uwsgi_buffer\<close>.  Appends, insertions, growth up to
    a limit, sending; an interface \<open>byte_sink\<close>.
  \<^item> \<open>Strings\<close>: \<^verbatim>\<open>core/strings.c\<close>, \<^verbatim>\<open>core/querystring.c\<close>, \<^verbatim>\<open>core/cookie.c\<close> and string helpers of \<^verbatim>\<open>core/utils.c\<close>.
  \<^item> \<open>Hash\<close>: \<^verbatim>\<open>core/hash.c\<close>.  \<open>Queue\<close>: \<^verbatim>\<open>core/queue.c\<close>, refined to a list of messages (\<open>message_queue\<close>).
    \<open>Sharedarea\<close>: \<^verbatim>\<open>core/sharedarea.c\<close> (\<open>byte_store\<close>).
  \<^item> \<open>Cachebitmap\<close>, \<open>Links\<close>, \<open>Cache\<close>, \<open>Cacheinv\<close>, \<open>Cachestore\<close>: \<^verbatim>\<open>core/cache.c\<close>.  Bitmap of blocks; linked
    lists through item numbers; the operations on the record \<open>cache\<close>; the invariant of hash chains,
    stack of free items, LRU list and blocks; lookup, deletion and store refine a finite map.
  \<^item> \<open>Codecs\<close>: base64, big endian numbers, hexadecimal text, percent codes and the path decoder of
    \<^verbatim>\<open>core/utils.c\<close>.  \<open>Httpdate\<close>: the dates of \<^verbatim>\<open>core/static.c\<close>.
  \<^item> \<open>Protocol\<close> and \<open>Request\<close>: \<^verbatim>\<open>core/protocol.c\<close>.  Packets, arrays, ranges, responses; the request record and
    the parsing of its variables.
  \<^item> \<open>Protos\<close>: \<^verbatim>\<open>proto/base.c\<close>, \<^verbatim>\<open>proto/uwsgi.c\<close>, \<^verbatim>\<open>proto/puwsgi.c\<close>, \<^verbatim>\<open>proto/scgi.c\<close>, \<^verbatim>\<open>proto/fastcgi.c\<close>;
    \<open>Httpproto\<close>: \<^verbatim>\<open>proto/http.c\<close>.  The interface \<open>incremental\<close> states what makes a parser independent of the
    way the connection cuts its bytes.
  \<^item> \<open>Chunked\<close>: \<^verbatim>\<open>core/chunked.c\<close>.  \<open>Reader\<close>: \<^verbatim>\<open>core/reader.c\<close> (\<open>byte_stream\<close>).  \<open>Websockets\<close>:
    \<^verbatim>\<open>core/websockets.c\<close>.  \<open>Writer\<close>: \<^verbatim>\<open>core/writer.c\<close>, \<^verbatim>\<open>core/transformations.c\<close> (\<open>response_socket\<close>).
  \<^item> \<open>Timers\<close>: \<^verbatim>\<open>core/rb_timers.c\<close>, a red-black tree of nodes with pointers in an explicit store, refined to
    a sorted list (\<open>timer_queue\<close>).
  \<^item> \<open>Subscription\<close>: \<^verbatim>\<open>core/subscription.c\<close> and its callers in \<^verbatim>\<open>plugins/corerouter\<close>.  The table of a
    router: hash chains of slots, one for each key, with their nodes, in an explicit store; every
    operation refines a change of the map from keys to nodes.  \<open>Router\<close>: a run of a router as a
    sequence of datagrams, requests and closings (\<open>pool_table\<close>), the node chosen, the rounds of the
    round robin, the datagram of \<^verbatim>\<open>uwsgi_subscription_ub\<close>.
  \<^item> \<open>Spec2Isabelle\<close>: the properties that span theories.

  \<^bold>\<open>Conventions.\<close>  A structure is a record, a memory area the list of its bytes.  An access outside
  an area, a write through a null pointer and the like have no result: such a function returns
  \<open>None\<close>, and a property that says \<open>Some\<close> says that this does not happen.  Errors of the code are
  values (\<open>-1\<close>, \<open>None\<close> inside the pair).  Sizes wrap at 64 bits (\<open>sz_add\<close>), shorter fields at their
  width.  The outside of the program (what \<^verbatim>\<open>read\<close>, \<^verbatim>\<open>write\<close>, \<^verbatim>\<open>poll\<close>, \<^verbatim>\<open>stat\<close>, \<^verbatim>\<open>malloc\<close>, the clock answer)
  is an argument: a list of answers, consumed from its head, or a value.

  \<^bold>\<open>What the lemmas show.\<close>  For each store (cache, queue, areas, timers, subscriptions): an invariant every operation
  keeps, and the refinement of a map, a list or a sorted list.  For each parser: it reads exactly the
  texts of an independent encoder, whatever the cut.  For readers and writers: the stream of bytes
  is the one intended for every way the connection behaves.  For codecs: round trips.  The
  properties named safety or error state where the code leaves its memory, loops, or refuses good
  input.

  \<^bold>\<open>Loops.\<close>  Loops over an area carry a measure (the distance to the end).  Loops over pointers or
  answers that may not end are partial functions into \<open>option\<close> (\<open>readline_loop\<close>, \<open>ws_loop\<close>, \<open>min_loop\<close>,
  \<open>add_loop\<close>, \<open>balance_loop\<close>, \<open>fixup_loop\<close>, \<open>find_slot\<close>, \<open>last_slot\<close>); the properties show \<open>Some\<close>, that is, that they end.  Two loops
  have fuel: the loop of \<^verbatim>\<open>uwsgi_simple_parse_vars\<close>, whose property states that no amount is enough
  at certain ends of a packet, and \<open>fcgi_drain\<close>, where it bounds the number of reads that discard the
  rest of a FastCGI stream on closing (no property rests on it).

  \<^bold>\<open>Not modelled.\<close>  The process manager (start, master, emperor, mules, spooler, signals, locks), the
  readers of configuration formats, logging, the event loop, TLS, and the plugins but for the tables of the routers: these are
  system calls and glue around foreign libraries, whose effects on the modelled parts are the
  arguments named above.  Threads and the locks of the shared stores are left out: each operation
  runs as one step, as it does under its lock.  Allocation in \<^verbatim>\<open>uwsgi_malloc\<close> succeeds or the process ends.
\<close>

section \<open>A request and its body\<close>

lemma kept_parser:
  assumes "pq_remains q = length rest"
    and "rest \<noteq> [] \<longrightarrow> pq_remains_at q = In_parser j \<and> pq_buf q = Some m \<and> mem_read m j (length rest) = Some rest"
  shows "kept q = rest"
  using assms by (cases "rest = []") (auto simp: kept_def remains_area_def mem_read_Some_iff)

text \<open>
  C1: The body of an HTTP request reaches the application: the request comes in any pieces, the
  last of them with a part of the body, the connection delivers the rest, and the calls of the
  application then read the body as a stream, buffered first in memory or in a file or not at all.
  The calls ask for a line only while a newline is ahead, and on a body buffered in memory they are
  all reads or all lines; the code breaks the stream otherwise (see the theory Reader).
\<close>

theorem http_request_and_body:
  assumes "packet (hc_base c) r []" "pq_buf r = None" "pq_pos r = 0" "pq_status r = 0" "[] \<notin> set cs" "d \<noteq> []"
    and "concat cs @ d = http_head q @ rest" "length (concat cs @ d) \<le> hc_size c" "length (concat cs) < length (http_head q)"
    and "request_ok q" "\<not> hc_proxy_protocol c" "peer_text c = Some peer"
    and "length (enc_vars (request_vars c q peer)) < hc_size c" "length (http_head q) + length (rq_path q) < hc_size c"
    and "rest @ net_bytes evs = B @ X" "delivers False evs ws" "enough k (length B)" "length B < OBJ_MAX"
    and "bc_post_buffering k \<le> length area" "bc_tmpfile_ok k" "\<forall>p. bc_fwrite_ok k p"
    and "all_ok (op_ok True True) B ops" "length B < bc_post_buffering k \<longrightarrow> \<not> mixed ops"
  shows "\<exists>r' b s. feed (uwsgi_proto_http_parser c) r (cs @ [d]) = Some (0, r', []) \<and>
     buffer_body k (body_new (length B) area) \<lparr>so_req = r', so_chan = \<lparr>ch_evs = evs, ch_waits = ws\<rparr>\<rparr> = Some (0, b, s) \<and>
     run_ops (body_step k) (b, s) ops = Some (stream_run B ops)"
proof -
  from http_feed [OF assms(1-14)] obtain r' m j where
    r': "feed (uwsgi_proto_http_parser c) r (cs @ [d]) = Some (0, r', [])" "pq_remains r' = length rest"
      "rest \<noteq> [] \<longrightarrow> pq_remains_at r' = In_parser j \<and> pq_buf r' = Some m \<and> mem_read m j (length rest) = Some rest" by blast
  let ?s = "\<lparr>so_req = r', so_chan = \<lparr>ch_evs = evs, ch_waits = ws\<rparr>\<rparr>"
  have s: "src_ok ?s" "src_bytes ?s = B @ X"
    using kept_parser [OF r'(2,3)] r'(2) assms(15,16) by (simp_all add: src_ok_def src_bytes_def)
  from buffer_body_ok [OF s assms(17-21)] obtain b s' where
    b: "buffer_body k (body_new (length B) area) ?s = Some (0, b, s')" "body_ok k b s' B" "left_over b = []"
      "bc_post_buffering k > 0 \<and> post_file b = None \<longleftrightarrow> length B < bc_post_buffering k" by blast
  have "run_ops (body_step k) (b, s') ops = Some (stream_run B ops)"
    by (rule body_runs [OF b(2,3) assms(22)]) (use b(4) assms(23) in blast)
  with r'(1) b(1) show ?thesis by blast
qed

theorem http_request_and_body_witness:
  "\<exists>r' b s. feed (uwsgi_proto_http_parser http_small) (preq_new 300)
       [take 9 (http_head http_sample), drop 9 (http_head http_sample) @ [7]] = Some (0, r', []) \<and>
     buffer_body bconf_small (body_new 2 []) \<lparr>so_req = r', so_chan = \<lparr>ch_evs = [Again, Bytes [8]], ch_waits = [1]\<rparr>\<rparr> = Some (0, b, s) \<and>
     run_ops (body_step bconf_small) (b, s) [Read 0] = Some [[7, 8]]"
proof -
  let ?q = "http_head http_sample"
  note q = http_sample_ok(4)
  have r: "pq_buf (preq_new 300) = None" "pq_pos (preq_new 300) = 0" "pq_status (preq_new 300) = 0"
    by (simp_all add: preq_new_def)
  have cut: "[] \<notin> set [take 9 ?q]" "drop 9 ?q @ [7] \<noteq> []" "concat [take 9 ?q] @ drop 9 ?q @ [7] = ?q @ [7]"
    using q by auto
  have size: "hc_size http_small = 300" "\<not> hc_proxy_protocol http_small" by (simp_all add: http_small_def)
  have len: "length (concat [take 9 ?q] @ drop 9 ?q @ [7]) \<le> hc_size http_small" "length (concat [take 9 ?q]) < length ?q"
    "length (enc_vars (request_vars http_small http_sample (str ''1.2.3.4''))) < hc_size http_small"
    "length ?q + length (rq_path http_sample) < hc_size http_small"
    unfolding size(1) using q http_sample_ok(3,5) by simp_all
  have b: "[7] @ net_bytes [Again, Bytes [8]] = [7, 8] @ []" "delivers False [Again, Bytes [8]] [1]" by simp_all
  have n: "length ([7, 8] :: bytes) = 2" by simp
  have k: "enough bconf_small 2" "bc_post_buffering bconf_small \<le> length ([] :: bytes)" "bc_tmpfile_ok bconf_small"
    "\<forall>p. bc_fwrite_ok bconf_small p" by (simp_all add: enough_def bconf_small_def) (simp add: env_small_def)
  have o: "all_ok (op_ok True True) [7, 8] [Read 0]" "length ([7, 8] :: bytes) < bc_post_buffering bconf_small \<longrightarrow> \<not> mixed [Read 0]"
    "stream_run [7, 8] [Read 0] = [[7, 8]]" by (simp_all add: op_ok_def mixed_def)
  from http_request_and_body [OF http_small_packet r cut len(1,2) http_sample_ok(1) size(2) http_sample_ok(6) len(3,4) b
      _ _ k(2-4) o(1,2)] k(1)
  show ?thesis unfolding n o(3) append_Cons append_Nil by simp
qed

end
